(* ===== verification/Prelude.thy ===== *)
theory Prelude
  imports Main "HOL-Library.Word"
begin

text \<open>
  Shared vocabulary of the development: the C integer types at their width, the
  little-endian layout of 32-bit and 16-bit integers in byte arrays, generic lemmas on lists
  and words, and the named collections that the component theories feed and use.
\<close>

unbundle bit_operations_syntax

type_synonym byte = "8 word"
type_synonym u16 = "16 word"
type_synonym u32 = "32 word"
type_synonym u64 = "64 word"

named_theorems frame_simps \<open>what an operation leaves unchanged\<close>
named_theorems lock_simps \<open>a state in which a spin lock is held, read and updated\<close>
named_theorems run_simps \<open>rules that execute an operation whose precondition holds\<close>

section \<open>Bytes and integers\<close>

text \<open>x86 stores an integer with its least significant byte first.\<close>

definition le32 :: "u32 \<Rightarrow> byte list" where
  "le32 w = [ucast w, ucast (drop_bit 8 w), ucast (drop_bit 16 w), ucast (drop_bit 24 w)]"

fun get32 :: "byte list \<Rightarrow> u32" where
  "get32 (a # b # c # d # bs) =
     ucast a OR push_bit 8 (ucast b) OR push_bit 16 (ucast c) OR push_bit 24 (ucast d)"
| "get32 _ = 0"

definition le16 :: "u16 \<Rightarrow> byte list" where
  "le16 w = [ucast w, ucast (drop_bit 8 w)]"

fun get16 :: "byte list \<Rightarrow> u16" where
  "get16 (a # b # bs) = ucast a OR push_bit 8 (ucast b)"
| "get16 _ = 0"

lemma length_le32 [simp]: "length (le32 w) = 4"
  by (simp add: le32_def)

lemma length_le16 [simp]: "length (le16 w) = 2"
  by (simp add: le16_def)

lemma get32_le32 [simp]: "get32 (le32 w @ bs) = w"
proof (rule bit_word_eqI)
  fix n assume "n < LENGTH(32)"
  then consider "n < 8" | "8 \<le> n" "n < 16" | "16 \<le> n" "n < 24" | "24 \<le> n" "n < 32"
    by fastforce
  then show "bit (get32 (le32 w @ bs)) n = bit w n"
    by cases (auto simp: le32_def bit_simps)
qed

lemma get16_le16 [simp]: "get16 (le16 w @ bs) = w"
proof (rule bit_word_eqI)
  fix n assume "n < LENGTH(16)"
  then consider "n < 8" | "8 \<le> n" "n < 16" by fastforce
  then show "bit (get16 (le16 w @ bs)) n = bit w n"
    by cases (auto simp: le16_def bit_simps)
qed

text \<open>The character at a pointer into a string that is given as a list: at its end there is the NUL.\<close>

definition chr :: "byte list \<Rightarrow> byte" where
  "chr xs = (case xs of [] \<Rightarrow> 0 | c # _ \<Rightarrow> c)"

lemma chr_simps [simp]: "chr [] = 0" "chr (c # xs) = c"
  by (simp_all add: chr_def)

lemma chr_not_0: "chr xs \<noteq> 0 \<Longrightarrow> xs \<noteq> []"
  by auto

text \<open>A string constant of the source as bytes, and the modes of \<open>open\<close>, which the kernel and the programs share.\<close>

definition str_bytes :: "string \<Rightarrow> byte list" where
  "str_bytes s = map (\<lambda>c. of_nat (of_char c)) s"

definition O_RDONLY :: u32 where "O_RDONLY = 0"
definition O_WRONLY :: u32 where "O_WRONLY = 1"
definition O_RDWR :: u32 where "O_RDWR = 2"
definition O_CREATE :: u32 where "O_CREATE = 0x200"

section \<open>Byte arrays\<close>

text \<open>Overwriting part of an array: \<open>memmove(a + off, src, length src)\<close> on disjoint arrays.\<close>

definition overwrite :: "'a list \<Rightarrow> nat \<Rightarrow> 'a list \<Rightarrow> 'a list" where
  "overwrite a off src = take off a @ src @ drop (off + length src) a"

lemma length_overwrite [simp]:
  "off + length src \<le> length a \<Longrightarrow> length (overwrite a off src) = length a"
  by (simp add: overwrite_def)

lemma take_drop_overwrite [simp]:
  "off \<le> length a \<Longrightarrow> take (length src) (drop off (overwrite a off src)) = src"
  by (simp add: overwrite_def)

lemma nth_overwrite:
  "off + length src \<le> length a \<Longrightarrow> i < length a \<Longrightarrow>
   overwrite a off src ! i =
     (if off \<le> i \<and> i < off + length src then src ! (i - off) else a ! i)"
  by (auto simp: overwrite_def nth_append min_def)

lemma overwrite_append:
  "overwrite (overwrite a 0 xs) (length xs) ys = overwrite a 0 (xs @ ys)"
  by (simp add: overwrite_def add.commute)

lemma overwrite_all [simp]: "length src = length a \<Longrightarrow> overwrite a 0 src = src"
  by (simp add: overwrite_def)

end
