(* ===== verification/Kern.thy ===== *)
theory Kern
  imports Prelude
begin

text \<open>
  The state that every part of the xv6 kernel shares (CPUs, the lock table, the process
  table) and the outcomes of kernel code. A kernel function takes the state and gives an
  outcome:
  \<^item> \<open>Ret x s\<close>: it returns \<open>x\<close> in state \<open>s\<close>;
  \<^item> \<open>Panic msg\<close>: it called \<open>panic(msg)\<close>, which freezes the machine;
  \<^item> \<open>Spin\<close>: it stays in a loop that only another CPU can end (a spin lock held elsewhere,
    a cyclic list), so on its own it never returns;
  \<^item> \<open>Switch s\<close>: the thread gave up its CPU in \<open>swtch\<close> with the machine in state \<open>s\<close>;
  \<^item> \<open>Undef\<close>: it made an access that C leaves undefined (an array index out of range).
  Component theories add their own fields to the record \<open>kern\<close> by record extension, and a
  function of a lower component works on every extension.
\<close>

section \<open>Outcomes and their weakest preconditions\<close>

datatype ('a, 's) outcome = Ret 'a 's | Panic string | Spin | Switch 's | Undef

definition rbind ::
  "('a, 's) outcome \<Rightarrow> ('a \<Rightarrow> 's \<Rightarrow> ('b, 's) outcome) \<Rightarrow> ('b, 's) outcome" where
  "rbind r f = (case r of Ret x s \<Rightarrow> f x s | Panic m \<Rightarrow> Panic m | Spin \<Rightarrow> Spin
     | Switch s \<Rightarrow> Switch s | Undef \<Rightarrow> Undef)"

lemma rbind_simps [simp]:
  "rbind (Ret x s) f = f x s"
  "rbind (Panic m) f = Panic m"
  "rbind Spin f = Spin"
  "rbind (Switch t) f = Switch t"
  "rbind Undef f = Undef"
  by (simp_all add: rbind_def)

lemma rbind_eq_Ret: "rbind r f = Ret y t \<longleftrightarrow> (\<exists>x s. r = Ret x s \<and> f x s = Ret y t)"
  by (cases r) simp_all

lemma rbind_assoc: "rbind (rbind r f) g = rbind r (\<lambda>x s. rbind (f x s) g)"
  by (cases r) simp_all

text \<open>\<open>wp r Q\<close>: the code returns, and its result and final state satisfy \<open>Q\<close>.\<close>

definition wp :: "('a, 's) outcome \<Rightarrow> ('a \<Rightarrow> 's \<Rightarrow> bool) \<Rightarrow> bool" where
  "wp r Q = (case r of Ret x s \<Rightarrow> Q x s | _ \<Rightarrow> False)"

lemma wp_simps [simp]:
  "wp (Ret x s) Q = Q x s"
  "wp (Panic m) Q = False"
  "wp Spin Q = False"
  "wp (Switch t) Q = False"
  "wp Undef Q = False"
  by (simp_all add: wp_def)

lemma wp_rbind: "wp (rbind r f) Q \<longleftrightarrow> wp r (\<lambda>x s. wp (f x s) Q)"
  by (cases r) simp_all

lemma wp_mono: "wp r Q \<Longrightarrow> (\<And>x s. Q x s \<Longrightarrow> Q' x s) \<Longrightarrow> wp r Q'"
  by (cases r) simp_all

lemma wp_rbindI: "wp r P \<Longrightarrow> (\<And>x s. P x s \<Longrightarrow> wp (f x s) Q) \<Longrightarrow> wp (rbind r f) Q"
  by (auto simp: wp_rbind elim: wp_mono)

lemma rbind_cong_wp: "wp r P \<Longrightarrow> (\<And>x s. P x s \<Longrightarrow> f x s = g x s) \<Longrightarrow> rbind r f = rbind r g"
  by (cases r) simp_all

lemma wp_conj: "wp r P \<Longrightarrow> wp r Q \<Longrightarrow> wp r (\<lambda>x s. P x s \<and> Q x s)"
  by (cases r) simp_all

lemma wp_iff: "wp r Q \<longleftrightarrow> (\<exists>x s. r = Ret x s \<and> Q x s)"
  by (cases r) simp_all

text \<open>A counting loop \<open>for(i = ...) body\<close> over the values that \<open>i\<close> takes.\<close>

fun rfor :: "'i list \<Rightarrow> ('i \<Rightarrow> 's \<Rightarrow> (unit, 's) outcome) \<Rightarrow> 's \<Rightarrow> (unit, 's) outcome" where
  "rfor [] f s = Ret () s"
| "rfor (i # is) f s = rbind (f i s) (\<lambda>_ s. rfor is f s)"

lemma rfor_append: "rfor (xs @ ys) f s = rbind (rfor xs f s) (\<lambda>_ t. rfor ys f t)"
proof (induction xs arbitrary: s)
  case (Cons x xs)
  then have "rfor (xs @ ys) f = (\<lambda>s. rbind (rfor xs f s) (\<lambda>_ t. rfor ys f t))" by (rule ext)
  then show ?case by (simp add: rbind_assoc)
qed simp

lemma rbind_Ret [simp]: "rbind r (\<lambda>x s. Ret x s) = r" "rbind u (\<lambda>_ s. Ret () s) = u"
  by (cases r, simp_all) (cases u, simp_all)

section \<open>Locks, processes and CPUs\<close>

text \<open>
  A C pointer to a statically allocated object is modelled by the name of the object.
  A spin lock embedded in a structure is an entry of the lock table under the structure's
  name; a sleep channel (the address of any object) is a \<open>chan\<close>.
\<close>

datatype slockid = SBuf nat | SInode nat

datatype lockid =
  LBcache | LLog | LIcache | LFtable | LKmem | LPtable | LTicks | LIde | LCons
| LPipe u32 | LSleep slockid

datatype chan =
  ChanLog | ChanSleep slockid | ChanTicks | ChanProc nat | ChanBuf nat
| ChanPipeRead u32 | ChanPipeWrite u32 | ChanInput

text \<open>
  \<open>struct spinlock\<close> of spinlock.h. The call stack \<open>pcs\<close> that \<open>acquire\<close> records for a
  debugger is read by no kernel code and is left out.
\<close>

record spinlock =
  locked :: u32
  lkname :: string
  lkcpu :: "nat option"

record sleeplock =
  slocked :: bool
  slname :: string
  spid :: int

datatype procstate = UNUSED | EMBRYO | SLEEPING | RUNNABLE | RUNNING | ZOMBIE

text \<open>\<open>struct trapframe\<close> of x86.h, without its padding.\<close>

record trapframe =
  tf_edi :: u32
  tf_esi :: u32
  tf_ebp :: u32
  tf_ebx :: u32
  tf_edx :: u32
  tf_ecx :: u32
  tf_eax :: u32
  tf_gs :: u16
  tf_fs :: u16
  tf_es :: u16
  tf_ds :: u16
  tf_trapno :: u32
  tf_err :: u32
  tf_eip :: u32
  tf_cs :: u16
  tf_eflags :: u32
  tf_esp :: u32
  tf_ss :: u16

text \<open>\<open>struct proc\<close> of proc.h: a pointer into the process, file or inode table is the index
  of the entry, and the saved kernel context is only its resume address.\<close>

record proc =
  sz :: u32
  pgdir :: u32
  kstack :: u32
  state :: procstate
  pid :: int
  parent :: "nat option"
  tf :: trapframe
  chan :: "chan option"
  killed :: bool
  ofile :: "nat \<Rightarrow> nat option"
  cwd :: "nat option"
  name :: string

record cpu =
  apicid :: byte
  ncli :: int
  intena :: bool
  cproc :: "nat option"

text \<open>
  The shared part of the kernel state. \<open>lapicid\<close> and \<open>iflag\<close> are the identity and the
  interrupt flag (\<open>FL_IF\<close> of \<open>eflags\<close>) of the CPU that executes.
\<close>

record kern =
  cpus :: "nat \<Rightarrow> cpu"
  ncpu :: nat
  lapicid :: byte
  iflag :: bool
  locks :: "lockid \<Rightarrow> spinlock"
  slocks :: "slockid \<Rightarrow> sleeplock"
  procs :: "nat \<Rightarrow> proc"
  nextpid :: int
  initproc :: "nat option"

definition NPROC :: nat where "NPROC = 64"
definition NOFILE :: nat where "NOFILE = 16"
definition NCPU :: nat where "NCPU = 8"

end
