(* ===== verification/Spinlock.thy ===== *)
theory Spinlock
  imports Kern
begin

text \<open>
  spinlock.c and the accessors \<open>mycpu\<close>/\<open>myproc\<close> of proc.c it is mutually dependent with.
  The first part models the functions as one CPU executes them; the second interleaves the
  instructions of several CPUs on one lock and proves mutual exclusion.
\<close>

section \<open>The functions\<close>

definition mycpu :: "'z kern_scheme \<Rightarrow> (nat, 'z kern_scheme) outcome" where
  "mycpu s =
     (if iflag s then Panic ''mycpu called with interrupts enabled\<newline>''
      else case find (\<lambda>i. apicid (cpus s i) = lapicid s) [0..<ncpu s] of
             Some i \<Rightarrow> Ret i s
           | None \<Rightarrow> Panic ''unknown apicid\<newline>'')"

definition pushcli :: "'z kern_scheme \<Rightarrow> (unit, 'z kern_scheme) outcome" where
  "pushcli s =
     (let eflags = iflag s; s = s\<lparr>iflag := False\<rparr> in
      rbind (mycpu s) (\<lambda>c s.
      let s = (if ncli (cpus s c) = 0
               then s\<lparr>cpus := (cpus s)(c := (cpus s c)\<lparr>intena := eflags\<rparr>)\<rparr> else s) in
      Ret () (s\<lparr>cpus := (cpus s)(c := (cpus s c)\<lparr>ncli := ncli (cpus s c) + 1\<rparr>)\<rparr>)))"

definition popcli :: "'z kern_scheme \<Rightarrow> (unit, 'z kern_scheme) outcome" where
  "popcli s =
     (if iflag s then Panic ''popcli - interruptible'' else
      rbind (mycpu s) (\<lambda>c s.
      let s = s\<lparr>cpus := (cpus s)(c := (cpus s c)\<lparr>ncli := ncli (cpus s c) - 1\<rparr>)\<rparr> in
      if ncli (cpus s c) < 0 then Panic ''popcli''
      else if ncli (cpus s c) = 0 \<and> intena (cpus s c) then Ret () (s\<lparr>iflag := True\<rparr>)
      else Ret () s))"

definition myproc :: "'z kern_scheme \<Rightarrow> (nat option, 'z kern_scheme) outcome" where
  "myproc s =
     rbind (pushcli s) (\<lambda>_ s.
     rbind (mycpu s) (\<lambda>c s.
     let p = cproc (cpus s c) in
     rbind (popcli s) (\<lambda>_ s. Ret p s)))"

definition initlock :: "lockid \<Rightarrow> string \<Rightarrow> 'z kern_scheme \<Rightarrow> 'z kern_scheme" where
  "initlock l nm s =
     s\<lparr>locks := (locks s)(l := \<lparr>locked = 0, lkname = nm, lkcpu = None\<rparr>)\<rparr>"

definition holding :: "lockid \<Rightarrow> 'z kern_scheme \<Rightarrow> (bool, 'z kern_scheme) outcome" where
  "holding l s =
     rbind (pushcli s) (\<lambda>_ s.
     rbind (mycpu s) (\<lambda>c s.
     let r = (locked (locks s l) \<noteq> 0 \<and> lkcpu (locks s l) = Some c) in
     rbind (popcli s) (\<lambda>_ s. Ret r s)))"

definition acquire :: "lockid \<Rightarrow> 'z kern_scheme \<Rightarrow> (unit, 'z kern_scheme) outcome" where
  "acquire l s =
     rbind (pushcli s) (\<lambda>_ s.
     rbind (holding l s) (\<lambda>h s.
     if h then Panic ''acquire''
     else if locked (locks s l) \<noteq> 0 then Spin
     else
       let s = s\<lparr>locks := (locks s)(l := (locks s l)\<lparr>locked := 1\<rparr>)\<rparr> in
       rbind (mycpu s) (\<lambda>c s.
       Ret () (s\<lparr>locks := (locks s)(l := (locks s l)\<lparr>lkcpu := Some c\<rparr>)\<rparr>))))"

definition release :: "lockid \<Rightarrow> 'z kern_scheme \<Rightarrow> (unit, 'z kern_scheme) outcome" where
  "release l s =
     rbind (holding l s) (\<lambda>h s.
     if \<not> h then Panic ''release''
     else
       let s = s\<lparr>locks := (locks s)(l := (locks s l)\<lparr>lkcpu := None\<rparr>)\<rparr>;
           s = s\<lparr>locks := (locks s)(l := (locks s l)\<lparr>locked := 0\<rparr>)\<rparr> in
       popcli s)"

section \<open>Execution on one CPU\<close>

text \<open>
  \<open>me s\<close> is the index of the executing CPU. \<open>cpu_ok s\<close> is what the kernel keeps true of
  it between calls: it is in the CPU table, the nesting depth is not negative, interrupts are
  off inside a \<open>pushcli\<close>, and outside of one the saved flag is the current one.
\<close>

definition me_opt :: "'z kern_scheme \<Rightarrow> nat option" where
  "me_opt s = find (\<lambda>i. apicid (cpus s i) = lapicid s) [0..<ncpu s]"

definition me :: "'z kern_scheme \<Rightarrow> nat" where
  "me s = the (me_opt s)"

definition cpu_ok :: "'z kern_scheme \<Rightarrow> bool" where
  "cpu_ok s \<longleftrightarrow> me_opt s \<noteq> None \<and> 0 \<le> ncli (cpus s (me s)) \<and>
     (0 < ncli (cpus s (me s)) \<longrightarrow> \<not> iflag s) \<and>
     (ncli (cpus s (me s)) = 0 \<longrightarrow> intena (cpus s (me s)) = iflag s)"

definition lfree :: "lockid \<Rightarrow> 'z kern_scheme \<Rightarrow> bool" where
  "lfree l s \<longleftrightarrow> locked (locks s l) = 0 \<and> lkcpu (locks s l) = None"

text \<open>\<open>cli_state s\<close> and \<open>held l s\<close>: the states in which \<open>pushcli\<close> and \<open>acquire\<close> return.\<close>

definition cli_state :: "'z kern_scheme \<Rightarrow> 'z kern_scheme" where
  "cli_state s = s\<lparr>iflag := False,
     cpus := (cpus s)(me s := (cpus s (me s))\<lparr>ncli := ncli (cpus s (me s)) + 1\<rparr>)\<rparr>"

definition held :: "lockid \<Rightarrow> 'z kern_scheme \<Rightarrow> 'z kern_scheme" where
  "held l s = (cli_state s)\<lparr>locks :=
     (locks s)(l := (locks s l)\<lparr>locked := 1, lkcpu := Some (me s)\<rparr>)\<rparr>"

lemma iflag_triv: "iflag s = b \<Longrightarrow> s\<lparr>iflag := b\<rparr> = s"
  by auto

lemma me_opt_frame [simp]:
  "me_opt (s\<lparr>iflag := b\<rparr>) = me_opt s" "me_opt (s\<lparr>locks := ls\<rparr>) = me_opt s"
  "me_opt (s\<lparr>slocks := sls\<rparr>) = me_opt s" "me_opt (s\<lparr>procs := ps\<rparr>) = me_opt s"
  "me_opt (s\<lparr>nextpid := n\<rparr>) = me_opt s" "me_opt (s\<lparr>initproc := ip\<rparr>) = me_opt s"
  by (simp_all add: me_opt_def)

lemma me_opt_cli_state [simp]: "me_opt (cli_state s) = me_opt s"
  by (auto simp: cli_state_def me_opt_def intro!: arg_cong2 [where f = find])

lemma iflag_cli_state [simp]: "iflag (cli_state s) = False" "iflag (held l s) = False"
  by (simp_all add: cli_state_def held_def)

lemma me_cli_state [simp]: "me (cli_state s) = me s"
  by (simp add: me_def)

lemma me_opt_held [simp]: "me_opt (held l s) = me_opt s"
  by (simp add: held_def)

lemma me_held [simp]: "me (held l s) = me s"
  by (simp add: me_def)

lemma mycpu_me: "\<not> iflag s \<Longrightarrow> me_opt s \<noteq> None \<Longrightarrow> mycpu s = Ret (me s) s"
  by (auto simp: mycpu_def me_def me_opt_def split: option.splits)

lemma mycpu_cli: "cpu_ok s \<Longrightarrow> mycpu (cli_state s) = Ret (me s) (cli_state s)"
  by (subst mycpu_me) (auto simp: cpu_ok_def)

lemma cpu_ok_cli_state [simp]: "cpu_ok s \<Longrightarrow> cpu_ok (cli_state s)"
  by (simp add: cpu_ok_def) (simp add: cli_state_def)

lemma cpu_ok_held [simp]: "cpu_ok s \<Longrightarrow> cpu_ok (held l s)"
  using cpu_ok_cli_state [of s] by (simp add: cpu_ok_def held_def) (simp add: me_def)

lemma pushcli_ok: "cpu_ok s \<Longrightarrow> pushcli s = Ret () (cli_state s)"
proof -
  assume ok: "cpu_ok s"
  then have m: "mycpu (s\<lparr>iflag := False\<rparr>) = Ret (me s) (s\<lparr>iflag := False\<rparr>)"
    by (subst mycpu_me) (auto simp: cpu_ok_def me_def)
  have "(cpus s (me s))\<lparr>intena := iflag s\<rparr> = cpus s (me s)" if "ncli (cpus s (me s)) = 0"
    using ok that by (simp add: cpu_ok_def)
  then show ?thesis
    by (simp add: pushcli_def m cli_state_def Let_def fun_upd_idem)
qed

lemma popcli_ok: "cpu_ok s \<Longrightarrow> popcli (cli_state s) = Ret () s"
proof -
  assume ok: "cpu_ok s"
  then have m: "mycpu (cli_state s) = Ret (me s) (cli_state s)" by (rule mycpu_cli)
  show ?thesis
    using ok by (simp add: popcli_def m, auto simp: cli_state_def cpu_ok_def Let_def iflag_triv)
qed


lemma myproc_ok [run_simps]: "cpu_ok s \<Longrightarrow> myproc s = Ret (cproc (cpus s (me s))) s"
proof -
  assume ok: "cpu_ok s"
  then have "mycpu (cli_state s) = Ret (me s) (cli_state s)" by (rule mycpu_cli)
  moreover have "cproc (cpus (cli_state s) (me s)) = cproc (cpus s (me s))"
    by (simp add: cli_state_def)
  ultimately show ?thesis
    using ok by (simp add: myproc_def pushcli_ok popcli_ok)
qed

lemma holding_ok:
  "cpu_ok s \<Longrightarrow>
   holding l s = Ret (locked (locks s l) \<noteq> 0 \<and> lkcpu (locks s l) = Some (me s)) s"
proof -
  assume ok: "cpu_ok s"
  then have "mycpu (cli_state s) = Ret (me s) (cli_state s)" by (rule mycpu_cli)
  moreover have "locks (cli_state s) = locks s"
    by (simp add: cli_state_def)
  ultimately show ?thesis
    using ok by (simp add: holding_def pushcli_ok popcli_ok)
qed

lemma acquire_free [run_simps]: "cpu_ok s \<Longrightarrow> lfree l s \<Longrightarrow> acquire l s = Ret () (held l s)"
proof -
  assume ok: "cpu_ok s" and free: "lfree l s"
  let ?c = "cli_state s"
  have ls: "locks ?c = locks s" by (simp add: cli_state_def)
  have h: "holding l ?c = Ret False ?c"
    using free by (subst holding_ok) (simp_all add: ok ls lfree_def)
  let ?t = "?c\<lparr>locks := (locks ?c)(l := (locks ?c l)\<lparr>locked := 1\<rparr>)\<rparr>"
  have "mycpu ?t = Ret (me s) ?t"
    using ok by (subst mycpu_me) (auto simp: cpu_ok_def me_def)
  then show ?thesis
    using ok free by (simp add: acquire_def pushcli_ok h ls lfree_def held_def)
qed

lemma acquire_again: "cpu_ok s \<Longrightarrow> acquire l (held l s) = Panic ''acquire''"
proof -
  assume ok: "cpu_ok s"
  have "holding l (cli_state (held l s)) = Ret True (cli_state (held l s))"
    using ok by (subst holding_ok) (simp_all, simp_all add: cli_state_def held_def)
  then show ?thesis
    using ok by (simp add: acquire_def pushcli_ok)
qed

lemma acquire_elsewhere:
  assumes "cpu_ok s" "locked (locks s l) \<noteq> 0" "lkcpu (locks s l) \<noteq> Some (me s)"
  shows "acquire l s = Spin"
proof -
  have "holding l (cli_state s) = Ret False (cli_state s)"
    using assms by (subst holding_ok) (simp_all, simp_all add: cli_state_def)
  then show ?thesis
    using assms by (simp add: acquire_def pushcli_ok) (simp add: cli_state_def)
qed

lemma release_held [run_simps]: "cpu_ok s \<Longrightarrow> lfree l s \<Longrightarrow> release l (held l s) = Ret () s"
proof -
  assume ok: "cpu_ok s" and free: "lfree l s"
  have h: "holding l (held l s) = Ret True (held l s)"
    using ok by (subst holding_ok) (simp_all, simp_all add: held_def)
  have l: "(locks s l)\<lparr>lkcpu := None, locked := 0\<rparr> = locks s l"
    using free by (cases "locks s l") (simp add: lfree_def)
  have "(held l s)\<lparr>locks := (locks (held l s))
      (l := (locks (held l s) l)\<lparr>lkcpu := None, locked := 0\<rparr>)\<rparr> = cli_state s"
    by (simp add: held_def l) (simp add: cli_state_def)
  then show ?thesis
    using ok by (simp add: release_def h popcli_ok)
qed

lemma release_not_held:
  "cpu_ok s \<Longrightarrow> lkcpu (locks s l) \<noteq> Some (me s) \<Longrightarrow> release l s = Panic ''release''"
  by (simp add: release_def holding_ok)

text \<open>Reading and updating a state in which a lock is held.\<close>

lemma held_frame [lock_simps]:
  "procs (held l s) = procs s" "slocks (held l s) = slocks s" "nextpid (held l s) = nextpid s"
  "initproc (held l s) = initproc s" "ncpu (held l s) = ncpu s" "kern.more (held l s) = kern.more s"
  "cproc (cpus (held l s) c) = cproc (cpus s c)"
  by (simp_all add: held_def cli_state_def)

lemma held_upd [lock_simps]:
  "(held l s)\<lparr>procs := ps\<rparr> = held l (s\<lparr>procs := ps\<rparr>)"
  "(held l s)\<lparr>slocks := sls\<rparr> = held l (s\<lparr>slocks := sls\<rparr>)"
  "(held l s)\<lparr>nextpid := n\<rparr> = held l (s\<lparr>nextpid := n\<rparr>)"
  by (simp_all add: held_def cli_state_def me_def)

lemma lfree_held [lock_simps]: "l \<noteq> l' \<Longrightarrow> lfree l' (held l s) = lfree l' s"
  by (simp add: lfree_def held_def)

lemma cpu_ok_upd [lock_simps]:
  "cpu_ok (s\<lparr>procs := ps\<rparr>) = cpu_ok s" "cpu_ok (s\<lparr>slocks := sls\<rparr>) = cpu_ok s"
  "cpu_ok (s\<lparr>nextpid := n\<rparr>) = cpu_ok s"
  by (simp_all add: cpu_ok_def me_def)

lemma lfree_upd [lock_simps]:
  "lfree l (s\<lparr>procs := ps\<rparr>) = lfree l s" "lfree l (s\<lparr>slocks := sls\<rparr>) = lfree l s"
  "lfree l (s\<lparr>nextpid := n\<rparr>) = lfree l s"
  by (simp_all add: lfree_def)

lemma me_upd [lock_simps]:
  "me (s\<lparr>procs := ps\<rparr>) = me s" "me (s\<lparr>slocks := sls\<rparr>) = me s" "me (s\<lparr>nextpid := n\<rparr>) = me s"
  by (simp_all add: me_def)

section \<open>Several CPUs: the instructions of acquire and release interleaved\<close>

text \<open>
  One lock, any number of CPUs. Each CPU is at one of the points below of \<open>acquire\<close> or
  \<open>release\<close>; a step is one memory access of one CPU. \<open>Dead\<close> is a CPU that called
  \<open>panic\<close>. The \<open>xchg\<close> instruction reads and writes the lock word in one step.
\<close>

datatype lpc = Out | Pushed | Saw | Trying | Got | Crit | Rel_saw | Rel_checked | Rel_cpu | Dead

record lockm =
  m_locked :: u32
  m_cpu :: "nat option"
  m_pc :: "nat \<Rightarrow> lpc"

definition lockm_init :: lockm where
  "lockm_init = \<lparr>m_locked = 0, m_cpu = None, m_pc = (\<lambda>_. Out)\<rparr>"

definition goto :: "nat \<Rightarrow> lpc \<Rightarrow> lockm \<Rightarrow> lockm" where
  "goto i p m = m\<lparr>m_pc := (m_pc m)(i := p)\<rparr>"

inductive lock_step :: "lockm \<Rightarrow> lockm \<Rightarrow> bool" where
  push: "m_pc m i = Out \<Longrightarrow> lock_step m (goto i Pushed m)"
| check: "m_pc m i = Pushed \<Longrightarrow>
    lock_step m (goto i (if m_locked m \<noteq> 0 then Saw else Trying) m)"
| check_cpu: "m_pc m i = Saw \<Longrightarrow> lock_step m (goto i (if m_cpu m = Some i then Dead else Trying) m)"
| xchg: "m_pc m i = Trying \<Longrightarrow>
    lock_step m (goto i (if m_locked m = 0 then Got else Trying) (m\<lparr>m_locked := 1\<rparr>))"
| set_cpu: "m_pc m i = Got \<Longrightarrow> lock_step m (goto i Crit (m\<lparr>m_cpu := Some i\<rparr>))"
| rel_check: "m_pc m i = Crit \<Longrightarrow>
    lock_step m (goto i (if m_locked m \<noteq> 0 then Rel_saw else Dead) m)"
| rel_check_cpu: "m_pc m i = Rel_saw \<Longrightarrow> lock_step m (goto i (if m_cpu m = Some i then Rel_checked else Dead) m)"
| clear_cpu: "m_pc m i = Rel_checked \<Longrightarrow> lock_step m (goto i Rel_cpu (m\<lparr>m_cpu := None\<rparr>))"
| unlock: "m_pc m i = Rel_cpu \<Longrightarrow> lock_step m (goto i Out (m\<lparr>m_locked := 0\<rparr>))"

inductive lock_reach :: "lockm \<Rightarrow> bool" where
  init: "lock_reach lockm_init"
| step: "lock_reach m \<Longrightarrow> lock_step m m' \<Longrightarrow> lock_reach m'"

text \<open>\<open>owning\<close>: between a successful \<open>xchg\<close> and the store that frees the lock.
  \<open>recorded\<close>: while the \<open>cpu\<close> field names this CPU.\<close>

fun owning :: "lpc \<Rightarrow> bool" where
  "owning Got = True"
| "owning Crit = True"
| "owning Rel_saw = True"
| "owning Rel_checked = True"
| "owning Rel_cpu = True"
| "owning _ = False"

fun recorded :: "lpc \<Rightarrow> bool" where
  "recorded Crit = True"
| "recorded Rel_saw = True"
| "recorded Rel_checked = True"
| "recorded _ = False"

lemma recorded_owning: "recorded p \<Longrightarrow> owning p"
  by (cases p) simp_all

text \<open>The lock word is set exactly while there is an owner, there is at most one, and the
  \<open>cpu\<close> field names it while it is in its critical section.\<close>

definition lockm_inv :: "lockm \<Rightarrow> bool" where
  "lockm_inv m \<longleftrightarrow>
     (\<forall>i. m_pc m i \<noteq> Dead) \<and>
     (m_locked m \<noteq> 0 \<longleftrightarrow> (\<exists>i. owning (m_pc m i))) \<and>
     (\<forall>i j. owning (m_pc m i) \<longrightarrow> owning (m_pc m j) \<longrightarrow> i = j) \<and>
     (\<forall>i. m_cpu m = Some i \<longleftrightarrow> recorded (m_pc m i))"

lemma lockm_inv_init: "lockm_inv lockm_init"
  by (simp add: lockm_inv_def lockm_init_def)

text \<open>A step of a CPU that is neither an owner before nor after it.\<close>

lemma lockm_inv_outside:
  assumes "lockm_inv m" "\<not> owning (m_pc m i)" "\<not> owning p" "p \<noteq> Dead"
  shows "lockm_inv (goto i p m)"
proof -
  have "\<not> recorded (m_pc m i)" "\<not> recorded p"
    using assms recorded_owning by blast+
  with assms show ?thesis
    unfolding lockm_inv_def goto_def by simp metis
qed

text \<open>A step of the owner that keeps the lock.\<close>

lemma lockm_inv_owner:
  assumes inv: "lockm_inv m" and own: "owning (m_pc m i)" "owning p"
    and c: "c = (if recorded p then Some i else None)"
  shows "lockm_inv (goto i p (m\<lparr>m_cpu := c\<rparr>))"
proof -
  have "\<not> recorded (m_pc m j)" if "j \<noteq> i" for j
    using inv own that recorded_owning unfolding lockm_inv_def by blast
  moreover have "p \<noteq> Dead" using own by auto
  ultimately show ?thesis
    using inv own c unfolding lockm_inv_def goto_def by auto
qed

lemma lock_step_inv: "lock_step m m' \<Longrightarrow> lockm_inv m \<Longrightarrow> lockm_inv m'"
proof (induction rule: lock_step.induct)
  case (push m i)
  then show ?case by (intro lockm_inv_outside) auto
next
  case (check m i)
  then show ?case by (auto intro: lockm_inv_outside)
next
  case (check_cpu m i)
  then have "m_cpu m \<noteq> Some i" by (auto simp: lockm_inv_def)
  with check_cpu show ?case by (auto intro: lockm_inv_outside)
next
  case (xchg m i)
  show ?case
  proof (cases "m_locked m = 0")
    case True
    with xchg have none: "\<not> owning (m_pc m j)" for j by (simp add: lockm_inv_def)
    then have "\<not> recorded (m_pc m j)" for j using recorded_owning by blast
    with True xchg none show ?thesis by (auto simp: lockm_inv_def goto_def)
  next
    case False
    then have "lockm_inv (m\<lparr>m_locked := 1\<rparr>)" using xchg by (simp add: lockm_inv_def)
    with False xchg show ?thesis by (auto intro: lockm_inv_outside)
  qed
next
  case (set_cpu m i)
  then show ?case by (auto intro: lockm_inv_owner)
next
  case (rel_check m i)
  then have "m_cpu m = Some i" "m_locked m \<noteq> 0"
    by (auto simp: lockm_inv_def) (metis owning.simps(2))+
  moreover from this have eq: "m\<lparr>m_cpu := Some i\<rparr> = m" by simp
  have "lockm_inv (goto i Rel_saw (m\<lparr>m_cpu := Some i\<rparr>))"
    using rel_check by (intro lockm_inv_owner) auto
  ultimately show ?case unfolding eq by simp
next
  case (rel_check_cpu m i)
  then have "m_cpu m = Some i" by (simp add: lockm_inv_def)
  moreover from this have eq: "m\<lparr>m_cpu := Some i\<rparr> = m" by simp
  have "lockm_inv (goto i Rel_checked (m\<lparr>m_cpu := Some i\<rparr>))"
    using rel_check_cpu by (intro lockm_inv_owner) auto
  ultimately show ?case unfolding eq by simp
next
  case (clear_cpu m i)
  then show ?case by (auto intro: lockm_inv_owner)
next
  case (unlock m i)
  then have "\<not> owning (m_pc m j)" if "j \<noteq> i" for j
    using that by (auto simp: lockm_inv_def)
  moreover have "\<not> recorded (m_pc m j)" for j
    using unlock calculation recorded_owning by (cases "j = i") auto
  ultimately show ?case using unlock by (auto simp: lockm_inv_def goto_def)
qed

lemma lock_reach_inv: "lock_reach m \<Longrightarrow> lockm_inv m"
  by (induction rule: lock_reach.induct) (auto intro: lockm_inv_init lock_step_inv)

end
