(* ===== verification/Sched.thy ===== *)
theory Sched
  imports Spinlock
begin

text \<open>
  The part of proc.c that blocks and wakes threads: \<open>sched\<close>, \<open>yield\<close>, \<open>sleep\<close>,
  \<open>wakeup\<close>, \<open>kill\<close>. The context switch \<open>swtch\<close> (assembly) cuts a function in two: the
  code before it ends with outcome \<open>Switch\<close>, the code after it is a definition of its own
  (\<open>_resume\<close>), run when the scheduler switches back. A dereference of a null \<open>myproc()\<close> is
  a page fault in kernel mode, which \<open>trap\<close> answers with \<open>panic("trap")\<close>.
\<close>

definition set_proc :: "nat \<Rightarrow> (proc \<Rightarrow> proc) \<Rightarrow> 'z kern_scheme \<Rightarrow> 'z kern_scheme" where
  "set_proc p f s = s\<lparr>procs := (procs s)(p := f (procs s p))\<rparr>"

definition sched :: "'z kern_scheme \<Rightarrow> (unit, 'z kern_scheme) outcome" where
  "sched s =
     rbind (myproc s) (\<lambda>p s.
     rbind (holding LPtable s) (\<lambda>h s.
     if \<not> h then Panic ''sched ptable.lock'' else
     rbind (mycpu s) (\<lambda>c s.
     if ncli (cpus s c) \<noteq> 1 then Panic ''sched locks'' else
     case p of None \<Rightarrow> Panic ''trap'' | Some p \<Rightarrow>
     if state (procs s p) = RUNNING then Panic ''sched running''
     else if iflag s then Panic ''sched interruptible''
     else Switch s)))"

text \<open>Back from \<open>swtch\<close>: \<open>intena\<close> is the flag this thread saved before it left.\<close>

definition sched_resume :: "bool \<Rightarrow> 'z kern_scheme \<Rightarrow> (unit, 'z kern_scheme) outcome" where
  "sched_resume saved s =
     rbind (mycpu s) (\<lambda>c s.
     Ret () (s\<lparr>cpus := (cpus s)(c := (cpus s c)\<lparr>intena := saved\<rparr>)\<rparr>))"

definition yield :: "'z kern_scheme \<Rightarrow> (unit, 'z kern_scheme) outcome" where
  "yield s =
     rbind (acquire LPtable s) (\<lambda>_ s.
     rbind (myproc s) (\<lambda>p s.
     case p of None \<Rightarrow> Panic ''trap'' | Some p \<Rightarrow>
     sched (set_proc p (state_update (\<lambda>_. RUNNABLE)) s)))"

definition yield_resume :: "bool \<Rightarrow> 'z kern_scheme \<Rightarrow> (unit, 'z kern_scheme) outcome" where
  "yield_resume saved s = rbind (sched_resume saved s) (\<lambda>_ s. release LPtable s)"

definition sleep ::
  "chan option \<Rightarrow> lockid option \<Rightarrow> 'z kern_scheme \<Rightarrow> (unit, 'z kern_scheme) outcome" where
  "sleep c lk s =
     rbind (myproc s) (\<lambda>p s.
     case p of None \<Rightarrow> Panic ''sleep'' | Some p \<Rightarrow>
     case lk of None \<Rightarrow> Panic ''sleep without lk'' | Some lk \<Rightarrow>
     rbind (if lk \<noteq> LPtable then rbind (acquire LPtable s) (\<lambda>_ s. release lk s) else Ret () s)
       (\<lambda>_ s.
     sched (set_proc p (\<lambda>q. q\<lparr>chan := c, state := SLEEPING\<rparr>) s)))"

definition sleep_resume ::
  "nat \<Rightarrow> lockid \<Rightarrow> bool \<Rightarrow> 'z kern_scheme \<Rightarrow> (unit, 'z kern_scheme) outcome" where
  "sleep_resume p lk saved s =
     rbind (sched_resume saved s) (\<lambda>_ s.
     let s = set_proc p (chan_update (\<lambda>_. None)) s in
     if lk \<noteq> LPtable then rbind (release LPtable s) (\<lambda>_ s. acquire lk s) else Ret () s)"

definition wakeup1 :: "chan option \<Rightarrow> 'z kern_scheme \<Rightarrow> 'z kern_scheme" where
  "wakeup1 c s =
     fold (\<lambda>i s. if state (procs s i) = SLEEPING \<and> chan (procs s i) = c
                 then set_proc i (state_update (\<lambda>_. RUNNABLE)) s else s)
       [0..<NPROC] s"

definition wakeup :: "chan option \<Rightarrow> 'z kern_scheme \<Rightarrow> (unit, 'z kern_scheme) outcome" where
  "wakeup c s = rbind (acquire LPtable s) (\<lambda>_ s. release LPtable (wakeup1 c s))"

fun kill_from :: "nat list \<Rightarrow> int \<Rightarrow> 'z kern_scheme \<Rightarrow> (int, 'z kern_scheme) outcome" where
  "kill_from [] n s = rbind (release LPtable s) (\<lambda>_ s. Ret (- 1) s)"
| "kill_from (i # is) n s =
     (if pid (procs s i) = n then
        let s = set_proc i (killed_update (\<lambda>_. True)) s;
            s = (if state (procs s i) = SLEEPING
                 then set_proc i (state_update (\<lambda>_. RUNNABLE)) s else s) in
        rbind (release LPtable s) (\<lambda>_ s. Ret 0 s)
      else kill_from is n s)"

definition kill :: "int \<Rightarrow> 'z kern_scheme \<Rightarrow> (int, 'z kern_scheme) outcome" where
  "kill n s = rbind (acquire LPtable s) (\<lambda>_ s. kill_from [0..<NPROC] n s)"

section \<open>Waking\<close>

lemma set_proc_lock [lock_simps]:
  "set_proc p f (held l s) = held l (set_proc p f s)"
  "cpu_ok (set_proc p f s) = cpu_ok s" "lfree l (set_proc p f s) = lfree l s"
  "me (set_proc p f s) = me s" "cpus (set_proc p f s) = cpus s"
  by (simp_all add: set_proc_def lock_simps)

lemma set_proc_frame [frame_simps]:
  "slocks (set_proc p f s) = slocks s" "locks (set_proc p f s) = locks s"
  "kern.more (set_proc p f s) = kern.more s" "procs (set_proc p f s) = (procs s)(p := f (procs s p))"
  by (simp_all add: set_proc_def)

text \<open>\<open>wakeup1\<close> in closed form: every process asleep on the channel becomes runnable.\<close>

definition woken :: "chan option \<Rightarrow> (nat \<Rightarrow> proc) \<Rightarrow> nat \<Rightarrow> proc" where
  "woken c ps i = (if i < NPROC \<and> state (ps i) = SLEEPING \<and> chan (ps i) = c
                   then (ps i)\<lparr>state := RUNNABLE\<rparr> else ps i)"

lemma wakeup1_eq: "wakeup1 c s = s\<lparr>procs := woken c (procs s)\<rparr>"
proof -
  have "fold (\<lambda>i s. if state (procs s i) = SLEEPING \<and> chan (procs s i) = c
                 then set_proc i (state_update (\<lambda>_. RUNNABLE)) s else s) [0..<n] s
     = s\<lparr>procs := (\<lambda>i. if i < n \<and> state (procs s i) = SLEEPING \<and> chan (procs s i) = c
                   then (procs s i)\<lparr>state := RUNNABLE\<rparr> else procs s i)\<rparr>" for n
  proof (induction n)
    case 0
    then show ?case by simp
  next
    case (Suc n)
    then show ?case 
      by (auto simp: set_proc_def fun_eq_iff less_Suc_eq intro!: arg_cong2 [where f = procs_update])
  qed
  then show ?thesis by (simp add: wakeup1_def woken_def [abs_def])
qed

lemma wakeup_ok [run_simps]:
  "cpu_ok s \<Longrightarrow> lfree LPtable s \<Longrightarrow> wakeup c s = Ret () (s\<lparr>procs := woken c (procs s)\<rparr>)"
  by (simp add: wakeup_def run_simps wakeup1_eq lock_simps)

text \<open>\<open>sleep\<close>: when the thread leaves the CPU the caller's lock is free again, the process
  is asleep on the channel, and the process table is still locked.\<close>

lemma sched_switch:
  assumes "cpu_ok s" "locked (locks s LPtable) \<noteq> 0" "lkcpu (locks s LPtable) = Some (me s)"
    "ncli (cpus s (me s)) = 1" "cproc (cpus s (me s)) = Some p" "state (procs s p) \<noteq> RUNNING"
  shows "sched s = Switch s"
proof -
  have "\<not> iflag s" using assms by (simp add: cpu_ok_def)
  moreover from this have "mycpu s = Ret (me s) s"
    using assms by (intro mycpu_me) (auto simp: cpu_ok_def)
  ultimately show ?thesis
    using assms by (simp add: sched_def myproc_ok holding_ok)
qed

lemma held_commute: "l \<noteq> l' \<Longrightarrow> held l (held l' s) = held l' (held l s)"
  by (simp add: held_def [of _ "held _ _"] cli_state_def [of "held _ _"])
     (simp add: held_def cli_state_def fun_upd_twist)

lemma sleep_switch:
  assumes "cpu_ok s" "lfree LPtable s" "lfree lk s" "lk \<noteq> LPtable"
    "ncli (cpus s (me s)) = 0" "cproc (cpus s (me s)) = Some p"
  shows "sleep c (Some lk) (held lk s) =
    Switch (held LPtable (set_proc p (\<lambda>q. q\<lparr>chan := c, state := SLEEPING\<rparr>) s))"
proof -
  let ?t = "set_proc p (\<lambda>q. q\<lparr>chan := c, state := SLEEPING\<rparr>) s"
  have "release lk (held LPtable (held lk s)) = Ret () (held LPtable s)"
    using assms by (subst held_commute) (simp_all add: release_held lock_simps)
  moreover have "sched (held LPtable ?t) = Switch (held LPtable ?t)"
    using assms
    by (intro sched_switch [where p = p]) (simp_all add: lock_simps frame_simps, simp_all add: held_def cli_state_def frame_simps lock_simps)
  ultimately show ?thesis
    using assms by (simp add: sleep_def myproc_ok lock_simps acquire_free)
qed

text \<open>A thread that comes back from \<open>swtch\<close>: its interrupt flag is the one it saved, its process table entry names no
  channel any more.\<close>

definition awake :: "nat \<Rightarrow> bool \<Rightarrow> 'z kern_scheme \<Rightarrow> 'z kern_scheme" where
  "awake i saved s = set_proc i (chan_update (\<lambda>_. None))
     (s\<lparr>iflag := saved, cpus := (cpus s)(me s := (cpus s (me s))\<lparr>intena := saved\<rparr>)\<rparr>)"

lemma me_awake: "me_opt (awake i saved s) = me_opt s" "me (awake i saved s) = me s"
proof -
  show o: "me_opt (awake i saved s) = me_opt s"
    by (auto simp: awake_def set_proc_def me_opt_def intro!: arg_cong2 [where f = find])
  then show "me (awake i saved s) = me s" by (simp add: me_def)
qed

lemma awake_frame:
  "locks (awake i saved s) = locks s" "lfree l (awake i saved s) = lfree l s"
  "procs (awake i saved s) = (procs s)(i := (procs s i)\<lparr>chan := None\<rparr>)"
  "cproc (cpus (awake i saved s) c) = cproc (cpus s c)" "ncli (cpus (awake i saved s) c) = ncli (cpus s c)"
  by (simp_all add: awake_def set_proc_def lfree_def)

lemma cpu_ok_awake: "cpu_ok s \<Longrightarrow> ncli (cpus s (me s)) = 0 \<Longrightarrow> cpu_ok (awake i saved s)"
  by (simp add: cpu_ok_def me_awake awake_frame) (simp add: awake_def set_proc_def)

lemma sched_resume_held:
  assumes "cpu_ok s" "ncli (cpus s (me s)) = 0"
  shows "rbind (sched_resume saved (held l s)) (\<lambda>_ t. Ret () (set_proc i (chan_update (\<lambda>_. None)) t)) =
    Ret () (held l (awake i saved s))"
proof -
  have "mycpu (held l s) = Ret (me s) (held l s)" using assms by (subst mycpu_me) (simp_all add: cpu_ok_def)
  then show ?thesis
    by (simp add: sched_resume_def)
      (rule kern.equality, simp_all add: held_def cli_state_def me_awake, auto simp: awake_def set_proc_def intro: cpu.equality)
qed

lemma sleep_resume_held:
  assumes "cpu_ok s" "ncli (cpus s (me s)) = 0" "lfree LPtable s" "lfree lk s" "lk \<noteq> LPtable"
  shows "sleep_resume i lk saved (held LPtable s) = Ret () (held lk (awake i saved s))"
proof -
  have "sleep_resume i lk saved (held LPtable s) =
    rbind (rbind (sched_resume saved (held LPtable s)) (\<lambda>_ t. Ret () (set_proc i (chan_update (\<lambda>_. None)) t)))
      (\<lambda>_ s. rbind (release LPtable s) (\<lambda>_ s. acquire lk s))"
    using assms(5) by (simp add: sleep_resume_def rbind_assoc)
  also have "\<dots> = Ret () (held lk (awake i saved s))"
    unfolding sched_resume_held [OF assms(1,2)]
    using assms cpu_ok_awake [OF assms(1,2)] by (simp add: run_simps awake_frame)
  finally show ?thesis .
qed

end
