(* ===== verification/Sleeplock.thy ===== *)
theory Sleeplock
  imports Sched
begin

text \<open>
  sleeplock.c: long-term locks held by a process. \<open>acquiresleep\<close> on a taken lock sleeps
  (outcome \<open>Switch\<close>); when woken, the thread runs the loop test again, which is the same
  function on the state of that moment. The second part collects what every client of the
  locks uses: \<open>kctx\<close>, the part of the state on which the behaviour of locks depends, and
  \<open>kready\<close>, the states in which the running thread can take any spin lock.
\<close>

definition set_slock :: "slockid \<Rightarrow> (sleeplock \<Rightarrow> sleeplock) \<Rightarrow> 'z kern_scheme \<Rightarrow> 'z kern_scheme" where
  "set_slock k f s = s\<lparr>slocks := (slocks s)(k := f (slocks s k))\<rparr>"

definition initsleeplock :: "slockid \<Rightarrow> string \<Rightarrow> 'z kern_scheme \<Rightarrow> 'z kern_scheme" where
  "initsleeplock k nm s =
     set_slock k (\<lambda>_. \<lparr>slocked = False, slname = nm, spid = 0\<rparr>) (initlock (LSleep k) ''sleep lock'' s)"

definition acquiresleep :: "slockid \<Rightarrow> 'z kern_scheme \<Rightarrow> (unit, 'z kern_scheme) outcome" where
  "acquiresleep k s =
     rbind (acquire (LSleep k) s) (\<lambda>_ s.
     if slocked (slocks s k) then sleep (Some (ChanSleep k)) (Some (LSleep k)) s
     else
       let s = set_slock k (slocked_update (\<lambda>_. True)) s in
       rbind (myproc s) (\<lambda>p s.
       case p of None \<Rightarrow> Panic ''trap'' | Some p \<Rightarrow>
       release (LSleep k) (set_slock k (spid_update (\<lambda>_. pid (procs s p))) s)))"

definition releasesleep :: "slockid \<Rightarrow> 'z kern_scheme \<Rightarrow> (unit, 'z kern_scheme) outcome" where
  "releasesleep k s =
     rbind (acquire (LSleep k) s) (\<lambda>_ s.
     let s = set_slock k (\<lambda>l. l\<lparr>slocked := False, spid := 0\<rparr>) s in
     rbind (wakeup (Some (ChanSleep k)) s) (\<lambda>_ s.
     release (LSleep k) s))"

definition holdingsleep :: "slockid \<Rightarrow> 'z kern_scheme \<Rightarrow> (bool, 'z kern_scheme) outcome" where
  "holdingsleep k s =
     rbind (acquire (LSleep k) s) (\<lambda>_ s.
     rbind (myproc s) (\<lambda>p s.
     case p of None \<Rightarrow> Panic ''trap'' | Some p \<Rightarrow>
     let r = (slocked (slocks s k) \<and> spid (slocks s k) = pid (procs s p)) in
     rbind (release (LSleep k) s) (\<lambda>_ s. Ret r s)))"

section \<open>The context a thread runs in\<close>

definition kctx :: "'z kern_scheme \<Rightarrow>
    (nat \<Rightarrow> cpu) \<times> nat \<times> byte \<times> bool \<times> (lockid \<Rightarrow> spinlock) \<times> int \<times> nat option \<times> (nat \<Rightarrow> proc)" where
  "kctx s = (cpus s, ncpu s, lapicid s, iflag s, locks s, nextpid s, initproc s,
     (\<lambda>i. (procs s i)\<lparr>state := UNUSED\<rparr>))"

definition curproc :: "'z kern_scheme \<Rightarrow> nat" where
  "curproc s = the (cproc (cpus s (me s)))"

definition curpid :: "'z kern_scheme \<Rightarrow> int" where
  "curpid s = pid (procs s (curproc s))"

definition kready :: "'z kern_scheme \<Rightarrow> bool" where
  "kready s \<longleftrightarrow> cpu_ok s \<and> cproc (cpus s (me s)) \<noteq> None \<and> (\<forall>l. lfree l s)"

lemma kctx_me: "kctx t = kctx s \<Longrightarrow> me t = me s"
  by (simp add: kctx_def me_def me_opt_def)

lemma kctx_proc:
  assumes "kctx t = kctx s"
  shows "pid (procs t i) = pid (procs s i)" "killed (procs t i) = killed (procs s i)"
    "cwd (procs t i) = cwd (procs s i)" "ofile (procs t i) = ofile (procs s i)"
proof -
  have "(procs t i)\<lparr>state := UNUSED\<rparr> = (procs s i)\<lparr>state := UNUSED\<rparr>"
    using assms by (simp add: kctx_def fun_eq_iff)
  from arg_cong [OF this, of pid] arg_cong [OF this, of killed] arg_cong [OF this, of cwd]
    arg_cong [OF this, of ofile]
  show "pid (procs t i) = pid (procs s i)" "killed (procs t i) = killed (procs s i)"
    "cwd (procs t i) = cwd (procs s i)" "ofile (procs t i) = ofile (procs s i)"
    by simp_all
qed

lemma kctx_curproc: "kctx t = kctx s \<Longrightarrow> curproc t = curproc s"
  by (frule kctx_me) (simp add: kctx_def curproc_def)

lemma kctx_curpid: "kctx t = kctx s \<Longrightarrow> curpid t = curpid s"
  unfolding curpid_def by (metis kctx_curproc kctx_proc(1))

lemma kctx_kready: "kctx t = kctx s \<Longrightarrow> kready t = kready s"
  by (frule kctx_me) (simp add: kctx_def kready_def cpu_ok_def lfree_def me_opt_def)

lemma kreadyD: "kready s \<Longrightarrow> cpu_ok s" "kready s \<Longrightarrow> lfree l s"
  by (simp_all add: kready_def)

lemma kready_myproc [run_simps]: "kready s \<Longrightarrow> myproc s = Ret (Some (curproc s)) s"
  by (auto simp: kready_def myproc_ok curproc_def)

lemma curproc_upd [lock_simps]:
  "curproc (set_slock k f s) = curproc s" "curproc (held l s) = curproc s"
  "curproc (s\<lparr>procs := ps\<rparr>) = curproc s"
  by (simp_all add: curproc_def set_slock_def lock_simps)

lemma set_slock_lock [lock_simps]:
  "set_slock k f (held l s) = held l (set_slock k f s)"
  "cpu_ok (set_slock k f s) = cpu_ok s" "lfree l (set_slock k f s) = lfree l s"
  "me (set_slock k f s) = me s" "cpus (set_slock k f s) = cpus s"
  "procs (set_slock k f s) = procs s"
  by (simp_all add: set_slock_def lock_simps)

lemma set_slock_frame [frame_simps]:
  "slocks (set_slock k f s) = (slocks s)(k := f (slocks s k))"
  "kern.more (set_slock k f s) = kern.more s" "kctx (set_slock k f s) = kctx s"
  by (simp_all add: set_slock_def kctx_def)

lemma set_slock_twice [simp]: "set_slock k f (set_slock k g s) = set_slock k (f \<circ> g) s"
  by (simp add: set_slock_def)

lemma woken_pid [simp]: "pid (woken c ps i) = pid (ps i)" "killed (woken c ps i) = killed (ps i)"
  by (simp_all add: woken_def)

lemma kctx_woken [frame_simps]: "kctx (s\<lparr>procs := woken c (procs s)\<rparr>) = kctx s"
  by (auto simp: kctx_def woken_def fun_eq_iff)

lemma acquiresleep_free [run_simps]:
  assumes "kready s" "\<not> slocked (slocks s k)"
  shows "acquiresleep k s =
    Ret () (set_slock k (\<lambda>l. l\<lparr>slocked := True, spid := curpid s\<rparr>) s)"
proof -
  have "myproc (held (LSleep k) (set_slock k (slocked_update (\<lambda>_. True)) s)) =
    Ret (Some (curproc s)) (held (LSleep k) (set_slock k (slocked_update (\<lambda>_. True)) s))"
    using assms by (auto simp: myproc_ok kready_def lock_simps curproc_def)
  then show ?thesis
    using assms
    by (simp add: acquiresleep_def run_simps kreadyD lock_simps curpid_def comp_def)
qed

lemma holdingsleep_ready [run_simps]:
  assumes "kready s"
  shows "holdingsleep k s = Ret (slocked (slocks s k) \<and> spid (slocks s k) = curpid s) s"
proof -
  have "myproc (held (LSleep k) s) = Ret (Some (curproc s)) (held (LSleep k) s)"
    using assms by (auto simp: myproc_ok kready_def lock_simps curproc_def)
  then show ?thesis
    using assms by (simp add: holdingsleep_def run_simps kreadyD lock_simps curpid_def)
qed

lemma releasesleep_ready [run_simps]:
  assumes "kready s"
  shows "releasesleep k s =
    Ret () (set_slock k (\<lambda>l. l\<lparr>slocked := False, spid := 0\<rparr>)
      (s\<lparr>procs := woken (Some (ChanSleep k)) (procs s)\<rparr>))"
  using assms
  by (simp add: releasesleep_def run_simps kreadyD lock_simps)
     (simp add: set_slock_def)

text \<open>On a lock that is taken the caller goes to sleep, and the spin lock inside is free.\<close>

lemma acquiresleep_taken:
  assumes "kready s" "slocked (slocks s k)" "ncli (cpus s (me s)) = 0"
  shows "acquiresleep k s = Switch (held LPtable
    (set_proc (curproc s) (\<lambda>q. q\<lparr>chan := Some (ChanSleep k), state := SLEEPING\<rparr>) s))"
proof -
  have "cproc (cpus s (me s)) = Some (curproc s)"
    using assms by (auto simp: kready_def curproc_def)
  then show ?thesis
    using assms by (simp add: acquiresleep_def run_simps kreadyD lock_simps sleep_switch)
qed

end
