(* ===== verification/Cmem.thy ===== *)
theory Cmem
  imports Prelude
begin

text \<open>
  Byte-addressed memory of a 32-bit machine: addresses are 32-bit words and wrap around. A
  function that takes pointers takes the memory and the addresses, and returns its result with
  the new memory.
\<close>

type_synonym mem = "u32 \<Rightarrow> byte"

text \<open>The \<open>n\<close> bytes from \<open>a\<close> on.\<close>

definition region :: "u32 \<Rightarrow> nat \<Rightarrow> u32 set" where
  "region a n = {x. unat (x - a) < n}"

definition bytes :: "mem \<Rightarrow> u32 \<Rightarrow> nat \<Rightarrow> byte list" where
  "bytes m a n = map (\<lambda>i. m (a + of_nat i)) [0..<n]"

definition ld32 :: "mem \<Rightarrow> u32 \<Rightarrow> u32" where
  "ld32 m a = get32 [m a, m (a + 1), m (a + 2), m (a + 3)]"

definition st32 :: "mem \<Rightarrow> u32 \<Rightarrow> u32 \<Rightarrow> mem" where
  "st32 m a w = m(a := ucast w, a + 1 := ucast (drop_bit 8 w), a + 2 := ucast (drop_bit 16 w),
     a + 3 := ucast (drop_bit 24 w))"

text \<open>A NUL-terminated string.\<close>

definition str_at :: "mem \<Rightarrow> u32 \<Rightarrow> byte list \<Rightarrow> bool" where
  "str_at m a xs \<longleftrightarrow> (\<forall>i < length xs. m (a + of_nat i) = xs ! i) \<and> 0 \<notin> set xs \<and> m (a + of_nat (length xs)) = 0"

section \<open>Word arithmetic\<close>

lemma unat32_less: "unat (a :: u32) < 2 ^ 32"
  by (rule order_less_le_trans [OF unsigned_less]) simp

lemma unat_of_nat32: "i < 2 ^ 32 \<Longrightarrow> unat (of_nat i :: u32) = i"
  by (simp add: unsigned_of_nat take_bit_nat_eq_self)

lemma unat_plus_nowrap: "unat (a :: u32) + i < 2 ^ 32 \<Longrightarrow> unat (a + of_nat i) = unat a + i"
proof -
  assume a: "unat a + i < 2 ^ 32"
  have "a + of_nat i = of_nat (unat a + i)" by simp
  then show ?thesis using a by (simp only: unat_of_nat32)
qed

lemma add_of_nat_eq [simp]:
  "i < 2 ^ 32 \<Longrightarrow> j < 2 ^ 32 \<Longrightarrow> (a + of_nat i :: u32) = a + of_nat j \<longleftrightarrow> i = j"
  by (simp add: word_of_nat_eq_iff take_bit_nat_eq_self)

lemma region_iff: "x \<in> region a n \<longleftrightarrow> unat (x - a) < n"
  by (simp add: region_def)

lemma region_0 [simp]: "region a 0 = {}"
  by (simp add: region_def)

lemma region_cases:
  assumes "x \<in> region a n"
  obtains i where "x = a + of_nat i" "i < n" "i < 2 ^ 32"
  using assms unat32_less [of "x - a"]
  by (intro that [of "unat (x - a)"]) (simp_all add: region_def)

lemma in_region: "i < n \<Longrightarrow> i < 2 ^ 32 \<Longrightarrow> a + of_nat i \<in> region a n"
  by (simp add: region_def unat_of_nat32)

lemma region_Suc: "n < 2 ^ 32 \<Longrightarrow> region a (Suc n) = insert (a + of_nat n) (region a n)"
proof -
  assume n: "n < 2 ^ 32"
  have "unat (x - a) = n \<longleftrightarrow> x = a + of_nat n" for x
  proof
    assume "unat (x - a) = n"
    then show "x = a + of_nat n" by auto
  qed (use n in \<open>simp add: unat_of_nat32\<close>)
  then show ?thesis by (auto simp: less_Suc_eq region_def)
qed

lemma region_Suc_first:
  assumes "n < 2 ^ 32"
  shows "region a (Suc n) = insert a (region (a + 1) n)"
proof (rule set_eqI)
  fix x
  show "x \<in> region a (Suc n) \<longleftrightarrow> x \<in> insert a (region (a + 1) n)"
  proof (cases "x = a")
    case False
    have "unat ((x - a) - 1) = unat (x - a) - 1"
      using False by (simp add: unat_minus_one)
    then have "unat (x - (a + 1)) = unat (x - a) - 1" by (simp only: diff_diff_add)
    moreover have "unat (x - a) \<noteq> 0" using False by (simp add: unat_eq_0)
    ultimately show ?thesis using False unfolding region_def by auto
  qed (simp add: region_def)
qed

lemma length_bytes [simp]: "length (bytes m a n) = n"
  by (simp add: bytes_def)

lemma nth_bytes [simp]: "i < n \<Longrightarrow> bytes m a n ! i = m (a + of_nat i)"
  by (simp add: bytes_def)

lemma bytes_cong: "(\<And>x. x \<in> region a n \<Longrightarrow> m x = m' x) \<Longrightarrow> n \<le> 2 ^ 32 \<Longrightarrow> bytes m a n = bytes m' a n"
  by (rule nth_equalityI) (simp_all add: in_region)

section \<open>32-bit loads and stores\<close>

lemma add_small_neq [simp]:
  "(a :: u32) + 1 \<noteq> a" "a + 2 \<noteq> a" "a + 3 \<noteq> a" "a \<noteq> a + 1" "a \<noteq> a + 2" "a \<noteq> a + 3"
  by simp_all

lemma ld32_st32 [simp]: "ld32 (st32 m a w) a = w"
proof -
  have "ld32 (st32 m a w) a = get32 (le32 w @ [])"
    by (simp add: ld32_def st32_def le32_def)
  then show ?thesis by (simp only: get32_le32)
qed

lemma st32_other: "x \<notin> region a 4 \<Longrightarrow> st32 m a w x = m x"
proof -
  assume x: "x \<notin> region a 4"
  have "a + of_nat i \<in> region a 4" if "i < 4" for i using that by (intro in_region) auto
  from this [of 0] this [of 1] this [of 2] this [of 3] x
  have "x \<noteq> a" "x \<noteq> a + 1" "x \<noteq> a + 2" "x \<noteq> a + 3" by auto
  then show ?thesis by (simp add: st32_def)
qed

end
