(* ===== verification/Kstring.thy ===== *)
theory Kstring
  imports Cmem
begin

text \<open>
  string.c of the kernel. The \<open>uint\<close> counters of the C loops count down to zero, so they are
  natural numbers here; an \<open>int\<close> counter that starts negative runs no iteration. \<open>stosb\<close> and
  \<open>stosl\<close> are the string instructions of x86.h. \<open>strlen\<close> runs until it meets a NUL, which may
  not exist: not returning is \<open>None\<close>.
\<close>

section \<open>The functions\<close>

fun stosb :: "mem \<Rightarrow> u32 \<Rightarrow> byte \<Rightarrow> nat \<Rightarrow> mem" where
  "stosb m d c 0 = m"
| "stosb m d c (Suc k) = stosb (m(d := c)) (d + 1) c k"

fun stosl :: "mem \<Rightarrow> u32 \<Rightarrow> u32 \<Rightarrow> nat \<Rightarrow> mem" where
  "stosl m d w 0 = m"
| "stosl m d w (Suc k) = stosl (st32 m d w) (d + 4) w k"

definition memset :: "mem \<Rightarrow> u32 \<Rightarrow> u32 \<Rightarrow> u32 \<Rightarrow> u32 \<times> mem" where
  "memset m dst c n =
     (dst,
      if sint dst mod 4 = 0 \<and> n mod 4 = 0 then
        let c = c AND 0xFF in
        stosl m dst (push_bit 24 c OR push_bit 16 c OR push_bit 8 c OR c) (unat (n div 4))
      else stosb m dst (ucast c) (unat n))"

fun memcmp_loop :: "mem \<Rightarrow> u32 \<Rightarrow> u32 \<Rightarrow> nat \<Rightarrow> int" where
  "memcmp_loop m s1 s2 0 = 0"
| "memcmp_loop m s1 s2 (Suc n) =
     (if m s1 \<noteq> m s2 then uint (m s1) - uint (m s2) else memcmp_loop m (s1 + 1) (s2 + 1) n)"

definition memcmp :: "mem \<Rightarrow> u32 \<Rightarrow> u32 \<Rightarrow> u32 \<Rightarrow> int" where
  "memcmp m v1 v2 n = memcmp_loop m v1 v2 (unat n)"

fun copy_up :: "mem \<Rightarrow> u32 \<Rightarrow> u32 \<Rightarrow> nat \<Rightarrow> mem" where
  "copy_up m d s 0 = m"
| "copy_up m d s (Suc n) = copy_up (m(d := m s)) (d + 1) (s + 1) n"

fun copy_down :: "mem \<Rightarrow> u32 \<Rightarrow> u32 \<Rightarrow> nat \<Rightarrow> mem" where
  "copy_down m d s 0 = m"
| "copy_down m d s (Suc n) = copy_down (m(d - 1 := m (s - 1))) (d - 1) (s - 1) n"

definition memmove :: "mem \<Rightarrow> u32 \<Rightarrow> u32 \<Rightarrow> u32 \<Rightarrow> u32 \<times> mem" where
  "memmove m dst src n =
     (dst, if src < dst \<and> dst < src + n then copy_down m (dst + n) (src + n) (unat n)
           else copy_up m dst src (unat n))"

definition memcpy :: "mem \<Rightarrow> u32 \<Rightarrow> u32 \<Rightarrow> u32 \<Rightarrow> u32 \<times> mem" where
  "memcpy m dst src n = memmove m dst src n"

fun strncmp_loop :: "mem \<Rightarrow> u32 \<Rightarrow> u32 \<Rightarrow> nat \<Rightarrow> int" where
  "strncmp_loop m p q 0 = 0"
| "strncmp_loop m p q (Suc n) =
     (if m p \<noteq> 0 \<and> m p = m q then strncmp_loop m (p + 1) (q + 1) n
      else uint (m p) - uint (m q))"

definition strncmp :: "mem \<Rightarrow> u32 \<Rightarrow> u32 \<Rightarrow> u32 \<Rightarrow> int" where
  "strncmp m p q n = strncmp_loop m p q (unat n)"

text \<open>\<open>while(n-- > 0 && (*s++ = *t++) != 0);\<close>: the memory, the final \<open>s\<close> and the iterations left.\<close>

fun copy_str :: "mem \<Rightarrow> u32 \<Rightarrow> u32 \<Rightarrow> nat \<Rightarrow> mem \<times> u32 \<times> nat" where
  "copy_str m s t 0 = (m, s, 0)"
| "copy_str m s t (Suc n) =
     (if m t \<noteq> 0 then copy_str (m(s := m t)) (s + 1) (t + 1) n else (m(s := 0), s + 1, n))"

definition strncpy :: "mem \<Rightarrow> u32 \<Rightarrow> u32 \<Rightarrow> int \<Rightarrow> u32 \<times> mem" where
  "strncpy m s t n =
     (let (m', s', k) = copy_str m s t (nat n) in (s, stosb m' s' 0 k))"

definition safestrcpy :: "mem \<Rightarrow> u32 \<Rightarrow> u32 \<Rightarrow> int \<Rightarrow> u32 \<times> mem" where
  "safestrcpy m s t n =
     (if n \<le> 0 then (s, m)
      else let (m', s', k) = copy_str m s t (nat (n - 1)) in (s, m'(s' := 0)))"

partial_function (option) strlen_loop :: "mem \<Rightarrow> u32 \<Rightarrow> nat \<Rightarrow> nat option" where
  "strlen_loop m s n = (if m (s + of_nat n) = 0 then Some n else strlen_loop m s (Suc n))"

definition strlen :: "mem \<Rightarrow> u32 \<Rightarrow> nat option" where
  "strlen m s = strlen_loop m s 0"

section \<open>Memory\<close>

lemma stosb_eq: "k \<le> 2 ^ 32 \<Longrightarrow> stosb m d c k = (\<lambda>x. if x \<in> region d k then c else m x)"
  by (induction k arbitrary: m d) (auto simp: region_Suc_first)

lemma region_4: "region d 4 = {d, d + 1, d + 2, d + 3}"
proof -
  have "region d (Suc (Suc (Suc (Suc 0)))) = {d, d + 1, d + 2, d + 3}"
    by (simp add: region_Suc insert_commute)
  then show ?thesis by (simp only: numeral_eq_Suc pred_numeral_simps BitM.simps)
qed

lemma region_split:
  assumes "i + j \<le> 2 ^ 32"
  shows "region d (i + j) = region d i \<union> region (d + of_nat i) j"
  using assms
proof (induction j)
  case (Suc j)
  then show ?case using region_Suc [of "i + j" d] region_Suc [of j "d + of_nat i"] by (auto simp: algebra_simps)
qed simp

lemma stosl_eq:
  assumes "4 * k \<le> 2 ^ 32"
    and "ucast w = c" "ucast (drop_bit 8 w) = c" "ucast (drop_bit 16 w) = c" "ucast (drop_bit 24 w) = c"
  shows "stosl m d w k = (\<lambda>x. if x \<in> region d (4 * k) then c else m x)"
  using assms(1)
proof (induction k arbitrary: m d)
  case (Suc k)
  have "region d (4 * Suc k) = region d 4 \<union> region (d + 4) (4 * k)"
    using region_split [of 4 "4 * k" d] Suc.prems by simp
  moreover have "st32 m d w x = (if x \<in> region d 4 then c else m x)" for x
    using assms(2-) by (auto simp: region_4 st32_def)
  ultimately show ?case using Suc by auto
qed simp

lemma replicated_byte:
  fixes c :: u32
  defines "w \<equiv> push_bit 24 (c AND 0xFF) OR push_bit 16 (c AND 0xFF) OR push_bit 8 (c AND 0xFF) OR (c AND 0xFF)"
  shows "(ucast w :: byte) = ucast c" "(ucast (drop_bit 8 w) :: byte) = ucast c"
    "(ucast (drop_bit 16 w) :: byte) = ucast c" "(ucast (drop_bit 24 w) :: byte) = ucast c"
proof -
  have m: "c AND 0xFF = take_bit 8 c" by (simp add: take_bit_eq_mask mask_eq_exp_minus_1)
  show "(ucast w :: byte) = ucast c" "(ucast (drop_bit 8 w) :: byte) = ucast c"
    "(ucast (drop_bit 16 w) :: byte) = ucast c" "(ucast (drop_bit 24 w) :: byte) = ucast c"
    unfolding w_def m by (rule bit_word_eqI; auto simp: bit_simps)+
qed

lemma memset_eq: "memset m dst c n = (dst, \<lambda>x. if x \<in> region dst (unat n) then ucast c else m x)"
proof (cases "sint dst mod 4 = 0 \<and> n mod 4 = 0")
  case True
  then have "unat (n mod 4) = 0" by simp
  then have n: "4 * unat (n div 4) = unat n" by (simp add: unat_div_distrib unat_mod_distrib) presburger
  then show ?thesis
    using True stosl_eq [OF _ replicated_byte, of "unat (n div 4)" m dst c] unat32_less [of n]
    by (simp add: memset_def Let_def)
next
  case False
  then show ?thesis
    using stosb_eq [of "unat n"] unat32_less [of n] by (auto simp: memset_def)
qed

text \<open>Copying upwards is right when the destination does not start inside the source, downwards
  when the source does not start inside the destination.\<close>

lemma copy_up_eq:
  assumes "n \<le> 2 ^ 32" "d = s \<or> d \<notin> region s n"
  shows "copy_up m d s n = (\<lambda>x. if x \<in> region d n then m (s + (x - d)) else m x)"
  using assms
proof (induction n arbitrary: m d s)
  case (Suc n)
  have n: "n < 2 ^ 32" using Suc.prems by simp
  have r: "region s (Suc n) = insert s (region (s + 1) n)" "region d (Suc n) = insert d (region (d + 1) n)"
    using region_Suc_first [OF n] by auto
  have "d + 1 = s + 1 \<or> d + 1 \<notin> region (s + 1) n"
    using Suc.prems(2) region_Suc [OF n, of s] by (auto simp: region_def)
  then have IH: "copy_up (m(d := m s)) (d + 1) (s + 1) n =
    (\<lambda>x. if x \<in> region (d + 1) n then (m(d := m s)) (s + 1 + (x - (d + 1))) else (m(d := m s)) x)"
    using Suc.prems n by (intro Suc.IH) auto
  show ?case
  proof
    fix x
    have e: "s + 1 + (x - (d + 1)) = s + (x - d)" by simp
    show "copy_up m d s (Suc n) x = (if x \<in> region d (Suc n) then m (s + (x - d)) else m x)"
    proof (cases "x \<in> region (d + 1) n")
      case True
      then have "s + (x - d) \<in> region s (Suc n)"
        using r(2) by (simp add: set_eq_iff region_iff)
      then have "s + (x - d) \<noteq> d \<or> s = d" using Suc.prems(2) by metis
      then show ?thesis using True IH e r by auto
    next
      case False
      then show ?thesis using IH r by auto
    qed
  qed
qed simp

lemma copy_down_eq:
  assumes "n < 2 ^ 32" "s = d \<or> s \<notin> region d n"
  shows "copy_down m (d + of_nat n) (s + of_nat n) n = (\<lambda>x. if x \<in> region d n then m (s + (x - d)) else m x)"
  using assms
proof (induction n arbitrary: m)
  case (Suc n)
  have n: "n < 2 ^ 32" using Suc.prems by simp
  note r = region_Suc [OF n, of d]
  let ?m = "m(d + of_nat n := m (s + of_nat n))"
  have IH: "copy_down ?m (d + of_nat n) (s + of_nat n) n =
    (\<lambda>x. if x \<in> region d n then ?m (s + (x - d)) else ?m x)"
    using Suc.prems r n by (intro Suc.IH) auto
  have top: "d + of_nat n \<notin> region d n" using n by (simp add: region_iff unat_of_nat32)
  have ne: "s + (x - d) \<noteq> d + of_nat n" if x: "x \<in> region d n" for x
  proof
    assume eq: "s + (x - d) = d + of_nat n"
    from x obtain i where i: "x = d + of_nat i" "i < n" by (rule region_cases)
    then have "s = d + (of_nat n - of_nat i)" using eq by (simp add: algebra_simps)
    then have s: "s = d + of_nat (n - i)" using i(2) by (simp add: of_nat_diff)
    have "d + of_nat (n - i) \<in> region d (Suc n)" using n by (intro in_region) auto
    with s Suc.prems(2) have "s = d" by simp
    with s have "(of_nat (n - i) :: u32) = 0" by simp
    then have "n - i = 0" using unat_of_nat32 [of "n - i"] n by simp
    with i show False by simp
  qed
  have step: "copy_down m (d + of_nat (Suc n)) (s + of_nat (Suc n)) (Suc n) = copy_down ?m (d + of_nat n) (s + of_nat n) n"
    by (simp add: add.commute add.left_commute)
  show ?case
    unfolding step IH r using ne top by (auto simp: fun_eq_iff)
qed simp

lemma not_in_region: "unat (s :: u32) < unat d \<Longrightarrow> unat d + n \<le> 2 ^ 32 \<Longrightarrow> s \<notin> region d n"
  using unat32_less [of d] by (auto simp: region_iff unat_sub_if_size word_size)

lemma not_in_region_above: "unat s + n \<le> unat d \<Longrightarrow> d \<notin> region s n"
  by (auto simp: region_iff unat_sub_if_size word_size)

lemma memmove_eq:
  assumes "unat src + unat n < 2 ^ 32" "unat dst + unat n \<le> 2 ^ 32"
  shows "memmove m dst src n = (dst, \<lambda>x. if x \<in> region dst (unat n) then m (src + (x - dst)) else m x)"
proof (cases "src < dst \<and> dst < src + n")
  case True
  have "src \<notin> region dst (unat n)"
    using True assms(2) by (intro not_in_region) (auto simp: word_less_nat_alt)
  then show ?thesis
    using True copy_down_eq [of "unat n" src dst m] unat32_less [of n] by (simp add: memmove_def)
next
  case False
  have "unat (src + n) = unat src + unat n"
    using unat_plus_nowrap [of src "unat n"] assms(1) by simp
  then consider "unat dst < unat src" | "unat dst = unat src" | "unat src + unat n \<le> unat dst"
    using False by (fastforce simp: word_less_nat_alt)
  then have "dst = src \<or> dst \<notin> region src (unat n)"
    using assms not_in_region [of dst src "unat n"] not_in_region_above [of src "unat n" dst]
    by cases (auto dest: unsigned_word_eqI)
  then show ?thesis
    using False copy_up_eq [of "unat n" dst src m] unat32_less [of n] by (auto simp: memmove_def)
qed

section \<open>Comparison\<close>

lemma memcmp_loop_eq:
  "memcmp_loop m s1 s2 n =
     (case find (\<lambda>i. m (s1 + of_nat i) \<noteq> m (s2 + of_nat i)) [0..<n] of
        None \<Rightarrow> 0 | Some i \<Rightarrow> uint (m (s1 + of_nat i)) - uint (m (s2 + of_nat i)))"
proof (induction n arbitrary: s1 s2)
  case (Suc n)
  have "find P (map Suc xs) = map_option Suc (find (\<lambda>i. P (Suc i)) xs)" for P xs
    by (induction xs) auto
  then have "find (\<lambda>i. m (s1 + of_nat i) \<noteq> m (s2 + of_nat i)) [0..<Suc n] =
    (if m s1 \<noteq> m s2 then Some 0
     else map_option Suc (find (\<lambda>i. m (s1 + 1 + of_nat i) \<noteq> m (s2 + 1 + of_nat i)) [0..<n]))"
    by (simp add: upt_conv_Cons add.assoc del: upt_Suc flip: map_Suc_upt)
  with Suc show ?case by (auto split: option.splits simp: add.assoc)
qed simp

lemma memcmp_zero: "memcmp m v1 v2 n = 0 \<longleftrightarrow> bytes m v1 (unat n) = bytes m v2 (unat n)"
proof -
  have "memcmp m v1 v2 n = 0 \<longleftrightarrow> (\<forall>i < unat n. m (v1 + of_nat i) = m (v2 + of_nat i))"
    unfolding memcmp_def memcmp_loop_eq
    by (auto split: option.splits simp: find_None_iff find_Some_iff dest: unsigned_word_eqI)
  then show ?thesis by (simp add: list_eq_iff_nth_eq)
qed

section \<open>Strings\<close>

lemma str_at_Cons: "str_at m a (x # xs) \<longleftrightarrow> m a = x \<and> x \<noteq> 0 \<and> str_at m (a + 1) xs"
  by (auto simp: str_at_def nth_Cons add.assoc split: nat.splits)

lemma str_at_Nil: "str_at m a [] \<longleftrightarrow> m a = 0"
  by (simp add: str_at_def)

text \<open>The string that starts at an address, cut off after \<open>n\<close> bytes.\<close>

definition cstr :: "mem \<Rightarrow> u32 \<Rightarrow> nat \<Rightarrow> byte list" where
  "cstr m a n = takeWhile (\<lambda>c. c \<noteq> 0) (bytes m a n)"

lemma bytes_Suc: "bytes m a (Suc n) = m a # bytes m (a + 1) n"
  by (simp add: bytes_def upt_conv_Cons add.assoc del: upt_Suc flip: map_Suc_upt)

lemma cstr_simps [simp]:
  "cstr m a 0 = []" "cstr m a (Suc n) = (if m a = 0 then [] else m a # cstr m (a + 1) n)"
  by (simp_all add: cstr_def bytes_Suc) (simp add: bytes_def)

lemma cstr_str_at: "str_at m a xs \<Longrightarrow> cstr m a n = take n xs"
proof (induction n arbitrary: a xs)
  case (Suc n)
  then show ?case by (cases xs) (auto simp: str_at_Cons str_at_Nil)
qed simp

lemma strlen_loop_str:
  assumes "str_at m s xs" "n \<le> length xs"
  shows "strlen_loop m s n = Some (length xs)"
  using assms(2)
proof (induction "length xs - n" arbitrary: n)
  case 0
  then have "n = length xs" by simp
  then show ?case using assms(1) by (subst strlen_loop.simps) (simp add: str_at_def)
next
  case (Suc k)
  then have n: "n < length xs" by simp
  then have "m (s + of_nat n) \<noteq> 0" using assms(1) by (metis nth_mem str_at_def)
  then show ?case using Suc n by (subst strlen_loop.simps) auto
qed

text \<open>The order of strings: the first difference decides, the end of a string counts as NUL.\<close>

fun lexcmp :: "byte list \<Rightarrow> byte list \<Rightarrow> int" where
  "lexcmp [] [] = 0"
| "lexcmp (x # xs) [] = uint x"
| "lexcmp [] (y # ys) = - uint y"
| "lexcmp (x # xs) (y # ys) = (if x = y then lexcmp xs ys else uint x - uint y)"

lemma lexcmp_zero: "0 \<notin> set xs \<Longrightarrow> 0 \<notin> set ys \<Longrightarrow> lexcmp xs ys = 0 \<longleftrightarrow> xs = ys"
  by (induction xs ys rule: lexcmp.induct) (auto dest: unsigned_word_eqI simp: unsigned_eq_0_iff)

lemma strncmp_loop_eq: "strncmp_loop m p q n = lexcmp (cstr m p n) (cstr m q n)"
  by (induction n arbitrary: p q) auto

lemma nonzero_cstr: "0 \<notin> set (cstr m p n)"
  by (auto simp: cstr_def dest: set_takeWhileD)

text \<open>Writing a list of bytes.\<close>

definition store :: "mem \<Rightarrow> u32 \<Rightarrow> byte list \<Rightarrow> mem" where
  "store m a xs = (\<lambda>x. if x \<in> region a (length xs) then xs ! unat (x - a) else m x)"

lemma store_Nil [simp]: "store m a [] = m"
  by (simp add: store_def)

lemma store_Cons:
  assumes "length xs < 2 ^ 32"
  shows "store m a (x # xs) = store (m(a := x)) (a + 1) xs"
proof
  fix y
  have r: "region a (Suc (length xs)) = insert a (region (a + 1) (length xs))"
    by (rule region_Suc_first [OF assms])
  have na: "a \<notin> region (a + 1) (length xs)"
    using assms by (simp add: region_iff unsigned_minus_1_eq_mask mask_eq_exp_minus_1)
  show "store m a (x # xs) y = store (m(a := x)) (a + 1) xs y"
  proof (cases "y = a")
    case True
    then show ?thesis using na by (simp add: store_def region_iff)
  next
    case False
    then have "unat (y - a) = Suc (unat (y - (a + 1)))"
      using unat_minus_one [of "y - a"] by (simp add: diff_diff_add) (metis Suc_pred diff_diff_eq eq_iff_diff_eq_0 unat_gt_0)
    then show ?thesis using False r by (auto simp: store_def)
  qed
qed

lemma cstr_upd: "s \<notin> region t n \<Longrightarrow> n \<le> 2 ^ 32 \<Longrightarrow> cstr (m(s := v)) t n = cstr m t n"
  unfolding cstr_def by (subst bytes_cong [where m' = m]) auto

lemma region_step:
  assumes "region s (Suc n) \<inter> region t (Suc n) = {}" "n < 2 ^ 32"
  shows "region (s + 1) n \<inter> region (t + 1) n = {}" "s \<notin> region (t + 1) n"
  using assms region_Suc_first [OF assms(2), of s] region_Suc_first [OF assms(2), of t] by auto

lemma copy_str_eq:
  fixes m :: mem
  assumes "n < 2 ^ 32" "region s n \<inter> region t n = {}"
  defines "xs \<equiv> cstr m t n"
  shows "copy_str m s t n = (if length xs < n then (store m s (xs @ [0]), s + of_nat (length xs) + 1, n - length xs - 1)
    else (store m s xs, s + of_nat n, 0))"
  using assms(1,2) unfolding xs_def
proof (induction n arbitrary: m s t)
  case (Suc n)
  have n: "n < 2 ^ 32" using Suc.prems by simp
  note d = region_step [OF Suc.prems(2) n]
  have c: "cstr (m(s := v)) (t + 1) n = cstr m (t + 1) n" for v
    using d n by (intro cstr_upd) auto
  have "length (cstr m (t + 1) n) \<le> n"
    by (metis cstr_def length_bytes length_takeWhile_le)
  then have "length (cstr m (t + 1) n @ [0]) < 2 ^ 32" "length (cstr m (t + 1) n) < 2 ^ 32"
    using Suc.prems(1) by auto
  then have st: "store m s (m t # cstr m (t + 1) n @ [0]) = store (m(s := m t)) (s + 1) (cstr m (t + 1) n @ [0])"
    "store m s (m t # cstr m (t + 1) n) = store (m(s := m t)) (s + 1) (cstr m (t + 1) n)"
    using store_Cons by blast+
  have "store m s [0] = m(s := 0)" by (simp add: store_Cons)
  then show ?case
    using st by (simp add: Suc.IH [OF n d(1), of "m(s := m t)", unfolded c] add.assoc del: fun_upd_apply)
qed simp

text \<open>The bytes that \<open>strncpy\<close> and \<open>safestrcpy\<close> leave.\<close>

lemma store_append:
  assumes "length xs + length ys < 2 ^ 32"
  shows "store (store m a xs) (a + of_nat (length xs)) ys = store m a (xs @ ys)"
  using assms
proof (induction xs arbitrary: m a)
  case (Cons x xs)
  then show ?case
    using Cons.IH [of "m(a := x)" "a + 1"] by (simp add: store_Cons add.assoc del: fun_upd_apply)
qed simp

lemma stosb_store: "k < 2 ^ 32 \<Longrightarrow> stosb m d c k = store m d (replicate k c)"
  by (simp add: stosb_eq store_def region_iff fun_eq_iff)

lemma strncpy_eq:
  assumes "n < 2 ^ 31" "region s (nat n) \<inter> region t (nat n) = {}"
  shows "strncpy m s t n = (s, store m s (take (nat n) (cstr m t (nat n) @ replicate (nat n) 0)))"
proof -
  let ?n = "nat n" and ?xs = "cstr m t (nat n)"
  have n: "?n < 2 ^ 32" using assms(1) by auto
  have l: "length ?xs \<le> ?n" by (metis cstr_def length_bytes length_takeWhile_le)
  note c = copy_str_eq [OF n assms(2), of m]
  show ?thesis
  proof (cases "length ?xs < ?n")
    case True
    let ?k = "?n - length ?xs - 1"
    have "stosb (store m s (?xs @ [0])) (s + of_nat (length ?xs) + 1) 0 ?k =
      store (store m s (?xs @ [0])) (s + of_nat (length (?xs @ [0 :: byte]))) (replicate ?k 0)"
      using n by (subst stosb_store) (auto simp: ac_simps)
    also have "\<dots> = store m s ((?xs @ [0]) @ replicate ?k 0)"
      using n True by (intro store_append) auto
    also have "(?xs @ [0]) @ replicate ?k 0 = take ?n (?xs @ replicate ?n 0)"
      using True by (simp add: Suc_diff_Suc min_def flip: replicate_Suc)
    finally show ?thesis using True c by (simp add: strncpy_def)
  next
    case False
    then show ?thesis using l c by (simp add: strncpy_def)
  qed
qed

lemma safestrcpy_eq:
  fixes m :: mem
  assumes "0 < n" "n < 2 ^ 31" "region s (nat n) \<inter> region t (nat n) = {}"
  defines "xs \<equiv> cstr m t (nat n - 1)"
  shows "safestrcpy m s t n = (s, store m s (xs @ 0 # (if length xs < nat n - 1 then [0] else [])))"
proof -
  let ?n = "nat n - 1"
  have n: "?n < 2 ^ 32" using assms(2) by auto
  have "region s ?n \<subseteq> region s (nat n)" "region t ?n \<subseteq> region t (nat n)"
    by (auto simp: region_def)
  then have dj: "region s ?n \<inter> region t ?n = {}" using assms(3) by blast
  have l: "length xs \<le> ?n" unfolding xs_def by (metis cstr_def length_bytes length_takeWhile_le)
  note c = copy_str_eq [OF n dj, of m, folded xs_def]
  have e: "nat (n - 1) = ?n" using assms(1) by auto
  have one: "store m' a [x] = m'(a := x)" for m' a x by (simp add: store_Cons)
  show ?thesis
  proof (cases "length xs < ?n")
    case True
    have "(store m s (xs @ [0]))(s + of_nat (length xs) + 1 := 0) =
      store (store m s (xs @ [0])) (s + of_nat (length (xs @ [0 :: byte]))) [0]"
      by (simp add: one ac_simps del: fun_upd_apply)
    also have "\<dots> = store m s ((xs @ [0]) @ [0])" using assms(2) True by (intro store_append) auto
    finally show ?thesis using True c assms(1) by (simp add: safestrcpy_def e)
  next
    case False
    then have "length xs = ?n" using l by simp
    moreover from this have "(store m s xs)(s + of_nat ?n := 0) = store m s (xs @ [0])"
      using store_append [of xs "[0]" m s] n assms(2) by (simp add: one)
    ultimately show ?thesis using False c assms(1) by (simp add: safestrcpy_def e)
  qed
qed

end
