(* ===== verification/Kalloc.thy ===== *)
theory Kalloc
  imports Sleeplock Kstring
begin

text \<open>
  The physical page allocator (kalloc.c). Kernel memory is addressed by kernel virtual
  addresses; the free pages form a linked list through the first word of each. \<open>kend\<close> is the
  linker symbol \<open>end\<close>, the first address after the kernel image, and \<open>kdata\<close> the symbol \<open>data\<close>;
  \<open>kpgdir\<close>, \<open>cr3\<close> and \<open>esp0\<close> are the kernel's own page directory and the page-directory register and kernel-stack
  entry of the executing CPU, which vm.c sets.
\<close>

definition PGSIZE :: u32 where "PGSIZE = 4096"
definition KERNBASE :: u32 where "KERNBASE = 0x80000000"
definition PHYSTOP :: u32 where "PHYSTOP = 0xE000000"
definition V2P :: "u32 \<Rightarrow> u32" where "V2P a = a - KERNBASE"
definition P2V :: "u32 \<Rightarrow> u32" where "P2V a = a + KERNBASE"
definition PGROUNDUP :: "u32 \<Rightarrow> u32" where "PGROUNDUP a = (a + PGSIZE - 1) AND NOT (PGSIZE - 1)"
definition PGROUNDDOWN :: "u32 \<Rightarrow> u32" where "PGROUNDDOWN a = a AND NOT (PGSIZE - 1)"

record kmemsys = kern +
  mem :: mem
  use_lock :: bool
  freelist :: u32
  kend :: u32
  kdata :: u32
  kpgdir :: u32
  cr3 :: u32
  esp0 :: u32

definition set_mem :: "mem \<Rightarrow> 'z kmemsys_scheme \<Rightarrow> 'z kmemsys_scheme" where
  "set_mem m s = s\<lparr>mem := m\<rparr>"

definition kfree :: "u32 \<Rightarrow> 'z kmemsys_scheme \<Rightarrow> (unit, 'z kmemsys_scheme) outcome" where
  "kfree v s =
     (if v mod PGSIZE \<noteq> 0 \<or> v < kend s \<or> PHYSTOP \<le> V2P v then Panic ''kfree'' else
      let s = set_mem (snd (memset (mem s) v 1 PGSIZE)) s in
      rbind (if use_lock s then acquire LKmem s else Ret () s) (\<lambda>_ s.
      let s = set_mem (st32 (mem s) v (freelist s)) s;
          s = s\<lparr>freelist := v\<rparr> in
      if use_lock s then release LKmem s else Ret () s))"

definition kalloc :: "'z kmemsys_scheme \<Rightarrow> (u32, 'z kmemsys_scheme) outcome" where
  "kalloc s =
     rbind (if use_lock s then acquire LKmem s else Ret () s) (\<lambda>_ s.
     let r = freelist s;
         s = (if r \<noteq> 0 then s\<lparr>freelist := ld32 (mem s) r\<rparr> else s) in
     rbind (if use_lock s then release LKmem s else Ret () s) (\<lambda>_ s. Ret r s))"

text \<open>The loop of \<open>freerange\<close>. The bound is the number of pages of the address space; a loop that
  takes more iterations than that goes round for ever.\<close>

fun freerange_loop :: "nat \<Rightarrow> u32 \<Rightarrow> u32 \<Rightarrow> 'z kmemsys_scheme \<Rightarrow> (unit, 'z kmemsys_scheme) outcome" where
  "freerange_loop 0 p vend s = Spin"
| "freerange_loop (Suc k) p vend s =
     (if p + PGSIZE \<le> vend
      then rbind (kfree p s) (\<lambda>_ s. freerange_loop k (p + PGSIZE) vend s)
      else Ret () s)"

definition freerange :: "u32 \<Rightarrow> u32 \<Rightarrow> 'z kmemsys_scheme \<Rightarrow> (unit, 'z kmemsys_scheme) outcome" where
  "freerange vstart vend s = freerange_loop (2 ^ 20) (PGROUNDUP vstart) vend s"

definition kinit1 :: "u32 \<Rightarrow> u32 \<Rightarrow> 'z kmemsys_scheme \<Rightarrow> (unit, 'z kmemsys_scheme) outcome" where
  "kinit1 vstart vend s = freerange vstart vend ((initlock LKmem ''kmem'' s)\<lparr>use_lock := False\<rparr>)"

definition kinit2 :: "u32 \<Rightarrow> u32 \<Rightarrow> 'z kmemsys_scheme \<Rightarrow> (unit, 'z kmemsys_scheme) outcome" where
  "kinit2 vstart vend s =
     rbind (freerange vstart vend s) (\<lambda>_ s. Ret () (s\<lparr>use_lock := True\<rparr>))"

end
