(* ===== verification/Chain.thy ===== *)
theory Chain
  imports Prelude
begin

text \<open>
  Linked lists through an index field. \<open>chain f ys\<close>: from the first node of \<open>ys\<close>, the link
  \<open>f\<close> leads through \<open>ys\<close> in order. A circular doubly linked list with head \<open>h\<close> and nodes
  \<open>xs\<close> is a chain of the next links through \<open>h # xs @ [h]\<close> and one of the previous links
  through \<open>h # rev xs @ [h]\<close>.
\<close>

fun chain :: "('a \<Rightarrow> 'a) \<Rightarrow> 'a list \<Rightarrow> bool" where
  "chain f (x # y # ys) \<longleftrightarrow> f x = y \<and> chain f (y # ys)"
| "chain f _ \<longleftrightarrow> True"

lemma chain_append: "chain f (as @ x # bs) \<longleftrightarrow> chain f (as @ [x]) \<and> chain f (x # bs)"
  by (induction f as rule: chain.induct) auto

lemma chain_upd: "a \<notin> set (butlast ys) \<Longrightarrow> chain (f(a := b)) ys = chain f ys"
  by (induction f ys rule: chain.induct) auto

lemma chain_cong: "(\<And>x. x \<in> set (butlast ys) \<Longrightarrow> f x = g x) \<Longrightarrow> chain f ys = chain g ys"
  by (induction f ys rule: chain.induct) auto

definition ring :: "('a \<Rightarrow> 'a) \<Rightarrow> ('a \<Rightarrow> 'a) \<Rightarrow> 'a \<Rightarrow> 'a list \<Rightarrow> bool" where
  "ring nx pv h xs \<longleftrightarrow>
     distinct xs \<and> h \<notin> set xs \<and> chain nx (h # xs @ [h]) \<and> chain pv (h # rev xs @ [h])"

lemma chain_hd: "chain f (h # xs @ [h]) \<Longrightarrow> f h = hd (xs @ [h])"
  by (cases xs) auto

lemma chain_mid: "chain f (as @ x # y # bs) \<Longrightarrow> f x = y"
  by (subst (asm) chain_append) simp

text \<open>Taking a node out of a one-way chain, and pushing one behind the head.\<close>

lemma chain_cut:
  assumes "chain f (as @ x # b # ys)" "ys \<noteq> []" "x \<notin> set as" "x \<notin> set (butlast ys)"
  shows "chain (f(x := hd ys)) (as @ x # ys)"
proof -
  obtain y zs where ys: "ys = y # zs" using assms(2) by (cases ys) auto
  have "chain f (as @ [x])" "chain f ys"
    using assms(1) iffD1 [OF chain_append [of f as x "b # ys"]] by (simp_all add: ys)
  then have "chain (f(x := hd ys)) (as @ [x])" "chain (f(x := hd ys)) ys"
    using assms(3,4) by (simp_all add: chain_upd)
  then show ?thesis
    by (intro iffD2 [OF chain_append [of _ as x ys]]) (simp add: ys)
qed

lemma chain_unlink:
  assumes "chain f (h # us @ b # vs @ [h])" "distinct (us @ b # vs)" "h \<notin> set (us @ b # vs)"
  shows "chain (f(last (h # us) := hd (vs @ [h]))) (h # us @ vs @ [h])"
proof (cases us rule: rev_cases)
  case Nil
  then show ?thesis
    using assms chain_cut [of f "[]" h b "vs @ [h]"] by (simp add: butlast_append)
next
  case (snoc as x)
  then show ?thesis
    using assms chain_cut [of f "h # as" x b "vs @ [h]"] by (auto simp: butlast_append)
qed

lemma chain_push:
  assumes "chain f (h # xs @ [h])" "b \<notin> set xs" "b \<noteq> h" "h \<notin> set xs"
  shows "chain (f(b := f h, h := b)) (h # b # xs @ [h])"
proof -
  obtain y bs where bs: "xs @ [h] = y # bs" by (metis append_is_Nil_conv neq_Nil_conv not_Cons_self2)
  have "butlast (y # bs) = xs" unfolding bs [symmetric] by simp
  with assms have "chain (f(b := f h, h := b)) (y # bs)"
    unfolding bs by (simp add: chain_upd)
  moreover have "f h = y" using assms(1) bs by simp
  ultimately show ?thesis
    using assms(3) by (simp add: bs)
qed

text \<open>The same from the other end of the ring: a push becomes an append.\<close>

lemma chain_snoc:
  assumes "chain f (h # ys @ [h])" "b \<notin> set ys" "b \<noteq> h" "h \<notin> set ys" "distinct ys"
  shows "chain (f(b := h, last (h # ys) := b)) (h # ys @ [b, h])"
proof -
  obtain as x where as: "h # ys = as @ [x]" by (metis neq_Nil_conv rev_exhaust)
  have "distinct (h # ys)" using assms(4,5) by simp
  then have d: "x \<notin> set as" unfolding as by simp
  have xb: "x \<noteq> b" using as assms(2,3) by (metis in_set_conv_decomp set_ConsD)
  have bas: "b \<notin> set as" using as assms(2,3) by (metis append_Cons Un_iff set_ConsD set_append)
  have "chain f ((h # ys) @ [h])" using assms(1) by simp
  then have "chain f (as @ [x])"
    unfolding as using chain_append [of f as x "[h]"] by simp
  then have "chain (f(b := h, x := b)) (as @ x # [b, h])"
    using d xb bas by (subst chain_append) (simp add: chain_upd)
  moreover have e: "h # ys @ [b, h] = as @ x # [b, h]"
    using arg_cong [OF as, of "\<lambda>l. l @ [b, h]"] by simp
  moreover have l: "last (h # ys) = x" by (simp only: as last_snoc)
  ultimately show ?thesis by (simp only:)
qed

section \<open>Doubly linked rings\<close>

lemma ring_next: "ring nx pv h xs \<Longrightarrow> nx h = hd (xs @ [h])"
  by (auto simp: ring_def dest: chain_hd)

lemma ring_prev: "ring nx pv h xs \<Longrightarrow> pv h = hd (rev xs @ [h])"
  by (auto simp: ring_def dest: chain_hd)

lemma ring_unlink:
  assumes "ring nx pv h (us @ b # vs)"
  shows "nx b = hd (vs @ [h])" "pv b = last (h # us)"
    "ring (nx(pv b := nx b)) (pv(nx b := pv b)) h (us @ vs)"
proof -
  have n: "chain nx (h # us @ b # vs @ [h])" and p: "chain pv (h # rev vs @ b # rev us @ [h])"
    and d: "distinct (us @ b # vs)" "h \<notin> set (us @ b # vs)"
    using assms by (simp_all add: ring_def)
  show nb: "nx b = hd (vs @ [h])"
    using chain_append [of nx "h # us" b "vs @ [h]"] n by (cases vs) auto
  have "pv b = hd (rev us @ [h])"
    using chain_append [of pv "h # rev vs" b "rev us @ [h]"] p by (cases "rev us") auto
  then show pb: "pv b = last (h # us)"
    by (simp add: hd_append hd_rev)
  have "last (h # rev vs) = hd (vs @ [h])"
    by (cases vs) (simp_all add: last_rev)
  moreover have "hd (rev us @ [h]) = last (h # us)"
    by (simp add: hd_append hd_rev)
  moreover have "chain (nx(last (h # us) := hd (vs @ [h]))) (h # us @ vs @ [h])"
    using n d by (rule chain_unlink)
  moreover have "chain (pv(last (h # rev vs) := hd (rev us @ [h]))) (h # rev vs @ rev us @ [h])"
    using p d by (intro chain_unlink) auto
  ultimately show "ring (nx(pv b := nx b)) (pv(nx b := pv b)) h (us @ vs)"
    using d by (simp add: ring_def nb pb)
qed

lemma ring_push:
  assumes "ring nx pv h xs" "b \<notin> set xs" "b \<noteq> h"
  shows "ring (nx(b := nx h, h := b)) (pv(b := h, nx h := b)) h (b # xs)"
proof -
  have "nx h = last (h # rev xs)"
    using assms(1) by (cases xs) (auto dest: ring_next simp: last_rev)
  moreover have "chain (pv(b := h, last (h # rev xs) := b)) (h # rev xs @ [b, h])"
    using assms by (intro chain_snoc) (auto simp: ring_def)
  moreover have "chain (nx(b := nx h, h := b)) (h # b # xs @ [h])"
    using assms by (intro chain_push) (auto simp: ring_def)
  ultimately show ?thesis
    using assms by (auto simp: ring_def)
qed

lemma ring_empty: "ring nx pv h [] \<longleftrightarrow> nx h = h \<and> pv h = h"
  by (simp add: ring_def)

end
