(* ===== verification/Bio.thy ===== *)
theory Bio
  imports Kalloc Chain
begin

text \<open>
  The buffer cache (bio.c) over the in-memory disk driver (memide.c). The buffers
  \<open>0 ..< NBUF\<close> are linked in a circular list, most recently used first, whose head is the
  extra entry \<open>NBUF\<close>. A list walk is bounded by the number of nodes: a walk that has not met
  the head after \<open>NBUF + 1\<close> nodes is in a cycle and never ends (\<open>Spin\<close>).

  The ghost field \<open>wtrace\<close> records the blocks written to the disk, in order; no code reads
  it. It gives the disk contents at every moment at which the power can fail.
\<close>

section \<open>State\<close>

type_synonym block = "byte list"

definition BSIZE :: nat where "BSIZE = 512"
definition NBUF :: nat where "NBUF = 30"
definition B_VALID :: u32 where "B_VALID = 2"
definition B_DIRTY :: u32 where "B_DIRTY = 4"

record buf =
  b_flags :: u32
  b_dev :: u32
  b_blockno :: u32
  b_refcnt :: u32
  b_prev :: nat
  b_next :: nat
  b_data :: block

record bio = kmemsys +
  bufs :: "nat \<Rightarrow> buf"
  memdisk :: "u32 \<Rightarrow> block"
  disksize :: u32
  wtrace :: "(u32 \<times> block) list"

definition set_buf :: "nat \<Rightarrow> (buf \<Rightarrow> buf) \<Rightarrow> 'z bio_scheme \<Rightarrow> 'z bio_scheme" where
  "set_buf i f s = s\<lparr>bufs := (bufs s)(i := f (bufs s i))\<rparr>"

section \<open>The memory disk (memide.c)\<close>

definition ideinit :: "(u32 \<Rightarrow> block) \<Rightarrow> u32 \<Rightarrow> 'z bio_scheme \<Rightarrow> 'z bio_scheme" where
  "ideinit img imgsize s = s\<lparr>memdisk := img, disksize := imgsize div 512\<rparr>"

definition iderw :: "nat \<Rightarrow> 'z bio_scheme \<Rightarrow> (unit, 'z bio_scheme) outcome" where
  "iderw i s =
     rbind (holdingsleep (SBuf i) s) (\<lambda>h s.
     if \<not> h then Panic ''iderw: buf not locked''
     else if b_flags (bufs s i) AND (B_VALID OR B_DIRTY) = B_VALID
     then Panic ''iderw: nothing to do''
     else if b_dev (bufs s i) \<noteq> 1 then Panic ''iderw: request not for disk 1''
     else if disksize s \<le> b_blockno (bufs s i) then Panic ''iderw: block out of range''
     else
       let p = b_blockno (bufs s i);
           s = (if b_flags (bufs s i) AND B_DIRTY \<noteq> 0 then
                  let s = set_buf i (\<lambda>b. b\<lparr>b_flags := b_flags b AND NOT B_DIRTY\<rparr>) s in
                  s\<lparr>memdisk := (memdisk s)(p := b_data (bufs s i)),
                    wtrace := wtrace s @ [(p, b_data (bufs s i))]\<rparr>
                else set_buf i (\<lambda>b. b\<lparr>b_data := memdisk s p\<rparr>) s) in
       Ret () (set_buf i (\<lambda>b. b\<lparr>b_flags := b_flags b OR B_VALID\<rparr>) s))"

section \<open>The buffer cache (bio.c)\<close>

definition binit :: "'z bio_scheme \<Rightarrow> 'z bio_scheme" where
  "binit s =
     (let s = initlock LBcache ''bcache'' s;
          s = set_buf NBUF (\<lambda>h. h\<lparr>b_prev := NBUF, b_next := NBUF\<rparr>) s in
      fold (\<lambda>b s.
          let s = set_buf b (\<lambda>x. x\<lparr>b_next := b_next (bufs s NBUF), b_prev := NBUF\<rparr>) s;
              s = initsleeplock (SBuf b) ''buffer'' s;
              s = set_buf (b_next (bufs s NBUF)) (\<lambda>x. x\<lparr>b_prev := b\<rparr>) s in
          set_buf NBUF (\<lambda>h. h\<lparr>b_next := b\<rparr>) s)
        [0..<NBUF] s)"

text \<open>\<open>for(b = start; b != &head; b = b->link) if(test(b)) ...\<close>: \<open>Some (Some b)\<close> is the
  first buffer that passes the test, \<open>Some None\<close> that the head was reached, \<open>None\<close> that
  the bound ran out.\<close>

fun bfind :: "nat \<Rightarrow> (buf \<Rightarrow> nat) \<Rightarrow> (buf \<Rightarrow> bool) \<Rightarrow> (nat \<Rightarrow> buf) \<Rightarrow> nat \<Rightarrow> nat option option" where
  "bfind 0 link test bs b = None"
| "bfind (Suc k) link test bs b =
     (if b = NBUF then Some None
      else if test (bs b) then Some (Some b)
      else bfind k link test bs (link (bs b)))"

definition bget :: "u32 \<Rightarrow> u32 \<Rightarrow> 'z bio_scheme \<Rightarrow> (nat, 'z bio_scheme) outcome" where
  "bget dev blockno s =
     rbind (acquire LBcache s) (\<lambda>_ s.
     case bfind (Suc NBUF) b_next (\<lambda>b. b_dev b = dev \<and> b_blockno b = blockno)
            (bufs s) (b_next (bufs s NBUF)) of
       None \<Rightarrow> Spin
     | Some (Some b) \<Rightarrow>
         let s = set_buf b (\<lambda>x. x\<lparr>b_refcnt := b_refcnt x + 1\<rparr>) s in
         rbind (release LBcache s) (\<lambda>_ s.
         rbind (acquiresleep (SBuf b) s) (\<lambda>_ s. Ret b s))
     | Some None \<Rightarrow>
         (case bfind (Suc NBUF) b_prev (\<lambda>b. b_refcnt b = 0 \<and> b_flags b AND B_DIRTY = 0)
                 (bufs s) (b_prev (bufs s NBUF)) of
            None \<Rightarrow> Spin
          | Some (Some b) \<Rightarrow>
              let s = set_buf b (\<lambda>x. x\<lparr>b_dev := dev, b_blockno := blockno, b_flags := 0,
                                      b_refcnt := 1\<rparr>) s in
              rbind (release LBcache s) (\<lambda>_ s.
              rbind (acquiresleep (SBuf b) s) (\<lambda>_ s. Ret b s))
          | Some None \<Rightarrow> Panic ''bget: no buffers''))"

definition bread :: "u32 \<Rightarrow> u32 \<Rightarrow> 'z bio_scheme \<Rightarrow> (nat, 'z bio_scheme) outcome" where
  "bread dev blockno s =
     rbind (bget dev blockno s) (\<lambda>b s.
     if b_flags (bufs s b) AND B_VALID = 0 then rbind (iderw b s) (\<lambda>_ s. Ret b s)
     else Ret b s)"

definition bwrite :: "nat \<Rightarrow> 'z bio_scheme \<Rightarrow> (unit, 'z bio_scheme) outcome" where
  "bwrite b s =
     rbind (holdingsleep (SBuf b) s) (\<lambda>h s.
     if \<not> h then Panic ''bwrite''
     else iderw b (set_buf b (\<lambda>x. x\<lparr>b_flags := b_flags x OR B_DIRTY\<rparr>) s))"

text \<open>The pointer surgery of \<open>brelse\<close>: out of the list, then in behind the head.\<close>

definition move_front :: "nat \<Rightarrow> 'z bio_scheme \<Rightarrow> 'z bio_scheme" where
  "move_front b s =
     (let s = set_buf (b_next (bufs s b)) (\<lambda>x. x\<lparr>b_prev := b_prev (bufs s b)\<rparr>) s;
          s = set_buf (b_prev (bufs s b)) (\<lambda>x. x\<lparr>b_next := b_next (bufs s b)\<rparr>) s;
          s = set_buf b (\<lambda>x. x\<lparr>b_next := b_next (bufs s NBUF)\<rparr>) s;
          s = set_buf b (\<lambda>x. x\<lparr>b_prev := NBUF\<rparr>) s;
          s = set_buf (b_next (bufs s NBUF)) (\<lambda>x. x\<lparr>b_prev := b\<rparr>) s in
      set_buf NBUF (\<lambda>x. x\<lparr>b_next := b\<rparr>) s)"

definition brelse :: "nat \<Rightarrow> 'z bio_scheme \<Rightarrow> (unit, 'z bio_scheme) outcome" where
  "brelse b s =
     rbind (holdingsleep (SBuf b) s) (\<lambda>h s.
     if \<not> h then Panic ''brelse''
     else
       rbind (releasesleep (SBuf b) s) (\<lambda>_ s.
       rbind (acquire LBcache s) (\<lambda>_ s.
       let s = set_buf b (\<lambda>x. x\<lparr>b_refcnt := b_refcnt x - 1\<rparr>) s;
           s = (if b_refcnt (bufs s b) = 0 then move_front b s else s) in
       release LBcache s)))"

section \<open>The LRU list\<close>

definition nx :: "'z bio_scheme \<Rightarrow> nat \<Rightarrow> nat" where "nx s = (\<lambda>i. b_next (bufs s i))"
definition pv :: "'z bio_scheme \<Rightarrow> nat \<Rightarrow> nat" where "pv s = (\<lambda>i. b_prev (bufs s i))"

definition lru :: "'z bio_scheme \<Rightarrow> nat list \<Rightarrow> bool" where
  "lru s xs \<longleftrightarrow> set xs = {..<NBUF} \<and> ring (nx s) (pv s) NBUF xs"

lemma nx_fold: "b_next (bufs s i) = nx s i" "b_prev (bufs s i) = pv s i"
  by (simp_all add: nx_def pv_def)

lemma nx_set_buf:
  "nx (set_buf i (b_next_update (\<lambda>_. v)) s) = (nx s)(i := v)"
  "pv (set_buf i (b_prev_update (\<lambda>_. v)) s) = (pv s)(i := v)"
  "nx (set_buf i (b_prev_update (\<lambda>_. v)) s) = nx s"
  "pv (set_buf i (b_next_update (\<lambda>_. v)) s) = pv s"
  by (auto simp: nx_def pv_def set_buf_def)

lemma links_set_buf:
  "(\<And>b. b_next (f b) = b_next b) \<Longrightarrow> nx (set_buf i f s) = nx s"
  "(\<And>b. b_prev (f b) = b_prev b) \<Longrightarrow> pv (set_buf i f s) = pv s"
  by (auto simp: nx_def pv_def set_buf_def)

lemma bfind_chain:
  assumes "chain (\<lambda>i. link (bs i)) (xs @ [NBUF])" "NBUF \<notin> set xs" "length xs < k"
  shows "bfind k link test bs (hd (xs @ [NBUF])) = Some (find (\<lambda>i. test (bs i)) xs)"
  using assms
proof (induction xs arbitrary: k)
  case Nil
  then show ?case by (cases k) auto
next
  case (Cons x xs)
  then obtain k' where k: "k = Suc k'" by (cases k) auto
  have "link (bs x) = hd (xs @ [NBUF])" "chain (\<lambda>i. link (bs i)) (xs @ [NBUF])"
    using Cons.prems(1) by (cases xs; simp)+
  with Cons k show ?case by auto
qed

lemma lru_length: "lru s xs \<Longrightarrow> length xs = NBUF"
  by (metis card_lessThan distinct_card lru_def ring_def)

lemma bfind_next:
  assumes "lru s xs"
  shows "bfind (Suc NBUF) b_next test (bufs s) (b_next (bufs s NBUF)) =
    Some (find (\<lambda>i. test (bufs s i)) xs)"
proof -
  have "chain (\<lambda>i. b_next (bufs s i)) (xs @ [NBUF])" "NBUF \<notin> set xs"
    using assms by (cases xs; auto simp: lru_def ring_def nx_def)+
  moreover have "b_next (bufs s NBUF) = hd (xs @ [NBUF])"
    using assms by (auto simp: lru_def nx_fold dest: ring_next)
  ultimately show ?thesis
    using lru_length [OF assms] by (simp add: bfind_chain del: bfind.simps)
qed

lemma bfind_prev:
  assumes "lru s xs"
  shows "bfind (Suc NBUF) b_prev test (bufs s) (b_prev (bufs s NBUF)) =
    Some (find (\<lambda>i. test (bufs s i)) (rev xs))"
proof -
  have "chain (\<lambda>i. b_prev (bufs s i)) (rev xs @ [NBUF])" "NBUF \<notin> set (rev xs)"
    using assms by (cases "rev xs"; auto simp: lru_def ring_def pv_def)+
  moreover have "b_prev (bufs s NBUF) = hd (rev xs @ [NBUF])"
    using assms by (auto simp: lru_def nx_fold dest: ring_prev)
  ultimately show ?thesis
    using lru_length [OF assms] by (simp add: bfind_chain del: bfind.simps)
qed

text \<open>\<open>brelse\<close> moves the buffer to the front of the list.\<close>

lemma move_front_links:
  assumes "b \<noteq> NBUF" "pv s b \<noteq> b" "nx s b \<noteq> b"
  shows "nx (move_front b s) =
      (let n = (nx s)(pv s b := nx s b) in n(b := n NBUF, NBUF := b))"
    and "pv (move_front b s) =
      (let n = (nx s)(pv s b := nx s b) in (pv s)(nx s b := pv s b, b := NBUF, n NBUF := b))"
  using assms by (simp_all add: move_front_def nx_fold nx_set_buf Let_def)

lemma lru_move_front:
  assumes "lru s (us @ b # vs)"
  shows "lru (move_front b s) (b # us @ vs)"
proof -
  have r: "ring (nx s) (pv s) NBUF (us @ b # vs)" and st: "set (us @ b # vs) = {..<NBUF}"
    using assms by (simp_all add: lru_def)
  have d: "b \<notin> set us" "b \<notin> set vs" "b \<noteq> NBUF"
    using r by (auto simp: ring_def)
  have "pv s b \<noteq> b" "nx s b \<noteq> b"
    using ring_unlink(1,2) [OF r] d by (cases us rule: rev_cases; cases vs; auto)+
  note links = move_front_links [OF d(3) this]
  have "ring ((nx s)(pv s b := nx s b)) ((pv s)(nx s b := pv s b)) NBUF (us @ vs)"
    by (rule ring_unlink(3) [OF r])
  from ring_push [OF this, of b] d show ?thesis
    using st by (auto simp: lru_def links Let_def)
qed

definition bcore :: "buf \<Rightarrow> u32 \<times> u32 \<times> u32 \<times> u32 \<times> block" where
  "bcore b = (b_flags b, b_dev b, b_blockno b, b_refcnt b, b_data b)"

lemma bcore_set_link:
  "bcore (bufs (set_buf j (b_next_update g) s) i) = bcore (bufs s i)"
  "bcore (bufs (set_buf j (b_prev_update g) s) i) = bcore (bufs s i)"
  by (simp_all add: set_buf_def bcore_def)

lemma move_front_core: "bcore (bufs (move_front b s) i) = bcore (bufs s i)"
  by (simp add: move_front_def Let_def bcore_set_link)

lemma set_buf_frame [frame_simps]:
  "memdisk (set_buf i f s) = memdisk s" "disksize (set_buf i f s) = disksize s"
  "wtrace (set_buf i f s) = wtrace s" "bio.more (set_buf i f s) = bio.more s"
  "slocks (set_buf i f s) = slocks s" "kctx (set_buf i f s) = kctx s"
  "procs (set_buf i f s) = procs s"
  by (simp_all add: set_buf_def kctx_def)

lemma move_front_frame [frame_simps]:
  "memdisk (move_front b s) = memdisk s" "disksize (move_front b s) = disksize s"
  "wtrace (move_front b s) = wtrace s" "bio.more (move_front b s) = bio.more s"
  "slocks (move_front b s) = slocks s" "kctx (move_front b s) = kctx s"
  "procs (move_front b s) = procs s"
  by (simp_all add: move_front_def Let_def frame_simps)

lemma set_buf_lock [lock_simps]:
  "set_buf i f (held l s) = held l (set_buf i f s)"
  "bufs (held l s) = bufs s" "memdisk (held l s) = memdisk s" "disksize (held l s) = disksize s"
  "wtrace (held l s) = wtrace s"
  "cpu_ok (set_buf i f s) = cpu_ok s" "lfree l (set_buf i f s) = lfree l s"
  "me (set_buf i f s) = me s"
  by (simp_all add: set_buf_def held_def cli_state_def me_def me_opt_def cpu_ok_def lfree_def)

lemma move_front_lock [lock_simps]:
  "move_front b (held l s) = held l (move_front b s)"
  "cpu_ok (move_front b s) = cpu_ok s" "lfree l (move_front b s) = lfree l s"
  by (simp_all add: move_front_def Let_def lock_simps)

end
