(* ===== verification/Bio_Spec.thy ===== *)
theory Bio_Spec
  imports Bio
begin

text \<open>
  What the buffer cache promises. The cache is seen through
  \<^item> \<open>cview s n\<close>: the contents of block \<open>n\<close> as its next reader gets them;
  \<^item> \<open>memdisk s\<close>: the contents of the disk;
  \<^item> \<open>dirtyb s\<close>: the blocks pinned in the cache by \<open>B_DIRTY\<close>;
  \<^item> \<open>hblocks s\<close>: the blocks whose buffer some process has locked;
  \<^item> \<open>mine s b n\<close>: buffer \<open>b\<close> is locked by the running process and holds block \<open>n\<close>.
  The invariant \<open>binv\<close> is that of the cache between calls, when no thread waits for a buffer.
\<close>

definition bufok :: "'z bio_scheme \<Rightarrow> nat \<Rightarrow> bool" where
  "bufok s i \<longleftrightarrow> (let b = bufs s i; l = slocked (slocks s (SBuf i)) in
     b_flags b \<in> {0, 2, 6} \<and> (b_flags b = 0 \<longleftrightarrow> b_dev b \<noteq> 1) \<and>
     b_refcnt b = (if l then 1 else 0) \<and> (l \<longrightarrow> b_dev b = 1) \<and>
     (b_dev b = 1 \<longrightarrow> length (b_data b) = BSIZE \<and> b_blockno b < disksize s) \<and>
     (b_flags b = 2 \<and> \<not> l \<longrightarrow> b_data b = memdisk s (b_blockno b)))"

definition buniq :: "'z bio_scheme \<Rightarrow> bool" where
  "buniq s \<longleftrightarrow> (\<forall>i<NBUF. \<forall>j<NBUF. b_dev (bufs s i) = 1 \<and> b_dev (bufs s j) = 1 \<and>
     b_blockno (bufs s i) = b_blockno (bufs s j) \<longrightarrow> i = j)"

definition binv :: "'z bio_scheme \<Rightarrow> bool" where
  "binv s \<longleftrightarrow> (\<exists>xs. lru s xs) \<and> (\<forall>i<NBUF. bufok s i) \<and> buniq s \<and>
     (\<forall>n. length (memdisk s n) = BSIZE)"

definition cview :: "'z bio_scheme \<Rightarrow> u32 \<Rightarrow> block" where
  "cview s n =
     (case find (\<lambda>i. b_dev (bufs s i) = 1 \<and> b_blockno (bufs s i) = n) [0..<NBUF] of
        Some i \<Rightarrow> b_data (bufs s i) | None \<Rightarrow> memdisk s n)"

definition cached :: "'z bio_scheme \<Rightarrow> nat \<Rightarrow> u32 \<Rightarrow> bool" where
  "cached s i n \<longleftrightarrow> i < NBUF \<and> b_dev (bufs s i) = 1 \<and> b_blockno (bufs s i) = n"

definition dirtyb :: "'z bio_scheme \<Rightarrow> u32 set" where
  "dirtyb s = {n. \<exists>i. cached s i n \<and> b_flags (bufs s i) = 6}"

definition hblocks :: "'z bio_scheme \<Rightarrow> u32 set" where
  "hblocks s = {n. \<exists>i. cached s i n \<and> slocked (slocks s (SBuf i))}"

definition mine :: "'z bio_scheme \<Rightarrow> nat \<Rightarrow> u32 \<Rightarrow> bool" where
  "mine s i n \<longleftrightarrow> cached s i n \<and> slocked (slocks s (SBuf i)) \<and> spid (slocks s (SBuf i)) = curpid s"

text \<open>There is room for one more block when some buffer is neither locked nor dirty.\<close>

definition room :: "'z bio_scheme \<Rightarrow> bool" where
  "room s \<longleftrightarrow> card (dirtyb s \<union> hblocks s) < NBUF"

section \<open>Basic facts\<close>

lemma cached_unique: "buniq s \<Longrightarrow> cached s i n \<Longrightarrow> cached s j n \<Longrightarrow> i = j"
  by (auto simp: buniq_def cached_def)

lemma cview_cached: "buniq s \<Longrightarrow> cached s i n \<Longrightarrow> cview s n = b_data (bufs s i)"
proof -
  assume u: "buniq s" and c: "cached s i n"
  then have "\<exists>j. find (\<lambda>i. b_dev (bufs s i) = 1 \<and> b_blockno (bufs s i) = n) [0..<NBUF] = Some j"
    by (cases "find (\<lambda>i. b_dev (bufs s i) = 1 \<and> b_blockno (bufs s i) = n) [0..<NBUF]")
       (auto simp: find_None_iff cached_def)
  then obtain j where j: "find (\<lambda>i. b_dev (bufs s i) = 1 \<and> b_blockno (bufs s i) = n) [0..<NBUF] = Some j"
    by auto
  then have "cached s j n" by (auto simp: find_Some_iff cached_def)
  then have "j = i" using u c cached_unique by blast
  with j show ?thesis by (simp add: cview_def)
qed

lemma cview_uncached: "(\<nexists>i. cached s i n) \<Longrightarrow> cview s n = memdisk s n"
proof -
  assume "\<nexists>i. cached s i n"
  then have "find (\<lambda>i. b_dev (bufs s i) = 1 \<and> b_blockno (bufs s i) = n) [0..<NBUF] = None"
    by (auto simp: find_None_iff cached_def)
  then show ?thesis by (simp add: cview_def)
qed

lemma bufokD:
  assumes "binv s" "i < NBUF"
  shows "b_flags (bufs s i) \<in> {0, 2, 6}"
    "b_flags (bufs s i) = 0 \<longleftrightarrow> b_dev (bufs s i) \<noteq> 1"
    "b_refcnt (bufs s i) = (if slocked (slocks s (SBuf i)) then 1 else 0)"
    "slocked (slocks s (SBuf i)) \<Longrightarrow> b_dev (bufs s i) = 1"
    "b_dev (bufs s i) = 1 \<Longrightarrow> length (b_data (bufs s i)) = BSIZE"
    "b_dev (bufs s i) = 1 \<Longrightarrow> b_blockno (bufs s i) < disksize s"
    "b_flags (bufs s i) = 2 \<Longrightarrow> \<not> slocked (slocks s (SBuf i)) \<Longrightarrow>
       b_data (bufs s i) = memdisk s (b_blockno (bufs s i))"
  using assms by (auto simp: binv_def bufok_def Let_def)

lemma binv_uniq: "binv s \<Longrightarrow> buniq s"
  by (simp add: binv_def)

lemma length_cview: "binv s \<Longrightarrow> length (cview s n) = BSIZE"
proof (cases "\<exists>i. cached s i n")
  case True
  assume inv: "binv s"
  from True obtain i where "cached s i n" ..
  with inv show ?thesis
    by (simp add: cview_cached binv_uniq) (simp add: cached_def bufokD)
qed (simp add: cview_uncached binv_def)

text \<open>A block that is neither dirty nor locked is the same in the cache and on the disk.\<close>

lemma cview_clean:
  assumes inv: "binv s" and "n \<notin> dirtyb s" "n \<notin> hblocks s"
  shows "cview s n = memdisk s n"
proof (cases "\<exists>i. cached s i n")
  case True
  then obtain i where c: "cached s i n" ..
  then have "b_flags (bufs s i) = 2" "\<not> slocked (slocks s (SBuf i))"
    using assms bufokD(1,2) [OF inv, of i] by (auto simp: dirtyb_def hblocks_def cached_def)
  with c inv show ?thesis
    using bufokD(7) [OF inv, of i] by (simp add: cview_cached binv_uniq cached_def)
qed (simp add: cview_uncached)

lemma finite_bblocks: "finite {n. \<exists>i. cached s i n \<and> P i}"
proof -
  have "{n. \<exists>i. cached s i n \<and> P i} \<subseteq> (\<lambda>i. b_blockno (bufs s i)) ` {..<NBUF}"
    by (auto simp: cached_def)
  then show ?thesis by (rule finite_subset) simp
qed

lemma finite_dirty_held [simp]: "finite (dirtyb s)" "finite (hblocks s)"
  by (simp_all add: dirtyb_def hblocks_def finite_bblocks)

text \<open>With room in the cache, the backward scan of \<open>bget\<close> finds a buffer to recycle.\<close>

lemma room_free:
  assumes inv: "binv s" and "room s"
  shows "\<exists>i<NBUF. \<not> slocked (slocks s (SBuf i)) \<and> b_flags (bufs s i) \<noteq> 6"
proof (rule ccontr)
  assume "\<not> ?thesis"
  then have busy: "slocked (slocks s (SBuf i)) \<or> b_flags (bufs s i) = 6" if "i < NBUF" for i
    using that by auto
  have dev: "b_dev (bufs s i) = 1" if "i < NBUF" for i
    using busy [OF that] bufokD(2,4) [OF inv that] by auto
  have "inj_on (\<lambda>i. b_blockno (bufs s i)) {..<NBUF}"
    using dev binv_uniq [OF inv] by (auto simp: inj_on_def buniq_def)
  then have "card ((\<lambda>i. b_blockno (bufs s i)) ` {..<NBUF}) = NBUF"
    by (simp add: card_image)
  moreover have "(\<lambda>i. b_blockno (bufs s i)) ` {..<NBUF} \<subseteq> dirtyb s \<union> hblocks s"
    using busy dev by (auto simp: dirtyb_def hblocks_def cached_def)
  then have "card ((\<lambda>i. b_blockno (bufs s i)) ` {..<NBUF}) \<le> card (dirtyb s \<union> hblocks s)"
    by (intro card_mono) simp_all
  ultimately show False using \<open>room s\<close> by (simp add: room_def)
qed

section \<open>Executing the operations\<close>

definition lockbuf :: "nat \<Rightarrow> 'z bio_scheme \<Rightarrow> 'z bio_scheme" where
  "lockbuf i s = set_slock (SBuf i) (\<lambda>l. l\<lparr>slocked := True, spid := curpid s\<rparr>) s"

lemma kready_set [lock_simps]:
  "kready (set_buf i f s) = kready s" "kready (set_slock k g s) = kready s"
  "kready (lockbuf i s) = kready s"
  "curpid (set_buf i f s) = curpid s" "curpid (set_slock k g s) = curpid s"
  "curpid (lockbuf i s) = curpid s"
  by (auto intro!: kctx_kready kctx_curpid simp: frame_simps lockbuf_def)

lemma lockbuf_frame [frame_simps]:
  "bufs (lockbuf i s) = bufs s" "memdisk (lockbuf i s) = memdisk s"
  "disksize (lockbuf i s) = disksize s" "wtrace (lockbuf i s) = wtrace s"
  "bio.more (lockbuf i s) = bio.more s" "kctx (lockbuf i s) = kctx s"
  "slocks (lockbuf i s) = (slocks s)(SBuf i := (slocks s (SBuf i))\<lparr>slocked := True, spid := curpid s\<rparr>)"
  by (simp_all add: lockbuf_def set_slock_def kctx_def)

lemma bufs_set_buf [frame_simps]: "bufs (set_buf i f s) = (bufs s)(i := f (bufs s i))"
  by (simp add: set_buf_def)

lemma find_unique:
  assumes "x \<in> set xs" "P x" "\<And>y. P y \<Longrightarrow> y \<in> set xs \<Longrightarrow> y = x"
  shows "find P xs = Some x"
proof (cases "find P xs")
  case None
  then show ?thesis using assms(1,2) by (simp add: find_None_iff)
next
  case (Some y)
  then have "P y" "y \<in> set xs" by (auto simp: find_Some_iff)
  with Some show ?thesis using assms(3) by simp
qed

lemma bget_hit:
  assumes inv: "binv s" and k: "kready s" and c: "cached s i n" and u: "\<not> slocked (slocks s (SBuf i))"
  shows "bget 1 n s = Ret i (lockbuf i (set_buf i (\<lambda>b. b\<lparr>b_refcnt := b_refcnt b + 1\<rparr>) s))"
proof -
  obtain xs where lru: "lru s xs" using inv by (auto simp: binv_def)
  have set: "set xs = {..<NBUF}" using lru by (simp add: lru_def)
  have "j = i" if "b_dev (bufs s j) = 1 \<and> b_blockno (bufs s j) = n" "j \<in> set xs" for j
    using that set cached_unique [OF binv_uniq [OF inv], of j n i] c by (simp add: cached_def)
  then have "find (\<lambda>j. b_dev (bufs s j) = 1 \<and> b_blockno (bufs s j) = n) xs = Some i"
    using c set by (intro find_unique) (simp_all add: cached_def)
  then have "bfind (Suc NBUF) b_next (\<lambda>b. b_dev b = 1 \<and> b_blockno b = n) (bufs s) (b_next (bufs s NBUF))
      = Some (Some i)"
    by (simp add: bfind_next [OF lru] del: bfind.simps)
  then show ?thesis
    using k u
    by (simp add: bget_def run_simps kreadyD lock_simps frame_simps lockbuf_def del: bfind.simps)
qed

lemma bget_miss:
  assumes inv: "binv s" and k: "kready s" and c: "\<nexists>i. cached s i n" and "room s"
  shows "\<exists>i. i < NBUF \<and> \<not> slocked (slocks s (SBuf i)) \<and> b_flags (bufs s i) \<noteq> 6 \<and>
    bget 1 n s = Ret i (lockbuf i (set_buf i
      (\<lambda>b. b\<lparr>b_dev := 1, b_blockno := n, b_flags := 0, b_refcnt := 1\<rparr>) s))"
proof -
  obtain xs where lru: "lru s xs" using inv by (auto simp: binv_def)
  let ?P = "\<lambda>b. b_refcnt b = 0 \<and> b_flags b AND B_DIRTY = 0"
  have P: "?P (bufs s i) \<longleftrightarrow> \<not> slocked (slocks s (SBuf i)) \<and> b_flags (bufs s i) \<noteq> 6" if "i < NBUF" for i
    using bufokD(1,3) [OF inv that] by (auto simp: B_DIRTY_def)
  have "find (\<lambda>j. ?P (bufs s j)) (rev xs) \<noteq> None"
    using room_free [OF inv \<open>room s\<close>] lru P by (auto simp: find_None_iff lru_def)
  then obtain i where f: "find (\<lambda>j. ?P (bufs s j)) (rev xs) = Some i" by auto
  then have i: "i < NBUF" "?P (bufs s i)" using lru by (auto simp: find_Some_iff lru_def)
      (metis lessThan_iff nth_mem set_rev length_rev)
  have "find (\<lambda>j. b_dev (bufs s j) = 1 \<and> b_blockno (bufs s j) = n) xs = None"
    using c lru by (auto simp: find_None_iff cached_def lru_def)
  then have "bfind (Suc NBUF) b_next (\<lambda>b. b_dev b = 1 \<and> b_blockno b = n) (bufs s) (b_next (bufs s NBUF))
      = Some None"
    by (simp add: bfind_next [OF lru] del: bfind.simps)
  moreover have "bfind (Suc NBUF) b_prev ?P (bufs s) (b_prev (bufs s NBUF)) = Some (Some i)"
    using f by (simp add: bfind_prev [OF lru] del: bfind.simps)
  ultimately have "bget 1 n s = Ret i (lockbuf i (set_buf i
      (\<lambda>b. b\<lparr>b_dev := 1, b_blockno := n, b_flags := 0, b_refcnt := 1\<rparr>) s))"
    using k P [OF i(1)] i(2)
    by (simp add: bget_def run_simps kreadyD lock_simps frame_simps lockbuf_def del: bfind.simps)
  then show ?thesis using i P by blast
qed

lemma set_buf_twice [simp]: "set_buf i f (set_buf i g s) = set_buf i (f \<circ> g) s"
  by (simp add: set_buf_def)

lemma set_buf_lockbuf: "set_buf i f (lockbuf j s) = lockbuf j (set_buf i f s)"
  by (simp add: lockbuf_def set_buf_def set_slock_def curpid_def curproc_def me_def me_opt_def)

lemma bread_hit:
  assumes inv: "binv s" and k: "kready s" and c: "cached s i n" and u: "\<not> slocked (slocks s (SBuf i))"
  shows "bread 1 n s = Ret i (lockbuf i (set_buf i (\<lambda>b. b\<lparr>b_refcnt := 1\<rparr>) s))"
proof -
  have i: "i < NBUF" "b_dev (bufs s i) = 1" using c by (auto simp: cached_def)
  then have "b_flags (bufs s i) AND B_VALID \<noteq> 0"
    using bufokD(1,2) [OF inv i(1)] by (auto simp: B_VALID_def)
  moreover have "set_buf i (\<lambda>b. b\<lparr>b_refcnt := b_refcnt b + 1\<rparr>) s = set_buf i (\<lambda>b. b\<lparr>b_refcnt := 1\<rparr>) s"
    using bufokD(3) [OF inv i(1)] u by (simp add: set_buf_def)
  ultimately show ?thesis
    using bget_hit [OF assms] by (simp add: bread_def frame_simps)
qed

lemma bread_miss:
  assumes inv: "binv s" and k: "kready s" and c: "\<nexists>i. cached s i n" and "room s"
    and n: "n < disksize s"
  shows "\<exists>i. i < NBUF \<and> \<not> slocked (slocks s (SBuf i)) \<and> b_flags (bufs s i) \<noteq> 6 \<and>
    bread 1 n s = Ret i (lockbuf i (set_buf i
      (\<lambda>b. b\<lparr>b_dev := 1, b_blockno := n, b_refcnt := 1, b_data := memdisk s n, b_flags := 2\<rparr>) s))"
proof -
  obtain i where i: "i < NBUF" "\<not> slocked (slocks s (SBuf i))" "b_flags (bufs s i) \<noteq> 6"
    and g: "bget 1 n s = Ret i (lockbuf i (set_buf i
      (\<lambda>b. b\<lparr>b_dev := 1, b_blockno := n, b_flags := 0, b_refcnt := 1\<rparr>) s))"
    using bget_miss [OF inv k c \<open>room s\<close>] by blast
  have "bread 1 n s = Ret i (lockbuf i (set_buf i
      (\<lambda>b. b\<lparr>b_dev := 1, b_blockno := n, b_refcnt := 1, b_data := memdisk s n, b_flags := 2\<rparr>) s))"
    using k n
    by (simp add: bread_def g iderw_def run_simps lock_simps frame_simps B_VALID_def B_DIRTY_def
        set_buf_lockbuf comp_def not_le)
  with i show ?thesis by blast
qed

section \<open>One buffer changes\<close>

text \<open>
  Every operation changes one buffer \<open>i\<close>, its lock, and perhaps the disk block it holds.
  \<open>bstep\<close> describes such a change; the lemmas below follow the invariant and the views
  through it.
\<close>

definition bstep :: "nat \<Rightarrow> 'z bio_scheme \<Rightarrow> 'z bio_scheme \<Rightarrow> bool" where
  "bstep i s t \<longleftrightarrow> i < NBUF \<and> b_dev (bufs t i) = 1 \<and> bufok t i \<and>
     (\<exists>xs. lru t xs) \<and> disksize t = disksize s \<and> kctx t = kctx s \<and> bio.more t = bio.more s \<and>
     (\<forall>j. j \<noteq> i \<longrightarrow> bcore (bufs t j) = bcore (bufs s j) \<and> slocks t (SBuf j) = slocks s (SBuf j)) \<and>
     (\<forall>n. n \<noteq> b_blockno (bufs t i) \<longrightarrow> memdisk t n = memdisk s n) \<and>
     length (memdisk t (b_blockno (bufs t i))) = BSIZE \<and>
     (\<forall>j. j \<noteq> i \<longrightarrow> \<not> cached s j (b_blockno (bufs t i)))"

lemma bcoreD:
  assumes "bcore b = bcore c"
  shows "b_flags b = b_flags c" "b_dev b = b_dev c" "b_blockno b = b_blockno c"
    "b_refcnt b = b_refcnt c" "b_data b = b_data c"
  using assms by (simp_all add: bcore_def)

lemma bstep_other:
  assumes "bstep i s t" "j \<noteq> i"
  shows "b_flags (bufs t j) = b_flags (bufs s j)" "b_dev (bufs t j) = b_dev (bufs s j)"
    "b_blockno (bufs t j) = b_blockno (bufs s j)" "b_refcnt (bufs t j) = b_refcnt (bufs s j)"
    "b_data (bufs t j) = b_data (bufs s j)" "slocks t (SBuf j) = slocks s (SBuf j)"
  using assms bcoreD [of "bufs t j" "bufs s j"] by (simp_all add: bstep_def)

lemma bstep_cached:
  assumes "bstep i s t"
  shows "cached t j n \<longleftrightarrow> (if j = i then n = b_blockno (bufs t i) else cached s j n)"
  using bstep_other(2,3) [OF assms, of j] assms by (auto simp: cached_def bstep_def)

lemma bstep_binv:
  assumes st: "bstep i s t" and inv: "binv s"
  shows "binv t"
proof -
  have "bufok t j" if j: "j < NBUF" for j
  proof (cases "j = i")
    case True
    then show ?thesis using st by (simp add: bstep_def)
  next
    case False
    have "bufok s j" using inv j by (simp add: binv_def)
    moreover have "memdisk t (b_blockno (bufs s j)) = memdisk s (b_blockno (bufs s j))"
      if "b_dev (bufs s j) = 1"
      using st False j that unfolding bstep_def cached_def by metis
    ultimately show ?thesis
      using bstep_other [OF st False] st by (auto simp: bufok_def Let_def bstep_def)
  qed
  moreover have "buniq t"
    unfolding buniq_def
  proof (intro allI impI, elim conjE)
    fix j k assume jk: "j < NBUF" "k < NBUF" "b_dev (bufs t j) = 1" "b_dev (bufs t k) = 1"
      "b_blockno (bufs t j) = b_blockno (bufs t k)"
    then have "cached t j (b_blockno (bufs t k))" "cached t k (b_blockno (bufs t k))"
      by (simp_all add: cached_def)
    then show "j = k"
      using cached_unique [OF binv_uniq [OF inv]] st
      by (auto simp: bstep_cached [OF st] bstep_def split: if_splits)
  qed
  moreover have "length (memdisk t n) = BSIZE" for n
    using st inv by (cases "n = b_blockno (bufs t i)") (auto simp: bstep_def binv_def)
  ultimately show ?thesis using st by (auto simp: binv_def bstep_def)
qed

lemma bstep_cview:
  assumes st: "bstep i s t" and inv: "binv s"
    and old: "\<And>n. cached s i n \<Longrightarrow> n \<noteq> b_blockno (bufs t i) \<Longrightarrow> b_data (bufs s i) = memdisk s n"
  shows "cview t = (cview s)(b_blockno (bufs t i) := b_data (bufs t i))"
proof
  fix n
  note u = binv_uniq [OF bstep_binv [OF st inv]]
  show "cview t n = ((cview s)(b_blockno (bufs t i) := b_data (bufs t i))) n"
  proof (cases "n = b_blockno (bufs t i)")
    case True
    then show ?thesis using cview_cached [OF u, of i n] by (simp add: bstep_cached [OF st])
  next
    case new: False
    show ?thesis
    proof (cases "\<exists>j. j \<noteq> i \<and> cached s j n")
      case True
      then obtain j where j: "j \<noteq> i" "cached s j n" by auto
      then have "cview t n = b_data (bufs t j)"
        by (intro cview_cached [OF u]) (simp add: bstep_cached [OF st])
      then show ?thesis
        using new j bstep_other(5) [OF st j(1)] cview_cached [OF binv_uniq [OF inv] j(2)] by simp
    next
      case False
      then have "cview t n = memdisk t n"
        using new by (intro cview_uncached) (auto simp: bstep_cached [OF st])
      moreover have "memdisk t n = memdisk s n" using st new by (simp add: bstep_def)
      moreover have "cview s n = memdisk s n"
      proof (cases "cached s i n")
        case True
        then show ?thesis using old [OF True new] cview_cached [OF binv_uniq [OF inv] True] by simp
      qed (use False in \<open>auto intro: cview_uncached\<close>)
      ultimately show ?thesis using new by simp
    qed
  qed
qed

lemma bstep_sets:
  assumes st: "bstep i s t" and inv: "binv s"
  shows "dirtyb t = (dirtyb s - {n. cached s i n}) \<union>
      (if b_flags (bufs t i) = 6 then {b_blockno (bufs t i)} else {})"
    and "hblocks t = (hblocks s - {n. cached s i n}) \<union>
      (if slocked (slocks t (SBuf i)) then {b_blockno (bufs t i)} else {})"
proof -
  have *: "cached s j n \<Longrightarrow> cached s i n \<Longrightarrow> j = i" for j n
    using cached_unique [OF binv_uniq [OF inv]] by blast
  show "dirtyb t = (dirtyb s - {n. cached s i n}) \<union>
      (if b_flags (bufs t i) = 6 then {b_blockno (bufs t i)} else {})"
    using * bstep_other(1) [OF st] unfolding dirtyb_def bstep_cached [OF st]
    by (auto split: if_splits) metis+
  show "hblocks t = (hblocks s - {n. cached s i n}) \<union>
      (if slocked (slocks t (SBuf i)) then {b_blockno (bufs t i)} else {})"
    using * bstep_other(6) [OF st] unfolding hblocks_def bstep_cached [OF st]
    by (auto split: if_splits) metis+
qed

lemma bstep_mine:
  assumes "bstep i s t" "j \<noteq> i"
  shows "mine t j n = mine s j n"
proof -
  have "curpid t = curpid s" using assms by (intro kctx_curpid) (simp add: bstep_def)
  then show ?thesis using assms bstep_other(6) [OF assms] by (simp add: mine_def bstep_cached)
qed

end
