(* ===== verification/Bio_Laws.thy ===== *)
theory Bio_Laws
  imports Bio_Spec
begin

text \<open>The laws of the buffer cache: what \<open>bread\<close>, \<open>bwrite\<close> and \<open>brelse\<close> do to the views,
  and what a client may do to a buffer it has locked.\<close>

definition bframe :: "'z bio_scheme \<Rightarrow> 'z bio_scheme \<Rightarrow> bool" where
  "bframe s t \<longleftrightarrow> kctx t = kctx s \<and> disksize t = disksize s \<and> bio.more t = bio.more s"

lemma bframe_refl [simp]: "bframe s s"
  by (simp add: bframe_def)

lemma bframe_trans: "bframe s t \<Longrightarrow> bframe t u \<Longrightarrow> bframe s u"
  by (simp add: bframe_def)

lemma bframe_kready: "bframe s t \<Longrightarrow> kready t = kready s"
  unfolding bframe_def by (elim conjE) (rule kctx_kready)

lemma lru_frame:
  assumes "nx t = nx s" "pv t = pv s"
  shows "lru t xs = lru s xs"
  using assms by (simp add: lru_def)

lemma lru_lockbuf [simp]: "lru (lockbuf i s) xs = lru s xs"
  by (intro lru_frame) (simp_all add: nx_def pv_def frame_simps)

lemma lru_set_buf:
  assumes "\<And>b. b_next (f b) = b_next b" "\<And>b. b_prev (f b) = b_prev b"
  shows "lru (set_buf i f s) xs = lru s xs"
  using assms by (intro lru_frame) (simp_all add: links_set_buf)

lemma bread_bstep_hit:
  assumes inv: "binv s" and c: "cached s i n" and u: "\<not> slocked (slocks s (SBuf i))"
  shows "bstep i s (lockbuf i (set_buf i (\<lambda>b. b\<lparr>b_refcnt := 1\<rparr>) s))"
proof -
  have i: "i < NBUF" "b_dev (bufs s i) = 1" "b_blockno (bufs s i) = n" using c by (auto simp: cached_def)
  moreover have "\<not> cached s j n" if "j \<noteq> i" for j
    using that c cached_unique [OF binv_uniq [OF inv]] by blast
  moreover have "\<exists>xs. lru (set_buf i (\<lambda>b. b\<lparr>b_refcnt := 1\<rparr>) s) xs"
    using inv by (simp add: lru_set_buf binv_def)
  ultimately show ?thesis
    using inv bufokD [OF inv i(1)]
    by (auto simp: bstep_def bufok_def frame_simps lock_simps Let_def binv_def)
qed

lemma bread_bstep_miss:
  assumes inv: "binv s" and c: "\<nexists>j. cached s j n" and i: "i < NBUF" and n: "n < disksize s"
  shows "bstep i s (lockbuf i (set_buf i
      (\<lambda>b. b\<lparr>b_dev := 1, b_blockno := n, b_refcnt := 1, b_data := memdisk s n, b_flags := 2\<rparr>) s))"
proof -
  have "\<exists>xs. lru (set_buf i (\<lambda>b. b\<lparr>b_dev := 1, b_blockno := n, b_refcnt := 1,
      b_data := memdisk s n, b_flags := 2\<rparr>) s) xs"
    using inv by (simp add: lru_set_buf binv_def)
  then show ?thesis
    using inv c i n
    by (auto simp: bstep_def bufok_def frame_simps lock_simps Let_def binv_def)
qed

text \<open>\<open>bread\<close> locks a buffer with the contents of the block; nothing that any other thread can
  see changes.\<close>

lemma bread_law:
  assumes inv: "binv s" and k: "kready s" and n: "n < disksize s" "n \<notin> hblocks s"
    and r: "room s \<or> n \<in> dirtyb s"
  shows "wp (bread 1 n s) (\<lambda>i t. binv t \<and> bframe s t \<and> mine t i n \<and>
    (\<forall>j m. mine s j m \<longrightarrow> mine t j m) \<and> cview t = cview s \<and> memdisk t = memdisk s \<and>
    wtrace t = wtrace s \<and> dirtyb t = dirtyb s \<and> hblocks t = insert n (hblocks s))"
proof (cases "\<exists>i. cached s i n")
  case True
  then obtain i where c: "cached s i n" ..
  then have u: "\<not> slocked (slocks s (SBuf i))" using n by (auto simp: hblocks_def)
  let ?t = "lockbuf i (set_buf i (\<lambda>b. b\<lparr>b_refcnt := 1\<rparr>) s)"
  have st: "bstep i s ?t" using inv c u by (rule bread_bstep_hit)
  have b: "b_blockno (bufs ?t i) = n" "b_flags (bufs ?t i) = b_flags (bufs s i)"
    "b_data (bufs ?t i) = cview s n"
    using c cview_cached [OF binv_uniq [OF inv] c] by (simp_all add: frame_simps cached_def)
  have "mine ?t i n"
    using c by (simp add: mine_def cached_def frame_simps lock_simps)
  moreover have "cview ?t = cview s"
    using c by (subst bstep_cview [OF st inv]) (auto simp: b cached_def)
  moreover have "mine ?t j m" if "mine s j m" for j m
    using that u bstep_mine [OF st] by (cases "j = i") (auto simp: mine_def)
  moreover have "dirtyb ?t = dirtyb s" "hblocks ?t = insert n (hblocks s)"
    using c u cached_unique [OF binv_uniq [OF inv]] unfolding bstep_sets [OF st inv] b
    by (auto simp: dirtyb_def hblocks_def cached_def frame_simps) metis+
  ultimately show ?thesis
    using bread_hit [OF inv k c u] bstep_binv [OF st inv] by (simp add: bframe_def frame_simps)
next
  case False
  then have "room s" using r by (auto simp: dirtyb_def)
  obtain i where i: "i < NBUF" "\<not> slocked (slocks s (SBuf i))" "b_flags (bufs s i) \<noteq> 6"
    and e: "bread 1 n s = Ret i (lockbuf i (set_buf i
      (\<lambda>b. b\<lparr>b_dev := 1, b_blockno := n, b_refcnt := 1, b_data := memdisk s n, b_flags := 2\<rparr>) s))"
    using bread_miss [OF inv k False \<open>room s\<close> n(1)] by blast
  let ?t = "lockbuf i (set_buf i
      (\<lambda>b. b\<lparr>b_dev := 1, b_blockno := n, b_refcnt := 1, b_data := memdisk s n, b_flags := 2\<rparr>) s)"
  have st: "bstep i s ?t" using inv False i(1) n(1) by (rule bread_bstep_miss)
  have b: "b_blockno (bufs ?t i) = n" "b_flags (bufs ?t i) = 2" "b_data (bufs ?t i) = cview s n"
    using cview_uncached [OF False] by (simp_all add: frame_simps)
  have clean: "b_data (bufs s i) = memdisk s m" if "cached s i m" for m
    using that i bufokD(1,2,7) [OF inv i(1)] by (auto simp: cached_def)
  have "mine ?t i n"
    using i by (simp add: mine_def cached_def frame_simps lock_simps)
  moreover have "cview ?t = cview s"
    by (subst bstep_cview [OF st inv]) (auto simp: b clean)
  moreover have "mine ?t j m" if "mine s j m" for j m
    using that i bstep_mine [OF st] by (cases "j = i") (auto simp: mine_def)
  moreover have "m \<notin> dirtyb s" "m \<notin> hblocks s" if "cached s i m" for m
    using that i cached_unique [OF binv_uniq [OF inv]] by (auto simp: dirtyb_def hblocks_def)
  then have "dirtyb ?t = dirtyb s" "hblocks ?t = insert n (hblocks s)"
    unfolding bstep_sets [OF st inv] b by (auto simp: frame_simps)
  ultimately show ?thesis
    using e bstep_binv [OF st inv] by (simp add: bframe_def frame_simps)
qed

text \<open>The other operations leave the block that the buffer holds as it is.\<close>

lemma bstep_same:
  assumes st: "bstep i s t" and inv: "binv s" and c: "cached s i n" and b: "b_blockno (bufs t i) = n"
  shows "cview t = (cview s)(n := b_data (bufs t i))"
    "dirtyb t = (if b_flags (bufs t i) = 6 then insert n (dirtyb s) else dirtyb s - {n})"
    "hblocks t = (if slocked (slocks t (SBuf i)) then insert n (hblocks s) else hblocks s - {n})"
proof -
  have key: "{m. cached s i m} = {n}" using c by (auto simp: cached_def)
  show "cview t = (cview s)(n := b_data (bufs t i))"
    using c by (subst bstep_cview [OF st inv]) (auto simp: b cached_def)
  show "dirtyb t = (if b_flags (bufs t i) = 6 then insert n (dirtyb s) else dirtyb s - {n})"
    "hblocks t = (if slocked (slocks t (SBuf i)) then insert n (hblocks s) else hblocks s - {n})"
    unfolding bstep_sets [OF st inv] key b by auto
qed

lemma mineD:
  assumes "mine s i n" "binv s"
  shows "cached s i n" "i < NBUF" "b_dev (bufs s i) = 1" "b_blockno (bufs s i) = n"
    "slocked (slocks s (SBuf i))" "spid (slocks s (SBuf i)) = curpid s" "n \<in> hblocks s"
    "b_data (bufs s i) = cview s n" "b_flags (bufs s i) \<in> {2, 6}" "b_refcnt (bufs s i) = 1"
    "n < disksize s" "b_flags (bufs s i) = 6 \<longleftrightarrow> n \<in> dirtyb s"
    "\<And>j. j \<noteq> i \<Longrightarrow> \<not> cached s j n"
  using assms cview_cached [OF binv_uniq [OF assms(2)], of i n] bufokD(1,2,3,6) [OF assms(2), of i]
    cached_unique [OF binv_uniq [OF assms(2)], of i n]
  by (auto simp: mine_def cached_def hblocks_def dirtyb_def)

lemma mine_unique: "binv s \<Longrightarrow> mine s i n \<Longrightarrow> mine s j n \<Longrightarrow> i = j"
  by (meson mineD(1,13))

lemma mine_one_block: "mine s i n \<Longrightarrow> mine s i m \<Longrightarrow> n = m"
  by (auto simp: mine_def cached_def)

lemma set_buf_bstep:
  assumes inv: "binv s" and m: "mine s i n"
    and f: "b_next (f (bufs s i)) = b_next (bufs s i)" "b_prev (f (bufs s i)) = b_prev (bufs s i)"
      "b_dev (f (bufs s i)) = 1" "b_blockno (f (bufs s i)) = n" "b_refcnt (f (bufs s i)) = 1"
      "b_flags (f (bufs s i)) \<in> {2, 6}" "length (b_data (f (bufs s i))) = BSIZE"
  shows "bstep i s (set_buf i f s)"
proof -
  have "nx (set_buf i f s) = nx s" "pv (set_buf i f s) = pv s"
    using f by (auto simp: nx_def pv_def set_buf_def)
  then have "\<exists>xs. lru (set_buf i f s) xs" using inv by (simp add: lru_def binv_def)
  then show ?thesis
    using f mineD [OF m inv] inv
    by (auto simp: bstep_def bufok_def frame_simps Let_def binv_def)
qed

lemma put_data_law:
  assumes inv: "binv s" and m: "mine s i n" and d: "length d = BSIZE"
  shows "binv (set_buf i (\<lambda>b. b\<lparr>b_data := d\<rparr>) s) \<and> bframe s (set_buf i (\<lambda>b. b\<lparr>b_data := d\<rparr>) s) \<and>
    mine (set_buf i (\<lambda>b. b\<lparr>b_data := d\<rparr>) s) = mine s \<and>
    cview (set_buf i (\<lambda>b. b\<lparr>b_data := d\<rparr>) s) = (cview s)(n := d) \<and>
    dirtyb (set_buf i (\<lambda>b. b\<lparr>b_data := d\<rparr>) s) = dirtyb s \<and>
    hblocks (set_buf i (\<lambda>b. b\<lparr>b_data := d\<rparr>) s) = hblocks s"
proof -
  let ?t = "set_buf i (\<lambda>b. b\<lparr>b_data := d\<rparr>) s"
  note mi = mineD [OF m inv]
  have st: "bstep i s ?t" using mi d by (intro set_buf_bstep [OF inv m]) auto
  have "mine ?t j k = mine s j k" for j k
    using bstep_mine [OF st] by (cases "j = i") (auto simp: mine_def cached_def frame_simps lock_simps)
  then show ?thesis
    using bstep_binv [OF st inv] bstep_same [OF st inv mi(1)] mi(4,5,7,12)
    by (auto simp: frame_simps bframe_def fun_eq_iff)
qed

lemma set_dirty_law:
  assumes inv: "binv s" and m: "mine s i n"
  shows "binv (set_buf i (\<lambda>b. b\<lparr>b_flags := b_flags b OR B_DIRTY\<rparr>) s) \<and>
    bframe s (set_buf i (\<lambda>b. b\<lparr>b_flags := b_flags b OR B_DIRTY\<rparr>) s) \<and>
    mine (set_buf i (\<lambda>b. b\<lparr>b_flags := b_flags b OR B_DIRTY\<rparr>) s) = mine s \<and>
    cview (set_buf i (\<lambda>b. b\<lparr>b_flags := b_flags b OR B_DIRTY\<rparr>) s) = cview s \<and>
    dirtyb (set_buf i (\<lambda>b. b\<lparr>b_flags := b_flags b OR B_DIRTY\<rparr>) s) = insert n (dirtyb s) \<and>
    hblocks (set_buf i (\<lambda>b. b\<lparr>b_flags := b_flags b OR B_DIRTY\<rparr>) s) = hblocks s"
proof -
  let ?t = "set_buf i (\<lambda>b. b\<lparr>b_flags := b_flags b OR B_DIRTY\<rparr>) s"
  note mi = mineD [OF m inv]
  have fl: "b_flags (bufs s i) OR B_DIRTY = 6" using mi(9) by (auto simp: B_DIRTY_def)
  have len: "length (b_data (bufs s i)) = BSIZE" using mi(8) length_cview [OF inv] by simp
  have st: "bstep i s ?t" using mi fl len by (intro set_buf_bstep [OF inv m]) auto
  have "mine ?t j k = mine s j k" for j k
    using bstep_mine [OF st] by (cases "j = i") (auto simp: mine_def cached_def frame_simps lock_simps)
  then show ?thesis
    using bstep_binv [OF st inv] bstep_same [OF st inv mi(1)] mi(4,5,7,8) fl
    by (auto simp: frame_simps bframe_def fun_eq_iff)
qed

text \<open>\<open>bwrite\<close> stores the block on the disk and unpins it.\<close>

lemma bwrite_run:
  assumes inv: "binv s" and k: "kready s" and m: "mine s i n"
  shows "bwrite i s = Ret () ((set_buf i (\<lambda>b. b\<lparr>b_flags := 2\<rparr>) s)
    \<lparr>memdisk := (memdisk s)(n := cview s n), wtrace := wtrace s @ [(n, cview s n)]\<rparr>)"
proof -
  note mi = mineD [OF m inv]
  have fl: "b_flags (bufs s i) OR B_DIRTY = 6" using mi(9) by (auto simp: B_DIRTY_def)
  show ?thesis
    using k mi fl
    by (simp add: bwrite_def run_simps iderw_def lock_simps frame_simps B_VALID_def B_DIRTY_def
        Let_def not_le comp_def)
       (simp add: set_buf_def)
qed

lemma bwrite_law:
  assumes inv: "binv s" and k: "kready s" and m: "mine s i n"
  shows "wp (bwrite i s) (\<lambda>_ t. binv t \<and> bframe s t \<and> mine t = mine s \<and> cview t = cview s \<and>
    memdisk t = (memdisk s)(n := cview s n) \<and> wtrace t = wtrace s @ [(n, cview s n)] \<and>
    dirtyb t = dirtyb s - {n} \<and> hblocks t = hblocks s)"
proof -
  let ?t = "(set_buf i (\<lambda>b. b\<lparr>b_flags := 2\<rparr>) s)
    \<lparr>memdisk := (memdisk s)(n := cview s n), wtrace := wtrace s @ [(n, cview s n)]\<rparr>"
  note mi = mineD [OF m inv]
  have len: "length (b_data (bufs s i)) = BSIZE" using mi(8) length_cview [OF inv] by simp
  have "nx ?t = nx s" "pv ?t = pv s" by (auto simp: nx_def pv_def set_buf_def)
  then have lru: "\<exists>xs. lru ?t xs" using inv by (simp add: lru_def binv_def)
  have st: "bstep i s ?t"
    using lru mi len inv by (auto simp: bstep_def bufok_def Let_def binv_def set_buf_def kctx_def)
  have "mine ?t j k = mine s j k" for j k
    using bstep_mine [OF st]
    by (cases "j = i")
       (auto simp: mine_def cached_def set_buf_def curpid_def curproc_def me_def me_opt_def)
  then show ?thesis
    using bwrite_run [OF assms] bstep_binv [OF st inv] bstep_same [OF st inv mi(1)] mi(4,5,7,8)
    by (auto simp: bframe_def fun_eq_iff set_buf_def kctx_def)
qed

text \<open>\<open>brelse\<close> unlocks the buffer and makes it the most recently used one.\<close>

definition unlocked :: "nat \<Rightarrow> 'z bio_scheme \<Rightarrow> 'z bio_scheme" where
  "unlocked i s = set_buf i (\<lambda>b. b\<lparr>b_refcnt := 0\<rparr>)
     (set_slock (SBuf i) (\<lambda>l. l\<lparr>slocked := False, spid := 0\<rparr>)
       (s\<lparr>procs := woken (Some (ChanSleep (SBuf i))) (procs s)\<rparr>))"

lemma brelse_run:
  assumes inv: "binv s" and k: "kready s" and m: "mine s i n"
  shows "brelse i s = Ret () (move_front i (unlocked i s))"
proof -
  note mi = mineD [OF m inv]
  let ?u = "set_slock (SBuf i) (\<lambda>l. l\<lparr>slocked := False, spid := 0\<rparr>)
       (s\<lparr>procs := woken (Some (ChanSleep (SBuf i))) (procs s)\<rparr>)"
  have u: "kready ?u" using k by (subst kctx_kready [where s = s]) (simp_all add: frame_simps)
  have e: "set_buf i (\<lambda>x. x\<lparr>b_refcnt := b_refcnt x - 1\<rparr>) ?u = unlocked i s"
    using mi(10) by (simp add: unlocked_def set_buf_def set_slock_def)
  have r: "b_refcnt (bufs (unlocked i s) i) = 0" by (simp add: unlocked_def frame_simps)
  have l: "lfree LBcache (unlocked i s)" "cpu_ok (unlocked i s)"
    using kreadyD [OF u] by (simp_all add: unlocked_def lock_simps)
  show ?thesis
    using k u mi(5,6) r l
    by (simp add: brelse_def run_simps kreadyD lock_simps e)
qed

lemma unlocked_frame [frame_simps]:
  "memdisk (unlocked i s) = memdisk s" "disksize (unlocked i s) = disksize s"
  "wtrace (unlocked i s) = wtrace s" "bio.more (unlocked i s) = bio.more s"
  "kctx (unlocked i s) = kctx s" "nx (unlocked i s) = nx s" "pv (unlocked i s) = pv s"
  "bufs (unlocked i s) = (bufs s)(i := (bufs s i)\<lparr>b_refcnt := 0\<rparr>)"
  "slocks (unlocked i s) = (slocks s)(SBuf i := (slocks s (SBuf i))\<lparr>slocked := False, spid := 0\<rparr>)"
  using kctx_woken [of "Some (ChanSleep (SBuf i))" s]
  by (auto simp: unlocked_def set_buf_def set_slock_def nx_def pv_def kctx_def fun_eq_iff)

lemma brelse_law:
  assumes inv: "binv s" and k: "kready s" and m: "mine s i n"
    and clean: "n \<in> dirtyb s \<or> cview s n = memdisk s n"
  shows "wp (brelse i s) (\<lambda>_ t. binv t \<and> bframe s t \<and>
    (\<forall>j m. mine t j m \<longleftrightarrow> j \<noteq> i \<and> mine s j m) \<and> cview t = cview s \<and>
    memdisk t = memdisk s \<and> wtrace t = wtrace s \<and> dirtyb t = dirtyb s \<and> hblocks t = hblocks s - {n})"
proof -
  let ?t = "move_front i (unlocked i s)"
  note mi = mineD [OF m inv]
  have core: "bcore (bufs ?t j) = bcore (bufs (unlocked i s) j)" for j by (rule move_front_core)
  note c = bcoreD [OF core [of i]]
  obtain xs where xs: "lru (unlocked i s) xs" using inv by (auto simp: binv_def lru_def frame_simps)
  then have "i \<in> set xs" using mi(2) by (simp add: lru_def)
  then obtain us vs where "xs = us @ i # vs" by (meson split_list)
  with xs have lru: "\<exists>ys. lru ?t ys" using lru_move_front by blast
  have len: "length (b_data (bufs s i)) = BSIZE" using mi(8) length_cview [OF inv] by simp
  have st: "bstep i s ?t"
    using lru mi len inv clean core
    by (auto simp: bstep_def bufok_def Let_def binv_def frame_simps c bcore_def)
  have "mine ?t j k \<longleftrightarrow> j \<noteq> i \<and> mine s j k" for j k
    using bstep_mine [OF st] by (cases "j = i") (auto simp: mine_def frame_simps)
  then show ?thesis
    using brelse_run [OF inv k m] bstep_binv [OF st inv] bstep_same [OF st inv mi(1)] mi(4,5,7,8,12) c
    by (auto simp: bframe_def frame_simps fun_eq_iff)
qed

end
