(* ===== verification/Block_Cache.thy ===== *)
theory Block_Cache
  imports Kern
begin

text \<open>
  The interface between the buffer cache and its clients (the log and the file system): the
  operations a client calls and the laws it relies on. The client lemmas below are proved
  once from the laws; theory \<open>Bio_Laws\<close> interprets the interface on the model of bio.c.

  \<open>view\<close> is the contents of the blocks as readers see them, \<open>disk\<close> the contents of the
  disk, \<open>trace\<close> the history of disk writes, \<open>dirty\<close> the blocks pinned in memory, \<open>held\<close>
  those locked by some process, \<open>mine s i n\<close> that the running process has locked buffer
  \<open>i\<close> and that it holds block \<open>n\<close>; \<open>cap\<close> is the number of buffers.
\<close>

text \<open>The contents of a disk after a sequence of block writes.\<close>

definition writes :: "(u32 \<times> byte list) list \<Rightarrow> (u32 \<Rightarrow> byte list) \<Rightarrow> u32 \<Rightarrow> byte list" where
  "writes ws d = fold (\<lambda>(n, b) d. d(n := b)) ws d"

lemma writes_simps [simp]:
  "writes [] d = d" "writes ((n, b) # ws) d = writes ws (d(n := b))"
  "writes (ws @ vs) d = writes vs (writes ws d)"
  by (simp_all add: writes_def)

lemma writes_other: "n \<notin> fst ` set ws \<Longrightarrow> writes ws d n = d n"
  by (induction ws arbitrary: d) (auto simp: writes_def)

lemma writes_at: "(n, b) \<in> set ws \<Longrightarrow> distinct (map fst ws) \<Longrightarrow> writes ws d n = b"
  by (induction ws arbitrary: d) (force simp: writes_other)+

locale block_cache =
  fixes rd :: "u32 \<Rightarrow> 's \<Rightarrow> (nat, 's) outcome"
    and wr :: "nat \<Rightarrow> 's \<Rightarrow> (unit, 's) outcome"
    and rel :: "nat \<Rightarrow> 's \<Rightarrow> (unit, 's) outcome"
    and data :: "nat \<Rightarrow> 's \<Rightarrow> byte list"
    and put :: "nat \<Rightarrow> byte list \<Rightarrow> 's \<Rightarrow> 's"
    and pin :: "nat \<Rightarrow> 's \<Rightarrow> 's"
    and inv :: "'s \<Rightarrow> bool"
    and view :: "'s \<Rightarrow> u32 \<Rightarrow> byte list"
    and disk :: "'s \<Rightarrow> u32 \<Rightarrow> byte list"
    and trace :: "'s \<Rightarrow> (u32 \<times> byte list) list"
    and dirty :: "'s \<Rightarrow> u32 set"
    and heldb :: "'s \<Rightarrow> u32 set"
    and mine :: "'s \<Rightarrow> nat \<Rightarrow> u32 \<Rightarrow> bool"
    and frame :: "'s \<Rightarrow> 's \<Rightarrow> bool"
    and dsize :: "'s \<Rightarrow> u32"
    and cap :: nat
    and bsize :: nat
  assumes rd_law:
      "inv s \<Longrightarrow> n < dsize s \<Longrightarrow> n \<notin> heldb s \<Longrightarrow>
       card (dirty s \<union> heldb s) < cap \<or> n \<in> dirty s \<Longrightarrow>
       wp (rd n s) (\<lambda>i t. inv t \<and> frame s t \<and> mine t i n \<and> (\<forall>j m. mine s j m \<longrightarrow> mine t j m) \<and>
         view t = view s \<and> disk t = disk s \<and> trace t = trace s \<and> dirty t = dirty s \<and>
         heldb t = insert n (heldb s))"
    and wr_law:
      "inv s \<Longrightarrow> mine s i n \<Longrightarrow>
       wp (wr i s) (\<lambda>_ t. inv t \<and> frame s t \<and> mine t = mine s \<and> view t = view s \<and>
         disk t = (disk s)(n := view s n) \<and> trace t = trace s @ [(n, view s n)] \<and>
         dirty t = dirty s - {n} \<and> heldb t = heldb s)"
    and rel_law:
      "inv s \<Longrightarrow> mine s i n \<Longrightarrow> n \<in> dirty s \<or> view s n = disk s n \<Longrightarrow>
       wp (rel i s) (\<lambda>_ t. inv t \<and> frame s t \<and> (\<forall>j m. mine t j m \<longleftrightarrow> j \<noteq> i \<and> mine s j m) \<and>
         view t = view s \<and> disk t = disk s \<and> trace t = trace s \<and> dirty t = dirty s \<and>
         heldb t = heldb s - {n})"
    and put_law:
      "inv s \<Longrightarrow> mine s i n \<Longrightarrow> length d = bsize \<Longrightarrow>
       inv (put i d s) \<and> frame s (put i d s) \<and> mine (put i d s) = mine s \<and>
       view (put i d s) = (view s)(n := d) \<and> disk (put i d s) = disk s \<and>
       trace (put i d s) = trace s \<and> dirty (put i d s) = dirty s \<and> heldb (put i d s) = heldb s"
    and pin_law:
      "inv s \<Longrightarrow> mine s i n \<Longrightarrow>
       inv (pin i s) \<and> frame s (pin i s) \<and> mine (pin i s) = mine s \<and> view (pin i s) = view s \<and>
       disk (pin i s) = disk s \<and> trace (pin i s) = trace s \<and>
       dirty (pin i s) = insert n (dirty s) \<and> heldb (pin i s) = heldb s"
    and data_law: "inv s \<Longrightarrow> mine s i n \<Longrightarrow> data i s = view s n"
    and mine_held: "inv s \<Longrightarrow> mine s i n \<Longrightarrow> n \<in> heldb s"
    and mine_block: "mine s i n \<Longrightarrow> mine s i m \<Longrightarrow> n = m"
    and view_size: "inv s \<Longrightarrow> length (view s n) = bsize"
    and view_disk: "inv s \<Longrightarrow> n \<notin> dirty s \<Longrightarrow> n \<notin> heldb s \<Longrightarrow> view s n = disk s n"
    and frame_trans: "frame s t \<Longrightarrow> frame t u \<Longrightarrow> frame s u"
    and frame_size: "frame s t \<Longrightarrow> dsize t = dsize s"
    and fin: "finite (dirty s)" "finite (heldb s)"
begin

text \<open>What one call of the cache leaves behind for a client that looks at everything but
  the locks: the state of affairs is that of \<open>s\<close>, with view, disk, history and pinned set
  as given.\<close>

definition left :: "'s \<Rightarrow> (u32 \<Rightarrow> byte list) \<Rightarrow> (u32 \<Rightarrow> byte list) \<Rightarrow>
    (u32 \<times> byte list) list \<Rightarrow> u32 set \<Rightarrow> u32 set \<Rightarrow> 's \<Rightarrow> bool" where
  "left s v d tr di h t \<longleftrightarrow> inv t \<and> frame s t \<and> view t = v \<and> disk t = d \<and> trace t = tr \<and>
     dirty t = di \<and> heldb t = h"

text \<open>Writing a locked buffer out and releasing it: the end of every write-through update.\<close>

lemma write_out:
  assumes "inv s" "mine s i n"
  shows "wp (rbind (wr i s) (\<lambda>_ s. rel i s))
    (\<lambda>_ t. left s (view s) ((disk s)(n := view s n)) (trace s @ [(n, view s n)])
             (dirty s - {n}) (heldb s - {n}) t \<and> (\<forall>j m. mine t j m \<longleftrightarrow> j \<noteq> i \<and> mine s j m))"
proof (rule wp_rbindI [OF wr_law [OF assms]], elim conjE)
  fix t assume t: "inv t" "frame s t" "mine t = mine s" "view t = view s"
    "disk t = (disk s)(n := view s n)" "trace t = trace s @ [(n, view s n)]"
    "dirty t = dirty s - {n}" "heldb t = heldb s"
  have "wp (rel i t) (\<lambda>_ u. inv u \<and> frame t u \<and> (\<forall>j m. mine u j m \<longleftrightarrow> j \<noteq> i \<and> mine t j m) \<and>
      view u = view t \<and> disk u = disk t \<and> trace u = trace t \<and> dirty u = dirty t \<and>
      heldb u = heldb t - {n})"
    using t assms(2) by (intro rel_law) auto
  then show "wp (rel i t) (\<lambda>_ u. left s (view s) ((disk s)(n := view s n))
      (trace s @ [(n, view s n)]) (dirty s - {n}) (heldb s - {n}) u \<and>
      (\<forall>j m. mine u j m \<longleftrightarrow> j \<noteq> i \<and> mine s j m))"
    using t by (elim wp_mono) (auto simp: left_def intro: frame_trans)
qed

text \<open>Copying one locked buffer over another and releasing both, as \<open>write_log\<close> and
  \<open>install_trans\<close> do it.\<close>

lemma copy_out:
  assumes inv: "inv s" and a: "mine s i a" and b: "mine s j b" and ab: "a \<noteq> b"
    and clean: "a \<in> dirty s \<or> view s a = disk s a"
  shows "wp (rbind (wr j (put j (data i s) s)) (\<lambda>_ s. rbind (rel i s) (\<lambda>_ s. rel j s)))
    (\<lambda>_ t. left s ((view s)(b := view s a)) ((disk s)(b := view s a))
             (trace s @ [(b, view s a)]) (dirty s - {b}) (heldb s - {a, b}) t)"
proof -
  let ?p = "put j (data i s) s"
  have d: "data i s = view s a" using inv a by (rule data_law)
  have p: "inv ?p" "frame s ?p" "mine ?p = mine s" "view ?p = (view s)(b := view s a)"
    "disk ?p = disk s" "trace ?p = trace s" "dirty ?p = dirty s" "heldb ?p = heldb s"
    using put_law [OF inv b] view_size [OF inv] by (simp_all add: d)
  have ij: "i \<noteq> j" using a b ab mine_block by blast
  show ?thesis
  proof (rule wp_rbindI [OF wr_law [OF p(1), of j b]], simp add: p(3) b, elim conjE)
    fix t assume t: "inv t" "frame ?p t" "mine t = mine ?p" "view t = view ?p"
      "disk t = (disk ?p)(b := view ?p b)" "trace t = trace ?p @ [(b, view ?p b)]"
      "dirty t = dirty ?p - {b}" "heldb t = heldb ?p"
    have 1: "wp (rel i t) (\<lambda>_ u. inv u \<and> frame t u \<and> (\<forall>j m. mine u j m \<longleftrightarrow> j \<noteq> i \<and> mine t j m) \<and>
        view u = view t \<and> disk u = disk t \<and> trace u = trace t \<and> dirty u = dirty t \<and>
        heldb u = heldb t - {a})"
      using t p a ab clean by (intro rel_law) auto
    show "wp (rbind (rel i t) (\<lambda>_ s. rel j s)) (\<lambda>_ u. left s ((view s)(b := view s a))
        ((disk s)(b := view s a)) (trace s @ [(b, view s a)]) (dirty s - {b}) (heldb s - {a, b}) u)"
    proof (rule wp_rbindI [OF 1], elim conjE)
      fix u assume u: "inv u" "frame t u" "\<forall>j m. mine u j m \<longleftrightarrow> j \<noteq> i \<and> mine t j m"
        "view u = view t" "disk u = disk t" "trace u = trace t" "dirty u = dirty t"
        "heldb u = heldb t - {a}"
      have "wp (rel j u) (\<lambda>_ w. inv w \<and> frame u w \<and> (\<forall>k m. mine w k m \<longleftrightarrow> k \<noteq> j \<and> mine u k m) \<and>
          view w = view u \<and> disk w = disk u \<and> trace w = trace u \<and> dirty w = dirty u \<and>
          heldb w = heldb u - {b})"
        using t p u b ij by (intro rel_law) auto
      then show "wp (rel j u) (\<lambda>_ w. left s ((view s)(b := view s a))
          ((disk s)(b := view s a)) (trace s @ [(b, view s a)]) (dirty s - {b}) (heldb s - {a, b}) w)"
        using t p u by (elim wp_mono) (auto simp: left_def intro: frame_trans)
    qed
  qed
qed

text \<open>Locking two blocks, the order in which both loops of log.c do it.\<close>

definition ready2 :: "u32 \<Rightarrow> u32 \<Rightarrow> 's \<Rightarrow> bool" where
  "ready2 a b s \<longleftrightarrow> inv s \<and> a < dsize s \<and> b < dsize s \<and> a \<noteq> b \<and> a \<notin> heldb s \<and> b \<notin> heldb s \<and>
     card (dirty s \<union> heldb s) < cap \<and> (b \<in> dirty s \<or> card (dirty s \<union> heldb s) + 1 < cap)"

lemma rd_two:
  assumes r: "ready2 a b s"
    and F: "\<And>i j u. left s (view s) (disk s) (trace s) (dirty s) ({a, b} \<union> heldb s) u \<Longrightarrow>
        mine u i a \<Longrightarrow> mine u j b \<Longrightarrow> wp (F i j u) Q"
  shows "wp (rbind (rd a s) (\<lambda>i t. rbind (rd b t) (\<lambda>j u. F i j u))) Q"
proof (rule wp_rbindI [OF rd_law [of s a]])
  fix i t assume "inv t \<and> frame s t \<and> mine t i a \<and> (\<forall>j m. mine s j m \<longrightarrow> mine t j m) \<and>
    view t = view s \<and> disk t = disk s \<and> trace t = trace s \<and> dirty t = dirty s \<and>
    heldb t = insert a (heldb s)"
  then have t: "inv t" "frame s t" "mine t i a" "view t = view s" "disk t = disk s"
    "trace t = trace s" "dirty t = dirty s" "heldb t = insert a (heldb s)" by auto
  have "card (dirty t \<union> heldb t) \<le> Suc (card (dirty s \<union> heldb s))"
    by (simp add: t fin card_insert_if)
  then have "card (dirty t \<union> heldb t) < cap \<or> b \<in> dirty t" using r t by (auto simp: ready2_def)
  then show "wp (rbind (rd b t) (\<lambda>j u. F i j u)) Q"
  proof (intro wp_rbindI [OF rd_law [of t b]])
    fix j u assume "inv u \<and> frame t u \<and> mine u j b \<and> (\<forall>j m. mine t j m \<longrightarrow> mine u j m) \<and>
      view u = view t \<and> disk u = disk t \<and> trace u = trace t \<and> dirty u = dirty t \<and>
      heldb u = insert b (heldb t)"
    then show "wp (F i j u) Q"
      using t by (intro F) (auto simp: left_def intro: frame_trans)
  qed (use r t frame_size [OF t(2)] in \<open>auto simp: ready2_def\<close>)
qed (use r in \<open>auto simp: ready2_def\<close>)

text \<open>What a client finds after block \<open>dst\<close> has become a copy of block \<open>src\<close> on the disk.\<close>

definition copied :: "u32 \<Rightarrow> u32 \<Rightarrow> 's \<Rightarrow> 's \<Rightarrow> bool" where
  "copied src dst s t \<longleftrightarrow> left s ((view s)(dst := view s src)) ((disk s)(dst := view s src))
     (trace s @ [(dst, view s src)]) (dirty s - {dst}) (heldb s) t"

lemma copy_to_second:
  assumes r: "ready2 a b s" and clean: "a \<in> dirty s \<or> view s a = disk s a"
  shows "wp (rbind (rd a s) (\<lambda>i s. rbind (rd b s) (\<lambda>j s.
      rbind (wr j (put j (data i s) s)) (\<lambda>_ s. rbind (rel i s) (\<lambda>_ s. rel j s)))))
    (\<lambda>_ t. copied a b s t)"
proof (rule rd_two [OF r])
  fix i j u assume u: "left s (view s) (disk s) (trace s) (dirty s) ({a, b} \<union> heldb s) u"
    and m: "mine u i a" "mine u j b"
  have "wp (rbind (wr j (put j (data i u) u)) (\<lambda>_ s. rbind (rel i s) (\<lambda>_ s. rel j s)))
    (\<lambda>_ t. left u ((view u)(b := view u a)) ((disk u)(b := view u a))
             (trace u @ [(b, view u a)]) (dirty u - {b}) (heldb u - {a, b}) t)"
    using u m r clean by (intro copy_out) (auto simp: left_def ready2_def)
  then show "wp (rbind (wr j (put j (data i u) u)) (\<lambda>_ s. rbind (rel i s) (\<lambda>_ s. rel j s)))
    (\<lambda>_ t. copied a b s t)"
    using u r by (elim wp_mono) (auto simp: left_def copied_def ready2_def intro: frame_trans)
qed

lemma copy_to_first:
  assumes r: "ready2 a b s" and clean: "b \<in> dirty s \<or> view s b = disk s b"
  shows "wp (rbind (rd a s) (\<lambda>i s. rbind (rd b s) (\<lambda>j s.
      rbind (wr i (put i (data j s) s)) (\<lambda>_ s. rbind (rel j s) (\<lambda>_ s. rel i s)))))
    (\<lambda>_ t. copied b a s t)"
proof (rule rd_two [OF r])
  fix i j u assume u: "left s (view s) (disk s) (trace s) (dirty s) ({a, b} \<union> heldb s) u"
    and m: "mine u i a" "mine u j b"
  have "wp (rbind (wr i (put i (data j u) u)) (\<lambda>_ s. rbind (rel j s) (\<lambda>_ s. rel i s)))
    (\<lambda>_ t. left u ((view u)(a := view u b)) ((disk u)(a := view u b))
             (trace u @ [(a, view u b)]) (dirty u - {a}) (heldb u - {b, a}) t)"
    using u m r clean by (intro copy_out) (auto simp: left_def ready2_def)
  then show "wp (rbind (wr i (put i (data j u) u)) (\<lambda>_ s. rbind (rel j s) (\<lambda>_ s. rel i s)))
    (\<lambda>_ t. copied b a s t)"
    using u r by (elim wp_mono) (auto simp: left_def copied_def ready2_def intro: frame_trans)
qed

text \<open>A loop whose iteration \<open>k\<close> copies block \<open>src k\<close> over block \<open>dst k\<close>.\<close>

lemma copy_loop:
  assumes body: "\<And>k t. k \<in> set ks \<Longrightarrow> frame s0 t \<Longrightarrow> P t \<Longrightarrow> wp (body k t) (\<lambda>_ u. copied (src k) (dst k) t u)"
    and P: "\<And>k t u. k \<in> set ks \<Longrightarrow> P t \<Longrightarrow> copied (src k) (dst k) t u \<Longrightarrow> P u"
    and indep: "\<And>k l. k \<in> set ks \<Longrightarrow> l \<in> set ks \<Longrightarrow> src k \<noteq> dst l"
    and start: "inv s" "frame s0 s" "P s"
  shows "wp (rfor ks body s) (\<lambda>_ t. inv t \<and> frame s0 t \<and> P t \<and>
    view t = writes (map (\<lambda>k. (dst k, view s (src k))) ks) (view s) \<and>
    disk t = writes (map (\<lambda>k. (dst k, view s (src k))) ks) (disk s) \<and>
    trace t = trace s @ map (\<lambda>k. (dst k, view s (src k))) ks \<and>
    dirty t = dirty s - dst ` set ks \<and> heldb t = heldb s)"
  using assms
proof (induction ks arbitrary: s)
  case (Cons k ks)
  have b: "wp (body k s) (\<lambda>_ u. copied (src k) (dst k) s u)" using Cons.prems by auto
  show ?case
  proof (simp, rule wp_rbindI [OF b])
    fix u assume c: "copied (src k) (dst k) s u"
    have u: "inv u" "frame s0 u" "P u" using c Cons.prems(5) Cons.prems(2) [of k s u] Cons.prems(6)
      by (auto simp: copied_def left_def intro: frame_trans)
    have v: "view u (src l) = view s (src l)" if "l \<in> set ks" for l
      using c Cons.prems(3) [of l k] that by (auto simp: copied_def left_def)
    then have m: "map (\<lambda>l. (dst l, view u (src l))) ks = map (\<lambda>l. (dst l, view s (src l))) ks" by simp
    have "wp (rfor ks body u) (\<lambda>_ t. inv t \<and> frame s0 t \<and> P t \<and>
      view t = writes (map (\<lambda>k. (dst k, view u (src k))) ks) (view u) \<and>
      disk t = writes (map (\<lambda>k. (dst k, view u (src k))) ks) (disk u) \<and>
      trace t = trace u @ map (\<lambda>k. (dst k, view u (src k))) ks \<and>
      dirty t = dirty u - dst ` set ks \<and> heldb t = heldb u)"
    proof (rule Cons.IH)
      show "P w" if "l \<in> set ks" "P t" "copied (src l) (dst l) t w" for l t w
        using that Cons.prems(2) [of l t w] by simp
    qed (use Cons.prems(1,3) u in auto)
    then show "wp (rfor ks body u) (\<lambda>_ t. inv t \<and> frame s0 t \<and> P t \<and>
      view t = writes (map (\<lambda>k. (dst k, view s (src k))) ks) ((view s)(dst k := view s (src k))) \<and>
      disk t = writes (map (\<lambda>k. (dst k, view s (src k))) ks) ((disk s)(dst k := view s (src k))) \<and>
      trace t = trace s @ (dst k, view s (src k)) # map (\<lambda>k. (dst k, view s (src k))) ks \<and>
      dirty t = dirty s - insert (dst k) (dst ` set ks) \<and> heldb t = heldb s)"
      using c unfolding m by (elim wp_mono) (auto simp: copied_def left_def)
  qed
qed simp

text \<open>Reading a block, changing it and writing it through.\<close>

lemma update_through:
  assumes s: "inv s" "n < dsize s" "n \<notin> heldb s" "card (dirty s \<union> heldb s) < cap \<or> n \<in> dirty s"
    and f: "\<And>i t. frame s t \<Longrightarrow> data i t = view s n \<Longrightarrow> f i t = put i d t" and d: "length d = bsize"
  shows "wp (rbind (rd n s) (\<lambda>i s. rbind (wr i (f i s)) (\<lambda>_ s. rel i s)))
    (\<lambda>_ t. left s ((view s)(n := d)) ((disk s)(n := d)) (trace s @ [(n, d)])
       (dirty s - {n}) (heldb s) t)"
proof (rule wp_rbindI [OF rd_law [OF s]], elim conjE)
  fix i t assume t: "inv t" "frame s t" "mine t i n" "view t = view s" "disk t = disk s"
    "trace t = trace s" "dirty t = dirty s" "heldb t = insert n (heldb s)"
  have e: "f i t = put i d t" using f [OF t(2)] data_law [OF t(1,3)] t(4) by simp
  note p = put_law [OF t(1,3) d]
  have "wp (rbind (wr i (put i d t)) (\<lambda>_ s. rel i s))
    (\<lambda>_ u. left (put i d t) (view (put i d t)) ((disk (put i d t))(n := view (put i d t) n))
      (trace (put i d t) @ [(n, view (put i d t) n)]) (dirty (put i d t) - {n}) (heldb (put i d t) - {n}) u \<and>
      (\<forall>j m. mine u j m \<longleftrightarrow> j \<noteq> i \<and> mine (put i d t) j m))"
    using p t(3) by (intro write_out) simp_all
  then show "wp (rbind (wr i (f i t)) (\<lambda>_ s. rel i s))
    (\<lambda>_ t. left s ((view s)(n := d)) ((disk s)(n := d)) (trace s @ [(n, d)])
       (dirty s - {n}) (heldb s) t)"
    unfolding e using p t s(3)
    by (elim wp_mono) (auto simp: left_def intro: frame_trans)
qed

text \<open>Reading a block only.\<close>

lemma read_only:
  assumes s: "inv s" "n < dsize s" "n \<notin> heldb s" "card (dirty s \<union> heldb s) < cap \<or> n \<in> dirty s"
  shows "wp (rbind (rd n s) (\<lambda>i s. let x = f (data i s) in rbind (rel i s) (\<lambda>_ s. Ret x s)))
    (\<lambda>x t. x = f (view s n) \<and> left s (view s) (disk s) (trace s) (dirty s) (heldb s) t)"
proof (rule wp_rbindI [OF rd_law [OF s]], elim conjE)
  fix i t assume t: "inv t" "frame s t" "mine t i n" "view t = view s" "disk t = disk s"
    "trace t = trace s" "dirty t = dirty s" "heldb t = insert n (heldb s)"
  have "n \<in> dirty t \<or> view t n = disk t n" using view_disk [OF s(1)] s(3) t by auto
  from rel_law [OF t(1,3) this]
  show "wp (let x = f (data i t) in rbind (rel i t) (\<lambda>_ s. Ret x s))
    (\<lambda>x u. x = f (view s n) \<and> left s (view s) (disk s) (trace s) (dirty s) (heldb s) u)"
    using t s(3) data_law [OF t(1,3)] unfolding Let_def
    by (elim wp_rbindI) (auto simp: left_def intro: frame_trans)
qed

end

end
