(* ===== verification/Bio_Cache.thy ===== *)
theory Bio_Cache
  imports Bio_Laws Block_Cache
begin

text \<open>The model of bio.c provides the interface \<open>block_cache\<close>; \<open>binit\<close> establishes its
  invariant on the zeroed memory the kernel starts with.\<close>

section \<open>The interface\<close>

abbreviation bdata :: "nat \<Rightarrow> 'z bio_scheme \<Rightarrow> block" where
  "bdata i s \<equiv> b_data (bufs s i)"

abbreviation put_bdata :: "nat \<Rightarrow> block \<Rightarrow> 'z bio_scheme \<Rightarrow> 'z bio_scheme" where
  "put_bdata i d \<equiv> set_buf i (\<lambda>b. b\<lparr>b_data := d\<rparr>)"

abbreviation pin_buf :: "nat \<Rightarrow> 'z bio_scheme \<Rightarrow> 'z bio_scheme" where
  "pin_buf i \<equiv> set_buf i (\<lambda>b. b\<lparr>b_flags := b_flags b OR B_DIRTY\<rparr>)"

definition bio_inv :: "'z bio_scheme \<Rightarrow> bool" where
  "bio_inv s \<longleftrightarrow> binv s \<and> kready s"

interpretation bc: block_cache "bread 1" bwrite brelse bdata put_bdata pin_buf
  bio_inv cview memdisk wtrace dirtyb hblocks mine bframe disksize NBUF BSIZE
proof (unfold_locales, goal_cases)
  case (1 s n)
  then show ?case
    using bread_law [of s n] by (auto simp: bio_inv_def room_def bframe_kready elim: wp_mono)
next
  case (2 s i n)
  then show ?case
    using bwrite_law [of s i n] by (auto simp: bio_inv_def bframe_kready elim: wp_mono)
next
  case (3 s i n)
  then show ?case
    using brelse_law [of s i n] by (auto simp: bio_inv_def bframe_kready elim: wp_mono)
next
  case (4 s i n d)
  then show ?case
    using put_data_law [of s i n d] by (auto simp: bio_inv_def bframe_kready frame_simps)
next
  case (5 s i n)
  then show ?case
    using set_dirty_law [of s i n] by (auto simp: bio_inv_def bframe_kready frame_simps)
qed (auto simp: bio_inv_def mineD mine_one_block length_cview cview_clean
      intro: bframe_trans, simp add: bframe_def)

section \<open>Initialisation\<close>

definition binit_body :: "nat \<Rightarrow> 'z bio_scheme \<Rightarrow> 'z bio_scheme" where
  "binit_body b s =
     (let s = set_buf b (\<lambda>x. x\<lparr>b_next := b_next (bufs s NBUF), b_prev := NBUF\<rparr>) s;
          s = initsleeplock (SBuf b) ''buffer'' s;
          s = set_buf (b_next (bufs s NBUF)) (\<lambda>x. x\<lparr>b_prev := b\<rparr>) s in
      set_buf NBUF (\<lambda>h. h\<lparr>b_next := b\<rparr>) s)"

lemma bufs_initsleeplock [simp]: "bufs (initsleeplock k nm s) = bufs s"
  by (simp add: initsleeplock_def initlock_def set_slock_def)

lemma binit_body_links:
  assumes "b < NBUF"
  shows "nx (binit_body b s) = (nx s)(b := nx s NBUF, NBUF := b)"
    "pv (binit_body b s) = (pv s)(b := NBUF, nx s NBUF := b)"
  using assms by (auto simp: binit_body_def nx_def pv_def Let_def set_buf_def)

lemma binit_body_core: "bcore (bufs (binit_body b s) i) = bcore (bufs s i)"
  by (simp add: binit_body_def Let_def set_buf_def bcore_def)

lemma binit_body_frame:
  "memdisk (binit_body b s) = memdisk s" "disksize (binit_body b s) = disksize s"
  "wtrace (binit_body b s) = wtrace s" "cpus (binit_body b s) = cpus s"
  "ncpu (binit_body b s) = ncpu s" "lapicid (binit_body b s) = lapicid s"
  "iflag (binit_body b s) = iflag s" "procs (binit_body b s) = procs s"
  "lfree l s \<Longrightarrow> lfree l (binit_body b s)"
  "slocks (binit_body b s) (SBuf i) =
     (if i = b then \<lparr>slocked = False, slname = ''buffer'', spid = 0\<rparr> else slocks s (SBuf i))"
  by (simp_all add: binit_body_def Let_def set_buf_def initsleeplock_def initlock_def set_slock_def lfree_def)

lemma binit_body_fold:
  assumes "k \<le> NBUF" "ring (nx s) (pv s) NBUF []"
  shows "ring (nx (fold binit_body [0..<k] s)) (pv (fold binit_body [0..<k] s)) NBUF (rev [0..<k])"
  using assms
proof (induction k)
  case (Suc k)
  then show ?case
    using ring_push [of "nx (fold binit_body [0..<k] s)" "pv (fold binit_body [0..<k] s)" NBUF "rev [0..<k]" k]
    by (simp add: binit_body_links fun_upd_def)
qed simp

lemma binit_fold_frame:
  "bcore (bufs (fold binit_body ks s) i) = bcore (bufs s i)"
  "memdisk (fold binit_body ks s) = memdisk s" "disksize (fold binit_body ks s) = disksize s"
  "wtrace (fold binit_body ks s) = wtrace s" "cpus (fold binit_body ks s) = cpus s"
  "ncpu (fold binit_body ks s) = ncpu s" "lapicid (fold binit_body ks s) = lapicid s"
  "iflag (fold binit_body ks s) = iflag s" "procs (fold binit_body ks s) = procs s"
  "lfree l s \<Longrightarrow> lfree l (fold binit_body ks s)"
  "slocks (fold binit_body ks s) (SBuf j) =
     (if j \<in> set ks then \<lparr>slocked = False, slname = ''buffer'', spid = 0\<rparr> else slocks s (SBuf j))"
  by (induction ks arbitrary: s) (simp_all add: binit_body_core binit_body_frame)

lemma binit_eq: "binit s = fold binit_body [0..<NBUF]
    (set_buf NBUF (\<lambda>h. h\<lparr>b_prev := NBUF, b_next := NBUF\<rparr>) (initlock LBcache ''bcache'' s))"
  by (simp add: binit_def binit_body_def [abs_def] Let_def)

lemma binit_frame:
  "memdisk (binit s) = memdisk s" "disksize (binit s) = disksize s" "bio.more (binit s) = bio.more s"
proof -
  have more: "bio.more (fold binit_body ks t) = bio.more t" for ks and t :: "'a bio_scheme"
    by (induction ks arbitrary: t)
       (simp_all add: binit_body_def Let_def set_buf_def initsleeplock_def initlock_def set_slock_def)
  show "memdisk (binit s) = memdisk s" "disksize (binit s) = disksize s" "bio.more (binit s) = bio.more s"
    unfolding binit_eq binit_fold_frame more by (simp_all add: set_buf_def initlock_def)
qed

lemma binit_bufs:
  "bcore (bufs (binit s) i) = bcore (bufs s i)"
  "i < NBUF \<Longrightarrow> \<not> slocked (slocks (binit s) (SBuf i))"
  unfolding binit_eq binit_fold_frame by (simp_all add: set_buf_def initlock_def bcore_def)

lemma binit_inv:
  assumes zero: "\<And>i. i < NBUF \<Longrightarrow> b_flags (bufs s i) = 0 \<and> b_dev (bufs s i) = 0 \<and> b_refcnt (bufs s i) = 0"
    and disk: "\<And>n. length (memdisk s n) = BSIZE" and k: "kready s"
  shows "bio_inv (binit s) \<and> lru (binit s) (rev [0..<NBUF]) \<and> cview (binit s) = memdisk s \<and>
    dirtyb (binit s) = {} \<and> hblocks (binit s) = {}"
proof -
  let ?a = "set_buf NBUF (\<lambda>h. h\<lparr>b_prev := NBUF, b_next := NBUF\<rparr>) (initlock LBcache ''bcache'' s)"
  note e = binit_eq [of s]
  have "ring (nx ?a) (pv ?a) NBUF []"
    by (simp add: ring_empty nx_def pv_def set_buf_def)
  then have lru: "lru (binit s) (rev [0..<NBUF])"
    unfolding e lru_def using binit_body_fold [of NBUF ?a] by auto
  note disk' = binit_frame(1) [of s]
  have b: "b_flags (bufs (binit s) i) = 0" "b_dev (bufs (binit s) i) = 0" "b_refcnt (bufs (binit s) i) = 0"
    if "i < NBUF" for i using zero [OF that] bcoreD [OF binit_bufs(1) [of s i]] by simp_all
  note sl = binit_bufs(2) [of _ s]
  have nc: "\<not> cached (binit s) i n" for i n using b by (auto simp: cached_def)
  have "binv (binit s)"
    using lru b sl disk by (auto simp: binv_def bufok_def buniq_def Let_def disk')
  moreover have "lfree l (binit s)" for l
    unfolding e using k
    by (intro binit_fold_frame) (simp add: kready_def set_buf_def lfree_def initlock_def)
  then have "kready (binit s)"
    using k unfolding e kready_def cpu_ok_def me_def me_opt_def binit_fold_frame
    by (simp add: set_buf_def initlock_def)
  moreover have "cview (binit s) = memdisk s"
    using nc by (auto simp: fun_eq_iff disk' cview_uncached)
  ultimately show ?thesis
    using lru nc by (simp add: bio_inv_def dirtyb_def hblocks_def)
qed

end
