(* ===== verification/Log.thy ===== *)
theory Log
  imports Bio_Cache
begin

text \<open>
  The write-ahead log (log.c). A file system call runs between \<open>begin_op\<close> and \<open>end_op\<close>;
  \<open>log_write\<close> pins a changed block in the cache and notes its number; the last \<open>end_op\<close>
  commits: the blocks go to the log area, the header block makes the transaction permanent,
  the blocks go to their home locations, the header is cleared. \<open>initlog\<close> runs the same
  installation after a crash. Accesses to \<open>log.lh.block\<close> outside its \<open>LOGSIZE\<close> entries are
  \<open>Undef\<close>.
\<close>

section \<open>State\<close>

definition MAXOPBLOCKS :: int where "MAXOPBLOCKS = 10"
definition LOGSIZE :: nat where "LOGSIZE = 30"

text \<open>\<open>struct superblock\<close> of fs.h.\<close>

record superblock =
  sb_size :: u32
  sb_nblocks :: u32
  sb_ninodes :: u32
  sb_nlog :: u32
  sb_logstart :: u32
  sb_inodestart :: u32
  sb_bmapstart :: u32

text \<open>\<open>struct log\<close>, its spin lock being \<open>LLog\<close>. The \<open>int\<close> counters stay between \<open>0\<close> and
  \<open>LOGSIZE\<close>, except for \<open>n\<close> when it is read from a damaged header.\<close>

record logsys = bio +
  lg_start :: u32
  lg_size :: int
  outstanding :: int
  committing :: bool
  lg_dev :: u32
  lh_n :: int
  lh_block :: "u32 list"

definition at32 :: "block \<Rightarrow> nat \<Rightarrow> u32" where
  "at32 b off = get32 (drop off b)"

section \<open>Operations\<close>

definition readsb :: "u32 \<Rightarrow> 'z bio_scheme \<Rightarrow> (superblock, 'z bio_scheme) outcome" where
  "readsb dev s =
     rbind (bread dev 1 s) (\<lambda>bp s.
     let d = b_data (bufs s bp);
         sb = \<lparr>sb_size = at32 d 0, sb_nblocks = at32 d 4, sb_ninodes = at32 d 8,
               sb_nlog = at32 d 12, sb_logstart = at32 d 16, sb_inodestart = at32 d 20,
               sb_bmapstart = at32 d 24\<rparr> in
     rbind (brelse bp s) (\<lambda>_ s. Ret sb s))"

definition lh_get :: "nat \<Rightarrow> 'z logsys_scheme \<Rightarrow> (u32, 'z logsys_scheme) outcome" where
  "lh_get i s = (if i < LOGSIZE then Ret (lh_block s ! i) s else Undef)"

definition lh_put :: "nat \<Rightarrow> u32 \<Rightarrow> 'z logsys_scheme \<Rightarrow> (unit, 'z logsys_scheme) outcome" where
  "lh_put i w s = (if i < LOGSIZE then Ret () (s\<lparr>lh_block := (lh_block s)[i := w]\<rparr>) else Undef)"

definition install_one :: "nat \<Rightarrow> 'z logsys_scheme \<Rightarrow> (unit, 'z logsys_scheme) outcome" where
  "install_one tail s =
     rbind (bread (lg_dev s) (lg_start s + of_nat tail + 1) s) (\<lambda>lbuf s.
     rbind (lh_get tail s) (\<lambda>blk s.
     rbind (bread (lg_dev s) blk s) (\<lambda>dbuf s.
     rbind (bwrite dbuf (put_bdata dbuf (bdata lbuf s) s)) (\<lambda>_ s.
     rbind (brelse lbuf s) (\<lambda>_ s. brelse dbuf s)))))"

definition install_trans :: "'z logsys_scheme \<Rightarrow> (unit, 'z logsys_scheme) outcome" where
  "install_trans s = rfor [0..<nat (lh_n s)] install_one s"

definition read_head :: "'z logsys_scheme \<Rightarrow> (unit, 'z logsys_scheme) outcome" where
  "read_head s =
     rbind (bread (lg_dev s) (lg_start s) s) (\<lambda>b s.
     let s = s\<lparr>lh_n := sint (at32 (bdata b s) 0)\<rparr> in
     rbind (rfor [0..<nat (lh_n s)] (\<lambda>i s. lh_put i (at32 (bdata b s) (4 + 4 * i)) s) s) (\<lambda>_ s.
     brelse b s))"

definition head_entry :: "nat \<Rightarrow> nat \<Rightarrow> 'z logsys_scheme \<Rightarrow> (unit, 'z logsys_scheme) outcome" where
  "head_entry b i s =
     rbind (lh_get i s) (\<lambda>blk s.
     Ret () (put_bdata b (overwrite (bdata b s) (4 + 4 * i) (le32 blk)) s))"

definition write_head :: "'z logsys_scheme \<Rightarrow> (unit, 'z logsys_scheme) outcome" where
  "write_head s =
     rbind (bread (lg_dev s) (lg_start s) s) (\<lambda>b s.
     let s = put_bdata b (overwrite (bdata b s) 0 (le32 (word_of_int (lh_n s)))) s in
     rbind (rfor [0..<nat (lh_n s)] (head_entry b) s) (\<lambda>_ s.
     rbind (bwrite b s) (\<lambda>_ s. brelse b s)))"

definition recover_from_log :: "'z logsys_scheme \<Rightarrow> (unit, 'z logsys_scheme) outcome" where
  "recover_from_log s =
     rbind (read_head s) (\<lambda>_ s.
     rbind (install_trans s) (\<lambda>_ s.
     write_head (s\<lparr>lh_n := 0\<rparr>)))"

text \<open>\<open>sizeof(struct logheader)\<close> is 124, so the first test of \<open>initlog\<close> never fails.\<close>

definition initlog :: "u32 \<Rightarrow> 'z logsys_scheme \<Rightarrow> (unit, 'z logsys_scheme) outcome" where
  "initlog dev s =
     (if BSIZE \<le> 4 + 4 * LOGSIZE then Panic ''initlog: too big logheader'' else
      let s = initlock LLog ''log'' s in
      rbind (readsb dev s) (\<lambda>sb s.
      recover_from_log (s\<lparr>lg_start := sb_logstart sb, lg_size := sint (sb_nlog sb), lg_dev := dev\<rparr>)))"

text \<open>The loop of \<open>begin_op\<close>, entered with \<open>log.lock\<close> held: first after \<open>acquire\<close>, then each
  time \<open>sleep\<close> returns.\<close>

definition begin_op_loop :: "'z logsys_scheme \<Rightarrow> (unit, 'z logsys_scheme) outcome" where
  "begin_op_loop s =
     (if committing s then sleep (Some ChanLog) (Some LLog) s
      else if int LOGSIZE < lh_n s + (outstanding s + 1) * MAXOPBLOCKS
      then sleep (Some ChanLog) (Some LLog) s
      else release LLog (s\<lparr>outstanding := outstanding s + 1\<rparr>))"

definition begin_op :: "'z logsys_scheme \<Rightarrow> (unit, 'z logsys_scheme) outcome" where
  "begin_op s = rbind (acquire LLog s) (\<lambda>_ s. begin_op_loop s)"

definition write_log_one :: "nat \<Rightarrow> 'z logsys_scheme \<Rightarrow> (unit, 'z logsys_scheme) outcome" where
  "write_log_one tail s =
     rbind (bread (lg_dev s) (lg_start s + of_nat tail + 1) s) (\<lambda>to s.
     rbind (lh_get tail s) (\<lambda>blk s.
     rbind (bread (lg_dev s) blk s) (\<lambda>from s.
     rbind (bwrite to (put_bdata to (bdata from s) s)) (\<lambda>_ s.
     rbind (brelse from s) (\<lambda>_ s. brelse to s)))))"

definition write_log :: "'z logsys_scheme \<Rightarrow> (unit, 'z logsys_scheme) outcome" where
  "write_log s = rfor [0..<nat (lh_n s)] write_log_one s"

definition commit :: "'z logsys_scheme \<Rightarrow> (unit, 'z logsys_scheme) outcome" where
  "commit s =
     (if 0 < lh_n s then
        rbind (write_log s) (\<lambda>_ s.
        rbind (write_head s) (\<lambda>_ s.
        rbind (install_trans s) (\<lambda>_ s.
        write_head (s\<lparr>lh_n := 0\<rparr>))))
      else Ret () s)"

definition end_op :: "'z logsys_scheme \<Rightarrow> (unit, 'z logsys_scheme) outcome" where
  "end_op s =
     rbind (acquire LLog s) (\<lambda>_ s.
     let s = s\<lparr>outstanding := outstanding s - 1\<rparr> in
     if committing s then Panic ''log.committing''
     else if outstanding s = 0 then
       rbind (release LLog (s\<lparr>committing := True\<rparr>)) (\<lambda>_ s.
       rbind (commit s) (\<lambda>_ s.
       rbind (acquire LLog s) (\<lambda>_ s.
       rbind (wakeup (Some ChanLog) (s\<lparr>committing := False\<rparr>)) (\<lambda>_ s.
       release LLog s))))
     else rbind (wakeup (Some ChanLog) s) (\<lambda>_ s. release LLog s))"

text \<open>The search of \<open>log_write\<close> for an entry of the block: the index at which it stops.\<close>

fun absorb :: "nat \<Rightarrow> nat \<Rightarrow> u32 \<Rightarrow> 'z logsys_scheme \<Rightarrow> (nat, 'z logsys_scheme) outcome" where
  "absorb 0 i blk s = Ret i s"
| "absorb (Suc k) i blk s =
     rbind (lh_get i s) (\<lambda>w s. if w = blk then Ret i s else absorb k (Suc i) blk s)"

definition log_write :: "nat \<Rightarrow> 'z logsys_scheme \<Rightarrow> (unit, 'z logsys_scheme) outcome" where
  "log_write b s =
     (if int LOGSIZE \<le> lh_n s \<or> lg_size s - 1 \<le> lh_n s then Panic ''too big a transaction''
      else if outstanding s < 1 then Panic ''log_write outside of trans''
      else
        rbind (acquire LLog s) (\<lambda>_ s.
        rbind (absorb (nat (lh_n s)) 0 (b_blockno (bufs s b)) s) (\<lambda>i s.
        rbind (lh_put i (b_blockno (bufs s b)) s) (\<lambda>_ s.
        let s = (if int i = lh_n s then s\<lparr>lh_n := lh_n s + 1\<rparr> else s) in
        release LLog (pin_buf b s)))))"

end
