(* ===== verification/Log_Spec.thy ===== *)
theory Log_Spec
  imports Log
begin

text \<open>What the log promises: the layout of the header block, what \<open>commit\<close> writes and in
  which order, and what recovery makes of a disk on which only some of these writes arrived.\<close>

section \<open>The header block\<close>

definition enc_head :: "block \<Rightarrow> u32 list \<Rightarrow> block" where
  "enc_head d bs = overwrite d 0 (le32 (of_nat (length bs)) @ concat (map le32 bs))"

definition head_blocks :: "block \<Rightarrow> u32 list" where
  "head_blocks d = map (\<lambda>i. at32 d (4 + 4 * i)) [0..<nat (sint (at32 d 0))]"

lemma length_concat_le32 [simp]: "length (concat (map le32 bs)) = 4 * length bs"
  by (induction bs) simp_all

lemma drop_concat_le32:
  "i < length bs \<Longrightarrow> \<exists>r. drop (4 * i) (concat (map le32 bs) @ z) = le32 (bs ! i) @ r"
proof (induction bs arbitrary: i)
  case (Cons b bs)
  show ?case
  proof (cases i)
    case 0
    then show ?thesis by auto
  next
    case (Suc j)
    with Cons obtain r where "drop (4 * j) (concat (map le32 bs) @ z) = le32 (bs ! j) @ r" by auto
    then have "drop (4 * j) (drop 4 (le32 b @ concat (map le32 bs) @ z)) = le32 (bs ! j) @ r"
      by simp
    then show ?thesis using Suc by (simp add: add.commute)
  qed
qed simp

lemma enc_head_n: "at32 (enc_head d bs) 0 = of_nat (length bs)"
  by (simp add: at32_def enc_head_def overwrite_def)

lemma enc_head_entry:
  assumes "i < length bs"
  shows "at32 (enc_head d bs) (4 + 4 * i) = bs ! i"
proof -
  obtain r where "drop (4 * i) (concat (map le32 bs) @ drop (4 + 4 * length bs) d) = le32 (bs ! i) @ r"
    using drop_concat_le32 [OF assms] by blast
  then have "drop (4 + 4 * i) (enc_head d bs) = le32 (bs ! i) @ r"
    by (simp add: enc_head_def overwrite_def add.commute flip: drop_drop)
  then show ?thesis by (simp add: at32_def)
qed

lemma sint_of_nat32: "n < 2 ^ 31 \<Longrightarrow> sint (of_nat n :: u32) = int n"
  by (simp add: sint_uint unsigned_of_nat take_bit_nat_eq_self signed_take_bit_int_eq_self)

lemma head_blocks_enc: "length bs < 2 ^ 31 \<Longrightarrow> head_blocks (enc_head d bs) = bs"
  by (rule nth_equalityI) (simp_all add: head_blocks_def enc_head_n sint_of_nat32 enc_head_entry)

lemma length_enc_head: "length d = BSIZE \<Longrightarrow> length bs \<le> LOGSIZE \<Longrightarrow> length (enc_head d bs) = BSIZE"
  by (simp add: enc_head_def LOGSIZE_def BSIZE_def)

section \<open>What the cache operations leave of the log\<close>

lemma lg_frame:
  fixes s t :: "'z logsys_scheme"
  assumes "bframe s t"
  shows "lg_start t = lg_start s" "lg_size t = lg_size s" "outstanding t = outstanding s"
    "committing t = committing s" "lg_dev t = lg_dev s" "lh_n t = lh_n s" "lh_block t = lh_block s"
    "logsys.more t = logsys.more s"
  using assms by (cases s; cases t; simp add: bframe_def)+

lemma lg_upd [simp]:
  "binv (s\<lparr>lh_n := n\<rparr>) = binv s" "kready (s\<lparr>lh_n := n\<rparr>) = kready s" "cview (s\<lparr>lh_n := n\<rparr>) = cview s"
  "dirtyb (s\<lparr>lh_n := n\<rparr>) = dirtyb s" "hblocks (s\<lparr>lh_n := n\<rparr>) = hblocks s" "mine (s\<lparr>lh_n := n\<rparr>) = mine s"
  "binv (s\<lparr>lh_block := bs\<rparr>) = binv s" "kready (s\<lparr>lh_block := bs\<rparr>) = kready s"
  "cview (s\<lparr>lh_block := bs\<rparr>) = cview s" "mine (s\<lparr>lh_block := bs\<rparr>) = mine s"
  "dirtyb (s\<lparr>lh_block := bs\<rparr>) = dirtyb s" "hblocks (s\<lparr>lh_block := bs\<rparr>) = hblocks s"
  by (simp_all add: binv_def lru_def bufok_def buniq_def nx_def pv_def kready_def cpu_ok_def lfree_def
      me_def me_opt_def cview_def dirtyb_def hblocks_def cached_def mine_def curpid_def curproc_def
      fun_eq_iff cong: option.case_cong)

lemma lg_upd_inv [simp]:
  "bio_inv (s\<lparr>lh_n := n\<rparr>) = bio_inv s" "bio_inv (s\<lparr>lh_block := bs\<rparr>) = bio_inv s"
  by (simp_all add: bio_inv_def)

lemma lg_set_buf [frame_simps]:
  "lg_start (set_buf i f s) = lg_start s" "lg_size (set_buf i f s) = lg_size s"
  "outstanding (set_buf i f s) = outstanding s" "committing (set_buf i f s) = committing s"
  "lg_dev (set_buf i f s) = lg_dev s" "lh_n (set_buf i f s) = lh_n s"
  "lh_block (set_buf i f s) = lh_block s" "logsys.more (set_buf i f s) = logsys.more s"
  by (simp_all add: set_buf_def)

section \<open>Reading and writing the header\<close>

lemma lh_get_ok: "i < LOGSIZE \<Longrightarrow> lh_get i s = Ret (lh_block s ! i) s"
  by (simp add: lh_get_def)

lemma set_bdata_twice: "put_bdata b d (put_bdata b e s) = put_bdata b d s"
  by (simp add: set_buf_def)

lemma head_entries:
  assumes "n \<le> LOGSIZE" "length (lh_block s) = LOGSIZE"
  shows "rfor [0..<n] (head_entry b) (put_bdata b (overwrite d 0 (le32 w)) s) =
    Ret () (put_bdata b (overwrite d 0 (le32 w @ concat (map le32 (take n (lh_block s))))) s)"
  using assms(1)
proof (induction n)
  case (Suc n)
  let ?h = "overwrite d 0 (le32 w @ concat (map le32 (take n (lh_block s))))"
  have "overwrite ?h (4 + 4 * n) (le32 (lh_block s ! n)) =
    overwrite d 0 (le32 w @ concat (map le32 (take (Suc n) (lh_block s))))"
    using overwrite_append [of d "le32 w @ concat (map le32 (take n (lh_block s)))" "le32 (lh_block s ! n)"]
      Suc assms(2) by (simp add: take_Suc_conv_app_nth min_absorb2)
  then show ?case
    using Suc assms(2)
    by (simp add: rfor_append head_entry_def lh_get_ok frame_simps set_bdata_twice del: set_buf_twice)
qed simp

definition lgframe :: "'z logsys_scheme \<Rightarrow> 'z logsys_scheme \<Rightarrow> bool" where
  "lgframe s t \<longleftrightarrow> kctx t = kctx s \<and> disksize t = disksize s \<and> lg_start t = lg_start s \<and>
     lg_size t = lg_size s \<and> outstanding t = outstanding s \<and> committing t = committing s \<and>
     lg_dev t = lg_dev s \<and> logsys.more t = logsys.more s"

lemma lgframe_refl [simp]: "lgframe s s"
  by (simp add: lgframe_def)

lemma lgframe_trans: "lgframe s t \<Longrightarrow> lgframe t u \<Longrightarrow> lgframe s u"
  by (simp add: lgframe_def)

lemma bframe_lgframe: "bframe s t \<Longrightarrow> lgframe s t"
  by (simp add: lgframe_def lg_frame) (simp add: bframe_def)

lemma lgframe_upd [simp]: "lgframe s (s\<lparr>lh_n := n\<rparr>)" "lgframe s (s\<lparr>lh_block := bs\<rparr>)"
  by (simp_all add: lgframe_def kctx_def)

text \<open>The header block can be read and written: it is in range, nobody has it locked and
  there is a buffer for it.\<close>

definition head_ready :: "'z logsys_scheme \<Rightarrow> bool" where
  "head_ready s \<longleftrightarrow> bio_inv s \<and> lg_dev s = 1 \<and> lg_start s < disksize s \<and> lg_start s \<notin> hblocks s \<and>
     card (dirtyb s \<union> hblocks s) < NBUF \<and> length (lh_block s) = LOGSIZE"

definition logged :: "'z logsys_scheme \<Rightarrow> u32 list" where
  "logged s = take (nat (lh_n s)) (lh_block s)"

lemma write_head_law:
  assumes r: "head_ready s" and n: "0 \<le> lh_n s" "lh_n s \<le> int LOGSIZE"
  defines "h \<equiv> enc_head (cview s (lg_start s)) (logged s)"
  shows "wp (write_head s) (\<lambda>_ t. bc.left s ((cview s)(lg_start s := h)) ((memdisk s)(lg_start s := h))
      (wtrace s @ [(lg_start s, h)]) (dirtyb s - {lg_start s}) (hblocks s) t)"
proof -
  let ?f = "\<lambda>i t. put_bdata i (enc_head (bdata i t) (logged s)) t"
  have len: "length (logged s) = nat (lh_n s)" "length (logged s) \<le> LOGSIZE"
    using r n by (simp_all add: logged_def head_ready_def)
  note s = r [unfolded head_ready_def]
  have w: "word_of_int (lh_n s) = (of_nat (length (logged s)) :: u32)" using len n by simp
  have rd: "wp (bread 1 (lg_start s) s) (\<lambda>i t. bframe s t)"
    using bc.rd_law [of s "lg_start s"] s by (auto elim: wp_mono)
  have "rbind (bread 1 (lg_start s) s) (\<lambda>b s.
     let s = put_bdata b (overwrite (bdata b s) 0 (le32 (word_of_int (lh_n s)))) s in
     rbind (rfor [0..<nat (lh_n s)] (head_entry b) s) (\<lambda>_ s.
     rbind (bwrite b s) (\<lambda>_ s. brelse b s))) =
    rbind (bread 1 (lg_start s) s) (\<lambda>i t. rbind (bwrite i (?f i t)) (\<lambda>_ s. brelse i s))"
  proof (rule rbind_cong_wp [OF rd])
    fix i t assume t: "bframe s t"
    have "rfor [0..<nat (lh_n s)] (head_entry i)
        (put_bdata i (overwrite (bdata i t) 0 (le32 (word_of_int (lh_n s)))) t) =
      Ret () (put_bdata i (overwrite (bdata i t) 0
        (le32 (word_of_int (lh_n s)) @ concat (map le32 (take (nat (lh_n s)) (lh_block t))))) t)"
      using s n lg_frame [OF t] by (intro head_entries) auto
    also have "\<dots> = Ret () (?f i t)"
      unfolding w enc_head_def using lg_frame [OF t] by (simp add: logged_def)
    finally show "(let s = put_bdata i (overwrite (bdata i t) 0 (le32 (word_of_int (lh_n t)))) t in
     rbind (rfor [0..<nat (lh_n s)] (head_entry i) s) (\<lambda>_ s.
     rbind (bwrite i s) (\<lambda>_ s. brelse i s))) = rbind (bwrite i (?f i t)) (\<lambda>_ s. brelse i s)"
      using lg_frame [OF t] by (simp add: Let_def frame_simps)
  qed
  then have "write_head s = rbind (bread 1 (lg_start s) s) (\<lambda>i t. rbind (bwrite i (?f i t)) (\<lambda>_ s. brelse i s))"
    using s by (simp add: write_head_def)
  moreover have "length h = BSIZE"
    unfolding h_def using s len by (intro length_enc_head) (auto simp: bc.view_size)
  ultimately show ?thesis
    using s bc.update_through [of s "lg_start s" ?f h] by (auto simp: h_def)
qed

lemma read_entries:
  assumes "n \<le> LOGSIZE" "length (lh_block s) = LOGSIZE"
  shows "rfor [0..<n] (\<lambda>i s. lh_put i (at32 (bdata b s) (4 + 4 * i)) s) s =
    Ret () (s\<lparr>lh_block := map (\<lambda>i. at32 (bdata b s) (4 + 4 * i)) [0..<n] @ drop n (lh_block s)\<rparr>)"
  using assms(1)
proof (induction n)
  case (Suc n)
  have "(map f [0..<n] @ drop n xs)[n := y] = map f [0..<n] @ y # drop (Suc n) xs"
    if "n < length xs" for f xs and y :: u32
    using that by (simp add: list_update_append flip: Cons_nth_drop_Suc)
  with Suc assms(2) show ?case by (simp add: rfor_append lh_put_def)
qed simp

lemma read_head_law:
  assumes r: "head_ready s" and n: "sint (at32 (cview s (lg_start s)) 0) \<le> int LOGSIZE"
  shows "wp (read_head s) (\<lambda>_ t. bio_inv t \<and> lgframe s t \<and> cview t = cview s \<and> memdisk t = memdisk s \<and>
    wtrace t = wtrace s \<and> dirtyb t = dirtyb s \<and> hblocks t = hblocks s \<and>
    lh_n t = sint (at32 (cview s (lg_start s)) 0) \<and>
    logged t = head_blocks (cview s (lg_start s)) \<and> length (lh_block t) = LOGSIZE)"
proof -
  note s = r [unfolded head_ready_def]
  let ?d = "cview s (lg_start s)"
  let ?n = "nat (sint (at32 ?d 0))"
  have "wp (rbind (bread 1 (lg_start s) s) (\<lambda>b s.
     let s = s\<lparr>lh_n := sint (at32 (bdata b s) 0)\<rparr> in
     rbind (rfor [0..<nat (lh_n s)] (\<lambda>i s. lh_put i (at32 (bdata b s) (4 + 4 * i)) s) s) (\<lambda>_ s.
     brelse b s))) (\<lambda>_ t. bio_inv t \<and> lgframe s t \<and> cview t = cview s \<and> memdisk t = memdisk s \<and>
    wtrace t = wtrace s \<and> dirtyb t = dirtyb s \<and> hblocks t = hblocks s \<and> lh_n t = sint (at32 ?d 0) \<and>
    logged t = head_blocks ?d \<and> length (lh_block t) = LOGSIZE)"
  proof (rule wp_rbindI [OF bc.rd_law [of s "lg_start s"]], (use s in auto)[4], elim conjE)
    fix i t assume t: "bio_inv t" "bframe s t" "mine t i (lg_start s)" "cview t = cview s"
      "memdisk t = memdisk s" "wtrace t = wtrace s" "dirtyb t = dirtyb s"
      "hblocks t = insert (lg_start s) (hblocks s)"
    have d: "bdata i t = ?d" using bc.data_law [OF t(1,3)] t(4) by simp
    define bl where "bl = head_blocks ?d @ drop ?n (lh_block s)"
    let ?t = "t\<lparr>lh_n := sint (at32 ?d 0), lh_block := bl\<rparr>"
    have loop: "rfor [0..<?n] (\<lambda>i' s. lh_put i' (at32 (bdata i s) (4 + 4 * i')) s) (t\<lparr>lh_n := sint (at32 ?d 0)\<rparr>)
      = Ret () ?t"
      using read_entries [of ?n "t\<lparr>lh_n := sint (at32 ?d 0)\<rparr>" i] s n lg_frame [OF t(2)]
      by (simp add: d head_blocks_def bl_def)
    have "lg_start s \<in> dirtyb ?t \<or> cview ?t (lg_start s) = memdisk ?t (lg_start s)"
      using t s bc.view_disk [of s "lg_start s"] by auto
    moreover have "lgframe s ?t"
      using bframe_lgframe [OF t(2)] lgframe_upd lgframe_trans by metis
    moreover have "logged ?t = head_blocks ?d" "length bl = LOGSIZE"
      using s n by (auto simp: logged_def head_blocks_def bl_def)
    ultimately have "wp (brelse i ?t) (\<lambda>_ u. bio_inv u \<and> bframe ?t u \<and>
        (\<forall>j m. mine u j m \<longleftrightarrow> j \<noteq> i \<and> mine ?t j m) \<and> cview u = cview ?t \<and> memdisk u = memdisk ?t \<and>
        wtrace u = wtrace ?t \<and> dirtyb u = dirtyb ?t \<and> hblocks u = hblocks ?t - {lg_start s})"
      using t by (intro bc.rel_law) auto
    then have "wp (brelse i ?t) (\<lambda>_ u. bio_inv u \<and> lgframe s u \<and> cview u = cview s \<and> memdisk u = memdisk s \<and>
        wtrace u = wtrace s \<and> dirtyb u = dirtyb s \<and> hblocks u = hblocks s \<and> lh_n u = sint (at32 ?d 0) \<and>
        logged u = head_blocks ?d \<and> length (lh_block u) = LOGSIZE)"
    proof (rule wp_mono, elim conjE)
      fix u assume u: "bio_inv u" "bframe ?t u" "cview u = cview ?t" "memdisk u = memdisk ?t"
        "wtrace u = wtrace ?t" "dirtyb u = dirtyb ?t" "hblocks u = hblocks ?t - {lg_start s}"
      have "logged u = logged ?t" using lg_frame [OF u(2)] by (simp add: logged_def)
      then show "bio_inv u \<and> lgframe s u \<and> cview u = cview s \<and> memdisk u = memdisk s \<and>
        wtrace u = wtrace s \<and> dirtyb u = dirtyb s \<and> hblocks u = hblocks s \<and> lh_n u = sint (at32 ?d 0) \<and>
        logged u = head_blocks ?d \<and> length (lh_block u) = LOGSIZE"
        using u t s \<open>lgframe s ?t\<close> \<open>logged ?t = _\<close> \<open>length bl = _\<close> lg_frame [OF u(2)]
          lgframe_trans [OF _ bframe_lgframe [OF u(2)]] by auto
    qed
    then show "wp (let s = t\<lparr>lh_n := sint (at32 (bdata i t) 0)\<rparr> in
       rbind (rfor [0..<nat (lh_n s)] (\<lambda>i' s. lh_put i' (at32 (bdata i s) (4 + 4 * i')) s) s) (\<lambda>_ s.
       brelse i s)) (\<lambda>_ u. bio_inv u \<and> lgframe s u \<and> cview u = cview s \<and> memdisk u = memdisk s \<and>
        wtrace u = wtrace s \<and> dirtyb u = dirtyb s \<and> hblocks u = hblocks s \<and> lh_n u = sint (at32 ?d 0) \<and>
        logged u = head_blocks ?d \<and> length (lh_block u) = LOGSIZE)"
      by (simp add: d loop Let_def)
  qed
  then show ?thesis using s by (simp add: read_head_def)
qed

end
