(* ===== verification/Log_Commit.thy ===== *)
theory Log_Commit
  imports Log_Spec
begin

text \<open>The two copying loops of log.c, \<open>commit\<close>, and recovery.\<close>

section \<open>The log area\<close>

definition logloc :: "u32 \<Rightarrow> nat \<Rightarrow> u32" where
  "logloc st i = st + of_nat i + 1"

text \<open>The header block and the first \<open>n\<close> log blocks.\<close>

definition log_area :: "u32 \<Rightarrow> nat \<Rightarrow> u32 set" where
  "log_area st n = {b. unat st \<le> unat b \<and> unat b \<le> unat st + n}"

lemma unat_logloc: "unat st + n < 2 ^ 32 \<Longrightarrow> i < n \<Longrightarrow> unat (logloc st i) = unat st + i + 1"
proof -
  assume a: "unat st + n < 2 ^ 32" "i < n"
  have "logloc st i = of_nat (unat st + i + 1)"
    by (simp add: logloc_def)
  then show ?thesis using a by (simp only: unat_of_nat) simp
qed

lemma log_area_facts:
  assumes "unat st + n < 2 ^ 32"
  shows "st \<in> log_area st n" "i < n \<Longrightarrow> logloc st i \<in> log_area st n" "i < n \<Longrightarrow> logloc st i \<noteq> st"
    "i < n \<Longrightarrow> j < n \<Longrightarrow> logloc st i = logloc st j \<Longrightarrow> i = j"
  using unat_logloc [OF assms] by (auto simp: log_area_def dest: arg_cong [of _ _ unat])

text \<open>The log holds the numbers of distinct blocks outside its own area, and nobody has any of
  the blocks concerned locked.\<close>

definition log_ok :: "'z logsys_scheme \<Rightarrow> bool" where
  "log_ok s \<longleftrightarrow> head_ready s \<and> 0 \<le> lh_n s \<and> lh_n s \<le> int LOGSIZE \<and>
     unat (lg_start s) + nat (lh_n s) < unat (disksize s) \<and> distinct (logged s) \<and>
     (\<forall>b\<in>set (logged s). b < disksize s \<and> b \<notin> log_area (lg_start s) (nat (lh_n s))) \<and>
     hblocks s \<inter> (log_area (lg_start s) (nat (lh_n s)) \<union> set (logged s)) = {} \<and>
     dirtyb s \<inter> log_area (lg_start s) (nat (lh_n s)) = {}"

lemma log_okD:
  assumes "log_ok s"
  shows "head_ready s" "bio_inv s" "lg_dev s = 1" "length (lh_block s) = LOGSIZE"
    "length (logged s) = nat (lh_n s)" "nat (lh_n s) \<le> LOGSIZE" "distinct (logged s)"
    "unat (lg_start s) + nat (lh_n s) < 2 ^ 32" "card (dirtyb s \<union> hblocks s) < NBUF"
    "\<And>i. i < nat (lh_n s) \<Longrightarrow> lh_block s ! i = logged s ! i"
    "\<And>i. i < nat (lh_n s) \<Longrightarrow> logged s ! i < disksize s"
    "\<And>i. i < nat (lh_n s) \<Longrightarrow> logged s ! i \<notin> log_area (lg_start s) (nat (lh_n s))"
    "\<And>i. i < nat (lh_n s) \<Longrightarrow> logged s ! i \<notin> hblocks s"
    "\<And>i. i < nat (lh_n s) \<Longrightarrow> logloc (lg_start s) i < disksize s"
    "\<And>b. b \<in> log_area (lg_start s) (nat (lh_n s)) \<Longrightarrow> b \<notin> hblocks s \<and> b \<notin> dirtyb s"
proof -
  have b: "unat (disksize s) < 2 ^ 32" by (rule order_less_le_trans [OF unsigned_less]) simp
  then show o: "unat (lg_start s) + nat (lh_n s) < 2 ^ 32" using assms by (simp add: log_ok_def)
  show l: "length (logged s) = nat (lh_n s)" "nat (lh_n s) \<le> LOGSIZE"
    using assms by (auto simp: log_ok_def logged_def head_ready_def)
  show "logloc (lg_start s) i < disksize s" if "i < nat (lh_n s)" for i
    using assms unat_logloc [OF o that] that by (simp add: log_ok_def word_less_nat_alt)
  show "lh_block s ! i = logged s ! i" if "i < nat (lh_n s)" for i
    using that by (simp add: logged_def)
  show "logged s ! i < disksize s" "logged s ! i \<notin> log_area (lg_start s) (nat (lh_n s))"
    "logged s ! i \<notin> hblocks s" if "i < nat (lh_n s)" for i
    using assms that l nth_mem [of i "logged s"] by (auto simp: log_ok_def)
qed (use assms in \<open>auto simp: log_ok_def head_ready_def\<close>)

lemma logged_frame: "bframe s t \<Longrightarrow> logged t = logged s"
  by (simp add: logged_def lg_frame)

section \<open>The loops\<close>

text \<open>One iteration, with the header entry read in the middle of it.\<close>

lemma bread_then_lh:
  assumes "bio_inv s" "a < disksize s" "a \<notin> hblocks s" "card (dirtyb s \<union> hblocks s) < NBUF"
    "lg_dev s = 1" "i < LOGSIZE"
  shows "rbind (bread (lg_dev s) a s) (\<lambda>x s. rbind (lh_get i s) (\<lambda>blk s. rbind (bread (lg_dev s) blk s) (F x))) =
    rbind (bread 1 a s) (\<lambda>x s'. rbind (bread 1 (lh_block s ! i) s') (F x))"
proof -
  have "wp (bread 1 a s) (\<lambda>x t. bframe s t)"
    using bc.rd_law [of s a] assms by (auto elim: wp_mono)
  then have "rbind (bread 1 a s) (\<lambda>x s. rbind (lh_get i s) (\<lambda>blk s. rbind (bread (lg_dev s) blk s) (F x))) =
    rbind (bread 1 a s) (\<lambda>x s'. rbind (bread 1 (lh_block s ! i) s') (F x))"
    by (rule rbind_cong_wp) (use assms in \<open>simp add: lh_get_ok lg_frame\<close>)
  then show ?thesis using assms by simp
qed

definition log_writes :: "u32 \<Rightarrow> (u32 \<Rightarrow> block) \<Rightarrow> u32 list \<Rightarrow> (u32 \<times> block) list" where
  "log_writes st v bs = map (\<lambda>i. (logloc st i, v (bs ! i))) [0..<length bs]"

definition home_writes :: "u32 \<Rightarrow> (u32 \<Rightarrow> block) \<Rightarrow> u32 list \<Rightarrow> (u32 \<times> block) list" where
  "home_writes st v bs = map (\<lambda>i. (bs ! i, v (logloc st i))) [0..<length bs]"

lemma write_log_law:
  assumes ok: "log_ok s" and d: "set (logged s) \<subseteq> dirtyb s"
  defines "ws \<equiv> log_writes (lg_start s) (cview s) (logged s)"
  shows "wp (write_log s) (\<lambda>_ t. bio_inv t \<and> bframe s t \<and> cview t = writes ws (cview s) \<and>
    memdisk t = writes ws (memdisk s) \<and> wtrace t = wtrace s @ ws \<and> dirtyb t = dirtyb s \<and>
    hblocks t = hblocks s)"
proof -
  note o = log_okD [OF ok] and ar = log_area_facts [OF log_okD(8) [OF ok]]
  let ?src = "\<lambda>i. logged s ! i" and ?dst = "logloc (lg_start s)"
  let ?P = "\<lambda>t. bio_inv t \<and> dirtyb t = dirtyb s \<and> hblocks t = hblocks s"
  have "wp (rfor [0..<nat (lh_n s)] write_log_one s) (\<lambda>_ t. bio_inv t \<and> bframe s t \<and> ?P t \<and>
    cview t = writes (map (\<lambda>k. (?dst k, cview s (?src k))) [0..<nat (lh_n s)]) (cview s) \<and>
    memdisk t = writes (map (\<lambda>k. (?dst k, cview s (?src k))) [0..<nat (lh_n s)]) (memdisk s) \<and>
    wtrace t = wtrace s @ map (\<lambda>k. (?dst k, cview s (?src k))) [0..<nat (lh_n s)] \<and>
    dirtyb t = dirtyb s - ?dst ` set [0..<nat (lh_n s)] \<and> hblocks t = hblocks s)"
  proof (rule bc.copy_loop)
    fix k t assume k: "k \<in> set [0..<nat (lh_n s)]" and t: "bframe s t" "?P t"
    then have kn: "k < nat (lh_n s)" by simp
    have f: "lg_start t = lg_start s" "lg_dev t = 1" "disksize t = disksize s" "lh_block t = lh_block s"
      using lg_frame [OF t(1)] t(1) o by (simp_all add: bframe_def)
    have src: "?src k \<in> dirtyb s" using d o(5) kn nth_mem [of k "logged s"] by auto
    have "bc.ready2 (?dst k) (?src k) t"
      using kn t(2) o ar(2) [OF kn] f(3) src by (auto simp: bc.ready2_def)
    then have "wp (rbind (bread 1 (?dst k) t) (\<lambda>i s. rbind (bread 1 (?src k) s) (\<lambda>j s.
      rbind (bwrite i (put_bdata i (bdata j s) s)) (\<lambda>_ s. rbind (brelse j s) (\<lambda>_ s. brelse i s)))))
      (\<lambda>_ u. bc.copied (?src k) (?dst k) t u)"
      using t(2) src by (intro bc.copy_to_first) auto
    moreover have "write_log_one k t = rbind (bread 1 (?dst k) t) (\<lambda>i s. rbind (bread 1 (?src k) s) (\<lambda>j s.
      rbind (bwrite i (put_bdata i (bdata j s) s)) (\<lambda>_ s. rbind (brelse j s) (\<lambda>_ s. brelse i s))))"
      unfolding write_log_one_def f(1) logloc_def [symmetric] o(10) [OF kn, symmetric] f(4) [symmetric]
      using kn t(2) o ar(2) [OF kn] f by (intro bread_then_lh) auto
    ultimately show "wp (write_log_one k t) (\<lambda>_ u. bc.copied (?src k) (?dst k) t u)" by simp
  next
    fix k t u assume "k \<in> set [0..<nat (lh_n s)]" "?P t" "bc.copied (?src k) (?dst k) t u"
    then show "?P u" using o(15) ar(2) [of k] by (auto simp: bc.copied_def bc.left_def)
  next
    fix k l assume "k \<in> set [0..<nat (lh_n s)]" "l \<in> set [0..<nat (lh_n s)]"
    then show "?src k \<noteq> ?dst l" using o(12) [of k] ar(2) [of l] by auto
  qed (use o in auto)
  then show ?thesis
    unfolding write_log_def ws_def log_writes_def o(5) by (rule wp_mono) auto
qed

lemma install_law:
  assumes ok: "log_ok s" and d: "set (logged s) \<subseteq> dirtyb s \<or> card (dirtyb s \<union> hblocks s) + 1 < NBUF"
  defines "ws \<equiv> home_writes (lg_start s) (cview s) (logged s)"
  shows "wp (install_trans s) (\<lambda>_ t. bio_inv t \<and> bframe s t \<and> cview t = writes ws (cview s) \<and>
    memdisk t = writes ws (memdisk s) \<and> wtrace t = wtrace s @ ws \<and>
    dirtyb t = dirtyb s - set (logged s) \<and> hblocks t = hblocks s)"
proof -
  note o = log_okD [OF ok] and ar = log_area_facts [OF log_okD(8) [OF ok]]
  let ?dst = "\<lambda>i. logged s ! i" and ?src = "logloc (lg_start s)"
  let ?P = "\<lambda>t. bio_inv t \<and> hblocks t = hblocks s \<and> dirtyb t \<subseteq> dirtyb s \<and> card (dirtyb t \<union> hblocks t) < NBUF \<and>
    (set (logged s) \<subseteq> dirtyb t \<or> card (dirtyb t \<union> hblocks t) + 1 < NBUF)"
  have "wp (rfor [0..<nat (lh_n s)] install_one s) (\<lambda>_ t. bio_inv t \<and> bframe s t \<and> ?P t \<and>
    cview t = writes (map (\<lambda>k. (?dst k, cview s (?src k))) [0..<nat (lh_n s)]) (cview s) \<and>
    memdisk t = writes (map (\<lambda>k. (?dst k, cview s (?src k))) [0..<nat (lh_n s)]) (memdisk s) \<and>
    wtrace t = wtrace s @ map (\<lambda>k. (?dst k, cview s (?src k))) [0..<nat (lh_n s)] \<and>
    dirtyb t = dirtyb s - ?dst ` set [0..<nat (lh_n s)] \<and> hblocks t = hblocks s)"
  proof (rule bc.copy_loop)
    fix k t assume k: "k \<in> set [0..<nat (lh_n s)]" and t: "bframe s t" "?P t"
    then have kn: "k < nat (lh_n s)" by simp
    have f: "lg_start t = lg_start s" "lg_dev t = 1" "disksize t = disksize s" "lh_block t = lh_block s"
      using lg_frame [OF t(1)] t(1) o by (simp_all add: bframe_def)
    have dst: "?dst k \<in> set (logged s)" using o(5) kn by simp
    have a: "?src k \<notin> hblocks t" "?src k \<notin> dirtyb t" using t(2) o(15) [OF ar(2) [OF kn]] by auto
    have "bc.ready2 (?src k) (?dst k) t"
      using kn t(2) o a dst ar(2) [OF kn] f(3) by (auto simp: bc.ready2_def)
    then have "wp (rbind (bread 1 (?src k) t) (\<lambda>i s. rbind (bread 1 (?dst k) s) (\<lambda>j s.
      rbind (bwrite j (put_bdata j (bdata i s) s)) (\<lambda>_ s. rbind (brelse i s) (\<lambda>_ s. brelse j s)))))
      (\<lambda>_ u. bc.copied (?src k) (?dst k) t u)"
      using t(2) a bc.view_disk [of t "?src k"] by (intro bc.copy_to_second) auto
    moreover have "install_one k t = rbind (bread 1 (?src k) t) (\<lambda>i s. rbind (bread 1 (?dst k) s) (\<lambda>j s.
      rbind (bwrite j (put_bdata j (bdata i s) s)) (\<lambda>_ s. rbind (brelse i s) (\<lambda>_ s. brelse j s))))"
      unfolding install_one_def f(1) logloc_def [symmetric] o(10) [OF kn, symmetric] f(4) [symmetric]
      using kn t(2) o a ar(2) [OF kn] f by (intro bread_then_lh) auto
    ultimately show "wp (install_one k t) (\<lambda>_ u. bc.copied (?src k) (?dst k) t u)" by simp
  next
    fix k t u assume k: "k \<in> set [0..<nat (lh_n s)]" and P: "?P t" and c: "bc.copied (?src k) (?dst k) t u"
    have u: "bio_inv u" "hblocks u = hblocks s" "dirtyb u = dirtyb t - {?dst k}"
      using c P by (simp_all add: bc.copied_def bc.left_def)
    have nh: "?dst k \<notin> hblocks s" using k o(13) by simp
    have le: "card (dirtyb u \<union> hblocks u) \<le> card (dirtyb t \<union> hblocks t)"
      using P u by (intro card_mono) auto
    moreover have "card (dirtyb u \<union> hblocks u) < card (dirtyb t \<union> hblocks t)" if "set (logged s) \<subseteq> dirtyb t"
    proof (rule psubset_card_mono)
      have "?dst k \<in> dirtyb t" using that k o(5) nth_mem [of k "logged s"] by auto
      then show "dirtyb u \<union> hblocks u \<subset> dirtyb t \<union> hblocks t" using u P nh by auto
    qed simp
    ultimately show "?P u" using P u by auto
  next
    fix k l assume "k \<in> set [0..<nat (lh_n s)]" "l \<in> set [0..<nat (lh_n s)]"
    then show "?src k \<noteq> ?dst l" using o(12) [of l] ar(2) [of k] by auto
  qed (use o d in auto)
  moreover have "?dst ` set [0..<nat (lh_n s)] = set (logged s)"
    using o(5) by (metis map_nth set_map)
  ultimately show ?thesis
    unfolding install_trans_def ws_def home_writes_def o(5) by (elim wp_mono) auto
qed

section \<open>Commit\<close>

text \<open>The writes of a commit, in their order on the disk.\<close>

definition commit_writes :: "u32 \<Rightarrow> (u32 \<Rightarrow> block) \<Rightarrow> u32 list \<Rightarrow> (u32 \<times> block) list" where
  "commit_writes st v bs =
     log_writes st v bs @ [(st, enc_head (v st) bs)] @ map (\<lambda>b. (b, v b)) bs @
     [(st, enc_head (enc_head (v st) bs) [])]"

lemma log_writes_facts:
  assumes "unat st + length bs < 2 ^ 32" "set bs \<inter> log_area st (length bs) = {}"
  shows "fst ` set (log_writes st v bs) \<subseteq> log_area st (length bs) - {st}"
    "i < length bs \<Longrightarrow> writes (log_writes st v bs) d (logloc st i) = v (bs ! i)"
    "x \<notin> log_area st (length bs) - {st} \<Longrightarrow> writes (log_writes st v bs) d x = d x"
proof -
  note ar = log_area_facts [OF assms(1)]
  show sub: "fst ` set (log_writes st v bs) \<subseteq> log_area st (length bs) - {st}"
    using ar by (auto simp: log_writes_def)
  have "distinct (map fst (log_writes st v bs))"
    using ar(4) by (auto simp: log_writes_def comp_def distinct_map inj_on_def)
  then show "writes (log_writes st v bs) d (logloc st i) = v (bs ! i)" if "i < length bs"
    using that by (intro writes_at) (auto simp: log_writes_def)
  show "writes (log_writes st v bs) d x = d x" if "x \<notin> log_area st (length bs) - {st}"
    using that sub by (intro writes_other) auto
qed

text \<open>After the blocks are in the log area, installing reads them back.\<close>

lemma home_writes_logged:
  assumes "unat st + length bs < 2 ^ 32" "set bs \<inter> log_area st (length bs) = {}"
    and d: "\<And>i. i < length bs \<Longrightarrow> d (logloc st i) = v (bs ! i)"
  shows "home_writes st d bs = map (\<lambda>b. (b, v b)) bs"
  unfolding home_writes_def by (rule nth_equalityI) (simp_all add: d)

text \<open>The first half of \<open>commit\<close>: the blocks are in the log and the header names them.\<close>

lemma commit_first_half:
  assumes ok: "log_ok s" and d: "set (logged s) = dirtyb s"
  defines "h \<equiv> enc_head (cview s (lg_start s)) (logged s)"
  defines "ws \<equiv> log_writes (lg_start s) (cview s) (logged s) @ [(lg_start s, h)]"
  shows "wp (rbind (write_log s) (\<lambda>_ s. write_head s)) (\<lambda>_ u. bio_inv u \<and> bframe s u \<and>
    cview u = writes ws (cview s) \<and> memdisk u = writes ws (memdisk s) \<and> wtrace u = wtrace s @ ws \<and>
    dirtyb u = dirtyb s \<and> hblocks u = hblocks s)"
proof (rule wp_rbindI [OF write_log_law [OF ok]], simp add: d, elim conjE)
  let ?st = "lg_start s"
  let ?w1 = "log_writes ?st (cview s) (logged s)"
  note o = log_okD [OF ok] and ar = log_area_facts [OF log_okD(8) [OF ok]]
  fix t assume t: "bio_inv t" "bframe s t" "cview t = writes ?w1 (cview s)"
    "memdisk t = writes ?w1 (memdisk s)" "wtrace t = wtrace s @ ?w1" "dirtyb t = dirtyb s"
    "hblocks t = hblocks s"
  note ft = lg_frame [OF t(2)] logged_frame [OF t(2)]
  have dt: "disksize t = disksize s" using t(2) by (simp add: bframe_def)
  have ht: "head_ready t" using t o(1) ft dt by (simp add: head_ready_def)
  have "?st \<notin> fst ` set ?w1"
    using ar(3) o(5) by (force simp: log_writes_def)
  then have vst: "cview t ?st = cview s ?st" using t(3) by (simp add: writes_other)
  have "wp (write_head t) (\<lambda>_ u. bc.left t ((cview t)(?st := h)) ((memdisk t)(?st := h))
    (wtrace t @ [(?st, h)]) (dirtyb t - {?st}) (hblocks t) u)"
    using write_head_law [OF ht] ok unfolding ft vst h_def by (simp add: log_ok_def)
  then show "wp (write_head t) (\<lambda>_ u. bio_inv u \<and> bframe s u \<and> cview u = writes ws (cview s) \<and>
    memdisk u = writes ws (memdisk s) \<and> wtrace u = wtrace s @ ws \<and> dirtyb u = dirtyb s \<and> hblocks u = hblocks s)"
    using t o(15) ar(1) by (elim wp_mono) (auto simp: bc.left_def ws_def intro: bframe_trans)
qed

text \<open>The second half, also the end of recovery: the blocks are installed and the header is
  cleared.\<close>

lemma clear_log:
  assumes ok: "log_ok s" and d: "set (logged s) \<subseteq> dirtyb s \<or> card (dirtyb s \<union> hblocks s) + 1 < NBUF"
  defines "ws \<equiv> home_writes (lg_start s) (cview s) (logged s) @
    [(lg_start s, enc_head (cview s (lg_start s)) [])]"
  shows "wp (rbind (install_trans s) (\<lambda>_ s. write_head (s\<lparr>lh_n := 0\<rparr>)))
    (\<lambda>_ t. bio_inv t \<and> lgframe s t \<and> lh_n t = 0 \<and> length (lh_block t) = LOGSIZE \<and>
      cview t = writes ws (cview s) \<and> memdisk t = writes ws (memdisk s) \<and> wtrace t = wtrace s @ ws \<and>
      dirtyb t = dirtyb s - set (logged s) \<and> hblocks t = hblocks s)"
proof (rule wp_rbindI [OF install_law [OF ok d]], elim conjE)
  let ?st = "lg_start s" and ?h = "enc_head (cview s (lg_start s)) []"
  let ?w2 = "home_writes ?st (cview s) (logged s)"
  note o = log_okD [OF ok] and ar = log_area_facts [OF log_okD(8) [OF ok]]
  fix w assume w: "bio_inv w" "bframe s w" "cview w = writes ?w2 (cview s)"
    "memdisk w = writes ?w2 (memdisk s)" "wtrace w = wtrace s @ ?w2"
    "dirtyb w = dirtyb s - set (logged s)" "hblocks w = hblocks s"
  let ?w = "w\<lparr>lh_n := 0\<rparr>"
  have "card (dirtyb w \<union> hblocks w) \<le> card (dirtyb s \<union> hblocks s)" using w by (intro card_mono) auto
  then have hw: "head_ready ?w"
    using o(1) w lg_frame [OF w(2)] by (auto simp: head_ready_def bframe_def)
  have "?st \<notin> fst ` set ?w2" using o(5,12) ar(1) by (auto simp: home_writes_def)
  then have vw: "cview w ?st = cview s ?st" using w(3) by (simp add: writes_other)
  have st: "?st \<notin> dirtyb s" using o(15) ar(1) by auto
  have "wp (write_head ?w) (\<lambda>_ x. bc.left ?w ((cview w)(?st := ?h)) ((memdisk w)(?st := ?h))
    (wtrace w @ [(?st, ?h)]) (dirtyb w) (hblocks w) x)"
    using write_head_law [OF hw] lg_frame [OF w(2)] vw w(6) st by (simp add: logged_def)
  moreover have "lgframe s ?w" using bframe_lgframe [OF w(2)] lgframe_upd lgframe_trans by metis
  ultimately show "wp (write_head ?w) (\<lambda>_ t. bio_inv t \<and> lgframe s t \<and> lh_n t = 0 \<and>
      length (lh_block t) = LOGSIZE \<and> cview t = writes ws (cview s) \<and> memdisk t = writes ws (memdisk s) \<and>
      wtrace t = wtrace s @ ws \<and> dirtyb t = dirtyb s - set (logged s) \<and> hblocks t = hblocks s)"
  proof (elim wp_mono)
    fix x assume "bc.left ?w ((cview w)(?st := ?h)) ((memdisk w)(?st := ?h))
      (wtrace w @ [(?st, ?h)]) (dirtyb w) (hblocks w) x"
    then have x: "bio_inv x" "bframe ?w x" "cview x = (cview w)(?st := ?h)"
      "memdisk x = (memdisk w)(?st := ?h)" "wtrace x = wtrace w @ [(?st, ?h)]"
      "dirtyb x = dirtyb w" "hblocks x = hblocks w" by (auto simp: bc.left_def)
    show "bio_inv x \<and> lgframe s x \<and> lh_n x = 0 \<and> length (lh_block x) = LOGSIZE \<and>
      cview x = writes ws (cview s) \<and> memdisk x = writes ws (memdisk s) \<and>
      wtrace x = wtrace s @ ws \<and> dirtyb x = dirtyb s - set (logged s) \<and> hblocks x = hblocks s"
      using x w lg_frame [OF x(2)] lg_frame [OF w(2)] o(4) \<open>lgframe s ?w\<close>
        lgframe_trans [OF _ bframe_lgframe [OF x(2)]] by (auto simp: ws_def)
  qed
qed

lemma commit_law:
  assumes ok: "log_ok s" and n: "0 < lh_n s" and d: "set (logged s) = dirtyb s"
  defines "ws \<equiv> commit_writes (lg_start s) (cview s) (logged s)"
  shows "wp (commit s) (\<lambda>_ t. bio_inv t \<and> lgframe s t \<and> lh_n t = 0 \<and> length (lh_block t) = LOGSIZE \<and>
    cview t = writes ws (cview s) \<and> memdisk t = writes ws (memdisk s) \<and> wtrace t = wtrace s @ ws \<and>
    dirtyb t = {} \<and> hblocks t = hblocks s)"
proof -
  let ?st = "lg_start s" and ?bs = "logged s"
  let ?w1 = "log_writes ?st (cview s) ?bs" and ?h = "enc_head (cview s ?st) ?bs"
  let ?Q = "\<lambda>t. bio_inv t \<and> lgframe s t \<and> lh_n t = 0 \<and> length (lh_block t) = LOGSIZE \<and>
    cview t = writes ws (cview s) \<and> memdisk t = writes ws (memdisk s) \<and> wtrace t = wtrace s @ ws \<and>
    dirtyb t = {} \<and> hblocks t = hblocks s"
  note o = log_okD [OF ok] and ar = log_area_facts [OF log_okD(8) [OF ok]]
  have r: "unat ?st + length ?bs < 2 ^ 32" "set ?bs \<inter> log_area ?st (length ?bs) = {}"
    using o(5,8) ok by (auto simp: log_ok_def)
  have "wp (rbind (rbind (write_log s) (\<lambda>_ s. write_head s)) (\<lambda>_ s.
      rbind (install_trans s) (\<lambda>_ s. write_head (s\<lparr>lh_n := 0\<rparr>)))) (\<lambda>_. ?Q)"
  proof (rule wp_rbindI [OF commit_first_half [OF ok d]], elim conjE)
    fix u assume u: "bio_inv u" "bframe s u" "cview u = writes (?w1 @ [(?st, ?h)]) (cview s)"
      "memdisk u = writes (?w1 @ [(?st, ?h)]) (memdisk s)" "wtrace u = wtrace s @ ?w1 @ [(?st, ?h)]"
      "dirtyb u = dirtyb s" "hblocks u = hblocks s"
    note g = lg_frame [OF u(2)] logged_frame [OF u(2)]
    have "disksize u = disksize s" using u(2) by (simp add: bframe_def)
    then have oku: "log_ok u" using ok u g by (simp add: log_ok_def head_ready_def)
    have hw: "home_writes ?st (cview u) ?bs = map (\<lambda>b. (b, cview s b)) ?bs"
      using r log_writes_facts(2) [OF r] u(3) ar(3) o(5) by (intro home_writes_logged) auto
    have vu: "cview u ?st = ?h" using u(3) by simp
    have "set (logged u) \<subseteq> dirtyb u \<or> card (dirtyb u \<union> hblocks u) + 1 < NBUF" using u g d by simp
    from clear_log [OF oku this]
    show "wp (rbind (install_trans u) (\<lambda>_ s. write_head (s\<lparr>lh_n := 0\<rparr>))) (\<lambda>_. ?Q)"
      using lgframe_trans [OF bframe_lgframe [OF u(2)]] u d unfolding g hw vu
      by (elim wp_mono) (auto simp: ws_def commit_writes_def)
  qed
  then show ?thesis using n by (simp add: commit_def rbind_assoc)
qed

end
