(* ===== verification/Log_Crash.thy ===== *)
theory Log_Crash
  imports Log_Commit
begin

text \<open>Crash safety: whatever part of the writes of a commit reached the disk, recovery leaves
  either none or all of the transaction.\<close>

section \<open>Recovery as a function of the disk\<close>

definition replay :: "u32 \<Rightarrow> (u32 \<Rightarrow> block) \<Rightarrow> u32 \<Rightarrow> block" where
  "replay st d = writes (home_writes st d (head_blocks (d st)) @ [(st, enc_head (d st) [])]) d"

lemma length_commit_writes: "length (commit_writes st v bs) = 2 * length bs + 2"
  by (simp add: commit_writes_def log_writes_def)

lemma take_commit_writes:
  "take k (commit_writes st v bs) =
    (if k \<le> length bs then take k (log_writes st v bs)
     else if k \<le> 2 * length bs + 1
     then log_writes st v bs @ [(st, enc_head (v st) bs)] @ map (\<lambda>b. (b, v b)) (take (k - length bs - 1) bs)
     else commit_writes st v bs)"
proof -
  have l: "length (log_writes st v bs) = length bs" by (simp add: log_writes_def)
  have e: "k - length bs = Suc m \<Longrightarrow> k - Suc (length bs) = m" for m by arith
  show ?thesis
    unfolding commit_writes_def
    by (auto simp: l e take_map take_Cons split: nat.splits)
qed

lemma writes_map_self: "writes (map (\<lambda>b. (b, v b)) bs) d x = (if x \<in> set bs then v x else d x)"
  by (induction bs arbitrary: d) auto

lemma head_blocks_0: "at32 b 0 = 0 \<Longrightarrow> head_blocks b = []"
  by (simp add: head_blocks_def)

lemma writes_sub:
  assumes "fst ` set ws \<subseteq> A" "x \<notin> A"
  shows "writes (take k ws) d x = d x"
  using assms by (intro writes_other) (auto dest: in_set_takeD)

text \<open>A transaction: the blocks \<open>bs\<close> of the disk \<open>d\<close>, whose log is empty, are to get the
  contents \<open>v\<close>.\<close>

definition txn :: "u32 \<Rightarrow> u32 list \<Rightarrow> (u32 \<Rightarrow> block) \<Rightarrow> (u32 \<Rightarrow> block) \<Rightarrow> bool" where
  "txn st bs v d \<longleftrightarrow> unat st + length bs < 2 ^ 32 \<and> length bs \<le> LOGSIZE \<and>
     set bs \<inter> log_area st (length bs) = {} \<and> at32 (d st) 0 = 0 \<and> v st = d st"

lemma txnD:
  assumes "txn st bs v d"
  shows "unat st + length bs < 2 ^ 32" "length bs \<le> LOGSIZE" "length bs < 2 ^ 31"
    "set bs \<inter> log_area st (length bs) = {}" "at32 (d st) 0 = 0" "v st = d st"
    "st \<in> log_area st (length bs)" "st \<notin> set bs"
  using assms log_area_facts(1) [of st "length bs"] by (auto simp: txn_def LOGSIZE_def)

text \<open>The three stages at which a crash can find the disk: before the header is written, after
  it, after it is cleared again.\<close>

lemma crash_before:
  assumes t: "txn st bs v d" and k: "k \<le> length bs"
  defines "c \<equiv> writes (take k (commit_writes st v bs)) d"
  shows "c st = d st" "x \<notin> log_area st (length bs) \<Longrightarrow> c x = d x"
proof -
  have c: "c = writes (take k (log_writes st v bs)) d"
    using k unfolding c_def by (subst take_commit_writes) simp
  note sub = log_writes_facts(1) [OF txnD(1,4) [OF t]]
  show "c st = d st" unfolding c by (rule writes_sub [OF sub]) simp
  show "x \<notin> log_area st (length bs) \<Longrightarrow> c x = d x" unfolding c by (rule writes_sub [OF sub]) simp
qed

lemma crash_middle:
  assumes t: "txn st bs v d" and k: "length bs < k" "k \<le> 2 * length bs + 1"
  defines "c \<equiv> writes (take k (commit_writes st v bs)) d"
  shows "c st = enc_head (v st) bs" "home_writes st c bs = map (\<lambda>b. (b, v b)) bs"
    "x \<notin> log_area st (length bs) \<Longrightarrow> x \<notin> set bs \<Longrightarrow> c x = d x"
proof -
  note t' = txnD [OF t]
  note lw = log_writes_facts [OF t'(1,4)] and ar = log_area_facts [OF t'(1)]
  let ?p = "take (k - length bs - 1) bs"
  have c: "c x = (if x \<in> set ?p then v x else if x = st then enc_head (v st) bs
      else writes (log_writes st v bs) d x)" for x
    using k unfolding c_def by (subst take_commit_writes) (simp add: writes_map_self)
  have p: "set ?p \<subseteq> set bs" by (rule set_take_subset)
  show "c st = enc_head (v st) bs" using c p t'(8) by auto
  have "c (logloc st i) = v (bs ! i)" if "i < length bs" for i
    using c [of "logloc st i"] p t'(4) lw(2) [OF that] ar(2,3) [OF that] by auto
  then show "home_writes st c bs = map (\<lambda>b. (b, v b)) bs"
    using t' by (intro home_writes_logged) auto
  show "c x = d x" if "x \<notin> log_area st (length bs)" "x \<notin> set bs"
    using that c [of x] p lw(3) [of x] t'(7) by auto
qed

lemma crash_after:
  assumes t: "txn st bs v d"
  defines "c \<equiv> writes (commit_writes st v bs) d"
  shows "c st = enc_head (enc_head (v st) bs) []"
    "x \<notin> log_area st (length bs) \<Longrightarrow> c x = (if x \<in> set bs then v x else d x)"
proof -
  note t' = txnD [OF t]
  note lw = log_writes_facts(3) [OF t'(1,4)]
  show "c st = enc_head (enc_head (v st) bs) []" unfolding c_def commit_writes_def by simp
  show "x \<notin> log_area st (length bs) \<Longrightarrow> c x = (if x \<in> set bs then v x else d x)"
    using t'(7) lw unfolding c_def commit_writes_def by (auto simp: writes_map_self)
qed

text \<open>In all three, the header names no block or the blocks of the transaction.\<close>

lemma crash_head:
  assumes t: "txn st bs v d" and k: "k \<le> 2 * length bs + 2"
  defines "c \<equiv> writes (take k (commit_writes st v bs)) d"
  shows "at32 (c st) 0 = of_nat (length (head_blocks (c st)))"
    "head_blocks (c st) = (if length bs < k \<and> k \<le> 2 * length bs + 1 then bs else [])"
proof -
  consider "k \<le> length bs" | "length bs < k" "k \<le> 2 * length bs + 1" | "k = 2 * length bs + 2"
    using k by linarith
  then have "at32 (c st) 0 = of_nat (length (head_blocks (c st))) \<and>
    head_blocks (c st) = (if length bs < k \<and> k \<le> 2 * length bs + 1 then bs else [])"
  proof cases
    case 1
    then show ?thesis
      using crash_before(1) [OF t 1] txnD(5) [OF t] by (simp add: c_def head_blocks_0)
  next
    case 2
    then show ?thesis
      using crash_middle(1) [OF t 2] txnD(3) [OF t] by (simp add: c_def head_blocks_enc enc_head_n)
  next
    case 3
    then have "c = writes (commit_writes st v bs) d"
      unfolding c_def by (simp add: length_commit_writes)
    with 3 show ?thesis using crash_after(1) [OF t] by (simp add: head_blocks_enc enc_head_n)
  qed
  then show "at32 (c st) 0 = of_nat (length (head_blocks (c st)))"
    "head_blocks (c st) = (if length bs < k \<and> k \<le> 2 * length bs + 1 then bs else [])" by auto
qed

lemma crash_replay:
  assumes t: "txn st bs v d" and k: "k \<le> 2 * length bs + 2"
    and x: "x \<notin> log_area st (length bs)" "x \<in> set bs \<or> v x = d x"
  defines "c \<equiv> writes (take k (commit_writes st v bs)) d"
  shows "replay st c x = (if k \<le> length bs then d x else v x)"
proof -
  have xs: "x \<noteq> st" using x(1) txnD(7) [OF t] by auto
  note h = crash_head(2) [OF t k, folded c_def]
  consider "k \<le> length bs" | "length bs < k" "k \<le> 2 * length bs + 1" | "k = 2 * length bs + 2"
    using k by linarith
  then show ?thesis
  proof cases
    case 1
    then show ?thesis
      using crash_before(2) [OF t 1 x(1)] h xs unfolding replay_def c_def
      by (simp add: home_writes_def)
  next
    case 2
    then show ?thesis
      using crash_middle(2) [OF t 2] crash_middle(3) [OF t 2 x(1)] h xs x(2) unfolding replay_def c_def
      by (simp add: writes_map_self) auto
  next
    case 3
    then have "c = writes (commit_writes st v bs) d"
      unfolding c_def by (simp add: length_commit_writes)
    with 3 show ?thesis
      using crash_after(2) [OF t x(1)] h xs x(2) unfolding replay_def
      by (simp add: home_writes_def) auto
  qed
qed

section \<open>Recovery as the code runs it\<close>

lemma recover_law:
  assumes r: "head_ready s" and clean: "dirtyb s = {}" "hblocks s = {}"
    and n: "at32 (memdisk s (lg_start s)) 0 = of_nat (length bs)" "length bs \<le> LOGSIZE"
      "bs = head_blocks (memdisk s (lg_start s))"
    and bs: "unat (lg_start s) + length bs < unat (disksize s)" "distinct bs"
      "\<And>b. b \<in> set bs \<Longrightarrow> b < disksize s \<and> b \<notin> log_area (lg_start s) (length bs)"
  shows "wp (recover_from_log s) (\<lambda>_ t. bio_inv t \<and> lgframe s t \<and> lh_n t = 0 \<and>
    memdisk t = replay (lg_start s) (memdisk s) \<and> cview t = memdisk t \<and> dirtyb t = {} \<and> hblocks t = {})"
proof -
  let ?st = "lg_start s"
  note s = r [unfolded head_ready_def]
  have v: "cview s = memdisk s" using s clean bc.view_disk [of s] by (simp add: fun_eq_iff)
  have N: "sint (at32 (cview s ?st) 0) = int (length bs)"
    using n(1,2) by (simp add: v sint_of_nat32 LOGSIZE_def)
  show ?thesis
    unfolding recover_from_log_def
  proof (rule wp_rbindI [OF read_head_law [OF r]])
    show "sint (at32 (cview s ?st) 0) \<le> int LOGSIZE" using N n by simp
    fix t assume "bio_inv t \<and> lgframe s t \<and> cview t = cview s \<and> memdisk t = memdisk s \<and>
      wtrace t = wtrace s \<and> dirtyb t = dirtyb s \<and> hblocks t = hblocks s \<and>
      lh_n t = sint (at32 (cview s ?st) 0) \<and> logged t = head_blocks (cview s ?st) \<and>
      length (lh_block t) = LOGSIZE"
    then have t: "bio_inv t" "lgframe s t" "cview t = memdisk s" "memdisk t = memdisk s" "dirtyb t = {}"
      "hblocks t = {}" "lh_n t = int (length bs)" "logged t = bs" "length (lh_block t) = LOGSIZE"
      "lg_start t = ?st" "disksize t = disksize s" "lg_dev t = 1"
      using clean v N n s by (auto simp: lgframe_def)
    then have ok: "log_ok t"
      using bs n(2) s by (auto simp: log_ok_def head_ready_def NBUF_def)
    have "card (dirtyb t \<union> hblocks t) + 1 < NBUF" using t by (simp add: NBUF_def)
    from clear_log [OF ok disjI2 [OF this]]
    show "wp (rbind (install_trans t) (\<lambda>_ s. write_head (s\<lparr>lh_n := 0\<rparr>)))
      (\<lambda>_ t. bio_inv t \<and> lgframe s t \<and> lh_n t = 0 \<and> memdisk t = replay ?st (memdisk s) \<and>
        cview t = memdisk t \<and> dirtyb t = {} \<and> hblocks t = {})"
      using t n(3) lgframe_trans [OF t(2)] by (elim wp_mono) (auto simp: replay_def)
  qed
qed

lemma lg_more:
  fixes s t :: "'z logsys_scheme"
  assumes "bio.more t = bio.more s"
  shows "lh_block t = lh_block s"
  using assms by (cases s; cases t) simp

lemma lg_upd_boot [simp]:
  "bio_inv (s\<lparr>lg_start := a, lg_size := b, lg_dev := c\<rparr>) = bio_inv s"
  "dirtyb (s\<lparr>lg_start := a, lg_size := b, lg_dev := c\<rparr>) = dirtyb s"
  "hblocks (s\<lparr>lg_start := a, lg_size := b, lg_dev := c\<rparr>) = hblocks s"
  by (simp_all add: bio_inv_def binv_def lru_def bufok_def buniq_def nx_def pv_def kready_def cpu_ok_def
      lfree_def me_def me_opt_def dirtyb_def hblocks_def cached_def)

lemma initlock_cache [simp]:
  "bio_inv s \<Longrightarrow> bio_inv (initlock l nm s)"
  "dirtyb (initlock l nm s) = dirtyb s" "hblocks (initlock l nm s) = hblocks s"
  "cview (initlock l nm s) = cview s" "memdisk (initlock l nm s) = memdisk s"
  "disksize (initlock l nm s) = disksize s"
  by (simp_all add: initlock_def bio_inv_def binv_def lru_def bufok_def buniq_def nx_def pv_def
      kready_def cpu_ok_def lfree_def me_def me_opt_def dirtyb_def hblocks_def cached_def cview_def fun_eq_iff
      cong: option.case_cong)

lemma lh_initlock: "lh_block (initlock l nm s) = lh_block s"
  by (simp add: initlock_def)

text \<open>\<open>initlog\<close> finds the log through the super block, block 1.\<close>

lemma initlog_law:
  fixes s :: "'z logsys_scheme"
  assumes s: "bio_inv s" "dirtyb s = {}" "hblocks s = {}" "length (lh_block s) = LOGSIZE"
    and d: "1 < disksize s" "at32 (memdisk s 1) 16 = st"
    and n: "at32 (memdisk s st) 0 = of_nat (length bs)" "length bs \<le> LOGSIZE"
      "bs = head_blocks (memdisk s st)"
    and bs: "unat st + length bs < unat (disksize s)" "distinct bs"
      "\<And>b. b \<in> set bs \<Longrightarrow> b < disksize s \<and> b \<notin> log_area st (length bs)"
  shows "wp (initlog 1 s) (\<lambda>_ t. bio_inv t \<and> lg_start t = st \<and> lg_dev t = 1 \<and> lh_n t = 0 \<and>
    memdisk t = replay st (memdisk s) \<and> cview t = memdisk t \<and> dirtyb t = {} \<and> hblocks t = {})"
proof -
  let ?s = "initlock LLog ''log'' s"
  let ?sb = "\<lambda>d. \<lparr>sb_size = at32 d 0, sb_nblocks = at32 d 4, sb_ninodes = at32 d 8,
    sb_nlog = at32 d 12, sb_logstart = at32 d 16, sb_inodestart = at32 d 20, sb_bmapstart = at32 d 24\<rparr>"
  have v: "cview s = memdisk s" using s bc.view_disk [of s] by (simp add: fun_eq_iff)
  have "wp (readsb 1 ?s) (\<lambda>x t. x = ?sb (cview ?s 1) \<and>
      bc.left ?s (cview ?s) (memdisk ?s) (wtrace ?s) (dirtyb ?s) (hblocks ?s) t)"
    unfolding readsb_def using s d bc.read_only [of ?s 1 ?sb] by (simp add: NBUF_def Let_def)
  then have "wp (rbind (readsb 1 ?s) (\<lambda>sb s.
      recover_from_log (s\<lparr>lg_start := sb_logstart sb, lg_size := sint (sb_nlog sb), lg_dev := 1\<rparr>)))
    (\<lambda>_ t. bio_inv t \<and> lg_start t = st \<and> lg_dev t = 1 \<and> lh_n t = 0 \<and>
      memdisk t = replay st (memdisk s) \<and> cview t = memdisk t \<and> dirtyb t = {} \<and> hblocks t = {})"
  proof (rule wp_rbindI, elim conjE)
    fix sb t
    assume sb: "sb = ?sb (cview ?s 1)"
      and l: "bc.left ?s (cview ?s) (memdisk ?s) (wtrace ?s) (dirtyb ?s) (hblocks ?s) t"
    have t: "bio_inv t" "memdisk t = memdisk s" "dirtyb t = {}" "hblocks t = {}"
      "disksize t = disksize s" "length (lh_block t) = LOGSIZE"
      using l s lg_frame(7) [of ?s t] by (auto simp: bc.left_def bframe_def lh_initlock)
    let ?t = "t\<lparr>lg_start := sb_logstart sb, lg_size := sint (sb_nlog sb), lg_dev := 1\<rparr>"
    have st: "sb_logstart sb = st" using sb d v by simp
    have "st < disksize s" using bs(1) by (simp add: word_less_nat_alt)
    then have "head_ready ?t" using t s st by (simp add: head_ready_def NBUF_def)
    then have "wp (recover_from_log ?t) (\<lambda>_ u. bio_inv u \<and> lgframe ?t u \<and> lh_n u = 0 \<and>
      memdisk u = replay (lg_start ?t) (memdisk ?t) \<and> cview u = memdisk u \<and> dirtyb u = {} \<and> hblocks u = {})"
      using t n bs st by (intro recover_law [of _ bs]) auto
    then show "wp (recover_from_log ?t) (\<lambda>_ t. bio_inv t \<and> lg_start t = st \<and> lg_dev t = 1 \<and> lh_n t = 0 \<and>
      memdisk t = replay st (memdisk s) \<and> cview t = memdisk t \<and> dirtyb t = {} \<and> hblocks t = {})"
      using t st by (elim wp_mono) (auto simp: lgframe_def)
  qed
  then show ?thesis by (simp add: initlog_def BSIZE_def LOGSIZE_def)
qed

section \<open>A crash at any point of a commit\<close>

text \<open>The machine at boot: static memory is zero (no buffer in use), one process runs, and the
  disk is what the crash left.\<close>

definition booted :: "(u32 \<Rightarrow> block) \<Rightarrow> u32 \<Rightarrow> 'z logsys_scheme \<Rightarrow> bool" where
  "booted d dsz r \<longleftrightarrow> memdisk r = d \<and> disksize r = dsz \<and> kready r \<and> length (lh_block r) = LOGSIZE \<and>
     (\<forall>i<NBUF. b_flags (bufs r i) = 0 \<and> b_dev (bufs r i) = 0 \<and> b_refcnt (bufs r i) = 0)"

text \<open>The log between transactions, and the blocks of the one about to be committed.\<close>

definition ready_to_commit :: "'z logsys_scheme \<Rightarrow> bool" where
  "ready_to_commit s \<longleftrightarrow> log_ok s \<and> 0 < lh_n s \<and> set (logged s) = dirtyb s \<and>
     at32 (memdisk s (lg_start s)) 0 = 0 \<and> at32 (memdisk s 1) 16 = lg_start s \<and> 1 < disksize s \<and>
     1 \<notin> log_area (lg_start s) (nat (lh_n s)) \<and> 1 \<notin> dirtyb s"

lemma length_writes:
  assumes "\<And>n. length (d n) = k" "\<And>n b. (n, b) \<in> set ws \<Longrightarrow> length b = k"
  shows "length (writes ws d n) = k"
  using assms
proof (induction ws arbitrary: d)
  case (Cons w ws)
  obtain m b where w: "w = (m, b)" by (cases w)
  have "length b = k" using Cons.prems(2) [of m b] w by simp
  then have "length (writes ws (d(m := b)) n) = k" using Cons by (intro Cons.IH) auto
  then show ?case by (simp add: w)
qed simp

lemma length_commit_blocks:
  assumes inv: "bio_inv s" and "length bs \<le> LOGSIZE" "(n, b) \<in> set (commit_writes st (cview s) bs)"
  shows "length b = BSIZE"
  using assms bc.view_size [OF inv]
  by (auto simp: commit_writes_def log_writes_def length_enc_head)

lemma ready_txn:
  assumes "ready_to_commit s"
  shows "txn (lg_start s) (logged s) (cview s) (memdisk s)"
proof -
  have ok: "log_ok s" using assms by (simp add: ready_to_commit_def)
  note o = log_okD [OF ok]
  have "lg_start s \<in> log_area (lg_start s) (nat (lh_n s))" using log_area_facts(1) [OF o(8)] .
  then have "cview s (lg_start s) = memdisk s (lg_start s)"
    using o(2,15) bc.view_disk by blast
  then show ?thesis
    using assms o(5,6,8) by (auto simp: txn_def ready_to_commit_def log_ok_def)
qed

text \<open>Recovery on the disk that a crash after \<open>k\<close> of the writes leaves.\<close>

lemma recovery_after_crash:
  fixes s :: "'z logsys_scheme" and r :: "'y logsys_scheme"
  assumes s: "ready_to_commit s" and k: "k \<le> 2 * length (logged s) + 2"
    and x: "x \<notin> log_area (lg_start s) (length (logged s))" "x \<notin> hblocks s"
    and r: "booted (writes (take k (commit_writes (lg_start s) (cview s) (logged s))) (memdisk s)) (disksize s) r"
  shows "wp (initlog 1 (binit r))
    (\<lambda>_ t. memdisk t x = (if k \<le> length (logged s) then memdisk s x else cview s x) \<and>
       bio_inv t \<and> cview t = memdisk t \<and> dirtyb t = {} \<and> lh_n t = 0)"
proof -
  let ?st = "lg_start s" and ?bs = "logged s"
  let ?ws = "commit_writes ?st (cview s) ?bs"
  let ?c = "writes (take k ?ws) (memdisk s)"
  note t = ready_txn [OF s]
  have ok: "log_ok s" and one: "1 \<notin> log_area ?st (length ?bs)" "1 \<notin> set ?bs" "1 < disksize s"
    "at32 (memdisk s 1) 16 = ?st"
    using s log_okD(5) [of s] by (auto simp: ready_to_commit_def)
  note o = log_okD [OF ok]
  have len: "length (?c n) = BSIZE" for n
    using o(2,5,6) length_commit_blocks [OF o(2), of ?bs]
    by (intro length_writes) (auto simp: bio_inv_def binv_def dest: in_set_takeD)
  have b: "bio_inv (binit r)" "dirtyb (binit r) = {}" "hblocks (binit r) = {}" "memdisk (binit r) = ?c"
    "disksize (binit r) = disksize s" "length (lh_block (binit r)) = LOGSIZE"
    using binit_inv [of r] r len binit_frame [of r] lg_more [of "binit r" r] by (simp_all add: booted_def)
  have "fst ` set ?ws \<subseteq> log_area ?st (length ?bs) \<union> set ?bs"
    using log_writes_facts(1) [OF txnD(1,4) [OF t], of "cview s"] txnD(7) [OF t]
    by (auto simp: commit_writes_def)
  from writes_sub [OF this, of 1] one have c1: "?c 1 = memdisk s 1" by auto
  note h = crash_head [OF t k]
  have hb: "head_blocks (?c ?st) = ?bs \<or> head_blocks (?c ?st) = []" using h(2) by auto
  have "wp (initlog 1 (binit r)) (\<lambda>_ t. bio_inv t \<and> lg_start t = ?st \<and> lg_dev t = 1 \<and> lh_n t = 0 \<and>
    memdisk t = replay ?st (memdisk (binit r)) \<and> cview t = memdisk t \<and> dirtyb t = {} \<and> hblocks t = {})"
    using b one c1 h o(5,6,7) hb ok
    by (intro initlog_law [of _ ?st "head_blocks (?c ?st)"]) (auto simp: log_ok_def log_area_def)
  moreover have "x \<in> set ?bs \<or> cview s x = memdisk s x"
    using bc.view_disk [OF o(2), of x] x(2) s by (auto simp: ready_to_commit_def)
  ultimately show ?thesis
    using crash_replay [OF t k x(1)] b(4) by (auto elim: wp_mono)
qed

end
