(* ===== verification/Demo.thy ===== *)
theory Demo
  imports Log_Crash
begin

text \<open>Concrete machine states, used to show that the hypotheses of the theorems can be met: one
  CPU running process 0, all locks free, a small disk image with a super block.\<close>

definition demo_tf :: trapframe where
  "demo_tf = \<lparr>tf_edi = 0, tf_esi = 0, tf_ebp = 0, tf_ebx = 0, tf_edx = 0, tf_ecx = 0, tf_eax = 0,
     tf_gs = 0, tf_fs = 0, tf_es = 0, tf_ds = 0, tf_trapno = 0, tf_err = 0, tf_eip = 0, tf_cs = 0,
     tf_eflags = 0, tf_esp = 0, tf_ss = 0\<rparr>"

definition demo_proc :: "nat \<Rightarrow> proc" where
  "demo_proc i = \<lparr>sz = 4096, pgdir = 0, kstack = 0, state = (if i = 0 then RUNNING else UNUSED),
     pid = (if i = 0 then 1 else 0), parent = None, tf = demo_tf, chan = None, killed = False,
     ofile = (\<lambda>_. None), cwd = None, name = ''init''\<rparr>"

definition demo_kern :: "'z \<Rightarrow> 'z kern_scheme" where
  "demo_kern m = \<lparr>cpus = (\<lambda>_. \<lparr>apicid = 0, ncli = 0, intena = True, cproc = Some 0\<rparr>), ncpu = 1,
     lapicid = 0, iflag = True, locks = (\<lambda>_. \<lparr>locked = 0, lkname = [], lkcpu = None\<rparr>),
     slocks = (\<lambda>_. \<lparr>slocked = False, slname = [], spid = 0\<rparr>), procs = demo_proc,
     nextpid = 2, initproc = Some 0, \<dots> = m\<rparr>"

lemma me_demo [simp]: "me_opt (demo_kern m) = Some 0" "me (demo_kern m) = 0"
  by (simp_all add: me_def me_opt_def demo_kern_def)

lemma kready_demo [simp]: "kready (demo_kern m)"
  by (simp add: kready_def cpu_ok_def lfree_def) (simp add: demo_kern_def)

definition zero_block :: block where
  "zero_block = replicate BSIZE 0"

definition demo_disk :: "u32 \<Rightarrow> block" where
  "demo_disk n = (if n = 1 then overwrite zero_block 0
       (le32 1000 @ le32 941 @ le32 200 @ le32 30 @ le32 2 @ le32 32 @ le32 58)
     else zero_block)"

definition demo_bio :: "(u32 \<Rightarrow> block) \<Rightarrow> 'z \<Rightarrow> 'z bio_scheme" where
  "demo_bio d m = demo_kern \<lparr>mem = (\<lambda>_. 0), use_lock = True, freelist = 0, kend = 0x80110000, kdata = 0x80108000, kpgdir = 0, cr3 = 0, esp0 = 0, bufs = (\<lambda>_. \<lparr>b_flags = 0, b_dev = 0, b_blockno = 0, b_refcnt = 0,
     b_prev = 0, b_next = 0, b_data = zero_block\<rparr>), memdisk = d, disksize = 1000, wtrace = [], \<dots> = m\<rparr>"

lemma length_demo_disk [simp]: "length (demo_disk n) = BSIZE" "length zero_block = BSIZE"
  by (simp_all add: demo_disk_def zero_block_def BSIZE_def)

lemma demo_bio_facts:
  assumes d: "\<And>n. length (d n) = BSIZE"
  shows "bio_inv (binit (demo_bio d m))" "cview (binit (demo_bio d m)) = d"
    "dirtyb (binit (demo_bio d m)) = {}" "hblocks (binit (demo_bio d m)) = {}"
    "memdisk (binit (demo_bio d m)) = d" "disksize (binit (demo_bio d m)) = 1000"
    "bio.more (binit (demo_bio d m)) = m"
proof -
  have "kready (demo_bio d m)" by (simp add: demo_bio_def)
  then have "bio_inv (binit (demo_bio d m)) \<and> lru (binit (demo_bio d m)) (rev [0..<NBUF]) \<and>
    cview (binit (demo_bio d m)) = memdisk (demo_bio d m) \<and>
    dirtyb (binit (demo_bio d m)) = {} \<and> hblocks (binit (demo_bio d m)) = {}"
    using d by (intro binit_inv) (simp_all add: demo_bio_def demo_kern_def)
  then show "bio_inv (binit (demo_bio d m))" "cview (binit (demo_bio d m)) = d"
    "dirtyb (binit (demo_bio d m)) = {}" "hblocks (binit (demo_bio d m)) = {}"
    "memdisk (binit (demo_bio d m)) = d" "disksize (binit (demo_bio d m)) = 1000"
    "bio.more (binit (demo_bio d m)) = m"
    by (simp_all add: demo_bio_def demo_kern_def binit_frame)
qed

lemma at32_zero [simp]: "at32 zero_block 0 = 0"
proof -
  have "zero_block = [0, 0, 0, 0] @ replicate 508 0"
    by (simp add: zero_block_def BSIZE_def flip: replicate_add [of 4 508 "0 :: byte"])
       (simp add: numeral_eq_Suc flip: replicate_append_same)
  then show ?thesis unfolding at32_def by (metis drop0 append_Cons get32.simps(1) or.right_neutral
      push_bit_of_0 unsigned_0)
qed

lemma demo_disk_sb: "at32 (demo_disk 1) 16 = 2" "at32 (demo_disk 2) 0 = 0" "demo_disk 60 = zero_block"
  by (simp_all add: demo_disk_def) (simp add: at32_def overwrite_def)

section \<open>A transaction of one block\<close>

definition demo_txn :: logsys where
  "demo_txn = set_buf 0 (\<lambda>b. b\<lparr>b_dev := 1, b_blockno := 60, b_flags := 6, b_data := replicate BSIZE 7\<rparr>)
     (binit (demo_bio demo_disk \<lparr>lg_start = 2, lg_size = 30, outstanding = 0, committing = True, lg_dev = 1,
        lh_n = 1, lh_block = 60 # replicate 29 0\<rparr>))"

lemma lg_of_more:
  fixes s t :: "'z logsys_scheme"
  assumes "bio.more t = bio.more s"
  shows "lg_start t = lg_start s" "lg_size t = lg_size s" "outstanding t = outstanding s"
    "committing t = committing s" "lg_dev t = lg_dev s" "lh_n t = lh_n s" "lh_block t = lh_block s"
    "logsys.more t = logsys.more s"
  using assms by (cases s; cases t; simp)+

lemma demo_txn_facts:
  "bio_inv demo_txn" "dirtyb demo_txn = {60}" "hblocks demo_txn = {}"
  "cview demo_txn = demo_disk(60 := replicate BSIZE 7)" "memdisk demo_txn = demo_disk"
  "disksize demo_txn = 1000" "lg_start demo_txn = 2" "lh_n demo_txn = 1" "lg_dev demo_txn = 1"
  "lh_block demo_txn = 60 # replicate 29 0"
proof -
  let ?m = "\<lparr>lg_start = 2, lg_size = 30, outstanding = 0, committing = True, lg_dev = 1,
        lh_n = 1, lh_block = 60 # replicate 29 0\<rparr>"
  let ?s = "binit (demo_bio demo_disk ?m) :: logsys"
  note f = demo_bio_facts [of demo_disk ?m, simplified]
  have inv: "binv ?s" and k: "kready ?s" using f(1) by (simp_all add: bio_inv_def)
  have b: "bcore (bufs ?s j) = (0, 0, 0, 0, zero_block)" for j
    unfolding binit_bufs by (simp add: demo_bio_def demo_kern_def bcore_def)
  then have nc: "\<not> cached ?s j n" for j n by (simp add: cached_def bcore_def)
  have sl: "\<not> slocked (slocks ?s (SBuf 0))" by (rule binit_bufs) (simp add: NBUF_def)
  have "\<exists>xs. lru ?s xs" using inv by (simp add: binv_def)
  then have "\<exists>xs. lru demo_txn xs" unfolding demo_txn_def by (simp add: lru_set_buf)
  then have st: "bstep 0 ?s demo_txn"
    using inv nc f(5,6) b [of 0] sl
    by (auto simp: bstep_def demo_txn_def frame_simps bufok_def Let_def NBUF_def bcore_def)
  show "cview demo_txn = demo_disk(60 := replicate BSIZE 7)"
    using bstep_cview [OF st inv] nc f(2) by (simp add: demo_txn_def frame_simps)
  show "dirtyb demo_txn = {60}" "hblocks demo_txn = {}"
    unfolding bstep_sets [OF st inv] f(3,4) using nc sl by (simp_all add: demo_txn_def frame_simps)
  have "kctx demo_txn = kctx ?s" using st by (simp add: bstep_def)
  from kctx_kready [OF this] k show "bio_inv demo_txn"
    using bstep_binv [OF st inv] by (simp add: bio_inv_def)
  show "memdisk demo_txn = demo_disk" "disksize demo_txn = 1000"
    using f by (simp_all add: demo_txn_def frame_simps)
  have "bio.more demo_txn = bio.more (demo_bio demo_disk ?m)"
    using f(7) by (simp add: demo_txn_def frame_simps demo_bio_def demo_kern_def)
  from lg_of_more [OF this]
  show "lg_start demo_txn = 2" "lh_n demo_txn = 1" "lg_dev demo_txn = 1"
    "lh_block demo_txn = 60 # replicate 29 0"
    by (simp_all add: demo_bio_def demo_kern_def)
qed

lemma demo_txn_size: "lg_size demo_txn = 30"
proof -
  let ?m = "\<lparr>lg_start = 2, lg_size = 30, outstanding = 0, committing = True, lg_dev = 1,
        lh_n = 1, lh_block = 60 # replicate 29 0\<rparr>"
  have "bio.more demo_txn = bio.more (demo_bio demo_disk ?m)"
    using demo_bio_facts(7) [of demo_disk ?m] by (simp add: demo_txn_def frame_simps demo_bio_def demo_kern_def)
  from lg_of_more(2) [OF this] show ?thesis by (simp add: demo_bio_def demo_kern_def)
qed

lemma demo_ready: "ready_to_commit demo_txn"
proof -
  have l: "logged demo_txn = [60]" by (simp add: logged_def demo_txn_facts)
  have "60 \<notin> log_area 2 1" "1 \<notin> log_area 2 1" by (simp_all add: log_area_def)
  then show ?thesis
    using demo_disk_sb
    by (simp add: ready_to_commit_def log_ok_def head_ready_def l demo_txn_facts LOGSIZE_def NBUF_def)
qed

end
