(* ===== verification/Lock_Props.thy ===== *)
theory Lock_Props
  imports Demo
begin

text \<open>The properties of the locks and of sleep and wakeup.\<close>

text \<open>C2: Mutual exclusion of spin locks on any number of CPUs. In every state that interleaved
  executions of \<open>acquire\<close> and \<open>release\<close> reach, at most one CPU is between a successful
  \<open>xchg\<close> and the store that frees the lock, the lock word is set exactly while there is such a
  CPU, the \<open>cpu\<close> field names a CPU in its critical section, and no CPU has panicked.\<close>

theorem spinlock_mutex:
  assumes "lock_reach m"
  shows "(\<forall>i j. owning (m_pc m i) \<and> owning (m_pc m j) \<longrightarrow> i = j) \<and>
    (m_locked m \<noteq> 0 \<longleftrightarrow> (\<exists>i. owning (m_pc m i))) \<and>
    (\<forall>i. m_pc m i = Crit \<longrightarrow> m_cpu m = Some i) \<and> (\<forall>i. m_pc m i \<noteq> Dead)"
  using lock_reach_inv [OF assms] unfolding lockm_inv_def by (metis recorded.simps(1))

text \<open>CPU 0 has the lock and CPU 1 spins.\<close>

definition demo_lockm :: lockm where
  "demo_lockm = \<lparr>m_locked = 1, m_cpu = Some 0, m_pc = (\<lambda>_. Out)(0 := Crit, 1 := Trying)\<rparr>"

lemma demo_lockm_reach: "lock_reach demo_lockm"
proof -
  let ?m = "\<lambda>a b l c. \<lparr>m_locked = l, m_cpu = c, m_pc = (\<lambda>_. Out)(0 := a, Suc 0 := b)\<rparr>"
  have "lock_reach (?m Out Out 0 None)" using lock_reach.init by (simp add: lockm_init_def fun_upd_idem)
  then have "lock_reach (?m Pushed Out 0 None)"
    using lock_step.push [of "?m Out Out 0 None" 0] lock_reach.step by (fastforce simp: goto_def fun_upd_twist)
  then have "lock_reach (?m Trying Out 0 None)"
    using lock_step.check [of "?m Pushed Out 0 None" 0] lock_reach.step by (fastforce simp: goto_def fun_upd_twist)
  then have "lock_reach (?m Got Out 1 None)"
    using lock_step.xchg [of "?m Trying Out 0 None" 0] lock_reach.step by (fastforce simp: goto_def fun_upd_twist)
  then have "lock_reach (?m Crit Out 1 (Some 0))"
    using lock_step.set_cpu [of "?m Got Out 1 None" 0] lock_reach.step by (fastforce simp: goto_def fun_upd_twist)
  then have "lock_reach (?m Crit Pushed 1 (Some 0))"
    using lock_step.push [of "?m Crit Out 1 (Some 0)" 1] lock_reach.step by (fastforce simp: goto_def fun_upd_twist)
  then have "lock_reach (?m Crit Saw 1 (Some 0))"
    using lock_step.check [of "?m Crit Pushed 1 (Some 0)" 1] lock_reach.step by (fastforce simp: goto_def fun_upd_twist)
  then have "lock_reach (?m Crit Trying 1 (Some 0))"
    using lock_step.check_cpu [of "?m Crit Saw 1 (Some 0)" 1] lock_reach.step by (fastforce simp: goto_def fun_upd_twist)
  then show ?thesis by (simp add: demo_lockm_def)
qed

theorem spinlock_mutex_witness:
  "lock_reach demo_lockm \<and> m_pc demo_lockm 1 = Trying \<and> m_cpu demo_lockm = Some 0 \<and>
   \<not> owning (m_pc demo_lockm 1)"
proof -
  note t = spinlock_mutex [OF demo_lockm_reach]
  have "m_pc demo_lockm 0 = Crit" "m_pc demo_lockm 1 = Trying" by (simp_all add: demo_lockm_def)
  moreover from this have "m_cpu demo_lockm = Some 0" "\<not> owning (m_pc demo_lockm 1)"
    using t by (metis owning.simps(2) zero_neq_one)+
  ultimately show ?thesis using demo_lockm_reach by simp
qed

text \<open>C3: On one CPU, \<open>acquire\<close> of a free lock returns with interrupts off and the lock recorded as
  held; a second \<open>acquire\<close> of it panics instead of deadlocking; \<open>release\<close> restores the state
  before the \<open>acquire\<close> exactly, including the interrupt flag and the nesting depth; and a
  \<open>release\<close> of a lock that the CPU does not hold panics.\<close>

theorem acquire_release:
  assumes "cpu_ok s" "lfree l s"
  shows "\<exists>t. acquire l s = Ret () t \<and> \<not> iflag t \<and> locked (locks t l) = 1 \<and>
    lkcpu (locks t l) = Some (me s) \<and> acquire l t = Panic ''acquire'' \<and> release l t = Ret () s \<and>
    release l s = Panic ''release''"
proof (intro exI [of _ "held l s"] conjI)
  show "release l s = Panic ''release''"
    using assms by (intro release_not_held) (simp_all add: lfree_def)
  show "locked (locks (held l s) l) = 1" "lkcpu (locks (held l s) l) = Some (me s)"
    by (simp_all add: held_def)
qed (use assms in \<open>simp_all add: acquire_free acquire_again release_held\<close>)

theorem acquire_release_witness:
  "\<exists>t. acquire LLog (demo_kern ()) = Ret () t \<and> release LLog t = Ret () (demo_kern ())"
proof -
  have "cpu_ok (demo_kern ())" "lfree LLog (demo_kern ())"
    using kready_demo [of "()"] by (simp_all add: kready_def)
  from acquire_release [OF this] show ?thesis by blast
qed

section \<open>Sleep and wakeup interleaved\<close>

text \<open>
  Any number of threads use \<open>sleep\<close> and \<open>wakeup\<close> on a channel \<open>c\<close> the way the kernel does: a consumer takes the lock
  \<open>lk\<close>, sleeps in a loop until there is an item, takes it and releases the lock; a producer takes the lock, puts an
  item, calls \<open>wakeup\<close> and releases the lock. The points of the code are \<open>wpc\<close>: \<open>S_\<close> inside \<open>sleep\<close>, \<open>W_\<close> inside
  \<open>wakeup\<close>, \<open>C_\<close> and \<open>P_\<close> in the callers. One step is one operation \<open>op_of\<close> of one thread, or of the scheduler.
\<close>

datatype wop = Acq lockid | Rel lockid | Set_chan "chan option" | Set_state procstate | Swtch | Wake chan nat | Test | Take | Put | Skip

datatype wpc =
  Idle | C_acq | C_test | C_take | C_rel
| S_acq | S_rel | S_chan | S_state | S_swtch | S_back | S_relpt | S_relk
| P_acq | P_put | W_acq | W_scan nat | W_rel | P_rel

fun op_of :: "chan \<Rightarrow> lockid \<Rightarrow> wpc \<Rightarrow> wop" where
  "op_of c lk Idle = Skip"
| "op_of c lk C_acq = Acq lk"
| "op_of c lk C_test = Test"
| "op_of c lk C_take = Take"
| "op_of c lk C_rel = Rel lk"
| "op_of c lk S_acq = Acq LPtable"
| "op_of c lk S_rel = Rel lk"
| "op_of c lk S_chan = Set_chan (Some c)"
| "op_of c lk S_state = Set_state SLEEPING"
| "op_of c lk S_swtch = Swtch"
| "op_of c lk S_back = Set_chan None"
| "op_of c lk S_relpt = Rel LPtable"
| "op_of c lk S_relk = Acq lk"
| "op_of c lk P_acq = Acq lk"
| "op_of c lk P_put = Put"
| "op_of c lk W_acq = Acq LPtable"
| "op_of c lk (W_scan k) = Wake c k"
| "op_of c lk W_rel = Rel LPtable"
| "op_of c lk P_rel = Rel lk"

text \<open>The next point; after the test of the loop it depends on the outcome.\<close>

fun next_pc :: "wpc \<Rightarrow> wpc" where
  "next_pc Idle = Idle"
| "next_pc C_acq = C_test"
| "next_pc C_test = C_take"
| "next_pc C_take = C_rel"
| "next_pc C_rel = Idle"
| "next_pc S_acq = S_rel"
| "next_pc S_rel = S_chan"
| "next_pc S_chan = S_state"
| "next_pc S_state = S_swtch"
| "next_pc S_swtch = S_back"
| "next_pc S_back = S_relpt"
| "next_pc S_relpt = S_relk"
| "next_pc S_relk = C_test"
| "next_pc P_acq = P_put"
| "next_pc P_put = W_acq"
| "next_pc W_acq = W_scan 0"
| "next_pc (W_scan k) = (if Suc k < NPROC then W_scan (Suc k) else W_rel)"
| "next_pc W_rel = P_rel"
| "next_pc P_rel = Idle"

text \<open>What an operation of process \<open>i\<close> does to the process table.\<close>

fun op_procs :: "nat \<Rightarrow> wop \<Rightarrow> (nat \<Rightarrow> proc) \<Rightarrow> nat \<Rightarrow> proc" where
  "op_procs i (Set_chan c) ps = ps(i := (ps i)\<lparr>chan := c\<rparr>)"
| "op_procs i (Set_state x) ps = ps(i := (ps i)\<lparr>state := x\<rparr>)"
| "op_procs i (Wake c j) ps = (if state (ps j) = SLEEPING \<and> chan (ps j) = Some c then ps(j := (ps j)\<lparr>state := RUNNABLE\<rparr>) else ps)"
| "op_procs i _ ps = ps"

text \<open>The same operations on the state of the kernel, and \<open>n\<close> of them from a point on: this is how the points of the
  interleaved code are tied to the functions of proc.c.\<close>

fun op_kern :: "nat \<Rightarrow> wop \<Rightarrow> 'z kern_scheme \<Rightarrow> (unit, 'z kern_scheme) outcome" where
  "op_kern i (Acq l) s = acquire l s"
| "op_kern i (Rel l) s = release l s"
| "op_kern i Swtch s = sched s"
| "op_kern i x s = Ret () (s\<lparr>procs := op_procs i x (procs s)\<rparr>)"

fun run_code :: "nat \<Rightarrow> chan \<Rightarrow> lockid \<Rightarrow> nat \<Rightarrow> wpc \<Rightarrow> 'z kern_scheme \<Rightarrow> (unit, 'z kern_scheme) outcome" where
  "run_code i c lk 0 pc s = Ret () s"
| "run_code i c lk (Suc n) pc s = rbind (op_kern i (op_of c lk pc) s) (\<lambda>_ s. run_code i c lk n (next_pc pc) s)"

lemma run_code_none [simp]: "rbind r (\<lambda>_. run_code i c lk 0 pc) = r"
  by (cases r) simp_all

lemma sleep_code:
  assumes "lk \<noteq> LPtable"
  shows "sleep (Some c) (Some lk) s = rbind (myproc s) (\<lambda>p s. case p of None \<Rightarrow> Panic ''sleep'' | Some p \<Rightarrow> run_code p c lk 5 S_acq s)"
    "sleep_resume p lk saved s = rbind (sched_resume saved s) (\<lambda>_ s. run_code p c lk 3 S_back s)"
  using assms
  by (auto simp: sleep_def sleep_resume_def numeral_eq_Suc rbind_assoc set_proc_def intro!: arg_cong2 [where f = rbind] ext split: option.splits)

lemma wakeup1_scan: "wakeup1 (Some c) s = s\<lparr>procs := fold (\<lambda>k. op_procs i (Wake c k)) [0..<NPROC] (procs s)\<rparr>"
proof -
  have "fold (\<lambda>i s. if state (procs s i) = SLEEPING \<and> chan (procs s i) = Some c
      then set_proc i (state_update (\<lambda>_. RUNNABLE)) s else s) is s = s\<lparr>procs := fold (\<lambda>k. op_procs i (Wake c k)) is (procs s)\<rparr>" for "is"
    by (induction "is" arbitrary: s) (auto simp: set_proc_def)
  then show ?thesis by (simp add: wakeup1_def)
qed

lemma scan_code:
  "k < NPROC \<Longrightarrow> run_code i c lk (Suc (NPROC - k)) (W_scan k) s =
    release LPtable (s\<lparr>procs := fold (\<lambda>k. op_procs i (Wake c k)) [k..<NPROC] (procs s)\<rparr>)"
proof (induction "NPROC - k" arbitrary: k s)
  case (Suc n)
  let ?s = "s\<lparr>procs := op_procs i (Wake c k) (procs s)\<rparr>"
  have one: "run_code i c lk (Suc (NPROC - k)) (W_scan k) s = run_code i c lk (NPROC - k) (next_pc (W_scan k)) ?s"
    by (simp only: run_code.simps(2) op_of.simps op_kern.simps rbind_simps)
  have up: "[k..<NPROC] = k # [Suc k..<NPROC]" using Suc.prems by (rule upt_conv_Cons)
  show ?case
  proof (cases "Suc k < NPROC")
    case True
    then have "NPROC - k = Suc (NPROC - Suc k)" "n = NPROC - Suc k" using Suc.hyps(2) by simp_all
    then have "run_code i c lk (NPROC - k) (W_scan (Suc k)) ?s =
      release LPtable (?s\<lparr>procs := fold (\<lambda>k. op_procs i (Wake c k)) [Suc k..<NPROC] (procs ?s)\<rparr>)"
      using Suc.hyps(1) [of "Suc k" ?s] True by metis
    then show ?thesis using True unfolding one up by simp
  next
    case False
    then have n: "NPROC = Suc k" using Suc.prems by simp
    then have "NPROC - k = Suc 0" "next_pc (W_scan k) = W_rel" by simp_all
    then have "run_code i c lk (NPROC - k) (next_pc (W_scan k)) ?s = release LPtable ?s" by (simp del: op_procs.simps)
    then show ?thesis unfolding one up using n by simp
  qed
qed simp

lemma wakeup_code: "wakeup (Some c) s = run_code i c lk (NPROC + 2) W_acq s"
proof -
  have "(0 :: nat) < NPROC" by (simp add: NPROC_def)
  note sc = scan_code [OF this]
  have "run_code i c lk (NPROC + 2) W_acq s = rbind (acquire LPtable s) (\<lambda>_ s. run_code i c lk (Suc (NPROC - 0)) (W_scan 0) s)"
    unfolding add_2_eq_Suc' diff_zero run_code.simps(2) [of i c lk "Suc NPROC" W_acq s] op_of.simps op_kern.simps next_pc.simps ..
  then show ?thesis unfolding sc by (simp add: wakeup_def wakeup1_scan [of c _ i])
qed

text \<open>The machine: who owns each spin lock (a thread, or the scheduler of some CPU), the process table, which threads
  have given up their CPU in \<open>swtch\<close>, where each thread is, and the number of items.\<close>

datatype holder = Thread nat | Scheduler

record wmachine =
  w_own :: "lockid \<Rightarrow> holder option"
  w_procs :: "nat \<Rightarrow> proc"
  w_away :: "nat \<Rightarrow> bool"
  w_pc :: "nat \<Rightarrow> wpc"
  w_items :: nat

definition at_pc :: "nat \<Rightarrow> wpc \<Rightarrow> wmachine \<Rightarrow> wmachine" where
  "at_pc i pc m = m\<lparr>w_pc := (w_pc m)(i := pc)\<rparr>"

definition set_own :: "lockid \<Rightarrow> holder option \<Rightarrow> wmachine \<Rightarrow> wmachine" where
  "set_own l h m = m\<lparr>w_own := (w_own m)(l := h)\<rparr>"

text \<open>A thread moves unless it is away. \<open>swtch\<close> hands the lock of the process table to the scheduler; a scheduler takes
  that lock, hands it to a runnable process, or releases it. \<open>kill\<close> may make any sleeper runnable.\<close>

inductive wstep :: "chan \<Rightarrow> lockid \<Rightarrow> wmachine \<Rightarrow> wmachine \<Rightarrow> bool" for c lk where
  start: "w_pc m i = Idle \<Longrightarrow> i < NPROC \<Longrightarrow> pc \<in> {C_acq, P_acq} \<Longrightarrow> wstep c lk m (at_pc i pc m)"
| acq: "op_of c lk (w_pc m i) = Acq l \<Longrightarrow> \<not> w_away m i \<Longrightarrow> w_own m l = None \<Longrightarrow>
    wstep c lk m (at_pc i (next_pc (w_pc m i)) (set_own l (Some (Thread i)) m))"
| rel: "op_of c lk (w_pc m i) = Rel l \<Longrightarrow> \<not> w_away m i \<Longrightarrow> w_own m l = Some (Thread i) \<Longrightarrow>
    wstep c lk m (at_pc i (next_pc (w_pc m i)) (set_own l None m))"
| proc_op: "op_of c lk (w_pc m i) \<in> range Set_chan \<union> range Set_state \<union> range (Wake c) \<Longrightarrow> \<not> w_away m i \<Longrightarrow>
    wstep c lk m (at_pc i (next_pc (w_pc m i)) (m\<lparr>w_procs := op_procs i (op_of c lk (w_pc m i)) (w_procs m)\<rparr>))"
| test: "op_of c lk (w_pc m i) = Test \<Longrightarrow> \<not> w_away m i \<Longrightarrow>
    wstep c lk m (at_pc i (if w_items m \<noteq> 0 then next_pc (w_pc m i) else S_acq) m)"
| take: "op_of c lk (w_pc m i) = Take \<Longrightarrow> \<not> w_away m i \<Longrightarrow>
    wstep c lk m (at_pc i (next_pc (w_pc m i)) (m\<lparr>w_items := w_items m - 1\<rparr>))"
| put: "op_of c lk (w_pc m i) = Put \<Longrightarrow> \<not> w_away m i \<Longrightarrow>
    wstep c lk m (at_pc i (next_pc (w_pc m i)) (m\<lparr>w_items := w_items m + 1\<rparr>))"
| swtch: "op_of c lk (w_pc m i) = Swtch \<Longrightarrow> \<not> w_away m i \<Longrightarrow> w_own m LPtable = Some (Thread i) \<Longrightarrow>
    wstep c lk m (at_pc i (next_pc (w_pc m i)) (set_own LPtable (Some Scheduler) (m\<lparr>w_away := (w_away m)(i := True)\<rparr>)))"
| sched_acq: "w_own m LPtable = None \<Longrightarrow> wstep c lk m (set_own LPtable (Some Scheduler) m)"
| sched_rel: "w_own m LPtable = Some Scheduler \<Longrightarrow> wstep c lk m (set_own LPtable None m)"
| dispatch: "w_own m LPtable = Some Scheduler \<Longrightarrow> w_away m i \<Longrightarrow> state (w_procs m i) = RUNNABLE \<Longrightarrow>
    wstep c lk m (set_own LPtable (Some (Thread i))
      (m\<lparr>w_away := (w_away m)(i := False), w_procs := op_procs i (Set_state RUNNING) (w_procs m)\<rparr>))"
| kill: "w_own m LPtable = None \<Longrightarrow> state (w_procs m i) = SLEEPING \<Longrightarrow>
    wstep c lk m (m\<lparr>w_procs := op_procs i (Set_state RUNNABLE) (w_procs m)\<rparr>)"

inductive wreach :: "chan \<Rightarrow> lockid \<Rightarrow> wmachine \<Rightarrow> bool" for c lk where
  init: "(\<forall>i. state (ps i) \<noteq> SLEEPING) \<Longrightarrow>
    wreach c lk \<lparr>w_own = (\<lambda>_. None), w_procs = ps, w_away = (\<lambda>_. False), w_pc = (\<lambda>_. Idle), w_items = n\<rparr>"
| step: "wreach c lk m \<Longrightarrow> wstep c lk m m' \<Longrightarrow> wreach c lk m'"

text \<open>The points at which a thread owns the lock, and the lock of the process table; those at which the call of
  \<open>wakeup\<close> is still to reach process \<open>i\<close>; and those at which a thread is about to sleep.\<close>

fun has_lk :: "wpc \<Rightarrow> bool" where
  "has_lk (W_scan k) = True"
| "has_lk pc = (pc \<in> {C_test, C_take, C_rel, S_acq, S_rel, P_put, W_acq, W_rel, P_rel})"

fun has_pt :: "wpc \<Rightarrow> bool" where
  "has_pt (W_scan k) = True"
| "has_pt pc = (pc \<in> {S_rel, S_chan, S_state, S_swtch, S_back, S_relpt, W_rel})"

fun to_wake :: "wpc \<Rightarrow> nat \<Rightarrow> bool" where
  "to_wake W_acq i = True"
| "to_wake (W_scan k) i = (k \<le> i)"
| "to_wake _ i = False"

definition sleepy :: "wmachine \<Rightarrow> nat \<Rightarrow> bool" where
  "sleepy m i \<longleftrightarrow> w_pc m i \<in> {S_chan, S_state, S_swtch} \<or> state (w_procs m i) = SLEEPING"

definition own_ok :: "lockid \<Rightarrow> wmachine \<Rightarrow> nat \<Rightarrow> bool" where
  "own_ok lk m i \<longleftrightarrow> (w_own m lk = Some (Thread i) \<longleftrightarrow> has_lk (w_pc m i)) \<and>
     (w_own m LPtable = Some (Thread i) \<longleftrightarrow> has_pt (w_pc m i) \<and> \<not> w_away m i) \<and> (w_away m i \<longrightarrow> w_pc m i = S_back)"

definition sleep_ok :: "chan \<Rightarrow> wmachine \<Rightarrow> nat \<Rightarrow> bool" where
  "sleep_ok c m i \<longleftrightarrow> (state (w_procs m i) = SLEEPING \<longrightarrow> w_pc m i = S_swtch \<or> w_away m i) \<and>
     (w_pc m i \<in> {S_state, S_swtch} \<or> state (w_procs m i) = SLEEPING \<longrightarrow> chan (w_procs m i) = Some c) \<and>
     (w_pc m i \<noteq> Idle \<longrightarrow> i < NPROC) \<and> (\<forall>k. w_pc m i = W_scan k \<longrightarrow> k < NPROC)"

definition wake_ok :: "wmachine \<Rightarrow> nat \<Rightarrow> bool" where
  "wake_ok m i \<longleftrightarrow> (w_pc m i \<in> {S_acq, S_rel} \<longrightarrow> w_items m = 0) \<and>
     (sleepy m i \<and> w_items m \<noteq> 0 \<longrightarrow> (\<exists>j. to_wake (w_pc m j) i))"

lemma to_wake_has: "to_wake pc i \<Longrightarrow> has_lk pc"
  by (cases pc) simp_all

lemma op_cases:
  "op_of c lk pc = Acq l \<longleftrightarrow> (l = lk \<and> pc \<in> {C_acq, S_relk, P_acq}) \<or> (l = LPtable \<and> pc \<in> {S_acq, W_acq})"
  "op_of c lk pc = Rel l \<longleftrightarrow> (l = lk \<and> pc \<in> {C_rel, S_rel, P_rel}) \<or> (l = LPtable \<and> pc \<in> {S_relpt, W_rel})"
  "op_of c lk pc = Swtch \<longleftrightarrow> pc = S_swtch" "op_of c lk pc = Test \<longleftrightarrow> pc = C_test"
  "op_of c lk pc = Take \<longleftrightarrow> pc = C_take" "op_of c lk pc = Put \<longleftrightarrow> pc = P_put"
  by (cases pc; auto)+

lemma proc_op_cases:
  "op_of c lk pc \<in> range Set_chan \<union> range Set_state \<union> range (Wake c) \<longleftrightarrow>
     pc \<in> {S_chan, S_state, S_back} \<or> (\<exists>k. pc = W_scan k)"
  by (cases pc) auto

lemmas machine_defs = at_pc_def set_own_def

lemma owners_step:
  assumes "wstep c lk m m'" "\<forall>i. own_ok lk m i" "lk \<noteq> LPtable"
  shows "own_ok lk m' j"
  using assms
proof (induction rule: wstep.induct)
  case (start m i pc)
  show ?case using start(1-3) spec [OF start(4), of j] by (cases "j = i") (auto simp: own_ok_def machine_defs)
next
  case (proc_op m i)
  show ?case using proc_op(1) [unfolded proc_op_cases] proc_op(2) spec [OF proc_op(3), of j]
    by (cases "j = i") (auto simp: own_ok_def machine_defs)
next
  case (acq m i l)
  show ?case using acq(1) [unfolded op_cases] acq(2,3,5) spec [OF acq(4), of j]
    by (cases "j = i") (elim disjE conjE; auto simp: own_ok_def machine_defs)+
next
  case (rel m i l)
  show ?case using rel(1) [unfolded op_cases] rel(2,3,5) spec [OF rel(4), of j]
    by (cases "j = i") (elim disjE conjE; auto simp: own_ok_def machine_defs)+
next
  case (swtch m i)
  show ?case using swtch(1) [unfolded op_cases] swtch(2,3,5) spec [OF swtch(4), of j]
    by (cases "j = i") (auto simp: own_ok_def machine_defs)
next
  case (dispatch m i)
  show ?case using dispatch(1,2,3,5) spec [OF dispatch(4), of j]
    by (cases "j = i") (auto simp: own_ok_def machine_defs)
next
  case (test m i)
  show ?case using test(1) [unfolded op_cases] test(2) spec [OF test(3), of j]
    by (cases "j = i") (auto simp: own_ok_def machine_defs)
next
  case (take m i)
  show ?case using take(1) [unfolded op_cases] take(2) spec [OF take(3), of j]
    by (cases "j = i") (auto simp: own_ok_def machine_defs)
next
  case (put m i)
  show ?case using put(1) [unfolded op_cases] put(2) spec [OF put(3), of j]
    by (cases "j = i") (auto simp: own_ok_def machine_defs)
next
  case (sched_acq m)
  show ?case using sched_acq(1,3) spec [OF sched_acq(2), of j] by (auto simp: own_ok_def machine_defs)
next
  case (sched_rel m)
  show ?case using sched_rel(1,3) spec [OF sched_rel(2), of j] by (auto simp: own_ok_def machine_defs)
next
  case (kill m i)
  show ?case using spec [OF kill(3), of j] by (simp add: own_ok_def)
qed

lemma procs_other: "op_procs i (Set_chan x) ps j = (if j = i then (ps i)\<lparr>chan := x\<rparr> else ps j)"
  "op_procs i (Set_state y) ps j = (if j = i then (ps i)\<lparr>state := y\<rparr> else ps j)"
  "op_procs i (Wake c k) ps j = (if j = k \<and> state (ps k) = SLEEPING \<and> chan (ps k) = Some c then (ps k)\<lparr>state := RUNNABLE\<rparr> else ps j)"
  by auto

lemma sleepers_step:
  assumes "wstep c lk m m'" "\<forall>i. own_ok lk m i" "\<forall>i. sleep_ok c m i" "lk \<noteq> LPtable"
  shows "sleep_ok c m' j"
  using assms
proof (induction rule: wstep.induct)
  case (start m i pc)
  show ?case using start(1-3) spec [OF start(4), of i] spec [OF start(5), of j]
    by (cases "j = i") (auto simp: own_ok_def sleep_ok_def machine_defs)
next
  case (proc_op m i)
  show ?case using proc_op(1) [unfolded proc_op_cases] proc_op(2) spec [OF proc_op(4), of j]
    by (cases "j = i") (elim disjE exE; auto simp: sleep_ok_def machine_defs procs_other simp del: op_procs.simps)+
next
  case (acq m i l)
  show ?case using acq(1) [unfolded op_cases] acq(2,3,6) spec [OF acq(5), of j]
    by (cases "j = i") (elim disjE conjE; auto simp: sleep_ok_def machine_defs NPROC_def)+
next
  case (rel m i l)
  show ?case using rel(1) [unfolded op_cases] rel(2,3,6) spec [OF rel(5), of j]
    by (cases "j = i") (elim disjE conjE; auto simp: sleep_ok_def machine_defs)+
next
  case (swtch m i)
  show ?case using swtch(1) [unfolded op_cases] swtch(2,3,6) spec [OF swtch(5), of j]
    by (cases "j = i") (auto simp: sleep_ok_def machine_defs)
next
  case (dispatch m i)
  show ?case using dispatch(1,2,3,6) spec [OF dispatch(4), of j] spec [OF dispatch(5), of j]
    by (cases "j = i") (auto simp: own_ok_def sleep_ok_def machine_defs)
next
  case (test m i)
  show ?case using test(1) [unfolded op_cases] test(2) spec [OF test(4), of j]
    by (cases "j = i") (auto simp: sleep_ok_def machine_defs)
next
  case (take m i)
  show ?case using take(1) [unfolded op_cases] take(2) spec [OF take(4), of j]
    by (cases "j = i") (auto simp: sleep_ok_def machine_defs)
next
  case (put m i)
  show ?case using put(1) [unfolded op_cases] put(2) spec [OF put(4), of j]
    by (cases "j = i") (auto simp: sleep_ok_def machine_defs)
next
  case (kill m i)
  show ?case using spec [OF kill(4), of j] by (cases "j = i") (auto simp: sleep_ok_def)
next
  case (sched_acq m)
  show ?case using spec [OF sched_acq(3), of j] by (simp add: sleep_ok_def machine_defs)
next
  case (sched_rel m)
  show ?case using spec [OF sched_rel(3), of j] by (simp add: sleep_ok_def machine_defs)
qed

text \<open>A step of thread \<open>i\<close> that makes nobody sleepy and reaches nobody's wakeup out of order.\<close>

lemma wakes_move:
  assumes "\<forall>j. wake_ok m j" "pc \<in> {S_acq, S_rel} \<longrightarrow> w_items m = 0" "w_pc m' = w_pc m" "w_items m' = w_items m"
    "\<forall>j. sleepy (at_pc i pc m') j \<and> w_items m \<noteq> 0 \<longrightarrow> sleepy m j \<and> (to_wake (w_pc m i) j \<longrightarrow> to_wake pc j)"
  shows "wake_ok (at_pc i pc m') j"
proof -
  have e: "w_pc (at_pc i pc m') x = (if x = i then pc else w_pc m x)" "w_items (at_pc i pc m') = w_items m" for x
    using assms(3,4) by (simp_all add: at_pc_def)
  show ?thesis
    unfolding wake_ok_def e(2)
  proof (intro conjI impI)
    show "w_items m = 0" if "w_pc (at_pc i pc m') j \<in> {S_acq, S_rel}"
      using that assms(2) spec [OF assms(1), of j] unfolding e(1) wake_ok_def by (cases "j = i") simp_all
    show "\<exists>x. to_wake (w_pc (at_pc i pc m') x) j" if s: "sleepy (at_pc i pc m') j \<and> w_items m \<noteq> 0"
    proof -
      have t: "sleepy m j" "to_wake (w_pc m i) j \<longrightarrow> to_wake pc j" using assms(5) s by blast+
      then obtain x where "to_wake (w_pc m x) j" using spec [OF assms(1), of j] s by (auto simp: wake_ok_def)
      then show ?thesis using t(2) unfolding e(1) by (intro exI [of _ x]) auto
    qed
  qed
qed

lemma owner_unique:
  assumes "\<forall>i. own_ok lk m i" "has_lk (w_pc m i)" "has_lk (w_pc m j)"
  shows "i = j"
  using spec [OF assms(1), of i] spec [OF assms(1), of j] assms(2,3) by (simp add: own_ok_def)

lemma pt_unique:
  assumes "\<forall>i. own_ok lk m i" "has_pt (w_pc m i)" "has_pt (w_pc m j)" "\<not> w_away m i" "\<not> w_away m j"
  shows "i = j"
  using spec [OF assms(1), of i] spec [OF assms(1), of j] assms(2-5) by (simp add: own_ok_def)

lemma scanned_not_sleepy:
  assumes "\<forall>i. own_ok lk m i" "\<forall>i. sleep_ok c m i" "w_pc m i = W_scan k" "\<not> w_away m i"
  shows "\<not> sleepy (at_pc i pc (m\<lparr>w_procs := op_procs i (Wake c k) (w_procs m)\<rparr>)) k \<or> pc \<in> {S_chan, S_state, S_swtch}"
proof -
  have "w_pc m k \<notin> {S_chan, S_state, S_swtch}"
  proof
    assume a: "w_pc m k \<in> {S_chan, S_state, S_swtch}"
    then have "\<not> w_away m k" using spec [OF assms(1), of k] by (auto simp: own_ok_def)
    then have "i = k" using pt_unique [OF assms(1), of i k] a assms(3,4) by auto
    then show False using a assms(3) by simp
  qed
  then show ?thesis
    using spec [OF assms(2), of k] assms(3) by (auto simp: sleepy_def sleep_ok_def at_pc_def)
qed

lemma sleepy_bound: "\<forall>i. sleep_ok c m i \<Longrightarrow> \<forall>i. own_ok lk m i \<Longrightarrow> sleepy m j \<Longrightarrow> j < NPROC"
  by (drule spec [of _ j], drule spec [of _ j]) (auto simp: sleepy_def sleep_ok_def own_ok_def)

lemma sleepy_at:
  "sleepy (at_pc i pc m') j \<longleftrightarrow> (if j = i then pc else w_pc m' j) \<in> {S_chan, S_state, S_swtch} \<or> state (w_procs m' j) = SLEEPING"
  by (simp add: sleepy_def at_pc_def)

lemma wakes_simple:
  assumes "\<forall>j. wake_ok m j" "w_pc m' = w_pc m" "w_items m' = w_items m" "\<forall>j. state (w_procs m' j) = SLEEPING \<longrightarrow> sleepy m j"
    "pc \<in> {S_acq, S_rel} \<longrightarrow> w_items m = 0" "pc \<in> {S_chan, S_state, S_swtch} \<longrightarrow> sleepy m i \<or> w_items m = 0"
    "\<forall>j. to_wake (w_pc m i) j \<longrightarrow> to_wake pc j"
  shows "wake_ok (at_pc i pc m') j"
proof (rule wakes_move [OF assms(1,5,2,3)], intro allI impI)
  fix j assume a: "sleepy (at_pc i pc m') j \<and> w_items m \<noteq> 0"
  have "sleepy m j"
  proof (cases "state (w_procs m' j) = SLEEPING")
    case False
    then have "(if j = i then pc else w_pc m j) \<in> {S_chan, S_state, S_swtch}" using a assms(2) by (cases "j = i") (simp_all add: sleepy_at False)
    then show ?thesis using a assms(6) by (cases "j = i") (simp_all add: sleepy_def)
  qed (use assms(4) in blast)
  then show "sleepy m j \<and> (to_wake (w_pc m i) j \<longrightarrow> to_wake pc j)" using assms(7) by blast
qed

lemma asleep_sleepy: "\<forall>j. state (w_procs m j) = SLEEPING \<longrightarrow> sleepy m j"
  by (simp add: sleepy_def)

lemma wakes_step:
  assumes "wstep c lk m m'" "\<forall>i. own_ok lk m i" "\<forall>i. sleep_ok c m i" "\<forall>i. wake_ok m i" "lk \<noteq> LPtable"
  shows "wake_ok m' j"
  using assms
proof (induction rule: wstep.induct)
  case (start m i pc)
  show ?case by (rule wakes_simple [OF start(6)]) (use start(1,3) asleep_sleepy [of m] in \<open>elim insertE; simp\<close>)+
next
  case (acq m i l)
  have a: "w_pc m i \<in> {C_acq, S_relk, P_acq, S_acq, W_acq}" using acq(1) [unfolded op_cases] by blast
  show ?case
    by (rule wakes_simple [OF acq(6)])
      (use a spec [OF acq(6), of i] asleep_sleepy [of m] in \<open>elim insertE; simp add: set_own_def wake_ok_def\<close>)+
next
  case (rel m i l)
  have a: "w_pc m i \<in> {C_rel, S_rel, P_rel, S_relpt, W_rel}" using rel(1) [unfolded op_cases] by blast
  show ?case
    by (rule wakes_simple [OF rel(6)])
      (use a spec [OF rel(6), of i] asleep_sleepy [of m] in \<open>elim insertE; simp add: set_own_def wake_ok_def\<close>)+
next
  case (test m i)
  show ?case by (rule wakes_simple [OF test(5)]) (use test(1) [unfolded op_cases] asleep_sleepy [of m] in simp_all)
next
  case (swtch m i)
  show ?case by (rule wakes_simple [OF swtch(6)]) (use swtch(1) [unfolded op_cases] asleep_sleepy [of m] in \<open>simp_all add: set_own_def\<close>)
next
  case (dispatch m i)
  show ?case using spec [OF dispatch(6), of j] by (auto simp: wake_ok_def sleepy_def machine_defs)
next
  case (kill m i)
  show ?case using spec [OF kill(5), of j] by (auto simp: wake_ok_def sleepy_def)
next
  case (take m i)
  have i: "w_pc m i = C_take" using take(1) [unfolded op_cases] .
  have "x \<noteq> i" if "to_wake (w_pc m x) j" for x using that i by auto
  then show ?case using spec [OF take(5), of j] i by (auto simp: wake_ok_def sleepy_def at_pc_def)
next
  case (put m i)
  have i: "w_pc m i = P_put" using put(1) [unfolded op_cases] .
  have "w_pc m j \<notin> {S_acq, S_rel}" if "j \<noteq> i" for j using owner_unique [OF put(3), of i j] i that by auto
  then show ?case using i by (auto simp: wake_ok_def at_pc_def)
next
  case (sched_acq m)
  show ?case using spec [OF sched_acq(4), of j] by (simp add: wake_ok_def sleepy_def machine_defs)
next
  case (sched_rel m)
  show ?case using spec [OF sched_rel(4), of j] by (simp add: wake_ok_def sleepy_def machine_defs)
next
  case (proc_op m i)
  show ?case
  proof (cases "\<exists>k. w_pc m i = W_scan k")
    case False
    then have "w_pc m i \<in> {S_chan, S_state, S_back}" using proc_op(1) [unfolded proc_op_cases] by blast
    then show ?thesis
      by (intro wakes_simple [OF proc_op(5)]) (elim insertE; simp add: procs_other sleepy_def del: op_procs.simps)+
  next
    case True
    then obtain k where k: "w_pc m i = W_scan k" by blast
    let ?m = "m\<lparr>w_procs := op_procs i (Wake c k) (w_procs m)\<rparr>" and ?pc = "next_pc (W_scan k)"
    have n: "\<not> sleepy (at_pc i ?pc ?m) k" using scanned_not_sleepy [OF proc_op(3,4) k proc_op(2), of ?pc] by auto
    have "sleepy m x \<and> (to_wake (w_pc m i) x \<longrightarrow> to_wake ?pc x)" if "sleepy (at_pc i ?pc ?m) x" for x
    proof -
      have "state (w_procs ?m x) = SLEEPING \<longrightarrow> state (w_procs m x) = SLEEPING" by simp
      then have s: "sleepy m x" using that unfolding sleepy_at by (cases "x = i") (auto simp: sleepy_def split: if_splits)
      have "x \<noteq> k" using n that by blast
      then show ?thesis using s sleepy_bound [OF proc_op(4,3) s] k by auto
    qed
    then show ?thesis unfolding k op_of.simps by (intro wakes_move [OF proc_op(5)]) (auto simp: k)
  qed
qed

lemma wreach_inv:
  assumes "wreach c lk m" "lk \<noteq> LPtable"
  shows "(\<forall>i. own_ok lk m i) \<and> (\<forall>i. sleep_ok c m i) \<and> (\<forall>i. wake_ok m i)"
  using assms
proof (induction rule: wreach.induct)
  case (init ps n)
  then show ?case by (simp add: own_ok_def sleep_ok_def wake_ok_def sleepy_def)
next
  case (step m m')
  then show ?case using owners_step [of c lk m m'] sleepers_step [of c lk m m'] wakes_step [of c lk m m'] by blast
qed

text \<open>C4: No lost wakeup, whatever the order in which the CPUs run. \<open>sleep\<close>, what it does after its \<open>swtch\<close>, and \<open>wakeup\<close>
  are exactly the operations of the machine from \<open>S_acq\<close>, \<open>S_back\<close> and \<open>W_acq\<close> on. In every state that any number of
  consumers and producers reach by interleaving these operations one at a time: if a process is asleep although there is
  an item, then some producer still holds the lock and its call of \<open>wakeup\<close> is still going to reach this process; so
  nobody sleeps when there is an item and the lock is free. Every release is by the owner of the lock, and a process
  that gives up its CPU owns the lock of the process table.\<close>

theorem sleep_wakeup:
  assumes "wreach c lk m" "lk \<noteq> LPtable"
  shows "sleep (Some c) (Some lk) s =
      rbind (myproc s) (\<lambda>p s. case p of None \<Rightarrow> Panic ''sleep'' | Some p \<Rightarrow> run_code p c lk 5 S_acq s) \<and>
    sleep_resume p lk saved s = rbind (sched_resume saved s) (\<lambda>_ s. run_code p c lk 3 S_back s) \<and>
    wakeup (Some c) s = run_code p c lk (NPROC + 2) W_acq s \<and>
    (\<forall>i. state (w_procs m i) = SLEEPING \<and> w_items m \<noteq> 0 \<longrightarrow>
       (\<exists>j. w_own m lk = Some (Thread j) \<and> to_wake (w_pc m j) i)) \<and>
    (w_own m lk = None \<and> w_items m \<noteq> 0 \<longrightarrow> (\<forall>i. state (w_procs m i) \<noteq> SLEEPING)) \<and>
    (\<forall>i l. op_of c lk (w_pc m i) = Rel l \<and> \<not> w_away m i \<longrightarrow> w_own m l = Some (Thread i)) \<and>
    (\<forall>i. op_of c lk (w_pc m i) = Swtch \<longrightarrow> w_own m LPtable = Some (Thread i))"
proof (intro conjI allI impI)
  note inv = wreach_inv [OF assms]
  have own: "own_ok lk m i" for i using inv by blast
  have awake: "\<exists>j. w_own m lk = Some (Thread j) \<and> to_wake (w_pc m j) i"
    if a: "state (w_procs m i) = SLEEPING \<and> w_items m \<noteq> 0" for i
  proof -
    have "wake_ok m i" using inv by blast
    then obtain j where j: "to_wake (w_pc m j) i" using a by (auto simp: wake_ok_def sleepy_def)
    then show ?thesis using to_wake_has own [of j] by (auto simp: own_ok_def)
  qed
  then show "\<exists>j. w_own m lk = Some (Thread j) \<and> to_wake (w_pc m j) i"
    if "state (w_procs m i) = SLEEPING \<and> w_items m \<noteq> 0" for i using that .
  show "state (w_procs m i) \<noteq> SLEEPING" if "w_own m lk = None \<and> w_items m \<noteq> 0" for i
    using awake [of i] that by auto
  show "w_own m l = Some (Thread i)" if "op_of c lk (w_pc m i) = Rel l \<and> \<not> w_away m i" for i l
    using own [of i] that unfolding op_cases own_ok_def by auto
  show "w_own m LPtable = Some (Thread i)" if "op_of c lk (w_pc m i) = Swtch" for i
    using own [of i] that unfolding op_cases own_ok_def by auto
qed (rule sleep_code(1) [OF assms(2)] sleep_code(2) [OF assms(2)] wakeup_code)+

text \<open>Process 0 has fallen asleep, process 1 has put an item and still holds the lock.\<close>

definition demo_wm :: "holder option \<Rightarrow> holder option \<Rightarrow> proc \<Rightarrow> bool \<Rightarrow> wpc \<Rightarrow> wpc \<Rightarrow> nat \<Rightarrow> wmachine" where
  "demo_wm o1 o2 q aw a b n = \<lparr>w_own = (\<lambda>_. None)(LPtable := o1, LLog := o2), w_procs = demo_proc(0 := q),
     w_away = (\<lambda>_. False)(0 := aw), w_pc = (\<lambda>_. Idle)(0 := a, 1 := b), w_items = n\<rparr>"

lemma demo_wm_reach:
  "wreach ChanLog LLog (demo_wm None (Some (Thread 1)) ((demo_proc 0)\<lparr>chan := Some ChanLog, state := SLEEPING\<rparr>) True S_back W_acq 1)"
proof -
  let ?r = "\<lambda>o1 o2 q aw a b n. wreach ChanLog LLog (demo_wm o1 o2 q aw a b n)"
  let ?p = "demo_proc 0" and ?q = "(demo_proc 0)\<lparr>chan := Some ChanLog\<rparr>" and ?z = "(demo_proc 0)\<lparr>chan := Some ChanLog, state := SLEEPING\<rparr>"
  note d = demo_wm_def machine_defs fun_upd_twist fun_upd_idem
  have "\<forall>i. state (demo_proc i) \<noteq> SLEEPING" by (simp add: demo_proc_def)
  from wreach.init [OF this, of ChanLog LLog 0] have "?r None None ?p False Idle Idle 0" by (simp add: d)
  from wreach.step [OF this wstep.start [of _ 0 C_acq]] have "?r None None ?p False C_acq Idle 0" by (simp add: d NPROC_def)
  from wreach.step [OF this wstep.acq [of _ _ _ 0 LLog]] have "?r None (Some (Thread 0)) ?p False C_test Idle 0" by (simp add: d)
  from wreach.step [OF this wstep.test [of _ _ _ 0]] have "?r None (Some (Thread 0)) ?p False S_acq Idle 0" by (simp add: d)
  from wreach.step [OF this wstep.acq [of _ _ _ 0 LPtable]] have "?r (Some (Thread 0)) (Some (Thread 0)) ?p False S_rel Idle 0" by (simp add: d)
  from wreach.step [OF this wstep.rel [of _ _ _ 0 LLog]] have "?r (Some (Thread 0)) None ?p False S_chan Idle 0" by (simp add: d)
  from wreach.step [OF this wstep.proc_op [of _ _ _ 0]] have "?r (Some (Thread 0)) None ?q False S_state Idle 0" by (simp add: d)
  from wreach.step [OF this wstep.proc_op [of _ _ _ 0]] have "?r (Some (Thread 0)) None ?z False S_swtch Idle 0" by (simp add: d)
  from wreach.step [OF this wstep.swtch [of _ _ _ 0]] have "?r (Some Scheduler) None ?z True S_back Idle 0" by (simp add: d)
  from wreach.step [OF this wstep.sched_rel] have "?r None None ?z True S_back Idle 0" by (simp add: d)
  from wreach.step [OF this wstep.start [of _ 1 P_acq]] have "?r None None ?z True S_back P_acq 0" by (simp add: d NPROC_def)
  from wreach.step [OF this wstep.acq [of _ _ _ 1 LLog]] have "?r None (Some (Thread 1)) ?z True S_back P_put 0" by (simp add: d)
  from wreach.step [OF this wstep.put [of _ _ _ 1]] show ?thesis by (simp add: d)
qed

theorem sleep_wakeup_witness:
  "\<exists>m. wreach ChanLog LLog m \<and> state (w_procs m 0) = SLEEPING \<and> w_items m \<noteq> 0 \<and>
    (\<exists>j. w_own m LLog = Some (Thread j) \<and> to_wake (w_pc m j) 0)"
proof -
  let ?m = "demo_wm None (Some (Thread 1)) ((demo_proc 0)\<lparr>chan := Some ChanLog, state := SLEEPING\<rparr>) True S_back W_acq 1"
  have m: "state (w_procs ?m 0) = SLEEPING \<and> w_items ?m \<noteq> 0" by (simp add: demo_wm_def)
  have "LLog \<noteq> LPtable" by simp
  from sleep_wakeup [OF demo_wm_reach this, THEN conjunct2, THEN conjunct2, THEN conjunct2, THEN conjunct1, rule_format, OF m]
  show ?thesis using demo_wm_reach m by blast
qed

end
