(* ===== verification/Log_Txn.thy ===== *)
theory Log_Txn
  imports Demo
begin

text \<open>Transactions: the reservation of log space by \<open>begin_op\<close>, \<open>log_write\<close> and \<open>end_op\<close>.\<close>

section \<open>What every returning call leaves of the fields above it\<close>

named_theorems more_dest

lemma lock_more [more_dest]:
  "mycpu s = Ret c t \<Longrightarrow> t = s"
  "pushcli s = Ret u t \<Longrightarrow> kern.more t = kern.more s"
  "popcli s = Ret u t \<Longrightarrow> kern.more t = kern.more s"
  by (auto simp: mycpu_def pushcli_def popcli_def Let_def rbind_eq_Ret split: if_splits option.splits)

lemma lock_more2 [more_dest]:
  "myproc s = Ret p t \<Longrightarrow> kern.more t = kern.more s"
  "holding l s = Ret b t \<Longrightarrow> kern.more t = kern.more s"
  by (auto simp: myproc_def holding_def Let_def rbind_eq_Ret dest!: more_dest)

lemma lock_more3 [more_dest]:
  "acquire l s = Ret u t \<Longrightarrow> kern.more t = kern.more s"
  "release l s = Ret u t \<Longrightarrow> kern.more t = kern.more s"
  by (auto simp: acquire_def release_def Let_def rbind_eq_Ret dest!: more_dest split: if_splits)

lemma sched_more [more_dest]:
  "wakeup c s = Ret u t \<Longrightarrow> kern.more t = kern.more s"
  "sched s \<noteq> Ret u t" "sleep ch lk s \<noteq> Ret u t"
  by (auto simp: wakeup_def wakeup1_eq sched_def sleep_def rbind_eq_Ret dest!: more_dest split: if_splits option.splits)

lemma sleeplock_more [more_dest]:
  "acquiresleep k s = Ret u t \<Longrightarrow> kern.more t = kern.more s"
  "releasesleep k s = Ret u t \<Longrightarrow> kern.more t = kern.more s"
  "holdingsleep k s = Ret b t \<Longrightarrow> kern.more t = kern.more s"
  by (auto simp: acquiresleep_def releasesleep_def holdingsleep_def Let_def rbind_eq_Ret set_slock_def sched_more
      dest!: more_dest(4-8) sched_more(1) split: if_splits option.splits)

lemma bio_of_more:
  fixes s t :: "'z bio_scheme"
  assumes "kern.more t = kern.more s"
  shows "bio.more t = bio.more s" "bufs t = bufs s"
  using assms by (cases s; cases t; simp)+

lemma more_set_buf: "bio.more (set_buf i f s) = bio.more s"
  by (simp add: set_buf_def)

lemma iderw_more: "iderw i s = Ret u t \<Longrightarrow> bio.more t = bio.more s"
  by (auto simp: iderw_def rbind_eq_Ret Let_def more_set_buf set_buf_def
      dest!: sleeplock_more(3) bio_of_more(1) split: if_splits)

lemma bget_more:
  assumes "bget d n s = Ret b t"
  shows "bio.more t = bio.more s"
proof -
  obtain s1 where s1: "acquire LBcache s = Ret () s1" using assms by (auto simp: bget_def rbind_eq_Ret)
  define hit where "hit = bfind (Suc NBUF) b_next (\<lambda>b. b_dev b = d \<and> b_blockno b = n) (bufs s1)
    (b_next (bufs s1 NBUF))"
  define old where "old = bfind (Suc NBUF) b_prev (\<lambda>b. b_refcnt b = 0 \<and> b_flags b AND B_DIRTY = 0)
    (bufs s1) (b_prev (bufs s1 NBUF))"
  have "\<exists>i f u. release LBcache (set_buf i f s1) = Ret () u \<and> acquiresleep (SBuf i) u = Ret () t"
    using assms s1 unfolding bget_def s1 rbind_simps hit_def [symmetric] old_def [symmetric]
    by (cases hit; cases "the hit"; cases old; cases "the old") (auto simp: rbind_eq_Ret Let_def)
  then have "bio.more t = bio.more s1"
    by (auto dest!: sleeplock_more(1) lock_more3(2) bio_of_more(1) simp: more_set_buf)
  then show ?thesis using bio_of_more(1) [OF lock_more3(1) [OF s1]] by simp
qed

lemma bread_more: "bread d n s = Ret b t \<Longrightarrow> bio.more t = bio.more s"
  by (auto simp: bread_def rbind_eq_Ret dest!: bget_more iderw_more split: if_splits)

lemma bwrite_more: "bwrite i s = Ret u t \<Longrightarrow> bio.more t = bio.more s"
  by (auto simp: bwrite_def rbind_eq_Ret more_set_buf dest!: iderw_more sleeplock_more(3) bio_of_more(1)
      split: if_splits)

lemma brelse_more: "brelse i s = Ret u t \<Longrightarrow> bio.more t = bio.more s"
  by (auto simp: brelse_def rbind_eq_Ret Let_def frame_simps dest!: sleeplock_more(2,3) lock_more3 bio_of_more(1)
      split: if_splits)

text \<open>The header in memory changes only where log.c assigns it.\<close>

lemma lh_of_more:
  fixes s t :: "'z logsys_scheme"
  assumes "bio.more t = bio.more s"
  shows "lh_n t = lh_n s" "outstanding t = outstanding s" "lg_size t = lg_size s" "committing t = committing s"
  using lg_of_more [OF assms] by simp_all

lemma lh_of_kern_more:
  fixes s t :: "'z logsys_scheme"
  assumes "kern.more t = kern.more s"
  shows "lh_n t = lh_n s" "outstanding t = outstanding s" "lg_size t = lg_size s" "committing t = committing s"
  using lh_of_more [OF bio_of_more(1) [OF assms]] by simp_all

definition same_lh :: "'z logsys_scheme \<Rightarrow> 'z logsys_scheme \<Rightarrow> bool" where
  "same_lh s t \<longleftrightarrow> lh_n t = lh_n s \<and> outstanding t = outstanding s \<and> lg_size t = lg_size s"

lemma same_lh_simps [simp]: "same_lh s s" "same_lh (set_buf i f s) t = same_lh s t" "same_lh s (set_buf i f t) = same_lh s t"
  by (simp_all add: same_lh_def set_buf_def)

lemma same_lh_trans: "same_lh s t \<Longrightarrow> same_lh t u \<Longrightarrow> same_lh s u"
  by (simp add: same_lh_def)

lemma same_lh_io [more_dest]:
  "bread d n s = Ret b t \<Longrightarrow> same_lh s t" "bwrite i s = Ret u t \<Longrightarrow> same_lh s t"
  "brelse i s = Ret u t \<Longrightarrow> same_lh s t" "lh_get k s = Ret w t \<Longrightarrow> t = s"
  by (auto simp: same_lh_def lh_get_def dest: bread_more bwrite_more brelse_more lh_of_more split: if_splits)

lemma rfor_rel:
  assumes "rfor is f s = Ret u t" "\<And>i s u t. f i s = Ret u t \<Longrightarrow> R s t" "\<And>s. R s s"
    "\<And>s t u. R s t \<Longrightarrow> R t u \<Longrightarrow> R s u"
  shows "R s t"
  using assms(1) by (induction "is" arbitrary: s) (auto simp: rbind_eq_Ret assms(3) intro: assms(2,4))

lemma same_lh_loops:
  "install_trans s = Ret u t \<Longrightarrow> same_lh s t" "write_log s = Ret u t \<Longrightarrow> same_lh s t"
  "write_head s = Ret u t \<Longrightarrow> same_lh s t"
proof -
  have i: "install_one k s = Ret u t \<Longrightarrow> same_lh s t" "write_log_one k s = Ret u t \<Longrightarrow> same_lh s t"
    "head_entry b k s = Ret u t \<Longrightarrow> same_lh s t" for k b u and s t :: "'a logsys_scheme"
    unfolding install_one_def write_log_one_def head_entry_def
    by (auto simp: rbind_eq_Ret dest!: same_lh_io) (simp_all add: same_lh_def)
  show "install_trans s = Ret u t \<Longrightarrow> same_lh s t" "write_log s = Ret u t \<Longrightarrow> same_lh s t"
    unfolding install_trans_def write_log_def
    by (elim rfor_rel [where R = same_lh], auto intro: i same_lh_trans)+
  show "same_lh s t" if w: "write_head s = Ret u t"
  proof -
    obtain b s1 s2 s3 d where b: "bread (lg_dev s) (lg_start s) s = Ret b s1"
      "rfor [0..<nat (lh_n (put_bdata b d s1))] (head_entry b) (put_bdata b d s1) = Ret () s2"
      "bwrite b s2 = Ret () s3" "brelse b s3 = Ret u t"
      using w by (auto simp: write_head_def rbind_eq_Ret Let_def)
    have "same_lh (put_bdata b d s1) s2"
      by (rule rfor_rel [OF b(2)]) (auto intro: i(3) same_lh_trans)
    then have "same_lh s1 s2" by simp
    with b show ?thesis by (auto dest!: same_lh_io) (auto simp: same_lh_def)
  qed
qed

lemma commit_lh: "commit s = Ret u t \<Longrightarrow> lh_n s \<ge> 0 \<Longrightarrow> lh_n t = 0 \<and> outstanding t = outstanding s \<and> lg_size t = lg_size s"
  by (auto simp: commit_def rbind_eq_Ret dest!: same_lh_loops split: if_splits) (auto simp: same_lh_def)

section \<open>The operations, run\<close>

lemma lg_held [lock_simps]:
  "lh_n (held l s) = lh_n s" "lh_block (held l s) = lh_block s" "outstanding (held l s) = outstanding s"
  "lg_size (held l s) = lg_size s" "committing (held l s) = committing s"
  "(held l s)\<lparr>lh_n := n\<rparr> = held l (s\<lparr>lh_n := n\<rparr>)" "(held l s)\<lparr>lh_block := bs\<rparr> = held l (s\<lparr>lh_block := bs\<rparr>)"
  "(held l s)\<lparr>outstanding := k\<rparr> = held l (s\<lparr>outstanding := k\<rparr>)"
  "cpu_ok (s\<lparr>lh_n := n\<rparr>) = cpu_ok s" "cpu_ok (s\<lparr>lh_block := bs\<rparr>) = cpu_ok s"
  "cpu_ok (s\<lparr>outstanding := k\<rparr>) = cpu_ok s"
  "lfree l' (s\<lparr>lh_n := n\<rparr>) = lfree l' s" "lfree l' (s\<lparr>lh_block := bs\<rparr>) = lfree l' s"
  "lfree l' (s\<lparr>outstanding := k\<rparr>) = lfree l' s"
  by (simp_all add: held_def cli_state_def me_def me_opt_def cpu_ok_def lfree_def)

lemma absorb_run:
  assumes "i + k \<le> LOGSIZE" "length (lh_block s) = LOGSIZE"
  shows "absorb k i blk s = Ret (i + length (takeWhile (\<lambda>w. w \<noteq> blk) (take k (drop i (lh_block s))))) s"
  using assms(1)
proof (induction k arbitrary: i)
  case (Suc k)
  then have "take (Suc k) (drop i (lh_block s)) = lh_block s ! i # take k (drop (Suc i) (lh_block s))"
    using assms(2) by (simp flip: Cons_nth_drop_Suc)
  with Suc show ?case by (auto simp: lh_get_ok)
qed simp

definition note_block :: "u32 \<Rightarrow> 'z logsys_scheme \<Rightarrow> 'z logsys_scheme" where
  "note_block blk s = (if blk \<in> set (logged s) then s
     else s\<lparr>lh_block := (lh_block s)[nat (lh_n s) := blk], lh_n := lh_n s + 1\<rparr>)"

text \<open>\<open>log_write\<close>: the block is in the header exactly once and its buffer is pinned.\<close>

lemma log_write_run:
  assumes k: "kready s" and n: "0 \<le> lh_n s" "lh_n s < int LOGSIZE" "lh_n s < lg_size s - 1"
    and o: "1 \<le> outstanding s" and l: "length (lh_block s) = LOGSIZE"
  shows "log_write b s = Ret () (pin_buf b (note_block (b_blockno (bufs s b)) s))"
proof -
  let ?blk = "b_blockno (bufs s b)" and ?h = "held LLog s"
  let ?i = "length (takeWhile (\<lambda>w. w \<noteq> ?blk) (logged s))"
  have ll: "length (logged s) = nat (lh_n s)" using n l by (simp add: logged_def)
  have a: "absorb (nat (lh_n s)) 0 ?blk ?h = Ret ?i ?h"
    using absorb_run [of 0 "nat (lh_n s)" ?h ?blk] n l by (simp add: lock_simps logged_def)
  have i: "?i \<le> nat (lh_n s)" using ll length_takeWhile_le [of _ "logged s"] by metis
  then have "?i < LOGSIZE" using n by simp
  then have p: "lh_put ?i ?blk ?h = Ret () (held LLog (s\<lparr>lh_block := (lh_block s)[?i := ?blk]\<rparr>))"
    by (simp add: lh_put_def lock_simps)
  show ?thesis
  proof (cases "?blk \<in> set (logged s)")
    case True
    then have "takeWhile (\<lambda>w. w \<noteq> ?blk) (logged s) \<noteq> logged s" by (auto simp: takeWhile_eq_all_conv)
    then have "?i \<noteq> length (logged s)" by (metis takeWhile_eq_take take_all order_refl)
    with i ll have lt: "?i < nat (lh_n s)" by simp
    have "logged s ! ?i = ?blk" using nth_length_takeWhile [of "\<lambda>w. w \<noteq> ?blk" "logged s"] lt ll by simp
    then have "lh_block s ! ?i = ?blk" using lt by (simp add: logged_def)
    then have "(lh_block s)[?i := ?blk] = lh_block s" using list_update_id [of "lh_block s" ?i] by simp
    then have e: "s\<lparr>lh_block := (lh_block s)[?i := ?blk]\<rparr> = s" by simp
    have ne: "int ?i \<noteq> lh_n s" using lt n by linarith
    show ?thesis
      using n o k True ne by (simp add: log_write_def run_simps kreadyD lock_simps a p e note_block_def not_le)
  next
    case False
    then have eq: "?i = nat (lh_n s)" using ll by (metis (mono_tags) takeWhile_eq_all_conv)
    show ?thesis
      using n o k False unfolding log_write_def
      by (simp add: run_simps kreadyD lock_simps a [unfolded eq] p [unfolded eq] note_block_def not_le)
  qed
qed

lemma begin_op_inv:
  assumes "begin_op s = Ret u t"
  shows "lh_n s + (outstanding s + 1) * MAXOPBLOCKS \<le> int LOGSIZE" "lh_n t = lh_n s"
    "outstanding t = outstanding s + 1" "\<not> committing s" "lg_size t = lg_size s"
proof -
  obtain s1 where s1: "acquire LLog s = Ret () s1" "begin_op_loop s1 = Ret u t"
    using assms by (auto simp: begin_op_def rbind_eq_Ret)
  note m = lh_of_kern_more [OF lock_more3(1) [OF s1(1)]]
  have c: "\<not> committing s1" "\<not> int LOGSIZE < lh_n s1 + (outstanding s1 + 1) * MAXOPBLOCKS"
    "release LLog (s1\<lparr>outstanding := outstanding s1 + 1\<rparr>) = Ret u t"
    using s1(2) sched_more(3) by (auto simp: begin_op_loop_def split: if_splits)
  then show "lh_n s + (outstanding s + 1) * MAXOPBLOCKS \<le> int LOGSIZE" "lh_n t = lh_n s"
    "outstanding t = outstanding s + 1" "\<not> committing s" "lg_size t = lg_size s"
    using m lh_of_kern_more [OF lock_more3(2) [OF c(3)]] by auto
qed

lemma absorb_state: "absorb k i blk s = Ret j t \<Longrightarrow> t = s"
  by (induction k arbitrary: i) (auto simp: rbind_eq_Ret lh_get_def split: if_splits)

lemma log_write_inv:
  assumes "log_write b s = Ret u t"
  shows "lh_n s \<le> lh_n t" "lh_n t \<le> lh_n s + 1" "outstanding t = outstanding s" "lg_size t = lg_size s"
proof -
  obtain s1 i s2 where s: "acquire LLog s = Ret () s1" "lh_put i (b_blockno (bufs s1 b)) s1 = Ret () s2"
    "release LLog (pin_buf b (if int i = lh_n s2 then s2\<lparr>lh_n := lh_n s2 + 1\<rparr> else s2)) = Ret u t"
    using assms by (auto simp: log_write_def rbind_eq_Ret Let_def dest!: absorb_state split: if_splits)
  note m = lh_of_kern_more [OF lock_more3(1) [OF s(1)]] lh_of_kern_more [OF lock_more3(2) [OF s(3)]]
  have "lh_n s2 = lh_n s1" "outstanding s2 = outstanding s1" "lg_size s2 = lg_size s1"
    using s(2) by (auto simp: lh_put_def split: if_splits)
  with m show "lh_n s \<le> lh_n t" "lh_n t \<le> lh_n s + 1" "outstanding t = outstanding s" "lg_size t = lg_size s"
    by (auto simp: frame_simps split: if_splits)
qed

lemma end_op_inv:
  assumes "end_op s = Ret u t" "0 \<le> lh_n s"
  shows "outstanding t = outstanding s - 1" "lg_size t = lg_size s"
    "lh_n t = (if outstanding s = 1 then 0 else lh_n s)"
proof -
  obtain s1 where s1: "acquire LLog s = Ret () s1"
    using assms by (auto simp: end_op_def rbind_eq_Ret)
  note m = lh_of_kern_more [OF lock_more3(1) [OF s1]]
  have "outstanding t = outstanding s - 1 \<and> lg_size t = lg_size s \<and>
    lh_n t = (if outstanding s = 1 then 0 else lh_n s)"
  proof (cases "outstanding s = 1")
    case True
    obtain s2 s3 s4 s5 where s: "release LLog (s1\<lparr>outstanding := 0, committing := True\<rparr>) = Ret () s2"
      "commit s2 = Ret () s3" "acquire LLog s3 = Ret () s4" "wakeup (Some ChanLog) (s4\<lparr>committing := False\<rparr>) = Ret () s5"
      "release LLog s5 = Ret u t"
      using assms True m s1 by (auto simp: end_op_def rbind_eq_Ret Let_def split: if_splits)
    have "lh_n s2 = lh_n s" using lh_of_kern_more(1) [OF lock_more3(2) [OF s(1)]] m by simp
    then show ?thesis
      using commit_lh [OF s(2)] assms(2) True m lh_of_kern_more [OF lock_more3(2) [OF s(1)]]
        lh_of_kern_more [OF lock_more3(1) [OF s(3)]] lh_of_kern_more [OF sched_more(1) [OF s(4)]]
        lh_of_kern_more [OF lock_more3(2) [OF s(5)]] by simp
  next
    case False
    obtain s2 where s: "wakeup (Some ChanLog) (s1\<lparr>outstanding := outstanding s1 - 1\<rparr>) = Ret () s2"
      "release LLog s2 = Ret u t"
      using assms False m s1 by (auto simp: end_op_def rbind_eq_Ret Let_def split: if_splits)
    then show ?thesis
      using False m lh_of_kern_more [OF sched_more(1) [OF s(1)]] lh_of_kern_more [OF lock_more3(2) [OF s(2)]]
      by simp
  qed
  then show "outstanding t = outstanding s - 1" "lg_size t = lg_size s"
    "lh_n t = (if outstanding s = 1 then 0 else lh_n s)" by auto
qed

section \<open>Reservation\<close>

text \<open>
  The file system operations that run between their \<open>begin_op\<close> and \<open>end_op\<close>: \<open>rs\<close> is the
  list of the numbers of blocks that each of them may still write. Steps of the machine that
  leave the header and the counters of the log alone are \<open>other\<close> steps.
\<close>

inductive op_step :: "logsys \<times> nat list \<Rightarrow> logsys \<times> nat list \<Rightarrow> bool" where
  op_begin: "begin_op s = Ret () t \<Longrightarrow> op_step (s, rs) (t, nat MAXOPBLOCKS # rs)"
| op_write: "log_write b s = Ret () t \<Longrightarrow> k < length rs \<Longrightarrow> 0 < rs ! k \<Longrightarrow>
    op_step (s, rs) (t, rs[k := rs ! k - 1])"
| op_end: "end_op s = Ret () t \<Longrightarrow> k < length rs \<Longrightarrow> op_step (s, rs) (t, take k rs @ drop (Suc k) rs)"
| op_other: "lh_n t = lh_n s \<Longrightarrow> outstanding t = outstanding s \<Longrightarrow> lg_size t = lg_size s \<Longrightarrow>
    lh_block t = lh_block s \<Longrightarrow> op_step (s, rs) (t, rs)"

inductive op_reach :: "logsys \<Rightarrow> nat list \<Rightarrow> bool" where
  op_start: "lh_n s = 0 \<Longrightarrow> outstanding s = 0 \<Longrightarrow> op_reach s []"
| op_more: "op_reach s rs \<Longrightarrow> op_step (s, rs) (t, qs) \<Longrightarrow> op_reach t qs"

inductive_cases op_stepE: "op_step (s, rs) (t, qs)"

definition reserved :: "logsys \<Rightarrow> nat list \<Rightarrow> bool" where
  "reserved s rs \<longleftrightarrow> outstanding s = int (length rs) \<and> (\<forall>r\<in>set rs. int r \<le> MAXOPBLOCKS) \<and> 0 \<le> lh_n s \<and>
     lh_n s + int (sum_list rs) \<le> int LOGSIZE"

lemma sum_list_bound: "(\<forall>r\<in>set rs. int r \<le> m) \<Longrightarrow> int (sum_list rs) \<le> int (length rs) * m"
  by (induction rs) (auto simp: algebra_simps)

lemma sum_list_upd_pred:
  "k < length rs \<Longrightarrow> 0 < rs ! k \<Longrightarrow> Suc (sum_list (rs[k := rs ! k - 1])) = sum_list (rs :: nat list)"
  by (induction rs arbitrary: k) (auto split: nat.splits)

lemma sum_list_remove: "k < length rs \<Longrightarrow> sum_list (take k rs @ drop (Suc k) rs) \<le> sum_list (rs :: nat list)"
proof -
  assume "k < length rs"
  then have "sum_list rs = sum_list (take k rs) + (rs ! k + sum_list (drop (Suc k) rs))"
    by (metis id_take_nth_drop sum_list_append sum_list.Cons)
  then show ?thesis by simp
qed

lemma op_step_reserved:
  assumes r: "reserved s rs" and st: "op_step (s, rs) (t, qs)"
  shows "reserved t qs"
  using st
proof (rule op_stepE, goal_cases)
  case 1
  then show ?thesis
    using begin_op_inv [OF 1(2)] sum_list_bound [of rs MAXOPBLOCKS] r
    by (auto simp: reserved_def algebra_simps MAXOPBLOCKS_def)
next
  case (2 b k)
  have "\<forall>r\<in>set qs. int r \<le> MAXOPBLOCKS"
    using r 2(1) set_update_subset_insert [of rs k "rs ! k - 1"] nth_mem [OF 2(3)]
    by (fastforce simp: reserved_def)
  then show ?thesis
    using r log_write_inv [OF 2(2)] sum_list_upd_pred [OF 2(3,4)] 2(1)
    by (simp add: reserved_def)
next
  case (3 k)
  have n: "0 \<le> lh_n s" using r by (simp add: reserved_def)
  have "set qs \<subseteq> set rs" using 3 by (auto dest: in_set_takeD in_set_dropD)
  moreover have "length qs = length rs - 1" using 3 by auto
  ultimately show ?thesis
    using r end_op_inv [OF 3(2) n] sum_list_remove [OF 3(3)] 3(1,3)
    by (auto simp: reserved_def)
next
  case 4
  then show ?thesis using r by (simp add: reserved_def)
qed

lemma op_reach_reserved: "op_reach s rs \<Longrightarrow> reserved s rs"
proof (induction rule: op_reach.induct)
  case (op_start s)
  then show ?case by (simp add: reserved_def)
next
  case (op_more s rs t qs)
  then show ?case using op_step_reserved by blast
qed

lemma reserved_room: "reserved s rs \<Longrightarrow> k < length rs \<Longrightarrow> 0 < rs ! k \<Longrightarrow> lh_n s < int LOGSIZE"
  using elem_le_sum_list [of k rs] by (auto simp: reserved_def)

lemma begin_op_run:
  assumes "kready s" "\<not> committing s" "lh_n s + (outstanding s + 1) * MAXOPBLOCKS \<le> int LOGSIZE"
  shows "begin_op s = Ret () (s\<lparr>outstanding := outstanding s + 1\<rparr>)"
  using assms by (simp add: begin_op_def begin_op_loop_def run_simps kreadyD lock_simps not_less)

section \<open>Where the reservation is too optimistic\<close>

text \<open>
  mkfs builds a log of \<open>LOGSIZE\<close> blocks including the header, and \<open>log_write\<close> refuses the block
  that would not fit. \<open>crowd k\<close> is the machine after three operations have begun on such a file
  system and have logged \<open>k\<close> distinct blocks.
\<close>

definition crowd :: "nat \<Rightarrow> logsys" where
  "crowd k = demo_kern \<lparr>mem = (\<lambda>_. 0), use_lock = True, freelist = 0, kend = 0x80110000, kdata = 0x80108000, kpgdir = 0, cr3 = 0, esp0 = 0, bufs = (\<lambda>i. \<lparr>b_flags = (if i < k then 6 else 2), b_dev = 1, b_blockno = of_nat i + 100,
       b_refcnt = 1, b_prev = 0, b_next = 0, b_data = zero_block\<rparr>), memdisk = demo_disk, disksize = 1000,
     wtrace = [], lg_start = 2, lg_size = 30, outstanding = 3, committing = False, lg_dev = 1,
     lh_n = int k, lh_block = map (\<lambda>i. of_nat i + 100) [0..<k] @ replicate (LOGSIZE - k) 0\<rparr>"

definition budgets :: "nat \<Rightarrow> nat list" where
  "budgets k = (if k < 10 then [10, 10, 10 - k] else if k < 20 then [10, 20 - k, 0] else [30 - k, 0, 0])"

lemma of_nat_small: "i < 30 \<Longrightarrow> j < 30 \<Longrightarrow> (of_nat i :: u32) = of_nat j \<longleftrightarrow> i = j"
  by (simp add: word_of_nat_eq_iff take_bit_nat_eq_self)

lemma crowd_write:
  assumes "k < 29"
  shows "log_write k (crowd k) = Ret () (crowd (Suc k))"
proof -
  have l: "logged (crowd k) = map (\<lambda>i. of_nat i + 100) [0..<k]"
    by (simp add: logged_def crowd_def demo_kern_def)
  have "of_nat k + 100 \<notin> set (logged (crowd k))"
    unfolding l using assms by (auto simp: of_nat_small)
  moreover have "(map (\<lambda>i. of_nat i + 100 :: u32) [0..<k] @ replicate (LOGSIZE - k) 0)[k := of_nat k + 100] =
    map (\<lambda>i. of_nat i + 100) [0..<Suc k] @ replicate (LOGSIZE - Suc k) 0"
  proof -
    have "LOGSIZE - k = Suc (LOGSIZE - Suc k)" using assms by (simp add: LOGSIZE_def)
    then show ?thesis by (simp add: list_update_append)
  qed
  ultimately have "pin_buf k (note_block (of_nat k + 100) (crowd k)) = crowd (Suc k)"
    by (auto simp: note_block_def crowd_def demo_kern_def set_buf_def B_DIRTY_def fun_eq_iff less_Suc_eq)
  moreover have "log_write k (crowd k) = Ret () (pin_buf k (note_block (b_blockno (bufs (crowd k) k)) (crowd k)))"
    using assms by (intro log_write_run) (simp_all add: crowd_def, simp_all add: demo_kern_def LOGSIZE_def)
  ultimately show ?thesis by (simp add: crowd_def demo_kern_def)
qed

lemma kready_crowd: "kready (crowd k)" "kready ((crowd k)\<lparr>outstanding := n\<rparr>)"
  by (simp add: crowd_def) (simp add: crowd_def demo_kern_def kready_def cpu_ok_def lfree_def me_def me_opt_def)

lemma crowd_begin: "n \<le> 2 \<Longrightarrow> begin_op ((crowd 0)\<lparr>outstanding := n\<rparr>) = Ret () ((crowd 0)\<lparr>outstanding := n + 1\<rparr>)"
  by (subst begin_op_run)
     (simp_all add: kready_crowd, simp_all add: crowd_def demo_kern_def LOGSIZE_def MAXOPBLOCKS_def)

lemma crowd_reach: "k \<le> 29 \<Longrightarrow> op_reach (crowd k) (budgets k)"
proof (induction k)
  case 0
  let ?c = "\<lambda>n. (crowd 0)\<lparr>outstanding := n\<rparr>"
  have "op_reach (?c 0) []" by (rule op_start) (simp_all add: crowd_def demo_kern_def)
  then have "op_reach (?c 1) [10]"
    using crowd_begin [of 0] op_begin [of "?c 0" "?c 1" "[]"] op_more by (fastforce simp: MAXOPBLOCKS_def)
  then have "op_reach (?c 2) [10, 10]"
    using crowd_begin [of 1] op_begin [of "?c 1" "?c 2" "[10]"] op_more by (fastforce simp: MAXOPBLOCKS_def)
  then have "op_reach (?c 3) [10, 10, 10]"
    using crowd_begin [of 2] op_begin [of "?c 2" "?c 3" "[10, 10]"] op_more by (fastforce simp: MAXOPBLOCKS_def)
  moreover have "?c 3 = crowd 0" by (simp add: crowd_def demo_kern_def)
  ultimately show ?case by (simp add: budgets_def)
next
  case (Suc k)
  define j where "j = (if k < 10 then 2 else if k < 20 then 1 else 0 :: nat)"
  have "j < length (budgets k)" "0 < budgets k ! j" "(budgets k)[j := budgets k ! j - 1] = budgets (Suc k)"
    using Suc.prems by (auto simp: j_def budgets_def numeral_2_eq_2)
  then have "op_step (crowd k, budgets k) (crowd (Suc k), budgets (Suc k))"
    using op_write [OF crowd_write, of k j "budgets k"] Suc.prems by simp
  then show ?case using Suc op_more by simp
qed

end
