(* ===== verification/Log_Props.thy ===== *)
theory Log_Props
  imports Log_Txn
begin

text \<open>The properties of the buffer cache and of the log.\<close>

text \<open>C1: Crash safety of \<open>commit\<close>. A commit returns, and the sequence \<open>ws\<close> of its disk writes is
  such that after a power failure following any number \<open>k\<close> of them, a machine that boots on the
  disk as it then is, runs \<open>binit\<close> and then \<open>initlog\<close>, finds every block outside the log area as
  it was before the transaction, when \<open>k\<close> is at most the number of blocks in the transaction,
  and as the transaction left it otherwise: a transaction happens completely or not at all.\<close>

theorem commit_crash_safe:
  fixes s :: "'z logsys_scheme"
  assumes s: "ready_to_commit s"
  shows "\<exists>ws. wp (commit s) (\<lambda>_ t. wtrace t = wtrace s @ ws \<and> memdisk t = writes ws (memdisk s)) \<and>
    (\<forall>k \<le> length ws. \<forall>r :: logsys. booted (writes (take k ws) (memdisk s)) (disksize s) r \<longrightarrow>
      (\<forall>x. x \<notin> log_area (lg_start s) (length (logged s)) \<and> x \<notin> hblocks s \<longrightarrow>
        wp (initlog 1 (binit r)) (\<lambda>_ t. cview t x = memdisk t x \<and>
          memdisk t x = (if k \<le> length (logged s) then memdisk s x else cview s x))))"
proof -
  let ?ws = "commit_writes (lg_start s) (cview s) (logged s)"
  have "wp (commit s) (\<lambda>_ t. wtrace t = wtrace s @ ?ws \<and> memdisk t = writes ?ws (memdisk s))"
    using commit_law [of s] s by (auto simp: ready_to_commit_def elim: wp_mono)
  moreover have "wp (initlog 1 (binit r)) (\<lambda>_ t. cview t x = memdisk t x \<and>
          memdisk t x = (if k \<le> length (logged s) then memdisk s x else cview s x))"
    if "k \<le> length ?ws" "booted (writes (take k ?ws) (memdisk s)) (disksize s) r"
      "x \<notin> log_area (lg_start s) (length (logged s))" "x \<notin> hblocks s" for k x and r :: logsys
    using recovery_after_crash [OF s _ that(3,4,2)] that(1)
    by (auto simp: length_commit_writes elim: wp_mono)
  ultimately show ?thesis by blast
qed

theorem commit_crash_safe_witness:
  "ready_to_commit demo_txn \<and>
   (\<exists>ws. wp (commit demo_txn) (\<lambda>_ t. memdisk t = writes ws (memdisk demo_txn)))"
  using commit_crash_safe [OF demo_ready] demo_ready by (auto elim: wp_mono)

text \<open>C9: \<open>commit\<close> returns, empties the in-memory log, unpins every block, and leaves each block
  outside the log area, on the disk and in the cache, with the contents the transaction gave it.\<close>

theorem commit_installs:
  assumes s: "ready_to_commit s"
  shows "wp (commit s) (\<lambda>_ t. lh_n t = 0 \<and> dirtyb t = {} \<and> bio_inv t \<and>
    (\<forall>x. x \<notin> log_area (lg_start s) (length (logged s)) \<and> x \<notin> hblocks s \<longrightarrow>
      memdisk t x = cview s x \<and> cview t x = cview s x))"
proof -
  let ?ws = "commit_writes (lg_start s) (cview s) (logged s)"
  note t = ready_txn [OF s]
  have ok: "log_ok s" and d: "set (logged s) = dirtyb s" using s by (simp_all add: ready_to_commit_def)
  have "writes ?ws (memdisk s) x = cview s x" "writes ?ws (cview s) x = cview s x"
    if "x \<notin> log_area (lg_start s) (length (logged s))" "x \<notin> hblocks s" for x
  proof -
    have "txn (lg_start s) (logged s) (cview s) (cview s)"
      using t by (auto simp: txn_def)
    then show "writes ?ws (memdisk s) x = cview s x" "writes ?ws (cview s) x = cview s x"
      using crash_after(2) [OF t that(1)] crash_after(2) [OF _ that(1), where d = "cview s"]
        bc.view_disk [of s x] that log_okD(2) [OF ok] d by auto
  qed
  then show ?thesis
    using commit_law [OF ok] s by (auto simp: ready_to_commit_def elim!: wp_mono)
qed

theorem commit_installs_witness: "wp (commit demo_txn) (\<lambda>_ t. memdisk t 60 = replicate BSIZE 7 \<and> lh_n t = 0)"
proof -
  have "60 \<notin> log_area 2 1" by (simp add: log_area_def)
  moreover have "logged demo_txn = [60]" by (simp add: logged_def demo_txn_facts)
  ultimately show ?thesis
    using commit_installs [OF demo_ready] by (elim wp_mono) (auto simp: demo_txn_facts)
qed

text \<open>\<open>log_write\<close> on a locked buffer inside a transaction with room in the log returns with the
  block noted exactly once, however often it is written (log absorption), and pinned in the cache;
  the contents seen by readers and the disk do not change.\<close>

theorem log_write_pins:
  assumes inv: "bio_inv s" and m: "mine s b n" and l: "length (lh_block s) = LOGSIZE"
    and n: "0 \<le> lh_n s" "lh_n s < int LOGSIZE" "lh_n s < lg_size s - 1" and o: "1 \<le> outstanding s"
    and d: "distinct (logged s)"
  shows "wp (log_write b s) (\<lambda>_ t. bio_inv t \<and> distinct (logged t) \<and>
    set (logged t) = insert n (set (logged s)) \<and> dirtyb t = insert n (dirtyb s) \<and>
    cview t = cview s \<and> memdisk t = memdisk s \<and> mine t = mine s)"
proof -
  have blk: "b_blockno (bufs s b) = n" using m by (simp add: mine_def cached_def)
  have k: "kready s" using inv by (simp add: bio_inv_def)
  let ?t = "note_block n s"
  have t: "bio_inv ?t" "mine ?t = mine s" "cview ?t = cview s" "memdisk ?t = memdisk s" "dirtyb ?t = dirtyb s"
    using inv by (simp_all add: note_block_def)
  have "logged ?t = (if n \<in> set (logged s) then logged s else logged s @ [n])"
    using n l by (auto simp: note_block_def logged_def nat_add_distrib take_Suc_conv_app_nth)
  then have g: "distinct (logged ?t)" "set (logged ?t) = insert n (set (logged s))" using d by auto
  have "logged (pin_buf b ?t) = logged ?t" by (simp add: logged_def frame_simps)
  then show ?thesis
    using bc.pin_law [OF t(1), of b n] t m g log_write_run [OF k n o l, of b] by (simp add: blk)
qed

definition demo_op :: logsys where
  "demo_op = demo_txn\<lparr>outstanding := 1\<rparr>"

theorem log_write_pins_witness:
  "wp (rbind (bread 1 60 demo_op) (\<lambda>b s. log_write b s)) (\<lambda>_ t. set (logged t) = {60} \<and> 60 \<in> dirtyb t)"
proof (rule wp_rbindI)
  have e: "bio_inv demo_op = bio_inv demo_txn" "dirtyb demo_op = dirtyb demo_txn" "hblocks demo_op = hblocks demo_txn"
    by (simp_all add: demo_op_def bio_inv_def binv_def lru_def bufok_def buniq_def nx_def pv_def kready_def
        cpu_ok_def lfree_def me_def me_opt_def dirtyb_def hblocks_def cached_def)
  show "wp (bread 1 60 demo_op) (\<lambda>i t. bio_inv t \<and> bframe demo_op t \<and> mine t i 60 \<and>
    (\<forall>j m. mine demo_op j m \<longrightarrow> mine t j m) \<and> cview t = cview demo_op \<and> memdisk t = memdisk demo_op \<and>
    wtrace t = wtrace demo_op \<and> dirtyb t = dirtyb demo_op \<and> hblocks t = insert 60 (hblocks demo_op))"
    by (rule bc.rd_law) (simp_all add: e demo_txn_facts, simp add: demo_op_def demo_txn_facts)
  fix b t assume t: "bio_inv t \<and> bframe demo_op t \<and> mine t b 60 \<and>
    (\<forall>j m. mine demo_op j m \<longrightarrow> mine t j m) \<and> cview t = cview demo_op \<and> memdisk t = memdisk demo_op \<and>
    wtrace t = wtrace demo_op \<and> dirtyb t = dirtyb demo_op \<and> hblocks t = insert 60 (hblocks demo_op)"
  then have f: "lh_n t = 1" "lh_block t = 60 # replicate 29 0" "outstanding t = 1" "lg_size t = 30"
    using lg_frame [of demo_op t] demo_txn_facts by (auto simp: demo_op_def demo_txn_size)
  then have "logged t = [60]" by (simp add: logged_def)
  with f t show "wp (log_write b t) (\<lambda>_ t. set (logged t) = {60} \<and> 60 \<in> dirtyb t)"
    using log_write_pins [of t b 60] by (auto simp: LOGSIZE_def elim: wp_mono)
qed

text \<open>C10: Reservation. As long as every file system operation logs at most \<open>MAXOPBLOCKS\<close> blocks
  between its \<open>begin_op\<close> and its \<open>end_op\<close>, then whatever the number of operations that run at
  the same time and however their steps interleave, \<open>log_write\<close> by an operation that has not used
  up its share returns, provided that the log area has more than \<open>LOGSIZE\<close> blocks.\<close>

theorem log_reservation:
  assumes "op_reach s rs" "k < length rs" "0 < rs ! k" "int LOGSIZE < lg_size s"
    and "kready s" "length (lh_block s) = LOGSIZE"
  shows "\<exists>t. log_write b s = Ret () t \<and> lh_n t \<le> int LOGSIZE"
proof -
  note r = op_reach_reserved [OF assms(1)]
  have n: "lh_n s < int LOGSIZE" "0 \<le> lh_n s" using reserved_room [OF r assms(2,3)] r by (simp_all add: reserved_def)
  then have "log_write b s = Ret () (pin_buf b (note_block (b_blockno (bufs s b)) s))"
    using assms r by (intro log_write_run) (auto simp: reserved_def)
  then show ?thesis using log_write_inv(2) n by fastforce
qed

theorem log_reservation_witness: "\<exists>t. log_write 3 ((crowd 0)\<lparr>lg_size := 40\<rparr>) = Ret () t \<and> lh_n t \<le> int LOGSIZE"
proof -
  let ?s = "(crowd 0)\<lparr>lg_size := 40\<rparr>"
  have c0: "kready ((crowd 0)\<lparr>lg_size := 40, outstanding := n\<rparr>)" for n
    by (simp add: crowd_def demo_kern_def kready_def cpu_ok_def lfree_def me_def me_opt_def)
  have "begin_op ((crowd 0)\<lparr>lg_size := 40, outstanding := 0\<rparr>) = Ret () ((crowd 0)\<lparr>lg_size := 40, outstanding := 1\<rparr>)"
    by (subst begin_op_run [OF c0]) (simp_all add: crowd_def demo_kern_def LOGSIZE_def MAXOPBLOCKS_def)
  from op_more [OF op_start op_begin [OF this]] have r: "op_reach ((crowd 0)\<lparr>lg_size := 40, outstanding := 1\<rparr>) [10]"
    by (simp add: crowd_def demo_kern_def MAXOPBLOCKS_def)
  have "begin_op ((crowd 0)\<lparr>lg_size := 40, outstanding := 1\<rparr>) = Ret () ((crowd 0)\<lparr>lg_size := 40, outstanding := 2\<rparr>)"
    by (subst begin_op_run [OF c0]) (simp_all add: crowd_def demo_kern_def LOGSIZE_def MAXOPBLOCKS_def)
  from op_more [OF r op_begin [OF this]] have r: "op_reach ((crowd 0)\<lparr>lg_size := 40, outstanding := 2\<rparr>) [10, 10]"
    by (simp add: MAXOPBLOCKS_def)
  have "begin_op ((crowd 0)\<lparr>lg_size := 40, outstanding := 2\<rparr>) = Ret () ((crowd 0)\<lparr>lg_size := 40, outstanding := 3\<rparr>)"
    by (subst begin_op_run [OF c0]) (simp_all add: crowd_def demo_kern_def LOGSIZE_def MAXOPBLOCKS_def)
  from op_more [OF r op_begin [OF this]] have r: "op_reach ?s [10, 10, 10]"
    by (simp add: MAXOPBLOCKS_def crowd_def demo_kern_def)
  then show ?thesis
    using c0 [of 3] by (intro log_reservation [OF r, of 0])
      (simp_all add: crowd_def demo_kern_def LOGSIZE_def)
qed

text \<open>C19: The reservation does not protect the log that mkfs builds, whose \<open>LOGSIZE\<close> blocks
  include the header. Three operations of at most \<open>MAXOPBLOCKS\<close> blocks each, all admitted by
  \<open>begin_op\<close>, reach a state with 29 logged blocks in which the \<open>log_write\<close> of a block that its
  operation is entitled to panics.\<close>

theorem log_write_crowded:
  "op_reach (crowd 29) (budgets 29) \<and> sum_list (budgets 29) = 1 \<and> lg_size (crowd 29) = int LOGSIZE \<and>
   log_write b (crowd 29) = Panic ''too big a transaction''"
  using crowd_reach [of 29] by (simp add: budgets_def log_write_def) (simp add: crowd_def demo_kern_def LOGSIZE_def)

end
