(* ===== verification/Bio_Props.thy ===== *)
theory Bio_Props
  imports Demo
begin

text \<open>The properties of the buffer cache.\<close>

abbreviation demo_cache :: bio where
  "demo_cache \<equiv> binit (demo_bio demo_disk ())"

lemma demo_cache_facts:
  "bio_inv demo_cache" "cview demo_cache = demo_disk" "dirtyb demo_cache = {}" "hblocks demo_cache = {}"
  "memdisk demo_cache = demo_disk" "disksize demo_cache = 1000"
  by (simp_all add: demo_bio_facts)

text \<open>\<open>binit\<close> on zeroed memory builds the circular list of all buffers and establishes the
  invariant of the cache: every block reads as it is on the disk, none is dirty or locked.\<close>

theorem binit_establishes:
  assumes "\<And>i. i < NBUF \<Longrightarrow> b_flags (bufs s i) = 0 \<and> b_dev (bufs s i) = 0 \<and> b_refcnt (bufs s i) = 0"
    and "\<And>n. length (memdisk s n) = BSIZE" and "kready s"
  shows "bio_inv (binit s) \<and> lru (binit s) (rev [0..<NBUF]) \<and> cview (binit s) = memdisk s \<and>
    dirtyb (binit s) = {} \<and> hblocks (binit s) = {}"
  using assms by (rule binit_inv)

theorem binit_establishes_witness: "lru (binit (demo_bio demo_disk ())) (rev [0..<NBUF])"
  using binit_establishes [of "demo_bio demo_disk ()"]
  by (simp add: demo_bio_def) (simp add: demo_kern_def)

text \<open>C11: \<open>bread\<close> of a block that no process has locked returns, when some buffer is free, a buffer
  locked by the caller that holds the current contents of the block, whether it was cached or not.
  What the other blocks read as, the disk and the pinned blocks are unchanged.\<close>

theorem bread_current:
  assumes "bio_inv s" "n < disksize s" "n \<notin> hblocks s" "card (dirtyb s \<union> hblocks s) < NBUF"
  shows "wp (bread 1 n s) (\<lambda>b t. bio_inv t \<and> mine t b n \<and> b_data (bufs t b) = cview s n \<and>
    cview t = cview s \<and> memdisk t = memdisk s \<and> dirtyb t = dirtyb s \<and> hblocks t = insert n (hblocks s))"
  using bc.rd_law [of s n] assms by (auto elim!: wp_mono dest: bc.data_law)

theorem bread_current_witness: "wp (bread 1 60 demo_cache) (\<lambda>b t. b_data (bufs t b) = zero_block)"
  using bread_current [of demo_cache 60]
  by (auto simp: demo_cache_facts demo_disk_sb NBUF_def elim: wp_mono)

text \<open>C12: The write-through cycle. Reading a block, replacing its contents, \<open>bwrite\<close> and \<open>brelse\<close>
  leave exactly that block changed, in the cache and on the disk, by one disk write, and unlocked.\<close>

theorem block_write_through:
  assumes s: "bio_inv s" "n < disksize s" "n \<notin> hblocks s" "card (dirtyb s \<union> hblocks s) < NBUF"
    and d: "length d = BSIZE"
  shows "wp (rbind (bread 1 n s) (\<lambda>b s. rbind (bwrite b (set_buf b (\<lambda>x. x\<lparr>b_data := d\<rparr>) s)) (\<lambda>_ s. brelse b s)))
    (\<lambda>_ t. bio_inv t \<and> cview t = (cview s)(n := d) \<and> memdisk t = (memdisk s)(n := d) \<and>
      wtrace t = wtrace s @ [(n, d)] \<and> dirtyb t = dirtyb s - {n} \<and> hblocks t = hblocks s)"
  using bc.update_through [of s n "\<lambda>b. put_bdata b d" d] s d by (auto simp: bc.left_def elim!: wp_mono)

theorem block_write_through_witness:
  "wp (rbind (bread 1 60 demo_cache) (\<lambda>b s. rbind (bwrite b (set_buf b (\<lambda>x. x\<lparr>b_data := replicate 512 1\<rparr>) s))
     (\<lambda>_ s. brelse b s))) (\<lambda>_ t. memdisk t 60 = replicate 512 1)"
  using block_write_through [of demo_cache 60 "replicate 512 1"]
  by (auto simp: demo_cache_facts NBUF_def BSIZE_def elim: wp_mono)

text \<open>Replacement. For a block that is not cached, \<open>bget\<close> takes the least recently used buffer
  among those that nobody holds and that are not dirty, and panics when there is none.\<close>

theorem bget_replaces_lru:
  assumes inv: "bio_inv s" and l: "lru s xs" and c: "\<nexists>i. cached s i n"
  shows "case find (\<lambda>i. b_refcnt (bufs s i) = 0 \<and> b_flags (bufs s i) AND B_DIRTY = 0) (rev xs) of
      None \<Rightarrow> bget 1 n s = Panic ''bget: no buffers''
    | Some i \<Rightarrow> (\<exists>t. bget 1 n s = Ret i t \<and> b_blockno (bufs t i) = n \<and> b_flags (bufs t i) = 0 \<and>
        slocked (slocks t (SBuf i)) \<and> (\<forall>j. j \<noteq> i \<longrightarrow> bufs t j = bufs s j))"
proof -
  let ?P = "\<lambda>b. b_refcnt b = 0 \<and> b_flags b AND B_DIRTY = 0"
  have k: "kready s" and bi: "binv s" using inv by (simp_all add: bio_inv_def)
  have miss: "bfind (Suc NBUF) b_next (\<lambda>b. b_dev b = 1 \<and> b_blockno b = n) (bufs s) (b_next (bufs s NBUF)) = Some None"
    using c l by (auto simp: bfind_next [OF l] find_None_iff cached_def lru_def simp del: bfind.simps)
  have scan: "bfind (Suc NBUF) b_prev ?P (bufs s) (b_prev (bufs s NBUF)) = Some (find (\<lambda>i. ?P (bufs s i)) (rev xs))"
    by (rule bfind_prev [OF l])
  show ?thesis
  proof (cases "find (\<lambda>i. ?P (bufs s i)) (rev xs)")
    case None
    then show ?thesis
      using miss scan k by (simp add: bget_def run_simps kreadyD lock_simps del: bfind.simps)
  next
    case (Some i)
    then have i: "i < NBUF" "b_refcnt (bufs s i) = 0" using l by (auto simp: find_Some_iff lru_def)
      (metis lessThan_iff nth_mem set_rev length_rev)
    then have "\<not> slocked (slocks s (SBuf i))" using bufokD(3) [OF bi i(1)] by (auto split: if_splits)
    then show ?thesis
      using miss scan k Some
      by (simp add: bget_def run_simps kreadyD lock_simps frame_simps del: bfind.simps)
         (simp add: set_slock_def set_buf_def)
  qed
qed

theorem bget_replaces_lru_witness:
  "\<exists>t. bget 1 60 demo_cache = Ret 0 t \<and> b_blockno (bufs t 0) = 60"
proof -
  have inv: "bio_inv demo_cache" by (rule demo_cache_facts)
  have l: "lru demo_cache (rev [0..<NBUF])" using binit_inv [of "demo_bio demo_disk ()"]
    by (simp add: demo_bio_def) (simp add: demo_kern_def)
  have b: "bcore (bufs demo_cache j) = (0, 0, 0, 0, zero_block)" for j
    unfolding binit_bufs by (simp add: demo_bio_def demo_kern_def bcore_def)
  then have c: "\<nexists>i. cached demo_cache i 60" by (simp add: cached_def bcore_def)
  have "find (\<lambda>i. b_refcnt (bufs demo_cache i) = 0 \<and> b_flags (bufs demo_cache i) AND B_DIRTY = 0) (rev (rev [0..<NBUF]))
    = Some 0"
    using b by (simp add: bcore_def NBUF_def upt_rec)
  then show ?thesis using bget_replaces_lru [OF inv l c] by auto
qed

end
