(* ===== verification/Page_Alloc.thy ===== *)
theory Page_Alloc
  imports Kalloc
begin

text \<open>The interface of the page allocator, and kalloc.c as an implementation of it: \<open>avail\<close> is the
  set of free pages, \<open>valid\<close> the pages that may be freed.\<close>

definition page :: "u32 \<Rightarrow> u32 set" where
  "page p = region p 4096"

lemma aligned_unat: "(x :: u32) mod 4096 = 0 \<Longrightarrow> \<exists>q. unat x = 4096 * q \<and> q < 2 ^ 20"
proof -
  assume "x mod 4096 = 0"
  then have "unat (x mod 4096) = 0" by simp
  then have "unat x mod 4096 = 0" by (simp add: unat_mod_distrib)
  then have "unat x = 4096 * (unat x div 4096)" by (metis div_mult_mod_eq add_0_right mult.commute)
  moreover have "unat x div 4096 < 2 ^ 20" using unat32_less [of x] by (simp add: less_mult_imp_div_less)
  ultimately show ?thesis by blast
qed

lemma page_unat: "x mod 4096 = 0 \<Longrightarrow> z \<in> page x \<Longrightarrow> unat z div 4096 = unat x div 4096"
proof -
  assume x: "x mod 4096 = 0" and z: "z \<in> page x"
  obtain q where q: "unat x = 4096 * q" "q < 2 ^ 20" using aligned_unat [OF x] by blast
  obtain i where i: "z = x + of_nat i" "i < 4096" using z unfolding page_def by (rule region_cases)
  have "unat z = unat x + i" using i q unat_plus_nowrap [of x i] by simp
  then show ?thesis using q i by simp
qed

lemma page_disjoint: "x mod 4096 = 0 \<Longrightarrow> y mod 4096 = 0 \<Longrightarrow> x \<noteq> y \<Longrightarrow> page x \<inter> page y = {}"
proof -
  assume x: "x mod 4096 = 0" and y: "y mod 4096 = 0" and "x \<noteq> y"
  have "unat x = unat y" if "unat x div 4096 = unat y div 4096"
    using aligned_unat [OF x] aligned_unat [OF y] that by auto
  then show ?thesis using page_unat [OF x] page_unat [OF y] \<open>x \<noteq> y\<close> by (metis disjoint_iff unsigned_word_eqI)
qed

lemma page_self [simp]: "x \<in> page x"
  by (simp add: page_def region_iff)

section \<open>Rounding to pages\<close>

lemma rounddown_unat: "unat (a AND - (4096 :: u32)) = unat a div 4096 * 4096"
proof -
  have "(4095 :: u32) = mask 12" "- (4096 :: u32) = NOT 4095" by (simp_all add: mask_eq_exp_minus_1)
  then have "a AND - (4096 :: u32) = a AND NOT (mask 12)" by simp
  also have "\<dots> = push_bit 12 (drop_bit 12 a)"
    by (rule bit_word_eqI) (auto simp: bit_simps)
  finally have "unat (a AND - (4096 :: u32)) = take_bit 32 (push_bit 12 (drop_bit 12 (unat a)))"
    using unat32_less [of a] by (simp only: unsigned_push_bit_eq unsigned_drop_bit_eq) (simp add: take_bit_nat_eq_self)
  moreover have "unat a div 4096 * 4096 < 2 ^ 32"
    using unat32_less [of a] div_times_less_eq_dividend [of "unat a" 4096] by linarith
  ultimately show ?thesis
    by (simp add: push_bit_eq_mult drop_bit_eq_div take_bit_nat_eq_self)
qed

lemma PGROUNDDOWN_unat: "unat (PGROUNDDOWN a) = unat a div 4096 * 4096"
  by (simp add: PGROUNDDOWN_def PGSIZE_def rounddown_unat)

lemma PGROUNDUP_unat: "unat a + 4096 \<le> 2 ^ 32 \<Longrightarrow> unat (PGROUNDUP a) = (unat a + 4095) div 4096 * 4096"
  using unat_plus_nowrap [of a 4095] rounddown_unat [of "a + 4095"]
  by (simp add: PGROUNDUP_def PGSIZE_def add.commute)

lemma aligned_iff: "(x :: u32) mod 4096 = 0 \<longleftrightarrow> unat x mod 4096 = 0"
  by (simp add: word_unat_eq_iff unat_mod_distrib)

section \<open>The interface\<close>

locale page_allocator =
  fixes alloc :: "'s \<Rightarrow> (u32, 's) outcome"
    and free :: "u32 \<Rightarrow> 's \<Rightarrow> (unit, 's) outcome"
    and memory :: "'s \<Rightarrow> mem"
    and put_memory :: "mem \<Rightarrow> 's \<Rightarrow> 's"
    and avail :: "'s \<Rightarrow> u32 set"
    and inv :: "'s \<Rightarrow> bool"
    and valid :: "'s \<Rightarrow> u32 \<Rightarrow> bool"
    and frame :: "'s \<Rightarrow> 's \<Rightarrow> bool"
  assumes alloc_some: "inv s \<Longrightarrow> avail s \<noteq> {} \<Longrightarrow> wp (alloc s) (\<lambda>p t. p \<in> avail s \<and> inv t \<and>
      avail t = avail s - {p} \<and> memory t = memory s \<and> frame s t)"
    and alloc_none: "inv s \<Longrightarrow> avail s = {} \<Longrightarrow> wp (alloc s) (\<lambda>p t. p = 0 \<and> inv t \<and>
      avail t = {} \<and> memory t = memory s \<and> frame s t)"
    and free_law: "inv s \<Longrightarrow> valid s p \<Longrightarrow> p \<notin> avail s \<Longrightarrow> wp (free p s) (\<lambda>_ t. inv t \<and>
      avail t = insert p (avail s) \<and> (\<forall>x. x \<notin> page p \<longrightarrow> memory t x = memory s x) \<and> frame s t)"
    and put_law: "inv s \<Longrightarrow> (\<And>p x. p \<in> avail s \<Longrightarrow> x \<in> page p \<Longrightarrow> m x = memory s x) \<Longrightarrow>
      inv (put_memory m s) \<and> avail (put_memory m s) = avail s \<and> memory (put_memory m s) = m \<and>
      frame s (put_memory m s)"
    and avail_valid: "inv s \<Longrightarrow> p \<in> avail s \<Longrightarrow> valid s p"
    and valid_page: "valid s p \<Longrightarrow> p mod 4096 = 0 \<and> p \<noteq> 0"
    and frame_trans: "frame s t \<Longrightarrow> frame t u \<Longrightarrow> frame s u"
    and frame_valid: "frame s t \<Longrightarrow> valid t = valid s"
begin

text \<open>Taking a page and clearing it, as every part of vm.c that needs a page does.\<close>

definition zeroed :: "u32 \<Rightarrow> 's \<Rightarrow> 's \<Rightarrow> bool" where
  "zeroed p s t \<longleftrightarrow> p \<in> avail s \<and> p \<noteq> 0 \<and> p mod 4096 = 0 \<and> inv t \<and> avail t = avail s - {p} \<and> frame s t \<and>
     memory t = (\<lambda>x. if x \<in> page p then 0 else memory s x)"

lemma alloc_zeroed:
  assumes inv: "inv s"
    and none: "\<And>t. inv t \<Longrightarrow> avail t = {} \<Longrightarrow> avail s = {} \<Longrightarrow> memory t = memory s \<Longrightarrow> frame s t \<Longrightarrow> wp (F 0 t) Q"
    and some: "\<And>p t. p \<noteq> 0 \<Longrightarrow> zeroed p s (put_memory (snd (memset (memory t) p 0 4096)) t) \<Longrightarrow> wp (F p t) Q"
  shows "wp (rbind (alloc s) F) Q"
proof (cases "avail s = {}")
  case True
  then show ?thesis
    using alloc_none [OF inv] none by (auto intro: wp_rbindI)
next
  case False
  have "wp (F p t) Q" if t: "p \<in> avail s" "inv t" "avail t = avail s - {p}" "memory t = memory s" "frame s t" for p t
  proof -
    let ?m = "snd (memset (memory t) p 0 4096)"
    have m: "?m = (\<lambda>x. if x \<in> page p then 0 else memory s x)"
      by (rule ext) (simp add: memset_eq page_def t)
    note v = valid_page [OF avail_valid [OF inv t(1)]]
    have "?m x = memory t x" if "q \<in> avail t" "x \<in> page q" for q x
    proof -
      have "q mod 4096 = 0" "q \<noteq> p" using that t(3) avail_valid [OF inv, of q] valid_page by auto
      then have "x \<notin> page p" using page_disjoint [of q p] v that(2) by auto
      then show ?thesis using m t(4) by simp
    qed
    then have "zeroed p s (put_memory ?m t)"
      using put_law [OF t(2), of ?m] t v m unfolding zeroed_def by (auto intro: frame_trans)
    then show ?thesis using some v by blast
  qed
  then show ?thesis using alloc_some [OF inv False] by (auto intro: wp_rbindI)
qed

end

section \<open>kalloc.c\<close>

fun flist :: "mem \<Rightarrow> u32 \<Rightarrow> u32 list \<Rightarrow> bool" where
  "flist m p [] \<longleftrightarrow> p = 0"
| "flist m p (x # xs) \<longleftrightarrow> p = x \<and> x \<noteq> 0 \<and> flist m (ld32 m x) xs"

definition pg_ok :: "'z kmemsys_scheme \<Rightarrow> u32 \<Rightarrow> bool" where
  "pg_ok s v \<longleftrightarrow> v mod PGSIZE = 0 \<and> kend s \<le> v \<and> V2P v < PHYSTOP"

definition kmem_ok :: "'z kmemsys_scheme \<Rightarrow> u32 list \<Rightarrow> bool" where
  "kmem_ok s ps \<longleftrightarrow> flist (mem s) (freelist s) ps \<and> distinct ps \<and> (\<forall>p\<in>set ps. pg_ok s p) \<and>
     (use_lock s \<longrightarrow> cpu_ok s \<and> lfree LKmem s)"

definition free_pages :: "'z kmemsys_scheme \<Rightarrow> u32 set" where
  "free_pages s = set (SOME ps. kmem_ok s ps)"

lemma flist_unique: "flist m p xs \<Longrightarrow> flist m p ys \<Longrightarrow> xs = ys"
proof (induction xs arbitrary: p ys)
  case (Cons x xs)
  then show ?case by (cases ys) auto
qed (auto elim: flist.elims)

lemma free_pages_eq: "kmem_ok s ps \<Longrightarrow> free_pages s = set ps"
  unfolding free_pages_def by (rule someI2) (auto simp: kmem_ok_def dest: flist_unique)

lemma flist_cong:
  assumes "flist m p xs" "\<And>x y. x \<in> set xs \<Longrightarrow> y \<in> page x \<Longrightarrow> m' y = m y"
  shows "flist m' p xs"
  using assms
proof (induction xs arbitrary: p)
  case (Cons x xs)
  have "x + of_nat i \<in> page x" if "i < 4" for i
    unfolding page_def using that by (intro in_region) auto
  from this [of 0] this [of 1] this [of 2] this [of 3] have "ld32 m' x = ld32 m x"
    using Cons.prems(2) [of x] by (simp add: ld32_def)
  moreover have "flist m' (ld32 m x) xs" using Cons.prems by (intro Cons.IH) auto
  ultimately show ?case using Cons.prems(1) by simp
qed simp

lemma pg_ok_nonzero: "pg_ok s v \<Longrightarrow> v \<noteq> 0"
  by (auto simp: pg_ok_def V2P_def KERNBASE_def PHYSTOP_def)

lemma pg_ok_aligned: "pg_ok s v \<Longrightarrow> v mod 4096 = 0"
  by (simp add: pg_ok_def PGSIZE_def)

lemma kmem_lock [lock_simps]:
  "mem (held l s) = mem s" "freelist (held l s) = freelist s" "use_lock (held l s) = use_lock s"
  "kend (held l s) = kend s" "set_mem m (held l s) = held l (set_mem m s)"
  "(held l s)\<lparr>freelist := f\<rparr> = held l (s\<lparr>freelist := f\<rparr>)"
  "cpu_ok (set_mem m s) = cpu_ok s" "lfree l' (set_mem m s) = lfree l' s"
  "cpu_ok (s\<lparr>freelist := f\<rparr>) = cpu_ok s" "lfree l' (s\<lparr>freelist := f\<rparr>) = lfree l' s"
  "kready (set_mem m s) = kready s" "kready (s\<lparr>freelist := f\<rparr>) = kready s"
  by (simp_all add: held_def cli_state_def me_def me_opt_def cpu_ok_def lfree_def set_mem_def kready_def)

lemma set_mem_simps [simp]:
  "mem (set_mem m s) = m" "freelist (set_mem m s) = freelist s" "use_lock (set_mem m s) = use_lock s"
  "kend (set_mem m s) = kend s"
  by (simp_all add: set_mem_def)

lemma kalloc_run:
  assumes "use_lock s \<longrightarrow> cpu_ok s \<and> lfree LKmem s"
  shows "kalloc s = Ret (freelist s) (if freelist s \<noteq> 0 then s\<lparr>freelist := ld32 (mem s) (freelist s)\<rparr> else s)"
  using assms by (cases "use_lock s") (simp_all add: kalloc_def Let_def run_simps kreadyD lock_simps)

lemma kfree_run:
  assumes "use_lock s \<longrightarrow> cpu_ok s \<and> lfree LKmem s" "pg_ok s v"
  shows "kfree v s = Ret () ((set_mem (st32 (snd (memset (mem s) v 1 PGSIZE)) v (freelist s)) s)\<lparr>freelist := v\<rparr>)"
  using assms by (cases "use_lock s")
    (simp_all add: kfree_def pg_ok_def Let_def run_simps kreadyD lock_simps not_less not_le, simp_all add: set_mem_def)

lemma kfree_mem:
  assumes "x \<notin> page v"
  shows "st32 (snd (memset m v 1 PGSIZE)) v w x = m x"
proof -
  have "x \<notin> region v 4" using assms by (auto simp: page_def region_iff)
  then show ?thesis using assms by (simp add: st32_other memset_eq page_def PGSIZE_def)
qed

definition kframe :: "'z kmemsys_scheme \<Rightarrow> 'z kmemsys_scheme \<Rightarrow> bool" where
  "kframe s t \<longleftrightarrow> kctx t = kctx s \<and> slocks t = slocks s \<and> procs t = procs s \<and> kend t = kend s \<and>
     use_lock t = use_lock s \<and> kdata t = kdata s \<and> kpgdir t = kpgdir s \<and> cr3 t = cr3 s \<and> esp0 t = esp0 s \<and>
     kmemsys.more t = kmemsys.more s"

lemma kfree_ok:
  assumes k: "kmem_ok s ps" and v: "pg_ok s v" "v \<notin> set ps"
  shows "wp (kfree v s) (\<lambda>_ t. kmem_ok t (v # ps) \<and> (\<forall>x. x \<notin> page v \<longrightarrow> mem t x = mem s x) \<and> kframe s t)"
proof -
  let ?m = "st32 (snd (memset (mem s) v 1 PGSIZE)) v (freelist s)"
  have "flist ?m (freelist s) ps"
  proof (rule flist_cong)
    show "flist (mem s) (freelist s) ps" using k by (simp add: kmem_ok_def)
    fix x y assume x: "x \<in> set ps" "y \<in> page x"
    then have "x mod 4096 = 0" "x \<noteq> v" using k v pg_ok_aligned by (auto simp: kmem_ok_def)
    then show "?m y = mem s y"
      using x(2) page_disjoint [of x v] pg_ok_aligned [OF v(1)] by (intro kfree_mem) auto
  qed
  then have "kmem_ok ((set_mem ?m s)\<lparr>freelist := v\<rparr>) (v # ps)"
    using k v pg_ok_nonzero [OF v(1)] by (auto simp: kmem_ok_def pg_ok_def lock_simps)
  moreover have "kframe s ((set_mem ?m s)\<lparr>freelist := v\<rparr>)"
    by (simp add: kframe_def set_mem_def kctx_def)
  ultimately show ?thesis
    using kfree_run [OF _ v(1)] k kfree_mem [of _ v "mem s" "freelist s"] by (simp add: kmem_ok_def)
qed

lemma kalloc_ok:
  assumes "kmem_ok s ps"
  shows "wp (kalloc s) (\<lambda>p t. (case ps of [] \<Rightarrow> p = 0 \<and> kmem_ok t [] | q # qs \<Rightarrow> p = q \<and> kmem_ok t qs) \<and>
    mem t = mem s \<and> kframe s t)"
  using assms kalloc_run [of s]
  by (auto simp: kmem_ok_def kframe_def kctx_def pg_ok_def lock_simps split: list.splits)

interpretation pa: page_allocator kalloc kfree mem set_mem free_pages "\<lambda>s. \<exists>ps. kmem_ok s ps" pg_ok kframe
proof (unfold_locales, goal_cases)
  case (1 s)
  then obtain ps where ps: "kmem_ok s ps" by blast
  then obtain q qs where q: "ps = q # qs" using 1(2) free_pages_eq [OF ps] by (cases ps) auto
  have "free_pages t = free_pages s - {q} \<and> (\<exists>ps. kmem_ok t ps)" if "kmem_ok t qs" for t
    using that ps q free_pages_eq [OF that] free_pages_eq [OF ps] by (auto simp: kmem_ok_def)
  then show ?case
    using kalloc_ok [OF ps] free_pages_eq [OF ps] by (auto simp: q elim!: wp_mono)
next
  case (2 s)
  then obtain ps where ps: "kmem_ok s ps" by blast
  then have "ps = []" using 2(2) free_pages_eq [OF ps] by simp
  then show ?case using kalloc_ok [OF ps] by (auto dest: free_pages_eq elim!: wp_mono)
next
  case (3 s p)
  then obtain ps where ps: "kmem_ok s ps" by blast
  then have "p \<notin> set ps" using 3 free_pages_eq by auto
  then show ?case
    using kfree_ok [OF ps 3(2)] free_pages_eq [OF ps] by (auto dest: free_pages_eq elim!: wp_mono)
next
  case (4 s m)
  then obtain ps where ps: "kmem_ok s ps" by blast
  have "flist m (freelist s) ps"
  proof (rule flist_cong)
    show "flist (mem s) (freelist s) ps" using ps by (simp add: kmem_ok_def)
  qed (use 4(2) free_pages_eq [OF ps] in blast)
  then have k: "kmem_ok (set_mem m s) ps" using ps by (simp add: kmem_ok_def pg_ok_def lock_simps)
  moreover have "kframe s (set_mem m s)" by (simp add: kframe_def set_mem_def kctx_def)
  ultimately show ?case
    using free_pages_eq [OF ps] free_pages_eq [OF k] by auto
next
  case (5 s p)
  then obtain ps where ps: "kmem_ok s ps" by blast
  then show ?case using 5(2) free_pages_eq [OF ps] by (simp add: kmem_ok_def)
next
  case (6 s p)
  then show ?case using pg_ok_aligned pg_ok_nonzero by blast
qed (auto simp: kframe_def pg_ok_def fun_eq_iff)

end
