(* ===== verification/Alloc_Props.thy ===== *)
theory Alloc_Props
  imports Page_Alloc Demo
begin

text \<open>Properties of the page allocator: what \<open>kinit1\<close>/\<open>kinit2\<close> put on the free list, and what
  \<open>kalloc\<close> and \<open>kfree\<close> do with it.\<close>

definition pages_from :: "u32 \<Rightarrow> nat \<Rightarrow> u32 list" where
  "pages_from p n = map (\<lambda>i. p + of_nat (4096 * i)) [0..<n]"

lemma pages_from_Suc: "pages_from p (Suc n) = p # pages_from (p + 4096) n"
proof -
  have "[0..<Suc n] = 0 # map Suc [0..<n]" by (simp only: upt_conv_Cons map_Suc_upt zero_less_Suc)
  then show ?thesis by (simp add: pages_from_def o_def add.assoc)
qed

lemma unat_4096_le: "unat p + 4096 < 2 ^ 32 \<Longrightarrow> p + 4096 \<le> (e :: u32) \<longleftrightarrow> unat p + 4096 \<le> unat e"
  using unat_plus_nowrap [of p 4096] by (simp add: word_le_nat_alt)

lemma pages_from_next: "unat p + 4096 * n < 2 ^ 32 \<Longrightarrow> 0 < n \<Longrightarrow> p \<notin> set (pages_from (p + 4096) (n - 1))"
proof -
  assume a: "unat p + 4096 * n < 2 ^ 32" "0 < n"
  have "p + 4096 + of_nat (4096 * i) \<noteq> p" if "i < n - 1" for i
  proof -
    have "4096 + 4096 * i < 2 ^ 32" "0 < 4096 + 4096 * i" using a that by auto
    then have "p + of_nat (4096 + 4096 * i) \<noteq> p + of_nat 0" by (subst add_of_nat_eq) auto
    then show ?thesis by (simp add: add.assoc)
  qed
  then show ?thesis by (auto simp: pages_from_def)
qed

lemma freerange_loop_ok:
  assumes "kmem_ok s ps" "unat p + 4096 * n \<le> unat vend" "unat vend < unat p + 4096 * n + 4096"
    "unat vend + 4096 < 2 ^ 32" "n < k"
    "\<And>q. q \<in> set (pages_from p n) \<Longrightarrow> pg_ok s q \<and> q \<notin> set ps"
  shows "wp (freerange_loop k p vend s) (\<lambda>_ t. kmem_ok t (rev (pages_from p n) @ ps) \<and> kframe s t)"
  using assms
proof (induction n arbitrary: k p s ps)
  case 0
  then obtain k' where "k = Suc k'" by (cases k) auto
  moreover have "\<not> p + 4096 \<le> vend" using 0 unat_4096_le [of p vend] by simp
  ultimately show ?case using 0 by (simp add: pages_from_def PGSIZE_def kframe_def)
next
  case (Suc n)
  then obtain k' where k: "k = Suc k'" by (cases k) auto
  have p: "pg_ok s p" "p \<notin> set ps" using Suc.prems(6) by (simp_all add: pages_from_Suc)
  have u: "unat (p + 4096) = unat p + 4096"
    using unat_plus_nowrap [of p 4096] Suc.prems by simp
  have le: "p + 4096 \<le> vend" using Suc.prems unat_4096_le [of p vend] by simp
  have new: "p \<notin> set (pages_from (p + 4096) n)" using pages_from_next [of p "Suc n"] Suc.prems by simp
  have "wp (freerange_loop k' (p + 4096) vend t) (\<lambda>_ t'. kmem_ok t' (rev (pages_from p (Suc n)) @ ps) \<and> kframe s t')"
    if t: "kmem_ok t (p # ps)" "kframe s t" for t
  proof -
    have "wp (freerange_loop k' (p + 4096) vend t)
        (\<lambda>_ t'. kmem_ok t' (rev (pages_from (p + 4096) n) @ p # ps) \<and> kframe t t')"
    proof (rule Suc.IH)
      fix q assume q: "q \<in> set (pages_from (p + 4096) n)"
      then have "pg_ok s q \<and> q \<notin> set ps" using Suc.prems(6) by (simp add: pages_from_Suc)
      then show "pg_ok t q \<and> q \<notin> set (p # ps)" using q new pa.frame_valid [OF t(2)] by auto
    qed (use t Suc.prems u k in auto)
    then show ?thesis using t(2) by (auto simp: pages_from_Suc elim!: wp_mono intro: pa.frame_trans)
  qed
  then show ?case
    using kfree_ok [OF Suc.prems(1) p] le by (auto simp: k PGSIZE_def intro!: wp_rbindI)
qed

section \<open>Ranges of pages\<close>

lemma pages_from_set:
  assumes "p mod 4096 = 0" "unat p + 4096 * n < 2 ^ 32"
  shows "set (pages_from p n) = {q. q mod 4096 = 0 \<and> p \<le> q \<and> unat q < unat p + 4096 * n}"
proof (intro equalityI subsetI)
  fix q assume "q \<in> set (pages_from p n)"
  then obtain i where i: "q = p + of_nat (4096 * i)" "i < n" by (auto simp: pages_from_def)
  then have "unat q = unat p + 4096 * i" using assms by (simp only: unat_plus_nowrap)
  then show "q \<in> {q. q mod 4096 = 0 \<and> p \<le> q \<and> unat q < unat p + 4096 * n}"
    using assms i by (simp add: aligned_iff word_le_nat_alt)
next
  fix q assume "q \<in> {q. q mod 4096 = 0 \<and> p \<le> q \<and> unat q < unat p + 4096 * n}"
  then have q: "unat q mod 4096 = 0" "unat p \<le> unat q" "unat q < unat p + 4096 * n"
    by (simp_all add: aligned_iff word_le_nat_alt)
  moreover have "unat p mod 4096 = 0" using assms by (simp add: aligned_iff)
  ultimately have "4096 dvd unat q - unat p" by (intro dvd_diff_nat) auto
  then obtain d where "unat q - unat p = 4096 * d" by (rule dvdE)
  then have d: "unat q = unat p + 4096 * d" "d < n" using q by linarith+
  then have "unat (p + of_nat (4096 * d)) = unat q" using assms by (subst unat_plus_nowrap) auto
  then have "q = p + of_nat (4096 * d)" by (metis unsigned_word_eqI)
  then show "q \<in> set (pages_from p n)" using d(2) by (auto simp: pages_from_def)
qed

lemma page_range:
  "(a + 4095) div 4096 * 4096 \<le> 4096 * d \<and>
   4096 * d < (a + 4095) div 4096 * 4096 + 4096 * ((e - (a + 4095) div 4096 * 4096) div 4096) \<longleftrightarrow>
   a \<le> 4096 * d \<and> 4096 * d + 4096 \<le> (e :: nat)"
proof -
  define A N where "A = (a + 4095) div 4096" and "N = (e - A * 4096) div 4096"
  have lo: "A * 4096 \<le> 4096 * d \<longleftrightarrow> a \<le> 4096 * d"
  proof -
    have "A * 4096 \<le> 4096 * d \<longleftrightarrow> A < Suc d" by auto
    also have "\<dots> \<longleftrightarrow> a + 4095 < Suc d * 4096" unfolding A_def by (rule div_less_iff_less_mult) simp
    also have "\<dots> \<longleftrightarrow> a \<le> 4096 * d" by auto
    finally show ?thesis .
  qed
  have hi: "4096 * d < A * 4096 + 4096 * N \<longleftrightarrow> 4096 * d + 4096 \<le> e" if le: "A \<le> d"
  proof -
    have "4096 * d < A * 4096 + 4096 * N \<longleftrightarrow> Suc (d - A) \<le> N" using le by linarith
    also have "\<dots> \<longleftrightarrow> Suc (d - A) * 4096 \<le> e - A * 4096"
      unfolding N_def by (rule less_eq_div_iff_mult_less_eq) simp
    also have "\<dots> \<longleftrightarrow> 4096 * d + 4096 \<le> e" using le by (simp add: diff_mult_distrib) linarith
    finally show ?thesis .
  qed
  have "A \<le> d" if "A * 4096 \<le> 4096 * d" using that by simp
  then show ?thesis unfolding A_def [symmetric] N_def [symmetric] using lo hi by blast
qed

lemma freerange_ok:
  assumes k: "kmem_ok s ps" and v: "KERNBASE \<le> kend s" "kend s \<le> vstart" "vstart \<le> vend" "vend \<le> P2V PHYSTOP"
    and ps: "\<And>p. p \<in> set ps \<Longrightarrow> p < vstart"
  shows "wp (freerange vstart vend s) (\<lambda>_ t. \<exists>qs. kmem_ok t qs \<and> kframe s t \<and>
    set qs = set ps \<union> {q. q mod 4096 = 0 \<and> vstart \<le> q \<and> unat q + 4096 \<le> unat vend})"
proof -
  let ?p = "PGROUNDUP vstart" and ?n = "(unat vend - unat (PGROUNDUP vstart)) div 4096"
  have vend: "unat vend \<le> 0x8E000000" "unat vstart \<le> unat vend" "0x80000000 \<le> unat vstart"
    using v by (simp_all add: word_le_nat_alt P2V_def KERNBASE_def PHYSTOP_def)
  then have p: "unat ?p = (unat vstart + 4095) div 4096 * 4096" by (intro PGROUNDUP_unat) simp
  have pa: "?p mod 4096 = 0" by (simp add: aligned_iff p)
  have fit: "unat ?p + 4096 * ?n < 2 ^ 32"
  proof -
    have "unat ?p \<le> unat vstart + 4095" unfolding p by (rule div_times_less_eq_dividend)
    moreover have "4096 * ?n \<le> unat vend - unat ?p" by (rule times_div_less_eq_dividend)
    ultimately have "unat ?p + 4096 * ?n \<le> unat vend + 4095" using vend by linarith
    then show ?thesis using vend by simp
  qed
  have range: "set (pages_from ?p ?n) = {q. q mod 4096 = 0 \<and> vstart \<le> q \<and> unat q + 4096 \<le> unat vend}"
    (is "_ = ?Q")
  proof -
    have "unat ?p \<le> a \<and> a < unat ?p + 4096 * ?n \<longleftrightarrow> unat vstart \<le> a \<and> a + 4096 \<le> unat vend"
      if "a mod 4096 = 0" for a
    proof -
      from that obtain d where d: "a = 4096 * d" by auto
      show ?thesis unfolding d p by (rule page_range)
    qed
    note eq = this
    have "q mod 4096 = 0 \<and> ?p \<le> q \<and> unat q < unat ?p + 4096 * ?n \<longleftrightarrow>
        q mod 4096 = 0 \<and> vstart \<le> q \<and> unat q + 4096 \<le> unat vend" for q
      unfolding aligned_iff word_le_nat_alt by (cases "unat q mod 4096 = 0", simp_all only: eq simp_thms)
    then show ?thesis unfolding pages_from_set [OF pa fit] by (rule Collect_cong)
  qed
  have ok: "pg_ok s q \<and> q \<notin> set ps" if "q \<in> ?Q" for q
  proof -
    have q: "q mod 4096 = 0" "vstart \<le> q" "unat q + 4096 \<le> unat vend" using that by auto
    then have "unat (q - KERNBASE) = unat q - 0x80000000"
      using vend by (subst unat_sub) (simp_all add: word_le_nat_alt KERNBASE_def)
    then have "V2P q < PHYSTOP" using q vend by (simp add: V2P_def word_less_nat_alt PHYSTOP_def)
    moreover have "q \<notin> set ps" using q(2) ps [of q] by (auto simp: not_less [symmetric])
    moreover have "kend s \<le> q" using q(2) v(2) by (rule order_trans [rotated])
    ultimately show ?thesis using q(1) by (simp add: pg_ok_def PGSIZE_def)
  qed
  show ?thesis
  proof (cases "unat ?p \<le> unat vend")
    case True
    have "wp (freerange_loop (2 ^ 20) ?p vend s) (\<lambda>_ t. kmem_ok t (rev (pages_from ?p ?n) @ ps) \<and> kframe s t)"
    proof (rule freerange_loop_ok [OF k])
      show "unat ?p + 4096 * ?n \<le> unat vend" "unat vend < unat ?p + 4096 * ?n + 4096" using True by linarith+
      show "unat vend + 4096 < 2 ^ 32" using vend by simp
      show "?n < 2 ^ 20" using vend by (intro less_mult_imp_div_less) simp
      show "pg_ok s q \<and> q \<notin> set ps" if "q \<in> set (pages_from ?p ?n)" for q
        using ok [of q] that unfolding range by blast
    qed
    then show ?thesis unfolding freerange_def
    proof (rule wp_mono)
      fix u :: unit and t
      assume "kmem_ok t (rev (pages_from ?p ?n) @ ps) \<and> kframe s t"
      moreover have "set (rev (pages_from ?p ?n) @ ps) = set ps \<union> ?Q"
        unfolding set_append set_rev range by (rule Un_commute)
      ultimately show "\<exists>qs. kmem_ok t qs \<and> kframe s t \<and> set qs = set ps \<union> ?Q" by blast
    qed
  next
    case False
    then have q: "?Q = {}" unfolding range [symmetric] by (simp add: pages_from_def)
    have "\<not> ?p + 4096 \<le> vend" using False unat_4096_le [of ?p vend] p vend by simp
    moreover obtain k' where "(2 :: nat) ^ 20 = Suc k'" by (metis not0_implies_Suc power_not_zero zero_neq_numeral)
    ultimately have "freerange vstart vend s = Ret () s" 
      unfolding freerange_def by (simp only: freerange_loop.simps PGSIZE_def if_False)
    then show ?thesis using k unfolding q by (auto simp: kframe_def)
  qed
qed

section \<open>The properties\<close>

lemma kmem_ok_boot: "freelist s = 0 \<Longrightarrow> kmem_ok ((initlock LKmem nm s)\<lparr>use_lock := False\<rparr>) []"
  by (simp add: kmem_ok_def initlock_def)

lemma pg_ok_iff: "KERNBASE \<le> kend s \<Longrightarrow>
  pg_ok s q \<longleftrightarrow> q mod 4096 = 0 \<and> kend s \<le> q \<and> unat q + 4096 \<le> 0x8E000000"
proof -
  assume k: "KERNBASE \<le> kend s"
  show ?thesis
  proof (cases "q mod 4096 = 0 \<and> kend s \<le> q")
    case True
    then have "unat (q - KERNBASE) = unat q - 0x80000000" "0x80000000 \<le> unat q"
      using k by (simp_all add: unat_sub word_le_nat_alt KERNBASE_def)
    moreover obtain d where "unat q = 4096 * d" using aligned_unat [of q] True by auto
    ultimately show ?thesis using True by (simp add: pg_ok_def PGSIZE_def V2P_def PHYSTOP_def word_less_nat_alt) arith
  qed (auto simp: pg_ok_def PGSIZE_def)
qed

text \<open>C18: Booting as \<open>main\<close> does, with \<open>kinit1(end, P2V(4*1024*1024))\<close> and then
  \<open>kinit2(P2V(4*1024*1024), P2V(PHYSTOP))\<close>, puts on the free list exactly the pages that \<open>kfree\<close> accepts,
  that is every aligned page between the end of the kernel image and the top of physical memory, each once, and turns locking on.\<close>

theorem kinit_frees_all:
  assumes "freelist s = 0" and "KERNBASE \<le> kend s" "kend s \<le> P2V 0x400000" and "cpu_ok s"
  shows "wp (rbind (kinit1 (kend s) (P2V 0x400000) s) (\<lambda>_. kinit2 (P2V 0x400000) (P2V PHYSTOP)))
    (\<lambda>_ t. use_lock t \<and> (\<exists>ps. kmem_ok t ps \<and> set ps = {p. pg_ok s p}))"
proof -
  let ?b = "(initlock LKmem ''kmem'' s)\<lparr>use_lock := False\<rparr>" and ?m = "P2V 0x400000"
  have b: "kend ?b = kend s" "cpu_ok ?b" "lfree LKmem ?b"
    using assms(4) by (simp_all add: initlock_def cpu_ok_def me_def lfree_def me_opt_def)
  have m: "unat ?m = 0x80400000" "unat (P2V PHYSTOP) = 0x8E000000" by (simp_all add: P2V_def KERNBASE_def PHYSTOP_def)
  have "wp (freerange (kend s) ?m ?b) (\<lambda>_ t. \<exists>qs. kmem_ok t qs \<and> kframe ?b t \<and>
      set qs = {q. q mod 4096 = 0 \<and> kend s \<le> q \<and> unat q + 4096 \<le> unat ?m})"
    using freerange_ok [OF kmem_ok_boot [OF assms(1)], of "''kmem''" "kend s" ?m] assms b
    by (simp add: word_le_nat_alt m)
  moreover have "wp (freerange ?m (P2V PHYSTOP) t) (\<lambda>_ u. \<exists>ps. kmem_ok (u\<lparr>use_lock := True\<rparr>) ps \<and> set ps = {p. pg_ok s p})"
    if t: "kmem_ok t qs" "kframe ?b t" "set qs = {q. q mod 4096 = 0 \<and> kend s \<le> q \<and> unat q + 4096 \<le> unat ?m}" for t qs
  proof -
    have k: "kend t = kend s" "kctx t = kctx ?b" using t(2) b by (simp_all add: kframe_def)
    have "wp (freerange ?m (P2V PHYSTOP) t) (\<lambda>_ u. \<exists>ps. kmem_ok u ps \<and> kframe t u \<and>
        set ps = set qs \<union> {q. q mod 4096 = 0 \<and> ?m \<le> q \<and> unat q + 4096 \<le> unat (P2V PHYSTOP)})"
      using t(3) assms k by (intro freerange_ok [OF t(1)]) (auto simp: m word_le_nat_alt word_less_nat_alt)
    then show ?thesis
    proof (rule wp_mono, elim exE conjE)
      fix u ps
      assume u: "kmem_ok u ps" "kframe t u"
        "set ps = set qs \<union> {q. q mod 4096 = 0 \<and> ?m \<le> q \<and> unat q + 4096 \<le> unat (P2V PHYSTOP)}"
      have "kctx u = kctx ?b" "kend u = kend s" using u(2) k by (simp_all add: kframe_def)
      then have "kmem_ok (u\<lparr>use_lock := True\<rparr>) ps"
        using u(1) b by (simp add: kmem_ok_def pg_ok_def kctx_def cpu_ok_def me_def me_opt_def lfree_def)
      moreover have "set ps = {p. pg_ok s p}"
        unfolding u(3) t(3) pg_ok_iff [OF assms(2)] m using assms(3) by (auto simp: word_le_nat_alt m aligned_iff)
      ultimately show "\<exists>ps. kmem_ok (u\<lparr>use_lock := True\<rparr>) ps \<and> set ps = {p. pg_ok s p}" by blast
    qed
  qed
  ultimately show ?thesis
    unfolding kinit1_def kinit2_def by (elim wp_rbindI) (auto simp: wp_rbind elim: wp_mono)
qed

definition demo_kmem :: "u32 \<Rightarrow> mem \<Rightarrow> kmemsys" where
  "demo_kmem f m = demo_kern \<lparr>mem = m, use_lock = True, freelist = f, kend = 0x80110000, kdata = 0x80108000, kpgdir = 0, cr3 = 0, esp0 = 0\<rparr>"

lemma demo_kmem_simps [simp]:
  "mem (demo_kmem f m) = m" "freelist (demo_kmem f m) = f" "kend (demo_kmem f m) = 0x80110000" "kready (demo_kmem f m)"
  using kready_demo by (simp_all add: demo_kmem_def) (simp_all add: demo_kern_def)

theorem kinit_frees_all_witness:
  "wp (rbind (kinit1 0x80110000 (P2V 0x400000) (demo_kmem 0 (\<lambda>_. 0))) (\<lambda>_. kinit2 (P2V 0x400000) (P2V PHYSTOP)))
    (\<lambda>_ t. use_lock t \<and> (\<exists>ps. kmem_ok t ps \<and> set ps = {p. pg_ok (demo_kmem 0 (\<lambda>_. 0)) p}))"
  using kinit_frees_all [of "demo_kmem 0 (\<lambda>_. 0)"] by (simp add: kreadyD KERNBASE_def P2V_def)

text \<open>C15: \<open>kfree\<close> of a page that is not free puts it in front of the free list, touches no byte outside the page
  and leaves locks, CPUs and processes as they were; the next \<open>kalloc\<close> returns this very page, filled with the
  byte 1 apart from its first word, and gives back the free list of before. \<open>kalloc\<close> on an empty list returns 0, and \<open>kfree\<close> of an
  address outside the range of free memory or not at a page boundary panics.\<close>

theorem kfree_kalloc:
  assumes "kmem_ok s ps"
  shows "(pg_ok s v \<and> v \<notin> set ps \<longrightarrow>
      wp (kfree v s) (\<lambda>_ t. kmem_ok t (v # ps) \<and> kframe s t \<and> (\<forall>x. x \<notin> page v \<longrightarrow> mem t x = mem s x) \<and>
        wp (kalloc t) (\<lambda>p u. p = v \<and> kmem_ok u ps \<and> kframe s u \<and> mem u = mem t \<and>
          (\<forall>x. x \<in> page v \<and> x \<notin> region v 4 \<longrightarrow> mem u x = 1)))) \<and>
    (ps = [] \<longrightarrow> kalloc s = Ret 0 s) \<and>
    (\<not> pg_ok s v \<longrightarrow> kfree v s = Panic ''kfree'')"
proof (intro conjI impI)
  assume v: "pg_ok s v \<and> v \<notin> set ps"
  then obtain t where t: "kfree v s = Ret () t" "kmem_ok t (v # ps)" "\<forall>x. x \<notin> page v \<longrightarrow> mem t x = mem s x" "kframe s t"
    using kfree_ok [OF assms, of v] by (auto simp: wp_iff)
  moreover have "mem t x = 1" if "x \<in> page v" "x \<notin> region v 4" for x
    using that kfree_run [of s v] assms v t(1) by (auto simp: kmem_ok_def st32_other memset_eq page_def PGSIZE_def)
  ultimately show "wp (kfree v s) (\<lambda>_ t. kmem_ok t (v # ps) \<and> kframe s t \<and> (\<forall>x. x \<notin> page v \<longrightarrow> mem t x = mem s x) \<and>
        wp (kalloc t) (\<lambda>p u. p = v \<and> kmem_ok u ps \<and> kframe s u \<and> mem u = mem t \<and>
          (\<forall>x. x \<in> page v \<and> x \<notin> region v 4 \<longrightarrow> mem u x = 1)))"
    using kalloc_ok [OF t(2)] by (auto elim!: wp_mono intro: pa.frame_trans)
next
  assume "ps = []"
  then show "kalloc s = Ret 0 s" using assms kalloc_run [of s] by (simp add: kmem_ok_def)
next
  assume "\<not> pg_ok s v"
  then show "kfree v s = Panic ''kfree''" by (auto simp: kfree_def pg_ok_def not_le not_less)
qed

lemma demo_kmem_free: "kmem_ok (demo_kmem 0x80400000 (\<lambda>_. 0)) [0x80400000]"
  "pg_ok (demo_kmem 0x80400000 (\<lambda>_. 0)) 0x80401000" "\<not> pg_ok (demo_kmem 0x80400000 (\<lambda>_. 0)) 0x80401800"
  by (simp_all add: kmem_ok_def pg_ok_def PGSIZE_def V2P_def KERNBASE_def PHYSTOP_def ld32_def kreadyD)

theorem kfree_kalloc_witness:
  "wp (kfree 0x80401000 (demo_kmem 0x80400000 (\<lambda>_. 0))) (\<lambda>_ t. kmem_ok t [0x80401000, 0x80400000] \<and>
      wp (kalloc t) (\<lambda>p u. p = 0x80401000 \<and> kmem_ok u [0x80400000] \<and> mem u 0x80401004 = 1)) \<and>
    kfree 0x80401800 (demo_kmem 0x80400000 (\<lambda>_. 0)) = Panic ''kfree''"
  using kfree_kalloc [OF demo_kmem_free(1), where v = "0x80401000"] kfree_kalloc [OF demo_kmem_free(1), where v = "0x80401800"] demo_kmem_free
  by (auto simp: page_def region_iff elim!: wp_mono)

end
