(* ===== verification/Vm.thy ===== *)
theory Vm
  imports Page_Alloc
begin

text \<open>
  vm.c: the two-level page tables of the x86. A page directory is the kernel address of its page;
  its entries and those of the page tables are 32-bit words in kernel memory. A null pointer is the
  address 0, and following one is \<open>Undef\<close>. Loops over page addresses carry the number of pages of the address
  space as a bound; one that takes more steps has wrapped around and never ends. \<open>cprintf\<close> output is not
  modelled.
\<close>

definition EXTMEM :: u32 where "EXTMEM = 0x100000"
definition DEVSPACE :: u32 where "DEVSPACE = 0xFE000000"
definition KERNLINK :: u32 where "KERNLINK = KERNBASE + EXTMEM"
definition NPDENTRIES :: nat where "NPDENTRIES = 1024"
definition KSTACKSIZE :: u32 where "KSTACKSIZE = 4096"
definition PTE_P :: u32 where "PTE_P = 1"
definition PTE_W :: u32 where "PTE_W = 2"
definition PTE_U :: u32 where "PTE_U = 4"
definition PDX :: "u32 \<Rightarrow> u32" where "PDX va = drop_bit 22 va AND 0x3FF"
definition PTX :: "u32 \<Rightarrow> u32" where "PTX va = drop_bit 12 va AND 0x3FF"
definition PGADDR :: "u32 \<Rightarrow> u32 \<Rightarrow> u32 \<Rightarrow> u32" where
  "PGADDR d t off = push_bit 22 d OR push_bit 12 t OR off"
definition PTE_ADDR :: "u32 \<Rightarrow> u32" where "PTE_ADDR pte = pte AND NOT 0xFFF"
definition PTE_FLAGS :: "u32 \<Rightarrow> u32" where "PTE_FLAGS pte = pte AND 0xFFF"

section \<open>Page tables\<close>

definition walkpgdir :: "u32 \<Rightarrow> u32 \<Rightarrow> bool \<Rightarrow> 'z kmemsys_scheme \<Rightarrow> (u32, 'z kmemsys_scheme) outcome" where
  "walkpgdir pgd va alloc s =
     (let pde = pgd + 4 * PDX va in
      if ld32 (mem s) pde AND PTE_P \<noteq> 0
      then Ret (P2V (PTE_ADDR (ld32 (mem s) pde)) + 4 * PTX va) s
      else if \<not> alloc then Ret 0 s
      else
        rbind (kalloc s) (\<lambda>pgtab s.
        if pgtab = 0 then Ret 0 s
        else
          let s = set_mem (snd (memset (mem s) pgtab 0 PGSIZE)) s;
              s = set_mem (st32 (mem s) pde (V2P pgtab OR PTE_P OR PTE_W OR PTE_U)) s in
          Ret (pgtab + 4 * PTX va) s))"

fun mappages_loop :: "nat \<Rightarrow> u32 \<Rightarrow> u32 \<Rightarrow> u32 \<Rightarrow> u32 \<Rightarrow> u32 \<Rightarrow> 'z kmemsys_scheme \<Rightarrow> (int, 'z kmemsys_scheme) outcome" where
  "mappages_loop 0 pgd a lst pa perm s = Spin"
| "mappages_loop (Suc k) pgd a lst pa perm s =
     rbind (walkpgdir pgd a True s) (\<lambda>pte s.
     if pte = 0 then Ret (-1) s
     else if ld32 (mem s) pte AND PTE_P \<noteq> 0 then Panic ''remap''
     else
       let s = set_mem (st32 (mem s) pte (pa OR perm OR PTE_P)) s in
       if a = lst then Ret 0 s
       else mappages_loop k pgd (a + PGSIZE) lst (pa + PGSIZE) perm s)"

definition mappages :: "u32 \<Rightarrow> u32 \<Rightarrow> u32 \<Rightarrow> u32 \<Rightarrow> u32 \<Rightarrow> 'z kmemsys_scheme \<Rightarrow> (int, 'z kmemsys_scheme) outcome" where
  "mappages pgd va n pa perm s =
     mappages_loop (2 ^ 20) pgd (PGROUNDDOWN va) (PGROUNDDOWN (va + n - 1)) pa perm s"

fun deallocuvm_loop :: "nat \<Rightarrow> u32 \<Rightarrow> u32 \<Rightarrow> u32 \<Rightarrow> 'z kmemsys_scheme \<Rightarrow> (unit, 'z kmemsys_scheme) outcome" where
  "deallocuvm_loop 0 pgd a oldsz s = Spin"
| "deallocuvm_loop (Suc k) pgd a oldsz s =
     (if \<not> a < oldsz then Ret () s
      else
        rbind (walkpgdir pgd a False s) (\<lambda>pte s.
        if pte = 0 then
          let a = PGADDR (PDX a + 1) 0 0 - PGSIZE in
          deallocuvm_loop k pgd (a + PGSIZE) oldsz s
        else if ld32 (mem s) pte AND PTE_P \<noteq> 0 then
          let pa = PTE_ADDR (ld32 (mem s) pte) in
          if pa = 0 then Panic ''kfree''
          else
            rbind (kfree (P2V pa) s) (\<lambda>_ s.
            deallocuvm_loop k pgd (a + PGSIZE) oldsz (set_mem (st32 (mem s) pte 0) s))
        else deallocuvm_loop k pgd (a + PGSIZE) oldsz s))"

definition deallocuvm :: "u32 \<Rightarrow> u32 \<Rightarrow> u32 \<Rightarrow> 'z kmemsys_scheme \<Rightarrow> (u32, 'z kmemsys_scheme) outcome" where
  "deallocuvm pgd oldsz newsz s =
     (if oldsz \<le> newsz then Ret oldsz s
      else rbind (deallocuvm_loop (2 ^ 20) pgd (PGROUNDUP newsz) oldsz s) (\<lambda>_ s. Ret newsz s))"

definition freevm :: "u32 \<Rightarrow> 'z kmemsys_scheme \<Rightarrow> (unit, 'z kmemsys_scheme) outcome" where
  "freevm pgd s =
     (if pgd = 0 then Panic ''freevm: no pgdir''
      else
        rbind (deallocuvm pgd KERNBASE 0 s) (\<lambda>_ s.
        rbind (rfor [0..<NPDENTRIES] (\<lambda>i s.
            let pde = ld32 (mem s) (pgd + 4 * of_nat i) in
            if pde AND PTE_P \<noteq> 0 then kfree (P2V (PTE_ADDR pde)) s else Ret () s) s) (\<lambda>_ s.
        kfree pgd s)))"

text \<open>The table \<open>kmap\<close>: virtual address, first and last physical address, permissions.\<close>

definition kmap :: "'z kmemsys_scheme \<Rightarrow> (u32 \<times> u32 \<times> u32 \<times> u32) list" where
  "kmap s =
     [(KERNBASE, 0, EXTMEM, PTE_W),
      (KERNLINK, V2P KERNLINK, V2P (kdata s), 0),
      (kdata s, V2P (kdata s), PHYSTOP, PTE_W),
      (DEVSPACE, DEVSPACE, 0, PTE_W)]"

fun setupkvm_loop :: "(u32 \<times> u32 \<times> u32 \<times> u32) list \<Rightarrow> u32 \<Rightarrow> 'z kmemsys_scheme \<Rightarrow> (u32, 'z kmemsys_scheme) outcome" where
  "setupkvm_loop [] pgd s = Ret pgd s"
| "setupkvm_loop ((virt, phys_start, phys_end, perm) # ks) pgd s =
     rbind (mappages pgd virt (phys_end - phys_start) phys_start perm s) (\<lambda>r s.
     if r < 0 then rbind (freevm pgd s) (\<lambda>_ s. Ret 0 s)
     else setupkvm_loop ks pgd s)"

definition setupkvm :: "'z kmemsys_scheme \<Rightarrow> (u32, 'z kmemsys_scheme) outcome" where
  "setupkvm s =
     rbind (kalloc s) (\<lambda>pgd s.
     if pgd = 0 then Ret 0 s
     else
       let s = set_mem (snd (memset (mem s) pgd 0 PGSIZE)) s in
       if DEVSPACE < P2V PHYSTOP then Panic ''PHYSTOP too high''
       else setupkvm_loop (kmap s) pgd s)"

definition switchkvm :: "'z kmemsys_scheme \<Rightarrow> 'z kmemsys_scheme" where
  "switchkvm s = s\<lparr>cr3 := V2P (kpgdir s)\<rparr>"

definition kvmalloc :: "'z kmemsys_scheme \<Rightarrow> (unit, 'z kmemsys_scheme) outcome" where
  "kvmalloc s = rbind (setupkvm s) (\<lambda>p s. Ret () (switchkvm (s\<lparr>kpgdir := p\<rparr>)))"

text \<open>Of the task state segment only the kernel stack pointer matters to what follows.\<close>

definition switchuvm :: "nat option \<Rightarrow> 'z kmemsys_scheme \<Rightarrow> (unit, 'z kmemsys_scheme) outcome" where
  "switchuvm po s =
     (case po of
        None \<Rightarrow> Panic ''switchuvm: no process''
      | Some p \<Rightarrow>
          if kstack (procs s p) = 0 then Panic ''switchuvm: no kstack''
          else if pgdir (procs s p) = 0 then Panic ''switchuvm: no pgdir''
          else
            rbind (pushcli s) (\<lambda>_ s.
            rbind (mycpu s) (\<lambda>_ s.
            let s = s\<lparr>esp0 := kstack (procs s p) + KSTACKSIZE\<rparr>;
                s = s\<lparr>cr3 := V2P (pgdir (procs s p))\<rparr> in
            popcli s)))"

section \<open>User memory\<close>

definition inituvm :: "u32 \<Rightarrow> byte list \<Rightarrow> 'z kmemsys_scheme \<Rightarrow> (unit, 'z kmemsys_scheme) outcome" where
  "inituvm pgd init s =
     (if 4096 \<le> length init then Panic ''inituvm: more than a page''
      else
        rbind (kalloc s) (\<lambda>m s.
        if m = 0 then Undef
        else
          let s = set_mem (snd (memset (mem s) m 0 PGSIZE)) s in
          rbind (mappages pgd 0 PGSIZE (V2P m) (PTE_W OR PTE_U) s) (\<lambda>_ s.
          Ret () (set_mem (store (mem s) m init) s))))"

fun allocuvm_loop :: "nat \<Rightarrow> u32 \<Rightarrow> u32 \<Rightarrow> u32 \<Rightarrow> u32 \<Rightarrow> 'z kmemsys_scheme \<Rightarrow> (u32, 'z kmemsys_scheme) outcome" where
  "allocuvm_loop 0 pgd a oldsz newsz s = Spin"
| "allocuvm_loop (Suc k) pgd a oldsz newsz s =
     (if \<not> a < newsz then Ret newsz s
      else
        rbind (kalloc s) (\<lambda>m s.
        if m = 0 then rbind (deallocuvm pgd newsz oldsz s) (\<lambda>_ s. Ret 0 s)
        else
          let s = set_mem (snd (memset (mem s) m 0 PGSIZE)) s in
          rbind (mappages pgd a PGSIZE (V2P m) (PTE_W OR PTE_U) s) (\<lambda>r s.
          if r < 0 then
            rbind (deallocuvm pgd newsz oldsz s) (\<lambda>_ s.
            rbind (kfree m s) (\<lambda>_ s. Ret 0 s))
          else allocuvm_loop k pgd (a + PGSIZE) oldsz newsz s)))"

definition allocuvm :: "u32 \<Rightarrow> u32 \<Rightarrow> u32 \<Rightarrow> 'z kmemsys_scheme \<Rightarrow> (u32, 'z kmemsys_scheme) outcome" where
  "allocuvm pgd oldsz newsz s =
     (if KERNBASE \<le> newsz then Ret 0 s
      else if newsz < oldsz then Ret oldsz s
      else allocuvm_loop (2 ^ 20) pgd (PGROUNDUP oldsz) oldsz newsz s)"

definition clearpteu :: "u32 \<Rightarrow> u32 \<Rightarrow> 'z kmemsys_scheme \<Rightarrow> (unit, 'z kmemsys_scheme) outcome" where
  "clearpteu pgd uva s =
     rbind (walkpgdir pgd uva False s) (\<lambda>pte s.
     if pte = 0 then Panic ''clearpteu''
     else Ret () (set_mem (st32 (mem s) pte (ld32 (mem s) pte AND NOT PTE_U)) s))"

fun copyuvm_loop :: "nat \<Rightarrow> u32 \<Rightarrow> u32 \<Rightarrow> u32 \<Rightarrow> u32 \<Rightarrow> 'z kmemsys_scheme \<Rightarrow> (u32, 'z kmemsys_scheme) outcome" where
  "copyuvm_loop 0 pgd d i n s = Spin"
| "copyuvm_loop (Suc k) pgd d i n s =
     (if \<not> i < n then Ret d s
      else
        rbind (walkpgdir pgd i False s) (\<lambda>pte s.
        if pte = 0 then Panic ''copyuvm: pte should exist''
        else if ld32 (mem s) pte AND PTE_P = 0 then Panic ''copyuvm: page not present''
        else
          let pa = PTE_ADDR (ld32 (mem s) pte);
              flags = PTE_FLAGS (ld32 (mem s) pte) in
          rbind (kalloc s) (\<lambda>m s.
          if m = 0 then rbind (freevm d s) (\<lambda>_ s. Ret 0 s)
          else
            let s = set_mem (snd (memmove (mem s) m (P2V pa) PGSIZE)) s in
            rbind (mappages d i PGSIZE (V2P m) flags s) (\<lambda>r s.
            if r < 0 then
              rbind (kfree m s) (\<lambda>_ s.
              rbind (freevm d s) (\<lambda>_ s. Ret 0 s))
            else copyuvm_loop k pgd d (i + PGSIZE) n s))))"

definition copyuvm :: "u32 \<Rightarrow> u32 \<Rightarrow> 'z kmemsys_scheme \<Rightarrow> (u32, 'z kmemsys_scheme) outcome" where
  "copyuvm pgd n s =
     rbind (setupkvm s) (\<lambda>d s.
     if d = 0 then Ret 0 s else copyuvm_loop (2 ^ 20) pgd d 0 n s)"

definition uva2ka :: "u32 \<Rightarrow> u32 \<Rightarrow> 'z kmemsys_scheme \<Rightarrow> (u32, 'z kmemsys_scheme) outcome" where
  "uva2ka pgd uva s =
     rbind (walkpgdir pgd uva False s) (\<lambda>pte s.
     if pte = 0 then Undef
     else if ld32 (mem s) pte AND PTE_P = 0 then Ret 0 s
     else if ld32 (mem s) pte AND PTE_U = 0 then Ret 0 s
     else Ret (P2V (PTE_ADDR (ld32 (mem s) pte))) s)"

text \<open>\<open>copyout\<close> copies a list of bytes; \<open>len\<close> is its length. The bound is the number of bytes: every
  round copies at least one.\<close>

fun copyout_loop :: "nat \<Rightarrow> u32 \<Rightarrow> u32 \<Rightarrow> byte list \<Rightarrow> 'z kmemsys_scheme \<Rightarrow> (int, 'z kmemsys_scheme) outcome" where
  "copyout_loop 0 pgd va buf s = Spin"
| "copyout_loop (Suc k) pgd va buf s =
     (if buf = [] then Ret 0 s
      else
        let va0 = PGROUNDDOWN va in
        rbind (uva2ka pgd va0 s) (\<lambda>pa0 s.
        if pa0 = 0 then Ret (-1) s
        else
          let n = min (unat (PGSIZE - (va - va0))) (length buf);
              s = set_mem (store (mem s) (pa0 + (va - va0)) (take n buf)) s in
          copyout_loop k pgd (va0 + PGSIZE) (drop n buf) s))"

definition copyout :: "u32 \<Rightarrow> u32 \<Rightarrow> byte list \<Rightarrow> 'z kmemsys_scheme \<Rightarrow> (int, 'z kmemsys_scheme) outcome" where
  "copyout pgd va p s = copyout_loop (Suc (length p)) pgd va p s"

end
