(* ===== verification/Vm_Spec.thy ===== *)
theory Vm_Spec
  imports Vm
begin

text \<open>
  What a page table means, and the laws of \<open>walkpgdir\<close> and \<open>mappages\<close>. \<open>entry m pgd va\<close> is the page table
  entry that the hardware finds for a virtual address, 0 where the directory has no table; \<open>vm_ok\<close> says that the
  pages of a page table are allocated, apart from each other and from the free pages.
\<close>

section \<open>Indices\<close>

definition vpn :: "u32 \<Rightarrow> nat" where
  "vpn va = unat va div 4096"

lemma unat_and_mask10: "unat (w AND 0x3FF :: u32) = unat w mod 1024"
proof -
  have "(0x3FF :: u32) = mask 10" by (simp add: mask_eq_exp_minus_1)
  then have "w AND 0x3FF = take_bit 10 w" by (simp add: take_bit_eq_mask)
  then show ?thesis by (simp add: take_bit_eq_mod unat_mod_distrib)
qed

lemma unat_drop_bit32: "unat (drop_bit n w :: u32) = unat w div 2 ^ n"
  using unat32_less [of w] by (simp only: unsigned_drop_bit_eq) (simp add: drop_bit_eq_div take_bit_nat_eq_self)

lemma PDX_unat: "unat (PDX va) = vpn va div 1024"
proof -
  have "unat va div 4194304 < 1024" using unat32_less [of va] by (simp add: less_mult_imp_div_less)
  then show ?thesis by (simp add: PDX_def unat_and_mask10 unat_drop_bit32 vpn_def div_mult2_eq [symmetric])
qed

lemma PTX_unat: "unat (PTX va) = vpn va mod 1024"
  by (simp add: PTX_def unat_and_mask10 unat_drop_bit32 vpn_def)

lemma PX_less: "unat (PDX va) < 1024" "unat (PTX va) < 1024"
  by (simp_all add: PDX_def PTX_def unat_and_mask10)

lemma PX_eq: "PDX va = PDX va' \<and> PTX va = PTX va' \<longleftrightarrow> vpn va = vpn va'"
proof -
  have "vpn va = vpn va'" if "vpn va div 1024 = vpn va' div 1024" "vpn va mod 1024 = vpn va' mod 1024"
    using that by (metis div_mult_mod_eq)
  then show ?thesis unfolding word_unat_eq_iff PDX_unat PTX_unat by auto
qed

section \<open>Slots\<close>

lemma slot_unat: "p mod 4096 = 0 \<Longrightarrow> unat i < 1024 \<Longrightarrow> unat (p + 4 * i :: u32) = unat p + 4 * unat i"
proof -
  assume p: "p mod 4096 = 0" and i: "unat i < 1024"
  obtain q where "unat p = 4096 * q" "q < 2 ^ 20" using aligned_unat [OF p] by blast
  moreover have "4 * i = of_nat (4 * unat i)" by simp
  ultimately show ?thesis using i unat_plus_nowrap [of p "4 * unat i"] by simp
qed

lemma region4: "unat x mod 4 = 0 \<Longrightarrow> y \<in> region x 4 \<Longrightarrow> unat y div 4 = unat x div 4"
proof -
  assume x: "unat x mod 4 = 0" and y: "y \<in> region x 4"
  obtain i where i: "y = x + of_nat i" "i < 4" using y by (rule region_cases)
  obtain q where q: "unat x = 4 * q" using x by auto
  then have "q < 2 ^ 30" using unat32_less [of x] by simp
  then have "unat y = 4 * q + i" using i q unat_plus_nowrap [of x i] by simp
  then show ?thesis using q i by simp
qed

lemma ld32_cong: "(\<And>x. x \<in> region a 4 \<Longrightarrow> m' x = m x) \<Longrightarrow> ld32 m' a = ld32 m a"
proof -
  assume e: "\<And>x. x \<in> region a 4 \<Longrightarrow> m' x = m x"
  have "a + of_nat i \<in> region a 4" if "i < 4" for i using that by (intro in_region) auto
  from this [of 0] this [of 1] this [of 2] this [of 3] show ?thesis using e by (simp add: ld32_def)
qed

lemma slot_in_page: "p mod 4096 = 0 \<Longrightarrow> unat i < 1024 \<Longrightarrow> region (p + 4 * i) 4 \<subseteq> page p"
proof
  fix x assume p: "p mod 4096 = 0" and i: "unat i < 1024" and "x \<in> region (p + 4 * i) 4"
  then obtain j where j: "x = p + 4 * i + of_nat j" "j < 4" by (auto elim: region_cases)
  then have "x = p + of_nat (4 * unat i + j)" by simp
  moreover have "4 * unat i + j < 4096" using i j by simp
  ultimately show "x \<in> page p" unfolding page_def using in_region [of "4 * unat i + j" 4096 p] by simp
qed

lemma slot_apart:
  assumes "p mod 4096 = 0" "p' mod 4096 = 0" "unat i < 1024" "unat j < 1024" "p \<noteq> p' \<or> i \<noteq> j"
  shows "region (p + 4 * i) 4 \<inter> region (p' + 4 * j) 4 = {}"
proof (cases "p = p'")
  case True
  obtain q where q: "unat p = 4096 * q" using aligned_unat [OF assms(1)] by blast
  have "unat (p + 4 * i) = 4 * (1024 * q + unat i)" "unat (p + 4 * j) = 4 * (1024 * q + unat j)"
    using slot_unat [OF assms(1,3)] slot_unat [OF assms(1,4)] q by simp_all
  moreover have "unat i \<noteq> unat j" using assms(5) True by (simp add: word_unat_eq_iff)
  ultimately have "unat (p + 4 * i) div 4 \<noteq> unat (p + 4 * j) div 4"
    "unat (p + 4 * i) mod 4 = 0" "unat (p + 4 * j) mod 4 = 0" by simp_all
  then show ?thesis using True region4 by (metis disjoint_iff)
next
  case False
  then show ?thesis
    using page_disjoint [OF assms(1,2)] slot_in_page [OF assms(1,3)] slot_in_page [OF assms(2,4)] by blast
qed

lemma ld32_st32_slot:
  assumes "p mod 4096 = 0" "p' mod 4096 = 0" "unat i < 1024" "unat j < 1024"
  shows "ld32 (st32 m (p + 4 * i) w) (p' + 4 * j) = (if p = p' \<and> i = j then w else ld32 m (p' + 4 * j))"
  using slot_apart [OF assms] by (auto intro!: ld32_cong st32_other)

lemma slot_nonzero: "p mod 4096 = 0 \<Longrightarrow> p \<noteq> 0 \<Longrightarrow> unat i < 1024 \<Longrightarrow> p + 4 * i \<noteq> (0 :: u32)"
  using slot_unat [of p i] by (metis unat_eq_0 add_is_0)

section \<open>Entries\<close>

definition pde :: "mem \<Rightarrow> u32 \<Rightarrow> u32 \<Rightarrow> u32" where
  "pde m pgd i = ld32 m (pgd + 4 * i)"

definition tbl :: "mem \<Rightarrow> u32 \<Rightarrow> u32 \<Rightarrow> u32" where
  "tbl m pgd i = P2V (PTE_ADDR (pde m pgd i))"

definition present :: "mem \<Rightarrow> u32 \<Rightarrow> u32 \<Rightarrow> bool" where
  "present m pgd i \<longleftrightarrow> unat i < 1024 \<and> pde m pgd i AND PTE_P \<noteq> 0"

definition entry :: "mem \<Rightarrow> u32 \<Rightarrow> u32 \<Rightarrow> u32" where
  "entry m pgd va = (if present m pgd (PDX va) then ld32 m (tbl m pgd (PDX va) + 4 * PTX va) else 0)"

definition pt_pages :: "mem \<Rightarrow> u32 \<Rightarrow> u32 set" where
  "pt_pages m pgd = insert pgd {tbl m pgd i | i. present m pgd i}"

definition vm_ok :: "'z kmemsys_scheme \<Rightarrow> u32 \<Rightarrow> bool" where
  "vm_ok s pgd \<longleftrightarrow> (\<exists>ps. kmem_ok s ps) \<and> (\<forall>p\<in>pt_pages (mem s) pgd. pg_ok s p \<and> p \<notin> free_pages s) \<and>
     (\<forall>i. present (mem s) pgd i \<longrightarrow> tbl (mem s) pgd i \<noteq> pgd) \<and>
     (\<forall>i j. present (mem s) pgd i \<longrightarrow> present (mem s) pgd j \<longrightarrow> tbl (mem s) pgd i = tbl (mem s) pgd j \<longrightarrow> i = j)"

lemma entry_vpn: "vpn va = vpn va' \<Longrightarrow> entry m pgd va = entry m pgd va'"
  using PX_eq [of va va'] by (simp add: entry_def)

lemma P2V_V2P [simp]: "P2V (V2P a) = a" "V2P (P2V a) = a"
  by (simp_all add: P2V_def V2P_def)

lemma vm_okD:
  assumes "vm_ok s pgd"
  shows "pgd mod 4096 = 0" "pgd \<noteq> 0" "pgd \<notin> free_pages s" "\<exists>ps. kmem_ok s ps"
    "present (mem s) pgd i \<Longrightarrow> pg_ok s (tbl (mem s) pgd i)"
    "present (mem s) pgd i \<Longrightarrow> tbl (mem s) pgd i \<notin> free_pages s"
    "present (mem s) pgd i \<Longrightarrow> tbl (mem s) pgd i mod 4096 = 0"
    "present (mem s) pgd i \<Longrightarrow> tbl (mem s) pgd i \<noteq> 0"
    "present (mem s) pgd i \<Longrightarrow> tbl (mem s) pgd i \<noteq> pgd"
    "present (mem s) pgd i \<Longrightarrow> present (mem s) pgd j \<Longrightarrow> tbl (mem s) pgd i = tbl (mem s) pgd j \<Longrightarrow> i = j"
  using assms pg_ok_aligned pg_ok_nonzero unfolding vm_ok_def pt_pages_def by blast+

text \<open>A store into a page that is not free keeps the allocator as it is.\<close>

lemma put_kept:
  assumes k: "\<exists>ps. kmem_ok s ps" and p: "p mod 4096 = 0" "p \<notin> free_pages s" and r: "\<And>x. x \<notin> page p \<Longrightarrow> m x = mem s x"
  shows "(\<exists>ps. kmem_ok (set_mem m s) ps) \<and> free_pages (set_mem m s) = free_pages s \<and> kframe s (set_mem m s)"
proof -
  have "m x = mem s x" if "q \<in> free_pages s" "x \<in> page q" for q x
  proof -
    have "q mod 4096 = 0" "q \<noteq> p" using that(1) p pa.avail_valid [OF k that(1)] pg_ok_aligned by auto
    then show ?thesis using page_disjoint [of q p] p(1) that(2) by (intro r) auto
  qed
  from pa.put_law [OF k this] show ?thesis by simp
qed

lemma set_pte:
  fixes s :: "'z kmemsys_scheme" and w :: u32
  assumes ok: "vm_ok s pgd" and pr: "present (mem s) pgd (PDX va)"
  defines "t \<equiv> set_mem (st32 (mem s) (tbl (mem s) pgd (PDX va) + 4 * PTX va) w) s"
  shows "vm_ok t pgd \<and> kframe s t \<and> free_pages t = free_pages s \<and> pt_pages (mem t) pgd = pt_pages (mem s) pgd \<and>
    present (mem t) pgd = present (mem s) pgd \<and> (\<forall>i. present (mem s) pgd i \<longrightarrow> tbl (mem t) pgd i = tbl (mem s) pgd i) \<and>
    entry (mem t) pgd = (\<lambda>x. if vpn x = vpn va then w else entry (mem s) pgd x)"
proof -
  let ?p = "tbl (mem s) pgd (PDX va)"
  note d = vm_okD [OF ok]
  have p: "?p mod 4096 = 0" "?p \<noteq> pgd" "?p \<notin> free_pages s" using d pr by blast+
  have out: "st32 (mem s) (?p + 4 * PTX va) w x = mem s x" if "x \<notin> page ?p" for x
    using that slot_in_page [OF p(1) PX_less(2)] by (intro st32_other) blast
  have k: "(\<exists>ps. kmem_ok t ps) \<and> free_pages t = free_pages s \<and> kframe s t"
    unfolding t_def by (rule put_kept [OF d(4) p(1,3) out])
  have "pde (mem t) pgd i = pde (mem s) pgd i" if "unat i < 1024" for i
    using that p d(1) PX_less(2) by (simp add: pde_def t_def ld32_st32_slot)
  then have pde: "present (mem t) pgd i = present (mem s) pgd i"
    "unat i < 1024 \<Longrightarrow> tbl (mem t) pgd i = tbl (mem s) pgd i" for i
    unfolding present_def tbl_def by auto
  have tb: "present (mem t) pgd = present (mem s) pgd" "present (mem s) pgd i \<Longrightarrow> tbl (mem t) pgd i = tbl (mem s) pgd i" for i
    by (rule ext, rule pde(1)) (rule pde(2), simp add: present_def)
  have pp: "pt_pages (mem t) pgd = pt_pages (mem s) pgd"
    unfolding pt_pages_def using tb by (metis (lifting))
  have "entry (mem t) pgd x = (if vpn x = vpn va then w else entry (mem s) pgd x)" for x
  proof (cases "present (mem s) pgd (PDX x)")
    case True
    have "?p = tbl (mem s) pgd (PDX x) \<and> PTX va = PTX x \<longleftrightarrow> vpn x = vpn va"
      using d(10) [OF True pr] PX_eq [of x va] by metis
    then show ?thesis
      using True p d(7) [OF True] tb PX_less by (simp add: entry_def) (simp add: t_def ld32_st32_slot)
  next
    case False
    then have "vpn x \<noteq> vpn va" using pr PX_eq [of x va] by auto
    then show ?thesis using False tb by (simp add: entry_def)
  qed
  then show ?thesis
    using ok k tb pp pa.frame_valid [of s t] unfolding vm_ok_def by (auto simp: fun_eq_iff)
qed

text \<open>\<open>walkpgdir\<close> without allocation reads; with it, a missing table is supplied, full of absent entries, so
  that no translation changes.\<close>

lemma walk_read:
  assumes "vm_ok s pgd"
  shows "walkpgdir pgd va False s =
    Ret (if present (mem s) pgd (PDX va) then tbl (mem s) pgd (PDX va) + 4 * PTX va else 0) s"
  using PX_less by (simp add: walkpgdir_def present_def pde_def tbl_def)

lemma aligned_and: "(p :: u32) mod 4096 = 0 \<longleftrightarrow> p AND 0xFFF = 0"
proof -
  have "(0xFFF :: u32) = mask 12" by (simp add: mask_eq_exp_minus_1)
  then have "p AND 0xFFF = take_bit 12 p" by (simp add: take_bit_eq_mask)
  then show ?thesis by (simp add: take_bit_eq_mod)
qed

lemma PTE_ADDR_or:
  assumes "a mod 4096 = 0" "f AND NOT 0xFFF = 0"
  shows "PTE_ADDR (a OR f) = a"
proof -
  have "a AND NOT 0xFFF = (a AND NOT 0xFFF) OR (a AND 0xFFF)" using assms(1) by (simp add: aligned_and)
  also have "\<dots> = a" by (simp only: bit.conj_disj_distrib [symmetric] bit.disj_cancel_left bit.conj_one_right)
  finally show ?thesis using assms(2) unfolding PTE_ADDR_def bit.conj_disj_distrib2 by simp
qed

lemma add_aligned: "(p :: u32) mod 4096 = 0 \<Longrightarrow> q mod 4096 = 0 \<Longrightarrow> (p + q) mod 4096 = 0"
proof -
  assume "p mod 4096 = 0" "q mod 4096 = 0"
  then have "4096 dvd unat p + unat q" unfolding aligned_iff by (intro dvd_add) auto
  then have "4096 dvd (unat p + unat q) mod 2 ^ 32" by (intro dvd_mod) simp_all
  then show ?thesis by (simp add: aligned_iff unat_word_ariths(1) dvd_eq_mod_eq_0)
qed

lemma V2P_aligned: "p mod 4096 = 0 \<Longrightarrow> V2P p mod 4096 = 0" "p mod 4096 = 0 \<Longrightarrow> P2V p mod 4096 = 0"
proof -
  have "KERNBASE + KERNBASE = 0" by (simp add: KERNBASE_def)
  then have "V2P p = p + KERNBASE" by (simp add: V2P_def diff_eq_eq add.assoc)
  then show "p mod 4096 = 0 \<Longrightarrow> V2P p mod 4096 = 0" "p mod 4096 = 0 \<Longrightarrow> P2V p mod 4096 = 0"
    using add_aligned [of p KERNBASE] by (simp_all add: P2V_def KERNBASE_def)
qed

definition pde_new :: "u32 \<Rightarrow> u32" where
  "pde_new p = V2P p OR PTE_P OR PTE_W OR PTE_U"

lemma pde_new: "p mod 4096 = 0 \<Longrightarrow> P2V (PTE_ADDR (pde_new p)) = p" "pde_new p AND PTE_P \<noteq> 0"
proof -
  assume "p mod 4096 = 0"
  then show "P2V (PTE_ADDR (pde_new p)) = p" unfolding pde_new_def
    by (subst PTE_ADDR_or) (simp_all add: V2P_aligned PTE_P_def PTE_W_def PTE_U_def)
next
  have "bit (pde_new p AND PTE_P) 0" by (simp add: pde_new_def PTE_P_def bit_simps)
  then show "pde_new p AND PTE_P \<noteq> 0" by fastforce
qed

text \<open>Supplying the table for one directory slot.\<close>

lemma new_table:
  fixes s t :: "'z kmemsys_scheme"
  assumes ok: "vm_ok s pgd" and ab: "\<not> present (mem s) pgd (PDX va)" and z: "pa.zeroed p s t"
  defines "u \<equiv> set_mem (st32 (mem t) (pgd + 4 * PDX va) (pde_new p)) t"
  shows "vm_ok u pgd \<and> kframe s u \<and> present (mem u) pgd (PDX va) \<and> tbl (mem u) pgd (PDX va) = p \<and>
    entry (mem u) pgd = entry (mem s) pgd \<and> free_pages u = free_pages s - {p} \<and>
    pt_pages (mem u) pgd = insert p (pt_pages (mem s) pgd) \<and> (\<forall>x. x \<notin> page pgd \<union> page p \<longrightarrow> mem u x = mem s x)"
proof -
  let ?m = "mem u"
  note d = vm_okD [OF ok]
  have z: "p \<in> free_pages s" "p \<noteq> 0" "p mod 4096 = 0" "\<exists>ps. kmem_ok t ps" "free_pages t = free_pages s - {p}"
    "kframe s t" "mem t = (\<lambda>x. if x \<in> page p then 0 else mem s x)"
    using z by (simp_all add: pa.zeroed_def)
  have neq: "p \<noteq> pgd" using z(1) d(3) by blast
  have m: "?m = st32 (mem t) (pgd + 4 * PDX va) (pde_new p)" by (simp add: u_def)
  have out: "?m x = mem t x" if "x \<notin> page pgd" for x
    unfolding m using that slot_in_page [OF d(1) PX_less(1)] by (intro st32_other) blast
  have k: "(\<exists>ps. kmem_ok u ps) \<and> free_pages u = free_pages s - {p} \<and> kframe t u"
    using put_kept [OF z(4) d(1), of ?m] out z(5) d(3) unfolding u_def by simp
  then have fr: "kframe s u" using z(6) pa.frame_trans by blast
  have pde: "pde ?m pgd i = (if i = PDX va then pde_new p else pde (mem s) pgd i)" if i: "unat i < 1024" for i
  proof -
    have "ld32 (mem t) (pgd + 4 * i) = ld32 (mem s) (pgd + 4 * i)"
      using slot_in_page [OF d(1) i] page_disjoint [OF d(1) z(3) neq [symmetric]] by (intro ld32_cong) (auto simp: z(7))
    then show ?thesis unfolding pde_def m using i d(1) PX_less(1) by (simp add: ld32_st32_slot)
  qed
  have pr: "present ?m pgd i \<longleftrightarrow> i = PDX va \<or> present (mem s) pgd i" for i
    using pde [of i] pde_new(2) [of p] PX_less(1) [of va] by (cases "i = PDX va") (auto simp: present_def)
  have tb: "tbl ?m pgd (PDX va) = p" "present (mem s) pgd i \<Longrightarrow> tbl ?m pgd i = tbl (mem s) pgd i" for i
    using pde [of i] pde [OF PX_less(1)] pde_new(1) [OF z(3)] ab by (auto simp: present_def tbl_def)
  have pt: "pt_pages ?m pgd = insert p (pt_pages (mem s) pgd)"
    unfolding pt_pages_def using pr tb by auto metis+
  have np: "tbl (mem s) pgd i \<noteq> p" if "present (mem s) pgd i" for i using d(6) [OF that] z(1) by blast
  moreover have "i = j" if "present ?m pgd i" "present ?m pgd j" "tbl ?m pgd i = tbl ?m pgd j" for i j
    using that pr tb np d(10) by (metis (full_types))
  ultimately have vm: "vm_ok u pgd"
    using pt ok k pr tb neq pa.frame_valid [OF fr] pa.avail_valid [OF d(4) z(1)] unfolding vm_ok_def by auto
  have "entry ?m pgd x = entry (mem s) pgd x" for x
  proof (cases "PDX x = PDX va")
    case True
    have "?m y = 0" if "y \<in> page p" for y
      using that out [of y] page_disjoint [OF d(1) z(3) neq [symmetric]] by (auto simp: z(7))
    then have "ld32 ?m (p + 4 * PTX x) = ld32 (\<lambda>_. 0) (p + 4 * PTX x)"
      using slot_in_page [OF z(3) PX_less(2)] by (intro ld32_cong) auto
    then show ?thesis using True ab pr tb(1) by (simp add: entry_def ld32_def)
  next
    case False
    have "ld32 ?m (tbl (mem s) pgd (PDX x) + 4 * PTX x) = ld32 (mem s) (tbl (mem s) pgd (PDX x) + 4 * PTX x)"
      if h: "present (mem s) pgd (PDX x)"
    proof (rule ld32_cong)
      fix y assume "y \<in> region (tbl (mem s) pgd (PDX x) + 4 * PTX x) 4"
      then have y: "y \<in> page (tbl (mem s) pgd (PDX x))" using slot_in_page [OF d(7) [OF h] PX_less(2)] by blast
      have "y \<notin> page pgd" using y page_disjoint [OF d(7) [OF h] d(1) d(9) [OF h]] by blast
      moreover have "tbl (mem s) pgd (PDX x) \<noteq> p" using d(6) [OF h] z(1) by blast
      then have "y \<notin> page p" using y page_disjoint [OF d(7) [OF h] z(3)] by blast
      ultimately show "?m y = mem s y" using out by (simp add: z(7))
    qed
    then show ?thesis using False pr tb(2) by (simp add: entry_def)
  qed
  then show ?thesis using vm fr k pr tb(1) out pt by (auto simp: z(7))
qed

text \<open>\<open>vm_step s pgd t\<close>: pages may have gone from the free list into the page table, and nothing
  outside the table and the pages that were free has changed.\<close>

definition vm_step :: "'z kmemsys_scheme \<Rightarrow> u32 \<Rightarrow> 'z kmemsys_scheme \<Rightarrow> bool" where
  "vm_step s pgd t \<longleftrightarrow> vm_ok t pgd \<and> kframe s t \<and> free_pages t \<subseteq> free_pages s \<and>
     pt_pages (mem t) pgd \<subseteq> pt_pages (mem s) pgd \<union> free_pages s \<and>
     (\<forall>x. (\<forall>p\<in>pt_pages (mem s) pgd \<union> free_pages s. x \<notin> page p) \<longrightarrow> mem t x = mem s x)"

lemma vm_step_refl: "vm_ok s pgd \<Longrightarrow> vm_step s pgd s"
  by (auto simp: vm_step_def kframe_def)

lemma vm_step_trans:
  assumes st: "vm_step s pgd t" and tu: "vm_step t pgd u"
  shows "vm_step s pgd u"
proof -
  let ?S = "\<lambda>s. pt_pages (mem s) pgd \<union> free_pages s"
  have sub: "?S t \<subseteq> ?S s" "?S u \<subseteq> ?S t" using st tu unfolding vm_step_def by blast+
  have "mem u x = mem s x" if x: "\<forall>p\<in>?S s. x \<notin> page p" for x
  proof -
    have "mem t x = mem s x" using st x unfolding vm_step_def by blast
    moreover have "\<forall>p\<in>?S t. x \<notin> page p" using x sub(1) by blast
    then have "mem u x = mem t x" using tu unfolding vm_step_def by blast
    ultimately show ?thesis by simp
  qed
  moreover have "kframe s u" using st tu pa.frame_trans unfolding vm_step_def by blast
  moreover have "free_pages u \<subseteq> free_pages s" using st tu unfolding vm_step_def by blast
  moreover have "vm_ok u pgd" using tu by (simp add: vm_step_def)
  ultimately show ?thesis using sub unfolding vm_step_def by blast
qed

text \<open>What \<open>walkpgdir\<close> with allocation gives: no memory, or the slot of the address.\<close>

definition slot_for :: "'z kmemsys_scheme \<Rightarrow> u32 \<Rightarrow> u32 \<Rightarrow> u32 \<Rightarrow> 'z kmemsys_scheme \<Rightarrow> bool" where
  "slot_for s pgd va pte t \<longleftrightarrow> vm_step s pgd t \<and> entry (mem t) pgd = entry (mem s) pgd \<and>
     (if pte = 0 then free_pages s = {} else present (mem t) pgd (PDX va) \<and> pte = tbl (mem t) pgd (PDX va) + 4 * PTX va)"

lemma walk_alloc:
  assumes ok: "vm_ok s pgd"
  shows "wp (walkpgdir pgd va True s) (slot_for s pgd va)"
proof (cases "present (mem s) pgd (PDX va)")
  case True
  have "tbl (mem s) pgd (PDX va) + 4 * PTX va \<noteq> 0"
    using vm_okD(7,8) [OF ok True] PX_less(2) by (rule slot_nonzero)
  with True ok show ?thesis
    using vm_step_refl [OF ok]
    by (simp add: walkpgdir_def present_def pde_def tbl_def slot_for_def)
next
  case False
  note d = vm_okD [OF ok]
  have "walkpgdir pgd va True s = rbind (kalloc s) (\<lambda>p t. if p = 0 then Ret 0 t else
      let t = set_mem (snd (memset (mem t) p 0 PGSIZE)) t in
      Ret (p + 4 * PTX va) (set_mem (st32 (mem t) (pgd + 4 * PDX va) (pde_new p)) t))"
    using False PX_less(1) unfolding walkpgdir_def Let_def pde_new_def by (simp add: present_def pde_def)
  moreover have "wp \<dots> (slot_for s pgd va)"
  proof (rule pa.alloc_zeroed [OF d(4)], goal_cases)
    case (1 t)
    then have "kmem_ok t = kmem_ok t \<and> pg_ok t = pg_ok s" using pa.frame_valid by blast
    with 1 ok show ?case by (auto simp: slot_for_def vm_step_def vm_ok_def)
  next
    case (2 p t)
    let ?t = "set_mem (snd (memset (mem t) p 0 4096)) t"
    let ?u = "set_mem (st32 (mem ?t) (pgd + 4 * PDX va) (pde_new p)) ?t"
    have z: "p \<in> free_pages s" "p mod 4096 = 0" using 2 by (simp_all add: pa.zeroed_def)
    note n = new_table [OF ok False 2(2)]
    have "p + 4 * PTX va \<noteq> 0" using z(2) 2(1) PX_less(2) by (rule slot_nonzero)
    then have "slot_for s pgd va (p + 4 * PTX va) ?u"
      using n z(1) unfolding slot_for_def vm_step_def by (auto simp: pt_pages_def)
    then show ?case using 2(1) by (simp add: PGSIZE_def Let_def)
  qed
  ultimately show ?thesis by simp
qed

lemma vpn_step: "a mod 4096 = 0 \<Longrightarrow> unat a + 4096 < 2 ^ 32 \<Longrightarrow> vpn (a + 4096) = Suc (vpn a)"
  using unat_plus_nowrap [of a 4096] by (simp add: vpn_def)

definition in_span :: "nat \<Rightarrow> nat \<Rightarrow> u32 \<Rightarrow> bool" where
  "in_span v n x \<longleftrightarrow> v \<le> vpn x \<and> vpn x \<le> v + n"

definition mapped :: "'z kmemsys_scheme \<Rightarrow> u32 \<Rightarrow> nat \<Rightarrow> nat \<Rightarrow> u32 \<Rightarrow> u32 \<Rightarrow> int \<Rightarrow> 'z kmemsys_scheme \<Rightarrow> bool" where
  "mapped s pgd v n pa perm r t \<longleftrightarrow> vm_step s pgd t \<and>
     (r = 0 \<and> entry (mem t) pgd = (\<lambda>x. if in_span v n x then (pa + 4096 * of_nat (vpn x - v)) OR perm OR PTE_P
        else entry (mem s) pgd x) \<or>
      r = -1 \<and> free_pages t = {} \<and> (\<forall>x. \<not> in_span v n x \<longrightarrow> entry (mem t) pgd x = entry (mem s) pgd x))"

lemma map_one:
  assumes ok: "vm_ok s pgd" and ab: "entry (mem s) pgd a AND PTE_P = 0"
  obtains (full) t where "mappages_loop (Suc k) pgd a lst pa perm s = Ret (-1) t" "vm_step s pgd t"
      "free_pages t = {}" "entry (mem t) pgd = entry (mem s) pgd"
  | (one) u where "mappages_loop (Suc k) pgd a lst pa perm s =
        (if a = lst then Ret 0 u else mappages_loop k pgd (a + 4096) lst (pa + 4096) perm u)"
      "vm_step s pgd u" "entry (mem u) pgd = (\<lambda>x. if vpn x = vpn a then pa OR perm OR PTE_P else entry (mem s) pgd x)"
proof -
  obtain pte t where w: "walkpgdir pgd a True s = Ret pte t" and sl: "slot_for s pgd a pte t"
    using walk_alloc [OF ok, of a] by (auto simp: wp_iff)
  show ?thesis
  proof (cases "pte = 0")
    case True
    then have "vm_step s pgd t" "free_pages t = {}" "entry (mem t) pgd = entry (mem s) pgd"
      using sl by (auto simp: slot_for_def vm_step_def)
    moreover have "mappages_loop (Suc k) pgd a lst pa perm s = Ret (-1) t" using w True by simp
    ultimately show ?thesis by (intro full)
  next
    case False
    then have t: "vm_step s pgd t" "entry (mem t) pgd = entry (mem s) pgd" "present (mem t) pgd (PDX a)"
        "pte = tbl (mem t) pgd (PDX a) + 4 * PTX a" using sl by (auto simp: slot_for_def)
    have tok: "vm_ok t pgd" using t(1) by (simp add: vm_step_def)
    let ?u = "set_mem (st32 (mem t) pte (pa OR perm OR PTE_P)) t"
    have "ld32 (mem t) pte = entry (mem s) pgd a" using t by (metis entry_def)
    then have "mappages_loop (Suc k) pgd a lst pa perm s =
        (if a = lst then Ret 0 ?u else mappages_loop k pgd (a + 4096) lst (pa + 4096) perm ?u)"
      using w False ab by (simp add: PGSIZE_def Let_def)
    moreover note u = set_pte [OF tok t(3), of "pa OR perm OR PTE_P", folded t(4)]
    have out: "mem ?u x = mem t x" if "\<forall>p\<in>pt_pages (mem t) pgd. x \<notin> page p" for x
    proof -
      have "x \<notin> page (tbl (mem t) pgd (PDX a))" using that t(3) by (auto simp: pt_pages_def)
      then show ?thesis using slot_in_page [OF vm_okD(7) [OF tok t(3)] PX_less(2)] t(4) by (auto intro: st32_other)
    qed
    have "vm_step t pgd ?u" using u out unfolding vm_step_def by auto
    then have "vm_step s pgd ?u" by (rule vm_step_trans [OF t(1)])
    moreover have "entry (mem ?u) pgd = (\<lambda>x. if vpn x = vpn a then pa OR perm OR PTE_P else entry (mem s) pgd x)"
      using u unfolding t(2) by simp
    ultimately show ?thesis by (rule one)
  qed
qed

lemma mappages_loop_law:
  assumes "vm_ok s pgd" "a mod 4096 = 0" "unat lst = unat a + 4096 * n" "n < k"
    "\<And>x. in_span (vpn a) n x \<Longrightarrow> entry (mem s) pgd x AND PTE_P = 0"
  shows "wp (mappages_loop k pgd a lst pa perm s) (mapped s pgd (vpn a) n pa perm)"
  using assms
proof (induction n arbitrary: k a pa s)
  case 0
  then obtain k' where k: "k = Suc k'" by (cases k) auto
  have a: "a = lst" using 0(3) by (simp add: word_unat_eq_iff)
  have sp: "in_span v 0 x \<longleftrightarrow> vpn x = v" for v x by (auto simp: in_span_def)
  have "entry (mem s) pgd a AND PTE_P = 0" using 0(5) [of a] by (simp add: sp)
  from map_one [OF 0(1) this, of k' lst pa perm] show ?case
    by cases (auto simp: k a mapped_def sp fun_eq_iff simp del: mappages_loop.simps)
next
  case (Suc n)
  then obtain k' where k: "k = Suc k'" by (cases k) auto
  have lst: "unat a + 4096 * Suc n < 2 ^ 32" using Suc.prems(3) unat32_less [of lst] by simp
  then have a: "a \<noteq> lst" "unat (a + 4096) = unat a + 4096" "vpn (a + 4096) = Suc (vpn a)" "(a + 4096) mod 4096 = 0"
    using Suc.prems(2,3) unat_plus_nowrap [of a 4096] vpn_step [of a] add_aligned [of a 4096] by auto
  have sp: "in_span (vpn a) (Suc n) x \<longleftrightarrow> vpn x = vpn a \<or> in_span (Suc (vpn a)) n x" for x by (auto simp: in_span_def)
  have ab: "entry (mem s) pgd a AND PTE_P = 0" using Suc.prems(5) [of a] by (simp add: sp)
  show ?case
  proof (rule map_one [OF Suc.prems(1) ab, of k' lst pa perm])
    fix t assume "mappages_loop (Suc k') pgd a lst pa perm s = Ret (- 1) t" "vm_step s pgd t" "free_pages t = {}"
      "entry (mem t) pgd = entry (mem s) pgd"
    then show ?thesis by (simp add: k mapped_def)
  next
    fix u assume one: "mappages_loop (Suc k') pgd a lst pa perm s =
        (if a = lst then Ret 0 u else mappages_loop k' pgd (a + 4096) lst (pa + 4096) perm u)"
      "vm_step s pgd u" "entry (mem u) pgd = (\<lambda>x. if vpn x = vpn a then pa OR perm OR PTE_P else entry (mem s) pgd x)"
    have e: "in_span (Suc (vpn a)) n x \<Longrightarrow> vpn x \<noteq> vpn a" for x by (simp add: in_span_def)
    have "wp (mappages_loop k' pgd (a + 4096) lst (pa + 4096) perm u) (mapped u pgd (vpn (a + 4096)) n (pa + 4096) perm)"
      using Suc.prems one a k e by (intro Suc.IH) (auto simp: vm_step_def sp)
    then have "wp (mappages_loop k' pgd (a + 4096) lst (pa + 4096) perm u) (mapped s pgd (vpn a) (Suc n) pa perm)"
    proof (rule wp_mono)
      fix r t assume m: "mapped u pgd (vpn (a + 4096)) n (pa + 4096) perm r t"
      have st: "vm_step s pgd t" using m one(2) by (auto simp: mapped_def intro: vm_step_trans)
      have "pa + 4096 + 4096 * of_nat (vpn x - Suc (vpn a)) = pa + 4096 * of_nat (vpn x - vpn a)"
        if "in_span (Suc (vpn a)) n x" for x
      proof -
        have "vpn x - vpn a = Suc (vpn x - Suc (vpn a))" using that by (auto simp: in_span_def)
        then show ?thesis by (simp add: algebra_simps)
      qed
      then show "mapped s pgd (vpn a) (Suc n) pa perm r t"
        using m st one(3) a(3) e by (auto simp: mapped_def sp fun_eq_iff add.assoc)
    qed
    then show ?thesis using one(1) a(1) by (simp add: k)
  qed
qed

end
