(* ===== verification/Vm_Props.thy ===== *)
theory Vm_Props
  imports Vm_Spec Alloc_Props
begin

text \<open>Properties of the virtual memory system.\<close>

lemma PGROUNDDOWN_page: "PGROUNDDOWN a mod 4096 = 0" "vpn (PGROUNDDOWN a) = vpn a" "unat (PGROUNDDOWN a) = 4096 * vpn a"
  by (simp_all add: aligned_iff PGROUNDDOWN_unat vpn_def)

lemma span_end:
  assumes "0 < n" "unat va + unat n \<le> 2 ^ 32"
  shows "unat (va + n - 1) = unat va + unat n - 1" "vpn va \<le> vpn (va + n - 1)"
proof -
  have n: "0 < unat n" using assms(1) by (simp add: word_less_nat_alt)
  have "va + n - 1 = va + of_nat (unat n - 1)"
    using n by (simp add: of_nat_diff algebra_simps)
  then show "unat (va + n - 1) = unat va + unat n - 1"
    using n assms(2) unat_plus_nowrap [of va "unat n - 1"] by (simp add: add_diff_eq)
  then show "vpn va \<le> vpn (va + n - 1)" using n by (simp add: vpn_def div_le_mono)
qed

text \<open>C14: \<open>mappages\<close> on an absent range of virtual addresses returns. If it returns 0, every address in the pages
  of the range translates to the corresponding physical page with the permissions given, and no other translation has
  changed; if it returns -1, memory has run out and no translation outside the range has changed. In both cases the
  page table is well formed and no byte outside the table and the pages that were free has changed. A range whose
  first page is already mapped makes it panic.\<close>

theorem mappages_maps:
  assumes ok: "vm_ok s pgd" and n: "0 < n" "unat va + unat n \<le> 2 ^ 32"
  shows "((\<forall>x. vpn va \<le> vpn x \<and> vpn x \<le> vpn (va + n - 1) \<longrightarrow> entry (mem s) pgd x AND PTE_P = 0) \<longrightarrow>
      wp (mappages pgd va n pa perm s) (mapped s pgd (vpn va) (vpn (va + n - 1) - vpn va) pa perm)) \<and>
    (entry (mem s) pgd va AND PTE_P \<noteq> 0 \<longrightarrow> mappages pgd va n pa perm s = Panic ''remap'')"
proof (intro conjI impI)
  let ?a = "PGROUNDDOWN va" and ?l = "PGROUNDDOWN (va + n - 1)"
  assume ab: "\<forall>x. vpn va \<le> vpn x \<and> vpn x \<le> vpn (va + n - 1) \<longrightarrow> entry (mem s) pgd x AND PTE_P = 0"
  note e = span_end [OF n]
  have "vpn (va + n - 1) < 2 ^ 20"
    unfolding vpn_def using unat32_less [of "va + n - 1"] by (intro less_mult_imp_div_less) simp
  then have fuel: "vpn (va + n - 1) - vpn va < 2 ^ 20" by simp
  have "unat ?l = unat ?a + 4096 * (vpn (va + n - 1) - vpn va)"
    unfolding PGROUNDDOWN_page using e(2) by (simp add: diff_mult_distrib2)
  from mappages_loop_law [OF ok PGROUNDDOWN_page(1) this fuel]
  show "wp (mappages pgd va n pa perm s) (mapped s pgd (vpn va) (vpn (va + n - 1) - vpn va) pa perm)"
    unfolding mappages_def PGROUNDDOWN_page(2) using ab e(2) by (auto simp: in_span_def)
next
  assume p: "entry (mem s) pgd va AND PTE_P \<noteq> 0"
  let ?a = "PGROUNDDOWN va"
  have pr: "present (mem s) pgd (PDX ?a)" and en: "entry (mem s) pgd ?a AND PTE_P \<noteq> 0"
    using p entry_vpn [OF PGROUNDDOWN_page(2), of "mem s" pgd va] by (auto simp: entry_def split: if_splits)
  have "walkpgdir pgd ?a True s = Ret (tbl (mem s) pgd (PDX ?a) + 4 * PTX ?a) s"
    using pr by (simp add: walkpgdir_def present_def pde_def tbl_def)
  moreover have "tbl (mem s) pgd (PDX ?a) + 4 * PTX ?a \<noteq> 0"
    using vm_okD(7,8) [OF ok pr] PX_less(2) by (rule slot_nonzero)
  moreover have "ld32 (mem s) (tbl (mem s) pgd (PDX ?a) + 4 * PTX ?a) AND PTE_P \<noteq> 0"
    using en pr by (simp add: entry_def)
  moreover obtain k where "(2 :: nat) ^ 20 = Suc k" by (metis not0_implies_Suc power_not_zero zero_neq_numeral)
  ultimately show "mappages pgd va n pa perm s = Panic ''remap''"
    unfolding mappages_def by (simp only: mappages_loop.simps rbind_simps) simp
qed

text \<open>A page directory with nothing in it, and one free page for a table.\<close>

definition demo_vm :: kmemsys where
  "demo_vm = demo_kmem 0x80400000 (\<lambda>_. 0)"

lemma demo_vm_ok: "vm_ok demo_vm 0x80401000" "entry (mem demo_vm) 0x80401000 x = 0"
proof -
  have "free_pages demo_vm = {0x80400000}"
    using free_pages_eq [OF demo_kmem_free(1)] by (simp add: demo_vm_def)
  moreover have "\<not> present (mem demo_vm) 0x80401000 i" for i
    by (simp add: present_def pde_def demo_vm_def ld32_def)
  ultimately show "vm_ok demo_vm 0x80401000" "entry (mem demo_vm) 0x80401000 x = 0"
    using demo_kmem_free unfolding vm_ok_def pt_pages_def demo_vm_def by (auto simp: entry_def)
qed

theorem mappages_maps_witness:
  "wp (mappages 0x80401000 0 0x2000 0x500000 6 demo_vm) (mapped demo_vm 0x80401000 0 1 0x500000 6)"
  using mappages_maps [OF demo_vm_ok(1), where n = "0x2000" and va = 0 and pa = "0x500000" and perm = 6] demo_vm_ok(2) by (simp add: vpn_def)

end
