(* ===== verification/Ring.thy ===== *)
theory Ring
  imports Cmem
begin

text \<open>
  Bounded queues. \<open>fifo\<close> is the interface of a queue of bounded length as its clients use it; a ring buffer
  with free-running unsigned indices, as in pipes and in the input buffer of the console, implements it as long
  as its length divides \<open>2 ^ 32\<close>, so that the indices may wrap around.
\<close>

section \<open>The interface\<close>

locale fifo =
  fixes put :: "'a \<Rightarrow> 'q \<Rightarrow> 'q"
    and get :: "'q \<Rightarrow> 'a \<times> 'q"
    and full :: "'q \<Rightarrow> bool"
    and empty :: "'q \<Rightarrow> bool"
    and contents :: "'q \<Rightarrow> 'a list"
    and inv :: "'q \<Rightarrow> bool"
    and cap :: nat
  assumes put_inv: "inv q \<Longrightarrow> \<not> full q \<Longrightarrow> inv (put x q)"
    and put_contents: "inv q \<Longrightarrow> \<not> full q \<Longrightarrow> contents (put x q) = contents q @ [x]"
    and get_inv: "inv q \<Longrightarrow> \<not> empty q \<Longrightarrow> inv (snd (get q))"
    and get_contents: "inv q \<Longrightarrow> \<not> empty q \<Longrightarrow> contents q = fst (get q) # contents (snd (get q))"
    and full_iff: "inv q \<Longrightarrow> full q \<longleftrightarrow> length (contents q) = cap"
    and empty_iff: "inv q \<Longrightarrow> empty q \<longleftrightarrow> contents q = []"
    and bounded: "inv q \<Longrightarrow> length (contents q) \<le> cap"
begin

fun put_all :: "'a list \<Rightarrow> 'q \<Rightarrow> 'a list \<times> 'q" where
  "put_all [] q = ([], q)"
| "put_all (x # xs) q = (if full q then (x # xs, q) else put_all xs (put x q))"

fun get_upto :: "nat \<Rightarrow> 'q \<Rightarrow> 'a list \<times> 'q" where
  "get_upto 0 q = ([], q)"
| "get_upto (Suc n) q =
     (if empty q then ([], q) else let (x, q) = get q; (xs, q) = get_upto n q in (x # xs, q))"

text \<open>A writer puts in what fits and is left with the rest; a reader gets the oldest elements.\<close>

lemma put_all_law:
  assumes "inv q"
  shows "inv (snd (put_all xs q)) \<and>
    contents (snd (put_all xs q)) = contents q @ take (cap - length (contents q)) xs \<and>
    fst (put_all xs q) = drop (cap - length (contents q)) xs"
  using assms
proof (induction xs arbitrary: q)
  case (Cons x xs)
  show ?case
  proof (cases "full q")
    case True
    then show ?thesis using Cons.prems full_iff by simp
  next
    case False
    then have "length (contents q) < cap" using Cons.prems full_iff bounded le_neq_implies_less by blast
    then obtain k where k: "cap - length (contents q) = Suc k" by (metis Suc_diff_Suc)
    then have "cap - length (contents (put x q)) = k" using put_contents [OF Cons.prems False] by simp
    then show ?thesis
      using Cons.IH [OF put_inv [OF Cons.prems False]] False k put_contents [OF Cons.prems False] by simp
  qed
qed simp

lemma get_upto_law:
  assumes "inv q"
  shows "inv (snd (get_upto n q)) \<and> fst (get_upto n q) = take n (contents q) \<and>
    contents (snd (get_upto n q)) = drop n (contents q)"
  using assms
proof (induction n arbitrary: q)
  case (Suc n)
  show ?case
  proof (cases "empty q")
    case True
    then show ?thesis using Suc.prems empty_iff by simp
  next
    case False
    then show ?thesis
      using Suc.IH [OF get_inv [OF Suc.prems False]] get_contents [OF Suc.prems False]
      by (auto simp: split_beta Let_def)
  qed
qed simp

end

section \<open>Ring buffers\<close>

definition ringbuf :: "nat \<Rightarrow> (nat \<Rightarrow> 'a) \<Rightarrow> u32 \<Rightarrow> u32 \<Rightarrow> 'a list" where
  "ringbuf n d r w = map (\<lambda>i. d ((unat r + i) mod n)) [0..<unat (w - r)]"

lemma unat_add_mod:
  assumes "n dvd 2 ^ 32"
  shows "unat ((a :: u32) + b) mod n = (unat a + unat b) mod n"
  using assms by (simp add: unat_word_ariths(1) mod_mod_cancel)

lemma unat_ringbuf_Suc: "unat (w - r) < n \<Longrightarrow> n < 2 ^ 32 \<Longrightarrow> unat (w + 1 - r :: u32) = Suc (unat (w - r))"
proof -
  assume "unat (w - r) < n" "n < 2 ^ 32"
  then have "unat (w - r) + 1 < 2 ^ 32" by linarith
  then have "unat (w - r + 1) = unat (w - r) + 1" using unat_plus_nowrap [of "w - r" 1] by simp
  moreover have "w + 1 - r = w - r + 1" by (rule diff_add_eq [symmetric])
  ultimately show ?thesis by (simp only: Suc_eq_plus1)
qed

lemma ringbuf_put:
  assumes n: "n dvd 2 ^ 32" "n < 2 ^ 32" and len: "unat (w - r) < n"
  shows "ringbuf n (d(unat w mod n := c)) r (w + 1) = ringbuf n d r w @ [c]"
proof -
  let ?l = "unat (w - r)"
  have w: "unat w mod n = (unat r + ?l) mod n"
    using unat_add_mod [OF n(1), of r "w - r"] by simp
  have "(unat r + i) mod n \<noteq> (unat r + ?l) mod n" if "i < ?l" for i
  proof
    assume "(unat r + i) mod n = (unat r + ?l) mod n"
    then have "n dvd (unat r + ?l) - (unat r + i)" using that by (intro mod_eq_dvd_iff_nat [THEN iffD1]) auto
    then have "n dvd ?l - i" by simp
    then show False using that len by (auto dest: dvd_imp_le)
  qed
  then show ?thesis unfolding ringbuf_def unat_ringbuf_Suc [OF len n(2)] w by simp
qed

lemma ringbuf_get:
  assumes "r \<noteq> w" "n dvd 2 ^ 32"
  shows "ringbuf n d r w = d (unat r mod n) # ringbuf n d (r + 1) w"
proof -
  have "unat (w - r) \<noteq> 0" using assms(1) by (simp add: unat_eq_0)
  then obtain l where l: "unat (w - r) = Suc l" by (cases "unat (w - r)") auto
  have "unat (w - (r + 1)) = l"
    using l unat_minus_one [of "w - r"] assms(1) by (simp add: diff_diff_add [symmetric])
  moreover have "(unat (r + 1) + i) mod n = (unat r + Suc i) mod n" for i
  proof -
    have "(unat (r + 1) + i) mod n = (unat (r + 1) mod n + i) mod n" by (rule mod_add_left_eq [symmetric])
    also have "\<dots> = ((unat r + 1) mod n + i) mod n" using unat_add_mod [OF assms(2), of r 1] by simp
    also have "\<dots> = (unat r + 1 + i) mod n" by (rule mod_add_left_eq)
    finally show ?thesis by simp
  qed
  ultimately show ?thesis
    unfolding ringbuf_def l by (simp add: upt_conv_Cons map_Suc_upt [symmetric] comp_def del: upt_Suc)
qed

lemma length_ringbuf [simp]: "length (ringbuf n d r w) = unat (w - r)"
  by (simp add: ringbuf_def)

lemma ringbuf_full: "n < 2 ^ 32 \<Longrightarrow> (w :: u32) = r + of_nat n \<longleftrightarrow> unat (w - r) = n"
proof -
  assume "n < 2 ^ 32"
  then have n: "unat (of_nat n :: u32) = n" by (rule unat_of_nat32)
  have "w = r + of_nat n \<longleftrightarrow> w - r = of_nat n" by (simp only: diff_eq_eq add.commute)
  also have "\<dots> \<longleftrightarrow> unat (w - r) = n" by (simp only: word_unat_eq_iff n)
  finally show ?thesis .
qed

lemma ringbuf_empty: "r = w \<longleftrightarrow> ringbuf n d r w = []"
  by (auto simp: ringbuf_def unat_eq_0)

text \<open>A window of the buffer is the concatenation of its parts, so a window loses its last element when its end
  moves back.\<close>

lemma ringbuf_split:
  assumes "n dvd 2 ^ 32" "unat (w - r) + unat (e - w) < 2 ^ 32"
  shows "ringbuf n d r e = ringbuf n d r w @ ringbuf n d w e"
proof -
  let ?a = "unat (w - r)" and ?b = "unat (e - w)"
  have "e - r = (w - r) + of_nat ?b" by simp
  then have l: "unat (e - r) = ?a + ?b" using unat_plus_nowrap [OF assms(2)] by simp
  have "(unat r + (?a + i)) mod n = (unat w + i) mod n" for i
  proof -
    have "(unat r + ?a) mod n = unat w mod n" using unat_add_mod [OF assms(1), of r "w - r"] by simp
    then have "(unat r + ?a + i) mod n = (unat w + i) mod n" by (rule mod_add_cong) (rule refl)
    then show ?thesis by (simp only: add.assoc)
  qed
  then have "map (\<lambda>i. d ((unat r + i) mod n)) [?a..<?a + ?b] = map (\<lambda>i. d ((unat w + i) mod n)) [0..<?b]"
    by (intro nth_equalityI) (simp_all add: add.commute add.left_commute)
  moreover have "[0..<?a + ?b] = [0..<?a] @ [?a..<?a + ?b]" by (rule upt_add_eq_append) simp
  ultimately show ?thesis unfolding ringbuf_def l by (simp only: map_append)
qed

lemma ringbuf_back:
  assumes "n dvd 2 ^ 32" "r \<noteq> e"
  shows "ringbuf n d r e = ringbuf n d r (e - 1) @ [d (unat (e - 1) mod n)]"
proof -
  have "e - r \<noteq> 0" using assms(2) by simp
  then have "unat (e - r - 1) + 1 < 2 ^ 32"
    using unat_minus_one [of "e - r"] unsigned_less [of "e - r", where 'a = nat] by (simp add: unat_gt_0)
  then have "unat (e - 1 - r) + unat (e - (e - 1)) < 2 ^ 32" by (subst diff_right_commute) simp
  from ringbuf_split [OF assms(1) this] show ?thesis by (simp add: ringbuf_def)
qed

end
