(* ===== verification/Fs.thy ===== *)
theory Fs
  imports Log_Txn
begin

text \<open>
  fs.c: the block allocator, inodes, file contents, directories and path names. An inode pointer is an
  index into the inode cache, or \<open>None\<close> for a null pointer where the code tests for one. The user or kernel
  buffer that \<open>readi\<close> fills is returned as a list of bytes, the one that \<open>writei\<close> reads is an argument; a name
  is the list of bytes of its array up to and including the NUL, or all 14 bytes when there is none. The device
  functions that \<open>devsw\<close> holds are an argument \<open>dv\<close>.
\<close>

section \<open>Data\<close>

definition NDIRECT :: nat where "NDIRECT = 12"
definition NINDIRECT :: nat where "NINDIRECT = BSIZE div 4"
definition MAXFILE :: nat where "MAXFILE = NDIRECT + NINDIRECT"
definition NINODE :: nat where "NINODE = 50"
definition NDEV :: int where "NDEV = 10"
definition ROOTDEV :: u32 where "ROOTDEV = 1"
definition ROOTINO :: u32 where "ROOTINO = 1"
definition IPB :: nat where "IPB = BSIZE div 64"
definition BPB :: nat where "BPB = BSIZE * 8"
definition DIRSIZ :: nat where "DIRSIZ = 14"
definition T_DIR :: u16 where "T_DIR = 1"
definition T_FILE :: u16 where "T_FILE = 2"
definition T_DEV :: u16 where "T_DEV = 3"

record dinode =
  d_type :: u16
  d_major :: u16
  d_minor :: u16
  d_nlink :: u16
  d_size :: u32
  d_addrs :: "u32 list"

record inode =
  i_dev :: u32
  i_inum :: u32
  i_ref :: int
  i_valid :: bool
  i_type :: u16
  i_major :: u16
  i_minor :: u16
  i_nlink :: u16
  i_size :: u32
  i_addrs :: "u32 list"

record fssys = logsys +
  fsb :: superblock
  icache :: "nat \<Rightarrow> inode"

definition set_inode :: "nat \<Rightarrow> (inode \<Rightarrow> inode) \<Rightarrow> 'z fssys_scheme \<Rightarrow> 'z fssys_scheme" where
  "set_inode i f s = s\<lparr>icache := (icache s)(i := f (icache s i))\<rparr>"

definition at16 :: "block \<Rightarrow> nat \<Rightarrow> u16" where
  "at16 b off = get16 (drop off b)"

definition get_dinode :: "block \<Rightarrow> nat \<Rightarrow> dinode" where
  "get_dinode b k = \<lparr>d_type = at16 b (64 * k), d_major = at16 b (64 * k + 2), d_minor = at16 b (64 * k + 4),
     d_nlink = at16 b (64 * k + 6), d_size = at32 b (64 * k + 8),
     d_addrs = map (\<lambda>i. at32 b (64 * k + 12 + 4 * i)) [0..<NDIRECT + 1]\<rparr>"

definition dinode_bytes :: "dinode \<Rightarrow> byte list" where
  "dinode_bytes d = le16 (d_type d) @ le16 (d_major d) @ le16 (d_minor d) @ le16 (d_nlink d) @
     le32 (d_size d) @ concat (map le32 (d_addrs d))"

definition put_dinode :: "block \<Rightarrow> nat \<Rightarrow> dinode \<Rightarrow> block" where
  "put_dinode b k d = overwrite b (64 * k) (dinode_bytes d)"

definition IBLOCK :: "u32 \<Rightarrow> superblock \<Rightarrow> u32" where
  "IBLOCK i sbl = i div of_nat IPB + sb_inodestart sbl"

definition BBLOCK :: "u32 \<Rightarrow> superblock \<Rightarrow> u32" where
  "BBLOCK b sbl = b div of_nat BPB + sb_bmapstart sbl"

section \<open>Blocks\<close>

definition bzero :: "u32 \<Rightarrow> u32 \<Rightarrow> 'z logsys_scheme \<Rightarrow> (unit, 'z logsys_scheme) outcome" where
  "bzero dev bno s =
     rbind (bread dev bno s) (\<lambda>bp s.
     rbind (log_write bp (put_bdata bp (replicate BSIZE 0) s)) (\<lambda>_ s.
     brelse bp s))"

definition bit_mask :: "nat \<Rightarrow> byte" where
  "bit_mask bi = push_bit (bi mod 8) 1"

text \<open>The inner loop of \<open>balloc\<close>: the first free bit of the map block for the blocks from \<open>b\<close> on.\<close>

definition free_bit :: "block \<Rightarrow> nat \<Rightarrow> nat \<Rightarrow> nat option" where
  "free_bit d b lim = find (\<lambda>bi. b + bi < lim \<and> d ! (bi div 8) AND bit_mask bi = 0) [0..<BPB]"

fun balloc_loop :: "nat list \<Rightarrow> u32 \<Rightarrow> 'z fssys_scheme \<Rightarrow> (u32, 'z fssys_scheme) outcome" where
  "balloc_loop [] dev s = Panic ''balloc: out of blocks''"
| "balloc_loop (b # bs) dev s =
     rbind (bread dev (BBLOCK (of_nat b) (fsb s)) s) (\<lambda>bp s.
     case free_bit (bdata bp s) b (unat (sb_size (fsb s))) of
       Some bi \<Rightarrow>
         let d = bdata bp s in
         rbind (log_write bp (put_bdata bp (d[bi div 8 := d ! (bi div 8) OR bit_mask bi]) s)) (\<lambda>_ s.
         rbind (brelse bp s) (\<lambda>_ s.
         rbind (bzero dev (of_nat (b + bi)) s) (\<lambda>_ s.
         Ret (of_nat (b + bi)) s)))
     | None \<Rightarrow> rbind (brelse bp s) (\<lambda>_ s. balloc_loop bs dev s))"

definition balloc :: "u32 \<Rightarrow> 'z fssys_scheme \<Rightarrow> (u32, 'z fssys_scheme) outcome" where
  "balloc dev s =
     balloc_loop (map (\<lambda>k. k * BPB) [0..<(unat (sb_size (fsb s)) + BPB - 1) div BPB]) dev s"

definition bfree :: "u32 \<Rightarrow> u32 \<Rightarrow> 'z fssys_scheme \<Rightarrow> (unit, 'z fssys_scheme) outcome" where
  "bfree dev b s =
     rbind (bread dev (BBLOCK b (fsb s)) s) (\<lambda>bp s.
     let bi = unat b mod BPB; d = bdata bp s in
     if d ! (bi div 8) AND bit_mask bi = 0 then Panic ''freeing free block''
     else
       rbind (log_write bp (put_bdata bp (d[bi div 8 := d ! (bi div 8) AND NOT (bit_mask bi)]) s)) (\<lambda>_ s.
       brelse bp s))"

section \<open>Inodes\<close>

definition iinit :: "u32 \<Rightarrow> 'z fssys_scheme \<Rightarrow> (unit, 'z fssys_scheme) outcome" where
  "iinit dev s =
     (let s = initlock LIcache ''icache'' s;
          s = fold (\<lambda>i. initsleeplock (SInode i) ''inode'') [0..<NINODE] s in
      rbind (readsb dev s) (\<lambda>sbl s. Ret () (s\<lparr>fsb := sbl\<rparr>)))"

definition iget :: "u32 \<Rightarrow> u32 \<Rightarrow> 'z fssys_scheme \<Rightarrow> (nat, 'z fssys_scheme) outcome" where
  "iget dev inum s =
     rbind (acquire LIcache s) (\<lambda>_ s.
     case find (\<lambda>i. 0 < i_ref (icache s i) \<and> i_dev (icache s i) = dev \<and> i_inum (icache s i) = inum) [0..<NINODE] of
       Some ip \<Rightarrow>
         rbind (release LIcache (set_inode ip (\<lambda>x. x\<lparr>i_ref := i_ref x + 1\<rparr>) s)) (\<lambda>_ s. Ret ip s)
     | None \<Rightarrow>
         (case find (\<lambda>i. i_ref (icache s i) = 0) [0..<NINODE] of
            None \<Rightarrow> Panic ''iget: no inodes''
          | Some ip \<Rightarrow>
              rbind (release LIcache
                (set_inode ip (\<lambda>x. x\<lparr>i_dev := dev, i_inum := inum, i_ref := 1, i_valid := False\<rparr>) s)) (\<lambda>_ s.
              Ret ip s)))"

fun ialloc_loop :: "nat list \<Rightarrow> u32 \<Rightarrow> u16 \<Rightarrow> 'z fssys_scheme \<Rightarrow> (nat, 'z fssys_scheme) outcome" where
  "ialloc_loop [] dev ty s = Panic ''ialloc: no inodes''"
| "ialloc_loop (inum # is) dev ty s =
     rbind (bread dev (IBLOCK (of_nat inum) (fsb s)) s) (\<lambda>bp s.
     if d_type (get_dinode (bdata bp s) (inum mod IPB)) = 0 then
       let d = \<lparr>d_type = ty, d_major = 0, d_minor = 0, d_nlink = 0, d_size = 0, d_addrs = replicate (NDIRECT + 1) 0\<rparr> in
       rbind (log_write bp (put_bdata bp (put_dinode (bdata bp s) (inum mod IPB) d) s)) (\<lambda>_ s.
       rbind (brelse bp s) (\<lambda>_ s.
       iget dev (of_nat inum) s))
     else rbind (brelse bp s) (\<lambda>_ s. ialloc_loop is dev ty s))"

definition ialloc :: "u32 \<Rightarrow> u16 \<Rightarrow> 'z fssys_scheme \<Rightarrow> (nat, 'z fssys_scheme) outcome" where
  "ialloc dev ty s = ialloc_loop [1..<unat (sb_ninodes (fsb s))] dev ty s"

definition to_dinode :: "inode \<Rightarrow> dinode" where
  "to_dinode ip = \<lparr>d_type = i_type ip, d_major = i_major ip, d_minor = i_minor ip, d_nlink = i_nlink ip,
     d_size = i_size ip, d_addrs = i_addrs ip\<rparr>"

definition from_dinode :: "dinode \<Rightarrow> inode \<Rightarrow> inode" where
  "from_dinode d ip = ip\<lparr>i_type := d_type d, i_major := d_major d, i_minor := d_minor d, i_nlink := d_nlink d,
     i_size := d_size d, i_addrs := d_addrs d\<rparr>"

definition iupdate :: "nat \<Rightarrow> 'z fssys_scheme \<Rightarrow> (unit, 'z fssys_scheme) outcome" where
  "iupdate ip s =
     rbind (bread (i_dev (icache s ip)) (IBLOCK (i_inum (icache s ip)) (fsb s)) s) (\<lambda>bp s.
     let k = unat (i_inum (icache s ip)) mod IPB in
     rbind (log_write bp (put_bdata bp (put_dinode (bdata bp s) k (to_dinode (icache s ip))) s)) (\<lambda>_ s.
     brelse bp s))"

definition idup :: "nat \<Rightarrow> 'z fssys_scheme \<Rightarrow> (nat, 'z fssys_scheme) outcome" where
  "idup ip s =
     rbind (acquire LIcache s) (\<lambda>_ s.
     rbind (release LIcache (set_inode ip (\<lambda>x. x\<lparr>i_ref := i_ref x + 1\<rparr>) s)) (\<lambda>_ s.
     Ret ip s))"

definition ilock :: "nat option \<Rightarrow> 'z fssys_scheme \<Rightarrow> (unit, 'z fssys_scheme) outcome" where
  "ilock ipo s =
     (case ipo of None \<Rightarrow> Panic ''ilock'' | Some ip \<Rightarrow>
      if i_ref (icache s ip) < 1 then Panic ''ilock''
      else
        rbind (acquiresleep (SInode ip) s) (\<lambda>_ s.
        if \<not> i_valid (icache s ip) then
          rbind (bread (i_dev (icache s ip)) (IBLOCK (i_inum (icache s ip)) (fsb s)) s) (\<lambda>bp s.
          let d = get_dinode (bdata bp s) (unat (i_inum (icache s ip)) mod IPB);
              s = set_inode ip (from_dinode d) s in
          rbind (brelse bp s) (\<lambda>_ s.
          let s = set_inode ip (\<lambda>x. x\<lparr>i_valid := True\<rparr>) s in
          if i_type (icache s ip) = 0 then Panic ''ilock: no type'' else Ret () s))
        else Ret () s))"

definition iunlock :: "nat option \<Rightarrow> 'z fssys_scheme \<Rightarrow> (unit, 'z fssys_scheme) outcome" where
  "iunlock ipo s =
     (case ipo of None \<Rightarrow> Panic ''iunlock'' | Some ip \<Rightarrow>
      rbind (holdingsleep (SInode ip) s) (\<lambda>h s.
      if \<not> h \<or> i_ref (icache s ip) < 1 then Panic ''iunlock''
      else releasesleep (SInode ip) s))"

definition set_addr :: "nat \<Rightarrow> nat \<Rightarrow> u32 \<Rightarrow> 'z fssys_scheme \<Rightarrow> 'z fssys_scheme" where
  "set_addr ip k a s = set_inode ip (\<lambda>x. x\<lparr>i_addrs := (i_addrs x)[k := a]\<rparr>) s"

definition itrunc_direct :: "nat \<Rightarrow> nat \<Rightarrow> 'z fssys_scheme \<Rightarrow> (unit, 'z fssys_scheme) outcome" where
  "itrunc_direct ip i s =
     (if i_addrs (icache s ip) ! i \<noteq> 0 then
        rbind (bfree (i_dev (icache s ip)) (i_addrs (icache s ip) ! i) s) (\<lambda>_ s. Ret () (set_addr ip i 0 s))
      else Ret () s)"

definition itrunc_indirect :: "nat \<Rightarrow> nat \<Rightarrow> nat \<Rightarrow> 'z fssys_scheme \<Rightarrow> (unit, 'z fssys_scheme) outcome" where
  "itrunc_indirect ip bp j s =
     (if at32 (bdata bp s) (4 * j) \<noteq> 0 then bfree (i_dev (icache s ip)) (at32 (bdata bp s) (4 * j)) s else Ret () s)"

definition itrunc :: "nat \<Rightarrow> 'z fssys_scheme \<Rightarrow> (unit, 'z fssys_scheme) outcome" where
  "itrunc ip s =
     rbind (rfor [0..<NDIRECT] (itrunc_direct ip) s) (\<lambda>_ s.
     rbind
       (if i_addrs (icache s ip) ! NDIRECT \<noteq> 0 then
          rbind (bread (i_dev (icache s ip)) (i_addrs (icache s ip) ! NDIRECT) s) (\<lambda>bp s.
          rbind (rfor [0..<NINDIRECT] (itrunc_indirect ip bp) s) (\<lambda>_ s.
          rbind (brelse bp s) (\<lambda>_ s.
          rbind (bfree (i_dev (icache s ip)) (i_addrs (icache s ip) ! NDIRECT) s) (\<lambda>_ s.
          Ret () (set_addr ip NDIRECT 0 s)))))
        else Ret () s) (\<lambda>_ s.
     iupdate ip (set_inode ip (\<lambda>x. x\<lparr>i_size := 0\<rparr>) s)))"

definition iput :: "nat \<Rightarrow> 'z fssys_scheme \<Rightarrow> (unit, 'z fssys_scheme) outcome" where
  "iput ip s =
     rbind (acquiresleep (SInode ip) s) (\<lambda>_ s.
     rbind
       (if i_valid (icache s ip) \<and> i_nlink (icache s ip) = 0 then
          rbind (acquire LIcache s) (\<lambda>_ s.
          let r = i_ref (icache s ip) in
          rbind (release LIcache s) (\<lambda>_ s.
          if r = 1 then
            rbind (itrunc ip s) (\<lambda>_ s.
            rbind (iupdate ip (set_inode ip (\<lambda>x. x\<lparr>i_type := 0\<rparr>) s)) (\<lambda>_ s.
            Ret () (set_inode ip (\<lambda>x. x\<lparr>i_valid := False\<rparr>) s)))
          else Ret () s))
        else Ret () s) (\<lambda>_ s.
     rbind (releasesleep (SInode ip) s) (\<lambda>_ s.
     rbind (acquire LIcache s) (\<lambda>_ s.
     release LIcache (set_inode ip (\<lambda>x. x\<lparr>i_ref := i_ref x - 1\<rparr>) s)))))"

definition iunlockput :: "nat \<Rightarrow> 'z fssys_scheme \<Rightarrow> (unit, 'z fssys_scheme) outcome" where
  "iunlockput ip s = rbind (iunlock (Some ip) s) (\<lambda>_ s. iput ip s)"

section \<open>Inode content\<close>

definition bmap :: "nat \<Rightarrow> nat \<Rightarrow> 'z fssys_scheme \<Rightarrow> (u32, 'z fssys_scheme) outcome" where
  "bmap ip bn s =
     (if bn < NDIRECT then
        if i_addrs (icache s ip) ! bn = 0 then
          rbind (balloc (i_dev (icache s ip)) s) (\<lambda>addr s. Ret addr (set_addr ip bn addr s))
        else Ret (i_addrs (icache s ip) ! bn) s
      else
        let bn = bn - NDIRECT in
        if bn < NINDIRECT then
          rbind
            (if i_addrs (icache s ip) ! NDIRECT = 0 then
               rbind (balloc (i_dev (icache s ip)) s) (\<lambda>addr s. Ret addr (set_addr ip NDIRECT addr s))
             else Ret (i_addrs (icache s ip) ! NDIRECT) s) (\<lambda>addr s.
          rbind (bread (i_dev (icache s ip)) addr s) (\<lambda>bp s.
          rbind
            (if at32 (bdata bp s) (4 * bn) = 0 then
               rbind (balloc (i_dev (icache s ip)) s) (\<lambda>addr s.
               rbind (log_write bp (put_bdata bp (overwrite (bdata bp s) (4 * bn) (le32 addr)) s)) (\<lambda>_ s.
               Ret addr s))
             else Ret (at32 (bdata bp s) (4 * bn)) s) (\<lambda>addr s.
          rbind (brelse bp s) (\<lambda>_ s. Ret addr s))))
        else Panic ''bmap: out of range'')"

record stat =
  st_type :: u16
  st_dev :: u32
  st_ino :: u32
  st_nlink :: u16
  st_size :: u32

definition stati :: "nat \<Rightarrow> 'z fssys_scheme \<Rightarrow> stat" where
  "stati ip s = \<lparr>st_type = i_type (icache s ip), st_dev = i_dev (icache s ip), st_ino = i_inum (icache s ip),
     st_nlink = i_nlink (icache s ip), st_size = i_size (icache s ip)\<rparr>"

text \<open>\<open>struct devsw\<close>: the read and the write function of each major device number, if any.\<close>

record 's devsw =
  dev_read :: "int \<Rightarrow> (nat \<Rightarrow> u32 \<Rightarrow> 's \<Rightarrow> (int \<times> byte list, 's) outcome) option"
  dev_write :: "int \<Rightarrow> (nat \<Rightarrow> byte list \<Rightarrow> 's \<Rightarrow> (int, 's) outcome) option"

lemma rbind_cong [fundef_cong]:
  "r = r' \<Longrightarrow> (\<And>x s. r' = Ret x s \<Longrightarrow> f x s = g x s) \<Longrightarrow> rbind r f = rbind r' g"
  by (cases r') simp_all

text \<open>The loops of \<open>readi\<close> and \<open>writei\<close>, with the number of bytes still to do.\<close>

function readi_loop :: "nat \<Rightarrow> nat \<Rightarrow> nat \<Rightarrow> 'z fssys_scheme \<Rightarrow> (byte list, 'z fssys_scheme) outcome" where
  "readi_loop ip off r s =
     (if r = 0 then Ret [] s
      else
        rbind (bmap ip (off div BSIZE) s) (\<lambda>a s.
        rbind (bread (i_dev (icache s ip)) a s) (\<lambda>bp s.
        let m = min r (BSIZE - off mod BSIZE);
            xs = take m (drop (off mod BSIZE) (bdata bp s)) in
        rbind (brelse bp s) (\<lambda>_ s.
        rbind (readi_loop ip (off + m) (r - m) s) (\<lambda>ys s. Ret (xs @ ys) s)))))"
  by pat_completeness auto
termination
  by (relation "measure (\<lambda>(ip, off, r, s). r)") (auto simp: BSIZE_def)

definition readi ::
  "'z fssys_scheme devsw \<Rightarrow> nat \<Rightarrow> u32 \<Rightarrow> u32 \<Rightarrow> 'z fssys_scheme \<Rightarrow> (int \<times> byte list, 'z fssys_scheme) outcome" where
  "readi dv ip off n s =
     (let x = icache s ip in
      if i_type x = T_DEV then
        if sint (i_major x) < 0 \<or> NDEV \<le> sint (i_major x) then Ret (-1, []) s
        else case dev_read dv (sint (i_major x)) of None \<Rightarrow> Ret (-1, []) s | Some rd \<Rightarrow> rd ip n s
      else if i_size x < off \<or> off + n < off then Ret (-1, []) s
      else
        let n = (if i_size x < off + n then i_size x - off else n) in
        rbind (readi_loop ip (unat off) (unat n) s) (\<lambda>xs s. Ret (sint n, xs) s))"

function writei_loop :: "nat \<Rightarrow> nat \<Rightarrow> byte list \<Rightarrow> 'z fssys_scheme \<Rightarrow> (unit, 'z fssys_scheme) outcome" where
  "writei_loop ip off src s =
     (if src = [] then Ret () s
      else
        rbind (bmap ip (off div BSIZE) s) (\<lambda>a s.
        rbind (bread (i_dev (icache s ip)) a s) (\<lambda>bp s.
        let m = min (length src) (BSIZE - off mod BSIZE) in
        rbind (log_write bp (put_bdata bp (overwrite (bdata bp s) (off mod BSIZE) (take m src)) s)) (\<lambda>_ s.
        rbind (brelse bp s) (\<lambda>_ s.
        writei_loop ip (off + m) (drop m src) s)))))"
  by pat_completeness auto
termination
  by (relation "measure (\<lambda>(ip, off, src, s). length src)") (auto simp: BSIZE_def)

definition writei ::
  "'z fssys_scheme devsw \<Rightarrow> nat \<Rightarrow> byte list \<Rightarrow> u32 \<Rightarrow> 'z fssys_scheme \<Rightarrow> (int, 'z fssys_scheme) outcome" where
  "writei dv ip src off s =
     (let x = icache s ip; n = (of_nat (length src) :: u32) in
      if i_type x = T_DEV then
        if sint (i_major x) < 0 \<or> NDEV \<le> sint (i_major x) then Ret (-1) s
        else case dev_write dv (sint (i_major x)) of None \<Rightarrow> Ret (-1) s | Some wr \<Rightarrow> wr ip src s
      else if i_size x < off \<or> off + n < off then Ret (-1) s
      else if of_nat (MAXFILE * BSIZE) < off + n then Ret (-1) s
      else
        rbind (writei_loop ip (unat off) src s) (\<lambda>_ s.
        rbind
          (if 0 < n \<and> i_size (icache s ip) < off + n
           then iupdate ip (set_inode ip (\<lambda>x. x\<lparr>i_size := off + n\<rparr>) s) else Ret () s) (\<lambda>_ s.
        Ret (sint n) s)))"

section \<open>Directories\<close>

text \<open>\<open>strncmp\<close> and \<open>strncpy\<close> on byte arrays given as lists; what lies behind the end is not read before
  a NUL.\<close>

fun strncmp_bytes :: "nat \<Rightarrow> byte list \<Rightarrow> byte list \<Rightarrow> int" where
  "strncmp_bytes 0 p q = 0"
| "strncmp_bytes (Suc n) p q =
     (if chr p \<noteq> 0 \<and> chr p = chr q then strncmp_bytes n (tl p) (tl q) else uint (chr p) - uint (chr q))"

definition namecmp :: "byte list \<Rightarrow> byte list \<Rightarrow> int" where
  "namecmp p q = strncmp_bytes DIRSIZ p q"

definition strncpy_bytes :: "byte list \<Rightarrow> nat \<Rightarrow> byte list" where
  "strncpy_bytes p n = (let xs = take n (takeWhile (\<lambda>c. c \<noteq> 0) p) in xs @ replicate (n - length xs) 0)"

record dirent =
  de_inum :: u16
  de_name :: "byte list"

definition get_dirent :: "byte list \<Rightarrow> dirent" where
  "get_dirent xs = \<lparr>de_inum = get16 xs, de_name = take DIRSIZ (drop 2 xs)\<rparr>"

definition dirent_bytes :: "dirent \<Rightarrow> byte list" where
  "dirent_bytes d = le16 (de_inum d) @ de_name d"

function dirlookup_loop ::
  "'z fssys_scheme devsw \<Rightarrow> nat \<Rightarrow> byte list \<Rightarrow> nat \<Rightarrow> 'z fssys_scheme \<Rightarrow> ((nat \<times> nat) option, 'z fssys_scheme) outcome" where
  "dirlookup_loop dv dp nm off s =
     (if \<not> off < unat (i_size (icache s dp)) then Ret None s
      else
        rbind (readi dv dp (of_nat off) 16 s) (\<lambda>r s.
        if fst r \<noteq> 16 then Panic ''dirlookup read''
        else
          let de = get_dirent (snd r) in
          if de_inum de = 0 then dirlookup_loop dv dp nm (off + 16) s
          else if namecmp nm (de_name de) = 0 then
            rbind (iget (i_dev (icache s dp)) (ucast (de_inum de)) s) (\<lambda>ip s. Ret (Some (ip, off)) s)
          else dirlookup_loop dv dp nm (off + 16) s))"
  by pat_completeness auto
termination
proof (relation "measure (\<lambda>(dv, dp, nm, off, s). 2 ^ 32 - off)", goal_cases)
  case (2 dv dp nm off s)
  then show ?case using unat32_less [of "i_size (icache s dp)"] by simp
next
  case (3 dv dp nm off s)
  then show ?case using unat32_less [of "i_size (icache s dp)"] by simp
qed simp

definition dirlookup ::
  "'z fssys_scheme devsw \<Rightarrow> nat \<Rightarrow> byte list \<Rightarrow> 'z fssys_scheme \<Rightarrow> ((nat \<times> nat) option, 'z fssys_scheme) outcome" where
  "dirlookup dv dp nm s =
     (if i_type (icache s dp) \<noteq> T_DIR then Panic ''dirlookup not DIR'' else dirlookup_loop dv dp nm 0 s)"

text \<open>The offset of the first empty entry, or the end of the directory.\<close>

function dirlink_loop :: "'z fssys_scheme devsw \<Rightarrow> nat \<Rightarrow> nat \<Rightarrow> 'z fssys_scheme \<Rightarrow> (nat, 'z fssys_scheme) outcome" where
  "dirlink_loop dv dp off s =
     (if \<not> off < unat (i_size (icache s dp)) then Ret off s
      else
        rbind (readi dv dp (of_nat off) 16 s) (\<lambda>r s.
        if fst r \<noteq> 16 then Panic ''dirlink read''
        else if de_inum (get_dirent (snd r)) = 0 then Ret off s
        else dirlink_loop dv dp (off + 16) s))"
  by pat_completeness auto
termination
proof (relation "measure (\<lambda>(dv, dp, off, s). 2 ^ 32 - off)", goal_cases)
  case (2 dv dp off s)
  then show ?case using unat32_less [of "i_size (icache s dp)"] by simp
qed simp

definition dirlink ::
  "'z fssys_scheme devsw \<Rightarrow> nat \<Rightarrow> byte list \<Rightarrow> u32 \<Rightarrow> 'z fssys_scheme \<Rightarrow> (int, 'z fssys_scheme) outcome" where
  "dirlink dv dp nm inum s =
     rbind (dirlookup dv dp nm s) (\<lambda>r s.
     case r of
       Some (ip, _) \<Rightarrow> rbind (iput ip s) (\<lambda>_ s. Ret (-1) s)
     | None \<Rightarrow>
         rbind (dirlink_loop dv dp 0 s) (\<lambda>off s.
         let de = \<lparr>de_inum = ucast inum, de_name = strncpy_bytes nm DIRSIZ\<rparr> in
         rbind (writei dv dp (dirent_bytes de) (of_nat off) s) (\<lambda>n s.
         if n \<noteq> 16 then Panic ''dirlink'' else Ret 0 s)))"

section \<open>Paths\<close>

definition slash :: byte where "slash = 47"

text \<open>The path is the list of its characters before the NUL.\<close>

definition skipelem :: "byte list \<Rightarrow> (byte list \<times> byte list) option" where
  "skipelem path =
     (let path = dropWhile (\<lambda>c. c = slash) path in
      if path = [] then None
      else
        let elem = takeWhile (\<lambda>c. c \<noteq> slash) path;
            path = dropWhile (\<lambda>c. c \<noteq> slash) path;
            nm = (if DIRSIZ \<le> length elem then take DIRSIZ elem else elem @ [0]) in
        Some (dropWhile (\<lambda>c. c = slash) path, nm))"

lemma skipelem_shorter: "skipelem path = Some (rest, nm) \<Longrightarrow> length rest < length path"
proof -
  assume a: "skipelem path = Some (rest, nm)"
  let ?p = "dropWhile (\<lambda>c. c = slash) path"
  have ne: "?p \<noteq> []" and r: "rest = dropWhile (\<lambda>c. c = slash) (dropWhile (\<lambda>c. c \<noteq> slash) ?p)"
    using a by (auto simp: skipelem_def Let_def split: if_splits)
  have "hd ?p \<noteq> slash" using ne by (rule hd_dropWhile)
  then have "length (dropWhile (\<lambda>c. c \<noteq> slash) ?p) < length ?p"
    using ne by (cases ?p) (auto intro: le_imp_less_Suc length_dropWhile_le)
  also have "\<dots> \<le> length path" by (rule length_dropWhile_le)
  finally show ?thesis unfolding r using length_dropWhile_le le_less_trans by blast
qed

function namex_loop ::
  "'z fssys_scheme devsw \<Rightarrow> byte list \<Rightarrow> bool \<Rightarrow> byte list \<Rightarrow> nat \<Rightarrow> 'z fssys_scheme \<Rightarrow>
   (nat option \<times> byte list, 'z fssys_scheme) outcome" where
  "namex_loop dv path par nm0 ip s =
     (case skipelem path of
        None \<Rightarrow>
          if par then rbind (iput ip s) (\<lambda>_ s. Ret (None, nm0) s) else Ret (Some ip, nm0) s
      | Some (rest, nm) \<Rightarrow>
          rbind (ilock (Some ip) s) (\<lambda>_ s.
          if i_type (icache s ip) \<noteq> T_DIR then rbind (iunlockput ip s) (\<lambda>_ s. Ret (None, nm) s)
          else if par \<and> rest = [] then rbind (iunlock (Some ip) s) (\<lambda>_ s. Ret (Some ip, nm) s)
          else
            rbind (dirlookup dv ip nm s) (\<lambda>r s.
            case r of
              None \<Rightarrow> rbind (iunlockput ip s) (\<lambda>_ s. Ret (None, nm) s)
            | Some (next, _) \<Rightarrow>
                rbind (iunlockput ip s) (\<lambda>_ s. namex_loop dv rest par nm next s))))"
  by pat_completeness auto
termination
  by (relation "measure (\<lambda>(dv, path, par, nm0, ip, s). length path)") (auto dest: skipelem_shorter)

definition namex ::
  "'z fssys_scheme devsw \<Rightarrow> byte list \<Rightarrow> bool \<Rightarrow> 'z fssys_scheme \<Rightarrow> (nat option \<times> byte list, 'z fssys_scheme) outcome" where
  "namex dv path par s =
     rbind
       (if chr path = slash then iget ROOTDEV ROOTINO s
        else
          rbind (myproc s) (\<lambda>p s.
          case p of None \<Rightarrow> Panic ''trap'' | Some p \<Rightarrow>
          case cwd (procs s p) of None \<Rightarrow> Panic ''trap'' | Some d \<Rightarrow> idup d s)) (\<lambda>ip s.
     namex_loop dv path par [] ip s)"

definition namei :: "'z fssys_scheme devsw \<Rightarrow> byte list \<Rightarrow> 'z fssys_scheme \<Rightarrow> (nat option, 'z fssys_scheme) outcome" where
  "namei dv path s = rbind (namex dv path False s) (\<lambda>r s. Ret (fst r) s)"

definition nameiparent ::
  "'z fssys_scheme devsw \<Rightarrow> byte list \<Rightarrow> 'z fssys_scheme \<Rightarrow> (nat option \<times> byte list, 'z fssys_scheme) outcome" where
  "nameiparent dv path s = namex dv path True s"

section \<open>Numbers in blocks, and what overwriting part of a block does to them\<close>

lemma drop_overwrite:
  assumes "off + length xs \<le> length a" "k \<le> length xs"
  shows "drop (off + k) (overwrite a off xs) = drop k xs @ drop (off + length xs) a"
proof -
  have "drop (off + k) (overwrite a off xs) = drop k (drop off (overwrite a off xs))" by (simp add: add.commute)
  also have "drop off (overwrite a off xs) = xs @ drop (off + length xs) a" using assms(1) by (simp add: overwrite_def)
  finally show ?thesis using assms(2) by simp
qed

lemma at32_nth: "off + 4 \<le> length b \<Longrightarrow> at32 b off = get32 [b ! off, b ! (off + 1), b ! (off + 2), b ! (off + 3)]"
proof -
  assume a: "off + 4 \<le> length b"
  then have "drop off b = b ! off # b ! (off + 1) # b ! (off + 2) # b ! (off + 3) # drop (off + 4) b"
    by (simp add: Cons_nth_drop_Suc numeral_eq_Suc)
  then show ?thesis by (simp add: at32_def)
qed

lemma at16_nth: "off + 2 \<le> length b \<Longrightarrow> at16 b off = get16 [b ! off, b ! (off + 1)]"
proof -
  assume a: "off + 2 \<le> length b"
  then have "drop off b = b ! off # b ! (off + 1) # drop (off + 2) b"
    by (simp add: Cons_nth_drop_Suc numeral_eq_Suc)
  then show ?thesis by (simp add: at16_def)
qed

lemma at32_outside:
  "i + 4 \<le> off \<or> off + length xs \<le> i \<Longrightarrow> off + length xs \<le> length a \<Longrightarrow> i + 4 \<le> length a \<Longrightarrow> at32 (overwrite a off xs) i = at32 a i"
  by (simp add: at32_nth nth_overwrite) linarith

lemma at16_outside:
  "i + 2 \<le> off \<or> off + length xs \<le> i \<Longrightarrow> off + length xs \<le> length a \<Longrightarrow> i + 2 \<le> length a \<Longrightarrow> at16 (overwrite a off xs) i = at16 a i"
  by (simp add: at16_nth nth_overwrite) linarith

lemma at32_same: "off + 4 \<le> length a \<Longrightarrow> at32 (overwrite a off (le32 w)) off = w"
  using drop_overwrite [of off "le32 w" a 0] by (simp add: at32_def)

lemma at32_replicate: "off + 4 \<le> n \<Longrightarrow> at32 (replicate n 0) off = 0"
  by (simp add: at32_nth)

end
