(* ===== verification/File.thy ===== *)
theory File
  imports Fs
begin

text \<open>
  file.c and pipe.c: the table of open files and pipes. A file is the index of its entry; a pipe is the
  address of the page it lives in, and its structure is the entry of \<open>pipes\<close> under that address. Buffers of
  the caller are lists of bytes. A call that blocks ends with the outcome of \<open>sleep\<close>, which is never
  \<open>Ret\<close>: when the thread is woken it goes through \<open>sleep_resume\<close> and enters the loop again with what is
  left to do.
\<close>

datatype fdtype = FD_NONE | FD_PIPE | FD_INODE

record filerec =
  f_type :: fdtype
  f_ref :: int
  f_readable :: bool
  f_writable :: bool
  f_pipe :: u32
  f_ip :: nat
  f_off :: u32

definition PIPESIZE :: nat where "PIPESIZE = 512"
definition NFILE :: nat where "NFILE = 100"

record pipe =
  p_data :: "nat \<Rightarrow> byte"
  p_nread :: u32
  p_nwrite :: u32
  p_readopen :: bool
  p_writeopen :: bool

record filesys = fssys +
  ftable :: "nat \<Rightarrow> filerec"
  pipes :: "u32 \<Rightarrow> pipe"

definition set_file :: "nat \<Rightarrow> (filerec \<Rightarrow> filerec) \<Rightarrow> 'z filesys_scheme \<Rightarrow> 'z filesys_scheme" where
  "set_file i f s = s\<lparr>ftable := (ftable s)(i := f (ftable s i))\<rparr>"

definition set_pipe :: "u32 \<Rightarrow> (pipe \<Rightarrow> pipe) \<Rightarrow> 'z filesys_scheme \<Rightarrow> 'z filesys_scheme" where
  "set_pipe i f s = s\<lparr>pipes := (pipes s)(i := f (pipes s i))\<rparr>"

text \<open>The end of a function whose last act is to block.\<close>

definition away :: "(unit, 's) outcome \<Rightarrow> ('a, 's) outcome" where
  "away r = rbind r (\<lambda>_ _. Undef)"

section \<open>Pipes\<close>

definition pipe_put :: "byte \<Rightarrow> pipe \<Rightarrow> pipe" where
  "pipe_put c p = p\<lparr>p_data := (p_data p)(unat (p_nwrite p mod of_nat PIPESIZE) := c), p_nwrite := p_nwrite p + 1\<rparr>"

definition pipe_get :: "pipe \<Rightarrow> byte \<times> pipe" where
  "pipe_get p = (p_data p (unat (p_nread p mod of_nat PIPESIZE)), p\<lparr>p_nread := p_nread p + 1\<rparr>)"

definition pipeclose :: "u32 \<Rightarrow> bool \<Rightarrow> 'z filesys_scheme \<Rightarrow> (unit, 'z filesys_scheme) outcome" where
  "pipeclose p writable s =
     rbind (acquire (LPipe p) s) (\<lambda>_ s.
     rbind
       (if writable then wakeup (Some (ChanPipeRead p)) (set_pipe p (\<lambda>x. x\<lparr>p_writeopen := False\<rparr>) s)
        else wakeup (Some (ChanPipeWrite p)) (set_pipe p (\<lambda>x. x\<lparr>p_readopen := False\<rparr>) s)) (\<lambda>_ s.
     if \<not> p_readopen (pipes s p) \<and> \<not> p_writeopen (pipes s p)
     then rbind (release (LPipe p) s) (\<lambda>_ s. kfree p s)
     else release (LPipe p) s))"

definition proc_killed :: "'z kern_scheme \<Rightarrow> (bool, 'z kern_scheme) outcome" where
  "proc_killed s =
     rbind (myproc s) (\<lambda>p s.
     case p of None \<Rightarrow> Panic ''trap'' | Some p \<Rightarrow> Ret (killed (procs s p)) s)"

fun pipewrite_loop :: "u32 \<Rightarrow> byte list \<Rightarrow> int \<Rightarrow> 'z filesys_scheme \<Rightarrow> (int, 'z filesys_scheme) outcome" where
  "pipewrite_loop p [] n s =
     rbind (wakeup (Some (ChanPipeRead p)) s) (\<lambda>_ s.
     rbind (release (LPipe p) s) (\<lambda>_ s. Ret n s))"
| "pipewrite_loop p (c # cs) n s =
     (if p_nwrite (pipes s p) = p_nread (pipes s p) + of_nat PIPESIZE then
        rbind (if \<not> p_readopen (pipes s p) then Ret True s else proc_killed s) (\<lambda>quit s.
        if quit then rbind (release (LPipe p) s) (\<lambda>_ s. Ret (-1) s)
        else
          rbind (wakeup (Some (ChanPipeRead p)) s) (\<lambda>_ s.
          away (sleep (Some (ChanPipeWrite p)) (Some (LPipe p)) s)))
      else pipewrite_loop p cs n (set_pipe p (pipe_put c) s))"

definition pipewrite :: "u32 \<Rightarrow> byte list \<Rightarrow> 'z filesys_scheme \<Rightarrow> (int, 'z filesys_scheme) outcome" where
  "pipewrite p src s = rbind (acquire (LPipe p) s) (\<lambda>_ s. pipewrite_loop p src (int (length src)) s)"

fun piperead_copy :: "u32 \<Rightarrow> nat \<Rightarrow> 'z filesys_scheme \<Rightarrow> byte list \<times> 'z filesys_scheme" where
  "piperead_copy p 0 s = ([], s)"
| "piperead_copy p (Suc k) s =
     (if p_nread (pipes s p) = p_nwrite (pipes s p) then ([], s)
      else
        let (c, x) = pipe_get (pipes s p);
            (cs, s) = piperead_copy p k (set_pipe p (\<lambda>_. x) s) in
        (c # cs, s))"

definition piperead_loop :: "u32 \<Rightarrow> int \<Rightarrow> 'z filesys_scheme \<Rightarrow> (int \<times> byte list, 'z filesys_scheme) outcome" where
  "piperead_loop p n s =
     (if p_nread (pipes s p) = p_nwrite (pipes s p) \<and> p_writeopen (pipes s p) then
        rbind (proc_killed s) (\<lambda>k s.
        if k then rbind (release (LPipe p) s) (\<lambda>_ s. Ret (-1, []) s)
        else away (sleep (Some (ChanPipeRead p)) (Some (LPipe p)) s))
      else
        let (cs, s) = piperead_copy p (nat n) s in
        rbind (wakeup (Some (ChanPipeWrite p)) s) (\<lambda>_ s.
        rbind (release (LPipe p) s) (\<lambda>_ s. Ret (int (length cs), cs) s)))"

definition piperead :: "u32 \<Rightarrow> int \<Rightarrow> 'z filesys_scheme \<Rightarrow> (int \<times> byte list, 'z filesys_scheme) outcome" where
  "piperead p n s = rbind (acquire (LPipe p) s) (\<lambda>_ s. piperead_loop p n s)"

text \<open>The continuations of the two calls after they have slept: they go on with the test of the loop.\<close>

definition pipewrite_resume ::
  "nat \<Rightarrow> u32 \<Rightarrow> byte list \<Rightarrow> int \<Rightarrow> bool \<Rightarrow> 'z filesys_scheme \<Rightarrow> (int, 'z filesys_scheme) outcome" where
  "pipewrite_resume i p src n saved s = rbind (sleep_resume i (LPipe p) saved s) (\<lambda>_ s. pipewrite_loop p src n s)"

definition piperead_resume ::
  "nat \<Rightarrow> u32 \<Rightarrow> int \<Rightarrow> bool \<Rightarrow> 'z filesys_scheme \<Rightarrow> (int \<times> byte list, 'z filesys_scheme) outcome" where
  "piperead_resume i p n saved s = rbind (sleep_resume i (LPipe p) saved s) (\<lambda>_ s. piperead_loop p n s)"

section \<open>Files\<close>

definition fileinit :: "'z filesys_scheme \<Rightarrow> 'z filesys_scheme" where
  "fileinit s = initlock LFtable ''ftable'' s"

definition filealloc :: "'z filesys_scheme \<Rightarrow> (nat option, 'z filesys_scheme) outcome" where
  "filealloc s =
     rbind (acquire LFtable s) (\<lambda>_ s.
     case find (\<lambda>f. f_ref (ftable s f) = 0) [0..<NFILE] of
       Some f \<Rightarrow> rbind (release LFtable (set_file f (\<lambda>x. x\<lparr>f_ref := 1\<rparr>) s)) (\<lambda>_ s. Ret (Some f) s)
     | None \<Rightarrow> rbind (release LFtable s) (\<lambda>_ s. Ret None s))"

definition filedup :: "nat \<Rightarrow> 'z filesys_scheme \<Rightarrow> (nat, 'z filesys_scheme) outcome" where
  "filedup f s =
     rbind (acquire LFtable s) (\<lambda>_ s.
     if f_ref (ftable s f) < 1 then Panic ''filedup''
     else
       rbind (release LFtable (set_file f (\<lambda>x. x\<lparr>f_ref := f_ref x + 1\<rparr>) s)) (\<lambda>_ s. Ret f s))"

definition fileclose :: "nat \<Rightarrow> 'z filesys_scheme \<Rightarrow> (unit, 'z filesys_scheme) outcome" where
  "fileclose f s =
     rbind (acquire LFtable s) (\<lambda>_ s.
     if f_ref (ftable s f) < 1 then Panic ''fileclose''
     else
       let s = set_file f (\<lambda>x. x\<lparr>f_ref := f_ref x - 1\<rparr>) s in
       if 0 < f_ref (ftable s f) then release LFtable s
       else
         let ff = ftable s f;
             s = set_file f (\<lambda>x. x\<lparr>f_ref := 0, f_type := FD_NONE\<rparr>) s in
         rbind (release LFtable s) (\<lambda>_ s.
         case f_type ff of
           FD_PIPE \<Rightarrow> pipeclose (f_pipe ff) (f_writable ff) s
         | FD_INODE \<Rightarrow>
             rbind (begin_op s) (\<lambda>_ s.
             rbind (iput (f_ip ff) s) (\<lambda>_ s.
             end_op s))
         | FD_NONE \<Rightarrow> Ret () s))"

definition filestat :: "nat \<Rightarrow> 'z filesys_scheme \<Rightarrow> (int \<times> stat option, 'z filesys_scheme) outcome" where
  "filestat f s =
     (if f_type (ftable s f) = FD_INODE then
        let ip = f_ip (ftable s f) in
        rbind (ilock (Some ip) s) (\<lambda>_ s.
        let st = stati ip s in
        rbind (iunlock (Some ip) s) (\<lambda>_ s. Ret (0, Some st) s))
      else Ret (-1, None) s)"

definition fileread ::
  "'z filesys_scheme devsw \<Rightarrow> nat \<Rightarrow> int \<Rightarrow> 'z filesys_scheme \<Rightarrow> (int \<times> byte list, 'z filesys_scheme) outcome" where
  "fileread dv f n s =
     (if \<not> f_readable (ftable s f) then Ret (-1, []) s
      else
        case f_type (ftable s f) of
          FD_PIPE \<Rightarrow> piperead (f_pipe (ftable s f)) n s
        | FD_INODE \<Rightarrow>
            let ip = f_ip (ftable s f) in
            rbind (ilock (Some ip) s) (\<lambda>_ s.
            rbind (readi dv ip (f_off (ftable s f)) (word_of_int n) s) (\<lambda>r s.
            let s = (if 0 < fst r then set_file f (\<lambda>x. x\<lparr>f_off := f_off x + word_of_int (fst r)\<rparr>) s else s) in
            rbind (iunlock (Some ip) s) (\<lambda>_ s. Ret r s)))
        | FD_NONE \<Rightarrow> Panic ''fileread'')"

definition filewrite_max :: nat where
  "filewrite_max = nat ((MAXOPBLOCKS - 1 - 1 - 2) div 2 * 512)"

text \<open>The loop of \<open>filewrite\<close>: \<open>i\<close> bytes are written, \<open>src\<close> is still to do. It returns the final \<open>i\<close>.\<close>

function filewrite_loop ::
  "'z filesys_scheme devsw \<Rightarrow> nat \<Rightarrow> nat \<Rightarrow> byte list \<Rightarrow> int \<Rightarrow> 'z filesys_scheme \<Rightarrow> (int, 'z filesys_scheme) outcome" where
  "filewrite_loop dv f ip src i s =
     (if src = [] then Ret i s
      else
        let n1 = min (length src) filewrite_max in
        rbind (begin_op s) (\<lambda>_ s.
        rbind (ilock (Some ip) s) (\<lambda>_ s.
        rbind (writei dv ip (take n1 src) (f_off (ftable s f)) s) (\<lambda>r s.
        let s = (if 0 < r then set_file f (\<lambda>x. x\<lparr>f_off := f_off x + word_of_int r\<rparr>) s else s) in
        rbind (iunlock (Some ip) s) (\<lambda>_ s.
        rbind (end_op s) (\<lambda>_ s.
        if r < 0 then Ret i s
        else if r \<noteq> int n1 then Panic ''short filewrite''
        else filewrite_loop dv f ip (drop n1 src) (i + r) s))))))"
  by pat_completeness auto
termination
  by (relation "measure (\<lambda>(dv, f, ip, src, i, s). length src)") (auto simp: filewrite_max_def MAXOPBLOCKS_def)

definition filewrite ::
  "'z filesys_scheme devsw \<Rightarrow> nat \<Rightarrow> byte list \<Rightarrow> 'z filesys_scheme \<Rightarrow> (int, 'z filesys_scheme) outcome" where
  "filewrite dv f src s =
     (if \<not> f_writable (ftable s f) then Ret (-1) s
      else
        case f_type (ftable s f) of
          FD_PIPE \<Rightarrow> pipewrite (f_pipe (ftable s f)) src s
        | FD_INODE \<Rightarrow>
            rbind (filewrite_loop dv f (f_ip (ftable s f)) src 0 s) (\<lambda>i s.
            Ret (if i = int (length src) then int (length src) else -1) s)
        | FD_NONE \<Rightarrow> Panic ''filewrite'')"

definition pipealloc_bad ::
  "nat option \<Rightarrow> nat option \<Rightarrow> 'z filesys_scheme \<Rightarrow> ((nat \<times> nat) option, 'z filesys_scheme) outcome" where
  "pipealloc_bad f0 f1 s =
     rbind (case f0 of None \<Rightarrow> Ret () s | Some f \<Rightarrow> fileclose f s) (\<lambda>_ s.
     rbind (case f1 of None \<Rightarrow> Ret () s | Some f \<Rightarrow> fileclose f s) (\<lambda>_ s. Ret None s))"

definition pipealloc :: "'z filesys_scheme \<Rightarrow> ((nat \<times> nat) option, 'z filesys_scheme) outcome" where
  "pipealloc s =
     rbind (filealloc s) (\<lambda>f0 s.
     case f0 of None \<Rightarrow> pipealloc_bad None None s | Some a \<Rightarrow>
     rbind (filealloc s) (\<lambda>f1 s.
     case f1 of None \<Rightarrow> pipealloc_bad f0 None s | Some b \<Rightarrow>
     rbind (kalloc s) (\<lambda>p s.
     if p = 0 then pipealloc_bad f0 f1 s
     else
       let s = set_pipe p (\<lambda>x. x\<lparr>p_readopen := True, p_writeopen := True, p_nwrite := 0, p_nread := 0\<rparr>) s;
           s = initlock (LPipe p) ''pipe'' s;
           s = set_file a (\<lambda>x. x\<lparr>f_type := FD_PIPE, f_readable := True, f_writable := False, f_pipe := p\<rparr>) s;
           s = set_file b (\<lambda>x. x\<lparr>f_type := FD_PIPE, f_readable := False, f_writable := True, f_pipe := p\<rparr>) s in
       Ret (Some (a, b)) s)))"

end
