(* ===== verification/Ulib.thy ===== *)
theory Ulib
  imports Kstring
begin

text \<open>
  ulib.c, the string functions of the user programs (names with \<open>u_\<close> where the kernel has a
  function of the same name), with the same conventions. \<open>gets\<close> reads its characters from the
  bytes that are still to come on file descriptor 0; a read at the end of them returns 0.
\<close>

partial_function (option) u_strcpy_loop :: "mem \<Rightarrow> u32 \<Rightarrow> u32 \<Rightarrow> mem option" where
  "u_strcpy_loop m s t =
     (let c = m t; m = m(s := c) in if c \<noteq> 0 then u_strcpy_loop m (s + 1) (t + 1) else Some m)"

definition u_strcpy :: "mem \<Rightarrow> u32 \<Rightarrow> u32 \<Rightarrow> (u32 \<times> mem) option" where
  "u_strcpy m s t = map_option (\<lambda>m. (s, m)) (u_strcpy_loop m s t)"

partial_function (option) u_strcmp :: "mem \<Rightarrow> u32 \<Rightarrow> u32 \<Rightarrow> int option" where
  "u_strcmp m p q =
     (if m p \<noteq> 0 \<and> m p = m q then u_strcmp m (p + 1) (q + 1)
      else Some (uint (m p) - uint (m q)))"

definition u_strlen :: "mem \<Rightarrow> u32 \<Rightarrow> nat option" where
  "u_strlen m s = strlen_loop m s 0"

definition u_memset :: "mem \<Rightarrow> u32 \<Rightarrow> u32 \<Rightarrow> u32 \<Rightarrow> u32 \<times> mem" where
  "u_memset m dst c n = (dst, stosb m dst (ucast c) (unat n))"

partial_function (option) u_strchr :: "mem \<Rightarrow> u32 \<Rightarrow> byte \<Rightarrow> u32 option" where
  "u_strchr m s c =
     (if m s \<noteq> 0 then if m s = c then Some s else u_strchr m (s + 1) c else Some 0)"

text \<open>The loop of \<open>gets\<close>; \<open>k\<close> bounds the iterations still allowed by \<open>i + 1 < max\<close>.\<close>

fun gets_loop :: "nat \<Rightarrow> mem \<Rightarrow> u32 \<Rightarrow> byte list \<Rightarrow> mem \<times> u32 \<times> byte list" where
  "gets_loop 0 m p inp = (m, p, inp)"
| "gets_loop (Suc k) m p [] = (m, p, [])"
| "gets_loop (Suc k) m p (c # inp) =
     (let m = m(p := c) in
      if c = 10 \<or> c = 13 then (m, p + 1, inp) else gets_loop k m (p + 1) inp)"

definition gets :: "mem \<Rightarrow> u32 \<Rightarrow> int \<Rightarrow> byte list \<Rightarrow> u32 \<times> mem \<times> byte list" where
  "gets m b maxn inp =
     (let (m', p, rest) = gets_loop (nat (maxn - 1)) m b inp in (b, m'(p := 0), rest))"

partial_function (option) atoi_loop :: "mem \<Rightarrow> u32 \<Rightarrow> u32 \<Rightarrow> u32 option" where
  "atoi_loop m s n =
     (if 48 \<le> m s \<and> m s \<le> 57 then atoi_loop m (s + 1) (n * 10 + ucast (m s) - 48) else Some n)"

definition atoi :: "mem \<Rightarrow> u32 \<Rightarrow> u32 option" where
  "atoi m s = atoi_loop m s 0"

definition u_memmove :: "mem \<Rightarrow> u32 \<Rightarrow> u32 \<Rightarrow> int \<Rightarrow> u32 \<times> mem" where
  "u_memmove m vdst vsrc n = (vdst, copy_up m vdst vsrc (nat n))"

section \<open>Lemmas\<close>

lemma str_at_upd:
  assumes "str_at m t xs" "s \<notin> region t (Suc (length xs))" "length xs < 2 ^ 32"
  shows "str_at (m(s := v)) t xs"
proof -
  have "t + of_nat i \<noteq> s" if "i \<le> length xs" for i
    using in_region [of i "Suc (length xs)" t] that assms by auto
  then show ?thesis using assms(1) by (simp add: str_at_def)
qed

lemma u_strcpy_loop_eq:
  assumes "str_at m t xs" "region s (Suc (length xs)) \<inter> region t (Suc (length xs)) = {}" "length xs + 1 < 2 ^ 32"
  shows "u_strcpy_loop m s t = Some (store m s (xs @ [0]))"
  using assms
proof (induction xs arbitrary: m s t)
  case Nil
  then show ?case by (subst u_strcpy_loop.simps) (simp add: str_at_Nil store_Cons)
next
  case (Cons x xs)
  have n: "Suc (length xs) < 2 ^ 32" using Cons.prems by simp
  have d: "region (s + 1) (Suc (length xs)) \<inter> region (t + 1) (Suc (length xs)) = {}"
    "s \<notin> region (t + 1) (Suc (length xs))"
    using region_step [of s "Suc (length xs)" t] Cons.prems n by simp_all
  have "str_at (m(s := x)) (t + 1) xs"
    using Cons.prems d n by (intro str_at_upd) (auto simp: str_at_Cons)
  then have "u_strcpy_loop (m(s := x)) (s + 1) (t + 1) = Some (store (m(s := x)) (s + 1) (xs @ [0]))"
    using d n by (intro Cons.IH) (auto simp del: fun_upd_apply)
  then show ?case
    using Cons.prems n by (subst u_strcpy_loop.simps) (simp add: str_at_Cons store_Cons del: fun_upd_apply)
qed

lemma u_strcmp_eq: "str_at m p xs \<Longrightarrow> str_at m q ys \<Longrightarrow> u_strcmp m p q = Some (lexcmp xs ys)"
proof (induction xs ys arbitrary: p q rule: lexcmp.induct)
  case (4 x xs y ys)
  then show ?case by (subst u_strcmp.simps) (auto simp: str_at_Cons)
qed (subst u_strcmp.simps, simp add: str_at_Cons str_at_Nil)+

lemma u_strchr_eq:
  "str_at m s xs \<Longrightarrow> u_strchr m s c =
     Some (if c \<in> set xs then s + of_nat (length (takeWhile (\<lambda>x. x \<noteq> c) xs)) else 0)"
proof (induction xs arbitrary: s)
  case Nil
  then show ?case by (subst u_strchr.simps) (simp add: str_at_Nil)
next
  case (Cons x xs)
  then show ?case by (subst u_strchr.simps) (auto simp: str_at_Cons add.assoc)
qed

text \<open>\<open>atoi\<close> reads the digits in front of the first other character.\<close>

definition digit :: "byte \<Rightarrow> bool" where
  "digit c \<longleftrightarrow> 48 \<le> c \<and> c \<le> 57"

definition horner :: "nat \<Rightarrow> nat list \<Rightarrow> nat" where
  "horner b ds = foldl (\<lambda>v d. v * b + d) 0 ds"

lemma atoi_loop_eq:
  assumes "\<forall>i < length ds. m (s + of_nat i) = of_nat (48 + ds ! i)" "\<forall>d \<in> set ds. d < 10"
    "\<not> digit (m (s + of_nat (length ds)))"
  shows "atoi_loop m s (of_nat v) = Some (of_nat (foldl (\<lambda>v d. v * 10 + d) v ds))"
  using assms
proof (induction ds arbitrary: s v)
  case Nil
  then show ?case by (subst atoi_loop.simps) (auto simp: digit_def)
next
  case (Cons d ds)
  have d: "d < 10" "m s = of_nat (48 + d)" using Cons.prems by auto
  then have u: "unat (m s) = 48 + d"
    by (simp add: unsigned_of_nat take_bit_nat_eq_self del: of_nat_add)
  then have r: "48 \<le> m s" "m s \<le> 57" using d(1) by (simp_all add: word_le_nat_alt)
  have "(ucast (m s) :: u32) = of_nat (48 + d)"
    using u by (metis of_nat_unat)
  then have n: "of_nat v * 10 + ucast (m s) - 48 = (of_nat (v * 10 + d) :: u32)" by simp
  have "atoi_loop m (s + 1) (of_nat (v * 10 + d)) = Some (of_nat (foldl (\<lambda>v d. v * 10 + d) (v * 10 + d) ds))"
  proof (rule Cons.IH)
    show "\<forall>i < length ds. m (s + 1 + of_nat i) = of_nat (48 + ds ! i)"
    proof (intro allI impI)
      fix i assume "i < length ds"
      then show "m (s + 1 + of_nat i) = of_nat (48 + ds ! i)"
        using Cons.prems(1) [rule_format, of "Suc i"] by (simp add: add.assoc)
    qed
  qed (use Cons.prems in \<open>auto simp: add.assoc\<close>)
  then show ?case using r by (subst atoi_loop.simps) (simp add: n)
qed

end
