(* ===== verification/Jos_String.thy ===== *)
theory Jos_String
  imports Ulib
begin

text \<open>
  lib/string.c of the JOS laboratory. The build has \<open>ASM\<close> defined to 1, so \<open>memset\<close> and
  \<open>memmove\<close> are the versions with string instructions (\<open>rep stosl/stosb/movsl/movsb\<close>).
\<close>

section \<open>The functions\<close>

partial_function (option) jos_strlen_loop :: "mem \<Rightarrow> u32 \<Rightarrow> nat \<Rightarrow> nat option" where
  "jos_strlen_loop m s n = (if m s \<noteq> 0 then jos_strlen_loop m (s + 1) (Suc n) else Some n)"

definition jos_strlen :: "mem \<Rightarrow> u32 \<Rightarrow> nat option" where
  "jos_strlen m s = jos_strlen_loop m s 0"

fun strnlen_loop :: "nat \<Rightarrow> mem \<Rightarrow> u32 \<Rightarrow> nat \<Rightarrow> nat" where
  "strnlen_loop 0 m s n = n"
| "strnlen_loop (Suc k) m s n = (if m s \<noteq> 0 then strnlen_loop k m (s + 1) (Suc n) else n)"

definition strnlen :: "mem \<Rightarrow> u32 \<Rightarrow> u32 \<Rightarrow> nat" where
  "strnlen m s len = strnlen_loop (unat len) m s 0"

definition jos_strcpy :: "mem \<Rightarrow> u32 \<Rightarrow> u32 \<Rightarrow> (u32 \<times> mem) option" where
  "jos_strcpy m dst src = map_option (\<lambda>m. (dst, m)) (u_strcpy_loop m dst src)"

definition jos_strcat :: "mem \<Rightarrow> u32 \<Rightarrow> u32 \<Rightarrow> (u32 \<times> mem) option" where
  "jos_strcat m dst src =
     (case jos_strlen m dst of None \<Rightarrow> None
      | Some len \<Rightarrow> map_option (\<lambda>(_, m). (dst, m)) (jos_strcpy m (dst + of_nat len) src))"

fun jos_strncpy_loop :: "nat \<Rightarrow> mem \<Rightarrow> u32 \<Rightarrow> u32 \<Rightarrow> mem" where
  "jos_strncpy_loop 0 m dst src = m"
| "jos_strncpy_loop (Suc k) m dst src =
     (let m = m(dst := m src) in
      jos_strncpy_loop k m (dst + 1) (if m src \<noteq> 0 then src + 1 else src))"

definition jos_strncpy :: "mem \<Rightarrow> u32 \<Rightarrow> u32 \<Rightarrow> u32 \<Rightarrow> u32 \<times> mem" where
  "jos_strncpy m dst src len = (dst, jos_strncpy_loop (unat len) m dst src)"

fun strlcpy_loop :: "nat \<Rightarrow> mem \<Rightarrow> u32 \<Rightarrow> u32 \<Rightarrow> mem \<times> u32" where
  "strlcpy_loop 0 m dst src = (m, dst)"
| "strlcpy_loop (Suc k) m dst src =
     (if m src \<noteq> 0 then strlcpy_loop k (m(dst := m src)) (dst + 1) (src + 1) else (m, dst))"

definition strlcpy :: "mem \<Rightarrow> u32 \<Rightarrow> u32 \<Rightarrow> u32 \<Rightarrow> u32 \<times> mem" where
  "strlcpy m dst src len =
     (if 0 < len then
        let (m', d) = strlcpy_loop (unat (len - 1)) m dst src in (d - dst, m'(d := 0))
      else (0, m))"

partial_function (option) jos_strcmp :: "mem \<Rightarrow> u32 \<Rightarrow> u32 \<Rightarrow> int option" where
  "jos_strcmp m p q =
     (if m p \<noteq> 0 \<and> m p = m q then jos_strcmp m (p + 1) (q + 1)
      else Some (uint (m p) - uint (m q)))"

fun jos_strncmp_loop :: "nat \<Rightarrow> mem \<Rightarrow> u32 \<Rightarrow> u32 \<Rightarrow> int" where
  "jos_strncmp_loop 0 m p q = 0"
| "jos_strncmp_loop (Suc n) m p q =
     (if m p \<noteq> 0 \<and> m p = m q then jos_strncmp_loop n m (p + 1) (q + 1)
      else uint (m p) - uint (m q))"

definition jos_strncmp :: "mem \<Rightarrow> u32 \<Rightarrow> u32 \<Rightarrow> u32 \<Rightarrow> int" where
  "jos_strncmp m p q n = jos_strncmp_loop (unat n) m p q"

partial_function (option) jos_strchr :: "mem \<Rightarrow> u32 \<Rightarrow> byte \<Rightarrow> u32 option" where
  "jos_strchr m s c =
     (if m s \<noteq> 0 then if m s = c then Some s else jos_strchr m (s + 1) c else Some 0)"

partial_function (option) strfind :: "mem \<Rightarrow> u32 \<Rightarrow> byte \<Rightarrow> u32 option" where
  "strfind m s c =
     (if m s \<noteq> 0 then if m s = c then Some s else strfind m (s + 1) c else Some s)"

definition jos_memset :: "mem \<Rightarrow> u32 \<Rightarrow> u32 \<Rightarrow> u32 \<Rightarrow> u32 \<times> mem" where
  "jos_memset m v c n =
     (v,
      if n = 0 then m
      else if sint v mod 4 = 0 \<and> n mod 4 = 0 then
        let c = c AND 0xFF;
            c = push_bit 24 c OR push_bit 16 c OR push_bit 8 c OR c in
        stosl m v c (unat (n div 4))
      else stosb m v (ucast c) (unat n))"

text \<open>\<open>rep movsl\<close>: 32-bit words, upwards after \<open>cld\<close> and downwards after \<open>std\<close>.\<close>

fun movsl_up :: "mem \<Rightarrow> u32 \<Rightarrow> u32 \<Rightarrow> nat \<Rightarrow> mem" where
  "movsl_up m d s 0 = m"
| "movsl_up m d s (Suc n) = movsl_up (st32 m d (ld32 m s)) (d + 4) (s + 4) n"

fun movsl_down :: "mem \<Rightarrow> u32 \<Rightarrow> u32 \<Rightarrow> nat \<Rightarrow> mem" where
  "movsl_down m d s 0 = m"
| "movsl_down m d s (Suc n) = movsl_down (st32 m d (ld32 m s)) (d - 4) (s - 4) n"

fun movsb_down :: "mem \<Rightarrow> u32 \<Rightarrow> u32 \<Rightarrow> nat \<Rightarrow> mem" where
  "movsb_down m d s 0 = m"
| "movsb_down m d s (Suc n) = movsb_down (m(d := m s)) (d - 1) (s - 1) n"

definition jos_memmove :: "mem \<Rightarrow> u32 \<Rightarrow> u32 \<Rightarrow> u32 \<Rightarrow> u32 \<times> mem" where
  "jos_memmove m dst src n =
     (dst,
      if src < dst \<and> dst < src + n then
        let s = src + n; d = dst + n in
        if sint s mod 4 = 0 \<and> sint d mod 4 = 0 \<and> n mod 4 = 0
        then movsl_down m (d - 4) (s - 4) (unat (n div 4))
        else movsb_down m (d - 1) (s - 1) (unat n)
      else
        if sint src mod 4 = 0 \<and> sint dst mod 4 = 0 \<and> n mod 4 = 0
        then movsl_up m dst src (unat (n div 4))
        else copy_up m dst src (unat n))"

definition jos_memcpy :: "mem \<Rightarrow> u32 \<Rightarrow> u32 \<Rightarrow> u32 \<Rightarrow> u32 \<times> mem" where
  "jos_memcpy m dst src n = jos_memmove m dst src n"

definition jos_memcmp :: "mem \<Rightarrow> u32 \<Rightarrow> u32 \<Rightarrow> u32 \<Rightarrow> int" where
  "jos_memcmp m v1 v2 n = memcmp_loop m v1 v2 (unat n)"

text \<open>The loop of \<open>memfind\<close> ends when the pointer reaches \<open>ends\<close>; the bound is its distance.\<close>

fun memfind_loop :: "nat \<Rightarrow> mem \<Rightarrow> u32 \<Rightarrow> u32 \<Rightarrow> byte \<Rightarrow> u32" where
  "memfind_loop 0 m s ends c = s"
| "memfind_loop (Suc k) m s ends c =
     (if s < ends then if m s = c then s else memfind_loop k m (s + 1) ends c else s)"

definition memfind :: "mem \<Rightarrow> u32 \<Rightarrow> u32 \<Rightarrow> u32 \<Rightarrow> u32" where
  "memfind m s c n = memfind_loop (unat (s + n) - unat s) m s (s + n) (ucast c)"

partial_function (option) skip_blanks :: "mem \<Rightarrow> u32 \<Rightarrow> u32 option" where
  "skip_blanks m s = (if m s = 32 \<or> m s = 9 then skip_blanks m (s + 1) else Some s)"

definition digit_value :: "byte \<Rightarrow> nat option" where
  "digit_value c =
     (if 48 \<le> c \<and> c \<le> 57 then Some (unat c - 48)
      else if 97 \<le> c \<and> c \<le> 122 then Some (unat c - 97 + 10)
      else if 65 \<le> c \<and> c \<le> 90 then Some (unat c - 65 + 10)
      else None)"

partial_function (option) strtol_digits :: "mem \<Rightarrow> u32 \<Rightarrow> int \<Rightarrow> u32 \<Rightarrow> (u32 \<times> u32) option" where
  "strtol_digits m s base val =
     (case digit_value (m s) of
        None \<Rightarrow> Some (val, s)
      | Some dig \<Rightarrow>
          if base \<le> int dig then Some (val, s)
          else strtol_digits m (s + 1) base (val * word_of_int base + of_nat dig))"

text \<open>The result is the value and the address stored through \<open>endptr\<close>.\<close>

definition strtol :: "mem \<Rightarrow> u32 \<Rightarrow> int \<Rightarrow> (u32 \<times> u32) option" where
  "strtol m s base =
     (case skip_blanks m s of None \<Rightarrow> None | Some s \<Rightarrow>
      let (s, neg) = (if m s = 43 then (s + 1, False)
                      else if m s = 45 then (s + 1, True) else (s, False));
          (s, base) = (if (base = 0 \<or> base = 16) \<and> m s = 48 \<and> m (s + 1) = 120 then (s + 2, 16)
                       else if base = 0 \<and> m s = 48 then (s + 1, 8)
                       else if base = 0 then (s, 10) else (s, base)) in
      map_option (\<lambda>(val, e). (if neg then - val else val, e)) (strtol_digits m s base 0))"

section \<open>They compute the same as the others\<close>

lemma jos_strlen_loop_eq: "str_at m s xs \<Longrightarrow> jos_strlen_loop m s n = Some (n + length xs)"
proof (induction xs arbitrary: s n)
  case Nil
  then show ?case by (subst jos_strlen_loop.simps) (simp add: str_at_Nil)
next
  case (Cons x xs)
  then show ?case by (subst jos_strlen_loop.simps) (simp add: str_at_Cons)
qed

lemma strnlen_loop_eq: "strnlen_loop k m s n = n + length (cstr m s k)"
  by (induction k arbitrary: s n) auto

lemma jos_strncmp_eq: "jos_strncmp m p q n = strncmp m p q n"
proof -
  have "jos_strncmp_loop k m p q = strncmp_loop m p q k" for k
    by (induction k arbitrary: p q) auto
  then show ?thesis by (simp add: jos_strncmp_def strncmp_def)
qed

lemma jos_memset_eq: "jos_memset m v c n = memset m v c n"
  by (auto simp: jos_memset_def memset_def Let_def)

lemma le32_get32: "le32 (get32 [a, b, c, e]) = [a, b, c, e]"
  by (auto simp: le32_def intro!: bit_word_eqI) (auto simp: bit_simps dest: bit_imp_le_length)

lemma store_word: "st32 m d (ld32 m s) = (\<lambda>x. if x \<in> region d 4 then m (s + (x - d)) else m x)"
proof -
  have "ucast (ld32 m s) = m s" "ucast (drop_bit 8 (ld32 m s)) = m (s + 1)"
    "ucast (drop_bit 16 (ld32 m s)) = m (s + 2)" "ucast (drop_bit 24 (ld32 m s)) = m (s + 3)"
    using le32_get32 [of "m s" "m (s + 1)" "m (s + 2)" "m (s + 3)"]
    by (simp_all add: ld32_def le32_def)
  then show ?thesis by (auto simp: region_4 st32_def fun_eq_iff)
qed

lemma movsb_down_eq: "movsb_down m (d - 1) (s - 1) n = copy_down m d s n"
proof (induction n arbitrary: m d s)
  case (Suc n)
  then show ?case using Suc.IH [of "m(d - 1 := m (s - 1))" "d - 1" "s - 1"] by (simp del: fun_upd_apply)
qed simp

text \<open>A word at a time is four bytes at a time.\<close>

lemma copy_up_4:
  assumes "4 \<le> n" "n \<le> 2 ^ 32" "d = s \<or> d \<notin> region s n"
  shows "copy_up m d s n = copy_up (st32 m d (ld32 m s)) (d + 4) (s + 4) (n - 4)"
proof -
  have n: "region s n = region s 4 \<union> region (s + 4) (n - 4)" "region d n = region d 4 \<union> region (d + 4) (n - 4)"
    using region_split [of 4 "n - 4"] assms(1,2) by simp_all
  have c4: "d + 4 = s + 4 \<or> d + 4 \<notin> region (s + 4) (n - 4)"
    using assms(3) by (auto simp: region_iff)
  have no: "s + (x - d) \<notin> region d 4" if x: "x \<in> region (d + 4) (n - 4)" for x
  proof
    assume "s + (x - d) \<in> region d 4"
    then obtain i where i: "s + (x - d) = d + of_nat i" "i < 4" by (rule region_cases)
    from x obtain j where j: "x = d + 4 + of_nat j" "j < n - 4" by (rule region_cases)
    have e: "s + (of_nat (4 + j) - of_nat i) = d" using i j by (simp add: algebra_simps)
    then have d: "d = s + of_nat (4 + j - i)" using i(2) by (simp add: of_nat_diff)
    have "s + of_nat (4 + j - i) \<in> region s n" using i j assms(2) by (intro in_region) auto
    with d assms(3) have "d = s" by simp
    with d have "(of_nat (4 + j - i) :: u32) = 0" by simp
    moreover have "4 + j - i < 2 ^ 32" using i j assms(2) by linarith
    ultimately have "4 + j - i = 0" using unat_of_nat32 [of "4 + j - i"] by simp
    then show False using i(2) by simp
  qed
  let ?m = "st32 m d (ld32 m s)"
  have "copy_up ?m (d + 4) (s + 4) (n - 4) =
    (\<lambda>x. if x \<in> region (d + 4) (n - 4) then ?m (s + 4 + (x - (d + 4))) else ?m x)"
    using c4 assms(2) by (intro copy_up_eq) auto
  also have "\<dots> = (\<lambda>x. if x \<in> region d n then m (s + (x - d)) else m x)"
    using no n(2) by (auto simp: store_word fun_eq_iff)
  finally show ?thesis using copy_up_eq [OF assms(2,3)] by simp
qed

lemma movsl_up_eq:
  assumes "4 * k \<le> 2 ^ 32" "d = s \<or> d \<notin> region s (4 * k)"
  shows "movsl_up m d s k = copy_up m d s (4 * k)"
  using assms
proof (induction k arbitrary: m d s)
  case (Suc k)
  have "d + 4 = s + 4 \<or> d + 4 \<notin> region (s + 4) (4 * k)"
    using Suc.prems(2) by (auto simp: region_iff)
  with Suc show ?case using copy_up_4 [of "4 * Suc k" d s m] by simp
qed simp

lemma movsl_down_eq:
  assumes "4 * k < 2 ^ 32" "s = d \<or> s \<notin> region d (4 * k)"
  shows "movsl_down m (d + of_nat (4 * k) - 4) (s + of_nat (4 * k) - 4) k =
    (\<lambda>x. if x \<in> region d (4 * k) then m (s + (x - d)) else m x)"
  using assms
proof (induction k arbitrary: m)
  case (Suc k)
  let ?t = "of_nat (4 * k) :: u32"
  let ?m = "st32 m (d + ?t) (ld32 m (s + ?t))"
  have k: "4 * k + 4 < 2 ^ 32" using Suc.prems by simp
  have r: "region d (4 * Suc k) = region d (4 * k) \<union> region (d + ?t) 4"
    using region_split [of "4 * k" 4 d] k by (simp add: add.commute)
  have IH: "movsl_down ?m (d + ?t - 4) (s + ?t - 4) k = (\<lambda>x. if x \<in> region d (4 * k) then ?m (s + (x - d)) else ?m x)"
    using Suc.prems r by (intro Suc.IH) auto
  have no: "s + (x - d) \<notin> region (d + ?t) 4" if x: "x \<in> region d (4 * k)" for x
  proof
    assume "s + (x - d) \<in> region (d + ?t) 4"
    then obtain j where j: "s + (x - d) = d + ?t + of_nat j" "j < 4" by (rule region_cases)
    from x obtain i where i: "x = d + of_nat i" "i < 4 * k" by (rule region_cases)
    have "s = d + (of_nat (4 * k + j) - of_nat i)" using i j by (simp add: algebra_simps)
    then have s: "s = d + of_nat (4 * k + j - i)" using i(2) by (simp add: of_nat_diff)
    have lt: "4 * k + j - i < 2 ^ 32" using j k by linarith
    have "d + of_nat (4 * k + j - i) \<in> region d (4 * Suc k)" using lt j by (intro in_region) auto
    with s Suc.prems(2) have "s = d" by simp
    with s have "(of_nat (4 * k + j - i) :: u32) = 0" by simp
    with lt have "4 * k + j - i = 0" using unat_of_nat32 [of "4 * k + j - i"] by simp
    with i show False by simp
  qed
  have dj: "x \<notin> region (d + ?t) 4" if x: "x \<in> region d (4 * k)" for x
  proof
    assume "x \<in> region (d + ?t) 4"
    then obtain j where j: "x = d + of_nat (4 * k + j)" "j < 4" by (auto elim: region_cases simp: add.assoc)
    then have "unat (x - d) = 4 * k + j" using k by (simp add: unat_of_nat32 del: of_nat_add of_nat_mult)
    with x show False by (simp add: region_iff)
  qed
  have step: "movsl_down m (d + of_nat (4 * Suc k) - 4) (s + of_nat (4 * Suc k) - 4) (Suc k) =
    movsl_down ?m (d + ?t - 4) (s + ?t - 4) k"
    by (simp add: algebra_simps)
  have e: "s + ?t + (x - (d + ?t)) = s + (x - d)" for x by simp
  show ?case
    unfolding step IH r using no dj by (auto simp: store_word e fun_eq_iff)
qed simp

lemma mod4_mult: "n mod 4 = 0 \<Longrightarrow> 4 * unat (n div 4 :: u32) = unat n"
proof -
  assume "n mod 4 = 0"
  then have "unat (n mod 4) = 0" by simp
  then show ?thesis by (simp add: unat_div_distrib unat_mod_distrib) presburger
qed

lemma jos_memmove_eq:
  assumes "unat src + unat n < 2 ^ 32" "unat dst + unat n \<le> 2 ^ 32"
  shows "jos_memmove m dst src n = memmove m dst src n"
proof (cases "src < dst \<and> dst < src + n")
  case True
  have d: "src = dst \<or> src \<notin> region dst (unat n)"
    using True assms(2) not_in_region [of src dst "unat n"] by (auto simp: word_less_nat_alt)
  have n: "unat n < 2 ^ 32" by (rule unat32_less)
  have "movsl_down m (dst + n - 4) (src + n - 4) (unat (n div 4)) = copy_down m (dst + n) (src + n) (unat n)"
    if "n mod 4 = 0"
    using movsl_down_eq [of "unat (n div 4)" src dst m] copy_down_eq [OF n d, of m] mod4_mult [OF that] d n by simp
  then show ?thesis using True by (simp add: jos_memmove_def memmove_def Let_def movsb_down_eq)
next
  case False
  have "unat (src + n) = unat src + unat n"
    using unat_plus_nowrap [of src "unat n"] assms(1) by simp
  then consider "unat dst < unat src" | "unat dst = unat src" | "unat src + unat n \<le> unat dst"
    using False by (fastforce simp: word_less_nat_alt)
  then have "dst = src \<or> dst \<notin> region src (unat n)"
    using assms not_in_region [of dst src "unat n"] not_in_region_above [of src "unat n" dst]
    by cases (auto dest: unsigned_word_eqI)
  then have "movsl_up m dst src (unat (n div 4)) = copy_up m dst src (unat n)" if "n mod 4 = 0"
    using movsl_up_eq [of "unat (n div 4)" dst src m] mod4_mult [OF that] unat32_less [of n] by simp
  then show ?thesis using False by (auto simp: jos_memmove_def memmove_def)
qed

section \<open>Numbers in strings\<close>

definition digit_char :: "nat \<Rightarrow> byte" where
  "digit_char d = (if d < 10 then of_nat (48 + d) else of_nat (87 + d))"

lemma unat_digit_char: "d < 36 \<Longrightarrow> unat (digit_char d) = (if d < 10 then 48 + d else 87 + d)"
  by (simp add: digit_char_def unsigned_of_nat take_bit_nat_eq_self del: of_nat_add)

lemma digit_value_char: "d < 36 \<Longrightarrow> digit_value (digit_char d) = Some d"
  using unat_digit_char [of d] by (auto simp: digit_value_def word_le_nat_alt split: if_splits)

lemma strtol_digits_eq:
  assumes "str_at m s (map digit_char ds)" "\<forall>d\<in>set ds. int d < base" "base \<le> 36"
  shows "strtol_digits m s base v =
    Some (foldl (\<lambda>v d. v * word_of_int base + of_nat d) v ds, s + of_nat (length ds))"
  using assms
proof (induction ds arbitrary: s v)
  case Nil
  then show ?case by (subst strtol_digits.simps) (simp add: str_at_Nil digit_value_def)
next
  case (Cons d ds)
  then have "digit_value (m s) = Some d" by (simp add: str_at_Cons digit_value_char)
  then show ?case
    using Cons by (subst strtol_digits.simps) (simp add: str_at_Cons add.assoc)
qed

lemma foldl_horner:
  "foldl (\<lambda>v d. v * word_of_int (int b) + of_nat d) (of_nat v :: u32) ds = of_nat (foldl (\<lambda>v d. v * b + d) v ds)"
proof (induction ds arbitrary: v)
  case (Cons d ds)
  have "of_nat v * word_of_int (int b) + of_nat d = (of_nat (v * b + d) :: u32)" by simp
  then show ?case using Cons [of "v * b + d"] by (simp del: of_nat_add of_nat_mult)
qed simp

end
