(* ===== verification/Printfmt.thy ===== *)
theory Printfmt
  imports Jos_String
begin

text \<open>
  lib/printfmt.c of the JOS laboratory. A format is the list of its bytes, the end of the list
  being the NUL. The variable arguments are the 32-bit words on the stack, a \<open>long long\<close> taking
  two; \<open>putch\<close> maps an output state to the next one. \<open>None\<close> is what C leaves undefined (an
  argument that was not passed, an index out of range) or a loop that does not end (a string
  without its NUL).
\<close>

section \<open>Numbers\<close>

definition hex_digits :: "byte list" where
  "hex_digits = map digit_char [0..<16]"

definition pad :: "(u32 \<Rightarrow> 'd \<Rightarrow> 'd) \<Rightarrow> nat \<Rightarrow> u32 \<Rightarrow> 'd \<Rightarrow> 'd" where
  "pad putch k c d = fold putch (replicate k c) d"

partial_function (option) printnum ::
  "(u32 \<Rightarrow> 'd \<Rightarrow> 'd) \<Rightarrow> u64 \<Rightarrow> u32 \<Rightarrow> int \<Rightarrow> u32 \<Rightarrow> 'd \<Rightarrow> 'd option" where
  "printnum putch num base width padc d =
     Option.bind
       (if ucast base \<le> num then printnum putch (num div ucast base) base (width - 1) padc d
        else Some (pad putch (nat (width - 1)) padc d))
       (\<lambda>d. if num mod ucast base < 16
            then Some (putch (ucast (hex_digits ! unat (num mod ucast base))) d) else None)"

definition va_arg :: "u32 list \<Rightarrow> (u32 \<times> u32 list) option" where
  "va_arg ap = (case ap of [] \<Rightarrow> None | w # ap \<Rightarrow> Some (w, ap))"

definition va_arg64 :: "u32 list \<Rightarrow> (u64 \<times> u32 list) option" where
  "va_arg64 ap = (case ap of lo # hi # ap \<Rightarrow> Some (ucast lo OR push_bit 32 (ucast hi), ap) | _ \<Rightarrow> None)"

definition getuint :: "u32 list \<Rightarrow> nat \<Rightarrow> (u64 \<times> u32 list) option" where
  "getuint ap lflag =
     (if 2 \<le> lflag then va_arg64 ap else map_option (\<lambda>(w, ap). (ucast w, ap)) (va_arg ap))"

definition getint :: "u32 list \<Rightarrow> nat \<Rightarrow> (u64 \<times> u32 list) option" where
  "getint ap lflag =
     (if 2 \<le> lflag then va_arg64 ap else map_option (\<lambda>(w, ap). (scast w, ap)) (va_arg ap))"

section \<open>The escape sequences\<close>

record fspec =
  padc :: u32
  width :: int
  precision :: int
  lflag :: nat
  altflag :: bool

definition fspec0 :: fspec where
  "fspec0 = \<lparr>padc = 32, width = -1, precision = -1, lflag = 0, altflag = False\<rparr>"

fun spec_digits :: "int \<Rightarrow> byte list \<Rightarrow> int \<times> byte list" where
  "spec_digits p [] = (p, [])"
| "spec_digits p (c # cs) =
     (if c < 48 \<or> 57 < c then (p, c # cs) else spec_digits (p * 10 + uint c - 48) cs)"

lemma spec_digits_length: "length (snd (spec_digits p cs)) \<le> length cs"
  by (induction p cs rule: spec_digits.induct) auto

definition process_precision :: "fspec \<Rightarrow> fspec" where
  "process_precision sp =
     (if width sp < 0 then sp\<lparr>width := precision sp, precision := -1\<rparr> else sp)"

text \<open>The \<open>reswitch\<close> loop up to the conversion character, which is returned with the rest of the
  format (0 for the NUL at its end).\<close>

function parse_spec :: "byte list \<Rightarrow> fspec \<Rightarrow> u32 list \<Rightarrow> (fspec \<times> byte \<times> byte list \<times> u32 list) option" where
  "parse_spec [] sp ap = Some (sp, 0, [], ap)"
| "parse_spec (ch # fmt) sp ap =
     (if ch = 45 then parse_spec fmt (sp\<lparr>padc := 45\<rparr>) ap
      else if ch = 48 then parse_spec fmt (sp\<lparr>padc := 48\<rparr>) ap
      else if 49 \<le> ch \<and> ch \<le> 57 then
        let r = spec_digits (uint ch - 48) fmt in
        parse_spec (snd r) (process_precision (sp\<lparr>precision := fst r\<rparr>)) ap
      else if ch = 42 then
        Option.bind (va_arg ap) (\<lambda>(w, ap).
        parse_spec fmt (process_precision (sp\<lparr>precision := sint w\<rparr>)) ap)
      else if ch = 46 then parse_spec fmt (if width sp < 0 then sp\<lparr>width := 0\<rparr> else sp) ap
      else if ch = 35 then parse_spec fmt (sp\<lparr>altflag := True\<rparr>) ap
      else if ch = 108 then parse_spec fmt (sp\<lparr>lflag := lflag sp + 1\<rparr>) ap
      else Some (sp, ch, fmt, ap))"
  by pat_completeness auto
termination
  by (relation "measure (\<lambda>(fmt, _, _). length fmt)") (auto simp: less_Suc_eq_le spec_digits_length)

definition MAXERROR :: int where "MAXERROR = 7"

definition ascii :: "string \<Rightarrow> byte list" where
  "ascii s = map of_char s"

definition error_string :: "int \<Rightarrow> byte list option" where
  "error_string n =
     (if n = 1 then Some (ascii ''unspecified error'') else if n = 2 then Some (ascii ''bad environment'')
      else if n = 3 then Some (ascii ''invalid parameter'') else if n = 4 then Some (ascii ''out of memory'')
      else if n = 5 then Some (ascii ''out of environments'') else if n = 6 then Some (ascii ''segmentation fault'')
      else None)"

text \<open>The bytes a \<open>%s\<close> prints of the string at \<open>p\<close>: all of it, or at most \<open>precision\<close>.\<close>

definition str_arg :: "mem \<Rightarrow> u32 \<Rightarrow> int \<Rightarrow> byte list option" where
  "str_arg m p prec =
     (if p = 0 then Some (if prec < 0 then ascii ''(null)'' else take (nat prec) (ascii ''(null)''))
      else if prec < 0 then map_option (\<lambda>n. bytes m p n) (strlen m p)
      else Some (cstr m p (nat prec)))"

definition print_str :: "(u32 \<Rightarrow> 'd \<Rightarrow> 'd) \<Rightarrow> fspec \<Rightarrow> byte list \<Rightarrow> 'd \<Rightarrow> 'd" where
  "print_str putch sp xs d =
     (let w = (if 0 < width sp \<and> padc sp \<noteq> 45 then width sp - int (length xs) else width sp);
          d = (if 0 < width sp \<and> padc sp \<noteq> 45 then pad putch (nat w) (padc sp) d else d);
          w = (if 0 < width sp \<and> padc sp \<noteq> 45 then min w 0 else w);
          d = fold putch (map (\<lambda>c. if altflag sp \<and> (c < 32 \<or> 126 < c) then 63 else scast c) xs) d in
      pad putch (nat (w - int (length xs))) 32 d)"

definition print_num :: "(u32 \<Rightarrow> 'd \<Rightarrow> 'd) \<Rightarrow> fspec \<Rightarrow> u32 \<Rightarrow> u64 \<times> u32 list \<Rightarrow> 'd \<Rightarrow> ('d \<times> u32 list) option" where
  "print_num putch sp base na d =
     map_option (\<lambda>d. (d, snd na)) (printnum putch (fst na) base (width sp) (padc sp) d)"

text \<open>One conversion: \<open>Some None\<close> for a character that is none.\<close>

definition convert :: "(u32 \<Rightarrow> 'd \<Rightarrow> 'd) \<Rightarrow> mem \<Rightarrow> fspec \<Rightarrow> byte \<Rightarrow> u32 list \<Rightarrow> 'd \<Rightarrow> ('d \<times> u32 list) option option" where
  "convert putch m sp ch ap d =
     (if ch = 99 then map_option Some (Option.bind (va_arg ap) (\<lambda>(w, ap). Some (putch w d, ap)))
      else if ch = 101 then map_option Some (Option.bind (va_arg ap) (\<lambda>(w, ap).
        let err = (if sint w < 0 then - w else w) in
        if sint err < 0 then None
        else if MAXERROR \<le> sint err \<or> error_string (sint err) = None then
          map_option (\<lambda>d. (d, ap))
            (printnum putch (ucast err) 10 (-1) 32 (fold putch (map ucast (ascii ''error '')) d))
        else Some (print_str putch fspec0 (the (error_string (sint err))) d, ap)))
      else if ch = 115 then map_option Some (Option.bind (va_arg ap) (\<lambda>(p, ap).
        map_option (\<lambda>xs. (print_str putch sp xs d, ap)) (str_arg m p (precision sp))))
      else if ch = 100 then map_option Some (Option.bind (getint ap (lflag sp)) (\<lambda>(n, ap).
        if sint n < 0 then print_num putch sp 10 (- n, ap) (putch 45 d)
        else print_num putch sp 10 (n, ap) d))
      else if ch = 117 then map_option Some (Option.bind (getuint ap (lflag sp)) (\<lambda>na. print_num putch sp 10 na d))
      else if ch = 111 then map_option Some (Option.bind (getuint ap (lflag sp)) (\<lambda>na. print_num putch sp 8 na d))
      else if ch = 112 then map_option Some (Option.bind (va_arg ap) (\<lambda>(w, ap).
        print_num putch sp 16 (ucast w, ap) (putch 120 (putch 48 d))))
      else if ch = 120 then map_option Some (Option.bind (getuint ap (lflag sp)) (\<lambda>na. print_num putch sp 16 na d))
      else if ch = 37 then Some (Some (putch 37 d, ap))
      else Some None)"

lemma parse_spec_length: "parse_spec fmt sp ap = Some (sp', ch, rest, ap') \<Longrightarrow> length rest \<le> length fmt"
proof (induction "length fmt" arbitrary: fmt sp ap rule: less_induct)
  case less
  show ?case
  proof (cases fmt)
    case (Cons c cs)
    have rec: "length rest \<le> Suc (length cs)" if "parse_spec gs sq aq = Some (sp', ch, rest, ap')" "length gs \<le> length cs" for gs sq aq
      using less.hyps [of gs sq aq] that Cons by simp
    show ?thesis
      using less.prems Cons spec_digits_length [of "uint c - 48" cs]
      by (auto simp: Let_def bind_eq_Some_conv dest!: rec split: if_split_asm)
  qed (use less.prems in simp)
qed

function vprintfmt :: "(u32 \<Rightarrow> 'd \<Rightarrow> 'd) \<Rightarrow> mem \<Rightarrow> byte list \<Rightarrow> u32 list \<Rightarrow> 'd \<Rightarrow> 'd option" where
  "vprintfmt putch m [] ap d = Some d"
| "vprintfmt putch m (ch # fmt) ap d =
     (if ch \<noteq> 37 then vprintfmt putch m fmt ap (putch (ucast ch) d)
      else
        (case parse_spec fmt fspec0 ap of
           None \<Rightarrow> None
         | Some (sp, c, rest, ap') \<Rightarrow>
             (case convert putch m sp c ap' d of
                None \<Rightarrow> None
              | Some (Some (d', ap'')) \<Rightarrow> vprintfmt putch m rest ap'' d'
              | Some None \<Rightarrow> vprintfmt putch m fmt ap' (putch 37 d))))"
  by pat_completeness auto
termination
  by (relation "measure (\<lambda>(_, _, fmt, _, _). length fmt)") (auto simp: less_Suc_eq_le dest: parse_spec_length)

section \<open>Printing into a buffer\<close>

record sprintbuf =
  sb_buf :: u32
  sb_ebuf :: u32
  sb_cnt :: int

definition sprintputch :: "u32 \<Rightarrow> sprintbuf \<times> mem \<Rightarrow> sprintbuf \<times> mem" where
  "sprintputch ch bm =
     (let (b, m) = bm; b = b\<lparr>sb_cnt := sb_cnt b + 1\<rparr> in
      if sb_buf b < sb_ebuf b then (b\<lparr>sb_buf := sb_buf b + 1\<rparr>, m(sb_buf b := ucast ch)) else (b, m))"

definition E_INVAL :: int where "E_INVAL = 3"

text \<open>The arguments of the format are read from the memory as it is at the call: the buffer is
  not one of them.\<close>

definition vsnprintf :: "mem \<Rightarrow> u32 \<Rightarrow> int \<Rightarrow> byte list \<Rightarrow> u32 list \<Rightarrow> (int \<times> mem) option" where
  "vsnprintf m b n fmt ap =
     (if b = 0 \<or> n < 1 then Some (- E_INVAL, m)
      else
        map_option (\<lambda>(bb, m). (sb_cnt bb, m(sb_buf bb := 0)))
          (vprintfmt sprintputch m fmt ap (\<lparr>sb_buf = b, sb_ebuf = b + word_of_int n - 1, sb_cnt = 0\<rparr>, m)))"

end
