(* ===== verification/Console.thy ===== *)
theory Console
  imports File Printfmt
begin

text \<open>
  console.c: formatted output of the kernel, the CGA screen, line editing of the input and the console
  device. Output to the serial port is the list of bytes sent; the screen is an array of 16-bit cells and the
  cursor register. A read that blocks ends with the outcome of \<open>sleep\<close>.
\<close>

record consys = filesys +
  panicked :: bool
  con_locking :: bool
  in_buf :: "nat \<Rightarrow> byte"
  in_r :: u32
  in_w :: u32
  in_e :: u32
  uart_out :: "byte list"
  crt :: "nat \<Rightarrow> u16"
  crt_pos :: int

definition BACKSPACE :: int where "BACKSPACE = 0x100"
definition INPUT_BUF :: nat where "INPUT_BUF = 128"

section \<open>The screen\<close>

definition scroll_up :: "(nat \<Rightarrow> u16) \<Rightarrow> nat \<Rightarrow> u16" where
  "scroll_up m i = (if i < 23 * 80 then m (i + 80) else m i)"

definition clear_cells :: "nat \<Rightarrow> nat \<Rightarrow> (nat \<Rightarrow> u16) \<Rightarrow> nat \<Rightarrow> u16" where
  "clear_cells a b m i = (if a \<le> i \<and> i < b then 0 else m i)"

definition cgaputc :: "int \<Rightarrow> 'z consys_scheme \<Rightarrow> (unit, 'z consys_scheme) outcome" where
  "cgaputc c s =
     (let pos = crt_pos s;
          (pos, m) =
            (if c = 10 then (pos + (80 - pos mod 80), crt s)
             else if c = BACKSPACE then (if 0 < pos then pos - 1 else pos, crt s)
             else (pos + 1, (crt s)(nat pos := (word_of_int c AND 0xFF) OR 0x0700))) in
      if pos < 0 \<or> 25 * 80 < pos then Panic ''pos under/overflow''
      else
        let (pos, m) =
              (if 24 \<le> pos div 80
               then (pos - 80, clear_cells (nat (pos - 80)) (24 * 80) (scroll_up m)) else (pos, m)) in
        Ret () (s\<lparr>crt_pos := pos, crt := m(nat pos := 0x0720)\<rparr>))"

definition uartputc :: "int \<Rightarrow> 'z consys_scheme \<Rightarrow> 'z consys_scheme" where
  "uartputc c s = s\<lparr>uart_out := uart_out s @ [word_of_int c]\<rparr>"

definition consputc :: "int \<Rightarrow> 'z consys_scheme \<Rightarrow> (unit, 'z consys_scheme) outcome" where
  "consputc c s =
     (if panicked s then Spin
      else
        let s = (if c = BACKSPACE then uartputc 8 (uartputc 32 (uartputc 8 s)) else uartputc c s) in
        cgaputc c s)"

section \<open>Formatted output\<close>

function printint_digits :: "u32 \<Rightarrow> u32 \<Rightarrow> byte list" where
  "printint_digits x base =
     (if base \<le> 1 \<or> x div base = 0 then [hex_digits ! unat (x mod base)]
      else hex_digits ! unat (x mod base) # printint_digits (x div base) base)"
  by pat_completeness auto
termination
proof (relation "measure (\<lambda>(x, base). unat x)", goal_cases)
  case (2 x base)
  then have "1 < unat base" by (auto simp: not_le word_less_nat_alt)
  moreover have "x \<noteq> 0" using 2 by auto
  then have "0 < unat x" by (simp add: unat_gt_0)
  ultimately show ?case by (simp add: unat_div_distrib)
qed simp

definition printint :: "u32 \<Rightarrow> u32 \<Rightarrow> bool \<Rightarrow> byte list" where
  "printint xx base sign =
     (let neg = (sign \<and> sint xx < 0);
          x = (if neg then - xx else xx) in
      rev (printint_digits x base @ (if neg then [45] else [])))"

text \<open>The characters that \<open>cprintf\<close> sends to \<open>consputc\<close>. The format is the list of its bytes; a string
  argument is looked up in memory. \<open>None\<close>: an argument is missing or a string has no NUL.\<close>

fun cprintf_out :: "mem \<Rightarrow> byte list \<Rightarrow> u32 list \<Rightarrow> byte list option" where
  "cprintf_out m [] ap = Some []"
| "cprintf_out m (c # fmt) ap =
     (if c \<noteq> 37 then map_option (\<lambda>xs. c # xs) (cprintf_out m fmt ap)
      else
        case fmt of
          [] \<Rightarrow> Some []
        | d # fmt \<Rightarrow>
            if d = 100 then
              (case ap of [] \<Rightarrow> None | a # ap \<Rightarrow> map_option (\<lambda>xs. printint a 10 True @ xs) (cprintf_out m fmt ap))
            else if d = 120 \<or> d = 112 then
              (case ap of [] \<Rightarrow> None | a # ap \<Rightarrow> map_option (\<lambda>xs. printint a 16 False @ xs) (cprintf_out m fmt ap))
            else if d = 115 then
              (case ap of [] \<Rightarrow> None | a # ap \<Rightarrow>
                 Option.bind (str_arg m a (-1)) (\<lambda>ys. map_option (\<lambda>xs. ys @ xs) (cprintf_out m fmt ap)))
            else if d = 37 then map_option (\<lambda>xs. 37 # xs) (cprintf_out m fmt ap)
            else map_option (\<lambda>xs. 37 # d # xs) (cprintf_out m fmt ap))"

definition cprintf :: "byte list option \<Rightarrow> u32 list \<Rightarrow> 'z consys_scheme \<Rightarrow> (unit, 'z consys_scheme) outcome" where
  "cprintf fmt ap s =
     (let locking = con_locking s in
      rbind (if locking then acquire LCons s else Ret () s) (\<lambda>_ s.
      case fmt of
        None \<Rightarrow> Panic ''null fmt''
      | Some fmt \<Rightarrow>
          (case cprintf_out (mem s) fmt ap of
             None \<Rightarrow> Undef
           | Some xs \<Rightarrow>
               rbind (rfor xs (\<lambda>c. consputc (uint c)) s) (\<lambda>_ s.
               if locking then release LCons s else Ret () s))))"

text \<open>Some messages of the kernel print strings that lie in its own data, such as the name of a process. \<open>kmessage\<close> is
  \<open>cprintf\<close> of a message whose characters are given.\<close>

definition kmessage :: "byte list \<Rightarrow> 'z consys_scheme \<Rightarrow> (unit, 'z consys_scheme) outcome" where
  "kmessage xs s =
     (let locking = con_locking s in
      rbind (if locking then acquire LCons s else Ret () s) (\<lambda>_ s.
      rbind (rfor xs (\<lambda>c. consputc (uint c)) s) (\<lambda>_ s.
      if locking then release LCons s else Ret () s)))"

lemma acquire_mem: "acquire l s = Ret u t \<Longrightarrow> mem t = mem s"
  by (auto simp: acquire_def holding_def pushcli_def popcli_def mycpu_def Let_def rbind_eq_Ret split: if_splits option.splits)

lemma cprintf_kmessage:
  assumes "cprintf_out (mem s) fmt ap = Some xs"
  shows "cprintf (Some fmt) ap s = kmessage xs s"
proof (cases "con_locking s")
  case True
  then show ?thesis using assms
    by (cases "acquire LCons s") (auto simp: cprintf_def kmessage_def Let_def dest: acquire_mem)
qed (use assms in \<open>simp add: cprintf_def kmessage_def\<close>)

section \<open>Input\<close>

definition ctrl :: "int \<Rightarrow> int" where "ctrl x = x - 64"

definition in_index :: "u32 \<Rightarrow> nat" where "in_index i = unat (i mod of_nat INPUT_BUF)"

lemma consputc_input: "consputc c s = Ret u t \<Longrightarrow> in_e t = in_e s \<and> in_w t = in_w s"
  by (auto simp: consputc_def cgaputc_def uartputc_def Let_def split: if_splits prod.splits)

function kill_line :: "'z consys_scheme \<Rightarrow> (unit, 'z consys_scheme) outcome" where
  "kill_line s =
     (if in_e s \<noteq> in_w s \<and> in_buf s (in_index (in_e s - 1)) \<noteq> 10
      then rbind (consputc BACKSPACE (s\<lparr>in_e := in_e s - 1\<rparr>)) (\<lambda>_ s. kill_line s)
      else Ret () s)"
  by pat_completeness auto
termination
proof (relation "measure (\<lambda>s. unat (in_e s - in_w s))", goal_cases)
  case (2 s u t)
  then have "in_e t = in_e s - 1" "in_w t = in_w s" using consputc_input [of BACKSPACE "s\<lparr>in_e := in_e s - 1\<rparr>" u t] by auto
  moreover have "in_e s - in_w s \<noteq> 0" using 2 by simp
  then have "unat (in_e s - in_w s - 1) < unat (in_e s - in_w s)"
    by (simp add: unat_minus_one unat_gt_0)
  then have "unat (in_e s - 1 - in_w s) < unat (in_e s - in_w s)" by (subst diff_right_commute)
  ultimately show ?case by simp
qed simp

definition consoleintr_char :: "int \<Rightarrow> 'z consys_scheme \<Rightarrow> (unit, 'z consys_scheme) outcome" where
  "consoleintr_char c s =
     (if c = ctrl 80 then Ret () s
      else if c = ctrl 85 then kill_line s
      else if c = ctrl 72 \<or> c = 127 then
        (if in_e s \<noteq> in_w s then consputc BACKSPACE (s\<lparr>in_e := in_e s - 1\<rparr>) else Ret () s)
      else if c \<noteq> 0 \<and> in_e s - in_r s < of_nat INPUT_BUF then
        let c = (if c = 13 then 10 else c);
            s = s\<lparr>in_buf := (in_buf s)(in_index (in_e s) := word_of_int c), in_e := in_e s + 1\<rparr> in
        rbind (consputc c s) (\<lambda>_ s.
        if c = 10 \<or> c = ctrl 68 \<or> in_e s = in_r s + of_nat INPUT_BUF
        then wakeup (Some ChanInput) (s\<lparr>in_w := in_e s\<rparr>)
        else Ret () s)
      else Ret () s)"

text \<open>\<open>getc\<close> delivers the characters of the list and then a negative number. The process listing that
  control-P asks for only prints.\<close>

definition consoleintr :: "int list \<Rightarrow> 'z consys_scheme \<Rightarrow> (unit, 'z consys_scheme) outcome" where
  "consoleintr cs s =
     rbind (acquire LCons s) (\<lambda>_ s.
     rbind (rfor cs consoleintr_char s) (\<lambda>_ s.
     release LCons s))"

text \<open>The loop of \<open>consoleread\<close>, entered with \<open>cons.lock\<close> held; \<open>None\<close> when the process was killed.\<close>

fun consoleread_loop :: "nat \<Rightarrow> nat \<Rightarrow> 'z consys_scheme \<Rightarrow> (byte list option, 'z consys_scheme) outcome" where
  "consoleread_loop target 0 s = Ret (Some []) s"
| "consoleread_loop target (Suc n) s =
     (if in_r s = in_w s then
        rbind (proc_killed s) (\<lambda>k s.
        if k then Ret None s else away (sleep (Some ChanInput) (Some LCons) s))
      else
        let c = in_buf s (in_index (in_r s));
            s = s\<lparr>in_r := in_r s + 1\<rparr> in
        if sint c = ctrl 68 then Ret (Some []) (if Suc n < target then s\<lparr>in_r := in_r s - 1\<rparr> else s)
        else if c = 10 then Ret (Some [c]) s
        else rbind (consoleread_loop target n s) (\<lambda>r s. Ret (map_option (\<lambda>cs. c # cs) r) s))"

definition consoleread :: "nat \<Rightarrow> u32 \<Rightarrow> 'z consys_scheme \<Rightarrow> (int \<times> byte list, 'z consys_scheme) outcome" where
  "consoleread ip n s =
     rbind (iunlock (Some ip) s) (\<lambda>_ s.
     rbind (acquire LCons s) (\<lambda>_ s.
     rbind (consoleread_loop (unat n) (nat (sint n)) s) (\<lambda>r s.
     rbind (release LCons s) (\<lambda>_ s.
     rbind (ilock (Some ip) s) (\<lambda>_ s.
     case r of None \<Rightarrow> Ret (-1, []) s | Some cs \<Rightarrow> Ret (int (length cs), cs) s)))))"

definition consolewrite :: "nat \<Rightarrow> byte list \<Rightarrow> 'z consys_scheme \<Rightarrow> (int, 'z consys_scheme) outcome" where
  "consolewrite ip buf s =
     rbind (iunlock (Some ip) s) (\<lambda>_ s.
     rbind (acquire LCons s) (\<lambda>_ s.
     rbind (rfor buf (\<lambda>c. consputc (uint c)) s) (\<lambda>_ s.
     rbind (release LCons s) (\<lambda>_ s.
     rbind (ilock (Some ip) s) (\<lambda>_ s.
     Ret (int (length buf)) s)))))"

definition console_dv :: "'z consys_scheme devsw" where
  "console_dv = \<lparr>dev_read = (\<lambda>k. if k = 1 then Some consoleread else None),
     dev_write = (\<lambda>k. if k = 1 then Some consolewrite else None)\<rparr>"

definition consoleinit :: "'z consys_scheme \<Rightarrow> 'z consys_scheme" where
  "consoleinit s = (initlock LCons ''console'' s)\<lparr>con_locking := True\<rparr>"

end
