(* ===== verification/Proc.thy ===== *)
theory Proc
  imports Console Vm
begin

text \<open>
  The life of processes (proc.c): creation, growth, fork, exit, wait and the scheduler. The trap frame is
  kept in the process structure instead of at the top of its kernel stack; the words that \<open>allocproc\<close> prepares
  below it for \<open>swtch\<close> are stored in kernel memory. \<open>swtch\<close> ends a function with \<open>Switch\<close>.
\<close>

record procsys = consys +
  ticks :: u32
  forkret_first :: bool
  trapret_addr :: u32
  forkret_addr :: u32

definition SEG_UCODE :: u16 where "SEG_UCODE = 3"
definition SEG_UDATA :: u16 where "SEG_UDATA = 4"
definition DPL_USER :: u16 where "DPL_USER = 3"
definition FL_IF :: u32 where "FL_IF = 0x200"

text \<open>\<open>sizeof(struct trapframe)\<close> and \<open>sizeof(struct context)\<close>.\<close>

definition tf_bytes :: u32 where "tf_bytes = 76"
definition ctx_bytes :: u32 where "ctx_bytes = 20"

definition pinit :: "'z kern_scheme \<Rightarrow> 'z kern_scheme" where
  "pinit s = initlock LPtable ''ptable'' s"

definition cpuid :: "'z kern_scheme \<Rightarrow> (nat, 'z kern_scheme) outcome" where
  "cpuid s = mycpu s"

definition curproc_of :: "(nat \<Rightarrow> 'z kern_scheme \<Rightarrow> ('a, 'z kern_scheme) outcome) \<Rightarrow> 'z kern_scheme \<Rightarrow>
    ('a, 'z kern_scheme) outcome" where
  "curproc_of f s = rbind (myproc s) (\<lambda>p s. case p of None \<Rightarrow> Panic ''trap'' | Some p \<Rightarrow> f p s)"

section \<open>Creation\<close>

definition allocproc :: "'z procsys_scheme \<Rightarrow> (nat option, 'z procsys_scheme) outcome" where
  "allocproc s =
     rbind (acquire LPtable s) (\<lambda>_ s.
     case find (\<lambda>p. state (procs s p) = UNUSED) [0..<NPROC] of
       None \<Rightarrow> rbind (release LPtable s) (\<lambda>_ s. Ret None s)
     | Some p \<Rightarrow>
         let s = set_proc p (\<lambda>q. q\<lparr>state := EMBRYO, pid := nextpid s\<rparr>) s;
             s = s\<lparr>nextpid := nextpid s + 1\<rparr> in
         rbind (release LPtable s) (\<lambda>_ s.
         rbind (kalloc s) (\<lambda>k s.
         let s = set_proc p (\<lambda>q. q\<lparr>kstack := k\<rparr>) s in
         if k = 0 then Ret None (set_proc p (\<lambda>q. q\<lparr>state := UNUSED\<rparr>) s)
         else
           let sp = k + KSTACKSIZE - tf_bytes - 4;
               s = set_mem (st32 (mem s) sp (trapret_addr s)) s;
               sp = sp - ctx_bytes;
               s = set_mem (snd (memset (mem s) sp 0 ctx_bytes)) s;
               s = set_mem (st32 (mem s) (sp + 16) (forkret_addr s)) s in
           Ret (Some p) s)))"

definition zero_tf :: trapframe where
  "zero_tf = \<lparr>tf_edi = 0, tf_esi = 0, tf_ebp = 0, tf_ebx = 0, tf_edx = 0, tf_ecx = 0, tf_eax = 0,
     tf_gs = 0, tf_fs = 0, tf_es = 0, tf_ds = 0, tf_trapno = 0, tf_err = 0, tf_eip = 0, tf_cs = 0,
     tf_eflags = 0, tf_esp = 0, tf_ss = 0\<rparr>"

definition initcode_tf :: trapframe where
  "initcode_tf = (let ds = push_bit 3 SEG_UDATA OR DPL_USER in
     zero_tf\<lparr>tf_cs := push_bit 3 SEG_UCODE OR DPL_USER, tf_ds := ds, tf_es := ds, tf_ss := ds,
       tf_eflags := FL_IF, tf_esp := PGSIZE, tf_eip := 0\<rparr>)"

definition userinit :: "byte list \<Rightarrow> 'z procsys_scheme \<Rightarrow> (unit, 'z procsys_scheme) outcome" where
  "userinit initcode s =
     rbind (allocproc s) (\<lambda>po s.
     let s = s\<lparr>initproc := po\<rparr> in
     case po of None \<Rightarrow> Panic ''trap'' | Some p \<Rightarrow>
     rbind (setupkvm s) (\<lambda>pgd s.
     let s = set_proc p (\<lambda>q. q\<lparr>pgdir := pgd\<rparr>) s in
     if pgd = 0 then Panic ''userinit: out of memory?''
     else
       rbind (inituvm pgd initcode s) (\<lambda>_ s.
       let s = set_proc p (\<lambda>q. q\<lparr>sz := PGSIZE, tf := initcode_tf, name := ''initcode''\<rparr>) s in
       rbind (namei console_dv [slash] s) (\<lambda>ip s.
       let s = set_proc p (\<lambda>q. q\<lparr>cwd := ip\<rparr>) s in
       rbind (acquire LPtable s) (\<lambda>_ s.
       release LPtable (set_proc p (\<lambda>q. q\<lparr>state := RUNNABLE\<rparr>) s))))))"

definition growproc :: "int \<Rightarrow> 'z kmemsys_scheme \<Rightarrow> (int, 'z kmemsys_scheme) outcome" where
  "growproc n s =
     curproc_of (\<lambda>p s.
       let old = sz (procs s p); pgd = pgdir (procs s p) in
       rbind
         (if 0 < n then allocuvm pgd old (old + word_of_int n) s
          else if n < 0 then deallocuvm pgd old (old + word_of_int n) s
          else Ret old s) (\<lambda>new s.
       if n \<noteq> 0 \<and> new = 0 then Ret (-1) s
       else
         rbind (switchuvm (Some p) (set_proc p (\<lambda>q. q\<lparr>sz := new\<rparr>) s)) (\<lambda>_ s. Ret 0 s))) s"

definition fork_file :: "nat \<Rightarrow> nat \<Rightarrow> nat \<Rightarrow> 'z filesys_scheme \<Rightarrow> (unit, 'z filesys_scheme) outcome" where
  "fork_file cur np i s =
     (case ofile (procs s cur) i of
        None \<Rightarrow> Ret () s
      | Some f \<Rightarrow>
          rbind (filedup f s) (\<lambda>f s. Ret () (set_proc np (\<lambda>q. q\<lparr>ofile := (ofile q)(i := Some f)\<rparr>) s)))"

definition fork :: "'z procsys_scheme \<Rightarrow> (int, 'z procsys_scheme) outcome" where
  "fork s =
     curproc_of (\<lambda>cur s.
       rbind (allocproc s) (\<lambda>po s.
       case po of None \<Rightarrow> Ret (-1) s | Some np \<Rightarrow>
       rbind (copyuvm (pgdir (procs s cur)) (sz (procs s cur)) s) (\<lambda>pgd s.
       let s = set_proc np (\<lambda>q. q\<lparr>pgdir := pgd\<rparr>) s in
       if pgd = 0 then
         rbind (kfree (kstack (procs s np)) s) (\<lambda>_ s.
         Ret (-1) (set_proc np (\<lambda>q. q\<lparr>kstack := 0, state := UNUSED\<rparr>) s))
       else
         let s = set_proc np (\<lambda>q. q\<lparr>sz := sz (procs s cur), parent := Some cur,
                   tf := (tf (procs s cur))\<lparr>tf_eax := 0\<rparr>\<rparr>) s in
         rbind (rfor [0..<NOFILE] (fork_file cur np) s) (\<lambda>_ s.
         case cwd (procs s cur) of None \<Rightarrow> Panic ''trap'' | Some d \<Rightarrow>
         rbind (idup d s) (\<lambda>d s.
         let s = set_proc np (\<lambda>q. q\<lparr>cwd := Some d, name := take 15 (name (procs s cur))\<rparr>) s;
             n = pid (procs s np) in
         rbind (acquire LPtable s) (\<lambda>_ s.
         rbind (release LPtable (set_proc np (\<lambda>q. q\<lparr>state := RUNNABLE\<rparr>) s)) (\<lambda>_ s.
         Ret n s))))))) s"

section \<open>Exit and wait\<close>

definition exit_file :: "nat \<Rightarrow> nat \<Rightarrow> 'z filesys_scheme \<Rightarrow> (unit, 'z filesys_scheme) outcome" where
  "exit_file cur fd s =
     (case ofile (procs s cur) fd of
        None \<Rightarrow> Ret () s
      | Some f \<Rightarrow>
          rbind (fileclose f s) (\<lambda>_ s. Ret () (set_proc cur (\<lambda>q. q\<lparr>ofile := (ofile q)(fd := None)\<rparr>) s)))"

definition abandon :: "nat \<Rightarrow> nat \<Rightarrow> 'z kern_scheme \<Rightarrow> 'z kern_scheme" where
  "abandon cur p s =
     (if parent (procs s p) = Some cur then
        let s = set_proc p (\<lambda>q. q\<lparr>parent := initproc s\<rparr>) s in
        if state (procs s p) = ZOMBIE then wakeup1 (map_option ChanProc (initproc s)) s else s
      else s)"

text \<open>The part of \<open>exit\<close> that runs with the process table locked, up to the switch.\<close>

definition exit_final :: "nat \<Rightarrow> 'z kern_scheme \<Rightarrow> (unit, 'z kern_scheme) outcome" where
  "exit_final cur s =
     (let s = wakeup1 (map_option ChanProc (parent (procs s cur))) s;
          s = fold (abandon cur) [0..<NPROC] s;
          s = set_proc cur (\<lambda>q. q\<lparr>state := ZOMBIE\<rparr>) s in
      rbind (sched s) (\<lambda>_ s. Panic ''zombie exit''))"

definition exit :: "'z filesys_scheme \<Rightarrow> (unit, 'z filesys_scheme) outcome" where
  "exit s =
     curproc_of (\<lambda>cur s.
       if initproc s = Some cur then Panic ''init exiting''
       else
         rbind (rfor [0..<NOFILE] (exit_file cur) s) (\<lambda>_ s.
         rbind (begin_op s) (\<lambda>_ s.
         case cwd (procs s cur) of None \<Rightarrow> Panic ''trap'' | Some d \<Rightarrow>
         rbind (iput d s) (\<lambda>_ s.
         rbind (end_op s) (\<lambda>_ s.
         let s = set_proc cur (\<lambda>q. q\<lparr>cwd := None\<rparr>) s in
         rbind (acquire LPtable s) (\<lambda>_ s.
         exit_final cur s)))))) s"

definition reap :: "nat \<Rightarrow> 'z kmemsys_scheme \<Rightarrow> (int, 'z kmemsys_scheme) outcome" where
  "reap p s =
     (let n = pid (procs s p) in
      rbind (kfree (kstack (procs s p)) s) (\<lambda>_ s.
      let s = set_proc p (\<lambda>q. q\<lparr>kstack := 0\<rparr>) s in
      rbind (freevm (pgdir (procs s p)) s) (\<lambda>_ s.
      let s = set_proc p (\<lambda>q. q\<lparr>pid := 0, parent := None, name := [], killed := False, state := UNUSED\<rparr>) s in
      rbind (release LPtable s) (\<lambda>_ s. Ret n s))))"

text \<open>One round of the loop of \<open>wait\<close>, entered with the process table locked.\<close>

definition wait_loop :: "nat \<Rightarrow> 'z kmemsys_scheme \<Rightarrow> (int, 'z kmemsys_scheme) outcome" where
  "wait_loop cur s =
     (case find (\<lambda>p. parent (procs s p) = Some cur \<and> state (procs s p) = ZOMBIE) [0..<NPROC] of
        Some p \<Rightarrow> reap p s
      | None \<Rightarrow>
          if (\<forall>p\<in>set [0..<NPROC]. parent (procs s p) \<noteq> Some cur) \<or> killed (procs s cur)
          then rbind (release LPtable s) (\<lambda>_ s. Ret (-1) s)
          else away (sleep (Some (ChanProc cur)) (Some LPtable) s))"

definition wait :: "'z kmemsys_scheme \<Rightarrow> (int, 'z kmemsys_scheme) outcome" where
  "wait s = curproc_of (\<lambda>cur s. rbind (acquire LPtable s) (\<lambda>_ s. wait_loop cur s)) s"

section \<open>The scheduler\<close>

definition set_cproc :: "nat option \<Rightarrow> 'z kern_scheme \<Rightarrow> (unit, 'z kern_scheme) outcome" where
  "set_cproc p s = rbind (mycpu s) (\<lambda>c s. Ret () (s\<lparr>cpus := (cpus s)(c := (cpus s c)\<lparr>cproc := p\<rparr>)\<rparr>))"

text \<open>The scan of the process table, with its lock held: it leaves by \<open>swtch\<close> to the first runnable
  process, or releases the lock at the end.\<close>

fun scheduler_scan :: "nat list \<Rightarrow> 'z kmemsys_scheme \<Rightarrow> (unit, 'z kmemsys_scheme) outcome" where
  "scheduler_scan [] s = release LPtable s"
| "scheduler_scan (p # ps) s =
     (if state (procs s p) \<noteq> RUNNABLE then scheduler_scan ps s
      else
        rbind (set_cproc (Some p) s) (\<lambda>_ s.
        rbind (switchuvm (Some p) s) (\<lambda>_ s.
        Switch (set_proc p (\<lambda>q. q\<lparr>state := RUNNING\<rparr>) s))))"

text \<open>One turn of the endless loop, and its continuation after process \<open>p\<close> has switched back.\<close>

definition scheduler_turn :: "'z kmemsys_scheme \<Rightarrow> (unit, 'z kmemsys_scheme) outcome" where
  "scheduler_turn s = rbind (acquire LPtable (s\<lparr>iflag := True\<rparr>)) (\<lambda>_ s. scheduler_scan [0..<NPROC] s)"

definition scheduler_resume :: "nat \<Rightarrow> 'z kmemsys_scheme \<Rightarrow> (unit, 'z kmemsys_scheme) outcome" where
  "scheduler_resume p s =
     rbind (set_cproc None (switchkvm s)) (\<lambda>_ s. scheduler_scan [Suc p..<NPROC] s)"

definition scheduler :: "'z kmemsys_scheme \<Rightarrow> (unit, 'z kmemsys_scheme) outcome" where
  "scheduler s = rbind (set_cproc None s) (\<lambda>_ s. scheduler_turn s)"

text \<open>The message with which \<open>iinit\<close> of fs.c ends. The file system lies below the console here, so the message is
  printed by the caller, at the same moment.\<close>

definition sb_message :: "superblock \<Rightarrow> byte list" where
  "sb_message b = concat (map (\<lambda>(t, n). str_bytes t @ printint n 10 True)
     [(''sb: size '', sb_size b), ('' nblocks '', sb_nblocks b), ('' ninodes '', sb_ninodes b), ('' nlog '', sb_nlog b),
      ('' logstart '', sb_logstart b), ('' inodestart '', sb_inodestart b), ('' bmap start '', sb_bmapstart b)]) @ [10]"

definition forkret :: "'z procsys_scheme \<Rightarrow> (unit, 'z procsys_scheme) outcome" where
  "forkret s =
     rbind (release LPtable s) (\<lambda>_ s.
     if forkret_first s then
       rbind (iinit ROOTDEV (s\<lparr>forkret_first := False\<rparr>)) (\<lambda>_ s.
       rbind (kmessage (sb_message (fsb s)) s) (\<lambda>_ s. initlog ROOTDEV s))
     else Ret () s)"

end
