(* ===== verification/Demo_Files.thy ===== *)
theory Demo_Files
  imports Demo Proc
begin

text \<open>Concrete states of the upper layers: empty tables on top of the machine of \<open>demo_bio\<close>.\<close>

definition demo_inode :: inode where
  "demo_inode = \<lparr>i_dev = 0, i_inum = 0, i_ref = 0, i_valid = False, i_type = 0, i_major = 0, i_minor = 0, i_nlink = 0,
     i_size = 0, i_addrs = replicate 13 0\<rparr>"

definition demo_file :: filerec where
  "demo_file = \<lparr>f_type = FD_NONE, f_ref = 0, f_readable = False, f_writable = False, f_pipe = 0, f_ip = 0, f_off = 0\<rparr>"

definition demo_pipe :: "u32 \<Rightarrow> u32 \<Rightarrow> pipe" where
  "demo_pipe r w = \<lparr>p_data = (\<lambda>_. 0), p_nread = r, p_nwrite = w, p_readopen = True, p_writeopen = True\<rparr>"

definition demo_fs :: "'z \<Rightarrow> 'z fssys_scheme" where
  "demo_fs m = demo_bio demo_disk \<lparr>lg_start = 2, lg_size = 30, outstanding = 0, committing = False, lg_dev = 1, lh_n = 0,
     lh_block = replicate 30 0, fsb = \<lparr>sb_size = 1000, sb_nblocks = 941, sb_ninodes = 200, sb_nlog = 30, sb_logstart = 2,
     sb_inodestart = 32, sb_bmapstart = 58\<rparr>, icache = (\<lambda>_. demo_inode), \<dots> = m\<rparr>"

definition demo_files :: "pipe \<Rightarrow> 'z \<Rightarrow> 'z filesys_scheme" where
  "demo_files q m = demo_fs \<lparr>ftable = (\<lambda>_. demo_file), pipes = (\<lambda>_. q), \<dots> = m\<rparr>"

lemmas demo_files_defs = demo_files_def demo_fs_def demo_bio_def demo_kern_def

lemma demo_files_ready [simp]: "kready (demo_files q m)" "me (demo_files q m) = 0"
  by (simp_all add: demo_files_def demo_fs_def demo_bio_def)

lemma demo_files_simps [simp]:
  "pipes (demo_files q m) = (\<lambda>_. q)" "ftable (demo_files q m) = (\<lambda>_. demo_file)" "procs (demo_files q m) = demo_proc"
  "cproc (cpus (demo_files q m) 0) = Some 0" "ncli (cpus (demo_files q m) 0) = 0"
  by (simp_all add: demo_files_defs)

end
