(* ===== verification/Pipe_Props.thy ===== *)
theory Pipe_Props
  imports Ring Demo_Files
begin

text \<open>
  Pipes refine bounded queues: \<open>pipe_put\<close> and \<open>pipe_get\<close> implement the interface \<open>fifo\<close>, and the system calls
  on top of them move bytes through it under the lock of the pipe.
\<close>

definition pipe_full :: "pipe \<Rightarrow> bool" where
  "pipe_full p \<longleftrightarrow> p_nwrite p = p_nread p + of_nat PIPESIZE"

definition pipe_empty :: "pipe \<Rightarrow> bool" where
  "pipe_empty p \<longleftrightarrow> p_nread p = p_nwrite p"

definition pipe_contents :: "pipe \<Rightarrow> byte list" where
  "pipe_contents p = ringbuf PIPESIZE (p_data p) (p_nread p) (p_nwrite p)"

definition pipe_inv :: "pipe \<Rightarrow> bool" where
  "pipe_inv p \<longleftrightarrow> unat (p_nwrite p - p_nread p) \<le> PIPESIZE"

lemma pipe_index: "unat (i mod of_nat PIPESIZE :: u32) = unat i mod PIPESIZE"
  by (simp add: PIPESIZE_def unat_mod_distrib)

lemma PIPESIZE_ring: "PIPESIZE dvd 2 ^ 32" "PIPESIZE < 2 ^ 32"
  by (simp_all add: PIPESIZE_def)

lemma pipe_room: "pipe_inv p \<Longrightarrow> \<not> pipe_full p \<Longrightarrow> unat (p_nwrite p - p_nread p) < PIPESIZE"
  using ringbuf_full [OF PIPESIZE_ring(2), of "p_nwrite p" "p_nread p"] by (simp add: pipe_inv_def pipe_full_def)

interpretation pq: fifo pipe_put pipe_get pipe_full pipe_empty pipe_contents pipe_inv PIPESIZE
proof
  fix q :: pipe and x
  assume inv: "pipe_inv q"
  then show "pipe_full q \<longleftrightarrow> length (pipe_contents q) = PIPESIZE"
    using ringbuf_full [OF PIPESIZE_ring(2)] by (simp add: pipe_full_def pipe_contents_def)
  show "pipe_empty q \<longleftrightarrow> pipe_contents q = []"
    using ringbuf_empty by (auto simp: pipe_empty_def pipe_contents_def)
  show "length (pipe_contents q) \<le> PIPESIZE" using inv by (simp add: pipe_contents_def pipe_inv_def)
  { assume "\<not> pipe_full q"
    then have room: "unat (p_nwrite q - p_nread q) < PIPESIZE" by (rule pipe_room [OF inv])
    show "pipe_inv (pipe_put x q)"
      using unat_ringbuf_Suc [OF room PIPESIZE_ring(2)] room by (simp add: pipe_inv_def pipe_put_def)
    show "pipe_contents (pipe_put x q) = pipe_contents q @ [x]"
      using ringbuf_put [OF PIPESIZE_ring room, of "p_data q" x] by (simp add: pipe_contents_def pipe_put_def pipe_index) }
  { assume "\<not> pipe_empty q"
    then have ne: "p_nread q \<noteq> p_nwrite q" by (simp add: pipe_empty_def)
    show c: "pipe_contents q = fst (pipe_get q) # pipe_contents (snd (pipe_get q))"
      using ringbuf_get [OF ne PIPESIZE_ring(1), of "p_data q"] by (simp add: pipe_contents_def pipe_get_def pipe_index)
    from arg_cong [OF this, of length] show "pipe_inv (snd (pipe_get q))"
      using inv by (simp add: pipe_inv_def pipe_contents_def pipe_get_def) }
qed

section \<open>Running the system calls\<close>

lemma set_pipe_lock [lock_simps]:
  "set_pipe p f (held l s) = held l (set_pipe p f s)"
  "cpu_ok (set_pipe p f s) = cpu_ok s" "lfree l (set_pipe p f s) = lfree l s"
  "me (set_pipe p f s) = me s" "cpus (set_pipe p f s) = cpus s" "procs (set_pipe p f s) = procs s"
  by (simp_all add: set_pipe_def held_def cli_state_def me_def me_opt_def cpu_ok_def lfree_def)

lemma pipes_frame [lock_simps]:
  "pipes (held l s) = pipes s" "pipes (s\<lparr>procs := ps\<rparr>) = pipes s"
  "pipes (set_pipe p f s) = (pipes s)(p := f (pipes s p))"
  by (simp_all add: held_def cli_state_def set_pipe_def)

lemma set_pipe_twice: "set_pipe p (\<lambda>_. y) (set_pipe p (\<lambda>_. x) s) = set_pipe p (\<lambda>_. y) s"
  "set_pipe p (\<lambda>_. pipes s p) s = s" "set_pipe p f s = set_pipe p (\<lambda>_. f (pipes s p)) s"
  by (simp_all add: set_pipe_def)

text \<open>The loops, in terms of the operations of the queue: the writer runs until its bytes are in or the pipe is
  full, the reader takes what there is.\<close>

lemmas pipe_loop_simps =
  pipewrite_loop.simps(2) [folded pipe_full_def] piperead_copy.simps(2) [folded pipe_empty_def]

lemma pipewrite_loop_eq:
  "pipewrite_loop p cs n s =
     (let r = pq.put_all cs (pipes s p) in pipewrite_loop p (fst r) n (set_pipe p (\<lambda>_. snd r) s))"
proof (induction cs arbitrary: s)
  case (Cons c cs)
  have c: "set_pipe p (pipe_put c) s = set_pipe p (\<lambda>_. pipe_put c (pipes s p)) s" by (rule set_pipe_twice(3))
  show ?case
  proof (cases "pipe_full (pipes s p)")
    case True
    then show ?thesis by (simp add: Let_def set_pipe_twice(2) del: pipewrite_loop.simps)
  next
    case False
    then have "pipewrite_loop p (c # cs) n s = pipewrite_loop p cs n (set_pipe p (pipe_put c) s)"
      by (simp add: pipe_loop_simps del: pipewrite_loop.simps)
    then show ?thesis
      using False Cons [of "set_pipe p (pipe_put c) s"]
      by (simp add: Let_def lock_simps c set_pipe_twice(1) del: pipewrite_loop.simps)
  qed
qed (simp add: Let_def set_pipe_twice(2) del: pipewrite_loop.simps)

lemma piperead_copy_eq:
  "piperead_copy p n s = (let r = pq.get_upto n (pipes s p) in (fst r, set_pipe p (\<lambda>_. snd r) s))"
proof (induction n arbitrary: s)
  case (Suc n)
  then show ?case
    by (simp add: pipe_loop_simps Let_def split_beta lock_simps set_pipe_twice(1,2) del: piperead_copy.simps(2))
qed (simp add: Let_def set_pipe_twice(2))

text \<open>\<open>pipe_ready p s\<close>: the system call can enter, on the CPU of a process and with the locks it needs free.\<close>

definition pipe_ready :: "u32 \<Rightarrow> 'z filesys_scheme \<Rightarrow> bool" where
  "pipe_ready p s \<longleftrightarrow> cpu_ok s \<and> lfree (LPipe p) s \<and> lfree LPtable s \<and> pipe_inv (pipes s p)"

lemma pipewrite_fits:
  assumes "pipe_ready p s" "length (pipe_contents (pipes s p)) + length src \<le> PIPESIZE"
  shows "\<exists>t. pipewrite p src s = Ret (int (length src)) t \<and> pipe_ready p t \<and>
    pipe_contents (pipes t p) = pipe_contents (pipes s p) @ src \<and> (\<forall>q. q \<noteq> p \<longrightarrow> pipes t q = pipes s q) \<and>
    procs t = woken (Some (ChanPipeRead p)) (procs s)"
proof -
  let ?q = "pq.put_all src (pipes s p)"
  let ?t = "set_pipe p (\<lambda>_. snd ?q) s\<lparr>procs := woken (Some (ChanPipeRead p)) (procs s)\<rparr>"
  have q: "pipe_inv (snd ?q)" "pipe_contents (snd ?q) = pipe_contents (pipes s p) @ src" "fst ?q = []"
    using assms pq.put_all_law [of "pipes s p" src] by (simp_all add: pipe_ready_def)
  have "pipewrite p src s = Ret (int (length src)) ?t"
    using assms q(3) by (simp add: pipewrite_def pipe_ready_def run_simps pipewrite_loop_eq [of p src] lock_simps)
  then show ?thesis using assms q by (intro exI [of _ ?t]) (simp add: pipe_ready_def lock_simps)
qed

lemma piperead_some:
  assumes "pipe_ready p s" "pipe_contents (pipes s p) \<noteq> [] \<or> \<not> p_writeopen (pipes s p)"
  shows "\<exists>t. piperead p n s = Ret (int (length (take (nat n) (pipe_contents (pipes s p)))),
      take (nat n) (pipe_contents (pipes s p))) t \<and> pipe_ready p t \<and>
    pipe_contents (pipes t p) = drop (nat n) (pipe_contents (pipes s p)) \<and>
    (\<forall>q. q \<noteq> p \<longrightarrow> pipes t q = pipes s q) \<and> procs t = woken (Some (ChanPipeWrite p)) (procs s)"
proof -
  let ?q = "pq.get_upto (nat n) (pipes s p)"
  let ?t = "set_pipe p (\<lambda>_. snd ?q) s\<lparr>procs := woken (Some (ChanPipeWrite p)) (procs s)\<rparr>"
  have q: "pipe_inv (snd ?q)" "pipe_contents (snd ?q) = drop (nat n) (pipe_contents (pipes s p))"
    "fst ?q = take (nat n) (pipe_contents (pipes s p))"
    using assms pq.get_upto_law [of "pipes s p" "nat n"] by (simp_all add: pipe_ready_def)
  have "\<not> (p_nread (pipes s p) = p_nwrite (pipes s p) \<and> p_writeopen (pipes s p))"
    using assms pq.empty_iff [of "pipes s p"] by (auto simp: pipe_ready_def pipe_empty_def)
  moreover from this have "piperead_loop p n (held (LPipe p) s) = Ret (int (length (fst ?q)), fst ?q) ?t"
    using assms(1) unfolding piperead_loop_def pipes_frame if_not_P [OF calculation]
    by (simp add: pipe_ready_def run_simps piperead_copy_eq Let_def lock_simps)
  ultimately have "piperead p n s = Ret (int (length (fst ?q)), fst ?q) ?t"
    using assms(1) by (simp add: piperead_def pipe_ready_def run_simps)
  then show ?thesis using assms q by (intro exI [of _ ?t]) (simp add: pipe_ready_def lock_simps)
qed

lemma put_all_readopen: "p_readopen (snd (pq.put_all cs q)) = p_readopen q"
  by (induction cs arbitrary: q) (simp_all add: pipe_put_def)

lemma proc_killed_ok [run_simps]:
  "cpu_ok s \<Longrightarrow> cproc (cpus s (me s)) = Some i \<Longrightarrow> proc_killed s = Ret (killed (procs s i)) s"
  by (simp add: proc_killed_def run_simps)

section \<open>The refinement of bounded queues\<close>

text \<open>What a writer and a reader do to the queue. The pipe holds \<open>q\<close> afterwards and is as open as before, the other pipes
  are as they were, and the lock of the pipe is free.\<close>

definition pipe_now :: "u32 \<Rightarrow> byte list \<Rightarrow> 'z filesys_scheme \<Rightarrow> 'z filesys_scheme \<Rightarrow> bool" where
  "pipe_now p q s t \<longleftrightarrow> pipe_inv (pipes t p) \<and> pipe_contents (pipes t p) = q \<and>
     p_readopen (pipes t p) = p_readopen (pipes s p) \<and> p_writeopen (pipes t p) = p_writeopen (pipes s p) \<and>
     (\<forall>j. j \<noteq> p \<longrightarrow> pipes t j = pipes s j) \<and> lfree (LPipe p) t"

text \<open>Process \<open>i\<close> has given up its CPU asleep on a channel, with the process table locked for the scheduler.\<close>

definition asleep_on :: "nat \<Rightarrow> chan \<Rightarrow> (nat \<Rightarrow> proc) \<Rightarrow> 'z kern_scheme \<Rightarrow> bool" where
  "asleep_on i c ps t \<longleftrightarrow> procs t = ps(i := (ps i)\<lparr>chan := Some c, state := SLEEPING\<rparr>) \<and> locked (locks t LPtable) = 1"

text \<open>A writer puts in what there is room for. If that is everything, it wakes the readers and returns \<open>n\<close>; otherwise it
  gives up if nobody can read or it was killed, and else wakes the readers and waits for room.\<close>

definition write_spec ::
  "nat \<Rightarrow> u32 \<Rightarrow> byte list \<Rightarrow> int \<Rightarrow> 'z filesys_scheme \<Rightarrow> (int, 'z filesys_scheme) outcome \<Rightarrow> bool" where
  "write_spec i p src n s r \<longleftrightarrow>
     (let q = pipe_contents (pipes s p); room = PIPESIZE - length q in
      \<exists>t. pipe_now p (q @ take room src) s t \<and>
        (if length src \<le> room
         then r = Ret n t \<and> pipe_ready p t \<and> procs t = woken (Some (ChanPipeRead p)) (procs s)
         else if \<not> p_readopen (pipes s p) \<or> killed (procs s i)
         then r = Ret (-1) t \<and> pipe_ready p t \<and> procs t = procs s
         else r = Switch t \<and> asleep_on i (ChanPipeWrite p) (woken (Some (ChanPipeRead p)) (procs s)) t))"

text \<open>A reader of an empty pipe that can still be written waits, unless it was killed; every other reader takes the oldest
  bytes, at most \<open>n\<close>, and wakes the writers.\<close>

definition read_spec ::
  "nat \<Rightarrow> u32 \<Rightarrow> int \<Rightarrow> 'z filesys_scheme \<Rightarrow> (int \<times> byte list, 'z filesys_scheme) outcome \<Rightarrow> bool" where
  "read_spec i p n s r \<longleftrightarrow>
     (let q = pipe_contents (pipes s p); xs = take (nat n) q in
      if q = [] \<and> p_writeopen (pipes s p)
      then \<exists>t. pipe_now p [] s t \<and>
        (if killed (procs s i) then r = Ret (-1, []) t \<and> pipe_ready p t \<and> procs t = procs s
         else r = Switch t \<and> asleep_on i (ChanPipeRead p) (procs s) t)
      else \<exists>t. pipe_now p (drop (nat n) q) s t \<and> r = Ret (int (length xs), xs) t \<and> pipe_ready p t \<and>
        procs t = woken (Some (ChanPipeWrite p)) (procs s))"

text \<open>\<open>pipe_caller i p s\<close>: process \<open>i\<close> is running on the CPU, holds no lock, and can enter a system call on the pipe.\<close>

definition pipe_caller :: "nat \<Rightarrow> u32 \<Rightarrow> 'z filesys_scheme \<Rightarrow> bool" where
  "pipe_caller i p s \<longleftrightarrow> pipe_ready p s \<and> cproc (cpus s (me s)) = Some i \<and> ncli (cpus s (me s)) = 0 \<and>
     state (procs s i) = RUNNING"

lemma put_all_open:
  "p_readopen (snd (pq.put_all cs q)) = p_readopen q" "p_writeopen (snd (pq.put_all cs q)) = p_writeopen q"
  by (induction cs arbitrary: q) (simp_all add: pipe_put_def)

lemma get_upto_open:
  "p_readopen (snd (pq.get_upto n q)) = p_readopen q" "p_writeopen (snd (pq.get_upto n q)) = p_writeopen q"
  by (induction n arbitrary: q) (simp_all add: pipe_get_def Let_def split_beta)

lemma away_sleep:
  assumes "cpu_ok s" "lfree LPtable s" "lfree (LPipe p) s" "ncli (cpus s (me s)) = 0" "cproc (cpus s (me s)) = Some i"
  shows "away (sleep (Some c) (Some (LPipe p)) (held (LPipe p) s)) =
    Switch (held LPtable (set_proc i (\<lambda>q. q\<lparr>chan := Some c, state := SLEEPING\<rparr>) s))"
  using sleep_switch [OF assms(1-3) _ assms(4,5), of "Some c"] by (simp add: away_def)

lemma pipewrite_loop_spec:
  assumes "pipe_caller i p s"
  shows "write_spec i p src n s (pipewrite_loop p src n (held (LPipe p) s))"
proof -
  let ?c = "pipe_contents (pipes s p)"
  let ?room = "PIPESIZE - length ?c"
  let ?q = "pq.put_all src (pipes s p)"
  let ?s = "set_pipe p (\<lambda>_. snd ?q) s"
  let ?w = "?s\<lparr>procs := woken (Some (ChanPipeRead p)) (procs s)\<rparr>"
  note a = assms [unfolded pipe_caller_def pipe_ready_def]
  have q: "pipe_inv (snd ?q)" "pipe_contents (snd ?q) = ?c @ take ?room src" "fst ?q = drop ?room src"
    using a pq.put_all_law [of "pipes s p" src] by simp_all
  have now: "pipe_now p (?c @ take ?room src) s ?s" "pipe_now p (?c @ take ?room src) s ?w"
    "pipe_now p (?c @ take ?room src) s (held LPtable (set_proc i f ?w))" for f
    using a q(1,2) by (simp_all add: pipe_now_def put_all_open lock_simps frame_simps set_proc_def)
  show ?thesis
  proof (cases "length src \<le> ?room")
    case True
    then have "pipewrite_loop p src n (held (LPipe p) s) = Ret n ?w"
      using a q(3) by (simp add: run_simps pipewrite_loop_eq [of p src] lock_simps Let_def)
    then show ?thesis using True a now(2) q(1) by (auto simp: write_spec_def Let_def pipe_ready_def lock_simps)
  next
    case no: False
    have le: "length ?c \<le> PIPESIZE" using a by (intro pq.bounded) simp
    from no have "fst ?q \<noteq> []" using q(3) by simp
    then obtain c cs where c: "fst ?q = c # cs" by (meson neq_Nil_conv)
    have full: "pipe_full (snd ?q)" using q no pq.full_iff [OF q(1)] le by simp
    note run = pipewrite_loop_eq [of p src] run_simps lock_simps pipe_full_def put_all_open Let_def c
    show ?thesis
    proof (cases "\<not> p_readopen (pipes s p) \<or> killed (procs s i)")
      case True
      then have "pipewrite_loop p src n (held (LPipe p) s) = Ret (-1) ?s"
        using a full by (cases "p_readopen (pipes s p)") (simp_all add: run)
      then show ?thesis using True no a now(1) q(1) by (auto simp: write_spec_def Let_def pipe_ready_def lock_simps)
    next
      case False
      then have "pipewrite_loop p src n (held (LPipe p) s) =
        Switch (held LPtable (set_proc i (\<lambda>q. q\<lparr>chan := Some (ChanPipeWrite p), state := SLEEPING\<rparr>) ?w))"
        using a full away_sleep [of ?w p i "ChanPipeWrite p"] by (simp add: run)
      then show ?thesis using False no now(3)
        by (auto simp: write_spec_def Let_def asleep_on_def held_def cli_state_def set_proc_def)
    qed
  qed
qed

lemma piperead_loop_spec:
  assumes "pipe_caller i p s"
  shows "read_spec i p n s (piperead_loop p n (held (LPipe p) s))"
proof -
  let ?c = "pipe_contents (pipes s p)"
  let ?q = "pq.get_upto (nat n) (pipes s p)"
  let ?t = "set_pipe p (\<lambda>_. snd ?q) s\<lparr>procs := woken (Some (ChanPipeWrite p)) (procs s)\<rparr>"
  note a = assms [unfolded pipe_caller_def pipe_ready_def]
  have q: "pipe_inv (snd ?q)" "pipe_contents (snd ?q) = drop (nat n) ?c" "fst ?q = take (nat n) ?c"
    using a pq.get_upto_law [of "pipes s p" "nat n"] by simp_all
  have e: "p_nread (pipes s p) = p_nwrite (pipes s p) \<and> p_writeopen (pipes s p) \<longleftrightarrow> ?c = [] \<and> p_writeopen (pipes s p)"
    using a pq.empty_iff [of "pipes s p"] by (auto simp: pipe_empty_def)
  show ?thesis
  proof (cases "?c = [] \<and> p_writeopen (pipes s p)")
    case True
    show ?thesis
    proof (cases "killed (procs s i)")
      case k: True
      then have "piperead_loop p n (held (LPipe p) s) = Ret (-1, []) s"
        using True a unfolding piperead_loop_def pipes_frame e by (simp add: run_simps lock_simps)
      then show ?thesis using True k a by (auto simp: read_spec_def Let_def pipe_now_def pipe_ready_def)
    next
      case k: False
      let ?u = "held LPtable (set_proc i (\<lambda>q. q\<lparr>chan := Some (ChanPipeRead p), state := SLEEPING\<rparr>) s)"
      have "piperead_loop p n (held (LPipe p) s) = Switch ?u"
        using True k a away_sleep [of s p i "ChanPipeRead p"] unfolding piperead_loop_def pipes_frame e
        by (simp add: run_simps lock_simps)
      moreover have "pipe_now p [] s ?u"
        using True a by (simp add: pipe_now_def lock_simps set_proc_def)
      ultimately show ?thesis using True k
        by (auto simp: read_spec_def Let_def asleep_on_def held_def cli_state_def set_proc_def)
    qed
  next
    case False
    then have "piperead_loop p n (held (LPipe p) s) = Ret (int (length (fst ?q)), fst ?q) ?t"
      using a unfolding piperead_loop_def pipes_frame e if_not_P [OF False]
      by (simp add: run_simps piperead_copy_eq Let_def lock_simps)
    moreover have "pipe_now p (drop (nat n) ?c) s ?t"
      using a q by (simp add: pipe_now_def get_upto_open lock_simps)
    ultimately show ?thesis using False a q
      by (auto simp: read_spec_def Let_def pipe_ready_def lock_simps simp del: length_take)
  qed
qed

lemma pipe_caller_awake:
  assumes "pipe_caller i p s"
  shows "pipe_caller i p (awake i saved s)"
proof -
  have "pipes (awake i saved s) = pipes s" by (simp add: awake_def set_proc_def)
  then show ?thesis
    using assms cpu_ok_awake [of s i saved] by (simp add: pipe_caller_def pipe_ready_def me_awake awake_frame)
qed

text \<open>C7: A pipe is a bounded queue of bytes: \<open>pipewrite\<close> and \<open>piperead\<close> refine the writer and the reader of
  such a queue on every path. Whatever the values of the two free-running indices (they may wrap around at \<open>2 ^ 32\<close>),
  a write of any length puts the bytes for which there is room behind those in the pipe and never overwrites one; a write
  that does not fit fails if nobody can read any more or the process was killed, and otherwise goes to sleep with the lock
  of the pipe free and the readers woken. A read takes the oldest bytes in the order in which they were written; on an
  empty pipe with a writer it sleeps, or fails if the process was killed, and without a writer it returns 0. Woken up,
  the two go on the same way, the writer with the bytes that it still has. Other pipes are left alone.\<close>

theorem pipe_refines_queue:
  assumes "pipe_caller i p s"
  shows "write_spec i p src (int (length src)) s (pipewrite p src s) \<and>
    read_spec i p n s (piperead p n s) \<and>
    write_spec i p src k (awake i saved s) (pipewrite_resume i p src k saved (held LPtable s)) \<and>
    read_spec i p n (awake i saved s) (piperead_resume i p n saved (held LPtable s))"
proof -
  have "pipewrite p src s = pipewrite_loop p src (int (length src)) (held (LPipe p) s)"
    "piperead p n s = piperead_loop p n (held (LPipe p) s)"
    using assms by (simp_all add: pipewrite_def piperead_def pipe_caller_def pipe_ready_def run_simps)
  moreover have "sleep_resume i (LPipe p) saved (held LPtable s) = Ret () (held (LPipe p) (awake i saved s))"
    using assms by (intro sleep_resume_held) (simp_all add: pipe_caller_def pipe_ready_def)
  moreover note pipe_caller_awake [OF assms, of saved]
  ultimately show ?thesis
    using assms by (simp add: pipewrite_resume_def piperead_resume_def pipewrite_loop_spec piperead_loop_spec)
qed

lemma demo_pipe_caller: "unat (w - r) \<le> PIPESIZE \<Longrightarrow> pipe_caller 0 p (demo_files (demo_pipe r w) m)"
  by (simp add: pipe_caller_def pipe_ready_def kreadyD demo_proc_def) (simp add: pipe_inv_def demo_pipe_def)

text \<open>The indices wrap around between the second and the third byte; a full pipe; an empty one.\<close>

theorem pipe_refines_queue_witness:
  "(\<exists>t. pipewrite 0x80500000 [7, 8, 9] (demo_files (demo_pipe 0xFFFFFFFE 0xFFFFFFFE) ()) = Ret 3 t \<and>
      pipe_contents (pipes t 0x80500000) = [7, 8, 9]) \<and>
   (\<exists>t. pipewrite 0x80500000 [7] (demo_files (demo_pipe 0 512) ()) = Switch t \<and> lfree (LPipe 0x80500000) t \<and>
      asleep_on 0 (ChanPipeWrite 0x80500000) (woken (Some (ChanPipeRead 0x80500000)) demo_proc) t) \<and>
   (\<exists>t. piperead 0x80500000 5 (demo_files (demo_pipe 3 3) ()) = Switch t \<and>
      asleep_on 0 (ChanPipeRead 0x80500000) demo_proc t)"
proof (intro conjI)
  note r = pipe_refines_queue [OF demo_pipe_caller [where p = "0x80500000" and m = "()"]]
  have c [simp]: "pipe_contents (demo_pipe r r) = []" "length (pipe_contents (demo_pipe 0 512)) = PIPESIZE"
    "p_readopen (demo_pipe r w)" "p_writeopen (demo_pipe r w)" for r w
    by (simp_all add: pipe_contents_def ringbuf_def demo_pipe_def PIPESIZE_def)
  have d [simp]: "state (demo_proc 0) = RUNNING" "\<not> killed (demo_proc 0)" by (simp_all add: demo_proc_def)
  note specs = write_spec_def read_spec_def Let_def asleep_on_def pipe_now_def
  show "\<exists>t. pipewrite 0x80500000 [7, 8, 9] (demo_files (demo_pipe 0xFFFFFFFE 0xFFFFFFFE) ()) = Ret 3 t \<and>
      pipe_contents (pipes t 0x80500000) = [7, 8, 9]"
    using r [of "0xFFFFFFFE" "0xFFFFFFFE" "[7, 8, 9]", THEN conjunct1]
    by (auto simp: specs PIPESIZE_def)
  show "\<exists>t. pipewrite 0x80500000 [7] (demo_files (demo_pipe 0 512) ()) = Switch t \<and> lfree (LPipe 0x80500000) t \<and>
      asleep_on 0 (ChanPipeWrite 0x80500000) (woken (Some (ChanPipeRead 0x80500000)) demo_proc) t"
    using r [of 512 0 "[7]", THEN conjunct1]
    by (auto simp: specs PIPESIZE_def)
  show "\<exists>t. piperead 0x80500000 5 (demo_files (demo_pipe 3 3) ()) = Switch t \<and>
      asleep_on 0 (ChanPipeRead 0x80500000) demo_proc t"
    using r [of 3 3 "[]" 5, THEN conjunct2, THEN conjunct1]
    by (auto simp: specs PIPESIZE_def)
qed

end
