(* ===== verification/Console_Props.thy ===== *)
theory Console_Props
  imports Ring Demo_Files
begin

text \<open>
  The console: the cursor stays on the screen whatever is printed, and the input buffer implements an editor of
  one line.
\<close>

section \<open>The screen\<close>

definition cursor_ok :: "'z consys_scheme \<Rightarrow> bool" where
  "cursor_ok s \<longleftrightarrow> 0 \<le> crt_pos s \<and> crt_pos s < 24 * 80"

text \<open>\<open>crt_frame s t\<close>: only the first 24 lines of the screen, the cursor and the serial line differ.\<close>

definition crt_frame :: "'z consys_scheme \<Rightarrow> 'z consys_scheme \<Rightarrow> bool" where
  "crt_frame s t \<longleftrightarrow> (\<forall>i \<ge> 24 * 80. crt t i = crt s i) \<and>
     t = s\<lparr>crt := crt t, crt_pos := crt_pos t, uart_out := uart_out t\<rparr>"

lemma crt_frame_refl [simp]: "crt_frame s s"
  by (simp add: crt_frame_def)

lemma crt_frame_trans: "crt_frame s t \<Longrightarrow> crt_frame t u \<Longrightarrow> crt_frame s u"
  unfolding crt_frame_def
  by (cases s; cases t; cases u) simp

text \<open>The two halves of \<open>cgaputc\<close>: moving the cursor, then scrolling if it has left the 24th line.\<close>

definition cga_move :: "int \<Rightarrow> int \<Rightarrow> (nat \<Rightarrow> u16) \<Rightarrow> int \<times> (nat \<Rightarrow> u16)" where
  "cga_move c pos m =
     (if c = 10 then (pos + (80 - pos mod 80), m)
      else if c = BACKSPACE then (if 0 < pos then pos - 1 else pos, m)
      else (pos + 1, m(nat pos := (word_of_int c AND 0xFF) OR 0x0700)))"

definition cga_scroll :: "int \<Rightarrow> (nat \<Rightarrow> u16) \<Rightarrow> int \<times> (nat \<Rightarrow> u16)" where
  "cga_scroll pos m =
     (if 24 \<le> pos div 80 then (pos - 80, clear_cells (nat (pos - 80)) (24 * 80) (scroll_up m)) else (pos, m))"

lemma cgaputc_halves:
  "cgaputc c s =
     (let (pos, m) = cga_move c (crt_pos s) (crt s) in
      if pos < 0 \<or> 25 * 80 < pos then Panic ''pos under/overflow''
      else let (pos, m) = cga_scroll pos m in Ret () (s\<lparr>crt_pos := pos, crt := m(nat pos := 0x0720)\<rparr>))"
  unfolding cgaputc_def cga_move_def cga_scroll_def Let_def ..

lemma next_line: "0 \<le> x \<Longrightarrow> x < 24 * 80 \<Longrightarrow> 0 \<le> x + (80 - x mod 80) \<and> x + (80 - x mod 80) \<le> 24 * (80 :: int)"
proof -
  assume x: "0 \<le> x" "x < 24 * 80"
  then have "x div 80 \<le> 23" by auto
  moreover have "x = 80 * (x div 80) + x mod 80" "0 \<le> x mod 80" "x mod 80 < 80" by simp_all
  ultimately show ?thesis using x by linarith
qed

lemma cga_move_ok:
  assumes "0 \<le> pos" "pos < 24 * 80"
  shows "0 \<le> fst (cga_move c pos m) \<and> fst (cga_move c pos m) \<le> 24 * 80 \<and>
    (\<forall>i \<ge> 24 * 80. snd (cga_move c pos m) i = m i)"
  using assms next_line [OF assms] by (simp add: cga_move_def) linarith

lemma cga_scroll_ok:
  assumes "0 \<le> pos" "pos \<le> 24 * 80"
  shows "0 \<le> fst (cga_scroll pos m) \<and> fst (cga_scroll pos m) < 24 * 80 \<and>
    (\<forall>i \<ge> 24 * 80. snd (cga_scroll pos m) i = m i)"
  using assms by (auto simp: cga_scroll_def scroll_up_def clear_cells_def)

lemma cgaputc_ok:
  assumes "cursor_ok s"
  shows "wp (cgaputc c s) (\<lambda>_ t. cursor_ok t \<and> crt_frame s t \<and> crt t (nat (crt_pos t)) = 0x0720 \<and> uart_out t = uart_out s)"
proof -
  obtain pos m where pm: "cga_move c (crt_pos s) (crt s) = (pos, m)" by (rule prod.exhaust)
  then have 1: "0 \<le> pos" "pos \<le> 24 * 80" "\<And>i. 24 * 80 \<le> i \<Longrightarrow> m i = crt s i"
    using assms cga_move_ok [of "crt_pos s" c "crt s"] by (simp_all add: cursor_ok_def)
  obtain pos' m' where pm': "cga_scroll pos m = (pos', m')" by (rule prod.exhaust)
  then have "0 \<le> pos'" "pos' < 24 * 80" "\<And>i. 24 * 80 \<le> i \<Longrightarrow> m' i = m i"
    using cga_scroll_ok [OF 1(1,2), of m] by simp_all
  moreover from this have "\<not> 24 * 80 \<le> nat pos'" by simp
  ultimately show ?thesis
    using 1 by (simp add: cgaputc_halves pm pm' cursor_ok_def crt_frame_def)
qed

lemma consputc_ok:
  assumes "cursor_ok s" "\<not> panicked s"
  shows "wp (consputc c s) (\<lambda>_ t. cursor_ok t \<and> crt_frame s t \<and> crt t (nat (crt_pos t)) = 0x0720 \<and>
    uart_out t = uart_out s @ (if c = BACKSPACE then [8, 32, 8] else [word_of_int c]))"
proof -
  let ?s = "s\<lparr>uart_out := uart_out s @ (if c = BACKSPACE then [8, 32, 8] else [word_of_int c])\<rparr>"
  have "cursor_ok ?s" using assms(1) by (simp add: cursor_ok_def)
  from cgaputc_ok [OF this, of c] show ?thesis
    using assms(2) by (auto simp: consputc_def uartputc_def crt_frame_def elim!: wp_mono)
qed

lemma crt_frame_panicked: "crt_frame s t \<Longrightarrow> panicked t = panicked s"
  unfolding crt_frame_def by (cases s; cases t) simp

lemma consputs_ok:
  "cursor_ok s \<Longrightarrow> \<not> panicked s \<Longrightarrow>
    wp (rfor cs (\<lambda>c. consputc (uint (c :: byte))) s) (\<lambda>_ t. cursor_ok t \<and> crt_frame s t \<and> uart_out t = uart_out s @ cs)"
proof (induction cs arbitrary: s)
  case (Cons c cs)
  have b: "uint c \<noteq> BACKSPACE" using uint_lt2p [of c] by (simp add: BACKSPACE_def)
  show ?case
    unfolding rfor.simps
  proof (rule wp_rbindI [OF consputc_ok [OF Cons.prems, of "uint c"]])
    fix u t
    assume t: "cursor_ok t \<and> crt_frame s t \<and> crt t (nat (crt_pos t)) = 0x0720 \<and>
      uart_out t = uart_out s @ (if uint c = BACKSPACE then [8, 32, 8] else [word_of_int (uint c)])"
    then have "\<not> panicked t" using Cons.prems(2) crt_frame_panicked by blast
    with t have "wp (rfor cs (\<lambda>c. consputc (uint c)) t) (\<lambda>_ u. cursor_ok u \<and> crt_frame t u \<and> uart_out u = uart_out t @ cs)"
      by (intro Cons.IH) auto
    then show "wp (rfor cs (\<lambda>c. consputc (uint c)) t) (\<lambda>_ u. cursor_ok u \<and> crt_frame s u \<and> uart_out u = uart_out s @ c # cs)"
      using t b crt_frame_trans by (elim wp_mono) auto
  qed
qed simp

lemma con_upd_lock:
  "(held l s)\<lparr>crt := m, crt_pos := i, uart_out := u\<rparr> = held l (s\<lparr>crt := m, crt_pos := i, uart_out := u\<rparr>)"
  "cpu_ok (s\<lparr>crt := m, crt_pos := i, uart_out := u\<rparr>) = cpu_ok s"
  "lfree l (s\<lparr>crt := m, crt_pos := i, uart_out := u\<rparr>) = lfree l s"
  "me (s\<lparr>crt := m, crt_pos := i, uart_out := u\<rparr>) = me s"
  by (simp_all add: held_def cli_state_def me_def me_opt_def cpu_ok_def lfree_def)

lemma con_held [lock_simps]:
  "crt (held l s) = crt s" "crt_pos (held l s) = crt_pos s" "uart_out (held l s) = uart_out s"
  "panicked (held l s) = panicked s" "con_locking (held l s) = con_locking s" "mem (held l s) = mem s"
  "cursor_ok (held l s) = cursor_ok s"
  by (simp_all add: held_def cli_state_def cursor_ok_def)

lemma crt_frame_held:
  assumes "crt_frame (held l s) t"
  obtains u where "t = held l u" "crt_frame s u" "cursor_ok u = cursor_ok t" "uart_out u = uart_out t"
    "cpu_ok u = cpu_ok s" "\<And>l. lfree l u = lfree l s"
proof
  let ?u = "s\<lparr>crt := crt t, crt_pos := crt_pos t, uart_out := uart_out t\<rparr>"
  show "t = held l ?u" using assms unfolding crt_frame_def con_upd_lock by blast
  show "crt_frame s ?u" using assms by (simp add: crt_frame_def lock_simps)
qed (simp_all add: con_upd_lock cursor_ok_def)

text \<open>Formatted output of the kernel never leaves the screen. From any state in which the cursor is on one of
  the first 24 lines, \<open>cprintf\<close> with enough arguments returns without a panic, sends exactly the formatted text to
  the serial line, leaves the cursor on one of the first 24 lines, changes no cell beyond them and nothing else of
  the machine, and has released the lock of the console.\<close>

theorem cprintf_on_screen:
  assumes "cpu_ok s" "lfree LCons s" "cursor_ok s" "\<not> panicked s" "cprintf_out (mem s) fmt ap = Some xs"
  shows "wp (cprintf (Some fmt) ap s) (\<lambda>_ t. cursor_ok t \<and> crt_frame s t \<and> uart_out t = uart_out s @ xs)"
proof (cases "con_locking s")
  case True
  have "wp (rfor xs (\<lambda>c. consputc (uint c)) (held LCons s))
    (\<lambda>_ t. cursor_ok t \<and> crt_frame (held LCons s) t \<and> uart_out t = uart_out (held LCons s) @ xs)"
    using assms by (intro consputs_ok) (simp_all add: lock_simps)
  then have "wp (rbind (rfor xs (\<lambda>c. consputc (uint c)) (held LCons s)) (\<lambda>_ t. release LCons t))
    (\<lambda>_ t. cursor_ok t \<and> crt_frame s t \<and> uart_out t = uart_out s @ xs)"
  proof (rule wp_rbindI)
    fix x t
    assume t: "cursor_ok t \<and> crt_frame (held LCons s) t \<and> uart_out t = uart_out (held LCons s) @ xs"
    then obtain u where "t = held LCons u" "crt_frame s u" "cursor_ok u = cursor_ok t" "uart_out u = uart_out t"
      "cpu_ok u = cpu_ok s" "lfree LCons u = lfree LCons s" using crt_frame_held by metis
    then show "wp (release LCons t) (\<lambda>_ t. cursor_ok t \<and> crt_frame s t \<and> uart_out t = uart_out s @ xs)"
      using t assms by (simp add: run_simps lock_simps)
  qed
  then show ?thesis using True assms by (simp add: cprintf_def run_simps lock_simps)
next
  case False
  then show ?thesis using consputs_ok [OF assms(3,4), of xs] assms(5) by (simp add: cprintf_def)
qed

section \<open>Line editing\<close>

text \<open>The input buffer as two lists: the characters ready for a reader, and the line being edited.\<close>

definition ready_chars :: "'z consys_scheme \<Rightarrow> byte list" where
  "ready_chars s = ringbuf INPUT_BUF (in_buf s) (in_r s) (in_w s)"

definition edit_line :: "'z consys_scheme \<Rightarrow> byte list" where
  "edit_line s = ringbuf INPUT_BUF (in_buf s) (in_w s) (in_e s)"

definition input_inv :: "'z consys_scheme \<Rightarrow> bool" where
  "input_inv s \<longleftrightarrow> unat (in_w s - in_r s) + unat (in_e s - in_w s) \<le> INPUT_BUF \<and> 10 \<notin> set (edit_line s)"

fun edit :: "int \<Rightarrow> byte list \<times> byte list \<Rightarrow> byte list \<times> byte list" where
  "edit c (rd, ln) =
     (if c = ctrl 80 then (rd, ln)
      else if c = ctrl 85 then (rd, [])
      else if c = ctrl 72 \<or> c = 127 then (rd, butlast ln)
      else if c \<noteq> 0 \<and> length rd + length ln < INPUT_BUF then
        let c = (if c = 13 then 10 else c); ln = ln @ [word_of_int c] in
        if c = 10 \<or> c = ctrl 68 \<or> length rd + length ln = INPUT_BUF then (rd @ ln, []) else (rd, ln)
      else (rd, ln))"

lemma INPUT_BUF_ring: "INPUT_BUF dvd 2 ^ 32" "INPUT_BUF < 2 ^ 32"
  by (simp_all add: INPUT_BUF_def)

lemma in_index_eq: "in_index i = unat i mod INPUT_BUF"
  by (simp add: in_index_def INPUT_BUF_def unat_mod_distrib)


text \<open>\<open>con_step s t\<close>: the interrupt handler changed only the screen, the input buffer and the states of processes.\<close>

definition con_step :: "'z consys_scheme \<Rightarrow> 'z consys_scheme \<Rightarrow> bool" where
  "con_step s t \<longleftrightarrow> t = s\<lparr>procs := procs t, in_buf := in_buf t, in_w := in_w t, in_e := in_e t,
     uart_out := uart_out t, crt := crt t, crt_pos := crt_pos t\<rparr>"

lemma con_step_refl [simp]: "con_step s s"
  by (simp add: con_step_def)

lemma con_step_trans: "con_step s t \<Longrightarrow> con_step t u \<Longrightarrow> con_step s u"
  unfolding con_step_def by (cases s; cases t; cases u) simp

lemma con_step_lock:
  assumes "con_step s t"
  shows "cpu_ok t = cpu_ok s" "lfree l t = lfree l s" "panicked t = panicked s" "in_r t = in_r s"
proof -
  obtain ps b w e u m i where t: "t = s\<lparr>procs := ps, in_buf := b, in_w := w, in_e := e, uart_out := u, crt := m, crt_pos := i\<rparr>"
    using assms unfolding con_step_def by blast
  show "cpu_ok t = cpu_ok s" "lfree l t = lfree l s" "panicked t = panicked s" "in_r t = in_r s"
    unfolding t by (simp_all add: cpu_ok_def me_def me_opt_def lfree_def)
qed

lemma con_step_held:
  assumes "con_step (held l s) t"
  shows "\<exists>u. t = held l u \<and> con_step s u"
proof -
  obtain ps b w e u m i where t: "t = (held l s)\<lparr>procs := ps, in_buf := b, in_w := w, in_e := e, uart_out := u, crt := m, crt_pos := i\<rparr>"
    using assms unfolding con_step_def by blast
  show ?thesis
    by (rule exI [of _ "s\<lparr>procs := ps, in_buf := b, in_w := w, in_e := e, uart_out := u, crt := m, crt_pos := i\<rparr>"])
       (simp add: t held_def cli_state_def me_def me_opt_def con_step_def)
qed

lemma input_held [lock_simps]:
  "ready_chars (held l s) = ready_chars s" "edit_line (held l s) = edit_line s" "input_inv (held l s) = input_inv s"
  by (simp_all add: ready_chars_def edit_line_def input_inv_def held_def cli_state_def)

lemma input_procs:
  "ready_chars (s\<lparr>procs := ps\<rparr>) = ready_chars s" "edit_line (s\<lparr>procs := ps\<rparr>) = edit_line s"
  "input_inv (s\<lparr>procs := ps\<rparr>) = input_inv s" "cursor_ok (s\<lparr>procs := ps\<rparr>) = cursor_ok s"
  by (simp_all add: ready_chars_def edit_line_def input_inv_def cursor_ok_def)

text \<open>\<open>editing s t (rd, ln)\<close>: the handler got from \<open>s\<close> to \<open>t\<close>, where the buffer holds \<open>rd\<close> and \<open>ln\<close>.\<close>

definition editing :: "'z consys_scheme \<Rightarrow> 'z consys_scheme \<Rightarrow> byte list \<times> byte list \<Rightarrow> bool" where
  "editing s t a \<longleftrightarrow> con_step s t \<and> cursor_ok t \<and> input_inv t \<and> (ready_chars t, edit_line t) = a"

text \<open>Printing does not touch the buffer.\<close>

lemma crt_frame_input:
  assumes "crt_frame s t"
  shows "con_step s t" "in_buf t = in_buf s" "in_r t = in_r s" "in_w t = in_w s" "in_e t = in_e s" "procs t = procs s"
proof -
  obtain m i u where t: "t = s\<lparr>crt := m, crt_pos := i, uart_out := u\<rparr>"
    using assms unfolding crt_frame_def by blast
  show "con_step s t" "in_buf t = in_buf s" "in_r t = in_r s" "in_w t = in_w s" "in_e t = in_e s" "procs t = procs s"
    unfolding t by (simp_all add: con_step_def)
qed

lemma crt_frame_editing:
  assumes "crt_frame s t"
  shows "ready_chars t = ready_chars s" "edit_line t = edit_line s" "input_inv t = input_inv s"
  using crt_frame_input [OF assms] by (simp_all add: ready_chars_def edit_line_def input_inv_def)

text \<open>The whole buffer, and its two parts.\<close>

lemma input_split:
  assumes "input_inv s"
  shows "ringbuf INPUT_BUF (in_buf s) (in_r s) (in_e s) = ready_chars s @ edit_line s"
    "unat (in_e s - in_r s) = length (ready_chars s) + length (edit_line s)"
proof -
  have "unat (in_w s - in_r s) + unat (in_e s - in_w s) < 2 ^ 32"
    using assms INPUT_BUF_ring(2) unfolding input_inv_def by linarith
  from ringbuf_split [OF INPUT_BUF_ring(1) this, of "in_buf s"]
  show *: "ringbuf INPUT_BUF (in_buf s) (in_r s) (in_e s) = ready_chars s @ edit_line s"
    by (simp add: ready_chars_def edit_line_def)
  from arg_cong [OF this, of length] show "unat (in_e s - in_r s) = length (ready_chars s) + length (edit_line s)"
    by simp
qed

lemma line_back:
  assumes "in_e s \<noteq> in_w s"
  shows "edit_line s = edit_line (s\<lparr>in_e := in_e s - 1\<rparr>) @ [in_buf s (in_index (in_e s - 1))]"
  using ringbuf_back [OF INPUT_BUF_ring(1), of "in_w s" "in_e s" "in_buf s"] assms
  by (auto simp: edit_line_def in_index_eq)

lemma erase_inv:
  assumes "in_e s \<noteq> in_w s" "input_inv s"
  shows "input_inv (s\<lparr>in_e := in_e s - 1\<rparr>)" "edit_line (s\<lparr>in_e := in_e s - 1\<rparr>) = butlast (edit_line s)"
    "ready_chars (s\<lparr>in_e := in_e s - 1\<rparr>) = ready_chars s"
proof -
  note b = line_back [OF assms(1)]
  show "edit_line (s\<lparr>in_e := in_e s - 1\<rparr>) = butlast (edit_line s)" by (subst b) simp
  show "ready_chars (s\<lparr>in_e := in_e s - 1\<rparr>) = ready_chars s" by (simp add: ready_chars_def)
  have "unat (in_e s - in_w s) = Suc (unat (in_e s - 1 - in_w s))"
    using arg_cong [OF b, of length] by (simp add: edit_line_def)
  moreover have "10 \<notin> set (edit_line (s\<lparr>in_e := in_e s - 1\<rparr>))"
    using assms(2) arg_cong [OF b, of set] by (auto simp: input_inv_def)
  ultimately show "input_inv (s\<lparr>in_e := in_e s - 1\<rparr>)" using assms(2) by (simp add: input_inv_def)
qed


lemma echo_ok:
  assumes "cursor_ok s" "\<not> panicked s"
  shows "wp (consputc c s) (\<lambda>_ t. con_step s t \<and> cursor_ok t \<and> ready_chars t = ready_chars s \<and> edit_line t = edit_line s \<and>
    input_inv t = input_inv s \<and> in_r t = in_r s \<and> in_w t = in_w s \<and> in_e t = in_e s)"
  by (rule wp_mono [OF consputc_ok [OF assms]]) (auto simp: crt_frame_editing crt_frame_input)

lemma erase_ok:
  assumes "in_e s \<noteq> in_w s" "input_inv s" "cursor_ok s" "\<not> panicked s"
  shows "wp (consputc BACKSPACE (s\<lparr>in_e := in_e s - 1\<rparr>)) (\<lambda>_ t. editing s t (ready_chars s, butlast (edit_line s)) \<and>
    in_w t = in_w s \<and> in_e t = in_e s - 1)"
proof -
  let ?s = "s\<lparr>in_e := in_e s - 1\<rparr>"
  have "cursor_ok ?s" "\<not> panicked ?s" "con_step s ?s" using assms by (simp_all add: cursor_ok_def con_step_def)
  note this(3) and echo_ok [OF this(1,2), of BACKSPACE]
  then show ?thesis
    using erase_inv [OF assms(1,2)] by - (erule wp_mono, auto simp: editing_def elim: con_step_trans)
qed

lemma kill_line_ok:
  assumes "input_inv s" "cursor_ok s" "\<not> panicked s"
  shows "wp (kill_line s) (\<lambda>_ t. editing s t (ready_chars s, []))"
  using assms
proof (induction "length (edit_line s)" arbitrary: s)
  case 0
  then have "in_e s = in_w s" by (simp add: edit_line_def unat_eq_0)
  then show ?case using 0 by (subst kill_line.simps) (simp add: editing_def)
next
  case (Suc n)
  then have ne: "in_e s \<noteq> in_w s" by (auto simp: edit_line_def)
  have "in_buf s (in_index (in_e s - 1)) \<noteq> 10"
    using Suc.prems(1) arg_cong [OF line_back [OF ne], of set] by (auto simp: input_inv_def)
  then have k: "kill_line s = rbind (consputc BACKSPACE (s\<lparr>in_e := in_e s - 1\<rparr>)) (\<lambda>_ s. kill_line s)"
    using ne by (subst kill_line.simps) simp
  show ?case unfolding k
  proof (rule wp_rbindI [OF erase_ok [OF ne Suc.prems]])
    fix x t
    assume t: "editing s t (ready_chars s, butlast (edit_line s)) \<and> in_w t = in_w s \<and> in_e t = in_e s - 1"
    then have "wp (kill_line t) (\<lambda>_ u. editing t u (ready_chars t, []))"
      using Suc.hyps(2) Suc.prems con_step_lock(3) [of s t] by (intro Suc.hyps(1)) (auto simp: editing_def)
    then show "wp (kill_line t) (\<lambda>_ u. editing s u (ready_chars s, []))"
      using t by (elim wp_mono) (auto simp: editing_def intro: con_step_trans)
  qed
qed

lemma put_char:
  assumes "input_inv s" "length (ready_chars s) + length (edit_line s) < INPUT_BUF"
    "t = s\<lparr>in_buf := (in_buf s)(in_index (in_e s) := b), in_e := in_e s + 1\<rparr>"
  shows "ready_chars t = ready_chars s" "edit_line t = edit_line s @ [b]"
    "unat (in_e t - in_w t) = Suc (unat (in_e s - in_w s))"
proof -
  have room: "unat (in_e s - in_r s) < INPUT_BUF" using assms(2) input_split(2) [OF assms(1)] by simp
  have room': "unat (in_e s - in_w s) < INPUT_BUF" using assms(2) by (simp add: edit_line_def)
  show ln: "edit_line t = edit_line s @ [b]"
    using ringbuf_put [OF INPUT_BUF_ring room'] by (simp add: assms(3) edit_line_def in_index_eq)
  have sm: "unat (in_w t - in_r t) + unat (in_e t - in_w t) < 2 ^ 32"
    using assms(2) arg_cong [OF ln, of length] INPUT_BUF_ring(2) unfolding assms(3) by (simp add: edit_line_def ready_chars_def)
  have "ready_chars t @ edit_line t = ringbuf INPUT_BUF (in_buf t) (in_r t) (in_e t)"
    using ringbuf_split [OF INPUT_BUF_ring(1) sm, of "in_buf t"] by (simp add: ready_chars_def edit_line_def)
  also have "\<dots> = (ready_chars s @ edit_line s) @ [b]"
    using ringbuf_put [OF INPUT_BUF_ring room, of "in_buf s" b] input_split(1) [OF assms(1)] by (simp add: assms(3) in_index_eq)
  finally show "ready_chars t = ready_chars s" by (simp add: ln)
  show "unat (in_e t - in_w t) = Suc (unat (in_e s - in_w s))" using arg_cong [OF ln, of length] by (simp add: edit_line_def)
qed

text \<open>Making the line ready, when its end moves over.\<close>

lemma commit_line:
  assumes "unat (in_w s - in_r s) + unat (in_e s - in_w s) \<le> INPUT_BUF"
  shows "ready_chars (s\<lparr>in_w := in_e s\<rparr>) = ready_chars s @ edit_line s" "edit_line (s\<lparr>in_w := in_e s\<rparr>) = []"
    "input_inv (s\<lparr>in_w := in_e s\<rparr>)"
proof -
  have b: "unat (in_w s - in_r s) + unat (in_e s - in_w s) < 2 ^ 32" using assms INPUT_BUF_ring(2) by linarith
  from ringbuf_split [OF INPUT_BUF_ring(1) b, of "in_buf s"]
  show *: "ready_chars (s\<lparr>in_w := in_e s\<rparr>) = ready_chars s @ edit_line s" by (simp add: ready_chars_def edit_line_def)
  show "edit_line (s\<lparr>in_w := in_e s\<rparr>) = []" by (simp add: edit_line_def ringbuf_def)
  then show "input_inv (s\<lparr>in_w := in_e s\<rparr>)"
    using assms arg_cong [OF *, of length] by (simp add: input_inv_def) (simp add: ready_chars_def edit_line_def)
qed


lemma byte_of_int: "0 \<le> c \<Longrightarrow> c < 256 \<Longrightarrow> uint (word_of_int c :: byte) = c"
  by (simp add: unsigned_of_int take_bit_eq_mod)

lemma store_ok:
  assumes "input_inv s" "cursor_ok s" "\<not> panicked s" "cpu_ok s" "lfree LPtable s"
    "length (ready_chars s) + length (edit_line s) < INPUT_BUF" "0 \<le> c" "c < 256"
    and s': "s' = s\<lparr>in_buf := (in_buf s)(in_index (in_e s) := word_of_int c), in_e := in_e s + 1\<rparr>"
  defines "ln \<equiv> edit_line s @ [word_of_int c]"
  shows "wp (rbind (consputc c s') (\<lambda>_ t.
      if c = 10 \<or> c = ctrl 68 \<or> in_e t = in_r t + of_nat INPUT_BUF
      then wakeup (Some ChanInput) (t\<lparr>in_w := in_e t\<rparr>) else Ret () t))
    (\<lambda>_ t. editing s t (if c = 10 \<or> c = ctrl 68 \<or> length (ready_chars s) + length ln = INPUT_BUF
      then (ready_chars s @ ln, []) else (ready_chars s, ln)))"
proof -
  note p = put_char [OF assms(1,6) s']
  have b: "unat (in_w s' - in_r s') + unat (in_e s' - in_w s') \<le> INPUT_BUF"
    using assms(6) p(3) by (simp add: s' ready_chars_def edit_line_def)
  have full: "in_e s' = in_r s' + of_nat INPUT_BUF \<longleftrightarrow> length (ready_chars s) + length ln = INPUT_BUF"
  proof -
    have "unat (in_w s' - in_r s') + unat (in_e s' - in_w s') < 2 ^ 32" using b INPUT_BUF_ring(2) by linarith
    from arg_cong [OF ringbuf_split [OF INPUT_BUF_ring(1) this], of length "in_buf s'"]
    have "unat (in_e s' - in_r s') = length (ready_chars s') + length (edit_line s')" by (simp add: ready_chars_def edit_line_def)
    then show ?thesis using ringbuf_full [OF INPUT_BUF_ring(2)] p by (simp add: ln_def)
  qed
  have step: "con_step s s'" "cursor_ok s'" "\<not> panicked s'" using assms(2,3) by (simp_all add: s' con_step_def cursor_ok_def)
  have ten: "word_of_int c = (10 :: byte) \<longleftrightarrow> c = 10" using byte_of_int [OF assms(7,8)] by (auto simp: word_uint_eq_iff)
  show ?thesis
  proof (rule wp_rbindI [OF echo_ok [OF step(2,3)]])
    fix x t
    assume t: "con_step s' t \<and> cursor_ok t \<and> ready_chars t = ready_chars s' \<and> edit_line t = edit_line s' \<and>
      input_inv t = input_inv s' \<and> in_r t = in_r s' \<and> in_w t = in_w s' \<and> in_e t = in_e s'"
    then have st: "con_step s t" using step(1) con_step_trans by blast
    let ?u = "t\<lparr>in_w := in_e t\<rparr>"
    have cond: "(c = 10 \<or> c = ctrl 68 \<or> in_e t = in_r t + of_nat INPUT_BUF) \<longleftrightarrow>
      (c = 10 \<or> c = ctrl 68 \<or> length (ready_chars s) + length ln = INPUT_BUF)" using t full by simp
    show "wp (if c = 10 \<or> c = ctrl 68 \<or> in_e t = in_r t + of_nat INPUT_BUF
      then wakeup (Some ChanInput) ?u else Ret () t)
      (\<lambda>_ t. editing s t (if c = 10 \<or> c = ctrl 68 \<or> length (ready_chars s) + length ln = INPUT_BUF
        then (ready_chars s @ ln, []) else (ready_chars s, ln)))"
    proof (cases "c = 10 \<or> c = ctrl 68 \<or> length (ready_chars s) + length ln = INPUT_BUF")
      case True
      let ?v = "?u\<lparr>procs := woken (Some ChanInput) (procs ?u)\<rparr>"
      have "con_step s ?u" using con_step_trans [OF st, of ?u] by (simp add: con_step_def)
      then have u: "con_step s ?u" "cpu_ok ?u" "lfree LPtable ?u" using con_step_lock [of s ?u] assms by blast+
      have c: "ready_chars ?u = ready_chars s @ ln" "edit_line ?u = []" "input_inv ?u"
        using commit_line [of t] t b p by (simp_all add: ln_def)
      have "con_step s ?v" by (rule con_step_trans [OF u(1)]) (simp add: con_step_def)
      then have "editing s ?v (ready_chars s @ ln, [])" using c t by (simp add: editing_def input_procs) (simp add: cursor_ok_def)
      then show ?thesis unfolding cond if_P [OF True] by (simp add: wakeup_ok [OF u(2,3)])
    next
      case False
      have "input_inv t" using t p b assms(1) False ten by (auto simp: input_inv_def)
      then show ?thesis unfolding cond if_not_P [OF False] using t st p by (simp add: editing_def ln_def)
    qed
  qed
qed


lemma consoleintr_char_ok:
  assumes "input_inv s" "cursor_ok s" "\<not> panicked s" "cpu_ok s" "lfree LPtable s" "0 \<le> c" "c < 256"
  shows "wp (consoleintr_char c s) (\<lambda>_ t. editing s t (edit c (ready_chars s, edit_line s)))"
proof -
  have room: "in_e s - in_r s < of_nat INPUT_BUF \<longleftrightarrow> length (ready_chars s) + length (edit_line s) < INPUT_BUF"
    using input_split(2) [OF assms(1)] by (simp add: word_less_nat_alt INPUT_BUF_def)
  have ne: "in_e s \<noteq> in_w s \<longleftrightarrow> edit_line s \<noteq> []"
    by (auto simp: edit_line_def ringbuf_empty [symmetric])
  have same: "editing s s (ready_chars s, edit_line s)" using assms by (simp add: editing_def)
  have erase: "wp (consputc BACKSPACE (s\<lparr>in_e := in_e s - 1\<rparr>)) (\<lambda>_ t. editing s t (ready_chars s, butlast (edit_line s)))"
    if "edit_line s \<noteq> []" using erase_ok [OF _ assms(1-3)] ne that by (auto elim: wp_mono)
  let ?c = "if c = 13 then 10 else c"
  note store = store_ok [OF assms(1-5) _ _ _ refl, of ?c]
  consider "c = ctrl 80" | "c = ctrl 85" | "c = ctrl 72 \<or> c = 127" | "c \<notin> {ctrl 80, ctrl 85, ctrl 72, 127}" by blast
  then show ?thesis
  proof cases
    case 2
    then show ?thesis using kill_line_ok [OF assms(1-3)] by (simp add: consoleintr_char_def ctrl_def)
  next
    case 3
    then show ?thesis using same erase ne by (auto simp: consoleintr_char_def ctrl_def)
  next
    case 4
    then show ?thesis
      using same store assms(6,7) room by (auto simp: consoleintr_char_def Let_def)
  qed (simp add: consoleintr_char_def same)
qed

lemma consoleintr_chars_ok:
  "input_inv s \<Longrightarrow> cursor_ok s \<Longrightarrow> \<not> panicked s \<Longrightarrow> cpu_ok s \<Longrightarrow> lfree LPtable s \<Longrightarrow> (\<And>c. c \<in> set cs \<Longrightarrow> 0 \<le> c \<and> c < 256) \<Longrightarrow>
    wp (rfor cs consoleintr_char s) (\<lambda>_ t. editing s t (fold edit cs (ready_chars s, edit_line s)))"
proof (induction cs arbitrary: s)
  case Nil
  then show ?case by (simp add: editing_def)
next
  case (Cons c cs)
  show ?case unfolding rfor.simps
  proof (rule wp_rbindI [OF consoleintr_char_ok [OF Cons.prems(1-5), of c]])
    fix x t
    assume t: "editing s t (edit c (ready_chars s, edit_line s))"
    then have "con_step s t" by (simp add: editing_def)
    then have "wp (rfor cs consoleintr_char t) (\<lambda>_ u. editing t u (fold edit cs (ready_chars t, edit_line t)))"
      using Cons.prems t con_step_lock [of s t] by (intro Cons.IH) (auto simp: editing_def)
    then show "wp (rfor cs consoleintr_char t) (\<lambda>_ u. editing s u (fold edit (c # cs) (ready_chars s, edit_line s)))"
      using t by (elim wp_mono) (auto simp: editing_def intro: con_step_trans)
  qed (use Cons.prems(6) in auto)
qed


lemma consoleintr_edits:
  assumes "input_inv s" "cursor_ok s" "\<not> panicked s" "cpu_ok s" "lfree LPtable s" "lfree LCons s"
    "\<forall>c \<in> set cs. 0 \<le> c \<and> c < 256"
  shows "wp (consoleintr cs s) (\<lambda>_ t. input_inv t \<and> cursor_ok t \<and> lfree LCons t \<and> cpu_ok t \<and>
    (ready_chars t, edit_line t) = fold edit cs (ready_chars s, edit_line s))"
proof -
  have "wp (rfor cs consoleintr_char (held LCons s))
    (\<lambda>_ t. editing (held LCons s) t (fold edit cs (ready_chars s, edit_line s)))"
    using assms consoleintr_chars_ok [of "held LCons s" cs] by (simp add: lock_simps)
  then have "wp (rbind (rfor cs consoleintr_char (held LCons s)) (\<lambda>_ t. release LCons t))
    (\<lambda>_ t. input_inv t \<and> cursor_ok t \<and> lfree LCons t \<and> cpu_ok t \<and>
      (ready_chars t, edit_line t) = fold edit cs (ready_chars s, edit_line s))"
  proof (rule wp_rbindI)
    fix x t
    assume t: "editing (held LCons s) t (fold edit cs (ready_chars s, edit_line s))"
    then obtain u where u: "t = held LCons u" "con_step s u" using con_step_held unfolding editing_def by blast
    then show "wp (release LCons t) (\<lambda>_ t. input_inv t \<and> cursor_ok t \<and> lfree LCons t \<and> cpu_ok t \<and>
      (ready_chars t, edit_line t) = fold edit cs (ready_chars s, edit_line s))"
      using t assms con_step_lock [OF u(2)] by (simp add: editing_def run_simps lock_simps)
  qed
  then show ?thesis using assms by (simp add: consoleintr_def run_simps)
qed

text \<open>C8: The interrupt handler of the console implements a line editor. For every sequence of characters from the
  keyboard, \<open>consoleintr\<close> returns with the lock released, the cursor still on the screen, and the circular buffer
  (whose free-running indices may wrap around) holding what the editor on two lists gives: ordinary characters are
  appended to the line, backspace removes the last one, control-U the whole line but nothing that is already ready, a
  newline, control-D or a full buffer make the line ready for readers, and characters that do not fit are dropped.\<close>

theorem consoleintr_refines:
  assumes "input_inv s" "cursor_ok s" "\<not> panicked s" "cpu_ok s" "lfree LPtable s" "lfree LCons s"
    "\<forall>c \<in> set cs. 0 \<le> c \<and> c < 256"
  shows "wp (consoleintr cs s) (\<lambda>_ t. input_inv t \<and> cursor_ok t \<and> lfree LCons t \<and> cpu_ok t \<and>
    (ready_chars t, edit_line t) = fold edit cs (ready_chars s, edit_line s))"
  using assms by (rule consoleintr_edits)

definition demo_con :: "'z \<Rightarrow> 'z consys_scheme" where
  "demo_con m = demo_files (demo_pipe 0 0) \<lparr>panicked = False, con_locking = True, in_buf = (\<lambda>_. 0), in_r = 0xFFFFFFFF,
     in_w = 0xFFFFFFFF, in_e = 0xFFFFFFFF, uart_out = [], crt = (\<lambda>_. 0), crt_pos = 1919, \<dots> = m\<rparr>"

lemma demo_con_ok [simp]:
  "kready (demo_con m)" "cursor_ok (demo_con m)" "\<not> panicked (demo_con m)" "input_inv (demo_con m)"
  "ready_chars (demo_con m) = []" "edit_line (demo_con m) = []" "uart_out (demo_con m) = []" "mem (demo_con m) = (\<lambda>_. 0)"
  by (simp_all add: demo_con_def)
     (simp_all add: demo_files_defs cursor_ok_def input_inv_def ready_chars_def edit_line_def ringbuf_def)

lemma demo_con_lock: "cpu_ok (demo_con m)" "lfree l (demo_con m)"
  by (simp_all add: kreadyD)

text \<open>Typing a, b, backspace, c, newline.\<close>

theorem consoleintr_refines_witness:
  "wp (consoleintr [97, 98, 8, 99, 13] (demo_con ())) (\<lambda>_ t. ready_chars t = [97, 99, 10] \<and> edit_line t = [])"
  by (rule wp_mono [OF consoleintr_refines [of "demo_con ()"]])
     (simp_all add: demo_con_lock ctrl_def INPUT_BUF_def Let_def)

theorem cprintf_on_screen_witness:
  "wp (cprintf (Some [99, 112, 117, 37, 100, 10]) [0xFFFFFFFF] (demo_con ())) (\<lambda>_ t. cursor_ok t \<and> uart_out t = [99, 112, 117, 45, 49, 10])"
proof (rule wp_mono [OF cprintf_on_screen [of "demo_con ()"]])
  have "printint 0xFFFFFFFF 10 True = [45, 49]" by code_simp
  then show "cprintf_out (mem (demo_con ())) [99, 112, 117, 37, 100, 10] [0xFFFFFFFF] = Some [99, 112, 117, 45, 49, 10]" by simp
qed (simp_all add: demo_con_lock)

section \<open>Reading a line\<close>

lemma read_char:
  assumes "ready_chars s = c # cs"
  shows "in_r s \<noteq> in_w s" "in_buf s (in_index (in_r s)) = c" "ready_chars (s\<lparr>in_r := in_r s + 1\<rparr>) = cs"
proof -
  show ne: "in_r s \<noteq> in_w s" using assms by (auto simp: ready_chars_def ringbuf_def)
  have "c # cs = in_buf s (in_index (in_r s)) # ready_chars (s\<lparr>in_r := in_r s + 1\<rparr>)"
    using ringbuf_get [OF ne INPUT_BUF_ring(1), of "in_buf s"] assms by (simp add: ready_chars_def in_index_eq)
  then show "in_buf s (in_index (in_r s)) = c" "ready_chars (s\<lparr>in_r := in_r s + 1\<rparr>) = cs" by simp_all
qed

lemma consoleread_line:
  "ready_chars s = xs @ 10 # rest \<Longrightarrow> 10 \<notin> set xs \<Longrightarrow> 4 \<notin> set xs \<Longrightarrow> length xs < n \<Longrightarrow>
    \<exists>r. consoleread_loop target n s = Ret (Some (xs @ [10])) (s\<lparr>in_r := r\<rparr>) \<and> ready_chars (s\<lparr>in_r := r\<rparr>) = rest"
proof (induction xs arbitrary: s n)
  case Nil
  then obtain k where n: "n = Suc k" by (cases n) auto
  have "ready_chars s = 10 # rest" using Nil(1) by simp
  note r = read_char [OF this]
  show ?case unfolding n by (rule exI [of _ "in_r s + 1"]) (simp add: r Let_def ctrl_def)
next
  case (Cons c xs)
  then obtain k where n: "n = Suc k" by (cases n) auto
  have "ready_chars s = c # xs @ 10 # rest" using Cons.prems(1) by simp
  note r = read_char [OF this]
  let ?s = "s\<lparr>in_r := in_r s + 1\<rparr>"
  have "\<exists>r. consoleread_loop target k ?s = Ret (Some (xs @ [10])) (?s\<lparr>in_r := r\<rparr>) \<and> ready_chars (?s\<lparr>in_r := r\<rparr>) = rest"
    using Cons.prems r n by (intro Cons.IH) auto
  then obtain r' where r': "consoleread_loop target k ?s = Ret (Some (xs @ [10])) (?s\<lparr>in_r := r'\<rparr>)"
    "ready_chars (?s\<lparr>in_r := r'\<rparr>) = rest" by blast
  have "sint c \<noteq> sint (4 :: byte)" using Cons.prems(3) signed_word_eqI [of c 4] by auto
  then have "sint c \<noteq> ctrl 68" by (simp add: ctrl_def)
  moreover have "c \<noteq> 10" using Cons.prems(2) by simp
  ultimately show ?case unfolding n using r' by (intro exI [of _ r']) (simp add: r Let_def)
qed

definition printable :: "byte \<Rightarrow> bool" where
  "printable c \<longleftrightarrow> 32 \<le> uint c \<and> uint c < 127"

lemma edit_printable:
  "list_all printable xs \<Longrightarrow> length ln + length xs < INPUT_BUF \<Longrightarrow> fold edit (map uint xs) ([], ln) = ([], ln @ xs)"
  by (induction xs arbitrary: ln) (auto simp: printable_def ctrl_def Let_def)

text \<open>A reader that asks for more than the line that is ready gets the line.\<close>

lemma line_is_read:
  assumes "input_inv t \<and> cursor_ok t \<and> lfree LCons t \<and> cpu_ok t \<and> (ready_chars t, edit_line t) = (xs @ [10], [])"
    "list_all printable xs" "length xs < n"
  shows "wp (consoleread_loop target n t) (\<lambda>r u. r = Some (xs @ [10]) \<and> ready_chars u = [] \<and> edit_line u = [])"
proof -
  have "ready_chars t = xs @ 10 # []" and e: "edit_line t = []" using assms(1) by simp_all
  moreover have "10 \<notin> set xs" "4 \<notin> set xs" using assms(2) by (auto simp: list_all_iff printable_def)
  ultimately obtain r where "consoleread_loop target n t = Ret (Some (xs @ [10])) (t\<lparr>in_r := r\<rparr>)" "ready_chars (t\<lparr>in_r := r\<rparr>) = []"
    using consoleread_line [of t xs "[]" n target] assms(1,3) by auto
  then show ?thesis using e by (simp add: edit_line_def)
qed

text \<open>A line that is typed is the line that is read. After the characters of \<open>xs\<close> and a carriage return have
  arrived on an empty input buffer, a reader that asks for more than \<open>length xs\<close> bytes gets \<open>xs\<close> followed by a
  newline, without blocking, and the buffer is empty again, for every position of the circular indices.\<close>

theorem typed_line_read:
  assumes "input_inv s" "cursor_ok s" "\<not> panicked s" "cpu_ok s" "lfree LPtable s" "lfree LCons s"
    "ready_chars s = []" "edit_line s = []" "list_all printable xs" "length xs < INPUT_BUF" "length xs < n"
  shows "wp (consoleintr (map uint xs @ [13]) s) (\<lambda>_ t. wp (consoleread_loop target n t)
    (\<lambda>r u. r = Some (xs @ [10]) \<and> ready_chars u = [] \<and> edit_line u = []))"
proof (rule wp_mono [OF consoleintr_edits [OF assms(1-6)]])
  show "\<forall>c \<in> set (map uint xs @ [13]). 0 \<le> c \<and> c < 256" using uint_lt2p [where 'a = 8] by auto
  fix x t
  assume t: "input_inv t \<and> cursor_ok t \<and> lfree LCons t \<and> cpu_ok t \<and>
    (ready_chars t, edit_line t) = fold edit (map uint xs @ [13]) (ready_chars s, edit_line s)"
  have "fold edit (map uint xs @ [13]) ([], []) = (xs @ [10], [])"
    using edit_printable [OF assms(9), of "[]"] assms(10) by (simp add: ctrl_def Let_def)
  then show "wp (consoleread_loop target n t) (\<lambda>r u. r = Some (xs @ [10]) \<and> ready_chars u = [] \<and> edit_line u = [])"
    using t assms by (intro line_is_read) simp_all
qed

theorem typed_line_read_witness:
  "wp (consoleintr [108, 115, 13] (demo_con ())) (\<lambda>_ t. wp (consoleread_loop 100 100 t)
    (\<lambda>r u. r = Some [108, 115, 10] \<and> ready_chars u = [] \<and> edit_line u = []))"
  using typed_line_read [of "demo_con ()" "[108, 115]" 100 100] by (simp add: demo_con_lock printable_def INPUT_BUF_def)

end
