(* ===== verification/Proc_Props.thy ===== *)
theory Proc_Props
  imports Demo_Files
begin

text \<open>Properties of processes: exit, wait and the scheduler.\<close>

section \<open>Exit\<close>

text \<open>The process table after the loop of \<open>exit\<close> over the first \<open>n\<close> entries, for the process \<open>c\<close> and the init
  process \<open>i\<close>: the children of \<open>c\<close> have a new parent, and a zombie among them wakes it.\<close>

definition adopted :: "nat \<Rightarrow> nat option \<Rightarrow> nat \<Rightarrow> (nat \<Rightarrow> proc) \<Rightarrow> nat \<Rightarrow> proc" where
  "adopted c i n ps p = (if p < n \<and> parent (ps p) = Some c then (ps p)\<lparr>parent := i\<rparr> else ps p)"

definition has_zombie :: "nat \<Rightarrow> nat \<Rightarrow> (nat \<Rightarrow> proc) \<Rightarrow> bool" where
  "has_zombie c n ps \<longleftrightarrow> (\<exists>z < n. parent (ps z) = Some c \<and> state (ps z) = ZOMBIE)"

definition orphaned :: "nat \<Rightarrow> nat option \<Rightarrow> nat \<Rightarrow> (nat \<Rightarrow> proc) \<Rightarrow> nat \<Rightarrow> proc" where
  "orphaned c i n ps =
     (if has_zombie c n ps then woken (map_option ChanProc i) (adopted c i n ps) else adopted c i n ps)"

lemma woken_fields [simp]:
  "parent (woken c ps p) = parent (ps p)" "chan (woken c ps p) = chan (ps p)" "pid (woken c ps p) = pid (ps p)"
  "state (woken c ps p) = (if p < NPROC \<and> state (ps p) = SLEEPING \<and> chan (ps p) = c then RUNNABLE else state (ps p))"
  by (simp_all add: woken_def)

lemma adopted_fields [simp]:
  "parent (adopted c i n ps p) = (if p < n \<and> parent (ps p) = Some c then i else parent (ps p))"
  "chan (adopted c i n ps p) = chan (ps p)" "state (adopted c i n ps p) = state (ps p)" "pid (adopted c i n ps p) = pid (ps p)"
  by (auto simp: adopted_def)

lemma adopted_Suc:
  "parent (ps n) = Some c \<Longrightarrow> (adopted c i n ps)(n := (ps n)\<lparr>parent := i\<rparr>) = adopted c i (Suc n) ps"
  "parent (ps n) \<noteq> Some c \<Longrightarrow> adopted c i (Suc n) ps = adopted c i n ps"
  by (auto simp: adopted_def fun_eq_iff less_Suc_eq)

lemma woken_adopted_Suc:
  "parent (ps n) = Some c \<Longrightarrow>
    (woken w (adopted c i n ps))(n := (woken w (adopted c i n ps) n)\<lparr>parent := i\<rparr>) = woken w (adopted c i (Suc n) ps)"
  by (rule ext) (simp add: woken_def adopted_def less_Suc_eq)

lemma woken_woken: "woken w (woken w ps) = woken w ps"
  by (rule ext) (simp add: woken_def)

lemma fold_abandon:
  "fold (abandon c) [0..<n] s = s\<lparr>procs := orphaned c (initproc s) n (procs s)\<rparr>"
proof (induction n)
  case 0
  then show ?case by (simp add: orphaned_def has_zombie_def adopted_def [abs_def])
next
  case (Suc n)
  let ?ps = "orphaned c (initproc s) n (procs s)"
  have "abandon c n (s\<lparr>procs := ?ps\<rparr>) = s\<lparr>procs := orphaned c (initproc s) (Suc n) (procs s)\<rparr>"
  proof (cases "parent (procs s n) = Some c")
    case False
    then have "has_zombie c (Suc n) (procs s) = has_zombie c n (procs s)" by (auto simp: has_zombie_def less_Suc_eq)
    then have "?ps = orphaned c (initproc s) (Suc n) (procs s)" "parent (?ps n) \<noteq> Some c"
      using False by (simp_all add: orphaned_def adopted_Suc)
    then show ?thesis by (simp add: abandon_def)
  next
    case True
    then have p: "parent (?ps n) = Some c" by (simp add: orphaned_def)
    have z: "has_zombie c (Suc n) (procs s) \<longleftrightarrow> has_zombie c n (procs s) \<or> state (procs s n) = ZOMBIE"
      using True by (auto simp: has_zombie_def less_Suc_eq)
    have st: "state (?ps n) = ZOMBIE \<longleftrightarrow> state (procs s n) = ZOMBIE" by (simp add: orphaned_def)
    show ?thesis
      using True p st
      by (simp add: abandon_def Let_def set_proc_def wakeup1_eq orphaned_def z woken_adopted_Suc adopted_Suc(1) woken_woken adopted_def)
  qed
  then show ?case using Suc by simp
qed


lemma sched_held:
  assumes "cpu_ok s" "ncli (cpus s (me s)) = 0" "cproc (cpus s (me s)) = Some p" "state (procs s p) \<noteq> RUNNING"
  shows "sched (held LPtable s) = Switch (held LPtable s)"
  using assms
  by (intro sched_switch [where p = p]) (simp_all add: lock_simps, simp_all add: held_def cli_state_def)

text \<open>The table when \<open>exit\<close> of process \<open>c\<close> leaves the CPU.\<close>

definition exited :: "nat \<Rightarrow> nat option \<Rightarrow> (nat \<Rightarrow> proc) \<Rightarrow> nat \<Rightarrow> proc" where
  "exited c i ps =
     (let ps = orphaned c i NPROC (woken (map_option ChanProc (parent (ps c))) ps) in
      ps(c := (ps c)\<lparr>state := ZOMBIE\<rparr>))"

lemma has_zombie_woken: "has_zombie c n (woken w ps) = has_zombie c n ps"
proof -
  have "state (woken w ps z) = ZOMBIE \<longleftrightarrow> state (ps z) = ZOMBIE" for z by simp
  then show ?thesis by (simp only: has_zombie_def woken_fields(1))
qed

lemma exited_fields:
  "parent (exited c i ps p) = (if p < NPROC \<and> parent (ps p) = Some c then i else parent (ps p))"
  "state (exited c i ps c) = ZOMBIE"
  "p \<noteq> c \<Longrightarrow> p < NPROC \<Longrightarrow> state (ps p) = SLEEPING \<Longrightarrow> chan (ps p) = map_option ChanProc (parent (ps c)) \<Longrightarrow>
     state (exited c i ps p) = RUNNABLE"
  "p \<noteq> c \<Longrightarrow> p < NPROC \<Longrightarrow> state (ps p) = SLEEPING \<Longrightarrow> chan (ps p) = map_option ChanProc i \<Longrightarrow> has_zombie c NPROC ps \<Longrightarrow>
     state (exited c i ps p) = RUNNABLE"
  by (simp_all add: exited_def Let_def orphaned_def has_zombie_woken)

lemma exit_final_switch:
  assumes "cpu_ok s" "ncli (cpus s (me s)) = 0" "cproc (cpus s (me s)) = Some c"
  shows "exit_final c (held LPtable s) = Switch (held LPtable (s\<lparr>procs := exited c (initproc s) (procs s)\<rparr>))"
proof -
  let ?s = "s\<lparr>procs := exited c (initproc s) (procs s)\<rparr>"
  have "sched (held LPtable ?s) = Switch (held LPtable ?s)"
    using assms by (intro sched_held [where p = c]) (simp_all add: lock_simps, simp add: exited_def Let_def)
  then show ?thesis
    by (simp add: exit_final_def Let_def wakeup1_eq fold_abandon lock_simps set_proc_def exited_def)
qed

lemma find_least: "(\<exists>p < n. P p) \<Longrightarrow> \<exists>p. find P [0..<n] = Some p \<and> p < n \<and> P p \<and> (\<forall>j < p. \<not> P j)"
proof -
  assume "\<exists>p < n. P p"
  then have "find P [0..<n] \<noteq> None" by (auto simp: find_None_iff)
  then obtain p where p: "find P [0..<n] = Some p" by blast
  then obtain i where "i < length [0..<n]" "P ([0..<n] ! i)" "p = [0..<n] ! i" "\<forall>j < i. \<not> P ([0..<n] ! j)"
    by (auto simp: find_Some_iff)
  then show ?thesis using p by auto
qed

lemma wait_loop_zombie:
  assumes "\<exists>p < NPROC. parent (procs u p) = Some q \<and> state (procs u p) = ZOMBIE"
  shows "\<exists>p < NPROC. (parent (procs u p) = Some q \<and> state (procs u p) = ZOMBIE) \<and>
    (\<forall>j < p. \<not> (parent (procs u j) = Some q \<and> state (procs u j) = ZOMBIE)) \<and> wait_loop q u = reap p u"
proof -
  obtain p where "find (\<lambda>p. parent (procs u p) = Some q \<and> state (procs u p) = ZOMBIE) [0..<NPROC] = Some p"
    "p < NPROC" "parent (procs u p) = Some q \<and> state (procs u p) = ZOMBIE"
    "\<forall>j < p. \<not> (parent (procs u j) = Some q \<and> state (procs u j) = ZOMBIE)"
    using find_least [OF assms] by blast
  then show ?thesis by (intro exI [of _ p]) (simp add: wait_loop_def)
qed

text \<open>C5: The exit of a child is never lost to its parent. When process \<open>c\<close>, child of \<open>q\<close>, leaves its CPU for
  the last time it does not come back; it is a zombie whose parent is still \<open>q\<close>; a parent that sleeps in \<open>wait\<close> has
  become runnable; all children of \<open>c\<close> belong to the init process, which has been woken if one of them was a zombie
  already; and whenever the parent scans the table afterwards it finds a zombie child to reap.\<close>

theorem exit_wakes_wait:
  assumes "cpu_ok s" "ncli (cpus s (me s)) = 0" "cproc (cpus s (me s)) = Some c" "c < NPROC"
    "parent (procs s c) = Some q" "q \<noteq> c" "q < NPROC" "initproc s = Some i" "i \<noteq> c" "i < NPROC"
  shows "\<exists>t. exit_final c (held LPtable s) = Switch t \<and> state (procs t c) = ZOMBIE \<and> parent (procs t c) = Some q \<and>
    (state (procs s q) = SLEEPING \<and> chan (procs s q) = Some (ChanProc q) \<longrightarrow> state (procs t q) = RUNNABLE) \<and>
    (\<forall>p < NPROC. parent (procs t p) = (if parent (procs s p) = Some c then Some i else parent (procs s p))) \<and>
    ((\<exists>z < NPROC. parent (procs s z) = Some c \<and> state (procs s z) = ZOMBIE) \<and>
       state (procs s i) = SLEEPING \<and> chan (procs s i) = Some (ChanProc i) \<longrightarrow> state (procs t i) = RUNNABLE) \<and>
    (\<forall>u :: 'z kmemsys_scheme. procs u = procs t \<longrightarrow>
       (\<exists>p < NPROC. parent (procs u p) = Some q \<and> state (procs u p) = ZOMBIE \<and> wait_loop q u = reap p u))"
proof -
  let ?t = "held LPtable (s\<lparr>procs := exited c (initproc s) (procs s)\<rparr>)"
  have t: "procs ?t = exited c (Some i) (procs s)" using assms(8) by (simp add: lock_simps)
  have c: "state (procs ?t c) = ZOMBIE" "parent (procs ?t c) = Some q"
    unfolding t using assms(5,6) by (simp_all add: exited_fields)
  have "state (procs ?t q) = RUNNABLE" if "state (procs s q) = SLEEPING" "chan (procs s q) = Some (ChanProc q)"
    unfolding t using assms that by (intro exited_fields(3)) simp_all
  moreover have "state (procs ?t i) = RUNNABLE"
    if "\<exists>z < NPROC. parent (procs s z) = Some c \<and> state (procs s z) = ZOMBIE" "state (procs s i) = SLEEPING"
      "chan (procs s i) = Some (ChanProc i)"
    unfolding t using assms that by (intro exited_fields(4)) (simp_all add: has_zombie_def)
  moreover have "parent (procs ?t p) = (if parent (procs s p) = Some c then Some i else parent (procs s p))" if "p < NPROC" for p
    unfolding t using that by (simp add: exited_fields)
  moreover have "\<exists>p < NPROC. parent (procs u p) = Some q \<and> state (procs u p) = ZOMBIE \<and> wait_loop q u = reap p u"
    if "procs u = procs ?t" for u :: "'z kmemsys_scheme"
  proof -
    have "\<exists>p < NPROC. parent (procs u p) = Some q \<and> state (procs u p) = ZOMBIE"
      using c assms(4) that by (intro exI [of _ c]) simp
    from wait_loop_zombie [OF this] show ?thesis by blast
  qed
  ultimately show ?thesis using exit_final_switch [OF assms(1-3)] c by blast
qed

text \<open>\<open>wait\<close> on each of its branches. With a zombie child it reaps the first one in the table; without children, or
  when the process has been killed, it returns -1 and leaves the machine as it was; otherwise it leaves its CPU asleep
  on its own channel with the process table still locked, so that no child can exit unnoticed in between.\<close>

theorem wait_branches:
  fixes s :: "'z kmemsys_scheme"
  assumes "cpu_ok s" "lfree LPtable s" "ncli (cpus s (me s)) = 0" "cproc (cpus s (me s)) = Some c"
  shows "if \<exists>p < NPROC. parent (procs s p) = Some c \<and> state (procs s p) = ZOMBIE
    then \<exists>p < NPROC. parent (procs s p) = Some c \<and> state (procs s p) = ZOMBIE \<and>
      (\<forall>j < p. \<not> (parent (procs s j) = Some c \<and> state (procs s j) = ZOMBIE)) \<and> wait s = reap p (held LPtable s)
    else if (\<forall>p < NPROC. parent (procs s p) \<noteq> Some c) \<or> killed (procs s c) then wait s = Ret (-1) s
    else wait s = Switch (held LPtable (set_proc c (\<lambda>q. q\<lparr>chan := Some (ChanProc c), state := SLEEPING\<rparr>) s))"
proof -
  let ?z = "\<lambda>p. parent (procs s p) = Some c \<and> state (procs s p) = ZOMBIE"
  let ?t = "set_proc c (\<lambda>q. q\<lparr>chan := Some (ChanProc c), state := SLEEPING\<rparr>) s"
  have w: "wait s = wait_loop c (held LPtable s)"
    using assms by (simp add: wait_def curproc_of_def run_simps)
  have "sched (held LPtable ?t) = Switch (held LPtable ?t)"
    using assms by (intro sched_held [where p = c]) (simp_all add: lock_simps frame_simps)
  then have sl: "away (sleep (Some (ChanProc c)) (Some LPtable) (held LPtable s)) = (Switch (held LPtable ?t) :: (int, 'z kmemsys_scheme) outcome)"
    using assms by (simp add: sleep_def myproc_ok lock_simps away_def)
  show ?thesis
  proof (cases "\<exists>p < NPROC. ?z p")
    case True
    then show ?thesis unfolding w if_P [OF True] using wait_loop_zombie [of "held LPtable s" c] by (simp add: lock_simps)
  next
    case False
    then have "find ?z [0..<NPROC] = None" by (auto simp: find_None_iff)
    then have "wait_loop c (held LPtable s) =
      (if (\<forall>p < NPROC. parent (procs s p) \<noteq> Some c) \<or> killed (procs s c) then Ret (-1) s else Switch (held LPtable ?t))"
      using sl assms by (simp add: wait_loop_def lock_simps run_simps atLeast0LessThan Ball_def)
    then show ?thesis unfolding w if_not_P [OF False] by simp
  qed
qed

section \<open>The scheduler\<close>

definition on_cpu :: "nat option \<Rightarrow> 'z kern_scheme \<Rightarrow> 'z kern_scheme" where
  "on_cpu p s = s\<lparr>cpus := (cpus s)(me s := (cpus s (me s))\<lparr>cproc := p\<rparr>)\<rparr>"

lemma me_opt_on_cpu: "me_opt (on_cpu p s) = me_opt s"
  by (auto simp: on_cpu_def me_opt_def intro!: arg_cong2 [where f = find])

lemma me_on_cpu [lock_simps]: "me (on_cpu p s) = me s"
  by (simp add: me_def me_opt_on_cpu)

lemma on_cpu_frame [lock_simps]:
  "procs (on_cpu p s) = procs s" "locks (on_cpu p s) = locks s" "cproc (cpus (on_cpu p s) (me s)) = p"
  "cr3 (on_cpu p t) = cr3 t" "esp0 (on_cpu p t) = esp0 t"
  by (simp_all add: on_cpu_def)

lemma cpu_ok_on_cpu [lock_simps]: "cpu_ok (on_cpu p s) = cpu_ok s"
  by (simp add: cpu_ok_def me_opt_on_cpu me_on_cpu) (simp add: on_cpu_def)

lemma set_cproc_ok: "\<not> iflag s \<Longrightarrow> cpu_ok s \<Longrightarrow> set_cproc p s = Ret () (on_cpu p s)"
  by (simp add: set_cproc_def mycpu_me cpu_ok_def on_cpu_def)

lemma switchuvm_ok:
  assumes "cpu_ok s" "kstack (procs s p) \<noteq> 0" "pgdir (procs s p) \<noteq> 0"
  shows "switchuvm (Some p) s = Ret () (s\<lparr>esp0 := kstack (procs s p) + KSTACKSIZE, cr3 := V2P (pgdir (procs s p))\<rparr>)"
proof -
  let ?t = "s\<lparr>esp0 := kstack (procs s p) + KSTACKSIZE, cr3 := V2P (pgdir (procs s p))\<rparr>"
  have "procs (cli_state s) = procs s" by (simp add: cli_state_def)
  moreover have "(cli_state s)\<lparr>esp0 := kstack (procs s p) + KSTACKSIZE, cr3 := V2P (pgdir (procs s p))\<rparr> = cli_state ?t"
    by (simp add: cli_state_def me_def me_opt_def)
  moreover have "cpu_ok ?t" using assms(1) by (simp add: cpu_ok_def me_def me_opt_def)
  ultimately show ?thesis
    using assms by (simp add: switchuvm_def pushcli_ok mycpu_cli popcli_ok Let_def)
qed

text \<open>The scheduler switches to process \<open>q\<close>: it is running on this CPU with its own page table and kernel stack, no
  other process has changed, and the table is still locked, for the process to release.\<close>

definition dispatched :: "nat \<Rightarrow> 'z kmemsys_scheme \<Rightarrow> (unit, 'z kmemsys_scheme) outcome \<Rightarrow> bool" where
  "dispatched q s r \<longleftrightarrow> (\<exists>t. r = Switch t \<and> cproc (cpus t (me t)) = Some q \<and> procs t = (procs s)(q := (procs s q)\<lparr>state := RUNNING\<rparr>) \<and>
     cr3 t = V2P (pgdir (procs s q)) \<and> esp0 t = kstack (procs s q) + KSTACKSIZE \<and>
     locked (locks t LPtable) = 1 \<and> lkcpu (locks t LPtable) = Some (me t))"

lemma scan_first:
  assumes "cpu_ok s" "find (\<lambda>p. state (procs s p) = RUNNABLE) ps = Some p" "kstack (procs s p) \<noteq> 0" "pgdir (procs s p) \<noteq> 0"
  shows "dispatched p s (scheduler_scan ps (held LPtable s))"
  using assms(2)
proof (induction ps)
  case (Cons q ps)
  show ?case
  proof (cases "state (procs s q) = RUNNABLE")
    case False
    then show ?thesis using Cons by (simp add: lock_simps)
  next
    case True
    then have q: "q = p" using Cons.prems by simp
    let ?u = "on_cpu (Some p) (held LPtable s)"
    have "set_cproc (Some p) (held LPtable s) = Ret () ?u" using assms(1) by (simp add: set_cproc_ok)
    moreover have "switchuvm (Some p) ?u = Ret () (?u\<lparr>esp0 := kstack (procs s p) + KSTACKSIZE, cr3 := V2P (pgdir (procs s p))\<rparr>)"
      using assms by (subst switchuvm_ok) (simp_all add: lock_simps)
    ultimately have "scheduler_scan (q # ps) (held LPtable s) = Switch (set_proc p (\<lambda>q. q\<lparr>state := RUNNING\<rparr>)
      (?u\<lparr>esp0 := kstack (procs s p) + KSTACKSIZE, cr3 := V2P (pgdir (procs s p))\<rparr>))"
      using True by (simp add: q lock_simps)
    moreover have "cproc (cpus ?u (me s)) = Some p" "locked (locks ?u LPtable) = 1" "lkcpu (locks ?u LPtable) = Some (me s)"
      "procs ?u = procs s" by (simp_all add: on_cpu_def) (simp_all add: held_def cli_state_def)
    moreover have "me (set_proc p f (?u\<lparr>esp0 := a, cr3 := b\<rparr>)) = me s" for f a b
      by (simp add: me_def me_opt_def set_proc_def) (simp add: me_opt_def [symmetric] me_opt_on_cpu)
    ultimately show ?thesis by (simp add: dispatched_def) (simp add: set_proc_def)
  qed
qed simp

lemma scan_none:
  "cpu_ok s \<Longrightarrow> lfree LPtable s \<Longrightarrow> (\<And>p. p \<in> set ps \<Longrightarrow> state (procs s p) \<noteq> RUNNABLE) \<Longrightarrow> scheduler_scan ps (held LPtable s) = Ret () s"
  by (induction ps) (simp_all add: run_simps lock_simps)

lemma scan_none_or_first:
  assumes "cpu_ok s" "lfree LPtable s" "\<forall>p < NPROC. state (procs s p) = RUNNABLE \<longrightarrow> kstack (procs s p) \<noteq> 0 \<and> pgdir (procs s p) \<noteq> 0"
  shows "(scheduler_scan [k..<NPROC] (held LPtable s) = Ret () s \<and> (\<forall>j. k \<le> j \<and> j < NPROC \<longrightarrow> state (procs s j) \<noteq> RUNNABLE)) \<or>
    (\<exists>p. dispatched p s (scheduler_scan [k..<NPROC] (held LPtable s)) \<and> k \<le> p \<and> p < NPROC \<and>
      state (procs s p) = RUNNABLE \<and> (\<forall>j. k \<le> j \<and> j < p \<longrightarrow> state (procs s j) \<noteq> RUNNABLE))"
proof (cases "find (\<lambda>p. state (procs s p) = RUNNABLE) [k..<NPROC]")
  case None
  then have "\<forall>j. k \<le> j \<and> j < NPROC \<longrightarrow> state (procs s j) \<noteq> RUNNABLE" by (auto simp: find_None_iff)
  moreover from this have "scheduler_scan [k..<NPROC] (held LPtable s) = Ret () s" by (intro scan_none assms(1,2)) auto
  ultimately show ?thesis by blast
next
  case (Some p)
  let ?P = "\<lambda>p. state (procs s p) = RUNNABLE"
  from Some obtain i where i: "i < NPROC - k" "?P (k + i)" "p = k + i" "\<forall>j < i. \<not> ?P (k + j)"
    by (auto simp: find_Some_iff)
  have "\<not> ?P j" if "k \<le> j" "j < p" for j
    using i(4) that unfolding i(3) by (metis add_diff_inverse_nat less_diff_conv2 not_less add.commute)
  moreover have "p < NPROC" using i(1,3) by simp
  moreover from this have "dispatched p s (scheduler_scan [k..<NPROC] (held LPtable s))"
    using scan_first [OF assms(1) Some] assms(3) i(2,3) by simp
  ultimately show ?thesis using i by auto
qed

text \<open>The endless loop of one CPU, cut at the context switches. A decision starts at the top of the loop (\<open>None\<close>) or
  after process \<open>p\<close> has switched back (\<open>Some p\<close>, the loop variable on the stack of the scheduler). \<open>sched_entry\<close>
  is what holds there: at the top the table is unlocked; a process comes back with the table locked by this CPU and
  no other lock held; runnable processes have a kernel stack and a page table.\<close>

fun decide :: "nat option \<Rightarrow> 'z kmemsys_scheme \<Rightarrow> (unit, 'z kmemsys_scheme) outcome" where
  "decide None s = scheduler_turn s"
| "decide (Some p) s = scheduler_resume p s"

definition runnable_ok :: "'z kern_scheme \<Rightarrow> bool" where
  "runnable_ok s \<longleftrightarrow> (\<forall>p < NPROC. state (procs s p) = RUNNABLE \<longrightarrow> kstack (procs s p) \<noteq> 0 \<and> pgdir (procs s p) \<noteq> 0)"

fun sched_entry :: "nat option \<Rightarrow> 'z kmemsys_scheme \<Rightarrow> bool" where
  "sched_entry None s \<longleftrightarrow> cpu_ok (s\<lparr>iflag := True\<rparr>) \<and> lfree LPtable s \<and> runnable_ok s"
| "sched_entry (Some p) s \<longleftrightarrow> p < NPROC \<and> runnable_ok s \<and> (\<exists>u. s = held LPtable u \<and> cpu_ok u \<and> lfree LPtable u)"

text \<open>Where the next decision starts: after a switch, behind the process that was switched to.\<close>

fun next_pos :: "(unit, 'z kern_scheme) outcome \<Rightarrow> nat option" where
  "next_pos (Switch t) = cproc (cpus t (me t))"
| "next_pos _ = None"

definition scan_start :: "nat option \<Rightarrow> nat" where
  "scan_start pos = (case pos of None \<Rightarrow> 0 | Some p \<Rightarrow> Suc p)"

lemma on_cpu_held: "on_cpu p (held l s) = held l (on_cpu p s)"
  unfolding on_cpu_def [of p "held l s"] me_held held_def [of l "on_cpu p s"] cli_state_def [of "on_cpu p s"] me_on_cpu
  by (rule kern.equality) (auto simp: held_def cli_state_def on_cpu_def intro: cpu.equality)

lemma decide_scan:
  assumes "sched_entry pos s"
  shows "\<exists>u. decide pos s = scheduler_scan [scan_start pos..<NPROC] (held LPtable u) \<and> cpu_ok u \<and> lfree LPtable u \<and>
    runnable_ok u \<and> procs u = procs s"
proof (cases pos)
  case None
  then have "decide pos s = scheduler_scan [0..<NPROC] (held LPtable (s\<lparr>iflag := True\<rparr>))"
    using assms by (simp add: scheduler_turn_def run_simps lfree_def)
  then show ?thesis using assms None
    by (intro exI [of _ "s\<lparr>iflag := True\<rparr>"]) (simp add: scan_start_def lfree_def runnable_ok_def)
next
  case (Some p)
  then obtain u where u: "s = held LPtable u" "cpu_ok u" "lfree LPtable u" using assms by auto
  let ?u = "switchkvm u"
  have k: "switchkvm (held LPtable u) = held LPtable ?u" "cpu_ok ?u" "lfree LPtable ?u" "procs ?u = procs u"
    using u by (simp_all add: switchkvm_def cpu_ok_def lfree_def me_def me_opt_def held_def cli_state_def)
  have "set_cproc None (held LPtable ?u) = Ret () (held LPtable (on_cpu None ?u))"
    using k by (simp add: set_cproc_ok on_cpu_held)
  then have "decide pos s = scheduler_scan [Suc p..<NPROC] (held LPtable (on_cpu None ?u))"
    using u k Some by (simp add: scheduler_resume_def)
  then show ?thesis using assms u k Some
    by (intro exI [of _ "on_cpu None ?u"]) (simp add: scan_start_def lock_simps runnable_ok_def, simp add: lfree_def lock_simps)
qed

text \<open>The number of decisions after which \<open>q\<close> is reached at the latest.\<close>

definition rank :: "nat \<Rightarrow> nat option \<Rightarrow> nat" where
  "rank q pos = (case pos of None \<Rightarrow> q | Some p \<Rightarrow> if p < q then q - p - 1 else NPROC - p + q)"

lemma decide_cases:
  assumes "sched_entry pos s"
  shows "((\<exists>t. decide pos s = Ret () t \<and> lfree LPtable t \<and> procs t = procs s) \<and>
      (\<forall>j. scan_start pos \<le> j \<and> j < NPROC \<longrightarrow> state (procs s j) \<noteq> RUNNABLE)) \<or>
    (\<exists>p. dispatched p s (decide pos s) \<and> scan_start pos \<le> p \<and> p < NPROC \<and> state (procs s p) = RUNNABLE \<and>
      (\<forall>j. scan_start pos \<le> j \<and> j < p \<longrightarrow> state (procs s j) \<noteq> RUNNABLE))"
proof -
  obtain u where u: "decide pos s = scheduler_scan [scan_start pos..<NPROC] (held LPtable u)" "cpu_ok u" "lfree LPtable u"
    "runnable_ok u" "procs u = procs s"
    using decide_scan [OF assms] by blast
  have "dispatched p u r = dispatched p s r" for p r using u(5) by (simp add: dispatched_def)
  then show ?thesis
    using scan_none_or_first [OF u(2,3) u(4) [unfolded runnable_ok_def], of "scan_start pos"] u by auto
qed

lemma next_pos_dispatched: "dispatched p s r \<Longrightarrow> next_pos r = Some p"
  by (auto simp: dispatched_def)

lemma rank_decreases:
  assumes "sched_entry pos s" "q < NPROC" "state (procs s q) = RUNNABLE" "\<not> dispatched q s (decide pos s)"
  shows "rank q (next_pos (decide pos s)) < rank q pos"
  using decide_cases [OF assms(1)]
proof (elim disjE exE conjE)
  fix t
  assume "decide pos s = Ret () t" "\<forall>j. scan_start pos \<le> j \<and> j < NPROC \<longrightarrow> state (procs s j) \<noteq> RUNNABLE"
  then show ?thesis using assms(1-3) by (cases pos) (auto simp: rank_def scan_start_def not_le)
next
  fix p
  assume p: "dispatched p s (decide pos s)" "scan_start pos \<le> p" "p < NPROC" "state (procs s p) = RUNNABLE"
    "\<forall>j. scan_start pos \<le> j \<and> j < p \<longrightarrow> state (procs s j) \<noteq> RUNNABLE"
  have "p \<noteq> q" using p(1) assms(4) by blast
  moreover have "p \<le> q \<or> q < scan_start pos" using p(5) assms(3) by (meson not_le)
  ultimately have "rank q (Some p) < rank q pos"
    using p(2,3) assms(2) by (cases pos) (auto simp: rank_def scan_start_def)
  then show ?thesis using next_pos_dispatched [OF p(1)] by simp
qed

text \<open>C6: The scheduler finds work and starves nobody. In every run of the endless loop of a CPU, cut at its context
  switches, with the other CPUs and the processes free to change the process table between two decisions: each
  decision either switches to a runnable process, or ends a pass in which nothing is runnable with the table
  unlocked; it never panics. And every process is switched to within \<open>NPROC + 1\<close> decisions, unless it stops being
  runnable in the meantime (for instance because another CPU runs it).\<close>

theorem scheduler_fair:
  assumes "\<forall>n. sched_entry (\<pi> n) (\<sigma> n) \<and> \<pi> (Suc n) = next_pos (decide (\<pi> n) (\<sigma> n))"
  shows "(\<forall>n. (\<exists>p < NPROC. state (procs (\<sigma> n) p) = RUNNABLE \<and> dispatched p (\<sigma> n) (decide (\<pi> n) (\<sigma> n))) \<or>
      (\<exists>t. decide (\<pi> n) (\<sigma> n) = Ret () t \<and> lfree LPtable t \<and> procs t = procs (\<sigma> n))) \<and>
    (\<forall>q < NPROC. \<exists>n \<le> NPROC. dispatched q (\<sigma> n) (decide (\<pi> n) (\<sigma> n)) \<or> state (procs (\<sigma> n) q) \<noteq> RUNNABLE)"
proof (intro conjI allI impI)
  fix n
  show "(\<exists>p < NPROC. state (procs (\<sigma> n) p) = RUNNABLE \<and> dispatched p (\<sigma> n) (decide (\<pi> n) (\<sigma> n))) \<or>
      (\<exists>t. decide (\<pi> n) (\<sigma> n) = Ret () t \<and> lfree LPtable t \<and> procs t = procs (\<sigma> n))"
    using decide_cases [of "\<pi> n" "\<sigma> n"] assms by blast
next
  fix q assume q: "q < NPROC"
  show "\<exists>n \<le> NPROC. dispatched q (\<sigma> n) (decide (\<pi> n) (\<sigma> n)) \<or> state (procs (\<sigma> n) q) \<noteq> RUNNABLE"
  proof (rule ccontr)
    assume "\<not> ?thesis"
    then have step: "rank q (\<pi> (Suc n)) < rank q (\<pi> n)" if "n \<le> NPROC" for n
      using rank_decreases [of "\<pi> n" "\<sigma> n" q] assms q that by auto
    have "n \<le> Suc NPROC \<Longrightarrow> rank q (\<pi> n) + n \<le> rank q (\<pi> 0)" for n
    proof (induction n)
      case (Suc n)
      then show ?case using step [of n] by simp
    qed simp
    from this [of "Suc NPROC"] have "Suc NPROC \<le> rank q (\<pi> 0)" by simp
    moreover have "rank q (\<pi> 0) \<le> NPROC" using q by (auto simp: rank_def split: option.splits)
    ultimately show False by simp
  qed
qed

section \<open>Examples\<close>

text \<open>Process 0 (init) and process 1 wait for their children, process 2 is running and process 3 is a zombie.\<close>

definition demo_tree :: "nat \<Rightarrow> proc" where
  "demo_tree p = (demo_proc p)\<lparr>
     state := (if p = 2 then RUNNING else if p = 3 then ZOMBIE else if p < 2 then SLEEPING else UNUSED),
     parent := (if 0 < p \<and> p < 4 then Some (p - 1) else None),
     chan := (if p < 2 then Some (ChanProc p) else None), kstack := 0x80401000, pgdir := 0x80402000\<rparr>"

definition demo_family :: "(nat \<Rightarrow> proc) \<Rightarrow> filesys" where
  "demo_family ps = on_cpu (Some 2) (demo_files (demo_pipe 0 0) ())\<lparr>procs := ps\<rparr>"

lemma demo_family_facts:
  "cpu_ok (demo_family ps)" "lfree l (demo_family ps)" "me (demo_family ps) = 0"
  "ncli (cpus (demo_family ps) 0) = 0" "cproc (cpus (demo_family ps) 0) = Some 2" "procs (demo_family ps) = ps"
  "initproc (demo_family ps) = Some 0"
  by (simp_all add: demo_family_def lock_simps kreadyD)
     (simp_all add: on_cpu_def demo_files_defs lfree_def me_def me_opt_def)

theorem exit_wakes_wait_witness:
  "\<exists>t. exit_final 2 (held LPtable (demo_family demo_tree)) = Switch t \<and> state (procs t 2) = ZOMBIE \<and>
    state (procs t 1) = RUNNABLE \<and> state (procs t 0) = RUNNABLE \<and> parent (procs t 3) = Some 0"
proof -
  let ?s = "demo_family demo_tree"
  have "\<exists>z < NPROC. parent (procs ?s z) = Some 2 \<and> state (procs ?s z) = ZOMBIE"
    by (intro exI [of _ 3]) (simp add: demo_family_facts demo_tree_def NPROC_def)
  moreover have "parent (demo_tree 2) = Some 1" "parent (demo_tree 3) = Some 2" "state (demo_tree 1) = SLEEPING"
    "state (demo_tree 0) = SLEEPING" "chan (demo_tree 1) = Some (ChanProc 1)" "chan (demo_tree 0) = Some (ChanProc 0)"
    by (simp_all add: demo_tree_def)
  moreover have n: "(3 :: nat) < NPROC" "(2 :: nat) < NPROC" "(1 :: nat) < NPROC" "(0 :: nat) < NPROC" by (simp_all add: NPROC_def)
  moreover obtain t where "exit_final 2 (held LPtable ?s) = Switch t \<and> state (procs t 2) = ZOMBIE \<and> parent (procs t 2) = Some 1 \<and>
    (state (procs ?s 1) = SLEEPING \<and> chan (procs ?s 1) = Some (ChanProc 1) \<longrightarrow> state (procs t 1) = RUNNABLE) \<and>
    (\<forall>p < NPROC. parent (procs t p) = (if parent (procs ?s p) = Some 2 then Some 0 else parent (procs ?s p))) \<and>
    ((\<exists>z < NPROC. parent (procs ?s z) = Some 2 \<and> state (procs ?s z) = ZOMBIE) \<and>
       state (procs ?s 0) = SLEEPING \<and> chan (procs ?s 0) = Some (ChanProc 0) \<longrightarrow> state (procs t 0) = RUNNABLE)"
    using exit_wakes_wait [of ?s 2 1 0] n calculation(2) by (auto simp: demo_family_facts)
  ultimately show ?thesis unfolding demo_family_facts by (intro exI [of _ t]) simp
qed

theorem wait_branches_witness:
  "\<exists>p. wait (demo_family demo_tree) = reap p (held LPtable (demo_family demo_tree)) \<and> state (demo_tree p) = ZOMBIE"
proof -
  have "\<exists>z < NPROC. parent (procs (demo_family demo_tree) z) = Some 2 \<and> state (procs (demo_family demo_tree) z) = ZOMBIE"
    by (intro exI [of _ 3]) (simp add: demo_family_facts demo_tree_def NPROC_def)
  then obtain p where "p < NPROC \<and> parent (procs (demo_family demo_tree) p) = Some 2 \<and>
    state (procs (demo_family demo_tree) p) = ZOMBIE \<and> wait (demo_family demo_tree) = reap p (held LPtable (demo_family demo_tree))"
    using wait_branches [of "demo_family demo_tree" 2] by (auto simp: demo_family_facts)
  then show ?thesis by (intro exI [of _ p]) (simp add: demo_family_facts)
qed

text \<open>A CPU with process 5 as the only runnable one, which yields every time: passes of two decisions.\<close>

definition demo_turns :: "nat \<Rightarrow> filesys" where
  "demo_turns n = (let s = demo_family (demo_tree(5 := (demo_tree 5)\<lparr>state := RUNNABLE\<rparr>)) in
     if even n then s else held LPtable s)"

definition demo_pos :: "nat \<Rightarrow> nat option" where
  "demo_pos n = (if even n then None else Some 5)"

lemma demo_turns_facts:
  "sched_entry (demo_pos n) (demo_turns n) \<and> demo_pos (Suc n) = next_pos (decide (demo_pos n) (demo_turns n))"
proof -
  let ?ps = "demo_tree(5 := (demo_tree 5)\<lparr>state := RUNNABLE\<rparr>)"
  let ?s = "demo_family ?ps"
  have r: "state (?ps p) = RUNNABLE \<longleftrightarrow> p = 5" for p by (auto simp: demo_tree_def)
  have ok: "runnable_ok ?s" "procs (demo_turns n) = ?ps"
    by (simp add: runnable_ok_def demo_family_facts demo_tree_def)
      (simp add: demo_family_facts demo_turns_def lock_simps Let_def)
  have "iflag ?s" by (simp add: demo_family_def on_cpu_def demo_files_defs)
  then have "?s\<lparr>iflag := True\<rparr> = ?s" by simp
  then have entry: "sched_entry (demo_pos n) (demo_turns n)"
    using ok(1) demo_family_facts(1) [of ?ps] demo_family_facts(2) [of LPtable ?ps] by (auto simp: demo_pos_def demo_turns_def Let_def NPROC_def runnable_ok_def lock_simps)
  from decide_cases [OF entry] show ?thesis
  proof (elim disjE exE conjE)
    fix t assume t: "decide (demo_pos n) (demo_turns n) = Ret () t"
      "\<forall>j. scan_start (demo_pos n) \<le> j \<and> j < NPROC \<longrightarrow> state (procs (demo_turns n) j) \<noteq> RUNNABLE"
    then have "odd n" using t(2) [THEN spec, of 5] unfolding ok(2) by (auto simp: scan_start_def demo_pos_def NPROC_def)
    then show ?thesis using entry t(1) by (simp add: demo_pos_def)
  next
    fix p assume p: "dispatched p (demo_turns n) (decide (demo_pos n) (demo_turns n))" "scan_start (demo_pos n) \<le> p"
      "state (procs (demo_turns n) p) = RUNNABLE"
    then have "p = 5" using r unfolding ok(2) by blast
    moreover from this have "even n" using p(2) by (auto simp: scan_start_def demo_pos_def split: if_splits)
    ultimately show ?thesis using entry next_pos_dispatched [OF p(1)] by (simp add: demo_pos_def)
  qed
qed

theorem scheduler_fair_witness:
  "\<exists>n \<le> NPROC. dispatched 5 (demo_turns n) (decide (demo_pos n) (demo_turns n))"
proof -
  have "state (procs (demo_turns n) 5) = RUNNABLE" for n
    by (simp add: demo_turns_def Let_def lock_simps demo_family_facts)
  moreover have "(5 :: nat) < NPROC" by (simp add: NPROC_def)
  moreover have "\<forall>n. sched_entry (demo_pos n) (demo_turns n) \<and> demo_pos (Suc n) = next_pos (decide (demo_pos n) (demo_turns n))"
    using demo_turns_facts by blast
  ultimately show ?thesis using scheduler_fair [of demo_pos demo_turns] by blast
qed

end
