(* ===== verification/File_Props.thy ===== *)
theory File_Props
  imports Demo_Files
begin

text \<open>Reference counts of open files.\<close>

lemma set_file_lock [lock_simps]:
  "set_file f g (held l s) = held l (set_file f g s)" "cpu_ok (set_file f g s) = cpu_ok s"
  "lfree l (set_file f g s) = lfree l s" "ftable (held l s) = ftable s"
  "ftable (set_file f g s) = (ftable s)(f := g (ftable s f))" "procs (set_file f g s) = procs s"
  "pipes (set_file f g s) = pipes s" "icache (set_file f g s) = icache s"
  by (simp_all add: set_file_def held_def cli_state_def me_def me_opt_def cpu_ok_def lfree_def)

lemma set_file_same: "g (ftable s f) = ftable s f \<Longrightarrow> set_file f g s = s"
  by (simp add: set_file_def)

lemma set_file_twice: "set_file f g (set_file f h s) = set_file f (\<lambda>x. g (h x)) s"
  by (simp add: set_file_def)

lemma find_first_free:
  "case find P [0..<n] of None \<Rightarrow> \<forall>f < n. \<not> P f | Some f \<Rightarrow> f < n \<and> P f \<and> (\<forall>j < f. \<not> P j)"
  by (auto simp: find_None_iff find_Some_iff split: option.splits)

text \<open>The table of open files counts references. \<open>filealloc\<close> returns an unused entry, the first one, now with one
  reference, and changes no other entry; it returns null exactly when all are in use. For an entry with references,
  \<open>filedup\<close> adds one and a \<open>fileclose\<close> after it gives back the very state of before, closing nothing; on an entry
  without references both panic. All of them leave the lock free.\<close>

theorem file_references:
  assumes "cpu_ok s" "lfree LFtable s"
  shows "(\<exists>r t. filealloc s = Ret r t \<and> lfree LFtable t \<and>
      (case r of None \<Rightarrow> t = s \<and> (\<forall>f < NFILE. f_ref (ftable s f) \<noteq> 0)
       | Some f \<Rightarrow> f < NFILE \<and> f_ref (ftable s f) = 0 \<and> (\<forall>j < f. f_ref (ftable s j) \<noteq> 0) \<and>
           f_ref (ftable t f) = 1 \<and> (\<forall>j. j \<noteq> f \<longrightarrow> ftable t j = ftable s j))) \<and>
    (\<forall>f. if 1 \<le> f_ref (ftable s f)
      then \<exists>t. filedup f s = Ret f t \<and> f_ref (ftable t f) = f_ref (ftable s f) + 1 \<and> fileclose f t = Ret () s
      else filedup f s = Panic ''filedup'' \<and> fileclose f s = Panic ''fileclose'')"
proof (intro conjI allI)
  let ?P = "\<lambda>f. f_ref (ftable s f) = 0"
  show "\<exists>r t. filealloc s = Ret r t \<and> lfree LFtable t \<and>
      (case r of None \<Rightarrow> t = s \<and> (\<forall>f < NFILE. f_ref (ftable s f) \<noteq> 0)
       | Some f \<Rightarrow> f < NFILE \<and> f_ref (ftable s f) = 0 \<and> (\<forall>j < f. f_ref (ftable s j) \<noteq> 0) \<and>
           f_ref (ftable t f) = 1 \<and> (\<forall>j. j \<noteq> f \<longrightarrow> ftable t j = ftable s j))"
  proof (cases "find ?P [0..<NFILE]")
    case None
    then have "filealloc s = Ret None s" using assms by (simp add: filealloc_def run_simps lock_simps)
    then show ?thesis using assms(2) None find_first_free [of NFILE ?P] by (intro exI [of _ None] exI [of _ s]) simp
  next
    case (Some f)
    then have "filealloc s = Ret (Some f) (set_file f (\<lambda>x. x\<lparr>f_ref := 1\<rparr>) s)"
      using assms by (simp add: filealloc_def run_simps lock_simps)
    then show ?thesis
      using assms(2) Some find_first_free [of NFILE ?P]
      by (intro exI [of _ "Some f"] exI [of _ "set_file f (\<lambda>x. x\<lparr>f_ref := 1\<rparr>) s"]) (simp add: lock_simps)
  qed
  fix f
  show "if 1 \<le> f_ref (ftable s f)
      then \<exists>t. filedup f s = Ret f t \<and> f_ref (ftable t f) = f_ref (ftable s f) + 1 \<and> fileclose f t = Ret () s
      else filedup f s = Panic ''filedup'' \<and> fileclose f s = Panic ''fileclose''"
  proof (cases "1 \<le> f_ref (ftable s f)")
    case True
    let ?t = "set_file f (\<lambda>x. x\<lparr>f_ref := f_ref x + 1\<rparr>) s"
    have "filedup f s = Ret f ?t" using assms True by (simp add: filedup_def run_simps lock_simps)
    moreover have "fileclose f ?t = Ret () s"
      using assms True by (simp add: fileclose_def run_simps lock_simps Let_def set_file_twice set_file_same)
    ultimately show ?thesis using True by (simp add: lock_simps)
  next
    case False
    then show ?thesis using assms by (simp add: filedup_def fileclose_def run_simps lock_simps)
  qed
qed

theorem file_references_witness:
  "\<exists>t. filealloc (demo_files (demo_pipe 0 0) ()) = Ret (Some 0) t \<and> f_ref (ftable t 0) = 1"
proof -
  let ?s = "demo_files (demo_pipe 0 0) ()"
  have "cpu_ok ?s" "lfree LFtable ?s" by (simp_all add: kreadyD)
  then obtain r t where r: "filealloc ?s = Ret r t" "case r of None \<Rightarrow> t = ?s \<and> (\<forall>f < NFILE. f_ref (ftable ?s f) \<noteq> 0)
       | Some f \<Rightarrow> f < NFILE \<and> f_ref (ftable ?s f) = 0 \<and> (\<forall>j < f. f_ref (ftable ?s j) \<noteq> 0) \<and>
           f_ref (ftable t f) = 1 \<and> (\<forall>j. j \<noteq> f \<longrightarrow> ftable t j = ftable ?s j)"
    using file_references by blast
  have z: "f_ref (ftable ?s f) = 0" for f by (simp add: demo_file_def)
  show ?thesis
  proof (cases r)
    case None
    then have "\<forall>f < NFILE. f_ref (ftable ?s f) \<noteq> 0" using r(2) by (simp only: option.case) blast
    moreover have "0 < NFILE" by (simp add: NFILE_def)
    ultimately show ?thesis using z by blast
  next
    case (Some f)
    then have "f = 0" using r(2) z by auto
    then show ?thesis using r Some by auto
  qed
qed

end
