(* ===== verification/Fs_Props.thy ===== *)
theory Fs_Props
  imports Demo_Files
begin

text \<open>The layout of the file system on the disk, and path names.\<close>

section \<open>Inodes in blocks\<close>

lemma length_dinode_bytes: "length (d_addrs d) = NDIRECT + 1 \<Longrightarrow> length (dinode_bytes d) = 64"
  by (simp add: dinode_bytes_def NDIRECT_def)

lemma get_put_other:
  assumes "length b = BSIZE" "k < IPB" "j < IPB" "j \<noteq> k" "length (d_addrs d) = NDIRECT + 1"
  shows "get_dinode (put_dinode b k d) j = get_dinode b j"
proof -
  have l: "64 * k + length (dinode_bytes d) \<le> length b" "64 * j + 64 \<le> length b"
    using assms length_dinode_bytes [OF assms(5)] by (simp_all add: IPB_def BSIZE_def)
  have d: "64 * j + 64 \<le> 64 * k \<or> 64 * k + 64 \<le> 64 * j" using assms(4) by linarith
  have a32: "at32 (put_dinode b k d) (64 * j + i) = at32 b (64 * j + i)" if "i + 4 \<le> 64" for i
    unfolding put_dinode_def using l d that length_dinode_bytes [OF assms(5)] by (intro at32_outside) linarith+
  have a16: "at16 (put_dinode b k d) (64 * j + i) = at16 b (64 * j + i)" if "i + 2 \<le> 64" for i
    unfolding put_dinode_def using l d that length_dinode_bytes [OF assms(5)] by (intro at16_outside) linarith+
  have "at32 (put_dinode b k d) (64 * j + 12 + 4 * i) = at32 b (64 * j + 12 + 4 * i)" if "i < NDIRECT + 1" for i
    using a32 [of "12 + 4 * i"] that by (simp add: NDIRECT_def add.assoc)
  then show ?thesis
    using a32 [of 8] a16 [of 0] a16 [of 2] a16 [of 4] a16 [of 6] by (simp add: get_dinode_def)
qed

lemma get_put_same:
  assumes "length b = BSIZE" "k < IPB" "length (d_addrs d) = NDIRECT + 1"
  shows "get_dinode (put_dinode b k d) k = d"
proof -
  have l: "64 * k + length (dinode_bytes d) \<le> length b"
    using assms length_dinode_bytes [OF assms(3)] by (simp add: IPB_def BSIZE_def)
  have dr: "drop (64 * k + i) (put_dinode b k d) = drop i (dinode_bytes d) @ drop (64 * k + 64) b" if "i \<le> 64" for i
    using drop_overwrite [OF l] that length_dinode_bytes [OF assms(3)] by (simp add: put_dinode_def)
  have "at32 (put_dinode b k d) (64 * k + 12 + 4 * i) = d_addrs d ! i" if i: "i < NDIRECT + 1" for i
  proof -
    have "drop (64 * k + 12 + 4 * i) (put_dinode b k d) = drop (12 + 4 * i) (dinode_bytes d) @ drop (64 * k + 64) b"
      using dr [of "12 + 4 * i"] i by (simp add: NDIRECT_def add.assoc)
    also have "\<dots> = drop (4 * i) (concat (map le32 (d_addrs d)) @ drop (64 * k + 64) b)"
      using i assms(3) by (simp add: dinode_bytes_def)
    finally show ?thesis
      using drop_concat_le32 [of i "d_addrs d" "drop (64 * k + 64) b"] i assms(3) by (auto simp: at32_def)
  qed
  then have "map (\<lambda>i. at32 (put_dinode b k d) (64 * k + 12 + 4 * i)) [0..<NDIRECT + 1] = d_addrs d"
    using assms(3) by (intro nth_equalityI) (simp_all del: upt_Suc)
  moreover have "at16 (put_dinode b k d) (64 * k) = d_type d" "at16 (put_dinode b k d) (64 * k + 2) = d_major d"
    "at16 (put_dinode b k d) (64 * k + 4) = d_minor d" "at16 (put_dinode b k d) (64 * k + 6) = d_nlink d"
    "at32 (put_dinode b k d) (64 * k + 8) = d_size d"
    using dr [of 0] dr [of 2] dr [of 4] dr [of 6] dr [of 8] by (simp_all add: at16_def at32_def dinode_bytes_def)
  ultimately show ?thesis by (simp add: get_dinode_def del: upt_Suc)
qed

text \<open>Inodes in a block are independent. Storing an inode in slot \<open>k\<close> of a block and reading slot \<open>k\<close> back gives
  the inode, field by field; reading any other slot gives what was there; the block keeps its size.\<close>

theorem dinode_roundtrip:
  assumes "length b = BSIZE" "k < IPB" "length (d_addrs d) = NDIRECT + 1"
  shows "get_dinode (put_dinode b k d) k = d \<and> length (put_dinode b k d) = BSIZE \<and>
    (\<forall>j < IPB. j \<noteq> k \<longrightarrow> get_dinode (put_dinode b k d) j = get_dinode b j)"
proof -
  have "64 * k + length (dinode_bytes d) \<le> length b"
    using assms length_dinode_bytes [OF assms(3)] by (simp add: IPB_def BSIZE_def)
  then show ?thesis using assms get_put_same get_put_other by (simp add: put_dinode_def)
qed

theorem dinode_roundtrip_witness:
  "get_dinode (put_dinode zero_block 7 (to_dinode (demo_inode\<lparr>i_size := 12345\<rparr>))) 7 = to_dinode (demo_inode\<lparr>i_size := 12345\<rparr>)"
  using dinode_roundtrip [of zero_block 7 "to_dinode (demo_inode\<lparr>i_size := 12345\<rparr>)"]
  by (simp add: IPB_def BSIZE_def to_dinode_def demo_inode_def NDIRECT_def)

section \<open>Path names\<close>

text \<open>The elements of a path in the order in which \<open>namex\<close> takes them.\<close>

function path_names :: "byte list \<Rightarrow> byte list list" where
  "path_names path = (case skipelem path of None \<Rightarrow> [] | Some (rest, nm) \<Rightarrow> nm # path_names rest)"
  by pat_completeness auto
termination by (relation "measure length") (auto dest: skipelem_shorter)

text \<open>The bytes of a name that the kernel keeps: all of a short name with its NUL, the first 14 of a long one.\<close>

definition clip :: "byte list \<Rightarrow> byte list" where
  "clip x = (if DIRSIZ \<le> length x then take DIRSIZ x else x @ [0])"

definition join :: "nat \<Rightarrow> byte list list \<Rightarrow> byte list" where
  "join k xs = concat (map (\<lambda>x. replicate k slash @ x) xs)"

definition good_name :: "byte list \<Rightarrow> bool" where
  "good_name x \<longleftrightarrow> x \<noteq> [] \<and> slash \<notin> set x"

lemma dropWhile_replicate: "dropWhile (\<lambda>c. c = y) (replicate k y @ xs) = dropWhile (\<lambda>c. c = y) xs"
  by (induction k) simp_all

lemma skipelem_slash: "skipelem (replicate k slash @ p) = skipelem p"
  by (simp add: skipelem_def dropWhile_replicate)

lemma skipelem_name:
  assumes "good_name x" "r = [] \<or> hd r = slash"
  shows "skipelem (x @ r) = Some (dropWhile (\<lambda>c. c = slash) r, clip x)"
proof -
  obtain c x' where x: "x = c # x'" using assms(1) by (cases x) (auto simp: good_name_def)
  have a: "dropWhile (\<lambda>c. c = slash) (x @ r) = x @ r" using assms(1) by (auto simp: x good_name_def)
  have "takeWhile (\<lambda>c. c \<noteq> slash) r = []" "dropWhile (\<lambda>c. c \<noteq> slash) r = r" using assms(2) by (cases r; simp)+
  moreover have "\<forall>c \<in> set x. c \<noteq> slash" using assms(1) by (auto simp: good_name_def)
  ultimately have "takeWhile (\<lambda>c. c \<noteq> slash) (x @ r) = x" "dropWhile (\<lambda>c. c \<noteq> slash) (x @ r) = r"
    by (simp_all add: takeWhile_append2 dropWhile_append2)
  then show ?thesis by (simp add: skipelem_def Let_def a clip_def) (simp add: x)
qed

declare path_names.simps [simp del]

lemma path_names_slash: "path_names (dropWhile (\<lambda>c. c = slash) p) = path_names p"
  by (subst (1 2) path_names.simps) (simp add: skipelem_def)

lemma path_names_join: "0 < k \<Longrightarrow> \<forall>x \<in> set xs. good_name x \<Longrightarrow> path_names (join k xs @ replicate j slash) = map clip xs"
proof (induction xs)
  case Nil
  then show ?case by (subst path_names.simps) (simp add: join_def skipelem_def)
next
  case (Cons x xs)
  let ?r = "join k xs @ replicate j slash"
  have "join k (x # xs) @ replicate j slash = replicate k slash @ x @ ?r" by (simp add: join_def)
  moreover have "?r = [] \<or> hd ?r = slash"
    using Cons.prems(1) by (cases xs; cases j; cases k) (auto simp: join_def)
  ultimately have "skipelem (join k (x # xs) @ replicate j slash) = Some (dropWhile (\<lambda>c. c = slash) ?r, clip x)"
    using Cons.prems(2) skipelem_name [of x ?r] by (simp add: skipelem_slash)
  then show ?case using Cons by (subst path_names.simps) (simp add: path_names_slash)
qed

lemma strncmp_same: "strncmp_bytes n p p = 0"
  by (induction n arbitrary: p) auto

text \<open>\<open>skipelem\<close> takes a path apart. A path built from any names (not empty, without slashes), each preceded by
  one or more slashes and with any number of slashes at the end, gives back exactly these names in order, the last
  bytes of names longer than \<open>DIRSIZ\<close> cut off, and the last of them in a call that leaves the empty path, which is how
  \<open>namex\<close> recognises the final element.\<close>

theorem path_join_split:
  assumes "0 < k" "\<forall>x \<in> set xs. good_name x"
  shows "path_names (join k xs @ replicate j slash) = map clip xs \<and>
    (\<forall>x. good_name x \<longrightarrow> skipelem (replicate k slash @ x @ replicate j slash) = Some ([], clip x)) \<and>
    skipelem (replicate j slash) = None"
proof -
  have "skipelem (x @ replicate j slash) = Some ([], clip x)" if "good_name x" for x
    using skipelem_name [OF that, of "replicate j slash"] by (cases j) auto
  moreover have "skipelem (replicate j slash) = None" using skipelem_slash [of j "[]"] by (simp add: skipelem_def)
  ultimately show ?thesis using path_names_join [OF assms] by (simp add: skipelem_slash)
qed

theorem path_join_split_witness:
  "path_names (join 2 [[117, 115, 114], [98, 105, 110]] @ replicate 1 slash) = [[117, 115, 114, 0], [98, 105, 110, 0]]"
  using path_join_split [of 2 "[[117, 115, 114], [98, 105, 110]]" 1]
  by (simp add: good_name_def slash_def clip_def DIRSIZ_def)

end
