(* ===== verification/Block_Txn.thy ===== *)
theory Block_Txn
  imports Kern
begin

text \<open>
  The interface between the log and the file system: how blocks are read and changed inside a transaction. The
  operations are those of the cache, with \<open>lw\<close> (\<open>log_write\<close>) in place of a write to the disk. \<open>view\<close> is the contents of
  the blocks as readers see them, \<open>heldb\<close> the blocks whose buffers are locked, \<open>mine s i n\<close> that the running process has
  locked buffer \<open>i\<close> with block \<open>n\<close>, \<open>budget\<close> the number of blocks for which the log still has space, and \<open>clean s n\<close>
  that block \<open>n\<close> may be released: what is in its buffer is on the disk or pinned.
\<close>

locale block_txn =
  fixes rd :: "u32 \<Rightarrow> 's \<Rightarrow> (nat, 's) outcome"
    and lw :: "nat \<Rightarrow> 's \<Rightarrow> (unit, 's) outcome"
    and rel :: "nat \<Rightarrow> 's \<Rightarrow> (unit, 's) outcome"
    and data :: "nat \<Rightarrow> 's \<Rightarrow> byte list"
    and put :: "nat \<Rightarrow> byte list \<Rightarrow> 's \<Rightarrow> 's"
    and inv :: "'s \<Rightarrow> bool"
    and view :: "'s \<Rightarrow> u32 \<Rightarrow> byte list"
    and heldb :: "'s \<Rightarrow> u32 set"
    and mine :: "'s \<Rightarrow> nat \<Rightarrow> u32 \<Rightarrow> bool"
    and clean :: "'s \<Rightarrow> u32 \<Rightarrow> bool"
    and budget :: "'s \<Rightarrow> nat"
    and frame :: "'s \<Rightarrow> 's \<Rightarrow> bool"
    and dsize :: "'s \<Rightarrow> u32"
    and bsize :: nat
  assumes rd_law:
      "inv s \<Longrightarrow> n < dsize s \<Longrightarrow> n \<notin> heldb s \<Longrightarrow> card (heldb s) \<le> budget s \<Longrightarrow>
       wp (rd n s) (\<lambda>i t. inv t \<and> frame s t \<and> mine t i n \<and> (\<forall>j m. mine s j m \<longrightarrow> mine t j m) \<and>
         view t = view s \<and> heldb t = insert n (heldb s) \<and> budget t = budget s \<and> clean t = clean s)"
    and lw_law:
      "inv s \<Longrightarrow> mine s i n \<Longrightarrow> 0 < budget s \<Longrightarrow>
       wp (lw i s) (\<lambda>_ t. inv t \<and> frame s t \<and> mine t = mine s \<and> view t = view s \<and> heldb t = heldb s \<and>
         budget s \<le> budget t + 1 \<and> (\<forall>m. clean t m \<longleftrightarrow> m = n \<or> clean s m))"
    and rel_law:
      "inv s \<Longrightarrow> mine s i n \<Longrightarrow> clean s n \<Longrightarrow>
       wp (rel i s) (\<lambda>_ t. inv t \<and> frame s t \<and> (\<forall>j m. mine t j m \<longleftrightarrow> j \<noteq> i \<and> mine s j m) \<and>
         view t = view s \<and> heldb t = heldb s - {n} \<and> budget t = budget s \<and> clean t = clean s)"
    and put_law:
      "inv s \<Longrightarrow> mine s i n \<Longrightarrow> length d = bsize \<Longrightarrow>
       inv (put i d s) \<and> frame s (put i d s) \<and> mine (put i d s) = mine s \<and> view (put i d s) = (view s)(n := d) \<and>
       heldb (put i d s) = heldb s \<and> budget (put i d s) = budget s \<and> (\<forall>m. m \<noteq> n \<longrightarrow> clean (put i d s) m = clean s m)"
    and data_law: "inv s \<Longrightarrow> mine s i n \<Longrightarrow> data i s = view s n"
    and mine_held: "inv s \<Longrightarrow> mine s i n \<Longrightarrow> n \<in> heldb s"
    and mine_block: "mine s i n \<Longrightarrow> mine s i m \<Longrightarrow> n = m"
    and view_size: "inv s \<Longrightarrow> length (view s n) = bsize"
    and clean_free: "inv s \<Longrightarrow> n \<notin> heldb s \<Longrightarrow> clean s n"
    and frame_refl: "frame s s"
    and frame_trans: "frame s t \<Longrightarrow> frame t u \<Longrightarrow> frame s u"
    and frame_size: "frame s t \<Longrightarrow> dsize t = dsize s"
begin

text \<open>\<open>moved k s v t\<close>: from \<open>s\<close> to \<open>t\<close> at most \<open>k\<close> blocks were logged and the contents became \<open>v\<close>; the buffers locked are
  those of \<open>s\<close>, and what could be released still can.\<close>

definition moved :: "nat \<Rightarrow> 's \<Rightarrow> (u32 \<Rightarrow> byte list) \<Rightarrow> 's \<Rightarrow> bool" where
  "moved k s v t \<longleftrightarrow> inv t \<and> frame s t \<and> view t = v \<and> heldb t = heldb s \<and> budget s \<le> budget t + k \<and>
     (\<forall>j m. mine s j m \<longrightarrow> mine t j m) \<and> (\<forall>m. clean s m \<longrightarrow> clean t m)"

lemma moved_refl: "inv s \<Longrightarrow> moved 0 s (view s) s"
  by (simp add: moved_def frame_refl)

lemma moved_trans: "moved k s v t \<Longrightarrow> moved l t w u \<Longrightarrow> moved (k + l) s w u"
  by (auto simp: moved_def intro: frame_trans)

lemma moved_after0: "moved 0 s v t \<Longrightarrow> moved k t w u \<Longrightarrow> moved k s w u"
  using moved_trans [of 0] by simp

lemma moved_mono: "moved k s v t \<Longrightarrow> k \<le> l \<Longrightarrow> moved l s v t"
  by (auto simp: moved_def)

text \<open>\<open>opened s i n t\<close>: block \<open>n\<close> has been read and is locked in buffer \<open>i\<close>, and nothing else has happened.\<close>

definition opened :: "'s \<Rightarrow> nat \<Rightarrow> u32 \<Rightarrow> 's \<Rightarrow> bool" where
  "opened s i n t \<longleftrightarrow> inv t \<and> frame s t \<and> mine t i n \<and> (\<forall>j m. mine s j m \<longrightarrow> mine t j m) \<and> view t = view s \<and>
     heldb t = insert n (heldb s) \<and> budget t = budget s \<and> clean t = clean s"

lemma open_block:
  "inv s \<Longrightarrow> n < dsize s \<Longrightarrow> n \<notin> heldb s \<Longrightarrow> card (heldb s) \<le> budget s \<Longrightarrow> wp (rd n s) (\<lambda>i t. opened s i n t)"
  using rd_law [of s n] unfolding opened_def by simp

lemma opened_data: "opened s i n t \<Longrightarrow> data i t = view s n"
  using data_law [of t i n] by (simp add: opened_def)

lemma opened_clean: "inv s \<Longrightarrow> n \<notin> heldb s \<Longrightarrow> opened s i n t \<Longrightarrow> clean t n"
  using clean_free [of s n] by (simp add: opened_def)

text \<open>Releasing it, after any changes made while it was locked.\<close>

lemma close_block:
  assumes "inv s" "n \<notin> heldb s" and t: "opened s i n t" and u: "moved k t v u" "clean u n"
  shows "wp (rel i u) (\<lambda>_ w. moved k s v w)"
proof -
  have keep: "j \<noteq> i" if "mine s j m" for j m
  proof
    assume "j = i"
    then have "mine t i m" using that t by (simp add: opened_def)
    then have "m = n" using t mine_block by (auto simp: opened_def)
    then show False using mine_held [OF assms(1) that] assms(2) by simp
  qed
  have i: "inv u" "mine u i n" using t u(1) by (simp_all add: opened_def moved_def)
  show ?thesis
  proof (rule wp_mono [OF rel_law [OF i u(2)]], elim conjE)
    fix x w assume w: "inv w" "frame u w" "\<forall>j m. mine w j m \<longleftrightarrow> j \<noteq> i \<and> mine u j m" "view w = view u"
      "heldb w = heldb u - {n}" "budget w = budget u" "clean w = clean u"
    have "frame s w" using frame_trans [OF frame_trans, of s t u w] t u(1) w(2) by (simp add: opened_def moved_def)
    moreover have "heldb w = heldb s" using t u(1) w(5) assms(2) by (simp add: opened_def moved_def)
    moreover have "mine w j m" if "mine s j m" for j m using that keep t u(1) w(3) by (simp add: opened_def moved_def)
    moreover have "clean w m" if "clean s m" for m using that t u(1) w(7) by (simp add: opened_def moved_def)
    ultimately show "moved k s v w" using t u(1) w by (simp add: opened_def moved_def)
  qed
qed

text \<open>Reading a block.\<close>

lemma opened_moved: "opened s i n t \<Longrightarrow> moved 0 t (view s) t"
  using moved_refl [of t] by (simp add: opened_def)

lemma read_block:
  assumes s: "inv s" "n < dsize s" "n \<notin> heldb s" "card (heldb s) \<le> budget s"
  shows "wp (rbind (rd n s) (\<lambda>i s. let x = f (data i s) in rbind (rel i s) (\<lambda>_ s. Ret x s)))
    (\<lambda>x t. x = f (view s n) \<and> moved 0 s (view s) t)"
proof (rule wp_rbindI [OF open_block [OF s]])
  fix i t assume t: "opened s i n t"
  from close_block [OF s(1,3) t opened_moved [OF t] opened_clean [OF s(1,3) t]]
  show "wp (let x = f (data i t) in rbind (rel i t) (\<lambda>_ s. Ret x s)) (\<lambda>x u. x = f (view s n) \<and> moved 0 s (view s) u)"
    unfolding Let_def opened_data [OF t] by (elim wp_rbindI) simp
qed

text \<open>Changing a block that is locked already, and a block from lock to release.\<close>

lemma change_block:
  assumes "inv s" "mine s i n" "0 < budget s" "length d = bsize"
  shows "wp (lw i (put i d s)) (\<lambda>_ t. moved 1 s ((view s)(n := d)) t \<and> clean t n)"
proof -
  note p = put_law [OF assms(1,2,4)]
  have l: "wp (lw i (put i d s)) (\<lambda>_ t. inv t \<and> frame (put i d s) t \<and> mine t = mine (put i d s) \<and> view t = view (put i d s) \<and>
      heldb t = heldb (put i d s) \<and> budget (put i d s) \<le> budget t + 1 \<and> (\<forall>m. clean t m \<longleftrightarrow> m = n \<or> clean (put i d s) m))"
    using p assms(2,3) by (intro lw_law) auto
  show ?thesis
  proof (rule wp_mono [OF l])
    fix x t assume "inv t \<and> frame (put i d s) t \<and> mine t = mine (put i d s) \<and> view t = view (put i d s) \<and>
      heldb t = heldb (put i d s) \<and> budget (put i d s) \<le> budget t + 1 \<and> (\<forall>m. clean t m \<longleftrightarrow> m = n \<or> clean (put i d s) m)"
    then show "moved 1 s ((view s)(n := d)) t \<and> clean t n"
      using p by (auto simp: moved_def intro: frame_trans)
  qed
qed

lemma update_block:
  assumes s: "inv s" "n < dsize s" "n \<notin> heldb s" "card (heldb s) \<le> budget s" "0 < budget s" and d: "length d = bsize"
    and f: "\<And>i t. frame s t \<Longrightarrow> data i t = view s n \<Longrightarrow> f i t = put i d t"
  shows "wp (rbind (rd n s) (\<lambda>i s. rbind (lw i (f i s)) (\<lambda>_ s. rel i s))) (\<lambda>_ t. moved 1 s ((view s)(n := d)) t)"
proof (rule wp_rbindI [OF open_block [OF s(1-4)]])
  fix i t assume t: "opened s i n t"
  then have ti: "inv t" "mine t i n" "0 < budget t" "view t = view s" using s(5) by (simp_all add: opened_def)
  have e: "f i t = put i d t" using f [OF _ opened_data [OF t]] t by (simp add: opened_def)
  show "wp (rbind (lw i (f i t)) (\<lambda>_ s. rel i s)) (\<lambda>_ t. moved 1 s ((view s)(n := d)) t)"
    unfolding e by (rule wp_rbindI [OF change_block [OF ti(1-3) d]]) (auto simp: ti(4) intro: close_block [OF s(1,3) t])
qed

end

end
