(* ===== verification/Log_Store.thy ===== *)
theory Log_Store
  imports Log_Txn Block_Txn
begin

text \<open>The log over the buffer cache provides the interface \<open>block_txn\<close>.\<close>

definition txn_inv :: "'z logsys_scheme \<Rightarrow> bool" where
  "txn_inv s \<longleftrightarrow> bio_inv s \<and> 0 \<le> lh_n s \<and> lh_n s \<le> lg_size s - 1 \<and> lg_size s \<le> int LOGSIZE \<and>
     length (lh_block s) = LOGSIZE \<and> 1 \<le> outstanding s \<and> dirtyb s \<subseteq> set (logged s)"

definition txn_budget :: "'z logsys_scheme \<Rightarrow> nat" where
  "txn_budget s = nat (lg_size s - 1 - lh_n s)"

definition txn_clean :: "'z logsys_scheme \<Rightarrow> u32 \<Rightarrow> bool" where
  "txn_clean s n \<longleftrightarrow> n \<in> dirtyb s \<or> cview s n = memdisk s n"

lemma card_dirty: "txn_inv s \<Longrightarrow> card (dirtyb s) \<le> nat (lh_n s)"
proof -
  assume i: "txn_inv s"
  then have "card (dirtyb s) \<le> card (set (logged s))" by (intro card_mono) (simp_all add: txn_inv_def)
  also have "\<dots> \<le> length (logged s)" by (rule card_length)
  also have "\<dots> \<le> nat (lh_n s)" by (simp add: logged_def)
  finally show ?thesis .
qed

lemma logged_bframe: "bframe s t \<Longrightarrow> logged t = logged s"
  by (simp add: logged_def lg_frame)

lemma txn_inv_bframe: "txn_inv s \<Longrightarrow> bframe s t \<Longrightarrow> bio_inv t \<Longrightarrow> dirtyb t \<subseteq> dirtyb s \<Longrightarrow> txn_inv t"
  by (auto simp: txn_inv_def lg_frame logged_bframe)

lemma budget_bframe: "bframe s t \<Longrightarrow> txn_budget t = txn_budget s"
  by (simp add: txn_budget_def lg_frame)

lemma logged_note: "txn_inv s \<Longrightarrow> lh_n s < int LOGSIZE \<Longrightarrow> set (logged (note_block n s)) = insert n (set (logged s))"
  by (auto simp: note_block_def logged_def txn_inv_def nat_add_distrib take_Suc_conv_app_nth)

lemma note_frame:
  "lgframe s (note_block n s)" "bio_inv (note_block n s) = bio_inv s" "mine (note_block n s) = mine s"
  "cview (note_block n s) = cview s" "memdisk (note_block n s) = memdisk s" "dirtyb (note_block n s) = dirtyb s"
  "hblocks (note_block n s) = hblocks s" "lg_size (note_block n s) = lg_size s" "outstanding (note_block n s) = outstanding s"
  "length (lh_block (note_block n s)) = length (lh_block s)" "lh_n s \<le> lh_n (note_block n s)" "lh_n (note_block n s) \<le> lh_n s + 1"
  by (auto simp: note_block_def) (simp add: lgframe_def kctx_def)

lemma log_write_law:
  assumes inv: "txn_inv s" and m: "mine s i n" and b: "0 < txn_budget s"
  shows "wp (log_write i s) (\<lambda>_ t. txn_inv t \<and> lgframe s t \<and> mine t = mine s \<and> cview t = cview s \<and> hblocks t = hblocks s \<and>
    txn_budget s \<le> txn_budget t + 1 \<and> (\<forall>m. txn_clean t m \<longleftrightarrow> m = n \<or> txn_clean s m))"
proof -
  have n: "lh_n s < int LOGSIZE" "lh_n s < lg_size s - 1" using inv b by (auto simp: txn_inv_def txn_budget_def)
  have blk: "b_blockno (bufs s i) = n" using m by (simp add: mine_def cached_def)
  let ?t = "pin_buf i (note_block n s)"
  have w: "log_write i s = Ret () ?t"
    using inv n log_write_run [of s i] by (simp add: txn_inv_def bio_inv_def blk)
  have p: "bio_inv ?t" "bframe (note_block n s) ?t" "mine ?t = mine s" "cview ?t = cview s" "memdisk ?t = memdisk s"
    "dirtyb ?t = insert n (dirtyb s)" "hblocks ?t = hblocks s"
    using bc.pin_law [of "note_block n s" i n] inv m by (simp_all add: note_frame txn_inv_def)
  have "lgframe s ?t" using lgframe_trans [OF note_frame(1) bframe_lgframe [OF p(2)]] .
  moreover have "txn_inv ?t"
    using inv p logged_note [OF inv n(1), of n] n note_frame(8-12) [where n = n and s = s] logged_bframe [OF p(2)] lg_frame [OF p(2)]
    by (auto simp: txn_inv_def)
  moreover have "txn_budget s \<le> txn_budget ?t + 1"
    using note_frame(8,12) [where n = n and s = s] lg_frame [OF p(2)] by (auto simp: txn_budget_def)
  ultimately show ?thesis using p by (simp add: w txn_clean_def)
qed

interpretation tx: block_txn "bread 1" log_write brelse bdata put_bdata txn_inv cview hblocks mine txn_clean txn_budget
  lgframe disksize BSIZE
proof (unfold_locales, goal_cases)
  case (1 s n)
  then have i: "bio_inv s" by (simp add: txn_inv_def)
  have "card (dirtyb s \<union> hblocks s) \<le> card (dirtyb s) + card (hblocks s)" by (rule card_Un_le)
  also have "\<dots> \<le> nat (lh_n s) + txn_budget s" using card_dirty [OF 1(1)] 1(4) by simp
  also have "\<dots> < NBUF" using 1(1) by (auto simp: txn_inv_def txn_budget_def NBUF_def LOGSIZE_def)
  finally show ?case
    using bc.rd_law [OF i 1(2,3)] 1(1)
    by (auto elim!: wp_mono simp: budget_bframe bframe_lgframe txn_clean_def intro: txn_inv_bframe)
next
  case (2 s i n)
  then show ?case by (rule log_write_law)
next
  case (3 s i n)
  then have "bio_inv s" "n \<in> dirtyb s \<or> cview s n = memdisk s n" by (simp_all add: txn_inv_def txn_clean_def)
  from bc.rel_law [OF this(1) 3(2) this(2)] 3(1) show ?case
    by (auto elim!: wp_mono simp: budget_bframe bframe_lgframe txn_clean_def intro: txn_inv_bframe)
next
  case (4 s i n d)
  then have "bio_inv s" by (simp add: txn_inv_def)
  from bc.put_law [OF this 4(2,3)] 4(1) show ?case
    by (auto simp: budget_bframe bframe_lgframe txn_clean_def intro: txn_inv_bframe)
next
  case (5 s i n)
  then show ?case by (simp add: txn_inv_def bc.data_law)
next
  case (6 s i n)
  then show ?case using bc.mine_held by (auto simp: txn_inv_def)
next
  case (7 s i n m)
  then show ?case by (rule bc.mine_block)
next
  case (8 s n)
  then show ?case by (simp add: txn_inv_def bc.view_size)
next
  case (9 s n)
  then show ?case using bc.view_disk [of s n] by (auto simp: txn_inv_def txn_clean_def)
next
  case (11 s t u)
  then show ?case by (rule lgframe_trans)
qed (simp_all add: lgframe_def)

end
