(* ===== verification/Fs_Store.thy ===== *)
theory Fs_Store
  imports Fs Log_Store
begin

text \<open>
  The block layer of the file system on top of the interface \<open>block_txn\<close>: what allocation, the block map of an inode,
  and the reading and writing loops do, seen on the contents \<open>cview\<close> of the blocks.
\<close>

lemma lgframe_fs:
  fixes s t :: "'z fssys_scheme"
  assumes "lgframe s t"
  shows "fsb t = fsb s" "icache t = icache s" "disksize t = disksize s"
  using assms by (cases s; cases t; simp add: lgframe_def)+

lemma moved_fs:
  fixes s t :: "'z fssys_scheme"
  assumes "tx.moved k s v t"
  shows "fsb t = fsb s" "icache t = icache s" "disksize t = disksize s" "txn_inv t" "cview t = v" "hblocks t = hblocks s"
    "txn_budget s \<le> txn_budget t + k"
  using assms lgframe_fs [of s t] by (simp_all add: tx.moved_def)

section \<open>The bitmap\<close>

definition used_bit :: "block \<Rightarrow> nat \<Rightarrow> bool" where
  "used_bit d i \<longleftrightarrow> bit (d ! (i div 8)) (i mod 8)"

definition set_bit_at :: "block \<Rightarrow> nat \<Rightarrow> block" where
  "set_bit_at d i = d[i div 8 := d ! (i div 8) OR bit_mask i]"

definition clear_bit_at :: "block \<Rightarrow> nat \<Rightarrow> block" where
  "clear_bit_at d i = d[i div 8 := d ! (i div 8) AND NOT (bit_mask i)]"

lemma bit_mask_bit: "bit (bit_mask i) j \<longleftrightarrow> j = i mod 8"
proof -
  have "i mod 8 < LENGTH(8)" by simp
  then show ?thesis unfolding bit_mask_def push_bit_of_1 bit_exp_iff by auto
qed

lemma and_mask_zero: "x AND bit_mask i = 0 \<longleftrightarrow> \<not> bit x (i mod 8)"
proof
  assume "x AND bit_mask i = 0"
  then have "\<not> bit (x AND bit_mask i) (i mod 8)" by simp
  then show "\<not> bit x (i mod 8)" by (simp add: bit_and_iff bit_mask_bit)
next
  assume "\<not> bit x (i mod 8)"
  then show "x AND bit_mask i = 0" by (intro bit_word_eqI) (auto simp: bit_and_iff bit_mask_bit)
qed

lemma same_bit: "i = j \<longleftrightarrow> i div 8 = j div 8 \<and> i mod 8 = (j mod 8 :: nat)"
  by (metis div_mult_mod_eq)

lemma used_set_bit: "i div 8 < length d \<Longrightarrow> used_bit (set_bit_at d i) j \<longleftrightarrow> j = i \<or> used_bit d j"
  by (cases "j div 8 = i div 8")
     (simp_all add: used_bit_def set_bit_at_def bit_or_iff bit_mask_bit same_bit [of j i] disj_commute)

lemma used_clear_bit: "i div 8 < length d \<Longrightarrow> used_bit (clear_bit_at d i) j \<longleftrightarrow> j \<noteq> i \<and> used_bit d j"
  by (cases "j div 8 = i div 8")
     (simp_all add: used_bit_def clear_bit_at_def bit_and_iff bit_not_iff bit_mask_bit same_bit [of j i] conj_commute)

lemma set_clear_bit: "i div 8 < length d \<Longrightarrow> \<not> used_bit d i \<Longrightarrow> clear_bit_at (set_bit_at d i) i = d"
proof -
  assume l: "i div 8 < length d" and u: "\<not> used_bit d i"
  have "(d ! (i div 8) OR bit_mask i) AND NOT (bit_mask i) = d ! (i div 8)"
    using u by (intro bit_word_eqI) (auto simp: bit_and_iff bit_or_iff bit_not_iff bit_mask_bit used_bit_def)
  then show ?thesis using l by (simp add: clear_bit_at_def set_bit_at_def)
qed

lemma length_set_bit [simp]: "length (set_bit_at d i) = length d" "length (clear_bit_at d i) = length d"
  by (simp_all add: set_bit_at_def clear_bit_at_def)

text \<open>\<open>used sb v b\<close>: the bitmap in the contents \<open>v\<close> marks block \<open>b\<close> as in use.\<close>

definition used :: "superblock \<Rightarrow> (u32 \<Rightarrow> block) \<Rightarrow> u32 \<Rightarrow> bool" where
  "used sb v b \<longleftrightarrow> used_bit (v (BBLOCK b sb)) (unat b mod BPB)"

definition bitmap :: "superblock \<Rightarrow> u32 set" where
  "bitmap sb = {BBLOCK b sb |b. b < sb_size sb}"

text \<open>The layout that mkfs gives a file system: the bitmap, then the data blocks.\<close>

definition data_start :: "superblock \<Rightarrow> nat" where
  "data_start sb = unat (sb_bmapstart sb) + unat (sb_size sb) div BPB + 1"

definition layout_ok :: "'z fssys_scheme \<Rightarrow> bool" where
  "layout_ok s \<longleftrightarrow> data_start (fsb s) \<le> unat (sb_size (fsb s)) \<and> sb_size (fsb s) \<le> disksize s \<and>
     unat (sb_size (fsb s)) + BPB < 2 ^ 32"

lemma BPB_pos: "BPB = 4096" by (simp add: BPB_def BSIZE_def)

lemma div_BPB: "unat (b div of_nat BPB :: u32) = unat b div BPB"
  by (simp add: BPB_pos unat_div_distrib)

lemma BBLOCK_unat:
  assumes "layout_ok s" "b < sb_size (fsb s)"
  shows "unat (BBLOCK b (fsb s)) = unat b div BPB + unat (sb_bmapstart (fsb s))"
proof -
  have "unat b div BPB \<le> unat (sb_size (fsb s)) div BPB" using assms(2) by (intro div_le_mono) (simp add: word_less_nat_alt)
  then have "unat (b div of_nat BPB :: u32) + unat (sb_bmapstart (fsb s)) < 2 ^ 32"
    using assms(1) unat32_less [of "sb_size (fsb s)"] by (simp add: div_BPB layout_ok_def data_start_def)
  then show ?thesis
    using unat_plus_nowrap [of "b div of_nat BPB" "unat (sb_bmapstart (fsb s))"] by (simp add: BBLOCK_def div_BPB)
qed

lemma bitmap_before:
  assumes "layout_ok s" "n \<in> bitmap (fsb s)"
  shows "unat n < data_start (fsb s)" "n < disksize s"
proof -
  obtain b where b: "n = BBLOCK b (fsb s)" "b < sb_size (fsb s)" using assms(2) by (auto simp: bitmap_def)
  have "unat b div BPB \<le> unat (sb_size (fsb s)) div BPB" using b(2) by (intro div_le_mono) (simp add: word_less_nat_alt)
  then show 1: "unat n < data_start (fsb s)" using BBLOCK_unat [OF assms(1) b(2)] by (simp add: b(1) data_start_def)
  then show "n < disksize s" using assms(1) by (simp add: layout_ok_def word_less_nat_alt word_le_nat_alt)
qed

text \<open>Setting the bit of one block changes no other.\<close>

lemma used_upd:
  assumes l: "layout_ok s" and a: "a < sb_size (fsb s)" and b: "b < sb_size (fsb s)" and len: "\<And>n. length (v n) = BSIZE"
  shows "used (fsb s) (v(BBLOCK a (fsb s) := set_bit_at (v (BBLOCK a (fsb s))) (unat a mod BPB))) b \<longleftrightarrow> b = a \<or> used (fsb s) v b"
    "used (fsb s) (v(BBLOCK a (fsb s) := clear_bit_at (v (BBLOCK a (fsb s))) (unat a mod BPB))) b \<longleftrightarrow> b \<noteq> a \<and> used (fsb s) v b"
proof -
  have i: "unat a mod BPB div 8 < BSIZE" by (simp add: BPB_pos BSIZE_def)
  have e: "unat b mod BPB = unat a mod BPB \<and> BBLOCK b (fsb s) = BBLOCK a (fsb s) \<longleftrightarrow> b = a"
  proof
    assume c: "unat b mod BPB = unat a mod BPB \<and> BBLOCK b (fsb s) = BBLOCK a (fsb s)"
    then have "unat b div BPB = unat a div BPB" using BBLOCK_unat [OF l a] BBLOCK_unat [OF l b] by simp
    then show "b = a" using c by (metis div_mult_mod_eq word_unat_eq_iff)
  qed simp
  show "used (fsb s) (v(BBLOCK a (fsb s) := set_bit_at (v (BBLOCK a (fsb s))) (unat a mod BPB))) b \<longleftrightarrow> b = a \<or> used (fsb s) v b"
    "used (fsb s) (v(BBLOCK a (fsb s) := clear_bit_at (v (BBLOCK a (fsb s))) (unat a mod BPB))) b \<longleftrightarrow> b \<noteq> a \<and> used (fsb s) v b"
    using e i len by (auto simp: used_def used_set_bit used_clear_bit)
qed

section \<open>Allocation\<close>

definition zeros :: block where "zeros = replicate BSIZE 0"

lemma length_zeros [simp]: "length zeros = BSIZE"
  by (simp add: zeros_def)

lemma bzero_law:
  assumes "txn_inv s" "n < disksize s" "n \<notin> hblocks s" "card (hblocks s) \<le> txn_budget s" "0 < txn_budget s"
  shows "wp (bzero 1 n s) (\<lambda>_ t. tx.moved 1 s ((cview s)(n := zeros)) t)"
  unfolding bzero_def using tx.update_block [OF assms, of zeros "\<lambda>i. put_bdata i zeros"] by (simp add: zeros_def)

text \<open>\<open>alloc_ok s\<close>: what the block allocator relies on. Blocks before the data area are marked, and so is every block
  that is locked.\<close>

definition alloc_ok :: "'z fssys_scheme \<Rightarrow> bool" where
  "alloc_ok s \<longleftrightarrow> txn_inv s \<and> layout_ok s \<and> (\<forall>b. unat b < data_start (fsb s) \<longrightarrow> used (fsb s) (cview s) b) \<and>
     (\<forall>h \<in> hblocks s. data_start (fsb s) \<le> unat h \<and> used (fsb s) (cview s) h)"

lemma alloc_ok_moved0: "alloc_ok s \<Longrightarrow> tx.moved k s (cview s) t \<Longrightarrow> alloc_ok t"
  using moved_fs [of k s "cview s" t] by (simp add: alloc_ok_def layout_ok_def)

lemma bitmap_not_held: "alloc_ok s \<Longrightarrow> n \<in> bitmap (fsb s) \<Longrightarrow> n \<notin> hblocks s"
  using bitmap_before(1) [of s n] by (auto simp: alloc_ok_def)

lemma base_block:
  assumes l: "layout_ok s" and b: "k * BPB + bi < unat (sb_size (fsb s))" "bi < BPB"
  defines "a \<equiv> of_nat (k * BPB + bi) :: u32"
  shows "unat a = k * BPB + bi" "a < sb_size (fsb s)" "unat a mod BPB = bi" "BBLOCK (of_nat (k * BPB)) (fsb s) = BBLOCK a (fsb s)"
proof -
  have lt: "k * BPB + bi < 2 ^ 32" using b(1) unat32_less [of "sb_size (fsb s)"] by linarith
  then show u: "unat a = k * BPB + bi" unfolding a_def by (rule unat_of_nat32)
  then show "a < sb_size (fsb s)" using b(1) by (simp add: word_less_nat_alt)
  show "unat a mod BPB = bi" using b(2) by (simp add: u)
  have u': "unat (of_nat (k * BPB) :: u32) = k * BPB" by (rule unat_of_nat32) (use lt in linarith)
  have "unat (a div of_nat BPB) = k" unfolding div_BPB u using b(2) by simp
  moreover have "unat ((of_nat (k * BPB) :: u32) div of_nat BPB) = k" unfolding div_BPB u' by (simp add: BPB_pos)
  ultimately have "(of_nat (k * BPB) :: u32) div of_nat BPB = a div of_nat BPB" by (simp add: word_unat_eq_iff)
  then show "BBLOCK (of_nat (k * BPB)) (fsb s) = BBLOCK a (fsb s)" by (simp only: BBLOCK_def)
qed

lemma free_bit_Some:
  "free_bit d b lim = Some bi \<Longrightarrow> bi < BPB \<and> b + bi < lim \<and> \<not> used_bit d bi"
  by (auto simp: free_bit_def find_Some_iff and_mask_zero used_bit_def)

lemma free_bit_None: "free_bit d b lim = None \<Longrightarrow> bi < BPB \<Longrightarrow> b + bi < lim \<Longrightarrow> used_bit d bi"
  by (auto simp: free_bit_def find_None_iff and_mask_zero used_bit_def)

text \<open>The view after block \<open>a\<close> has been allocated.\<close>

definition allocated :: "superblock \<Rightarrow> u32 \<Rightarrow> (u32 \<Rightarrow> block) \<Rightarrow> u32 \<Rightarrow> block" where
  "allocated sb a v = v(BBLOCK a sb := set_bit_at (v (BBLOCK a sb)) (unat a mod BPB), a := zeros)"

lemma balloc_loop_law:
  assumes "alloc_ok s" "card (hblocks s) < txn_budget s" "2 \<le> txn_budget s"
    "b < sb_size (fsb s)" "k * BPB \<le> unat b" "\<not> used (fsb s) (cview s) b"
    "K = (unat (sb_size (fsb s)) + BPB - 1) div BPB"
  shows "wp (balloc_loop (map (\<lambda>k. k * BPB) [k..<K]) 1 s) (\<lambda>a t. a < sb_size (fsb s) \<and> \<not> used (fsb s) (cview s) a \<and>
    tx.moved 2 s (allocated (fsb s) a (cview s)) t)"
  using assms
proof (induction "K - k" arbitrary: k s)
  case 0
  have "unat b < unat (sb_size (fsb s))" using 0(5) by (simp add: word_less_nat_alt)
  then have "k * BPB < unat (sb_size (fsb s))" using 0(6) by linarith
  then have "k < K" unfolding 0(8) by (simp add: BPB_pos)
  then show ?case using 0(1) by simp
next
  case (Suc n)
  have bsz: "unat b < unat (sb_size (fsb s))" using Suc.prems(4) by (simp add: word_less_nat_alt)
  then have ksz: "k * BPB + 0 < unat (sb_size (fsb s))" using Suc.prems(5) by linarith
  have l: "layout_ok s" and inv: "txn_inv s" using Suc.prems(1) by (simp_all add: alloc_ok_def)
  let ?n = "BBLOCK (of_nat (k * BPB)) (fsb s)"
  have n0: "?n \<in> bitmap (fsb s)" using base_block(2) [OF l ksz] BPB_pos by (auto simp: bitmap_def)
  have n: "?n < disksize s" "?n \<notin> hblocks s" by (rule bitmap_before(2) [OF l n0], rule bitmap_not_held [OF Suc.prems(1) n0])
  have "k < K" using Suc(2) by simp
  then have split: "[k..<K] = k # [Suc k..<K]" by (rule upt_conv_Cons)
  have c: "card (hblocks s) \<le> txn_budget s" using Suc.prems(2) by simp
  show ?case
    unfolding split list.map balloc_loop.simps
  proof (rule wp_rbindI [OF tx.open_block [OF inv n c]])
    fix i t assume t: "tx.opened s i ?n t"
    then have ti: "txn_inv t" "mine t i ?n" "cview t = cview s" "txn_budget t = txn_budget s" "lgframe s t"
      by (simp_all add: tx.opened_def)
    note fr = lgframe_fs [OF ti(5)]
    note d = tx.opened_data [OF t]
    note close = tx.close_block [OF inv n(2) t]
    show "wp (case free_bit (bdata i t) (k * BPB) (unat (sb_size (fsb t))) of
       Some bi \<Rightarrow>
         let d = bdata i t in
         rbind (log_write i (put_bdata i (d[bi div 8 := d ! (bi div 8) OR bit_mask bi]) t)) (\<lambda>_ s.
         rbind (brelse i s) (\<lambda>_ s.
         rbind (bzero 1 (of_nat (k * BPB + bi)) s) (\<lambda>_ s.
         Ret (of_nat (k * BPB + bi)) s)))
     | None \<Rightarrow> rbind (brelse i t) (\<lambda>_ s. balloc_loop (map (\<lambda>k. k * BPB) [Suc k..<K]) 1 s))
     (\<lambda>a t. a < sb_size (fsb s) \<and> \<not> used (fsb s) (cview s) a \<and> tx.moved 2 s (allocated (fsb s) a (cview s)) t)"
    proof (cases "free_bit (cview s ?n) (k * BPB) (unat (sb_size (fsb s)))")
      case None
      have "wp (rbind (brelse i t) (\<lambda>_ s. balloc_loop (map (\<lambda>k. k * BPB) [Suc k..<K]) 1 s))
         (\<lambda>a t. a < sb_size (fsb s) \<and> \<not> used (fsb s) (cview s) a \<and> tx.moved 2 s (allocated (fsb s) a (cview s)) t)"
      proof (rule wp_rbindI [OF close [OF tx.opened_moved [OF t] tx.opened_clean [OF inv n(2) t]]])
        fix x u assume su: "tx.moved 0 s (cview s) u"
        note f = moved_fs [OF su]
        have "Suc k * BPB \<le> unat b"
        proof (rule ccontr)
          assume "\<not> Suc k * BPB \<le> unat b"
          then have bi: "unat b = k * BPB + (unat b - k * BPB)" "unat b - k * BPB < BPB" using Suc.prems(5) by auto
          then have lt: "k * BPB + (unat b - k * BPB) < unat (sb_size (fsb s))" using bsz by linarith
          have eq: "of_nat (k * BPB + (unat b - k * BPB)) = b" using bi(1) by simp
          have "used_bit (cview s ?n) (unat b - k * BPB)" using free_bit_None [OF None bi(2) lt] .
          then have "used (fsb s) (cview s) b"
            using base_block(3,4) [OF l lt bi(2)] unfolding eq by (simp add: used_def)
          then show False using Suc.prems(6) by simp
        qed
        then have "wp (balloc_loop (map (\<lambda>k. k * BPB) [Suc k..<K]) 1 u) (\<lambda>a t. a < sb_size (fsb u) \<and> \<not> used (fsb u) (cview u) a \<and>
          tx.moved 2 u (allocated (fsb u) a (cview u)) t)"
          using Suc.prems Suc(2) alloc_ok_moved0 [OF Suc.prems(1) su] f
          by (intro Suc.hyps(1)) simp_all
        then show "wp (balloc_loop (map (\<lambda>k. k * BPB) [Suc k..<K]) 1 u)
          (\<lambda>a t. a < sb_size (fsb s) \<and> \<not> used (fsb s) (cview s) a \<and> tx.moved 2 s (allocated (fsb s) a (cview s)) t)"
          using f tx.moved_after0 [OF su] by (elim wp_mono) auto
      qed
      then show ?thesis by (simp only: d fr None option.case)
    next
      case (Some bi)
      note fb = free_bit_Some [OF Some]
      have lt: "k * BPB + bi < unat (sb_size (fsb s))" using fb by simp
      obtain a :: u32 where ae: "of_nat (k * BPB + bi) = a" by blast
      note a = base_block [OF l lt conjunct1 [OF fb], unfolded ae]
      let ?v = "cview s"
      have na: "\<not> used (fsb s) ?v a" using fb a(3,4) by (simp add: used_def)
      have am: "a \<notin> hblocks s" using na Suc.prems(1) by (auto simp: alloc_ok_def)
      have ad: "a < disksize s" using l by (intro order.strict_trans2 [OF a(2)]) (simp add: layout_ok_def)
      let ?d = "set_bit_at (?v ?n) bi"
      have len: "length ?d = BSIZE" using tx.view_size [OF inv] by simp
      have bt: "0 < txn_budget t" using ti(4) Suc.prems(3) by simp
      have "wp (rbind (log_write i (put_bdata i ?d t)) (\<lambda>_ s. rbind (brelse i s) (\<lambda>_ s. rbind (bzero 1 a s) (\<lambda>_ s. Ret a s))))
        (\<lambda>a t. a < sb_size (fsb s) \<and> \<not> used (fsb s) ?v a \<and> tx.moved 2 s (allocated (fsb s) a ?v) t)"
      proof (rule wp_rbindI [OF tx.change_block [OF ti(1,2) bt len]], elim conjE)
        fix x u assume u: "tx.moved 1 t ((cview t)(?n := ?d)) u" "txn_clean u ?n"
        show "wp (rbind (brelse i u) (\<lambda>_ s. rbind (bzero 1 a s) (\<lambda>_ s. Ret a s)))
          (\<lambda>a t. a < sb_size (fsb s) \<and> \<not> used (fsb s) ?v a \<and> tx.moved 2 s (allocated (fsb s) a ?v) t)"
        proof (rule wp_rbindI [OF close [OF u]])
          fix y w assume sw: "tx.moved 1 s ((cview t)(?n := ?d)) w"
          note f = moved_fs [OF sw]
          have "wp (bzero 1 a w) (\<lambda>_ z. tx.moved 1 w ((cview w)(a := zeros)) z)"
            using f am ad Suc.prems(2,3) by (intro bzero_law) auto
          then have "wp (bzero 1 a w) (\<lambda>_ z. tx.moved 2 s (allocated (fsb s) a ?v) z)"
            using tx.moved_trans [OF sw, of 1] f(5) a(3,4) ti(3) by (elim wp_mono) (simp add: allocated_def numeral_2_eq_2)
          then show "wp (rbind (bzero 1 a w) (\<lambda>_ s. Ret a s))
            (\<lambda>a t. a < sb_size (fsb s) \<and> \<not> used (fsb s) ?v a \<and> tx.moved 2 s (allocated (fsb s) a ?v) t)"
            using a(2) na by (simp add: wp_rbind)
        qed
      qed
      then show ?thesis by (simp only: d fr Some option.case Let_def set_bit_at_def ae)
    qed
  qed
qed

lemma used_cong: "v (BBLOCK b sb) = w (BBLOCK b sb) \<Longrightarrow> used sb v b = used sb w b"
  by (simp add: used_def)

lemma used_data_upd:
  assumes "layout_ok s" "data_start (fsb s) \<le> unat a" "b < sb_size (fsb s)"
  shows "used (fsb s) (v(a := d)) b = used (fsb s) v b"
proof (rule used_cong)
  have "BBLOCK b (fsb s) \<in> bitmap (fsb s)" using assms(3) by (auto simp: bitmap_def)
  from bitmap_before(1) [OF assms(1) this] show "(v(a := d)) (BBLOCK b (fsb s)) = v (BBLOCK b (fsb s))"
    using assms(2) by auto
qed

lemma used_allocated:
  assumes "layout_ok s" "a < sb_size (fsb s)" "b < sb_size (fsb s)" "data_start (fsb s) \<le> unat a" "\<And>n. length (v n) = BSIZE"
  shows "used (fsb s) (allocated (fsb s) a v) b \<longleftrightarrow> b = a \<or> used (fsb s) v b"
  unfolding allocated_def used_data_upd [OF assms(1,4,3)] by (rule used_upd(1) [OF assms(1,2,3,5)])

lemma alloc_ok_view:
  assumes "alloc_ok s" "fsb t = fsb s" "disksize t = disksize s" "txn_inv t" "hblocks t = hblocks s"
    "\<And>b. b < sb_size (fsb s) \<Longrightarrow> used (fsb s) (cview s) b \<Longrightarrow> unat b < data_start (fsb s) \<or> b \<in> hblocks s \<Longrightarrow> used (fsb s) (cview t) b"
    "\<And>h. h \<in> hblocks s \<Longrightarrow> h < sb_size (fsb s)"
  shows "alloc_ok t"
proof -
  have "b < sb_size (fsb s)" if "unat b < data_start (fsb s)" for b
    using assms(1) that by (simp add: alloc_ok_def layout_ok_def word_less_nat_alt)
  then show ?thesis using assms by (simp add: alloc_ok_def layout_ok_def)
qed

text \<open>\<open>balloc\<close> returns a data block that was free, marked and zeroed, and changes no other block but the bitmap.\<close>

lemma balloc_law:
  assumes s: "alloc_ok s" "card (hblocks s) < txn_budget s" "2 \<le> txn_budget s" and h: "\<And>h. h \<in> hblocks s \<Longrightarrow> h < sb_size (fsb s)"
    and b: "b < sb_size (fsb s)" "\<not> used (fsb s) (cview s) b"
  shows "wp (balloc 1 s) (\<lambda>a t. a < sb_size (fsb s) \<and> data_start (fsb s) \<le> unat a \<and> \<not> used (fsb s) (cview s) a \<and>
    tx.moved 2 s (allocated (fsb s) a (cview s)) t \<and> alloc_ok t)"
proof -
  have l: "layout_ok s" using s(1) by (simp add: alloc_ok_def)
  have "wp (balloc 1 s) (\<lambda>a t. a < sb_size (fsb s) \<and> \<not> used (fsb s) (cview s) a \<and> tx.moved 2 s (allocated (fsb s) a (cview s)) t)"
    unfolding balloc_def using balloc_loop_law [OF s b(1) _ b(2) refl, of 0] by simp
  then show ?thesis
  proof (rule wp_mono, elim conjE, intro conjI)
    fix a t assume a: "a < sb_size (fsb s)" "\<not> used (fsb s) (cview s) a" and m: "tx.moved 2 s (allocated (fsb s) a (cview s)) t"
    show d: "data_start (fsb s) \<le> unat a" using s(1) a(2) unfolding alloc_ok_def by (meson not_le)
    note f = moved_fs [OF m]
    have "txn_inv s" using s(1) by (simp add: alloc_ok_def)
    then have len: "length (cview s n) = BSIZE" for n by (rule tx.view_size)
    show "alloc_ok t"
      by (rule alloc_ok_view [OF s(1) f(1,3,4,6)]) (use f(5) used_allocated [OF l a(1) _ d len] h in auto)
  qed
qed

text \<open>\<open>bfree\<close> of a block in use clears its bit and nothing else; of a free block it panics.\<close>

lemma bfree_law:
  assumes s: "alloc_ok s" "card (hblocks s) \<le> txn_budget s" "0 < txn_budget s" and b: "b < sb_size (fsb s)"
  shows "if used (fsb s) (cview s) b
    then wp (bfree 1 b s) (\<lambda>_ t. tx.moved 1 s ((cview s)(BBLOCK b (fsb s) := clear_bit_at (cview s (BBLOCK b (fsb s))) (unat b mod BPB))) t)
    else bfree 1 b s = Panic ''freeing free block''"
proof -
  let ?n = "BBLOCK b (fsb s)" and ?bi = "unat b mod BPB"
  have l: "layout_ok s" and inv: "txn_inv s" using s(1) by (simp_all add: alloc_ok_def)
  have n0: "?n \<in> bitmap (fsb s)" using b by (auto simp: bitmap_def)
  have n: "?n < disksize s" "?n \<notin> hblocks s" by (rule bitmap_before(2) [OF l n0], rule bitmap_not_held [OF s(1) n0])
  obtain i t where rd: "bread 1 ?n s = Ret i t" and t: "tx.opened s i ?n t"
    using tx.open_block [OF inv n s(2)] by (auto simp: wp_iff)
  then have ti: "txn_inv t" "mine t i ?n" "0 < txn_budget t" "cview t = cview s" using s(3) by (simp_all add: tx.opened_def)
  note d = tx.opened_data [OF t]
  have z: "cview s ?n ! (?bi div 8) AND bit_mask ?bi = 0 \<longleftrightarrow> \<not> used (fsb s) (cview s) b"
    by (simp add: and_mask_zero used_def used_bit_def)
  let ?d = "clear_bit_at (cview s ?n) ?bi"
  have len: "length ?d = BSIZE" using tx.view_size [OF inv] by simp
  show ?thesis
  proof (cases "used (fsb s) (cview s) b")
    case True
    have "wp (rbind (log_write i (put_bdata i ?d t)) (\<lambda>_ s. brelse i s)) (\<lambda>_ t. tx.moved 1 s ((cview s)(?n := ?d)) t)"
      by (rule wp_rbindI [OF tx.change_block [OF ti(1-3) len]]) (auto simp: ti(4) intro: tx.close_block [OF inv n(2) t])
    moreover have "bfree 1 b s = rbind (log_write i (put_bdata i ?d t)) (\<lambda>_ s. brelse i s)"
      using z True by (simp add: bfree_def rd Let_def d clear_bit_at_def)
    ultimately show ?thesis using True by simp
  next
    case False
    then have "cview s ?n ! (?bi div 8) AND bit_mask ?bi = 0" using z by simp
    then have "bfree 1 b s = Panic ''freeing free block''" unfolding bfree_def rd rbind_simps Let_def d by simp
    then show ?thesis using False by simp
  qed
qed

end
