(* ===== verification/Fs_File.thy ===== *)
theory Fs_File
  imports Fs_Store
begin

text \<open>
  Files: the blocks of an inode as a map from block numbers to contents, and what \<open>bmap\<close>, \<open>readi\<close> and \<open>writei\<close> do to
  it.
\<close>

section \<open>The block map\<close>

text \<open>The block with number \<open>bn\<close> of the file with the addresses \<open>A\<close> (0 for a hole), and its contents.\<close>

definition fblk :: "(u32 \<Rightarrow> block) \<Rightarrow> u32 list \<Rightarrow> nat \<Rightarrow> u32" where
  "fblk v A bn =
     (if bn < NDIRECT then A ! bn
      else if A ! NDIRECT = 0 then 0 else at32 (v (A ! NDIRECT)) (4 * (bn - NDIRECT)))"

definition content :: "(u32 \<Rightarrow> block) \<Rightarrow> u32 list \<Rightarrow> nat \<Rightarrow> block" where
  "content v A bn = (if fblk v A bn = 0 then zeros else v (fblk v A bn))"

definition data_block :: "superblock \<Rightarrow> u32 \<Rightarrow> bool" where
  "data_block sb b \<longleftrightarrow> data_start sb \<le> unat b \<and> b < sb_size sb"

definition own :: "(u32 \<Rightarrow> block) \<Rightarrow> u32 list \<Rightarrow> u32 set" where
  "own v A = insert (A ! NDIRECT) (fblk v A ` {..<MAXFILE}) - {0}"

text \<open>The blocks of a file are data blocks in use, and no block is used twice.\<close>

definition file_ok :: "superblock \<Rightarrow> (u32 \<Rightarrow> block) \<Rightarrow> u32 list \<Rightarrow> bool" where
  "file_ok sb v A \<longleftrightarrow> length A = NDIRECT + 1 \<and> (\<forall>b \<in> own v A. data_block sb b \<and> used sb v b) \<and>
     (\<forall>bn < MAXFILE. fblk v A bn \<noteq> 0 \<longrightarrow> fblk v A bn \<noteq> A ! NDIRECT \<and>
        (\<forall>bm < MAXFILE. fblk v A bm = fblk v A bn \<longrightarrow> bm = bn))"

lemma data_block_pos: "data_block sb b \<Longrightarrow> b \<noteq> 0"
  by (auto simp: data_block_def data_start_def)

text \<open>A new block \<open>a\<close> at \<open>bn\<close>, where there was a hole.\<close>

lemma add_block:
  assumes f: "file_ok sb v A" and bn: "bn < MAXFILE" "fblk v A bn = 0"
    and a: "data_block sb a" "\<not> used sb v a" "used sb v' a" "v' a = zeros"
    and len: "length A' = NDIRECT + 1" and ind: "A' ! NDIRECT = A ! NDIRECT"
    and blk: "\<And>bm. bm < MAXFILE \<Longrightarrow> fblk v' A' bm = (if bm = bn then a else fblk v A bm)"
    and same: "\<And>b. b \<in> own v A \<Longrightarrow> used sb v' b \<and> (b \<noteq> A ! NDIRECT \<longrightarrow> v' b = v b)"
  shows "file_ok sb v' A'" "own v' A' = insert a (own v A)" "\<forall>bm < MAXFILE. content v' A' bm = content v A bm"
proof -
  have a0: "a \<noteq> 0" using a(1) by (rule data_block_pos)
  have ao: "a \<notin> own v A" using f a(2) by (auto simp: file_ok_def)
  have img: "fblk v' A' ` {..<MAXFILE} - {0} = insert a (fblk v A ` {..<MAXFILE}) - {0}"
    using blk bn by (auto simp: image_iff split: if_splits)
  then show o: "own v' A' = insert a (own v A)" using a0 unfolding own_def ind by auto
  have na: "fblk v A bm \<noteq> a" if "bm < MAXFILE" for bm using ao a0 that by (auto simp: own_def)
  have ni: "A ! NDIRECT \<noteq> a" using ao a0 by (auto simp: own_def)
  show "file_ok sb v' A'"
    unfolding file_ok_def o
  proof (intro conjI ballI allI impI)
    fix b assume "b \<in> insert a (own v A)"
    then show "data_block sb b" "used sb v' b" using f a same by (auto simp: file_ok_def)
  next
    fix bm assume bm: "bm < MAXFILE" "fblk v' A' bm \<noteq> 0"
    then show "fblk v' A' bm \<noteq> A' ! NDIRECT" using f ni blk by (auto simp: file_ok_def ind)
    fix bk assume bk: "bk < MAXFILE" "fblk v' A' bk = fblk v' A' bm"
    then show "bk = bm" using f bm blk na by (auto simp: file_ok_def split: if_splits)
  qed (rule len)
  show "\<forall>bm < MAXFILE. content v' A' bm = content v A bm"
  proof (intro allI impI)
    fix bm assume bm: "bm < MAXFILE"
    show "content v' A' bm = content v A bm"
    proof (cases "bm = bn \<or> fblk v A bm = 0")
      case True
      then show ?thesis using bm bn a a0 blk by (auto simp: content_def)
    next
      case False
      then have "fblk v A bm \<in> own v A" "fblk v A bm \<noteq> A ! NDIRECT" using bm f by (auto simp: own_def file_ok_def)
      then show ?thesis using False bm blk same by (simp add: content_def)
    qed
  qed
qed

lemma own_data: "file_ok sb v A \<Longrightarrow> b \<in> own v A \<Longrightarrow> data_block sb b \<and> used sb v b"
  by (simp add: file_ok_def)

lemma allocated_at:
  assumes "layout_ok s" "data_block (fsb s) a"
  shows "allocated (fsb s) a v a = zeros" "data_start (fsb s) \<le> unat b \<Longrightarrow> b \<noteq> a \<Longrightarrow> allocated (fsb s) a v b = v b"
    "b \<notin> bitmap (fsb s) \<Longrightarrow> b \<noteq> a \<Longrightarrow> allocated (fsb s) a v b = v b"
proof -
  have m: "BBLOCK a (fsb s) \<in> bitmap (fsb s)" using assms(2) by (auto simp: bitmap_def data_block_def)
  show "allocated (fsb s) a v a = zeros" by (simp add: allocated_def)
  show "allocated (fsb s) a v b = v b" if "data_start (fsb s) \<le> unat b" "b \<noteq> a"
    using bitmap_before(1) [OF assms(1) m] that by (auto simp: allocated_def)
  show "allocated (fsb s) a v b = v b" if "b \<notin> bitmap (fsb s)" "b \<noteq> a" using m that by (auto simp: allocated_def)
qed

lemma used_data:
  assumes "layout_ok s" "data_block (fsb s) a" "b < sb_size (fsb s)" "\<And>n. length (v n) = BSIZE"
  shows "used (fsb s) (allocated (fsb s) a v) b \<longleftrightarrow> b = a \<or> used (fsb s) v b"
  using used_allocated [OF assms(1) _ assms(3) _ assms(4)] assms(2) by (simp add: data_block_def)

lemma alloc_direct:
  assumes l: "layout_ok s" and f: "file_ok (fsb s) v A" and bn: "bn < NDIRECT" "A ! bn = 0"
    and a: "data_block (fsb s) a" "\<not> used (fsb s) v a" and len: "\<And>n. length (v n) = BSIZE"
  defines "v' \<equiv> allocated (fsb s) a v" and "A' \<equiv> A[bn := a]"
  shows "file_ok (fsb s) v' A' \<and> own v' A' = insert a (own v A) \<and> (\<forall>bm < MAXFILE. content v' A' bm = content v A bm) \<and>
    (\<forall>bm < MAXFILE. fblk v A bm \<noteq> 0 \<longrightarrow> fblk v' A' bm = fblk v A bm)"
proof -
  have lA: "length A = NDIRECT + 1" using f by (simp add: file_ok_def)
  have ind: "v' (A ! NDIRECT) = v (A ! NDIRECT)" if "A ! NDIRECT \<noteq> 0"
  proof -
    have "A ! NDIRECT \<in> own v A" using that by (simp add: own_def)
    then have "data_block (fsb s) (A ! NDIRECT)" "used (fsb s) v (A ! NDIRECT)" using own_data [OF f] by auto
    then show ?thesis unfolding v'_def using allocated_at(2) [OF l a(1)] a(2) by (auto simp: data_block_def)
  qed
  have blk: "fblk v' A' bm = (if bm = bn then a else fblk v A bm)" for bm
    using bn lA ind by (auto simp: fblk_def A'_def)
  have same: "used (fsb s) v' b \<and> (b \<noteq> A ! NDIRECT \<longrightarrow> v' b = v b)" if "b \<in> own v A" for b
  proof -
    have "data_block (fsb s) b" "used (fsb s) v b" using own_data [OF f that] by auto
    then show ?thesis
      unfolding v'_def using used_data [OF l a(1) _ len] allocated_at(2) [OF l a(1)] a(2) by (auto simp: data_block_def)
  qed
  have bn': "bn < MAXFILE" "fblk v A bn = 0" using bn by (simp_all add: MAXFILE_def fblk_def)
  have u: "used (fsb s) v' a" "v' a = zeros"
    unfolding v'_def using used_data [OF l a(1) _ len] allocated_at(1) [OF l a(1)] a(1) by (simp_all add: data_block_def)
  have "length A' = NDIRECT + 1" "A' ! NDIRECT = A ! NDIRECT" using lA bn(1) by (simp_all add: A'_def)
  from add_block [OF f bn' a u this blk same] show ?thesis using blk bn'(2) by auto
qed

lemma alloc_entry:
  assumes l: "layout_ok s" and f: "file_ok (fsb s) v A" and bn: "NDIRECT \<le> bn" "bn < MAXFILE" "fblk v A bn = 0" "A ! NDIRECT \<noteq> 0"
    and a: "data_block (fsb s) a" "\<not> used (fsb s) v a" and len: "\<And>n. length (v n) = BSIZE"
  defines "v' \<equiv> (allocated (fsb s) a v)(A ! NDIRECT := overwrite (v (A ! NDIRECT)) (4 * (bn - NDIRECT)) (le32 a))"
  shows "file_ok (fsb s) v' A \<and> own v' A = insert a (own v A) \<and> (\<forall>bm < MAXFILE. content v' A bm = content v A bm) \<and>
    (\<forall>bm < MAXFILE. fblk v A bm \<noteq> 0 \<longrightarrow> fblk v' A bm = fblk v A bm)"
proof -
  let ?i = "A ! NDIRECT"
  have lA: "length A = NDIRECT + 1" using f by (simp add: file_ok_def)
  have io: "?i \<in> own v A" using bn(4) by (simp add: own_def)
  have i: "data_block (fsb s) ?i" "used (fsb s) v ?i" using own_data [OF f io] by auto
  have ia: "?i \<noteq> a" using i(2) a(2) by blast
  have room: "4 * (bm - NDIRECT) + 4 \<le> BSIZE" if "bm < MAXFILE" for bm
    using that by (simp add: MAXFILE_def NINDIRECT_def NDIRECT_def BSIZE_def)
  have e: "at32 (v' ?i) (4 * (bm - NDIRECT)) = (if bm = bn then a else at32 (v ?i) (4 * (bm - NDIRECT)))"
    if "NDIRECT \<le> bm" "bm < MAXFILE" for bm
  proof (cases "bm = bn")
    case True
    then show ?thesis using len room [OF bn(2)] by (simp add: v'_def at32_same)
  next
    case False
    then have "4 * (bm - NDIRECT) + 4 \<le> 4 * (bn - NDIRECT) \<or> 4 * (bn - NDIRECT) + 4 \<le> 4 * (bm - NDIRECT)"
      using that(1) bn(1) by linarith
    then have "at32 (overwrite (v ?i) (4 * (bn - NDIRECT)) (le32 a)) (4 * (bm - NDIRECT)) = at32 (v ?i) (4 * (bm - NDIRECT))"
      using len room [OF that(2)] room [OF bn(2)] by (intro at32_outside) simp_all
    then show ?thesis using False by (simp add: v'_def)
  qed
  have blk: "fblk v' A bm = (if bm = bn then a else fblk v A bm)" if "bm < MAXFILE" for bm
    using bn e [of bm] that by (auto simp: fblk_def)
  have ud: "used (fsb s) v' b = used (fsb s) (allocated (fsb s) a v) b" if "b < sb_size (fsb s)" for b
    unfolding v'_def by (rule used_data_upd [OF l]) (use i(1) that in \<open>simp_all add: data_block_def\<close>)
  have same: "used (fsb s) v' b \<and> (b \<noteq> ?i \<longrightarrow> v' b = v b)" if "b \<in> own v A" for b
  proof -
    have "data_block (fsb s) b" "used (fsb s) v b" using own_data [OF f that] by auto
    moreover from this have "used (fsb s) v' b" using ud used_data [OF l a(1) _ len] by (simp add: data_block_def)
    ultimately show ?thesis
      using allocated_at(2) [OF l a(1), of b v] a(2) by (auto simp: data_block_def v'_def)
  qed
  have u: "used (fsb s) v' a" "v' a = zeros"
    using used_data [OF l a(1) _ len] allocated_at(1) [OF l a(1)] a(1) ud ia by (simp_all add: data_block_def v'_def)
  from add_block [OF f bn(2,3) a u lA refl blk same] show ?thesis using blk bn(3) by auto
qed

lemma alloc_indirect:
  assumes l: "layout_ok s" and f: "file_ok (fsb s) v A" and z: "A ! NDIRECT = 0"
    and a: "data_block (fsb s) a" "\<not> used (fsb s) v a" and len: "\<And>n. length (v n) = BSIZE"
  defines "v' \<equiv> allocated (fsb s) a v" and "A' \<equiv> A[NDIRECT := a]"
  shows "file_ok (fsb s) v' A' \<and> own v' A' = insert a (own v A) \<and> (\<forall>bm < MAXFILE. content v' A' bm = content v A bm) \<and>
    (\<forall>bm < MAXFILE. fblk v A bm \<noteq> 0 \<longrightarrow> fblk v' A' bm = fblk v A bm)"
proof -
  have lA: "length A = NDIRECT + 1" using f by (simp add: file_ok_def)
  have a0: "a \<noteq> 0" using a(1) by (rule data_block_pos)
  have A': "A' ! NDIRECT = a" using lA by (simp add: A'_def)
  have za: "v' a = zeros" unfolding v'_def by (rule allocated_at(1) [OF l a(1)])
  have blk: "fblk v' A' bm = fblk v A bm" if "bm < MAXFILE" for bm
  proof (cases "bm < NDIRECT")
    case True
    then show ?thesis using lA by (simp add: fblk_def A'_def)
  next
    case False
    then have "4 * (bm - NDIRECT) + 4 \<le> BSIZE" using that by (simp add: MAXFILE_def NINDIRECT_def NDIRECT_def BSIZE_def)
    then show ?thesis using False z A' a0 za by (simp add: fblk_def zeros_def at32_replicate)
  qed
  have own_v: "own v A = fblk v A ` {..<MAXFILE} - {0}" using z by (auto simp: own_def)
  have "fblk v' A' ` {..<MAXFILE} = fblk v A ` {..<MAXFILE}" using blk by (intro image_cong) auto
  then have o: "own v' A' = insert a (own v A)" using a0 unfolding own_v unfolding own_def A' by auto
  have ao: "a \<notin> own v A" using f a(2) by (auto simp: file_ok_def)
  have same: "used (fsb s) v' b \<and> v' b = v b" if "b \<in> own v A" for b
  proof -
    have "data_block (fsb s) b" "used (fsb s) v b" using own_data [OF f that] by auto
    then show ?thesis
      unfolding v'_def using used_data [OF l a(1) _ len] allocated_at(2) [OF l a(1)] a(2) by (auto simp: data_block_def)
  qed
  have ua: "used (fsb s) v' a" unfolding v'_def using used_data [OF l a(1) _ len] a(1) by (simp add: data_block_def)
  have "file_ok (fsb s) v' A'"
    unfolding file_ok_def o A'
  proof (intro conjI ballI allI impI)
    show "length A' = NDIRECT + 1" using lA by (simp add: A'_def)
    fix b assume "b \<in> insert a (own v A)"
    then show "data_block (fsb s) b" "used (fsb s) v' b" using a(1) ua own_data [OF f] same by auto
  next
    fix bn assume bn: "bn < MAXFILE" "fblk v' A' bn \<noteq> 0"
    then have "fblk v A bn \<in> own v A" using blk by (simp add: own_v)
    then show "fblk v' A' bn \<noteq> a" using ao bn(1) blk by auto
    fix bm assume "bm < MAXFILE" "fblk v' A' bm = fblk v' A' bn"
    then show "bm = bn" using f bn blk by (simp add: file_ok_def)
  qed
  moreover have "content v' A' bm = content v A bm" if "bm < MAXFILE" for bm
  proof (cases "fblk v A bm = 0")
    case False
    then have "fblk v A bm \<in> own v A" using that by (simp add: own_v)
    then show ?thesis using same that blk by (simp add: content_def)
  qed (use that blk in \<open>simp add: content_def\<close>)
  ultimately show ?thesis using o blk by simp
qed

section \<open>Operations on the inode in memory\<close>

lemma icache_upd [simp]:
  fixes s :: "'z fssys_scheme"
  shows "txn_inv (s\<lparr>icache := c\<rparr>) = txn_inv s" "cview (s\<lparr>icache := c\<rparr>) = cview s" "hblocks (s\<lparr>icache := c\<rparr>) = hblocks s"
    "txn_budget (s\<lparr>icache := c\<rparr>) = txn_budget s" "layout_ok (s\<lparr>icache := c\<rparr>) = layout_ok s" "alloc_ok (s\<lparr>icache := c\<rparr>) = alloc_ok s"
proof -
  show v: "cview (s\<lparr>icache := c\<rparr>) = cview s" "hblocks (s\<lparr>icache := c\<rparr>) = hblocks s"
    by (simp_all add: cview_def hblocks_def cached_def fun_eq_iff cong: option.case_cong)
  show b: "txn_budget (s\<lparr>icache := c\<rparr>) = txn_budget s" "layout_ok (s\<lparr>icache := c\<rparr>) = layout_ok s"
    by (simp_all add: txn_budget_def layout_ok_def)
  have "bio_inv (s\<lparr>icache := c\<rparr>) = bio_inv s"
    by (simp add: bio_inv_def binv_def lru_def bufok_def buniq_def nx_def pv_def kready_def cpu_ok_def lfree_def
        me_def me_opt_def)
  then show i: "txn_inv (s\<lparr>icache := c\<rparr>) = txn_inv s"
    by (simp add: txn_inv_def logged_def dirtyb_def cached_def)
  show "alloc_ok (s\<lparr>icache := c\<rparr>) = alloc_ok s" by (simp add: alloc_ok_def i v b)
qed

abbreviation addrs_of :: "nat \<Rightarrow> 'z fssys_scheme \<Rightarrow> u32 list" where
  "addrs_of ip s \<equiv> i_addrs (icache s ip)"

definition frees :: "'z fssys_scheme \<Rightarrow> u32 set" where
  "frees s = {b. b < sb_size (fsb s) \<and> \<not> used (fsb s) (cview s) b}"

text \<open>The contents of the blocks of the file with inode \<open>ip\<close>.\<close>

definition fcontent :: "nat \<Rightarrow> 'z fssys_scheme \<Rightarrow> nat \<Rightarrow> block" where
  "fcontent ip s = content (cview s) (addrs_of ip s)"

definition inode_ok :: "nat \<Rightarrow> 'z fssys_scheme \<Rightarrow> bool" where
  "inode_ok ip s \<longleftrightarrow> alloc_ok s \<and> hblocks s = {} \<and> i_dev (icache s ip) = 1 \<and>
     file_ok (fsb s) (cview s) (addrs_of ip s)"

text \<open>Inodes that differ at most in their addresses.\<close>

definition same_inode :: "inode \<Rightarrow> inode \<Rightarrow> bool" where
  "same_inode x y \<longleftrightarrow> x\<lparr>i_addrs := []\<rparr> = y\<lparr>i_addrs := []\<rparr>"

lemma same_inode_refl [simp]: "same_inode x x" "same_inode (x\<lparr>i_addrs := A\<rparr>) x"
  by (simp_all add: same_inode_def)

lemma same_inode_trans: "same_inode x y \<Longrightarrow> same_inode y z \<Longrightarrow> same_inode x z"
  by (simp add: same_inode_def)

lemma same_inode_fields:
  assumes "same_inode x y"
  shows "i_dev x = i_dev y" "i_inum x = i_inum y" "i_ref x = i_ref y" "i_valid x = i_valid y" "i_type x = i_type y"
    "i_major x = i_major y" "i_minor x = i_minor y" "i_nlink x = i_nlink y" "i_size x = i_size y"
  using assms by (cases x; cases y; simp add: same_inode_def)+

text \<open>\<open>grown ip k n s t\<close>: the file of inode \<open>ip\<close> may have got new blocks, at most \<open>n\<close>, at the price of at most \<open>k\<close> logged
  blocks; blocks of others and their marks are as before.\<close>

definition grown :: "nat \<Rightarrow> nat \<Rightarrow> nat \<Rightarrow> 'z fssys_scheme \<Rightarrow> 'z fssys_scheme \<Rightarrow> bool" where
  "grown ip k n s t \<longleftrightarrow> inode_ok ip t \<and> fsb t = fsb s \<and> disksize t = disksize s \<and> txn_budget s \<le> txn_budget t + k \<and>
     card (frees s) \<le> card (frees t) + n \<and> (\<forall>i. i \<noteq> ip \<longrightarrow> icache t i = icache s i) \<and> same_inode (icache t ip) (icache s ip) \<and>
     (\<forall>bm < MAXFILE. fblk (cview s) (addrs_of ip s) bm \<noteq> 0 \<longrightarrow>
        fblk (cview t) (addrs_of ip t) bm = fblk (cview s) (addrs_of ip s) bm) \<and>
     (\<forall>b. b < sb_size (fsb s) \<and> used (fsb s) (cview s) b \<longrightarrow> used (fsb s) (cview t) b \<and>
        (b \<notin> bitmap (fsb s) \<and> b \<notin> own (cview s) (addrs_of ip s) \<longrightarrow>
           cview t b = cview s b \<and> b \<notin> own (cview t) (addrs_of ip t)))"

lemma grown_refl: "inode_ok ip s \<Longrightarrow> grown ip 0 0 s s"
  by (simp add: grown_def)

lemma grown_trans:
  assumes "grown ip k n s t" "grown ip k' n' t u"
  shows "grown ip (k + k') (n + n') s u"
  using assms unfolding grown_def by (auto intro: same_inode_trans)

lemma grown_mono: "grown ip k n s t \<Longrightarrow> k \<le> k' \<Longrightarrow> n \<le> n' \<Longrightarrow> grown ip k' n' s t"
  by (auto simp: grown_def)

lemma finite_frees [simp]: "finite (frees s)"
  by (rule finite_subset [OF subset_UNIV]) simp

text \<open>One new block \<open>a\<close>.\<close>

lemma grownI:
  assumes s: "inode_ok ip s" and a: "data_block (fsb s) a" "\<not> used (fsb s) (cview s) a"
    and t: "txn_inv t" "fsb t = fsb s" "disksize t = disksize s" "hblocks t = {}" "txn_budget s \<le> txn_budget t + k"
    and ic: "\<And>i. i \<noteq> ip \<Longrightarrow> icache t i = icache s i" "same_inode (icache t ip) (icache s ip)"
    and f: "file_ok (fsb s) (cview t) (addrs_of ip t)" "own (cview t) (addrs_of ip t) = insert a (own (cview s) (addrs_of ip s))"
    and g: "\<forall>bm < MAXFILE. fblk (cview s) (addrs_of ip s) bm \<noteq> 0 \<longrightarrow>
      fblk (cview t) (addrs_of ip t) bm = fblk (cview s) (addrs_of ip s) bm"
    and u: "\<And>b. b < sb_size (fsb s) \<Longrightarrow> used (fsb s) (cview t) b \<longleftrightarrow> b = a \<or> used (fsb s) (cview s) b"
    and v: "\<And>b. b \<notin> bitmap (fsb s) \<Longrightarrow> b \<noteq> a \<Longrightarrow> b \<notin> own (cview s) (addrs_of ip s) \<Longrightarrow> cview t b = cview s b"
  shows "grown ip k 1 s t"
proof -
  have ao: "alloc_ok s" using s by (simp add: inode_ok_def)
  have "alloc_ok t"
    by (rule alloc_ok_view [OF ao t(2,3,1)]) (use s t(4) u in \<open>auto simp: inode_ok_def\<close>)
  moreover have "frees s = insert a (frees t)" using a u t(2) by (auto simp: frees_def data_block_def)
  then have "card (frees s) \<le> card (frees t) + 1" by (simp add: card_insert_if)
  moreover have "i_dev (icache t ip) = 1" using s same_inode_fields(1) [OF ic(2)] by (simp add: inode_ok_def)
  ultimately have "inode_ok ip t" "card (frees s) \<le> card (frees t) + 1" using t(2,4) f(1) by (simp_all add: inode_ok_def)
  moreover have "used (fsb s) (cview t) b \<and> (b \<notin> bitmap (fsb s) \<and> b \<notin> own (cview s) (addrs_of ip s) \<longrightarrow>
           cview t b = cview s b \<and> b \<notin> own (cview t) (addrs_of ip t))" if "b < sb_size (fsb s)" "used (fsb s) (cview s) b" for b
    using that u v a(2) f(2) by auto
  ultimately show ?thesis using t ic g by (simp add: grown_def)
qed

section \<open>The block of a position\<close>

text \<open>\<open>kept ip k n s t\<close>: as \<open>grown\<close>, and the contents of the file are as before.\<close>

definition kept :: "nat \<Rightarrow> nat \<Rightarrow> nat \<Rightarrow> 'z fssys_scheme \<Rightarrow> 'z fssys_scheme \<Rightarrow> bool" where
  "kept ip k n s t \<longleftrightarrow> grown ip k n s t \<and> (\<forall>bm < MAXFILE. fcontent ip t bm = fcontent ip s bm)"

lemma kept_refl: "inode_ok ip s \<Longrightarrow> kept ip 0 0 s s"
  by (simp add: kept_def grown_refl)

lemma kept_trans: "kept ip k n s t \<Longrightarrow> kept ip k' n' t u \<Longrightarrow> kept ip (k + k') (n + n') s u"
  using grown_trans [of ip k n s t k' n' u] by (simp add: kept_def)

lemma kept_mono: "kept ip k n s t \<Longrightarrow> k \<le> k' \<Longrightarrow> n \<le> n' \<Longrightarrow> kept ip k' n' s t"
  using grown_mono [of ip k n s t k' n'] by (simp add: kept_def)

lemma kept_inode: "kept ip k n s t \<Longrightarrow> inode_ok ip t"
  by (simp add: kept_def grown_def)

lemma alloc_addr:
  assumes l: "layout_ok s" and f: "file_ok (fsb s) v A" and k: "k \<le> NDIRECT" "A ! k = 0"
    and a: "data_block (fsb s) a" "\<not> used (fsb s) v a" and len: "\<And>n. length (v n) = BSIZE"
  shows "file_ok (fsb s) (allocated (fsb s) a v) (A[k := a]) \<and> own (allocated (fsb s) a v) (A[k := a]) = insert a (own v A) \<and>
    (\<forall>bm < MAXFILE. content (allocated (fsb s) a v) (A[k := a]) bm = content v A bm) \<and>
    (\<forall>bm < MAXFILE. fblk v A bm \<noteq> 0 \<longrightarrow> fblk (allocated (fsb s) a v) (A[k := a]) bm = fblk v A bm)"
proof (cases "k < NDIRECT")
  case True
  then show ?thesis using alloc_direct [OF l f True k(2) a len] by blast
next
  case False
  then have "k = NDIRECT" using k(1) by simp
  then show ?thesis using alloc_indirect [OF l f _ a len] k(2) by blast
qed

text \<open>A missing address in the inode is filled with a new block.\<close>

lemma fill_addr_law:
  assumes s: "inode_ok ip s" and k: "k \<le> NDIRECT" "addrs_of ip s ! k = 0"
    and c: "2 \<le> txn_budget s" "1 \<le> card (frees s)"
  shows "wp (rbind (balloc (i_dev (icache s ip)) s) (\<lambda>a s. Ret a (set_addr ip k a s)))
    (\<lambda>a t. kept ip 2 1 s t \<and> addrs_of ip t ! k = a \<and> a \<noteq> 0)"
proof -
  let ?v = "cview s" and ?A = "addrs_of ip s"
  have ao: "alloc_ok s" and h: "hblocks s = {}" and dev: "i_dev (icache s ip) = 1" and f: "file_ok (fsb s) ?v ?A"
    using s by (simp_all add: inode_ok_def)
  have l: "layout_ok s" and inv: "txn_inv s" using ao by (simp_all add: alloc_ok_def)
  note len = tx.view_size [OF inv]
  have "frees s \<noteq> {}" using c(2) by auto
  then obtain b where b: "b < sb_size (fsb s)" "\<not> used (fsb s) ?v b" by (auto simp: frees_def)
  have B: "wp (balloc 1 s) (\<lambda>a t. a < sb_size (fsb s) \<and> data_start (fsb s) \<le> unat a \<and> \<not> used (fsb s) ?v a \<and>
    tx.moved 2 s (allocated (fsb s) a ?v) t \<and> alloc_ok t)"
    by (rule balloc_law [OF ao _ c(1) _ b]) (use h c in simp_all)
  show ?thesis
    unfolding dev
  proof (rule wp_rbindI [OF B], elim conjE)
    fix a t assume a: "a < sb_size (fsb s)" "data_start (fsb s) \<le> unat a" "\<not> used (fsb s) ?v a"
      and m: "tx.moved 2 s (allocated (fsb s) a ?v) t"
    note fr = moved_fs [OF m]
    let ?t = "set_addr ip k a t"
    have db: "data_block (fsb s) a" using a by (simp add: data_block_def)
    have A: "addrs_of ip ?t = ?A[k := a]" by (simp add: set_addr_def set_inode_def fr)
    note n = alloc_addr [OF l f k db a(3) len]
    have lA: "length ?A = NDIRECT + 1" using f by (simp add: file_ok_def)
    have v: "cview ?t = allocated (fsb s) a ?v" by (simp add: set_addr_def set_inode_def fr)
    have "grown ip 2 1 s ?t"
    proof (rule grownI [OF s db a(3)])
      show "file_ok (fsb s) (cview ?t) (addrs_of ip ?t)" "own (cview ?t) (addrs_of ip ?t) = insert a (own ?v ?A)"
        "\<forall>bm < MAXFILE. fblk ?v ?A bm \<noteq> 0 \<longrightarrow> fblk (cview ?t) (addrs_of ip ?t) bm = fblk ?v ?A bm"
        unfolding A v using n by simp_all
      show "used (fsb s) (cview ?t) b \<longleftrightarrow> b = a \<or> used (fsb s) ?v b" if "b < sb_size (fsb s)" for b
        unfolding v by (rule used_data [OF l db that len])
      show "cview ?t b = ?v b" if "b \<notin> bitmap (fsb s)" "b \<noteq> a" for b
        unfolding v using allocated_at(3) [OF l db that] .
      show "same_inode (icache ?t ip) (icache s ip)"
        by (simp add: set_addr_def set_inode_def fr)
    qed (use fr(7) in \<open>simp_all add: set_addr_def set_inode_def fr h\<close>)
    moreover have "fcontent ip ?t bm = fcontent ip s bm" if "bm < MAXFILE" for bm
      unfolding fcontent_def A v using n that by simp
    moreover have "?A[k := a] ! k = a" using lA k(1) by simp
    ultimately show "wp (Ret a ?t) (\<lambda>a t. kept ip 2 1 s t \<and> addrs_of ip t ! k = a \<and> a \<noteq> 0)"
      using data_block_pos [OF db] A by (simp add: kept_def)
  qed
qed

text \<open>The second half of \<open>bmap\<close> for a block behind the direct ones: the entry of the indirect block \<open>a\<close>, which is
  allocated while that block is locked.\<close>

lemma kept_read:
  assumes s: "inode_ok ip s" and t: "tx.moved 0 s (cview s) t"
  shows "kept ip 3 1 s t" "addrs_of ip t = addrs_of ip s" "cview t = cview s"
proof -
  note fr = moved_fs [OF t]
  show "addrs_of ip t = addrs_of ip s" "cview t = cview s" by (simp_all add: fr)
  have "alloc_ok t" using alloc_ok_moved0 [OF _ t] s by (simp add: inode_ok_def)
  then have "grown ip 3 1 s t" using s fr by (auto simp: grown_def inode_ok_def frees_def)
  then show "kept ip 3 1 s t" by (simp add: kept_def fcontent_def fr)
qed

lemma kept_entry:
  assumes s: "inode_ok ip s" and i: "i = addrs_of ip s ! NDIRECT" "i \<noteq> 0" and j: "j < NINDIRECT" "at32 (cview s i) (4 * j) = 0"
    and db: "data_block (fsb s) a" "\<not> used (fsb s) (cview s) a"
    and z: "tx.moved 3 s ((allocated (fsb s) a (cview s))(i := overwrite (cview s i) (4 * j) (le32 a))) z"
  shows "kept ip 3 1 s z \<and> addrs_of ip z = addrs_of ip s \<and> a = at32 (cview z i) (4 * j) \<and> a \<noteq> 0"
proof -
  let ?v = "cview s" and ?A = "addrs_of ip s" and ?bn = "NDIRECT + j"
  let ?w = "(allocated (fsb s) a ?v)(i := overwrite (?v i) (4 * j) (le32 a))"
  have ao: "alloc_ok s" and h: "hblocks s = {}" and f: "file_ok (fsb s) ?v ?A"
    using s by (simp_all add: inode_ok_def)
  have l: "layout_ok s" and inv: "txn_inv s" using ao by (simp_all add: alloc_ok_def)
  note len = tx.view_size [OF inv]
  have io: "i \<in> own ?v ?A" using i by (simp add: own_def)
  have di: "data_block (fsb s) i" using own_data [OF f io] by simp
  have bn: "NDIRECT \<le> ?bn" "?bn < MAXFILE" "fblk ?v ?A ?bn = 0" "?A ! NDIRECT \<noteq> 0"
    using j i by (simp_all add: MAXFILE_def fblk_def)
  note e = alloc_entry [OF l f bn db len, unfolded add_diff_cancel_left' i(1) [symmetric]]
  note fr = moved_fs [OF z]
  have "grown ip 3 1 s z"
  proof (rule grownI [OF s db])
    show "file_ok (fsb s) (cview z) (addrs_of ip z)" "own (cview z) (addrs_of ip z) = insert a (own ?v ?A)"
      "\<forall>bm < MAXFILE. fblk ?v ?A bm \<noteq> 0 \<longrightarrow> fblk (cview z) (addrs_of ip z) bm = fblk ?v ?A bm"
      unfolding fr using e by simp_all
    show "used (fsb s) (cview z) b \<longleftrightarrow> b = a \<or> used (fsb s) ?v b" if "b < sb_size (fsb s)" for b
      using used_data [OF l db(1) that len] used_data_upd [OF l _ that, of i] di by (simp add: fr data_block_def)
    show "cview z b = ?v b" if "b \<notin> bitmap (fsb s)" "b \<noteq> a" "b \<notin> own ?v ?A" for b
      using allocated_at(3) [OF l db(1) that(1,2)] that(3) io by (auto simp: fr)
  qed (use fr h in simp_all)
  moreover have "fcontent ip z bm = fcontent ip s bm" if "bm < MAXFILE" for bm
    unfolding fcontent_def fr using e that by simp
  moreover have "at32 (cview z i) (4 * j) = a"
    using len [of i] j(1) by (simp add: fr at32_same NINDIRECT_def BSIZE_def)
  ultimately show ?thesis using data_block_pos [OF db(1)] fr by (simp add: kept_def)
qed

lemma entry_free_law:
  assumes s: "inode_ok ip s" and i: "i = addrs_of ip s ! NDIRECT" "i \<noteq> 0" and j: "j < NINDIRECT" "at32 (cview s i) (4 * j) = 0"
    and c: "3 \<le> txn_budget s" "1 \<le> card (frees s)" and t: "tx.opened s bp i t"
  shows "wp (rbind (rbind (balloc 1 t) (\<lambda>a s.
      rbind (log_write bp (put_bdata bp (overwrite (bdata bp s) (4 * j) (le32 a)) s)) (\<lambda>_ s. Ret a s)))
      (\<lambda>a s. rbind (brelse bp s) (\<lambda>_ s. Ret a s)))
    (\<lambda>a u. kept ip 3 1 s u \<and> addrs_of ip u = addrs_of ip s \<and> a = at32 (cview u i) (4 * j) \<and> a \<noteq> 0)"
proof -
  let ?v = "cview s" and ?A = "addrs_of ip s" and ?bn = "NDIRECT + j"
  have ao: "alloc_ok s" and h: "hblocks s = {}" and f: "file_ok (fsb s) ?v ?A"
    using s by (simp_all add: inode_ok_def)
  have l: "layout_ok s" and inv: "txn_inv s" using ao by (simp_all add: alloc_ok_def)
  note len = tx.view_size [OF inv]
  have io: "i \<in> own ?v ?A" using i by (simp add: own_def)
  have di: "data_block (fsb s) i" "used (fsb s) ?v i" using own_data [OF f io] by auto
  have ti: "txn_inv t" "cview t = ?v" "hblocks t = {i}" "txn_budget t = txn_budget s" "lgframe s t"
    using t h by (simp_all add: tx.opened_def)
  note fr = lgframe_fs [OF ti(5)]
  have at: "alloc_ok t"
    using ao di ti fr by (simp add: alloc_ok_def layout_ok_def data_block_def)
  have bn: "NDIRECT \<le> ?bn" "?bn < MAXFILE" "fblk ?v ?A ?bn = 0" "?A ! NDIRECT \<noteq> 0"
    using j i by (simp_all add: MAXFILE_def fblk_def)
  have "frees s \<noteq> {}" using c(2) by auto
  then obtain b where b: "b < sb_size (fsb s)" "\<not> used (fsb s) ?v b" by (auto simp: frees_def)
  have B: "wp (balloc 1 t) (\<lambda>a u. a < sb_size (fsb s) \<and> data_start (fsb s) \<le> unat a \<and> \<not> used (fsb s) ?v a \<and>
    tx.moved 2 t (allocated (fsb s) a ?v) u \<and> alloc_ok u)"
    using balloc_law [OF at, of b] ti fr c b di(1) by (simp add: data_block_def)
  show ?thesis
    unfolding wp_rbind [of "rbind (balloc 1 t) _"]
  proof (rule wp_rbindI [OF B], elim conjE)
    fix a u assume a: "a < sb_size (fsb s)" "data_start (fsb s) \<le> unat a" "\<not> used (fsb s) ?v a"
      and m: "tx.moved 2 t (allocated (fsb s) a ?v) u"
    have db: "data_block (fsb s) a" using a by (simp add: data_block_def)
    have ia: "i \<noteq> a" using di(2) a(3) by blast
    let ?w = "(allocated (fsb s) a ?v)(i := overwrite (?v i) (4 * j) (le32 a))"
    have vi: "allocated (fsb s) a ?v i = ?v i" using allocated_at(2) [OF l db _ ia] di(1) by (simp add: data_block_def)
    have mi: "mine u bp i" using t m by (simp add: tx.opened_def tx.moved_def)
    have ui: "txn_inv u" "cview u = allocated (fsb s) a ?v" "0 < txn_budget u"
      using moved_fs [OF m] c(1) ti(4) by simp_all
    have bd: "bdata bp u = ?v i" using tx.data_law [OF ui(1) mi] by (simp add: ui(2) vi)
    have room: "4 * j + 4 \<le> BSIZE" using j(1) by (simp add: NINDIRECT_def BSIZE_def)
    have ln: "length (overwrite (?v i) (4 * j) (le32 a)) = BSIZE" using len room by simp
    have C: "wp (log_write bp (put_bdata bp (overwrite (bdata bp u) (4 * j) (le32 a)) u))
      (\<lambda>_ w. tx.moved 1 u ?w w \<and> txn_clean w i)"
      using tx.change_block [OF ui(1) mi ui(3) ln] unfolding bd ui(2) .
    show "wp (rbind (log_write bp (put_bdata bp (overwrite (bdata bp u) (4 * j) (le32 a)) u)) (\<lambda>_ s. Ret a s))
      (\<lambda>a t. wp (rbind (brelse bp t) (\<lambda>_ s. Ret a s))
        (\<lambda>a u. kept ip 3 1 s u \<and> addrs_of ip u = ?A \<and> a = at32 (cview u i) (4 * j) \<and> a \<noteq> 0))"
    proof (rule wp_rbindI [OF C], elim conjE)
      fix x w assume w: "tx.moved 1 u ?w w" "txn_clean w i"
      have mm: "tx.moved 3 t ?w w" using tx.moved_trans [OF m w(1)] by simp
      have hi: "i \<notin> hblocks s" by (simp add: h)
      have "wp (rbind (brelse bp w) (\<lambda>_ s. Ret a s))
        (\<lambda>a u. kept ip 3 1 s u \<and> addrs_of ip u = ?A \<and> a = at32 (cview u i) (4 * j) \<and> a \<noteq> 0)"
      proof (rule wp_rbindI [OF tx.close_block [OF inv hi t mm w(2)]])
        fix y z assume z: "tx.moved 3 s ?w z"
        from kept_entry [OF s i j db a(3) z] show "wp (Ret a z)
          (\<lambda>a u. kept ip 3 1 s u \<and> addrs_of ip u = ?A \<and> a = at32 (cview u i) (4 * j) \<and> a \<noteq> 0)"
          unfolding wp_simps .
      qed
      then show "wp (Ret a w) (\<lambda>a t. wp (rbind (brelse bp t) (\<lambda>_ s. Ret a s))
        (\<lambda>a u. kept ip 3 1 s u \<and> addrs_of ip u = ?A \<and> a = at32 (cview u i) (4 * j) \<and> a \<noteq> 0))" by simp
    qed
  qed
qed

lemma entry_law:
  assumes s: "inode_ok ip s" and i: "i = addrs_of ip s ! NDIRECT" "i \<noteq> 0" and j: "j < NINDIRECT"
    and c: "3 \<le> txn_budget s" "1 \<le> card (frees s)"
  shows "wp (rbind (bread (i_dev (icache s ip)) i s) (\<lambda>bp s.
      rbind
        (if at32 (bdata bp s) (4 * j) = 0 then
           rbind (balloc (i_dev (icache s ip)) s) (\<lambda>a s.
           rbind (log_write bp (put_bdata bp (overwrite (bdata bp s) (4 * j) (le32 a)) s)) (\<lambda>_ s.
           Ret a s))
         else Ret (at32 (bdata bp s) (4 * j)) s) (\<lambda>a s.
      rbind (brelse bp s) (\<lambda>_ s. Ret a s))))
    (\<lambda>a u. kept ip 3 1 s u \<and> addrs_of ip u = addrs_of ip s \<and> a = at32 (cview u i) (4 * j) \<and> a \<noteq> 0)"
proof -
  let ?v = "cview s" and ?A = "addrs_of ip s"
  have ao: "alloc_ok s" and h: "hblocks s = {}" and f: "file_ok (fsb s) ?v ?A" and dev: "i_dev (icache s ip) = 1"
    using s by (simp_all add: inode_ok_def)
  have l: "layout_ok s" and inv: "txn_inv s" using ao by (simp_all add: alloc_ok_def)
  have io: "i \<in> own ?v ?A" using i by (simp add: own_def)
  have "i < sb_size (fsb s)" using own_data [OF f io] by (simp add: data_block_def)
  then have di: "i < disksize s" using l by (auto simp: layout_ok_def)
  have hi: "i \<notin> hblocks s" by (simp add: h)
  show ?thesis
    unfolding dev
  proof (rule wp_rbindI [OF tx.open_block [OF inv di hi]])
    fix bp t assume t: "tx.opened s bp i t"
    then have ti: "icache t = icache s" "txn_budget t = txn_budget s" using lgframe_fs(2) [of s t] by (simp_all add: tx.opened_def)
    note d = tx.opened_data [OF t]
    show "wp (rbind
        (if at32 (bdata bp t) (4 * j) = 0 then
           rbind (balloc (i_dev (icache t ip)) t) (\<lambda>a s.
           rbind (log_write bp (put_bdata bp (overwrite (bdata bp s) (4 * j) (le32 a)) s)) (\<lambda>_ s. Ret a s))
         else Ret (at32 (bdata bp t) (4 * j)) t) (\<lambda>a s. rbind (brelse bp s) (\<lambda>_ s. Ret a s)))
      (\<lambda>a u. kept ip 3 1 s u \<and> addrs_of ip u = ?A \<and> a = at32 (cview u i) (4 * j) \<and> a \<noteq> 0)"
    proof (cases "at32 (?v i) (4 * j) = 0")
      case True
      then show ?thesis using entry_free_law [OF s i j _ c t] d ti dev by simp
    next
      case False
      have "wp (brelse bp t) (\<lambda>_ u. tx.moved 0 s ?v u)"
        by (rule tx.close_block [OF inv hi t tx.opened_moved [OF t] tx.opened_clean [OF inv hi t]])
      then show ?thesis
        using False d kept_read [OF s] by (auto simp: wp_rbind elim!: wp_mono)
    qed
  qed (use h in simp)
qed

lemma bmap_law:
  assumes s: "inode_ok ip s" and bn: "bn < MAXFILE" and c: "5 \<le> txn_budget s" "2 \<le> card (frees s)"
  shows "wp (bmap ip bn s) (\<lambda>a t. kept ip 5 2 s t \<and> a = fblk (cview t) (addrs_of ip t) bn \<and> a \<noteq> 0)"
proof (cases "bn < NDIRECT")
  case True
  show ?thesis
  proof (cases "addrs_of ip s ! bn = 0")
    case z: True
    have "wp (bmap ip bn s) (\<lambda>a t. kept ip 2 1 s t \<and> addrs_of ip t ! bn = a \<and> a \<noteq> 0)"
      using fill_addr_law [OF s _ z] c True by (simp add: bmap_def z)
    then show ?thesis by (rule wp_mono) (use True in \<open>auto simp: fblk_def elim: kept_mono\<close>)
  qed (use True kept_mono [OF kept_refl [OF s]] in \<open>simp add: bmap_def fblk_def\<close>)
next
  case False
  define j where "j = bn - NDIRECT"
  have j: "j < NINDIRECT" "bn = NDIRECT + j" using bn False by (simp_all add: j_def MAXFILE_def)
  let ?a1 = "if addrs_of ip s ! NDIRECT = 0
     then rbind (balloc (i_dev (icache s ip)) s) (\<lambda>a s. Ret a (set_addr ip NDIRECT a s))
     else Ret (addrs_of ip s ! NDIRECT) s"
  have 1: "wp ?a1 (\<lambda>a t. kept ip 2 1 s t \<and> addrs_of ip t ! NDIRECT = a \<and> a \<noteq> 0)"
    using fill_addr_law [OF s le_refl] c kept_mono [OF kept_refl [OF s]] by simp
  have "wp (bmap ip bn s) (\<lambda>a t. kept ip 5 2 s t \<and> a = at32 (cview t (addrs_of ip t ! NDIRECT)) (4 * j) \<and>
      addrs_of ip t ! NDIRECT \<noteq> 0 \<and> a \<noteq> 0)"
    unfolding bmap_def if_not_P [OF False] Let_def if_P [OF j(1) [unfolded j_def]] unfolding j_def [symmetric]
  proof (rule wp_rbindI [OF 1], elim conjE)
    fix i t assume k: "kept ip 2 1 s t" and i: "addrs_of ip t ! NDIRECT = i" "i \<noteq> 0"
    have b: "3 \<le> txn_budget t" "1 \<le> card (frees t)" using k c by (simp_all add: kept_def grown_def)
    from entry_law [OF kept_inode [OF k] i(1) [symmetric] i(2) j(1) b]
    show "wp (rbind (bread (i_dev (icache t ip)) i t) (\<lambda>bp s.
        rbind
          (if at32 (bdata bp s) (4 * j) = 0 then
             rbind (balloc (i_dev (icache s ip)) s) (\<lambda>a s.
             rbind (log_write bp (put_bdata bp (overwrite (bdata bp s) (4 * j) (le32 a)) s)) (\<lambda>_ s. Ret a s))
           else Ret (at32 (bdata bp s) (4 * j)) s) (\<lambda>a s. rbind (brelse bp s) (\<lambda>_ s. Ret a s))))
      (\<lambda>a t. kept ip 5 2 s t \<and> a = at32 (cview t (addrs_of ip t ! NDIRECT)) (4 * j) \<and> addrs_of ip t ! NDIRECT \<noteq> 0 \<and> a \<noteq> 0)"
    proof (rule wp_mono, elim conjE)
      fix a u assume u: "kept ip 3 1 t u" "addrs_of ip u = addrs_of ip t" "a = at32 (cview u i) (4 * j)" "a \<noteq> 0"
      then show "kept ip 5 2 s u \<and> a = at32 (cview u (addrs_of ip u ! NDIRECT)) (4 * j) \<and> addrs_of ip u ! NDIRECT \<noteq> 0 \<and> a \<noteq> 0"
        using kept_trans [OF k u(1)] i by (simp add: numeral_2_eq_2)
    qed
  qed
  then show ?thesis by (rule wp_mono) (simp add: fblk_def j(2))
qed

end
