(* ===== verification/Fs_Rw.thy ===== *)
theory Fs_Rw
  imports Fs_File
begin

text \<open>
  Reading and writing files: \<open>readi\<close> and \<open>writei\<close> against the file as a function from positions to bytes.
\<close>

definition fbyte :: "nat \<Rightarrow> 'z fssys_scheme \<Rightarrow> nat \<Rightarrow> byte" where
  "fbyte ip s p = fcontent ip s (p div BSIZE) ! (p mod BSIZE)"

text \<open>All blocks of the first \<open>n\<close> bytes are there.\<close>

definition solid :: "nat \<Rightarrow> nat \<Rightarrow> 'z fssys_scheme \<Rightarrow> bool" where
  "solid ip n s \<longleftrightarrow> (\<forall>bn. bn * BSIZE < n \<longrightarrow> fblk (cview s) (addrs_of ip s) bn \<noteq> 0)"

lemma inode_facts:
  assumes "inode_ok ip s"
  shows "layout_ok s" "txn_inv s" "hblocks s = {}" "i_dev (icache s ip) = 1" "file_ok (fsb s) (cview s) (addrs_of ip s)"
    "alloc_ok s" "length (cview s n) = BSIZE"
proof -
  show "layout_ok s" "hblocks s = {}" "i_dev (icache s ip) = 1" "file_ok (fsb s) (cview s) (addrs_of ip s)"
    "alloc_ok s" and i: "txn_inv s"
    using assms by (simp_all add: inode_ok_def alloc_ok_def)
  show "length (cview s n) = BSIZE" by (rule tx.view_size [OF i])
qed

lemma fblk_own:
  assumes s: "inode_ok ip s" and bn: "bn < MAXFILE" and a: "fblk (cview s) (addrs_of ip s) bn = a" "a \<noteq> 0"
  shows "a \<in> own (cview s) (addrs_of ip s)" "data_block (fsb s) a" "used (fsb s) (cview s) a" "a < disksize s"
    "a \<noteq> addrs_of ip s ! NDIRECT"
proof -
  note i = inode_facts [OF s]
  show o: "a \<in> own (cview s) (addrs_of ip s)" using bn a by (auto simp: own_def)
  show d: "data_block (fsb s) a" "used (fsb s) (cview s) a" using own_data [OF i(5) o] by simp_all
  then show "a < disksize s" using i(1) by (auto simp: layout_ok_def data_block_def)
  show "a \<noteq> addrs_of ip s ! NDIRECT" using i(5) bn a(2) unfolding file_ok_def a(1) [symmetric] by simp
qed

lemma fcontent_present: "fblk (cview s) (addrs_of ip s) bn \<noteq> 0 \<Longrightarrow> fcontent ip s bn = cview s (fblk (cview s) (addrs_of ip s) bn)"
  by (simp add: fcontent_def content_def)

lemma in_chunk:
  fixes off p n B :: nat
  assumes "off mod B + n \<le> B"
  shows "off \<le> p \<and> p < off + n \<longleftrightarrow> p div B = off div B \<and> off mod B \<le> p mod B \<and> p mod B < off mod B + n"
proof -
  have e: "off div B * B + off mod B = off" "p div B * B + p mod B = p" by simp_all
  have "p div B = off div B" if "off \<le> p" "p < off + n"
  proof (rule antisym)
    show "off div B \<le> p div B" using that(1) by (rule div_le_mono)
    have "p < off div B * B + B" using that(2) assms e(1) by linarith
    then have "p < (off div B + 1) * B" by simp
    then have "p div B < off div B + 1" by (rule less_mult_imp_div_less)
    then show "p div B \<le> off div B" by simp
  qed
  then show ?thesis using e by (metis add_le_cancel_left add_less_cancel_left add.assoc)
qed

section \<open>Writing one block\<close>

lemma write_block_law:
  assumes s: "inode_ok ip s" and bn: "bn < MAXFILE" and a: "fblk (cview s) (addrs_of ip s) bn = a" "a \<noteq> 0"
    and d: "length d = BSIZE" and z: "tx.moved 1 s ((cview s)(a := d)) z"
  shows "grown ip 1 0 s z" "\<And>bm. bm < MAXFILE \<Longrightarrow> fcontent ip z bm = (if bm = bn then d else fcontent ip s bm)"
    "fblk (cview z) (addrs_of ip z) = fblk (cview s) (addrs_of ip s)"
proof -
  let ?v = "cview s" and ?A = "addrs_of ip s"
  note i = inode_facts [OF s] and o = fblk_own [OF s bn a] and fr = moved_fs [OF z]
  have blk: "fblk (cview z) (addrs_of ip z) bm = fblk ?v ?A bm" for bm
    using o(5) by (auto simp: fblk_def fr)
  then show blk': "fblk (cview z) (addrs_of ip z) = fblk ?v ?A" by (rule ext)
  have own: "own (cview z) (addrs_of ip z) = own ?v ?A" unfolding own_def blk' by (simp add: fr)
  have u: "used (fsb s) (cview z) b = used (fsb s) ?v b" if "b < sb_size (fsb s)" for b
    unfolding fr by (rule used_data_upd [OF i(1) _ that]) (use o(2) in \<open>simp add: data_block_def\<close>)
  have fok: "file_ok (fsb s) (cview z) (addrs_of ip z)"
    using i(5) u unfolding file_ok_def own blk' by (simp add: fr data_block_def)
  have "alloc_ok z" by (rule alloc_ok_view [OF i(6) fr(1,3,4,6)]) (use u i(3) in auto)
  then have io: "inode_ok ip z" using fok fr i by (simp add: inode_ok_def)
  have fe: "frees z = frees s" using u by (auto simp: frees_def fr(1))
  have "used (fsb s) (cview z) b \<and> (b \<notin> bitmap (fsb s) \<and> b \<notin> own ?v ?A \<longrightarrow>
      cview z b = ?v b \<and> b \<notin> own (cview z) (addrs_of ip z))" if "b < sb_size (fsb s)" "used (fsb s) ?v b" for b
    using that u o(1) own by (auto simp: fr(5))
  then show "grown ip 1 0 s z" using io fe fr(1,2,3,7) blk' by (simp add: grown_def)
  show "fcontent ip z bm = (if bm = bn then d else fcontent ip s bm)" if bm: "bm < MAXFILE" for bm
  proof (cases "bm = bn")
    case True
    then show ?thesis using a blk by (simp add: fcontent_present fr(5))
  next
    case False
    then have "fblk ?v ?A bm = 0 \<or> fblk ?v ?A bm \<noteq> a" using i(5) bn bm a by (auto simp: file_ok_def)
    then show ?thesis using False blk by (auto simp: fcontent_def content_def fr(5))
  qed
qed

section \<open>The loop of writei\<close>

text \<open>\<open>wrote ip off xs s t\<close>: the bytes \<open>xs\<close> are at \<open>off\<close> and all other bytes are as before.\<close>

definition wrote :: "nat \<Rightarrow> nat \<Rightarrow> byte list \<Rightarrow> 'z fssys_scheme \<Rightarrow> 'z fssys_scheme \<Rightarrow> bool" where
  "wrote ip off xs s t \<longleftrightarrow> (\<forall>p < MAXFILE * BSIZE.
     fbyte ip t p = (if off \<le> p \<and> p < off + length xs then xs ! (p - off) else fbyte ip s p) \<and>
     (off \<le> p \<and> p < off + length xs \<longrightarrow> fblk (cview t) (addrs_of ip t) (p div BSIZE) \<noteq> 0))"

lemma BSIZE_pos [simp]: "0 < BSIZE" by (simp add: BSIZE_def)

lemma fbyte_kept: "kept ip k n s t \<Longrightarrow> p < MAXFILE * BSIZE \<Longrightarrow> fbyte ip t p = fbyte ip s p"
  by (simp add: kept_def fbyte_def less_mult_imp_div_less)

lemma wrote_append:
  assumes "wrote ip off xs s t" "wrote ip (off + length xs) ys t u" "grown ip k n t u"
  shows "wrote ip off (xs @ ys) s u"
  unfolding wrote_def
proof (intro allI impI)
  fix p assume p: "p < MAXFILE * BSIZE"
  note 1 = assms(1) [unfolded wrote_def, rule_format, OF p] and 2 = assms(2) [unfolded wrote_def, rule_format, OF p]
  have "p div BSIZE < MAXFILE" using p by (simp add: less_mult_imp_div_less)
  then have g: "fblk (cview t) (addrs_of ip t) (p div BSIZE) \<noteq> 0 \<Longrightarrow> fblk (cview u) (addrs_of ip u) (p div BSIZE) \<noteq> 0"
    using assms(3) by (simp add: grown_def)
  show "fbyte ip u p = (if off \<le> p \<and> p < off + length (xs @ ys) then (xs @ ys) ! (p - off) else fbyte ip s p) \<and>
     (off \<le> p \<and> p < off + length (xs @ ys) \<longrightarrow> fblk (cview u) (addrs_of ip u) (p div BSIZE) \<noteq> 0)"
  proof (cases "off + length xs \<le> p")
    case True
    then show ?thesis using 1 2 by (auto simp: nth_append)
  next
    case False
    then show ?thesis using 1 2 g by (auto simp: nth_append)
  qed
qed

lemma wrote_Nil: "wrote ip off [] s s"
  unfolding wrote_def by (intro allI impI) (simp, linarith)

text \<open>One round of the loop: the bytes \<open>xs\<close> fit in the block of \<open>off\<close>.\<close>

lemma write_chunk_law:
  assumes s: "inode_ok ip s" and off: "off < MAXFILE * BSIZE" and xs: "off mod BSIZE + length xs \<le> BSIZE"
    and c: "6 \<le> txn_budget s" "2 \<le> card (frees s)"
  shows "wp (rbind (bmap ip (off div BSIZE) s) (\<lambda>a s.
      rbind (bread (i_dev (icache s ip)) a s) (\<lambda>bp s.
      rbind (log_write bp (put_bdata bp (overwrite (bdata bp s) (off mod BSIZE) xs) s)) (\<lambda>_ s.
      brelse bp s))))
    (\<lambda>_ t. grown ip 6 2 s t \<and> wrote ip off xs s t)"
proof -
  let ?bn = "off div BSIZE" and ?o = "off mod BSIZE"
  have bn: "?bn < MAXFILE" using off by (simp add: less_mult_imp_div_less)
  have c': "5 \<le> txn_budget s" using c(1) by simp
  show ?thesis
  proof (rule wp_rbindI [OF bmap_law [OF s bn c' c(2)]], elim conjE)
    fix a t assume k: "kept ip 5 2 s t" and a: "a = fblk (cview t) (addrs_of ip t) ?bn" "a \<noteq> 0"
    note t = kept_inode [OF k]
    note i = inode_facts [OF t] and o = fblk_own [OF t bn a(1) [symmetric] a(2)]
    let ?d = "overwrite (cview t a) ?o xs"
    have ld: "length ?d = BSIZE" using xs i(7) by simp
    have b: "0 < txn_budget t" using k c by (simp add: kept_def grown_def)
    have "wp (rbind (bread 1 a t) (\<lambda>bp s. rbind (log_write bp (put_bdata bp (overwrite (bdata bp s) ?o xs) s)) (\<lambda>_ s. brelse bp s)))
      (\<lambda>_ z. tx.moved 1 t ((cview t)(a := ?d)) z)"
      by (rule tx.update_block [OF i(2) o(4) _ _ b ld]) (simp_all add: i(3))
    then show "wp (rbind (bread (i_dev (icache t ip)) a t) (\<lambda>bp s.
        rbind (log_write bp (put_bdata bp (overwrite (bdata bp s) ?o xs) s)) (\<lambda>_ s. brelse bp s)))
      (\<lambda>_ t. grown ip 6 2 s t \<and> wrote ip off xs s t)"
      unfolding i(4)
    proof (rule wp_mono)
      fix x z assume z: "tx.moved 1 t ((cview t)(a := ?d)) z"
      note w = write_block_law [OF t bn a(1) [symmetric] a(2) ld z]
      have "grown ip 6 2 s z" using grown_trans [OF _ w(1), of 5 2 s] k by (simp add: kept_def)
      moreover have "wrote ip off xs s z"
        unfolding wrote_def
      proof (intro allI impI)
        fix p assume p: "p < MAXFILE * BSIZE"
        then have pb: "p div BSIZE < MAXFILE" by (simp add: less_mult_imp_div_less)
        have e: "?bn * BSIZE + ?o = off" "p div BSIZE * BSIZE + p mod BSIZE = p" by simp_all
        have ow: "off \<le> p \<and> p < off + length xs \<longleftrightarrow> p div BSIZE = ?bn \<and> ?o \<le> p mod BSIZE \<and> p mod BSIZE < ?o + length xs"
          by (rule in_chunk [OF xs])
        have sub: "p - off = p mod BSIZE - ?o" if "p div BSIZE = ?bn"
        proof -
          have "p div BSIZE * BSIZE = ?bn * BSIZE" using that by simp
          then show ?thesis using e by linarith
        qed
        have f0: "fbyte ip z p = (if p div BSIZE = ?bn then ?d ! (p mod BSIZE) else fbyte ip s p)"
          using w(2) [OF pb] fbyte_kept [OF k p] by (simp add: fbyte_def)
        have "cview t a ! (p mod BSIZE) = fbyte ip s p" if "p div BSIZE = ?bn"
          using fbyte_kept [OF k p] a that by (simp add: fbyte_def fcontent_present)
        then have "fbyte ip z p = (if off \<le> p \<and> p < off + length xs then xs ! (p - off) else fbyte ip s p)"
          using f0 ow i(7) xs sub by (auto simp: nth_overwrite)
        then show "fbyte ip z p = (if off \<le> p \<and> p < off + length xs then xs ! (p - off) else fbyte ip s p) \<and>
          (off \<le> p \<and> p < off + length xs \<longrightarrow> fblk (cview z) (addrs_of ip z) (p div BSIZE) \<noteq> 0)"
          using ow a by (simp add: w(3))
      qed
      ultimately show "grown ip 6 2 s z \<and> wrote ip off xs s z" ..
    qed
  qed
qed

text \<open>The number of blocks with a byte in a range.\<close>

definition nblk :: "nat \<Rightarrow> nat \<Rightarrow> nat" where
  "nblk off n = (off mod BSIZE + n + (BSIZE - 1)) div BSIZE"

lemma nblk_pos: "0 < n \<Longrightarrow> 0 < nblk off n"
  by (simp add: nblk_def div_greater_zero_iff)

lemma nblk_step: "BSIZE - off mod BSIZE < n \<Longrightarrow> nblk off n = Suc (nblk (off + (BSIZE - off mod BSIZE)) (n - (BSIZE - off mod BSIZE)))"
proof -
  assume n: "BSIZE - off mod BSIZE < n"
  have "off mod BSIZE \<le> BSIZE" by (simp add: less_imp_le)
  then have 1: "off mod BSIZE + n + (BSIZE - 1) = (n - (BSIZE - off mod BSIZE)) + (BSIZE - 1) + BSIZE" using n by linarith
  have "off + (BSIZE - off mod BSIZE) = (off div BSIZE + 1) * BSIZE"
    using div_mult_mod_eq [of off BSIZE] mod_less_divisor [OF BSIZE_pos, of off] unfolding add_mult_distrib by linarith
  then have 2: "(off + (BSIZE - off mod BSIZE)) mod BSIZE = 0" by simp
  have "BSIZE \<noteq> 0" using BSIZE_pos by simp
  then show ?thesis unfolding nblk_def 1 2 using div_add_self2 [of BSIZE] by simp
qed

lemma writei_loop_law:
  assumes "inode_ok ip s" "off + length src \<le> MAXFILE * BSIZE" "6 * nblk off (length src) \<le> txn_budget s"
    "2 * nblk off (length src) \<le> card (frees s)"
  shows "wp (writei_loop ip off src s) (\<lambda>_ t. grown ip (6 * nblk off (length src)) (2 * nblk off (length src)) s t \<and> wrote ip off src s t)"
  using assms
proof (induction "length src" arbitrary: off src s rule: less_induct)
  case less
  show ?case
  proof (cases "src = []")
    case True
    then show ?thesis using grown_mono [OF grown_refl [OF less.prems(1)]] wrote_Nil by (simp add: writei_loop.simps)
  next
    case False
    define m where "m = min (length src) (BSIZE - off mod BSIZE)"
    have o: "off mod BSIZE < BSIZE" by simp
    have m: "0 < m" "m \<le> length src" "off mod BSIZE + m \<le> BSIZE" using False o unfolding m_def by (simp, simp, linarith)
    let ?k = "nblk (off + m) (length src - m)"
    have n: "nblk off (length src) \<ge> 1" using nblk_pos [of "length src" off] False by simp
    have lt: "off < MAXFILE * BSIZE" using less.prems(2) False by (cases src) simp_all
    have xs: "length (take m src) = m" using m by simp
    have "wp (rbind (bmap ip (off div BSIZE) s) (\<lambda>a s.
        rbind (bread (i_dev (icache s ip)) a s) (\<lambda>bp s.
        rbind (log_write bp (put_bdata bp (overwrite (bdata bp s) (off mod BSIZE) (take m src)) s)) (\<lambda>_ s. brelse bp s))))
      (\<lambda>_ t. grown ip 6 2 s t \<and> wrote ip off (take m src) s t)"
      using m n less.prems by (intro write_chunk_law [OF less.prems(1) lt]) simp_all
    then have "wp (rbind (rbind (bmap ip (off div BSIZE) s) (\<lambda>a s.
        rbind (bread (i_dev (icache s ip)) a s) (\<lambda>bp s.
        rbind (log_write bp (put_bdata bp (overwrite (bdata bp s) (off mod BSIZE) (take m src)) s)) (\<lambda>_ s. brelse bp s))))
        (\<lambda>_ s. writei_loop ip (off + m) (drop m src) s))
      (\<lambda>_ t. grown ip (6 * nblk off (length src)) (2 * nblk off (length src)) s t \<and> wrote ip off src s t)"
    proof (rule wp_rbindI, elim conjE)
      fix x t assume g: "grown ip 6 2 s t" and w: "wrote ip off (take m src) s t"
      have t: "inode_ok ip t" using g by (simp add: grown_def)
      show "wp (writei_loop ip (off + m) (drop m src) t)
        (\<lambda>_ t. grown ip (6 * nblk off (length src)) (2 * nblk off (length src)) s t \<and> wrote ip off src s t)"
      proof (cases "length src = m")
        case True
        then show ?thesis using grown_mono [OF g] w n by (simp add: writei_loop.simps)
      next
        case False
        then have lt: "BSIZE - off mod BSIZE < length src" "m = BSIZE - off mod BSIZE" by (auto simp: m_def)
        have k: "nblk off (length src) = Suc ?k" using nblk_step [OF lt(1)] lt(2) by simp
        have "wp (writei_loop ip (off + m) (drop m src) t) (\<lambda>_ u. grown ip (6 * ?k) (2 * ?k) t u \<and> wrote ip (off + m) (drop m src) t u)"
          using less.hyps [of "drop m src" t "off + m"] m less.prems g t k False by (simp add: grown_def)
        then show ?thesis
        proof (rule wp_mono, elim conjE)
          fix y u assume u: "grown ip (6 * ?k) (2 * ?k) t u" "wrote ip (off + m) (drop m src) t u"
          show "grown ip (6 * nblk off (length src)) (2 * nblk off (length src)) s u \<and> wrote ip off src s u"
            using grown_trans [OF g u(1)] wrote_append [OF w _ u(1), of "drop m src"] u(2) xs by (simp add: k)
        qed
      qed
    qed
    then show ?thesis
      unfolding writei_loop.simps [of ip off src] if_not_P [OF False] rbind_assoc Let_def m_def .
  qed
qed

section \<open>Reading\<close>

lemma moved0_inode:
  assumes s: "inode_ok ip s" and t: "tx.moved 0 s (cview s) t"
  shows "inode_ok ip t" "icache t = icache s" "cview t = cview s" "fbyte ip t = fbyte ip s"
proof -
  note fr = moved_fs [OF t]
  show "icache t = icache s" "cview t = cview s" by (simp_all add: fr)
  show "inode_ok ip t" by (rule kept_inode [OF kept_read(1) [OF s t]])
  show "fbyte ip t = fbyte ip s" by (simp add: fun_eq_iff fbyte_def fcontent_def fr)
qed

lemma bmap_present_law:
  assumes s: "inode_ok ip s" and bn: "bn < MAXFILE" and a: "fblk (cview s) (addrs_of ip s) bn \<noteq> 0"
  shows "wp (bmap ip bn s) (\<lambda>a t. a = fblk (cview s) (addrs_of ip s) bn \<and> tx.moved 0 s (cview s) t)"
proof (cases "bn < NDIRECT")
  case True
  then show ?thesis using a tx.moved_refl [OF inode_facts(2) [OF s]] by (simp add: bmap_def fblk_def)
next
  case False
  define j where "j = bn - NDIRECT"
  have j: "j < NINDIRECT" "bn = NDIRECT + j" using bn False by (simp_all add: j_def MAXFILE_def)
  let ?i = "addrs_of ip s ! NDIRECT"
  have i0: "?i \<noteq> 0" and e: "at32 (cview s ?i) (4 * j) \<noteq> 0" using a by (auto simp: fblk_def j(2) split: if_splits)
  note f = inode_facts [OF s]
  have "?i \<in> own (cview s) (addrs_of ip s)" using i0 by (simp add: own_def)
  then have "?i < sb_size (fsb s)" using own_data [OF f(5)] by (simp add: data_block_def)
  then have di: "?i < disksize s" using f(1) by (auto simp: layout_ok_def)
  have hi: "?i \<notin> hblocks s" by (simp add: f)
  have "wp (bmap ip bn s) (\<lambda>a t. a = at32 (cview s ?i) (4 * j) \<and> tx.moved 0 s (cview s) t)"
    unfolding bmap_def if_not_P [OF False] Let_def if_P [OF j(1) [unfolded j_def]] if_not_P [OF i0] f(4) rbind_simps
    unfolding j_def [symmetric]
  proof (rule wp_rbindI [OF tx.open_block [OF f(2) di hi]])
    fix bp t assume t: "tx.opened s bp ?i t"
    have "wp (brelse bp t) (\<lambda>_ u. tx.moved 0 s (cview s) u)"
      by (rule tx.close_block [OF f(2) hi t tx.opened_moved [OF t] tx.opened_clean [OF f(2) hi t]])
    then show "wp (rbind (if at32 (bdata bp t) (4 * j) = 0 then
             rbind (balloc (i_dev (icache t ip)) t) (\<lambda>a s.
             rbind (log_write bp (put_bdata bp (overwrite (bdata bp s) (4 * j) (le32 a)) s)) (\<lambda>_ s. Ret a s))
           else Ret (at32 (bdata bp t) (4 * j)) t) (\<lambda>a s. rbind (brelse bp s) (\<lambda>_ s. Ret a s)))
       (\<lambda>a t. a = at32 (cview s ?i) (4 * j) \<and> tx.moved 0 s (cview s) t)"
      unfolding tx.opened_data [OF t] if_not_P [OF e] by (simp add: wp_rbind)
  qed (use f in simp)
  then show ?thesis using i0 by (simp add: fblk_def j(2))
qed

lemma chunk_bytes:
  assumes s: "inode_ok ip s" and m: "off mod BSIZE + m \<le> BSIZE"
    and a: "a = fblk (cview s) (addrs_of ip s) (off div BSIZE)" "a \<noteq> 0"
  shows "take m (drop (off mod BSIZE) (cview s a)) = map (fbyte ip s) [off..<off + m]"
proof (rule nth_equalityI)
  have l: "length (cview s a) = BSIZE" by (rule inode_facts(7) [OF s])
  then show "length (take m (drop (off mod BSIZE) (cview s a))) = length (map (fbyte ip s) [off..<off + m])" using m by simp
  fix i assume "i < length (take m (drop (off mod BSIZE) (cview s a)))"
  then have i: "i < m" by simp
  have e: "(off + i) div BSIZE = off div BSIZE" "off mod BSIZE \<le> (off + i) mod BSIZE"
    using in_chunk [OF m, of "off + i"] i by simp_all
  have "off div BSIZE * BSIZE + off mod BSIZE = off" "(off + i) div BSIZE * BSIZE + (off + i) mod BSIZE = off + i" by simp_all
  then have "(off + i) mod BSIZE = off mod BSIZE + i" unfolding e(1) by linarith
  then show "take m (drop (off mod BSIZE) (cview s a)) ! i = map (fbyte ip s) [off..<off + m] ! i"
    using i l m e(1) a by (simp add: fbyte_def fcontent_present)
qed

lemma readi_loop_law:
  assumes "inode_ok ip s" "off + r \<le> MAXFILE * BSIZE" "solid ip (off + r) s"
  shows "wp (readi_loop ip off r s) (\<lambda>xs t. tx.moved 0 s (cview s) t \<and> xs = map (fbyte ip s) [off..<off + r])"
  using assms
proof (induction r arbitrary: off s rule: less_induct)
  case (less r)
  note f = inode_facts [OF less.prems(1)]
  show ?case
  proof (cases "r = 0")
    case True
    then show ?thesis using tx.moved_refl [OF f(2)] by simp
  next
    case False
    define m where "m = min r (BSIZE - off mod BSIZE)"
    have o: "off mod BSIZE < BSIZE" by simp
    have m: "0 < m" "m \<le> r" "off mod BSIZE + m \<le> BSIZE" using False o unfolding m_def by (simp, simp, linarith)
    have bn: "off div BSIZE < MAXFILE" using less.prems(2) False by (intro less_mult_imp_div_less) simp
    define a where "a = fblk (cview s) (addrs_of ip s) (off div BSIZE)"
    have "off div BSIZE * BSIZE \<le> off" by simp
    then have "off div BSIZE * BSIZE < off + r" using False by linarith
    then have a0: "a \<noteq> 0" using less.prems(3) by (simp add: solid_def a_def)
    have "wp (rbind (bmap ip (off div BSIZE) s) (\<lambda>a s.
        rbind (bread (i_dev (icache s ip)) a s) (\<lambda>bp s.
        let xs = take m (drop (off mod BSIZE) (bdata bp s)) in rbind (brelse bp s) (\<lambda>_ s. Ret xs s))))
      (\<lambda>xs t. tx.moved 0 s (cview s) t \<and> xs = map (fbyte ip s) [off..<off + m])"
    proof (rule wp_rbindI [OF bmap_present_law [OF less.prems(1) bn a0 [unfolded a_def]], folded a_def], elim conjE)
      fix x t assume x: "x = a" and t: "tx.moved 0 s (cview s) t"
      note i = moved0_inode [OF less.prems(1) t]
      note ft = inode_facts [OF i(1)]
      have d: "a < disksize t" by (rule fblk_own(4) [OF i(1) bn _ a0]) (simp add: i a_def)
      have "take m (drop (off mod BSIZE) (cview s a)) = map (fbyte ip s) [off..<off + m]"
        by (rule chunk_bytes [OF less.prems(1) m(3)]) (use a0 in \<open>simp_all add: a_def\<close>)
      moreover have "wp (rbind (bread 1 a t) (\<lambda>bp s.
          let xs = take m (drop (off mod BSIZE) (bdata bp s)) in rbind (brelse bp s) (\<lambda>_ s. Ret xs s)))
        (\<lambda>xs u. xs = take m (drop (off mod BSIZE) (cview t a)) \<and> tx.moved 0 t (cview t) u)"
        by (rule tx.read_block [OF ft(2) d]) (simp_all add: ft(3))
      ultimately show "wp (rbind (bread (i_dev (icache t ip)) x t) (\<lambda>bp s.
          let xs = take m (drop (off mod BSIZE) (bdata bp s)) in rbind (brelse bp s) (\<lambda>_ s. Ret xs s)))
        (\<lambda>xs t. tx.moved 0 s (cview s) t \<and> xs = map (fbyte ip s) [off..<off + m])"
        unfolding ft(4) x by (elim wp_mono) (use i(3) tx.moved_after0 [OF t] in auto)
    qed
    then have "wp (rbind (rbind (bmap ip (off div BSIZE) s) (\<lambda>a s.
        rbind (bread (i_dev (icache s ip)) a s) (\<lambda>bp s.
        let xs = take m (drop (off mod BSIZE) (bdata bp s)) in rbind (brelse bp s) (\<lambda>_ s. Ret xs s))))
        (\<lambda>xs s. rbind (readi_loop ip (off + m) (r - m) s) (\<lambda>ys s. Ret (xs @ ys) s)))
      (\<lambda>xs t. tx.moved 0 s (cview s) t \<and> xs = map (fbyte ip s) [off..<off + r])"
    proof (rule wp_rbindI, elim conjE)
      fix xs t assume t: "tx.moved 0 s (cview s) t" and xs: "xs = map (fbyte ip s) [off..<off + m]"
      note i = moved0_inode [OF less.prems(1) t]
      have e: "[off..<off + r] = [off..<off + m] @ [off + m..<off + r]" 
        using upt_add_eq_append [of off "off + m" "r - m"] m by simp
      have "wp (readi_loop ip (off + m) (r - m) t) (\<lambda>ys u. tx.moved 0 t (cview t) u \<and> ys = map (fbyte ip t) [off + m..<off + m + (r - m)])"
        using m less.prems i by (intro less.IH) (simp_all add: solid_def)
      then show "wp (rbind (readi_loop ip (off + m) (r - m) t) (\<lambda>ys s. Ret (xs @ ys) s))
        (\<lambda>xs t. tx.moved 0 s (cview s) t \<and> xs = map (fbyte ip s) [off..<off + r])"
      proof (rule wp_rbindI, elim conjE)
        fix ys u assume u: "tx.moved 0 t (cview t) u" "ys = map (fbyte ip t) [off + m..<off + m + (r - m)]"
        have "tx.moved 0 s (cview s) u" using tx.moved_after0 [OF t u(1)] i(3) by simp
        then show "wp (Ret (xs @ ys) u) (\<lambda>xs t. tx.moved 0 s (cview s) t \<and> xs = map (fbyte ip s) [off..<off + r])"
          using u(2) xs e m by (simp add: i(4))
      qed
    qed
    then show ?thesis
      unfolding readi_loop.simps [of ip off r] if_not_P [OF False] rbind_assoc Let_def m_def rbind_simps .
  qed
qed

end
