(* ===== verification/Fs_Rw_Props.thy ===== *)
theory Fs_Rw_Props
  imports Fs_Rw Fs_Props
begin

text \<open>
  \<open>readi\<close> and \<open>writei\<close> implement a file as a list of bytes.
\<close>

definition file_bytes :: "nat \<Rightarrow> 'z fssys_scheme \<Rightarrow> byte list" where
  "file_bytes ip s = map (fbyte ip s) [0..<unat (i_size (icache s ip))]"

definition inode_block :: "nat \<Rightarrow> 'z fssys_scheme \<Rightarrow> u32" where
  "inode_block ip s = IBLOCK (i_inum (icache s ip)) (fsb s)"

text \<open>A plain file in memory: its blocks are there and its inode lies before the bitmap.\<close>

definition file_inv :: "nat \<Rightarrow> 'z fssys_scheme \<Rightarrow> bool" where
  "file_inv ip s \<longleftrightarrow> inode_ok ip s \<and> i_type (icache s ip) \<noteq> T_DEV \<and> unat (i_size (icache s ip)) \<le> MAXFILE * BSIZE \<and>
     solid ip (unat (i_size (icache s ip))) s \<and> unat (inode_block ip s) < unat (sb_bmapstart (fsb s))"

lemma MAX_value: "MAXFILE * BSIZE = 71680"
  by (simp add: MAXFILE_def NDIRECT_def NINDIRECT_def BSIZE_def)

lemma meta_not_bitmap:
  assumes "layout_ok s" "unat b < unat (sb_bmapstart (fsb s))"
  shows "b \<notin> bitmap (fsb s)" "\<not> data_block (fsb s) b" "b < disksize s"
proof -
  show "b \<notin> bitmap (fsb s)" using BBLOCK_unat [OF assms(1)] assms(2) by (auto simp: bitmap_def)
  show "\<not> data_block (fsb s) b" using assms(2) by (simp add: data_block_def data_start_def)
  show "b < disksize s"
    using assms by (simp add: layout_ok_def data_start_def word_less_nat_alt word_le_nat_alt)
qed

text \<open>Writing a block before the bitmap leaves the file alone.\<close>

lemma meta_block_law:
  assumes s: "inode_ok ip s" and b: "unat b < unat (sb_bmapstart (fsb s))" and z: "tx.moved k s ((cview s)(b := d)) z"
  shows "inode_ok ip z" "\<And>bm. bm < MAXFILE \<Longrightarrow> fcontent ip z bm = fcontent ip s bm"
    "\<And>bm. bm < MAXFILE \<Longrightarrow> fblk (cview z) (addrs_of ip z) bm = fblk (cview s) (addrs_of ip s) bm"
proof -
  let ?v = "cview s" and ?A = "addrs_of ip s"
  note i = inode_facts [OF s] and fr = moved_fs [OF z] and m = meta_not_bitmap [OF inode_facts(1) [OF s] b]
  have ob: "b \<notin> own ?v ?A" using own_data [OF i(5)] m(2) by blast
  have u: "used (fsb s) (cview z) n = used (fsb s) ?v n" if "n < sb_size (fsb s)" for n
    unfolding fr by (rule used_cong) (use m(1) that in \<open>auto simp: bitmap_def\<close>)
  have "?A ! NDIRECT \<noteq> b" if "?A ! NDIRECT \<noteq> 0" using ob that by (auto simp: own_def)
  then have blk: "fblk (cview z) (addrs_of ip z) bm = fblk ?v ?A bm" for bm by (simp add: fblk_def fr)
  then show "fblk (cview z) (addrs_of ip z) bm = fblk ?v ?A bm" for bm .
  have own: "own (cview z) (addrs_of ip z) = own ?v ?A" unfolding own_def by (simp add: blk) (simp add: fr)
  have "file_ok (fsb s) (cview z) (addrs_of ip z)"
    using i(5) u unfolding file_ok_def own blk by (simp add: fr data_block_def)
  moreover have "alloc_ok z" by (rule alloc_ok_view [OF i(6) fr(1,3,4,6)]) (use u i(3) in auto)
  ultimately show "inode_ok ip z" using fr i by (simp add: inode_ok_def)
  show "fcontent ip z bm = fcontent ip s bm" if "bm < MAXFILE" for bm
  proof -
    have "fblk ?v ?A bm \<noteq> b" if "fblk ?v ?A bm \<noteq> 0" using ob that \<open>bm < MAXFILE\<close> by (auto simp: own_def)
    then show ?thesis by (simp add: fcontent_def content_def blk) (simp add: fr)
  qed
qed

lemma iupdate_law:
  assumes s: "inode_ok ip s" and b: "unat (inode_block ip s) < unat (sb_bmapstart (fsb s))" and c: "0 < txn_budget s"
  shows "wp (iupdate ip s) (\<lambda>_ t. tx.moved 1 s ((cview s)(inode_block ip s := put_dinode (cview s (inode_block ip s))
    (unat (i_inum (icache s ip)) mod IPB) (to_dinode (icache s ip)))) t)"
proof -
  let ?k = "unat (i_inum (icache s ip)) mod IPB"
  note i = inode_facts [OF s]
  have "length (i_addrs (icache s ip)) = NDIRECT + 1" using i(5) by (simp add: file_ok_def)
  then have len: "length (put_dinode (cview s (inode_block ip s)) ?k (to_dinode (icache s ip))) = BSIZE"
    using length_dinode_bytes [of "to_dinode (icache s ip)"] i(7) unfolding put_dinode_def
    by (subst length_overwrite) (simp_all add: to_dinode_def IPB_def BSIZE_def)
  show ?thesis
    unfolding iupdate_def i(4) Let_def inode_block_def [symmetric]
    by (rule tx.update_block [OF i(2) meta_not_bitmap(3) [OF i(1) b] _ _ c len])
       (simp_all add: i(3) lgframe_fs)
qed

section \<open>writei\<close>

declare readi_loop.simps [simp del] writei_loop.simps [simp del]

text \<open>What \<open>writei\<close> leaves alone: the other inodes in memory, and the blocks in use outside the file that are neither
  bitmap nor inode blocks.\<close>

definition others_kept :: "nat \<Rightarrow> 'z fssys_scheme \<Rightarrow> 'z fssys_scheme \<Rightarrow> bool" where
  "others_kept ip s t \<longleftrightarrow> (\<forall>j. j \<noteq> ip \<longrightarrow> icache t j = icache s j) \<and>
     (\<forall>b. data_block (fsb s) b \<and> used (fsb s) (cview s) b \<and> b \<notin> own (cview s) (addrs_of ip s) \<longrightarrow> cview t b = cview s b)"

lemma sint_small: "unat (k :: u32) < 2 ^ 31 \<Longrightarrow> sint k = int (unat k)"
proof -
  assume "unat k < 2 ^ 31"
  then have "int (unat k) < int (2 ^ 31)" unfolding of_nat_less_iff .
  then have u: "uint k < 2 ^ 31" by simp
  have "- (2 ^ 31) \<le> (0 :: int)" by simp
  then have "- (2 ^ 31) \<le> uint k" using uint_ge_0 order_trans by blast
  then have "sint k = uint k" unfolding sint_uint by (intro signed_take_bit_int_eq_self) (use u in simp_all)
  then show ?thesis by simp
qed

lemma writei_run:
  assumes t: "i_type (icache s ip) \<noteq> T_DEV" and off: "off \<le> i_size (icache s ip)" "unat off + length src \<le> MAXFILE * BSIZE"
  shows "unat (off + of_nat (length src)) = unat off + length src"
    "writei dv ip src off s = rbind (writei_loop ip (unat off) src s) (\<lambda>_ s.
       rbind (if src \<noteq> [] \<and> i_size (icache s ip) < off + of_nat (length src)
         then iupdate ip (set_inode ip (\<lambda>x. x\<lparr>i_size := off + of_nat (length src)\<rparr>) s) else Ret () s) (\<lambda>_ s.
       Ret (int (length src)) s))"
proof -
  let ?n = "of_nat (length src) :: u32"
  have l: "length src < 2 ^ 31" using off(2) unfolding MAX_value by simp
  have un: "unat ?n = length src" by (rule unat_of_nat32) (use l in simp)
  have "unat off + unat ?n < 2 ^ 32" using off(2) unfolding MAX_value un by simp
  then show u: "unat (off + ?n) = unat off + length src" using unat_plus_nowrap [of off "unat ?n"] un by simp
  have 1: "\<not> off + ?n < off" "\<not> of_nat (MAXFILE * BSIZE) < off + ?n"
    using off(2) unfolding word_less_nat_alt u by (simp_all add: MAX_value)
  have 2: "0 < ?n \<longleftrightarrow> src \<noteq> []" unfolding word_less_nat_alt un by simp
  have 3: "sint ?n = int (length src)" 
    using sint_small [of ?n] l un by simp
  have 4: "\<not> i_size (icache s ip) < off" using off(1) by simp
  show "writei dv ip src off s = rbind (writei_loop ip (unat off) src s) (\<lambda>_ s.
       rbind (if src \<noteq> [] \<and> i_size (icache s ip) < off + ?n
         then iupdate ip (set_inode ip (\<lambda>x. x\<lparr>i_size := off + ?n\<rparr>) s) else Ret () s) (\<lambda>_ s.
       Ret (int (length src)) s))"
    unfolding writei_def Let_def using t 1 2 3 4 by simp
qed

lemma writei_refused:
  assumes t: "i_type (icache s ip) \<noteq> T_DEV" and l: "length src < 2 ^ 31"
    and o: "i_size (icache s ip) < o2 \<or> MAXFILE * BSIZE < unat o2 + length src"
  shows "writei dv ip src o2 s = Ret (-1) s"
proof -
  let ?n = "of_nat (length src) :: u32"
  have un: "unat ?n = length src" by (rule unat_of_nat32) (use l in simp)
  have "i_size (icache s ip) < o2 \<or> o2 + ?n < o2 \<or> of_nat (MAXFILE * BSIZE) < o2 + ?n"
  proof (cases "unat o2 + length src < 2 ^ 32")
    case True
    then have "unat (o2 + ?n) = unat o2 + length src" using unat_plus_nowrap [of o2 "unat ?n"] un by simp
    then show ?thesis using o unfolding word_less_nat_alt by (auto simp: MAX_value)
  next
    case False
    then have "o2 + ?n < o2"
      using l un unat32_less [of o2] by (simp add: word_less_nat_alt unat_plus_if')
    then show ?thesis by simp
  qed
  then show ?thesis unfolding writei_def Let_def using t by auto
qed

lemma overwrite_map:
  assumes "off \<le> n" "\<And>p. p < max n (off + length xs) \<Longrightarrow> g p = (if off \<le> p \<and> p < off + length xs then xs ! (p - off) else f p)"
  shows "map g [0..<max n (off + length xs)] = overwrite (map f [0..<n]) off xs"
proof (rule nth_equalityI)
  show "length (map g [0..<max n (off + length xs)]) = length (overwrite (map f [0..<n]) off xs)"
    using assms(1) by (simp add: overwrite_def)
  fix p assume "p < length (map g [0..<max n (off + length xs)])"
  then have p: "p < max n (off + length xs)" by simp
  consider "p < off" | "off \<le> p" "p < off + length xs" | "off + length xs \<le> p" by linarith
  then show "map g [0..<max n (off + length xs)] ! p = overwrite (map f [0..<n]) off xs ! p"
  proof cases
    case 1
    then show ?thesis using p assms(1) by (simp add: overwrite_def nth_append assms(2))
  next
    case 2
    then have "p - off < length xs" by linarith
    then show ?thesis using 2 using p assms(1) by (simp add: overwrite_def nth_append assms(2))
  next
    case 3
    then have "p < n" "\<not> p - off < length xs" "\<not> p < off" using p by linarith+
    then show ?thesis using p assms(1) 3 by (simp add: overwrite_def nth_append assms(2))
  qed
qed

lemma solid_grown:
  assumes g: "grown ip k n s t" and w: "wrote ip off xs s t" and s: "solid ip n0 s" "off \<le> n0" "max n0 (off + length xs) \<le> MAXFILE * BSIZE"
  shows "solid ip (max n0 (off + length xs)) t"
  unfolding solid_def
proof (intro allI impI)
  fix bn assume b: "bn * BSIZE < max n0 (off + length xs)"
  then have lt: "bn * BSIZE < MAXFILE * BSIZE" using s(3) by linarith
  then have bn: "bn < MAXFILE" by simp
  show "fblk (cview t) (addrs_of ip t) bn \<noteq> 0"
  proof (cases "bn * BSIZE < n0")
    case True
    then show ?thesis using g s(1) bn by (simp add: grown_def solid_def)
  next
    case False
    then have r: "off \<le> bn * BSIZE" "bn * BSIZE < off + length xs" using b s(2) by linarith+
    have "bn * BSIZE div BSIZE = bn" using BSIZE_pos by (metis less_not_refl2 nonzero_mult_div_cancel_right)
    then show ?thesis using w lt r unfolding wrote_def by metis
  qed
qed

lemma grown_others: "inode_ok ip s \<Longrightarrow> grown ip k n s t \<Longrightarrow> others_kept ip s t"
  unfolding others_kept_def
proof (intro conjI allI impI, simp add: grown_def, elim conjE)
  fix b assume s: "inode_ok ip s" and g: "grown ip k n s t"
    and b: "data_block (fsb s) b" "used (fsb s) (cview s) b" "b \<notin> own (cview s) (addrs_of ip s)"
  have "b \<notin> bitmap (fsb s)" using bitmap_before(1) [OF inode_facts(1) [OF s], of b] b(1) by (auto simp: data_block_def)
  then show "cview t b = cview s b" using g b by (simp add: grown_def data_block_def)
qed

lemma fbyte_cong: "(\<And>bm. bm < MAXFILE \<Longrightarrow> fcontent ip t bm = fcontent ip s bm) \<Longrightarrow> p < MAXFILE * BSIZE \<Longrightarrow> fbyte ip t p = fbyte ip s p"
  by (simp add: fbyte_def less_mult_imp_div_less)

text \<open>The new size, written to the disk.\<close>

lemma set_size_law:
  assumes s: "file_inv ip s" and n: "solid ip (unat n) s" "unat n \<le> MAXFILE * BSIZE" and c: "0 < txn_budget s"
  shows "wp (iupdate ip (set_inode ip (\<lambda>x. x\<lparr>i_size := n\<rparr>) s)) (\<lambda>_ t. file_inv ip t \<and> i_size (icache t ip) = n \<and>
    (\<forall>p < MAXFILE * BSIZE. fbyte ip t p = fbyte ip s p) \<and> others_kept ip s t \<and>
    get_dinode (cview t (inode_block ip t)) (unat (i_inum (icache t ip)) mod IPB) = to_dinode (icache t ip))"
proof -
  let ?s = "set_inode ip (\<lambda>x. x\<lparr>i_size := n\<rparr>) s"
  let ?b = "inode_block ip s" and ?k = "unat (i_inum (icache s ip)) mod IPB"
  have io: "inode_ok ip s" and b: "unat ?b < unat (sb_bmapstart (fsb s))" using s by (simp_all add: file_inv_def)
  have e: "inode_ok ip ?s" "inode_block ip ?s = ?b" "fsb ?s = fsb s" "cview ?s = cview s" "addrs_of ip ?s = addrs_of ip s"
    "i_inum (icache ?s ip) = i_inum (icache s ip)" "txn_budget ?s = txn_budget s" "i_size (icache ?s ip) = n"
    "\<And>p. fbyte ip ?s p = fbyte ip s p"
    using io by (simp_all add: set_inode_def inode_ok_def inode_block_def fbyte_def fcontent_def)
  note i = inode_facts [OF io]
  have la: "length (i_addrs (icache s ip)) = NDIRECT + 1" using i(5) by (simp add: file_ok_def)
  let ?d = "put_dinode (cview s ?b) ?k (to_dinode (icache ?s ip))"
  have "wp (iupdate ip ?s) (\<lambda>_ t. tx.moved 1 ?s ((cview ?s)(?b := ?d)) t)"
    using iupdate_law [OF e(1)] b c e by simp
  then show ?thesis
  proof (rule wp_mono)
    fix x t assume t: "tx.moved 1 ?s ((cview ?s)(?b := ?d)) t"
    have b': "unat ?b < unat (sb_bmapstart (fsb ?s))" using b by (simp add: e)
    note m = meta_block_law [OF e(1) b' t] and fr = moved_fs [OF t]
    have ib: "inode_block ip t = ?b" using e by (simp add: inode_block_def fr)
    have "solid ip (unat n) t"
    proof -
      have "fblk (cview t) (addrs_of ip t) bn \<noteq> 0" if "bn * BSIZE < unat n" for bn
      proof -
        have "bn < MAXFILE" using that n(2) by (metis less_le_trans mult_less_cancel2)
        then show ?thesis using m(3) n(1) that e by (simp add: solid_def)
      qed
      then show ?thesis by (simp add: solid_def)
    qed
    then have "file_inv ip t" using m(1) s n(2) ib fr e by (simp add: file_inv_def set_inode_def)
    moreover have "fbyte ip t p = fbyte ip s p" if "p < MAXFILE * BSIZE" for p
      using fbyte_cong [OF m(2) that] e(9) by simp
    moreover have "others_kept ip s t"
      using meta_not_bitmap(2) [OF i(1) b] fr by (auto simp: others_kept_def set_inode_def)
    moreover have "get_dinode ?d ?k = to_dinode (icache ?s ip)"
      using la i(7) by (intro get_put_same) (simp_all add: to_dinode_def set_inode_def IPB_def BSIZE_def)
    ultimately show "file_inv ip t \<and> i_size (icache t ip) = n \<and>
        (\<forall>p < MAXFILE * BSIZE. fbyte ip t p = fbyte ip s p) \<and> others_kept ip s t \<and>
        get_dinode (cview t (inode_block ip t)) (unat (i_inum (icache t ip)) mod IPB) = to_dinode (icache t ip)"
      using ib fr e by simp
  qed
qed

lemma others_kept_trans:
  assumes "others_kept ip s t" "others_kept ip t u" "inode_ok ip s" "grown ip k n s t"
  shows "others_kept ip s u"
  unfolding others_kept_def
proof (intro conjI allI impI)
  show "icache u j = icache s j" if "j \<noteq> ip" for j using assms(1,2) that by (simp add: others_kept_def)
  fix b assume b: "data_block (fsb s) b \<and> used (fsb s) (cview s) b \<and> b \<notin> own (cview s) (addrs_of ip s)"
  have "b \<notin> bitmap (fsb s)"
    using bitmap_before(1) [OF inode_facts(1) [OF assms(3)], of b] b by (auto simp: data_block_def)
  then have "used (fsb s) (cview t) b" "b \<notin> own (cview t) (addrs_of ip t)" "fsb t = fsb s"
    using assms(4) b by (simp_all add: grown_def data_block_def)
  then show "cview u b = cview s b" using assms(1,2) b by (simp add: others_kept_def)
qed

lemma writei_law:
  assumes s: "file_inv ip s" and src: "src \<noteq> []"
    and off: "off \<le> i_size (icache s ip)" "unat off + length src \<le> MAXFILE * BSIZE"
    and c: "6 * nblk (unat off) (length src) < txn_budget s" "2 * nblk (unat off) (length src) \<le> card (frees s)"
  shows "wp (writei dv ip src off s) (\<lambda>n t. n = int (length src) \<and> file_inv ip t \<and>
    file_bytes ip t = overwrite (file_bytes ip s) (unat off) src \<and> others_kept ip s t \<and>
    (i_size (icache t ip) \<noteq> i_size (icache s ip) \<longrightarrow>
       get_dinode (cview t (inode_block ip t)) (unat (i_inum (icache t ip)) mod IPB) = to_dinode (icache t ip)))"
proof -
  let ?sz = "unat (i_size (icache s ip))" and ?n = "off + of_nat (length src) :: u32"
  have io: "inode_ok ip s" and ty: "i_type (icache s ip) \<noteq> T_DEV" and sm: "?sz \<le> MAXFILE * BSIZE" and so: "solid ip ?sz s"
    using s by (simp_all add: file_inv_def)
  note run = writei_run [OF ty off]
  have osz: "unat off \<le> ?sz" using off(1) by (simp add: word_le_nat_alt)
  have mx: "max ?sz (unat off + length src) \<le> MAXFILE * BSIZE" using sm off(2) by simp
  have L: "wp (writei_loop ip (unat off) src s) (\<lambda>_ t. grown ip (6 * nblk (unat off) (length src)) (2 * nblk (unat off) (length src)) s t \<and>
    wrote ip (unat off) src s t)"
    using c by (intro writei_loop_law [OF io off(2)]) simp_all
  show ?thesis
    unfolding run(2)
  proof (rule wp_rbindI [OF L], elim conjE)
    fix x t assume g: "grown ip (6 * nblk (unat off) (length src)) (2 * nblk (unat off) (length src)) s t" and w: "wrote ip (unat off) src s t"
    have sz: "i_size (icache t ip) = i_size (icache s ip)" "i_type (icache t ip) = i_type (icache s ip)"
      "i_inum (icache t ip) = i_inum (icache s ip)" "fsb t = fsb s"
      using g same_inode_fields [of "icache t ip" "icache s ip"] by (simp_all add: grown_def)
    have sd: "solid ip (max ?sz (unat off + length src)) t" by (rule solid_grown [OF g w so osz mx])
    have fi: "file_inv ip t"
      using s g sd sz by (simp add: file_inv_def inode_block_def grown_def solid_def)
    have oth: "others_kept ip s t" by (rule grown_others [OF io g])
    have bytes: "map (fbyte ip t) [0..<max ?sz (unat off + length src)] = overwrite (file_bytes ip s) (unat off) src"
      unfolding file_bytes_def
    proof (rule overwrite_map [OF osz])
      fix p assume "p < max ?sz (unat off + length src)"
      then have "p < MAXFILE * BSIZE" using mx by linarith
      then show "fbyte ip t p = (if unat off \<le> p \<and> p < unat off + length src then src ! (p - unat off) else fbyte ip s p)"
        using w by (simp add: wrote_def)
    qed
    show "wp (rbind (if src \<noteq> [] \<and> i_size (icache t ip) < ?n
         then iupdate ip (set_inode ip (\<lambda>x. x\<lparr>i_size := ?n\<rparr>) t) else Ret () t) (\<lambda>_ s. Ret (int (length src)) s))
      (\<lambda>n t. n = int (length src) \<and> file_inv ip t \<and> file_bytes ip t = overwrite (file_bytes ip s) (unat off) src \<and>
        others_kept ip s t \<and> (i_size (icache t ip) \<noteq> i_size (icache s ip) \<longrightarrow>
        get_dinode (cview t (inode_block ip t)) (unat (i_inum (icache t ip)) mod IPB) = to_dinode (icache t ip)))"
    proof (cases "i_size (icache s ip) < ?n")
      case True
      then have m: "max ?sz (unat off + length src) = unat ?n" using run(1) by (simp add: word_less_nat_alt)
      have b: "0 < txn_budget t" using g c(1) by (simp add: grown_def)
      have "wp (iupdate ip (set_inode ip (\<lambda>x. x\<lparr>i_size := ?n\<rparr>) t)) (\<lambda>_ u. file_inv ip u \<and> i_size (icache u ip) = ?n \<and>
        (\<forall>p < MAXFILE * BSIZE. fbyte ip u p = fbyte ip t p) \<and> others_kept ip t u \<and>
        get_dinode (cview u (inode_block ip u)) (unat (i_inum (icache u ip)) mod IPB) = to_dinode (icache u ip))"
        by (rule set_size_law [OF fi _ _ b]) (use sd m mx in simp_all)
      moreover have "file_bytes ip u = overwrite (file_bytes ip s) (unat off) src"
        if "i_size (icache u ip) = ?n" "\<forall>p < MAXFILE * BSIZE. fbyte ip u p = fbyte ip t p" for u
      proof -
        have "file_bytes ip u = map (fbyte ip t) [0..<unat ?n]" unfolding file_bytes_def that(1) using that(2) m mx by simp
        then show ?thesis using bytes m by simp
      qed
      moreover have "src \<noteq> [] \<and> i_size (icache t ip) < ?n" using src True sz(1) by simp
      ultimately show ?thesis
        unfolding wp_rbind wp_simps by (simp only: if_True simp_thms) (elim wp_mono, use others_kept_trans [OF oth _ io g] in blast)
    next
      case False
      then have "max ?sz (unat off + length src) = ?sz" using run(1) by (simp add: word_less_nat_alt)
      then show ?thesis using fi oth bytes sz(1) False by (simp add: file_bytes_def)
    qed
  qed
qed

section \<open>readi\<close>

lemma readi_law:
  assumes s: "file_inv ip s" and off: "off \<le> i_size (icache s ip)" "unat off + unat n < 2 ^ 32"
  shows "wp (readi dv ip off n s) (\<lambda>r t. tx.moved 0 s (cview s) t \<and>
    snd r = take (unat n) (drop (unat off) (file_bytes ip s)) \<and> fst r = int (length (snd r)))"
proof -
  let ?sz = "unat (i_size (icache s ip))"
  have io: "inode_ok ip s" and ty: "i_type (icache s ip) \<noteq> T_DEV" and sm: "?sz \<le> MAXFILE * BSIZE" and so: "solid ip ?sz s"
    using s by (simp_all add: file_inv_def)
  have osz: "unat off \<le> ?sz" using off(1) by (simp add: word_le_nat_alt)
  have un: "unat (off + n) = unat off + unat n" using unat_plus_nowrap [of off "unat n"] off(2) by simp
  define k where "k = (if i_size (icache s ip) < off + n then i_size (icache s ip) - off else n)"
  have k: "unat k = min (unat n) (?sz - unat off)"
    using un off(1) osz by (simp add: k_def word_less_nat_alt unat_sub_if_size word_le_nat_alt)
  have kl: "unat off + unat k \<le> ?sz" using k osz by simp
  have sk: "sint k = int (unat k)"
  proof -
    have "unat k < 2 ^ 31" using kl sm unfolding MAX_value by simp
    then show ?thesis by (rule sint_small)
  qed
  have run: "readi dv ip off n s = rbind (readi_loop ip (unat off) (unat k) s) (\<lambda>xs s. Ret (sint k, xs) s)"
  proof -
    have "\<not> i_size (icache s ip) < off" "\<not> off + n < off" using off(1) un by (simp_all add: word_less_nat_alt word_le_nat_alt not_less)
    then show ?thesis unfolding readi_def Let_def k_def using ty by simp
  qed
  have so': "solid ip (unat off + unat k) s" using so kl by (simp add: solid_def)
  have "take (unat n) (drop (unat off) (file_bytes ip s)) = map (fbyte ip s) [unat off..<unat off + unat k]"
    using osz by (simp add: file_bytes_def take_map drop_map k min_def)
  moreover have "wp (readi_loop ip (unat off) (unat k) s)
    (\<lambda>xs t. tx.moved 0 s (cview s) t \<and> xs = map (fbyte ip s) [unat off..<unat off + unat k])"
    by (rule readi_loop_law [OF io _ so']) (use kl sm in simp)
  ultimately show ?thesis unfolding run sk by (auto simp: wp_rbind elim!: wp_mono)
qed

text \<open>C23: A file is its list of bytes. Inside a transaction with room in the log and enough free blocks, \<open>writei\<close> of
  \<open>src\<close> at \<open>off\<close>, which may extend the file, returns the number of bytes written; what a later \<open>readi\<close> returns, at
  any position and of any length, is that part of the old bytes with \<open>src\<close> put over them at \<open>off\<close>. New blocks are
  allocated on the way, also the indirect block; other files keep their blocks and the block allocator its invariant.
  A write behind the end of the file, or over the largest size, fails and changes nothing.\<close>

theorem writei_readi:
  fixes s :: "'z fssys_scheme"
  assumes "file_inv ip s" "src \<noteq> []" "off \<le> i_size (icache s ip)" "unat off + length src \<le> MAXFILE * BSIZE"
    and "6 * nblk (unat off) (length src) < txn_budget s" "2 * nblk (unat off) (length src) \<le> card (frees s)"
    and "unat off' \<le> max (unat (i_size (icache s ip))) (unat off + length src)" "unat off' + unat m < 2 ^ 32"
  shows "wp (rbind (writei dv ip src off s) (\<lambda>n t. rbind (readi dv ip off' m t) (\<lambda>r u. Ret (n, r) u)))
      (\<lambda>(n, k, xs) u. n = int (length src) \<and> k = int (length xs) \<and>
         xs = take (unat m) (drop (unat off') (overwrite (file_bytes ip s) (unat off) src)) \<and> file_inv ip u \<and> others_kept ip s u) \<and>
    (i_size (icache s ip) < o2 \<or> MAXFILE * BSIZE < unat o2 + length src \<longrightarrow> writei dv ip src o2 s = Ret (-1) s)"
proof (intro conjI impI)
  show "wp (rbind (writei dv ip src off s) (\<lambda>n t. rbind (readi dv ip off' m t) (\<lambda>r u. Ret (n, r) u)))
      (\<lambda>(n, k, xs) u. n = int (length src) \<and> k = int (length xs) \<and>
         xs = take (unat m) (drop (unat off') (overwrite (file_bytes ip s) (unat off) src)) \<and> file_inv ip u \<and> others_kept ip s u)"
  proof (rule wp_rbindI [OF writei_law [OF assms(1-6)]], elim conjE)
    fix n t assume n: "n = int (length src)" and t: "file_inv ip t" and b: "file_bytes ip t = overwrite (file_bytes ip s) (unat off) src"
      and o: "others_kept ip s t"
    have "unat (i_size (icache t ip)) = length (overwrite (file_bytes ip s) (unat off) src)"
      unfolding b [symmetric] by (simp add: file_bytes_def)
    also have "\<dots> = max (unat (i_size (icache s ip))) (unat off + length src)"
      using assms(3) by (simp add: overwrite_def file_bytes_def word_le_nat_alt)
    finally have "off' \<le> i_size (icache t ip)" using assms(7) by (simp add: word_le_nat_alt)
    from readi_law [OF t this assms(8)]
    show "wp (rbind (readi dv ip off' m t) (\<lambda>r u. Ret (n, r) u))
      (\<lambda>(n, k, xs) u. n = int (length src) \<and> k = int (length xs) \<and>
         xs = take (unat m) (drop (unat off') (overwrite (file_bytes ip s) (unat off) src)) \<and> file_inv ip u \<and> others_kept ip s u)"
    proof (rule wp_rbindI, elim conjE)
      fix r u assume u: "tx.moved 0 t (cview t) u"
        and r: "snd r = take (unat m) (drop (unat off') (file_bytes ip t))" "fst r = int (length (snd r))"
      have "file_inv ip u"
        using t moved0_inode [OF _ u, of ip] moved_fs [OF u] by (simp add: file_inv_def solid_def inode_block_def)
      moreover have "others_kept ip s u" using o moved_fs [OF u] by (simp add: others_kept_def)
      ultimately show "wp (Ret (n, r) u) (\<lambda>(n, k, xs) u. n = int (length src) \<and> k = int (length xs) \<and>
         xs = take (unat m) (drop (unat off') (overwrite (file_bytes ip s) (unat off) src)) \<and> file_inv ip u \<and> others_kept ip s u)"
        using n r b by (cases r) simp
    qed
  qed
  show "writei dv ip src o2 s = Ret (-1) s" if "i_size (icache s ip) < o2 \<or> MAXFILE * BSIZE < unat o2 + length src"
    by (rule writei_refused) (use assms(1,4) that in \<open>simp_all add: file_inv_def MAX_value\<close>)
qed

text \<open>An empty file on a disk where only the blocks before the data are in use.\<close>

definition demo_map :: "u32 \<Rightarrow> block" where
  "demo_map n = (if n = 58 then replicate 7 255 @ 7 # replicate 504 0 else zero_block)"

definition demo_store :: fssys where
  "demo_store = binit (demo_bio demo_map \<lparr>lg_start = 2, lg_size = 30, outstanding = 1, committing = False, lg_dev = 1, lh_n = 0,
     lh_block = replicate 30 0, fsb = \<lparr>sb_size = 1000, sb_nblocks = 941, sb_ninodes = 200, sb_nlog = 30, sb_logstart = 2,
     sb_inodestart = 32, sb_bmapstart = 58\<rparr>,
     icache = (\<lambda>_. demo_inode\<lparr>i_dev := 1, i_inum := 5, i_ref := 1, i_valid := True, i_type := T_FILE\<rparr>)\<rparr>)"

lemma more_fs:
  fixes s t :: "'z fssys_scheme"
  assumes "bio.more t = bio.more s"
  shows "lg_start t = lg_start s" "lg_size t = lg_size s" "outstanding t = outstanding s" "lh_n t = lh_n s"
    "lh_block t = lh_block s" "fsb t = fsb s" "icache t = icache s"
  using assms by (cases s; cases t; simp)+

lemma length_demo_map: "length (demo_map n) = BSIZE"
  by (simp add: demo_map_def BSIZE_def)

lemma demo_store_facts:
  "bio_inv demo_store" "cview demo_store = demo_map" "dirtyb demo_store = {}" "hblocks demo_store = {}" "disksize demo_store = 1000"
  "lg_size demo_store = 30" "outstanding demo_store = 1" "lh_n demo_store = 0" "lh_block demo_store = replicate 30 0"
  "fsb demo_store = \<lparr>sb_size = 1000, sb_nblocks = 941, sb_ninodes = 200, sb_nlog = 30, sb_logstart = 2,
     sb_inodestart = 32, sb_bmapstart = 58\<rparr>"
  "icache demo_store = (\<lambda>_. demo_inode\<lparr>i_dev := 1, i_inum := 5, i_ref := 1, i_valid := True, i_type := T_FILE\<rparr>)"
proof -
  let ?m = "\<lparr>lg_start = 2, lg_size = 30, outstanding = 1, committing = False, lg_dev = 1, lh_n = 0,
     lh_block = replicate 30 0, fsb = \<lparr>sb_size = 1000, sb_nblocks = 941, sb_ninodes = 200, sb_nlog = 30, sb_logstart = 2,
     sb_inodestart = 32, sb_bmapstart = 58\<rparr>,
     icache = (\<lambda>_. demo_inode\<lparr>i_dev := 1, i_inum := 5, i_ref := 1, i_valid := True, i_type := T_FILE\<rparr>)\<rparr>"
  note f = demo_bio_facts [of demo_map ?m, OF length_demo_map, folded demo_store_def]
  show "bio_inv demo_store" "cview demo_store = demo_map" "dirtyb demo_store = {}" "hblocks demo_store = {}"
    "disksize demo_store = 1000" by (simp_all add: f)
  have "bio.more demo_store = bio.more (demo_bio demo_map ?m)"
    unfolding f(7) by (simp add: demo_bio_def demo_kern_def)
  note g = more_fs [OF this]
  show "lg_size demo_store = 30" "outstanding demo_store = 1" "lh_n demo_store = 0" "lh_block demo_store = replicate 30 0"
    "fsb demo_store = \<lparr>sb_size = 1000, sb_nblocks = 941, sb_ninodes = 200, sb_nlog = 30, sb_logstart = 2,
       sb_inodestart = 32, sb_bmapstart = 58\<rparr>"
    "icache demo_store = (\<lambda>_. demo_inode\<lparr>i_dev := 1, i_inum := 5, i_ref := 1, i_valid := True, i_type := T_FILE\<rparr>)"
    unfolding g by (simp_all add: demo_bio_def demo_kern_def)
qed

lemma demo_used:
  assumes "b < 1000"
  shows "used (fsb demo_store) demo_map b \<longleftrightarrow> unat b < 59"
proof -
  have l: "unat b < 1000" using assms by (simp add: word_less_nat_alt)
  then have "unat (b div of_nat BPB) = 0" unfolding div_BPB by (simp add: BPB_pos)
  then have "b div of_nat BPB = 0" by (simp add: word_unat_eq_iff)
  then have B: "BBLOCK b (fsb demo_store) = 58" by (simp add: BBLOCK_def demo_store_facts)
  have m: "unat b mod BPB = unat b" using l by (simp add: BPB_pos)
  define i where "i = unat b"
  have i8: "i mod 8 < 8" by simp
  have "used_bit (demo_map 58) i \<longleftrightarrow> i < 59"
  proof (cases "i div 8 < 7")
    case True
    have "bit (255 :: byte) (i mod 8)" using i8 bit_mask_iff [of 8 "i mod 8", where ?'a = byte] by (simp add: mask_eq_exp_minus_1)
    then show ?thesis using True by (simp add: used_bit_def demo_map_def nth_append)
  next
    case False
    show ?thesis
    proof (cases "i div 8 = 7")
      case True
      have "bit (7 :: byte) (i mod 8) \<longleftrightarrow> i mod 8 < 3"
        using i8 bit_mask_iff [of 3 "i mod 8", where ?'a = byte] by (simp add: mask_eq_exp_minus_1)
      moreover have "i mod 8 < 3 \<longleftrightarrow> i < 59" using True div_mult_mod_eq [of i 8] by linarith
      ultimately show ?thesis using True by (simp add: used_bit_def demo_map_def nth_append)
    next
      case c: False
      then have "\<not> i < 59" "i div 8 - 8 < 504" using False l by (auto simp: i_def)
      then show ?thesis using False c by (simp add: used_bit_def demo_map_def nth_append nth_Cons')
    qed
  qed
  then show ?thesis by (simp add: used_def B m i_def)
qed

lemma demo_store_file: "file_inv 0 demo_store"
proof -
  have d: "data_start (fsb demo_store) = 59" by (simp add: data_start_def demo_store_facts BPB_pos)
  have l: "layout_ok demo_store" unfolding layout_ok_def d by (simp add: demo_store_facts BPB_pos)
  have "txn_inv demo_store" by (simp add: txn_inv_def demo_store_facts LOGSIZE_def)
  moreover have "used (fsb demo_store) demo_map b" if "unat b < 59" for b
    using demo_used [of b] that by (simp add: word_less_nat_alt)
  ultimately have a: "alloc_ok demo_store" using l by (simp add: alloc_ok_def d demo_store_facts(2,4))
  have A: "addrs_of 0 demo_store = replicate 13 0" by (simp add: demo_store_facts demo_inode_def)
  have b: "fblk v (replicate 13 0) bn = 0" if "bn < MAXFILE" for v bn
    by (simp add: fblk_def NDIRECT_def)
  then have "own v (replicate 13 0) = {}" for v by (auto simp: own_def NDIRECT_def)
  then have "file_ok (fsb demo_store) v (replicate 13 0)" for v using b by (simp add: file_ok_def NDIRECT_def)
  then have "inode_ok 0 demo_store" using a A by (simp add: inode_ok_def demo_store_facts(4)) (simp add: demo_store_facts)
  then show ?thesis
    by (simp add: file_inv_def solid_def inode_block_def demo_store_facts(10,11) demo_inode_def T_FILE_def T_DEV_def IBLOCK_def
        IPB_def BSIZE_def)
qed

lemma demo_store_frees: "2 \<le> card (frees demo_store)"
proof -
  have "{100, 200} \<subseteq> frees demo_store"
    using demo_used [of 100] demo_used [of 200] by (simp add: frees_def demo_store_facts(2)) (simp add: demo_store_facts)
  from card_mono [OF finite_frees this] show ?thesis by simp
qed

theorem writei_readi_witness:
  "wp (rbind (writei \<lparr>dev_read = (\<lambda>_. None), dev_write = (\<lambda>_. None)\<rparr> 0 [104, 105, 33] 0 demo_store) (\<lambda>n t.
      rbind (readi \<lparr>dev_read = (\<lambda>_. None), dev_write = (\<lambda>_. None)\<rparr> 0 1 100 t) (\<lambda>r u. Ret (n, r) u)))
    (\<lambda>(n, k, xs) u. n = 3 \<and> k = 2 \<and> xs = [105, 33] \<and> file_inv 0 u)"
proof -
  have n: "nblk 0 (Suc (Suc (Suc 0))) = 1" by (simp add: nblk_def BSIZE_def)
  have s: "i_size (icache demo_store 0) = 0" by (simp add: demo_store_facts demo_inode_def)
  have f: "file_bytes 0 demo_store = []" by (simp add: file_bytes_def s)
  have b: "txn_budget demo_store = 29" by (simp add: txn_budget_def demo_store_facts)
  have "wp (rbind (writei \<lparr>dev_read = (\<lambda>_. None), dev_write = (\<lambda>_. None)\<rparr> 0 [104, 105, 33] 0 demo_store) (\<lambda>n t.
      rbind (readi \<lparr>dev_read = (\<lambda>_. None), dev_write = (\<lambda>_. None)\<rparr> 0 1 100 t) (\<lambda>r u. Ret (n, r) u)))
    (\<lambda>(n, k, xs) u. n = int (length [104 :: byte, 105, 33]) \<and> k = int (length xs) \<and>
       xs = take (unat (100 :: u32)) (drop (unat (1 :: u32)) (overwrite (file_bytes 0 demo_store) (unat (0 :: u32)) [104, 105, 33])) \<and>
       file_inv 0 u \<and> others_kept 0 demo_store u)"
    by (rule conjunct1 [OF writei_readi [OF demo_store_file]])
       (use n s b demo_store_frees in \<open>simp_all add: MAX_value\<close>)
  then show ?thesis by (rule wp_mono) (auto simp: f overwrite_def)
qed

section \<open>Blocks\<close>

text \<open>The bitmap after a block was allocated and freed again.\<close>

lemma bfree_restores:
  fixes s :: "'z fssys_scheme"
  assumes l: "layout_ok s" and inv: "txn_inv s" and s: "hblocks s = {}" "3 \<le> txn_budget s"
    and a: "a < sb_size (fsb s)" "data_start (fsb s) \<le> unat a" "\<not> used (fsb s) (cview s) a"
    and m: "tx.moved 2 s (allocated (fsb s) a (cview s)) t" and t: "alloc_ok t"
  shows "wp (bfree 1 a t) (\<lambda>_ u. tx.moved 1 t ((cview s)(a := zeros)) u)"
proof -
  let ?v = "cview s" and ?n = "BBLOCK a (fsb s)" and ?i = "unat a mod BPB"
  note len = tx.view_size [OF inv] and fr = moved_fs [OF m]
  have db: "data_block (fsb s) a" using a by (simp add: data_block_def)
  have "?n \<in> bitmap (fsb s)" using a(1) by (auto simp: bitmap_def)
  then have na: "?n \<noteq> a" using bitmap_before(1) [OF l, of a] a(2) by auto
  have u: "used (fsb t) (cview t) a" using used_data [OF l db a(1) len] by (simp add: fr)
  have nb: "\<not> used_bit (?v ?n) ?i" using a(3) by (simp add: used_def)
  have n8: "?i div 8 < length (?v ?n)" by (simp add: len BPB_pos BSIZE_def)
  have at: "a < sb_size (fsb t)" "card (hblocks t) \<le> txn_budget t" "0 < txn_budget t" using a(1) s fr by simp_all
  have "clear_bit_at (cview t ?n) ?i = ?v ?n"
    using set_clear_bit [OF n8 nb] na by (simp add: fr(5) allocated_def)
  then have v: "(cview t)(?n := clear_bit_at (cview t ?n) ?i) = ?v(a := zeros)"
    using na by (auto simp: fr(5) allocated_def fun_eq_iff)
  show ?thesis using bfree_law [OF t at(2,3,1)] u v by (simp add: fr(1))
qed

text \<open>C25: As long as a block is free, \<open>balloc\<close> finds one without panic; it is a data block that was not in use, filled with
  zeros. Giving it back with \<open>bfree\<close> restores the bitmap, and all other blocks are untouched; \<open>bfree\<close> of a block
  that is not in use panics.\<close>

theorem balloc_bfree:
  fixes s :: "'z fssys_scheme"
  assumes s: "alloc_ok s" "hblocks s = {}" "3 \<le> txn_budget s" and b: "frees s \<noteq> {}"
  shows "wp (rbind (balloc 1 s) (\<lambda>a t. rbind (bfree 1 a t) (\<lambda>_ u. Ret a u)))
      (\<lambda>a u. a \<in> frees s \<and> data_block (fsb s) a \<and> cview u = (cview s)(a := replicate BSIZE 0) \<and> frees u = frees s) \<and>
    (\<forall>c \<in> frees s. bfree 1 c s = Panic ''freeing free block'')"
proof
  let ?v = "cview s"
  let ?Q = "\<lambda>a u. a \<in> frees s \<and> data_block (fsb s) a \<and> cview u = ?v(a := replicate BSIZE 0) \<and> frees u = frees s"
  have l: "layout_ok s" and inv: "txn_inv s" using s(1) by (simp_all add: alloc_ok_def)
  obtain c where c: "c < sb_size (fsb s)" "\<not> used (fsb s) ?v c" using b by (auto simp: frees_def)
  have B: "wp (balloc 1 s) (\<lambda>a t. a < sb_size (fsb s) \<and> data_start (fsb s) \<le> unat a \<and> \<not> used (fsb s) ?v a \<and>
    tx.moved 2 s (allocated (fsb s) a ?v) t \<and> alloc_ok t)"
    by (rule balloc_law [OF s(1) _ _ _ c]) (use s(2,3) in simp_all)
  show "wp (rbind (balloc 1 s) (\<lambda>a t. rbind (bfree 1 a t) (\<lambda>_ u. Ret a u))) ?Q"
  proof (rule wp_rbindI [OF B], elim conjE, rule wp_rbindI)
    fix a t x u assume a: "a < sb_size (fsb s)" "data_start (fsb s) \<le> unat a" "\<not> used (fsb s) ?v a"
      and m: "tx.moved 2 s (allocated (fsb s) a ?v) t" and t: "alloc_ok t"
    show "wp (bfree 1 a t) (\<lambda>_ u. tx.moved 1 t (?v(a := zeros)) u)" by (rule bfree_restores [OF l inv s(2,3) a m t])
    assume "tx.moved 1 t (?v(a := zeros)) u"
    note fu = moved_fs [OF this] and fr = moved_fs [OF m]
    have "frees u = frees s" using used_data_upd [OF l a(2)] by (auto simp: frees_def fu fr)
    then show "wp (Ret a u) ?Q" using a fu(5) by (simp add: frees_def data_block_def zeros_def)
  qed
  show "\<forall>c \<in> frees s. bfree 1 c s = Panic ''freeing free block''"
    using bfree_law [OF s(1)] s(2,3) by (simp add: frees_def)
qed

theorem balloc_bfree_witness:
  "wp (rbind (balloc 1 demo_store) (\<lambda>a t. rbind (bfree 1 a t) (\<lambda>_ u. Ret a u)))
     (\<lambda>a u. a \<in> frees demo_store \<and> data_block (fsb demo_store) a \<and> cview u = demo_map(a := replicate BSIZE 0) \<and>
        frees u = frees demo_store)"
proof -
  have a: "alloc_ok demo_store" using demo_store_file by (simp add: file_inv_def inode_ok_def)
  have "frees demo_store \<noteq> {}" using demo_store_frees by auto
  from conjunct1 [OF balloc_bfree [OF a demo_store_facts(4) _ this]] show ?thesis
    by (simp add: txn_budget_def demo_store_facts(6,8)) (simp only: demo_store_facts(2))
qed

end
