(* ===== verification/Exec.thy ===== *)
theory Exec
  imports Proc
begin

text \<open>exec.c, and \<open>loaduvm\<close> of vm.c which reads from the file system. The arguments are the strings that
  \<open>sys_exec\<close> has found, each without its NUL.\<close>

definition ELF_MAGIC :: u32 where "ELF_MAGIC = 0x464C457F"
definition ELF_PROG_LOAD :: u32 where "ELF_PROG_LOAD = 1"
definition MAXARG :: nat where "MAXARG = 32"

record elfhdr =
  e_magic :: u32
  e_entry :: u32
  e_phoff :: u32
  e_phnum :: u16

record proghdr =
  ph_type :: u32
  ph_off :: u32
  ph_vaddr :: u32
  ph_filesz :: u32
  ph_memsz :: u32

definition get_elfhdr :: "byte list \<Rightarrow> elfhdr" where
  "get_elfhdr xs = \<lparr>e_magic = at32 xs 0, e_entry = at32 xs 24, e_phoff = at32 xs 28, e_phnum = at16 xs 44\<rparr>"

definition get_proghdr :: "byte list \<Rightarrow> proghdr" where
  "get_proghdr xs = \<lparr>ph_type = at32 xs 0, ph_off = at32 xs 4, ph_vaddr = at32 xs 8, ph_filesz = at32 xs 16,
     ph_memsz = at32 xs 20\<rparr>"

fun loaduvm_loop ::
  "nat \<Rightarrow> u32 \<Rightarrow> u32 \<Rightarrow> nat \<Rightarrow> u32 \<Rightarrow> u32 \<Rightarrow> u32 \<Rightarrow> 'z consys_scheme \<Rightarrow> (int, 'z consys_scheme) outcome" where
  "loaduvm_loop 0 pgd addr ip off n i s = Spin"
| "loaduvm_loop (Suc k) pgd addr ip off n i s =
     (if \<not> i < n then Ret 0 s
      else
        rbind (walkpgdir pgd (addr + i) False s) (\<lambda>pte s.
        if pte = 0 then Panic ''loaduvm: address should exist''
        else
          let pa = PTE_ADDR (ld32 (mem s) pte);
              m = (if n - i < PGSIZE then n - i else PGSIZE) in
          rbind (readi console_dv ip (off + i) m s) (\<lambda>r s.
          let s = set_mem (store (mem s) (P2V pa) (snd r)) s in
          if word_of_int (fst r) \<noteq> m then Ret (-1) s
          else loaduvm_loop k pgd addr ip off n (i + PGSIZE) s)))"

definition loaduvm :: "u32 \<Rightarrow> u32 \<Rightarrow> nat \<Rightarrow> u32 \<Rightarrow> u32 \<Rightarrow> 'z consys_scheme \<Rightarrow> (int, 'z consys_scheme) outcome" where
  "loaduvm pgd addr ip off n s =
     (if addr mod PGSIZE \<noteq> 0 then Panic ''loaduvm: addr must be page aligned''
      else loaduvm_loop (2 ^ 20 + 1) pgd addr ip off n 0 s)"

text \<open>The loop over the program headers; \<open>None\<close> is \<open>goto bad\<close>, otherwise the new size.\<close>

fun exec_load :: "nat \<Rightarrow> u32 \<Rightarrow> nat \<Rightarrow> u32 \<Rightarrow> u32 \<Rightarrow> 'z consys_scheme \<Rightarrow> (u32 option, 'z consys_scheme) outcome" where
  "exec_load 0 pgd ip off n s = Ret (Some n) s"
| "exec_load (Suc k) pgd ip off n s =
     rbind (readi console_dv ip off 32 s) (\<lambda>r s.
     if fst r \<noteq> 32 then Ret None s
     else
       let ph = get_proghdr (snd r) in
       if ph_type ph \<noteq> ELF_PROG_LOAD then exec_load k pgd ip (off + 32) n s
       else if ph_memsz ph < ph_filesz ph then Ret None s
       else if ph_vaddr ph + ph_memsz ph < ph_vaddr ph then Ret None s
       else
         rbind (allocuvm pgd n (ph_vaddr ph + ph_memsz ph) s) (\<lambda>n s.
         if n = 0 then Ret None s
         else if ph_vaddr ph mod PGSIZE \<noteq> 0 then Ret None s
         else
           rbind (loaduvm pgd (ph_vaddr ph) ip (ph_off ph) (ph_filesz ph) s) (\<lambda>r s.
           if r < 0 then Ret None s else exec_load k pgd ip (off + 32) n s)))"

text \<open>Pushing the argument strings: \<open>Some (sp, ustack)\<close> with the addresses of the strings, or \<open>None\<close> for
  \<open>goto bad\<close>.\<close>

fun push_args ::
  "byte list list \<Rightarrow> nat \<Rightarrow> u32 \<Rightarrow> u32 \<Rightarrow> 'z kmemsys_scheme \<Rightarrow> ((u32 \<times> u32 list) option, 'z kmemsys_scheme) outcome" where
  "push_args [] argc pgd sp s = Ret (Some (sp, [])) s"
| "push_args (a # args) argc pgd sp s =
     (if MAXARG \<le> argc then Ret None s
      else
        let sp = (sp - (of_nat (length a) + 1)) AND NOT 3 in
        rbind (copyout pgd sp (a @ [0]) s) (\<lambda>r s.
        if r < 0 then Ret None s
        else
          rbind (push_args args (Suc argc) pgd sp s) (\<lambda>r s.
          Ret (map_option (\<lambda>(sp', us). (sp', sp # us)) r) s)))"

definition last_elem :: "byte list \<Rightarrow> byte list" where
  "last_elem path = rev (takeWhile (\<lambda>c. c \<noteq> slash) (rev path))"

definition exec_bad :: "u32 \<Rightarrow> nat option \<Rightarrow> 'z procsys_scheme \<Rightarrow> (int, 'z procsys_scheme) outcome" where
  "exec_bad pgd ipo s =
     rbind (if pgd \<noteq> 0 then freevm pgd s else Ret () s) (\<lambda>_ s.
     case ipo of
       None \<Rightarrow> Ret (-1) s
     | Some ip \<Rightarrow> rbind (iunlockput ip s) (\<lambda>_ s. rbind (end_op s) (\<lambda>_ s. Ret (-1) s)))"

text \<open>The second half of \<open>exec\<close>, after the program has been loaded and its inode released.\<close>

definition exec_image ::
  "nat \<Rightarrow> byte list \<Rightarrow> byte list list \<Rightarrow> u32 \<Rightarrow> u32 \<Rightarrow> u32 \<Rightarrow> 'z procsys_scheme \<Rightarrow> (int, 'z procsys_scheme) outcome" where
  "exec_image cur path argv entry pgd n s =
     (let n = PGROUNDUP n in
      rbind (allocuvm pgd n (n + 2 * PGSIZE) s) (\<lambda>n s.
      if n = 0 then exec_bad pgd None s
      else
        rbind (clearpteu pgd (n - 2 * PGSIZE) s) (\<lambda>_ s.
        rbind (push_args argv 0 pgd n s) (\<lambda>r s.
        case r of None \<Rightarrow> exec_bad pgd None s | Some (sp, us) \<Rightarrow>
        let argc = of_nat (length us) :: u32;
            ustack = [0xffffffff, argc, sp - (argc + 1) * 4] @ us @ [0];
            sp = sp - (3 + argc + 1) * 4 in
        rbind (copyout pgd sp (concat (map le32 ustack)) s) (\<lambda>r s.
        if r < 0 then exec_bad pgd None s
        else
          let old = pgdir (procs s cur);
              s = set_proc cur (\<lambda>q. q\<lparr>name := map (\<lambda>c. char_of (unat c)) (take 15 (last_elem path)), pgdir := pgd, sz := n,
                    tf := (tf q)\<lparr>tf_eip := entry, tf_esp := sp\<rparr>\<rparr>) s in
          rbind (switchuvm (Some cur) s) (\<lambda>_ s.
          rbind (freevm old s) (\<lambda>_ s. Ret 0 s)))))))"

definition exec :: "byte list \<Rightarrow> byte list list \<Rightarrow> 'z procsys_scheme \<Rightarrow> (int, 'z procsys_scheme) outcome" where
  "exec path argv s =
     curproc_of (\<lambda>cur s.
       rbind (begin_op s) (\<lambda>_ s.
       rbind (namei console_dv path s) (\<lambda>ipo s.
       case ipo of None \<Rightarrow> rbind (end_op s) (\<lambda>_ s. Ret (-1) s) | Some ip \<Rightarrow>
       rbind (ilock (Some ip) s) (\<lambda>_ s.
       rbind (readi console_dv ip 0 52 s) (\<lambda>r s.
       if fst r \<noteq> 52 then exec_bad 0 (Some ip) s
       else
         let elf = get_elfhdr (snd r) in
         if e_magic elf \<noteq> ELF_MAGIC then exec_bad 0 (Some ip) s
         else
           rbind (setupkvm s) (\<lambda>pgd s.
           if pgd = 0 then exec_bad 0 (Some ip) s
           else
             rbind (exec_load (unat (e_phnum elf)) pgd ip (e_phoff elf) 0 s) (\<lambda>r s.
             case r of None \<Rightarrow> exec_bad pgd (Some ip) s | Some n \<Rightarrow>
             rbind (iunlockput ip s) (\<lambda>_ s.
             rbind (end_op s) (\<lambda>_ s.
             exec_image cur path argv (e_entry elf) pgd n s))))))))) s"

end
