(* ===== verification/Syscall.thy ===== *)
theory Syscall
  imports Exec
begin

text \<open>
  The system call interface: argument fetching and dispatch (syscall.c), the system calls of sysproc.c and
  sysfile.c, and \<open>trap\<close>. The kernel reads and writes user memory through the page table of the process:
  \<open>uload\<close> and \<open>ustore\<close> are these accesses, and one that the table does not allow is a page fault in kernel
  mode, which \<open>trap\<close> answers with \<open>panic("trap")\<close>. A pointer argument that only carries data into or out of
  the kernel is replaced by the bytes behind it.
\<close>

section \<open>Access to user memory\<close>

definition upte :: "mem \<Rightarrow> u32 \<Rightarrow> u32 \<Rightarrow> u32" where
  "upte m pgd va =
     (let e = ld32 m (pgd + 4 * PDX va) in
      if e AND PTE_P = 0 then 0 else ld32 m (P2V (PTE_ADDR e) + 4 * PTX va))"

definition uaddr :: "mem \<Rightarrow> u32 \<Rightarrow> u32 \<Rightarrow> u32" where
  "uaddr m pgd va = P2V (PTE_ADDR (upte m pgd va)) + (va AND 0xFFF)"

definition uload8 :: "u32 \<Rightarrow> u32 \<Rightarrow> 'z kmemsys_scheme \<Rightarrow> (byte, 'z kmemsys_scheme) outcome" where
  "uload8 pgd va s =
     (if upte (mem s) pgd va AND PTE_P = 0 then Panic ''trap'' else Ret (mem s (uaddr (mem s) pgd va)) s)"

fun uload :: "nat \<Rightarrow> u32 \<Rightarrow> u32 \<Rightarrow> 'z kmemsys_scheme \<Rightarrow> (byte list, 'z kmemsys_scheme) outcome" where
  "uload 0 pgd va s = Ret [] s"
| "uload (Suc n) pgd va s =
     rbind (uload8 pgd va s) (\<lambda>c s. rbind (uload n pgd (va + 1) s) (\<lambda>cs s. Ret (c # cs) s))"

fun ustore :: "byte list \<Rightarrow> u32 \<Rightarrow> u32 \<Rightarrow> 'z kmemsys_scheme \<Rightarrow> (unit, 'z kmemsys_scheme) outcome" where
  "ustore [] pgd va s = Ret () s"
| "ustore (c # cs) pgd va s =
     (if upte (mem s) pgd va AND PTE_P = 0 \<or> upte (mem s) pgd va AND PTE_W = 0 then Panic ''trap''
      else ustore cs pgd (va + 1) (set_mem ((mem s)(uaddr (mem s) pgd va := c)) s))"

section \<open>Arguments (syscall.c)\<close>

definition fetchint :: "u32 \<Rightarrow> 'z kmemsys_scheme \<Rightarrow> (u32 option, 'z kmemsys_scheme) outcome" where
  "fetchint addr s =
     curproc_of (\<lambda>p s.
       if sz (procs s p) \<le> addr \<or> sz (procs s p) < addr + 4 then Ret None s
       else rbind (uload 4 (pgdir (procs s p)) addr s) (\<lambda>bs s. Ret (Some (get32 bs)) s)) s"

text \<open>The string up to its NUL, which must come before the end \<open>ep\<close> of the process memory.\<close>

function fetchstr_loop :: "u32 \<Rightarrow> u32 \<Rightarrow> u32 \<Rightarrow> 'z kmemsys_scheme \<Rightarrow> (byte list option, 'z kmemsys_scheme) outcome" where
  "fetchstr_loop pgd a ep s =
     (if \<not> a < ep then Ret None s
      else
        rbind (uload8 pgd a s) (\<lambda>c s.
        if c = 0 then Ret (Some []) s
        else rbind (fetchstr_loop pgd (a + 1) ep s) (\<lambda>r s. Ret (map_option (\<lambda>cs. c # cs) r) s)))"
  by pat_completeness auto
termination
proof (relation "measure (\<lambda>(pgd, a, ep, s). unat ep - unat a)", goal_cases)
  case (2 pgd a ep s c t)
  then have a: "unat a < unat ep" by (simp add: word_less_nat_alt)
  then have "unat a + 1 < 2 ^ 32" using unat32_less [of ep] by linarith
  then have "unat (a + 1) = unat a + 1" using unat_plus_nowrap [of a 1] by simp
  then show ?case using a by simp
qed simp

definition fetchstr :: "u32 \<Rightarrow> 'z kmemsys_scheme \<Rightarrow> (byte list option, 'z kmemsys_scheme) outcome" where
  "fetchstr addr s =
     curproc_of (\<lambda>p s.
       if sz (procs s p) \<le> addr then Ret None s
       else fetchstr_loop (pgdir (procs s p)) addr (sz (procs s p)) s) s"

definition argint :: "nat \<Rightarrow> 'z kmemsys_scheme \<Rightarrow> (u32 option, 'z kmemsys_scheme) outcome" where
  "argint n s = curproc_of (\<lambda>p s. fetchint (tf_esp (tf (procs s p)) + 4 + 4 * of_nat n) s) s"

definition argptr :: "nat \<Rightarrow> int \<Rightarrow> 'z kmemsys_scheme \<Rightarrow> (u32 option, 'z kmemsys_scheme) outcome" where
  "argptr n size_arg s =
     curproc_of (\<lambda>p s.
       rbind (argint n s) (\<lambda>r s.
       case r of None \<Rightarrow> Ret None s | Some i \<Rightarrow>
       if size_arg < 0 \<or> sz (procs s p) \<le> i \<or> sz (procs s p) < i + word_of_int size_arg then Ret None s
       else Ret (Some i) s)) s"

definition argstr :: "nat \<Rightarrow> 'z kmemsys_scheme \<Rightarrow> (byte list option, 'z kmemsys_scheme) outcome" where
  "argstr n s =
     rbind (argint n s) (\<lambda>r s. case r of None \<Rightarrow> Ret None s | Some addr \<Rightarrow> fetchstr addr s)"

text \<open>\<open>if(arg... < 0) return -1;\<close>\<close>

definition need ::
  "('a option, 's) outcome \<Rightarrow> ('a \<Rightarrow> 's \<Rightarrow> (int, 's) outcome) \<Rightarrow> (int, 's) outcome" where
  "need r f = rbind r (\<lambda>x s. case x of None \<Rightarrow> Ret (-1) s | Some x \<Rightarrow> f x s)"

section \<open>sysproc.c\<close>

definition sys_fork :: "'z procsys_scheme \<Rightarrow> (int, 'z procsys_scheme) outcome" where
  "sys_fork s = fork s"

definition sys_exit :: "'z procsys_scheme \<Rightarrow> (int, 'z procsys_scheme) outcome" where
  "sys_exit s = rbind (exit s) (\<lambda>_ s. Ret 0 s)"

definition sys_wait :: "'z procsys_scheme \<Rightarrow> (int, 'z procsys_scheme) outcome" where
  "sys_wait s = wait s"

definition sys_kill :: "'z procsys_scheme \<Rightarrow> (int, 'z procsys_scheme) outcome" where
  "sys_kill s = need (argint 0 s) (\<lambda>n s. kill (sint n) s)"

definition sys_getpid :: "'z procsys_scheme \<Rightarrow> (int, 'z procsys_scheme) outcome" where
  "sys_getpid s = curproc_of (\<lambda>p s. Ret (pid (procs s p)) s) s"

definition sys_sbrk :: "'z procsys_scheme \<Rightarrow> (int, 'z procsys_scheme) outcome" where
  "sys_sbrk s =
     need (argint 0 s) (\<lambda>n s.
     curproc_of (\<lambda>p s.
       let addr = sz (procs s p) in
       Ret (sint addr) (set_proc p (\<lambda>q. q\<lparr>sz := sz q + n\<rparr>) s)) s)"

text \<open>The loop of \<open>sys_sleep\<close>, entered with \<open>tickslock\<close> held. The comparison is between unsigned numbers.\<close>

definition sys_sleep_loop :: "u32 \<Rightarrow> u32 \<Rightarrow> 'z procsys_scheme \<Rightarrow> (int, 'z procsys_scheme) outcome" where
  "sys_sleep_loop ticks0 n s =
     (if ticks s - ticks0 < n then
        rbind (proc_killed s) (\<lambda>k s.
        if k then rbind (release LTicks s) (\<lambda>_ s. Ret (-1) s)
        else away (sleep (Some ChanTicks) (Some LTicks) s))
      else rbind (release LTicks s) (\<lambda>_ s. Ret 0 s))"

definition sys_sleep :: "'z procsys_scheme \<Rightarrow> (int, 'z procsys_scheme) outcome" where
  "sys_sleep s =
     need (argint 0 s) (\<lambda>n s.
     rbind (acquire LTicks s) (\<lambda>_ s. sys_sleep_loop (ticks s) n s))"

definition sys_uptime :: "'z procsys_scheme \<Rightarrow> (int, 'z procsys_scheme) outcome" where
  "sys_uptime s =
     rbind (acquire LTicks s) (\<lambda>_ s.
     let x = ticks s in
     rbind (release LTicks s) (\<lambda>_ s. Ret (sint x) s))"

text \<open>The date that \<open>cmostime\<close> reads from the clock chip is an argument: six words.\<close>

definition sys_date :: "u32 list \<Rightarrow> 'z procsys_scheme \<Rightarrow> (int, 'z procsys_scheme) outcome" where
  "sys_date rtc s =
     need (argptr 0 24 s) (\<lambda>r s.
     curproc_of (\<lambda>p s. rbind (ustore (concat (map le32 rtc)) (pgdir (procs s p)) r s) (\<lambda>_ s. Ret 0 s)) s)"

section \<open>sysfile.c\<close>

definition argfd :: "nat \<Rightarrow> 'z procsys_scheme \<Rightarrow> ((int \<times> nat) option, 'z procsys_scheme) outcome" where
  "argfd n s =
     rbind (argint n s) (\<lambda>r s.
     case r of None \<Rightarrow> Ret None s | Some w \<Rightarrow>
     let fd = sint w in
     if fd < 0 \<or> int NOFILE \<le> fd then Ret None s
     else curproc_of (\<lambda>p s. Ret (map_option (\<lambda>f. (fd, f)) (ofile (procs s p) (nat fd))) s) s)"

definition fdalloc :: "nat \<Rightarrow> 'z kern_scheme \<Rightarrow> (int, 'z kern_scheme) outcome" where
  "fdalloc f s =
     curproc_of (\<lambda>p s.
       case find (\<lambda>fd. ofile (procs s p) fd = None) [0..<NOFILE] of
         None \<Rightarrow> Ret (-1) s
       | Some fd \<Rightarrow> Ret (int fd) (set_proc p (\<lambda>q. q\<lparr>ofile := (ofile q)(fd := Some f)\<rparr>) s)) s"

definition sys_dup :: "'z procsys_scheme \<Rightarrow> (int, 'z procsys_scheme) outcome" where
  "sys_dup s =
     need (argfd 0 s) (\<lambda>(_, f) s.
     rbind (fdalloc f s) (\<lambda>fd s.
     if fd < 0 then Ret (-1) s else rbind (filedup f s) (\<lambda>_ s. Ret fd s)))"

definition sys_read :: "'z procsys_scheme \<Rightarrow> (int, 'z procsys_scheme) outcome" where
  "sys_read s =
     need (argfd 0 s) (\<lambda>(_, f) s.
     need (argint 2 s) (\<lambda>n s.
     need (argptr 1 (sint n) s) (\<lambda>a s.
     rbind (fileread console_dv f (sint n) s) (\<lambda>r s.
     curproc_of (\<lambda>p s. rbind (ustore (snd r) (pgdir (procs s p)) a s) (\<lambda>_ s. Ret (fst r) s)) s))))"

definition sys_write :: "'z procsys_scheme \<Rightarrow> (int, 'z procsys_scheme) outcome" where
  "sys_write s =
     need (argfd 0 s) (\<lambda>(_, f) s.
     need (argint 2 s) (\<lambda>n s.
     need (argptr 1 (sint n) s) (\<lambda>a s.
     curproc_of (\<lambda>p s.
       rbind (uload (nat (sint n)) (pgdir (procs s p)) a s) (\<lambda>src s.
       filewrite console_dv f src s)) s)))"

definition sys_close :: "'z procsys_scheme \<Rightarrow> (int, 'z procsys_scheme) outcome" where
  "sys_close s =
     need (argfd 0 s) (\<lambda>(fd, f) s.
     curproc_of (\<lambda>p s.
       rbind (fileclose f (set_proc p (\<lambda>q. q\<lparr>ofile := (ofile q)(nat fd := None)\<rparr>) s)) (\<lambda>_ s. Ret 0 s)) s)"

text \<open>\<open>struct stat\<close> in memory: \<open>dev\<close> and \<open>size\<close> are aligned to words, so two bytes of padding follow each
  \<open>short\<close>; the padding keeps what was there, here it is left out of the store.\<close>

definition store_stat :: "stat \<Rightarrow> u32 \<Rightarrow> u32 \<Rightarrow> 'z kmemsys_scheme \<Rightarrow> (unit, 'z kmemsys_scheme) outcome" where
  "store_stat st pgd a s =
     rbind (ustore (le16 (st_type st)) pgd a s) (\<lambda>_ s.
     rbind (ustore (le32 (st_dev st) @ le32 (st_ino st) @ le16 (st_nlink st)) pgd (a + 4) s) (\<lambda>_ s.
     ustore (le32 (st_size st)) pgd (a + 16) s))"

definition sys_fstat :: "'z procsys_scheme \<Rightarrow> (int, 'z procsys_scheme) outcome" where
  "sys_fstat s =
     need (argfd 0 s) (\<lambda>(_, f) s.
     need (argptr 1 20 s) (\<lambda>a s.
     rbind (filestat f s) (\<lambda>(r, st) s.
     case st of None \<Rightarrow> Ret r s | Some st \<Rightarrow>
     curproc_of (\<lambda>p s. rbind (store_stat st (pgdir (procs s p)) a s) (\<lambda>_ s. Ret r s)) s)))"

definition add_nlink :: "u16 \<Rightarrow> nat \<Rightarrow> 'z fssys_scheme \<Rightarrow> (unit, 'z fssys_scheme) outcome" where
  "add_nlink d ip s = iupdate ip (set_inode ip (\<lambda>x. x\<lparr>i_nlink := i_nlink x + d\<rparr>) s)"

definition sys_link_bad :: "nat \<Rightarrow> 'z procsys_scheme \<Rightarrow> (int, 'z procsys_scheme) outcome" where
  "sys_link_bad ip s =
     rbind (ilock (Some ip) s) (\<lambda>_ s.
     rbind (add_nlink (-1) ip s) (\<lambda>_ s.
     rbind (iunlockput ip s) (\<lambda>_ s.
     rbind (end_op s) (\<lambda>_ s. Ret (-1) s))))"

definition sys_link :: "'z procsys_scheme \<Rightarrow> (int, 'z procsys_scheme) outcome" where
  "sys_link s =
     need (argstr 0 s) (\<lambda>old s.
     need (argstr 1 s) (\<lambda>new s.
     rbind (begin_op s) (\<lambda>_ s.
     rbind (namei console_dv old s) (\<lambda>ipo s.
     case ipo of None \<Rightarrow> rbind (end_op s) (\<lambda>_ s. Ret (-1) s) | Some ip \<Rightarrow>
     rbind (ilock (Some ip) s) (\<lambda>_ s.
     if i_type (icache s ip) = T_DIR then
       rbind (iunlockput ip s) (\<lambda>_ s. rbind (end_op s) (\<lambda>_ s. Ret (-1) s))
     else
       rbind (add_nlink 1 ip s) (\<lambda>_ s.
       rbind (iunlock (Some ip) s) (\<lambda>_ s.
       rbind (nameiparent console_dv new s) (\<lambda>(dpo, nm) s.
       case dpo of None \<Rightarrow> sys_link_bad ip s | Some dp \<Rightarrow>
       rbind (ilock (Some dp) s) (\<lambda>_ s.
       rbind
         (if i_dev (icache s dp) \<noteq> i_dev (icache s ip) then Ret (-1) s
          else dirlink console_dv dp nm (i_inum (icache s ip)) s) (\<lambda>r s.
       if r < 0 then rbind (iunlockput dp s) (\<lambda>_ s. sys_link_bad ip s)
       else
         rbind (iunlockput dp s) (\<lambda>_ s.
         rbind (iput ip s) (\<lambda>_ s.
         rbind (end_op s) (\<lambda>_ s. Ret 0 s)))))))))))))"

function isdirempty_loop ::
  "'z fssys_scheme devsw \<Rightarrow> nat \<Rightarrow> nat \<Rightarrow> 'z fssys_scheme \<Rightarrow> (bool, 'z fssys_scheme) outcome" where
  "isdirempty_loop dv dp off s =
     (if \<not> off < unat (i_size (icache s dp)) then Ret True s
      else
        rbind (readi dv dp (of_nat off) 16 s) (\<lambda>r s.
        if fst r \<noteq> 16 then Panic ''isdirempty: readi''
        else if de_inum (get_dirent (snd r)) \<noteq> 0 then Ret False s
        else isdirempty_loop dv dp (off + 16) s))"
  by pat_completeness auto
termination
proof (relation "measure (\<lambda>(dv, dp, off, s). 2 ^ 32 - off)", goal_cases)
  case (2 dv dp off s)
  then show ?case using unat32_less [of "i_size (icache s dp)"] by simp
qed simp

definition isdirempty :: "'z fssys_scheme devsw \<Rightarrow> nat \<Rightarrow> 'z fssys_scheme \<Rightarrow> (bool, 'z fssys_scheme) outcome" where
  "isdirempty dv dp s = isdirempty_loop dv dp (2 * 16) s"

definition sys_unlink_bad :: "nat \<Rightarrow> 'z procsys_scheme \<Rightarrow> (int, 'z procsys_scheme) outcome" where
  "sys_unlink_bad dp s =
     rbind (iunlockput dp s) (\<lambda>_ s. rbind (end_op s) (\<lambda>_ s. Ret (-1) s))"

definition sys_unlink :: "'z procsys_scheme \<Rightarrow> (int, 'z procsys_scheme) outcome" where
  "sys_unlink s =
     need (argstr 0 s) (\<lambda>path s.
     rbind (begin_op s) (\<lambda>_ s.
     rbind (nameiparent console_dv path s) (\<lambda>(dpo, nm) s.
     case dpo of None \<Rightarrow> rbind (end_op s) (\<lambda>_ s. Ret (-1) s) | Some dp \<Rightarrow>
     rbind (ilock (Some dp) s) (\<lambda>_ s.
     if namecmp nm [46] = 0 \<or> namecmp nm [46, 46] = 0 then sys_unlink_bad dp s
     else
       rbind (dirlookup console_dv dp nm s) (\<lambda>r s.
       case r of None \<Rightarrow> sys_unlink_bad dp s | Some (ip, off) \<Rightarrow>
       rbind (ilock (Some ip) s) (\<lambda>_ s.
       if sint (i_nlink (icache s ip)) < 1 then Panic ''unlink: nlink < 1''
       else
         rbind (if i_type (icache s ip) = T_DIR then isdirempty console_dv ip s else Ret True s) (\<lambda>empty s.
         if \<not> empty then rbind (iunlockput ip s) (\<lambda>_ s. sys_unlink_bad dp s)
         else
           rbind (writei console_dv dp (replicate 16 0) (of_nat off) s) (\<lambda>n s.
           if n \<noteq> 16 then Panic ''unlink: writei''
           else
             rbind (if i_type (icache s ip) = T_DIR then add_nlink (-1) dp s else Ret () s) (\<lambda>_ s.
             rbind (iunlockput dp s) (\<lambda>_ s.
             rbind (add_nlink (-1) ip s) (\<lambda>_ s.
             rbind (iunlockput ip s) (\<lambda>_ s.
             rbind (end_op s) (\<lambda>_ s. Ret 0 s)))))))))))))"

definition create_dots :: "nat \<Rightarrow> nat \<Rightarrow> 'z procsys_scheme \<Rightarrow> (unit, 'z procsys_scheme) outcome" where
  "create_dots dp ip s =
     rbind (add_nlink 1 dp s) (\<lambda>_ s.
     rbind (dirlink console_dv ip [46] (i_inum (icache s ip)) s) (\<lambda>r s.
     if r < 0 then Panic ''create dots''
     else
       rbind (dirlink console_dv ip [46, 46] (i_inum (icache s dp)) s) (\<lambda>r s.
       if r < 0 then Panic ''create dots'' else Ret () s)))"

definition create :: "byte list \<Rightarrow> u16 \<Rightarrow> u16 \<Rightarrow> u16 \<Rightarrow> 'z procsys_scheme \<Rightarrow> (nat option, 'z procsys_scheme) outcome" where
  "create path ty maj mnr s =
     rbind (nameiparent console_dv path s) (\<lambda>(dpo, nm) s.
     case dpo of None \<Rightarrow> Ret None s | Some dp \<Rightarrow>
     rbind (ilock (Some dp) s) (\<lambda>_ s.
     rbind (dirlookup console_dv dp nm s) (\<lambda>r s.
     case r of
       Some (ip, _) \<Rightarrow>
         rbind (iunlockput dp s) (\<lambda>_ s.
         rbind (ilock (Some ip) s) (\<lambda>_ s.
         if ty = T_FILE \<and> i_type (icache s ip) = T_FILE then Ret (Some ip) s
         else rbind (iunlockput ip s) (\<lambda>_ s. Ret None s)))
     | None \<Rightarrow>
         rbind (ialloc (i_dev (icache s dp)) ty s) (\<lambda>ip s.
         rbind (ilock (Some ip) s) (\<lambda>_ s.
         rbind (iupdate ip (set_inode ip (\<lambda>x. x\<lparr>i_major := maj, i_minor := mnr, i_nlink := 1\<rparr>) s)) (\<lambda>_ s.
         rbind (if ty = T_DIR then create_dots dp ip s else Ret () s) (\<lambda>_ s.
         rbind (dirlink console_dv dp nm (i_inum (icache s ip)) s) (\<lambda>r s.
         if r < 0 then Panic ''create: dirlink''
         else rbind (iunlockput dp s) (\<lambda>_ s. Ret (Some ip) s)))))))))"

definition sys_open_inode :: "byte list \<Rightarrow> u32 \<Rightarrow> 'z procsys_scheme \<Rightarrow> (nat option, 'z procsys_scheme) outcome" where
  "sys_open_inode path omode s =
     (if omode AND O_CREATE \<noteq> 0 then create path T_FILE 0 0 s
      else
        rbind (namei console_dv path s) (\<lambda>ipo s.
        case ipo of None \<Rightarrow> Ret None s | Some ip \<Rightarrow>
        rbind (ilock (Some ip) s) (\<lambda>_ s.
        if i_type (icache s ip) = T_DIR \<and> omode \<noteq> 0 then rbind (iunlockput ip s) (\<lambda>_ s. Ret None s)
        else Ret (Some ip) s)))"

definition sys_open :: "'z procsys_scheme \<Rightarrow> (int, 'z procsys_scheme) outcome" where
  "sys_open s =
     need (argstr 0 s) (\<lambda>path s.
     need (argint 1 s) (\<lambda>omode s.
     rbind (begin_op s) (\<lambda>_ s.
     rbind (sys_open_inode path omode s) (\<lambda>ipo s.
     case ipo of None \<Rightarrow> rbind (end_op s) (\<lambda>_ s. Ret (-1) s) | Some ip \<Rightarrow>
     rbind (filealloc s) (\<lambda>fo s.
     rbind (case fo of None \<Rightarrow> Ret (-1) s | Some f \<Rightarrow> fdalloc f s) (\<lambda>fd s.
     case fo of
       None \<Rightarrow> rbind (iunlockput ip s) (\<lambda>_ s. rbind (end_op s) (\<lambda>_ s. Ret (-1) s))
     | Some f \<Rightarrow>
         if fd < 0 then
           rbind (fileclose f s) (\<lambda>_ s.
           rbind (iunlockput ip s) (\<lambda>_ s. rbind (end_op s) (\<lambda>_ s. Ret (-1) s)))
         else
           rbind (iunlock (Some ip) s) (\<lambda>_ s.
           rbind (end_op s) (\<lambda>_ s.
           Ret fd (set_file f (\<lambda>x. x\<lparr>f_type := FD_INODE, f_ip := ip, f_off := 0,
             f_readable := (omode AND O_WRONLY = 0),
             f_writable := (omode AND O_WRONLY \<noteq> 0 \<or> omode AND O_RDWR \<noteq> 0)\<rparr>) s)))))))))"

definition made :: "(nat option, 'z procsys_scheme) outcome \<Rightarrow> (int, 'z procsys_scheme) outcome" where
  "made r =
     rbind r (\<lambda>ipo s.
     case ipo of None \<Rightarrow> rbind (end_op s) (\<lambda>_ s. Ret (-1) s) | Some ip \<Rightarrow>
     rbind (iunlockput ip s) (\<lambda>_ s. rbind (end_op s) (\<lambda>_ s. Ret 0 s)))"

definition sys_mkdir :: "'z procsys_scheme \<Rightarrow> (int, 'z procsys_scheme) outcome" where
  "sys_mkdir s =
     rbind (begin_op s) (\<lambda>_ s.
     made (rbind (argstr 0 s) (\<lambda>r s. case r of None \<Rightarrow> Ret None s | Some path \<Rightarrow> create path T_DIR 0 0 s)))"

definition sys_mknod :: "'z procsys_scheme \<Rightarrow> (int, 'z procsys_scheme) outcome" where
  "sys_mknod s =
     rbind (begin_op s) (\<lambda>_ s.
     made
       (rbind (argstr 0 s) (\<lambda>r s. case r of None \<Rightarrow> Ret None s | Some path \<Rightarrow>
        rbind (argint 1 s) (\<lambda>r s. case r of None \<Rightarrow> Ret None s | Some maj \<Rightarrow>
        rbind (argint 2 s) (\<lambda>r s. case r of None \<Rightarrow> Ret None s | Some mnr \<Rightarrow>
        create path T_DEV (ucast maj) (ucast mnr) s)))))"

definition sys_chdir :: "'z procsys_scheme \<Rightarrow> (int, 'z procsys_scheme) outcome" where
  "sys_chdir s =
     curproc_of (\<lambda>p s.
       rbind (begin_op s) (\<lambda>_ s.
       rbind (rbind (argstr 0 s) (\<lambda>r s. case r of None \<Rightarrow> Ret None s | Some path \<Rightarrow> namei console_dv path s)) (\<lambda>ipo s.
       case ipo of None \<Rightarrow> rbind (end_op s) (\<lambda>_ s. Ret (-1) s) | Some ip \<Rightarrow>
       rbind (ilock (Some ip) s) (\<lambda>_ s.
       if i_type (icache s ip) \<noteq> T_DIR then
         rbind (iunlockput ip s) (\<lambda>_ s. rbind (end_op s) (\<lambda>_ s. Ret (-1) s))
       else
         rbind (iunlock (Some ip) s) (\<lambda>_ s.
         case cwd (procs s p) of None \<Rightarrow> Panic ''trap'' | Some d \<Rightarrow>
         rbind (iput d s) (\<lambda>_ s.
         rbind (end_op s) (\<lambda>_ s.
         Ret 0 (set_proc p (\<lambda>q. q\<lparr>cwd := Some ip\<rparr>) s)))))))) s"

text \<open>The loop of \<open>sys_exec\<close>: at most \<open>MAXARG\<close> entries, the last of them null.\<close>

fun sys_exec_args :: "nat \<Rightarrow> u32 \<Rightarrow> 'z procsys_scheme \<Rightarrow> (byte list list option, 'z procsys_scheme) outcome" where
  "sys_exec_args 0 a s = Ret None s"
| "sys_exec_args (Suc k) a s =
     rbind (fetchint a s) (\<lambda>r s.
     case r of None \<Rightarrow> Ret None s | Some uarg \<Rightarrow>
     if uarg = 0 then Ret (Some []) s
     else
       rbind (fetchstr uarg s) (\<lambda>r s.
       case r of None \<Rightarrow> Ret None s | Some x \<Rightarrow>
       rbind (sys_exec_args k (a + 4) s) (\<lambda>r s. Ret (map_option (\<lambda>xs. x # xs) r) s)))"

definition sys_exec :: "'z procsys_scheme \<Rightarrow> (int, 'z procsys_scheme) outcome" where
  "sys_exec s =
     need (argstr 0 s) (\<lambda>path s.
     need (argint 1 s) (\<lambda>uargv s.
     need (sys_exec_args MAXARG uargv s) (\<lambda>argv s.
     exec path argv s)))"

definition sys_pipe :: "'z procsys_scheme \<Rightarrow> (int, 'z procsys_scheme) outcome" where
  "sys_pipe s =
     need (argptr 0 8 s) (\<lambda>a s.
     need (pipealloc s) (\<lambda>(rf, wf) s.
     curproc_of (\<lambda>p s.
       rbind (fdalloc rf s) (\<lambda>fd0 s.
       rbind (if fd0 < 0 then Ret (-1) s else fdalloc wf s) (\<lambda>fd1 s.
       if fd0 < 0 \<or> fd1 < 0 then
         let s = (if 0 \<le> fd0 then set_proc p (\<lambda>q. q\<lparr>ofile := (ofile q)(nat fd0 := None)\<rparr>) s else s) in
         rbind (fileclose rf s) (\<lambda>_ s.
         rbind (fileclose wf s) (\<lambda>_ s. Ret (-1) s))
       else
         rbind (ustore (le32 (word_of_int fd0) @ le32 (word_of_int fd1)) (pgdir (procs s p)) a s) (\<lambda>_ s. Ret 0 s)))) s))"

section \<open>Dispatch\<close>

definition syscalls :: "u32 list \<Rightarrow> int \<Rightarrow> ('z procsys_scheme \<Rightarrow> (int, 'z procsys_scheme) outcome) option" where
  "syscalls rtc = map_of (zip [1..22]
     [sys_fork, sys_exit, sys_wait, sys_pipe, sys_read, sys_kill, sys_exec, sys_fstat, sys_chdir, sys_dup,
      sys_getpid, sys_sbrk, sys_sleep, sys_uptime, sys_open, sys_write, sys_mknod, sys_unlink, sys_link,
      sys_mkdir, sys_close, sys_date rtc])"

definition set_eax :: "nat \<Rightarrow> u32 \<Rightarrow> 'z kern_scheme \<Rightarrow> 'z kern_scheme" where
  "set_eax p w s = set_proc p (\<lambda>q. q\<lparr>tf := (tf q)\<lparr>tf_eax := w\<rparr>\<rparr>) s"

definition syscall :: "u32 list \<Rightarrow> 'z procsys_scheme \<Rightarrow> (unit, 'z procsys_scheme) outcome" where
  "syscall rtc s =
     curproc_of (\<lambda>p s.
       case syscalls rtc (sint (tf_eax (tf (procs s p)))) of
         Some f \<Rightarrow> rbind (f s) (\<lambda>r s. Ret () (set_eax p (word_of_int r) s))
       | None \<Rightarrow>
           rbind (kmessage (printint (word_of_int (pid (procs s p))) 10 True @ 32 # str_bytes (name (procs s p)) @
             str_bytes '': unknown sys call '' @ printint (tf_eax (tf (procs s p))) 10 True @ [10]) s) (\<lambda>_ s.
           Ret () (set_eax p (-1) s))) s"

section \<open>Traps (trap.c)\<close>

definition T_SYSCALL :: u32 where "T_SYSCALL = 64"
definition T_IRQ0 :: u32 where "T_IRQ0 = 32"

definition tvinit :: "'z kern_scheme \<Rightarrow> 'z kern_scheme" where
  "tvinit s = initlock LTicks ''time'' s"

definition timer_tick :: "'z procsys_scheme \<Rightarrow> (unit, 'z procsys_scheme) outcome" where
  "timer_tick s =
     rbind (cpuid s) (\<lambda>c s.
     if c = 0 then
       rbind (acquire LTicks s) (\<lambda>_ s.
       rbind (wakeup (Some ChanTicks) (s\<lparr>ticks := ticks s + 1\<rparr>)) (\<lambda>_ s.
       release LTicks s))
     else Ret () s)"

text \<open>\<open>if(myproc() && myproc()->killed && (tf->cs&3) == DPL_USER) exit();\<close>\<close>

definition exit_if_killed :: "trapframe \<Rightarrow> 'z procsys_scheme \<Rightarrow> (unit, 'z procsys_scheme) outcome" where
  "exit_if_killed f s =
     rbind (myproc s) (\<lambda>po s.
     case po of None \<Rightarrow> Ret () s | Some p \<Rightarrow>
     if killed (procs s p) \<and> tf_cs f AND 3 = DPL_USER then exit s else Ret () s)"

text \<open>The handling of one interrupt or exception. The characters that the keyboard or the serial port
  delivers are the argument \<open>keys\<close>, the register that holds the address of a page fault is \<open>cr2\<close>; the interrupt of the
  memory disk does nothing.\<close>

definition trap_dispatch :: "int list \<Rightarrow> u32 \<Rightarrow> trapframe \<Rightarrow> 'z procsys_scheme \<Rightarrow> (unit, 'z procsys_scheme) outcome" where
  "trap_dispatch keys cr2 f s =
     (let n = tf_trapno f; dec = (\<lambda>w. printint w 10 True); hex = (\<lambda>w. printint w 16 False) in
      if n = T_IRQ0 then timer_tick s
      else if n = T_IRQ0 + 14 \<or> n = T_IRQ0 + 15 then Ret () s
      else if n = T_IRQ0 + 1 \<or> n = T_IRQ0 + 4 then consoleintr keys s
      else if n = T_IRQ0 + 7 \<or> n = T_IRQ0 + 31 then
        rbind (cpuid s) (\<lambda>c s.
        kmessage (str_bytes ''cpu'' @ dec (of_nat c) @ str_bytes '': spurious interrupt at '' @ hex (ucast (tf_cs f)) @
          str_bytes '':'' @ hex (tf_eip f) @ [10]) s)
      else
        rbind (myproc s) (\<lambda>po s.
        rbind (cpuid s) (\<lambda>c s.
        case (if tf_cs f AND 3 = 0 then None else po) of
          None \<Rightarrow>
            rbind (kmessage (str_bytes ''unexpected trap '' @ dec n @ str_bytes '' from cpu '' @ dec (of_nat c) @
              str_bytes '' eip '' @ hex (tf_eip f) @ str_bytes '' (cr2=0x'' @ hex cr2 @ str_bytes '')'' @ [10]) s)
              (\<lambda>_ s. Panic ''trap'')
        | Some p \<Rightarrow>
            rbind (kmessage (str_bytes ''pid '' @ dec (word_of_int (pid (procs s p))) @ [32] @ str_bytes (name (procs s p)) @
              str_bytes '': trap '' @ dec n @ str_bytes '' err '' @ dec (tf_err f) @ str_bytes '' on cpu '' @
              dec (of_nat c) @ str_bytes '' eip 0x'' @ hex (tf_eip f) @ str_bytes '' addr 0x'' @ hex cr2 @
              str_bytes ''--kill proc'' @ [10]) s) (\<lambda>_ s.
            Ret () (set_proc p (\<lambda>q. q\<lparr>killed := True\<rparr>) s)))))"

definition trap :: "u32 list \<Rightarrow> int list \<Rightarrow> u32 \<Rightarrow> trapframe \<Rightarrow> 'z procsys_scheme \<Rightarrow> (unit, 'z procsys_scheme) outcome" where
  "trap rtc keys cr2 f s =
     (if tf_trapno f = T_SYSCALL then
        curproc_of (\<lambda>p s.
          if killed (procs s p) then exit s
          else
            rbind (syscall rtc (set_proc p (\<lambda>q. q\<lparr>tf := f\<rparr>) s)) (\<lambda>_ s.
            rbind (proc_killed s) (\<lambda>k s. if k then exit s else Ret () s))) s
      else
        rbind (trap_dispatch keys cr2 f s) (\<lambda>_ s.
        rbind (exit_if_killed f s) (\<lambda>_ s.
        rbind (myproc s) (\<lambda>po s.
        case po of None \<Rightarrow> Ret () s | Some p \<Rightarrow>
        if state (procs s p) = RUNNING \<and> tf_trapno f = T_IRQ0 then yield s else exit_if_killed f s))))"

end
