(* ===== verification/Syscall_Props.thy ===== *)
theory Syscall_Props
  imports Syscall Demo_Files Vm_Props
begin

text \<open>Properties of the system call interface.\<close>

lemma curproc_of_ok [run_simps]: "cpu_ok s \<Longrightarrow> cproc (cpus s (me s)) = Some p \<Longrightarrow> curproc_of f s = f p s"
  by (simp add: curproc_of_def run_simps)

lemma uload_same: "uload n pgd va s = Ret bs t \<Longrightarrow> t = s \<and> length bs = n"
  by (induction n arbitrary: va bs) (auto simp: uload8_def rbind_eq_Ret split: if_splits)

lemma argint_same: "cpu_ok s \<Longrightarrow> cproc (cpus s (me s)) = Some p \<Longrightarrow> argint n s = Ret r t \<Longrightarrow> t = s"
  by (auto simp: argint_def fetchint_def run_simps rbind_eq_Ret dest: uload_same split: if_splits)

text \<open>\<open>argptr\<close> accepts only blocks inside the memory of the process. For a process of at most two gigabytes, a
  pointer argument that is accepted for a block of \<open>n\<close> bytes starts a block that ends at or before \<open>sz\<close>: the sum in
  the check cannot wrap around, no byte of the block is a kernel address, and fetching the argument changes nothing.\<close>

theorem argptr_bounds:
  assumes "cpu_ok s" "cproc (cpus s (me s)) = Some p" "sz (procs s p) \<le> KERNBASE" "n < 2 ^ 31"
    "argptr k n s = Ret (Some a) t"
  shows "t = s \<and> 0 \<le> n \<and> unat a + nat n \<le> unat (sz (procs s p)) \<and> (\<forall>x \<in> region a (nat n). x < KERNBASE)"
proof -
  obtain r u where ru: "argint k s = Ret r u" "(case r of None \<Rightarrow> Ret None u | Some i \<Rightarrow>
      if n < 0 \<or> sz (procs u p) \<le> i \<or> sz (procs u p) < i + word_of_int n then Ret None u else Ret (Some i) u) = Ret (Some a) t"
    using assms(5) by (auto simp: argptr_def run_simps assms(1,2) rbind_eq_Ret)
  have "u = s" by (rule argint_same [OF assms(1,2) ru(1)])
  then have i: "t = s" "0 \<le> n" "a < sz (procs s p)" "a + word_of_int n \<le> sz (procs s p)"
    using ru(2) by (simp_all add: not_le not_less split: option.splits if_splits)
  have k: "unat (sz (procs s p)) \<le> 2 ^ 31" using assms(3) by (simp add: word_le_nat_alt KERNBASE_def)
  have lt: "unat a < unat (sz (procs s p))" using i(3) by (simp add: word_less_nat_alt)
  have "nat n < 2 ^ 31" using assms(4) i(2) by (simp add: nat_less_iff)
  then have "unat a + nat n < 2 ^ 32" using lt k by simp
  from unat_plus_nowrap [OF this] have "unat (a + word_of_int n) = unat a + nat n" using i(2) by (simp add: of_nat_nat)
  then have b: "unat a + nat n \<le> unat (sz (procs s p))" using i(4) by (simp add: word_le_nat_alt)
  have "x < KERNBASE" if "x \<in> region a (nat n)" for x
  proof -
    have j: "unat (x - a) < nat n" "x = a + of_nat (unat (x - a))" using that by (simp_all add: region_def)
    then have "unat a + unat (x - a) < 2 ^ 31" using b k by linarith
    moreover from this have "unat x = unat a + unat (x - a)" using unat_plus_nowrap [of a "unat (x - a)"] j(2) by simp
    ultimately show ?thesis by (simp add: word_less_nat_alt KERNBASE_def)
  qed
  then show ?thesis using i b by blast
qed

lemma set_proc_kmem [lock_simps]: "mem (set_proc p f s) = mem s" "freelist (set_proc p f s) = freelist s"
  by (simp_all add: set_proc_def)

text \<open>C16: \<open>sys_sbrk\<close> neither allocates nor checks: it returns the old size and adds its argument, whatever it is, to
  the size of the process. So after it the size may lie above \<open>KERNBASE\<close>, and then \<open>argptr\<close> accepts every pointer into
  the kernel half of the address space up to the new size.\<close>

theorem sbrk_kernel_pointer:
  assumes "cpu_ok s" "cproc (cpus s (me s)) = Some p" "argint 0 s = Ret (Some n) s"
  shows "\<exists>t. sys_sbrk s = Ret (sint (sz (procs s p))) t \<and> sz (procs t p) = sz (procs s p) + n \<and> mem t = mem s \<and>
    freelist t = freelist s \<and>
    (\<forall>k a m. argint k t = Ret (Some a) t \<and> 0 \<le> m \<and> 0 < m \<and> KERNBASE \<le> a \<and> unat a + nat m \<le> unat (sz (procs s p) + n) \<longrightarrow>
      argptr k m t = Ret (Some a) t)"
proof -
  let ?t = "set_proc p (\<lambda>q. q\<lparr>sz := sz q + n\<rparr>) s"
  have t: "sys_sbrk s = Ret (sint (sz (procs s p))) ?t"
    using assms by (simp add: sys_sbrk_def need_def run_simps)
  have "argptr k m ?t = Ret (Some a) ?t"
    if "argint k ?t = Ret (Some a) ?t" "0 < m" "unat a + nat m \<le> unat (sz (procs s p) + n)" for k a m
  proof -
    have "unat (a + of_nat (nat m)) = unat a + nat m"
      using that(3) unat32_less [of "sz (procs s p) + n"] by (intro unat_plus_nowrap) linarith
    then have "a + word_of_int m \<le> sz (procs s p) + n" "a < sz (procs s p) + n"
      using that(2,3) by (simp_all add: word_le_nat_alt word_less_nat_alt of_nat_nat)
    then show ?thesis
      using assms that by (simp add: argptr_def run_simps lock_simps frame_simps not_le not_less)
  qed
  with t show ?thesis by (intro exI [of _ ?t]) (simp add: frame_simps lock_simps)
qed

section \<open>Examples\<close>

text \<open>A process with one page of memory at address 0, whose stack pointer is 0: its first argument is at address 4.\<close>

definition demo_mem :: "u32 \<Rightarrow> mem" where
  "demo_mem n = st32 (st32 (st32 (\<lambda>_. 0) 0x80402000 0x403007) 0x80403000 0x404007) 0x80404004 n"

definition demo_sys :: "u32 \<Rightarrow> u32 \<Rightarrow> procsys" where
  "demo_sys n num = (demo_files (demo_pipe 0 0) \<lparr>panicked = False, con_locking = True, in_buf = (\<lambda>_. 0), in_r = 0,
     in_w = 0, in_e = 0, uart_out = [], crt = (\<lambda>_. 0), crt_pos = 0, ticks = 0, forkret_first = False, trapret_addr = 0,
     forkret_addr = 0\<rparr>)\<lparr>mem := demo_mem n,
     procs := (\<lambda>i. (demo_proc i)\<lparr>pgdir := 0x80402000, tf := demo_tf\<lparr>tf_eax := num\<rparr>\<rparr>)\<rparr>"

lemma demo_sys_facts:
  "cpu_ok (demo_sys n num)" "cproc (cpus (demo_sys n num) (me (demo_sys n num))) = Some 0"
  "mem (demo_sys n num) = demo_mem n" "sz (procs (demo_sys n num) 0) = 4096" "pgdir (procs (demo_sys n num) 0) = 0x80402000"
  "tf (procs (demo_sys n num) 0) = demo_tf\<lparr>tf_eax := num\<rparr>"
  by (simp_all add: demo_sys_def demo_files_defs demo_proc_def cpu_ok_def me_def me_opt_def)

lemma demo_tables:
  "ld32 (demo_mem n) 0x80402000 = 0x403007" "ld32 (demo_mem n) 0x80403000 = 0x404007" "ld32 (demo_mem n) 0x80404004 = n"
  by (simp_all add: demo_mem_def ld32_def st32_def)
     (use get32_le32 [of n "[]"] in \<open>simp add: le32_def\<close>)

lemma demo_upte:
  "upte (demo_mem n) 0x80402000 4 = 0x404007" "upte (demo_mem n) 0x80402000 5 = 0x404007"
  "upte (demo_mem n) 0x80402000 6 = 0x404007" "upte (demo_mem n) 0x80402000 7 = 0x404007"
  by (simp_all add: upte_def demo_tables PDX_def PTX_def PTE_P_def PTE_ADDR_def P2V_def KERNBASE_def Let_def)

lemma demo_argint:
  assumes "cpu_ok s" "cproc (cpus s (me s)) = Some 0" "mem s = demo_mem n" "pgdir (procs s 0) = 0x80402000"
    "tf_esp (tf (procs s 0)) = 0" "8 < sz (procs s 0)"
  shows "argint 0 s = Ret (Some n) s"
proof -
  have "uload 4 0x80402000 4 s = Ret [demo_mem n 0x80404004, demo_mem n 0x80404005, demo_mem n 0x80404006, demo_mem n 0x80404007] s"
    using assms(3) by (simp add: numeral_eq_Suc uload8_def demo_upte uaddr_def PTE_ADDR_def PTE_P_def P2V_def KERNBASE_def)
  moreover have "get32 [demo_mem n 0x80404004, demo_mem n 0x80404005, demo_mem n 0x80404006, demo_mem n 0x80404007] = n"
    using demo_tables(3) [of n] by (simp add: ld32_def)
  moreover have "\<not> sz (procs s 0) \<le> 4" "\<not> sz (procs s 0) < 8" using assms(6) by (simp_all add: word_le_nat_alt word_less_nat_alt)
  ultimately show ?thesis using assms by (simp add: argint_def fetchint_def run_simps)
qed

lemma demo_sys_argint: "argint 0 (demo_sys n num) = Ret (Some n) (demo_sys n num)"
  by (rule demo_argint) (simp_all add: demo_sys_facts demo_tf_def)

theorem argptr_bounds_witness: "argptr 0 16 (demo_sys 0x800 0) = Ret (Some 0x800) (demo_sys 0x800 0) \<and> unat (0x800 :: u32) + nat 16 \<le> 4096"
proof -
  let ?s = "demo_sys 0x800 0"
  have r: "argptr 0 16 ?s = Ret (Some 0x800) ?s"
    by (simp add: argptr_def run_simps demo_sys_facts demo_sys_argint)
  have "sz (procs ?s 0) \<le> KERNBASE" by (simp add: demo_sys_facts KERNBASE_def)
  from argptr_bounds [OF demo_sys_facts(1,2) this _ r] show ?thesis using r by (simp add: demo_sys_facts)
qed

text \<open>A process of one page grows by two gigabytes and passes the address of kernel memory.\<close>

theorem sbrk_kernel_pointer_witness:
  "\<exists>t. sys_sbrk (demo_sys 0x80000000 12) = Ret 4096 t \<and> argptr 0 16 t = Ret (Some 0x80000000) t"
proof -
  let ?s = "demo_sys 0x80000000 12" and ?n = "0x80000000 :: u32"
  obtain t where t: "sys_sbrk ?s = Ret (sint (sz (procs ?s 0))) t"
    "\<And>k a m. argint k t = Ret (Some a) t \<and> 0 \<le> m \<and> 0 < m \<and> KERNBASE \<le> a \<and> unat a + nat m \<le> unat (sz (procs ?s 0) + ?n) \<Longrightarrow>
      argptr k m t = Ret (Some a) t"
    using sbrk_kernel_pointer [OF demo_sys_facts(1,2) demo_sys_argint] by blast
  have "t = set_proc 0 (\<lambda>q. q\<lparr>sz := sz q + ?n\<rparr>) ?s"
    using t(1) by (simp add: sys_sbrk_def need_def run_simps demo_sys_argint demo_sys_facts)
  then have "argint 0 t = Ret (Some ?n) t"
    by (intro demo_argint) (simp_all add: lock_simps frame_simps demo_sys_facts demo_tf_def)
  then have "argptr 0 16 t = Ret (Some ?n) t"
    by (intro t(2)) (simp add: demo_sys_facts KERNBASE_def)
  then show ?thesis using t(1) by (simp add: demo_sys_facts)
qed

end
