(* ===== verification/String_Props.thy ===== *)
theory String_Props
  imports Jos_String
begin

text \<open>The properties of the memory and string functions of the kernel, the user library and JOS.\<close>

text \<open>The kernel's \<open>memmove\<close> copies the bytes as they were before the call, however source and
  destination overlap, and changes nothing else. (The source must not reach the end of the
  address space, where \<open>s + n\<close> wraps around and the overlap test gives the wrong answer.)\<close>

theorem memmove_copies:
  assumes "unat src + unat n < 2 ^ 32" "unat dst + unat n \<le> 2 ^ 32"
  shows "fst (memmove m dst src n) = dst \<and>
    bytes (snd (memmove m dst src n)) dst (unat n) = bytes m src (unat n) \<and>
    (\<forall>x. x \<notin> region dst (unat n) \<longrightarrow> snd (memmove m dst src n) x = m x)"
proof -
  have "bytes (\<lambda>x. if x \<in> region dst (unat n) then m (src + (x - dst)) else m x) dst (unat n) = bytes m src (unat n)"
  proof (rule nth_equalityI)
    fix i assume "i < length (bytes (\<lambda>x. if x \<in> region dst (unat n) then m (src + (x - dst)) else m x) dst (unat n))"
    then have "i < unat n" by simp
    moreover from this have "i < 2 ^ 32" using unat32_less [of n] by linarith
    ultimately show "bytes (\<lambda>x. if x \<in> region dst (unat n) then m (src + (x - dst)) else m x) dst (unat n) ! i =
      bytes m src (unat n) ! i" by (simp add: in_region)
  qed simp
  then show ?thesis by (simp add: memmove_eq [OF assms])
qed

definition demo_mem :: mem where
  "demo_mem x = ucast x"

theorem memmove_copies_witness:
  "bytes (snd (memmove demo_mem 102 100 4)) 102 4 = [100, 101, 102, 103]"
  using memmove_copies [of 100 4 102 demo_mem]
  by (simp add: bytes_def demo_mem_def upt_rec)

text \<open>The JOS \<open>memmove\<close>, which moves words with \<open>rep movsl\<close> when everything is aligned and bytes
  otherwise, upwards or downwards by the overlap, computes the same as the byte loops.\<close>

theorem jos_memmove_equiv:
  assumes "unat src + unat n < 2 ^ 32" "unat dst + unat n \<le> 2 ^ 32"
  shows "jos_memmove m dst src n = memmove m dst src n"
  by (rule jos_memmove_eq [OF assms])

theorem jos_memmove_equiv_witness: "jos_memmove demo_mem 104 100 8 = memmove demo_mem 104 100 8"
  by (rule jos_memmove_equiv) simp_all

text \<open>\<open>memset\<close> fills exactly the \<open>n\<close> bytes from \<open>dst\<close> on with the low byte of \<open>c\<close>, on the
  word path and on the byte path alike; the JOS version does the same.\<close>

theorem memset_fills:
  "memset m dst c n = (dst, \<lambda>x. if x \<in> region dst (unat n) then ucast c else m x) \<and>
   jos_memset m dst c n = memset m dst c n"
  by (simp add: memset_eq jos_memset_eq)

text \<open>\<open>strncmp\<close> orders its arguments as the strings they start, cut off after \<open>n\<close> bytes, by the
  first difference; it is 0 exactly when these are equal. No terminating NUL is needed within the
  \<open>n\<close> bytes, which is how directory entries of full length are compared.\<close>

theorem strncmp_order:
  "strncmp m p q n = lexcmp (cstr m p (unat n)) (cstr m q (unat n)) \<and>
   (strncmp m p q n = 0 \<longleftrightarrow> cstr m p (unat n) = cstr m q (unat n))"
  by (simp add: strncmp_def strncmp_loop_eq lexcmp_zero nonzero_cstr)

lemma str_at_store:
  assumes "0 \<notin> set xs" "length (xs @ 0 # ys) < 2 ^ 32"
  shows "str_at (store m s (xs @ 0 # ys)) s xs"
proof -
  have "store m s (xs @ 0 # ys) (s + of_nat i) = (xs @ 0 # ys) ! i" if "i \<le> length xs" for i
  proof -
    have "i < 2 ^ 32" using that assms(2) by simp
    then show ?thesis using that by (simp add: store_def region_iff unat_of_nat32)
  qed
  then show ?thesis using assms(1) by (simp add: str_at_def nth_append)
qed

text \<open>\<open>safestrcpy\<close> leaves at the destination a NUL-terminated string: the source, cut off after
  \<open>n - 1\<close> characters. No byte outside the \<open>n\<close> bytes of the destination changes.\<close>

theorem safestrcpy_string:
  assumes n: "0 < n" "n < 2 ^ 31" and d: "region s (nat n) \<inter> region t (nat n) = {}" and str: "str_at m t xs"
  shows "str_at (snd (safestrcpy m s t n)) s (take (nat n - 1) xs) \<and>
    (\<forall>x. x \<notin> region s (nat n) \<longrightarrow> snd (safestrcpy m s t n) x = m x)"
proof -
  let ?xs = "take (nat n - 1) xs"
  let ?z = "if length ?xs < nat n - 1 then [0] else [] :: byte list"
  have e: "snd (safestrcpy m s t n) = store m s (?xs @ 0 # ?z)"
    using safestrcpy_eq [OF n d, of m] cstr_str_at [OF str, of "nat n - 1"] by simp
  have nz: "0 \<notin> set ?xs" using str by (auto simp: str_at_def dest: in_set_takeD)
  have len: "length (?xs @ 0 # ?z) \<le> nat n" using n(1) by auto
  moreover have "nat n < 2 ^ 32" using n(2) by simp
  ultimately have "length (?xs @ 0 # ?z) < 2 ^ 32" by (rule le_less_trans)
  then have "str_at (store m s (?xs @ 0 # ?z)) s ?xs" by (rule str_at_store [OF nz])
  moreover have "store m s (?xs @ 0 # ?z) x = m x" if "x \<notin> region s (nat n)" for x
    using that len by (auto simp: store_def region_iff)
  ultimately show ?thesis unfolding e by blast
qed

theorem safestrcpy_string_witness:
  "str_at (snd (safestrcpy ((\<lambda>_. 0)(100 := 104, 101 := 105)) 200 100 16)) 200 [104, 105]"
proof -
  have "region 200 16 \<inter> region (100 :: u32) 16 = {}"
  proof -
    have "unat (x - 200) < 16 \<Longrightarrow> unat (x - 100) \<ge> 16" for x :: u32
    proof -
      assume "unat (x - 200) < 16"
      then obtain i where "x = 200 + of_nat i" "i < 16" using region_cases [of x 200 16] by (auto simp: region_iff)
      then have "x - 100 = of_nat (100 + i)" by simp
      then show ?thesis using \<open>i < 16\<close> by (simp add: unat_of_nat32 del: of_nat_add)
    qed
    then show ?thesis by (auto simp: region_def not_less dest!: leD)
  qed
  moreover have "str_at ((\<lambda>_. 0)(100 := 104, 101 := 105)) 100 [104, 105]"
    by (simp add: str_at_Cons str_at_Nil)
  ultimately show ?thesis
    using safestrcpy_string [of 16 200 100 "(\<lambda>_. 0)(100 := 104, 101 := 105)" "[104, 105]"] by simp
qed

lemma copy_up_last:
  "copy_up m d s (Suc n) = (copy_up m d s n)(d + of_nat n := copy_up m d s n (s + of_nat n))"
proof (induction n arbitrary: m d s)
  case (Suc n)
  have "copy_up m d s (Suc (Suc n)) = copy_up (m(d := m s)) (d + 1) (s + 1) (Suc n)" by (rule copy_up.simps(2))
  also have "\<dots> = (copy_up (m(d := m s)) (d + 1) (s + 1) n)(d + 1 + of_nat n :=
      copy_up (m(d := m s)) (d + 1) (s + 1) n (s + 1 + of_nat n))" by (rule Suc.IH)
  finally show ?case by (simp add: add.assoc)
qed simp

text \<open>The upward copy to a destination \<open>k\<close> bytes above the source repeats the first \<open>k\<close> bytes.\<close>

lemma copy_up_overlap:
  assumes "unat (d - s) = k" "0 < k" "n + k \<le> 2 ^ 32"
  shows "copy_up m d s n = (\<lambda>x. if x \<in> region d n then m (s + of_nat (unat (x - d) mod k)) else m x)"
  using assms(3)
proof (induction n)
  case (Suc n)
  have n: "n < 2 ^ 32" "n + k < 2 ^ 32" using Suc.prems by simp_all
  have d: "d = s + of_nat k" using assms(1) by (simp flip: assms(1))
  have e: "s + of_nat n - d = (if k \<le> n then of_nat (n - k) else of_nat (2 ^ 32 + n - k) :: u32)"
    using n(2) d by (auto simp: of_nat_diff)
  have "copy_up m d s n (s + of_nat n) = m (s + of_nat (n mod k))"
  proof (cases "k \<le> n")
    case True
    then have "unat (s + of_nat n - d) = n - k" unfolding e using n by (simp add: unat_of_nat32 del: of_nat_diff)
    then show ?thesis using Suc assms(2) True by (simp add: region_iff le_mod_geq)
  next
    case False
    then have "unat (s + of_nat n - d) = 2 ^ 32 + n - k" unfolding e using n by (simp add: unat_of_nat32 del: of_nat_add of_nat_diff)
    moreover have "\<not> 2 ^ 32 + n - k < n" using n by simp
    ultimately show ?thesis using Suc False unfolding region_iff by (metis Suc_leD add_Suc mod_less not_le)
  qed
  moreover have "region d (Suc n) = insert (d + of_nat n) (region d n)" by (rule region_Suc [OF n(1)])
  ultimately show ?case using Suc n unfolding copy_up_last by (auto simp: fun_eq_iff unat_of_nat32)
qed simp

text \<open>C22: The user library's \<open>memmove\<close> copies upwards only. Nothing outside the destination is
  written. When the destination does not start inside the source, the source is copied. When it starts
  inside, \<open>k\<close> bytes above the source, the first \<open>k\<close> bytes are repeated over the destination, so the
  copy is right exactly if the source itself repeats these bytes.\<close>

theorem u_memmove_overlap:
  assumes "n < 2 ^ 31" "k = unat (d - s)"
  shows "\<exists>t. u_memmove m d s n = (d, t) \<and> (\<forall>x. x \<notin> region d (nat n) \<longrightarrow> t x = m x) \<and>
    (k = 0 \<or> n \<le> int k \<longrightarrow> (\<forall>i < nat n. t (d + of_nat i) = m (s + of_nat i))) \<and>
    (0 < k \<and> int k < n \<longrightarrow> (\<forall>i < nat n. t (d + of_nat i) = m (s + of_nat (i mod k))) \<and>
      ((\<forall>i < nat n. t (d + of_nat i) = m (s + of_nat i)) \<longleftrightarrow>
       (\<forall>i < nat n. m (s + of_nat i) = m (s + of_nat (i mod k)))))"
proof -
  let ?t = "copy_up m d s (nat n)"
  have u: "unat (of_nat i :: u32) = i" "d + of_nat i \<in> region d (nat n)" if "i < nat n" for i
    using that assms(1) by (simp_all add: unat_of_nat32 region_iff)
  have "?t = (\<lambda>x. if x \<in> region d (nat n) then m (s + (x - d)) else m x)" if "k = 0 \<or> n \<le> int k"
  proof (rule copy_up_eq)
    show "d = s \<or> d \<notin> region s (nat n)"
    proof (cases "k = 0")
      case False
      then have "\<not> unat (d - s) < nat n" using that unfolding assms(2) [symmetric] by simp
      then show ?thesis by (simp add: region_iff)
    qed (use assms(2) in \<open>simp add: unat_eq_zero\<close>)
  qed (use assms(1) in simp)
  moreover have "?t = (\<lambda>x. if x \<in> region d (nat n) then m (s + of_nat (unat (x - d) mod k)) else m x)"
    if "0 < k \<and> int k < n"
  proof (rule copy_up_overlap)
    have "k < nat n" "nat n < 2 ^ 31" using that assms(1) by (auto simp: nat_less_iff)
    then show "nat n + k \<le> 2 ^ 32" by simp
  qed (use that assms(2) in simp_all)
  ultimately show ?thesis using u by (cases "k = 0 \<or> n \<le> int k") (auto simp: u_memmove_def not_le)
qed

theorem u_memmove_overlap_witness:
  "\<exists>t. u_memmove demo_mem 101 100 3 = (101, t) \<and> t 101 = 100 \<and> t 102 = 100 \<and> t 103 = 100 \<and> t 104 = 104"
proof -
  obtain t where t: "u_memmove demo_mem 101 100 3 = (101, t)" "104 \<notin> region 101 3 \<longrightarrow> t 104 = demo_mem 104"
    "\<forall>i < 3. t (101 + of_nat i) = demo_mem (100 + of_nat (i mod 1))"
    using u_memmove_overlap [of 3 1 101 100 demo_mem] by auto
  moreover have "(104 :: u32) \<notin> region 101 3" by (simp add: region_iff)
  moreover have "t 101 = 100" "t 102 = 100" "t 103 = 100"
    using t(3) [rule_format, of 0] t(3) [rule_format, of 1] t(3) [rule_format, of 2] by (simp_all add: demo_mem_def)
  ultimately show ?thesis by (simp add: demo_mem_def)
qed

end
