(* ===== verification/Printf_Props.thy ===== *)
theory Printf_Props
  imports Printfmt
begin

text \<open>The properties of the string and formatting library of the JOS laboratory.\<close>

section \<open>Digits\<close>

fun digs :: "nat \<Rightarrow> nat \<Rightarrow> nat list" where
  "digs b n = (if n < b \<or> b < 2 then [n] else digs b (n div b) @ [n mod b])"

declare digs.simps [simp del]

lemma horner_snoc: "horner b (ds @ [d]) = horner b ds * b + d"
  by (simp add: horner_def)

lemma horner_digs: "horner b (digs b n) = n"
proof (induction b n rule: digs.induct)
  case (1 b n)
  then show ?case
    by (subst digs.simps) (auto simp: horner_snoc, simp_all add: horner_def)
qed

lemma digs_less: "2 \<le> b \<Longrightarrow> d \<in> set (digs b n) \<Longrightarrow> d < b"
proof (induction b n rule: digs.induct)
  case (1 b n)
  then show ?case by (subst (asm) (2) digs.simps) (auto split: if_splits)
qed

lemma digs_not_Nil [simp]: "digs b n \<noteq> []"
  by (subst digs.simps) simp

lemma hex_digit: "d < 16 \<Longrightarrow> hex_digits ! d = digit_char d"
  by (simp add: hex_digits_def)

text \<open>\<open>printnum\<close> in closed form.\<close>

lemma unat_base64: "unat (ucast (base :: u32) :: u64) = unat base"
  by (simp add: unsigned_ucast_eq take_bit_nat_eq_self unsigned_less order_less_le_trans [OF unat32_less])

lemma printnum_eq:
  assumes b: "2 \<le> unat base" "unat base \<le> 16"
  defines "ds \<equiv> \<lambda>num :: u64. digs (unat base) (unat num)"
  shows "printnum putch num base w pc d =
    Some (fold putch (replicate (nat (w - int (length (ds num)))) pc @ map (\<lambda>d. ucast (digit_char d)) (ds num)) d)"
proof (induction "unat num" arbitrary: num w rule: less_induct)
  case less
  have m: "unat (num mod ucast base) = unat num mod unat base" "unat (num div ucast base) = unat num div unat base"
    by (simp_all add: unat_mod_distrib unat_div_distrib unat_base64)
  have m16: "num mod ucast base < 16"
    using b mod_less_divisor [of "unat base" "unat num"] by (simp add: word_less_nat_alt m del: mod_less_divisor)
  have ml: "unat num mod unat base < 16" using b mod_less_divisor [of "unat base" "unat num"] by linarith
  show ?case
  proof (cases "ucast base \<le> num")
    case True
    then have ge: "unat base \<le> unat num" by (simp add: word_le_nat_alt unat_base64)
    then have "unat (num div ucast base) < unat num" using b by (simp add: m)
    note IH = less [OF this, of "w - 1"]
    have d: "ds num = ds (num div ucast base) @ [unat num mod unat base]"
      using ge b unfolding ds_def m by (subst digs.simps) simp
    show ?thesis
      by (subst printnum.simps) (simp add: True IH m16 d m hex_digit ml diff_diff_add)
  next
    case False
    then have lt: "unat num < unat base" by (simp add: word_le_nat_alt unat_base64)
    then have "ds num = [unat num]" unfolding ds_def by (subst digs.simps) simp
    then show ?thesis
      using lt m16 ml by (subst printnum.simps) (simp add: False pad_def m hex_digit)
  qed
qed

section \<open>Output as a list\<close>

abbreviation snoc :: "u32 \<Rightarrow> u32 list \<Rightarrow> u32 list" where
  "snoc c xs \<equiv> xs @ [c]"

lemma fold_snoc: "fold (\<lambda>c xs. xs @ [c]) ys xs = xs @ ys"
  by (induction ys arbitrary: xs) auto

definition num_out :: "fspec \<Rightarrow> u32 \<Rightarrow> u64 \<Rightarrow> u32 list" where
  "num_out sp base num =
     (let ds = digs (unat base) (unat num) in
      replicate (nat (width sp - int (length ds))) (padc sp) @ map (\<lambda>d. ucast (digit_char d)) ds)"

definition str_out :: "fspec \<Rightarrow> byte list \<Rightarrow> u32 list" where
  "str_out sp xs =
     (let w = nat (width sp - int (length xs));
          body = map (\<lambda>c. if altflag sp \<and> (c < 32 \<or> 126 < c) then 63 else scast c) xs in
      if padc sp = 45 then body @ replicate w 32 else replicate (if 0 < width sp then w else 0) (padc sp) @ body)"

lemma print_num_out:
  assumes "2 \<le> unat base" "unat base \<le> 16"
  shows "print_num putch sp base na d = Some (fold putch (num_out sp base (fst na)) d, snd na)"
  unfolding print_num_def printnum_eq [OF assms] num_out_def by (simp add: Let_def)

lemma print_str_out: "print_str putch sp xs d = fold putch (str_out sp xs) d"
  by (auto simp: print_str_def str_out_def pad_def Let_def)

lemma bases: "2 \<le> unat (10 :: u32)" "unat (10 :: u32) \<le> 16" "2 \<le> unat (8 :: u32)" "unat (8 :: u32) \<le> 16"
    "2 \<le> unat (16 :: u32)" "unat (16 :: u32) \<le> 16"
  by simp_all

lemmas out_eqs = print_num_out [OF bases(1,2)] print_num_out [OF bases(3,4)] print_num_out [OF bases(5,6)]
  printnum_eq [OF bases(1,2)] print_str_out

text \<open>What is printed does not depend on where it goes.\<close>

lemma convert_out:
  "convert putch m sp c ap d =
     map_option (map_option (\<lambda>(ys, aq). (fold putch ys d, aq))) (convert (\<lambda>c xs. xs @ [c]) m sp c ap [])"
  unfolding convert_def out_eqs fold_snoc
  by (auto simp: option.map_comp comp_def Let_def split: bind_split prod.splits)

definition out :: "mem \<Rightarrow> byte list \<Rightarrow> u32 list \<Rightarrow> u32 list option" where
  "out m fmt ap = vprintfmt (\<lambda>c xs. xs @ [c]) m fmt ap []"

lemma vprintfmt_step:
  assumes IH: "\<And>rest aq e. length rest \<le> length fmt \<Longrightarrow>
      vprintfmt putch m rest aq e = map_option (\<lambda>xs. fold putch xs e) (out m rest aq)"
    and IHs: "\<And>rest aq ys. length rest \<le> length fmt \<Longrightarrow>
      vprintfmt (\<lambda>c xs. xs @ [c]) m rest aq ys = map_option (\<lambda>xs. ys @ xs) (out m rest aq)"
  shows "vprintfmt putch m (ch # fmt) ap d = map_option (\<lambda>xs. fold putch xs d) (out m (ch # fmt) ap)"
proof (cases "ch \<noteq> 37")
  case True
  then show ?thesis
    using IH [of fmt ap] IHs [of fmt ap "[ucast ch]"] by (simp add: out_def option.map_comp comp_def)
next
  case False
  show ?thesis
  proof (cases "parse_spec fmt fspec0 ap")
    case None
    then show ?thesis using False by (simp add: out_def)
  next
    case (Some r)
    obtain sp c rest ap' where r: "parse_spec fmt fspec0 ap = Some (sp, c, rest, ap')" using Some by (cases r) auto
    note l = parse_spec_length [OF r]
    let ?q = "convert (\<lambda>c xs. xs @ [c]) m sp c ap' []"
    note c = convert_out [of putch m sp c ap' d]
    consider "?q = None" | "?q = Some None" | ys aq where "?q = Some (Some (ys, aq))"
      by (cases ?q; cases "the ?q") auto
    then show ?thesis
    proof cases
      case 1
      then show ?thesis using False r c by (simp add: out_def)
    next
      case 2
      then show ?thesis
        using False r c IH [of fmt ap' "putch 37 d"] IHs [of fmt ap' "[37]"]
        by (simp add: out_def option.map_comp comp_def)
    next
      case 3
      then show ?thesis
        using False r c IH [OF l, of aq "fold putch ys d"] IHs [OF l, of aq ys]
        by (simp add: out_def option.map_comp comp_def)
    qed
  qed
qed

lemma vprintfmt_snoc:
  "vprintfmt (\<lambda>c xs. xs @ [c]) m fmt ap ys = map_option (\<lambda>xs. ys @ xs) (out m fmt ap)"
proof (induction "length fmt" arbitrary: fmt ap ys rule: less_induct)
  case less
  show ?case
  proof (cases fmt)
    case (Cons ch cs)
    have IH: "vprintfmt (\<lambda>c xs. xs @ [c]) m rest aq ys = map_option (\<lambda>xs. ys @ xs) (out m rest aq)"
      if "length rest \<le> length cs" for rest aq ys
      using less [of rest] that Cons by simp
    show ?thesis
      using vprintfmt_step [of cs "\<lambda>c xs. xs @ [c]" m ch ap ys] IH by (simp only: Cons fold_snoc)
  qed (simp add: out_def)
qed

lemma vprintfmt_out: "vprintfmt putch m fmt ap d = map_option (\<lambda>xs. fold putch xs d) (out m fmt ap)"
proof (induction "length fmt" arbitrary: fmt ap d rule: less_induct)
  case less
  show ?case
  proof (cases fmt)
    case (Cons ch cs)
    then show ?thesis
      using less by (auto simp del: vprintfmt.simps intro!: vprintfmt_step vprintfmt_snoc)
  qed (simp add: out_def)
qed

section \<open>Printing into a buffer\<close>

lemma sprint_fold:
  assumes "unat b + k < 2 ^ 32"
  shows "fold sprintputch xs (\<lparr>sb_buf = b, sb_ebuf = b + of_nat k, sb_cnt = c\<rparr>, m) =
    (\<lparr>sb_buf = b + of_nat (min k (length xs)), sb_ebuf = b + of_nat k, sb_cnt = c + int (length xs)\<rparr>,
     store m b (map ucast (take k xs)))"
  using assms
proof (induction xs arbitrary: b k c m)
  case (Cons x xs)
  show ?case
  proof (cases k)
    case 0
    then show ?thesis using Cons.IH [of b 0 "c + 1" m] Cons.prems by (simp add: sprintputch_def)
  next
    case (Suc j)
    have e: "unat (b + of_nat k) = unat b + k" using Cons.prems by (rule unat_plus_nowrap)
    have "unat (b + 1) = unat b + 1" using unat_plus_nowrap [of b 1] Cons.prems Suc by simp
    then have j: "unat (b + 1) + j < 2 ^ 32" using Cons.prems Suc by simp
    have lt: "b < b + of_nat k" using e Suc by (simp add: word_less_nat_alt)
    have eb: "b + of_nat k = b + 1 + of_nat j" using Suc by (simp add: add.assoc)
    have len: "length (map (ucast :: u32 \<Rightarrow> byte) (take j xs)) < 2 ^ 32" using Cons.prems Suc by simp
    have "sprintputch x (\<lparr>sb_buf = b, sb_ebuf = b + of_nat k, sb_cnt = c\<rparr>, m) =
      (\<lparr>sb_buf = b + 1, sb_ebuf = b + 1 + of_nat j, sb_cnt = c + 1\<rparr>, m(b := ucast x))"
      using lt by (simp add: sprintputch_def eb)
    then show ?thesis
      using Cons.IH [OF j, of "c + 1" "m(b := ucast x)"] store_Cons [OF len, of m b "ucast x"] Suc
      by (simp add: eb add.assoc del: fun_upd_apply)
  qed
qed simp

text \<open>C20: \<open>vsnprintf\<close> into a buffer of \<open>n\<close> bytes writes at most \<open>n\<close> bytes, all inside the buffer: the
  first \<open>n - 1\<close> characters of the output and a NUL. Its result is the length of the whole output,
  whether or not it fitted.\<close>

theorem vsnprintf_bounded:
  assumes "b \<noteq> 0" "1 \<le> n" "unat b + nat n < 2 ^ 32" "vprintfmt (\<lambda>c xs. xs @ [c]) m fmt ap [] = Some xs"
  shows "vsnprintf m b n fmt ap = Some (int (length xs), store m b (map ucast (take (nat n - 1) xs) @ [0]))"
proof -
  let ?k = "nat n - 1"
  have o: "out m fmt ap = Some xs" using assms(4) by (simp add: out_def)
  have k: "b + word_of_int n - 1 = b + of_nat ?k"
  proof -
    have "word_of_int n = (of_nat (nat n) :: u32)" using assms(2) by simp
    then show ?thesis using assms(2) by (simp add: of_nat_diff)
  qed
  have f: "fold sprintputch xs (\<lparr>sb_buf = b, sb_ebuf = b + of_nat ?k, sb_cnt = 0\<rparr>, m) =
    (\<lparr>sb_buf = b + of_nat (min ?k (length xs)), sb_ebuf = b + of_nat ?k, sb_cnt = 0 + int (length xs)\<rparr>,
     store m b (map ucast (take ?k xs)))"
    using assms(3) by (intro sprint_fold) simp
  have "store (store m b (map ucast (take ?k xs))) (b + of_nat (length (map (ucast :: u32 \<Rightarrow> byte) (take ?k xs)))) [0] =
    store m b (map ucast (take ?k xs) @ [0])"
    using assms(3) by (intro store_append) auto
  then show ?thesis
    using assms(1,2) unfolding vsnprintf_def vprintfmt_out o k option.map f
    by (simp add: f store_Cons min.commute)
qed

theorem vsnprintf_bounded_witness:
  "\<exists>mm. vsnprintf (\<lambda>_. 0) 4096 3 [97, 37, 100] [1234] = Some (5, mm) \<and> mm 4096 = 97 \<and> mm 4098 = 0"
proof -
  have d: "digs 10 1234 = [1, 2, 3, 4]" by (simp add: digs.simps)
  have "convert (\<lambda>c xs. xs @ [c]) (\<lambda>_. 0) fspec0 100 [1234] [97] = Some (Some ([97, 49, 50, 51, 52], []))"
    unfolding convert_def out_eqs
    by (simp add: fspec0_def getint_def va_arg_def num_out_def d fold_snoc digit_char_def)
  then have v: "vprintfmt (\<lambda>c xs. xs @ [c]) (\<lambda>_. 0) [97, 37, 100] [1234] [] = Some [97, 49, 50, 51, 52]"
    by simp
  have "store (\<lambda>_. 0) 4096 [97, 49, 0 :: byte] 4096 = 97 \<and> store (\<lambda>_. 0) 4096 [97, 49, 0 :: byte] 4098 = 0"
    by (simp add: store_Cons)
  then show ?thesis
    using vsnprintf_bounded [OF _ _ _ v, of 4096 3] by simp
qed

text \<open>C21: Printing and parsing are inverse: \<open>strtol\<close> in the base in which \<open>printnum\<close> printed an
  unsigned 32-bit number gives the number back and stops at the end of the digits.\<close>

theorem printnum_strtol:
  assumes b: "2 \<le> unat base" "unat base \<le> 16"
  shows "\<exists>xs. printnum (\<lambda>c xs. xs @ [ucast c]) (ucast (w :: u32)) base 0 32 [] = Some xs \<and>
    (\<forall>m s. str_at m s xs \<longrightarrow> strtol m s (int (unat base)) = Some (w, s + of_nat (length xs)))"
proof -
  let ?ds = "digs (unat base) (unat w)"
  have "(ucast (ucast x :: u32) :: byte) = x" for x :: byte
    by (rule bit_word_eqI) (simp add: bit_simps)
  then have "fold (\<lambda>(c :: u32) xs. xs @ [ucast c]) (map (\<lambda>d. ucast (digit_char d)) ds) ys = ys @ map digit_char ds" for ds ys
    by (induction ds arbitrary: ys) auto
  then have p: "printnum (\<lambda>c xs. xs @ [ucast c]) (ucast w) base 0 32 [] = Some (map digit_char ?ds)"
    by (simp add: printnum_eq [OF b] unat_base64)
  have dl: "d < 16" if "d \<in> set ?ds" for d using digs_less [OF b(1) that] b(2) by simp
  have "strtol m s (int (unat base)) = Some (w, s + of_nat (length ?ds))"
    if m: "str_at m s (map digit_char ?ds)" for m s
  proof -
    obtain d ds where ds: "?ds = d # ds" by (cases ?ds) auto
    have u: "unat (m s) = (if d < 10 then 48 + d else 87 + d)" "m s = digit_char d"
      using m dl [of d] by (simp_all add: ds str_at_Cons unat_digit_char)
    have first: "m s \<noteq> 32" "m s \<noteq> 9" "m s \<noteq> 43" "m s \<noteq> 45" using u(1) by (auto split: if_splits)
    have "m (s + 1) \<noteq> 120"
    proof (cases ds)
      case (Cons e es)
      then have "m (s + 1) = digit_char e" "e < 16" using m ds dl [of e] by (simp_all add: str_at_Cons)
      then have "unat (m (s + 1)) \<le> 102" by (simp add: unat_digit_char)
      then show ?thesis by auto
    qed (use m ds in \<open>simp add: str_at_Cons str_at_Nil\<close>)
    moreover have "int (unat base) \<noteq> 0" using b by linarith
    ultimately have "strtol m s (int (unat base)) = strtol_digits m s (int (unat base)) 0"
      using first by (simp add: strtol_def skip_blanks.simps [of m s])
        (simp add: option.map_ident map_option_case split: option.splits prod.splits)
    also have "\<dots> = Some (foldl (\<lambda>v d. v * word_of_int (int (unat base)) + of_nat d) 0 ?ds, s + of_nat (length ?ds))"
    proof (rule strtol_digits_eq [OF m])
      show "\<forall>d\<in>set ?ds. int d < int (unat base)" using digs_less [OF b(1)] by (simp only: of_nat_less_iff) blast
      show "int (unat base) \<le> 36" using b by linarith
    qed
    finally show ?thesis
      using foldl_horner [of "unat base" 0 ?ds] horner_digs [of "unat base" "unat w"]
      by (simp add: horner_def)
  qed
  then show ?thesis using p by auto
qed

theorem printnum_strtol_witness:
  "\<exists>xs. printnum (\<lambda>c xs. xs @ [ucast c]) (ucast (255 :: u32)) 16 0 32 [] = Some (xs :: byte list)"
  using printnum_strtol [of 16 255] by auto

text \<open>The flag \<open>-\<close>, documented as "flag to pad on the right", is not honoured by the numeric
  conversions: \<open>%-5d\<close> pads on the left, with minus signs, so that 42 prints as if negative.\<close>

theorem minus_flag_numbers:
  "vprintfmt (\<lambda>c xs. xs @ [c]) m (ascii ''%-5d'') [42] [] = Some (map ucast (ascii ''---42''))"
proof -
  have d: "digs 10 42 = [4, 2]" by (simp add: digs.simps)
  have a: "ascii ''%-5d'' = [37, 45, 53, 100]" "ascii ''---42'' = [45, 45, 45, 52, 50]"
    by (simp_all add: ascii_def)
  have "parse_spec [45, 53, 100] fspec0 [42] = Some (fspec0\<lparr>padc := 45, width := 5\<rparr>, 100, [], [42])"
    by (simp add: process_precision_def fspec0_def Let_def)
  moreover have "convert (\<lambda>c xs. xs @ [c]) m (fspec0\<lparr>padc := 45, width := 5\<rparr>) 100 [42] [] =
    Some (Some ([45, 45, 45, 52, 50], []))"
    unfolding convert_def out_eqs
    by (simp add: fspec0_def getint_def va_arg_def num_out_def d fold_snoc digit_char_def)
       (simp add: numeral_3_eq_3)
  ultimately show ?thesis by (simp add: a)
qed

end
