(* ===== verification/Grep.thy ===== *)
theory Grep
  imports Prelude
begin

text \<open>
  grep.c: the regular expression matcher and the loop that reads lines. Strings are lists of bytes without the NUL at
  their end. A read of at most \<open>n\<close> bytes takes them from the first of the pieces in which the input arrives (a file is
  one piece); the output is the list of bytes written to file descriptor 1.
\<close>

section \<open>Matching\<close>

definition CARET :: byte where "CARET = 94"
definition DOT :: byte where "DOT = 46"
definition STAR :: byte where "STAR = 42"
definition DOLLAR :: byte where "DOLLAR = 36"
definition NL :: byte where "NL = 10"

text \<open>Both functions only go forward, in the expression or in the text.\<close>

function matchhere :: "byte list \<Rightarrow> byte list \<Rightarrow> bool"
  and matchstar :: "byte \<Rightarrow> byte list \<Rightarrow> byte list \<Rightarrow> bool" where
  "matchhere re t =
     (if chr re = 0 then True
      else if chr (tl re) = STAR then matchstar (chr re) (tl (tl re)) t
      else if chr re = DOLLAR \<and> chr (tl re) = 0 then chr t = 0
      else if chr t \<noteq> 0 \<and> (chr re = DOT \<or> chr re = chr t) then matchhere (tl re) (tl t)
      else False)"
| "matchstar c re t =
     (if matchhere re t then True
      else if chr t \<noteq> 0 \<and> (chr t = c \<or> c = DOT) then matchstar c re (tl t)
      else False)"
  by pat_completeness auto

termination
proof (relation "measure (case_sum (\<lambda>(re, t). 2 * (length re + length t)) (\<lambda>(c, re, t). 2 * (length re + length t) + 1))", goal_cases)
  case (2 re t)
  then have "re \<noteq> []" "tl re \<noteq> []" by (auto simp: STAR_def)
  then show ?case by (cases re; cases "tl re") auto
next
  case (3 re t)
  then have "re \<noteq> []" "t \<noteq> []" by auto
  then show ?case by (cases re; cases t) auto
next
  case (5 c re t)
  then have "t \<noteq> []" by auto
  then show ?case by (cases t) auto
qed auto

declare matchhere.simps [simp del] matchstar.simps [simp del]

text \<open>The \<open>do ... while\<close> loop of \<open>match\<close> over the suffixes of the text, the empty one included.\<close>

fun match_from :: "byte list \<Rightarrow> byte list \<Rightarrow> bool" where
  "match_from re [] = matchhere re []"
| "match_from re (c # t) = (if matchhere re (c # t) then True else if c \<noteq> 0 then match_from re t else False)"

definition match_re :: "byte list \<Rightarrow> byte list \<Rightarrow> bool" where
  "match_re re t = (if chr re = CARET then matchhere (tl re) t else match_from re t)"

section \<open>Reading lines\<close>

definition GREP_BUF :: nat where "GREP_BUF = 1024"

fun u_read :: "nat \<Rightarrow> byte list list \<Rightarrow> byte list \<times> byte list list" where
  "u_read n [] = ([], [])"
| "u_read n (x # xs) = (if n = 0 then ([], x # xs) else if length x \<le> n then (x, xs) else (take n x, drop n x # xs))"

text \<open>The inner loop, from \<open>p\<close> on: the output, and what is left in the buffer behind the last newline.\<close>

definition in_line :: "byte \<Rightarrow> bool" where
  "in_line c \<longleftrightarrow> c \<noteq> 0 \<and> c \<noteq> NL"

function grep_lines :: "byte list \<Rightarrow> byte list \<Rightarrow> byte list \<times> byte list" where
  "grep_lines re p =
     (let l = takeWhile in_line p; q = dropWhile in_line p in
      if chr q = NL then
        let (out, rest) = grep_lines re (tl q) in ((if match_re re l then l @ [NL] else []) @ out, rest)
      else ([], p))"
  by pat_completeness auto
termination
proof (relation "measure (\<lambda>(re, p). length p)", goal_cases)
  case (2 re p l q)
  have le: "length q \<le> length p" unfolding 2(2) by (rule length_dropWhile_le)
  have "q \<noteq> []" using 2(3) by (rule contrapos_pn) (simp add: NL_def)
  then have "length (tl q) < length p" using le by (cases q) auto
  then show ?case by simp
qed simp

declare grep_lines.simps [simp del]

lemma u_read_total: "u_read n inp = (x, inp') \<Longrightarrow> concat inp = x @ concat inp'"
  by (cases "(n, inp)" rule: u_read.cases) (auto split: if_splits)

text \<open>The outer loop; \<open>buf\<close> holds the first \<open>m\<close> bytes of the buffer. A read of no bytes ends it.\<close>

function grep :: "byte list \<Rightarrow> byte list \<Rightarrow> byte list list \<Rightarrow> byte list" where
  "grep re buf inp =
     (let (x, inp') = u_read (GREP_BUF - length buf - 1) inp in
      if x = [] then []
      else
        let buf = buf @ x; (out, rest) = grep_lines re buf in
        out @ grep re (if length rest = length buf then [] else rest) inp')"
  by pat_completeness auto

termination
proof (relation "measure (\<lambda>(re, buf, inp). length (concat inp))", goal_cases)
  case (2 re buf inp y x inp')
  then have "concat inp = x @ concat inp'" using u_read_total by metis
  then show ?case using 2 by simp
qed simp

declare grep.simps [simp del]

section \<open>What an expression means\<close>

text \<open>An expression is a sequence of items, each a character or \<open>.\<close>, starred or not, and possibly the end of the text;
  \<open>*\<close> is an operator behind any character, also behind another star.\<close>

datatype item = One byte | Many byte

fun items :: "byte list \<Rightarrow> item list \<times> bool" where
  "items [] = ([], False)"
| "items [c] = (if c = DOLLAR then ([], True) else ([One c], False))"
| "items (c # d # re) =
     (if d = STAR then let (is, e) = items re in (Many c # is, e)
      else let (is, e) = items (d # re) in (One c # is, e))"

definition fits :: "byte \<Rightarrow> byte \<Rightarrow> bool" where
  "fits c x \<longleftrightarrow> c = DOT \<or> c = x"

fun takes :: "item \<Rightarrow> byte list \<Rightarrow> bool" where
  "takes (One c) xs \<longleftrightarrow> (\<exists>x. xs = [x] \<and> fits c x)"
| "takes (Many c) xs \<longleftrightarrow> (\<forall>x \<in> set xs. fits c x)"

text \<open>The text begins with pieces for the items, in order; with \<open>e\<close> nothing follows them.\<close>

definition begins :: "item list \<times> bool \<Rightarrow> byte list \<Rightarrow> bool" where
  "begins r t \<longleftrightarrow> (\<exists>xss rest. list_all2 takes (fst r) xss \<and> t = concat xss @ rest \<and> (snd r \<longrightarrow> rest = []))"

lemma begins_Nil: "begins ([], e) t \<longleftrightarrow> (e \<longrightarrow> t = [])"
  by (auto simp: begins_def)

lemma begins_Cons: "begins (i # is, e) t \<longleftrightarrow> (\<exists>xs u. t = xs @ u \<and> takes i xs \<and> begins (is, e) u)"
proof
  assume "begins (i # is, e) t"
  then obtain yss rest where "list_all2 takes (i # is) yss" "t = concat yss @ rest" "e \<longrightarrow> rest = []"
    unfolding begins_def fst_conv snd_conv by blast
  moreover from this(1) obtain xs xss where "yss = xs # xss" "takes i xs" "list_all2 takes is xss"
    unfolding list_all2_Cons1 by blast
  ultimately have "t = xs @ (concat xss @ rest)" "takes i xs" "begins (is, e) (concat xss @ rest)"
    by (simp_all add: begins_def) blast
  then show "\<exists>xs u. t = xs @ u \<and> takes i xs \<and> begins (is, e) u" by blast
next
  assume "\<exists>xs u. t = xs @ u \<and> takes i xs \<and> begins (is, e) u"
  then obtain xs xss rest where "t = xs @ concat xss @ rest" "takes i xs" "list_all2 takes is xss" "e \<longrightarrow> rest = []"
    unfolding begins_def fst_conv snd_conv by blast
  then show "begins (i # is, e) t"
    unfolding begins_def by (intro exI [of _ "xs # xss"] exI [of _ rest]) simp
qed

lemma begins_One: "begins (One c # is, e) t \<longleftrightarrow> (\<exists>x t'. t = x # t' \<and> fits c x \<and> begins (is, e) t')"
proof -
  have "(\<exists>xs u. t = xs @ u \<and> takes (One c) xs \<and> P u) \<longleftrightarrow> (\<exists>x u. t = x # u \<and> fits c x \<and> P u)" for P
    by auto (metis append_Cons append_Nil)
  then show ?thesis unfolding begins_Cons .
qed

lemma begins_Many:
  "begins (Many c # is, e) t \<longleftrightarrow> begins (is, e) t \<or> (\<exists>x t'. t = x # t' \<and> fits c x \<and> begins (Many c # is, e) t')"
  (is "?l \<longleftrightarrow> ?r")
proof
  assume ?l
  then obtain xs u where m: "t = xs @ u" "\<forall>x \<in> set xs. fits c x" "begins (is, e) u"
    unfolding begins_Cons takes.simps by blast
  show ?r
  proof (cases xs)
    case Nil
    then show ?thesis using m by simp
  next
    case (Cons x xs')
    then have "begins (Many c # is, e) (xs' @ u)" using m unfolding begins_Cons takes.simps by auto
    then show ?thesis using m Cons by auto
  qed
next
  assume ?r
  then show ?l
  proof
    assume "begins (is, e) t"
    then have "t = [] @ t \<and> takes (Many c) [] \<and> begins (is, e) t" by simp
    then show ?l unfolding begins_Cons by blast
  next
    assume "\<exists>x t'. t = x # t' \<and> fits c x \<and> begins (Many c # is, e) t'"
    then obtain x xs u where "t = x # xs @ u" "fits c x" "\<forall>x \<in> set xs. fits c x" "begins (is, e) u"
      unfolding begins_Cons takes.simps by blast
    then have "t = (x # xs) @ u \<and> takes (Many c) (x # xs) \<and> begins (is, e) u" by simp
    then show ?l unfolding begins_Cons by blast
  qed
qed

lemma items_Cons:
  "re \<noteq> [] \<Longrightarrow> items re = (if chr (tl re) = STAR then let (is, e) = items (tl (tl re)) in (Many (hd re) # is, e)
     else if hd re = DOLLAR \<and> tl re = [] then ([], True)
     else let (is, e) = items (tl re) in (One (hd re) # is, e))"
  by (cases re rule: items.cases) (auto simp: STAR_def)

lemma matchhere_begins:
  "0 \<notin> set re \<Longrightarrow> 0 \<notin> set t \<Longrightarrow> matchhere re t \<longleftrightarrow> begins (items re) t"
  "0 \<notin> set re \<Longrightarrow> 0 \<notin> set t \<Longrightarrow> c \<noteq> 0 \<Longrightarrow> matchstar c re t \<longleftrightarrow> begins (Many c # fst (items re), snd (items re)) t"
proof (induction re t and c re t rule: matchhere_matchstar.induct)
  case (1 re t)
  show ?case
  proof (cases "re = []")
    case True
    then show ?thesis by (simp add: matchhere.simps begins_Nil)
  next
    case False
    then obtain c re' where re: "re = c # re'" by (cases re) auto
    have r: "chr re = hd re" "hd re \<noteq> 0" "chr re \<noteq> 0" "0 \<notin> set (tl re)" "0 \<notin> set (tl (tl re))"
      using "1.prems"(1) unfolding re by (cases re'; simp)+
    have nil: "chr (tl re) = 0 \<longleftrightarrow> tl re = []" using r(4) by (cases "tl re") auto
    have t0: "chr t = 0 \<longleftrightarrow> t = []" using "1.prems"(2) by (cases t) auto
    from matchhere.simps [of re t] have eq1: "matchhere re t = (if chr re = 0 then True
      else if chr (tl re) = STAR then matchstar (chr re) (tl (tl re)) t
      else if chr re = DOLLAR \<and> chr (tl re) = 0 then chr t = 0
      else if chr t \<noteq> 0 \<and> (chr re = DOT \<or> chr re = chr t) then matchhere (tl re) (tl t) else False)" .
    note eq = eq1 items_Cons [OF False]
    show ?thesis
    proof (cases "chr (tl re) = STAR")
      case True
      have "matchstar (chr re) (tl (tl re)) t \<longleftrightarrow>
        begins (Many (chr re) # fst (items (tl (tl re))), snd (items (tl (tl re)))) t"
        by (rule "1.IH"(1) [OF r(3) True r(5) "1.prems"(2) r(3)])
      then show ?thesis unfolding eq using True r(1,3) by (simp add: case_prod_beta)
    next
      case ns: False
      show ?thesis
      proof (cases "hd re = DOLLAR \<and> tl re = []")
        case True
        then show ?thesis using ns eq r t0 nil by (simp add: begins_Nil)
      next
        case nd: False
        show ?thesis
        proof (cases "t \<noteq> [] \<and> fits (hd re) (hd t)")
          case True
          then obtain x t' where t: "t = x # t'" "fits (hd re) x" by (cases t) auto
          have "matchhere (tl re) t' \<longleftrightarrow> begins (items (tl re)) t'"
            using "1.IH"(2) [OF r(3) ns] nd nil r t "1.prems"(2) by (simp add: fits_def)
          then show ?thesis using ns nd eq r t "1.prems"(2) nil by (auto simp: begins_One case_prod_beta fits_def)
        next
          case False
          then have "\<not> matchhere re t" using eq(1) ns nd r nil t0 by (cases t) (auto simp: fits_def)
          moreover have "\<not> begins (items re) t" unfolding eq(2) using ns nd False by (auto simp: begins_One case_prod_beta)
          ultimately show ?thesis by simp
        qed
      qed
    qed
  qed
next
  case (2 c re t)
  have t0: "chr t = 0 \<longleftrightarrow> t = []" using "2.prems"(2) by (cases t) auto
  note m = begins_Many [of c "fst (items re)" "snd (items re)" t, unfolded prod.collapse]
  show ?case
  proof (cases "matchhere re t")
    case True
    then show ?thesis using "2.IH"(1) "2.prems"(1,2) m by (simp add: matchstar.simps)
  next
    case False
    then have n: "\<not> begins (items re) t" using "2.IH"(1) "2.prems"(1,2) by simp
    show ?thesis
    proof (cases "t \<noteq> [] \<and> fits c (hd t)")
      case True
      then obtain x t' where t: "t = x # t'" "fits c x" by (cases t) auto
      have "chr t \<noteq> 0 \<and> (chr t = c \<or> c = DOT)" using t "2.prems"(2) by (auto simp: fits_def)
      moreover from this have "matchstar c re (tl t) \<longleftrightarrow> begins (Many c # fst (items re), snd (items re)) (tl t)"
        using "2.IH"(2) [OF False] t "2.prems" by simp
      ultimately show ?thesis unfolding m matchstar.simps [of c re t] using False n t by simp
    next
      case nf: False
      then have "\<not> (chr t \<noteq> 0 \<and> (chr t = c \<or> c = DOT))" using t0 by (cases t) (auto simp: fits_def)
      then show ?thesis unfolding m matchstar.simps [of c re t] using False n nf by auto
    qed
  qed
qed

section \<open>Correctness\<close>

text \<open>The line of an expression: anchored with \<open>^\<close>, or anywhere in the text.\<close>

definition selects :: "byte list \<Rightarrow> byte list \<Rightarrow> bool" where
  "selects re t = (if re \<noteq> [] \<and> hd re = CARET then begins (items (tl re)) t
     else (\<exists>pre suf. t = pre @ suf \<and> begins (items re) suf))"

lemma match_from_begins:
  "0 \<notin> set re \<Longrightarrow> 0 \<notin> set t \<Longrightarrow> match_from re t \<longleftrightarrow> (\<exists>pre suf. t = pre @ suf \<and> begins (items re) suf)"
proof (induction t)
  case Nil
  then show ?case by (simp add: matchhere_begins)
next
  case (Cons c t)
  have "(\<exists>pre suf. c # t = pre @ suf \<and> begins (items re) suf) \<longleftrightarrow>
      begins (items re) (c # t) \<or> (\<exists>pre suf. t = pre @ suf \<and> begins (items re) suf)"
    by (auto simp: Cons_eq_append_conv)
  then show ?case using Cons by (simp add: matchhere_begins(1))
qed

lemma matches_selects:
  assumes "0 \<notin> set re" "0 \<notin> set t"
  shows "match_re re t \<longleftrightarrow> selects re t"
proof -
  have "chr re = CARET \<longleftrightarrow> re \<noteq> [] \<and> hd re = CARET" by (cases re) (auto simp: CARET_def)
  moreover have "0 \<notin> set (tl re)" using assms(1) by (cases re) auto
  ultimately show ?thesis
    using assms by (simp add: match_re_def selects_def matchhere_begins(1) match_from_begins)
qed

text \<open>C28: The backtracking matcher decides the language of the expression: \<open>match\<close> succeeds on a line exactly if some
  part of the line, at its start for an expression with \<open>^\<close> and up to its end for one with \<open>$\<close>, splits into pieces
  for the items of the expression in order, one character for a plain item and any number for a starred one.\<close>

theorem match_re_selects:
  assumes "0 \<notin> set re" "0 \<notin> set t"
  shows "match_re re t \<longleftrightarrow> selects re t"
  using matches_selects [OF assms] .

text \<open>\<open>^h.*o$\<close> selects \<open>hello\<close>.\<close>

theorem match_re_selects_witness:
  "match_re [94, 104, 46, 42, 111, 36] [104, 101, 108, 108, 111] \<and> selects [94, 104, 46, 42, 111, 36] [104, 101, 108, 108, 111]"
proof -
  have m: "match_re [94, 104, 46, 42, 111, 36] [104, 101, 108, 108, 111]"
    by (simp add: match_re_def CARET_def matchhere.simps matchstar.simps STAR_def DOT_def DOLLAR_def)
  then show ?thesis using match_re_selects [of "[94, 104, 46, 42, 111, 36]" "[104, 101, 108, 108, 111]"] by simp
qed

section \<open>Files\<close>

definition ended :: "byte list \<Rightarrow> byte list" where
  "ended l = l @ [NL]"

definition good_line :: "byte list \<Rightarrow> bool" where
  "good_line l \<longleftrightarrow> (\<forall>c \<in> set l. in_line c)"

lemma in_line_span:
  assumes "good_line l" "r = [] \<or> \<not> in_line (hd r)"
  shows "takeWhile in_line (l @ r) = l" "dropWhile in_line (l @ r) = r"
proof -
  have "takeWhile in_line r = []" "dropWhile in_line r = r" using assms(2) by (cases r; simp)+
  then show "takeWhile in_line (l @ r) = l" "dropWhile in_line (l @ r) = r"
    using assms(1) by (simp_all add: good_line_def takeWhile_append2 dropWhile_append2)
qed

lemma grep_lines_ended:
  assumes "good_line l"
  shows "grep_lines re (ended l @ p) =
     (let (out, rest) = grep_lines re p in ((if match_re re l then ended l else []) @ out, rest))"
proof -
  have "NL # p = [] \<or> \<not> in_line (hd (NL # p))" by (simp add: in_line_def)
  note sp = in_line_span [OF assms this]
  show ?thesis
    unfolding ended_def append_assoc append_Cons append_Nil grep_lines.simps [of re "l @ NL # p"] Let_def sp by simp
qed

lemma grep_lines_rest:
  assumes "good_line r"
  shows "grep_lines re r = ([], r)"
proof -
  have sp: "takeWhile in_line r = r" "dropWhile in_line r = []" using in_line_span [OF assms, of "[]"] by simp_all
  show ?thesis unfolding grep_lines.simps [of re r] Let_def sp by (simp add: NL_def)
qed

lemma grep_lines_file:
  "\<forall>l \<in> set ls. good_line l \<Longrightarrow> good_line r \<Longrightarrow>
   grep_lines re (concat (map ended ls) @ r) = (concat (map ended (filter (match_re re) ls)), r)"
  by (induction ls) (simp_all add: grep_lines_rest grep_lines_ended)

text \<open>The beginning of a file is some whole lines and the beginning of the next one.\<close>

lemma split_lines:
  assumes "b @ c = concat (map ended ls)" "\<forall>l \<in> set ls. good_line l"
  shows "\<exists>ls1 ls2 r. ls = ls1 @ ls2 \<and> b = concat (map ended ls1) @ r \<and> r @ c = concat (map ended ls2) \<and> good_line r \<and>
    (r \<noteq> [] \<longrightarrow> length r \<le> length (hd ls2))"
  using assms
proof (induction ls arbitrary: b)
  case Nil
  then show ?case by (simp add: good_line_def)
next
  case (Cons l ls)
  show ?case
  proof (cases "length b \<le> length l")
    case True
    have "b = take (length b) (l @ NL # concat (map ended ls))"
      using Cons.prems(1) by (metis append_eq_conv_conj ended_def append_assoc append_Cons append_Nil concat.simps(2) list.map(2))
    then have "b = take (length b) l" using True by simp
    then have "set b \<subseteq> set l" by (metis set_take_subset)
    then have "good_line b" using Cons.prems(2) by (auto simp: good_line_def)
    then show ?thesis using Cons.prems(1) True by (intro exI [of _ "[]"] exI [of _ "l # ls"] exI [of _ b]) simp
  next
    case False
    define b' where "b' = drop (length (ended l)) b"
    have "length (ended l) \<le> length b" using False by (simp add: ended_def)
    then have b: "b = ended l @ b'" "b' @ c = concat (map ended ls)"
      using Cons.prems(1) unfolding b'_def by (auto simp: append_eq_append_conv_if split: if_splits)
        (metis append_take_drop_id)
    obtain ls1 ls2 r where i: "ls = ls1 @ ls2" "b' = concat (map ended ls1) @ r" "r @ c = concat (map ended ls2)" "good_line r"
      "r \<noteq> [] \<longrightarrow> length r \<le> length (hd ls2)"
      using Cons.IH [OF b(2)] Cons.prems(2) by auto
    then show ?thesis using b(1) by (intro exI [of _ "l # ls1"] exI [of _ ls2] exI [of _ r]) simp
  qed
qed

lemma no_line: "good_line b \<Longrightarrow> b = concat (map ended ls) \<Longrightarrow> ls = []"
  by (cases ls) (auto simp: good_line_def ended_def in_line_def)

text \<open>A read that leaves no newline in the buffer would lose the line: this does not happen with lines that fit.\<close>

lemma grep_loop_file:
  assumes "buf @ concat inp = concat (map ended ls)" "length inp \<le> 1" "good_line buf" "length buf < GREP_BUF - 1"
    "\<forall>l \<in> set ls. good_line l \<and> length l < GREP_BUF - 1"
  shows "grep re buf inp = concat (map ended (filter (match_re re) ls))"
  using assms
proof (induction "length (concat inp)" arbitrary: buf inp ls rule: less_induct)
  case less
  let ?n = "GREP_BUF - length buf - 1"
  obtain x inp' where x: "u_read ?n inp = (x, inp')" by force
  have tot: "concat inp = x @ concat inp'" by (rule u_read_total [OF x])
  have n: "?n \<noteq> 0" using less.prems(4) by simp
  show ?case
  proof (cases "concat inp = []")
    case True
    then have "ls = []" using no_line [OF less.prems(3)] less.prems(1) by (simp only: append_Nil2)
    then show ?thesis using x tot True by (simp add: grep.simps [of re buf inp])
  next
    case False
    then obtain y where y: "inp = [y]" "y \<noteq> []" using less.prems(2) by (cases inp) auto
    have xx: "x \<noteq> []" "length inp' \<le> 1" "concat inp' = [] \<or> length x = ?n"
      using x n y by (auto split: if_splits)
    have "(buf @ x) @ concat inp' = concat (map ended ls)" using less.prems(1) tot by simp
    from split_lines [OF this] obtain ls1 ls2 r where s: "ls = ls1 @ ls2" "buf @ x = concat (map ended ls1) @ r"
      "r @ concat inp' = concat (map ended ls2)" "good_line r" "r \<noteq> [] \<longrightarrow> length r \<le> length (hd ls2)"
      using less.prems(5) by blast
    have g: "grep_lines re (buf @ x) = (concat (map ended (filter (match_re re) ls1)), r)"
      unfolding s(2) using less.prems(5) s(1,4) by (intro grep_lines_file) auto
    have short: "length r < GREP_BUF - 1"
    proof (cases "r = []")
      case True
      then show ?thesis by (simp add: GREP_BUF_def)
    next
      case False
      then have "ls2 \<noteq> []" using s(3) by auto
      then have "length (hd ls2) < GREP_BUF - 1" using less.prems(5) s(1) by simp
      then show ?thesis using s(5) False by simp
    qed
    have "length r \<noteq> length (buf @ x)"
    proof
      assume e: "length r = length (buf @ x)"
      then have r: "buf @ x = r" using s(2) by simp
      have "length x \<noteq> ?n" using short e less.prems(4) by simp
      then have "concat inp' = []" using xx(3) by blast
      then have "r = concat (map ended ls2)" using s(3) by (simp only: append_Nil2)
      then have "ls2 = []" using no_line [OF s(4)] by simp
      then show False using s(3) r xx(1) by simp
    qed
    then have "grep re buf inp = concat (map ended (filter (match_re re) ls1)) @ grep re r inp'"
      using x xx(1) g by (simp add: grep.simps [of re buf inp])
    also have "grep re r inp' = concat (map ended (filter (match_re re) ls2))"
      using tot xx(1,2) s(1,3,4) short less.prems(5) by (intro less.hyps) simp_all
    finally show ?thesis by (simp add: s(1))
  qed
qed

text \<open>C29: grep of a file whose lines, each with its newline, fit into the buffer prints exactly the lines that the
  expression selects, in order; each read fills the buffer up, in the middle of a line or not.\<close>

theorem grep_selects_lines:
  assumes "\<forall>l \<in> set ls. good_line l \<and> length l < GREP_BUF - 1" "0 \<notin> set re"
  shows "grep re [] [concat (map ended ls)] = concat (map ended (filter (selects re) ls))"
proof -
  have "grep re [] [concat (map ended ls)] = concat (map ended (filter (match_re re) ls))"
    by (rule grep_loop_file) (use assms in \<open>simp_all add: good_line_def GREP_BUF_def\<close>)
  moreover have "filter (match_re re) ls = filter (selects re) ls"
  proof (rule filter_cong [OF refl])
    fix l assume "l \<in> set ls"
    then have "0 \<notin> set l" using assms(1) by (auto simp: good_line_def in_line_def)
    then show "match_re re l = selects re l" using matches_selects assms(2) by blast
  qed
  ultimately show ?thesis by simp
qed

theorem grep_selects_lines_witness:
  "grep [98] [] [[97, 10, 98, 97, 10, 10]] = concat (map ended (filter (selects [98]) [[97], [98, 97], []]))"
  using grep_selects_lines [of "[[97], [98, 97], []]" "[98]"]
  by (simp add: good_line_def in_line_def GREP_BUF_def ended_def NL_def)

text \<open>A line that arrives in two reads, as from a pipe, loses the part that came first when the buffer then holds no
  newline, although the same bytes in one read are found; a last line without a newline is never printed.\<close>

theorem grep_loses_lines:
  "grep [104, 105] [] [[104], [105, 10]] = [] \<and> grep [104, 105] [] [[104, 105, 10]] = [104, 105, 10] \<and>
   grep [104, 105] [] [[104, 105]] = []"
  by (simp add: grep.simps grep_lines.simps GREP_BUF_def in_line_def NL_def match_re_def matchhere.simps CARET_def STAR_def
      DOT_def DOLLAR_def)

end
