(* ===== verification/Kdebug.thy ===== *)
theory Kdebug
  imports Kern
begin

text \<open>
  kern/kdebug.c of JOS: the search in the debugging table of the kernel. The table is a list of entries, the string
  table a list of bytes; strings are lists of bytes up to the NUL. The index variables are C integers that stay
  between \<open>-1\<close> and the length of the table.
\<close>

section \<open>The table\<close>

definition N_FUN :: byte where "N_FUN = 0x24"
definition N_SLINE :: byte where "N_SLINE = 0x44"
definition N_SO :: byte where "N_SO = 0x64"
definition N_SOL :: byte where "N_SOL = 0x84"
definition N_PSYM :: byte where "N_PSYM = 0xa0"
definition ULIM :: u32 where "ULIM = 0xef800000"

record stab =
  n_strx :: u32
  n_type :: byte
  n_other :: byte
  n_desc :: u16
  n_value :: u32

abbreviation stab_at :: "stab list \<Rightarrow> int \<Rightarrow> stab" where
  "stab_at xs i \<equiv> xs ! nat i"

section \<open>Binary search\<close>

text \<open>The earliest entry of the right type at or below \<open>m\<close>, or \<open>l - 1\<close>.\<close>

function seek_down :: "stab list \<Rightarrow> byte \<Rightarrow> int \<Rightarrow> int \<Rightarrow> int" where
  "seek_down xs ty l m = (if l \<le> m \<and> n_type (stab_at xs m) \<noteq> ty then seek_down xs ty l (m - 1) else m)"
  by pat_completeness auto
termination by (relation "measure (\<lambda>(xs, ty, l, m). nat (m + 1 - l))") auto

declare seek_down.simps [simp del]

record search =
  s_left :: int
  s_right :: int
  s_any :: bool

lemma seek_down_le: "seek_down xs ty l m \<le> m"
  by (induction xs ty l m rule: seek_down.induct) (subst seek_down.simps, auto)

lemma mid: "l \<le> r \<Longrightarrow> l \<le> (l + r) div 2" "l \<le> r \<Longrightarrow> (l + r) div 2 \<le> r" for l r :: int
  by presburger+

text \<open>The loop with its local variables \<open>l\<close>, \<open>r\<close> and \<open>addr\<close>; \<open>q\<close> holds what it leaves behind. After
  a match at \<open>l\<close> the address grows, so that no second match at the same place can follow: each round shrinks the
  range or is the last one of its kind.\<close>

function search_loop :: "stab list \<Rightarrow> byte \<Rightarrow> int \<Rightarrow> int \<Rightarrow> u32 \<Rightarrow> search \<Rightarrow> search" where
  "search_loop xs ty l r addr q =
     (if \<not> l \<le> r then q
      else
        let true_m = (l + r) div 2; m = seek_down xs ty l true_m in
        if m < l then search_loop xs ty (true_m + 1) r addr q
        else if n_value (stab_at xs m) < addr then search_loop xs ty (true_m + 1) r addr (q\<lparr>s_any := True, s_left := m\<rparr>)
        else if addr < n_value (stab_at xs m) then search_loop xs ty l (m - 1) addr (q\<lparr>s_any := True, s_right := m - 1\<rparr>)
        else search_loop xs ty m r (addr + 1) (q\<lparr>s_any := True, s_left := m\<rparr>))"
  by pat_completeness auto

termination
proof (relation "measure (\<lambda>(xs, ty, l, r, addr, q). 2 * nat (r + 1 - l) + (if n_value (stab_at xs l) = addr then 1 else 0))", goal_cases)
  case (5 xs ty l r addr q tm m)
  then have m: "l \<le> m" "m \<le> tm" "tm \<le> r" using seek_down_le [of xs ty l tm] by simp_all
  have v: "n_value (stab_at xs m) = addr" using 5 by auto
  have "addr + 1 \<noteq> addr" by simp
  then have ne: "n_value (stab_at xs m) \<noteq> addr + 1" using v by auto
  show ?case using m ne v by (cases "m = l") auto
next
  case (4 xs ty l r addr q tm m)
  then show ?case using seek_down_le [of xs ty l tm] by auto
next
  case (2 xs ty l r addr q tm m)
  then show ?case using mid [of l r] by auto
next
  case (3 xs ty l r addr q tm m)
  then show ?case using mid [of l r] by auto
qed simp

declare search_loop.simps [simp del]

text \<open>The last loop moves \<open>l\<close> down from the right end; \<open>l\<close> and \<open>r\<close> of the first loop are never negative inside
  it, so that \<open>div\<close> is the division of C.\<close>

function find_region :: "stab list \<Rightarrow> byte \<Rightarrow> int \<Rightarrow> int \<Rightarrow> int" where
  "find_region xs ty left l = (if left < l \<and> n_type (stab_at xs l) \<noteq> ty then find_region xs ty left (l - 1) else l)"
  by pat_completeness auto
termination by (relation "measure (\<lambda>(xs, ty, left, l). nat (l - left))") auto

declare find_region.simps [simp del]

definition stab_binsearch :: "stab list \<Rightarrow> int \<Rightarrow> int \<Rightarrow> byte \<Rightarrow> u32 \<Rightarrow> int \<times> int" where
  "stab_binsearch xs left right ty addr =
     (let q = search_loop xs ty left right addr \<lparr>s_left = left, s_right = right, s_any = False\<rparr> in
      if \<not> s_any q then (s_left q, s_left q - 1)
      else (find_region xs ty (s_left q) (s_right q), s_right q))"

section \<open>Source position of an instruction\<close>

record eipdebuginfo =
  eip_file :: "byte list"
  eip_line :: int
  eip_fn_name :: "byte list"
  eip_fn_namelen :: int
  eip_fn_addr :: u32
  eip_fn_narg :: int

definition stab_str :: "byte list \<Rightarrow> u32 \<Rightarrow> byte list" where
  "stab_str str n = takeWhile (\<lambda>c. c \<noteq> 0) (drop (unat n) str)"

function file_stab :: "stab list \<Rightarrow> int \<Rightarrow> int \<Rightarrow> int" where
  "file_stab xs lfile l =
     (if lfile \<le> l \<and> n_type (stab_at xs l) \<noteq> N_SOL \<and> (n_type (stab_at xs l) \<noteq> N_SO \<or> n_value (stab_at xs l) = 0)
      then file_stab xs lfile (l - 1) else l)"
  by pat_completeness auto
termination by (relation "measure (\<lambda>(xs, lfile, l). nat (l + 1 - lfile))") auto

function count_args :: "stab list \<Rightarrow> int \<Rightarrow> int \<Rightarrow> int" where
  "count_args xs l r = (if l < r \<and> n_type (stab_at xs l) = N_PSYM then 1 + count_args xs (l + 1) r else 0)"
  by pat_completeness auto
termination by (relation "measure (\<lambda>(xs, l, r). nat (r - l))") auto

declare file_stab.simps [simp del] count_args.simps [simp del]

text \<open>\<open>debuginfo_eip\<close> over the tables between \<open>__STAB_BEGIN__\<close> and \<open>__STABSTR_END__\<close>; \<open>info\<close> is what it fills in and
  the string what it prints.\<close>

definition debuginfo_eip :: "stab list \<Rightarrow> byte list \<Rightarrow> u32 \<Rightarrow> (int \<times> string, eipdebuginfo) outcome" where
  "debuginfo_eip xs str addr =
     (let info = \<lparr>eip_file = str_bytes ''<unknown>'', eip_line = 0, eip_fn_name = str_bytes ''<unknown>'', eip_fn_namelen = 9,
            eip_fn_addr = addr, eip_fn_narg = 0\<rparr> in
      if addr < ULIM then Panic ''User address''
      else if str = [] \<or> last str \<noteq> 0 then Ret (-1, []) info
      else
        let (lfile, rfile) = stab_binsearch xs 0 (int (length xs) - 1) N_SO addr in
        if lfile = 0 then Ret (-1, []) info
        else
          let (lfun, rfun) = stab_binsearch xs lfile rfile N_FUN addr;
              (info, addr, lline, rline) =
                (if lfun \<le> rfun then
                   let info = (if unat (n_strx (stab_at xs lfun)) < length str
                               then info\<lparr>eip_fn_name := stab_str str (n_strx (stab_at xs lfun))\<rparr> else info);
                       info = info\<lparr>eip_fn_addr := n_value (stab_at xs lfun)\<rparr> in
                   (info, addr - eip_fn_addr info, lfun, rfun)
                 else (info\<lparr>eip_fn_addr := addr\<rparr>, addr, lfile, rfile));
              info = info\<lparr>eip_fn_namelen := int (length (takeWhile (\<lambda>c. c \<noteq> 58) (eip_fn_name info)))\<rparr>;
              (lline, rline) = stab_binsearch xs lline rline N_SLINE addr in
          if lline \<le> rline then
            let info = info\<lparr>eip_line := uint (n_desc (stab_at xs lline))\<rparr>;
                lline = file_stab xs lfile lline;
                info = (if lfile \<le> lline \<and> unat (n_strx (stab_at xs lline)) < length str
                        then info\<lparr>eip_file := stab_str str (n_strx (stab_at xs lline))\<rparr> else info);
                info = (if lfun < rfun then info\<lparr>eip_fn_narg := count_args xs (lfun + 1) rfun\<rparr> else info) in
            Ret (0, []) info
          else Ret (-1, ''Cannot find the line number.'' @ [CHR 0x0A]) info)"

end
