(* ===== verification/Kdebug_Props.thy ===== *)
theory Kdebug_Props
  imports Kdebug Cmem
begin

text \<open>What the binary search of kdebug.c finds.\<close>

definition matching :: "stab list \<Rightarrow> int \<Rightarrow> int \<Rightarrow> byte \<Rightarrow> int set" where
  "matching xs L R ty = {i \<in> {L..R}. n_type (stab_at xs i) = ty}"

lemma finite_matching [simp]: "finite (matching xs L R ty)"
  unfolding matching_def by (rule finite_subset [of _ "{L..R}"]) auto

lemma seek_down_spec:
  "l - 1 \<le> m \<Longrightarrow> (let k = seek_down xs ty l m in l - 1 \<le> k \<and> k \<le> m \<and> (l \<le> k \<longrightarrow> n_type (stab_at xs k) = ty) \<and>
     (\<forall>j. k < j \<and> j \<le> m \<longrightarrow> n_type (stab_at xs j) \<noteq> ty))"
proof (induction xs ty l m rule: seek_down.induct)
  case (1 xs ty l m)
  show ?case
  proof (cases "l \<le> m \<and> n_type (stab_at xs m) \<noteq> ty")
    case True
    then have "seek_down xs ty l m = seek_down xs ty l (m - 1)" by (simp add: seek_down.simps [of xs ty l m])
    moreover have "j \<le> m \<longleftrightarrow> j \<le> m - 1 \<or> j = m" for j by auto
    ultimately show ?thesis using 1 True by (auto simp: Let_def)
  next
    case False
    then have "seek_down xs ty l m = m" unfolding seek_down.simps [of xs ty l m] by (rule if_not_P)
    then show ?thesis using 1 False by auto
  qed
qed

lemma find_region_spec:
  "let k = find_region xs ty left l in min left l \<le> k \<and> k \<le> l \<and> (left < k \<longrightarrow> n_type (stab_at xs k) = ty) \<and>
     (\<forall>j. k < j \<and> j \<le> l \<longrightarrow> n_type (stab_at xs j) \<noteq> ty)"
proof (induction xs ty left l rule: find_region.induct)
  case (1 xs ty left l)
  show ?case
  proof (cases "left < l \<and> n_type (stab_at xs l) \<noteq> ty")
    case True
    then have "find_region xs ty left l = find_region xs ty left (l - 1)" by (simp add: find_region.simps [of xs ty left l])
    moreover have "j \<le> l \<longleftrightarrow> j \<le> l - 1 \<or> j = l" for j by auto
    ultimately show ?thesis using 1 True by (auto simp: Let_def)
  next
    case False
    then have "find_region xs ty left l = l" unfolding find_region.simps [of xs ty left l] by (rule if_not_P)
    then show ?thesis using False by auto
  qed
qed

text \<open>The invariant of the search: matches left of \<open>l\<close> are at or below the address, those right of \<open>r\<close> above it, and
  \<open>s_left\<close> and \<open>s_right\<close> are at the nearest of them. After an exact match the address is one too big, which does not matter
  as long as nothing starts there.\<close>

definition search_inv :: "stab list \<Rightarrow> int \<Rightarrow> int \<Rightarrow> byte \<Rightarrow> u32 \<Rightarrow> int \<Rightarrow> int \<Rightarrow> u32 \<Rightarrow> search \<Rightarrow> bool" where
  "search_inv xs L R ty A l r a q \<longleftrightarrow>
     (let M = matching xs L R ty; v = (\<lambda>i. n_value (stab_at xs i)) in
      L \<le> l \<and> r \<le> R \<and> (a = A \<or> a = A + 1 \<and> (\<exists>i \<in> M. v i = A)) \<and>
      (\<forall>i \<in> M. i < l \<longrightarrow> v i \<le> A \<and> i \<le> s_left q) \<and>
      (\<forall>i \<in> M. r < i \<longrightarrow> A < v i \<and> s_right q < i) \<and>
      (s_any q \<and> s_left q \<in> M \<and> v (s_left q) \<le> A \<or> s_left q = L \<and> (\<forall>i \<in> M. l \<le> i)) \<and>
      (s_any q \<and> s_right q + 1 \<in> M \<and> A < v (s_right q + 1) \<and> r \<le> s_right q \<or> s_right q = R \<and> (\<forall>i \<in> M. i \<le> r)) \<and>
      (s_any q \<longrightarrow> M \<noteq> {}))"

definition ascending :: "stab list \<Rightarrow> int set \<Rightarrow> bool" where
  "ascending xs M \<longleftrightarrow> (\<forall>i \<in> M. \<forall>j \<in> M. i \<le> j \<longrightarrow> n_value (stab_at xs i) \<le> n_value (stab_at xs j))"

definition one_stab :: "stab list \<Rightarrow> int set \<Rightarrow> u32 \<Rightarrow> bool" where
  "one_stab xs M A \<longleftrightarrow> (\<forall>i \<in> M. \<forall>j \<in> M. n_value (stab_at xs i) = A \<longrightarrow> A \<noteq> -1 \<and> n_value (stab_at xs j) \<noteq> A + 1)"

lemma less_Suc_word:
  fixes x A :: u32
  assumes "A \<noteq> -1"
  shows "x < A + 1 \<longleftrightarrow> x \<le> A"
proof -
  have "unat A \<noteq> 4294967295"
  proof
    assume "unat A = 4294967295"
    then have "unat A = unat (4294967295 :: u32)" by simp
    then have "A = 4294967295" by (simp only: word_unat_eq_iff)
    then show False using assms by simp
  qed
  then have "unat A + unat (1 :: u32) < 2 ^ 32" using unat32_less [of A] by simp
  then have "unat (A + 1) = unat A + 1" using unat_plus_nowrap [of A 1] by simp
  then show ?thesis by (auto simp: word_less_nat_alt word_le_nat_alt)
qed

lemma search_inv_skip:
  assumes "search_inv xs L R ty A l r a q" "l \<le> tm" "\<And>i. i \<in> matching xs L R ty \<Longrightarrow> i < l \<or> tm < i"
  shows "search_inv xs L R ty A (tm + 1) r a q"
proof -
  have "i < l" if "i \<in> matching xs L R ty" "i < tm + 1" for i using assms(3) [OF that(1)] that(2) by linarith
  moreover have "tm + 1 \<le> i" if "i \<in> matching xs L R ty" "l \<le> i" for i using assms(3) [OF that(1)] that(2) by linarith
  ultimately show ?thesis using assms(1,2) unfolding search_inv_def Let_def by (intro conjI) (auto; fail)+
qed

lemma search_inv_cmp:
  assumes "search_inv xs L R ty A l r a q" "one_stab xs (matching xs L R ty) A"
  shows "n_value (stab_at xs m) < a \<Longrightarrow> n_value (stab_at xs m) \<le> A"
    "a < n_value (stab_at xs m) \<Longrightarrow> A < n_value (stab_at xs m)"
    "n_value (stab_at xs m) = a \<Longrightarrow> m \<in> matching xs L R ty \<Longrightarrow> a = A"
proof -
  have a: "a = A \<or> a = A + 1 \<and> A \<noteq> -1 \<and> (\<forall>j \<in> matching xs L R ty. n_value (stab_at xs j) \<noteq> A + 1)"
    using assms by (auto simp: search_inv_def Let_def one_stab_def)
  show "n_value (stab_at xs m) < a \<Longrightarrow> n_value (stab_at xs m) \<le> A" using a less_Suc_word by auto
  show "a < n_value (stab_at xs m) \<Longrightarrow> A < n_value (stab_at xs m)"
    using a less_Suc_word [of A "n_value (stab_at xs m)"] by (auto simp: not_le [symmetric])
  show "n_value (stab_at xs m) = a \<Longrightarrow> m \<in> matching xs L R ty \<Longrightarrow> a = A" using a by auto
qed

text \<open>A match \<open>m\<close> at or below the address, with no other up to \<open>l'\<close>.\<close>

lemma search_inv_left:
  assumes inv: "search_inv xs L R ty A l r a q" and asc: "ascending xs (matching xs L R ty)"
    and m: "m \<in> matching xs L R ty" "l \<le> m" "n_value (stab_at xs m) \<le> A"
    and l': "l \<le> l'" "l' \<le> tm + 1" and none: "\<And>i. i \<in> matching xs L R ty \<Longrightarrow> i \<le> m \<or> tm < i"
    and a': "a' = a \<or> a' = A + 1 \<and> n_value (stab_at xs m) = A"
  shows "search_inv xs L R ty A l' r a' (q\<lparr>s_any := True, s_left := m\<rparr>)"
proof -
  have "n_value (stab_at xs i) \<le> A \<and> i \<le> m" if "i \<in> matching xs L R ty" "i < l'" for i
  proof -
    have im: "i \<le> m" using none [OF that(1)] that(2) l'(2) by linarith
    then have "n_value (stab_at xs i) \<le> n_value (stab_at xs m)" using asc m(1) that(1) by (simp add: ascending_def)
    then show ?thesis using m(3) im by simp
  qed
  then show ?thesis using inv m l' a' unfolding search_inv_def Let_def by (intro conjI) (auto; fail)+
qed

lemma search_inv_right:
  assumes inv: "search_inv xs L R ty A l r a q" and asc: "ascending xs (matching xs L R ty)"
    and m: "m \<in> matching xs L R ty" "m \<le> r" "A < n_value (stab_at xs m)"
  shows "search_inv xs L R ty A l (m - 1) a (q\<lparr>s_any := True, s_right := m - 1\<rparr>)"
proof -
  have "A < n_value (stab_at xs i) \<and> m - 1 < i" if "i \<in> matching xs L R ty" "m - 1 < i" for i
  proof -
    have "n_value (stab_at xs m) \<le> n_value (stab_at xs i)" using asc m(1) that by (simp add: ascending_def)
    then show ?thesis using m(3) that by auto
  qed
  then show ?thesis using inv m unfolding search_inv_def Let_def by (intro conjI) (auto; fail)+
qed

lemma search_loop_inv:
  assumes "search_inv xs L R ty A l r a q" "ascending xs (matching xs L R ty)" "one_stab xs (matching xs L R ty) A"
  shows "\<exists>l' r' a'. r' < l' \<and> search_inv xs L R ty A l' r' a' (search_loop xs ty l r a q)"
  using assms
proof (induction xs ty l r a q rule: search_loop.induct)
  case (1 xs ty l r a q)
  let ?M = "matching xs L R ty" and ?v = "\<lambda>i. n_value (stab_at xs i)"
  note inv = "1.prems"(1) and asc = "1.prems"(2) and one = "1.prems"(3)
  show ?case
  proof (cases "l \<le> r")
    case False
    then show ?thesis using "1.prems"(1) by (intro exI [of _ l] exI [of _ r] exI [of _ a]) (simp add: search_loop.simps [of xs ty l r])
  next
    case True
    define tm where "tm = (l + r) div 2"
    define m where "m = seek_down xs ty l tm"
    have t: "l \<le> tm" "tm \<le> r" using mid [OF True] by (simp_all add: tm_def)
    have sd: "l - 1 \<le> m" "m \<le> tm" "l \<le> m \<Longrightarrow> n_type (stab_at xs m) = ty"
      "\<And>j. m < j \<Longrightarrow> j \<le> tm \<Longrightarrow> n_type (stab_at xs j) \<noteq> ty"
      using seek_down_spec [of l tm xs ty] t by (auto simp: Let_def m_def)
    have none: "i \<le> m \<or> tm < i" if "i \<in> ?M" for i using sd(4) [of i] that by (fastforce simp: matching_def)
    have mM: "m \<in> ?M" if "l \<le> m" using that sd t inv by (simp add: matching_def search_inv_def Let_def)
    have step: "search_loop xs ty l r a q =
      (if m < l then search_loop xs ty (tm + 1) r a q
       else if ?v m < a then search_loop xs ty (tm + 1) r a (q\<lparr>s_any := True, s_left := m\<rparr>)
       else if a < ?v m then search_loop xs ty l (m - 1) a (q\<lparr>s_any := True, s_right := m - 1\<rparr>)
       else search_loop xs ty m r (a + 1) (q\<lparr>s_any := True, s_left := m\<rparr>))"
      using True unfolding search_loop.simps [of xs ty l r a q] Let_def tm_def [symmetric] m_def [symmetric] by simp
    note IH = "1.IH" [OF _ tm_def m_def]
    consider "m < l" | "l \<le> m" "?v m < a" | "l \<le> m" "a < ?v m" | "l \<le> m" "?v m = a" by fastforce
    then show ?thesis
    proof cases
      case 1
      have "search_inv xs L R ty A (tm + 1) r a q"
        by (rule search_inv_skip [OF inv t(1)]) (use none 1 in fastforce)
      then show ?thesis using IH(1) [OF _ 1 _ asc one] True 1 by (simp add: step)
    next
      case 2
      have "search_inv xs L R ty A (tm + 1) r a (q\<lparr>s_any := True, s_left := m\<rparr>)"
        by (rule search_inv_left [OF inv asc mM [OF 2(1)] 2(1) search_inv_cmp(1) [OF inv one 2(2)], of _ tm])
           (use t none in auto)
      then show ?thesis using IH(2) [OF _ _ 2(2) _ asc one] True 2 by (simp add: step)
    next
      case 3
      have "search_inv xs L R ty A l (m - 1) a (q\<lparr>s_any := True, s_right := m - 1\<rparr>)"
        by (rule search_inv_right [OF inv asc mM [OF 3(1)] _ search_inv_cmp(2) [OF inv one 3(2)]]) (use t sd(2) in linarith)
      moreover have "\<not> ?v m < a" "\<not> m < l" using 3 by (simp_all add: not_less less_imp_le)
      ultimately show ?thesis using IH(3) [OF _ _ _ 3(2) _ asc one] True 3(2) by (simp add: step)
    next
      case 4
      have A: "a = A" "?v m = A" using search_inv_cmp(3) [OF inv one 4(2) mM [OF 4(1)]] 4(2) by simp_all
      have "search_inv xs L R ty A m r (a + 1) (q\<lparr>s_any := True, s_left := m\<rparr>)"
        by (rule search_inv_left [OF inv asc mM [OF 4(1)] 4(1), of _ tm]) (use A 4 sd(2) none in auto)
      then show ?thesis using IH(4) [OF _ _ _ _ _ asc one] True 4 by (simp add: step)
    qed
  qed
qed

text \<open>What the loop leaves behind, by the entries of the type at or below the address and those above it.\<close>

definition below :: "stab list \<Rightarrow> int set \<Rightarrow> u32 \<Rightarrow> int set" where
  "below xs M A = {i \<in> M. n_value (stab_at xs i) \<le> A}"

definition above :: "stab list \<Rightarrow> int set \<Rightarrow> u32 \<Rightarrow> int set" where
  "above xs M A = {i \<in> M. A < n_value (stab_at xs i)}"

lemma below_above: "M \<noteq> {} \<Longrightarrow> below xs M A = {} \<Longrightarrow> above xs M A \<noteq> {}"
  by (auto simp: below_def above_def not_le)

lemma search_end:
  assumes inv: "search_inv xs L R ty A l r a q" and lr: "r < l"
  defines "M \<equiv> matching xs L R ty"
  shows "s_any q \<longleftrightarrow> M \<noteq> {}" "s_left q = (if below xs M A = {} then L else Max (below xs M A))"
    "s_right q = (if above xs M A = {} then R else Min (above xs M A) - 1)"
    "\<And>i. s_left q < i \<Longrightarrow> i \<le> s_right q \<Longrightarrow> i \<notin> M"
proof -
  let ?v = "\<lambda>i. n_value (stab_at xs i)"
  note I = inv [unfolded search_inv_def Let_def, folded M_def]
  have fin: "finite (below xs M A)" "finite (above xs M A)" by (simp_all add: below_def above_def M_def)
  have split: "i < l \<or> r < i" for i using lr by linarith
  have sm: "i \<in> below xs M A \<longleftrightarrow> i \<in> M \<and> i < l" for i using I split [of i] by (auto simp: below_def not_le [symmetric])
  have bg: "i \<in> above xs M A \<longleftrightarrow> i \<in> M \<and> r < i" for i using I split [of i] by (auto simp: above_def not_le [symmetric])
  show "s_any q \<longleftrightarrow> M \<noteq> {}" using I lr by (meson equals0I le_less_trans less_irrefl less_le_trans)
  show "s_left q = (if below xs M A = {} then L else Max (below xs M A))"
  proof (cases "below xs M A = {}")
    case False
    then have "\<not> (\<forall>i \<in> M. l \<le> i)" using sm by (auto simp: not_le)
    then have "s_left q \<in> below xs M A" using I by (auto simp: below_def)
    moreover have "i \<le> s_left q" if "i \<in> below xs M A" for i using I that sm by auto
    ultimately show ?thesis using False fin Max_eqI [of "below xs M A" "s_left q"] by simp
  next
    case True
    then have "s_left q = L" using I by (auto simp: below_def)
    then show ?thesis using True by simp
  qed
  show "s_right q = (if above xs M A = {} then R else Min (above xs M A) - 1)"
  proof (cases "above xs M A = {}")
    case False
    then have "\<not> (\<forall>i \<in> M. i \<le> r)" using bg by (auto simp: not_le)
    then have "s_right q + 1 \<in> above xs M A" using I by (auto simp: above_def)
    moreover have "s_right q + 1 \<le> i" if "i \<in> above xs M A" for i using I that bg by auto
    ultimately show ?thesis using False fin Min_eqI [of "above xs M A" "s_right q + 1"] by simp
  next
    case True
    then have "s_right q = R" using I by (auto simp: above_def)
    then show ?thesis using True by simp
  qed
  show "i \<notin> M" if "s_left q < i" "i \<le> s_right q" for i using I that split [of i] by (meson not_le)
qed

lemma below_before:
  assumes "ascending xs M" "M \<subseteq> {..R}" "finite M" "below xs M A \<noteq> {}"
  shows "Max (below xs M A) \<le> (if above xs M A = {} then R else Min (above xs M A) - 1)"
proof -
  have fin: "finite (below xs M A)" "finite (above xs M A)" using assms(3) by (simp_all add: below_def above_def)
  have l: "Max (below xs M A) \<in> below xs M A" using fin assms(4) by simp
  show ?thesis
  proof (cases "above xs M A = {}")
    case True
    then show ?thesis using l assms(2) by (auto simp: below_def)
  next
    case False
    then have r: "Min (above xs M A) \<in> above xs M A" using fin by simp
    then have "Max (below xs M A) < Min (above xs M A)"
      using assms(1) l by (force simp: ascending_def below_def above_def not_le [symmetric])
    then show ?thesis using False by simp
  qed
qed

text \<open>C30: The search in the debugging table. If the entries of the type are ordered by address and no entry starts right
  behind an entry that starts at the address itself, the result brackets the address: \<open>region_left\<close> is the last entry of
  the type at or below it and \<open>region_right\<close> is just before the next entry of the type, or the end of the range. Without
  any entry of the type the right end is before the left one; when all lie above, the result is the range before the
  first.\<close>

theorem stab_binsearch_brackets:
  assumes "ascending xs (matching xs L R ty)" "one_stab xs (matching xs L R ty) A"
  defines "small \<equiv> {i \<in> matching xs L R ty. n_value (stab_at xs i) \<le> A}"
    and "big \<equiv> {i \<in> matching xs L R ty. A < n_value (stab_at xs i)}"
  shows "stab_binsearch xs L R ty A =
    (if matching xs L R ty = {} then (L, L - 1)
     else if small = {} then (min L (Min big - 1), Min big - 1)
     else (Max small, if big = {} then R else Min big - 1))"
proof -
  let ?M = "matching xs L R ty"
  define q where "q = search_loop xs ty L R A \<lparr>s_left = L, s_right = R, s_any = False\<rparr>"
  have "search_inv xs L R ty A L R A \<lparr>s_left = L, s_right = R, s_any = False\<rparr>"
    by (auto simp: search_inv_def matching_def Let_def)
  from search_loop_inv [OF this assms(1,2)] obtain l r a where lr: "r < l" and inv: "search_inv xs L R ty A l r a q"
    by (auto simp: q_def)
  note E = search_end [OF inv lr, unfolded below_def above_def, folded small_def big_def]
  have LR: "L \<le> s_left q" "s_right q \<le> R" using inv by (auto simp: search_inv_def Let_def matching_def)
  let ?k = "find_region xs ty (s_left q) (s_right q)"
  have k: "min (s_left q) (s_right q) \<le> ?k" "?k \<le> s_right q" "s_left q < ?k \<Longrightarrow> n_type (stab_at xs ?k) = ty"
    using find_region_spec [where xs = xs and ty = ty and left = "s_left q" and l = "s_right q"] by (auto simp: Let_def)
  have "\<not> s_left q < ?k" using E(4) [of ?k] k LR by (auto simp: matching_def)
  then have ke: "?k = min (s_left q) (s_right q)" using k(1,2) by linarith
  have "?M \<subseteq> {..R}" by (auto simp: matching_def)
  then have "s_left q \<le> s_right q" if "small \<noteq> {}"
    using below_before [OF assms(1), of R A, unfolded below_def above_def, folded small_def big_def] that E(2,3) by simp
  moreover have "big \<noteq> {}" if "?M \<noteq> {}" "small = {}"
    using below_above [OF that(1), of xs A] that(2) by (simp add: below_def above_def small_def big_def)
  moreover have "small = {}" if "?M = {}" using that by (simp add: small_def)
  ultimately show ?thesis using E(1-3) ke by (auto simp: stab_binsearch_def q_def [symmetric] Let_def)
qed

definition demo_stab :: "byte \<Rightarrow> u32 \<Rightarrow> stab" where
  "demo_stab ty v = \<lparr>n_strx = 0, n_type = ty, n_other = 0, n_desc = 0, n_value = v\<rparr>"

definition demo_stabs :: "stab list" where
  "demo_stabs = [demo_stab N_SO 0xf0100000, demo_stab N_FUN 0xf0100000, demo_stab N_SO 0xf0100040, demo_stab N_SLINE 4,
     demo_stab N_SO 0xf0100176]"

theorem stab_binsearch_brackets_witness: "stab_binsearch demo_stabs 0 4 N_SO 0xf0100041 = (2, 3)"
proof -
  have r: "{0..4 :: int} = {0, 1, 2, 3, 4}" by auto
  have M: "matching demo_stabs 0 4 N_SO = {0, 2, 4}"
    unfolding matching_def r by (auto simp: demo_stabs_def demo_stab_def N_SO_def N_FUN_def N_SLINE_def)
  have a: "ascending demo_stabs (matching demo_stabs 0 4 N_SO)" "one_stab demo_stabs (matching demo_stabs 0 4 N_SO) 0xf0100041"
    unfolding M ascending_def one_stab_def by (simp_all add: demo_stabs_def demo_stab_def)
  have "{i \<in> matching demo_stabs 0 4 N_SO. n_value (stab_at demo_stabs i) \<le> 0xf0100041} = {0, 2}"
    "{i \<in> matching demo_stabs 0 4 N_SO. 0xf0100041 < n_value (stab_at demo_stabs i)} = {4}"
    unfolding M by (auto simp: demo_stabs_def demo_stab_def)
  then show ?thesis using stab_binsearch_brackets [OF a] M by simp
qed

text \<open>The search adds one to the address after an exact match and goes on; when the next entry starts at that very
  address, one byte further, it is taken for a second match, and the entry returned is the one behind the address.\<close>

theorem stab_binsearch_adjacent:
  "stab_binsearch [demo_stab N_SLINE 10, demo_stab N_SLINE 11] 0 1 N_SLINE 10 = (1, 1)"
  by (simp add: stab_binsearch_def search_loop.simps seek_down.simps find_region.simps demo_stab_def)

end
