(* ===== verification/Umalloc.thy ===== *)
theory Umalloc
  imports Cmem Chain
begin

text \<open>
  umalloc.c, the allocator of the user programs. The heap is the map from addresses to the headers there; a header takes
  8 bytes, so that the pointer arithmetic of the code is in steps of 8. Each loop follows a circular list and is a
  partial function: not returning is the value \<open>None\<close>. The system call sbrk is the one of this repository
  (\<open>sys_sbrk\<close> of sysproc.c): it returns the old size of the process and adds its argument, and never fails; \<open>u_brk\<close> is
  the size of the process, \<open>u_base\<close> the address of the static header \<open>base\<close>.
\<close>

record header =
  h_ptr :: u32
  h_size :: u32

record umem =
  u_heap :: "u32 \<Rightarrow> header"
  u_freep :: u32
  u_base :: u32
  u_brk :: u32

definition set_ptr :: "u32 \<Rightarrow> u32 \<Rightarrow> umem \<Rightarrow> umem" where
  "set_ptr a v s = s\<lparr>u_heap := (u_heap s)(a := (u_heap s a)\<lparr>h_ptr := v\<rparr>)\<rparr>"

definition set_size :: "u32 \<Rightarrow> u32 \<Rightarrow> umem \<Rightarrow> umem" where
  "set_size a v s = s\<lparr>u_heap := (u_heap s)(a := (u_heap s a)\<lparr>h_size := v\<rparr>)\<rparr>"

text \<open>The loop of \<open>free\<close> that looks for the place of \<open>bp\<close>, from \<open>p\<close> on.\<close>

partial_function (option) find_slot :: "(u32 \<Rightarrow> header) \<Rightarrow> u32 \<Rightarrow> u32 \<Rightarrow> u32 option" where
  "find_slot h bp p =
     (if p < bp \<and> bp < h_ptr (h p) then Some p
      else if h_ptr (h p) \<le> p \<and> (p < bp \<or> bp < h_ptr (h p)) then Some p
      else find_slot h bp (h_ptr (h p)))"

definition free_right :: "u32 \<Rightarrow> u32 \<Rightarrow> umem \<Rightarrow> umem" where
  "free_right bp p s =
     (let h = u_heap s; n = h_ptr (h p) in
      if bp + 8 * h_size (h bp) = n
      then set_ptr bp (h_ptr (h n)) (set_size bp (h_size (h bp) + h_size (h n)) s)
      else set_ptr bp n s)"

definition free_left :: "u32 \<Rightarrow> u32 \<Rightarrow> umem \<Rightarrow> umem" where
  "free_left bp p s =
     (let h = u_heap s in
      if p + 8 * h_size (h p) = bp
      then set_ptr p (h_ptr (h bp)) (set_size p (h_size (h p) + h_size (h bp)) s)
      else set_ptr p bp s)"

definition u_free :: "u32 \<Rightarrow> umem \<Rightarrow> umem option" where
  "u_free ap s =
     (let bp = ap - 8 in
      case find_slot (u_heap s) bp (u_freep s) of
        None \<Rightarrow> None
      | Some p \<Rightarrow> Some ((free_left bp p (free_right bp p s))\<lparr>u_freep := p\<rparr>))"

definition u_sbrk :: "u32 \<Rightarrow> umem \<Rightarrow> u32 \<times> umem" where
  "u_sbrk n s = (u_brk s, s\<lparr>u_brk := u_brk s + n\<rparr>)"

definition morecore :: "u32 \<Rightarrow> umem \<Rightarrow> (u32 \<times> umem) option" where
  "morecore nu s =
     (let nu = (if nu < 4096 then 4096 else nu); (p, s) = u_sbrk (nu * 8) s in
      if p = -1 then Some (0, s)
      else map_option (\<lambda>s. (u_freep s, s)) (u_free (p + 8) (set_size p nu s)))"

definition malloc_take :: "u32 \<Rightarrow> u32 \<Rightarrow> u32 \<Rightarrow> umem \<Rightarrow> u32 \<times> umem" where
  "malloc_take nunits prevp p s =
     (let h = u_heap s; k = h_size (h p) - nunits;
          (p, s) = (if h_size (h p) = nunits then (p, set_ptr prevp (h_ptr (h p)) s)
                    else (p + 8 * k, set_size (p + 8 * k) nunits (set_size p k s))) in
      (p + 8, s\<lparr>u_freep := prevp\<rparr>))"

partial_function (option) malloc_loop :: "u32 \<Rightarrow> u32 \<Rightarrow> u32 \<Rightarrow> umem \<Rightarrow> (u32 \<times> umem) option" where
  "malloc_loop nunits prevp p s =
     (if nunits \<le> h_size (u_heap s p) then Some (malloc_take nunits prevp p s)
      else if p = u_freep s then
        (case morecore nunits s of
           None \<Rightarrow> None
         | Some r \<Rightarrow>
             if fst r = 0 then Some (0, snd r)
             else malloc_loop nunits (fst r) (h_ptr (u_heap (snd r) (fst r))) (snd r))
      else malloc_loop nunits p (h_ptr (u_heap s p)) s)"

definition malloc_units :: "u32 \<Rightarrow> u32" where
  "malloc_units nbytes = (nbytes + 8 - 1) div 8 + 1"

definition malloc_init :: "umem \<Rightarrow> umem" where
  "malloc_init s =
     (if u_freep s = 0 then (set_size (u_base s) 0 (set_ptr (u_base s) (u_base s) s))\<lparr>u_freep := u_base s\<rparr> else s)"

definition u_malloc :: "u32 \<Rightarrow> umem \<Rightarrow> (u32 \<times> umem) option" where
  "u_malloc nbytes s =
     (let s = malloc_init s in
      malloc_loop (malloc_units nbytes) (u_freep s) (h_ptr (u_heap s (u_freep s))) s)"

section \<open>The free list\<close>

definition nx :: "umem \<Rightarrow> u32 \<Rightarrow> u32" where
  "nx s a = h_ptr (u_heap s a)"

definition fend :: "umem \<Rightarrow> u32 \<Rightarrow> nat" where
  "fend s a = unat a + 8 * unat (h_size (u_heap s a))"

text \<open>The bytes of the block at \<open>a\<close>, and of all blocks of a list.\<close>

definition bytes :: "umem \<Rightarrow> u32 \<Rightarrow> nat set" where
  "bytes s a = {unat a..<fend s a}"

definition space :: "umem \<Rightarrow> u32 list \<Rightarrow> nat set" where
  "space s as = (\<Union>a \<in> set as. bytes s a)"

text \<open>The blocks are apart: there is a gap behind each.\<close>

definition apart :: "umem \<Rightarrow> u32 list \<Rightarrow> bool" where
  "apart s as \<longleftrightarrow> sorted_wrt (\<lambda>a b. fend s a < unat b) as"

definition free_list :: "umem \<Rightarrow> u32 list \<Rightarrow> bool" where
  "free_list s as \<longleftrightarrow> chain (nx s) (as @ [u_base s]) \<and> as \<noteq> [] \<and> hd as = u_base s \<and> h_size (u_heap s (u_base s)) = 0 \<and>
     u_base s \<noteq> 0 \<and> u_base s < u_brk s \<and> apart s as \<and> (\<forall>a \<in> set (tl as). h_size (u_heap s a) \<noteq> 0) \<and> (\<forall>a \<in> set as. fend s a \<le> unat (u_brk s)) \<and> u_freep s \<in> set as"

end
