(* ===== verification/Umalloc_Free.thy ===== *)
theory Umalloc_Free
  imports Umalloc
begin

text \<open>The allocator on its circular list: \<open>free\<close> and \<open>malloc\<close> return and keep the list, and the space of its blocks
  changes by exactly the block that is freed or handed out.\<close>

section \<open>Finding the place\<close>

lemma apart_simps [simp]:
  "apart s []" "apart s (x # xs) \<longleftrightarrow> (\<forall>y \<in> set xs. fend s x < unat y) \<and> apart s xs"
  by (simp_all add: apart_def)

lemma apart_append: "apart s (xs @ ys) \<longleftrightarrow> apart s xs \<and> apart s ys \<and> (\<forall>x \<in> set xs. \<forall>y \<in> set ys. fend s x < unat y)"
  by (simp add: apart_def sorted_wrt_append)

lemma space_simps [simp]: "space s [] = {}" "space s (x # xs) = bytes s x \<union> space s xs" "space s (xs @ ys) = space s xs \<union> space s ys"
  by (auto simp: space_def)

lemma fend_ge: "unat a \<le> fend s a"
  by (simp add: fend_def)

lemma apart_less: "apart s (xs @ x # ys) \<Longrightarrow> y \<in> set ys \<Longrightarrow> x < y"
  using fend_ge [of x s] by (auto simp: apart_append word_less_nat_alt)

lemma apart_distinct: "apart s as \<Longrightarrow> distinct as"
proof (induction as)
  case (Cons a as)
  then show ?case using fend_ge [of a s] by (auto dest: bspec)
qed simp

lemma next_mid: "chain (nx s) (as @ x # y # bs) \<Longrightarrow> h_ptr (u_heap s x) = y"
  using chain_mid [of "nx s" as x y bs] by (simp add: nx_def)

lemma find_slot_here:
  assumes "chain (nx s) (ps @ p # ns @ [b])" "p < bp" "\<forall>x \<in> set ns. bp < x" "b < bp" "b \<le> p"
  shows "find_slot (u_heap s) bp p = Some p"
proof (cases ns)
  case Nil
  then have "h_ptr (u_heap s p) = b" using assms(1) next_mid [of s ps p b "[]"] by simp
  then show ?thesis using assms by (subst find_slot.simps) simp
next
  case (Cons x xs)
  then have "h_ptr (u_heap s p) = x" using assms(1) next_mid [of s ps p x "xs @ [b]"] by simp
  then show ?thesis using assms Cons by (subst find_slot.simps) simp
qed

text \<open>From a block before the place, and from one behind it.\<close>

lemma find_slot_before:
  assumes "chain (nx s) (ps @ q # qs @ p # ns @ [b])" "apart s (ps @ q # qs @ p # ns)" "p < bp" "\<forall>x \<in> set ns. bp < x" "b < bp" "b \<le> p"
  shows "find_slot (u_heap s) bp q = Some p"
  using assms(1,2)
proof (induction qs arbitrary: ps q)
  case Nil
  then have n: "h_ptr (u_heap s q) = p" using next_mid [of s ps q p "ns @ [b]"] by simp
  have "q < p" using apart_less [of s ps q "p # ns" p] Nil(2) by simp
  then have "find_slot (u_heap s) bp q = find_slot (u_heap s) bp p"
    using n assms(3) by (subst find_slot.simps) (auto simp: not_le)
  then show ?case using find_slot_here [of s "ps @ [q]" p ns b bp] Nil assms(3-6) by simp
next
  case (Cons x qs)
  then have n: "h_ptr (u_heap s q) = x" using next_mid [of s ps q x "qs @ p # ns @ [b]"] by simp
  have "q < x" using apart_less [of s ps q "x # qs @ p # ns" x] Cons(3) by simp
  moreover have "x < p" using apart_less [of s "ps @ [q]" x "qs @ p # ns" p] Cons(3) by simp
  ultimately have "find_slot (u_heap s) bp q = find_slot (u_heap s) bp x"
    using n assms(3) by (subst find_slot.simps) (auto simp: not_le)
  then show ?case using Cons.IH [of "ps @ [q]" x] Cons.prems by simp
qed

lemma find_slot_from:
  assumes c: "chain (nx s) (ps @ p # ns @ [b])" and a: "apart s (ps @ p # ns)" and b: "hd (ps @ [p]) = b"
    and bp: "p < bp" "\<forall>x \<in> set ns. bp < x" and q: "q \<in> set (ps @ p # ns)"
  shows "find_slot (u_heap s) bp q = Some p"
proof -
  have bl: "b \<le> p" using b a apart_less [of s "[]" b "tl ps @ p # ns" p] by (cases ps) auto
  then have bb: "b < bp" using bp(1) by simp
  consider "q \<in> set ps" | "q = p" | "q \<in> set ns" using q by auto
  then show ?thesis
  proof cases
    case 1
    then obtain p1 p2 where "ps = p1 @ q # p2" by (auto simp: in_set_conv_decomp)
    then show ?thesis using find_slot_before [of s p1 q p2 p ns b bp] c a bp bb bl by simp
  next
    case 2
    then show ?thesis using find_slot_here [OF c bp bb bl] by simp
  next
    case 3
    have base: "find_slot (u_heap s) bp b = Some p"
    proof (cases ps)
      case Nil
      then show ?thesis using find_slot_here [OF c bp bb bl] b by simp
    next
      case (Cons x xs)
      then show ?thesis using find_slot_before [of s "[]" b xs p ns b bp] c a bp bb bl b by simp
    qed
    obtain n1 n2 where n: "ns = n1 @ q # n2" using 3 by (auto simp: in_set_conv_decomp)
    have "chain (nx s) ((ps @ p # n1) @ q # n2 @ [b])" "apart s ((ps @ p # n1) @ q # n2)" using c a n by simp_all
    then show ?thesis
      using bp(2) unfolding n
    proof (induction n2 arbitrary: n1 q)
      case Nil
      then have nq: "h_ptr (u_heap s q) = b" using next_mid [of s "ps @ p # n1" q b "[]"] by simp
      have "bp < q" using Nil(3) by simp
      then have "\<not> q < bp" "\<not> bp < b" "b \<le> q" using bb by (simp_all add: less_imp_le not_less)
      then have "find_slot (u_heap s) bp q = find_slot (u_heap s) bp b" using nq by (subst find_slot.simps) simp
      then show ?case using base by simp
    next
      case (Cons x n2)
      then have nq: "h_ptr (u_heap s q) = x" using next_mid [of s "ps @ p # n1" q x "n2 @ [b]"] by simp
      have "bp < q" "q < x" using Cons(4) apart_less [of s "ps @ p # n1" q "x # n2" x] Cons(3) by simp_all
      then have "\<not> q < bp" "\<not> x \<le> q" by (simp_all add: less_imp_le not_less)
      then have "find_slot (u_heap s) bp q = find_slot (u_heap s) bp x" using nq by (subst find_slot.simps) simp
      then show ?case using Cons.IH [of "n1 @ [q]" x] Cons.prems by simp
    qed
  qed
qed

section \<open>free\<close>

text \<open>One header changes.\<close>

definition put_header :: "u32 \<Rightarrow> header \<Rightarrow> umem \<Rightarrow> umem" where
  "put_header a x s = s\<lparr>u_heap := (u_heap s)(a := x)\<rparr>"

lemma put_header_simps [simp]:
  "u_heap (put_header a x s) = (u_heap s)(a := x)" "u_freep (put_header a x s) = u_freep s" "u_base (put_header a x s) = u_base s"
  "u_brk (put_header a x s) = u_brk s"
  by (simp_all add: put_header_def)

lemma set_header: "set_ptr a n (set_size a z s) = put_header a \<lparr>h_ptr = n, h_size = z\<rparr> s"
  "set_ptr a n s = put_header a \<lparr>h_ptr = n, h_size = h_size (u_heap s a)\<rparr> s"
  "set_size a z s = put_header a \<lparr>h_ptr = h_ptr (u_heap s a), h_size = z\<rparr> s"
  by (cases "u_heap s a"; simp add: set_ptr_def set_size_def put_header_def)+

lemma put_other:
  "b \<noteq> a \<Longrightarrow> nx (put_header a x s) b = nx s b" "b \<noteq> a \<Longrightarrow> fend (put_header a x s) b = fend s b"
  "b \<noteq> a \<Longrightarrow> bytes (put_header a x s) b = bytes s b"
  by (simp_all add: nx_def fend_def bytes_def)

lemma put_lists:
  assumes "a \<notin> set as"
  shows "apart (put_header a x s) as = apart s as" "space (put_header a x s) as = space s as"
    "chain (nx (put_header a x s)) (as @ [b]) = chain (nx s) (as @ [b])"
proof -
  show "apart (put_header a x s) as = apart s as" using assms by (induction as) (auto simp: put_other)
  show "space (put_header a x s) as = space s as" using assms by (induction as) (auto simp: put_other)
  show "chain (nx (put_header a x s)) (as @ [b]) = chain (nx s) (as @ [b])"
  proof (rule chain_cong)
    fix y assume "y \<in> set (butlast (as @ [b]))"
    then have "y \<noteq> a" using assms by auto
    then show "nx (put_header a x s) y = nx s y" by (rule put_other)
  qed
qed

lemma fend_word: "fend s a < 2 ^ 32 \<Longrightarrow> unat (a + 8 * h_size (u_heap s a)) = fend s a"
proof -
  assume l: "fend s a < 2 ^ 32"
  then have "unat (8 :: u32) * unat (h_size (u_heap s a)) < 2 ^ LENGTH(32)" by (simp add: fend_def)
  then have "unat (8 * h_size (u_heap s a)) = 8 * unat (h_size (u_heap s a))" by (subst unat_mult_lem [THEN iffD1]) simp_all
  then show ?thesis using l unat_plus_nowrap [of a "unat (8 * h_size (u_heap s a))"] by (simp add: fend_def)
qed

lemma fend_add:
  assumes "fend s a = unat b" "fend s b < 2 ^ 32"
  shows "fend (put_header a \<lparr>h_ptr = n, h_size = h_size (u_heap s a) + h_size (u_heap s b)\<rparr> s) a = fend s b"
    "h_size (u_heap s a) \<le> h_size (u_heap s a) + h_size (u_heap s b)" "h_size (u_heap s b) \<le> h_size (u_heap s a) + h_size (u_heap s b)"
proof -
  let ?x = "h_size (u_heap s a)" and ?y = "h_size (u_heap s b)"
  have "unat ?x + unat ?y < 2 ^ 32" using assms by (simp add: fend_def)
  then have "unat (?x + ?y) = unat ?x + unat ?y" using unat_plus_nowrap [of ?x "unat ?y"] by simp
  then show "fend (put_header a \<lparr>h_ptr = n, h_size = ?x + ?y\<rparr> s) a = fend s b" "?x \<le> ?x + ?y" "?y \<le> ?x + ?y"
    using assms(1) by (simp_all add: fend_def word_le_nat_alt)
qed

lemma chain_hd_Cons: "xs \<noteq> [] \<Longrightarrow> chain f (x # xs) \<longleftrightarrow> f x = hd xs \<and> chain f xs"
  by (cases xs) simp_all

text \<open>A block \<open>a\<close> in front of the blocks \<open>ns\<close>: linked to them, or merged with the first when it touches it.\<close>

lemma link_block:
  assumes c: "chain (nx s) (ns @ [b])" and a: "apart s ns" "a \<notin> set ns" and n: "n = hd (ns @ [b])"
    and f: "\<forall>x \<in> set ns. fend s a \<le> unat x" "b < a \<or> ns \<noteq> []" "fend s a \<le> M" "\<forall>x \<in> set ns. fend s x \<le> M" "M < 2 ^ 32"
  defines "t \<equiv> (if a + 8 * h_size (u_heap s a) = n
      then put_header a \<lparr>h_ptr = nx s n, h_size = h_size (u_heap s a) + h_size (u_heap s n)\<rparr> s
      else put_header a \<lparr>h_ptr = n, h_size = h_size (u_heap s a)\<rparr> s)"
  shows "\<exists>ns'. set ns' \<subseteq> set ns \<and> chain (nx t) (a # ns' @ [b]) \<and> apart t (a # ns') \<and>
    space t (a # ns') = bytes s a \<union> space s ns \<and> fend t a \<le> M \<and> h_size (u_heap s a) \<le> h_size (u_heap t a) \<and>
    (\<forall>x \<in> set (a # ns). \<exists>y \<in> set (a # ns'). h_size (u_heap s x) \<le> h_size (u_heap t y))"
proof (cases "a + 8 * h_size (u_heap s a) = n")
  case True
  have fa: "fend s a = unat n" using fend_word [of s a] f(3,5) True by simp
  have "ns \<noteq> []"
  proof
    assume e: "ns = []"
    then have "unat b < fend s a" using f(2) fend_ge [of a s] by (simp add: word_less_nat_alt)
    then show False using fa n e by simp
  qed
  then obtain xs where ns: "ns = n # xs" using n by (cases ns) auto
  let ?t = "put_header a \<lparr>h_ptr = nx s n, h_size = h_size (u_heap s a) + h_size (u_heap s n)\<rparr> s"
  have t: "t = ?t" unfolding t_def by (rule if_P [OF True])
  have fn: "fend s n < 2 ^ 32" using f(4,5) ns by auto
  note e = fend_add(1) [OF fa fn, of "nx s n"] fend_add(2,3) [OF fa fn]
  have b: "bytes ?t a = bytes s a \<union> bytes s n"
    unfolding bytes_def e(1) using fa fend_ge [of a s] fend_ge [of n s] by auto
  have cn: "nx s n = hd (xs @ [b])" "chain (nx s) (xs @ [b])" using c chain_hd_Cons [of "xs @ [b]" "nx s" n] by (simp_all add: ns)
  have ax: "a \<notin> set xs" using a(2) ns by simp
  show ?thesis
    unfolding t
  proof (intro exI [of _ xs] conjI)
    show "chain (nx ?t) (a # xs @ [b])"
      using chain_hd_Cons [of "xs @ [b]" "nx ?t" a] put_lists(3) [OF ax] cn by (simp add: nx_def)
    have "fend s n < unat y" if "y \<in> set xs" for y using a(1) that by (simp add: ns)
    then show "apart ?t (a # xs)" using put_lists(1) [OF ax] a(1) e(1) by (simp add: ns)
    show "space ?t (a # xs) = bytes s a \<union> space s ns" using put_lists(2) [OF ax] b by (auto simp: ns)
    show "fend ?t a \<le> M" using e(1) f(4) ns by simp
    show "h_size (u_heap s a) \<le> h_size (u_heap ?t a)" using e(2) by simp
    show "\<forall>x \<in> set (a # ns). \<exists>y \<in> set (a # xs). h_size (u_heap s x) \<le> h_size (u_heap ?t y)"
      using e(2,3) by (auto simp: ns)
  qed (use ns in auto)
next
  case False
  let ?t = "put_header a \<lparr>h_ptr = n, h_size = h_size (u_heap s a)\<rparr> s"
  have t: "t = ?t" unfolding t_def by (rule if_not_P [OF False])
  have fe: "fend ?t a = fend s a" "bytes ?t a = bytes s a" "nx ?t a = n" by (simp_all add: fend_def bytes_def nx_def)
  have ne: "fend s a \<noteq> unat n" using False fend_word [of s a] f(3,5) by (auto simp: word_unat_eq_iff)
  have gap: "fend s a < unat x" if "x \<in> set ns" for x
  proof (cases ns)
    case (Cons y ys)
    then have "fend s a < unat y" using f(1) ne n by (simp add: le_less)
    moreover have "unat y \<le> unat x"
      using that a(1) Cons fend_ge [of y s] by (auto dest: less_imp_le order.trans)
    ultimately show ?thesis by simp
  qed (use that in simp)
  show ?thesis
    unfolding t
  proof (intro exI [of _ ns] conjI)
    show "chain (nx ?t) (a # ns @ [b])"
      using chain_hd_Cons [of "ns @ [b]" "nx ?t" a] put_lists(3) [OF a(2)] c fe(3) n by simp
    show "apart ?t (a # ns)" using put_lists(1) [OF a(2)] a(1) gap fe(1) by simp
    show "space ?t (a # ns) = bytes s a \<union> space s ns" using put_lists(2) [OF a(2)] fe(2) by simp
    show "\<forall>x \<in> set (a # ns). \<exists>y \<in> set (a # ns). h_size (u_heap s x) \<le> h_size (u_heap ?t y)" by (intro ballI bexI) auto
  qed (use fe f in simp_all)
qed

lemma free_steps:
  "free_right a p s = (let n = nx s p in if a + 8 * h_size (u_heap s a) = n
     then put_header a \<lparr>h_ptr = nx s n, h_size = h_size (u_heap s a) + h_size (u_heap s n)\<rparr> s
     else put_header a \<lparr>h_ptr = n, h_size = h_size (u_heap s a)\<rparr> s)"
  "free_left a p s = (if p + 8 * h_size (u_heap s p) = a
     then put_header p \<lparr>h_ptr = nx s a, h_size = h_size (u_heap s p) + h_size (u_heap s a)\<rparr> s
     else put_header p \<lparr>h_ptr = a, h_size = h_size (u_heap s p)\<rparr> s)"
  by (simp_all add: free_right_def free_left_def nx_def set_header Let_def)

lemma free_put: "\<exists>x. free_right a p s = put_header a x s" "\<exists>x. free_left a p s = put_header p x s"
  by (auto simp: free_steps Let_def)

text \<open>A block that can be freed: behind \<open>base\<close>, in the memory of the process, apart from the free blocks.\<close>

definition freeable :: "umem \<Rightarrow> u32 list \<Rightarrow> u32 \<Rightarrow> bool" where
  "freeable s as bp \<longleftrightarrow> u_base s < bp \<and> h_size (u_heap s bp) \<noteq> 0 \<and> fend s bp \<le> unat (u_brk s) \<and> bytes s bp \<inter> space s as = {}"

lemma bytes_self: "h_size (u_heap s a) \<noteq> 0 \<Longrightarrow> unat a \<in> bytes s a"
  by (simp add: bytes_def fend_def unat_gt_0)

lemma free_place:
  assumes l: "free_list s as" and f: "freeable s as bp"
  obtains ps p ns where "as = ps @ p # ns" "p < bp" "\<forall>x \<in> set (ps @ [p]). fend s x \<le> unat bp" "\<forall>x \<in> set ns. fend s bp \<le> unat x \<and> bp < x"
    "bp \<notin> set as" "hd (ps @ [p]) = u_base s"
proof -
  let ?ts = "takeWhile (\<lambda>a. a < bp) as" and ?ns = "dropWhile (\<lambda>a. a < bp) as"
  obtain xs where as: "as = u_base s # xs" using l by (cases as) (auto simp: free_list_def)
  have "?ts \<noteq> []" using f by (simp add: as freeable_def)
  then obtain ps p where ts: "?ts = ps @ [p]" by (metis rev_exhaust)
  have e: "as = ps @ p # ?ns" using takeWhile_dropWhile_id [of "\<lambda>a. a < bp" as] by (simp add: ts)
  have lt: "x < bp" if "x \<in> set (ps @ [p])" for x using that set_takeWhileD [of x "\<lambda>a. a < bp" as] by (simp add: ts)
  have pos: "h_size (u_heap s x) \<noteq> 0" if "x \<in> set as" "x \<noteq> u_base s" for x using l that by (simp add: free_list_def as)
  have disj: "bytes s bp \<inter> bytes s x = {}" if "x \<in> set as" for x using f that by (auto simp: freeable_def space_def)
  have bpb: "unat bp \<in> bytes s bp" using f bytes_self by (simp add: freeable_def)
  have nb: "bp \<notin> set as"
  proof
    assume "bp \<in> set as"
    from disj [OF this] show False using bpb by blast
  qed
  have ap: "apart s as" using l by (simp add: free_list_def)
  show thesis
  proof (rule that [OF e])
    show "p < bp" using lt by simp
    show "\<forall>x \<in> set (ps @ [p]). fend s x \<le> unat bp"
    proof
      fix x assume x: "x \<in> set (ps @ [p])"
      then have "x \<in> set as" using e by (metis in_set_conv_decomp append_assoc append_Cons append_Nil Un_iff set_append)
      from disj [OF this] have "unat bp \<notin> bytes s x" using bpb by blast
      then show "fend s x \<le> unat bp" using lt [OF x] by (auto simp: bytes_def word_less_nat_alt)
    qed
    show "\<forall>x \<in> set ?ns. fend s bp \<le> unat x \<and> bp < x"
    proof
      fix x assume x: "x \<in> set ?ns"
      then have xs: "x \<in> set as" by (rule set_dropWhileD)
      obtain y ys where n: "?ns = y # ys" using x by (cases ?ns) auto
      then have "\<not> y < bp" using hd_dropWhile [of "\<lambda>a. a < bp" as] by (metis list.distinct(1) list.sel(1))
      moreover have "y \<le> x"
        using x n apart_less [of s "ps @ [p]" y ys x] ap e by (auto simp: less_imp_le)
      ultimately have bx: "bp < x" using nb xs by (metis antisym_conv3 le_less_trans not_less_iff_gr_or_eq)
      then have "x \<noteq> u_base s" using f by (auto simp: freeable_def)
      then have "unat x \<in> bytes s x" using bytes_self pos [OF xs] by simp
      then have "unat x \<notin> bytes s bp" using disj [OF xs] by blast
      then show "fend s bp \<le> unat x \<and> bp < x" using bx by (auto simp: bytes_def word_less_nat_alt)
    qed
    show "bp \<notin> set as" by (rule nb)
    show "hd (ps @ [p]) = u_base s" using e as by (cases ps) auto
  qed
qed

text \<open>Linking the block to what is behind it, and what is before it to the result: the list from \<open>p\<close> on.\<close>

lemma free_links:
  assumes l: "free_list s as" and f: "freeable s as bp" and as: "as = ps @ p # ns" and pb: "p < bp" "bp \<notin> set as"
    and le: "\<forall>x \<in> set (ps @ [p]). fend s x \<le> unat bp" and gt: "\<forall>x \<in> set ns. fend s bp \<le> unat x \<and> bp < x"
  defines "t \<equiv> free_left bp p (free_right bp p s)" and "b \<equiv> u_base s" and "M \<equiv> unat (u_brk s)"
  shows "\<exists>ns'. set ns' \<subseteq> insert bp (set ns) \<and> chain (nx t) (p # ns' @ [b]) \<and> apart t (p # ns') \<and>
    space t (p # ns') = bytes s p \<union> bytes s bp \<union> space s ns \<and> (\<forall>x \<in> set (p # ns'). fend t x \<le> M) \<and>
    h_size (u_heap s p) \<le> h_size (u_heap t p) \<and> h_size (u_heap s bp) \<le> h_size (u_heap t bp) \<and>
    (\<exists>y \<in> set (p # ns'). h_size (u_heap s bp) \<le> h_size (u_heap t y)) \<and>
    (h_size (u_heap s p) = 0 \<longrightarrow> h_size (u_heap t p) = 0) \<and> (\<exists>x y. t = put_header p x (put_header bp y s))"
proof -
  have c: "chain (nx s) (ps @ p # ns @ [b])" using l unfolding free_list_def as b_def by simp
  have ap: "apart s as" and fe: "\<forall>a \<in> set as. fend s a \<le> M" using l unfolding free_list_def M_def by blast+
  have M: "M < 2 ^ 32" unfolding M_def by (rule unat32_less)
  have "chain (nx s) (p # ns @ [b])" using c chain_append [of "nx s" ps p "ns @ [b]"] by blast
  then have cn: "nx s p = hd (ns @ [b])" "chain (nx s) (ns @ [b])" using chain_hd_Cons [of "ns @ [b]"] by simp_all
  let ?s1 = "free_right bp p s"
  have apn: "apart s ns" using ap by (simp add: as apart_append)
  have nbn: "bp \<notin> set ns" using pb(2) as by simp
  have gt1: "\<forall>x \<in> set ns. fend s bp \<le> unat x" and bb: "b < bp \<or> ns \<noteq> []" and fbp: "fend s bp \<le> M" and
    fen: "\<forall>x \<in> set ns. fend s x \<le> M"
    using gt f fe unfolding as freeable_def b_def M_def by auto
  have "\<exists>ns1. set ns1 \<subseteq> set ns \<and> chain (nx ?s1) (bp # ns1 @ [b]) \<and> apart ?s1 (bp # ns1) \<and>
    space ?s1 (bp # ns1) = bytes s bp \<union> space s ns \<and> fend ?s1 bp \<le> M \<and> h_size (u_heap s bp) \<le> h_size (u_heap ?s1 bp) \<and>
    (\<forall>x \<in> set (bp # ns). \<exists>y \<in> set (bp # ns1). h_size (u_heap s x) \<le> h_size (u_heap ?s1 y))"
    unfolding free_steps(1) Let_def
    by (rule link_block [OF cn(2) apn nbn cn(1) gt1 bb fbp fen M])
  then obtain ns1 where n1: "set ns1 \<subseteq> set ns" "chain (nx ?s1) (bp # ns1 @ [b])" "apart ?s1 (bp # ns1)"
    "space ?s1 (bp # ns1) = bytes s bp \<union> space s ns" "fend ?s1 bp \<le> M" "h_size (u_heap s bp) \<le> h_size (u_heap ?s1 bp)"
    by blast
  obtain x1 where s1: "?s1 = put_header bp x1 s" using free_put(1) by blast
  have p1: "p \<noteq> bp" "fend ?s1 p = fend s p" "bytes ?s1 p = bytes s p" "u_heap ?s1 p = u_heap s p"
    using pb(1) put_other [of p bp] by (simp_all add: s1)
  have c2: "chain (nx ?s1) ((bp # ns1) @ [b])" "bp = hd ((bp # ns1) @ [b])" "b < p \<or> bp # ns1 \<noteq> []" using n1(2) by simp_all
  have pn: "p \<notin> set (bp # ns1)" using p1(1) n1(1) apart_distinct [OF ap] as by auto
  have pg: "\<forall>x \<in> set (bp # ns1). fend ?s1 p \<le> unat x"
    unfolding p1(2) using le ap n1(1) by (auto simp: as apart_append less_imp_le)
  have pM: "fend ?s1 p \<le> M" using fe as p1(2) by simp
  have "fend ?s1 x \<le> M" if "x \<in> set ns1" for x
  proof -
    have "x \<in> set ns" "x \<noteq> bp" using that n1(1) nbn by blast+
    then show ?thesis using put_other(2) [of x bp] fen by (simp add: s1)
  qed
  then have nM: "\<forall>x \<in> set (bp # ns1). fend ?s1 x \<le> M" using n1(5) by simp
  have "\<exists>ns2. set ns2 \<subseteq> set (bp # ns1) \<and> chain (nx t) (p # ns2 @ [b]) \<and> apart t (p # ns2) \<and>
    space t (p # ns2) = bytes ?s1 p \<union> space ?s1 (bp # ns1) \<and> fend t p \<le> M \<and> h_size (u_heap ?s1 p) \<le> h_size (u_heap t p) \<and>
    (\<forall>x \<in> set (p # bp # ns1). \<exists>y \<in> set (p # ns2). h_size (u_heap ?s1 x) \<le> h_size (u_heap t y))"
    unfolding t_def free_steps(2) by (rule link_block [OF c2(1) n1(3) pn c2(2) pg c2(3) pM nM M])
  then obtain ns2 where n2: "set ns2 \<subseteq> set (bp # ns1)" "chain (nx t) (p # ns2 @ [b])" "apart t (p # ns2)"
    "space t (p # ns2) = bytes ?s1 p \<union> space ?s1 (bp # ns1)" "fend t p \<le> M" "h_size (u_heap ?s1 p) \<le> h_size (u_heap t p)"
    "\<exists>y \<in> set (p # ns2). h_size (u_heap ?s1 bp) \<le> h_size (u_heap t y)"
    by auto
  obtain x2 where t: "t = put_header p x2 ?s1" using free_put(2) unfolding t_def by blast
  show ?thesis
  proof (intro exI [of _ ns2] conjI ballI impI)
    show "set ns2 \<subseteq> insert bp (set ns)" using n2(1) n1(1) by auto
    show "space t (p # ns2) = bytes s p \<union> bytes s bp \<union> space s ns" unfolding n2(4) n1(4) p1(3) by blast
    show "fend t x \<le> M" if "x \<in> set (p # ns2)" for x
    proof (cases "x = p")
      case False
      then have "x \<in> set (bp # ns1)" "fend t x = fend ?s1 x" using that n2(1) put_other(2) [OF False] by (auto simp: t)
      then show ?thesis using nM by auto
    qed (use n2(5) in simp)
    show "h_size (u_heap s bp) \<le> h_size (u_heap t bp)" using n1(6) p1(1) by (simp add: t)
    show "\<exists>y \<in> set (p # ns2). h_size (u_heap s bp) \<le> h_size (u_heap t y)" using n2(7) n1(6) order.trans by blast
    show "h_size (u_heap t p) = 0" if "h_size (u_heap s p) = 0"
      unfolding t_def free_steps(2) using that p1(1,4) by simp
    show "\<exists>x y. t = put_header p x (put_header bp y s)" using t s1 by metis
    show "h_size (u_heap s p) \<le> h_size (u_heap t p)" using n2(6) p1(4) by simp
  qed (use n2 in simp_all)
qed

text \<open>The whole list after the change.\<close>

lemma rebuilt_list:
  assumes l: "free_list s as" and f: "freeable s as bp" and as: "as = ps @ p # ns" and pb: "p < bp" "bp \<notin> set as"
    and hb: "hd (ps @ [p]) = u_base s"
    and w: "w = put_header p x2 (put_header bp x1 s)"
    and n: "set ns' \<subseteq> insert bp (set ns)" "chain (nx w) (p # ns' @ [u_base s])" "apart w (p # ns')"
    and fe: "\<forall>x \<in> set (p # ns'). fend w x \<le> unat (u_brk s)"
    and sz: "h_size (u_heap s p) \<le> h_size (u_heap w p)" "h_size (u_heap s bp) \<le> h_size (u_heap w bp)"
      "h_size (u_heap s p) = 0 \<longrightarrow> h_size (u_heap w p) = 0"
  shows "free_list (w\<lparr>u_freep := p\<rparr>) (ps @ p # ns')" "space w (ps @ p # ns') = space s ps \<union> space w (p # ns')"
proof -
  let ?b = "u_base s" and ?u = "w\<lparr>u_freep := p\<rparr>"
  have ap: "apart s as" and z: "h_size (u_heap s ?b) = 0" and fs: "\<forall>a \<in> set as. fend s a \<le> unat (u_brk s)"
    and pos: "\<forall>a \<in> set (tl as). h_size (u_heap s a) \<noteq> 0" and cs: "chain (nx s) (ps @ [p])"
    using l chain_append [of "nx s" ps p "ns @ [?b]"] unfolding free_list_def by (simp_all add: as)
  have pps: "p \<notin> set ps" "bp \<notin> set ps" "p \<noteq> bp" using apart_distinct [OF ap] pb as by auto
  have old: "u_heap w x = u_heap s x" if "x \<noteq> p" "x \<noteq> bp" for x using that by (simp add: w)
  have fps: "fend w x = fend s x" if "x \<in> set ps" for x
  proof -
    have "x \<noteq> p" "x \<noteq> bp" using that pps by auto
    then show ?thesis using old by (simp add: fend_def)
  qed
  have lps: "apart w ps = apart s ps" "space w ps = space s ps" "chain (nx w) (ps @ [p])"
    using put_lists [OF pps(1), of x2 "put_header bp x1 s"] put_lists [OF pps(2), of x1 s] cs by (simp_all add: w)
  then show "space w (ps @ p # ns') = space s ps \<union> space w (p # ns')" by simp
  have tf: "nx ?u = nx w" "apart ?u = apart w" "fend ?u = fend w" "u_heap ?u = u_heap w" "u_freep ?u = p"
    "u_brk ?u = u_brk s" "u_base ?u = ?b"
    by (simp_all add: fun_eq_iff nx_def apart_def fend_def) (simp_all add: w)
  show "free_list ?u (ps @ p # ns')"
    unfolding free_list_def tf
  proof (intro conjI ballI)
    show "chain (nx w) ((ps @ p # ns') @ [?b])" using lps(3) n(2) chain_append [of "nx w" ps p "ns' @ [?b]"] by simp
    show "hd (ps @ p # ns') = ?b" using hb by (cases ps) simp_all
    show "?b \<noteq> 0" "?b < u_brk s" using l by (simp_all add: free_list_def)
    have "fend s x < unat y" if "x \<in> set ps" "y \<in> set (p # ns')" for x y
    proof -
      have "fend s x < unat p" "\<forall>y \<in> set ns. fend s x < unat y" using ap that(1) by (simp_all add: as apart_append)
      then show ?thesis using that(2) n(1) pb(1) by (auto simp: word_less_nat_alt)
    qed
    then show "apart w (ps @ p # ns')" using lps(1) n(3) fps ap by (simp add: as apart_append)
    show "fend w x \<le> unat (u_brk s)" if "x \<in> set (ps @ p # ns')" for x using that fe fps fs as by auto
    have "?b \<noteq> bp" using f by (auto simp: freeable_def)
    then show "h_size (u_heap w ?b) = 0" using sz(3) z old by (cases "p = ?b") simp_all
    fix x assume x: "x \<in> set (tl (ps @ p # ns'))"
    have bpz: "h_size (u_heap s bp) \<noteq> 0" using f by (simp add: freeable_def)
    have tl: "set (tl as) = set (tl ps) \<union> (if ps = [] then {} else {p}) \<union> set ns" by (cases ps) (auto simp: as)
    have "x \<in> set (tl as) \<or> x = bp" using x n(1) n(3) tl by (cases ps) auto
    then have "h_size (u_heap s x) \<noteq> 0" using pos bpz by blast
    then show "h_size (u_heap w x) \<noteq> 0" using old sz(1,2) by (cases "x = p"; cases "x = bp") auto
  qed simp_all
qed

lemma u_free_law:
  assumes l: "free_list s as" and f: "freeable s as bp"
  shows "\<exists>t as'. u_free (bp + 8) s = Some t \<and> free_list t as' \<and> space t as' = space s as \<union> bytes s bp \<and>
    u_brk t = u_brk s \<and> u_base t = u_base s \<and>
    (\<exists>x \<in> set as'. h_size (u_heap s bp) \<le> h_size (u_heap t x)) \<and> (\<forall>x. x \<notin> insert bp (set as) \<longrightarrow> u_heap t x = u_heap s x)"
proof -
  obtain ps p ns where as: "as = ps @ p # ns" and pb: "p < bp" "bp \<notin> set as" and le: "\<forall>x \<in> set (ps @ [p]). fend s x \<le> unat bp"
    and gt: "\<forall>x \<in> set ns. fend s bp \<le> unat x \<and> bp < x" and hb: "hd (ps @ [p]) = u_base s"
    using free_place [OF l f] by metis
  have c: "chain (nx s) (ps @ p # ns @ [u_base s])" "apart s (ps @ p # ns)" "u_freep s \<in> set (ps @ p # ns)"
    using l unfolding free_list_def as by simp_all
  have slot: "find_slot (u_heap s) bp (u_freep s) = Some p"
    by (rule find_slot_from [OF c(1,2) hb pb(1) _ c(3)]) (use gt in blast)
  let ?w = "free_left bp p (free_right bp p s)"
  obtain ns' x1 x2 where n: "set ns' \<subseteq> insert bp (set ns)" "chain (nx ?w) (p # ns' @ [u_base s])" "apart ?w (p # ns')"
    "space ?w (p # ns') = bytes s p \<union> bytes s bp \<union> space s ns" "\<forall>x \<in> set (p # ns'). fend ?w x \<le> unat (u_brk s)"
    "h_size (u_heap s p) \<le> h_size (u_heap ?w p)" "h_size (u_heap s bp) \<le> h_size (u_heap ?w bp)"
    "\<exists>y \<in> set (p # ns'). h_size (u_heap s bp) \<le> h_size (u_heap ?w y)" "h_size (u_heap s p) = 0 \<longrightarrow> h_size (u_heap ?w p) = 0"
    and w: "?w = put_header p x2 (put_header bp x1 s)"
    using free_links [OF l f as pb le gt] by metis
  note r = rebuilt_list [OF l f as pb hb w n(1-3,5-7,9)]
  have "space (?w\<lparr>u_freep := p\<rparr>) (ps @ p # ns') = space ?w (ps @ p # ns')" by (simp add: space_def bytes_def fend_def)
  then have "space (?w\<lparr>u_freep := p\<rparr>) (ps @ p # ns') = space s as \<union> bytes s bp" using r(2) n(4) as by auto
  moreover have "\<exists>x \<in> set (ps @ p # ns'). h_size (u_heap s bp) \<le> h_size (u_heap (?w\<lparr>u_freep := p\<rparr>) x)" using n(8) by auto
  moreover have "u_free (bp + 8) s = Some (?w\<lparr>u_freep := p\<rparr>)" by (simp add: u_free_def slot)
  moreover have "u_heap (?w\<lparr>u_freep := p\<rparr>) x = u_heap s x" if "x \<notin> insert bp (set as)" for x using that as by (simp add: w)
  moreover have "u_brk ?w = u_brk s" "u_base ?w = u_base s" by (simp_all add: w)
  ultimately show ?thesis using r(1) by (intro exI [of _ "?w\<lparr>u_freep := p\<rparr>"] exI [of _ "ps @ p # ns'"]) simp
qed

end
