(* ===== verification/Umalloc_Alloc.thy ===== *)
theory Umalloc_Alloc
  imports Umalloc_Free
begin

text \<open>\<open>malloc\<close>: the search around the circular list, the block that is taken, and what both functions do to the free
  space.\<close>

section \<open>Taking a block\<close>

lemma apart_disjoint:
  assumes "apart s (ps @ x # ns)"
  shows "bytes s x \<inter> (space s ps \<union> space s ns) = {}"
proof -
  have "bytes s x \<inter> bytes s y = {}" if "y \<in> set ps \<union> set ns" for y
    using assms that fend_ge [of x s] fend_ge [of y s] by (fastforce simp: apart_append bytes_def)
  then show ?thesis by (auto simp: space_def)
qed

text \<open>The block that was handed out at \<open>r\<close> with \<open>n\<close> units.\<close>

definition block :: "u32 \<Rightarrow> u32 \<Rightarrow> nat set" where
  "block r n = {unat (r - 8)..<unat (r - 8) + 8 * unat n}"

lemma take_all_law:
  assumes l: "free_list s (ps @ y # x # ns)" and n: "h_size (u_heap s x) = n"
  shows "\<exists>t. malloc_take n y x s = (x + 8, t) \<and> free_list t (ps @ y # ns) \<and>
    space t (ps @ y # ns) = space s (ps @ y # x # ns) - block (x + 8) n \<and> block (x + 8) n \<subseteq> space s (ps @ y # x # ns) \<and>
    u_heap t x = u_heap s x \<and> (u_brk t, u_base t) = (u_brk s, u_base s) \<and>
    (\<forall>z. z \<notin> set (ps @ y # x # ns) \<longrightarrow> u_heap t z = u_heap s z)"
proof -
  let ?b = "u_base s" and ?z = "put_header y \<lparr>h_ptr = nx s x, h_size = h_size (u_heap s y)\<rparr> s"
  let ?t = "?z\<lparr>u_freep := y\<rparr>"
  have c: "chain (nx s) (ps @ y # x # ns @ [?b])" and ap: "apart s (ps @ y # x # ns)" using l by (simp_all add: free_list_def)
  have d: "distinct (ps @ y # x # ns)" by (rule apart_distinct [OF ap])
  have yn: "y \<notin> set ps" "y \<notin> set ns" "y \<noteq> x" using d by auto
  have t: "nx ?t = nx ?z" "apart ?t = apart ?z" "space ?t = space ?z" "fend ?t = fend ?z"
    by (simp_all add: fun_eq_iff nx_def apart_def fend_def space_def bytes_def)
  have fy: "fend ?z y = fend s y" "bytes ?z y = bytes s y" "nx ?z y = nx s x" by (simp_all add: fend_def bytes_def nx_def)
  have fz: "fend ?z v = fend s v" for v by (cases "v = y") (simp_all add: fy put_other)
  have c1: "chain (nx s) (ps @ [y])" "chain (nx s) (x # ns @ [?b])"
    using c chain_append [of "nx s" ps y "x # ns @ [?b]"] by auto
  have xn: "nx s x = hd (ns @ [?b])" "chain (nx s) (ns @ [?b])" using c1(2) chain_hd_Cons [of "ns @ [?b]"] by simp_all
  have "chain (nx ?z) (y # ns @ [?b])"
    using chain_hd_Cons [of "ns @ [?b]" "nx ?z" y] put_lists(3) [OF yn(2)] xn fy(3) by simp
  then have cz: "chain (nx ?z) (ps @ y # ns @ [?b])"
    using put_lists(3) [OF yn(1)] c1(1) chain_append [of "nx ?z" ps y "ns @ [?b]"] by simp
  have az: "apart ?z (ps @ y # ns)"
    using ap put_lists(1) [OF yn(1)] put_lists(1) [OF yn(2)] by (simp add: apart_append fz)
  have "set (tl (ps @ y # ns)) \<subseteq> set (tl (ps @ y # x # ns))" by (cases ps) auto
  then have "\<forall>a \<in> set (tl (ps @ y # ns)). h_size (u_heap ?z a) \<noteq> 0" using l by (auto simp: free_list_def)
  moreover have "hd (ps @ y # ns) = ?b" using l by (cases ps) (simp_all add: free_list_def)
  moreover have "h_size (u_heap ?z ?b) = 0" using l by (auto simp: free_list_def)
  ultimately have "free_list ?t (ps @ y # ns)" using l cz az unfolding free_list_def t fz by simp
  moreover have bx: "block (x + 8) n = bytes s x" by (simp add: block_def bytes_def fend_def n)
  have "space ?t (ps @ y # ns) = space s (ps @ y # ns)" unfolding t using put_lists(2) [OF yn(1)] put_lists(2) [OF yn(2)] fy(2) by simp
  moreover have "space s (ps @ y # ns) = space s (ps @ y # x # ns) - bytes s x"
    using apart_disjoint [of s "ps @ [y]" x ns] ap by auto
  moreover have "malloc_take n y x s = (x + 8, ?t)" by (simp add: malloc_take_def n Let_def set_header nx_def)
  ultimately show ?thesis using bx yn(3) by (intro exI [of _ ?t]) auto
qed

lemma take_tail_law:
  assumes l: "free_list s (ps @ y # x # ns)" and n: "n \<noteq> 0" "n < h_size (u_heap s x)"
  defines "q \<equiv> x + 8 * (h_size (u_heap s x) - n)"
  shows "\<exists>t. malloc_take n y x s = (q + 8, t) \<and> free_list t (ps @ y # x # ns) \<and>
    space t (ps @ y # x # ns) = space s (ps @ y # x # ns) - block (q + 8) n \<and> block (q + 8) n \<subseteq> space s (ps @ y # x # ns) \<and>
    h_size (u_heap t q) = n \<and> (u_brk t, u_base t) = (u_brk s, u_base s) \<and>
    (\<forall>z. z \<notin> insert q (set (ps @ y # x # ns)) \<longrightarrow> u_heap t z = u_heap s z) \<and> unat q + 8 * unat n = fend s x"
proof -
  let ?b = "u_base s" and ?as = "ps @ y # x # ns"
  define k where "k = h_size (u_heap s x) - n"
  have ap: "apart s ?as" and fe: "fend s x \<le> unat (u_brk s)" using l by (simp_all add: free_list_def)
  have k: "unat k = unat (h_size (u_heap s x)) - unat n" "k \<noteq> 0"
    using n by (auto simp: k_def unat_sub less_imp_le)
  have kl: "unat k + unat n = unat (h_size (u_heap s x))" using k(1) n(2) by (simp add: word_less_nat_alt)
  let ?z = "put_header x \<lparr>h_ptr = nx s x, h_size = k\<rparr> s"
  have fz: "fend ?z x = unat x + 8 * unat k" "u_heap ?z x = \<lparr>h_ptr = nx s x, h_size = k\<rparr>" by (simp_all add: fend_def)
  have "fend ?z x \<le> fend s x" using kl by (simp add: fz(1) fend_def)
  then have "fend ?z x < 2 ^ 32" using fe unat32_less [of "u_brk s"] by linarith
  from fend_word [OF this] have q: "unat q = unat x + 8 * unat k" by (simp add: q_def k_def [symmetric] fz(1))
  have qe: "unat q + 8 * unat n = fend s x" using kl q by (simp add: fend_def)
  have n0: "0 < unat n" "0 < unat k" using n(1) k(2) by (simp_all add: unat_gt_0)
  have qx: "unat x < unat q" "unat q < fend s x" using q qe n0 by linarith+
  have dj: "bytes s x \<inter> (space s (ps @ [y]) \<union> space s ns) = {}" by (rule apart_disjoint) (use ap in simp)
  have qn: "q \<notin> set ?as"
  proof
    assume "q \<in> set ?as"
    moreover have "q \<noteq> x" using qx(1) by auto
    ultimately consider "q \<in> set ps \<union> {y}" | "q \<in> set ns" by auto
    then show False
    proof cases
      case 1
      then have "fend s q < unat x" using ap by (auto simp: apart_append)
      then show False using qx(1) fend_ge [of q s] by linarith
    next
      case 2
      then have "fend s x < unat q" using ap by (auto simp: apart_append)
      then show False using qx(2) by linarith
    qed
  qed
  let ?t = "(put_header q \<lparr>h_ptr = h_ptr (u_heap s q), h_size = n\<rparr> ?z)\<lparr>u_freep := y\<rparr>"
  have qx': "q \<noteq> x" using qx(1) by auto
  have run: "malloc_take n y x s = (q + 8, ?t)"
  proof -
    have e: "h_size (u_heap s x) \<noteq> n" "x + 8 * k = q" using n(2) by (auto simp: q_def k_def)
    show ?thesis
      unfolding malloc_take_def Let_def k_def [symmetric] if_not_P [OF e(1)] prod.case e(2) set_header using qx' by (simp add: nx_def)
  qed
  have xn: "x \<notin> set (ps @ [y])" "x \<notin> set ns" using apart_distinct [OF ap] by auto
  have t: "nx ?t = nx (put_header q \<lparr>h_ptr = h_ptr (u_heap s q), h_size = n\<rparr> ?z)"
    "apart ?t = apart (put_header q \<lparr>h_ptr = h_ptr (u_heap s q), h_size = n\<rparr> ?z)"
    "space ?t = space (put_header q \<lparr>h_ptr = h_ptr (u_heap s q), h_size = n\<rparr> ?z)"
    by (simp_all add: fun_eq_iff nx_def apart_def fend_def space_def bytes_def)
  have nxz: "nx ?z = nx s" by (simp add: fun_eq_iff nx_def)
  have fzo: "fend ?z v \<le> fend s v" for v
    using \<open>fend ?z x \<le> fend s x\<close> by (cases "v = x") (simp_all add: put_other)
  have az: "apart ?z ?as" unfolding apart_def
    by (rule sorted_wrt_mono_rel [OF _ ap [unfolded apart_def]]) (use fzo le_less_trans in blast)
  have "free_list ?t ?as"
    unfolding free_list_def t
  proof (intro conjI ballI)
    show "chain (nx (put_header q \<lparr>h_ptr = h_ptr (u_heap s q), h_size = n\<rparr> ?z)) (?as @ [u_base ?t])"
      using l put_lists(3) [OF qn] by (simp add: free_list_def nxz)
    show "apart (put_header q \<lparr>h_ptr = h_ptr (u_heap s q), h_size = n\<rparr> ?z) ?as" using az put_lists(1) [OF qn] by simp
    have tl: "set (tl ?as) = set (tl (ps @ [y])) \<union> insert x (set ns)" by (cases ps) auto
    have bx: "?b \<noteq> x" using l xn by (cases ps) (auto simp: free_list_def)
    moreover have "?b \<in> set ?as" using l by (cases ps) (auto simp: free_list_def)
    ultimately show "h_size (u_heap ?t (u_base ?t)) = 0" using l qn by (auto simp: free_list_def)
    show "h_size (u_heap ?t a) \<noteq> 0" if "a \<in> set (tl ?as)" for a
      using l that k(2) n(1) by (auto simp: free_list_def)
    show "fend ?t a \<le> unat (u_brk ?t)" if "a \<in> set ?as" for a
    proof -
      have "a \<noteq> q" using that qn by blast
      then have "fend ?t a = fend ?z a" by (simp add: fend_def)
      moreover have "fend s a \<le> unat (u_brk s)" using l that unfolding free_list_def by blast
      ultimately show ?thesis using fzo [of a] by simp
    qed
  qed (use l in \<open>simp_all add: free_list_def\<close>)
  moreover have bq: "block (q + 8) n = {unat q..<fend s x}" by (simp add: block_def qe)
  moreover have "space ?t ?as = space s ?as - block (q + 8) n"
  proof -
    have "bytes ?z x = bytes s x - {unat q..<fend s x}" unfolding bytes_def fz(1) using q qx by auto
    moreover have "{unat q..<fend s x} \<subseteq> bytes s x" using qx(1) by (auto simp: bytes_def)
    moreover have "space ?z ps = space s ps" "space ?z ns = space s ns" "bytes ?z y = bytes s y"
      using put_lists(2) [of x] xn put_other(3) [of y x] by auto
    ultimately show ?thesis unfolding t using put_lists(2) [OF qn] bq dj by auto
  qed
  moreover have "block (q + 8) n \<subseteq> space s ?as" unfolding bq using qx(1) by (auto simp: bytes_def)
  ultimately show ?thesis using run qe by (intro exI [of _ ?t]) auto
qed

text \<open>Both cases together. \<open>taken n s as r t as'\<close>: \<open>r\<close> points behind the header of a block of \<open>n\<close> units that was free.\<close>

definition taken :: "u32 \<Rightarrow> umem \<Rightarrow> u32 list \<Rightarrow> u32 \<Rightarrow> umem \<Rightarrow> u32 list \<Rightarrow> bool" where
  "taken n s as r t as' \<longleftrightarrow> free_list t as' \<and> space t as' = space s as - block r n \<and> block r n \<subseteq> space s as \<and>
     h_size (u_heap t (r - 8)) = n \<and> u_base s < r - 8 \<and> unat (r - 8) + 8 * unat n \<le> unat (u_brk s) \<and>
     (u_brk t, u_base t) = (u_brk s, u_base s) \<and>
     (\<forall>z. z \<notin> set as \<longrightarrow> z \<noteq> r - 8 \<longrightarrow> u_heap t z = u_heap s z)"

lemma base_least: "free_list s as \<Longrightarrow> a \<in> set as \<Longrightarrow> a \<noteq> u_base s \<Longrightarrow> u_base s < a"
  using apart_less [of s "[]" "u_base s" "tl as" a] by (cases as) (auto simp: free_list_def)

lemma base_first:
  assumes "free_list s (ps @ y # x # ns)"
  shows "u_base s < x"
proof -
  have ap: "apart s (ps @ y # x # ns)" and hd: "hd (ps @ y # x # ns) = u_base s" using assms by (simp_all add: free_list_def)
  show ?thesis
  proof (cases ps)
    case Nil
    then show ?thesis using apart_less [of s "[]" y "x # ns" x] ap hd by simp
  next
    case (Cons p ps')
    then show ?thesis using apart_less [of s "[]" p "ps' @ y # x # ns" x] ap hd by simp
  qed
qed

lemma malloc_take_law:
  assumes l: "free_list s as" and as: "as = ps @ y # x # ns" and n: "n \<noteq> 0" "n \<le> h_size (u_heap s x)"
  shows "\<exists>r t as'. malloc_take n y x s = (r, t) \<and> taken n s as r t as'"
proof (cases "h_size (u_heap s x) = n")
  case True
  note l' = l [unfolded as]
  have "fend s x \<le> unat (u_brk s)" using l' by (simp add: free_list_def)
  then have e: "unat x + 8 * unat n \<le> unat (u_brk s)" using True by (simp add: fend_def)
  from take_all_law [OF l' True] obtain t where t: "malloc_take n y x s = (x + 8, t)" "free_list t (ps @ y # ns)"
    "space t (ps @ y # ns) = space s (ps @ y # x # ns) - block (x + 8) n" "block (x + 8) n \<subseteq> space s (ps @ y # x # ns)"
    "u_heap t x = u_heap s x" "(u_brk t, u_base t) = (u_brk s, u_base s)"
    "\<forall>z. z \<notin> set (ps @ y # x # ns) \<longrightarrow> u_heap t z = u_heap s z" by blast
  then have "taken n s as (x + 8) t (ps @ y # ns)" unfolding taken_def as using base_first [OF l'] e True by simp
  then show ?thesis using t(1) by blast
next
  case False
  note l' = l [unfolded as]
  have n': "n < h_size (u_heap s x)" using False n(2) by simp
  define q where "q = x + 8 * (h_size (u_heap s x) - n)"
  have "fend s x \<le> unat (u_brk s)" using l' by (simp add: free_list_def)
  from take_tail_law [OF l' n(1) n', folded q_def] obtain t where t: "malloc_take n y x s = (q + 8, t)" "free_list t (ps @ y # x # ns)"
    "space t (ps @ y # x # ns) = space s (ps @ y # x # ns) - block (q + 8) n" "block (q + 8) n \<subseteq> space s (ps @ y # x # ns)"
    "h_size (u_heap t q) = n" "(u_brk t, u_base t) = (u_brk s, u_base s)"
    "\<forall>z. z \<notin> insert q (set (ps @ y # x # ns)) \<longrightarrow> u_heap t z = u_heap s z" "unat q + 8 * unat n = fend s x" by blast
  have "unat q \<in> block (q + 8) n" using n(1) by (simp add: block_def unat_gt_0)
  then have "unat q \<in> space s (ps @ y # x # ns)" using t(4) by blast
  then have "u_base s < q"
  proof -
    obtain a where a: "a \<in> set (ps @ y # x # ns)" "unat q \<in> bytes s a" using \<open>unat q \<in> space s _\<close> by (auto simp: space_def)
    have "a \<noteq> u_base s" using a(2) l' by (auto simp: bytes_def fend_def free_list_def)
    then have "u_base s < a" using base_least [OF l'] a(1) by blast
    then show ?thesis using a(2) by (auto simp: bytes_def word_less_nat_alt)
  qed
  then have "taken n s as (q + 8) t (ps @ y # x # ns)"
    unfolding taken_def as using t \<open>fend s x \<le> _\<close> by simp
  then show ?thesis using t(1) by blast
qed

section \<open>The search\<close>

text \<open>The loop goes along a path that ends at \<open>freep\<close>: it takes the first block that is big enough, or asks for memory.\<close>

lemma malloc_loop_path:
  assumes "chain (nx s) (q # xs)" "xs \<noteq> []" "last xs = u_freep s" "u_freep s \<notin> set (butlast xs)"
  shows "(\<exists>us y x vs. q # xs = us @ y # x # vs \<and> n \<le> h_size (u_heap s x) \<and> malloc_loop n q (hd xs) s = Some (malloc_take n y x s)) \<or>
    ((\<forall>x \<in> set xs. h_size (u_heap s x) < n) \<and> malloc_loop n q (hd xs) s =
       (case morecore n s of None \<Rightarrow> None
        | Some r \<Rightarrow> if fst r = 0 then Some (0, snd r) else malloc_loop n (fst r) (nx (snd r) (fst r)) (snd r)))"
  using assms
proof (induction xs arbitrary: q)
  case Nil
  then show ?case by simp
next
  case (Cons x xs)
  show ?case
  proof (cases "n \<le> h_size (u_heap s x)")
    case True
    then have "malloc_loop n q x s = Some (malloc_take n q x s)" by (subst malloc_loop.simps) simp
    then show ?thesis using True by (intro disjI1 exI [of _ "[]"] exI [of _ q] exI [of _ x] exI [of _ xs]) simp
  next
    case small: False
    show ?thesis
    proof (cases "xs = []")
      case True
      then have xf: "x = u_freep s" using Cons.prems(3) by simp
      have "malloc_loop n q x s = (case morecore n s of None \<Rightarrow> None
        | Some r \<Rightarrow> if fst r = 0 then Some (0, snd r) else malloc_loop n (fst r) (nx (snd r) (fst r)) (snd r))"
        unfolding malloc_loop.simps [of n q x s] if_not_P [OF small] if_P [OF xf] nx_def ..
      then show ?thesis using small True by (intro disjI2) (simp add: not_le)
    next
      case False
      have "x \<noteq> u_freep s" using Cons.prems(4) False by auto
      moreover have n: "h_ptr (u_heap s x) = hd xs" using Cons.prems(1) False by (cases xs) (auto simp: nx_def)
      ultimately have step: "malloc_loop n q x s = malloc_loop n x (hd xs) s"
        unfolding malloc_loop.simps [of n q x s] if_not_P [OF small] by simp
      have c: "chain (nx s) (x # xs)" and lf: "last xs = u_freep s" "u_freep s \<notin> set (butlast xs)"
        using Cons.prems False by simp_all
      from Cons.IH [OF c False lf] show ?thesis
      proof
        assume "\<exists>us y z vs. x # xs = us @ y # z # vs \<and> n \<le> h_size (u_heap s z) \<and>
          malloc_loop n x (hd xs) s = Some (malloc_take n y z s)"
        then obtain us y z vs where e: "x # xs = us @ y # z # vs" "n \<le> h_size (u_heap s z)"
          "malloc_loop n x (hd xs) s = Some (malloc_take n y z s)" by blast
        have "q # x # xs = (q # us) @ y # z # vs" using e(1) by simp
        moreover have "malloc_loop n q (hd (x # xs)) s = Some (malloc_take n y z s)" using e(3) step by simp
        ultimately show ?thesis using e(2) by blast
      next
        assume "(\<forall>z \<in> set xs. h_size (u_heap s z) < n) \<and> malloc_loop n x (hd xs) s = (case morecore n s of None \<Rightarrow> None
          | Some r \<Rightarrow> if fst r = 0 then Some (0, snd r) else malloc_loop n (fst r) (nx (snd r) (fst r)) (snd r))"
        then show ?thesis using step small by (intro disjI2) (simp add: not_le)
      qed
    qed
  qed
qed

lemma cycle_from:
  assumes "free_list s as" "as = ps @ f # ns"
  shows "chain (nx s) (f # ns @ ps @ [f])"
proof -
  have c: "chain (nx s) (ps @ f # ns @ [u_base s])" and h: "hd (ps @ f # ns) = u_base s" using assms by (simp_all add: free_list_def)
  have 1: "chain (nx s) (ps @ [f])" "chain (nx s) ((f # ns) @ [u_base s])"
    using c chain_append [of "nx s" ps f "ns @ [u_base s]"] by simp_all
  obtain xs where xs: "ps @ [f] = u_base s # xs" using h by (cases ps) auto
  have "chain (nx s) ((f # ns) @ u_base s # xs)"
    by (rule iffD2 [OF chain_append [of "nx s" "f # ns" "u_base s" xs]]) (use 1 xs in simp)
  then show ?thesis using xs by simp
qed

lemma after_node:
  assumes "free_list s as" "y \<in> set as" "nx s y = x" "x \<noteq> u_base s"
  shows "\<exists>ps ns. as = ps @ y # x # ns"
proof -
  obtain ps rest where as: "as = ps @ y # rest" using assms(2) by (auto simp: in_set_conv_decomp)
  have "chain (nx s) (ps @ y # rest @ [u_base s])" using assms(1) by (simp add: free_list_def as)
  then show ?thesis using assms(3,4) as chain_mid [of "nx s" ps y] by (cases rest) auto
qed

lemma malloc_loop_law:
  assumes l: "free_list s as" and n: "n \<noteq> 0"
  shows "(\<exists>r t as'. malloc_loop n (u_freep s) (nx s (u_freep s)) s = Some (r, t) \<and> taken n s as r t as') \<or>
    ((\<forall>x \<in> set as. h_size (u_heap s x) < n) \<and> malloc_loop n (u_freep s) (nx s (u_freep s)) s =
       (case morecore n s of None \<Rightarrow> None
        | Some r \<Rightarrow> if fst r = 0 then Some (0, snd r) else malloc_loop n (fst r) (nx (snd r) (fst r)) (snd r)))"
proof -
  let ?f = "u_freep s"
  obtain ps ns where as: "as = ps @ ?f # ns" using l by (auto simp: free_list_def in_set_conv_decomp)
  have c: "chain (nx s) (?f # ns @ ps @ [?f])" by (rule cycle_from [OF l as])
  have d: "distinct as" using l by (intro apart_distinct [of s]) (simp add: free_list_def)
  have hd: "hd (ns @ ps @ [?f]) = nx s ?f" using c chain_hd_Cons [of "ns @ ps @ [?f]" "nx s" ?f] by simp
  have "?f \<notin> set (butlast (ns @ ps @ [?f]))" using d as by (simp add: butlast_append)
  note path = malloc_loop_path [OF c _ _ this, of n, simplified last_append last.simps append_is_Nil_conv list.distinct simp_thms if_True if_False, OF TrueI TrueI]
  show ?thesis
    using path
  proof (elim disjE exE conjE)
    fix us y x vs
    assume e: "?f # ns @ ps @ [?f] = us @ y # x # vs" and x: "n \<le> h_size (u_heap s x)"
      and run: "malloc_loop n ?f (hd (ns @ ps @ [?f])) s = Some (malloc_take n y x s)"
    have "nx s y = x" by (rule chain_mid [of _ us _ _ vs]) (use c e in simp)
    moreover have "y \<in> set (?f # ns @ ps @ [?f])" unfolding e by simp
    then have "y \<in> set as" using as by auto
    moreover have "x \<noteq> u_base s" using x n l by (auto simp: free_list_def)
    ultimately obtain ps' ns' where "as = ps' @ y # x # ns'" using after_node [OF l] by blast
    from malloc_take_law [OF l this n x] show ?thesis using run hd by simp
  next
    assume "\<forall>x \<in> set (ns @ ps @ [?f]). h_size (u_heap s x) < n"
      and run: "malloc_loop n ?f (hd (ns @ ps @ [?f])) s = (case morecore n s of None \<Rightarrow> None
        | Some r \<Rightarrow> if fst r = 0 then Some (0, snd r) else malloc_loop n (fst r) (nx (snd r) (fst r)) (snd r))"
    then have "\<forall>x \<in> set as. h_size (u_heap s x) < n" using as by auto
    then show ?thesis using run hd by simp
  qed
qed

section \<open>More memory\<close>

definition grow_units :: "u32 \<Rightarrow> u32" where
  "grow_units n = (if n < 4096 then 4096 else n)"

lemma grow_units_unat: "unat (grow_units n) = max 4096 (unat n)"
  by (auto simp: grow_units_def word_less_nat_alt)

text \<open>The break moves by the bytes of \<open>k\<close> units, as long as it does not pass the end of the address space.\<close>

lemma sbrk_law:
  assumes "unat (u_brk s) + 8 * unat k < 2 ^ 32"
  shows "unat (u_brk s + 8 * k) = unat (u_brk s) + 8 * unat k"
proof -
  have "unat (8 :: u32) * unat k < 2 ^ LENGTH(32)" using assms by simp
  then have "unat (8 * k) = 8 * unat k" by (subst unat_mult_lem [THEN iffD1]) simp_all
  then show ?thesis using unat_plus_nowrap [of "u_brk s" "unat (8 * k)"] assms by simp
qed

text \<open>The new block joins the free list.\<close>

lemma morecore_some:
  assumes l: "free_list s as" and m: "unat (u_brk s) + 8 * unat (grow_units n) < 2 ^ 32"
  shows "\<exists>t as'. morecore n s = Some (u_freep t, t) \<and> free_list t as' \<and> u_freep t \<noteq> 0 \<and>
    space t as' = space s as \<union> {unat (u_brk s)..<unat (u_brk t)} \<and> unat (u_brk t) = unat (u_brk s) + 8 * unat (grow_units n) \<and>
    u_base t = u_base s \<and> (\<exists>x \<in> set as'. n \<le> h_size (u_heap t x)) \<and>
    (\<forall>z. z \<notin> insert (u_brk s) (set as) \<longrightarrow> u_heap t z = u_heap s z)"
proof -
  let ?k = "grow_units n" and ?p = "u_brk s"
  have k: "?k \<noteq> 0" "n \<le> ?k" by (auto simp: grow_units_def not_less less_imp_le)
  note br = sbrk_law [OF m]
  let ?s = "put_header ?p \<lparr>h_ptr = h_ptr (u_heap s ?p), h_size = ?k\<rparr> (s\<lparr>u_brk := ?p + 8 * ?k\<rparr>)"
  have "?p \<noteq> -1"
  proof
    assume "?p = -1"
    moreover have "(4294967295 :: u32) = -1" by simp
    ultimately have "unat ?p = unat (4294967295 :: u32)" by (simp only:)
    then have "unat ?p = 4294967295" by simp
    moreover have "0 < unat ?k" using k(1) by (simp add: unat_gt_0)
    ultimately show False using m by simp
  qed
  then have run: "morecore n s = map_option (\<lambda>s. (u_freep s, s)) (u_free (?p + 8) ?s)"
    by (simp add: morecore_def u_sbrk_def grow_units_def [symmetric] Let_def set_header mult.commute [of _ 8])
  have le: "\<forall>a \<in> set as. fend s a \<le> unat ?p" and base: "u_base s < ?p" and pos: "\<forall>a \<in> set (tl as). h_size (u_heap s a) \<noteq> 0"
    and hd: "as \<noteq> []" "hd as = u_base s" using l unfolding free_list_def by blast+
  have pn: "?p \<notin> set as"
  proof
    assume p: "?p \<in> set as"
    then have "?p \<in> set (tl as)" using hd base by (cases as) auto
    then have "0 < unat (h_size (u_heap s ?p))" using pos by (auto simp: unat_gt_0)
    then show False using bspec [OF le p] by (simp add: fend_def)
  qed
  let ?w = "s\<lparr>u_brk := ?p + 8 * ?k\<rparr>"
  have s0: "nx ?w = nx s" "apart ?w = apart s" "space ?w = space s" "fend ?w = fend s"
    by (simp_all add: fun_eq_iff nx_def apart_def fend_def space_def bytes_def)
  have fs: "fend ?s a = fend s a" "u_heap ?s a = u_heap s a" if "a \<in> set as" for a
  proof -
    have "a \<noteq> ?p" using that pn by blast
    then show "fend ?s a = fend s a" "u_heap ?s a = u_heap s a" by (simp_all add: fend_def)
  qed
  have up: "?p < u_brk ?s" using br k(1) by (simp add: word_less_nat_alt unat_gt_0)
  have sp: "space ?s as = space s as" using put_lists(2) [OF pn] s0(3) by simp
  have lb: "free_list ?s as"
    unfolding free_list_def
  proof (intro conjI ballI)
    show "chain (nx ?s) (as @ [u_base ?s])" using put_lists(3) [OF pn] s0(1) l by (simp add: free_list_def)
    show "apart ?s as" using put_lists(1) [OF pn] s0(2) l by (simp add: free_list_def)
    have "u_base s \<in> set as" using hd by (cases as) auto
    then show "h_size (u_heap ?s (u_base ?s)) = 0" using fs(2) [of "u_base s"] l by (auto simp: free_list_def)
    show "h_size (u_heap ?s a) \<noteq> 0" if "a \<in> set (tl as)" for a using that fs(2) [of a] pos by (cases as) auto
    show "fend ?s a \<le> unat (u_brk ?s)" if "a \<in> set as" for a using bspec [OF le that] fs(1) [OF that] br by simp
    show "u_base ?s < u_brk ?s" using base up by (simp add: less_trans)
  qed (use l in \<open>simp_all add: free_list_def\<close>)
  have bp: "bytes ?s ?p = {unat ?p..<unat ?p + 8 * unat ?k}" by (simp add: bytes_def fend_def)
  have "freeable ?s as ?p"
    unfolding freeable_def sp bp
  proof (intro conjI)
    show "u_base ?s < ?p" using base by simp
    show "fend ?s ?p \<le> unat (u_brk ?s)" using br by (simp add: fend_def)
    show "{unat ?p..<unat ?p + 8 * unat ?k} \<inter> space s as = {}" using le by (fastforce simp: space_def bytes_def)
  qed (use k(1) in simp)
  from u_free_law [OF lb this] obtain t as' where t: "u_free (?p + 8) ?s = Some t" "free_list t as'"
    "space t as' = space ?s as \<union> bytes ?s ?p" "u_brk t = u_brk ?s" "u_base t = u_base ?s"
    "\<exists>x \<in> set as'. h_size (u_heap ?s ?p) \<le> h_size (u_heap t x)" "\<forall>x. x \<notin> insert ?p (set as) \<longrightarrow> u_heap t x = u_heap ?s x"
    by blast
  have "u_base t \<le> u_freep t" using t(2) base_least [OF t(2), of "u_freep t"] by (cases "u_freep t = u_base t") (auto simp: free_list_def)
  then have "u_freep t \<noteq> 0" using t(2) by (auto simp: free_list_def)
  moreover have "\<exists>x \<in> set as'. n \<le> h_size (u_heap t x)" using t(6) k(2) order.trans by (simp, blast)
  moreover have "unat (u_brk t) = unat ?p + 8 * unat ?k" using t(4) br by simp
  ultimately show ?thesis using run t sp bp by (intro exI [of _ t] exI [of _ as']) auto
qed

section \<open>malloc\<close>

text \<open>What a call leaves: a block of \<open>n\<close> units from the free space \<open>G\<close>, which may have grown by new memory; the headers
  outside the free space are as before.\<close>

definition served :: "u32 \<Rightarrow> umem \<Rightarrow> nat set \<Rightarrow> u32 \<Rightarrow> umem \<Rightarrow> u32 list \<Rightarrow> bool" where
  "served n s F r t as \<longleftrightarrow> free_list t as \<and>
     (let G = F \<union> {unat (u_brk s)..<unat (u_brk t)} in
      space t as = G - block r n \<and> block r n \<subseteq> G \<and> h_size (u_heap t (r - 8)) = n \<and> u_base s < r - 8 \<and>
      unat (r - 8) + 8 * unat n \<le> unat (u_brk t) \<and> u_base t = u_base s \<and> u_brk s \<le> u_brk t \<and>
      (\<forall>z. z \<noteq> u_base s \<longrightarrow> unat z \<notin> G \<longrightarrow> u_heap t z = u_heap s z))"

lemma node_in_space:
  assumes "free_list s as" "z \<in> set as" "z \<noteq> u_base s"
  shows "unat z \<in> space s as"
proof -
  have "z \<in> set (tl as)" using assms by (cases as) (auto simp: free_list_def)
  then have "h_size (u_heap s z) \<noteq> 0" using assms(1) by (simp add: free_list_def)
  then have "unat z \<in> bytes s z" by (simp add: bytes_def fend_def unat_gt_0)
  then show ?thesis using assms(2) by (auto simp: space_def)
qed

lemma block_start: "n \<noteq> 0 \<Longrightarrow> unat (r - 8) \<in> block r n"
  by (simp add: block_def unat_gt_0)

lemma taken_nonzero:
  assumes "taken n s as r t as'" "n \<noteq> 0"
  shows "r \<noteq> 0"
proof
  assume "r = 0"
  then have "unat (r - 8) = 4294967288" by simp
  moreover have "unat (r - 8) + 8 * unat n \<le> unat (u_brk s)" using assms(1) by (simp add: taken_def)
  moreover have "0 < unat n" using assms(2) by (simp add: unat_gt_0)
  ultimately show False using unat32_less [of "u_brk s", simplified] by linarith
qed

lemma taken_served:
  assumes l: "free_list s as" and t: "taken n s as r t as'" and n: "n \<noteq> 0"
  shows "served n s (space s as) r t as'"
proof -
  have b: "u_brk t = u_brk s" "u_base t = u_base s" using t by (simp_all add: taken_def)
  have "u_heap t z = u_heap s z" if z: "z \<noteq> u_base s" "unat z \<notin> space s as" for z
  proof -
    have "z \<notin> set as" using node_in_space [OF l _ z(1)] z(2) by blast
    moreover have "z \<noteq> r - 8" using block_start [OF n, of r] t z(2) by (auto simp: taken_def)
    ultimately show ?thesis using t by (simp add: taken_def)
  qed
  then show ?thesis using t b by (simp add: served_def taken_def)
qed

lemma malloc_loop_serves:
  assumes l: "free_list s as" and n: "n \<noteq> 0" and m: "unat (u_brk s) + 8 * unat (grow_units n) < 2 ^ 32"
  shows "\<exists>r t as'. malloc_loop n (u_freep s) (nx s (u_freep s)) s = Some (r, t) \<and> r \<noteq> 0 \<and> served n s (space s as) r t as' \<and>
    unat (u_brk t) \<le> unat (u_brk s) + 8 * unat (grow_units n)"
  using malloc_loop_law [OF l n]
proof (elim disjE exE conjE)
  fix r t as' assume run: "malloc_loop n (u_freep s) (nx s (u_freep s)) s = Some (r, t)" and t: "taken n s as r t as'"
  have "r \<noteq> 0" using taken_nonzero [OF t n] .
  moreover have "u_brk t = u_brk s" using t by (simp add: taken_def)
  ultimately show ?thesis using run taken_served [OF l t n] by auto
next
  assume small: "\<forall>x \<in> set as. h_size (u_heap s x) < n"
    and run: "malloc_loop n (u_freep s) (nx s (u_freep s)) s = (case morecore n s of None \<Rightarrow> None
        | Some r \<Rightarrow> if fst r = 0 then Some (0, snd r) else malloc_loop n (fst r) (nx (snd r) (fst r)) (snd r))"
  from morecore_some [OF l m] obtain v bs where v: "morecore n s = Some (u_freep v, v)" "free_list v bs" "u_freep v \<noteq> 0"
    "space v bs = space s as \<union> {unat (u_brk s)..<unat (u_brk v)}" "unat (u_brk v) = unat (u_brk s) + 8 * unat (grow_units n)"
    "u_base v = u_base s" "\<exists>x \<in> set bs. n \<le> h_size (u_heap v x)"
    "\<forall>z. z \<notin> insert (u_brk s) (set as) \<longrightarrow> u_heap v z = u_heap s z" by blast
  have "\<not> (\<forall>x \<in> set bs. h_size (u_heap v x) < n)" using v(7) by (auto simp: not_less)
  then obtain r t as' where t: "malloc_loop n (u_freep v) (nx v (u_freep v)) v = Some (r, t)" "taken n v bs r t as'"
    using malloc_loop_law [OF v(2) n] by blast
  note sv = taken_served [OF v(2) t(2) n]
  have bt: "u_brk t = u_brk v" using t(2) by (simp add: taken_def)
  have new: "unat (u_brk s) < unat (u_brk v)" using v(5) n by (simp add: grow_units_def unat_gt_0)
  have keep: "u_heap v z = u_heap s z" if z: "z \<noteq> u_base s" "unat z \<notin> space v bs" for z
  proof -
    have "z \<notin> set as" using node_in_space [OF l _ z(1)] z(2) v(4) by blast
    moreover have "z \<noteq> u_brk s" using z(2) new unfolding v(4) by auto
    ultimately show ?thesis using v(8) by blast
  qed
  have "served n s (space s as) r t as'"
    using sv keep new unfolding served_def Let_def bt v(4) [symmetric] v(6)
    by (simp add: word_le_nat_alt v(6))
  then show ?thesis using run v(1,3,5) t(1) taken_nonzero [OF t(2) n] bt by auto
qed

end
