(* ===== verification/Umalloc_Props.thy ===== *)
theory Umalloc_Props
  imports Umalloc_Alloc
begin

text \<open>What \<open>malloc\<close> and \<open>free\<close> promise: each returns, the free space changes by exactly the block, and blocks that are
  handed out never overlap.\<close>

text \<open>Before the first call of \<open>malloc\<close> there is no list and nothing is free. \<open>heap_inv s F\<close>: the allocator is in order
  and \<open>F\<close> is the set of the free bytes.\<close>

definition heap_inv :: "umem \<Rightarrow> nat set \<Rightarrow> bool" where
  "heap_inv s F \<longleftrightarrow> (\<exists>as. free_list s as \<and> F = space s as) \<or>
     (u_freep s = 0 \<and> u_base s \<noteq> 0 \<and> u_base s < u_brk s \<and> F = {})"

lemma freep_nonzero: "free_list s as \<Longrightarrow> u_freep s \<noteq> 0"
  using base_least [of s as 0] by (auto simp: free_list_def)

lemma malloc_init_law:
  assumes "heap_inv s F"
  shows "\<exists>as. free_list (malloc_init s) as \<and> F = space (malloc_init s) as"
    "u_brk (malloc_init s) = u_brk s" "u_base (malloc_init s) = u_base s"
    "z \<noteq> u_base s \<Longrightarrow> u_heap (malloc_init s) z = u_heap s z"
proof -
  show "\<exists>as. free_list (malloc_init s) as \<and> F = space (malloc_init s) as"
  proof (cases "u_freep s = 0")
    case True
    have "\<not> free_list s as" for as using True freep_nonzero by blast
    then have s: "u_base s \<noteq> 0" "u_base s < u_brk s" "F = {}" using assms by (auto simp: heap_inv_def)
    let ?t = "malloc_init s"
    have t: "u_heap ?t (u_base s) = \<lparr>h_ptr = u_base s, h_size = 0\<rparr>" "u_base ?t = u_base s" "u_brk ?t = u_brk s"
      "u_freep ?t = u_base s" using True by (simp_all add: malloc_init_def set_ptr_def set_size_def)
    have "free_list ?t [u_base s]" using s t by (simp add: free_list_def nx_def fend_def word_less_nat_alt less_imp_le)
    moreover have "space ?t [u_base s] = {}" by (simp add: bytes_def fend_def t)
    ultimately show ?thesis using s(3) by blast
  next
    case False
    then show ?thesis using assms by (auto simp: heap_inv_def malloc_init_def)
  qed
qed (simp_all add: malloc_init_def set_ptr_def set_size_def)

text \<open>There is room for a request: the units for it, at least 4096, end below the end of the 32-bit address space when
  they are put at the break. The calls of sbrk never fail, so it is the program that has to see to this.\<close>

definition request_units :: "u32 \<Rightarrow> nat" where
  "request_units nbytes = (unat nbytes + 7) div 8 + 1"

definition heap_room :: "umem \<Rightarrow> u32 \<Rightarrow> bool" where
  "heap_room s nbytes \<longleftrightarrow> unat (u_brk s) + 8 * max 4096 (request_units nbytes) < 2 ^ 32"

text \<open>The units of a request: one for the header, and enough for the bytes.\<close>

lemma unit_count:
  assumes "heap_room s nbytes"
  shows "unat (malloc_units nbytes) = request_units nbytes" "malloc_units nbytes \<noteq> 0"
proof -
  have "8 * request_units nbytes \<le> 8 * max 4096 (request_units nbytes)" by simp
  then have b: "unat nbytes + 8 < 2 ^ 32" using assms by (simp add: heap_room_def request_units_def)
  have a: "unat (nbytes + 7) = unat nbytes + 7" using unat_plus_nowrap [of nbytes 7] b by simp
  have e: "nbytes + 8 - 1 = nbytes + 7" by simp
  have "unat ((nbytes + 7) div 8) = (unat nbytes + 7) div 8" by (simp add: unat_div a)
  then show u: "unat (malloc_units nbytes) = request_units nbytes"
    using unat_plus_nowrap [of "(nbytes + 7) div 8" 1] b by (simp add: malloc_units_def request_units_def e)
  then show "malloc_units nbytes \<noteq> 0" by (auto simp: request_units_def simp del: unat_eq_zero)
qed

text \<open>The block of a pointer that \<open>malloc\<close> returned, by the size in its header.\<close>

definition handed :: "umem \<Rightarrow> u32 \<Rightarrow> nat set" where
  "handed s r = block r (h_size (u_heap s (r - 8)))"

definition new_bytes :: "umem \<Rightarrow> umem \<Rightarrow> nat set" where
  "new_bytes s t = {unat (u_brk s)..<unat (u_brk t)}"

lemma malloc_law:
  assumes i: "heap_inv s F" and u: "malloc_units nbytes \<noteq> 0" "unat (u_brk s) + 8 * max 4096 (unat (malloc_units nbytes)) < 2 ^ 32"
  shows "\<exists>r t. u_malloc nbytes s = Some (r, t) \<and> r \<noteq> 0 \<and> u_freep t \<noteq> 0 \<and> u_base t = u_base s \<and> u_brk s \<le> u_brk t \<and>
    unat (u_brk t) \<le> unat (u_brk s) + 8 * max 4096 (unat (malloc_units nbytes)) \<and>
    (\<forall>z. z \<noteq> u_base s \<longrightarrow> unat z \<notin> F \<union> new_bytes s t \<longrightarrow> u_heap t z = u_heap s z) \<and>
    heap_inv t ((F \<union> new_bytes s t) - handed t r) \<and> handed t r \<subseteq> F \<union> new_bytes s t \<and>
    h_size (u_heap t (r - 8)) = malloc_units nbytes \<and> u_base t < r - 8 \<and> unat (r - 8) + 8 * unat (malloc_units nbytes) \<le> unat (u_brk t)"
proof -
  let ?s = "malloc_init s" and ?n = "malloc_units nbytes"
  note m = malloc_init_law [OF i]
  obtain as where as: "free_list ?s as" "F = space ?s as" using m(1) by blast
  have run: "u_malloc nbytes s = malloc_loop ?n (u_freep ?s) (nx ?s (u_freep ?s)) ?s"
    by (simp add: u_malloc_def nx_def Let_def)
  have g: "unat (u_brk ?s) + 8 * unat (grow_units ?n) < 2 ^ 32" using u(2) by (simp add: grow_units_unat m(2))
  from malloc_loop_serves [OF as(1) u(1) g, folded run] obtain r t as' where r: "u_malloc nbytes s = Some (r, t)" "r \<noteq> 0"
    and as': "served ?n ?s F r t as'" and b: "unat (u_brk t) \<le> unat (u_brk s) + 8 * max 4096 (unat ?n)"
    using as(2) by (auto simp: grow_units_unat m(2))
  have nb: "new_bytes s t = {unat (u_brk ?s)..<unat (u_brk t)}" by (simp add: new_bytes_def m(2))
  have sz: "h_size (u_heap t (r - 8)) = ?n" using as' by (simp add: served_def Let_def)
  then have h: "handed t r = block r ?n" by (simp add: handed_def)
  have "heap_inv t (F \<union> new_bytes s t - handed t r)"
    unfolding heap_inv_def h nb using as' by (auto simp: served_def Let_def)
  moreover have "unat (r - 8) + 8 * unat ?n \<le> unat (u_brk t)" "u_freep t \<noteq> 0"
    using as' freep_nonzero by (auto simp: served_def Let_def)
  moreover have "u_heap t z = u_heap s z" if "z \<noteq> u_base s" "unat z \<notin> F \<union> new_bytes s t" for z
    using as' that m(3,4) unfolding served_def Let_def nb by simp
  moreover have "block r ?n \<subseteq> F \<union> new_bytes s t" "u_base s < r - 8" "u_base t = u_base s" "u_brk s \<le> u_brk t"
    using as' m(2,3) unfolding served_def Let_def nb by simp_all
  ultimately show ?thesis using r sz h b by (intro exI [of _ r] exI [of _ t]) simp
qed

lemma free_law:
  assumes i: "heap_inv s F" "u_freep s \<noteq> 0" and r: "u_base s < r - 8" "h_size (u_heap s (r - 8)) \<noteq> 0"
    "unat (r - 8) + 8 * unat (h_size (u_heap s (r - 8))) \<le> unat (u_brk s)" "handed s r \<inter> F = {}"
  shows "\<exists>t. u_free r s = Some t \<and> heap_inv t (F \<union> handed s r) \<and> u_freep t \<noteq> 0 \<and> u_base t = u_base s \<and> u_brk t = u_brk s \<and>
    (\<forall>z. z \<noteq> u_base s \<longrightarrow> unat z \<notin> F \<union> handed s r \<longrightarrow> u_heap t z = u_heap s z)"
proof -
  obtain as where as: "free_list s as" "F = space s as" using i by (auto simp: heap_inv_def)
  have h: "handed s r = bytes s (r - 8)" by (simp add: handed_def block_def bytes_def fend_def)
  have "freeable s as (r - 8)" using r as(2) h by (simp add: freeable_def fend_def)
  from u_free_law [OF as(1) this] obtain t as' where t: "u_free r s = Some t" "free_list t as'"
    "space t as' = space s as \<union> bytes s (r - 8)" "u_brk t = u_brk s" "u_base t = u_base s"
    "\<forall>x. x \<notin> insert (r - 8) (set as) \<longrightarrow> u_heap t x = u_heap s x" by auto
  have "u_heap t z = u_heap s z" if z: "z \<noteq> u_base s" "unat z \<notin> F \<union> handed s r" for z
  proof -
    have "z \<notin> set as" using node_in_space [OF as(1) _ z(1)] z(2) as(2) by blast
    moreover have "z \<noteq> r - 8" using z(2) bytes_self [OF r(2)] h by auto
    ultimately show ?thesis using t(6) by blast
  qed
  moreover have "heap_inv t (F \<union> handed s r)" using t(2,3) as(2) h by (auto simp: heap_inv_def)
  ultimately show ?thesis using t(1,4,5) freep_nonzero [OF t(2)] by blast
qed

section \<open>Runs of the two calls\<close>

text \<open>A program that calls \<open>malloc\<close> and \<open>free\<close> in any order, asks only for memory for which there is room in the address
  space, frees only what it holds and does not write to headers. \<open>A\<close> is the set of the pointers that it holds.\<close>

inductive heap_run :: "umem \<Rightarrow> u32 set \<Rightarrow> bool" where
  start: "u_freep s = 0 \<Longrightarrow> u_base s \<noteq> 0 \<Longrightarrow> u_base s < u_brk s \<Longrightarrow> heap_run s {}"
| malloc: "heap_run s A \<Longrightarrow> heap_room s nbytes \<Longrightarrow> u_malloc nbytes s = Some (r, t) \<Longrightarrow> heap_run t (if r = 0 then A else insert r A)"
| free: "heap_run s A \<Longrightarrow> r \<in> A \<Longrightarrow> u_free r s = Some t \<Longrightarrow> heap_run t (A - {r})"

text \<open>A pointer that is held: its block lies in the heap and apart from the free space.\<close>

definition holds :: "umem \<Rightarrow> nat set \<Rightarrow> u32 \<Rightarrow> bool" where
  "holds s F r \<longleftrightarrow> r \<noteq> 0 \<and> u_base s < r - 8 \<and> h_size (u_heap s (r - 8)) \<noteq> 0 \<and> handed s r \<inter> F = {} \<and>
     unat (r - 8) + 8 * unat (h_size (u_heap s (r - 8))) \<le> unat (u_brk s)"

definition run_inv :: "umem \<Rightarrow> u32 set \<Rightarrow> nat set \<Rightarrow> bool" where
  "run_inv s A F \<longleftrightarrow> heap_inv s F \<and> (\<forall>r \<in> A. holds s F r) \<and> (u_freep s = 0 \<longrightarrow> A = {}) \<and>
     (\<forall>r \<in> A. \<forall>q \<in> A. r \<noteq> q \<longrightarrow> handed s r \<inter> handed s q = {})"

lemma handed_bound: "holds s F r \<Longrightarrow> k \<in> handed s r \<Longrightarrow> k < unat (u_brk s)"
  by (auto simp: holds_def handed_def block_def)

lemma holds_start: "holds s F r \<Longrightarrow> unat (r - 8) \<in> handed s r"
  by (simp add: holds_def handed_def block_start)

text \<open>A block whose header stays is held as before.\<close>

lemma holds_kept:
  assumes h: "holds s F r" and e: "u_heap t (r - 8) = u_heap s (r - 8)" and b: "u_base t = u_base s" "u_brk s \<le> u_brk t"
    and d: "handed s r \<inter> G = {}"
  shows "holds t G r" "handed t r = handed s r"
proof -
  show "handed t r = handed s r" by (simp add: handed_def e)
  then show "holds t G r" using h d b by (simp add: holds_def e word_le_nat_alt)
qed

lemma run_malloc:
  assumes i: "run_inv s A F" and n: "heap_room s nbytes"
  shows "\<exists>r t F'. u_malloc nbytes s = Some (r, t) \<and> r \<noteq> 0 \<and> run_inv t (insert r A) F' \<and> (\<forall>q \<in> A. handed t q = handed s q) \<and>
    r \<notin> A \<and> h_size (u_heap t (r - 8)) = malloc_units nbytes \<and> unat (u_brk t) \<le> unat (u_brk s) + 8 * max 4096 (request_units nbytes)"
proof -
  have hi: "heap_inv s F" using i by (simp add: run_inv_def)
  note u = unit_count [OF n]
  have "unat (u_brk s) + 8 * max 4096 (unat (malloc_units nbytes)) < 2 ^ 32" using n by (simp add: u(1) heap_room_def)
  from malloc_law [OF hi u(2) this] obtain r t where r: "u_malloc nbytes s = Some (r, t)" "u_freep t \<noteq> 0" "u_base t = u_base s" "u_brk s \<le> u_brk t"
    "\<forall>z. z \<noteq> u_base s \<longrightarrow> unat z \<notin> F \<union> new_bytes s t \<longrightarrow> u_heap t z = u_heap s z" "r \<noteq> 0"
    and b: "unat (u_brk t) \<le> unat (u_brk s) + 8 * max 4096 (request_units nbytes)"
    and t: "heap_inv t ((F \<union> new_bytes s t) - handed t r)" "handed t r \<subseteq> F \<union> new_bytes s t"
       "h_size (u_heap t (r - 8)) = malloc_units nbytes" "u_base t < r - 8" "unat (r - 8) + 8 * unat (malloc_units nbytes) \<le> unat (u_brk t)"
    unfolding u(1) by metis
  have old: "holds s F q" "handed s q \<inter> (F \<union> new_bytes s t) = {}" "u_heap t (q - 8) = u_heap s (q - 8)" if "q \<in> A" for q
  proof -
    show h: "holds s F q" using i that by (simp add: run_inv_def)
    show e: "handed s q \<inter> (F \<union> new_bytes s t) = {}" using h handed_bound [OF h] by (fastforce simp: holds_def new_bytes_def)
    have "unat (q - 8) \<notin> F \<union> new_bytes s t" "q - 8 \<noteq> u_base s" using e holds_start [OF h] h by (auto simp: holds_def)
    then show "u_heap t (q - 8) = u_heap s (q - 8)" using r(5) by blast
  qed
  have kept: "holds t G q" "handed t q = handed s q" if "q \<in> A" "G \<subseteq> F \<union> new_bytes s t" for q G
    using holds_kept [OF old(1) old(3) r(3,4), of q G] that old(2) [OF that(1)] by blast+
  have dj: "handed t p \<inter> handed t q = {}" if "p \<in> A" "q \<in> A" "p \<noteq> q" for p q
    using i that kept(2) [of _ "{}"] by (simp add: run_inv_def)
  let ?G = "(F \<union> new_bytes s t) - handed t r"
  have hr: "holds t ?G r" using t r(6) u(2) by (auto simp: holds_def)
  have rq: "handed t r \<inter> handed t q = {}" if "q \<in> A" for q using old(2) [OF that] kept(2) [OF that, of "{}"] t(2) by blast
  then have "r \<notin> A" using holds_start [OF hr] by blast
  moreover have "run_inv t (insert r A) ?G"
    unfolding run_inv_def using t(1) hr kept(1) [of _ ?G] r(2) rq dj by auto
  ultimately show ?thesis using r(1,6) t(3) b kept(2) [of _ "{}"] by (intro exI [of _ r] exI [of _ t] exI [of _ ?G]) simp
qed

lemma run_free:
  assumes i: "run_inv s A F" and r: "r \<in> A"
  shows "\<exists>t. u_free r s = Some t \<and> run_inv t (A - {r}) (F \<union> handed s r) \<and> (\<forall>q \<in> A - {r}. handed t q = handed s q) \<and> u_brk t = u_brk s"
proof -
  have hi: "heap_inv s F" "u_freep s \<noteq> 0" and h: "holds s F q" if "q \<in> A" for q using i r that by (auto simp: run_inv_def)
  note hr = h [OF r, unfolded holds_def]
  have "\<exists>t. u_free r s = Some t \<and> heap_inv t (F \<union> handed s r) \<and> u_freep t \<noteq> 0 \<and> u_base t = u_base s \<and> u_brk t = u_brk s \<and>
    (\<forall>z. z \<noteq> u_base s \<longrightarrow> unat z \<notin> F \<union> handed s r \<longrightarrow> u_heap t z = u_heap s z)"
    by (rule free_law) (use hr hi r in simp_all)
  then obtain t where t: "u_free r s = Some t" "heap_inv t (F \<union> handed s r)" "u_freep t \<noteq> 0" "u_base t = u_base s" "u_brk t = u_brk s"
    "\<forall>z. z \<noteq> u_base s \<longrightarrow> unat z \<notin> F \<union> handed s r \<longrightarrow> u_heap t z = u_heap s z" by blast
  have kept: "holds t (F \<union> handed s r) q" "handed t q = handed s q" if q: "q \<in> A - {r}" for q
  proof -
    have hq: "holds s F q" and d: "handed s q \<inter> (F \<union> handed s r) = {}" using h [of q] i q r by (auto simp: run_inv_def holds_def)
    have "unat (q - 8) \<notin> F \<union> handed s r" "q - 8 \<noteq> u_base s" using d holds_start [OF hq] hq by (auto simp: holds_def)
    then have "u_heap t (q - 8) = u_heap s (q - 8)" using t(6) by blast
    from holds_kept [OF hq this t(4) _ d] show "holds t (F \<union> handed s r) q" "handed t q = handed s q" using t(5) by simp_all
  qed
  have "run_inv t (A - {r}) (F \<union> handed s r)"
    unfolding run_inv_def using t(2,3) kept i by (auto simp: run_inv_def)
  then show ?thesis using t(1,5) kept(2) by blast
qed

lemma heap_run_inv: "heap_run s A \<Longrightarrow> \<exists>F. run_inv s A F"
proof (induction rule: heap_run.induct)
  case (start s)
  then have "run_inv s {} {}" by (simp add: run_inv_def heap_inv_def)
  then show ?case ..
next
  case (malloc s A nbytes r t)
  then obtain F where "run_inv s A F" by blast
  from run_malloc [OF this malloc.hyps(2)] malloc.hyps(3) show ?case by auto
next
  case (free s A r t)
  then obtain F where "run_inv s A F" by blast
  from run_free [OF this free.hyps(2)] free.hyps(3) show ?case by auto
qed


section \<open>Properties\<close>


text \<open>A user memory before the first call.\<close>

definition demo_umem :: umem where
  "demo_umem = \<lparr>u_heap = (\<lambda>_. \<lparr>h_ptr = 0, h_size = 0\<rparr>), u_freep = 0, u_base = 4096, u_brk = 8192\<rparr>"

lemma demo_run: "heap_run demo_umem {}"
  by (rule heap_run.start) (simp_all add: demo_umem_def)

lemma demo_room: "heap_room demo_umem 100"
  by (simp add: heap_room_def request_units_def demo_umem_def)

lemma demo_held: "\<exists>r t. u_malloc 100 demo_umem = Some (r, t) \<and> r \<noteq> 0"
proof -
  have "run_inv demo_umem {} {}" by (simp add: run_inv_def heap_inv_def demo_umem_def)
  from run_malloc [OF this demo_room] show ?thesis by blast
qed


text \<open>Free gives the block back. After malloc and free the free space is what it was before, with the memory by which
  malloc let the heap grow; free returns, and merges what touches (the list keeps a gap between its blocks).\<close>

theorem malloc_free_space:
  assumes "heap_inv s F" "heap_room s nbytes" "u_malloc nbytes s = Some (r, t)"
  shows "\<exists>v. u_free r t = Some v \<and> heap_inv v (F \<union> new_bytes s t) \<and> u_brk v = u_brk t"
proof -
  note u = unit_count [OF assms(2)]
  have "unat (u_brk s) + 8 * max 4096 (unat (malloc_units nbytes)) < 2 ^ 32" using assms(2) by (simp add: u(1) heap_room_def)
  note m = malloc_law [OF assms(1) u(2) this]
  have t: "heap_inv t (F \<union> new_bytes s t - handed t r)" "handed t r \<subseteq> F \<union> new_bytes s t" "u_freep t \<noteq> 0" "u_base t < r - 8"
    "h_size (u_heap t (r - 8)) = malloc_units nbytes" "unat (r - 8) + 8 * unat (malloc_units nbytes) \<le> unat (u_brk t)"
    using m assms(3) by auto
  have d: "handed t r \<inter> (F \<union> new_bytes s t - handed t r) = {}" by blast
  have e: "F \<union> new_bytes s t - handed t r \<union> handed t r = F \<union> new_bytes s t" using t(2) by blast
  show ?thesis using free_law [OF t(1,3,4) _ _ d] t(5,6) u(2) unfolding e by auto
qed

theorem malloc_free_space_witness:
  "\<exists>r t v. u_malloc 100 demo_umem = Some (r, t) \<and> u_free r t = Some v \<and> heap_inv v (new_bytes demo_umem t)"
proof -
  have i: "heap_inv demo_umem {}" by (simp add: heap_inv_def demo_umem_def)
  obtain r t where "u_malloc 100 demo_umem = Some (r, t)" using demo_held by blast
  then show ?thesis using malloc_free_space [OF i demo_room, of r t] by auto
qed

text \<open>C27: in every run of malloc and free calls whose requests have room in the address space the allocator stays in order: its list is circular, sorted and has a gap
  behind each block, and the blocks that the program holds lie below the break, apart from each other and from the free
  space.\<close>

theorem heap_run_apart:
  assumes "heap_run s A"
  shows "\<exists>F. heap_inv s F \<and> (\<forall>r \<in> A. handed s r \<inter> F = {} \<and> handed s r \<noteq> {} \<and> (\<forall>k \<in> handed s r. k < unat (u_brk s)) \<and>
    (\<forall>q \<in> A - {r}. handed s r \<inter> handed s q = {}))"
proof -
  obtain F where i: "run_inv s A F" using heap_run_inv [OF assms] by blast
  then have h: "holds s F r" if "r \<in> A" for r using that by (simp add: run_inv_def)
  have d: "handed s r \<inter> handed s q = {}" if "r \<in> A" "q \<in> A - {r}" for r q using i that unfolding run_inv_def by blast
  have "handed s r \<inter> F = {} \<and> handed s r \<noteq> {} \<and> (\<forall>k \<in> handed s r. k < unat (u_brk s)) \<and>
    (\<forall>q \<in> A - {r}. handed s r \<inter> handed s q = {})" if "r \<in> A" for r
    using h [OF that] handed_bound [OF h [OF that]] holds_start [OF h [OF that]] d [OF that] unfolding holds_def by blast
  moreover have "heap_inv s F" using i by (simp add: run_inv_def)
  ultimately show ?thesis by blast
qed

theorem heap_run_apart_witness:
  "\<exists>r t. u_malloc 100 demo_umem = Some (r, t) \<and> handed t r \<noteq> {} \<and> handed t r \<subseteq> {..<unat (u_brk t)}"
proof -
  obtain r t where r: "u_malloc 100 demo_umem = Some (r, t)" "r \<noteq> 0" using demo_held by blast
  have "heap_run t {r}" using heap_run.malloc [OF demo_run demo_room r(1)] r(2) by simp
  from heap_run_apart [OF this] show ?thesis using r(1) by blast
qed

text \<open>The sum for the units wraps: a request for 4294967295 bytes is served with a block that holds no byte at all.\<close>

theorem malloc_wraps:
  assumes "heap_inv s F" "unat (u_brk s) + 32768 < 2 ^ 32"
  shows "\<exists>r t. u_malloc 4294967295 s = Some (r, t) \<and> r \<noteq> 0 \<and> handed t r = {unat (r - 8)..<unat (r - 8) + 8}"
proof -
  have u: "malloc_units 4294967295 = 1" by (simp add: malloc_units_def)
  show ?thesis
    using malloc_law [OF assms(1), of 4294967295] assms(2) unfolding u by (auto simp: handed_def block_def)
qed

end
