(* ===== verification/Shell.thy ===== *)
theory Shell
  imports Prelude
begin

text \<open>
  The parser of sh.c. The line is an array of bytes; pointers into it are indices, and a token is the pair of the
  pointers \<open>q\<close> and \<open>eq\<close> to its start and behind its end. \<open>strchr\<close> of the user library does not find the NUL. Memory
  for the nodes of a command is taken as available. A \<open>panic\<close> ends the shell's child; its value is what it prints.
\<close>

section \<open>Commands\<close>

definition MAXARGS :: nat where "MAXARGS = 10"

datatype 'w cmd = Exec "'w list" | Redir "'w cmd" 'w u32 nat | PipeCmd "'w cmd" "'w cmd" | ListCmd "'w cmd" "'w cmd" | Back "'w cmd"

type_synonym token = "nat \<times> nat"

text \<open>Results: \<open>Deep\<close> is for a recursion deeper than the bound that the functions are given.\<close>

datatype 'a parse = Parsed 'a | Failed "byte list" | Deep

definition pbind :: "'a parse \<Rightarrow> ('a \<Rightarrow> 'b parse) \<Rightarrow> 'b parse" where
  "pbind r f = (case r of Parsed x \<Rightarrow> f x | Failed m \<Rightarrow> Failed m | Deep \<Rightarrow> Deep)"

lemma pbind_simps [simp]: "pbind (Parsed x) f = f x" "pbind (Failed m) f = Failed m" "pbind Deep f = Deep"
  by (simp_all add: pbind_def)

lemma pbind_Parsed: "pbind r f = Parsed y \<longleftrightarrow> (\<exists>x. r = Parsed x \<and> f x = Parsed y)"
  by (cases r) simp_all

lemma pbind_Deep: "pbind r f = Deep \<longleftrightarrow> r = Deep \<or> (\<exists>x. r = Parsed x \<and> f x = Deep)"
  by (cases r) simp_all

lemma pbind_cong [fundef_cong]: "r = r' \<Longrightarrow> (\<And>x. r' = Parsed x \<Longrightarrow> f x = g x) \<Longrightarrow> pbind r f = pbind r' g"
  by (cases r') simp_all

definition sh_panic :: "string \<Rightarrow> 'a parse" where
  "sh_panic m = Failed (str_bytes m @ [10])"

lemma sh_panic_simps [simp]: "sh_panic m \<noteq> Parsed x" "sh_panic m \<noteq> Deep"
  by (simp_all add: sh_panic_def)

section \<open>Tokens\<close>

definition whitespace :: "byte set" where "whitespace = {32, 9, 13, 10, 11}"
definition symbols :: "byte set" where "symbols = {60, 124, 62, 38, 59, 40, 41}"

text \<open>The byte at \<open>s\<close>; the line \<open>b\<close> is what comes before the NUL.\<close>

definition byte_at :: "byte list \<Rightarrow> nat \<Rightarrow> byte" where
  "byte_at b s = (if s < length b then b ! s else 0)"

function skip_white :: "byte list \<Rightarrow> nat \<Rightarrow> nat" where
  "skip_white b s = (if s < length b \<and> byte_at b s \<in> whitespace then skip_white b (s + 1) else s)"
  by pat_completeness auto
termination by (relation "measure (\<lambda>(b, s). length b - s)") auto

function skip_word :: "byte list \<Rightarrow> nat \<Rightarrow> nat" where
  "skip_word b s =
     (if s < length b \<and> byte_at b s \<notin> whitespace \<and> byte_at b s \<notin> symbols then skip_word b (s + 1) else s)"
  by pat_completeness auto
termination by (relation "measure (\<lambda>(b, s). length b - s)") auto

declare skip_white.simps [simp del] skip_word.simps [simp del]

text \<open>The result, the pointers \<open>q\<close> and \<open>eq\<close>, and the new value of \<open>*ps\<close>. \<open>'a'\<close> stands for a word, \<open>'+'\<close> for \<open>>>\<close>.\<close>

definition gettoken :: "byte list \<Rightarrow> nat \<Rightarrow> byte \<times> token \<times> nat" where
  "gettoken b s =
     (let s = skip_white b s; q = s; ret = byte_at b s;
          (ret, s) =
            (if ret = 0 then (ret, s)
             else if ret \<in> {124, 40, 41, 59, 38, 60} then (ret, s + 1)
             else if ret = 62 then
               let s = s + 1 in if byte_at b s = 62 then (43, s + 1) else (ret, s)
             else (97, skip_word b s)) in
      (ret, (q, s), skip_white b s))"

definition peek :: "byte list \<Rightarrow> nat \<Rightarrow> byte set \<Rightarrow> bool \<times> nat" where
  "peek b s toks = (let s = skip_white b s in (byte_at b s \<noteq> 0 \<and> byte_at b s \<in> toks, s))"

lemma skip_white_le: "s \<le> skip_white b s" "skip_white b s \<le> max s (length b)"
  by (induction b s rule: skip_white.induct) (subst skip_white.simps, auto; fail)+

lemma skip_word_le: "s \<le> skip_word b s" "skip_word b s \<le> max s (length b)"
  by (induction b s rule: skip_word.induct) (subst skip_word.simps, auto; fail)+

lemma skip_white_stop: "byte_at b (skip_white b s) \<notin> whitespace"
  by (induction b s rule: skip_white.induct) (subst skip_white.simps, auto simp: byte_at_def whitespace_def)

lemma skip_word_moves: "s < length b \<Longrightarrow> byte_at b s \<notin> whitespace \<Longrightarrow> byte_at b s \<notin> symbols \<Longrightarrow> s < skip_word b s"
  using skip_word_le(1) [of "s + 1" b] by (simp add: skip_word.simps [of b s])

lemma byte_at_less: "byte_at b s \<noteq> 0 \<Longrightarrow> s < length b"
  by (auto simp: byte_at_def split: if_splits)

text \<open>Every token but the end moves on.\<close>

lemma gettoken_moves:
  assumes "gettoken b s = (tok, x, s')"
  shows "s \<le> s'" "tok \<noteq> 0 \<Longrightarrow> s < s'" "s \<le> length b \<Longrightarrow> s' \<le> length b"
proof -
  let ?s = "skip_white b s"
  have w: "s \<le> ?s" "?s \<le> max s (length b)" by (rule skip_white_le)+
  define k where "k = snd (fst (snd (gettoken b s)))"
  have s': "s' = skip_white b k" using assms by (auto simp: gettoken_def k_def Let_def split: if_splits)
  have k: "?s \<le> k" "tok \<noteq> 0 \<Longrightarrow> ?s < k" "?s \<le> length b \<Longrightarrow> k \<le> length b"
    using assms skip_word_le [where b = b and s = ?s] byte_at_less [of b ?s] byte_at_less [of b "?s + 1"]
      skip_word_moves [of ?s b] skip_white_stop [of b s]
    by (auto simp: gettoken_def k_def Let_def symbols_def split: if_splits)
  have "k \<le> s'" "s' \<le> max k (length b)" unfolding s' by (rule skip_white_le)+
  then show "s \<le> s'" "tok \<noteq> 0 \<Longrightarrow> s < s'" "s \<le> length b \<Longrightarrow> s' \<le> length b" using k w by auto
qed

lemma peek_moves:
  assumes "peek b s toks = (t, s')"
  shows "s \<le> s'" "t \<Longrightarrow> s' < length b" "s \<le> length b \<Longrightarrow> s' \<le> length b" "t \<longleftrightarrow> byte_at b s' \<noteq> 0 \<and> byte_at b s' \<in> toks"
  using assms skip_white_le [where b = b and s = s] byte_at_less [of b "skip_white b s"] by (auto simp: peek_def Let_def)

lemma skip_white_id: "byte_at b s \<notin> whitespace \<Longrightarrow> skip_white b s = s"
  by (subst skip_white.simps) simp

lemma gettoken_end: "gettoken b s = (tok, q, s') \<Longrightarrow> tok = 0 \<longleftrightarrow> byte_at b (skip_white b s) = 0"
  by (auto simp: gettoken_def Let_def split: if_splits)

lemma peek_token:
  assumes "peek b s toks = (True, s1)" "gettoken b s1 = (tok, q, s2)"
  shows "tok \<noteq> 0" "length b - s2 < length b - s"
proof -
  have "skip_white b s1 = s1" using assms(1) skip_white_id [OF skip_white_stop [of b s]] by (auto simp: peek_def Let_def)
  then show "tok \<noteq> 0" using gettoken_end [OF assms(2)] peek_moves(4) [OF assms(1)] by simp
  then show "length b - s2 < length b - s" using peek_moves(1,2) [OF assms(1)] gettoken_moves(2) [OF assms(2)] by simp
qed

lemma two_tokens:
  assumes "peek b s toks = (True, s1)" "gettoken b s1 = (tok, q, s2)" "gettoken b s2 = (tok2, q2, s3)" "tok2 \<noteq> 0"
  shows "length b - s3 < length b - s"
  using peek_moves [OF assms(1)] gettoken_moves [OF assms(2)] gettoken_moves [OF assms(3)] assms(4) by simp

text \<open>Redirections after a command; the mode of \<open>>>\<close> is that of \<open>>\<close>.\<close>

definition redir_node :: "byte \<Rightarrow> 'w cmd \<Rightarrow> 'w \<Rightarrow> 'w cmd" where
  "redir_node tok c q =
     (if tok = 60 then Redir c q O_RDONLY 0
      else if tok = 62 then Redir c q (O_WRONLY OR O_CREATE) 1
      else if tok = 43 then Redir c q (O_WRONLY OR O_CREATE) 1
      else c)"

function parseredirs :: "token cmd \<Rightarrow> byte list \<Rightarrow> nat \<Rightarrow> (token cmd \<times> nat) parse" where
  "parseredirs c b s =
     (let (t, s) = peek b s {60, 62} in
      if \<not> t then Parsed (c, s)
      else
        let (tok, _, s) = gettoken b s; (tok2, q, s) = gettoken b s in
        if tok2 \<noteq> 97 then sh_panic ''missing file for redirection''
        else parseredirs (redir_node tok c q) b s)"
  by pat_completeness auto
termination
  by (relation "measure (\<lambda>(c, b, s). length b - s)") (auto intro: two_tokens [OF sym sym sym])

declare parseredirs.simps [simp del]

lemma parseredirs_eq:
  assumes "peek b s {60, 62} = (t, s1)" "gettoken b s1 = (tok, q1, s2)" "gettoken b s2 = (tok2, q, s3)"
  shows "parseredirs c b s =
    (if \<not> t then Parsed (c, s1)
     else if tok2 \<noteq> 97 then sh_panic ''missing file for redirection'' else parseredirs (redir_node tok c q) b s3)"
  using assms by (simp add: parseredirs.simps [of c b s])

text \<open>Induction along the redirections of a line.\<close>

lemma parseredirs_induct:
  assumes "\<And>c s t s1 tok q1 s2 tok2 q s3. peek b s {60, 62} = (t, s1) \<Longrightarrow> gettoken b s1 = (tok, q1, s2) \<Longrightarrow>
    gettoken b s2 = (tok2, q, s3) \<Longrightarrow> (t \<Longrightarrow> tok2 = 97 \<Longrightarrow> P (redir_node tok c q) s3) \<Longrightarrow> P c s"
  shows "P c s"
proof (induction "length b - s" arbitrary: c s rule: less_induct)
  case less
  obtain t s1 where p: "peek b s {60, 62} = (t, s1)" by fastforce
  obtain tok q1 s2 where g: "gettoken b s1 = (tok, q1, s2)" by (cases "gettoken b s1") auto
  obtain tok2 q s3 where h: "gettoken b s2 = (tok2, q, s3)" by (cases "gettoken b s2") auto
  show ?case
  proof (rule assms [OF p g h])
    assume t: "t" "tok2 = 97"
    have "length b - s3 < length b - s" by (rule two_tokens [OF _ g h]) (use p t in simp_all)
    then show "P (redir_node tok c q) s3" by (rule less)
  qed
qed

lemma parseredirs_moves: "parseredirs c b s = Parsed (d, s') \<Longrightarrow> s \<le> s' \<and> (s \<le> length b \<longrightarrow> s' \<le> length b)"
proof (induction c s rule: parseredirs_induct [where b = b])
  case (1 c s t s1 tok q1 s2 tok2 q s3)
  note m = peek_moves [OF 1(1)] gettoken_moves [OF 1(2)] gettoken_moves [OF 1(3)]
  show ?case using 1(4,5) m by (auto simp: parseredirs_eq [OF 1(1-3)] split: if_splits)
qed

text \<open>The node of the command proper lies under its redirections; its arrays are filled through \<open>cmd\<close>.\<close>

fun add_arg :: "'w cmd \<Rightarrow> 'w \<Rightarrow> 'w cmd" where
  "add_arg (Exec ws) w = Exec (ws @ [w])"
| "add_arg (Redir c f m d) w = Redir (add_arg c w) f m d"
| "add_arg c w = c"

text \<open>The loop of \<open>parseexec\<close>.\<close>

function exec_loop :: "nat \<Rightarrow> token cmd \<Rightarrow> byte list \<Rightarrow> nat \<Rightarrow> (token cmd \<times> nat) parse" where
  "exec_loop argc c b s =
     (let (t, s) = peek b s {124, 41, 38, 59} in
      if t then Parsed (c, s)
      else
        let (tok, q, s) = gettoken b s in
        if tok = 0 then Parsed (c, s)
        else if tok \<noteq> 97 then sh_panic ''syntax''
        else if MAXARGS \<le> argc + 1 then sh_panic ''too many args''
        else pbind (parseredirs (add_arg c q) b s) (\<lambda>(c, s). exec_loop (argc + 1) c b s))"
  by pat_completeness auto
termination by (relation "measure (\<lambda>(argc, c, b, s). MAXARGS - argc)") auto

declare exec_loop.simps [simp del]

lemma exec_loop_eq:
  assumes "peek b s {124, 41, 38, 59} = (t, s1)" "gettoken b s1 = (tok, q, s2)"
  shows "exec_loop argc c b s =
    (if t \<or> tok = 0 then Parsed (c, if t then s1 else s2)
     else if tok \<noteq> 97 then sh_panic ''syntax''
     else if MAXARGS \<le> argc + 1 then sh_panic ''too many args''
     else pbind (parseredirs (add_arg c q) b s2) (\<lambda>(c, s). exec_loop (argc + 1) c b s))"
  using assms by (simp add: exec_loop.simps [of argc c b s])

lemma exec_loop_induct:
  assumes "\<And>argc c s t s1 tok q s2. peek b s {124, 41, 38, 59} = (t, s1) \<Longrightarrow> gettoken b s1 = (tok, q, s2) \<Longrightarrow>
    (\<And>d s3. \<not> t \<Longrightarrow> tok = 97 \<Longrightarrow> argc + 1 < MAXARGS \<Longrightarrow> parseredirs (add_arg c q) b s2 = Parsed (d, s3) \<Longrightarrow> P (argc + 1) d s3) \<Longrightarrow>
    P argc c s"
  shows "P argc c s"
proof (induction "MAXARGS - argc" arbitrary: argc c s rule: less_induct)
  case (less argc c s)
  obtain t s1 where p: "peek b s {124, 41, 38, 59} = (t, s1)" by fastforce
  obtain tok q s2 where g: "gettoken b s1 = (tok, q, s2)" by (cases "gettoken b s1") auto
  show ?case
  proof (rule assms [OF p g])
    fix d s3 assume "argc + 1 < MAXARGS"
    then have "MAXARGS - (argc + 1) < MAXARGS - argc" by simp
    then show "P (argc + 1) d s3" by (rule less)
  qed
qed

text \<open>The loop of \<open>parseline\<close>.\<close>

function parse_backs :: "token cmd \<Rightarrow> byte list \<Rightarrow> nat \<Rightarrow> token cmd \<times> nat" where
  "parse_backs c b s =
     (let (t, s) = peek b s {38} in
      if t then let (_, _, s) = gettoken b s in parse_backs (Back c) b s else (c, s))"
  by pat_completeness auto
termination
  by (relation "measure (\<lambda>(c, b, s). length b - s)") (auto intro: peek_token(2) [OF sym sym])

declare parse_backs.simps [simp del]

lemma parse_backs_eq:
  assumes "peek b s {38} = (t, s1)" "gettoken b s1 = (tok, q, s2)"
  shows "parse_backs c b s = (if t then parse_backs (Back c) b s2 else (c, s1))"
  using assms by (simp add: parse_backs.simps [of c b s])

lemma parse_backs_induct:
  assumes "\<And>c s t s1 tok q s2. peek b s {38} = (t, s1) \<Longrightarrow> gettoken b s1 = (tok, q, s2) \<Longrightarrow> (t \<Longrightarrow> P (Back c) s2) \<Longrightarrow> P c s"
  shows "P c s"
proof (induction "length b - s" arbitrary: c s rule: less_induct)
  case less
  obtain t s1 where p: "peek b s {38} = (t, s1)" by fastforce
  obtain tok q s2 where g: "gettoken b s1 = (tok, q, s2)" by (cases "gettoken b s1") auto
  show ?case
  proof (rule assms [OF p g])
    assume "t"
    then have "length b - s2 < length b - s" using peek_token(2) [OF _ g] p by simp
    then show "P (Back c) s2" by (rule less)
  qed
qed

text \<open>The four functions of the grammar; the first argument bounds the recursion.\<close>

fun parseline :: "nat \<Rightarrow> byte list \<Rightarrow> nat \<Rightarrow> (token cmd \<times> nat) parse"
  and parsepipe :: "nat \<Rightarrow> byte list \<Rightarrow> nat \<Rightarrow> (token cmd \<times> nat) parse"
  and parseexec :: "nat \<Rightarrow> byte list \<Rightarrow> nat \<Rightarrow> (token cmd \<times> nat) parse"
  and parseblock :: "nat \<Rightarrow> byte list \<Rightarrow> nat \<Rightarrow> (token cmd \<times> nat) parse" where
  "parseline 0 b s = Deep"
| "parseline (Suc n) b s =
     pbind (parsepipe n b s) (\<lambda>(c, s).
     let (c, s) = parse_backs c b s; (t, s) = peek b s {59} in
     if t then let (_, _, s) = gettoken b s in pbind (parseline n b s) (\<lambda>(d, s). Parsed (ListCmd c d, s))
     else Parsed (c, s))"
| "parsepipe 0 b s = Deep"
| "parsepipe (Suc n) b s =
     pbind (parseexec n b s) (\<lambda>(c, s).
     let (t, s) = peek b s {124} in
     if t then let (_, _, s) = gettoken b s in pbind (parsepipe n b s) (\<lambda>(d, s). Parsed (PipeCmd c d, s))
     else Parsed (c, s))"
| "parseexec 0 b s = Deep"
| "parseexec (Suc n) b s =
     (let (t, s) = peek b s {40} in
      if t then parseblock n b s
      else pbind (parseredirs (Exec []) b s) (\<lambda>(c, s). exec_loop 0 c b s))"
| "parseblock 0 b s = Deep"
| "parseblock (Suc n) b s =
     (let (t, s) = peek b s {40} in
      if \<not> t then sh_panic ''parseblock''
      else
        let (_, _, s) = gettoken b s in
        pbind (parseline n b s) (\<lambda>(c, s).
        let (t, s) = peek b s {41} in
        if \<not> t then sh_panic ''syntax - missing )''
        else let (_, _, s) = gettoken b s in parseredirs c b s))"

section \<open>The line\<close>

text \<open>\<open>nulterminate\<close> writes a NUL behind every word of the command.\<close>

fun nulterminate :: "token cmd \<Rightarrow> byte list \<Rightarrow> byte list" where
  "nulterminate (Exec ws) m = fold (\<lambda>(q, eq) m. m[eq := 0]) ws m"
| "nulterminate (Redir c (q, eq) mode fd) m = (nulterminate c m)[eq := 0]"
| "nulterminate (PipeCmd l r) m = nulterminate r (nulterminate l m)"
| "nulterminate (ListCmd l r) m = nulterminate r (nulterminate l m)"
| "nulterminate (Back c) m = nulterminate c m"

text \<open>\<open>parsecmd\<close> on the array \<open>m\<close> that holds the line; its recursion is at most four calls deep for each character.\<close>

definition parsecmd :: "byte list \<Rightarrow> (token cmd \<times> byte list) parse" where
  "parsecmd m =
     (let b = takeWhile (\<lambda>c. c \<noteq> 0) m in
      pbind (parseline (4 * length b + 4) b 0) (\<lambda>(c, s).
      let (_, s) = peek b s {} in
      if s \<noteq> length b
      then Failed (str_bytes ''leftovers: '' @ drop s b @ [10] @ str_bytes ''syntax'' @ [10])
      else Parsed (c, nulterminate c m)))"

end
