(* ===== verification/Shell_Parse.thy ===== *)
theory Shell_Parse
  imports Shell
begin

text \<open>What the parser of sh.c promises on every line: it ends, the commands it builds are well formed, and after
  \<open>nulterminate\<close> every word of the command is a string of its own in the line.\<close>

section \<open>Termination\<close>

lemma parseredirs_not_Deep [simp]: "parseredirs c b s \<noteq> Deep"
  by (induction c s rule: parseredirs_induct [where b = b]) (auto simp: parseredirs_eq)

lemma exec_loop_not_Deep [simp]: "exec_loop argc c b s \<noteq> Deep"
  by (induction argc c s rule: exec_loop_induct [where b = b]) (auto simp: exec_loop_eq pbind_Deep)

text \<open>Positions stay in the line and never go back.\<close>

definition onward :: "byte list \<Rightarrow> nat \<Rightarrow> nat \<Rightarrow> bool" where
  "onward b s s' \<longleftrightarrow> s \<le> s' \<and> (s \<le> length b \<longrightarrow> s' \<le> length b)"

lemma onward_trans: "onward b s s1 \<Longrightarrow> onward b s1 s2 \<Longrightarrow> onward b s s2"
  by (auto simp: onward_def)

lemma onward_steps:
  "peek b s toks = (t, s') \<Longrightarrow> onward b s s'" "gettoken b s = (tok, q, s') \<Longrightarrow> onward b s s'"
  "parseredirs c b s = Parsed (d, s') \<Longrightarrow> onward b s s'"
proof -
  show "peek b s toks = (t, s') \<Longrightarrow> onward b s s'" unfolding onward_def using peek_moves(1,3) [of b s toks t s'] by blast
  show "gettoken b s = (tok, q, s') \<Longrightarrow> onward b s s'" unfolding onward_def using gettoken_moves(1,3) [of b s tok q s'] by blast
  show "parseredirs c b s = Parsed (d, s') \<Longrightarrow> onward b s s'" by (drule parseredirs_moves) (simp add: onward_def)
qed

lemma exec_loop_onward: "exec_loop argc c b s = Parsed (d, s') \<Longrightarrow> onward b s s'"
proof (induction argc c s rule: exec_loop_induct [where b = b])
  case (1 argc c s t s1 tok q s2)
  note o = onward_steps(1) [OF 1(1)] onward_steps(2) [OF 1(2)]
  show ?case
  proof (cases "\<not> t \<and> tok = 97 \<and> argc + 1 < MAXARGS")
    case True
    then obtain e s3 where e: "parseredirs (add_arg c q) b s2 = Parsed (e, s3)" "exec_loop (argc + 1) e b s3 = Parsed (d, s')"
      using 1(4) by (auto simp: exec_loop_eq [OF 1(1,2)] pbind_Parsed)
    then have "onward b s3 s'" using 1(3) [OF _ _ _ e(1)] True by simp
    then show ?thesis using o onward_steps(3) [OF e(1)] by (simp add: onward_def)
  next
    case False
    then show ?thesis using 1(4) o by (auto simp: exec_loop_eq [OF 1(1,2)] onward_def split: if_splits)
  qed
qed

lemma parse_backs_onward: "parse_backs c b s = (d, s') \<Longrightarrow> onward b s s'"
proof (induction c s rule: parse_backs_induct [where b = b])
  case (1 c s t s1 tok q s2)
  note o = onward_steps(1) [OF 1(1)] onward_steps(2) [OF 1(2)]
  then show ?case using 1(3,4) by (auto simp: parse_backs_eq [OF 1(1,2)] onward_def split: if_splits)
qed

text \<open>The four functions by one call of the others.\<close>

lemma parseline_eq:
  assumes "parsepipe n b s = Parsed (c, s1)" "parse_backs c b s1 = (d, s2)" "peek b s2 {59} = (t, s3)" "gettoken b s3 = (tok, q, s4)"
  shows "parseline (Suc n) b s = (if t then pbind (parseline n b s4) (\<lambda>(e, s). Parsed (ListCmd d e, s)) else Parsed (d, s3))"
  using assms by simp

lemma parsepipe_eq:
  assumes "parseexec n b s = Parsed (c, s1)" "peek b s1 {124} = (t, s2)" "gettoken b s2 = (tok, q, s3)"
  shows "parsepipe (Suc n) b s = (if t then pbind (parsepipe n b s3) (\<lambda>(d, s). Parsed (PipeCmd c d, s)) else Parsed (c, s2))"
  using assms by simp

lemma parseexec_eq:
  assumes "peek b s {40} = (t, s1)"
  shows "parseexec (Suc n) b s =
    (if t then parseblock n b s1 else pbind (parseredirs (Exec []) b s1) (\<lambda>(c, s). exec_loop 0 c b s))"
  using assms by simp

lemma parseblock_eq:
  assumes "peek b s {40} = (True, s1)" "gettoken b s1 = (tok, q, s2)" "parseline n b s2 = Parsed (c, s3)" "peek b s3 {41} = (t, s4)"
    "gettoken b s4 = (tok2, q2, s5)"
  shows "parseblock (Suc n) b s = (if \<not> t then sh_panic ''syntax - missing )'' else parseredirs c b s5)"
  using assms by simp

declare parseline.simps(2) [simp del] parsepipe.simps(2) [simp del] parseexec.simps(2) [simp del] parseblock.simps(2) [simp del]

section \<open>Well-formed commands\<close>

text \<open>At most nine arguments, the last element of \<open>argv\<close> stays 0; a redirection reads into 0 or writes from 1.\<close>

fun wf_cmd :: "'w cmd \<Rightarrow> bool" where
  "wf_cmd (Exec ws) \<longleftrightarrow> length ws < MAXARGS"
| "wf_cmd (Redir c f mode fd) \<longleftrightarrow> (mode = O_RDONLY \<and> fd = 0 \<or> mode = (O_WRONLY OR O_CREATE) \<and> fd = 1) \<and> wf_cmd c"
| "wf_cmd (PipeCmd l r) \<longleftrightarrow> wf_cmd l \<and> wf_cmd r"
| "wf_cmd (ListCmd l r) \<longleftrightarrow> wf_cmd l \<and> wf_cmd r"
| "wf_cmd (Back c) \<longleftrightarrow> wf_cmd c"

definition word_char :: "byte \<Rightarrow> bool" where
  "word_char x \<longleftrightarrow> x \<noteq> 0 \<and> x \<notin> whitespace \<and> x \<notin> symbols"

text \<open>A token is a longest sequence of word characters.\<close>

definition word_token :: "byte list \<Rightarrow> token \<Rightarrow> bool" where
  "word_token b = (\<lambda>(q, e). q < e \<and> e \<le> length b \<and> (\<forall>i \<in> {q..<e}. word_char (byte_at b i)) \<and> \<not> word_char (byte_at b e))"

definition cmd_ok :: "byte list \<Rightarrow> token cmd \<Rightarrow> bool" where
  "cmd_ok b c \<longleftrightarrow> wf_cmd c \<and> (\<forall>w \<in> set_cmd c. word_token b w)"

lemma cmd_ok_simps [simp]:
  "cmd_ok b (Exec ws) \<longleftrightarrow> length ws < MAXARGS \<and> (\<forall>w \<in> set ws. word_token b w)"
  "cmd_ok b (PipeCmd l r) \<longleftrightarrow> cmd_ok b l \<and> cmd_ok b r" "cmd_ok b (ListCmd l r) \<longleftrightarrow> cmd_ok b l \<and> cmd_ok b r"
  "cmd_ok b (Back l) \<longleftrightarrow> cmd_ok b l"
  by (auto simp: cmd_ok_def)

lemma skip_word_span:
  assumes "0 \<notin> set b" "s \<le> length b"
  shows "skip_word b s \<le> length b" "\<not> word_char (byte_at b (skip_word b s))" "s \<le> i \<Longrightarrow> i < skip_word b s \<Longrightarrow> word_char (byte_at b i)"
proof -
  show "skip_word b s \<le> length b" using skip_word_le(2) [of b s] assms(2) by simp
  show "\<not> word_char (byte_at b (skip_word b s))"
    by (induction b s rule: skip_word.induct) (subst skip_word.simps, auto simp: word_char_def byte_at_def)
  show "s \<le> i \<Longrightarrow> i < skip_word b s \<Longrightarrow> word_char (byte_at b i)"
    using assms(1)
  proof (induction b s rule: skip_word.induct)
    case (1 b s)
    show ?case
    proof (cases "s < length b \<and> byte_at b s \<notin> whitespace \<and> byte_at b s \<notin> symbols")
      case True
      then have e: "skip_word b s = skip_word b (s + 1)" by (subst skip_word.simps) simp
      have "byte_at b s \<noteq> 0" using True "1.prems"(3) nth_mem [of s b] by (auto simp: byte_at_def simp del: nth_mem)
      then have "word_char (byte_at b s)" using True by (simp add: word_char_def)
      then show ?thesis using "1.IH" [OF True] "1.prems" e by (cases "i = s") simp_all
    next
      case False
      then have "skip_word b s = s" by (subst skip_word.simps) (rule if_not_P)
      then show ?thesis using "1.prems" by simp
    qed
  qed
qed

lemma gettoken_word:
  assumes "gettoken b s = (97, q, s')" "0 \<notin> set b"
  shows "word_token b q"
proof -
  let ?s = "skip_white b s"
  have q: "q = (?s, skip_word b ?s)" and c: "byte_at b ?s \<noteq> 0" "byte_at b ?s \<notin> symbols"
    using assms(1) by (auto simp: gettoken_def Let_def symbols_def split: if_splits)
  have l: "?s < length b" by (rule byte_at_less [OF c(1)])
  note sp = skip_word_span [OF assms(2) less_imp_le [OF l]]
  show ?thesis unfolding q word_token_def using skip_word_moves [OF l skip_white_stop c(2)] sp by simp
qed

text \<open>How many arguments the command under the redirections has.\<close>

fun nargs :: "'w cmd \<Rightarrow> nat option" where
  "nargs (Exec ws) = Some (length ws)"
| "nargs (Redir c f m d) = nargs c"
| "nargs c = None"

lemma redir_node_ok:
  "cmd_ok b c \<Longrightarrow> word_token b q \<Longrightarrow> cmd_ok b (redir_node tok c q)" "nargs (redir_node tok c q) = nargs c"
  by (auto simp: redir_node_def cmd_ok_def)

lemma add_arg_ok:
  "nargs c = Some k \<Longrightarrow> k + 1 < MAXARGS \<Longrightarrow> cmd_ok b c \<Longrightarrow> word_token b q \<Longrightarrow> cmd_ok b (add_arg c q)"
  "nargs c = Some k \<Longrightarrow> nargs (add_arg c q) = Some (k + 1)"
  by (induction c) (auto simp: cmd_ok_def)

lemma parseredirs_ok:
  assumes "0 \<notin> set b"
  shows "parseredirs c b s = Parsed (d, s') \<Longrightarrow> cmd_ok b c \<Longrightarrow> cmd_ok b d \<and> nargs d = nargs c"
proof (induction c s rule: parseredirs_induct [where b = b])
  case (1 c s t s1 tok q1 s2 tok2 q s3)
  then show ?case using redir_node_ok gettoken_word [of b s2 q s3] assms
    by (auto simp: parseredirs_eq [OF 1(1-3)] split: if_splits)
qed

lemma exec_loop_ok:
  assumes "0 \<notin> set b"
  shows "exec_loop argc c b s = Parsed (d, s') \<Longrightarrow> cmd_ok b c \<Longrightarrow> nargs c = Some argc \<Longrightarrow> cmd_ok b d"
proof (induction argc c s rule: exec_loop_induct [where b = b])
  case (1 argc c s t s1 tok q s2)
  show ?case
  proof (cases "\<not> t \<and> tok = 97 \<and> argc + 1 < MAXARGS")
    case True
    then obtain e s3 where e: "parseredirs (add_arg c q) b s2 = Parsed (e, s3)" "exec_loop (argc + 1) e b s3 = Parsed (d, s')"
      using 1(4) by (auto simp: exec_loop_eq [OF 1(1,2)] pbind_Parsed)
    have "word_token b q" using gettoken_word [of b s1 q s2] 1(2) True assms by simp
    then have "cmd_ok b (add_arg c q)" "nargs (add_arg c q) = Some (argc + 1)" using add_arg_ok 1(5,6) True by blast+
    then have "cmd_ok b e" "nargs e = Some (argc + 1)" using parseredirs_ok [OF assms e(1)] by simp_all
    then show ?thesis using 1(3) [OF _ _ _ e(1)] e(2) True by simp
  next
    case False
    then show ?thesis using 1(4,5) by (auto simp: exec_loop_eq [OF 1(1,2)] split: if_splits)
  qed
qed

lemma parse_backs_ok: "parse_backs c b s = (d, s') \<Longrightarrow> cmd_ok b c \<Longrightarrow> cmd_ok b d"
proof (induction c s rule: parse_backs_induct [where b = b])
  case (1 c s t s1 tok q s2)
  then show ?case by (auto simp: parse_backs_eq [OF 1(1,2)] split: if_splits)
qed

section \<open>The grammar\<close>

definition parsed_ok :: "byte list \<Rightarrow> nat \<Rightarrow> (token cmd \<times> nat) parse \<Rightarrow> bool" where
  "parsed_ok b s r \<longleftrightarrow> (\<forall>c s'. r = Parsed (c, s') \<longrightarrow> onward b s s' \<and> cmd_ok b c)"

lemma parsed_okI: "(\<And>c s'. r = Parsed (c, s') \<Longrightarrow> onward b s s' \<and> cmd_ok b c) \<Longrightarrow> parsed_ok b s r"
  by (simp add: parsed_ok_def)

lemma parser_ok:
  assumes "0 \<notin> set b"
  shows "parsed_ok b s (parseline n b s)" "parsed_ok b s (parsepipe n b s)" "parsed_ok b s (parseexec n b s)"
    "parsed_ok b s (parseblock n b s)"
proof (induction n arbitrary: s)
  case (Suc n)
  {
    case 1
    show ?case
    proof (rule parsed_okI)
      fix c s' assume r: "parseline (Suc n) b s = Parsed (c, s')"
      then obtain c1 s1 where p: "parsepipe n b s = Parsed (c1, s1)" by (auto simp: parseline.simps(2) pbind_Parsed)
      obtain d s2 where k: "parse_backs c1 b s1 = (d, s2)" by fastforce
      obtain t s3 where q: "peek b s2 {59} = (t, s3)" by fastforce
      obtain tok x s4 where g: "gettoken b s3 = (tok, x, s4)" by (cases "gettoken b s3") auto
      have p1: "onward b s s1" "cmd_ok b c1" using Suc(2) [of s] p by (simp_all add: parsed_ok_def)
      note o = p1(1) parse_backs_onward [OF k] onward_steps(1) [OF q] onward_steps(2) [OF g] and d = parse_backs_ok [OF k p1(2)]
      show "onward b s s' \<and> cmd_ok b c"
      proof (cases t)
        case True
        then obtain e where e: "parseline n b s4 = Parsed (e, s')" "c = ListCmd d e"
          using r by (auto simp: parseline_eq [OF p k q g] pbind_Parsed)
        then show ?thesis using Suc(1) [of s4] o d by (simp add: parsed_ok_def onward_def)
      next
        case False
        then show ?thesis using r o d by (simp add: parseline_eq [OF p k q g] onward_def)
      qed
    qed
  next
    case 2
    show ?case
    proof (rule parsed_okI)
      fix c s' assume r: "parsepipe (Suc n) b s = Parsed (c, s')"
      then obtain d s1 where p: "parseexec n b s = Parsed (d, s1)" by (auto simp: parsepipe.simps(2) pbind_Parsed)
      obtain t s2 where q: "peek b s1 {124} = (t, s2)" by fastforce
      obtain tok x s3 where g: "gettoken b s2 = (tok, x, s3)" by (cases "gettoken b s2") auto
      have d: "onward b s s1" "cmd_ok b d" using Suc(3) [of s] p by (simp_all add: parsed_ok_def)
      note o = d(1) onward_steps(1) [OF q] onward_steps(2) [OF g]
      show "onward b s s' \<and> cmd_ok b c"
      proof (cases t)
        case True
        then obtain e where e: "parsepipe n b s3 = Parsed (e, s')" "c = PipeCmd d e"
          using r by (auto simp: parsepipe_eq [OF p q g] pbind_Parsed)
        then show ?thesis using Suc(2) [of s3] o d by (simp add: parsed_ok_def onward_def)
      next
        case False
        then show ?thesis using r o d by (simp add: parsepipe_eq [OF p q g] onward_def)
      qed
    qed
  next
    case 3
    show ?case
    proof (rule parsed_okI)
      fix c s' assume r: "parseexec (Suc n) b s = Parsed (c, s')"
      obtain t s1 where q: "peek b s {40} = (t, s1)" by fastforce
      note o = onward_steps(1) [OF q]
      show "onward b s s' \<and> cmd_ok b c"
      proof (cases t)
        case True
        then show ?thesis using r Suc(4) [of s1] o by (simp add: parseexec_eq [OF q] parsed_ok_def onward_def)
      next
        case False
        then obtain d s2 where d: "parseredirs (Exec []) b s1 = Parsed (d, s2)" "exec_loop 0 d b s2 = Parsed (c, s')"
          using r by (auto simp: parseexec_eq [OF q] pbind_Parsed)
        have "cmd_ok b d \<and> nargs d = Some 0" using parseredirs_ok [OF assms d(1)] by (simp add: MAXARGS_def)
        then show ?thesis using exec_loop_ok [OF assms d(2)] o onward_steps(3) [OF d(1)] exec_loop_onward [OF d(2)]
          by (simp add: onward_def)
      qed
    qed
  next
    case 4
    show ?case
    proof (rule parsed_okI)
      fix c s' assume r: "parseblock (Suc n) b s = Parsed (c, s')"
      obtain t s1 where q: "peek b s {40} = (t, s1)" by fastforce
      then have t: "peek b s {40} = (True, s1)" using r by (cases t) (auto simp: parseblock.simps(2))
      obtain tok x s2 where g: "gettoken b s1 = (tok, x, s2)" by (cases "gettoken b s1") auto
      obtain d s3 where d: "parseline n b s2 = Parsed (d, s3)" using r by (auto simp: parseblock.simps(2) t g pbind_Parsed)
      obtain t' s4 where q': "peek b s3 {41} = (t', s4)" by fastforce
      obtain tok' x' s5 where g': "gettoken b s4 = (tok', x', s5)" by (cases "gettoken b s4") auto
      have p: "onward b s2 s3" "cmd_ok b d" using Suc(1) [of s2] d by (simp_all add: parsed_ok_def)
      have e: "parseredirs d b s5 = Parsed (c, s')" using r by (simp add: parseblock_eq [OF t g d q' g'] split: if_splits)
      show "onward b s s' \<and> cmd_ok b c"
        using parseredirs_ok [OF assms e p(2)] p(1) onward_steps(1) [OF t] onward_steps(2) [OF g] onward_steps(1) [OF q']
          onward_steps(2) [OF g'] onward_steps(3) [OF e] by (simp add: onward_def)
    qed
  }
qed (simp_all add: parsed_ok_def)

text \<open>Four calls for each character left are enough.\<close>

lemma parser_not_Deep:
  assumes z: "0 \<notin> set b"
  shows "s \<le> length b \<Longrightarrow> 4 * length b + 4 \<le> n + 4 * s \<Longrightarrow> parseline n b s \<noteq> Deep"
    "s \<le> length b \<Longrightarrow> 4 * length b + 3 \<le> n + 4 * s \<Longrightarrow> parsepipe n b s \<noteq> Deep"
    "s \<le> length b \<Longrightarrow> 4 * length b + 2 \<le> n + 4 * s \<Longrightarrow> parseexec n b s \<noteq> Deep"
    "s \<le> length b \<Longrightarrow> 4 * length b + 1 \<le> n + 4 * s \<Longrightarrow> parseblock n b s \<noteq> Deep"
proof (induction n arbitrary: s)
  case (Suc n)
  {
    case 1
    obtain r where p: "parsepipe n b s = r" "r \<noteq> Deep" using Suc(2) [of s] 1 by simp
    show ?case
    proof (cases r)
      case (Parsed x)
      obtain c s1 where x: "x = (c, s1)" by fastforce
      obtain d s2 where k: "parse_backs c b s1 = (d, s2)" by fastforce
      obtain t s3 where q: "peek b s2 {59} = (t, s3)" by fastforce
      obtain tok y s4 where g: "gettoken b s3 = (tok, y, s4)" by (cases "gettoken b s3") auto
      have P: "parsepipe n b s = Parsed (c, s1)" using p Parsed x by simp
      have o: "onward b s s1" "onward b s1 s2" "onward b s3 s4"
        using parser_ok(2) [OF z, of s n] P parse_backs_onward [OF k] onward_steps(2) [OF g] by (simp_all add: parsed_ok_def)
      show ?thesis
      proof (cases t)
        case True
        have "length b - s4 < length b - s2" by (rule peek_token(2)) (use q g True in simp_all)
        then have "s2 < s4" by linarith
        then have "s4 \<le> length b" "4 * length b + 4 \<le> n + 4 * s4"
          using peek_moves(2) [OF q True] o 1 by (simp_all add: onward_def)
        then show ?thesis using Suc(1) [of s4] True by (simp add: parseline_eq [OF P k q g] pbind_Deep split_beta)
      next
        case False
        then show ?thesis by (simp add: parseline_eq [OF P k q g])
      qed
    qed (use p in \<open>simp_all add: parseline.simps(2)\<close>)
  next
    case 2
    obtain r where p: "parseexec n b s = r" "r \<noteq> Deep" using Suc(3) [of s] 2 by simp
    show ?case
    proof (cases r)
      case (Parsed x)
      obtain d s1 where x: "x = (d, s1)" by fastforce
      obtain t s2 where q: "peek b s1 {124} = (t, s2)" by fastforce
      obtain tok y s3 where g: "gettoken b s2 = (tok, y, s3)" by (cases "gettoken b s2") auto
      have P: "parseexec n b s = Parsed (d, s1)" using p Parsed x by simp
      have o: "onward b s s1" "onward b s2 s3"
        using parser_ok(3) [OF z, of s n] P onward_steps(2) [OF g] by (simp_all add: parsed_ok_def)
      show ?thesis
      proof (cases t)
        case True
        have "length b - s3 < length b - s1" by (rule peek_token(2)) (use q g True in simp_all)
        then have "s1 < s3" by linarith
        then have "s3 \<le> length b" "4 * length b + 3 \<le> n + 4 * s3"
          using peek_moves(2) [OF q True] o 2 by (simp_all add: onward_def)
        then show ?thesis using Suc(2) [of s3] True by (simp add: parsepipe_eq [OF P q g] pbind_Deep split_beta)
      next
        case False
        then show ?thesis by (simp add: parsepipe_eq [OF P q g])
      qed
    qed (use p in \<open>simp_all add: parsepipe.simps(2)\<close>)
  next
    case 3
    obtain t s1 where q: "peek b s {40} = (t, s1)" by fastforce
    have "s \<le> s1" "s1 \<le> length b" using onward_steps(1) [OF q] 3 by (simp_all add: onward_def)
    then show ?case using Suc(4) [of s1] 3 by (auto simp: parseexec_eq [OF q] pbind_Deep)
  next
    case 4
    obtain t s1 where q: "peek b s {40} = (t, s1)" by fastforce
    show ?case
    proof (cases t)
      case True
      obtain tok x s2 where g: "gettoken b s1 = (tok, x, s2)" by (cases "gettoken b s1") auto
      have "length b - s2 < length b - s" by (rule peek_token(2)) (use q g True in simp_all)
      then have "s < s2" by linarith
      then have "s2 \<le> length b" "4 * length b + 4 \<le> n + 4 * s2"
        using peek_moves(2) [OF q True] onward_steps(2) [OF g] 4 by (simp_all add: onward_def)
      then have "parseline n b s2 \<noteq> Deep" by (rule Suc(1))
      then show ?thesis using q g True by (auto simp: parseblock.simps(2) pbind_Deep split: prod.split)
    next
      case False
      then show ?thesis using q by (simp add: parseblock.simps(2))
    qed
  }
qed simp_all

section \<open>Words in place\<close>

text \<open>The NULs that \<open>nulterminate\<close> writes lie behind the words, never inside one.\<close>

definition word_text :: "byte list \<Rightarrow> token \<Rightarrow> byte list" where
  "word_text b = (\<lambda>(q, e). take (e - q) (drop q b))"

definition cstring :: "byte list \<Rightarrow> nat \<Rightarrow> byte list" where
  "cstring m q = takeWhile (\<lambda>x. x \<noteq> 0) (drop q m)"

lemma length_fold_nuls: "length (fold (\<lambda>(q, e) m. m[e := 0]) ws m) = length m"
  by (induction ws arbitrary: m) auto

lemma fold_nuls:
  "i < length m \<Longrightarrow> fold (\<lambda>(q, e) m. m[e := 0]) ws m ! i = (if \<exists>q. (q, i) \<in> set ws then 0 else m ! i)"
proof (induction ws arbitrary: m)
  case (Cons w ws)
  obtain q e where w: "w = (q, e)" by fastforce
  then show ?case using Cons by (cases "i = e") auto
qed simp

lemma nulterminate_nth:
  "length (nulterminate c m) = length m"
  "i < length m \<Longrightarrow> nulterminate c m ! i = (if \<exists>q. (q, i) \<in> set_cmd c then 0 else m ! i)"
proof (induction c m rule: nulterminate.induct)
  case (1 ws m)
  { case 1 show ?case by (simp add: length_fold_nuls) next case 2 then show ?case by (simp add: fold_nuls) }
next
  case (2 c q e mode fd m)
  { case 1 show ?case using 2 by simp next case 2 then show ?case using "2.IH" by (cases "i = e") auto }
qed auto

lemma word_in_place:
  assumes b: "b = takeWhile (\<lambda>x. x \<noteq> 0) m" "0 \<in> set m" and w: "\<forall>w \<in> set_cmd c. word_token b w" "(q, e) \<in> set_cmd c"
  shows "cstring (nulterminate c m) q = word_text b (q, e)"
proof -
  let ?m = "nulterminate c m"
  obtain xs ys where m: "m = xs @ 0 # ys" "0 \<notin> set xs" using split_list_first [OF b(2)] by blast
  then have "takeWhile (\<lambda>x. x \<noteq> 0) (xs @ 0 # ys) = xs" by (subst takeWhile_append2) auto
  then have lb: "length b < length m" unfolding b(1) m(1) by simp
  have t: "q < e" "e \<le> length b" "\<forall>i \<in> {q..<e}. word_char (byte_at b i)" using w by (auto simp: word_token_def)
  have in_word: "?m ! i = b ! i \<and> b ! i \<noteq> 0" if i: "q \<le> i" "i < e" for i
  proof -
    have wc: "word_char (byte_at b i)" using t(3) i by simp
    have "i \<noteq> e'" if "(q', e') \<in> set_cmd c" for q' e'
    proof
      assume "i = e'"
      moreover have "\<not> word_char (byte_at b e')" using w(1) that by (auto simp: word_token_def)
      ultimately show False using wc by simp
    qed
    then have "\<not> (\<exists>q. (q, i) \<in> set_cmd c)" by auto
    then have "?m ! i = m ! i" using nulterminate_nth(2) [of i m c] i t(2) lb by simp
    moreover have "m ! i = b ! i" unfolding b(1) by (rule takeWhile_nth [symmetric]) (use i t(2) b(1) in simp)
    moreover have "b ! i \<noteq> 0" using wc i t(2) by (simp add: word_char_def byte_at_def split: if_splits)
    ultimately show ?thesis by simp
  qed
  have lm: "length ?m = length m" by (rule nulterminate_nth(1))
  have e0: "?m ! e = 0" using nulterminate_nth(2) [of e m c] t(2) lb w(2) by force
  have wl: "length (word_text b (q, e)) = e - q" and wn: "\<And>i. i < e - q \<Longrightarrow> word_text b (q, e) ! i = b ! (q + i)"
    using t by (simp_all add: word_text_def)
  have "drop q ?m ! i = (word_text b (q, e) @ 0 # drop (Suc e) ?m) ! i" if i: "i < length m - q" for i
  proof -
    consider "i < e - q" | "i = e - q" | "e - q < i" by linarith
    then show ?thesis
    proof cases
      case 1
      then show ?thesis using i lm wl wn in_word [of "q + i"] by (simp add: nth_append)
    next
      case 2
      then show ?thesis using t(1) i lm wl e0 by (simp add: nth_append)
    next
      case 3
      then have "Suc e + (i - (e - q) - 1) = q + i" "\<not> i + q \<le> e" using t(1) by linarith+
      then show ?thesis using 3 t(1) i lm wl by (simp add: nth_append nth_Cons' add.commute)
    qed
  qed
  moreover have "length m - q = length (word_text b (q, e) @ 0 # drop (Suc e) ?m)" using t lb lm wl by simp
  ultimately have d: "drop q ?m = word_text b (q, e) @ 0 # drop (Suc e) ?m"
    by (intro nth_equalityI) (simp_all add: lm)
  have "\<forall>x \<in> set (word_text b (q, e)). x \<noteq> 0"
    using in_word t by (auto simp: word_text_def in_set_conv_nth)
  then show ?thesis by (simp add: cstring_def d takeWhile_append2)
qed

section \<open>The result of \<open>parsecmd\<close>\<close>

lemma words_in_place:
  assumes "0 \<in> set m" "m = b @ 0 # ys" "b = takeWhile (\<lambda>x. x \<noteq> 0) m" "cmd_ok b c" "(q, e) \<in> set_cmd c"
  shows "q < e \<and> cstring (nulterminate c m) q = word_text m (q, e) \<and>
    (\<forall>x \<in> set (word_text m (q, e)). word_char x) \<and> \<not> word_char (m ! e)"
proof -
  have t: "q < e" "e \<le> length b" "\<forall>i \<in> {q..<e}. word_char (byte_at b i)" "\<not> word_char (byte_at b e)"
    using assms(4,5) by (auto simp: cmd_ok_def word_token_def)
  have "word_text m (q, e) = word_text b (q, e)" using t(1,2) by (simp add: word_text_def assms(2))
  moreover have "cstring (nulterminate c m) q = word_text b (q, e)"
    by (rule word_in_place [OF assms(3,1) _ assms(5)]) (use assms(4) in \<open>simp add: cmd_ok_def\<close>)
  moreover have "\<forall>x \<in> set (word_text b (q, e)). word_char x"
    using t by (auto simp: word_text_def in_set_conv_nth byte_at_def)
  moreover have "m ! e = byte_at b e" using t(2) by (auto simp: assms(2) byte_at_def nth_append)
  ultimately show ?thesis using t by simp
qed

text \<open>C40: The shell parses every line: \<open>parsecmd\<close> ends, with a message or with a command that is well formed (at most
  nine arguments, redirections of file descriptors 0 and 1). In the line that \<open>nulterminate\<close> leaves behind, every word
  of the command is a string of its own: the maximal run of word characters at its place, neither cut short nor run
  together with what follows.\<close>

theorem parsecmd_ok:
  assumes "0 \<in> set m"
  shows "(\<exists>e. parsecmd m = Failed e) \<or>
    (\<exists>c. parsecmd m = Parsed (c, nulterminate c m) \<and> wf_cmd c \<and> length (nulterminate c m) = length m \<and>
      (\<forall>(q, e) \<in> set_cmd c. q < e \<and> cstring (nulterminate c m) q = word_text m (q, e) \<and>
        (\<forall>x \<in> set (word_text m (q, e)). word_char x) \<and> \<not> word_char (m ! e)))"
proof -
  define b where "b = takeWhile (\<lambda>x. x \<noteq> 0) m"
  have z: "0 \<notin> set b" by (auto simp: b_def dest: set_takeWhileD)
  obtain ys where m: "m = b @ 0 # ys"
  proof -
    obtain xs ys where s: "m = xs @ 0 # ys" "0 \<notin> set xs" using split_list_first [OF assms] by blast
    then have "takeWhile (\<lambda>x. x \<noteq> 0) (xs @ 0 # ys) = xs" by (subst takeWhile_append2) auto
    then show ?thesis using that s by (simp add: b_def)
  qed
  let ?r = "parseline (4 * length b + 4) b 0"
  have nd: "?r \<noteq> Deep" by (rule parser_not_Deep(1) [OF z]) simp_all
  show ?thesis
  proof (cases ?r)
    case (Parsed x)
    obtain c s where x: "x = (c, s)" by fastforce
    have c: "cmd_ok b c" using parser_ok(1) [OF z, of 0 "4 * length b + 4"] Parsed x by (simp add: parsed_ok_def)
    obtain t s' where q: "peek b s {} = (t, s')" by fastforce
    show ?thesis
    proof (cases "s' = length b")
      case True
      have r: "parsecmd m = Parsed (c, nulterminate c m)" using Parsed x q True by (simp add: parsecmd_def b_def [symmetric])
      have w: "\<forall>(q, e) \<in> set_cmd c. q < e \<and> cstring (nulterminate c m) q = word_text m (q, e) \<and>
        (\<forall>x \<in> set (word_text m (q, e)). word_char x) \<and> \<not> word_char (m ! e)"
        using words_in_place [OF assms m b_def c] by blast
      have "wf_cmd c" using c by (simp add: cmd_ok_def)
      then show ?thesis using r w nulterminate_nth(1) by (intro disjI2 exI [of _ c]) blast
    next
      case False
      then show ?thesis using Parsed x q by (simp add: parsecmd_def b_def [symmetric])
    qed
  qed (use nd in \<open>simp_all add: parsecmd_def b_def [symmetric]\<close>)
qed

text \<open>The line \<open>a b;c\<close>.\<close>

lemma demo_parse:
  "parsecmd [97, 32, 98, 59, 99, 0, 0] =
     Parsed (ListCmd (Exec [(0, 1), (2, 3)]) (Exec [(4, 5)]), [97, 0, 98, 0, 99, 0, 0])"
  by code_simp

theorem parsecmd_ok_witness:
  "\<exists>c m. parsecmd [97, 32, 98, 59, 99, 0, 0] = Parsed (c, m) \<and> (2, 3) \<in> set_cmd c \<and> cstring m 2 = [98]"
proof -
  let ?c = "ListCmd (Exec [(0, 1), (2, 3)]) (Exec [(4, 5)])" and ?m = "[97, 32, 98, 59, 99, 0, 0] :: byte list"
  have "(2, 3) \<in> set_cmd ?c" "word_text ?m (2, 3) = [98]" by (simp_all add: word_text_def)
  then show ?thesis using parsecmd_ok [of ?m] unfolding demo_parse by auto
qed

end
