(* ===== verification/Shell_Print.thy ===== *)
theory Shell_Print
  imports Shell_Parse
begin

text \<open>Commands written out as lines: the parser of sh.c reads back every well-formed command.\<close>

section \<open>Printing\<close>

text \<open>Every token is printed behind a blank. A command that the grammar does not allow at its place goes in
  parentheses: level 3 is for a side of a pipe, 2 for the command of a \<open>&\<close>, 1 for the left side of a \<open>;\<close>.\<close>

fun level :: "'w cmd \<Rightarrow> nat" where
  "level (Exec ws) = 3"
| "level (Redir c f m d) = 3"
| "level (PipeCmd l r) = 2"
| "level (Back c) = 1"
| "level (ListCmd l r) = 0"

definition paren :: "nat \<Rightarrow> 'w cmd \<Rightarrow> byte list \<Rightarrow> byte list" where
  "paren k c x = (if k \<le> level c then x else [32, 40] @ x @ [32, 41])"

definition show_redir :: "nat \<Rightarrow> byte list \<Rightarrow> byte list" where
  "show_redir fd w = [32, if fd = 0 then 60 else 62, 32] @ w"

fun show_cmd :: "byte list cmd \<Rightarrow> byte list" where
  "show_cmd (Exec ws) = concat (map (\<lambda>w. 32 # w) ws)"
| "show_cmd (Redir c w mode fd) = paren 3 c (show_cmd c) @ show_redir fd w"
| "show_cmd (PipeCmd l r) = paren 3 l (show_cmd l) @ [32, 124] @ paren 2 r (show_cmd r)"
| "show_cmd (Back c) = paren 1 c (show_cmd c) @ [32, 38]"
| "show_cmd (ListCmd l r) = paren 1 l (show_cmd l) @ [32, 59] @ show_cmd r"

definition good_word :: "byte list \<Rightarrow> bool" where
  "good_word w \<longleftrightarrow> w \<noteq> [] \<and> (\<forall>x \<in> set w. word_char x)"

section \<open>Tokens of the printed line\<close>

text \<open>What is left of the line from a position on, without the white space in front.\<close>

definition trim :: "byte list \<Rightarrow> byte list" where
  "trim xs = dropWhile (\<lambda>x. x \<in> whitespace) xs"

definition left :: "byte list \<Rightarrow> nat \<Rightarrow> byte list" where
  "left b s = trim (drop s b)"

lemma trim_simps [simp]: "trim [] = []" "trim (x # xs) = (if x \<in> whitespace then trim xs else x # xs)" "trim (trim xs) = trim xs"
  by (simp_all add: trim_def)

lemma drop_skip_white: "drop (skip_white b s) b = left b s"
proof (induction b s rule: skip_white.induct)
  case (1 b s)
  show ?case
  proof (cases "s < length b \<and> byte_at b s \<in> whitespace")
    case True
    then have h: "s < length b" "b ! s \<in> whitespace" by (auto simp: byte_at_def)
    then have e: "drop s b = b ! s # drop (s + 1) b" by (simp add: Cons_nth_drop_Suc)
    have "skip_white b s = skip_white b (s + 1)" using True by (simp add: skip_white.simps [of b s])
    then show ?thesis using "1.IH" [OF True] h unfolding left_def e by simp
  next
    case False
    then have e: "skip_white b s = s" by (subst skip_white.simps) (rule if_not_P)
    show ?thesis
    proof (cases "s < length b")
      case True
      then have "drop s b = b ! s # drop (s + 1) b" by (simp add: Cons_nth_drop_Suc)
      then show ?thesis using False True e by (simp add: left_def byte_at_def)
    qed (use e in \<open>simp add: left_def\<close>)
  qed
qed

lemma byte_at_left: "byte_at b (skip_white b s) = chr (left b s)"
proof (cases "skip_white b s < length b")
  case True
  then show ?thesis using drop_skip_white [of b s] Cons_nth_drop_Suc [OF True]
    by (metis byte_at_def chr_simps(2))
next
  case False
  then show ?thesis using drop_skip_white [of b s] by (simp add: byte_at_def)
qed

lemma left_skip [simp]: "left b (skip_white b s) = left b s"
  using drop_skip_white [of b s] unfolding left_def by simp

lemma peek_left:
  "peek b s toks = (chr (left b s) \<noteq> 0 \<and> chr (left b s) \<in> toks, skip_white b s)"
  by (simp add: peek_def byte_at_left Let_def)

text \<open>A symbol, and a word.\<close>

lemma left_next: "left b s = x # xs \<Longrightarrow> drop (skip_white b s + 1) b = xs"
  using drop_skip_white [of b s] by (metis drop_Suc drop_drop Suc_eq_plus1 add.commute list.sel(3) plus_1_eq_Suc tl_drop)

lemma gettoken_symbol:
  assumes "left b s = x # xs" "x \<in> {124, 40, 41, 59, 38, 60} \<or> x = 62 \<and> chr xs \<noteq> 62"
  shows "\<exists>q s'. gettoken b s = (x, q, s') \<and> left b s' = trim xs"
proof -
  let ?s = "skip_white b s"
  have c: "byte_at b ?s = x" "x \<noteq> 0" using assms by (auto simp: byte_at_left)
  have d: "drop (?s + 1) b = xs" by (rule left_next [OF assms(1)])
  then have l: "left b (?s + 1) = trim xs" by (simp add: left_def)
  have "byte_at b (?s + 1) = chr xs"
    using d by (cases "?s + 1 < length b") (auto simp: byte_at_def Cons_nth_drop_Suc [symmetric])
  then show ?thesis using assms(2) c l by (auto simp: gettoken_def Let_def)
qed

lemma skip_word_text:
  assumes "drop s b = w @ xs" "\<forall>x \<in> set w. word_char x" "\<not> word_char (chr xs)" "0 \<notin> set b"
  shows "skip_word b s = s + length w"
  using assms(1,2)
proof (induction w arbitrary: s)
  case Nil
  have "byte_at b s = chr xs" using Nil by (cases "s < length b") (auto simp: byte_at_def Cons_nth_drop_Suc [symmetric])
  moreover have "byte_at b s \<noteq> 0" if "s < length b" using that assms(4) nth_mem [OF that] by (auto simp: byte_at_def simp del: nth_mem)
  ultimately have "\<not> (s < length b \<and> byte_at b s \<notin> whitespace \<and> byte_at b s \<notin> symbols)"
    using assms(3) by (auto simp: word_char_def)
  then have "skip_word b s = s" by (subst skip_word.simps) (rule if_not_P)
  then show ?case by simp
next
  case (Cons y w)
  have l: "s < length b" using Cons(2) by (metis append_Cons drop_eq_Nil list.distinct(1) not_less)
  then have d: "b ! s = y" "drop (s + 1) b = w @ xs" using Cons(2) by (simp_all add: Cons_nth_drop_Suc [symmetric])
  then have "skip_word b s = skip_word b (s + 1)"
    using Cons(3) l by (simp add: skip_word.simps [of b s] byte_at_def word_char_def)
  then show ?case using Cons.IH [OF d(2)] Cons(3) by simp
qed

lemma gettoken_text:
  assumes "left b s = w @ xs" "good_word w" "\<not> word_char (chr xs)" "0 \<notin> set b"
  shows "\<exists>q s'. gettoken b s = (97, q, s') \<and> left b s' = trim xs \<and> word_text b q = w"
proof -
  let ?s = "skip_white b s"
  have d: "drop ?s b = w @ xs" using drop_skip_white [of b s] assms(1) by simp
  obtain y ys where w: "w = y # ys" using assms(2) by (cases w) (auto simp: good_word_def)
  have y: "byte_at b ?s = y" "word_char y" using assms(1,2) w by (simp_all add: byte_at_left good_word_def)
  have e: "skip_word b ?s = ?s + length w" by (rule skip_word_text [OF d]) (use assms in \<open>simp_all add: good_word_def\<close>)
  have "drop (?s + length w) b = xs" using d by (metis add.commute append_eq_conv_conj drop_drop)
  then have l: "left b (?s + length w) = trim xs" by (simp add: left_def)
  have "word_text b (?s, ?s + length w) = w" using d by (simp add: word_text_def)
  then show ?thesis using y e l by (auto simp: gettoken_def Let_def word_char_def symbols_def)
qed

lemma gettoken_none: "left b s = [] \<Longrightarrow> \<exists>q s'. gettoken b s = (0, q, s') \<and> left b s' = []"
  by (auto simp: gettoken_def Let_def byte_at_left)

lemma left_nonzero: "0 \<notin> set b \<Longrightarrow> chr (left b s) = 0 \<longleftrightarrow> left b s = []"
  using drop_skip_white [of b s] set_drop_subset [of "skip_white b s" b] by (cases "left b s") auto

definition stops :: "byte set" where "stops = {0, 124, 41, 38, 59}"

lemma stop_sep: "chr (trim xs) \<in> stops \<Longrightarrow> \<not> word_char (chr xs)"
  by (cases xs) (auto simp: word_char_def stops_def symbols_def split: if_splits)

lemma trim_word: "good_word w \<Longrightarrow> trim (w @ xs) = w @ xs" "good_word w \<Longrightarrow> word_char (chr (w @ xs))"
  by (cases w; simp add: good_word_def word_char_def)+

lemma blank [simp]: "32 \<in> whitespace" "60 \<notin> whitespace" "62 \<notin> whitespace" "40 \<notin> whitespace" "41 \<notin> whitespace"
  "124 \<notin> whitespace" "38 \<notin> whitespace" "59 \<notin> whitespace"
  by (simp_all add: whitespace_def)

lemma not_word [simp]: "\<not> word_char 32" "\<not> word_char 0"
  by (simp_all add: word_char_def)

lemma word_not_symbol: "word_char x \<Longrightarrow> x \<notin> symbols \<and> x \<noteq> 0"
  by (simp add: word_char_def)

section \<open>Redirections\<close>

type_synonym redir = "byte list \<times> u32 \<times> nat"

fun core :: "'w cmd \<Rightarrow> 'w cmd" where
  "core (Redir c f m d) = core c"
| "core c = c"

fun reds :: "'w cmd \<Rightarrow> ('w \<times> u32 \<times> nat) list" where
  "reds (Redir c f m d) = reds c @ [(f, m, d)]"
| "reds c = []"

definition wrap :: "'w cmd \<Rightarrow> ('w \<times> u32 \<times> nat) list \<Rightarrow> 'w cmd" where
  "wrap c rs = fold (\<lambda>(f, m, d) c. Redir c f m d) rs c"

definition show_reds :: "redir list \<Rightarrow> byte list" where
  "show_reds rs = concat (map (\<lambda>(f, m, d). show_redir d f) rs)"

definition good_redir :: "redir \<Rightarrow> bool" where
  "good_redir = (\<lambda>(f, m, d). good_word f \<and> (m = O_RDONLY \<and> d = 0 \<or> m = (O_WRONLY OR O_CREATE) \<and> d = 1))"

lemma wrap_simps [simp]: "wrap c [] = c" "wrap c ((f, m, d) # rs) = wrap (Redir c f m d) rs"
  by (simp_all add: wrap_def)

lemma wrap_core: "wrap (core c) (reds c) = c"
  by (induction c) (simp_all add: wrap_def)

lemma show_core: "paren 3 c (show_cmd c) = paren 3 (core c) (show_cmd (core c)) @ show_reds (reds c)"
  by (induction c) (simp_all add: show_reds_def paren_def)

lemma show_reds_simps [simp]: "show_reds [] = []" "show_reds ((f, m, d) # rs) = show_redir d f @ show_reds rs"
  by (simp_all add: show_reds_def)

lemma show_reds_sep: "\<not> word_char (chr xs) \<Longrightarrow> \<not> word_char (chr (show_reds rs @ xs))"
  by (cases rs) (auto simp: show_redir_def)

lemma parseredirs_none:
  assumes "chr (left b s) \<notin> {60, 62}"
  shows "parseredirs c b s = Parsed (c, skip_white b s)"
  using assms by (subst parseredirs.simps) (auto simp: peek_left)

lemma parseredirs_reads:
  assumes b: "0 \<notin> set b" and rs: "\<forall>r \<in> set rs. good_redir r"
    and s: "left b s = trim (show_reds rs @ xs)" and xs: "chr (trim xs) \<notin> {60, 62}" "\<not> word_char (chr xs)"
  shows "\<exists>c' s'. parseredirs c b s = Parsed (c', s') \<and> left b s' = trim xs \<and>
    map_cmd (word_text b) c' = wrap (map_cmd (word_text b) c) rs"
  using rs s
proof (induction rs arbitrary: c s)
  case Nil
  then show ?case using parseredirs_none [of b s c] xs(1) by simp
next
  case (Cons r rs)
  obtain f m d where r: "r = (f, m, d)" by (cases r)
  let ?x = "if d = 0 then 60 else 62 :: byte" and ?ys = "show_reds rs @ xs"
  have g: "good_word f" "m = O_RDONLY \<and> d = 0 \<or> m = (O_WRONLY OR O_CREATE) \<and> d = 1" using Cons.prems(1) by (auto simp: r good_redir_def)
  have l: "left b s = ?x # 32 # f @ ?ys" using Cons.prems(2) by (simp add: r show_redir_def)
  have p: "peek b s {60, 62} = (True, skip_white b s)" by (simp add: peek_left l)
  have "\<exists>q s'. gettoken b (skip_white b s) = (?x, q, s') \<and> left b s' = trim (32 # f @ ?ys)"
    by (rule gettoken_symbol) (use l in auto)
  then obtain q1 s2 where t1: "gettoken b (skip_white b s) = (?x, q1, s2)" "left b s2 = f @ ?ys"
    using trim_word(1) [OF g(1)] by auto
  obtain q s3 where t2: "gettoken b s2 = (97, q, s3)" "left b s3 = trim ?ys" "word_text b q = f"
    using gettoken_text [OF t1(2) g(1) show_reds_sep [OF xs(2)] b] by blast
  have e: "parseredirs c b s = parseredirs (redir_node ?x c q) b s3" using parseredirs_eq [OF p t1(1) t2(1)] by simp
  have n: "map_cmd (word_text b) (redir_node ?x c q) = Redir (map_cmd (word_text b) c) f m d"
    using g(2) t2(3) by (auto simp: redir_node_def)
  show ?case unfolding e r wrap_simps n [symmetric] by (rule Cons.IH) (use Cons.prems t2(2) in simp_all)
qed

section \<open>Arguments\<close>

lemma exec_loop_stop:
  assumes "chr (left b s) \<in> stops" "0 \<notin> set b"
  shows "\<exists>s'. exec_loop argc c b s = Parsed (c, s') \<and> left b s' = left b s"
proof (cases "chr (left b s) = 0")
  case True
  then have l: "left b s = []" using left_nonzero [OF assms(2)] by simp
  then obtain q s' where "gettoken b (skip_white b s) = (0, q, s')" "left b s' = []" using gettoken_none [of b "skip_white b s"] by auto
  then show ?thesis using True l exec_loop_eq [of b s False "skip_white b s" 0 q s' argc c] by (auto simp: peek_left)
next
  case False
  then have "peek b s {124, 41, 38, 59} = (True, skip_white b s)" using assms(1) by (auto simp: peek_left stops_def)
  then show ?thesis by (subst exec_loop.simps) simp
qed

lemma map_cmd_Exec: "map_cmd f c = Exec xs \<Longrightarrow> \<exists>ys. c = Exec ys \<and> map f ys = xs"
  by (cases c) auto

lemma exec_loop_reads:
  assumes b: "0 \<notin> set b" and xs: "chr (trim xs) \<in> stops" and rs: "\<forall>r \<in> set rs. good_redir r"
  shows "left b s = trim (concat (map ((#) 32) ws) @ show_reds rs @ xs) \<Longrightarrow> ws = [] \<longrightarrow> rs = [] \<Longrightarrow> \<forall>w \<in> set ws. good_word w \<Longrightarrow>
    argc + length ws < MAXARGS \<Longrightarrow>
    \<exists>c' s'. exec_loop argc (Exec as) b s = Parsed (c', s') \<and> left b s' = trim xs \<and>
      map_cmd (word_text b) c' = wrap (Exec (map (word_text b) as @ ws)) rs"
proof (induction ws arbitrary: argc as s)
  case Nil
  then have "left b s = trim xs" by simp
  then show ?case using exec_loop_stop [of b s argc "Exec as"] xs b Nil by auto
next
  case (Cons w ws)
  let ?ys = "concat (map ((#) 32) ws) @ show_reds rs @ xs"
  have w: "good_word w" using Cons.prems by simp
  have l: "left b s = w @ ?ys" using Cons.prems(1) trim_word(1) [OF w] by simp
  have wc: "word_char (chr (left b s))" unfolding l by (rule trim_word(2) [OF w])
  then have p: "peek b s {124, 41, 38, 59} = (False, skip_white b s)" using word_not_symbol [OF wc] by (auto simp: peek_left symbols_def)
  have sep: "\<not> word_char (chr ?ys)" using show_reds_sep [OF stop_sep [OF xs]] by (cases ws) auto
  obtain q s2 where t: "gettoken b (skip_white b s) = (97, q, s2)" "left b s2 = trim ?ys" "word_text b q = w"
    using gettoken_text [OF _ w sep b, of "skip_white b s"] l by auto
  have a: "\<not> MAXARGS \<le> argc + 1" using Cons.prems(4) by simp
  have e: "exec_loop argc (Exec as) b s = pbind (parseredirs (Exec (as @ [q])) b s2) (\<lambda>(c, s). exec_loop (argc + 1) c b s)"
    using a by (simp add: exec_loop_eq [OF p t(1)])
  show ?case
  proof (cases "ws = []")
    case True
    have "chr (trim xs) \<notin> {60, 62}" using xs by (auto simp: stops_def)
    then obtain c' s3 where r: "parseredirs (Exec (as @ [q])) b s2 = Parsed (c', s3)" "left b s3 = trim xs"
      "map_cmd (word_text b) c' = wrap (map_cmd (word_text b) (Exec (as @ [q]))) rs"
      using parseredirs_reads [OF b rs _ _ stop_sep [OF xs], of s2 "Exec (as @ [q])"] t(2) True by auto
    then show ?thesis using e exec_loop_stop [of b s3 "argc + 1" c'] xs b t(3) True by auto
  next
    case False
    then obtain v vs where ws: "ws = v # vs" by (cases ws) auto
    have "word_char (chr (left b s2))" using t(2) trim_word [of v] Cons.prems(3) by (simp add: ws)
    then have "parseredirs (Exec (as @ [q])) b s2 = Parsed (Exec (as @ [q]), skip_white b s2)"
      by (intro parseredirs_none) (auto dest: word_not_symbol simp: symbols_def)
    then have e2: "exec_loop argc (Exec as) b s = exec_loop (argc + 1) (Exec (as @ [q])) b (skip_white b s2)" using e by simp
    have "\<exists>c' s'. exec_loop (argc + 1) (Exec (as @ [q])) b (skip_white b s2) = Parsed (c', s') \<and> left b s' = trim xs \<and>
      map_cmd (word_text b) c' = wrap (Exec (map (word_text b) (as @ [q]) @ ws)) rs"
      by (rule Cons.IH) (use Cons.prems t(2) False in simp_all)
    then show ?thesis unfolding e2 using t(3) by simp
  qed
qed

section \<open>The grammar\<close>

text \<open>The function \<open>p\<close> reads \<open>x\<close> as the command \<open>c\<close> when it ends at a character of \<open>F\<close>.\<close>

definition reads :: "(nat \<Rightarrow> byte list \<Rightarrow> nat \<Rightarrow> (token cmd \<times> nat) parse) \<Rightarrow> byte set \<Rightarrow> byte list \<Rightarrow> byte list cmd \<Rightarrow> bool" where
  "reads p F x c \<longleftrightarrow> (\<forall>n b s xs. 0 \<notin> set b \<and> left b s = trim (x @ xs) \<and> chr (trim xs) \<in> F \<and> p n b s \<noteq> Deep \<longrightarrow>
     (\<exists>c' s'. p n b s = Parsed (c', s') \<and> left b s' = trim xs \<and> map_cmd (word_text b) c' = c))"

lemma readsI:
  assumes "\<And>n b s xs. 0 \<notin> set b \<Longrightarrow> left b s = trim (x @ xs) \<Longrightarrow> chr (trim xs) \<in> F \<Longrightarrow> p n b s \<noteq> Deep \<Longrightarrow>
    \<exists>c' s'. p n b s = Parsed (c', s') \<and> left b s' = trim xs \<and> map_cmd (word_text b) c' = c"
  shows "reads p F x c"
  using assms unfolding reads_def by blast

lemma readsD:
  assumes "reads p F x c" "0 \<notin> set b" "left b s = trim (x @ xs)" "chr (trim xs) \<in> F" "p n b s \<noteq> Deep"
  obtains c' s' where "p n b s = Parsed (c', s')" "left b s' = trim xs" "map_cmd (word_text b) c' = c"
  using assms unfolding reads_def by blast

text \<open>The commands of a \<open>&\<close> list, where the loop of \<open>parseline\<close> goes on.\<close>

definition reads_back :: "byte list \<Rightarrow> byte list cmd \<Rightarrow> bool" where
  "reads_back x c \<longleftrightarrow> (\<forall>n b s xs. 0 \<notin> set b \<and> left b s = trim (x @ xs) \<and> chr (trim xs) \<in> {0, 38, 41, 59} \<and> parsepipe n b s \<noteq> Deep \<longrightarrow>
     (\<exists>d s1 c' s'. parsepipe n b s = Parsed (d, s1) \<and> parse_backs d b s1 = parse_backs c' b s' \<and> left b s' = trim xs \<and>
       map_cmd (word_text b) c' = c))"

lemma fuel_pos: "parseline n b s \<noteq> Deep \<Longrightarrow> \<exists>k. n = Suc k" "parsepipe n b s \<noteq> Deep \<Longrightarrow> \<exists>k. n = Suc k"
  "parseexec n b s \<noteq> Deep \<Longrightarrow> \<exists>k. n = Suc k" "parseblock n b s \<noteq> Deep \<Longrightarrow> \<exists>k. n = Suc k"
  by (cases n; simp)+

lemma reads_args:
  assumes ws: "\<forall>w \<in> set ws. good_word w" "length ws < MAXARGS" and rs: "\<forall>r \<in> set rs. good_redir r"
  shows "reads parseexec stops (concat (map ((#) 32) ws) @ show_reds rs) (wrap (Exec ws) rs)"
proof (rule readsI)
  fix n b s xs
  assume b: "0 \<notin> set b" and l: "left b s = trim ((concat (map ((#) 32) ws) @ show_reds rs) @ xs)"
    and xs: "chr (trim xs) \<in> stops" and d: "parseexec n b s \<noteq> Deep"
  obtain k where n: "n = Suc k" using fuel_pos(3) [OF d] by blast
  have x6: "chr (trim xs) \<notin> {60, 62}" using xs by (auto simp: stops_def)
  have nr: "chr (left b s) \<noteq> 40"
  proof (cases ws)
    case Nil
    then show ?thesis using l xs rs by (cases rs) (auto simp: stops_def show_redir_def split: if_splits)
  next
    case (Cons w vs)
    then have "word_char (chr (left b s))" using l ws(1) trim_word [of w] by simp
    then show ?thesis by (auto dest: word_not_symbol simp: symbols_def)
  qed
  then have p: "peek b s {40} = (False, skip_white b s)" by (simp add: peek_left)
  have e: "parseexec n b s = pbind (parseredirs (Exec []) b (skip_white b s)) (\<lambda>(c, s). exec_loop 0 c b s)"
    unfolding n using parseexec_eq [OF p] by simp
  show "\<exists>c' s'. parseexec n b s = Parsed (c', s') \<and> left b s' = trim xs \<and> map_cmd (word_text b) c' = wrap (Exec ws) rs"
  proof (cases "ws = []")
    case True
    then obtain c' s2 where r: "parseredirs (Exec []) b (skip_white b s) = Parsed (c', s2)" "left b s2 = trim xs"
      "map_cmd (word_text b) c' = wrap (Exec []) rs"
      using parseredirs_reads [OF b rs _ x6 stop_sep [OF xs], of "skip_white b s" "Exec []"] l by auto
    then show ?thesis using e exec_loop_stop [of b s2 0 c'] xs b True by auto
  next
    case False
    then obtain w vs where w: "ws = w # vs" by (cases ws) auto
    then have "word_char (chr (left b s))" using l ws(1) trim_word [of w] by simp
    then have "parseredirs (Exec []) b (skip_white b s) = Parsed (Exec [], skip_white b (skip_white b s))"
      by (intro parseredirs_none) (auto dest: word_not_symbol simp: symbols_def)
    then have e2: "parseexec n b s = exec_loop 0 (Exec []) b (skip_white b (skip_white b s))" using e by simp
    show ?thesis
      unfolding e2 using exec_loop_reads [OF b xs rs, of "skip_white b (skip_white b s)" ws 0 "[]"] l ws False by simp
  qed
qed

lemma reads_block:
  assumes c: "reads parseline {0, 41} x c" and rs: "\<forall>r \<in> set rs. good_redir r"
  shows "reads parseexec stops ([32, 40] @ x @ [32, 41] @ show_reds rs) (wrap c rs)"
proof (rule readsI)
  fix n b s xs
  assume b: "0 \<notin> set b" and l: "left b s = trim (([32, 40] @ x @ [32, 41] @ show_reds rs) @ xs)"
    and xs: "chr (trim xs) \<in> stops" and d: "parseexec n b s \<noteq> Deep"
  obtain k where n: "n = Suc k" using fuel_pos(3) [OF d] by blast
  let ?s = "skip_white b s" and ?ys = "32 # 41 # show_reds rs @ xs"
  have l': "left b s = 40 # x @ ?ys" using l by simp
  have p: "peek b s {40} = (True, ?s)" "peek b ?s {40} = (True, skip_white b ?s)" by (simp_all add: peek_left l')
  have e: "parseexec n b s = parseblock k b ?s" unfolding n using parseexec_eq [OF p(1)] by simp
  then obtain j where k: "k = Suc j" using fuel_pos(4) d by metis
  have "\<exists>q s'. gettoken b (skip_white b ?s) = (40, q, s') \<and> left b s' = trim (x @ ?ys)"
    by (rule gettoken_symbol) (use l' in auto)
  then obtain q s2 where g: "gettoken b (skip_white b ?s) = (40, q, s2)" "left b s2 = trim (x @ ?ys)" by blast
  have d2: "parseline j b s2 \<noteq> Deep" using d unfolding e k by (auto simp: parseblock.simps(2) p(2) g(1))
  obtain c' s3 where r: "parseline j b s2 = Parsed (c', s3)" "left b s3 = trim ?ys" "map_cmd (word_text b) c' = c"
    using readsD [OF c b g(2) _ d2] by auto
  have q: "peek b s3 {41} = (True, skip_white b s3)" using r(2) by (simp add: peek_left)
  have "\<exists>q s'. gettoken b (skip_white b s3) = (41, q, s') \<and> left b s' = trim (show_reds rs @ xs)"
    by (rule gettoken_symbol) (use r(2) in auto)
  then obtain q' s4 where g': "gettoken b (skip_white b s3) = (41, q', s4)" "left b s4 = trim (show_reds rs @ xs)" by blast
  have e2: "parseexec n b s = parseredirs c' b s4" unfolding e k using parseblock_eq [OF p(2) g(1) r(1) q g'(1)] by simp
  have "chr (trim xs) \<notin> {60, 62}" using xs by (auto simp: stops_def)
  from parseredirs_reads [OF b rs g'(2) this stop_sep [OF xs], of c']
  show "\<exists>c' s'. parseexec n b s = Parsed (c', s') \<and> left b s' = trim xs \<and> map_cmd (word_text b) c' = wrap c rs"
    unfolding e2 r(3) .
qed

lemma reads_pipe_one:
  assumes c: "reads parseexec stops x c"
  shows "reads parsepipe {0, 41, 38, 59} x c"
proof (rule readsI)
  fix n b s xs
  assume b: "0 \<notin> set b" and l: "left b s = trim (x @ xs)" and xs: "chr (trim xs) \<in> {0, 41, 38, 59}" and d: "parsepipe n b s \<noteq> Deep"
  obtain k where n: "n = Suc k" using fuel_pos(2) [OF d] by blast
  have d2: "parseexec k b s \<noteq> Deep" using d unfolding n by (auto simp: parsepipe.simps(2))
  have xs': "chr (trim xs) \<in> stops" using xs by (auto simp: stops_def)
  obtain c' s1 where r: "parseexec k b s = Parsed (c', s1)" "left b s1 = trim xs" "map_cmd (word_text b) c' = c"
    using readsD [OF c b l xs' d2] by blast
  have "peek b s1 {124} = (False, skip_white b s1)" using xs r(2) by (auto simp: peek_left)
  then have "parsepipe n b s = Parsed (c', skip_white b s1)" unfolding n using r(1) by (simp add: parsepipe.simps(2))
  then show "\<exists>c' s'. parsepipe n b s = Parsed (c', s') \<and> left b s' = trim xs \<and> map_cmd (word_text b) c' = c" using r(2,3) by auto
qed

lemma reads_pipe:
  assumes c: "reads parseexec stops x c" and e: "reads parsepipe {0, 41, 38, 59} y e"
  shows "reads parsepipe {0, 41, 38, 59} (x @ [32, 124] @ y) (PipeCmd c e)"
proof (rule readsI)
  fix n b s xs
  assume b: "0 \<notin> set b" and l: "left b s = trim ((x @ [32, 124] @ y) @ xs)" and xs: "chr (trim xs) \<in> {0, 41, 38, 59}"
    and d: "parsepipe n b s \<noteq> Deep"
  obtain k where n: "n = Suc k" using fuel_pos(2) [OF d] by blast
  have d2: "parseexec k b s \<noteq> Deep" using d unfolding n by (auto simp: parsepipe.simps(2))
  let ?ys = "32 # 124 # y @ xs"
  obtain c' s1 where r: "parseexec k b s = Parsed (c', s1)" "left b s1 = trim ?ys" "map_cmd (word_text b) c' = c"
    using readsD [OF c b _ _ d2, of ?ys] l by (auto simp: stops_def)
  have p: "peek b s1 {124} = (True, skip_white b s1)" using r(2) by (simp add: peek_left)
  have "\<exists>q s'. gettoken b (skip_white b s1) = (124, q, s') \<and> left b s' = trim (y @ xs)"
    by (rule gettoken_symbol) (use r(2) in auto)
  then obtain q s2 where g: "gettoken b (skip_white b s1) = (124, q, s2)" "left b s2 = trim (y @ xs)" by blast
  note E = parsepipe_eq [OF r(1) p g(1), folded n]
  have d3: "parsepipe k b s2 \<noteq> Deep" using d unfolding E by auto
  obtain e' s3 where t: "parsepipe k b s2 = Parsed (e', s3)" "left b s3 = trim xs" "map_cmd (word_text b) e' = e"
    using readsD [OF e b g(2) xs d3] by blast
  show "\<exists>c' s'. parsepipe n b s = Parsed (c', s') \<and> left b s' = trim xs \<and> map_cmd (word_text b) c' = PipeCmd c e"
    unfolding E using t r(3) by simp
qed

lemma reads_back_one:
  assumes c: "reads parsepipe {0, 41, 38, 59} x c"
  shows "reads_back x c"
  using c unfolding reads_back_def reads_def by blast

lemma reads_back_more:
  assumes c: "reads_back x c"
  shows "reads_back (x @ [32, 38]) (Back c)"
  unfolding reads_back_def
proof (intro allI impI, elim conjE)
  fix n b s xs
  assume b: "0 \<notin> set b" and l: "left b s = trim ((x @ [32, 38]) @ xs)" and d: "parsepipe n b s \<noteq> Deep"
  let ?ys = "32 # 38 # xs"
  have "chr (trim ?ys) \<in> {0, 38, 41, 59}" by simp
  then obtain e s1 c' s' where r: "parsepipe n b s = Parsed (e, s1)" "parse_backs e b s1 = parse_backs c' b s'"
    "left b s' = trim ?ys" "map_cmd (word_text b) c' = c"
    using c b l d unfolding reads_back_def by (metis append.assoc append_Cons append_Nil)
  have p: "peek b s' {38} = (True, skip_white b s')" using r(3) by (simp add: peek_left)
  have "\<exists>q s2. gettoken b (skip_white b s') = (38, q, s2) \<and> left b s2 = trim xs"
    by (rule gettoken_symbol) (use r(3) in auto)
  then obtain q s2 where g: "gettoken b (skip_white b s') = (38, q, s2)" "left b s2 = trim xs" by blast
  have "parse_backs c' b s' = parse_backs (Back c') b s2" using parse_backs_eq [OF p g(1)] by simp
  then show "\<exists>d s1 c' s'. parsepipe n b s = Parsed (d, s1) \<and> parse_backs d b s1 = parse_backs c' b s' \<and> left b s' = trim xs \<and>
       map_cmd (word_text b) c' = Back c"
    using r g(2) by (intro exI [of _ e] exI [of _ s1] exI [of _ "Back c'"] exI [of _ s2]) simp
qed

lemma parse_backs_stop:
  assumes "chr (left b s) \<noteq> 38"
  shows "parse_backs c b s = (c, skip_white b s)"
  using assms by (subst parse_backs.simps) (simp add: peek_left)

lemma reads_line_one:
  assumes c: "reads_back x c"
  shows "reads parseline {0, 41} x c"
proof (rule readsI)
  fix n b s xs
  assume b: "0 \<notin> set b" and l: "left b s = trim (x @ xs)" and xs: "chr (trim xs) \<in> {0, 41}" and d: "parseline n b s \<noteq> Deep"
  obtain k where n: "n = Suc k" using fuel_pos(1) [OF d] by blast
  have d2: "parsepipe k b s \<noteq> Deep" using d unfolding n by (auto simp: parseline.simps(2))
  obtain e s1 c' s' where r: "parsepipe k b s = Parsed (e, s1)" "parse_backs e b s1 = parse_backs c' b s'"
    "left b s' = trim xs" "map_cmd (word_text b) c' = c"
    using c b l xs d2 unfolding reads_back_def by blast
  have k2: "parse_backs e b s1 = (c', skip_white b s')" unfolding r(2) by (rule parse_backs_stop) (use r(3) xs in auto)
  have "peek b (skip_white b s') {59} = (False, skip_white b (skip_white b s'))" using r(3) xs by (auto simp: peek_left)
  then have "parseline n b s = Parsed (c', skip_white b (skip_white b s'))" unfolding n using r(1) k2 by (simp add: parseline.simps(2))
  then show "\<exists>c' s'. parseline n b s = Parsed (c', s') \<and> left b s' = trim xs \<and> map_cmd (word_text b) c' = c" using r(3,4) by auto
qed

lemma reads_list:
  assumes c: "reads_back x c" and e: "reads parseline {0, 41} y e"
  shows "reads parseline {0, 41} (x @ [32, 59] @ y) (ListCmd c e)"
proof (rule readsI)
  fix n b s xs
  assume b: "0 \<notin> set b" and l: "left b s = trim ((x @ [32, 59] @ y) @ xs)" and xs: "chr (trim xs) \<in> {0, 41}"
    and d: "parseline n b s \<noteq> Deep"
  obtain k where n: "n = Suc k" using fuel_pos(1) [OF d] by blast
  have d2: "parsepipe k b s \<noteq> Deep" using d unfolding n by (auto simp: parseline.simps(2))
  let ?ys = "32 # 59 # y @ xs"
  have "left b s = trim (x @ ?ys)" "chr (trim ?ys) \<in> {0, 38, 41, 59}" using l by simp_all
  then obtain h s1 c' s' where r: "parsepipe k b s = Parsed (h, s1)" "parse_backs h b s1 = parse_backs c' b s'"
    "left b s' = trim ?ys" "map_cmd (word_text b) c' = c"
    using c b d2 unfolding reads_back_def by blast
  let ?s = "skip_white b s'"
  have k2: "parse_backs h b s1 = (c', ?s)" unfolding r(2) by (rule parse_backs_stop) (use r(3) in simp)
  have p: "peek b ?s {59} = (True, skip_white b ?s)" using r(3) by (simp add: peek_left)
  have "\<exists>q s2. gettoken b (skip_white b ?s) = (59, q, s2) \<and> left b s2 = trim (y @ xs)"
    by (rule gettoken_symbol) (use r(3) in auto)
  then obtain q s2 where g: "gettoken b (skip_white b ?s) = (59, q, s2)" "left b s2 = trim (y @ xs)" by blast
  note E = parseline_eq [OF r(1) k2 p g(1), folded n]
  have d3: "parseline k b s2 \<noteq> Deep" using d unfolding E by auto
  obtain e' s3 where t: "parseline k b s2 = Parsed (e', s3)" "left b s3 = trim xs" "map_cmd (word_text b) e' = e"
    using readsD [OF e b g(2) xs d3] by blast
  show "\<exists>c' s'. parseline n b s = Parsed (c', s') \<and> left b s' = trim xs \<and> map_cmd (word_text b) c' = ListCmd c e"
    unfolding E using t r(4) by simp
qed

section \<open>All commands\<close>

definition good_cmd :: "byte list cmd \<Rightarrow> bool" where
  "good_cmd c \<longleftrightarrow> wf_cmd c \<and> (\<forall>w \<in> set_cmd c. good_word w)"

lemma good_cmd_simps [simp]:
  "good_cmd (Exec ws) \<longleftrightarrow> length ws < MAXARGS \<and> (\<forall>w \<in> set ws. good_word w)"
  "good_cmd (Redir c f m d) \<longleftrightarrow> good_redir (f, m, d) \<and> good_cmd c"
  "good_cmd (PipeCmd l r) \<longleftrightarrow> good_cmd l \<and> good_cmd r" "good_cmd (ListCmd l r) \<longleftrightarrow> good_cmd l \<and> good_cmd r"
  "good_cmd (Back c) \<longleftrightarrow> good_cmd c"
  by (auto simp: good_cmd_def good_redir_def)

lemma core_good: "good_cmd c \<Longrightarrow> good_cmd (core c)" "good_cmd c \<Longrightarrow> \<forall>r \<in> set (reds c). good_redir r"
  by (induction c) auto

lemma core_level: "3 \<le> level (core c) \<Longrightarrow> \<exists>ws. core c = Exec ws"
  by (induction c) auto

lemma size_core: "size (core c) \<le> size c"
  by (induction c) auto

definition reads_cmd :: "byte list cmd \<Rightarrow> bool" where
  "reads_cmd c \<longleftrightarrow> reads parseline {0, 41} (show_cmd c) c \<and> (1 \<le> level c \<longrightarrow> reads_back (show_cmd c) c) \<and>
     (2 \<le> level c \<longrightarrow> reads parsepipe {0, 41, 38, 59} (show_cmd c) c) \<and> (3 \<le> level c \<longrightarrow> reads parseexec stops (show_cmd c) c)"

lemma reads_paren:
  assumes c: "reads_cmd c"
  shows "reads parseexec stops (paren 3 c (show_cmd c)) c" "reads parsepipe {0, 41, 38, 59} (paren 2 c (show_cmd c)) c"
    "reads_back (paren 1 c (show_cmd c)) c"
proof -
  have b: "reads parseexec stops ([32, 40] @ show_cmd c @ [32, 41]) c"
    using reads_block [of "show_cmd c" c "[]"] c by (simp add: reads_cmd_def)
  show "reads parseexec stops (paren 3 c (show_cmd c)) c" using c b by (simp add: paren_def reads_cmd_def)
  show "reads parsepipe {0, 41, 38, 59} (paren 2 c (show_cmd c)) c"
    using c reads_pipe_one [OF b] by (simp add: paren_def reads_cmd_def)
  show "reads_back (paren 1 c (show_cmd c)) c"
    using c reads_back_one [OF reads_pipe_one [OF b]] by (simp add: paren_def reads_cmd_def)
qed

text \<open>From the level of a command up to the line.\<close>

lemma reads_up:
  "reads parseexec stops (show_cmd c) c \<Longrightarrow> reads_cmd c"
  "reads parsepipe {0, 41, 38, 59} (show_cmd c) c \<Longrightarrow> level c \<le> 2 \<Longrightarrow> reads_cmd c"
  "reads_back (show_cmd c) c \<Longrightarrow> level c \<le> 1 \<Longrightarrow> reads_cmd c"
  using reads_pipe_one reads_back_one reads_line_one by (auto simp: reads_cmd_def)

lemma good_reads: "good_cmd c \<Longrightarrow> reads_cmd c"
proof (induction c rule: measure_induct_rule [of size])
  case (less c)
  show ?case
  proof (cases c)
    case (Exec ws)
    then have "reads parseexec stops (show_cmd c) c" using reads_args [of ws "[]"] less.prems by simp
    then show ?thesis by (rule reads_up(1))
  next
    case (Redir d f m fd)
    have s: "show_cmd c = paren 3 (core c) (show_cmd (core c)) @ show_reds (reds c)" "3 \<le> level c"
      using show_core [of c] by (simp_all add: Redir paren_def)
    note g = core_good [OF less.prems]
    have "reads parseexec stops (show_cmd c) (wrap (core c) (reds c))"
    proof (cases "3 \<le> level (core c)")
      case True
      then obtain ws where "core c = Exec ws" using core_level by blast
      then show ?thesis unfolding s(1) using reads_args [of ws "reds c"] g by (simp add: paren_def)
    next
      case False
      have "size (core c) < size c" using size_core [of d] by (simp add: Redir)
      then have "reads_cmd (core c)" using less.IH g(1) by blast
      then show ?thesis unfolding s(1) using reads_block [of "show_cmd (core c)" "core c" "reds c"] g(2) False
        by (simp add: paren_def reads_cmd_def)
    qed
    then show ?thesis unfolding wrap_core by (rule reads_up(1))
  next
    case (PipeCmd l r)
    have "reads_cmd l" "reads_cmd r" using less by (simp_all add: PipeCmd)
    then have "reads parsepipe {0, 41, 38, 59} (show_cmd c) c" using reads_pipe reads_paren by (simp add: PipeCmd)
    then show ?thesis by (rule reads_up(2)) (simp add: PipeCmd)
  next
    case (ListCmd l r)
    have "reads_cmd l" "reads_cmd r" using less by (simp_all add: ListCmd)
    then have "reads parseline {0, 41} (show_cmd c) c" using reads_list reads_paren(3) by (simp add: ListCmd reads_cmd_def)
    then show ?thesis by (simp add: ListCmd reads_cmd_def)
  next
    case (Back d)
    have "reads_cmd d" using less by (simp add: Back)
    then have "reads_back (show_cmd c) c" using reads_back_more reads_paren(3) by (simp add: Back)
    then show ?thesis by (rule reads_up(3)) (simp add: Back)
  qed
qed

lemma good_word_bytes: "good_word w \<Longrightarrow> 0 \<notin> set w"
  by (auto simp: good_word_def word_char_def)

lemma show_cmd_bytes: "good_cmd c \<Longrightarrow> 0 \<notin> set (show_cmd c)"
  by (induction c) (auto simp: paren_def show_redir_def good_redir_def dest: good_word_bytes)

lemma trim_white: "\<forall>x \<in> set ws. x \<in> whitespace \<Longrightarrow> trim ws = []"
  by (simp add: trim_def dropWhile_eq_Nil_conv)

lemma shown_parses:
  assumes g: "good_cmd c" and ws: "\<forall>x \<in> set ws. x \<in> whitespace"
  shows "\<exists>d m. parsecmd (show_cmd c @ ws @ 0 # pad) = Parsed (d, m) \<and> map_cmd (\<lambda>(q, e). cstring m q) d = c"
proof -
  let ?b = "show_cmd c @ ws" and ?m = "show_cmd c @ ws @ 0 # pad"
  have z: "0 \<notin> set ?b" using show_cmd_bytes [OF g] ws by (auto simp: whitespace_def)
  then have "takeWhile (\<lambda>x. x \<noteq> 0) (?b @ 0 # pad) = ?b" by (subst takeWhile_append2) auto
  then have b: "takeWhile (\<lambda>x. x \<noteq> 0) ?m = ?b" by simp
  let ?r = "parseline (4 * length ?b + 4) ?b 0"
  have nd: "?r \<noteq> Deep" by (rule parser_not_Deep(1) [OF z]) simp_all
  have R: "reads parseline {0, 41} (show_cmd c) c" using good_reads [OF g] by (simp add: reads_cmd_def)
  have "left ?b 0 = trim (show_cmd c @ ws)" "chr (trim ws) \<in> {0, 41}" using trim_white [OF ws] by (simp_all add: left_def)
  from readsD [OF R z this nd] obtain d s where r: "?r = Parsed (d, s)" "left ?b s = []" "map_cmd (word_text ?b) d = c"
    using trim_white [OF ws] by auto
  have ok: "cmd_ok ?b d" "s \<le> length ?b" using parser_ok(1) [OF z, of 0 "4 * length ?b + 4"] r(1) by (simp_all add: parsed_ok_def onward_def)
  have e: "skip_white ?b s = length ?b"
  proof (rule antisym)
    show "skip_white ?b s \<le> length ?b" using skip_white_le(2) [where b = ?b and s = s] ok(2) by simp
    have "drop (skip_white ?b s) ?b = []" unfolding drop_skip_white r(2) ..
    then show "length ?b \<le> skip_white ?b s" unfolding drop_eq_Nil .
  qed
  have p: "parsecmd ?m = Parsed (d, nulterminate d ?m)" unfolding parsecmd_def Let_def b r(1) by (simp add: peek_left e)
  have "map_cmd (\<lambda>(q, e). cstring (nulterminate d ?m) q) d = map_cmd (word_text ?b) d"
  proof (rule cmd.map_cong0)
    fix w assume w: "w \<in> set_cmd d"
    obtain q e where qe: "w = (q, e)" by fastforce
    have "cstring (nulterminate d ?m) q = word_text ?b (q, e)"
      by (rule word_in_place [OF b [symmetric]]) (use ok w qe in \<open>simp_all add: cmd_ok_def\<close>)
    then show "(case w of (q, e) \<Rightarrow> cstring (nulterminate d ?m) q) = word_text ?b w" by (simp add: qe)
  qed
  then show ?thesis using p r(3) by auto
qed

text \<open>C32: The parser reads every command: a command written out as a line, each token behind a blank and parentheses where
  the grammar needs them, is parsed to that very command, with the words in the order and the places they had. White space
  behind it, as the newline of a typed line, does not matter.\<close>

theorem parse_show:
  assumes "wf_cmd c" "\<forall>w \<in> set_cmd c. good_word w" "\<forall>x \<in> set ws. x \<in> whitespace"
  shows "\<exists>d m. parsecmd (show_cmd c @ ws @ 0 # pad) = Parsed (d, m) \<and> map_cmd (\<lambda>(q, e). cstring m q) d = c"
  by (rule shown_parses) (use assms in \<open>simp_all add: good_cmd_def\<close>)

text \<open>The command of \<open>(a;b)&|c>d\<close>.\<close>

definition demo_cmd :: "byte list cmd" where
  "demo_cmd = PipeCmd (Back (ListCmd (Exec [[97]]) (Exec [[98]]))) (Redir (Exec [[99]]) [100] (O_WRONLY OR O_CREATE) 1)"

theorem parse_show_witness: "\<exists>d m. parsecmd (show_cmd demo_cmd @ [10] @ [0]) = Parsed (d, m) \<and> map_cmd (\<lambda>(q, e). cstring m q) d = demo_cmd"
  by (rule parse_show) (simp_all add: demo_cmd_def MAXARGS_def good_word_def word_char_def whitespace_def symbols_def)

end
