(* ===== verification/Shell_Run.thy ===== *)
theory Shell_Run
  imports Shell_Print Ulib
begin










fun gets_line :: "nat \<Rightarrow> byte list \<Rightarrow> byte list \<times> byte list" where
  "gets_line 0 inp = ([], inp)"
| "gets_line (Suc k) [] = ([], [])"
| "gets_line (Suc k) (c # inp) =
     (if c = 10 \<or> c = 13 then ([c], inp) else let (xs, rest) = gets_line k inp in (c # xs, rest))"



text \<open>This is the \<open>gets\<close> of the user library, whose array lies in memory.\<close>

fun put_bytes :: "mem \<Rightarrow> u32 \<Rightarrow> byte list \<Rightarrow> mem" where
  "put_bytes m p [] = m"
| "put_bytes m p (x # xs) = put_bytes (m(p := x)) (p + 1) xs"

lemma gets_loop_line:
  "gets_loop k m p inp = (let (xs, rest) = gets_line k inp in (put_bytes m p xs, p + of_nat (length xs), rest))"
  by (induction k inp arbitrary: m p rule: gets_line.induct) (auto simp: Let_def add.assoc split: prod.splits)





section \<open>Running a tree\<close>



































end
