(* ===== verification/Ide.thy ===== *)
theory Ide
  imports Bio
begin

text \<open>
  ide.c, the driver of the disk controller, with its queue of buffers. The link \<open>qnext\<close> of the buffers is a field of its
  own. The controller is hardware: \<open>ports\<close> is the list of what the driver writes to it, \<open>status\<close> the sequence of the values
  that its status register shows, from \<open>st_pos\<close> on, and \<open>sectors\<close> the data of its reads. The routing of the interrupt is
  left out. The functions whose names memide.c uses too have the suffix \<open>_disk\<close>.
\<close>

definition SECTOR_SIZE :: nat where "SECTOR_SIZE = 512"
definition FSSIZE :: u32 where "FSSIZE = 1000"
definition IDE_BSY :: byte where "IDE_BSY = 0x80"
definition IDE_DRDY :: byte where "IDE_DRDY = 0x40"
definition IDE_DF :: byte where "IDE_DF = 0x20"
definition IDE_ERR :: byte where "IDE_ERR = 0x01"
definition IDE_CMD_READ :: byte where "IDE_CMD_READ = 0x20"
definition IDE_CMD_WRITE :: byte where "IDE_CMD_WRITE = 0x30"
definition IDE_CMD_RDMUL :: byte where "IDE_CMD_RDMUL = 0xc4"
definition IDE_CMD_WRMUL :: byte where "IDE_CMD_WRMUL = 0xc5"

datatype portio = Outb u16 byte | Outsl u16 block

record idesys = bio +
  idequeue :: "nat option"
  qnext :: "nat \<Rightarrow> nat option"
  havedisk1 :: bool
  ports :: "portio list"
  status :: "nat \<Rightarrow> byte"
  st_pos :: nat
  sectors :: "block list"

definition outs :: "portio list \<Rightarrow> 'z idesys_scheme \<Rightarrow> 'z idesys_scheme" where
  "outs ps s = s\<lparr>ports := ports s @ ps\<rparr>"

text \<open>The place at which the status register shows a drive that is ready; the loop may never find one.\<close>

partial_function (option) ready_at :: "(nat \<Rightarrow> byte) \<Rightarrow> nat \<Rightarrow> nat option" where
  "ready_at st n = (if st n AND (IDE_BSY OR IDE_DRDY) = IDE_DRDY then Some n else ready_at st (Suc n))"

definition idewait :: "bool \<Rightarrow> 'z idesys_scheme \<Rightarrow> (int, 'z idesys_scheme) outcome" where
  "idewait checkerr s =
     (case ready_at (status s) (st_pos s) of
        None \<Rightarrow> Spin
      | Some n \<Rightarrow>
          Ret (if checkerr \<and> status s n AND (IDE_DF OR IDE_ERR) \<noteq> 0 then -1 else 0) (s\<lparr>st_pos := Suc n\<rparr>))"

definition ideinit_disk :: "'z idesys_scheme \<Rightarrow> (unit, 'z idesys_scheme) outcome" where
  "ideinit_disk s =
     rbind (idewait False (initlock LIde ''ide'' s)) (\<lambda>_ s.
     let s = outs [Outb 0x1f6 (0xe0 OR push_bit 4 1)] s;
         s = (case find (\<lambda>i. status s (st_pos s + i) \<noteq> 0) [0..<1000] of
                Some i \<Rightarrow> s\<lparr>havedisk1 := True, st_pos := st_pos s + Suc i\<rparr>
              | None \<Rightarrow> s\<lparr>st_pos := st_pos s + 1000\<rparr>) in
     Ret () (outs [Outb 0x1f6 (0xe0 OR push_bit 4 0)] s))"

definition idestart :: "nat option \<Rightarrow> 'z idesys_scheme \<Rightarrow> (unit, 'z idesys_scheme) outcome" where
  "idestart b s =
     (case b of None \<Rightarrow> Panic ''idestart'' | Some b \<Rightarrow>
     let x = bufs s b in
     if FSSIZE \<le> b_blockno x then Panic ''incorrect blockno''
     else
       let sector_per_block = BSIZE div SECTOR_SIZE;
           sector = b_blockno x * of_nat sector_per_block;
           read_cmd = (if sector_per_block = 1 then IDE_CMD_READ else IDE_CMD_RDMUL);
           write_cmd = (if sector_per_block = 1 then IDE_CMD_WRITE else IDE_CMD_WRMUL) in
       if 7 < sector_per_block then Panic ''idestart''
       else
         rbind (idewait False s) (\<lambda>_ s.
         let s = outs [Outb 0x3f6 0, Outb 0x1f2 (of_nat sector_per_block), Outb 0x1f3 (ucast (sector AND 0xff)),
                   Outb 0x1f4 (ucast (drop_bit 8 sector AND 0xff)), Outb 0x1f5 (ucast (drop_bit 16 sector AND 0xff)),
                   Outb 0x1f6 (ucast (0xe0 OR push_bit 4 (b_dev x AND 1) OR (drop_bit 24 sector AND 0x0f)))] s in
         Ret () (if b_flags x AND B_DIRTY \<noteq> 0 then outs [Outb 0x1f7 write_cmd, Outsl 0x1f0 (b_data x)] s
                 else outs [Outb 0x1f7 read_cmd] s)))"

text \<open>\<open>insl\<close> takes the next sector that the controller has read.\<close>

definition insl :: "nat \<Rightarrow> 'z idesys_scheme \<Rightarrow> 'z idesys_scheme" where
  "insl b s = set_buf b (\<lambda>x. x\<lparr>b_data := hd (sectors s)\<rparr>) (s\<lparr>sectors := tl (sectors s)\<rparr>)"

definition ideintr :: "'z idesys_scheme \<Rightarrow> (unit, 'z idesys_scheme) outcome" where
  "ideintr s =
     rbind (acquire LIde s) (\<lambda>_ s.
     case idequeue s of
       None \<Rightarrow> release LIde s
     | Some b \<Rightarrow>
         let s = s\<lparr>idequeue := qnext s b\<rparr> in
         rbind (if b_flags (bufs s b) AND B_DIRTY = 0
                then rbind (idewait True s) (\<lambda>r s. Ret () (if 0 \<le> r then insl b s else s))
                else Ret () s) (\<lambda>_ s.
         let s = set_buf b (\<lambda>x. x\<lparr>b_flags := b_flags x OR B_VALID\<rparr>) s;
             s = set_buf b (\<lambda>x. x\<lparr>b_flags := b_flags x AND NOT B_DIRTY\<rparr>) s in
         rbind (wakeup (Some (ChanBuf b)) s) (\<lambda>_ s.
         rbind (if idequeue s \<noteq> None then idestart (idequeue s) s else Ret () s) (\<lambda>_ s.
         release LIde s))))"

text \<open>\<open>iderw\<close> up to the sleep, and from there on; the last buffer of the queue is the one whose link is null.\<close>

partial_function (option) queue_last :: "(nat \<Rightarrow> nat option) \<Rightarrow> nat \<Rightarrow> nat option" where
  "queue_last f b = (case f b of None \<Rightarrow> Some b | Some c \<Rightarrow> queue_last f c)"

definition enqueue :: "nat \<Rightarrow> 'z idesys_scheme \<Rightarrow> (unit, 'z idesys_scheme) outcome" where
  "enqueue b s =
     (let s = s\<lparr>qnext := (qnext s)(b := None)\<rparr> in
      case idequeue s of
        None \<Rightarrow> Ret () (s\<lparr>idequeue := Some b\<rparr>)
      | Some h \<Rightarrow>
          (case queue_last (qnext s) h of None \<Rightarrow> Spin | Some l \<Rightarrow> Ret () (s\<lparr>qnext := (qnext s)(l := Some b)\<rparr>)))"

definition iderw_wait :: "nat \<Rightarrow> 'z idesys_scheme \<Rightarrow> (unit, 'z idesys_scheme) outcome" where
  "iderw_wait b s =
     (if b_flags (bufs s b) AND (B_VALID OR B_DIRTY) \<noteq> B_VALID then sleep (Some (ChanBuf b)) (Some LIde) s
      else release LIde s)"

definition iderw_disk :: "nat \<Rightarrow> 'z idesys_scheme \<Rightarrow> (unit, 'z idesys_scheme) outcome" where
  "iderw_disk b s =
     rbind (holdingsleep (SBuf b) s) (\<lambda>h s.
     if \<not> h then Panic ''iderw: buf not locked''
     else if b_flags (bufs s b) AND (B_VALID OR B_DIRTY) = B_VALID then Panic ''iderw: nothing to do''
     else if b_dev (bufs s b) \<noteq> 0 \<and> \<not> havedisk1 s then Panic ''iderw: ide disk 1 not present''
     else
       rbind (acquire LIde s) (\<lambda>_ s.
       rbind (enqueue b s) (\<lambda>_ s.
       rbind (if idequeue s = Some b then idestart (Some b) s else Ret () s) (\<lambda>_ s.
       iderw_wait b s))))"

definition iderw_resume :: "nat \<Rightarrow> nat \<Rightarrow> bool \<Rightarrow> 'z idesys_scheme \<Rightarrow> (unit, 'z idesys_scheme) outcome" where
  "iderw_resume b p saved s = rbind (sleep_resume p LIde saved s) (\<lambda>_ s. iderw_wait b s)"

section \<open>The queue as a list\<close>

fun queued :: "(nat \<Rightarrow> nat option) \<Rightarrow> nat option \<Rightarrow> nat list \<Rightarrow> bool" where
  "queued f x [] \<longleftrightarrow> x = None"
| "queued f x (b # bs) \<longleftrightarrow> x = Some b \<and> queued f (f b) bs"

definition idle_after :: "'z idesys_scheme \<Rightarrow> bool" where
  "idle_after s \<longleftrightarrow> (\<forall>n. \<exists>m \<ge> n. status s m AND (IDE_BSY OR IDE_DRDY) = IDE_DRDY)"

definition ide_inv :: "'z idesys_scheme \<Rightarrow> nat list \<Rightarrow> bool" where
  "ide_inv s bs \<longleftrightarrow> queued (qnext s) (idequeue s) bs \<and> distinct bs \<and> idle_after s \<and>
     (\<forall>b \<in> set bs. b_blockno (bufs s b) < FSSIZE \<and> b_flags (bufs s b) AND (B_VALID OR B_DIRTY) \<noteq> B_VALID)"

lemma queued_cong: "\<forall>b \<in> set bs. f b = g b \<Longrightarrow> queued f x bs = queued g x bs"
  by (induction bs arbitrary: x) auto

lemma queue_last_queued: "queued f (Some h) bs \<Longrightarrow> queue_last f h = Some (last bs)"
proof (induction bs arbitrary: h)
  case (Cons b bs)
  then show ?case by (cases bs) (auto simp: queue_last.simps [of f b])
qed simp

lemma queued_snoc:
  "queued f x bs \<Longrightarrow> bs \<noteq> [] \<Longrightarrow> distinct bs \<Longrightarrow> b \<notin> set bs \<Longrightarrow> queued (f(b := None, last bs := Some b)) x (bs @ [b])"
proof (induction bs arbitrary: x)
  case (Cons a bs)
  show ?case
  proof (cases "bs = []")
    case True
    then show ?thesis using Cons.prems by auto
  next
    case False
    then have "last bs \<noteq> a" using Cons.prems(3) by auto
    then show ?thesis using Cons False by auto
  qed
qed simp

end
