(* ===== verification/Ide_Props.thy ===== *)
theory Ide_Props
  imports Ide Demo
begin

text \<open>The driver of ide.c serves the buffers of its queue in the order in which they came.\<close>

lemma ide_lock [lock_simps]:
  "(held l s)\<lparr>idequeue := q\<rparr> = held l (s\<lparr>idequeue := q\<rparr>)" "(held l s)\<lparr>qnext := f\<rparr> = held l (s\<lparr>qnext := f\<rparr>)"
  "(held l s)\<lparr>st_pos := n\<rparr> = held l (s\<lparr>st_pos := n\<rparr>)" "(held l s)\<lparr>sectors := ds\<rparr> = held l (s\<lparr>sectors := ds\<rparr>)"
  "outs ps (held l s) = held l (outs ps s)"
  "idequeue (held l s) = idequeue s" "qnext (held l s) = qnext s" "havedisk1 (held l s) = havedisk1 s"
  "ports (held l s) = ports s" "status (held l s) = status s" "st_pos (held l s) = st_pos s" "sectors (held l s) = sectors s"
  by (simp_all add: outs_def held_def cli_state_def me_def me_opt_def)

lemma ide_upd [lock_simps]:
  "cpu_ok (s\<lparr>idequeue := q\<rparr>) = cpu_ok s" "cpu_ok (s\<lparr>qnext := f\<rparr>) = cpu_ok s" "cpu_ok (s\<lparr>st_pos := n\<rparr>) = cpu_ok s"
  "cpu_ok (s\<lparr>sectors := ds\<rparr>) = cpu_ok s" "cpu_ok (outs ps s) = cpu_ok s"
  "lfree l (s\<lparr>idequeue := q\<rparr>) = lfree l s" "lfree l (s\<lparr>qnext := f\<rparr>) = lfree l s" "lfree l (s\<lparr>st_pos := n\<rparr>) = lfree l s"
  "lfree l (s\<lparr>sectors := ds\<rparr>) = lfree l s" "lfree l (outs ps s) = lfree l s"
  "me (s\<lparr>idequeue := q\<rparr>) = me s" "me (s\<lparr>qnext := f\<rparr>) = me s" "me (s\<lparr>st_pos := n\<rparr>) = me s"
  "me (s\<lparr>sectors := ds\<rparr>) = me s" "me (outs ps s) = me s"
  by (simp_all add: outs_def me_def me_opt_def cpu_ok_def lfree_def)

text \<open>What \<open>idestart\<close> tells the controller.\<close>

definition request :: "buf \<Rightarrow> portio list" where
  "request x =
     [Outb 0x3f6 0, Outb 0x1f2 1, Outb 0x1f3 (ucast (b_blockno x AND 0xff)), Outb 0x1f4 (ucast (drop_bit 8 (b_blockno x) AND 0xff)),
      Outb 0x1f5 (ucast (drop_bit 16 (b_blockno x) AND 0xff)),
      Outb 0x1f6 (ucast (0xe0 OR push_bit 4 (b_dev x AND 1) OR (drop_bit 24 (b_blockno x) AND 0x0f)))] @
     (if b_flags x AND B_DIRTY \<noteq> 0 then [Outb 0x1f7 IDE_CMD_WRITE, Outsl 0x1f0 (b_data x)] else [Outb 0x1f7 IDE_CMD_READ])"

lemma outs_frame [simp]:
  "ports (outs ps s) = ports s @ ps" "procs (outs ps s) = procs s" "bufs (outs ps s) = bufs s" "sectors (outs ps s) = sectors s"
  "idequeue (outs ps s) = idequeue s" "qnext (outs ps s) = qnext s" "status (outs ps s) = status s" "st_pos (outs ps s) = st_pos s"
  "cpus (outs ps s) = cpus s" "slocks (outs ps s) = slocks s" "locks (outs ps s) = locks s" "havedisk1 (outs ps s) = havedisk1 s"
  by (simp_all add: outs_def)

lemma ready_found:
  assumes "st m AND (IDE_BSY OR IDE_DRDY) = IDE_DRDY" "n \<le> m"
  shows "\<exists>k \<ge> n. ready_at st n = Some k"
  using assms(2)
proof (induction "m - n" arbitrary: n)
  case 0
  then show ?case using assms(1) by (subst ready_at.simps) auto
next
  case (Suc d)
  have "d = m - Suc n" "Suc n \<le> m" using Suc by auto
  from Suc(1) [OF this] obtain k where "Suc n \<le> k" "ready_at st (Suc n) = Some k" by blast
  then show ?case by (subst ready_at.simps) (auto intro: Suc_leD)
qed

lemma idewait_ready:
  assumes "idle_after s"
  shows "\<exists>n r. idewait c s = Ret r (s\<lparr>st_pos := n\<rparr>) \<and> (r = 0 \<or> r = -1 \<and> c)"
proof -
  obtain m where m: "st_pos s \<le> m" "status s m AND (IDE_BSY OR IDE_DRDY) = IDE_DRDY" using assms unfolding idle_after_def by blast
  from ready_found [of "status s" m "st_pos s", OF m(2,1)] obtain k where "ready_at (status s) (st_pos s) = Some k" by blast
  then show ?thesis by (auto simp: idewait_def)
qed

lemma idestart_starts:
  assumes "idle_after s" "b_blockno (bufs s b) < FSSIZE"
  shows "\<exists>n. idestart (Some b) s = Ret () (outs (request (bufs s b)) (s\<lparr>st_pos := n\<rparr>))"
proof -
  obtain n where "idewait False s = Ret 0 (s\<lparr>st_pos := n\<rparr>)" using idewait_ready [OF assms(1), of False] by auto
  then show ?thesis using assms(2)
    by (auto simp: idestart_def request_def BSIZE_def SECTOR_SIZE_def outs_def not_le [symmetric] Let_def)
qed

lemma idle_frame [simp]:
  "idle_after (outs ps s) = idle_after s" "idle_after (s\<lparr>st_pos := n\<rparr>) = idle_after s" "idle_after (s\<lparr>idequeue := q\<rparr>) = idle_after s"
  "idle_after (s\<lparr>qnext := f\<rparr>) = idle_after s" "idle_after (s\<lparr>sectors := ds\<rparr>) = idle_after s" "idle_after (held l s) = idle_after s"
  "idle_after (set_buf b g s) = idle_after s" "idle_after (s\<lparr>procs := ps'\<rparr>) = idle_after s"
  by (simp_all add: idle_after_def outs_def set_buf_def lock_simps)


lemma served_flags:
  "(((f :: u32) OR B_VALID) AND NOT B_DIRTY) AND (B_VALID OR B_DIRTY) = B_VALID"
proof -
  have v: "B_VALID = 2 ^ 1" "B_DIRTY = 2 ^ 2" by (simp_all add: B_VALID_def B_DIRTY_def)
  have b: "bit B_VALID n \<longleftrightarrow> n = 1" "bit B_DIRTY n \<longleftrightarrow> n = 2" for n unfolding v by (auto simp only: bit_exp_iff) auto
  show ?thesis by (intro bit_word_eqI) (auto simp: bit_simps b)
qed

text \<open>The handler in closed form.\<close>

definition served :: "nat \<Rightarrow> nat \<Rightarrow> 'z idesys_scheme \<Rightarrow> 'z idesys_scheme" where
  "served b n s =
     (let dirty = b_flags (bufs s b) AND B_DIRTY \<noteq> 0; ok = status s n AND (IDE_DF OR IDE_ERR) = 0 in
      s\<lparr>idequeue := qnext s b, st_pos := if dirty then st_pos s else Suc n,
        sectors := if \<not> dirty \<and> ok then tl (sectors s) else sectors s,
        bufs := (bufs s)(b := (bufs s b)\<lparr>b_data := if \<not> dirty \<and> ok then hd (sectors s) else b_data (bufs s b),
          b_flags := (b_flags (bufs s b) OR B_VALID) AND NOT B_DIRTY\<rparr>),
        procs := woken (Some (ChanBuf b)) (procs s)\<rparr>)"

lemma ide_bufs [lock_simps]:
  "(held l s)\<lparr>bufs := f\<rparr> = held l (s\<lparr>bufs := f\<rparr>)" "cpu_ok (s\<lparr>bufs := f\<rparr>) = cpu_ok s" "lfree l (s\<lparr>bufs := f\<rparr>) = lfree l s"
  "me (s\<lparr>bufs := f\<rparr>) = me s"
  by (simp_all add: held_def cli_state_def me_def me_opt_def cpu_ok_def lfree_def)

lemma ideintr_none:
  assumes "cpu_ok s" "lfree LIde s" "idequeue s = None"
  shows "ideintr s = Ret () s"
  using assms by (simp add: ideintr_def run_simps lock_simps)

lemma ideintr_serves:
  assumes "cpu_ok s" "lfree LIde s" "lfree LPtable s" "idequeue s = Some b" "ready_at (status s) (st_pos s) = Some n"
  shows "ideintr s = rbind (if qnext s b \<noteq> None then idestart (qnext s b) (held LIde (served b n s)) else Ret () (held LIde (served b n s)))
     (\<lambda>_ s. release LIde s)"
proof (cases "b_flags (bufs s b) AND B_DIRTY = 0 \<and> status s n AND (IDE_DF OR IDE_ERR) = 0")
  case True
  then show ?thesis using assms
    by (simp add: ideintr_def served_def run_simps lock_simps idewait_def insl_def Let_def set_buf_def)
next
  case False
  then show ?thesis using assms
    by (auto simp add: ideintr_def served_def run_simps lock_simps idewait_def Let_def set_buf_def)
qed


lemma bufs_held [simp]: "bufs (held l s) = bufs s" for s :: "'z bio_scheme"
  by (simp add: held_def cli_state_def)

lemma served_frame [simp]:
  "idequeue (served b n s) = qnext s b" "qnext (served b n s) = qnext s" "ports (served b n s) = ports s"
  "procs (served b n s) = woken (Some (ChanBuf b)) (procs s)" "cpu_ok (served b n s) = cpu_ok s"
  "lfree l (served b n s) = lfree l s" "idle_after (served b n s) = idle_after s" "status (served b n s) = status s"
  by (simp_all add: served_def lock_simps Let_def idle_after_def)

lemma served_bufs:
  "c \<noteq> b \<Longrightarrow> bufs (served b n s) c = bufs s c"
  "b_flags (bufs (served b n s) b) AND (B_VALID OR B_DIRTY) = B_VALID"
  "b_flags (bufs s b) AND B_DIRTY \<noteq> 0 \<or> status s n AND (IDE_DF OR IDE_ERR) \<noteq> 0 \<Longrightarrow> b_data (bufs (served b n s) b) = b_data (bufs s b)"
  "b_flags (bufs s b) AND B_DIRTY = 0 \<Longrightarrow> status s n AND (IDE_DF OR IDE_ERR) = 0 \<Longrightarrow>
     b_data (bufs (served b n s) b) = hd (sectors s) \<and> sectors (served b n s) = tl (sectors s)"
  by (auto simp: served_def Let_def served_flags)

lemma idle_ready: "ide_inv s bs \<Longrightarrow> \<exists>n. ready_at (status s) (st_pos s) = Some n"
  unfolding ide_inv_def idle_after_def by (meson ready_found)

text \<open>One interrupt serves the head of the queue and starts the controller on the next buffer.\<close>

definition ide_ready :: "'z idesys_scheme \<Rightarrow> bool" where
  "ide_ready s \<longleftrightarrow> cpu_ok s \<and> lfree LIde s \<and> lfree LPtable s"

definition next_request :: "(nat \<Rightarrow> buf) \<Rightarrow> nat list \<Rightarrow> portio list" where
  "next_request f bs = (case bs of [] \<Rightarrow> [] | c # _ \<Rightarrow> request (f c))"

lemma ideintr_law:
  assumes "ide_ready s" "ide_inv s (b # bs)" "ready_at (status s) (st_pos s) = Some n"
  shows "\<exists>k. ideintr s = Ret () (outs (next_request (bufs s) bs) ((served b n s)\<lparr>st_pos := k\<rparr>))"
proof -
  have q: "idequeue s = Some b" "queued (qnext s) (qnext s b) bs" "b \<notin> set bs"
    using assms(2) by (auto simp: ide_inv_def)
  have i: "ideintr s = rbind (if qnext s b \<noteq> None then idestart (qnext s b) (held LIde (served b n s)) else Ret () (held LIde (served b n s)))
     (\<lambda>_ s. release LIde s)"
    using assms q by (intro ideintr_serves) (auto simp: ide_ready_def)
  show ?thesis
  proof (cases bs)
    case Nil
    then show ?thesis using i q assms(1)
      by (intro exI [of _ "st_pos (served b n s)"]) (simp add: next_request_def ide_ready_def run_simps outs_def)
  next
    case (Cons c cs)
    have "\<exists>k. idestart (Some c) (held LIde (served b n s)) =
       Ret () (outs (request (bufs (held LIde (served b n s)) c)) ((held LIde (served b n s))\<lparr>st_pos := k\<rparr>))"
      using assms(2) q Cons by (intro idestart_starts) (auto simp: ide_inv_def served_bufs)
    then show ?thesis using i q Cons assms(1)
      by (auto simp: next_request_def ide_ready_def run_simps lock_simps served_bufs)
  qed
qed

lemma ide_inv_served:
  assumes "ide_inv s (b # bs)"
  shows "ide_inv (outs ps ((served b n s)\<lparr>st_pos := k\<rparr>)) bs"
proof -
  have "bufs (served b n s) c = bufs s c" if "c \<in> set bs" for c
    using that assms by (intro served_bufs) (auto simp: ide_inv_def)
  then show ?thesis using assms by (auto simp: ide_inv_def outs_def idle_after_def)
qed

text \<open>A state with two buffers in the queue.\<close>

definition demo_ide :: "byte \<Rightarrow> idesys" where
  "demo_ide st = demo_bio demo_disk \<lparr>idequeue = Some 3, qnext = (\<lambda>_. None)(3 := Some 5), havedisk1 = True, ports = [],
     status = (\<lambda>_. st), st_pos = 0, sectors = [replicate BSIZE 7]\<rparr>"

lemma demo_ide_facts:
  "kready (demo_ide st)" "st AND (IDE_BSY OR IDE_DRDY) = IDE_DRDY \<Longrightarrow> ide_inv (demo_ide st) [3, 5]"
  "ide_ready (demo_ide st)" "status (demo_ide st) n = st" "st_pos (demo_ide st) = 0" "sectors (demo_ide st) = [replicate BSIZE 7]"
  "b_flags (bufs (demo_ide st) b) = 0" "b_dev (bufs (demo_ide st) b) = 0" "b_blockno (bufs (demo_ide st) b) = 0"
  "b_data (bufs (demo_ide st) b) = zero_block" "ncli (cpus (demo_ide st) c) = 0" "curpid (demo_ide st) = 1"
  "ports (demo_ide st) = []" "procs (demo_ide st) = demo_proc"
  "st AND (IDE_BSY OR IDE_DRDY) = IDE_DRDY \<Longrightarrow> ready_at (status (demo_ide st)) 0 = Some 0"
proof -
  show k: "kready (demo_ide st)" by (simp add: demo_ide_def demo_bio_def)
  then show "ide_ready (demo_ide st)" by (simp add: ide_ready_def kreadyD)
  have "curproc (demo_ide st) = 0" by (simp add: curproc_def demo_ide_def demo_bio_def) (simp add: demo_kern_def)
  then show "curpid (demo_ide st) = 1" by (simp add: curpid_def demo_ide_def demo_bio_def demo_kern_def demo_proc_def)
qed (auto simp: demo_ide_def demo_bio_def demo_kern_def ide_inv_def idle_after_def FSSIZE_def B_VALID_def ready_at.simps)

text \<open>One interrupt serves the buffer at the head of the queue. It is then valid and clean, with its own data if it
  was dirty and with the data of the controller if it was read; it leaves the queue, which stays well formed, the
  processes asleep on it become runnable, the other buffers stay as they are, and the controller is started on the
  buffer behind it.\<close>

theorem ideintr_head:
  assumes "ide_ready s" "ide_inv s (b # bs)" "ready_at (status s) (st_pos s) = Some n"
    "status s n AND (IDE_DF OR IDE_ERR) = 0"
  shows "\<exists>t. ideintr s = Ret () t \<and> ide_ready t \<and> ide_inv t bs \<and> procs t = woken (Some (ChanBuf b)) (procs s) \<and>
    b_flags (bufs t b) AND (B_VALID OR B_DIRTY) = B_VALID \<and>
    b_data (bufs t b) = (if b_flags (bufs s b) AND B_DIRTY = 0 then hd (sectors s) else b_data (bufs s b)) \<and>
    (\<forall>c. c \<noteq> b \<longrightarrow> bufs t c = bufs s c) \<and> ports t = ports s @ next_request (bufs s) bs"
proof -
  obtain k where "ideintr s = Ret () (outs (next_request (bufs s) bs) ((served b n s)\<lparr>st_pos := k\<rparr>))"
    using ideintr_law [OF assms(1-3)] by blast
  then show ?thesis using assms ide_inv_served [OF assms(2)]
    by (auto simp: ide_ready_def lock_simps served_bufs)
qed

theorem ideintr_head_witness:
  "\<exists>t. ideintr (demo_ide 0x40) = Ret () t \<and> b_data (bufs t 3) = replicate BSIZE 7 \<and> ide_inv t [5]"
  using ideintr_head [of "demo_ide 0x40" 3 "[5]" 0]
  by (auto simp: demo_ide_facts IDE_BSY_def IDE_DRDY_def IDE_DF_def IDE_ERR_def)

text \<open>\<open>idewait\<close> reports an error of the drive, and \<open>ideintr\<close> then skips the transfer and nothing else.\<close>

text \<open>C36: the interrupt of a read that failed. The status of the drive shows an error, so no data are taken; the buffer is
  marked valid all the same and its readers are woken, with whatever data the buffer had before as the contents of the
  block.\<close>

theorem ideintr_read_error:
  assumes "ide_ready s" "ide_inv s (b # bs)" "ready_at (status s) (st_pos s) = Some n"
    "status s n AND (IDE_DF OR IDE_ERR) \<noteq> 0" "b_flags (bufs s b) AND B_DIRTY = 0"
  shows "\<exists>t. ideintr s = Ret () t \<and> b_flags (bufs t b) AND (B_VALID OR B_DIRTY) = B_VALID \<and>
    b_data (bufs t b) = b_data (bufs s b) \<and> procs t = woken (Some (ChanBuf b)) (procs s)"
proof -
  obtain k where "ideintr s = Ret () (outs (next_request (bufs s) bs) ((served b n s)\<lparr>st_pos := k\<rparr>))"
    using ideintr_law [OF assms(1-3)] by blast
  then show ?thesis using assms by (auto simp: served_bufs)
qed

theorem ideintr_read_error_witness:
  "\<exists>t. ideintr (demo_ide 0x41) = Ret () t \<and> b_flags (bufs t 3) AND (B_VALID OR B_DIRTY) = B_VALID \<and> b_data (bufs t 3) = zero_block"
  using ideintr_read_error [of "demo_ide 0x41" 3 "[5]" 0]
  by (auto simp: demo_ide_facts IDE_BSY_def IDE_DRDY_def IDE_DF_def IDE_ERR_def)

text \<open>A sequence of interrupts serves the whole queue.\<close>

primrec interrupts :: "nat \<Rightarrow> 'z idesys_scheme \<Rightarrow> (unit, 'z idesys_scheme) outcome" where
  "interrupts 0 s = Ret () s"
| "interrupts (Suc n) s = rbind (ideintr s) (\<lambda>_ s. interrupts n s)"

lemma woken_runnable:
  "i < NPROC \<Longrightarrow> state (ps i) = SLEEPING \<Longrightarrow> chan (ps i) = c \<Longrightarrow> state (woken c ps i) = RUNNABLE"
  "state (ps i) = RUNNABLE \<Longrightarrow> state (woken c ps i) = RUNNABLE" "chan (woken c ps i) = chan (ps i)"
  "state (woken c ps i) = (if i < NPROC \<and> state (ps i) = SLEEPING \<and> chan (ps i) = c then RUNNABLE else state (ps i))"
  by (simp_all add: woken_def)

text \<open>C34: the disk driver serves its queue to the end and in order. After as many interrupts as there are buffers in the
  queue, whatever the drive reports, the queue is empty, every one of the buffers is valid and clean, every process
  asleep on one of them is runnable, and the requests that the controller got are those of the buffers behind the first
  (which the controller had already), in the order of the queue.\<close>

theorem interrupts_serve:
  assumes "ide_ready s" "ide_inv s bs"
  shows "\<exists>t. interrupts (length bs) s = Ret () t \<and> ide_ready t \<and> ide_inv t [] \<and>
    ports t = ports s @ concat (map (\<lambda>b. request (bufs s b)) (tl bs)) \<and>
    (\<forall>b \<in> set bs. b_flags (bufs t b) AND (B_VALID OR B_DIRTY) = B_VALID) \<and> (\<forall>b. b \<notin> set bs \<longrightarrow> bufs t b = bufs s b) \<and>
    (\<forall>i < NPROC. state (procs t i) =
       (if state (procs s i) = SLEEPING \<and> chan (procs s i) \<in> (\<lambda>b. Some (ChanBuf b)) ` set bs then RUNNABLE else state (procs s i)))"
  using assms
proof (induction bs arbitrary: s)
  case Nil
  then show ?case by simp
next
  case (Cons b bs)
  obtain n k where n: "ideintr s = Ret () (outs (next_request (bufs s) bs) ((served b n s)\<lparr>st_pos := k\<rparr>))"
    using ideintr_law [OF Cons.prems] Cons.prems idle_ready by blast
  let ?t = "outs (next_request (bufs s) bs) ((served b n s)\<lparr>st_pos := k\<rparr>)"
  have b: "b \<notin> set bs" using Cons.prems by (simp add: ide_inv_def)
  have same: "bufs (served b n s) c = bufs s c" if "c \<noteq> b" for c using that by (rule served_bufs)
  have t: "ide_ready ?t" "ide_inv ?t bs" using Cons.prems ide_inv_served [OF Cons.prems(2)] by (auto simp: ide_ready_def lock_simps)
  have r: "next_request (bufs s) bs @ concat (map (\<lambda>b. request (bufs ?t b)) (tl bs)) = concat (map (\<lambda>b. request (bufs s b)) bs)"
  proof -
    have "request (bufs ?t c) = request (bufs s c)" if "c \<in> set (tl bs)" for c
    proof -
      have "c \<noteq> b" using that b by (cases bs) auto
      then show ?thesis using same by simp
    qed
    then have "map (\<lambda>b. request (bufs ?t b)) (tl bs) = map (\<lambda>b. request (bufs s b)) (tl bs)" by (intro map_cong) auto
    then show ?thesis by (cases bs) (simp_all only: next_request_def list.simps list.sel concat.simps append.simps)
  qed
  show ?case using Cons.IH [OF t] n b same r by (auto simp: woken_runnable served_bufs)
qed

theorem interrupts_serve_witness: "\<exists>t. interrupts 2 (demo_ide 0x40) = Ret () t \<and> ide_inv t []"
  using interrupts_serve [of "demo_ide 0x40" "[3, 5]"]
  by (auto simp: demo_ide_facts IDE_BSY_def IDE_DRDY_def numeral_2_eq_2)

text \<open>\<open>iderw\<close> up to the sleep.\<close>

definition enqueued :: "nat \<Rightarrow> nat list \<Rightarrow> 'z idesys_scheme \<Rightarrow> 'z idesys_scheme" where
  "enqueued b bs s = (if bs = [] then s\<lparr>qnext := (qnext s)(b := None), idequeue := Some b\<rparr>
     else s\<lparr>qnext := (qnext s)(b := None, last bs := Some b)\<rparr>)"

lemma queued_head: "queued f x bs \<Longrightarrow> x = (case bs of [] \<Rightarrow> None | b # _ \<Rightarrow> Some b)"
  by (cases bs) auto

lemma enqueue_run:
  assumes "queued (qnext s) (idequeue s) bs" "b \<notin> set bs"
  shows "enqueue b s = Ret () (enqueued b bs s)"
proof (cases bs)
  case Nil
  then show ?thesis using assms by (simp add: enqueue_def enqueued_def Let_def)
next
  case (Cons h hs)
  let ?f = "(qnext s)(b := None)"
  have h: "idequeue s = Some h" using assms(1) Cons by simp
  have "queued ?f (Some h) bs \<longleftrightarrow> queued (qnext s) (Some h) bs" using assms(2) by (intro queued_cong) auto
  then have "queued ?f (Some h) bs" using assms(1) h by simp
  then have "queue_last ?f h = Some (last bs)" by (rule queue_last_queued)
  with h show ?thesis using Cons by (simp add: enqueue_def enqueued_def Let_def)
qed

lemma enqueued_frame [simp]:
  "bufs (enqueued b bs s) = bufs s" "ports (enqueued b bs s) = ports s" "procs (enqueued b bs s) = procs s"
  "cpu_ok (enqueued b bs s) = cpu_ok s" "lfree l (enqueued b bs s) = lfree l s" "idle_after (enqueued b bs s) = idle_after s"
  "cpus (enqueued b bs s) = cpus s" "me (enqueued b bs s) = me s"
  "queued (qnext s) (idequeue s) bs \<Longrightarrow> idequeue (enqueued b bs s) = (case bs of [] \<Rightarrow> Some b | c # _ \<Rightarrow> Some c)"
  "enqueued b bs (held l s) = held l (enqueued b bs s)"
  by (auto simp: enqueued_def lock_simps idle_after_def dest: queued_head split: list.split)

lemma enqueued_queued:
  assumes "queued (qnext s) (idequeue s) bs" "distinct bs" "b \<notin> set bs"
  shows "queued (qnext (enqueued b bs s)) (idequeue (enqueued b bs s)) (bs @ [b])"
  using assms queued_snoc [OF assms(1) _ assms(2,3)] by (auto simp: enqueued_def)

lemma iderw_wait_sleeps:
  assumes "cpu_ok s" "lfree LPtable s" "lfree LIde s" "ncli (cpus s (me s)) = 0" "cproc (cpus s (me s)) = Some p"
    "b_flags (bufs s b) AND (B_VALID OR B_DIRTY) \<noteq> B_VALID"
  shows "iderw_wait b (held LIde s) = Switch (held LPtable (set_proc p (\<lambda>q. q\<lparr>chan := Some (ChanBuf b), state := SLEEPING\<rparr>) s))"
  using assms by (simp add: iderw_wait_def sleep_switch)

lemma iderw_start:
  assumes "ide_inv s bs" "b \<notin> set bs" "b_blockno (bufs s b) < FSSIZE"
  shows "\<exists>n. (if idequeue (enqueued b bs s) = Some b then idestart (Some b) (held LIde (enqueued b bs s)) else Ret () (held LIde (enqueued b bs s))) =
    Ret () (held LIde (if bs = [] then outs (request (bufs s b)) ((enqueued b bs s)\<lparr>st_pos := n\<rparr>) else enqueued b bs s))"
proof (cases bs)
  case Nil
  then show ?thesis
    using idestart_starts [of "held LIde (enqueued b bs s)" b] assms by (auto simp: lock_simps ide_inv_def)
next
  case (Cons c cs)
  then have "idequeue (enqueued b bs s) = Some c" "c \<noteq> b" using assms by (auto simp: ide_inv_def)
  then show ?thesis using Cons by simp
qed

text \<open>A process that asks the driver for a buffer, when the buffer is locked by it, not in the queue, and either dirty
  or not valid. The buffer becomes the last one of the queue, the controller is started on it when the queue was empty
  and not touched otherwise, and the process is left asleep on the buffer with the lock of the driver free, so that the
  interrupt can be taken.\<close>

theorem iderw_queues:
  assumes "kready s" "ncli (cpus s (me s)) = 0" "ide_inv s bs" "b \<notin> set bs"
    "slocked (slocks s (SBuf b))" "spid (slocks s (SBuf b)) = curpid s"
    "b_flags (bufs s b) AND (B_VALID OR B_DIRTY) \<noteq> B_VALID" "b_dev (bufs s b) = 0 \<or> havedisk1 s" "b_blockno (bufs s b) < FSSIZE"
  shows "\<exists>t. iderw_disk b s = Switch (held LPtable t) \<and> ide_ready t \<and> ide_inv t (bs @ [b]) \<and> bufs t = bufs s \<and>
    ports t = ports s @ (if bs = [] then request (bufs s b) else []) \<and>
    procs t = (procs s)(curproc s := (procs s (curproc s))\<lparr>chan := Some (ChanBuf b), state := SLEEPING\<rparr>)"
proof -
  have q: "queued (qnext s) (idequeue s) bs" "distinct bs" "idle_after s" using assms(3) by (auto simp: ide_inv_def)
  have k: "cpu_ok s" "\<And>l. lfree l s" "cproc (cpus s (me s)) = Some (curproc s)" using assms(1) by (auto simp: kready_def curproc_def)
  have "enqueue b (held LIde s) = Ret () (held LIde (enqueued b bs s))"
    using enqueue_run [of "held LIde s" bs b] q assms(4) by (simp add: lock_simps)
  moreover obtain n where "(if idequeue (enqueued b bs s) = Some b then idestart (Some b) (held LIde (enqueued b bs s)) else Ret () (held LIde (enqueued b bs s))) =
    Ret () (held LIde (if bs = [] then outs (request (bufs s b)) ((enqueued b bs s)\<lparr>st_pos := n\<rparr>) else enqueued b bs s))"
    using iderw_start [OF assms(3,4,9)] by blast
  moreover define v where "v = (if bs = [] then outs (request (bufs s b)) ((enqueued b bs s)\<lparr>st_pos := n\<rparr>) else enqueued b bs s)"
  have v: "cpu_ok v" "\<And>l. lfree l v" "cpus v = cpus s" "me v = me s" "bufs v = bufs s" "procs v = procs s" "idle_after v"
    "ports v = ports s @ (if bs = [] then request (bufs s b) else [])"
    using k q by (simp_all add: v_def lock_simps)
  have qv: "queued (qnext v) (idequeue v) (bs @ [b])"
    using enqueued_queued [OF q(1,2) assms(4)] by (cases "bs = []") (auto simp: v_def simp del: enqueued_frame(9))
  have "iderw_wait b (held LIde v) = Switch (held LPtable (set_proc (curproc s) (\<lambda>q. q\<lparr>chan := Some (ChanBuf b), state := SLEEPING\<rparr>) v))"
    using v k assms(2,7) by (intro iderw_wait_sleeps) auto
  ultimately have "iderw_disk b s = Switch (held LPtable (set_proc (curproc s) (\<lambda>q. q\<lparr>chan := Some (ChanBuf b), state := SLEEPING\<rparr>) v))"
    using assms k by (auto simp add: iderw_disk_def holdingsleep_ready acquire_free lock_simps v_def [symmetric])
  moreover have "ide_inv (set_proc (curproc s) (\<lambda>q. q\<lparr>chan := Some (ChanBuf b), state := SLEEPING\<rparr>) v) (bs @ [b])"
    using assms v q qv by (auto simp: ide_inv_def idle_after_def set_proc_def)
  ultimately show ?thesis using v
    by (intro exI [of _ "set_proc (curproc s) (\<lambda>q. q\<lparr>chan := Some (ChanBuf b), state := SLEEPING\<rparr>) v"])
       (auto simp: ide_ready_def lock_simps set_proc_def)
qed


theorem iderw_queues_witness:
  "\<exists>t. iderw_disk 7 (set_slock (SBuf 7) (\<lambda>l. l\<lparr>slocked := True, spid := 1\<rparr>) (demo_ide 0x40)) = Switch (held LPtable t) \<and>
     ide_inv t [3, 5, 7] \<and> ports t = []"
proof -
  let ?s = "set_slock (SBuf 7) (\<lambda>l. l\<lparr>slocked := True, spid := 1\<rparr>) (demo_ide 0x40)"
  have "kready ?s" "curpid ?s = 1" "bufs ?s = bufs (demo_ide 0x40)" "slocks ?s (SBuf 7) = (slocks (demo_ide 0x40) (SBuf 7))\<lparr>slocked := True, spid := 1\<rparr>"
    using demo_ide_facts(1,12) kctx_kready [of ?s "demo_ide 0x40"] kctx_curpid [of ?s "demo_ide 0x40"]
    by (simp_all add: frame_simps) (simp_all add: set_slock_def)
  moreover have "ide_inv ?s [3, 5]" "ports ?s = []" "ncli (cpus ?s (me ?s)) = 0"
    using demo_ide_facts(2) [of "0x40"] demo_ide_facts(11,13)
    by (simp_all add: set_slock_def ide_inv_def idle_after_def IDE_BSY_def IDE_DRDY_def lock_simps)
  ultimately show ?thesis
    using iderw_queues [of ?s "[3, 5]" 7] by (auto simp: demo_ide_facts FSSIZE_def B_VALID_def B_DIRTY_def)
qed

end
