(* ===== verification/Kbd.thy ===== *)
theory Kbd
  imports Console
begin

text \<open>
  kbd.h and kbd.c, the translation of the scan codes of the keyboard. The controller is the list of the scan codes that
  it holds; the shift state is the static variable of \<open>kbdgetc\<close>.
\<close>

definition SHIFT :: u32 where "SHIFT = 1"
definition CTL :: u32 where "CTL = 2"
definition ALT :: u32 where "ALT = 4"
definition CAPSLOCK :: u32 where "CAPSLOCK = 8"
definition NUMLOCK :: u32 where "NUMLOCK = 16"
definition SCROLLLOCK :: u32 where "SCROLLLOCK = 32"
definition E0ESC :: u32 where "E0ESC = 64"

definition KEY_HOME :: byte where "KEY_HOME = 0xE0"
definition KEY_END :: byte where "KEY_END = 0xE1"
definition KEY_UP :: byte where "KEY_UP = 0xE2"
definition KEY_DN :: byte where "KEY_DN = 0xE3"
definition KEY_LF :: byte where "KEY_LF = 0xE4"
definition KEY_RT :: byte where "KEY_RT = 0xE5"
definition KEY_PGUP :: byte where "KEY_PGUP = 0xE6"
definition KEY_PGDN :: byte where "KEY_PGDN = 0xE7"
definition KEY_INS :: byte where "KEY_INS = 0xE8"
definition KEY_DEL :: byte where "KEY_DEL = 0xE9"

section \<open>The tables\<close>

text \<open>A table starts with the entries of its rows; the entries named in brackets follow, all others are 0.\<close>

definition table :: "byte list \<Rightarrow> (nat \<times> byte) list \<Rightarrow> nat \<Rightarrow> byte" where
  "table rows named i =
     (case map_of named i of Some c \<Rightarrow> c | None \<Rightarrow> if i < length rows then rows ! i else 0)"

definition shiftcode :: "nat \<Rightarrow> byte" where
  "shiftcode = table [] [(0x1D, 2), (0x2A, 1), (0x36, 1), (0x38, 4), (0x9D, 2), (0xB8, 4)]"

definition togglecode :: "nat \<Rightarrow> byte" where
  "togglecode = table [] [(0x3A, 8), (0x45, 16), (0x46, 32)]"

definition normal_rows :: "byte list" where
  "normal_rows =
     [0, 0x1B] @ str_bytes ''123456'' @
     str_bytes ''7890-='' @ [8, 9] @
     str_bytes ''qwertyui'' @
     str_bytes ''op[]'' @ [10, 0] @ str_bytes ''as'' @
     str_bytes ''dfghjkl;'' @
     [39] @ str_bytes ''`'' @ [0, 92] @ str_bytes ''zxcv'' @
     str_bytes ''bnm,./'' @ [0] @ str_bytes ''*'' @
     [0] @ str_bytes '' '' @ [0, 0, 0, 0, 0, 0] @
     [0, 0, 0, 0, 0, 0, 0] @ str_bytes ''7'' @
     str_bytes ''89-456+1'' @
     str_bytes ''230.'' @ [0, 0, 0, 0]"

definition shift_rows :: "byte list" where
  "shift_rows =
     [0, 27] @ str_bytes ''!@#$%^'' @
     str_bytes ''&*()_+'' @ [8, 9] @
     str_bytes ''QWERTYUI'' @
     str_bytes ''OP{}'' @ [10, 0] @ str_bytes ''AS'' @
     str_bytes ''DFGHJKL:'' @
     [34] @ str_bytes ''~'' @ [0] @ str_bytes ''|ZXCV'' @
     str_bytes ''BNM<>?'' @ [0] @ str_bytes ''*'' @
     [0] @ str_bytes '' '' @ [0, 0, 0, 0, 0, 0] @
     [0, 0, 0, 0, 0, 0, 0] @ str_bytes ''7'' @
     str_bytes ''89-456+1'' @
     str_bytes ''230.'' @ [0, 0, 0, 0]"

definition C_key :: "byte \<Rightarrow> byte" where "C_key x = x - 64"

definition ctl_rows :: "byte list" where
  "ctl_rows =
     replicate 8 0 @
     replicate 8 0 @
     map C_key (str_bytes ''QWERTYUI'') @
     map C_key (str_bytes ''OP'') @ [0, 0, 13, 0] @ map C_key (str_bytes ''AS'') @
     map C_key (str_bytes ''DFGHJKL'') @ [0] @
     [0, 0, 0, C_key 92] @ map C_key (str_bytes ''ZXCV'') @
     map C_key (str_bytes ''BNM'') @ [0, 0, C_key 47, 0, 0]"

definition arrows :: "(nat \<times> byte) list" where
  "arrows =
     [(0xC8, KEY_UP), (0xD0, KEY_DN), (0xC9, KEY_PGUP), (0xD1, KEY_PGDN), (0xCB, KEY_LF), (0xCD, KEY_RT),
      (0x97, KEY_HOME), (0xCF, KEY_END), (0xD2, KEY_INS), (0xD3, KEY_DEL)]"

definition normalmap :: "nat \<Rightarrow> byte" where
  "normalmap = table normal_rows ([(0x9C, 10), (0xB5, 47)] @ arrows)"

definition shiftmap :: "nat \<Rightarrow> byte" where
  "shiftmap = table shift_rows ([(0x9C, 10), (0xB5, 47)] @ arrows)"

definition ctlmap :: "nat \<Rightarrow> byte" where
  "ctlmap = table ctl_rows ([(0x9C, 13), (0xB5, C_key 47)] @ arrows)"

section \<open>kbdgetc\<close>

definition charcode :: "u32 \<Rightarrow> nat \<Rightarrow> byte" where
  "charcode i = (if i = 0 then normalmap else if i = 1 then shiftmap else ctlmap)"

text \<open>The effect of caps lock.\<close>

definition caps :: "byte \<Rightarrow> byte" where
  "caps c = (if 97 \<le> c \<and> c \<le> 122 then c + 65 - 97 else if 65 \<le> c \<and> c \<le> 90 then c + 97 - 65 else c)"

definition kbdgetc :: "u32 \<times> byte list \<Rightarrow> int \<times> u32 \<times> byte list" where
  "kbdgetc sk =
     (case sk of
        (shift, []) \<Rightarrow> (-1, shift, [])
      | (shift, data # codes) \<Rightarrow>
          if data = 0xE0 then (0, shift OR E0ESC, codes)
          else if data AND 0x80 \<noteq> 0 then
            let data = (if shift AND E0ESC \<noteq> 0 then data else data AND 0x7F) in
            (0, shift AND NOT (ucast (shiftcode (unat data)) OR E0ESC), codes)
          else
            let (data, shift) =
                  (if shift AND E0ESC \<noteq> 0 then (data OR 0x80, shift AND NOT E0ESC) else (data, shift));
                shift = shift OR ucast (shiftcode (unat data));
                shift = shift XOR ucast (togglecode (unat data));
                c = charcode (shift AND (CTL OR SHIFT)) (unat data);
                c = (if shift AND CAPSLOCK \<noteq> 0 then caps c else c) in
            (uint c, shift, codes))"

text \<open>\<open>consoleintr\<close> calls \<open>kbdgetc\<close> until it returns -1.\<close>

fun kbd_chars :: "u32 \<Rightarrow> byte list \<Rightarrow> int list \<times> u32" where
  "kbd_chars shift [] = ([], shift)"
| "kbd_chars shift (d # ds) =
     (case kbdgetc (shift, d # ds) of (c, shift, _) \<Rightarrow>
      case kbd_chars shift ds of (cs, shift) \<Rightarrow> (c # cs, shift))"

definition kbdintr :: "u32 \<Rightarrow> byte list \<Rightarrow> 'z consys_scheme \<Rightarrow> (u32, 'z consys_scheme) outcome" where
  "kbdintr shift codes s =
     (case kbd_chars shift codes of (cs, shift) \<Rightarrow> rbind (consoleintr cs s) (\<lambda>_ s. Ret shift s))"

end
