(* ===== verification/Kbd_Props.thy ===== *)
theory Kbd_Props
  imports Kbd Console_Props
begin

text \<open>What the keys that are pressed and released deliver.\<close>

section \<open>The tables\<close>

lemma normal_rows_eq:
  "normal_rows =
     [0, 27, 49, 50, 51, 52, 53, 54, 55, 56, 57, 48, 45, 61, 8, 9, 113, 119, 101, 114, 116, 121, 117, 105, 111, 112,
      91, 93, 10, 0, 97, 115, 100, 102, 103, 104, 106, 107, 108, 59, 39, 96, 0, 92, 122, 120, 99, 118, 98, 110, 109,
      44, 46, 47, 0, 42, 0, 32, 0, 0, 0, 0, 0, 0, 0, 0, 0, 0, 0, 0, 0, 55, 56, 57, 45, 52, 53, 54, 43, 49, 50, 51,
      48, 46, 0, 0, 0, 0]"
  by code_simp

lemma shift_rows_eq:
  "shift_rows =
     [0, 27, 33, 64, 35, 36, 37, 94, 38, 42, 40, 41, 95, 43, 8, 9, 81, 87, 69, 82, 84, 89, 85, 73, 79, 80, 123, 125,
      10, 0, 65, 83, 68, 70, 71, 72, 74, 75, 76, 58, 34, 126, 0, 124, 90, 88, 67, 86, 66, 78, 77, 60, 62, 63, 0, 42,
      0, 32, 0, 0, 0, 0, 0, 0, 0, 0, 0, 0, 0, 0, 0, 55, 56, 57, 45, 52, 53, 54, 43, 49, 50, 51, 48, 46, 0, 0, 0, 0]"
  by code_simp

lemma printable_rows: "list_all (\<lambda>c. c \<in> set normal_rows \<or> c \<in> set shift_rows) (map of_nat [32..<127])"
  unfolding normal_rows_eq shift_rows_eq by code_simp

section \<open>Key strokes\<close>

text \<open>The scan codes of typing a character: its key, or its key with the left shift key.\<close>

definition key_index :: "(nat \<Rightarrow> byte) \<Rightarrow> byte \<Rightarrow> nat option" where
  "key_index m c = find (\<lambda>i. m i = c) [0..<88]"

definition stroke :: "nat \<Rightarrow> byte list" where
  "stroke i = [of_nat i, of_nat i OR 0x80]"

definition keystroke :: "byte \<Rightarrow> byte list" where
  "keystroke c =
     (case key_index normalmap c of Some i \<Rightarrow> stroke i
      | None \<Rightarrow> (case key_index shiftmap c of Some i \<Rightarrow> 0x2A # stroke i @ [0xAA] | None \<Rightarrow> []))"

lemma low_table:
  assumes "i < 88"
  shows "normalmap i = normal_rows ! i" "shiftmap i = shift_rows ! i"
  using assms by (simp_all add: normalmap_def shiftmap_def table_def arrows_def normal_rows_eq shift_rows_eq)

lemma low_codes:
  assumes "i < 88"
  shows "shiftcode i = (if i \<in> {0x2A, 0x36} then 1 else if i = 0x1D then 2 else if i = 0x38 then 4 else 0)"
    "togglecode i = (if i = 0x3A then 8 else if i = 0x45 then 16 else if i = 0x46 then 32 else 0)"
  using assms by (simp_all add: shiftcode_def togglecode_def table_def)

lemma modifier_keys: "i \<in> {0x2A, 0x36, 0x1D, 0x38, 0x3A, 0x45, 0x46} \<Longrightarrow> normal_rows ! i = 0 \<and> shift_rows ! i = 0"
  by (auto simp: normal_rows_eq shift_rows_eq)

lemma plain_key:
  assumes "i < 88" "normal_rows ! i \<noteq> 0 \<or> shift_rows ! i \<noteq> 0"
  shows "shiftcode i = 0" "togglecode i = 0"
  using assms modifier_keys [of i] low_codes [OF assms(1)] by (auto split: if_splits)

lemma scan_bits:
  assumes "i < 88"
  shows "(of_nat i :: byte) \<noteq> 0xE0" "(of_nat i :: byte) AND 0x80 = 0" "(of_nat i OR 0x80 :: byte) \<noteq> 0xE0"
    "(of_nat i OR 0x80 :: byte) AND 0x80 \<noteq> 0" "(of_nat i OR 0x80 :: byte) AND 0x7F = of_nat i" "unat (of_nat i :: byte) = i"
proof -
  let ?d = "of_nat i :: byte"
  show u: "unat ?d = i" using assms by (simp add: unsigned_of_nat take_bit_nat_eq_self)
  then show "?d \<noteq> 0xE0" using assms by auto
  have "take_bit 7 i = i" using assms by (simp add: take_bit_nat_eq_self)
  then have "take_bit 7 ?d = ?d" by (metis take_bit_of_nat)
  then have hi: "bit ?d n \<Longrightarrow> n < 7" for n by (metis bit_take_bit_iff)
  have n: "(0x80 :: byte) = 2 ^ 7" "(0x7F :: byte) = mask 7" by (simp_all add: mask_eq_exp_minus_1)
  have m: "bit (0x80 :: byte) n \<longleftrightarrow> n = 7" "bit (0x7F :: byte) n \<longleftrightarrow> n < 7" for n
    unfolding n bit_exp_iff bit_mask_iff by (auto simp: possible_bit_word)
  show "?d AND 0x80 = 0" "(?d OR 0x80) AND 0x7F = ?d" by (rule bit_eqI, use hi in \<open>auto simp only: bit_and_iff bit_or_iff bit_0_eq bot_apply bot_bool_def m\<close>)+
  have "bit ((?d OR 0x80) AND 0x80) 7" by (simp only: bit_and_iff bit_or_iff m simp_thms)
  then show "(?d OR 0x80) AND 0x80 \<noteq> 0" by (metis bit_0_eq bot_apply bot_bool_def)
  show "?d OR 0x80 \<noteq> 0xE0"
  proof
    assume "?d OR 0x80 = 0xE0"
    then have "(?d OR 0x80) AND 0x7F = 0x60" by simp
    then have "?d = 0x60" using \<open>(?d OR 0x80) AND 0x7F = ?d\<close> by simp
    then show False using u assms by simp
  qed
qed

text \<open>Pressing and releasing a key that is no modifier, with or without the shift key held down.\<close>

lemma kbd_press:
  assumes "i < 88" "shiftcode i = 0" "togglecode i = 0" "sh = 0 \<or> sh = SHIFT"
  shows "kbdgetc (sh, of_nat i # ds) = (uint (if sh = 0 then normalmap i else shiftmap i), sh, ds)"
proof -
  have "sh AND E0ESC = 0" "sh AND CAPSLOCK = 0" "charcode (sh AND (CTL OR SHIFT)) = (if sh = 0 then normalmap else shiftmap)"
    using assms(4) by (auto simp: charcode_def SHIFT_def CTL_def E0ESC_def CAPSLOCK_def)
  then show ?thesis using scan_bits(1,2,6) [OF assms(1)] assms(2,3) by (simp add: kbdgetc_def Let_def)
qed

lemma kbd_release:
  assumes "i < 88" "shiftcode i = 0" "sh = 0 \<or> sh = SHIFT"
  shows "kbdgetc (sh, (of_nat i OR 0x80) # ds) = (0, sh, ds)"
proof -
  have "sh AND E0ESC = 0" "sh AND NOT E0ESC = sh" using assms(3) by (auto simp: SHIFT_def E0ESC_def)
  then show ?thesis using scan_bits(3-6) [OF assms(1)] assms(2) by (simp add: kbdgetc_def Let_def)
qed

lemma kbd_stroke:
  assumes "i < 88" "shiftcode i = 0" "togglecode i = 0" "sh = 0 \<or> sh = SHIFT"
  shows "kbd_chars sh (stroke i @ ds) =
    (case kbd_chars sh ds of (cs, sh') \<Rightarrow> (uint (if sh = 0 then normalmap i else shiftmap i) # 0 # cs, sh'))"
  using kbd_press [OF assms, of "(of_nat i OR 0x80) # ds"] kbd_release [OF assms(1,2,4), of ds]
  by (simp add: stroke_def split: prod.splits)

lemma kbd_shift:
  "kbd_chars 0 (0x2A # ds) = (case kbd_chars SHIFT ds of (cs, sh) \<Rightarrow> (0 # cs, sh))"
  "kbd_chars SHIFT (0xAA # ds) = (case kbd_chars 0 ds of (cs, sh) \<Rightarrow> (0 # cs, sh))"
  using low_codes [of "0x2A"] low_table [of "0x2A"] modifier_keys [of "0x2A"]
  by (simp_all add: kbdgetc_def charcode_def SHIFT_def CTL_def E0ESC_def CAPSLOCK_def Let_def split: prod.splits)

lemma key_index_Some:
  assumes "c \<in> m ` {..<88}"
  shows "\<exists>i < 88. key_index m c = Some i \<and> m i = c"
proof (cases "key_index m c")
  case None
  then show ?thesis using assms by (auto simp: key_index_def find_None_iff)
next
  case (Some i)
  then have "m i = c" "i < 88" by (auto simp: key_index_def find_Some_iff)
  then show ?thesis using Some by blast
qed

lemma printable_row:
  assumes "printable c"
  shows "c \<in> set normal_rows \<or> c \<in> set shift_rows"
proof -
  have "uint c = int (unat c)" by simp
  then have "32 \<le> unat c" "unat c < 127" using assms unfolding printable_def by linarith+
  then have "unat c \<in> set [32..<127]" by (simp only: set_upt atLeastLessThan_iff simp_thms)
  then have "of_nat (unat c) \<in> set (map (of_nat :: nat \<Rightarrow> byte) [32..<127])" by (simp only: set_map imageI)
  then have "c \<in> set (map of_nat [32..<127])" by (simp only: of_nat_unat ucast_id)
  with printable_rows show ?thesis unfolding list_all_iff by blast
qed

lemma printable_key:
  assumes "printable c"
  shows "\<exists>i < 88. key_index normalmap c = Some i \<and> normal_rows ! i = c \<or>
    key_index normalmap c = None \<and> key_index shiftmap c = Some i \<and> shift_rows ! i = c"
proof -
  have l: "length normal_rows = 88" "length shift_rows = 88" by (simp_all add: normal_rows_eq shift_rows_eq)
  obtain i where "i < 88" "normal_rows ! i = c \<or> shift_rows ! i = c"
    using printable_row [OF assms] l unfolding in_set_conv_nth by metis
  then have "c \<in> normalmap ` {..<88} \<or> c \<in> shiftmap ` {..<88}" by (metis image_eqI lessThan_iff low_table)
  then show ?thesis
  proof (cases "key_index normalmap c")
    case None
    then have "c \<notin> normalmap ` {..<88}" using key_index_Some [of c normalmap] by force
    then have "c \<in> shiftmap ` {..<88}" using \<open>c \<in> normalmap ` {..<88} \<or> c \<in> shiftmap ` {..<88}\<close> by blast
    then show ?thesis using key_index_Some [of c shiftmap] None low_table(2) by metis
  next
    case (Some j)
    then have "j < 88" "normalmap j = c" by (auto simp: key_index_def find_Some_iff)
    then show ?thesis using Some low_table(1) [of j] by auto
  qed
qed

lemma kbd_keystroke:
  assumes "printable c"
  shows "\<exists>zs. filter (\<lambda>z. z \<noteq> 0) zs = [uint c] \<and>
    kbd_chars 0 (keystroke c @ ds) = (case kbd_chars 0 ds of (cs, sh) \<Rightarrow> (zs @ cs, sh))"
proof -
  obtain i where i: "i < 88" "key_index normalmap c = Some i \<and> normal_rows ! i = c \<or>
    key_index normalmap c = None \<and> key_index shiftmap c = Some i \<and> shift_rows ! i = c"
    using printable_key [OF assms] by blast
  have c: "c \<noteq> 0" "uint c \<noteq> 0" using assms by (auto simp: printable_def)
  then have p: "shiftcode i = 0" "togglecode i = 0" using plain_key [OF i(1)] i(2) by auto
  obtain cs sh where d: "kbd_chars 0 ds = (cs, sh)" by fastforce
  from i(2) show ?thesis
  proof
    assume "key_index normalmap c = Some i \<and> normal_rows ! i = c"
    then show ?thesis using kbd_stroke [OF i(1) p, of 0 ds] c d i(1)
      by (intro exI [of _ "[uint c, 0]"]) (simp add: keystroke_def low_table)
  next
    assume k: "key_index normalmap c = None \<and> key_index shiftmap c = Some i \<and> shift_rows ! i = c"
    have "SHIFT \<noteq> 0" by (simp add: SHIFT_def)
    then show ?thesis using kbd_stroke [OF i(1) p, of SHIFT "0xAA # ds"] kbd_shift c d i(1) k
      by (intro exI [of _ "[0, uint c, 0, 0]"]) (simp add: keystroke_def low_table)
  qed
qed

text \<open>A line of key strokes and the Enter key.\<close>

definition type_line :: "byte list \<Rightarrow> byte list" where
  "type_line xs = concat (map keystroke xs) @ stroke 0x1C"

lemma kbd_line:
  assumes "list_all printable xs"
  shows "\<exists>zs. kbd_chars 0 (type_line xs) = (zs, 0) \<and> filter (\<lambda>z. z \<noteq> 0) zs = map uint xs @ [10]"
  using assms
proof (induction xs)
  case Nil
  have "shiftcode 0x1C = 0" "togglecode 0x1C = 0" "normalmap 0x1C = 10"
    using low_codes [of "0x1C"] low_table [of "0x1C"] by (simp_all add: normal_rows_eq)
  then show ?case using kbd_stroke [of "0x1C" 0 "[]"] by (simp add: type_line_def)
next
  case (Cons x xs)
  then obtain zs where "kbd_chars 0 (type_line xs) = (zs, 0)" "filter (\<lambda>z. z \<noteq> 0) zs = map uint xs @ [10]" by auto
  then show ?case using kbd_keystroke [of x "type_line xs"] Cons.prems by (auto simp: type_line_def)
qed

lemma edit_zeros: "fold edit zs a = fold edit (filter (\<lambda>z. z \<noteq> 0) zs) a"
proof (induction zs arbitrary: a)
  case (Cons z zs)
  have "edit 0 a = a" by (cases a) (simp add: ctrl_def)
  then show ?case using Cons by simp
qed simp

lemma kbd_chars_range: "set (fst (kbd_chars sh ds)) \<subseteq> {0..<256}"
proof (induction ds arbitrary: sh)
  case (Cons d ds)
  have "0 \<le> uint c \<and> uint c < 256" for c :: byte using uint_lt2p [of c] by simp
  then have "fst (kbdgetc (sh, d # ds)) \<in> {0..<256}" by (simp add: kbdgetc_def Let_def split: prod.split)
  moreover obtain c sh' cs where c: "kbdgetc (sh, d # ds) = (c, sh', cs)" by (metis prod_cases3)
  moreover obtain zs sh'' where "kbd_chars sh' ds = (zs, sh'')" by fastforce
  ultimately show ?case using Cons.IH [of sh'] by simp
qed simp

text \<open>C17: from the keys to the reader. When the keys of a line of printable characters are pressed and released one after
  the other, with the shift key where the character needs it, and then Enter, the interrupt handler of the keyboard puts
  the characters on an empty line, and a reader of the console gets exactly this line with a newline, without blocking;
  the shift state is as at the start. This holds for every position of the circular input buffer.\<close>

theorem keys_to_reader:
  assumes "input_inv s" "cursor_ok s" "\<not> panicked s" "cpu_ok s" "lfree LPtable s" "lfree LCons s"
    "ready_chars s = []" "edit_line s = []" "list_all printable xs" "length xs < INPUT_BUF" "length xs < n"
  shows "wp (kbdintr 0 (type_line xs) s) (\<lambda>shift t. shift = 0 \<and> wp (consoleread_loop target n t)
    (\<lambda>r u. r = Some (xs @ [10]) \<and> ready_chars u = [] \<and> edit_line u = []))"
proof -
  obtain zs where z: "kbd_chars 0 (type_line xs) = (zs, 0)" "filter (\<lambda>z. z \<noteq> 0) zs = map uint xs @ [10]"
    using kbd_line [OF assms(9)] by blast
  have "wp (consoleintr zs s) (\<lambda>_ t. wp (consoleread_loop target n t)
    (\<lambda>r u. r = Some (xs @ [10]) \<and> ready_chars u = [] \<and> edit_line u = []))"
  proof (rule wp_mono [OF consoleintr_edits [OF assms(1-6)]])
    show "\<forall>c \<in> set zs. 0 \<le> c \<and> c < 256" using kbd_chars_range [of 0 "type_line xs"] z by auto
    fix x t
    assume t: "input_inv t \<and> cursor_ok t \<and> lfree LCons t \<and> cpu_ok t \<and>
      (ready_chars t, edit_line t) = fold edit zs (ready_chars s, edit_line s)"
    have "fold edit zs ([], []) = (xs @ [10], [])"
      using edit_printable [OF assms(9), of "[]"] assms(10) unfolding edit_zeros [of zs] z(2) by (simp add: ctrl_def Let_def)
    then show "wp (consoleread_loop target n t) (\<lambda>r u. r = Some (xs @ [10]) \<and> ready_chars u = [] \<and> edit_line u = [])"
      using t assms by (intro line_is_read) simp_all
  qed
  then show ?thesis using z(1) by (simp add: kbdintr_def wp_rbind)
qed

theorem keys_to_reader_witness:
  "wp (kbdintr 0 (type_line [108, 115]) (demo_con ())) (\<lambda>_ t. wp (consoleread_loop 100 100 t) (\<lambda>r u. r = Some [108, 115, 10]))"
  using keys_to_reader [of "demo_con ()" "[108, 115]" 100 100]
  by (simp add: demo_con_lock printable_def INPUT_BUF_def) (auto elim!: wp_mono)

end
