(* ===== verification/Jos_Cons.thy ===== *)
theory Jos_Cons
  imports Kbd
begin

text \<open>
  kern/console.c of the JOS laboratory with lib/readline.c: the keyboard, the serial and the parallel port, the screen,
  the circular buffer of input characters and the reading of a line. The devices are fields of the state: what the
  keyboard controller and the serial port hold, what the ports have been sent, the cells of the screen. The waiting loops
  on the status of the output ports only pass time. \<open>arrivals\<close> says what reaches the input devices before each poll of
  \<open>getchar\<close>; after its end nothing more arrives.
\<close>

definition CRT_ROWS :: nat where "CRT_ROWS = 25"
definition CRT_COLS :: nat where "CRT_COLS = 80"
definition CRT_SIZE :: nat where "CRT_SIZE = CRT_ROWS * CRT_COLS"
definition CONSBUFSIZE :: nat where "CONSBUFSIZE = 512"
definition BUFLEN :: nat where "BUFLEN = 1024"

record joscons =
  jshift :: u32
  kbd_in :: "(bool \<times> byte) list"
  serial_exists :: bool
  ser_in :: "byte list"
  ser_out :: "byte list"
  lpt_out :: "byte list"
  crt_buf :: "nat \<Rightarrow> u16"
  crt_at :: u16
  crt_cursor :: u16
  cons_buf :: "nat \<Rightarrow> byte"
  cons_rpos :: nat
  cons_wpos :: nat
  reset_port :: "byte list"
  arrivals :: "((bool \<times> byte) list \<times> byte list) list"

section \<open>Output\<close>

definition serial_putc :: "u32 \<Rightarrow> joscons \<Rightarrow> joscons" where
  "serial_putc c s = s\<lparr>ser_out := ser_out s @ [ucast c]\<rparr>"

definition lpt_putc :: "u32 \<Rightarrow> joscons \<Rightarrow> joscons" where
  "lpt_putc c s = s\<lparr>lpt_out := lpt_out s @ [ucast c]\<rparr>"

text \<open>The cases of \<open>cga_putc\<close> other than the tab, and what follows the switch.\<close>

definition cga_switch :: "u32 \<Rightarrow> joscons \<Rightarrow> joscons" where
  "cga_switch c s =
     (let c = (if c AND NOT 0xFF = 0 then c OR 0x0700 else c); pos = crt_at s in
      if c AND 0xFF = 8 then
        if 0 < pos then s\<lparr>crt_at := pos - 1, crt_buf := (crt_buf s)(unat (pos - 1) := ucast (c AND NOT 0xFF) OR 32)\<rparr> else s
      else if c AND 0xFF = 10 then
        let pos = pos + of_nat CRT_COLS in s\<lparr>crt_at := pos - pos mod of_nat CRT_COLS\<rparr>
      else if c AND 0xFF = 13 then s\<lparr>crt_at := pos - pos mod of_nat CRT_COLS\<rparr>
      else s\<lparr>crt_at := pos + 1, crt_buf := (crt_buf s)(unat pos := ucast c)\<rparr>)"

definition cga_finish :: "joscons \<Rightarrow> joscons" where
  "cga_finish s =
     (let s = (if of_nat CRT_SIZE \<le> crt_at s
        then s\<lparr>crt_buf := (\<lambda>i. if i < CRT_SIZE - CRT_COLS then crt_buf s (i + CRT_COLS)
                              else if i < CRT_SIZE then 0x0720 else crt_buf s i),
               crt_at := crt_at s - of_nat CRT_COLS\<rparr>
        else s) in
      s\<lparr>crt_cursor := crt_at s\<rparr>)"

definition cons_space :: "joscons \<Rightarrow> joscons" where
  "cons_space s = cga_finish (cga_switch 32 (lpt_putc 32 (serial_putc 32 s)))"

definition cga_putc :: "u32 \<Rightarrow> joscons \<Rightarrow> joscons" where
  "cga_putc c s =
     (if c AND 0xFF = 9 then cga_finish ((cons_space ^^ 5) s) else cga_finish (cga_switch c s))"

definition cons_putc :: "u32 \<Rightarrow> joscons \<Rightarrow> joscons" where
  "cons_putc c s = cga_putc c (lpt_putc c (serial_putc c s))"

text \<open>\<open>cputchar\<close> of every character: what \<open>cprintf\<close> does with a string that holds no conversion.\<close>

definition cputs :: "byte list \<Rightarrow> joscons \<Rightarrow> joscons" where
  "cputs xs s = fold (\<lambda>c. cons_putc (scast c)) xs s"

section \<open>The keyboard\<close>

definition jos_normalmap :: "nat \<Rightarrow> byte" where
  "jos_normalmap = table normal_rows
     [(0xC7, KEY_HOME), (0x9C, 10), (0xB5, 47), (0xC8, KEY_UP), (0xC9, KEY_PGUP), (0xCB, KEY_LF), (0xCD, KEY_RT),
      (0xCF, KEY_END), (0xD0, KEY_DN), (0xD1, KEY_PGDN), (0xD2, KEY_INS), (0xD3, KEY_DEL)]"

definition jos_shiftmap :: "nat \<Rightarrow> byte" where
  "jos_shiftmap = table shift_rows
     [(0xC7, KEY_HOME), (0x9C, 10), (0xB5, 47), (0xC8, KEY_UP), (0xC9, KEY_PGUP), (0xCB, KEY_LF), (0xCD, KEY_RT),
      (0xCF, KEY_END), (0xD0, KEY_DN), (0xD1, KEY_PGDN), (0xD2, KEY_INS), (0xD3, KEY_DEL)]"

definition jos_ctlmap :: "nat \<Rightarrow> byte" where
  "jos_ctlmap = table ctl_rows
     [(0x97, KEY_HOME), (0xB5, C_key 47), (0xC8, KEY_UP), (0xC9, KEY_PGUP), (0xCB, KEY_LF), (0xCD, KEY_RT),
      (0xCF, KEY_END), (0xD0, KEY_DN), (0xD1, KEY_PGDN), (0xD2, KEY_INS), (0xD3, KEY_DEL)]"

definition jos_charcode :: "u32 \<Rightarrow> nat \<Rightarrow> byte" where
  "jos_charcode i = (if i = 0 then jos_normalmap else if i = 1 then jos_shiftmap else jos_ctlmap)"

text \<open>A byte in the controller that is marked comes from the mouse: it stays there.\<close>

definition kbd_proc_data :: "joscons \<Rightarrow> int \<times> joscons" where
  "kbd_proc_data s =
     (case kbd_in s of
        [] \<Rightarrow> (-1, s)
      | (mouse, data) # ds \<Rightarrow>
          if mouse then (-1, s)
          else
            let s = s\<lparr>kbd_in := ds\<rparr>; shift = jshift s in
            if data = 0xE0 then (0, s\<lparr>jshift := shift OR E0ESC\<rparr>)
            else if data AND 0x80 \<noteq> 0 then
              let data = (if shift AND E0ESC \<noteq> 0 then data else data AND 0x7F) in
              (0, s\<lparr>jshift := shift AND NOT (ucast (shiftcode (unat data)) OR E0ESC)\<rparr>)
            else
              let (data, shift) =
                    (if shift AND E0ESC \<noteq> 0 then (data OR 0x80, shift AND NOT E0ESC) else (data, shift));
                  shift = shift OR ucast (shiftcode (unat data));
                  shift = shift XOR ucast (togglecode (unat data));
                  c = jos_charcode (shift AND (CTL OR SHIFT)) (unat data);
                  c = (if shift AND CAPSLOCK \<noteq> 0 then caps c else c);
                  s = s\<lparr>jshift := shift\<rparr> in
              if NOT shift AND (CTL OR ALT) = 0 \<and> c = KEY_DEL
              then (uint c, (cputs (str_bytes ''Rebooting!'' @ [10]) s)\<lparr>reset_port := reset_port s @ [3]\<rparr>)
              else (uint c, s))"

definition serial_proc_data :: "joscons \<Rightarrow> int \<times> joscons" where
  "serial_proc_data s = (case ser_in s of [] \<Rightarrow> (-1, s) | c # cs \<Rightarrow> (uint c, s\<lparr>ser_in := cs\<rparr>))"

section \<open>The input buffer\<close>

definition cons_put :: "byte \<Rightarrow> joscons \<Rightarrow> joscons" where
  "cons_put c s =
     (let w = cons_wpos s + 1 in
      s\<lparr>cons_buf := (cons_buf s)(cons_wpos s := c), cons_wpos := if w = CONSBUFSIZE then 0 else w\<rparr>)"

partial_function (option) cons_intr :: "(joscons \<Rightarrow> int \<times> joscons) \<Rightarrow> joscons \<Rightarrow> joscons option" where
  "cons_intr p s =
     (case p s of (c, s) \<Rightarrow>
      if c = -1 then Some s
      else if c = 0 then cons_intr p s
      else cons_intr p (cons_put (word_of_int c) s))"

definition serial_intr :: "joscons \<Rightarrow> joscons option" where
  "serial_intr s = (if serial_exists s then cons_intr serial_proc_data s else Some s)"

definition kbd_intr :: "joscons \<Rightarrow> joscons option" where
  "kbd_intr s = cons_intr kbd_proc_data s"

definition cons_get :: "joscons \<Rightarrow> byte \<times> joscons" where
  "cons_get s =
     (let c = cons_buf s (cons_rpos s); r = cons_rpos s + 1 in
      (c, s\<lparr>cons_rpos := if r = CONSBUFSIZE then 0 else r\<rparr>))"

definition cons_getc :: "joscons \<Rightarrow> (int \<times> joscons) option" where
  "cons_getc s =
     Option.bind (serial_intr s) (\<lambda>s.
     Option.bind (kbd_intr s) (\<lambda>s.
     if cons_rpos s \<noteq> cons_wpos s then (case cons_get s of (c, s) \<Rightarrow> Some (uint c, s)) else Some (0, s)))"

text \<open>What arrives at the devices before the next poll.\<close>

definition arrive :: "joscons \<Rightarrow> joscons" where
  "arrive s =
     (case arrivals s of
        [] \<Rightarrow> s
      | (ks, cs) # as \<Rightarrow> s\<lparr>kbd_in := kbd_in s @ ks, ser_in := ser_in s @ cs, arrivals := as\<rparr>)"

text \<open>When nothing more arrives \<open>getchar\<close> polls for ever.\<close>

partial_function (option) getchar :: "joscons \<Rightarrow> (int \<times> joscons) option" where
  "getchar s =
     Option.bind (cons_getc (arrive s)) (\<lambda>(c, s). if c = 0 then getchar s else Some (c, s))"

section \<open>Reading a line\<close>

partial_function (option) readline_loop ::
  "nat \<Rightarrow> byte list \<Rightarrow> joscons \<Rightarrow> (byte list option \<times> joscons) option" where
  "readline_loop i buf s =
     Option.bind (getchar s) (\<lambda>(c, s).
     if c < 0 then
       map_option (Pair None) (vprintfmt cons_putc (\<lambda>_. 0) (str_bytes ''read error: %e'' @ [10]) [word_of_int c] s)
     else if (c = 8 \<or> c = 127) \<and> 0 < i then readline_loop (i - 1) buf (cons_putc 8 s)
     else if 32 \<le> c \<and> i < BUFLEN - 1 then readline_loop (i + 1) (buf[i := word_of_int c]) (cons_putc (word_of_int c) s)
     else if c = 10 \<or> c = 13 then Some (Some (buf[i := 0]), cons_putc 10 s)
     else readline_loop i buf s)"

definition readline :: "byte list option \<Rightarrow> byte list \<Rightarrow> joscons \<Rightarrow> (byte list option \<times> joscons) option" where
  "readline prompt buf s = readline_loop 0 buf (case prompt of None \<Rightarrow> s | Some p \<Rightarrow> cputs p s)"

end
