(* ===== verification/Jos_Monitor.thy ===== *)
theory Jos_Monitor
  imports Jos_Cons Kdebug
begin

text \<open>
  kern/monitor.c of the JOS laboratory: the commands of the kernel monitor and its command interpreter. A line is an array
  of bytes, the pointers into it are indices; what lies behind its end is taken as 0. The commands read the kernel: the
  addresses of the linker, the memory with the stack frames, the debugging tables.
\<close>

record kernel_image =
  sym_start :: u32
  sym_entry :: u32
  sym_etext :: u32
  sym_edata :: u32
  sym_end :: u32
  k_mem :: mem
  k_ebp :: u32
  k_stabs :: "stab list"
  k_stabstr :: "byte list"

text \<open>\<open>cprintf\<close>: \<open>m\<close> is the memory from which \<open>%s\<close> reads its string; a conversion for which no argument was passed is
  undefined in C.\<close>

definition jprintf :: "mem \<Rightarrow> byte list \<Rightarrow> u32 list \<Rightarrow> joscons \<Rightarrow> (unit, joscons) outcome" where
  "jprintf m fmt ap s = (case vprintfmt cons_putc m fmt ap s of None \<Rightarrow> Undef | Some s \<Rightarrow> Ret () s)"

section \<open>The commands\<close>

datatype mon_func = Mon_help | Mon_kerninfo | Mon_backtrace

definition commands :: "(byte list \<times> byte list \<times> mon_func) list" where
  "commands =
     [(str_bytes ''help'', str_bytes ''Display this list of commands'', Mon_help),
      (str_bytes ''kerninfo'', str_bytes ''Display information about the kernel'', Mon_kerninfo),
      (str_bytes ''backtrace'', str_bytes ''Display the stack backtrace'', Mon_backtrace)]"

definition mon_help :: "joscons \<Rightarrow> (int, joscons) outcome" where
  "mon_help s =
     rbind (rfor commands (\<lambda>(n, d, f) s. Ret () (cputs (n @ str_bytes '' - '' @ d @ [10]) s)) s) (\<lambda>_ s. Ret 0 s)"

definition KERNBASE_j :: u32 where "KERNBASE_j = 0xF0000000"

definition mon_kerninfo :: "kernel_image \<Rightarrow> joscons \<Rightarrow> (int, joscons) outcome" where
  "mon_kerninfo k s =
     rbind (jprintf (k_mem k) (str_bytes ''Special kernel symbols:'' @ [10]) [] s) (\<lambda>_ s.
     rbind (jprintf (k_mem k) (str_bytes ''  _start                  %08x (phys)'' @ [10]) [sym_start k] s) (\<lambda>_ s.
     rbind (jprintf (k_mem k) (str_bytes ''  entry  %08x (virt)  %08x (phys)'' @ [10]) [sym_entry k, sym_entry k - KERNBASE_j] s) (\<lambda>_ s.
     rbind (jprintf (k_mem k) (str_bytes ''  etext  %08x (virt)  %08x (phys)'' @ [10]) [sym_etext k, sym_etext k - KERNBASE_j] s) (\<lambda>_ s.
     rbind (jprintf (k_mem k) (str_bytes ''  edata  %08x (virt)  %08x (phys)'' @ [10]) [sym_edata k, sym_edata k - KERNBASE_j] s) (\<lambda>_ s.
     rbind (jprintf (k_mem k) (str_bytes ''  end    %08x (virt)  %08x (phys)'' @ [10]) [sym_end k, sym_end k - KERNBASE_j] s) (\<lambda>_ s.
     let n = sym_end k - sym_entry k + 1024 - 1; size = sint (n - n mod 1024) in
     rbind (jprintf (k_mem k) (str_bytes ''Kernel executable memory footprint: %dKB'' @ [10]) [word_of_int (sgn size * (\<bar>size\<bar> div 1024))] s) (\<lambda>_ s.
     Ret 0 s)))))))"

text \<open>The frames are linked through the first word of each; a cycle of frames is followed for ever.\<close>

partial_function (option) frames :: "mem \<Rightarrow> u32 \<Rightarrow> u32 list option" where
  "frames m ebp =
     (if ebp = 0 then Some [] else Option.bind (frames m (ld32 m ebp)) (\<lambda>fs. Some (ebp # fs)))"

definition print_frame :: "kernel_image \<Rightarrow> u32 \<Rightarrow> joscons \<Rightarrow> (unit, joscons) outcome" where
  "print_frame k ebp s =
     (let w = (\<lambda>i. ld32 (k_mem k) (ebp + 4 * i)) in
      rbind (jprintf (k_mem k) (str_bytes ''ebp %x eip %x args %08x %08x %08x %08x %08x'' @ [10]) [ebp, w 1, w 2, w 3, w 4, w 5, w 6] s) (\<lambda>_ s.
      case debuginfo_eip (k_stabs k) (k_stabstr k) (w 1) of
        Ret r info \<Rightarrow>
          let s = cputs (str_bytes (snd r)) s; s = cputs (eip_file info) s in
          rbind (jprintf (k_mem k) (str_bytes '':%d: '') [word_of_int (eip_line info)] s) (\<lambda>_ s.
          let s = cputs (take (nat (eip_fn_namelen info)) (eip_fn_name info)) s in
          jprintf (k_mem k) (str_bytes ''+%d'' @ [10]) [w 1 - eip_fn_addr info] s)
      | Panic e \<Rightarrow> Panic e
      | _ \<Rightarrow> Undef))"

definition mon_backtrace :: "kernel_image \<Rightarrow> joscons \<Rightarrow> (int, joscons) outcome" where
  "mon_backtrace k s =
     rbind (jprintf (k_mem k) (str_bytes ''Stack backtrace:'' @ [10]) [] s) (\<lambda>_ s.
     case frames (k_mem k) (k_ebp k) of
       None \<Rightarrow> Spin
     | Some fs \<Rightarrow> rbind (rfor fs (print_frame k) s) (\<lambda>_ s. Ret 0 s))"

section \<open>The command interpreter\<close>

definition WHITESPACE :: "byte set" where "WHITESPACE = {9, 13, 10, 32}"
definition MAXARGS_j :: nat where "MAXARGS_j = 16"

definition at :: "byte list \<Rightarrow> nat \<Rightarrow> byte" where
  "at buf p = (if p < length buf then buf ! p else 0)"

lemma at_bound: "at buf p \<noteq> 0 \<Longrightarrow> p < length buf"
  by (auto simp: at_def split: if_splits)

function gobble :: "byte list \<Rightarrow> nat \<Rightarrow> byte list \<times> nat" where
  "gobble buf p = (if at buf p \<noteq> 0 \<and> at buf p \<in> WHITESPACE then gobble (buf[p := 0]) (p + 1) else (buf, p))"
  by pat_completeness auto
termination by (relation "measure (\<lambda>(buf, p). length buf - p)") (auto dest: at_bound intro: diff_less_mono2)

function skip_arg :: "byte list \<Rightarrow> nat \<Rightarrow> nat" where
  "skip_arg buf p = (if at buf p \<noteq> 0 \<and> at buf p \<notin> WHITESPACE then skip_arg buf (p + 1) else p)"
  by pat_completeness auto
termination by (relation "measure (\<lambda>(buf, p). length buf - p)") (auto dest: at_bound intro: diff_less_mono2)

declare gobble.simps [simp del] skip_arg.simps [simp del]

lemma gobble_le: "gobble buf p = (buf', q) \<Longrightarrow> p \<le> q \<and> length buf' = length buf \<and> (at buf' q = 0 \<or> at buf' q \<notin> WHITESPACE)"
  by (induction buf p arbitrary: buf' q rule: gobble.induct) (auto simp: gobble.simps split: if_splits)

lemma skip_arg_le: "p \<le> skip_arg buf p"
  by (induction buf p rule: skip_arg.induct) (subst skip_arg.simps, auto)

text \<open>The loop that cuts the line into arguments; \<open>None\<close> when there are too many.\<close>

function mon_args :: "nat list \<Rightarrow> byte list \<Rightarrow> nat \<Rightarrow> (nat list \<times> byte list) option" where
  "mon_args argv buf p =
     (case gobble buf p of (buf', q) \<Rightarrow>
      if at buf' q = 0 then Some (argv, buf')
      else if length argv = MAXARGS_j - 1 then None
      else mon_args (argv @ [q]) buf' (skip_arg buf' q))"
  by pat_completeness auto
termination
proof (relation "measure (\<lambda>(argv, buf, p). length buf - p)", goal_cases)
  case (2 argv buf p buf' q)
  have "skip_arg buf' q = skip_arg buf' (q + 1)" using 2 gobble_le [of buf p buf' q] by (subst skip_arg.simps) auto
  then have "q < skip_arg buf' q" using skip_arg_le [of "q + 1" buf'] by simp
  then show ?case using 2 gobble_le [of buf p buf' q] at_bound [of buf' q] by auto
qed simp

declare mon_args.simps [simp del]

definition cstr_at :: "byte list \<Rightarrow> nat \<Rightarrow> byte list" where
  "cstr_at buf p = takeWhile (\<lambda>c. c \<noteq> 0) (drop p buf)"

definition mon_call :: "kernel_image \<Rightarrow> mon_func \<Rightarrow> joscons \<Rightarrow> (int, joscons) outcome" where
  "mon_call k f s = (case f of Mon_help \<Rightarrow> mon_help s | Mon_kerninfo \<Rightarrow> mon_kerninfo k s | Mon_backtrace \<Rightarrow> mon_backtrace k s)"

definition mon_runcmd :: "kernel_image \<Rightarrow> byte list \<Rightarrow> joscons \<Rightarrow> (int, joscons) outcome" where
  "mon_runcmd k buf s =
     (case mon_args [] buf 0 of
        None \<Rightarrow> rbind (jprintf (k_mem k) (str_bytes ''Too many arguments (max %d)'' @ [10]) [of_nat MAXARGS_j] s) (\<lambda>_ s. Ret 0 s)
      | Some (argv, buf) \<Rightarrow>
          (case argv of
             [] \<Rightarrow> Ret 0 s
           | a # _ \<Rightarrow>
               (case find (\<lambda>(n, d, f). cstr_at buf a = n) commands of
                  Some (n, d, f) \<Rightarrow> mon_call k f s
                | None \<Rightarrow> Ret 0 (cputs (str_bytes ''Unknown command '' @ [39] @ cstr_at buf a @ [39, 10]) s))))"

text \<open>One turn of the loop of \<open>monitor\<close>, with the static buffer of \<open>readline\<close> as it is then; the loop goes on while the
  result is not negative.\<close>

definition monitor_turn :: "kernel_image \<Rightarrow> byte list \<Rightarrow> joscons \<Rightarrow> (int, joscons) outcome" where
  "monitor_turn k buf s =
     (case readline (Some (str_bytes ''K> '')) buf s of
        None \<Rightarrow> Spin
      | Some (None, s) \<Rightarrow> Ret 0 s
      | Some (Some buf, s) \<Rightarrow> mon_runcmd k buf s)"

end
