(* ===== verification/Jos_Cons_Props.thy ===== *)
theory Jos_Cons_Props
  imports Jos_Cons Kbd_Props
begin

text \<open>The console of JOS: its input buffer is a queue, and what is typed is what \<open>readline\<close> returns.\<close>

section \<open>The input buffer as a queue\<close>

definition ring_len :: "nat \<Rightarrow> nat \<Rightarrow> nat" where
  "ring_len r w = (if r \<le> w then w - r else w + CONSBUFSIZE - r)"

definition ring_at :: "nat \<Rightarrow> nat" where
  "ring_at i = (if i < CONSBUFSIZE then i else i - CONSBUFSIZE)"

definition cons_chars :: "joscons \<Rightarrow> byte list" where
  "cons_chars s = map (\<lambda>i. cons_buf s (ring_at (cons_rpos s + i))) [0..<ring_len (cons_rpos s) (cons_wpos s)]"

definition cons_ok :: "joscons \<Rightarrow> bool" where
  "cons_ok s \<longleftrightarrow> cons_rpos s < CONSBUFSIZE \<and> cons_wpos s < CONSBUFSIZE"

lemma length_cons_chars [simp]: "length (cons_chars s) = ring_len (cons_rpos s) (cons_wpos s)"
  by (simp add: cons_chars_def)

lemma cons_put_ok [simp]: "cons_ok s \<Longrightarrow> cons_ok (cons_put c s)"
  by (auto simp: cons_ok_def cons_put_def Let_def)

lemma cons_get_ok [simp]: "cons_ok s \<Longrightarrow> cons_ok (snd (cons_get s))"
  by (auto simp: cons_ok_def cons_get_def Let_def)

lemma ring_put:
  assumes "r < CONSBUFSIZE" "w < CONSBUFSIZE" "ring_len r w + 1 < CONSBUFSIZE"
  shows "ring_len r (if w + 1 = CONSBUFSIZE then 0 else w + 1) = Suc (ring_len r w)" "ring_at (r + ring_len r w) = w"
    "i < ring_len r w \<Longrightarrow> ring_at (r + i) \<noteq> w"
  using assms by (auto simp: ring_len_def ring_at_def split: if_splits)

lemma cons_put_law:
  assumes "cons_ok s" "length (cons_chars s) + 1 < CONSBUFSIZE"
  shows "cons_chars (cons_put c s) = cons_chars s @ [c]"
proof -
  let ?r = "cons_rpos s" and ?w = "cons_wpos s"
  note p = ring_put [of ?r ?w]
  have n: "?r < CONSBUFSIZE" "?w < CONSBUFSIZE" "ring_len ?r ?w + 1 < CONSBUFSIZE" using assms by (simp_all add: cons_ok_def)
  have "cons_wpos (cons_put c s) = (if ?w + 1 = CONSBUFSIZE then 0 else ?w + 1)" "cons_rpos (cons_put c s) = ?r"
    "cons_buf (cons_put c s) = (cons_buf s)(?w := c)" by (simp_all add: cons_put_def Let_def)
  then show ?thesis using p(1,2) [OF n] p(3) [OF n] by (simp add: cons_chars_def)
qed

text \<open>The driver does not check for a full buffer: the 512th character that nobody has read throws all of them away.\<close>

lemma cons_put_full:
  assumes "cons_ok s" "length (cons_chars s) + 1 = CONSBUFSIZE"
  shows "cons_chars (cons_put c s) = []"
  using assms by (auto simp: cons_put_def cons_chars_def cons_ok_def ring_len_def Let_def split: if_splits)

lemma cons_get_law:
  assumes "cons_ok s" "cons_rpos s \<noteq> cons_wpos s"
  shows "cons_chars s = fst (cons_get s) # cons_chars (snd (cons_get s))"
proof -
  let ?r = "cons_rpos s" and ?w = "cons_wpos s"
  let ?q = "if ?r + 1 = CONSBUFSIZE then 0 else ?r + 1"
  have l: "ring_len ?r ?w = Suc (ring_len ?q ?w)" "i < ring_len ?q ?w \<Longrightarrow> ring_at (?r + Suc i) = ring_at (?q + i)"
    "ring_at ?r = ?r" for i
    using assms by (auto simp: cons_ok_def ring_len_def ring_at_def split: if_splits)
  have "cons_chars s = cons_buf s ?r # map (\<lambda>i. cons_buf s (ring_at (?r + Suc i))) [0..<ring_len ?q ?w]"
    using l(1,3) by (simp add: cons_chars_def upt_conv_Cons map_Suc_upt [symmetric] comp_def del: upt_Suc)
  also have "map (\<lambda>i. cons_buf s (ring_at (?r + Suc i))) [0..<ring_len ?q ?w] =
      map (\<lambda>i. cons_buf s (ring_at (?q + i))) [0..<ring_len ?q ?w]" using l(2) by simp
  finally show ?thesis by (simp add: cons_get_def cons_chars_def Let_def)
qed

lemma cons_empty: "cons_ok s \<Longrightarrow> cons_rpos s = cons_wpos s \<longleftrightarrow> cons_chars s = []"
  by (auto simp: cons_ok_def cons_chars_def ring_len_def split: if_splits)

lemma cons_bound: "cons_ok s \<Longrightarrow> ring_len (cons_rpos s) (cons_wpos s) < CONSBUFSIZE"
  by (auto simp: cons_ok_def ring_len_def)

interpretation cq: fifo cons_put cons_get "\<lambda>s. length (cons_chars s) + 1 = CONSBUFSIZE" "\<lambda>s. cons_rpos s = cons_wpos s"
  cons_chars cons_ok "CONSBUFSIZE - 1"
proof unfold_locales
  fix s :: joscons and x
  assume s: "cons_ok s"
  note b = cons_bound [OF s]
  show "length (cons_chars s) \<le> CONSBUFSIZE - 1" "length (cons_chars s) + 1 = CONSBUFSIZE \<longleftrightarrow> length (cons_chars s) = CONSBUFSIZE - 1"
    using b by auto
  assume "length (cons_chars s) + 1 \<noteq> CONSBUFSIZE"
  then show "cons_chars (cons_put x s) = cons_chars s @ [x]"
    using b by (intro cons_put_law [OF s]) simp
qed (simp_all add: cons_get_law cons_empty)

section \<open>The keyboard\<close>

lemma ctl_rows_eq:
  "ctl_rows =
     [0, 0, 0, 0, 0, 0, 0, 0, 0, 0, 0, 0, 0, 0, 0, 0, 17, 23, 5, 18, 20, 25, 21, 9, 15, 16, 0, 0, 13, 0, 1, 19, 4,
      6, 7, 8, 10, 11, 12, 0, 0, 0, 0, 28, 26, 24, 3, 22, 2, 14, 13, 0, 0, 239, 0, 0]"
  by code_simp

lemma rows_no_del: "list_all (\<lambda>c. c \<noteq> KEY_DEL \<and> caps c \<noteq> KEY_DEL) (0 # normal_rows @ shift_rows @ ctl_rows)"
  unfolding normal_rows_eq shift_rows_eq ctl_rows_eq by code_simp

lemma low_table_eq:
  assumes "i < 128" "\<forall>(j, c) \<in> set named. 128 \<le> j"
  shows "table rows named i = (if i < length rows then rows ! i else 0)"
proof -
  have "map_of named i = None" using assms by (auto simp: map_of_eq_None_iff)
  then show ?thesis by (simp add: table_def)
qed

lemma low_maps:
  assumes "i < 128"
  shows "normalmap i = table normal_rows [] i" "shiftmap i = table shift_rows [] i" "ctlmap i = table ctl_rows [] i"
    "jos_normalmap i = table normal_rows [] i" "jos_shiftmap i = table shift_rows [] i" "jos_ctlmap i = table ctl_rows [] i"
  unfolding normalmap_def shiftmap_def ctlmap_def jos_normalmap_def jos_shiftmap_def jos_ctlmap_def arrows_def
  by (subst (1 2) low_table_eq [OF assms]; simp)+

lemma low_jos_tables:
  assumes "i < 128"
  shows "jos_charcode k i = charcode k i" "charcode k i \<noteq> KEY_DEL" "caps (charcode k i) \<noteq> KEY_DEL"
proof -
  show "jos_charcode k i = charcode k i" using low_maps [OF assms] by (simp add: jos_charcode_def charcode_def)
  have t: "table rows [] i \<in> insert 0 (set rows)" for rows by (simp add: table_def)
  have "charcode k i \<in> set (0 # normal_rows @ shift_rows @ ctl_rows)"
    using t [of normal_rows] t [of shift_rows] t [of ctl_rows] low_maps [OF assms] by (auto simp: charcode_def)
  then show "charcode k i \<noteq> KEY_DEL" "caps (charcode k i) \<noteq> KEY_DEL" using rows_no_del unfolding list_all_iff by blast+
qed

lemma E0ESC_bit: "(x AND E0ESC = 0) = (\<not> bit x 6)"
  using and_exp_eq_0_iff_not_bit [of x 6] by (simp add: E0ESC_def)

lemma code_no_escape: "\<not> bit (ucast (shiftcode i) :: u32) 6" "\<not> bit (ucast (togglecode i) :: u32) 6"
  by (auto simp: shiftcode_def togglecode_def table_def bit_simps)

lemma low_byte:
  assumes "d AND 0x80 = 0"
  shows "unat (d :: byte) < 128"
proof (rule ccontr)
  assume "\<not> unat d < 128"
  moreover have "unat d < 256" by (rule order_less_le_trans [OF unsigned_less]) simp
  ultimately have "unat d div 128 = 1" by simp
  then have "bit (unat d) 7" by (simp add: bit_iff_odd)
  then have "bit d 7" by (simp add: bit_unsigned_iff)
  then show False using and_exp_eq_0_iff_not_bit [of d 7] assms by simp
qed

text \<open>Without the escape code both keyboards decode alike, and nothing resets the machine.\<close>

lemma kbd_step:
  assumes "kbd_in s = (False, d) # ds" "jshift s AND E0ESC = 0" "d \<noteq> 0xE0"
  shows "\<exists>c sh. kbdgetc (jshift s, d # es) = (c, sh, es) \<and> sh AND E0ESC = 0 \<and>
    kbd_proc_data s = (c, s\<lparr>kbd_in := ds, jshift := sh\<rparr>)"
proof (cases "d AND 0x80 = 0")
  case False
  then show ?thesis using assms
    by (auto simp: kbdgetc_def kbd_proc_data_def Let_def E0ESC_bit bit_simps)
next
  case True
  let ?i = "unat d" and ?sh = "(jshift s OR ucast (shiftcode (unat d))) XOR ucast (togglecode (unat d))"
  note l = low_jos_tables [OF low_byte [OF True]]
  have "?sh AND E0ESC = 0" using assms(2) code_no_escape by (simp add: E0ESC_bit bit_simps)
  then show ?thesis using assms True l
    by (auto simp: kbdgetc_def kbd_proc_data_def Let_def)
qed

section \<open>Polling the devices\<close>

text \<open>The characters that scan codes stand for, and the state of the output devices.\<close>

definition kchars :: "u32 \<Rightarrow> byte list \<Rightarrow> byte list" where
  "kchars sh ds = map word_of_int (filter (\<lambda>c. c \<noteq> 0) (fst (kbd_chars sh ds)))"

definition outp :: "joscons \<Rightarrow> bool \<times> byte list \<times> byte list \<times> (nat \<Rightarrow> u16) \<times> u16 \<times> u16 \<times> byte list" where
  "outp s = (serial_exists s, ser_out s, lpt_out s, crt_buf s, crt_at s, crt_cursor s, reset_port s)"

lemma kbdgetc_rest: "\<exists>c sh'. \<forall>es. kbdgetc (sh, d # es) = (c, sh', es)"
  by (auto simp: kbdgetc_def Let_def split: prod.splits)

lemma kbd_chars_append:
  "kbd_chars sh (ds @ es) = (case kbd_chars sh ds of (cs, sh') \<Rightarrow> case kbd_chars sh' es of (cs', sh'') \<Rightarrow> (cs @ cs', sh''))"
proof (induction ds arbitrary: sh)
  case (Cons d ds)
  obtain c sh' where "\<forall>es. kbdgetc (sh, d # es) = (c, sh', es)" using kbdgetc_rest by blast
  then show ?case using Cons by (auto split: prod.split)
qed (simp split: prod.split)

lemma kchars_append: "kchars sh (ds @ es) = kchars sh ds @ kchars (snd (kbd_chars sh ds)) es"
  by (simp add: kchars_def kbd_chars_append split: prod.split)

lemma byte_int_0: "c \<in> {0..<256} \<Longrightarrow> (word_of_int c :: byte) = 0 \<longleftrightarrow> c = 0"
  by (simp add: word_of_int_eq_0_iff) (metis dvd_0_right zdvd_not_zless order_le_less)

lemma kchars_not_0: "0 \<notin> set (kchars sh ds)"
proof
  assume "0 \<in> set (kchars sh ds)"
  then obtain c where c: "c \<in> set (fst (kbd_chars sh ds))" "c \<noteq> 0" "(word_of_int c :: byte) = 0" by (auto simp: kchars_def)
  then have "c \<in> {0..<256}" using kbd_chars_range by blast
  then show False using c byte_int_0 by blast
qed

lemma cons_put_frame [simp]:
  "kbd_in (cons_put c s) = kbd_in s" "jshift (cons_put c s) = jshift s" "arrivals (cons_put c s) = arrivals s"
  "ser_in (cons_put c s) = ser_in s" "outp (cons_put c s) = outp s"
  by (simp_all add: cons_put_def outp_def Let_def)

lemma cons_get_frame [simp]:
  "kbd_in (snd (cons_get s)) = kbd_in s" "jshift (snd (cons_get s)) = jshift s" "arrivals (snd (cons_get s)) = arrivals s"
  "ser_in (snd (cons_get s)) = ser_in s" "outp (snd (cons_get s)) = outp s"
  by (simp_all add: cons_get_def outp_def Let_def)

lemma kbd_intr_run:
  assumes "cons_ok s" "kbd_in s = map (Pair False) ds" "jshift s AND E0ESC = 0" "0xE0 \<notin> set ds"
    "length (cons_chars s) + length (kchars (jshift s) ds) < CONSBUFSIZE"
  shows "\<exists>t. kbd_intr s = Some t \<and> kbd_in t = [] \<and> jshift t = snd (kbd_chars (jshift s) ds) \<and> jshift t AND E0ESC = 0 \<and>
    cons_ok t \<and> cons_chars t = cons_chars s @ kchars (jshift s) ds \<and> arrivals t = arrivals s \<and> ser_in t = ser_in s \<and> outp t = outp s"
  using assms
proof (induction ds arbitrary: s)
  case Nil
  then have "kbd_proc_data s = (-1, s)" by (simp add: kbd_proc_data_def)
  then have "kbd_intr s = Some s" by (simp add: kbd_intr_def cons_intr.simps)
  then show ?case using Nil by (simp add: kchars_def)
next
  case (Cons d ds)
  obtain c sh where c: "kbdgetc (jshift s, d # ds) = (c, sh, ds)" "sh AND E0ESC = 0"
    "kbd_proc_data s = (c, s\<lparr>kbd_in := map (Pair False) ds, jshift := sh\<rparr>)"
    using kbd_step [of s d "map (Pair False) ds" ds] Cons.prems by auto
  have "c \<in> {0..<256}" using kbd_chars_range [of "jshift s" "d # ds"] c(1) by (auto split: prod.splits)
  let ?u = "s\<lparr>kbd_in := map (Pair False) ds, jshift := sh\<rparr>"
  let ?v = "if c = 0 then ?u else cons_put (word_of_int c) ?u"
  have u: "cons_ok ?u" "cons_chars ?u = cons_chars s" using Cons.prems(1) by (simp_all add: cons_ok_def cons_chars_def)
  have k: "kchars (jshift s) (d # ds) = (if c = 0 then [] else [word_of_int c]) @ kchars sh ds"
    using c(1) by (simp add: kchars_def split: prod.split)
  have v: "cons_chars ?v = cons_chars s @ (if c = 0 then [] else [word_of_int c])"
    using cons_put_law [of ?u "word_of_int c"] u Cons.prems(5) k by auto
  have j: "snd (kbd_chars (jshift s) (d # ds)) = snd (kbd_chars sh ds)" using c(1) by (simp split: prod.split)
  have "outp ?u = outp s" by (simp add: outp_def)
  then have o: "outp ?v = outp s" by simp
  have "kbd_intr s = kbd_intr ?v"
    using c(3) \<open>c \<in> {0..<256}\<close> by (simp add: kbd_intr_def cons_intr.simps [of _ s])
  moreover have "length (cons_chars ?v) + length (kchars (jshift ?v) ds) < CONSBUFSIZE"
    using Cons.prems(5) unfolding v k by auto
  ultimately show ?case
    using Cons.IH [of ?v] Cons.prems u v k c o j by auto
qed

text \<open>The characters still to come: those in the buffer and those of the scan codes that have not been read yet. The
  serial line is quiet, and there are not more characters than the buffer holds.\<close>

definition codes :: "joscons \<Rightarrow> (bool \<times> byte) list" where
  "codes s = kbd_in s @ concat (map fst (arrivals s))"

definition pending :: "joscons \<Rightarrow> byte list" where
  "pending s = cons_chars s @ kchars (jshift s) (map snd (codes s))"

definition typing :: "joscons \<Rightarrow> bool" where
  "typing s \<longleftrightarrow> cons_ok s \<and> 0 \<notin> set (cons_chars s) \<and> jshift s AND E0ESC = 0 \<and> (\<forall>(m, d) \<in> set (codes s). \<not> m \<and> d \<noteq> 0xE0) \<and>
     ser_in s = [] \<and> (\<forall>a \<in> set (arrivals s). snd a = []) \<and> length (pending s) < CONSBUFSIZE"

lemma arrive_typing:
  assumes "typing s"
  shows "typing (arrive s)" "pending (arrive s) = pending s" "outp (arrive s) = outp s" "arrivals (arrive s) = tl (arrivals s)"
    "arrivals s = [] \<Longrightarrow> kbd_in (arrive s) = kbd_in s"
proof -
  have "codes (arrive s) = codes s" "cons_chars (arrive s) = cons_chars s" "jshift (arrive s) = jshift s" "cons_ok (arrive s) = cons_ok s"
    by (auto simp: codes_def arrive_def cons_chars_def cons_ok_def split: list.split)
  then show "typing (arrive s)" "pending (arrive s) = pending s" "outp (arrive s) = outp s" "arrivals (arrive s) = tl (arrivals s)"
    "arrivals s = [] \<Longrightarrow> kbd_in (arrive s) = kbd_in s"
    using assms by (auto simp: typing_def pending_def arrive_def outp_def split: list.split)
qed

lemma poll_typing:
  assumes "typing s"
  shows "\<exists>t. serial_intr s = Some s \<and> kbd_intr s = Some t \<and> typing t \<and> pending t = pending s \<and> kbd_in t = [] \<and>
    arrivals t = arrivals s \<and> outp t = outp s"
proof -
  let ?ds = "map snd (kbd_in s)"
  have e: "\<forall>(m, d) \<in> set (codes s). \<not> m \<and> d \<noteq> 0xE0" using assms by (simp add: typing_def)
  then have k: "kbd_in s = map (Pair False) ?ds" by (auto simp: codes_def comp_def intro!: map_idI [symmetric])
  have n: "0xE0 \<notin> set ?ds" using e by (auto simp: codes_def)
  have p: "pending s = cons_chars s @ kchars (jshift s) ?ds @
      kchars (snd (kbd_chars (jshift s) ?ds)) (map snd (concat (map fst (arrivals s))))"
    by (simp add: pending_def codes_def kchars_append)
  have "length (cons_chars s) + length (kchars (jshift s) ?ds) < CONSBUFSIZE"
    using assms p unfolding typing_def by simp
  then obtain t where t: "kbd_intr s = Some t" "kbd_in t = []" "jshift t = snd (kbd_chars (jshift s) ?ds)" "jshift t AND E0ESC = 0"
    "cons_ok t" "cons_chars t = cons_chars s @ kchars (jshift s) ?ds" "arrivals t = arrivals s" "ser_in t = ser_in s" "outp t = outp s"
    using kbd_intr_run [OF _ k] n assms by (auto simp: typing_def)
  have pt: "pending t = pending s" using p t by (simp add: pending_def codes_def)
  have "typing t" using assms t pt kchars_not_0 by (auto simp: typing_def codes_def)
  moreover have "serial_intr s = Some s"
    using assms by (simp add: serial_intr_def cons_intr.simps serial_proc_data_def typing_def)
  ultimately show ?thesis using t pt by blast
qed

lemma cons_getc_typing:
  assumes "typing s"
  shows "\<exists>c t. cons_getc s = Some (uint c, t) \<and> typing t \<and> arrivals t = arrivals s \<and> outp t = outp s \<and>
    (if c = 0 then pending t = pending s \<and> kbd_in t = [] \<and> cons_chars t = [] else pending s = c # pending t)"
proof -
  obtain t where t: "serial_intr s = Some s" "kbd_intr s = Some t" "typing t" "pending t = pending s" "kbd_in t = []"
    "arrivals t = arrivals s" "outp t = outp s"
    using poll_typing [OF assms] by blast
  have ok: "cons_ok t" using t(3) by (simp add: typing_def)
  show ?thesis
  proof (cases "cons_rpos t = cons_wpos t")
    case True
    then show ?thesis using t cons_empty [OF ok] by (intro exI [of _ 0] exI [of _ t]) (simp add: cons_getc_def)
  next
    case False
    let ?c = "fst (cons_get t)" and ?u = "snd (cons_get t)"
    have g: "cons_chars t = ?c # cons_chars ?u" using cons_get_law [OF ok False] .
    then have "?c \<noteq> 0" "0 \<notin> set (cons_chars ?u)" using t(3) by (auto simp: typing_def)
    moreover have "pending t = ?c # pending ?u" using g by (simp add: pending_def codes_def)
    moreover from this have "length (pending ?u) < CONSBUFSIZE" using t(3) by (simp add: typing_def)
    ultimately have "typing ?u" "pending s = ?c # pending ?u" using t(3,4) ok by (simp_all add: typing_def codes_def)
    then show ?thesis using t False \<open>?c \<noteq> 0\<close>
      by (intro exI [of _ ?c] exI [of _ ?u]) (simp add: cons_getc_def split_beta)
  qed
qed

lemma getchar_typing:
  assumes "typing s" "pending s = c # cs"
  shows "\<exists>t. getchar s = Some (uint c, t) \<and> typing t \<and> pending t = cs \<and> outp t = outp s"
  using assms
proof (induction "length (arrivals s)" arbitrary: s rule: less_induct)
  case less
  note a = arrive_typing [OF less.prems(1)]
  obtain x t where t: "cons_getc (arrive s) = Some (uint x, t)" "typing t" "arrivals t = arrivals (arrive s)" "outp t = outp (arrive s)"
    "if x = 0 then pending t = pending (arrive s) \<and> kbd_in t = [] \<and> cons_chars t = [] else pending (arrive s) = x # pending t"
    using cons_getc_typing [OF a(1)] by blast
  show ?case
  proof (cases "x = 0")
    case True
    have "arrivals s \<noteq> []"
    proof
      assume "arrivals s = []"
      then have "pending t = []" using t True a by (simp add: pending_def codes_def kchars_def)
      then show False using t True a less.prems by simp
    qed
    then have "length (arrivals t) < length (arrivals s)" using t a by simp
    from less.hyps [OF this] show ?thesis using t a less.prems True by (subst getchar.simps) auto
  next
    case False
    then have "x = c" "pending t = cs" using t(5) a less.prems by simp_all
    then show ?thesis using t a False by (subst getchar.simps) (simp add: uint_0_iff)
  qed
qed

section \<open>Reading a line\<close>

text \<open>What \<open>readline\<close> does with a character, on the line as a list.\<close>

fun jedit :: "byte \<Rightarrow> byte list \<Rightarrow> byte list" where
  "jedit c ln =
     (if (c = 8 \<or> c = 127) \<and> ln \<noteq> [] then butlast ln
      else if 32 \<le> uint c \<and> length ln < BUFLEN - 1 then ln @ [c] else ln)"

declare jedit.simps [simp del]

lemma cons_putc_input:
  "kbd_in (cons_putc c s) = kbd_in s" "jshift (cons_putc c s) = jshift s" "arrivals (cons_putc c s) = arrivals s"
  "ser_in (cons_putc c s) = ser_in s" "cons_buf (cons_putc c s) = cons_buf s" "cons_rpos (cons_putc c s) = cons_rpos s"
  "cons_wpos (cons_putc c s) = cons_wpos s"
proof -
  have w: "kbd_in (cga_switch c s) = kbd_in s \<and> jshift (cga_switch c s) = jshift s \<and> arrivals (cga_switch c s) = arrivals s \<and>
    ser_in (cga_switch c s) = ser_in s \<and> cons_buf (cga_switch c s) = cons_buf s \<and> cons_rpos (cga_switch c s) = cons_rpos s \<and>
    cons_wpos (cga_switch c s) = cons_wpos s" for c s
    by (simp add: cga_switch_def Let_def)
  have r: "kbd_in (cga_finish s) = kbd_in s \<and> jshift (cga_finish s) = jshift s \<and> arrivals (cga_finish s) = arrivals s \<and>
    ser_in (cga_finish s) = ser_in s \<and> cons_buf (cga_finish s) = cons_buf s \<and> cons_rpos (cga_finish s) = cons_rpos s \<and>
    cons_wpos (cga_finish s) = cons_wpos s" for s
    by (simp add: cga_finish_def Let_def)
  show "kbd_in (cons_putc c s) = kbd_in s" "jshift (cons_putc c s) = jshift s" "arrivals (cons_putc c s) = arrivals s"
    "ser_in (cons_putc c s) = ser_in s" "cons_buf (cons_putc c s) = cons_buf s" "cons_rpos (cons_putc c s) = cons_rpos s"
    "cons_wpos (cons_putc c s) = cons_wpos s"
    by (simp_all add: cons_putc_def cga_putc_def cons_space_def w r serial_putc_def lpt_putc_def eval_nat_numeral)
qed

lemma cons_putc_typing [simp]: "typing (cons_putc c s) = typing s" "pending (cons_putc c s) = pending s"
proof -
  have "cons_chars (cons_putc c s) = cons_chars s" "cons_ok (cons_putc c s) = cons_ok s" "codes (cons_putc c s) = codes s"
    by (simp_all add: cons_chars_def cons_ok_def codes_def cons_putc_input)
  then show "typing (cons_putc c s) = typing s" "pending (cons_putc c s) = pending s"
    by (simp_all add: typing_def pending_def cons_putc_input)
qed

lemma readline_loop_typing:
  assumes "typing s" "pending s = cs @ e # rest" "e = 10 \<or> e = 13" "10 \<notin> set cs" "13 \<notin> set cs"
    "take i buf = ln" "length ln = i" "i < BUFLEN" "length buf = BUFLEN"
  shows "\<exists>t buf'. readline_loop i buf s = Some (Some buf', t) \<and> typing t \<and> pending t = rest \<and> length buf' = BUFLEN \<and>
    (let xs = fold jedit cs ln in length xs < BUFLEN \<and> take (length xs) buf' = xs \<and> buf' ! length xs = 0)"
  using assms
proof (induction cs arbitrary: s i buf ln)
  case Nil
  obtain t where t: "getchar s = Some (uint e, t)" "typing t" "pending t = rest" using getchar_typing [of s e rest] Nil by auto
  have "uint e = 10 \<or> uint e = 13" using Nil.prems(3) by auto
  then have "readline_loop i buf s = Some (Some (buf[i := 0]), cons_putc 10 t)"
    using t by (subst readline_loop.simps) auto
  then show ?case using Nil.prems t by (auto simp: Let_def)
next
  case (Cons c cs)
  obtain t where t: "getchar s = Some (uint c, t)" "typing t" "pending t = cs @ e # rest"
    using getchar_typing [of s c "cs @ e # rest"] Cons.prems by auto
  have c: "uint c = 8 \<longleftrightarrow> c = 8" "uint c = 127 \<longleftrightarrow> c = 127" "0 \<le> uint c" "uint c \<noteq> 10" "uint c \<noteq> 13"
    using Cons.prems(4,5) by (auto simp: word_uint_eq_iff)
  note ih = Cons.IH [OF _ _ Cons.prems(3)]
  consider "(c = 8 \<or> c = 127) \<and> 0 < i" | "\<not> ((c = 8 \<or> c = 127) \<and> 0 < i)" "32 \<le> uint c \<and> i < BUFLEN - 1" 
    | "\<not> ((c = 8 \<or> c = 127) \<and> 0 < i)" "\<not> (32 \<le> uint c \<and> i < BUFLEN - 1)" by blast
  then show ?case
  proof cases
    case 1
    then have "readline_loop i buf s = readline_loop (i - 1) buf (cons_putc 8 t)"
      using t c by (subst readline_loop.simps) auto
    moreover have "take (i - 1) buf = butlast ln" using Cons.prems(6-9) by (auto simp: butlast_take)
    moreover have "jedit c ln = butlast ln" using 1 Cons.prems(7) by (auto simp: jedit.simps)
    ultimately show ?thesis using ih [of "cons_putc 8 t" "i - 1" buf "butlast ln"] t Cons.prems by simp
  next
    case 2
    then have "readline_loop i buf s = readline_loop (i + 1) (buf[i := c]) (cons_putc (word_of_int (uint c)) t)"
      using t c by (subst readline_loop.simps) auto
    moreover have "take (i + 1) (buf[i := c]) = ln @ [c]" using Cons.prems(6-9) by (simp add: take_Suc_conv_app_nth)
    moreover have "jedit c ln = ln @ [c]" using 2 Cons.prems(7) by (auto simp: jedit.simps)
    moreover have "i + 1 < BUFLEN" using 2 by linarith
    ultimately show ?thesis using ih [of "cons_putc (word_of_int (uint c)) t" "i + 1" "buf[i := c]" "ln @ [c]"] t 2 Cons.prems by simp
  next
    case 3
    then have "readline_loop i buf s = readline_loop i buf t" using t c by (subst readline_loop.simps) auto
    moreover have "jedit c ln = ln" using 3 Cons.prems(7) by (auto simp: jedit.simps)
    ultimately show ?thesis using ih [of t i buf ln] t Cons.prems by simp
  qed
qed

text \<open>The keys of a line and Enter.\<close>

lemma type_line_codes: "list_all printable xs \<Longrightarrow> 0xE0 \<notin> set (type_line xs)"
proof (induction xs)
  case Nil
  then show ?case by (simp add: type_line_def stroke_def)
next
  case (Cons x xs)
  obtain i where i: "i < 88" "key_index normalmap x = Some i \<or> key_index normalmap x = None \<and> key_index shiftmap x = Some i"
    using printable_key [of x] Cons.prems by auto
  then have "0xE0 \<notin> set (keystroke x)" using scan_bits(1,3) [OF i(1)] by (auto simp: keystroke_def stroke_def)
  then show ?case using Cons by (simp add: type_line_def)
qed

definition typed_line :: "byte list \<Rightarrow> joscons \<Rightarrow> bool" where
  "typed_line xs s \<longleftrightarrow> cons_ok s \<and> cons_chars s = [] \<and> jshift s = 0 \<and> codes s = map (Pair False) (type_line xs) \<and>
     ser_in s = [] \<and> (\<forall>a \<in> set (arrivals s). snd a = []) \<and> list_all printable xs \<and> length xs + 1 < CONSBUFSIZE"

lemma typed_line_typing:
  assumes "typed_line xs s"
  shows "typing s" "pending s = xs @ [10]"
proof -
  obtain zs where z: "kbd_chars 0 (type_line xs) = (zs, 0)" "filter (\<lambda>z. z \<noteq> 0) zs = map uint xs @ [10]"
    using kbd_line [of xs] assms by (auto simp: typed_line_def)
  have "map snd (codes s) = type_line xs" using assms by (simp add: typed_line_def comp_def)
  then show "pending s = xs @ [10]" using z assms by (simp add: pending_def kchars_def typed_line_def comp_def)
  then show "typing s" using assms type_line_codes [of xs] by (auto simp: typing_def typed_line_def)
qed

lemma cputs_typing [simp]: "typing (cputs xs s) = typing s" "pending (cputs xs s) = pending s"
  by (induction xs arbitrary: s) (simp_all add: cputs_def)

lemma readline_typing:
  assumes "typing s" "pending s = cs @ e # rest" "e = 10 \<or> e = 13" "10 \<notin> set cs" "13 \<notin> set cs" "length buf = BUFLEN"
  shows "\<exists>t junk. readline prompt buf s = Some (Some (fold jedit cs [] @ 0 # junk), t) \<and> typing t \<and> pending t = rest"
proof -
  let ?s = "case prompt of None \<Rightarrow> s | Some p \<Rightarrow> cputs p s"
  have "typing ?s" "pending ?s = cs @ e # rest" using assms(1,2) by (auto split: option.split)
  then obtain t b where t: "readline prompt buf s = Some (Some b, t)" "typing t" "pending t = rest" "length b = BUFLEN"
    "length (fold jedit cs []) < BUFLEN" "take (length (fold jedit cs [])) b = fold jedit cs []" "b ! length (fold jedit cs []) = 0"
    using readline_loop_typing [of ?s cs e rest 0 buf "[]"] assms(3-6) by (auto simp: readline_def Let_def BUFLEN_def)
  then have "b = fold jedit cs [] @ 0 # drop (Suc (length (fold jedit cs []))) b" using id_take_nth_drop [of "length (fold jedit cs [])" b] by simp
  then show ?thesis using t by metis
qed

lemma jedit_printable: "list_all printable xs \<Longrightarrow> length ln + length xs < BUFLEN \<Longrightarrow> fold jedit xs ln = ln @ xs"
  by (induction xs arbitrary: ln) (auto simp: printable_def jedit.simps)

section \<open>Input that nobody reads\<close>

text \<open>C38: the buffer of the console holds 511 characters and the drivers do not check for it. When characters arrive
  that fill its 512 places, the write position meets the read position: the buffer counts as empty, and all the
  characters that had been typed ahead are lost.\<close>

theorem type_ahead_lost:
  assumes "cons_ok s" "serial_exists s" "0 \<notin> set (ser_in s)" "ser_in s \<noteq> []" "length (cons_chars s) + length (ser_in s) = CONSBUFSIZE"
  shows "\<exists>t. serial_intr s = Some t \<and> cons_chars t = [] \<and> ser_in t = []"
proof -
  have "\<exists>t. cons_intr serial_proc_data s = Some t \<and> cons_chars t = [] \<and> ser_in t = []"
    using assms(1,3,4,5)
  proof (induction "ser_in s" arbitrary: s)
    case (Cons c cs)
    have c: "ser_in s = c # cs" using Cons(2) by simp
    then have c0: "c \<noteq> 0" using Cons(4) by auto
    have "0 \<le> uint c" by simp
    then have c1: "uint c \<noteq> -1" by linarith
    let ?t = "cons_put c (s\<lparr>ser_in := cs\<rparr>)"
    have t: "cons_ok (s\<lparr>ser_in := cs\<rparr>)" "cons_chars (s\<lparr>ser_in := cs\<rparr>) = cons_chars s"
      using Cons(3) by (simp_all add: cons_ok_def cons_chars_def)
    have r: "cons_intr serial_proc_data s = cons_intr serial_proc_data ?t"
      using c c0 c1 uint_0_iff [of c] by (subst cons_intr.simps) (auto simp: serial_proc_data_def)
    show ?case
    proof (cases "cs = []")
      case True
      then have "cons_chars ?t = []" using cons_put_full [OF t(1), of c] t(2) Cons(6) c by simp
      then show ?thesis using r True by (simp add: cons_intr.simps serial_proc_data_def)
    next
      case False
      then have "cons_chars ?t = cons_chars s @ [c]" using cons_put_law [OF t(1), of c] t(2) Cons(6) c by (cases cs) simp_all
      then show ?thesis using Cons(1) [of ?t] Cons(3-) False c t r by simp
    qed
  qed simp
  then show ?thesis using assms(2) by (simp add: serial_intr_def)
qed

definition full_jos :: joscons where
  "full_jos = \<lparr>jshift = 0, kbd_in = [], serial_exists = True, ser_in = [98], ser_out = [], lpt_out = [], crt_buf = (\<lambda>_. 0),
     crt_at = 0, crt_cursor = 0, cons_buf = (\<lambda>_. 97), cons_rpos = 100, cons_wpos = 99, reset_port = [], arrivals = []\<rparr>"

theorem type_ahead_lost_witness:
  "cons_chars full_jos = replicate 511 97 \<and> (\<exists>t. serial_intr full_jos = Some t \<and> cons_chars t = [])"
proof
  show c: "cons_chars full_jos = replicate 511 97"
    by (simp add: full_jos_def cons_chars_def ring_len_def CONSBUFSIZE_def map_replicate_const)
  show "\<exists>t. serial_intr full_jos = Some t \<and> cons_chars t = []"
    using type_ahead_lost [of full_jos] by (auto simp: full_jos_def cons_ok_def CONSBUFSIZE_def ring_len_def)
qed

end
