(* ===== verification/Jos_Monitor_Props.thy ===== *)
theory Jos_Monitor_Props
  imports Jos_Monitor Jos_Cons_Props
begin

text \<open>The command interpreter of the JOS monitor: a typed line is cut into its words and the command of the first is run.\<close>

section \<open>Cutting a line into words\<close>

abbreviation white :: "byte \<Rightarrow> bool" where
  "white c \<equiv> c \<in> WHITESPACE"

function line_words :: "byte list \<Rightarrow> byte list list" where
  "line_words xs =
     (let ys = dropWhile white xs in
      if ys = [] then [] else takeWhile (\<lambda>c. \<not> white c) ys # line_words (dropWhile (\<lambda>c. \<not> white c) ys))"
  by pat_completeness auto
termination
proof (relation "measure length", goal_cases)
  case (2 xs ys)
  then have "\<not> white (hd ys)" "ys \<noteq> []" using hd_dropWhile [of white xs] by simp_all
  then have "length (dropWhile (\<lambda>c. \<not> white c) ys) < length ys" by (cases ys) (auto simp: length_dropWhile_le le_imp_less_Suc)
  then show ?case using 2 length_dropWhile_le [of white xs] by simp
qed simp

declare line_words.simps [simp del]

lemma at_append: "at (xs @ c # ys) (length xs) = c"
  by (simp add: at_def)

lemma gobble_run:
  "\<forall>c \<in> set ws. white c \<Longrightarrow> 0 \<notin> set ws \<Longrightarrow> c = 0 \<or> \<not> white c \<Longrightarrow>
   gobble (as @ ws @ c # rest) (length as) = (as @ replicate (length ws) 0 @ c # rest, length as + length ws)"
proof (induction ws arbitrary: as)
  case Nil
  then show ?case using at_append [of as c rest] by (subst gobble.simps) auto
next
  case (Cons w ws)
  have "gobble (as @ (w # ws) @ c # rest) (length as) = gobble ((as @ [0]) @ ws @ c # rest) (length (as @ [0]))"
    using Cons.prems at_append [of as w "ws @ c # rest"] by (subst gobble.simps) (auto simp: list_update_append)
  then show ?case using Cons.IH [of "as @ [0]"] Cons.prems by simp
qed

lemma skip_arg_run:
  "\<forall>c \<in> set ws. \<not> white c \<Longrightarrow> 0 \<notin> set ws \<Longrightarrow> c = 0 \<or> white c \<Longrightarrow>
   skip_arg (as @ ws @ c # rest) (length as) = length as + length ws"
proof (induction ws arbitrary: as)
  case Nil
  then show ?case using at_append [of as c rest] by (subst skip_arg.simps) auto
next
  case (Cons w ws)
  have "skip_arg (as @ (w # ws) @ c # rest) (length as) = skip_arg ((as @ [w]) @ ws @ c # rest) (length (as @ [w]))"
    using Cons.prems at_append [of as w "ws @ c # rest"] by (subst skip_arg.simps) auto
  then show ?case using Cons.IH [of "as @ [w]"] Cons.prems by simp
qed

lemma span_char: "\<exists>c rest. dropWhile P xs @ 0 # junk = c # rest \<and> (c = 0 \<or> \<not> P c)"
proof (cases "dropWhile P xs")
  case Nil
  then show ?thesis by (intro exI [of _ 0] exI [of _ junk]) simp
next
  case (Cons c cs)
  then have "\<not> P c" by (metis hd_dropWhile list.discI list.sel(1))
  then show ?thesis using Cons by simp
qed

lemma takeWhile_to_0: "0 \<notin> set w \<Longrightarrow> takeWhile (\<lambda>c. c \<noteq> 0) (w @ 0 # cs) = (w :: byte list)"
  by (induction w) auto

lemma mon_args_words:
  assumes "buf = as @ line @ 0 # junk" "0 \<notin> set line" "length argv \<le> 15" "p = length as"
  shows "if length argv + length (line_words line) \<le> 15
    then \<exists>qs bs. mon_args argv buf p = Some (argv @ qs, as @ bs) \<and> map (\<lambda>q. cstr_at (as @ bs) q) qs = line_words line \<and>
      (line = [] \<or> white (hd line) \<longrightarrow> bs \<noteq> [] \<and> hd bs = 0)
    else mon_args argv buf p = None"
  using assms
proof (induction line arbitrary: as argv buf p rule: line_words.induct)
  case (1 line)
  define ws where "ws = takeWhile white line"
  define ys where "ys = dropWhile white line"
  define w where "w = takeWhile (\<lambda>c. \<not> white c) ys"
  define zs where "zs = dropWhile (\<lambda>c. \<not> white c) ys"
  have l: "line = ws @ ys" "ys = w @ zs" by (simp_all add: ws_def ys_def w_def zs_def)
  have z: "0 \<notin> set ws" "0 \<notin> set w" "0 \<notin> set zs" using 1 l by auto
  have ws: "\<forall>c \<in> set ws. white c" "\<forall>c \<in> set w. \<not> white c" by (auto simp: ws_def w_def dest: set_takeWhileD)
  obtain c rest where c: "ys @ 0 # junk = c # rest" "c = 0 \<or> \<not> white c"
    using span_char [of white line junk] by (auto simp: ys_def)
  let ?as = "as @ replicate (length ws) 0"
  have g: "gobble buf p = (?as @ ys @ 0 # junk, length ?as)"
    using gobble_run [OF ws(1) z(1) c(2), of as rest] c(1) 1(2,5) l by simp
  have first: "line = [] \<or> white (hd line) \<Longrightarrow> ws \<noteq> [] \<or> ys = []"
    unfolding ws_def ys_def by (cases line) auto
  show ?case
  proof (cases "ys = []")
    case True
    then have "line_words line = []" by (subst line_words.simps) (simp add: ys_def)
    moreover have "mon_args argv buf p = Some (argv, as @ replicate (length ws) 0 @ 0 # junk)"
      using g True by (subst mon_args.simps) (simp add: at_def nth_append)
    moreover have "hd (replicate (length ws) 0 @ 0 # junk) = (0 :: byte)" by (cases ws) auto
    ultimately show ?thesis using 1(4) by simp
  next
    case False
    have lw: "line_words line = w # line_words zs"
      using False by (subst line_words.simps) (simp add: ys_def w_def zs_def Let_def)
    have "ys ! 0 \<noteq> 0" using False 1(3) l(1) by (metis Un_iff length_greater_0_conv nth_mem set_append)
    then have ne: "at (?as @ ys @ 0 # junk) (length ?as) \<noteq> 0" using False by (auto simp: at_def nth_append)
    obtain d r where d: "zs @ 0 # junk = d # r" "d = 0 \<or> white d"
      using span_char [of "\<lambda>c. \<not> white c" ys junk] by (auto simp: zs_def)
    have sk: "skip_arg (?as @ ys @ 0 # junk) (length ?as) = length (?as @ w)"
      using skip_arg_run [OF ws(2) z(2) d(2), of ?as r] d(1) l by simp
    have m: "mon_args argv buf p = (if length argv = 15 then None
        else mon_args (argv @ [length ?as]) (?as @ ys @ 0 # junk) (length (?as @ w)))"
      using g sk ne by (subst mon_args.simps) (simp add: MAXARGS_j_def)
    have b: "?as @ ys @ 0 # junk = (?as @ w) @ zs @ 0 # junk" using l by simp
    show ?thesis
    proof (cases "length argv = 15")
      case True
      then show ?thesis using m lw by simp
    next
      case ne: False
      note ih = 1(1) [OF ys_def False, folded zs_def, OF b z(3), of "argv @ [length ?as]" "length (?as @ w)"]
      show ?thesis
      proof (cases "length argv + length (line_words line) \<le> 15")
        case True
        then obtain qs bs where r: "mon_args (argv @ [length ?as]) (?as @ ys @ 0 # junk) (length (?as @ w)) =
            Some ((argv @ [length ?as]) @ qs, (?as @ w) @ bs)" "map (\<lambda>q. cstr_at ((?as @ w) @ bs) q) qs = line_words zs"
            "zs = [] \<or> white (hd zs) \<longrightarrow> bs \<noteq> [] \<and> hd bs = 0"
          using ih lw ne 1(4) by auto
        have "zs = [] \<or> white (hd zs)" using hd_dropWhile [of "\<lambda>c. \<not> white c" ys] by (auto simp: zs_def)
        then obtain cs where "bs = 0 # cs" using r(3) by (cases bs) auto
        then have "cstr_at ((?as @ w) @ bs) (length ?as) = w" using z(2) by (simp add: cstr_at_def takeWhile_to_0)
        moreover have "line = [] \<or> white (hd line) \<Longrightarrow> ws \<noteq> []" using first False by simp
        then have "line = [] \<or> white (hd line) \<longrightarrow> hd (replicate (length ws) 0 @ w @ bs) = 0" by (cases ws) auto
        ultimately show ?thesis using True m ne r lw False l
          by (intro if_P [THEN iffD2] exI [of _ "length ?as # qs"] exI [of _ "replicate (length ws) 0 @ w @ bs"]) auto
      next
        case tm: False
        then show ?thesis using ih m ne lw 1(4) by simp
      qed
    qed
  qed
qed

section \<open>Running a line\<close>

definition mon_dispatch :: "kernel_image \<Rightarrow> byte list list \<Rightarrow> joscons \<Rightarrow> (int, joscons) outcome" where
  "mon_dispatch k ws s =
     (if 15 < length ws then rbind (jprintf (k_mem k) (str_bytes ''Too many arguments (max %d)'' @ [10]) [16] s) (\<lambda>_ s. Ret 0 s)
      else case ws of [] \<Rightarrow> Ret 0 s
      | w # _ \<Rightarrow> (case map_of (map (\<lambda>(n, d, f). (n, f)) commands) w of
            Some f \<Rightarrow> mon_call k f s
          | None \<Rightarrow> Ret 0 (cputs (str_bytes ''Unknown command '' @ [39] @ w @ [39, 10]) s)))"

lemma find_map_of:
  "(case find (\<lambda>(n, d, f). w = n) xs of Some (n, d, f) \<Rightarrow> g f | None \<Rightarrow> h) =
   (case map_of (map (\<lambda>(n, d, f). (n, f)) xs) w of Some f \<Rightarrow> g f | None \<Rightarrow> h)"
  by (induction xs) auto

lemma mon_runcmd_words:
  assumes "0 \<notin> set line"
  shows "mon_runcmd k (line @ 0 # junk) s = mon_dispatch k (line_words line) s"
proof (cases "length (line_words line) \<le> 15")
  case True
  then obtain qs bs where m: "mon_args [] (line @ 0 # junk) 0 = Some (qs, bs)" "map (\<lambda>q. cstr_at bs q) qs = line_words line"
    using mon_args_words [of "line @ 0 # junk" "[]" line junk "[]" 0] assms by auto
  show ?thesis
  proof (cases qs)
    case Nil
    then show ?thesis using m True by (simp add: mon_runcmd_def mon_dispatch_def)
  next
    case (Cons q qs')
    then have "line_words line = cstr_at bs q # map (\<lambda>q. cstr_at bs q) qs'" using m(2) by simp
    then show ?thesis using m True Cons find_map_of [where w = "cstr_at bs q" and g = "\<lambda>f. mon_call k f s"] by (simp add: mon_runcmd_def mon_dispatch_def)
  qed
next
  case False
  then have "mon_args [] (line @ 0 # junk) 0 = None"
    using mon_args_words [of "line @ 0 # junk" "[]" line junk "[]" 0] assms by simp
  then show ?thesis using False by (simp add: mon_runcmd_def mon_dispatch_def MAXARGS_j_def)
qed

text \<open>C37: from the keys to the command. When the keys of a line of printable characters and Enter are pressed, however
  the scan codes are spread over the polls of the keyboard, one turn of the JOS monitor reads exactly this line, cuts it
  into its words, the maximal runs of characters other than blanks, and runs the command whose name is the first word,
  or says that there is none, or that there are too many words; no character is left over.\<close>

theorem monitor_typed_line:
  assumes "typed_line xs s" "length buf = BUFLEN"
  shows "\<exists>t. monitor_turn k buf s = mon_dispatch k (line_words xs) t \<and> typing t \<and> pending t = []"
proof -
  have xs: "list_all printable xs" "length xs + 1 < CONSBUFSIZE" using assms(1) by (simp_all add: typed_line_def)
  then have n: "0 \<notin> set xs" "10 \<notin> set xs" "13 \<notin> set xs" by (auto simp: list_all_iff printable_def)
  obtain t junk where "readline (Some (str_bytes ''K> '')) buf s = Some (Some (fold jedit xs [] @ 0 # junk), t)" "typing t" "pending t = []"
    using readline_typing [of s xs 10 "[]" buf "Some (str_bytes ''K> '')"] typed_line_typing [OF assms(1)] assms(2) n by auto
  moreover have "fold jedit xs [] = xs" using jedit_printable [OF xs(1), of "[]"] xs(2) by (simp add: BUFLEN_def CONSBUFSIZE_def)
  ultimately show ?thesis using mon_runcmd_words [OF n(1), of k junk t] by (auto simp: monitor_turn_def)
qed

definition demo_jos :: "byte list \<Rightarrow> joscons" where
  "demo_jos xs = \<lparr>jshift = 0, kbd_in = [], serial_exists = True, ser_in = [], ser_out = [], lpt_out = [], crt_buf = (\<lambda>_. 0),
     crt_at = 0, crt_cursor = 0, cons_buf = (\<lambda>_. 0), cons_rpos = 510, cons_wpos = 510, reset_port = [],
     arrivals = map (\<lambda>d. ([(False, d)], [])) (type_line xs)\<rparr>"

lemma demo_jos_typed: "list_all printable xs \<Longrightarrow> length xs + 1 < CONSBUFSIZE \<Longrightarrow> typed_line xs (demo_jos xs)"
  by (simp add: typed_line_def demo_jos_def cons_ok_def cons_chars_def ring_len_def codes_def CONSBUFSIZE_def comp_def)

theorem monitor_typed_line_witness:
  "\<forall>k. \<exists>t u. monitor_turn k (replicate BUFLEN 0) (demo_jos (str_bytes ''help me'')) = mon_help t \<and> mon_help t = Ret 0 u"
proof
  fix k
  have w: "line_words (str_bytes ''help me'') = [str_bytes ''help'', str_bytes ''me'']" by code_simp
  have p: "list_all printable (str_bytes ''help me'')" "length (str_bytes ''help me'') + 1 < CONSBUFSIZE"
    by (simp_all add: printable_def str_bytes_def CONSBUFSIZE_def)
  obtain t where "monitor_turn k (replicate BUFLEN 0) (demo_jos (str_bytes ''help me'')) = mon_dispatch k [str_bytes ''help'', str_bytes ''me''] t"
    using monitor_typed_line [OF demo_jos_typed [OF p], of "replicate BUFLEN 0" k] by (auto simp: w)
  moreover have "mon_dispatch k [str_bytes ''help'', str_bytes ''me''] t = mon_help t"
    by (simp add: mon_dispatch_def commands_def mon_call_def)
  moreover have "\<exists>u. mon_help t = Ret 0 u" by (simp add: mon_help_def commands_def)
  ultimately show "\<exists>t u. monitor_turn k (replicate BUFLEN 0) (demo_jos (str_bytes ''help me'')) = mon_help t \<and> mon_help t = Ret 0 u"
    by metis
qed

end
