(* ===== verification/Jos_Screen.thy ===== *)
theory Jos_Screen
  imports Jos_Monitor_Props Printf_Props
begin

text \<open>The screen of the JOS console: the position of the cursor and the cells that are written.\<close>

definition on_screen :: "joscons \<Rightarrow> bool" where
  "on_screen s \<longleftrightarrow> unat (crt_at s) < CRT_SIZE"

definition cells_kept :: "joscons \<Rightarrow> joscons \<Rightarrow> bool" where
  "cells_kept s t \<longleftrightarrow> (\<forall>i \<ge> CRT_SIZE. crt_buf t i = crt_buf s i)"

lemma cells_kept_trans: "cells_kept s t \<Longrightarrow> cells_kept t u \<Longrightarrow> cells_kept s u"
  by (simp add: cells_kept_def)

lemma unat16_plus: "unat (p :: u16) + k < 2 ^ 16 \<Longrightarrow> unat (p + of_nat k) = unat p + k"
proof -
  assume a: "unat p + k < 2 ^ 16"
  have "p + of_nat k = of_nat (unat p + k)" by simp
  then show ?thesis using a by (simp only: unsigned_of_nat) (simp add: take_bit_nat_eq_self)
qed

lemma CRT_values: "CRT_SIZE = 2000" "CRT_COLS = 80" "CRT_ROWS = 25"
  by (simp_all add: CRT_SIZE_def CRT_COLS_def CRT_ROWS_def)

lemma unat_row: "unat (p - p mod 80 :: u16) \<le> unat p"
proof -
  have "p mod 80 \<le> p" by (simp add: word_le_nat_alt unat_mod_distrib)
  then show ?thesis by (simp add: unat_sub)
qed

lemma cga_switch_cells:
  assumes "on_screen s"
  shows "unat (crt_at (cga_switch c s)) \<le> unat (crt_at s) + 80" "cells_kept s (cga_switch c s)"
proof -
  let ?p = "crt_at s"
  have p: "unat ?p < 2000" using assms by (simp add: on_screen_def CRT_values)
  have 1: "unat (?p + 1) = unat ?p + 1" "unat (?p + 80) = unat ?p + 80"
    using unat16_plus [of ?p 1] unat16_plus [of ?p 80] p by simp_all
  have 2: "unat (?p - 1) < 2000" "unat (?p - 1) \<le> unat ?p" if "0 < ?p"
    using that p by (simp_all add: unat_minus_one word_gt_0)
  show "unat (crt_at (cga_switch c s)) \<le> unat ?p + 80"
    using 1 2 unat_row [of ?p] unat_row [of "?p + 80"] by (auto simp: cga_switch_def Let_def CRT_values)
  show "cells_kept s (cga_switch c s)"
    using 2 p by (auto simp: cga_switch_def Let_def CRT_values cells_kept_def)
qed

lemma cga_finish_cells:
  assumes "unat (crt_at s) < CRT_SIZE + 80"
  shows "on_screen (cga_finish s)" "cells_kept s (cga_finish s)"
proof -
  have "of_nat CRT_SIZE \<le> crt_at s \<longleftrightarrow> 2000 \<le> unat (crt_at s)" by (simp add: CRT_values word_le_nat_alt)
  moreover have "unat (crt_at s - 80) = unat (crt_at s) - 80" if "2000 \<le> unat (crt_at s)"
    using that by (intro unat_sub [of 80 "crt_at s", simplified]) (simp add: word_le_nat_alt)
  ultimately show "on_screen (cga_finish s)" "cells_kept s (cga_finish s)"
    using assms by (auto simp: on_screen_def cells_kept_def cga_finish_def Let_def CRT_values)
qed

text \<open>The bytes that a character sends to the serial port: a tab is followed by the five blanks it moves the cursor by.\<close>

definition echo :: "u32 \<Rightarrow> byte list" where
  "echo c = ucast c # (if c AND 0xFF = 9 then replicate 5 32 else [])"

lemma ports_frame [simp]:
  "on_screen (lpt_putc c (serial_putc c s)) = on_screen s" "cells_kept s (lpt_putc c (serial_putc c s))"
  "crt_at (lpt_putc c (serial_putc c s)) = crt_at s" "ser_out (lpt_putc c (serial_putc c s)) = ser_out s @ [ucast c]"
  "ser_out (cga_finish s) = ser_out s" "ser_out (cga_switch c s) = ser_out s"
  by (simp_all add: on_screen_def cells_kept_def lpt_putc_def serial_putc_def cga_finish_def cga_switch_def Let_def)

lemma cga_char_ok:
  assumes "on_screen s"
  shows "on_screen (cga_finish (cga_switch c s))" "cells_kept s (cga_finish (cga_switch c s))"
proof -
  have "unat (crt_at (cga_switch c s)) < CRT_SIZE + 80"
    using cga_switch_cells(1) [OF assms, of c] assms by (simp add: on_screen_def)
  from cga_finish_cells [OF this] show "on_screen (cga_finish (cga_switch c s))" "cells_kept s (cga_finish (cga_switch c s))"
    using cells_kept_trans [OF cga_switch_cells(2) [OF assms]] by blast+
qed

definition prints :: "byte list \<Rightarrow> joscons \<Rightarrow> joscons \<Rightarrow> bool" where
  "prints xs s t \<longleftrightarrow> on_screen t \<and> cells_kept s t \<and> ser_out t = ser_out s @ xs"

lemma prints_trans: "prints xs s t \<Longrightarrow> prints ys t u \<Longrightarrow> prints (xs @ ys) s u"
  by (auto simp: prints_def intro: cells_kept_trans)

lemma cons_space_ok: "on_screen s \<Longrightarrow> prints [32] s (cons_space s)"
  using cga_char_ok [of "lpt_putc 32 (serial_putc 32 s)" 32] cells_kept_trans [OF ports_frame(2) [of s 32]]
  by (auto simp: prints_def cons_space_def)

lemma cons_spaces_ok: "on_screen s \<Longrightarrow> prints (replicate n 32) s ((cons_space ^^ n) s)"
proof (induction n)
  case (Suc n)
  then have "prints [32] ((cons_space ^^ n) s) ((cons_space ^^ Suc n) s)" using cons_space_ok by (simp add: prints_def)
  then show ?case using prints_trans [OF Suc.IH [OF Suc.prems]] by (simp add: replicate_append_same [symmetric])
qed (simp add: prints_def cells_kept_def)

lemma cons_putc_ok:
  assumes "on_screen s"
  shows "prints (echo c) s (cons_putc c s)"
proof -
  let ?t = "lpt_putc c (serial_putc c s)"
  have t: "prints [ucast c] s ?t" using assms by (simp add: prints_def)
  then have o: "on_screen ?t" by (simp add: prints_def)
  show ?thesis
  proof (cases "c AND 0xFF = 9")
    case True
    let ?u = "(cons_space ^^ 5) ?t"
    have u: "prints (replicate 5 32) ?t ?u" by (rule cons_spaces_ok [OF o])
    then have "unat (crt_at ?u) < CRT_SIZE + 80" by (simp add: prints_def on_screen_def)
    then have "prints [] ?u (cga_finish ?u)" using cga_finish_cells by (simp add: prints_def)
    from prints_trans [OF t prints_trans [OF u this]] show ?thesis
      using True by (simp add: cons_putc_def cga_putc_def echo_def)
  next
    case False
    have "prints [] ?t (cga_finish (cga_switch c ?t))" using cga_char_ok [OF o, of c] by (simp add: prints_def)
    from prints_trans [OF t this] show ?thesis using False by (simp add: cons_putc_def cga_putc_def echo_def)
  qed
qed

lemma cons_putcs_ok: "on_screen s \<Longrightarrow> prints (concat (map echo xs)) s (fold cons_putc xs s)"
proof (induction xs arbitrary: s)
  case (Cons x xs)
  have "on_screen (cons_putc x s)" using cons_putc_ok [OF Cons.prems, of x] by (simp add: prints_def)
  from prints_trans [OF cons_putc_ok [OF Cons.prems] Cons.IH [OF this]] show ?case by simp
qed (simp add: prints_def cells_kept_def)

text \<open>C39: formatted output of JOS on the console. Whatever is printed, from whatever memory the \<open>%s\<close> conversions read
  their strings, and wherever the cursor is on the screen, the cursor ends on the screen and no cell behind its 25 rows is
  written, also when the text scrolls, tabs or backs up; the serial port gets the characters in order, a tab followed by
  five blanks.\<close>

theorem jprintf_on_screen:
  assumes "on_screen s" "vprintfmt (\<lambda>c xs. xs @ [c]) m fmt ap [] = Some xs"
  shows "\<exists>t. jprintf m fmt ap s = Ret () t \<and> unat (crt_at t) < CRT_ROWS * CRT_COLS \<and>
    (\<forall>i \<ge> CRT_ROWS * CRT_COLS. crt_buf t i = crt_buf s i) \<and> ser_out t = ser_out s @ concat (map echo xs)"
proof -
  have "vprintfmt cons_putc m fmt ap s = Some (fold cons_putc xs s)"
    using assms(2) unfolding vprintfmt_snoc [of _ fmt ap "[]"] vprintfmt_out [of cons_putc] by auto
  then show ?thesis using cons_putcs_ok [OF assms(1), of xs]
    by (simp add: jprintf_def prints_def on_screen_def cells_kept_def CRT_SIZE_def)
qed

text \<open>\<open>%s\<close>, a tab and \<open>%d\<close>, with the string \<open>hi\<close> at address 100.\<close>

theorem jprintf_on_screen_witness:
  "\<exists>t. jprintf ((\<lambda>_. 0)(100 := 104, 101 := 105)) [37, 115, 9, 37, 100] [100, 42] (demo_jos []) = Ret () t \<and>
    ser_out t = [104, 105, 9, 32, 32, 32, 32, 32, 52, 50]"
proof -
  let ?m = "(\<lambda>_. 0)(100 := 104, 101 := 105) :: mem"
  have d: "digs 10 42 = [4, 2]" by (simp add: digs.simps)
  have "str_arg ?m 100 (-1) = Some [104, 105]" by (simp add: str_arg_def strlen_def strlen_loop.simps bytes_def upt_rec)
  then have 1: "convert (\<lambda>c xs. xs @ [c]) ?m fspec0 115 [100, 42] [] = Some (Some ([104, 105], [42]))"
    unfolding convert_def out_eqs by (simp add: fspec0_def va_arg_def str_out_def)
  have 2: "convert (\<lambda>c xs. xs @ [c]) ?m fspec0 100 [42] ys = Some (Some (ys @ [52, 50], []))" for ys
    unfolding convert_def out_eqs
    by (simp add: fspec0_def getint_def va_arg_def num_out_def d fold_snoc digit_char_def)
  have v: "vprintfmt (\<lambda>c xs. xs @ [c]) ?m [37, 115, 9, 37, 100] [100, 42] [] = Some [104, 105, 9, 52, 50]"
    using 1 2 by simp
  have o: "on_screen (demo_jos [])" "ser_out (demo_jos []) = []" by (simp_all add: demo_jos_def on_screen_def CRT_values)
  have "concat (map echo [104, 105, 9, 52, 50]) = [104, 105, 9, 32, 32, 32, 32, 32, 52, 50]" by code_simp
  then show ?thesis using jprintf_on_screen [OF o(1) v] o(2) by auto
qed

end
