(* ===== verification/Uprogs.thy ===== *)
theory Uprogs
  imports Console Grep
begin

text \<open>printf.c and wc.c, user programs. Output is the list of the bytes that \<open>write\<close> is called with.\<close>

section \<open>printf\<close>

definition u_digits :: "byte list" where "u_digits = str_bytes ''0123456789ABCDEF''"

function u_printint_digits :: "u32 \<Rightarrow> u32 \<Rightarrow> byte list" where
  "u_printint_digits x base =
     u_digits ! unat (x mod base) # (if base \<le> 1 \<or> x div base = 0 then [] else u_printint_digits (x div base) base)"
  by pat_completeness auto
termination
proof (relation "measure (\<lambda>(x, base). unat x)", goal_cases)
  case (2 x base)
  then have "1 < unat base" by (auto simp: not_le word_less_nat_alt)
  moreover have "x \<noteq> 0" using 2 by auto
  then have "0 < unat x" by (simp add: unat_gt_0)
  ultimately show ?case by (simp add: unat_div_distrib)
qed simp

declare u_printint_digits.simps [simp del]

definition u_printint :: "u32 \<Rightarrow> u32 \<Rightarrow> bool \<Rightarrow> byte list" where
  "u_printint xx base sg =
     (let neg = (sg \<and> sint xx < 0); x = (if neg then - xx else xx) in
      rev (u_printint_digits x base @ (if neg then [45] else [])))"

text \<open>The loop over the format; the flag is \<open>state\<close>, set after a percent sign. \<open>None\<close>: an argument that was not passed,
  or a string without its NUL.\<close>

fun u_printf :: "mem \<Rightarrow> byte list \<Rightarrow> bool \<Rightarrow> u32 list \<Rightarrow> byte list option" where
  "u_printf m [] st ap = Some []"
| "u_printf m (c # fmt) st ap =
     (if \<not> st then
        if c = 37 then u_printf m fmt True ap else map_option (\<lambda>xs. c # xs) (u_printf m fmt False ap)
      else if c = 100 then
        (case ap of [] \<Rightarrow> None | a # ap \<Rightarrow> map_option (\<lambda>xs. u_printint a 10 True @ xs) (u_printf m fmt False ap))
      else if c = 120 \<or> c = 112 then
        (case ap of [] \<Rightarrow> None | a # ap \<Rightarrow> map_option (\<lambda>xs. u_printint a 16 False @ xs) (u_printf m fmt False ap))
      else if c = 115 then
        (case ap of [] \<Rightarrow> None | a # ap \<Rightarrow>
           Option.bind (str_arg m a (-1)) (\<lambda>ys. map_option (\<lambda>xs. ys @ xs) (u_printf m fmt False ap)))
      else if c = 99 then
        (case ap of [] \<Rightarrow> None | a # ap \<Rightarrow> map_option (\<lambda>xs. ucast a # xs) (u_printf m fmt False ap))
      else if c = 37 then map_option (\<lambda>xs. 37 # xs) (u_printf m fmt False ap)
      else map_option (\<lambda>xs. 37 # c # xs) (u_printf m fmt False ap))"

text \<open>Without \<open>%c\<close>, which only the user library has, it prints what \<open>cprintf\<close> of the kernel prints, but with capital
  hexadecimal digits.\<close>

definition upcase :: "byte \<Rightarrow> byte" where
  "upcase c = (if 97 \<le> c \<and> c \<le> 102 then c - 32 else c)"

fun no_char :: "byte list \<Rightarrow> bool" where
  "no_char [] = True"
| "no_char (c # fmt) = (case fmt of [] \<Rightarrow> True | d # ds \<Rightarrow> if c = 37 then d \<noteq> 99 \<and> no_char ds else no_char fmt)"

lemma digit_upcase: "d < 16 \<Longrightarrow> upcase (hex_digits ! d) = u_digits ! d \<and> upcase (u_digits ! d) = u_digits ! d"
proof -
  have "list_all (\<lambda>d. upcase (hex_digits ! d) = u_digits ! d \<and> upcase (u_digits ! d) = u_digits ! d) [0..<16]" by code_simp
  then show "d < 16 \<Longrightarrow> upcase (hex_digits ! d) = u_digits ! d \<and> upcase (u_digits ! d) = u_digits ! d" by (simp add: list_all_iff)
qed

lemma digits_upcase:
  assumes "0 < unat base" "unat base \<le> 16"
  shows "map upcase (printint_digits x base) = u_printint_digits x base \<and> map upcase (u_printint_digits x base) = u_printint_digits x base"
  using assms
proof (induction x base rule: u_printint_digits.induct)
  case (1 x base)
  have "unat (x mod base) < 16" using 1(2,3) by (simp add: unat_mod_distrib) (meson mod_less_divisor less_le_trans)
  note d = digit_upcase [OF this]
  show ?case using 1 d by (subst printint_digits.simps, subst (1 2 3) u_printint_digits.simps) auto
qed

lemma printint_upcase:
  assumes "base = 10 \<or> base = 16"
  shows "map upcase (printint x base sg) = u_printint x base sg" "map upcase (u_printint x base sg) = u_printint x base sg"
proof -
  have b: "0 < unat base" "unat base \<le> 16" using assms by auto
  have "upcase 45 = 45" by (simp add: upcase_def)
  then show "map upcase (printint x base sg) = u_printint x base sg" "map upcase (u_printint x base sg) = u_printint x base sg"
    using digits_upcase [OF b] by (simp_all add: printint_def u_printint_def Let_def flip: rev_map)
qed

abbreviation same_up :: "byte list option \<Rightarrow> byte list option \<Rightarrow> bool" where
  "same_up a b \<equiv> map_option (map upcase) a = map_option (map upcase) b"

lemma same_up_intros:
  "same_up a b \<Longrightarrow> same_up (map_option (\<lambda>xs. c # xs) a) (map_option (\<lambda>xs. c # xs) b)"
  "same_up a b \<Longrightarrow> same_up (map_option (\<lambda>xs. c # d # xs) a) (map_option (\<lambda>xs. c # d # xs) b)"
  "same_up a b \<Longrightarrow> map upcase ys = map upcase zs \<Longrightarrow> same_up (map_option (\<lambda>xs. ys @ xs) a) (map_option (\<lambda>xs. zs @ xs) b)"
  "same_up a b \<Longrightarrow> same_up (Option.bind r (\<lambda>ys. map_option (\<lambda>xs. ys @ xs) a)) (Option.bind r (\<lambda>ys. map_option (\<lambda>xs. ys @ xs) b))"
  by (cases a; cases b; cases r; simp)+

text \<open>C33: the formatted output of the user programs and that of the kernel agree. For every format without \<open>%c\<close>, which
  the kernel does not know, and all arguments, \<open>printf\<close> writes what \<open>cprintf\<close> prints, up to the case of hexadecimal
  digits; one is undefined exactly when the other is.\<close>

theorem u_printf_cprintf:
  assumes "no_char fmt"
  shows "map_option (map upcase) (u_printf m fmt False ap) = map_option (map upcase) (cprintf_out m fmt ap)"
  using assms
proof (induction "length fmt" arbitrary: fmt ap rule: less_induct)
  case less
  show ?case
  proof (cases fmt)
    case (Cons c fmt')
    note IH = less.hyps
    show ?thesis
    proof (cases "c = 37")
      case False
      then have "no_char fmt'" using less.prems Cons by (cases fmt') simp_all
      then have "same_up (u_printf m fmt' False ap) (cprintf_out m fmt' ap)" by (rule IH [rotated]) (simp add: Cons)
      from same_up_intros(1) [OF this] show ?thesis using False Cons by simp
    next
      case True
      show ?thesis
      proof (cases fmt')
        case (Cons d ds)
        then have d: "d \<noteq> 99" "no_char ds" using True less.prems \<open>fmt = c # fmt'\<close> by simp_all
        then have "same_up (u_printf m ds False ap) (cprintf_out m ds ap)" for ap using IH Cons \<open>fmt = c # fmt'\<close> by simp
        note i = same_up_intros [OF this]
        show ?thesis using d Cons True \<open>fmt = c # fmt'\<close> printint_upcase [of 10] printint_upcase [of 16]
          by (cases ap) (auto intro: i)
      qed (use True \<open>fmt = c # fmt'\<close> in simp)
    qed
  qed simp
qed

theorem u_printf_cprintf_witness:
  "map_option (map upcase) (u_printf (\<lambda>_. 0) [37, 120] False [171]) = Some [65, 66] \<and>
   cprintf_out (\<lambda>_. 0) [37, 120] [171] = Some [97, 98]"
proof
  have "printint 171 16 False = [97, 98]" by code_simp
  then show c: "cprintf_out (\<lambda>_. 0) [37, 120] [171] = Some [97, 98]" by simp
  show "map_option (map upcase) (u_printf (\<lambda>_. 0) [37, 120] False [171]) = Some [65, 66]"
    using u_printf_cprintf [of "[37, 120]" "\<lambda>_. 0" "[171]"] unfolding c by (simp add: upcase_def)
qed

section \<open>wc\<close>

record counts =
  wc_l :: u32
  wc_w :: u32
  wc_c :: u32
  inword :: bool

definition wc_blank :: "byte \<Rightarrow> bool" where
  "wc_blank c \<longleftrightarrow> c \<in> {32, 13, 9, 10, 11}"

definition wc_char :: "byte \<Rightarrow> counts \<Rightarrow> counts" where
  "wc_char c k =
     (let k = k\<lparr>wc_c := wc_c k + 1\<rparr>;
          k = (if c = 10 then k\<lparr>wc_l := wc_l k + 1\<rparr> else k) in
      if wc_blank c then k\<lparr>inword := False\<rparr>
      else if \<not> inword k then k\<lparr>wc_w := wc_w k + 1, inword := True\<rparr> else k)"

function wc_loop :: "counts \<Rightarrow> byte list list \<Rightarrow> counts" where
  "wc_loop k inp = (let (x, inp') = u_read 512 inp in if x = [] then k else wc_loop (fold wc_char x k) inp')"
  by pat_completeness auto
termination
proof (relation "measure (\<lambda>(k, inp). length (concat inp))", goal_cases)
  case (2 k inp y x inp')
  then have "concat inp = x @ concat inp'" using u_read_total by metis
  then show ?case using 2 by simp
qed simp

declare wc_loop.simps [simp del]

definition wc :: "byte list list \<Rightarrow> u32 \<times> u32 \<times> u32" where
  "wc inp = (let k = wc_loop \<lparr>wc_l = 0, wc_w = 0, wc_c = 0, inword = False\<rparr> inp in (wc_l k, wc_w k, wc_c k))"

text \<open>The words of a text: what is left of it between the blanks.\<close>

fun pieces :: "byte list \<Rightarrow> byte list list" where
  "pieces [] = [[]]"
| "pieces (c # cs) = (if wc_blank c then [] # pieces cs else (c # hd (pieces cs)) # tl (pieces cs))"

definition words :: "byte list \<Rightarrow> byte list list" where
  "words xs = filter (\<lambda>w. w \<noteq> []) (pieces xs)"

lemma pieces_not_Nil [simp]: "pieces xs \<noteq> []"
  by (cases xs) simp_all

lemma wc_fold:
  "wc_l (fold wc_char xs k) = wc_l k + of_nat (count_list xs 10)" "wc_c (fold wc_char xs k) = wc_c k + of_nat (length xs)"
  "wc_w (fold wc_char xs k) = wc_w k + of_nat (length (filter (\<lambda>w. w \<noteq> []) ((if inword k then tl else id) (pieces xs))))"
proof (induction xs arbitrary: k)
  case (Cons c xs)
  { case 1 then show ?case using Cons.IH(1) [of "wc_char c k"] by (auto simp: wc_char_def Let_def) }
  { case 2 then show ?case using Cons.IH(2) [of "wc_char c k"] by (auto simp: wc_char_def Let_def) }
  { case 3
    obtain h t where p: "pieces xs = h # t" by (cases "pieces xs") auto
    have n: "wc_blank 10" by (simp add: wc_blank_def)
    show ?case using Cons.IH(3) [of "wc_char c k"] p n by (cases "wc_blank c"; cases "inword k") (auto simp: wc_char_def Let_def) }
qed simp_all

lemma wc_loop_fold: "[] \<notin> set inp \<Longrightarrow> wc_loop k inp = fold wc_char (concat inp) k"
proof (induction k inp rule: wc_loop.induct)
  case (1 k inp)
  obtain x inp' where r: "u_read 512 inp = (x, inp')" by fastforce
  then have c: "concat inp = x @ concat inp'" by (rule u_read_total)
  show ?case
  proof (cases inp)
    case Nil
    then show ?thesis by (subst wc_loop.simps) simp
  next
    case (Cons y ys)
    then have "x \<noteq> []" "[] \<notin> set inp'" using r 1(2) by (auto split: if_splits)
    then show ?thesis using 1(1) [OF r [symmetric] refl] r c by (subst wc_loop.simps) simp
  qed
qed

text \<open>\<open>wc\<close> counts the newlines, the words and the bytes of its input, where a word is a longest run of characters
  that are not blank, however the input is cut into pieces by the reads; a word that two reads share counts once.
  The counts are 32-bit integers.\<close>

theorem wc_counts:
  assumes "[] \<notin> set inp"
  shows "wc inp = (of_nat (count_list (concat inp) 10), of_nat (length (words (concat inp))), of_nat (length (concat inp)))"
  unfolding wc_def wc_loop_fold [OF assms] by (simp add: Let_def wc_fold words_def)

theorem wc_counts_witness: "wc [[104, 105, 32, 121], [111, 10]] = (1, 2, 6)"
  using wc_counts [of "[[104, 105, 32, 121], [111, 10]]"] by (simp add: words_def wc_blank_def)

end
