(* ===== verification/Mkfs.thy ===== *)
theory Mkfs
  imports Fs_Props Fs_Rw Ide
begin

text \<open>
  mkfs.c, the program of the host that builds the file system image. The image is the list of its sectors; \<open>None\<close> is an
  exit with an error: an assertion that fails, or a read behind the end of the image. The other calls of the host system
  succeed. The files to put into the image are an argument: the name on the command line, and the bytes.
\<close>

definition NINODES :: nat where "NINODES = 200"
definition nbitmap :: nat where "nbitmap = unat FSSIZE div (BSIZE * 8) + 1"
definition ninodeblocks :: nat where "ninodeblocks = NINODES div IPB + 1"
definition nlog :: nat where "nlog = LOGSIZE"
definition nmeta :: nat where "nmeta = 2 + nlog + ninodeblocks + nbitmap"

definition xshort :: "u16 \<Rightarrow> u16" where
  "xshort x = get16 [ucast x, ucast (drop_bit 8 x)]"

definition xint :: "u32 \<Rightarrow> u32" where
  "xint x = get32 [ucast x, ucast (drop_bit 8 x), ucast (drop_bit 16 x), ucast (drop_bit 24 x)]"

definition mk_sb :: superblock where
  "mk_sb = \<lparr>sb_size = xint FSSIZE, sb_nblocks = xint (FSSIZE - of_nat nmeta), sb_ninodes = xint (of_nat NINODES),
     sb_nlog = xint (of_nat nlog), sb_logstart = xint 2, sb_inodestart = xint (of_nat (2 + nlog)),
     sb_bmapstart = xint (of_nat (2 + nlog + ninodeblocks))\<rparr>"

definition sb_bytes :: "superblock \<Rightarrow> byte list" where
  "sb_bytes b = le32 (sb_size b) @ le32 (sb_nblocks b) @ le32 (sb_ninodes b) @ le32 (sb_nlog b) @ le32 (sb_logstart b) @
     le32 (sb_inodestart b) @ le32 (sb_bmapstart b)"

record mkfs =
  mk_img :: "block list"
  freeinode :: u32
  freeblock :: u32

section \<open>Sectors and inodes\<close>

text \<open>A sector that is written behind the end of the image extends it; the gap reads as zeros.\<close>

definition wsect :: "u32 \<Rightarrow> block \<Rightarrow> mkfs \<Rightarrow> mkfs" where
  "wsect sec buf s =
     (let img = mk_img s @ replicate (Suc (unat sec) - length (mk_img s)) zeros in s\<lparr>mk_img := img[unat sec := buf]\<rparr>)"

definition rsect :: "u32 \<Rightarrow> mkfs \<Rightarrow> block option" where
  "rsect sec s = (if unat sec < length (mk_img s) then Some (mk_img s ! unat sec) else None)"

definition winode :: "u32 \<Rightarrow> dinode \<Rightarrow> mkfs \<Rightarrow> mkfs option" where
  "winode inum ip s =
     (let bn = IBLOCK inum mk_sb in
      Option.bind (rsect bn s) (\<lambda>buf. Some (wsect bn (put_dinode buf (unat inum mod IPB) ip) s)))"

definition rinode :: "u32 \<Rightarrow> mkfs \<Rightarrow> dinode option" where
  "rinode inum s = Option.bind (rsect (IBLOCK inum mk_sb) s) (\<lambda>buf. Some (get_dinode buf (unat inum mod IPB)))"

definition mk_ialloc :: "u16 \<Rightarrow> mkfs \<Rightarrow> (u32 \<times> mkfs) option" where
  "mk_ialloc ty s =
     (let inum = freeinode s;
          din = \<lparr>d_type = xshort ty, d_major = 0, d_minor = 0, d_nlink = xshort 1, d_size = xint 0,
            d_addrs = replicate (NDIRECT + 1) 0\<rparr> in
      Option.bind (winode inum din (s\<lparr>freeinode := inum + 1\<rparr>)) (\<lambda>s. Some (inum, s)))"

section \<open>Appending to a file\<close>

definition take_block :: "mkfs \<Rightarrow> u32 \<times> mkfs" where
  "take_block s = (freeblock s, s\<lparr>freeblock := freeblock s + 1\<rparr>)"

text \<open>The block of the file that holds the block number \<open>fbn\<close>, allocated if there is none.\<close>

definition file_block :: "nat \<Rightarrow> dinode \<Rightarrow> mkfs \<Rightarrow> (u32 \<times> dinode \<times> mkfs) option" where
  "file_block fbn din s =
     (if fbn < NDIRECT then
        let (din, s) =
              (if xint (d_addrs din ! fbn) = 0 then
                 case take_block s of (a, s) \<Rightarrow> (din\<lparr>d_addrs := (d_addrs din)[fbn := xint a]\<rparr>, s)
               else (din, s)) in
        Some (xint (d_addrs din ! fbn), din, s)
      else
        let (din, s) =
              (if xint (d_addrs din ! NDIRECT) = 0 then
                 case take_block s of (a, s) \<Rightarrow> (din\<lparr>d_addrs := (d_addrs din)[NDIRECT := xint a]\<rparr>, s)
               else (din, s)) in
        Option.bind (rsect (xint (d_addrs din ! NDIRECT)) s) (\<lambda>ind.
        let k = 4 * (fbn - NDIRECT);
            (ind, s) =
              (if at32 ind k = 0 then
                 case take_block s of (a, s) \<Rightarrow>
                   let ind = overwrite ind k (le32 (xint a)) in (ind, wsect (xint (d_addrs din ! NDIRECT)) ind s)
               else (ind, s)) in
        Some (xint (at32 ind k), din, s)))"

function iappend_loop :: "dinode \<Rightarrow> u32 \<Rightarrow> byte list \<Rightarrow> mkfs \<Rightarrow> (dinode \<times> u32 \<times> mkfs) option" where
  "iappend_loop din off p s =
     (if p = [] then Some (din, off, s)
      else
        let fbn = unat off div BSIZE in
        if MAXFILE \<le> fbn then None
        else
          Option.bind (file_block fbn din s) (\<lambda>(x, din, s).
          let n1 = min (length p) ((fbn + 1) * BSIZE - unat off) in
          Option.bind (rsect x s) (\<lambda>buf.
          let s = wsect x (overwrite buf (unat off - fbn * BSIZE) (take n1 p)) s in
          iappend_loop din (off + of_nat n1) (drop n1 p) s)))"
  by pat_completeness auto
termination
proof (relation "measure (\<lambda>(din, off, p, s). length p)", goal_cases)
  case (2 din off p s fbn y x z din' s' n1 buf s'')
  have "unat off < (fbn + 1) * BSIZE" unfolding 2(2) by (simp add: BSIZE_def)
  then show ?case using 2 by simp
qed simp

declare iappend_loop.simps [simp del]

definition iappend :: "u32 \<Rightarrow> byte list \<Rightarrow> mkfs \<Rightarrow> mkfs option" where
  "iappend inum p s =
     Option.bind (rinode inum s) (\<lambda>din.
     Option.bind (iappend_loop din (xint (d_size din)) p s) (\<lambda>(din, off, s).
     winode inum (din\<lparr>d_size := xint off\<rparr>) s))"

definition mk_balloc :: "u32 \<Rightarrow> mkfs \<Rightarrow> mkfs option" where
  "mk_balloc n s =
     (if BSIZE * 8 \<le> unat n then None
      else Some (wsect (sb_bmapstart mk_sb)
        (fold (\<lambda>i buf. buf[i div 8 := buf ! (i div 8) OR push_bit (i mod 8) 1]) [0..<unat n] zeros) s))"

section \<open>The image\<close>

definition dirent_of :: "u32 \<Rightarrow> byte list \<Rightarrow> byte list" where
  "dirent_of inum nm = dirent_bytes \<lparr>de_inum = xshort (ucast inum), de_name = strncpy_bytes nm DIRSIZ\<rparr>"

text \<open>A file is copied in pieces of the size of the buffer.\<close>

function copy_file :: "u32 \<Rightarrow> byte list \<Rightarrow> mkfs \<Rightarrow> mkfs option" where
  "copy_file inum xs s =
     (if xs = [] then Some s else Option.bind (iappend inum (take BSIZE xs) s) (copy_file inum (drop BSIZE xs)))"
  by pat_completeness auto
termination by (relation "measure (\<lambda>(inum, xs, s). length xs)") (auto simp: BSIZE_def)

declare copy_file.simps [simp del]

definition add_file :: "u32 \<Rightarrow> byte list \<times> byte list \<Rightarrow> mkfs \<Rightarrow> mkfs option" where
  "add_file rootino f s =
     (if slash \<in> set (fst f) then None
      else
        let nm = (if fst f \<noteq> [] \<and> hd (fst f) = 95 then tl (fst f) else fst f) in
        Option.bind (mk_ialloc T_FILE s) (\<lambda>(inum, s).
        Option.bind (iappend rootino (dirent_of inum nm) s) (\<lambda>s.
        copy_file inum (snd f) s)))"

fun add_files :: "u32 \<Rightarrow> (byte list \<times> byte list) list \<Rightarrow> mkfs \<Rightarrow> mkfs option" where
  "add_files rootino [] s = Some s"
| "add_files rootino (f # fs) s = Option.bind (add_file rootino f s) (add_files rootino fs)"

text \<open>The size of the root directory is rounded up to the next multiple of the block size that is greater.\<close>

definition fix_root :: "u32 \<Rightarrow> mkfs \<Rightarrow> mkfs option" where
  "fix_root rootino s =
     Option.bind (rinode rootino s) (\<lambda>din.
     let off = xint (d_size din); off = (off div of_nat BSIZE + 1) * of_nat BSIZE in
     winode rootino (din\<lparr>d_size := xint off\<rparr>) s)"

definition mk_start :: mkfs where
  "mk_start =
     (let s = \<lparr>mk_img = [], freeinode = 1, freeblock = of_nat nmeta\<rparr>;
          s = fold (\<lambda>i. wsect (of_nat i) zeros) [0..<unat FSSIZE] s in
      wsect 1 (overwrite zeros 0 (sb_bytes mk_sb)) s)"

definition mkfs_main :: "(byte list \<times> byte list) list \<Rightarrow> mkfs option" where
  "mkfs_main files =
     Option.bind (mk_ialloc T_DIR mk_start) (\<lambda>(rootino, s).
     if rootino \<noteq> ROOTINO then None
     else
       Option.bind (iappend rootino (dirent_of rootino [46]) s) (\<lambda>s.
       Option.bind (iappend rootino (dirent_of rootino [46, 46]) s) (\<lambda>s.
       Option.bind (add_files rootino files s) (\<lambda>s.
       Option.bind (fix_root rootino s) (\<lambda>s.
       mk_balloc (freeblock s) s)))))"

end
