(* ===== verification/Mkfs_Laws.thy ===== *)
theory Mkfs_Laws
  imports Mkfs
begin

text \<open>The files that mkfs builds: the blocks of an inode that is being filled, what \<open>iappend\<close> does to them, and the image
  as the list of its files, on which every operation on the sectors is an operation.\<close>

section \<open>The image as a map\<close>

definition vw :: "mkfs \<Rightarrow> u32 \<Rightarrow> block" where
  "vw s b = (if unat b < length (mk_img s) then mk_img s ! unat b else zeros)"

definition img_ok :: "mkfs \<Rightarrow> bool" where
  "img_ok s \<longleftrightarrow> length (mk_img s) = 1000 \<and> (\<forall>b \<in> set (mk_img s). length b = BSIZE)"

lemma vw_length [simp]: "img_ok s \<Longrightarrow> length (vw s b) = BSIZE"
  by (simp add: vw_def img_ok_def)

lemma wsect_frame [simp]: "freeinode (wsect sec buf s) = freeinode s" "freeblock (wsect sec buf s) = freeblock s"
  by (simp_all add: wsect_def Let_def)

lemma wsect_view:
  assumes "img_ok s" "unat sec < 1000" "length buf = BSIZE"
  shows "vw (wsect sec buf s) = (vw s)(sec := buf)" "img_ok (wsect sec buf s)"
proof -
  have l: "length (mk_img s) = 1000" using assms(1) by (simp add: img_ok_def)
  have i: "mk_img (wsect sec buf s) = (mk_img s)[unat sec := buf]" using l assms(2) by (simp add: wsect_def Let_def)
  show "vw (wsect sec buf s) = (vw s)(sec := buf)"
    using l assms(2) by (auto simp: vw_def i fun_eq_iff nth_list_update word_unat_eq_iff)
  show "img_ok (wsect sec buf s)"
    using assms by (auto simp: img_ok_def i dest: set_update_subset_insert [THEN subsetD])
qed

lemma rsect_view: "img_ok s \<Longrightarrow> unat sec < 1000 \<Longrightarrow> rsect sec s = Some (vw s sec)"
  by (simp add: rsect_def vw_def img_ok_def)

lemma xint [simp]: "xint x = x"
  using get32_le32 [of x "[]"] by (simp add: xint_def le32_def)

lemma xshort [simp]: "xshort x = x"
  using get16_le16 [of x "[]"] by (simp add: xshort_def le16_def)

section \<open>The blocks of a file\<close>

text \<open>The first \<open>n\<close> bytes of a file: its blocks are there, no others, and no block is used twice.\<close>

definition mfile :: "(u32 \<Rightarrow> block) \<Rightarrow> u32 list \<Rightarrow> nat \<Rightarrow> bool" where
  "mfile v A n \<longleftrightarrow> length A = NDIRECT + 1 \<and> (\<forall>bn < MAXFILE. fblk v A bn \<noteq> 0 \<longleftrightarrow> bn * BSIZE < n) \<and>
     (A ! NDIRECT \<noteq> 0 \<longleftrightarrow> NDIRECT * BSIZE < n) \<and>
     (\<forall>bn < MAXFILE. fblk v A bn \<noteq> 0 \<longrightarrow> fblk v A bn \<noteq> A ! NDIRECT \<and>
        (\<forall>bm < MAXFILE. fblk v A bm = fblk v A bn \<longrightarrow> bm = bn))"

lemma fblk_frame: "(\<forall>b \<in> own v A. v' b = v b) \<or> (A ! NDIRECT \<noteq> 0 \<longrightarrow> v' (A ! NDIRECT) = v (A ! NDIRECT)) \<Longrightarrow> fblk v' A = fblk v A"
  by (auto simp: fblk_def own_def fun_eq_iff)

lemma own_frame: "fblk v' A = fblk v A \<Longrightarrow> own v' A = own v A"
  by (simp add: own_def)

lemma mfile_frame: "fblk v' A = fblk v A \<Longrightarrow> mfile v' A n = mfile v A n"
  by (simp add: mfile_def)

lemma block_count: "bn * BSIZE < m \<Longrightarrow> m \<le> (bn + 1) * BSIZE \<Longrightarrow> k * BSIZE < m \<longleftrightarrow> k \<le> (bn :: nat)"
  by (simp add: BSIZE_def) linarith

lemma mfile_again:
  assumes "mfile v A n" "bn * BSIZE < n" "n \<le> (bn + 1) * BSIZE" "bn * BSIZE < m" "m \<le> (bn + 1) * BSIZE"
  shows "mfile v A m"
  using assms(1) unfolding mfile_def block_count [OF assms(2,3)] block_count [OF assms(4,5)] .

lemma mfile_add:
  assumes f: "mfile v A (bn * BSIZE)" and bn: "bn < MAXFILE" and a: "a \<noteq> 0" "a \<notin> own v A" and len: "length A' = NDIRECT + 1"
    and blk: "\<And>bm. bm < MAXFILE \<Longrightarrow> fblk v' A' bm = (if bm = bn then a else fblk v A bm)"
    and ind: "A' ! NDIRECT \<noteq> a" "A' ! NDIRECT = A ! NDIRECT \<or> A ! NDIRECT = 0 \<and> A' ! NDIRECT \<notin> own v A"
      "A' ! NDIRECT \<noteq> 0 \<longleftrightarrow> NDIRECT \<le> bn"
    and m: "bn * BSIZE < m" "m \<le> (bn + 1) * BSIZE"
  shows "mfile v' A' m" "own v' A' = insert a (own v A) \<union> ({A' ! NDIRECT} - {0})"
proof -
  have z: "fblk v A bn = 0" using f bn unfolding mfile_def by (metis less_irrefl)
  have o: "fblk v A bm \<noteq> 0 \<Longrightarrow> bm < MAXFILE \<Longrightarrow> fblk v A bm \<in> own v A" for bm by (auto simp: own_def)
  have na: "bm < MAXFILE \<Longrightarrow> fblk v A bm \<noteq> a" for bm using o [of bm] a by auto
  have ni: "A' ! NDIRECT \<noteq> 0 \<Longrightarrow> bm < MAXFILE \<Longrightarrow> fblk v A bm \<noteq> A' ! NDIRECT" for bm
  proof (cases "fblk v A bm = 0")
    case False
    assume "bm < MAXFILE"
    then show ?thesis using False f o [of bm] ind(2) by (auto simp: mfile_def)
  qed simp
  show "mfile v' A' m"
    unfolding mfile_def block_count [OF m]
  proof (intro conjI allI impI)
    fix bm assume bm: "bm < MAXFILE"
    have "bm * BSIZE < bn * BSIZE \<longleftrightarrow> bm < bn" by simp
    then show "(fblk v' A' bm \<noteq> 0) = (bm \<le> bn)" using f bm a(1) by (auto simp: blk mfile_def)
    assume nz: "fblk v' A' bm \<noteq> 0"
    then show "fblk v' A' bm \<noteq> A' ! NDIRECT" using ind(1) ni bm by (cases "A' ! NDIRECT = 0") (auto simp: blk)
    fix bk assume bk: "bk < MAXFILE" "fblk v' A' bk = fblk v' A' bm"
    then show "bk = bm" using f bm nz na [of bk] na [of bm] by (auto simp: blk mfile_def split: if_splits)
  qed (use len ind in auto)
  have "fblk v' A' ` {..<MAXFILE} - {0} = insert a (fblk v A ` {..<MAXFILE} - {0})"
    using bn a(1) z by (auto simp: blk image_iff split: if_splits)
  then show "own v' A' = insert a (own v A) \<union> ({A' ! NDIRECT} - {0})" using ind(2) by (auto simp: own_def)
qed

section \<open>One block more\<close>

text \<open>The number of blocks that a file of \<open>n\<close> bytes takes, with the indirect block.\<close>

definition nb :: "nat \<Rightarrow> nat" where
  "nb n = (n + BSIZE - 1) div BSIZE + (if NDIRECT * BSIZE < n then 1 else 0)"

lemma nb_mono: "n \<le> m \<Longrightarrow> nb n \<le> nb m"
  unfolding nb_def by (intro add_mono div_le_mono) auto

lemma nb_in: "bn * BSIZE < m \<Longrightarrow> m \<le> (bn + 1) * BSIZE \<Longrightarrow> nb m = bn + 1 + (if NDIRECT \<le> bn then 1 else 0)"
proof -
  assume m: "bn * BSIZE < m" "m \<le> (bn + 1) * BSIZE"
  have "(m + BSIZE - 1) div BSIZE = bn + 1" using m by (intro div_nat_eqI) (auto simp: BSIZE_def)
  then show ?thesis using block_count [OF m, of NDIRECT] by (simp add: nb_def)
qed

lemma nb_full: "nb (bn * BSIZE) = bn + (if NDIRECT < bn then 1 else 0)"
proof -
  have "(bn * BSIZE + BSIZE - 1) div BSIZE = bn" by (intro div_nat_eqI) (auto simp: BSIZE_def)
  then show ?thesis by (simp add: nb_def BSIZE_def)
qed

lemma nb_same: "bn * BSIZE < n \<Longrightarrow> n \<le> (bn + 1) * BSIZE \<Longrightarrow> bn * BSIZE < m \<Longrightarrow> m \<le> (bn + 1) * BSIZE \<Longrightarrow> nb m = nb n"
  by (simp only: nb_in)

lemma nb_add: "bn * BSIZE < m \<Longrightarrow> m \<le> (bn + 1) * BSIZE \<Longrightarrow> nb m = nb (bn * BSIZE) + 1 + (if bn = NDIRECT then 1 else 0)"
  by (simp only: nb_in nb_full) simp

lemma set_free [simp]: "vw (s\<lparr>freeblock := f\<rparr>) = vw s" "img_ok (s\<lparr>freeblock := f\<rparr>) = img_ok s"
  "vw (s\<lparr>freeinode := i\<rparr>) = vw s" "img_ok (s\<lparr>freeinode := i\<rparr>) = img_ok s" "rsect b (s\<lparr>freeblock := f\<rparr>) = rsect b s"
  by (simp_all add: vw_def img_ok_def fun_eq_iff rsect_def)

lemma file_block_present:
  assumes "img_ok s" "fblk (vw s) (d_addrs din) bn \<noteq> 0" "unat (d_addrs din ! NDIRECT) < 1000"
  shows "file_block bn din s = Some (fblk (vw s) (d_addrs din) bn, din, s)"
  using assms rsect_view [OF assms(1,3)] by (auto simp: file_block_def fblk_def Let_def split: if_splits)

lemma file_block_direct:
  assumes "bn < NDIRECT" "length (d_addrs din) = NDIRECT + 1" "d_addrs din ! bn = 0"
  shows "file_block bn din s = Some (freeblock s, din\<lparr>d_addrs := (d_addrs din)[bn := freeblock s]\<rparr>, s\<lparr>freeblock := freeblock s + 1\<rparr>)"
  using assms by (simp add: file_block_def take_block_def Let_def)

lemma file_block_entry:
  assumes "img_ok s" "NDIRECT \<le> bn" "bn < MAXFILE" "d_addrs din ! NDIRECT = i" "i \<noteq> 0" "unat i < 1000"
    "at32 (vw s i) (4 * (bn - NDIRECT)) = 0"
  shows "file_block bn din s = Some (freeblock s, din,
    wsect i (overwrite (vw s i) (4 * (bn - NDIRECT)) (le32 (freeblock s))) (s\<lparr>freeblock := freeblock s + 1\<rparr>))"
proof -
  have "4 * (bn - NDIRECT) + 4 \<le> length (vw s i)" using assms(1-3) by (simp add: MAXFILE_def NINDIRECT_def BSIZE_def)
  then show ?thesis
    using assms rsect_view [OF assms(1,6)] by (simp add: file_block_def take_block_def Let_def at32_same)
qed

lemma file_block_indirect:
  assumes "img_ok s" "NDIRECT \<le> bn" "bn < MAXFILE" "d_addrs din ! NDIRECT = 0" "length (d_addrs din) = NDIRECT + 1"
    "freeblock s = i" "i \<noteq> 0" "unat i < 1000" "vw s i = zeros"
  shows "file_block bn din s = Some (i + 1, din\<lparr>d_addrs := (d_addrs din)[NDIRECT := i]\<rparr>,
    wsect i (overwrite zeros (4 * (bn - NDIRECT)) (le32 (i + 1))) (s\<lparr>freeblock := i + 1 + 1\<rparr>))"
proof -
  have r: "4 * (bn - NDIRECT) + 4 \<le> BSIZE" using assms(2,3) by (simp add: MAXFILE_def NINDIRECT_def BSIZE_def)
  then have "at32 zeros (4 * (bn - NDIRECT)) = 0" unfolding zeros_def by (rule at32_replicate)
  then show ?thesis
    using assms r rsect_view [OF assms(1,8)] by (simp add: file_block_def take_block_def Let_def at32_same)
qed

text \<open>A file of \<open>n\<close> bytes in an image whose blocks from \<open>f\<close> on are unused.\<close>

definition between :: "u32 \<Rightarrow> u32 \<Rightarrow> u32 set" where
  "between f g = {b. unat f \<le> unat b \<and> unat b < unat g}"

definition holds :: "(u32 \<Rightarrow> block) \<Rightarrow> u32 list \<Rightarrow> nat \<Rightarrow> u32 \<Rightarrow> bool" where
  "holds v A n f \<longleftrightarrow> mfile v A n \<and> own v A \<subseteq> between (of_nat nmeta) f \<and> nmeta \<le> unat f \<and> unat f \<le> 1000 \<and>
     (\<forall>b. unat f \<le> unat b \<longrightarrow> v b = zeros)"

text \<open>The file grows over the block \<open>bn\<close>; the block is there, and nothing else is touched but the block of addresses.\<close>

definition opened :: "(u32 \<Rightarrow> block) \<Rightarrow> u32 list \<Rightarrow> nat \<Rightarrow> u32 \<Rightarrow> nat \<Rightarrow> (u32 \<Rightarrow> block) \<Rightarrow> u32 list \<Rightarrow> u32 \<Rightarrow> bool" where
  "opened v A n f m v' A' f' \<longleftrightarrow> mfile v' A' m \<and> own v' A' \<subseteq> own v A \<union> between f f' \<and> unat f' = unat f + (nb m - nb n) \<and>
     (\<forall>bm < MAXFILE. bm * BSIZE < n \<longrightarrow> fblk v' A' bm = fblk v A bm) \<and> (\<forall>b. b \<noteq> A' ! NDIRECT \<or> b = 0 \<longrightarrow> v' b = v b)"

lemma nmeta_eq [simp]: "nmeta = 59"
  by (simp add: nmeta_def nlog_def LOGSIZE_def ninodeblocks_def NINODES_def IPB_def BSIZE_def nbitmap_def FSSIZE_def)

lemma free_step: "unat f + k \<le> 1000 \<Longrightarrow> unat (f + of_nat k) = unat (f :: u32) + k"
  by (simp add: unat_word_ariths unat_of_nat)

lemma opened_present:
  assumes "mfile v A n" "bn < MAXFILE" "fblk v A bn \<noteq> 0" "n \<le> m" "m \<le> (bn + 1) * BSIZE"
  shows "opened v A n f m v A f"
proof -
  have "bn * BSIZE < n" using assms(1-3) by (simp add: mfile_def)
  then show ?thesis using assms(4,5) mfile_again [OF assms(1)] nb_same [of bn n m] by (simp add: opened_def)
qed

lemma opened_new:
  assumes h: "holds v A (bn * BSIZE) f" and bn: "bn < MAXFILE" and a: "a \<in> between f f'" and len: "length A' = NDIRECT + 1"
    and blk: "\<And>bm. bm < MAXFILE \<Longrightarrow> fblk v' A' bm = (if bm = bn then a else fblk v A bm)"
    and ind: "A' ! NDIRECT \<noteq> a" "A' ! NDIRECT = A ! NDIRECT \<or> A ! NDIRECT = 0 \<and> A' ! NDIRECT \<in> between f f'"
      "A' ! NDIRECT \<noteq> 0 \<longleftrightarrow> NDIRECT \<le> bn"
    and m: "bn * BSIZE < m" "m \<le> (bn + 1) * BSIZE" and f': "unat f' = unat f + (if bn = NDIRECT then 2 else 1)"
    and v: "\<And>b. b \<noteq> A' ! NDIRECT \<or> b = 0 \<Longrightarrow> v' b = v b"
  shows "opened v A (bn * BSIZE) f m v' A' f'"
proof -
  have f: "mfile v A (bn * BSIZE)" and no: "b \<notin> own v A" if "b \<in> between f f'" for b
    using h that by (auto simp: holds_def between_def)
  have a0: "a \<noteq> 0" using a h by (auto simp: between_def holds_def)
  have i: "A' ! NDIRECT = A ! NDIRECT \<or> A ! NDIRECT = 0 \<and> A' ! NDIRECT \<notin> own v A" using ind(2) no by blast
  have add: "mfile v' A' m" "own v' A' = insert a (own v A) \<union> ({A' ! NDIRECT} - {0})"
    by (rule mfile_add [OF f [OF a] bn a0 no [OF a] len _ ind(1) i ind(3) m]; simp add: blk)+
  have "A' ! NDIRECT \<noteq> 0 \<Longrightarrow> A' ! NDIRECT \<in> own v A \<union> between f f'" using ind(2) by (auto simp: own_def)
  then have "own v' A' \<subseteq> own v A \<union> between f f'" using a unfolding add(2) by auto
  then show ?thesis using add(1) nb_add [OF m] f' v blk unfolding opened_def by auto
qed

text \<open>The law of \<open>file_block\<close>, first for each way to take a new block.\<close>

abbreviation block_law :: "nat \<Rightarrow> dinode \<Rightarrow> mkfs \<Rightarrow> nat \<Rightarrow> nat \<Rightarrow> bool" where
  "block_law bn din s n m \<equiv> (\<exists>A' t. file_block bn din s = Some (fblk (vw t) A' bn, din\<lparr>d_addrs := A'\<rparr>, t) \<and> img_ok t \<and>
     freeinode t = freeinode s \<and> opened (vw s) (d_addrs din) n (freeblock s) m (vw t) A' (freeblock t))"

lemma law_direct:
  assumes s: "img_ok s" and h: "holds (vw s) (d_addrs din) (bn * BSIZE) (freeblock s)" and bn: "bn < NDIRECT"
    and m: "bn * BSIZE < m" "m \<le> (bn + 1) * BSIZE" and room: "unat (freeblock s) + 1 \<le> 1000"
  shows "block_law bn din s (bn * BSIZE) m"
proof -
  let ?A = "d_addrs din" and ?f = "freeblock s"
  let ?t = "s\<lparr>freeblock := ?f + 1\<rparr>" and ?B = "?A[bn := ?f]"
  have mf: "mfile (vw s) ?A (bn * BSIZE)" and lA: "length ?A = NDIRECT + 1" using h by (simp_all add: holds_def mfile_def)
  have bM: "bn < MAXFILE" using bn by (simp add: MAXFILE_def)
  have "fblk (vw s) ?A bn = 0" using mf bM unfolding mfile_def by (metis less_irrefl)
  then have z: "?A ! bn = 0" using bn by (simp add: fblk_def)
  have "\<not> NDIRECT * BSIZE < bn * BSIZE" using bn by (simp add: BSIZE_def)
  then have i: "?A ! NDIRECT = 0" using mf by (simp add: mfile_def)
  have f1: "unat (?f + 1) = unat ?f + 1" using room free_step [of ?f 1] by simp
  have f0: "?f \<noteq> 0" using h by (auto simp: holds_def)
  have "opened (vw s) ?A (bn * BSIZE) ?f m (vw ?t) ?B (?f + 1)"
    by (rule opened_new [OF h bM, where a = ?f]; use bn lA f1 i f0 m in \<open>auto simp: between_def fblk_def\<close>)
  moreover have "fblk (vw ?t) ?B bn = ?f" using bn lA by (simp add: fblk_def)
  ultimately show ?thesis using file_block_direct [OF bn lA z] s by (intro exI [of _ ?B] exI [of _ ?t]) simp
qed

lemma law_entry:
  assumes s: "img_ok s" and h: "holds (vw s) (d_addrs din) (bn * BSIZE) (freeblock s)" and bn: "NDIRECT < bn" "bn < MAXFILE"
    and m: "bn * BSIZE < m" "m \<le> (bn + 1) * BSIZE" and room: "unat (freeblock s) + 1 \<le> 1000"
  shows "block_law bn din s (bn * BSIZE) m"
proof -
  let ?A = "d_addrs din" and ?f = "freeblock s"
  let ?i = "?A ! NDIRECT" let ?b = "overwrite (vw s ?i) (4 * (bn - NDIRECT)) (le32 ?f)"
  let ?t = "wsect ?i ?b (s\<lparr>freeblock := ?f + 1\<rparr>)"
  have mf: "mfile (vw s) ?A (bn * BSIZE)" and lA: "length ?A = NDIRECT + 1" using h by (simp_all add: holds_def mfile_def)
  have "NDIRECT * BSIZE < bn * BSIZE" using bn by (simp add: BSIZE_def)
  then have i: "?i \<noteq> 0" using mf by (simp add: mfile_def)
  then have io: "?i \<in> own (vw s) ?A" by (simp add: own_def)
  then have iu: "unat ?i < unat ?f" "unat ?i < 1000" using h by (auto simp: holds_def between_def)
  have "fblk (vw s) ?A bn = 0" using mf bn(2) unfolding mfile_def by (metis less_irrefl)
  then have z: "at32 (vw s ?i) (4 * (bn - NDIRECT)) = 0" using bn i by (simp add: fblk_def)
  have f1: "unat (?f + 1) = unat ?f + 1" using room free_step [of ?f 1] by simp
  have r: "4 * (bm - NDIRECT) + 4 \<le> length (vw s ?i)" if "bm < MAXFILE" for bm
    using s that by (simp add: MAXFILE_def NINDIRECT_def BSIZE_def NDIRECT_def)
  have lb: "length ?b = BSIZE" using r [OF bn(2)] s by simp
  have v: "vw ?t = (vw s)(?i := ?b)" "img_ok ?t" using wsect_view [of "s\<lparr>freeblock := ?f + 1\<rparr>" ?i ?b] s iu lb by simp_all
  have e: "at32 ?b (4 * (bm - NDIRECT)) = (if bm = bn then ?f else at32 (vw s ?i) (4 * (bm - NDIRECT)))"
    if "bm < MAXFILE" "NDIRECT \<le> bm" for bm
  proof (cases "bm = bn")
    case False
    then show ?thesis using that bn r [OF that(1)] r [OF bn(2)] by (simp, intro at32_outside) auto
  qed (use r [OF bn(2)] in \<open>simp add: at32_same\<close>)
  have blk: "fblk (vw ?t) ?A bm = (if bm = bn then ?f else fblk (vw s) ?A bm)" if "bm < MAXFILE" for bm
    using e [OF that] bn i by (auto simp: fblk_def v)
  have "opened (vw s) ?A (bn * BSIZE) ?f m (vw ?t) ?A (?f + 1)"
    by (rule opened_new [OF h bn(2), where a = ?f]; use bn lA f1 i iu m blk v in \<open>auto simp: between_def\<close>)
  moreover have "fblk (vw ?t) ?A bn = ?f" using blk bn by simp
  ultimately show ?thesis using file_block_entry [OF s _ bn(2) refl i iu(2) z] bn v
    by (intro exI [of _ ?A] exI [of _ ?t]) simp
qed

lemma law_indirect:
  assumes s: "img_ok s" and h: "holds (vw s) (d_addrs din) (NDIRECT * BSIZE) (freeblock s)"
    and m: "NDIRECT * BSIZE < m" "m \<le> (NDIRECT + 1) * BSIZE" and room: "unat (freeblock s) + 2 \<le> 1000"
  shows "block_law NDIRECT din s (NDIRECT * BSIZE) m"
proof -
  let ?A = "d_addrs din" and ?f = "freeblock s"
  let ?b = "overwrite zeros 0 (le32 (?f + 1))"
  let ?t = "wsect ?f ?b (s\<lparr>freeblock := 2 + ?f\<rparr>)" and ?B = "?A[NDIRECT := ?f]"
  have mf: "mfile (vw s) ?A (NDIRECT * BSIZE)" and lA: "length ?A = NDIRECT + 1" using h by (simp_all add: holds_def mfile_def)
  have i: "?A ! NDIRECT = 0" using mf by (simp add: mfile_def)
  have f0: "?f \<noteq> 0" and fz: "vw s ?f = zeros" using h by (auto simp: holds_def)
  have f1: "unat (?f + 1) = unat ?f + 1" "unat (2 + ?f) = unat ?f + 2"
    using room free_step [of ?f 1] free_step [of ?f 2] by (simp_all add: add.commute)
  then have ne: "?f + 1 \<noteq> ?f" by (metis n_not_Suc_n Suc_eq_plus1)
  have lb: "length ?b = BSIZE" by (simp add: BSIZE_def)
  have v: "vw ?t = (vw s)(?f := ?b)" "img_ok ?t" using wsect_view [of "s\<lparr>freeblock := 2 + ?f\<rparr>" ?f ?b] s room lb by simp_all
  have M: "NDIRECT < MAXFILE" by (simp add: MAXFILE_def NINDIRECT_def BSIZE_def)
  have e: "at32 ?b (4 * (bm - NDIRECT)) = (if bm = NDIRECT then ?f + 1 else 0)" if "bm < MAXFILE" "NDIRECT \<le> bm" for bm
  proof (cases "bm = NDIRECT")
    case False
    have r: "4 * (bm - NDIRECT) + 4 \<le> BSIZE" using that by (simp add: MAXFILE_def NINDIRECT_def BSIZE_def NDIRECT_def)
    then have "at32 ?b (4 * (bm - NDIRECT)) = at32 zeros (4 * (bm - NDIRECT))" using that False by (intro at32_outside) (auto simp: BSIZE_def)
    then show ?thesis using False at32_replicate [OF r] by (simp add: zeros_def)
  qed (simp add: at32_same BSIZE_def)
  have blk: "fblk (vw ?t) ?B bm = (if bm = NDIRECT then ?f + 1 else fblk (vw s) ?A bm)" if "bm < MAXFILE" for bm
    using e [OF that] i f0 lA by (auto simp: fblk_def v)
  have "opened (vw s) ?A (NDIRECT * BSIZE) ?f m (vw ?t) ?B (2 + ?f)"
    by (rule opened_new [OF h M, where a = "?f + 1"]; use lA f1 ne i f0 m blk v in \<open>auto simp: between_def\<close>)
  moreover have "fblk (vw ?t) ?B NDIRECT = ?f + 1" using blk M by simp
  ultimately show ?thesis using file_block_indirect [OF s order.refl M i lA refl f0 _ fz] room v
    by (intro exI [of _ ?B] exI [of _ ?t]) simp
qed

lemma file_block_law:
  assumes s: "img_ok s" and h: "holds (vw s) (d_addrs din) n (freeblock s)" and bn: "n div BSIZE < MAXFILE"
    and m: "n < m" "m \<le> (n div BSIZE + 1) * BSIZE" and room: "unat (freeblock s) + (nb m - nb n) \<le> 1000"
  shows "block_law (n div BSIZE) din s n m"
proof (cases "fblk (vw s) (d_addrs din) (n div BSIZE) = 0")
  case False
  have mf: "mfile (vw s) (d_addrs din) n" using h by (simp add: holds_def)
  have "d_addrs din ! NDIRECT \<noteq> 0 \<Longrightarrow> d_addrs din ! NDIRECT \<in> own (vw s) (d_addrs din)" by (simp add: own_def)
  then have "unat (d_addrs din ! NDIRECT) < 1000" using h by (cases "d_addrs din ! NDIRECT = 0") (auto simp: holds_def between_def)
  then show ?thesis
    using file_block_present [OF s False] opened_present [OF mf bn False _ m(2)] s m(1)
    by (intro exI [of _ "d_addrs din"] exI [of _ s]) simp
next
  case True
  let ?b = "n div BSIZE"
  have "\<not> ?b * BSIZE < n" using True h bn unfolding holds_def mfile_def by blast
  then have n: "n = ?b * BSIZE" using div_times_less_eq_dividend [of n BSIZE] by linarith
  have h': "holds (vw s) (d_addrs din) (?b * BSIZE) (freeblock s)" using h n by simp
  have m': "?b * BSIZE < m" using m n by simp
  have r: "unat (freeblock s) + (1 + (if ?b = NDIRECT then 1 else 0)) \<le> 1000"
    using room nb_add [OF m' m(2)] n by (simp split: if_splits)
  consider "?b < NDIRECT" | "?b = NDIRECT" | "NDIRECT < ?b" by linarith
  then have "block_law ?b din s (?b * BSIZE) m"
  proof cases
    case 2
    show ?thesis using law_indirect [OF s, of din m] h' m m' r unfolding 2 by simp
  qed (use law_direct [OF s h' _ m' m(2)] law_entry [OF s h' _ bn m' m(2)] r in auto)
  then show ?thesis using n by simp
qed

section \<open>Appending\<close>

text \<open>The bytes of a file.\<close>

definition mbytes :: "(u32 \<Rightarrow> block) \<Rightarrow> u32 list \<Rightarrow> nat \<Rightarrow> byte list" where
  "mbytes v A n = map (\<lambda>p. v (fblk v A (p div BSIZE)) ! (p mod BSIZE)) [0..<n]"

lemma length_mbytes [simp]: "length (mbytes v A n) = n"
  by (simp add: mbytes_def)

lemma mbytes_nth: "p < n \<Longrightarrow> mbytes v A n ! p = v (fblk v A (p div BSIZE)) ! (p mod BSIZE)"
  by (simp add: mbytes_def)

text \<open>From the first image to the second, \<open>xs\<close> has been appended to the file.\<close>

definition mgrown :: "(u32 \<Rightarrow> block) \<Rightarrow> u32 list \<Rightarrow> nat \<Rightarrow> u32 \<Rightarrow> (u32 \<Rightarrow> block) \<Rightarrow> u32 list \<Rightarrow> u32 \<Rightarrow> byte list \<Rightarrow> bool" where
  "mgrown v A n f v' A' f' xs \<longleftrightarrow> holds v' A' (n + length xs) f' \<and> mbytes v' A' (n + length xs) = mbytes v A n @ xs \<and>
     unat f' = unat f + (nb (n + length xs) - nb n) \<and> own v' A' \<subseteq> own v A \<union> between f f' \<and>
     (\<forall>b. unat b < unat f \<and> b \<notin> own v A \<longrightarrow> v' b = v b)"

lemma mgrown_refl: "holds v A n f \<Longrightarrow> mgrown v A n f v A f []"
  by (simp add: mgrown_def)

lemma mgrown_trans:
  assumes "holds v A n f" "mgrown v A n f v1 A1 f1 xs" "mgrown v1 A1 (n + length xs) f1 v2 A2 f2 ys"
  shows "mgrown v A n f v2 A2 f2 (xs @ ys)"
proof -
  have m: "nb n \<le> nb (n + length xs)" "nb (n + length xs) \<le> nb (n + length xs + length ys)" by (simp_all add: nb_mono)
  have f: "unat f \<le> unat f1" "unat f1 \<le> unat f2" using assms(2,3) by (simp_all add: mgrown_def)
  then have "own v2 A2 \<subseteq> own v A \<union> between f f2" using assms(2,3) unfolding mgrown_def between_def by fastforce
  moreover have "unat b < unat f \<and> b \<notin> own v A \<longrightarrow> v2 b = v b" for b
  proof
    assume b: "unat b < unat f \<and> b \<notin> own v A"
    then have "b \<notin> own v1 A1" using assms(2) by (auto simp: mgrown_def between_def)
    then show "v2 b = v b" using b f assms(2,3) by (simp add: mgrown_def)
  qed
  ultimately show ?thesis using assms m by (simp add: mgrown_def add.assoc)
qed

lemma write_step:
  assumes h: "holds v A n f" and o: "opened v A n f m v' A' f'" and bn: "n div BSIZE < MAXFILE" and m: "n < m" "m \<le> (n div BSIZE + 1) * BSIZE"
    and f': "unat f' \<le> 1000" and len: "\<And>b. length (v b) = BSIZE" "\<And>b. length (v' b) = BSIZE" and x: "x = fblk v' A' (n div BSIZE)" and ys: "length ys = m - n"
  shows "mgrown v A n f (v'(x := overwrite (v' x) (n mod BSIZE) ys)) A' f' ys" "x \<noteq> 0" "unat x < unat f'"
proof -
  let ?bn = "n div BSIZE"
  let ?w = "v'(x := overwrite (v' x) (n mod BSIZE) ys)"
  have n: "?bn * BSIZE + n mod BSIZE = n" by simp
  have mf: "mfile v' A' m" and ow: "own v' A' \<subseteq> own v A \<union> between f f'" and ff: "unat f' = unat f + (nb m - nb n)"
    and old: "\<And>k. k < MAXFILE \<Longrightarrow> k * BSIZE < n \<Longrightarrow> fblk v' A' k = fblk v A k"
    and v': "\<And>b. b \<noteq> A' ! NDIRECT \<or> b = 0 \<Longrightarrow> v' b = v b" using o by (simp_all add: opened_def)
  have oA: "own v A \<subseteq> between (of_nat nmeta) f" and nf: "nmeta \<le> unat f" and zf: "\<And>b. unat f \<le> unat b \<Longrightarrow> v b = zeros"
    using h by (auto simp: holds_def)
  have "?bn * BSIZE < m" using n m by linarith
  then have x0: "x \<noteq> 0" and xi: "x \<noteq> A' ! NDIRECT" using mf bn by (auto simp: mfile_def x)
  show "x \<noteq> 0" by (rule x0)
  have xo: "x \<in> own v' A'" using x0 bn by (auto simp: own_def x)
  have ob: "nmeta \<le> unat b \<and> unat b < unat f'" if "b \<in> own v' A'" for b
  proof (cases "b \<in> own v A")
    case True
    then show ?thesis using subsetD [OF oA True] ff by (simp add: between_def)
  next
    case False
    then have "b \<in> between f f'" using ow that by blast
    then show ?thesis using nf by (simp add: between_def)
  qed
  show "unat x < unat f'" using ob [OF xo] by simp
  have inj: "k = ?bn" if "k < MAXFILE" "fblk v' A' k = x" for k using mf x0 bn that unfolding mfile_def x by blast
  have blk: "fblk ?w A' = fblk v' A'" by (rule fblk_frame) (use xi in auto)
  have own: "own ?w A' = own v' A'" by (rule own_frame [OF blk])
  have out: "b \<notin> own v' A' \<Longrightarrow> ?w b = v b" for b using xo v' [of b] by (auto simp: own_def)
  have hw: "holds ?w A' m f'"
    unfolding holds_def own mfile_frame [OF blk]
  proof (intro conjI allI impI)
    fix b :: u32 assume b: "unat f' \<le> unat b"
    then have "b \<notin> own v' A'" using ob [of b] by auto
    then show "?w b = zeros" using out zf [of b] b ff by simp
  qed (use mf ob nf ff f' in \<open>auto simp: between_def\<close>)
  have fr: "unat b < unat f \<and> b \<notin> own v A \<Longrightarrow> ?w b = v b" for b
  proof -
    assume b: "unat b < unat f \<and> b \<notin> own v A"
    then have "b \<notin> between f f'" by (simp add: between_def)
    then show "?w b = v b" using out ow b by blast
  qed
  have pos: "?w (fblk ?w A' (p div BSIZE)) ! (p mod BSIZE) = (mbytes v A n @ ys) ! p" if p: "p < m" for p
  proof -
    have pd: "p = p div BSIZE * BSIZE + p mod BSIZE" by simp
    have pB: "p mod BSIZE < BSIZE" by (simp add: BSIZE_def)
    have "m \<le> ?bn * BSIZE + BSIZE" using m(2) by simp
    then have room: "n mod BSIZE + length ys \<le> BSIZE" using n m(1) ys by linarith
    have pl: "p div BSIZE \<le> ?bn"
    proof (rule ccontr)
      assume "\<not> ?thesis"
      then have "(?bn + 1) * BSIZE \<le> p div BSIZE * BSIZE" by (intro mult_right_mono) auto
      then show False using p m pd by linarith
    qed
    show ?thesis
    proof (cases "p < n")
      case True
      have k: "p div BSIZE < MAXFILE" "p div BSIZE * BSIZE < n" using pl bn True pd by linarith+
      let ?y = "fblk v A (p div BSIZE)"
      have y: "fblk ?w A' (p div BSIZE) = ?y" using old [OF k] by (simp add: blk)
      have "?y \<noteq> A' ! NDIRECT" using mf k m(1) old [OF k] unfolding mfile_def by (metis less_trans)
      then have vy: "v' ?y = v ?y" by (rule v' [OF disjI1])
      have "?w ?y ! (p mod BSIZE) = v ?y ! (p mod BSIZE)"
      proof (cases "?y = x")
        case True
        then have "p div BSIZE = ?bn" using inj k old by metis
        then have "p = ?bn * BSIZE + p mod BSIZE" using pd by metis
        then have "p mod BSIZE < n mod BSIZE" using \<open>p < n\<close> n by linarith
        then show ?thesis using True room len pB vy by (simp add: nth_overwrite)
      qed (simp add: vy)
      then show ?thesis using True y by (simp add: mbytes_def nth_append)
    next
      case False
      have pe: "p div BSIZE = ?bn" using pl div_le_mono [of n p BSIZE] False by simp
      then have "p = ?bn * BSIZE + p mod BSIZE" using pd by metis
      then have "p mod BSIZE = n mod BSIZE + (p - n)" using False n by linarith
      moreover have q: "p - n < length ys" using False p ys by linarith
      then have "overwrite (v' x) (n mod BSIZE) ys ! (n mod BSIZE + (p - n)) = ys ! (p - n)"
        using room len(2) [of x] by (subst nth_overwrite) auto
      ultimately show ?thesis using False pe by (simp only: blk x [symmetric] fun_upd_same) (simp add: mbytes_def nth_append)
    qed
  qed
  have nm: "n + length ys = m" using m(1) ys by simp
  have "mbytes ?w A' m = mbytes v A n @ ys"
  proof (rule nth_equalityI)
    show "mbytes ?w A' m ! p = (mbytes v A n @ ys) ! p" if "p < length (mbytes ?w A' m)" for p
      using that unfolding length_mbytes by (simp only: mbytes_nth pos)
  qed (simp add: nm)
  then show "mgrown v A n f ?w A' f' ys" using hw fr ow ff unfolding mgrown_def own nm by simp
qed

lemma iappend_loop_law:
  assumes "img_ok s" "holds (vw s) (d_addrs din) (unat off) (freeblock s)" "unat off + length p \<le> MAXFILE * BSIZE"
    "unat (freeblock s) + (nb (unat off + length p) - nb (unat off)) \<le> 1000"
  shows "\<exists>A' t. iappend_loop din off p s = Some (din\<lparr>d_addrs := A'\<rparr>, off + of_nat (length p), t) \<and> img_ok t \<and>
    freeinode t = freeinode s \<and> mgrown (vw s) (d_addrs din) (unat off) (freeblock s) (vw t) A' (freeblock t) p"
  using assms
proof (induction "length p" arbitrary: din off p s rule: less_induct)
  case less
  note s = less.prems(1) and h = less.prems(2) and M = less.prems(3) and room = less.prems(4)
  show ?case
  proof (cases "p = []")
    case True
    then show ?thesis using s mgrown_refl [OF h] by (subst iappend_loop.simps) (intro exI [of _ "d_addrs din"] exI [of _ s], simp)
  next
    case False
    let ?n = "unat off" let ?b = "?n div BSIZE"
    let ?k = "min (length p) ((?b + 1) * BSIZE - ?n)"
    let ?q = "take ?k p" and ?r = "drop ?k p"
    have nb0: "?n < (?b + 1) * BSIZE" by (simp add: BSIZE_def)
    then have k: "0 < ?k" "?k \<le> length p" using False by auto
    have m: "?n < ?n + ?k" "?n + ?k \<le> (?b + 1) * BSIZE" using k nb0 by auto
    have mono: "nb ?n \<le> nb (?n + ?k)" "nb (?n + ?k) \<le> nb (?n + length p)" using k by (auto intro: nb_mono)
    have "?n < MAXFILE * BSIZE" using M k by linarith
    then have bn: "?b < MAXFILE" by (simp add: less_mult_imp_div_less)
    have r1: "unat (freeblock s) + (nb (?n + ?k) - nb ?n) \<le> 1000" using room mono by linarith
    obtain A1 t1 where fb: "file_block ?b din s = Some (fblk (vw t1) A1 ?b, din\<lparr>d_addrs := A1\<rparr>, t1)"
      and t1: "img_ok t1" "freeinode t1 = freeinode s" and o: "opened (vw s) (d_addrs din) ?n (freeblock s) (?n + ?k) (vw t1) A1 (freeblock t1)"
      using file_block_law [OF s h bn m r1] by blast
    define x where "x = fblk (vw t1) A1 ?b"
    have f1: "unat (freeblock t1) \<le> 1000" using o r1 by (simp add: opened_def)
    note ws = write_step [OF h o bn m f1 vw_length [OF s] vw_length [OF t1(1)] x_def, of ?q]
    have g: "mgrown (vw s) (d_addrs din) ?n (freeblock s) ((vw t1)(x := overwrite (vw t1 x) (?n mod BSIZE) ?q)) A1 (freeblock t1) ?q"
      and x: "unat x < 1000" using ws f1 by auto
    define t2 where "t2 = wsect x (overwrite (vw t1 x) (?n mod BSIZE) ?q) t1"
    have md: "?n - ?b * BSIZE = ?n mod BSIZE" by (rule minus_div_mult_eq_mod)
    have "length ?q \<le> (?b + 1) * BSIZE - ?n" "(?b + 1) * BSIZE = ?b * BSIZE + BSIZE" "?n = ?b * BSIZE + ?n mod BSIZE" by simp_all
    then have "?n mod BSIZE + length ?q \<le> BSIZE" using nb0 by linarith
    then have l: "length (overwrite (vw t1 x) (?n mod BSIZE) ?q) = BSIZE" using t1 by simp
    have t2: "vw t2 = (vw t1)(x := overwrite (vw t1 x) (?n mod BSIZE) ?q)" "img_ok t2" "freeblock t2 = freeblock t1" "freeinode t2 = freeinode s"
      using wsect_view [OF t1(1) x l] t1 by (simp_all add: t2_def)
    have step: "iappend_loop din off p s = iappend_loop (din\<lparr>d_addrs := A1\<rparr>) (off + of_nat ?k) ?r t2"
      using False bn fb rsect_view [OF t1(1) x] md by (subst iappend_loop.simps) (simp add: Let_def x_def [symmetric] t2_def)
    have big: "MAXFILE * BSIZE < 2 ^ 32" by (simp add: MAXFILE_def NINDIRECT_def NDIRECT_def BSIZE_def)
    have un: "unat (off + of_nat ?k) = ?n + ?k" using M k big by (simp add: unat_word_ariths unat_of_nat)
    have g2: "mgrown (vw s) (d_addrs din) ?n (freeblock s) (vw t2) A1 (freeblock t2) ?q" using g t2 by simp
    have lq: "length ?q = ?k" by simp
    have h2: "holds (vw t2) A1 (?n + ?k) (freeblock t2)" and f2: "unat (freeblock t2) = unat (freeblock s) + (nb (?n + ?k) - nb ?n)"
      using g2 unfolding mgrown_def lq by auto
    have lr: "?k + length ?r = length p" using k by simp
    have r2: "unat (freeblock t2) + (nb (?n + length p) - nb (?n + ?k)) \<le> 1000" using room mono f2 by linarith
    have le: "length ?r < length p" using k by simp
    let ?din = "din\<lparr>d_addrs := A1\<rparr>" and ?o = "off + of_nat ?k"
    have ol: "unat ?o + length ?r = ?n + length p" using un lr by linarith
    have a: "d_addrs ?din = A1" by simp
    have h3: "holds (vw t2) (d_addrs ?din) (unat ?o) (freeblock t2)" using h2 un by simp
    have M3: "unat ?o + length ?r \<le> MAXFILE * BSIZE" and r3: "unat (freeblock t2) + (nb (unat ?o + length ?r) - nb (unat ?o)) \<le> 1000"
      using M r2 unfolding ol un by simp_all
    obtain A' t where t: "iappend_loop ?din ?o ?r t2 = Some (?din\<lparr>d_addrs := A'\<rparr>, ?o + of_nat (length ?r), t)" "img_ok t"
        "freeinode t = freeinode t2" "mgrown (vw t2) A1 (?n + ?k) (freeblock t2) (vw t) A' (freeblock t) ?r"
      using less.hyps [OF le t2(2) h3 M3 r3] unfolding a un by blast
    have gt: "mgrown (vw s) (d_addrs din) ?n (freeblock s) (vw t) A' (freeblock t) p"
      using mgrown_trans [OF h g2, of "vw t" A' "freeblock t" ?r] t(4) lq by simp
    have "of_nat ?k + of_nat (length ?r) = (of_nat (length p) :: u32)" unfolding of_nat_add [symmetric] lr ..
    then have e: "?o + of_nat (length ?r) = off + of_nat (length p)" by (simp only: add.assoc)
    have "iappend_loop din off p s = Some (din\<lparr>d_addrs := A'\<rparr>, off + of_nat (length p), t)" using step t(1) unfolding e by simp
    then show ?thesis using t(2,3) gt t2(4) by auto
  qed
qed

section \<open>Inodes\<close>

definition minode :: "mkfs \<Rightarrow> nat \<Rightarrow> dinode" where
  "minode s k = get_dinode (vw s (IBLOCK (of_nat k) mk_sb)) (k mod IPB)"

lemma mk_sb_simps [simp]: "sb_inodestart mk_sb = 32" "sb_bmapstart mk_sb = 58" "sb_size mk_sb = 1000" "sb_logstart mk_sb = 2"
  by (simp_all add: mk_sb_def nlog_def LOGSIZE_def ninodeblocks_def NINODES_def IPB_def BSIZE_def FSSIZE_def)

lemma iblock: "k < 208 \<Longrightarrow> unat (IBLOCK (of_nat k) mk_sb) = k div IPB + 32"
  by (simp add: IBLOCK_def IPB_def BSIZE_def unat_word_ariths unat_of_nat)

lemma iblock_less: "k < 208 \<Longrightarrow> unat (IBLOCK (of_nat k) mk_sb) < 58"
  by (simp add: iblock IPB_def BSIZE_def)

lemma rinode_law: "img_ok s \<Longrightarrow> k < 208 \<Longrightarrow> rinode (of_nat k) s = Some (minode s k)"
  using rsect_view [of s "IBLOCK (of_nat k) mk_sb"] iblock_less [of k]
  by (simp add: rinode_def minode_def unat_of_nat)

lemma winode_law:
  assumes s: "img_ok s" and k: "k < 208" and d: "length (d_addrs d) = NDIRECT + 1"
  shows "\<exists>t. winode (of_nat k) d s = Some t \<and> img_ok t \<and> freeinode t = freeinode s \<and> freeblock t = freeblock s \<and>
    (\<forall>b. unat b < 32 \<or> 58 \<le> unat b \<longrightarrow> vw t b = vw s b) \<and> (\<forall>j < 208. minode t j = (if j = k then d else minode s j))"
proof -
  let ?b = "IBLOCK (of_nat k) mk_sb"
  let ?p = "put_dinode (vw s ?b) (k mod IPB) d"
  let ?t = "wsect ?b ?p s"
  have b: "unat ?b < 58" "32 \<le> unat ?b" using iblock_less [OF k] iblock [OF k] by simp_all
  have i: "j mod IPB < IPB" for j by (simp add: IPB_def BSIZE_def)
  have "64 * (k mod IPB) + 64 \<le> BSIZE" using i [of k] by (simp add: IPB_def BSIZE_def)
  then have l: "length ?p = BSIZE" using length_dinode_bytes [OF d] s by (simp add: put_dinode_def)
  have u: "unat ?b < 1000" using b by simp
  note v = wsect_view [OF s u l]
  have m: "minode ?t j = (if j = k then d else minode s j)" if j: "j < 208" for j
  proof (cases "IBLOCK (of_nat j) mk_sb = ?b")
    case True
    then have "j div IPB = k div IPB" using iblock [OF j] iblock [OF k] by simp
    then have "j mod IPB = k mod IPB \<longleftrightarrow> j = k" by (metis div_mult_mod_eq)
    then show ?thesis
      using True get_put_same [OF vw_length [OF s] i d] get_put_other [OF vw_length [OF s] i i _ d] by (auto simp: minode_def v)
  qed (auto simp: minode_def v)
  have w: "winode (of_nat k) d s = Some ?t" using rsect_view [OF s u] k by (simp add: winode_def unat_of_nat Let_def)
  have o: "vw ?t b = vw s b" if "unat b < 32 \<or> 58 \<le> unat b" for b using that b by (auto simp: v)
  show ?thesis using w v(2) o m by (intro exI [of _ ?t]) simp
qed

section \<open>The files of the image\<close>

text \<open>A file is its type and its bytes.\<close>

definition file_in :: "(u32 \<Rightarrow> block) \<Rightarrow> dinode \<Rightarrow> u32 \<Rightarrow> u16 \<times> byte list \<Rightarrow> bool" where
  "file_in v d f x \<longleftrightarrow> d_type d = fst x \<and> d_nlink d = 1 \<and> d_size d = of_nat (length (snd x)) \<and>
     length (snd x) \<le> MAXFILE * BSIZE \<and> holds v (d_addrs d) (length (snd x)) f \<and> mbytes v (d_addrs d) (length (snd x)) = snd x"

definition blocks_for :: "(u16 \<times> byte list) list \<Rightarrow> nat" where
  "blocks_for fs = nmeta + (\<Sum>x\<leftarrow>fs. nb (length (snd x)))"

definition image :: "mkfs \<Rightarrow> (u16 \<times> byte list) list \<Rightarrow> bool" where
  "image s fs \<longleftrightarrow> img_ok s \<and> length fs < 208 \<and> freeinode s = of_nat (length fs + 1) \<and> unat (freeblock s) = blocks_for fs \<and>
     blocks_for fs \<le> 1000 \<and> (\<forall>b. unat (freeblock s) \<le> unat b \<longrightarrow> vw s b = zeros) \<and>
     vw s 1 = overwrite zeros 0 (sb_bytes mk_sb) \<and> (\<forall>b. 2 \<le> unat b \<and> unat b < 32 \<longrightarrow> vw s b = zeros) \<and>
     (\<forall>k < length fs. file_in (vw s) (minode s (k + 1)) (freeblock s) (fs ! k)) \<and>
     (\<forall>k < length fs. \<forall>j < length fs. j \<noteq> k \<longrightarrow>
        own (vw s) (d_addrs (minode s (j + 1))) \<inter> own (vw s) (d_addrs (minode s (k + 1))) = {}) \<and>
     (\<forall>k. length fs < k \<and> k < 208 \<longrightarrow> d_type (minode s k) = 0)"

lemma file_in_frame:
  assumes f: "file_in v d f x" and same: "\<And>b. b \<in> own v (d_addrs d) \<Longrightarrow> v' b = v b" and g: "unat f \<le> unat g" "unat g \<le> 1000"
    and z: "\<And>b. unat g \<le> unat b \<Longrightarrow> v' b = zeros"
  shows "file_in v' d g x" "own v' (d_addrs d) = own v (d_addrs d)"
proof -
  let ?A = "d_addrs d" and ?n = "length (snd x)"
  have blk: "fblk v' ?A = fblk v ?A" by (rule fblk_frame) (use same in simp)
  show own: "own v' ?A = own v ?A" by (rule own_frame [OF blk])
  have h: "holds v ?A ?n f" and n: "?n \<le> MAXFILE * BSIZE" using f by (simp_all add: file_in_def)
  have "v' (fblk v ?A (p div BSIZE)) = v (fblk v ?A (p div BSIZE))" if "p < ?n" for p
  proof (rule same)
    have b: "p div BSIZE < MAXFILE" using that n by (simp add: less_mult_imp_div_less)
    have "p div BSIZE * BSIZE < ?n" using that div_times_less_eq_dividend [of p BSIZE] by linarith
    then have "fblk v ?A (p div BSIZE) \<noteq> 0" using h b unfolding holds_def mfile_def by blast
    then show "fblk v ?A (p div BSIZE) \<in> own v ?A" using b by (auto simp: own_def)
  qed
  then have "mbytes v' ?A ?n = mbytes v ?A ?n" by (simp add: mbytes_def blk)
  moreover have "holds v' ?A ?n g"
    using h g z unfolding holds_def own mfile_frame [OF blk] by (auto simp: between_def)
  ultimately show "file_in v' d g x" using f by (simp add: file_in_def)
qed

section \<open>The operations on the image\<close>

lemma image_inode:
  assumes s: "image s fs" and j: "j < length fs"
  shows "j + 1 < 208" "holds (vw s) (d_addrs (minode s (j + 1))) (length (snd (fs ! j))) (freeblock s)"
    "own (vw s) (d_addrs (minode s (j + 1))) \<subseteq> between 59 (freeblock s)" "length (d_addrs (minode s (j + 1))) = NDIRECT + 1"
    "d_size (minode s (j + 1)) = of_nat (length (snd (fs ! j)))" "unat (of_nat (length (snd (fs ! j))) :: u32) = length (snd (fs ! j))"
proof -
  have f: "file_in (vw s) (minode s (j + 1)) (freeblock s) (fs ! j)" and "length fs < 208" using s j by (auto simp: image_def)
  then show "j + 1 < 208" "d_size (minode s (j + 1)) = of_nat (length (snd (fs ! j)))"
    "holds (vw s) (d_addrs (minode s (j + 1))) (length (snd (fs ! j))) (freeblock s)"
    "own (vw s) (d_addrs (minode s (j + 1))) \<subseteq> between 59 (freeblock s)" "length (d_addrs (minode s (j + 1))) = NDIRECT + 1"
    using j by (auto simp: file_in_def holds_def mfile_def)
  have "length (snd (fs ! j)) \<le> MAXFILE * BSIZE" "MAXFILE * BSIZE < 2 ^ 32"
    using f by (simp_all add: file_in_def MAXFILE_def NDIRECT_def NINDIRECT_def BSIZE_def)
  then show "unat (of_nat (length (snd (fs ! j))) :: u32) = length (snd (fs ! j))" by (simp add: unat_of_nat)
qed

lemma blocks_for_update:
  assumes "k < length fs"
  shows "blocks_for (fs[k := y]) + nb (length (snd (fs ! k))) = blocks_for fs + nb (length (snd y))"
  using assms unfolding blocks_for_def by (induction fs arbitrary: k) (auto split: nat.split simp: nth_Cons')

lemma iappend_image:
  assumes s: "image s fs" and k: "k < length fs" and len: "length (snd (fs ! k)) + length p \<le> MAXFILE * BSIZE"
    and room: "blocks_for (fs[k := (fst (fs ! k), snd (fs ! k) @ p)]) \<le> 1000"
  shows "\<exists>t. iappend (of_nat (k + 1)) p s = Some t \<and> image t (fs[k := (fst (fs ! k), snd (fs ! k) @ p)])"
proof -
  let ?d = "minode s (k + 1)" and ?x = "fs ! k" and ?y = "(fst (fs ! k), snd (fs ! k) @ p)"
  let ?n = "length (snd ?x)" and ?f = "freeblock s" and ?g = "fs[k := ?y]"
  note i = image_inode [OF s] and ik = image_inode [OF s k]
  have ok: "img_ok s" and bf: "unat ?f = blocks_for fs" using s by (simp_all add: image_def)
  have e: "blocks_for ?g + nb ?n = blocks_for fs + nb (?n + length p)" using blocks_for_update [OF k, of ?y] by simp
  have mono: "nb ?n \<le> nb (?n + length p)" by (simp add: nb_mono)
  have h: "holds (vw s) (d_addrs ?d) (unat (d_size ?d)) ?f" and M: "unat (d_size ?d) + length p \<le> MAXFILE * BSIZE"
    and R: "unat ?f + (nb (unat (d_size ?d) + length p) - nb (unat (d_size ?d))) \<le> 1000"
    using ik len room e mono bf by simp_all
  obtain A u where l: "iappend_loop ?d (d_size ?d) p s = Some (?d\<lparr>d_addrs := A\<rparr>, d_size ?d + of_nat (length p), u)"
    and u: "img_ok u" "freeinode u = freeinode s" and g: "mgrown (vw s) (d_addrs ?d) ?n ?f (vw u) A (freeblock u) p"
    using iappend_loop_law [OF ok h M R] unfolding ik(5,6) by blast
  let ?e = "?d\<lparr>d_addrs := A, d_size := of_nat (?n + length p)\<rparr>"
  have hA: "holds (vw u) A (?n + length p) (freeblock u)" and fu: "unat (freeblock u) = blocks_for ?g" and f1: "unat ?f \<le> unat (freeblock u)"
    and oA: "own (vw u) A \<subseteq> own (vw s) (d_addrs ?d) \<union> between ?f (freeblock u)"
    and same: "\<And>b. unat b < unat ?f \<Longrightarrow> b \<notin> own (vw s) (d_addrs ?d) \<Longrightarrow> vw u b = vw s b"
    using g e mono bf by (auto simp: mgrown_def)
  have f0: "59 \<le> unat ?f" using bf by (simp add: blocks_for_def)
  have lo: "vw u b = vw s b" if "unat b < 59" for b
  proof (rule same)
    show "b \<notin> own (vw s) (d_addrs ?d)" using ik(3) that by (auto simp: between_def)
  qed (use that f0 in simp)
  have iu: "minode u j = minode s j" if "j < 208" for j using lo [of "IBLOCK (of_nat j) mk_sb"] iblock_less [OF that] by (simp add: minode_def)
  have lA: "length (d_addrs ?e) = NDIRECT + 1" using hA by (simp add: holds_def mfile_def)
  obtain t where t: "winode (of_nat (k + 1)) ?e u = Some t" "img_ok t" "freeinode t = freeinode u" "freeblock t = freeblock u"
    and vt: "\<And>b. unat b < 32 \<or> 58 \<le> unat b \<Longrightarrow> vw t b = vw u b"
    and it: "\<And>j. j < 208 \<Longrightarrow> minode t j = (if j = k + 1 then ?e else minode u j)"
    using winode_law [OF u(1) ik(1) lA] by blast
  have st: "iappend (of_nat (k + 1)) p s = Some t"
    using rinode_law [OF ok ik(1)] l t(1) ik(5) by (simp add: iappend_def)
  have hi: "vw t b = vw u b" if "59 \<le> unat b" for b using vt [of b] that by simp
  have oA59: "b \<in> own (vw u) A \<Longrightarrow> 59 \<le> unat b" for b using hA by (auto simp: holds_def between_def)
  have zu: "unat (freeblock u) \<le> unat b \<Longrightarrow> vw t b = zeros" for b using hA hi [of b] f0 f1 by (simp add: holds_def)
  have "file_in (vw u) ?e (freeblock u) ?y" using s k hA len g by (simp add: image_def file_in_def mgrown_def add.commute)
  note fk = file_in_frame [OF this hi [OF oA59] order.refl _ zu]
  have fe: "file_in (vw t) ?e (freeblock t) ?y" "own (vw t) A = own (vw u) A" using fk fu room t(4) by simp_all
  have fj: "file_in (vw t) (minode s (j + 1)) (freeblock t) (fs ! j)"
      "own (vw t) (d_addrs (minode s (j + 1))) = own (vw s) (d_addrs (minode s (j + 1)))" if j: "j < length fs" "j \<noteq> k" for j
  proof -
    have f: "file_in (vw s) (minode s (j + 1)) ?f (fs ! j)" and dj: "own (vw s) (d_addrs (minode s (j + 1))) \<inter> own (vw s) (d_addrs ?d) = {}"
      using s j k by (auto simp: image_def)
    have v: "vw t b = vw s b" if b: "b \<in> own (vw s) (d_addrs (minode s (j + 1)))" for b
    proof -
      have "59 \<le> unat b" "unat b < unat ?f" using i(3) [OF j(1)] b by (auto simp: between_def)
      moreover have "b \<notin> own (vw s) (d_addrs ?d)" using dj b by blast
      ultimately show ?thesis using hi same by simp
    qed
    show "file_in (vw t) (minode s (j + 1)) (freeblock t) (fs ! j)"
      "own (vw t) (d_addrs (minode s (j + 1))) = own (vw s) (d_addrs (minode s (j + 1)))"
      using file_in_frame [OF f v f1 _ zu] fu room t(4) by simp_all
  qed
  have it': "minode t (j + 1) = (if j = k then ?e else minode s (j + 1))" if "j < length fs" for j
    using it [OF i(1) [OF that]] iu [OF i(1) [OF that]] by simp
  have "image t ?g"
    unfolding image_def length_list_update
  proof (intro conjI allI impI)
    fix j assume j: "j < length fs"
    then show "file_in (vw t) (minode t (j + 1)) (freeblock t) (?g ! j)" using it' [OF j] fe fj [OF j] k by (auto simp: nth_list_update)
    fix l assume l: "l < length fs" "l \<noteq> j"
    have ow: "own (vw t) (d_addrs (minode t (j + 1))) = (if j = k then own (vw u) A else own (vw s) (d_addrs (minode s (j + 1))))"
      if "j < length fs" for j using it' [OF that] fe(2) fj(2) [OF that] by simp
    have djs: "own (vw s) (d_addrs (minode s (l + 1))) \<inter> own (vw s) (d_addrs (minode s (j + 1))) = {}" using s j l by (simp add: image_def)
    have new: "own (vw s) (d_addrs (minode s (m + 1))) \<inter> between ?f (freeblock u) = {}" if "m < length fs" for m
      using i(3) [OF that] by (auto simp: between_def)
    show "own (vw t) (d_addrs (minode t (l + 1))) \<inter> own (vw t) (d_addrs (minode t (j + 1))) = {}"
      using ow [OF j] ow [OF l(1)] djs new [OF j] new [OF l(1)] oA l(2) by (auto split: if_splits)
  next
    show "vw t 1 = overwrite zeros 0 (sb_bytes mk_sb)" using vt [of 1] lo [of 1] s by (simp add: image_def)
    fix b :: u32 assume "2 \<le> unat b \<and> unat b < 32"
    then show "vw t b = zeros" using vt [of b] lo [of b] s by (simp add: image_def)
  next
    fix m assume m: "length fs < m \<and> m < 208"
    then show "d_type (minode t m) = 0" using it [of m] iu [of m] s k by (auto simp: image_def)
  qed (use s t u fu room zu in \<open>auto simp: image_def\<close>)
  with st show ?thesis by blast
qed

end
