(* ===== verification/Mkfs_Props.thy ===== *)
theory Mkfs_Props
  imports Mkfs_Laws
begin

text \<open>What mkfs as a whole builds: the property of the image, and a run on a small list of files.\<close>

section \<open>The empty image\<close>

lemma zero_sectors:
  assumes "n \<le> 1000" "mk_img s = []"
  shows "mk_img (fold (\<lambda>i. wsect (of_nat i) zeros) [0..<n] s) = replicate n zeros"
    "freeinode (fold (\<lambda>i. wsect (of_nat i) zeros) [0..<n] s) = freeinode s"
    "freeblock (fold (\<lambda>i. wsect (of_nat i) zeros) [0..<n] s) = freeblock s"
proof -
  have "mk_img (fold (\<lambda>i. wsect (of_nat i) zeros) [0..<n] s) = replicate n zeros \<and>
      freeinode (fold (\<lambda>i. wsect (of_nat i) zeros) [0..<n] s) = freeinode s \<and>
      freeblock (fold (\<lambda>i. wsect (of_nat i) zeros) [0..<n] s) = freeblock s"
    using assms(1)
  proof (induction n)
    case (Suc n)
    have "unat (of_nat n :: u32) = n" using Suc.prems by (simp add: unat_of_nat)
    then show ?case using Suc by (simp add: wsect_def Let_def list_update_append flip: replicate_append_same)
  qed (use assms(2) in simp)
  then show "mk_img (fold (\<lambda>i. wsect (of_nat i) zeros) [0..<n] s) = replicate n zeros"
    "freeinode (fold (\<lambda>i. wsect (of_nat i) zeros) [0..<n] s) = freeinode s"
    "freeblock (fold (\<lambda>i. wsect (of_nat i) zeros) [0..<n] s) = freeblock s" by simp_all
qed

lemma zero_inode: "k < IPB \<Longrightarrow> d_type (get_dinode zeros k) = 0"
  by (simp add: get_dinode_def at16_nth zeros_def IPB_def BSIZE_def)

lemma mk_start_image: "image mk_start []"
proof -
  define s0 where "s0 = fold (\<lambda>i. wsect (of_nat i) zeros) [0..<unat FSSIZE] \<lparr>mk_img = [], freeinode = 1, freeblock = of_nat nmeta\<rparr>"
  let ?b = "overwrite zeros 0 (sb_bytes mk_sb)"
  have F: "unat FSSIZE \<le> 1000" "unat FSSIZE = 1000" by (simp_all add: FSSIZE_def)
  have z: "mk_img s0 = replicate 1000 zeros" "freeinode s0 = 1" "freeblock s0 = 59"
    unfolding s0_def F(2) by (simp_all add: zero_sectors)
  have ok: "img_ok s0" using z by (simp add: img_ok_def)
  have v: "vw s0 = (\<lambda>_. zeros)" by (simp add: vw_def z fun_eq_iff)
  have l: "length ?b = BSIZE" by (simp add: sb_bytes_def BSIZE_def)
  have w: "mk_start = wsect 1 ?b s0" unfolding mk_start_def s0_def Let_def ..
  have t: "vw mk_start = (\<lambda>_. zeros)(1 := ?b)" "img_ok mk_start" "freeinode mk_start = 1" "freeblock mk_start = 59"
    using wsect_view [OF ok _ l, of 1] z v by (simp_all add: w)
  have ni: "minode mk_start k = get_dinode zeros (k mod IPB)" if "k < 208" for k
    using iblock [OF that] by (auto simp: minode_def t)
  have "d_type (minode mk_start k) = 0" if "k < 208" for k
    using ni [OF that] zero_inode [of "k mod IPB"] by (simp add: IPB_def BSIZE_def)
  then show ?thesis by (auto simp: image_def t blocks_for_def)
qed

section \<open>Allocating and filling files\<close>

definition no_addrs :: "u32 list" where "no_addrs = replicate (NDIRECT + 1) 0"

lemma no_addrs: "length no_addrs = NDIRECT + 1" "i < NDIRECT + 1 \<Longrightarrow> no_addrs ! i = 0"
  unfolding no_addrs_def by (rule length_replicate, rule nth_replicate)

lemma holds_empty:
  assumes "59 \<le> unat f" "unat f \<le> 1000" "\<And>b. unat f \<le> unat b \<Longrightarrow> v b = zeros"
  shows "holds v no_addrs 0 f" "own v no_addrs = {}"
proof -
  have b: "fblk v no_addrs bn = 0" for bn by (simp add: fblk_def no_addrs)
  then show o: "own v no_addrs = {}" by (auto simp: own_def no_addrs)
  show "holds v no_addrs 0 f" using assms b o by (simp add: holds_def mfile_def no_addrs)
qed

lemma ialloc_image:
  assumes s: "image s fs" and n: "length fs + 1 < 208"
  shows "\<exists>t. mk_ialloc ty s = Some (of_nat (length fs + 1), t) \<and> image t (fs @ [(ty, [])])"
proof -
  let ?k = "length fs + 1"
  let ?d = "\<lparr>d_type = ty, d_major = 0, d_minor = 0, d_nlink = 1, d_size = 0, d_addrs = no_addrs\<rparr>"
  let ?s = "s\<lparr>freeinode := freeinode s + 1\<rparr>"
  have ok: "img_ok ?s" and fi: "freeinode s = of_nat ?k" and bf: "unat (freeblock s) = blocks_for fs" "blocks_for fs \<le> 1000"
    and zs: "\<And>b. unat (freeblock s) \<le> unat b \<Longrightarrow> vw s b = zeros" using s by (simp_all add: image_def)
  have f0: "59 \<le> unat (freeblock s)" "unat (freeblock s) \<le> 1000" using bf by (simp_all add: blocks_for_def)
  have mi: "minode ?s j = minode s j" for j by (simp add: minode_def)
  have l: "length (d_addrs ?d) = NDIRECT + 1" by (simp add: no_addrs)
  obtain t where t: "winode (of_nat ?k) ?d ?s = Some t" "img_ok t" "freeinode t = freeinode s + 1" "freeblock t = freeblock s"
    and vt: "\<And>b. unat b < 32 \<or> 58 \<le> unat b \<Longrightarrow> vw t b = vw s b"
    and it: "\<And>j. j < 208 \<Longrightarrow> minode t j = (if j = ?k then ?d else minode s j)"
    using winode_law [OF ok n l] unfolding mi by auto
  have hi: "vw t b = vw s b" if "59 \<le> unat b" for b using vt [of b] that by simp
  have zt: "vw t b = zeros" if "unat (freeblock t) \<le> unat b" for b using hi [of b] zs [of b] that f0 t by simp
  have fj: "file_in (vw t) (minode s (j + 1)) (freeblock t) (fs ! j)"
      "own (vw t) (d_addrs (minode s (j + 1))) = own (vw s) (d_addrs (minode s (j + 1)))" if j: "j < length fs" for j
  proof -
    have f: "file_in (vw s) (minode s (j + 1)) (freeblock s) (fs ! j)" using s j by (simp add: image_def)
    have v: "vw t b = vw s b" if "b \<in> own (vw s) (d_addrs (minode s (j + 1)))" for b
      using image_inode(3) [OF s j] that by (intro hi) (auto simp: between_def)
    show "file_in (vw t) (minode s (j + 1)) (freeblock t) (fs ! j)"
      "own (vw t) (d_addrs (minode s (j + 1))) = own (vw s) (d_addrs (minode s (j + 1)))"
      using file_in_frame [OF f v order.refl f0(2)] zt t(4) by simp_all
  qed
  have it': "minode t (j + 1) = (if j = length fs then ?d else minode s (j + 1))" if "j < length fs + 1" for j
    using it [of "j + 1"] that n by simp
  have f1: "59 \<le> unat (freeblock t)" "unat (freeblock t) \<le> 1000" using f0 t(4) by simp_all
  note e = holds_empty [OF f1, of "vw t"]
  have fd: "file_in (vw t) ?d (freeblock t) (ty, [])" "own (vw t) (d_addrs ?d) = {}"
    using e zt by (simp_all add: file_in_def mbytes_def)
  have "image t (fs @ [(ty, [])])"
    unfolding image_def length_append_singleton
  proof (intro conjI allI impI)
    fix j assume j: "j < Suc (length fs)"
    then show "file_in (vw t) (minode t (j + 1)) (freeblock t) ((fs @ [(ty, [])]) ! j)"
      using it' [of j] fd fj [of j] by (auto simp: nth_append)
    fix l assume l: "l < Suc (length fs)" "l \<noteq> j"
    show "own (vw t) (d_addrs (minode t (l + 1))) \<inter> own (vw t) (d_addrs (minode t (j + 1))) = {}"
      using it' [of j] it' [of l] fd(2) fj(2) [of j] fj(2) [of l] j l s by (auto simp: image_def)
  next
    show "vw t 1 = overwrite zeros 0 (sb_bytes mk_sb)" using vt [of 1] s by (simp add: image_def)
    fix b :: u32 assume "2 \<le> unat b \<and> unat b < 32"
    then show "vw t b = zeros" using vt [of b] s by (simp add: image_def)
  next
    fix m assume "Suc (length fs) < m \<and> m < 208"
    then show "d_type (minode t m) = 0" using it [of m] s by (simp add: image_def)
  qed (use n t fi bf zt in \<open>auto simp: blocks_for_def nb_def\<close>)
  moreover have "mk_ialloc ty s = Some (of_nat ?k, t)" using t(1) fi unfolding mk_ialloc_def no_addrs_def Let_def xint xshort by simp
  ultimately show ?thesis by blast
qed

section \<open>The files of the command line\<close>

text \<open>What the image should hold: the root directory with an entry for each file, and the files. The underscore in front
  of a name is dropped; the inodes are numbered in order, from 2.\<close>

definition entry_name :: "byte list \<Rightarrow> byte list" where
  "entry_name nm = (if nm \<noteq> [] \<and> hd nm = 95 then tl nm else nm)"

definition root_dir :: "(byte list \<times> byte list) list \<Rightarrow> byte list" where
  "root_dir files = dirent_of 1 [46] @ dirent_of 1 [46, 46] @
     concat (map (\<lambda>i. dirent_of (of_nat (i + 2)) (entry_name (fst (files ! i)))) [0..<length files])"

definition made :: "(byte list \<times> byte list) list \<Rightarrow> (u16 \<times> byte list) list" where
  "made files = (T_DIR, root_dir files) # map (\<lambda>f. (T_FILE, snd f)) files"

lemma length_dirent_of [simp]: "length (dirent_of i nm) = 16"
  by (simp add: dirent_of_def dirent_bytes_def strncpy_bytes_def Let_def DIRSIZ_def)

lemma length_root_dir [simp]: "length (root_dir files) = 16 * (length files + 2)"
proof -
  have "length (concat (map (\<lambda>i. dirent_of (of_nat (i + 2)) (nm i)) [0..<n])) = 16 * n" for nm :: "nat \<Rightarrow> byte list" and n
    by (induction n) simp_all
  then show ?thesis by (simp add: root_dir_def)
qed

lemma root_dir_snoc: "root_dir (files @ [f]) = root_dir files @ dirent_of (of_nat (length files + 2)) (entry_name (fst f))"
  by (simp add: root_dir_def, intro arg_cong [of _ _ concat] map_cong) (simp_all add: nth_append)

lemma blocks_for_append: "blocks_for (xs @ ys) = blocks_for xs + (\<Sum>y\<leftarrow>ys. nb (length (snd y)))"
  by (simp add: blocks_for_def)

lemma blocks_for_made: "blocks_for (made (files @ [f])) =
    59 + nb (length (root_dir (files @ [f]))) + (\<Sum>x\<leftarrow>files. nb (length (snd x))) + nb (length (snd f))"
  by (simp add: made_def blocks_for_def comp_def)

lemma made_mono: "blocks_for (made files) \<le> blocks_for (made (files @ gs))"
proof -
  have "nb (16 * (length files + 2)) \<le> nb (16 * (length (files @ gs) + 2))" by (rule nb_mono) simp
  then show ?thesis by (simp add: made_def blocks_for_def comp_def)
qed

lemma copy_file_image:
  assumes "image s fs" "k < length fs" "length (snd (fs ! k)) + length xs \<le> MAXFILE * BSIZE"
    "blocks_for (fs[k := (fst (fs ! k), snd (fs ! k) @ xs)]) \<le> 1000"
  shows "\<exists>t. copy_file (of_nat (k + 1)) xs s = Some t \<and> image t (fs[k := (fst (fs ! k), snd (fs ! k) @ xs)])"
  using assms
proof (induction "length xs" arbitrary: xs s fs rule: less_induct)
  case less
  let ?up = "\<lambda>p. fs[k := (fst (fs ! k), snd (fs ! k) @ p)]"
  show ?case
  proof (cases "xs = []")
    case True
    then show ?thesis using less.prems(1) by (subst copy_file.simps) simp
  next
    case False
    let ?p = "take BSIZE xs" and ?r = "drop BSIZE xs"
    note s = less.prems(1) and k = less.prems(2)
    have M: "length (snd (fs ! k)) + length ?p \<le> MAXFILE * BSIZE" using less.prems(3) by simp
    have "nb (length (snd (fs ! k) @ ?p)) \<le> nb (length (snd (fs ! k) @ xs))" by (rule nb_mono) simp
    then have R: "blocks_for (?up ?p) \<le> 1000"
      using blocks_for_update [OF k, of "(fst (fs ! k), snd (fs ! k) @ ?p)"] blocks_for_update [OF k, of "(fst (fs ! k), snd (fs ! k) @ xs)"] less.prems(4) by simp
    obtain t where t: "iappend (of_nat (k + 1)) ?p s = Some t" "image t (?up ?p)" using iappend_image [OF s k M R] by blast
    have kt: "(?up ?p) ! k = (fst (fs ! k), snd (fs ! k) @ ?p)" and lt: "length (?up ?p) = length fs" using k by simp_all
    have le: "length ?r < length xs" using False by (simp add: BSIZE_def)
    have pr: "length ?p + length ?r = length xs" by simp
    have up: "(?up ?p)[k := (fst ((?up ?p) ! k), snd ((?up ?p) ! k) @ ?r)] = ?up xs" unfolding kt by simp
    have M2: "length (snd ((?up ?p) ! k)) + length ?r \<le> MAXFILE * BSIZE" using less.prems(3) pr unfolding kt by simp
    have k2: "k < length (?up ?p)" using k by simp
    have R2: "blocks_for ((?up ?p)[k := (fst ((?up ?p) ! k), snd ((?up ?p) ! k) @ ?r)]) \<le> 1000" unfolding up by (rule less.prems(4))
    obtain u where u: "copy_file (of_nat (k + 1)) ?r t = Some u" "image u (?up xs)"
      using less.hyps [OF le t(2) k2 M2 R2] unfolding up by blast
    have "copy_file (of_nat (k + 1)) xs s = Some u" using False t(1) u(1) by (subst copy_file.simps) simp
    then show ?thesis using u(2) by blast
  qed
qed

lemma add_file_image:
  assumes s: "image s (made files)" and f: "slash \<notin> set (fst f)" "length (snd f) \<le> MAXFILE * BSIZE" and n: "length files + 2 < 208"
    and room: "blocks_for (made (files @ [f])) \<le> 1000"
  shows "\<exists>t. add_file 1 f s = Some t \<and> image t (made (files @ [f]))"
proof -
  have nb0: "nb 0 = 0" by (simp add: nb_def BSIZE_def)
  let ?e = "dirent_of (of_nat (length files + 2)) (entry_name (fst f))"
  let ?fs = "made files @ [(T_FILE, [])]"
  have l: "length (made files) = length files + 1" by (simp add: made_def)
  have n1: "length (made files) + 1 < 208" using n l by simp
  obtain s1 where s1: "mk_ialloc T_FILE s = Some (of_nat (length files + 2), s1)" "image s1 ?fs"
    using ialloc_image [OF s n1, of T_FILE] unfolding l by (auto simp: add.assoc)
  have r0: "?fs ! 0 = (T_DIR, root_dir files)" and r1: "?fs[0 := (T_DIR, root_dir files @ x)] = (T_DIR, root_dir files @ x) # map (\<lambda>f. (T_FILE, snd f)) files @ [(T_FILE, [])]" for x
    by (simp_all add: made_def)
  have dl: "length (snd (?fs ! 0)) + length ?e \<le> MAXFILE * BSIZE"
    unfolding r0 using n by (simp add: MAXFILE_def NDIRECT_def NINDIRECT_def BSIZE_def)
  have k0: "0 < length ?fs" by simp
  have "blocks_for (?fs[0 := (fst (?fs ! 0), snd (?fs ! 0) @ ?e)]) \<le> 1000"
    unfolding r0 fst_conv snd_conv r1
    using room nb0 unfolding root_dir_snoc [symmetric] blocks_for_made by (simp add: blocks_for_def comp_def)
  from iappend_image [OF s1(2) k0 dl this] obtain s2 where s2: "iappend 1 ?e s1 = Some s2" "image s2 (?fs[0 := (T_DIR, root_dir files @ ?e)])"
    unfolding r0 by auto
  let ?gs = "?fs[0 := (T_DIR, root_dir files @ ?e)]" and ?k = "length files + 1"
  have g: "?gs ! ?k = (T_FILE, [])" and kg: "?k < length ?gs" by (simp_all add: made_def nth_append)
  have up: "?gs[?k := (fst (?gs ! ?k), snd (?gs ! ?k) @ snd f)] = made (files @ [f])"
    unfolding g unfolding r1 root_dir_snoc [symmetric] by (simp add: made_def list_update_append)
  have fl: "length (snd (?gs ! ?k)) + length (snd f) \<le> MAXFILE * BSIZE" using f(2) unfolding g by simp
  have "blocks_for (?gs[?k := (fst (?gs ! ?k), snd (?gs ! ?k) @ snd f)]) \<le> 1000" unfolding up by (rule room)
  from copy_file_image [OF s2(2) kg fl this] obtain t
    where t: "copy_file (of_nat (length files + 2)) (snd f) s2 = Some t" "image t (made (files @ [f]))" unfolding up by auto
  then show ?thesis using f(1) s1(1) s2(1) by (intro exI [of _ t]) (simp add: add_file_def entry_name_def Let_def)
qed

lemma add_files_image:
  assumes "image s (made fs)" "\<forall>f \<in> set gs. slash \<notin> set (fst f) \<and> length (snd f) \<le> MAXFILE * BSIZE" "length (fs @ gs) + 1 < 208"
    "blocks_for (made (fs @ gs)) \<le> 1000"
  shows "\<exists>t. add_files 1 gs s = Some t \<and> image t (made (fs @ gs))"
  using assms
proof (induction gs arbitrary: fs s)
  case (Cons g gs)
  have r: "blocks_for (made (fs @ [g])) \<le> 1000" using made_mono [of "fs @ [g]" gs] Cons.prems(4) by simp
  obtain t where t: "add_file 1 g s = Some t" "image t (made (fs @ [g]))"
    using add_file_image [OF Cons.prems(1) _ _ _ r] Cons.prems(2,3) by auto
  show ?case using Cons.IH [OF t(2)] Cons.prems t(1) by simp
qed simp

lemma root_image:
  obtains s t u where "mk_ialloc T_DIR mk_start = Some (1, s)" "iappend 1 (dirent_of 1 [46]) s = Some t"
    "iappend 1 (dirent_of 1 [46, 46]) t = Some u" "image u (made [])"
proof -
  have d: "[(T_DIR, [])] ! 0 = (T_DIR, [])" for x :: "byte list" by simp
  have nb16: "nb 16 = 1" "nb 32 = 1" by (simp_all add: nb_def BSIZE_def NDIRECT_def)
  have M: "16 \<le> MAXFILE * BSIZE" "32 \<le> MAXFILE * BSIZE" by (simp_all add: MAXFILE_def NDIRECT_def NINDIRECT_def BSIZE_def)
  obtain s where s: "mk_ialloc T_DIR mk_start = Some (1, s)" "image s [(T_DIR, [])]"
    using ialloc_image [OF mk_start_image, of T_DIR] by auto
  obtain t where t: "iappend 1 (dirent_of 1 [46]) s = Some t" "image t [(T_DIR, dirent_of 1 [46])]"
    using iappend_image [OF s(2), of 0 "dirent_of 1 [46]"] M nb16 by (auto simp: blocks_for_def)
  obtain u where u: "iappend 1 (dirent_of 1 [46, 46]) t = Some u" "image u [(T_DIR, dirent_of 1 [46] @ dirent_of 1 [46, 46])]"
    using iappend_image [OF t(2), of 0 "dirent_of 1 [46, 46]"] M nb16 by (auto simp: blocks_for_def)
  then show thesis using that s(1) t(1) by (simp add: made_def root_dir_def)
qed

section \<open>The bitmap and the size of the root directory\<close>

lemma bits_set:
  assumes "n \<le> BSIZE * 8" "i < BSIZE * 8"
  defines "buf \<equiv> fold (\<lambda>i buf. buf[i div 8 := buf ! (i div 8) OR push_bit (i mod 8) 1]) [0..<n] zeros"
  shows "length buf = BSIZE \<and> (used_bit buf i \<longleftrightarrow> i < n)"
  using assms(1) unfolding buf_def
proof (induction n)
  case 0
  show ?case using assms(2) by (simp add: used_bit_def zeros_def)
next
  case (Suc n)
  then show ?case
    using used_set_bit [of n "fold (\<lambda>i buf. buf[i div 8 := buf ! (i div 8) OR push_bit (i mod 8) 1]) [0..<n] zeros" i]
    by (auto simp: set_bit_at_def bit_mask_def)
qed

lemma mk_balloc_law:
  assumes s: "img_ok s" and n: "unat n \<le> 1000"
  shows "\<exists>t. mk_balloc n s = Some t \<and> img_ok t \<and> (\<forall>b. b \<noteq> 58 \<longrightarrow> vw t b = vw s b) \<and>
    (\<forall>b < 1000. used mk_sb (vw t) b \<longleftrightarrow> unat b < unat n)"
proof -
  let ?b = "fold (\<lambda>i buf. buf[i div 8 := buf ! (i div 8) OR push_bit (i mod 8) 1]) [0..<unat n] zeros"
  have m: "unat n \<le> BSIZE * 8" "unat n < BSIZE * 8" using n by (simp_all add: BSIZE_def)
  have l: "length ?b = BSIZE" using bits_set [OF m(1), of 0] by (simp add: BSIZE_def)
  note w = wsect_view [OF s _ l, of 58]
  have "used mk_sb (vw (wsect 58 ?b s)) b \<longleftrightarrow> unat b < unat n" if "b < 1000" for b :: u32
  proof -
    have b: "unat b < 1000" using that by (simp add: word_less_nat_alt)
    then have "b div of_nat BPB = 0" by (simp add: BPB_def BSIZE_def word_unat_eq_iff unat_div_distrib)
    then show ?thesis using bits_set [OF m(1), of "unat b"] b w by (simp add: used_def BBLOCK_def BPB_def BSIZE_def)
  qed
  then show ?thesis using m w by (simp add: mk_balloc_def not_le)
qed

lemma fix_root_law:
  assumes s: "image s fs" and k: "0 < length fs"
  shows "\<exists>t. fix_root 1 s = Some t \<and> img_ok t \<and> freeblock t = freeblock s \<and> (\<forall>b. unat b < 32 \<or> 58 \<le> unat b \<longrightarrow> vw t b = vw s b) \<and>
    (\<forall>j < 208. minode t j =
      (if j = 1 then (minode s 1)\<lparr>d_size := of_nat ((length (snd (fs ! 0)) div BSIZE + 1) * BSIZE)\<rparr> else minode s j))"
proof -
  let ?n = "length (snd (fs ! 0))"
  note i = image_inode [OF s k]
  have ok: "img_ok s" using s by (simp add: image_def)
  have "?n < 2 ^ 32" using i(6) unat32_less [of "of_nat ?n :: u32"] by simp
  then have "of_nat ?n div of_nat BSIZE = (of_nat (?n div BSIZE) :: u32)"
    using i(6) by (simp add: word_unat_eq_iff unat_div_distrib unat_of_nat BSIZE_def)
  then have "(of_nat ?n div of_nat BSIZE + 1) * of_nat BSIZE = (of_nat ((?n div BSIZE + 1) * BSIZE) :: u32)" by (simp add: distrib_right)
  moreover define x :: u32 where "x = of_nat ((?n div BSIZE + 1) * BSIZE)"
  ultimately have e: "(d_size (minode s 1) div of_nat BSIZE + 1) * of_nat BSIZE = x" using i(5) by simp
  have "rinode 1 s = Some (minode s 1)" using rinode_law [OF ok, of 1] by simp
  then have r: "fix_root 1 s = winode 1 ((minode s 1)\<lparr>d_size := x\<rparr>) s" by (simp only: fix_root_def Let_def xint e bind.bind_lunit)
  have l: "length (d_addrs ((minode s 1)\<lparr>d_size := x\<rparr>)) = NDIRECT + 1" using i(4) by simp
  have one: "1 < (208 :: nat)" by simp
  show ?thesis using winode_law [OF ok one l] unfolding x_def [symmetric] r of_nat_1 by blast
qed

section \<open>The whole program\<close>

lemma image_file_ok:
  assumes s: "image s fs" and k: "k < length fs" and v: "\<forall>b. 59 \<le> unat b \<longrightarrow> v b = vw s b"
    and u: "\<forall>b < 1000. used mk_sb v b \<longleftrightarrow> unat b < unat (freeblock s)"
  shows "file_ok mk_sb v (d_addrs (minode s (k + 1)))" "mbytes v (d_addrs (minode s (k + 1))) (length (snd (fs ! k))) = snd (fs ! k)"
    "own v (d_addrs (minode s (k + 1))) = own (vw s) (d_addrs (minode s (k + 1)))"
    "\<forall>bn < MAXFILE. fblk v (d_addrs (minode s (k + 1))) bn \<noteq> 0 \<longleftrightarrow> bn * BSIZE < length (snd (fs ! k))"
proof -
  let ?A = "d_addrs (minode s (k + 1))"
  note i = image_inode [OF s k]
  have f: "file_in (vw s) (minode s (k + 1)) (freeblock s) (fs ! k)" and fb: "unat (freeblock s) \<le> 1000" "59 \<le> unat (freeblock s)"
    and z: "\<And>b. unat (freeblock s) \<le> unat b \<Longrightarrow> vw s b = zeros"
    using s k by (auto simp: image_def blocks_for_def)
  have o: "59 \<le> unat b \<and> unat b < unat (freeblock s)" if "b \<in> own (vw s) ?A" for b using i(3) that by (auto simp: between_def)
  have zv: "v b = zeros" if "unat (freeblock s) \<le> unat b" for b using z [OF that] v that fb(2) by simp
  have sv: "v b = vw s b" if "b \<in> own (vw s) ?A" for b using v o [OF that] by simp
  have g: "file_in v (minode s (k + 1)) (freeblock s) (fs ! k)" and ow: "own v ?A = own (vw s) ?A"
    using file_in_frame [OF f sv order.refl fb(1) zv] by simp_all
  show "own v ?A = own (vw s) ?A" by (rule ow)
  have m: "mfile v ?A (length (snd (fs ! k)))" using g by (simp add: file_in_def holds_def)
  then show "\<forall>bn < MAXFILE. fblk v ?A bn \<noteq> 0 \<longleftrightarrow> bn * BSIZE < length (snd (fs ! k))" by (simp add: mfile_def)
  show "mbytes v ?A (length (snd (fs ! k))) = snd (fs ! k)" using g by (simp add: file_in_def)
  have "data_block mk_sb b \<and> used mk_sb v b" if "b \<in> own v ?A" for b
  proof -
    have b: "59 \<le> unat b" "unat b < unat (freeblock s)" "b < 1000" using o [of b] that ow fb by (auto simp: word_less_nat_alt)
    then show ?thesis using u by (simp add: data_block_def data_start_def BPB_def BSIZE_def)
  qed
  then show "file_ok mk_sb v ?A" using m by (simp add: file_ok_def mfile_def)
qed

lemma mkfs_main_image:
  assumes ok: "\<forall>f \<in> set files. slash \<notin> set (fst f) \<and> length (snd f) \<le> MAXFILE * BSIZE" and n: "length files + 2 \<le> NINODES"
    and room: "blocks_for (made files) \<le> unat FSSIZE"
  shows "\<exists>s u. mkfs_main files = Some u \<and> image s (made files) \<and> img_ok u \<and>
    (\<forall>b. unat b < 32 \<or> 59 \<le> unat b \<longrightarrow> vw u b = vw s b) \<and>
    (\<forall>b < 1000. used mk_sb (vw u) b \<longleftrightarrow> unat b < unat (freeblock s)) \<and>
    (\<forall>j < 208. minode u j =
      (if j = 1 then (minode s 1)\<lparr>d_size := of_nat ((length (root_dir files) div BSIZE + 1) * BSIZE)\<rparr> else minode s j))"
proof -
  have F: "FSSIZE = 1000" "unat FSSIZE = 1000" "NINODES = 200" by (simp_all add: FSSIZE_def NINODES_def)
  obtain s0 t0 u0 where r: "mk_ialloc T_DIR mk_start = Some (1, s0)" "iappend 1 (dirent_of 1 [46]) s0 = Some t0"
    "iappend 1 (dirent_of 1 [46, 46]) t0 = Some u0" "image u0 (made [])" by (rule root_image)
  obtain s where s: "add_files 1 files u0 = Some s" "image s (made files)"
    using add_files_image [OF r(4) ok] n room F by auto
  have k0: "0 < length (made files)" "made files ! 0 = (T_DIR, root_dir files)" by (simp_all add: made_def)
  obtain t where t: "fix_root 1 s = Some t" "img_ok t" "freeblock t = freeblock s"
    and vt: "\<And>b. unat b < 32 \<or> 58 \<le> unat b \<Longrightarrow> vw t b = vw s b"
    and it: "\<And>j. j < 208 \<Longrightarrow> minode t j = (if j = 1 then (minode s 1)\<lparr>d_size := of_nat ((length (root_dir files) div BSIZE + 1) * BSIZE)\<rparr> else minode s j)"
    using fix_root_law [OF s(2) k0(1)] unfolding k0(2) snd_conv by blast
  have fb: "unat (freeblock s) = blocks_for (made files)" "unat (freeblock t) \<le> 1000" using s(2) t(3) by (simp_all add: image_def)
  obtain u where u: "mk_balloc (freeblock t) t = Some u" "img_ok u" "\<And>b. b \<noteq> 58 \<Longrightarrow> vw u b = vw t b"
      "\<And>b. b < 1000 \<Longrightarrow> used mk_sb (vw u) b \<longleftrightarrow> unat b < unat (freeblock s)"
    using mk_balloc_law [OF t(2) fb(2)] t(3) by auto
  have iu: "minode u j = minode t j" if "j < 208" for j
  proof -
    have "IBLOCK (of_nat j) mk_sb \<noteq> 58" using iblock_less [OF that] by (intro notI) simp
    then show ?thesis by (simp add: minode_def u(3))
  qed
  have vu: "vw u b = vw s b" if "unat b < 32 \<or> 59 \<le> unat b" for b using u(3) [of b] vt [of b] that by (cases "b = 58") auto
  have main: "mkfs_main files = Some u" using r s(1) t(1) u(1) by (simp add: mkfs_main_def ROOTINO_def)
  show ?thesis using main s(2) u(2) vu u(4) iu it by (intro exI [of _ s] exI [of _ u]) simp
qed

lemma made_file:
  assumes s: "image s (made files)" and vu: "\<forall>b. unat b < 32 \<or> 59 \<le> unat b \<longrightarrow> vw u b = vw s b"
    and us: "\<forall>b < 1000. used mk_sb (vw u) b \<longleftrightarrow> unat b < unat (freeblock s)"
    and iu: "\<forall>j < 208. minode u j =
      (if j = 1 then (minode s 1)\<lparr>d_size := of_nat ((length (root_dir files) div BSIZE + 1) * BSIZE)\<rparr> else minode s j)"
    and n: "length files + 2 \<le> NINODES" and k: "k < length (made files)"
  shows "let d = minode u (k + 1); (ty, xs) = made files ! k in
       d_type d = ty \<and> d_nlink d = 1 \<and> file_ok mk_sb (vw u) (d_addrs d) \<and> mbytes (vw u) (d_addrs d) (length xs) = xs \<and>
       unat (d_size d) = (if k = 0 then (length xs div BSIZE + 1) * BSIZE else length xs) \<and>
       (\<forall>bn < MAXFILE. fblk (vw u) (d_addrs d) bn \<noteq> 0 \<longleftrightarrow> bn * BSIZE < length xs)"
    "own (vw u) (d_addrs (minode u (k + 1))) = own (vw s) (d_addrs (minode s (k + 1)))"
proof -
  have lm: "length (made files) = length files + 1" and k0: "made files ! 0 = (T_DIR, root_dir files)" by (simp_all add: made_def)
  have mu: "minode u (k + 1) = (if k = 0 then (minode s 1)\<lparr>d_size := of_nat ((length (root_dir files) div BSIZE + 1) * BSIZE)\<rparr> else minode s (k + 1))"
    using iu [rule_format, of "k + 1"] k n lm by (simp add: NINODES_def)
  then have au: "d_addrs (minode u (k + 1)) = d_addrs (minode s (k + 1))" by simp
  have v59: "\<forall>b. 59 \<le> unat b \<longrightarrow> vw u b = vw s b" using vu by simp
  note fo = image_file_ok [OF s k v59 us]
  show "own (vw u) (d_addrs (minode u (k + 1))) = own (vw s) (d_addrs (minode s (k + 1)))" unfolding au by (rule fo(3))
  have "file_in (vw s) (minode s (k + 1)) (freeblock s) (made files ! k)" using s k by (simp add: image_def)
  then have d: "d_type (minode u (k + 1)) = fst (made files ! k)" "d_nlink (minode u (k + 1)) = 1"
    using mu by (cases "k = 0"; simp add: file_in_def)+
  have "(length (root_dir files) div BSIZE + 1) * BSIZE < 2 ^ 32"
    using n div_times_less_eq_dividend [of "length (root_dir files)" BSIZE] by (simp add: BSIZE_def NINODES_def)
  then have "unat (d_size (minode u (k + 1))) =
      (if k = 0 then (length (snd (made files ! k)) div BSIZE + 1) * BSIZE else length (snd (made files ! k)))"
    using mu image_inode(5,6) [OF s k] k0 by (simp add: unat_of_nat del: of_nat_mult of_nat_add)
  then show "let d = minode u (k + 1); (ty, xs) = made files ! k in
       d_type d = ty \<and> d_nlink d = 1 \<and> file_ok mk_sb (vw u) (d_addrs d) \<and> mbytes (vw u) (d_addrs d) (length xs) = xs \<and>
       unat (d_size d) = (if k = 0 then (length xs div BSIZE + 1) * BSIZE else length xs) \<and>
       (\<forall>bn < MAXFILE. fblk (vw u) (d_addrs d) bn \<noteq> 0 \<longleftrightarrow> bn * BSIZE < length xs)"
    using d fo(1,2,4) unfolding au Let_def case_prod_beta by blast
qed

text \<open>C24: mkfs builds the file system that its arguments describe, and one that the kernel accepts. When the names have no
  slash, no file is larger than \<open>MAXFILE\<close> blocks, there are inodes for all files, and the blocks, with the indirect blocks,
  do not exceed the size of the image, it ends without an error. Then the second sector holds the superblock; the log is empty; the
  bitmap marks exactly the blocks in front of the first one that was not given out; inode 1 is a directory whose bytes
  are the entries \<open>.\<close>, \<open>..\<close> and one for each file, in order, without its leading underscore; inode \<open>i + 2\<close> is a file with the
  bytes of the \<open>i\<close>-th file and its size; the blocks of each, as \<open>bmap\<close> of the kernel finds them, are data blocks in
  use, and no block belongs to two files; all other inodes are free. The size of the root directory is rounded up to the next greater
  multiple of the block size: when its entries fill their blocks exactly, as with 30 files, the size covers a
  block that the inode does not have.\<close>

theorem mkfs_builds:
  assumes ok: "\<forall>f \<in> set files. slash \<notin> set (fst f) \<and> length (snd f) \<le> MAXFILE * BSIZE" and n: "length files + 2 \<le> NINODES"
    and room: "blocks_for (made files) \<le> unat FSSIZE"
  shows "\<exists>s. mkfs_main files = Some s \<and> length (mk_img s) = unat FSSIZE \<and> take 28 (vw s 1) = sb_bytes mk_sb \<and>
    (\<forall>b. 2 \<le> unat b \<and> unat b < 32 \<longrightarrow> vw s b = zeros) \<and>
    (\<forall>b < FSSIZE. used mk_sb (vw s) b \<longleftrightarrow> unat b < blocks_for (made files)) \<and>
    (\<forall>k < length (made files). let d = minode s (k + 1); (ty, xs) = made files ! k in
       d_type d = ty \<and> d_nlink d = 1 \<and> file_ok mk_sb (vw s) (d_addrs d) \<and> mbytes (vw s) (d_addrs d) (length xs) = xs \<and>
       unat (d_size d) = (if k = 0 then (length xs div BSIZE + 1) * BSIZE else length xs) \<and>
       (\<forall>bn < MAXFILE. fblk (vw s) (d_addrs d) bn \<noteq> 0 \<longleftrightarrow> bn * BSIZE < length xs)) \<and>
    (\<forall>k < length (made files). \<forall>j < length (made files). j \<noteq> k \<longrightarrow>
       own (vw s) (d_addrs (minode s (j + 1))) \<inter> own (vw s) (d_addrs (minode s (k + 1))) = {}) \<and>
    (\<forall>k. length (made files) < k \<and> k < NINODES \<longrightarrow> d_type (minode s k) = 0)"
proof -
  have F: "FSSIZE = 1000" "unat FSSIZE = 1000" "NINODES = 200" by (simp_all add: FSSIZE_def NINODES_def)
  obtain s u where main: "mkfs_main files = Some u" and s: "image s (made files)" and uok: "img_ok u"
    and vu: "\<forall>b. unat b < 32 \<or> 59 \<le> unat b \<longrightarrow> vw u b = vw s b"
    and us: "\<forall>b < 1000. used mk_sb (vw u) b \<longleftrightarrow> unat b < unat (freeblock s)"
    and iu: "\<forall>j < 208. minode u j =
      (if j = 1 then (minode s 1)\<lparr>d_size := of_nat ((length (root_dir files) div BSIZE + 1) * BSIZE)\<rparr> else minode s j)"
    using mkfs_main_image [OF assms] by blast
  note fk = made_file [OF s vu us iu n]
  have lm: "length (made files) = length files + 1" by (simp add: made_def)
  have dj: "own (vw u) (d_addrs (minode u (j + 1))) \<inter> own (vw u) (d_addrs (minode u (k + 1))) = {}"
    if "j < length (made files)" "k < length (made files)" "j \<noteq> k" for j k
    using fk(2) [OF that(1)] fk(2) [OF that(2)] s that by (simp add: image_def)
  have fr: "d_type (minode u k) = 0" if "length (made files) < k \<and> k < NINODES" for k
    using iu [rule_format, of k] s that F lm by (auto simp: image_def)
  have sb: "take 28 (vw u 1) = sb_bytes mk_sb" using vu [rule_format, of 1] s by (simp add: image_def overwrite_def sb_bytes_def)
  have lg: "vw u b = zeros" if "2 \<le> unat b \<and> unat b < 32" for b using vu [rule_format, of b] s that by (simp add: image_def)
  have im: "length (mk_img u) = unat FSSIZE" "unat (freeblock s) = blocks_for (made files)"
    using uok s F by (simp_all add: img_ok_def image_def)
  show ?thesis using main im(1) sb lg us [unfolded im(2)] fk(1) dj fr unfolding F(1) by blast
qed

theorem mkfs_builds_witness:
  "\<exists>s. mkfs_main [([95, 104], [7, 8, 9])] = Some s \<and> mbytes (vw s) (d_addrs (minode s 2)) 3 = [7, 8, 9] \<and>
     d_size (minode s 1) = 512 \<and> used mk_sb (vw s) 60 \<and> \<not> used mk_sb (vw s) 61"
proof -
  have a: "\<forall>f \<in> set [([95, 104], [7, 8, 9 :: byte])]. slash \<notin> set (fst f) \<and> length (snd f) \<le> MAXFILE * BSIZE"
    by (simp add: slash_def MAXFILE_def NDIRECT_def NINDIRECT_def BSIZE_def)
  have b: "length [([95, 104], [7, 8, 9 :: byte])] + 2 \<le> NINODES" by (simp add: NINODES_def)
  have c: "blocks_for (made [([95, 104], [7, 8, 9])]) = 61"
    by (simp add: made_def blocks_for_def nb_def BSIZE_def NDIRECT_def)
  have d: "blocks_for (made [([95, 104], [7, 8, 9])]) \<le> unat FSSIZE" unfolding c by (simp add: FSSIZE_def)
  have m: "made [([95, 104], [7, 8, 9])] ! 0 = (T_DIR, root_dir [([95, 104], [7, 8, 9])])"
    "made [([95, 104], [7, 8, 9])] ! 1 = (T_FILE, [7, 8, 9])" "length (made [([95, 104], [7, 8, 9])]) = 2" by (simp_all add: made_def)
  obtain s where s: "mkfs_main [([95, 104], [7, 8, 9])] = Some s" "\<forall>b < FSSIZE. used mk_sb (vw s) b \<longleftrightarrow> unat b < 61"
    and f: "\<forall>k < 2. let d = minode s (k + 1); (ty, xs) = made [([95, 104], [7, 8, 9])] ! k in
       d_type d = ty \<and> d_nlink d = 1 \<and> file_ok mk_sb (vw s) (d_addrs d) \<and> mbytes (vw s) (d_addrs d) (length xs) = xs \<and>
       unat (d_size d) = (if k = 0 then (length xs div BSIZE + 1) * BSIZE else length xs) \<and>
       (\<forall>bn < MAXFILE. fblk (vw s) (d_addrs d) bn \<noteq> 0 \<longleftrightarrow> bn * BSIZE < length xs)"
    using mkfs_builds [OF a b d] unfolding c m(3) by blast
  have "mbytes (vw s) (d_addrs (minode s 2)) 3 = [7, 8, 9]" using f [THEN spec, of 1] m(2) by (simp add: Let_def numeral_2_eq_2 numeral_3_eq_3)
  moreover have "unat (d_size (minode s 1)) = unat (512 :: u32)" using f [THEN spec, of 0] m(1) by (simp add: BSIZE_def Let_def)
  then have "d_size (minode s 1) = 512" by (simp only: word_unat_eq_iff)
  ultimately show ?thesis using s by (auto simp: FSSIZE_def)
qed

end
