(* ===== verification/Mp.thy ===== *)
theory Mp
  imports Kalloc Demo
begin

text \<open>
  mp.c: the search for the multiprocessor tables that the firmware left in memory, and the registration of the processors
  in \<open>cpus\<close>, from which \<open>mycpu\<close> reads. Addresses are kernel virtual ones; \<open>memcmp\<close> with a literal of four characters is a comparison of
  the four bytes. A loop that does not end is \<open>None\<close>.
  The properties follow the model: what \<open>mpinit\<close> does with the tables.
\<close>

definition MPPROC :: byte where "MPPROC = 0"
definition MPBUS :: byte where "MPBUS = 1"
definition MPIOAPIC :: byte where "MPIOAPIC = 2"
definition MPIOINTR :: byte where "MPIOINTR = 3"
definition MPLINTR :: byte where "MPLINTR = 4"

record mpsys = kmemsys +
  ioapicid :: byte
  lapic :: u32
  in23 :: byte
  mp_out :: "(u16 \<times> byte) list"

section \<open>The search\<close>

fun mp_sum_loop :: "mem \<Rightarrow> u32 \<Rightarrow> nat \<Rightarrow> u32 \<Rightarrow> u32" where
  "mp_sum_loop m a 0 acc = acc"
| "mp_sum_loop m a (Suc n) acc = mp_sum_loop m (a + 1) n (acc + ucast (m a))"

definition mp_sum :: "mem \<Rightarrow> u32 \<Rightarrow> nat \<Rightarrow> byte" where
  "mp_sum m a len = ucast (mp_sum_loop m a len 0)"

definition mp_here :: "mem \<Rightarrow> u32 \<Rightarrow> bool" where
  "mp_here m p \<longleftrightarrow> bytes m p 4 = str_bytes ''_MP_'' \<and> mp_sum m p 16 = 0"

partial_function (option) mpsearch_loop :: "mem \<Rightarrow> u32 \<Rightarrow> u32 \<Rightarrow> u32 option" where
  "mpsearch_loop m p e = (if p < e then if mp_here m p then Some p else mpsearch_loop m (p + 16) e else Some 0)"

definition mpsearch1 :: "mem \<Rightarrow> u32 \<Rightarrow> u32 \<Rightarrow> u32 option" where
  "mpsearch1 m a len = (let addr = P2V a; e = addr + len in mpsearch_loop m addr e)"

definition mpsearch :: "mem \<Rightarrow> u32 option" where
  "mpsearch m =
     (let bda = P2V 0x400;
          p = push_bit 4 (push_bit 8 (ucast (m (bda + 0x0F))) OR ucast (m (bda + 0x0E))) :: u32;
          rest = mpsearch1 m 0xF0000 0x10000 in
      if p \<noteq> 0 then
        Option.bind (mpsearch1 m p 1024) (\<lambda>mp. if mp \<noteq> 0 then Some mp else rest)
      else
        let p = (push_bit 8 (ucast (m (bda + 0x14))) OR ucast (m (bda + 0x13))) * 1024 :: u32 in
        Option.bind (mpsearch1 m (p - 1024) 1024) (\<lambda>mp. if mp \<noteq> 0 then Some mp else rest))"

text \<open>The fields of the two structures.\<close>

definition mp_physaddr :: "mem \<Rightarrow> u32 \<Rightarrow> u32" where "mp_physaddr m mp = ld32 m (mp + 4)"
definition mp_imcrp :: "mem \<Rightarrow> u32 \<Rightarrow> byte" where "mp_imcrp m mp = m (mp + 12)"
definition conf_length :: "mem \<Rightarrow> u32 \<Rightarrow> u16" where "conf_length m c = get16 [m (c + 4), m (c + 5)]"
definition conf_version :: "mem \<Rightarrow> u32 \<Rightarrow> byte" where "conf_version m c = m (c + 6)"
definition conf_lapicaddr :: "mem \<Rightarrow> u32 \<Rightarrow> u32" where "conf_lapicaddr m c = ld32 m (c + 36)"

text \<open>The address of the configuration table and that of the floating pointer, or a null pointer.\<close>

definition mpconfig :: "mem \<Rightarrow> (u32 \<times> u32) option" where
  "mpconfig m =
     Option.bind (mpsearch m) (\<lambda>mp.
     if mp = 0 \<or> mp_physaddr m mp = 0 then Some (0, mp)
     else
       let conf = P2V (mp_physaddr m mp) in
       if bytes m conf 4 \<noteq> str_bytes ''PCMP'' then Some (0, mp)
       else if conf_version m conf \<noteq> 1 \<and> conf_version m conf \<noteq> 4 then Some (0, mp)
       else if mp_sum m conf (unat (conf_length m conf)) \<noteq> 0 then Some (0, mp)
       else Some (conf, mp))"

section \<open>The entries of the table\<close>

definition add_cpu :: "byte \<Rightarrow> 'z mpsys_scheme \<Rightarrow> 'z mpsys_scheme" where
  "add_cpu a s =
     (if ncpu s < NCPU then
        let s = s\<lparr>cpus := (cpus s)(ncpu s := (cpus s (ncpu s))\<lparr>apicid := a\<rparr>)\<rparr> in s\<lparr>ncpu := ncpu s + 1\<rparr>
      else s)"

text \<open>The \<open>break\<close> of the default case leaves the switch and not the loop, and \<open>p\<close> has not moved.\<close>

partial_function (option) mpinit_loop :: "bool \<Rightarrow> u32 \<Rightarrow> u32 \<Rightarrow> 'z mpsys_scheme \<Rightarrow> (bool \<times> 'z mpsys_scheme) option" where
  "mpinit_loop ismp p e s =
     (if p < e then
        if mem s p = MPPROC then mpinit_loop ismp (p + 20) e (add_cpu (mem s (p + 1)) s)
        else if mem s p = MPIOAPIC then mpinit_loop ismp (p + 8) e (s\<lparr>ioapicid := mem s (p + 1)\<rparr>)
        else if mem s p = MPBUS \<or> mem s p = MPIOINTR \<or> mem s p = MPLINTR then mpinit_loop ismp (p + 8) e s
        else mpinit_loop False p e s
      else Some (ismp, s))"

definition mpinit :: "'z mpsys_scheme \<Rightarrow> (unit, 'z mpsys_scheme) outcome" where
  "mpinit s =
     (case mpconfig (mem s) of
        None \<Rightarrow> Spin
      | Some (conf, mp) \<Rightarrow>
          if conf = 0 then Panic ''Expect to run on an SMP''
          else
            let s = s\<lparr>lapic := conf_lapicaddr (mem s) conf\<rparr> in
            (case mpinit_loop True (conf + 44) (conf + ucast (conf_length (mem s) conf)) s of
              None \<Rightarrow> Spin
            | Some (ismp, s) \<Rightarrow>
                if \<not> ismp then Panic ''Didn't find a suitable machine''
                else if mp_imcrp (mem s) mp \<noteq> 0 then
                  Ret () (s\<lparr>mp_out := mp_out s @ [(0x22, 0x70), (0x23, in23 s OR 1)]\<rparr>)
                else Ret () s))"

section \<open>The search finds the first structure\<close>


lemma mp_sum_loop_eq: "mp_sum_loop m a n acc = acc + (\<Sum>x\<leftarrow>bytes m a n. ucast x)"
proof (induction n arbitrary: a acc)
  case (Suc n)
  have "bytes m a (Suc n) = m a # bytes m (a + 1) n"
    by (rule nth_equalityI) (auto simp: nth_Cons' add.assoc split: nat.split) 
  then show ?case using Suc by (simp add: add.assoc)
qed (simp add: bytes_def)

text \<open>\<open>mpsearch1\<close> returns, and what it returns is the first place with the signature and a sum of zero.\<close>

lemma mpsearch_loop_find:
  "unat p + 16 * n < 2 ^ 32 \<Longrightarrow> mpsearch_loop m p (p + of_nat (16 * n)) =
     Some (case find (\<lambda>i. mp_here m (p + of_nat (16 * i))) [0..<n] of None \<Rightarrow> 0 | Some i \<Rightarrow> p + of_nat (16 * i))"
proof (induction n arbitrary: p)
  case 0
  show ?case by (subst mpsearch_loop.simps) simp
next
  case (Suc n)
  have f: "find P (map Suc xs) = map_option Suc (find (\<lambda>i. P (Suc i)) xs)" for P xs by (induction xs) auto
  have l: "p < p + of_nat (16 * Suc n)"
    using Suc.prems unat_plus_nowrap [of p "16 * Suc n"] by (simp add: word_less_nat_alt del: of_nat_mult of_nat_Suc)
  have u: "unat (p + 16) = unat p + 16" using Suc.prems unat_plus_nowrap [of p 16] by simp
  have e: "p + of_nat (16 * Suc n) = p + 16 + of_nat (16 * n)" by simp
  have "mpsearch_loop m (p + 16) (p + 16 + of_nat (16 * n)) = Some (case find (\<lambda>i. mp_here m (p + 16 + of_nat (16 * i))) [0..<n] of None \<Rightarrow> 0 | Some i \<Rightarrow> p + 16 + of_nat (16 * i))"
    using Suc.prems u by (intro Suc.IH) simp
  moreover have "[0..<Suc n] = 0 # map Suc [0..<n]" by (simp add: map_Suc_upt upt_conv_Cons)
  ultimately show ?case using l unfolding e
    by (subst mpsearch_loop.simps) (auto simp: f algebra_simps split: option.splits)
qed

section \<open>Processors, controllers and unknown entries\<close>

text \<open>An entry of the table, its size and its place in memory.\<close>

datatype mpentry = Processor byte | Io_apic byte | Other_entry byte

fun entry_size :: "mpentry \<Rightarrow> nat" where
  "entry_size (Processor a) = 20"
| "entry_size (Io_apic a) = 8"
| "entry_size (Other_entry t) = 8"

fun entry_at :: "mem \<Rightarrow> u32 \<Rightarrow> mpentry \<Rightarrow> bool" where
  "entry_at m p (Processor a) \<longleftrightarrow> m p = MPPROC \<and> m (p + 1) = a"
| "entry_at m p (Io_apic a) \<longleftrightarrow> m p = MPIOAPIC \<and> m (p + 1) = a"
| "entry_at m p (Other_entry t) \<longleftrightarrow> m p = t \<and> t \<in> {MPBUS, MPIOINTR, MPLINTR}"

definition table_size :: "mpentry list \<Rightarrow> nat" where
  "table_size es = (\<Sum>e\<leftarrow>es. entry_size e)"

fun table_at :: "mem \<Rightarrow> u32 \<Rightarrow> mpentry list \<Rightarrow> bool" where
  "table_at m p [] \<longleftrightarrow> True"
| "table_at m p (e # es) \<longleftrightarrow> entry_at m p e \<and> table_at m (p + of_nat (entry_size e)) es"

definition processors :: "mpentry list \<Rightarrow> byte list" where
  "processors es = concat (map (\<lambda>e. case e of Processor a \<Rightarrow> [a] | _ \<Rightarrow> []) es)"

definition io_apics :: "mpentry list \<Rightarrow> byte list" where
  "io_apics es = concat (map (\<lambda>e. case e of Io_apic a \<Rightarrow> [a] | _ \<Rightarrow> []) es)"

text \<open>The effect of one entry.\<close>

fun take_entry :: "mpentry \<Rightarrow> 'z mpsys_scheme \<Rightarrow> 'z mpsys_scheme" where
  "take_entry (Processor a) s = add_cpu a s"
| "take_entry (Io_apic a) s = s\<lparr>ioapicid := a\<rparr>"
| "take_entry (Other_entry t) s = s"

lemma add_cpu_mem [simp]: "mem (add_cpu a s) = mem s" "lapic (add_cpu a s) = lapic s" "ioapicid (add_cpu a s) = ioapicid s"
  "mp_out (add_cpu a s) = mp_out s" "in23 (add_cpu a s) = in23 s"
  by (simp_all add: add_cpu_def Let_def)

lemma take_entry_frame [simp]: "mem (take_entry e s) = mem s" "lapic (take_entry e s) = lapic s" "mp_out (take_entry e s) = mp_out s"
  "in23 (take_entry e s) = in23 s"
  by (cases e; simp)+

lemma fold_entry_frame [simp]: "mem (fold take_entry es s) = mem s" "lapic (fold take_entry es s) = lapic s"
  "mp_out (fold take_entry es s) = mp_out s" "in23 (fold take_entry es s) = in23 s"
  by (induction es arbitrary: s) simp_all

lemma loop_entry:
  assumes "entry_at (mem s) p x" "p < e"
  shows "mpinit_loop b p e s = mpinit_loop b (p + of_nat (entry_size x)) e (take_entry x s)"
  using assms by (cases x) (subst mpinit_loop.simps, auto simp: MPPROC_def MPIOAPIC_def MPBUS_def MPIOINTR_def MPLINTR_def)+

lemma loop_table:
  assumes "table_at (mem s) p es" "unat p + table_size es \<le> unat e"
  shows "mpinit_loop b p e s = mpinit_loop b (p + of_nat (table_size es)) e (fold take_entry es s)"
  using assms
proof (induction es arbitrary: p s)
  case (Cons x es)
  have pos: "0 < entry_size x" by (cases x) simp_all
  have u: "unat (p + of_nat (entry_size x)) = unat p + entry_size x"
    using Cons.prems(2) unat32_less [of e] by (intro unat_plus_nowrap) (simp add: table_size_def)
  have "p < e" using Cons.prems(2) pos by (simp add: table_size_def word_less_nat_alt)
  then show ?case
    using Cons.IH [of "take_entry x s" "p + of_nat (entry_size x)"] Cons.prems loop_entry [of s p x e b] u
    by (simp add: table_size_def add.assoc)
qed (simp add: table_size_def)

text \<open>An entry of an unknown type: the loop makes no step and does not end.\<close>

lemma loop_stuck:
  assumes "p < e" "mem s p \<notin> {MPPROC, MPBUS, MPIOAPIC, MPIOINTR, MPLINTR}"
  shows "mpinit_loop b p e s = None"
proof (rule ccontr)
  assume "mpinit_loop b p e s \<noteq> None"
  then obtain r where r: "mpinit_loop b p e s = Some r" by auto
  have "q = p \<and> f = e \<and> u = s \<longrightarrow> False" if "mpinit_loop c q f u = Some r" for c q f u r
    by (rule mpinit_loop.raw_induct [OF _ that, where P = "\<lambda>c q f u r. q = p \<and> f = e \<and> u = s \<longrightarrow> False"])
      (use assms in \<open>auto split: if_splits\<close>)
  then show False using r by blast
qed

lemma fold_cpus:
  "ncpu s \<le> NCPU \<Longrightarrow> ncpu (fold take_entry es s) = min NCPU (ncpu s + length (processors es)) \<and>
     (\<forall>i < ncpu (fold take_entry es s).
        apicid (cpus (fold take_entry es s) i) = (if i < ncpu s then apicid (cpus s i) else processors es ! (i - ncpu s)))"
proof (induction es arbitrary: s)
  case (Cons x es)
  have t: "ncpu (take_entry x s) \<le> NCPU" using Cons.prems by (cases x) (simp_all add: add_cpu_def Let_def)
  note IH = Cons.IH [OF t]
  show ?case
  proof (cases x)
    case (Processor a)
    show ?thesis
    proof (cases "ncpu s < NCPU")
      case True
      then show ?thesis using IH Processor by (auto simp: processors_def add_cpu_def Let_def nth_Cons' less_Suc_eq)
    qed (use IH Processor Cons.prems in \<open>auto simp: processors_def add_cpu_def\<close>)
  qed (use IH in \<open>simp_all add: processors_def\<close>)
qed (simp add: processors_def)

lemma fold_ioapic: "ioapicid (fold take_entry es s) = last (ioapicid s # io_apics es)"
proof (induction es arbitrary: s)
  case (Cons x es)
  then show ?case by (cases x) (simp_all add: io_apics_def)
qed (simp add: io_apics_def)

text \<open>C35: registration of the processors. When the firmware left a valid configuration table and its entries are all of the five known types,
  \<open>mpinit\<close> returns with the processors of the table in \<open>cpus\<close>, in order and at most \<open>NCPU\<close> of them, their identities being what
  \<open>mycpu\<close> compares with; with the last I/O interrupt controller of the table and the address of the local one. When an entry of another type
  comes after the known ones, \<open>mpinit\<close> never returns: the panic that is meant for this case is not reached.\<close>

theorem mpinit_table:
  assumes c: "mpconfig (mem s) = Some (conf, mp)" "conf \<noteq> 0" and n: "ncpu s = 0" and t: "table_at (mem s) (conf + 44) es"
    and room: "unat conf + unat (conf_length (mem s) conf) < 2 ^ 32"
  defines "used_len \<equiv> 44 + table_size es"
  shows "(unat (conf_length (mem s) conf) = used_len \<longrightarrow>
      (\<exists>t. mpinit s = Ret () t \<and> ncpu t = min NCPU (length (processors es)) \<and> (\<forall>i < ncpu t. apicid (cpus t i) = processors es ! i) \<and>
        ioapicid t = last (ioapicid s # io_apics es) \<and> lapic t = conf_lapicaddr (mem s) conf \<and>
        mp_out t = mp_out s @ (if mp_imcrp (mem s) mp \<noteq> 0 then [(0x22, 0x70), (0x23, in23 s OR 1)] else []))) \<and>
    (used_len < unat (conf_length (mem s) conf) \<and> mem s (conf + of_nat used_len) \<notin> {MPPROC, MPBUS, MPIOAPIC, MPIOINTR, MPLINTR} \<longrightarrow>
      mpinit s = Spin)"
proof -
  let ?l = "unat (conf_length (mem s) conf)" and ?e = "conf + ucast (conf_length (mem s) conf)"
  let ?s = "s\<lparr>lapic := conf_lapicaddr (mem s) conf\<rparr>" let ?t = "fold take_entry es ?s"
  have e: "?e = conf + of_nat ?l" by (simp add: word_unat_eq_iff unsigned_ucast_eq unat_word_ariths take_bit_eq_mod mod_simps)
  have ue: "unat ?e = unat conf + ?l" unfolding e by (rule unat_plus_nowrap [OF room])
  have loop: "mpinit_loop True (conf + 44) ?e ?s = mpinit_loop True (conf + of_nat used_len) ?e ?t" if "used_len \<le> ?l"
  proof -
    have "unat (conf + 44) = unat conf + 44" using unat_plus_nowrap [of conf 44] that room by (simp add: used_len_def)
    then show ?thesis using loop_table [of ?s "conf + 44" es ?e True] t that ue by (simp add: used_len_def add.assoc)
  qed
  show ?thesis
  proof (intro conjI impI)
    assume l: "?l = used_len"
    have "mpinit_loop True (conf + of_nat used_len) ?e ?t = Some (True, ?t)" unfolding e l by (subst mpinit_loop.simps) simp
    then show "\<exists>t. mpinit s = Ret () t \<and> ncpu t = min NCPU (length (processors es)) \<and> (\<forall>i < ncpu t. apicid (cpus t i) = processors es ! i) \<and>
        ioapicid t = last (ioapicid s # io_apics es) \<and> lapic t = conf_lapicaddr (mem s) conf \<and>
        mp_out t = mp_out s @ (if mp_imcrp (mem s) mp \<noteq> 0 then [(0x22, 0x70), (0x23, in23 s OR 1)] else [])"
      using c n loop l fold_cpus [of ?s es] fold_ioapic [of es ?s] by (simp add: mpinit_def)
  next
    assume l: "used_len < ?l \<and> mem s (conf + of_nat used_len) \<notin> {MPPROC, MPBUS, MPIOAPIC, MPIOINTR, MPLINTR}"
    then have "unat (conf + of_nat used_len) = unat conf + used_len" using room by (intro unat_plus_nowrap) simp
    then have "conf + of_nat used_len < ?e" using l ue by (simp add: word_less_nat_alt)
    then show "mpinit s = Spin" using loop_stuck [of "conf + of_nat used_len" ?e ?t] loop l c by (simp add: mpinit_def)
  qed
qed

text \<open>A machine with two processors.\<close>

definition demo_table :: "byte list" where
  "demo_table = [95, 77, 80, 95, 0x10, 0, 9, 0, 1, 4, 135, 0, 0, 0, 0, 0] @
     [80, 67, 77, 80, 84, 0, 4, 151] @ replicate 20 0 @ replicate 6 0 @ [2, 0, 0, 0, 0xE0, 0xFE, 0, 0, 0, 0] @
     replicate 20 0 @ [0, 1] @ replicate 18 0"

definition demo_firmware :: mem where
  "demo_firmware x = (if x - 0x80090000 < 100 then demo_table ! unat (x - 0x80090000) else if x = 0x8000040F then 0x90 else 0)"

definition demo_mp :: mpsys where
  "demo_mp = demo_kern \<lparr>mem = demo_firmware, use_lock = False, freelist = 0, kend = 0x80110000, kdata = 0x80108000, kpgdir = 0, cr3 = 0,
     esp0 = 0, ioapicid = 0, lapic = 0, in23 = 0, mp_out = []\<rparr>\<lparr>ncpu := 0\<rparr>"

lemma demo_conf: "mpconfig demo_firmware = Some (0x80090010, 0x80090000)"
proof -
  have h: "mp_here demo_firmware 0x80090000" by code_simp
  have l: "mpsearch_loop demo_firmware 0x80090000 e = Some 0x80090000" if "0x80090000 < e" for e
    using h that by (subst mpsearch_loop.simps) simp
  have "demo_firmware 0x8000040F = 0x90" "demo_firmware 0x8000040E = 0" by (simp_all add: demo_firmware_def)
  then have "mpsearch demo_firmware = Some 0x80090000" by (simp add: mpsearch_def mpsearch1_def P2V_def KERNBASE_def l)
  moreover have "mp_physaddr demo_firmware 0x80090000 = 0x90010" by code_simp
  moreover have "bytes demo_firmware 0x80090010 4 = str_bytes ''PCMP''" by code_simp
  moreover have "conf_version demo_firmware 0x80090010 = 4" by code_simp
  moreover have "mp_sum demo_firmware 0x80090010 (unat (conf_length demo_firmware 0x80090010)) = 0" by code_simp
  ultimately show ?thesis by (simp add: mpconfig_def P2V_def KERNBASE_def)
qed

theorem mpinit_table_witness:
  "\<exists>t. mpinit demo_mp = Ret () t \<and> ncpu t = 2 \<and> apicid (cpus t 0) = 0 \<and> apicid (cpus t 1) = 1 \<and> lapic t = 0xFEE00000"
proof -
  have m: "mem demo_mp = demo_firmware" "ncpu demo_mp = 0" by (simp_all add: demo_mp_def demo_kern_def)
  have c: "mpconfig (mem demo_mp) = Some (0x80090010, 0x80090000)" "(0x80090010 :: u32) \<noteq> 0" by (simp_all add: m demo_conf)
  have l: "conf_length demo_firmware 0x80090010 = 84" by code_simp
  have t: "table_at (mem demo_mp) (0x80090010 + 44) [Processor 0, Processor 1]" unfolding m by code_simp
  have r: "unat (0x80090010 :: u32) + unat (conf_length (mem demo_mp) 0x80090010) < 2 ^ 32" by (simp add: m l)
  have la: "conf_lapicaddr demo_firmware 0x80090010 = 0xFEE00000" by code_simp
  have "unat (conf_length (mem demo_mp) 0x80090010) = 44 + table_size [Processor 0, Processor 1]" by (simp add: m l table_size_def)
  from mpinit_table [OF c m(2) t r, THEN conjunct1, rule_format, OF this]
  obtain t where "mpinit demo_mp = Ret () t" "ncpu t = min NCPU (length (processors [Processor 0, Processor 1]))"
      "\<forall>i < ncpu t. apicid (cpus t i) = processors [Processor 0, Processor 1] ! i" "lapic t = conf_lapicaddr (mem demo_mp) 0x80090010"
    by blast
  then show ?thesis by (simp add: processors_def NCPU_def m la)
qed

end
