(* ===== verification/Boot.thy ===== *)
theory Boot
  imports Exec
begin

text \<open>
  bootmain.c, the second half of the boot block: it loads the kernel, an ELF file that starts at sector 1 of the disk, into
  physical memory. The controller of the disk is hardware: \<open>st n\<close> is what the \<open>n\<close>-th read of its status register shows, and \<open>dv\<close>
  is the sector that it delivers for the contents of its four address registers. A wait that does not end is \<open>None\<close>.
\<close>

definition SECTSIZE :: u32 where "SECTSIZE = 512"

record boot =
  bt_mem :: mem
  bt_time :: nat

type_synonym drive = "byte \<Rightarrow> byte \<Rightarrow> byte \<Rightarrow> byte \<Rightarrow> block"

partial_function (option) waitdisk :: "(nat \<Rightarrow> byte) \<Rightarrow> nat \<Rightarrow> nat option" where
  "waitdisk st t = (if st t AND 0xC0 \<noteq> 0x40 then waitdisk st (t + 1) else Some (t + 1))"

definition readsect :: "(nat \<Rightarrow> byte) \<Rightarrow> drive \<Rightarrow> u32 \<Rightarrow> u32 \<Rightarrow> boot \<Rightarrow> boot option" where
  "readsect st dv dst off b =
     Option.bind (waitdisk st (bt_time b)) (\<lambda>t.
     let sect = dv (ucast off) (ucast (drop_bit 8 off)) (ucast (drop_bit 16 off)) (ucast (drop_bit 24 off) OR 0xE0) in
     Option.bind (waitdisk st t) (\<lambda>t. Some (b\<lparr>bt_mem := store (bt_mem b) dst sect, bt_time := t\<rparr>)))"

partial_function (option) readseg_loop :: "(nat \<Rightarrow> byte) \<Rightarrow> drive \<Rightarrow> u32 \<Rightarrow> u32 \<Rightarrow> u32 \<Rightarrow> boot \<Rightarrow> boot option" where
  "readseg_loop st dv pa epa off b =
     (if pa < epa then Option.bind (readsect st dv pa off b) (readseg_loop st dv (pa + SECTSIZE) epa (off + 1)) else Some b)"

definition readseg :: "(nat \<Rightarrow> byte) \<Rightarrow> drive \<Rightarrow> u32 \<Rightarrow> u32 \<Rightarrow> u32 \<Rightarrow> boot \<Rightarrow> boot option" where
  "readseg st dv pa count off b =
     (let epa = pa + count; pa = pa - off mod SECTSIZE; off = off div SECTSIZE + 1 in readseg_loop st dv pa epa off b)"

text \<open>The loop over the program headers, which are read from the scratch space.\<close>

partial_function (option) load_loop :: "(nat \<Rightarrow> byte) \<Rightarrow> drive \<Rightarrow> u32 \<Rightarrow> u32 \<Rightarrow> boot \<Rightarrow> boot option" where
  "load_loop st dv ph eph b =
     (if ph < eph then
        let m = bt_mem b; pa = ld32 m (ph + 12) in
        Option.bind (readseg st dv pa (ld32 m (ph + 16)) (ld32 m (ph + 4)) b) (\<lambda>b.
        let m = bt_mem b; filesz = ld32 m (ph + 16); memsz = ld32 m (ph + 20);
            b = (if memsz > filesz then b\<lparr>bt_mem := stosb m (pa + filesz) 0 (unat (memsz - filesz))\<rparr> else b) in
        load_loop st dv (ph + 32) eph b)
      else Some b)"

text \<open>The entry point that is called at the end, or \<open>None\<close> when there is no ELF file and the function returns.\<close>

definition bootmain :: "(nat \<Rightarrow> byte) \<Rightarrow> drive \<Rightarrow> boot \<Rightarrow> (u32 option \<times> boot) option" where
  "bootmain st dv b =
     (let elf = 0x10000 in
      Option.bind (readseg st dv elf 4096 0 b) (\<lambda>b.
      let m = bt_mem b in
      if ld32 m elf \<noteq> ELF_MAGIC then Some (None, b)
      else
        let ph = elf + ld32 m (elf + 28); eph = ph + 32 * ucast (get16 [m (elf + 44), m (elf + 45)]) in
        Option.bind (load_loop st dv ph eph b) (\<lambda>b. Some (Some (ld32 (bt_mem b) (elf + 24)), b))))"

section \<open>Reading from the disk\<close>

text \<open>The documented behaviour of the controller: it becomes ready again and again, and delivers the sectors of the disk by
  their number of 28 bits. The kernel file is a function from positions to bytes.\<close>

definition drive_ready :: "(nat \<Rightarrow> byte) \<Rightarrow> bool" where
  "drive_ready st \<longleftrightarrow> (\<forall>t. \<exists>k. st (t + k) AND 0xC0 = 0x40)"

definition serves :: "drive \<Rightarrow> (nat \<Rightarrow> byte) \<Rightarrow> bool" where
  "serves dv img \<longleftrightarrow> (\<forall>n :: u32. 0 < n \<and> n < 2 ^ 28 \<longrightarrow>
     dv (ucast n) (ucast (drop_bit 8 n)) (ucast (drop_bit 16 n)) (ucast (drop_bit 24 n) OR 0xE0) =
       map (\<lambda>i. img (512 * (unat n - 1) + i)) [0..<512])"

lemma waitdisk_returns: "drive_ready st \<Longrightarrow> \<exists>t'. waitdisk st t = Some t'"
proof -
  assume "drive_ready st"
  then obtain k where "st (t + k) AND 0xC0 = 0x40" by (auto simp: drive_ready_def)
  then show ?thesis
  proof (induction k arbitrary: t)
    case 0
    then show ?case by (subst waitdisk.simps) simp
  next
    case (Suc k)
    from Suc.IH [of "Suc t"] Suc.prems show ?case by (subst waitdisk.simps) simp
  qed
qed

text \<open>Memory in which the bytes from \<open>a\<close> to \<open>e\<close> have been replaced.\<close>

definition patched :: "mem \<Rightarrow> nat \<Rightarrow> nat \<Rightarrow> (nat \<Rightarrow> byte) \<Rightarrow> mem" where
  "patched m a e f = (\<lambda>x. if a \<le> unat x \<and> unat x < e then f (unat x - a) else m x)"

lemma region_nat: "a + n \<le> 2 ^ 32 \<Longrightarrow> x \<in> region (of_nat a) n \<longleftrightarrow> a \<le> unat x \<and> unat x < a + n"
proof -
  assume a: "a + n \<le> 2 ^ 32"
  show ?thesis
  proof (cases "n = 0")
    case False
    then have ua: "unat (of_nat a :: u32) = a" using a by (intro unat_of_nat32) simp
    have "unat (x - of_nat a) = (if a \<le> unat x then unat x - a else unat x + 2 ^ 32 - a)"
      using unat_sub_if_size [of x "of_nat a"] ua by (simp add: word_size)
    then show ?thesis using a unat32_less [of x] by (auto simp: region_def)
  qed (simp add: region_def)
qed

lemma store_patched: "a + n \<le> 2 ^ 32 \<Longrightarrow> 0 < n \<Longrightarrow> store m (of_nat a) (map f [0..<n]) = patched m a (a + n) f"
proof (rule ext)
  fix x assume a: "a + n \<le> 2 ^ 32" "0 < n"
  have ua: "unat (of_nat a :: u32) = a" using a by (intro unat_of_nat32) simp
  show "store m (of_nat a) (map f [0..<n]) x = patched m a (a + n) f x"
  proof (cases "x \<in> region (of_nat a) n")
    case True
    then have r: "a \<le> unat x" "unat x < a + n" using region_nat a by auto
    then have "unat (x - of_nat a) = unat x - a" using ua by (subst unat_sub) (simp_all add: word_le_nat_alt)
    then show ?thesis using True r by (simp add: store_def patched_def)
  next
    case False
    then have "\<not> (a \<le> unat x \<and> unat x < a + n)" using region_nat [OF a(1)] by blast
    then show ?thesis using False by (simp only: store_def patched_def length_map length_upt diff_zero if_False)
  qed
qed

lemma readsect_law:
  assumes "drive_ready st" "serves dv img" "pa + 512 \<le> 2 ^ 32" "Suc n < 2 ^ 28"
  shows "\<exists>t. readsect st dv (of_nat pa) (of_nat (Suc n)) b =
    Some \<lparr>bt_mem = patched (bt_mem b) pa (pa + 512) (\<lambda>i. img (512 * n + i)), bt_time = t\<rparr>"
proof -
  obtain t u where t: "waitdisk st (bt_time b) = Some t" "waitdisk st t = Some u" using waitdisk_returns [OF assms(1)] by meson
  let ?o = "of_nat (Suc n) :: u32"
  have u: "unat ?o = Suc n" using assms(4) by (intro unat_of_nat32) simp
  then have "0 < ?o" "?o < 2 ^ 28" using assms(4) by (simp_all add: word_less_nat_alt)
  then have "dv (ucast ?o) (ucast (drop_bit 8 ?o)) (ucast (drop_bit 16 ?o)) (ucast (drop_bit 24 ?o) OR 0xE0) =
      map (\<lambda>i. img (512 * n + i)) [0..<512]" using assms(2) u unfolding serves_def by simp
  then show ?thesis using t store_patched [OF assms(3), of "bt_mem b" "\<lambda>i. img (512 * n + i)"]
    by (cases b) (simp add: readsect_def Let_def)
qed

lemma patched_more: "a \<le> e \<Longrightarrow> e \<le> g \<Longrightarrow> patched (patched m a e f) e g (\<lambda>i. f (e - a + i)) = patched m a g f"
  by (auto simp: patched_def fun_eq_iff)

text \<open>\<open>q\<close> sectors from the sector \<open>n + 1\<close> on.\<close>

lemma readseg_loop_law:
  assumes "drive_ready st" "serves dv img" "pa + 512 * q < 2 ^ 32" "n + q + 1 < 2 ^ 28" "epa \<le> pa + 512 * q" "q = 0 \<or> pa + 512 * (q - 1) < epa"
  shows "\<exists>t. readseg_loop st dv (of_nat pa) (of_nat epa) (of_nat (Suc n)) b =
    Some \<lparr>bt_mem = patched (bt_mem b) pa (pa + 512 * q) (\<lambda>i. img (512 * n + i)), bt_time = t\<rparr>"
  using assms(3-)
proof (induction q arbitrary: pa n b)
  case 0
  then have u: "unat (of_nat pa :: u32) = pa" "unat (of_nat epa :: u32) = epa" by (simp_all add: unat_of_nat32)
  have "patched m pa pa f = m" for m f by (auto simp: patched_def fun_eq_iff)
  then show ?case using 0 u by (subst readseg_loop.simps) (cases b, simp add: word_less_nat_alt)
next
  case (Suc q)
  have u: "unat (of_nat pa :: u32) = pa" "unat (of_nat epa :: u32) = epa" using Suc.prems by (simp_all add: unat_of_nat32)
  have lt: "(of_nat pa :: u32) < of_nat epa" using Suc.prems u by (simp add: word_less_nat_alt)
  obtain t where t: "readsect st dv (of_nat pa) (of_nat (Suc n)) b =
      Some \<lparr>bt_mem = patched (bt_mem b) pa (pa + 512) (\<lambda>i. img (512 * n + i)), bt_time = t\<rparr>"
    using readsect_law [OF assms(1,2), of pa n b] Suc.prems by auto
  let ?b = "\<lparr>bt_mem = patched (bt_mem b) pa (pa + 512) (\<lambda>i. img (512 * n + i)), bt_time = t\<rparr>"
  obtain t' where t': "readseg_loop st dv (of_nat (pa + 512)) (of_nat epa) (of_nat (Suc (Suc n))) ?b =
      Some \<lparr>bt_mem = patched (bt_mem ?b) (pa + 512) (pa + 512 + 512 * q) (\<lambda>i. img (512 * Suc n + i)), bt_time = t'\<rparr>"
    using Suc.IH [of "pa + 512" "Suc n" ?b] Suc.prems by (cases q) auto
  have e: "(of_nat pa :: u32) + SECTSIZE = of_nat (pa + 512)" "(of_nat (Suc n) :: u32) + 1 = of_nat (Suc (Suc n))" by (simp_all add: SECTSIZE_def)
  have "patched (patched m pa (pa + 512) (\<lambda>i. img (512 * n + i))) (pa + 512) (pa + 512 + 512 * q) (\<lambda>i. img (512 * Suc n + i)) =
      patched m pa (pa + 512 * Suc q) (\<lambda>i. img (512 * n + i))" for m
    using patched_more [of pa "pa + 512" "pa + 512 * Suc q" m "\<lambda>i. img (512 * n + i)"] by (simp add: add_ac)
  then show ?case using lt t t' by (subst readseg_loop.simps) (simp only: e if_True Option.bind.simps boot.simps, blast)
qed

lemma readseg_law:
  assumes "drive_ready st" "serves dv img" and off: "off < 2 ^ 32" "off mod 512 \<le> pa" and top: "pa + count + 512 < 2 ^ 32"
  defines "lo \<equiv> pa - off mod 512" and "hi \<equiv> pa - off mod 512 + 512 * ((off mod 512 + count + 511) div 512)"
  shows "\<exists>t. readseg st dv (of_nat pa) (of_nat count) (of_nat off) b =
    Some \<lparr>bt_mem = patched (bt_mem b) lo hi (\<lambda>i. img (off - off mod 512 + i)), bt_time = t\<rparr>"
proof -
  let ?q = "(off mod 512 + count + 511) div 512"
  have q: "512 * ?q \<le> off mod 512 + count + 511" "off mod 512 + count \<le> 512 * ?q" by simp_all
  have q': "?q = 0 \<or> lo + 512 * (?q - 1) < pa + count" using off(2) q by (cases ?q) (simp_all add: lo_def)
  have u: "(of_nat off :: u32) mod SECTSIZE = of_nat (off mod 512)" "(of_nat off :: u32) div SECTSIZE + 1 = of_nat (Suc (off div 512))"
    using off(1) by (simp_all add: SECTSIZE_def word_unat_eq_iff unat_mod_distrib unat_div_distrib unat_of_nat32 unat_word_ariths)
  have l: "(of_nat pa :: u32) - of_nat (off mod 512) = of_nat lo" using off(2) by (simp add: lo_def of_nat_diff)
  have h: "hi = lo + 512 * ?q" by (simp add: hi_def lo_def)
  have "off div 512 < 2 ^ 23" "?q < 2 ^ 24" using off(1) top q(1) by simp_all
  then have "off div 512 + ?q + 1 < 2 ^ 28" by simp
  moreover have "lo + 512 * ?q < 2 ^ 32" "pa + count \<le> lo + 512 * ?q" using q off(2) top by (simp_all add: lo_def)
  ultimately obtain t where "readseg_loop st dv (of_nat lo) (of_nat (pa + count)) (of_nat (Suc (off div 512))) b =
      Some \<lparr>bt_mem = patched (bt_mem b) lo (lo + 512 * ?q) (\<lambda>i. img (512 * (off div 512) + i)), bt_time = t\<rparr>"
    using readseg_loop_law [OF assms(1,2) _ _ _ q'] by blast
  moreover have "512 * (off div 512) = off - off mod 512" by (simp add: minus_mod_eq_mult_div)
  ultimately show ?thesis by (simp add: readseg_def Let_def u l h del: of_nat_Suc)
qed

section \<open>The kernel file\<close>

definition i32 :: "(nat \<Rightarrow> byte) \<Rightarrow> nat \<Rightarrow> u32" where
  "i32 img p = get32 [img p, img (p + 1), img (p + 2), img (p + 3)]"

definition phnum :: "(nat \<Rightarrow> byte) \<Rightarrow> nat" where "phnum img = unat (get16 [img 44, img 45])"
definition phdr :: "(nat \<Rightarrow> byte) \<Rightarrow> nat \<Rightarrow> nat" where "phdr img i = unat (i32 img 28) + 32 * i"
definition seg_off :: "(nat \<Rightarrow> byte) \<Rightarrow> nat \<Rightarrow> nat" where "seg_off img i = unat (i32 img (phdr img i + 4))"
definition seg_pa :: "(nat \<Rightarrow> byte) \<Rightarrow> nat \<Rightarrow> nat" where "seg_pa img i = unat (i32 img (phdr img i + 12))"
definition seg_file :: "(nat \<Rightarrow> byte) \<Rightarrow> nat \<Rightarrow> nat" where "seg_file img i = unat (i32 img (phdr img i + 16))"
definition seg_mem :: "(nat \<Rightarrow> byte) \<Rightarrow> nat \<Rightarrow> nat" where "seg_mem img i = unat (i32 img (phdr img i + 20))"

text \<open>The place where the sectors of a segment start: its own place, rounded down as far as its offset in the file.\<close>

definition seg_lo :: "(nat \<Rightarrow> byte) \<Rightarrow> nat \<Rightarrow> nat" where "seg_lo img i = seg_pa img i - seg_off img i mod 512"

text \<open>A kernel that the loader can load: the headers lie in the first page of the file, the segments above the scratch space,
  and each one's sectors start behind the segments before it.\<close>

definition kernel_file :: "(nat \<Rightarrow> byte) \<Rightarrow> bool" where
  "kernel_file img \<longleftrightarrow> i32 img 0 = ELF_MAGIC \<and> phdr img (phnum img) \<le> 4096 \<and>
     (\<forall>i < phnum img. 0x11000 + seg_off img i mod 512 \<le> seg_pa img i \<and> seg_pa img i + seg_file img i + 512 < 2 ^ 32 \<and>
        seg_pa img i + seg_mem img i \<le> 2 ^ 32) \<and>
     (\<forall>j < phnum img. \<forall>i < j. seg_pa img i + max (seg_file img i) (seg_mem img i) \<le> seg_lo img j)"

definition header_in :: "(nat \<Rightarrow> byte) \<Rightarrow> mem \<Rightarrow> bool" where
  "header_in img m \<longleftrightarrow> (\<forall>x < 4096. m (of_nat (0x10000 + x)) = img x)"

text \<open>The segment is in memory, and zeros follow up to its size.\<close>

definition loaded :: "(nat \<Rightarrow> byte) \<Rightarrow> nat \<Rightarrow> mem \<Rightarrow> bool" where
  "loaded img i m \<longleftrightarrow> (\<forall>x < seg_file img i. m (of_nat (seg_pa img i + x)) = img (seg_off img i + x)) \<and>
     (\<forall>x. seg_file img i \<le> x \<and> x < seg_mem img i \<longrightarrow> m (of_nat (seg_pa img i + x)) = 0)"

definition with_segment :: "(nat \<Rightarrow> byte) \<Rightarrow> nat \<Rightarrow> mem \<Rightarrow> mem" where
  "with_segment img i m =
     (let r = seg_off img i mod 512; pa = seg_pa img i; n = seg_file img i;
          m = patched m (pa - r) (pa - r + 512 * ((r + n + 511) div 512)) (\<lambda>k. img (seg_off img i - r + k)) in
      if n < seg_mem img i then patched m (pa + n) (pa + seg_mem img i) (\<lambda>_. 0) else m)"

lemma ld32_header: "header_in img m \<Longrightarrow> x + 4 \<le> 4096 \<Longrightarrow> ld32 m (of_nat (0x10000 + x)) = i32 img x"
proof -
  assume h: "header_in img m" "x + 4 \<le> 4096"
  then have "m (of_nat (0x10000 + (x + k))) = img (x + k)" if "k < 4" for k using that by (simp add: header_in_def del: of_nat_add)
  from this [of 0] this [of 1] this [of 2] this [of 3] show ?thesis by (simp add: ld32_def i32_def add_ac)
qed

lemma with_segment_below: "unat x < seg_lo img i \<Longrightarrow> with_segment img i m x = m x"
  by (auto simp: with_segment_def seg_lo_def patched_def Let_def)

lemma with_segment_loaded:
  assumes "seg_off img i mod 512 \<le> seg_pa img i" "seg_pa img i + seg_file img i + 512 < 2 ^ 32" "seg_pa img i + seg_mem img i \<le> 2 ^ 32"
  shows "loaded img i (with_segment img i m)"
  unfolding loaded_def
proof (intro conjI allI impI)
  let ?r = "seg_off img i mod 512" and ?pa = "seg_pa img i" and ?n = "seg_file img i"
  fix x assume x: "x < ?n"
  have u: "unat (of_nat (?pa + x) :: u32) = ?pa + x" using assms x by (intro unat_of_nat32) simp
  have q: "?r + ?n \<le> 512 * ((?r + ?n + 511) div 512)" by simp
  have "seg_off img i - ?r + (?pa + x - (?pa - ?r)) = seg_off img i + x"
    using assms(1) mod_less_eq_dividend [of "seg_off img i" 512] by linarith
  moreover have "?pa - ?r \<le> ?pa + x \<and> ?pa + x < ?pa - ?r + 512 * ((?r + ?n + 511) div 512)" using x q assms(1) by linarith
  ultimately show "with_segment img i m (of_nat (?pa + x)) = img (seg_off img i + x)"
    using u x by (simp add: with_segment_def patched_def Let_def del: of_nat_add)
next
  fix x assume x: "seg_file img i \<le> x \<and> x < seg_mem img i"
  have u: "unat (of_nat (seg_pa img i + x) :: u32) = seg_pa img i + x" using assms x by (intro unat_of_nat32) simp
  then show "with_segment img i m (of_nat (seg_pa img i + x)) = 0"
    using x by (simp add: with_segment_def patched_def Let_def del: of_nat_add)
qed

section \<open>Loading\<close>

lemma stosb_patched: "a + n \<le> 2 ^ 32 \<Longrightarrow> stosb m (of_nat a) 0 n = patched m a (a + n) (\<lambda>_. 0)"
  using region_nat [of a n] by (simp add: stosb_eq patched_def fun_eq_iff)

lemma header_kept: "header_in img m \<Longrightarrow> 0x11000 \<le> seg_lo img i \<Longrightarrow> header_in img (with_segment img i m)"
  unfolding header_in_def by (auto simp: with_segment_below unat_of_nat32 simp del: of_nat_add)

lemma loaded_kept:
  assumes "loaded img i m" "seg_pa img i + max (seg_file img i) (seg_mem img i) \<le> seg_lo img j" "seg_lo img j < 2 ^ 32"
  shows "loaded img i (with_segment img j m)"
proof -
  have "with_segment img j m (of_nat (seg_pa img i + x)) = m (of_nat (seg_pa img i + x))" if "x < seg_file img i \<or> x < seg_mem img i" for x
    using that assms(2,3) by (intro with_segment_below) (auto simp: unat_of_nat32 simp del: of_nat_add)
  then show ?thesis using assms(1) by (simp add: loaded_def del: of_nat_add)
qed

text \<open>One turn of the loop.\<close>

lemma load_step:
  assumes hw: "drive_ready st" "serves dv img" and k: "kernel_file img" and i: "i < phnum img" and h: "header_in img (bt_mem b)"
  shows "\<exists>t. load_loop st dv (of_nat (0x10000 + phdr img i)) (of_nat (0x10000 + phdr img (phnum img))) b =
    load_loop st dv (of_nat (0x10000 + phdr img (Suc i))) (of_nat (0x10000 + phdr img (phnum img)))
      \<lparr>bt_mem = with_segment img i (bt_mem b), bt_time = t\<rparr>"
proof -
  let ?p = "phdr img i" and ?r = "seg_off img i mod 512" and ?pa = "seg_pa img i" and ?n = "seg_file img i"
  define m1 where "m1 = patched (bt_mem b) (?pa - ?r) (?pa - ?r + 512 * ((?r + ?n + 511) div 512)) (\<lambda>k. img (seg_off img i - ?r + k))"
  have pm: "phdr img (phnum img) \<le> 4096" and seg: "0x11000 + ?r \<le> ?pa" "?pa + ?n + 512 < 2 ^ 32" "?pa + seg_mem img i \<le> 2 ^ 32"
    using k i by (auto simp: kernel_file_def)
  have "?p + 32 \<le> phdr img (phnum img)" using i by (simp add: phdr_def)
  then have p: "?p + 32 \<le> 4096" and lt: "?p < phdr img (phnum img)" using pm by simp_all
  have fld: "ld32 m (of_nat (0x10000 + ?p) + of_nat k) = i32 img (?p + k)" if "header_in img m" "k + 4 \<le> 32" for m k
    using ld32_header [OF that(1), of "?p + k"] p that(2) by (simp add: add.assoc)
  have f: "ld32 m (of_nat (0x10000 + ?p) + 4) = of_nat (seg_off img i)" "ld32 m (of_nat (0x10000 + ?p) + 12) = of_nat ?pa"
      "ld32 m (of_nat (0x10000 + ?p) + 16) = of_nat ?n" "ld32 m (of_nat (0x10000 + ?p) + 20) = of_nat (seg_mem img i)"
    if "header_in img m" for m
    using fld [OF that, of 4] fld [OF that, of 12] fld [OF that, of 16] fld [OF that, of 20]
    by (simp_all add: seg_off_def seg_pa_def seg_file_def seg_mem_def)
  have o: "seg_off img i < 2 ^ 32" "seg_mem img i < 2 ^ 32" using unat32_less by (simp_all add: seg_off_def seg_mem_def)
  have rp: "?r \<le> ?pa" using seg by simp
  obtain t where t: "readseg st dv (of_nat ?pa) (of_nat ?n) (of_nat (seg_off img i)) b = Some \<lparr>bt_mem = m1, bt_time = t\<rparr>"
    using readseg_law [OF hw o(1) rp seg(2)] unfolding m1_def by blast
  have hm: "header_in img m1" using h seg unfolding header_in_def by (auto simp: m1_def patched_def unat_of_nat32 simp del: of_nat_add)
  have w: "(if of_nat ?n < (of_nat (seg_mem img i) :: u32) then stosb m1 (of_nat (?pa + ?n)) 0 (unat (of_nat (seg_mem img i) - of_nat ?n :: u32)) else m1) =
      with_segment img i (bt_mem b)"
  proof -
    have u: "unat (of_nat ?n :: u32) = ?n" "unat (of_nat (seg_mem img i) :: u32) = seg_mem img i" using seg o by (simp_all add: unat_of_nat32)
    then have "of_nat ?n < (of_nat (seg_mem img i) :: u32) \<longleftrightarrow> ?n < seg_mem img i" by (simp add: word_less_nat_alt)
    moreover have "?n < seg_mem img i \<Longrightarrow> unat (of_nat (seg_mem img i) - of_nat ?n :: u32) = seg_mem img i - ?n"
      using u by (subst unat_sub) (simp_all add: word_le_nat_alt)
    ultimately show ?thesis using stosb_patched [of "?pa + ?n" "seg_mem img i - ?n" m1] seg(3)
      by (simp add: m1_def with_segment_def Let_def del: of_nat_add)
  qed
  have c: "(of_nat (0x10000 + ?p) :: u32) < of_nat (0x10000 + phdr img (phnum img))"
    using lt pm by (simp add: word_less_nat_alt unat_of_nat32 del: of_nat_add)
  have nx: "(of_nat (0x10000 + ?p) :: u32) + 32 = of_nat (0x10000 + phdr img (Suc i))" by (simp add: phdr_def)
  have "load_loop st dv (of_nat (0x10000 + ?p)) (of_nat (0x10000 + phdr img (phnum img))) b =
      load_loop st dv (of_nat (0x10000 + phdr img (Suc i))) (of_nat (0x10000 + phdr img (phnum img)))
        \<lparr>bt_mem = (if of_nat ?n < (of_nat (seg_mem img i) :: u32) then
           stosb m1 (of_nat (?pa + ?n)) 0 (unat (of_nat (seg_mem img i) - of_nat ?n :: u32)) else m1), bt_time = t\<rparr>"
    using c t by (subst load_loop.simps)
      (simp only: if_True Let_def f [OF h] f [OF hm] Option.bind.simps boot.simps nx of_nat_add [symmetric] if_distrib, simp)
  then show ?thesis unfolding w by blast
qed

lemma load_rest:
  assumes hw: "drive_ready st" "serves dv img" and k: "kernel_file img"
    and "i \<le> phnum img" "header_in img (bt_mem b)" "\<forall>j < i. loaded img j (bt_mem b)"
  shows "\<exists>b'. load_loop st dv (of_nat (0x10000 + phdr img i)) (of_nat (0x10000 + phdr img (phnum img))) b = Some b' \<and>
    header_in img (bt_mem b') \<and> (\<forall>j < phnum img. loaded img j (bt_mem b'))"
  using assms(4-)
proof (induction "phnum img - i" arbitrary: i b)
  case 0
  then have "i = phnum img" by simp
  then show ?case using 0 by (subst load_loop.simps) simp
next
  case (Suc d)
  then have i: "i < phnum img" by simp
  obtain t where t: "load_loop st dv (of_nat (0x10000 + phdr img i)) (of_nat (0x10000 + phdr img (phnum img))) b =
      load_loop st dv (of_nat (0x10000 + phdr img (Suc i))) (of_nat (0x10000 + phdr img (phnum img)))
        \<lparr>bt_mem = with_segment img i (bt_mem b), bt_time = t\<rparr>"
    using load_step [OF hw k i Suc.prems(2)] by blast
  let ?b = "\<lparr>bt_mem = with_segment img i (bt_mem b), bt_time = t\<rparr>"
  have seg: "0x11000 + seg_off img i mod 512 \<le> seg_pa img i" "seg_pa img i + seg_file img i + 512 < 2 ^ 32" "seg_pa img i + seg_mem img i \<le> 2 ^ 32"
    using k i by (auto simp: kernel_file_def)
  have h: "header_in img (bt_mem ?b)" using header_kept [OF Suc.prems(2)] seg by (simp add: seg_lo_def)
  have l: "loaded img j (with_segment img i (bt_mem b))" if j: "j < Suc i" for j
  proof (cases "j = i")
    case True
    then show ?thesis using with_segment_loaded [of img i] seg by simp
  next
    case False
    then have "seg_pa img j + max (seg_file img j) (seg_mem img j) \<le> seg_lo img i" using k i j by (simp add: kernel_file_def)
    moreover have "seg_lo img i < 2 ^ 32" using seg(2) by (simp add: seg_lo_def)
    ultimately show ?thesis using loaded_kept [of img j "bt_mem b" i] Suc.prems(3) j False by simp
  qed
  show ?case using Suc.hyps(1) [of "Suc i" ?b] Suc.hyps(2) i h l unfolding t by simp
qed

text \<open>C13: the boot loader loads the kernel. When the disk holds an ELF file whose headers lie in its first page and whose segments lie above the
  scratch space of the loader and in increasing order, so that the sectors of each start behind the segments before it,
  and the controller delivers the sectors asked for, \<open>bootmain\<close> ends in the call of the entry point of the file; then every segment
  of the file is at its physical address, and zeros follow it up to its size in memory, although whole
  sectors were read. For a file with another magic number it returns.\<close>

theorem bootmain_loads:
  assumes hw: "drive_ready st" "serves dv img"
  shows "(kernel_file img \<longrightarrow> (\<exists>b'. bootmain st dv b = Some (Some (i32 img 24), b') \<and> (\<forall>i < phnum img. loaded img i (bt_mem b')))) \<and>
    (i32 img 0 \<noteq> ELF_MAGIC \<longrightarrow> (\<exists>b'. bootmain st dv b = Some (None, b')))"
proof -
  obtain t where t: "readseg st dv 0x10000 4096 0 b = Some \<lparr>bt_mem = patched (bt_mem b) 0x10000 (0x10000 + 512 * 8) img, bt_time = t\<rparr>"
    using readseg_law [OF hw, of 0 "0x10000" 4096 b] by auto
  let ?b = "\<lparr>bt_mem = patched (bt_mem b) 0x10000 (0x10000 + 512 * 8) img, bt_time = t\<rparr>"
  have h: "header_in img (bt_mem ?b)" unfolding header_in_def by (auto simp: patched_def unat_of_nat32 simp del: of_nat_add)
  have magic: "ld32 m 0x10000 = i32 img 0" and entry: "ld32 m (0x10000 + 24) = i32 img 24" and phoff: "ld32 m (0x10000 + 28) = i32 img 28"
    if "header_in img m" for m using ld32_header [OF that, of 0] ld32_header [OF that, of 24] ld32_header [OF that, of 28] by simp_all
  show ?thesis
  proof (intro conjI impI)
    assume k: "kernel_file img"
    let ?m = "bt_mem ?b"
    have "?m (0x10000 + 44) = img 44" "?m (0x10000 + 45) = img 45" using h [unfolded header_in_def, rule_format, of 44] h [unfolded header_in_def, rule_format, of 45] by simp_all
    then have e: "of_nat (0x10000 + phdr img 0) + 32 * ucast (get16 [?m (0x10000 + 44), ?m (0x10000 + 45)]) =
        (of_nat (0x10000 + phdr img (phnum img)) :: u32)" by (simp only:) (simp add: phdr_def phnum_def)
    have p: "0x10000 + ld32 ?m (0x10000 + 28) = of_nat (0x10000 + phdr img 0)" unfolding phoff [OF h] by (simp add: phdr_def)
    obtain b' where b': "load_loop st dv (of_nat (0x10000 + phdr img 0)) (of_nat (0x10000 + phdr img (phnum img))) ?b = Some b'"
        "header_in img (bt_mem b')" "\<forall>j < phnum img. loaded img j (bt_mem b')"
      using load_rest [OF hw k _ h] by blast
    have "bootmain st dv b = Some (Some (i32 img 24), b')"
      using t b'(1) k unfolding bootmain_def Let_def
      by (simp only: Option.bind.simps magic [OF h] e p entry [OF b'(2)]) (simp add: kernel_file_def)
    then show "\<exists>b'. bootmain st dv b = Some (Some (i32 img 24), b') \<and> (\<forall>i < phnum img. loaded img i (bt_mem b'))" using b'(3) by blast
  next
    assume "i32 img 0 \<noteq> ELF_MAGIC"
    then show "\<exists>b'. bootmain st dv b = Some (None, b')"
      using t unfolding bootmain_def Let_def by (simp only: Option.bind.simps magic [OF h]) simp
  qed
qed

text \<open>A kernel of three bytes with two zeros behind it, and a controller.\<close>

definition demo_kernel :: "nat \<Rightarrow> byte" where
  "demo_kernel p = (case map_of [(0, 0x7F), (1, 0x45), (2, 0x4C), (3, 0x46), (26, 0x10), (28, 52), (44, 1), (57, 0x10), (66, 0x10),
     (68, 3), (72, 5), (4096, 7), (4097, 8), (4098, 9)] p of Some b \<Rightarrow> b | None \<Rightarrow> 0)"

definition demo_drive :: "(nat \<Rightarrow> byte) \<Rightarrow> drive" where
  "demo_drive img a b c d = map (\<lambda>i. img (512 * (unat (get32 [a, b, c, d AND 0x0F]) - 1) + i)) [0..<512]"

lemma demo_drive_serves: "serves (demo_drive img) img"
  unfolding serves_def
proof (intro allI impI)
  fix n :: u32 assume n: "0 < n \<and> n < 2 ^ 28"
  let ?w = "ucast (drop_bit 24 n) :: byte"
  have "unat n div 2 ^ 24 < 16" using n less_mult_imp_div_less [of "unat n" 16 "2 ^ 24"] by (simp add: word_less_nat_alt)
  then have "?w = of_nat (unat n div 2 ^ 24)" "unat n div 2 ^ 24 \<in> set [0..<16]"
    by (simp_all add: word_unat_eq_iff unsigned_ucast_eq drop_bit_eq_div unat_div_distrib unsigned_of_nat take_bit_eq_mod)
  moreover have "list_all (\<lambda>k. (of_nat k OR 0xE0) AND 0x0F = (of_nat k :: byte)) [0..<16]" by code_simp
  ultimately have "(?w OR 0xE0) AND 0x0F = ?w" by (simp only: list_all_iff)
  then have "get32 [ucast n, ucast (drop_bit 8 n), ucast (drop_bit 16 n), (ucast (drop_bit 24 n) OR 0xE0) AND 0x0F] = n"
    using get32_le32 [of n "[]"] by (simp add: le32_def)
  then show "demo_drive img (ucast n) (ucast (drop_bit 8 n)) (ucast (drop_bit 16 n)) (ucast (drop_bit 24 n) OR 0xE0) =
      map (\<lambda>i. img (512 * (unat n - 1) + i)) [0..<512]" by (simp only: demo_drive_def)
qed

lemma demo_kernel_fields: "i32 demo_kernel 0 = ELF_MAGIC" "i32 demo_kernel 24 = 0x100000" "phnum demo_kernel = 1" "phdr demo_kernel i = 52 + 32 * i"
  "seg_off demo_kernel 0 = 4096" "seg_pa demo_kernel 0 = 0x100000" "seg_file demo_kernel 0 = 3" "seg_mem demo_kernel 0 = 5"
  by (simp_all add: i32_def demo_kernel_def ELF_MAGIC_def phnum_def phdr_def seg_off_def seg_pa_def seg_file_def seg_mem_def push_bit_eq_mult)

theorem bootmain_loads_witness:
  "\<exists>b'. bootmain (\<lambda>_. 0x40) (demo_drive demo_kernel) \<lparr>bt_mem = \<lambda>_. 0, bt_time = 0\<rparr> = Some (Some 0x100000, b') \<and>
     bytes (bt_mem b') 0x100000 5 = [7, 8, 9, 0, 0]"
proof -
  have r: "drive_ready (\<lambda>_. 0x40)" by (simp add: drive_ready_def)
  have k: "kernel_file demo_kernel" by (simp add: kernel_file_def demo_kernel_fields)
  obtain b' where b: "bootmain (\<lambda>_. 0x40) (demo_drive demo_kernel) \<lparr>bt_mem = \<lambda>_. 0, bt_time = 0\<rparr> = Some (Some 0x100000, b')"
      "loaded demo_kernel 0 (bt_mem b')"
    using bootmain_loads [OF r demo_drive_serves, of demo_kernel "\<lparr>bt_mem = \<lambda>_. 0, bt_time = 0\<rparr>"] k by (auto simp: demo_kernel_fields)
  note l = b(2) [unfolded loaded_def demo_kernel_fields, THEN conjunct1, rule_format]
  note z = b(2) [unfolded loaded_def demo_kernel_fields, THEN conjunct2, rule_format]
  have "bt_mem b' 0x100000 = 7" "bt_mem b' 0x100001 = 8" "bt_mem b' 0x100002 = 9" "bt_mem b' 0x100003 = 0" "bt_mem b' 0x100004 = 0"
    using l [of 0] l [of 1] l [of 2] z [of 3] z [of 4] by (simp_all add: demo_kernel_def)
  then have "bytes (bt_mem b') 0x100000 5 = [7, 8, 9, 0, 0]" by (simp add: bytes_def upt_rec)
  then show ?thesis using b(1) by blast
qed

end
