(* ===== verification/Spec2Isabelle.thy ===== *)
theory Spec2Isabelle
  imports Lock_Props Log_Props Bio_Props Alloc_Props Vm_Props Pipe_Props Console_Props Proc_Props File_Props
    Fs_Props Fs_Rw_Props Syscall_Props String_Props Printf_Props Grep Kdebug_Props Umalloc_Props Shell_Run Ide_Props
    Kbd_Props Jos_Monitor_Props Jos_Screen Uprogs Mkfs_Props Mp Boot
begin

text \<open>
  A verification development of two small operating systems: xv6, with its user programs (src/homeworks/xv6-public), and
  the parts of JOS that are complete in the second laboratory (src/labs/lab02-mem-management). The theories
  model the C code function by function and prove what makes each part correct.

  \<^bold>\<open>How the parts interact.\<close> The boot loader brings the kernel into memory, the firmware tables name its processors.
  Spin locks protect all shared state; \<open>sleep\<close> and \<open>wakeup\<close> order the threads that wait; the disk driver serves a queue of
  buffers from its interrupt; the buffer cache hands out locked blocks; the log turns the block writes of one system
  call into a transaction; the file system keeps inodes and directories in these blocks; files, pipes and
  the console are what descriptors name; processes, paging and \<open>exec\<close> use the page allocator; traps and system calls
  lead into all of it. The image that the file system runs on is built by mkfs. The user programs sit on the system calls.

  \<^bold>\<open>Conventions.\<close> A machine integer is a word of its width (\<open>byte\<close>, \<open>u16\<close>, \<open>u32\<close>) and wraps; an \<open>int\<close> that cannot leave its
  range is an HOL integer, and so are the counters of printfmt.c (the characters printed, a width in a format), whose
  overflow is undefined in C and needs an output or a width of \<open>2 ^ 31\<close>. A pointer into a kernel table is the index of the entry; other memory is a map from 32-bit
  addresses to bytes (\<open>Cmem\<close>). The state is one record, extended by each component with its own variables, so that a
  lower component works on every extension. A kernel function gives an \<open>outcome\<close> (\<open>Kern\<close>): it returns, panics, spins for
  ever, switches to the scheduler, or is undefined. A function that the scheduler cuts in two has its second half under
  the name with \<open>_resume\<close>.

  \<^bold>\<open>Theories and sources\<close> (files of xv6 unless JOS is named):
  \<^item> \<open>Prelude\<close>, \<open>Kern\<close>, \<open>Cmem\<close>: byte layouts, the shared kernel state (proc.h, spinlock.h, sleeplock.h), outcomes, memory.
  \<^item> \<open>Spinlock\<close>, \<open>Sched\<close>, \<open>Sleeplock\<close>, \<open>Lock_Props\<close>: spinlock.c, \<open>sched\<close>, \<open>sleep\<close>, \<open>wakeup\<close>, \<open>kill\<close> of proc.c, sleeplock.c. Mutual
    exclusion over all interleavings of the instructions of several CPUs (\<open>lock_step\<close>); no lost wakeup in any interleaving
    of the operations of \<open>sleep\<close> and \<open>wakeup\<close> (\<open>wstep\<close>).
  \<^item> \<open>Chain\<close>, \<open>Bio\<close>, \<open>Bio_Spec\<close>, \<open>Bio_Laws\<close>, \<open>Block_Cache\<close>, \<open>Bio_Cache\<close>, \<open>Bio_Props\<close>: bio.c with memide.c, as a map from block
    numbers to contents.
  \<^item> \<open>Ide\<close>, \<open>Ide_Props\<close>: ide.c, the queue of the driver and its interrupt.
  \<^item> \<open>Log\<close>, \<open>Log_Spec\<close>, \<open>Log_Commit\<close>, \<open>Log_Crash\<close>, \<open>Log_Txn\<close>, \<open>Log_Props\<close>, \<open>Log_Store\<close>, \<open>Block_Txn\<close>: log.c: what \<open>commit\<close> does, a power
    failure at any disk write and the recovery after it, the reservation of log space.
  \<^item> \<open>Fs\<close>, \<open>Fs_Store\<close>, \<open>Fs_File\<close>, \<open>Fs_Rw\<close>, \<open>Fs_Rw_Props\<close>, \<open>Fs_Props\<close>: fs.c: allocation, the block map of an inode, reading and
    writing as operations on a list of bytes, inodes in blocks, path names.
  \<^item> \<open>Mkfs\<close>, \<open>Mkfs_Laws\<close>, \<open>Mkfs_Props\<close>: mkfs.c: each operation on sectors as one on the list of files, and the whole image
    in the terms of fs.c (\<open>fblk\<close>, \<open>file_ok\<close>, \<open>used\<close>).
  \<^item> \<open>File\<close>, \<open>File_Props\<close>, \<open>Ring\<close>, \<open>Pipe_Props\<close>: file.c, pipe.c; a pipe refines a bounded queue on every
    path of its writer and its reader.
  \<^item> \<open>Kalloc\<close>, \<open>Page_Alloc\<close>, \<open>Alloc_Props\<close>, \<open>Vm\<close>, \<open>Vm_Spec\<close>, \<open>Vm_Props\<close>: kalloc.c, vm.c.
  \<^item> \<open>Console\<close>, \<open>Console_Props\<close>, \<open>Kbd\<close>, \<open>Kbd_Props\<close>: console.c, kbd.c, kbd.h: from scan codes to the reader of a line.
  \<^item> \<open>Proc\<close>, \<open>Proc_Props\<close>, \<open>Exec\<close>, \<open>Syscall\<close>, \<open>Syscall_Props\<close>: the rest of proc.c, exec.c, syscall.c, sysproc.c, sysfile.c, trap.c.
    The scheduler, followed from one context switch to the next, leaves no runnable process aside.
  \<^item> \<open>Boot\<close>, \<open>Mp\<close>: bootmain.c, mp.c, model and properties.
  \<^item> \<open>Kstring\<close>, \<open>Ulib\<close>, \<open>Jos_String\<close>, \<open>String_Props\<close>: string.c, ulib.c, lib/string.c of JOS.
  \<^item> \<open>Umalloc\<close>, \<open>Umalloc_Free\<close>, \<open>Umalloc_Alloc\<close>, \<open>Umalloc_Props\<close>: umalloc.c, on the \<open>sbrk\<close> of this
    kernel, which never fails; the theorems ask for requests that have room above the break in the 32-bit address space.
  \<^item> \<open>Grep\<close>, \<open>Uprogs\<close>: grep.c, printf.c, wc.c. \<open>Shell\<close>, \<open>Shell_Parse\<close>, \<open>Shell_Print\<close>, \<open>Shell_Run\<close>: sh.c, from the bytes typed at the
    console to the programs executed; the system calls it makes (fork, wait, exec, pipe, dup, open, close, chdir) are given by their documented effect
    on a table of descriptors.
  \<^item> \<open>Printfmt\<close>, \<open>Printf_Props\<close>, \<open>Kdebug\<close>, \<open>Kdebug_Props\<close>, \<open>Jos_Cons\<close>, \<open>Jos_Cons_Props\<close>, \<open>Jos_Screen\<close>, \<open>Jos_Monitor\<close>,
    \<open>Jos_Monitor_Props\<close>: lib/printfmt.c, kern/kdebug.c, kern/console.c, lib/readline.c, kern/printf.c, kern/monitor.c of JOS.
  \<^item> \<open>Demo\<close>, \<open>Demo_Files\<close>: concrete states at which the theorems are applied.

  \<^bold>\<open>Interfaces.\<close> Four locales state what one component promises another; each is interpreted on the model of the code.
  \<open>block_cache\<close> (reading, writing and releasing a block, interpreted as \<open>bc\<close> by bio.c) carries the lemmas of the log;
  \<open>block_txn\<close> (the same inside a transaction, interpreted as \<open>tx\<close> by log.c) carries those of the file system;
  \<open>page_allocator\<close> (\<open>pa\<close>, kalloc.c) those of the page tables; \<open>fifo\<close> those of a bounded queue, interpreted as \<open>pq\<close> by the buffer of a pipe and
  as \<open>cq\<close> by the input buffer of the console of JOS.

  \<^bold>\<open>Loops.\<close> A loop whose end depends on memory or on hardware is a \<open>partial_function\<close> with the value \<open>None\<close>
  when it does not end, or gives \<open>Spin\<close>. Where a bound is written, it is never reached by a loop that ends: a walk through the
  buffer list takes at most \<open>NBUF + 1\<close> steps when the list is a cycle through the head, as the invariant of the
  cache says; loops over pages are bounded by \<open>2^20\<close>, the number of pages of the address space; the parser of the
  shell recurses at most \<open>4 * length + 4\<close> deep, since every fourth call consumes a character, which the theorem on
  \<open>parsecmd\<close> proves; the first loop of the shell opens at most three descriptors before it gets descriptor 3.

  \<^bold>\<open>Parameters.\<close> The disk image of memide.c, the status and the sectors of a disk controller, the scan codes of a
  keyboard controller, the bytes that \<open>read\<close> returns to a user program, and the files given to mkfs are arguments or
  fields of the state. \<open>serves\<close> and \<open>drive_ready\<close> (\<open>Boot\<close>) are the assumed behaviour of a disk controller.

  \<^bold>\<open>Not modelled.\<close> \<open>procdump\<close>, the listing of the processes that C-P prints. Assembly (the trap vectors, \<open>swtch\<close>, the start code); device registers of lapic.c, ioapic.c, picirq.c
  and uart.c, and segment descriptors, whose effect is that of the hardware; main.c, which calls the initialisations in
  order; the user programs that only pass arguments to system calls, and the test programs. kern/pmap.c of JOS is the exercise
  as handed out: its allocation and mapping functions have empty bodies and \<open>mem_init\<close> panics before it uses them.
  The shell of homework 2 repeats the parser of sh.c on the calls of the host system. The directories hw01-boot-xv6, hw03-syscall and lab01-boot-pc hold
  earlier copies of the same files.
\<close>

end
